(* ===== verification/Prelude.thy ===== *)
theory Prelude
  imports Main "HOL-Library.Word"
begin

text \<open>
  Shared vocabulary of the development.

  \<^item> \<open>fault\<close> and the result type \<open>'a res\<close>: a C function returns \<open>Ok v\<close>, or \<open>Fault e\<close> when an
    \<open>assert\<close> fails or the C code would read or write outside an allocated array, read a cell
    nobody has written, or call through a NULL pointer. \<open>CounterWrap\<close> stands for an unsigned
    counter that would be decremented below zero, \<open>SignedOverflow\<close> for a conversion or an
    addition whose value does not fit its signed type, \<open>ProcessExit\<close> for a call that ends the
    process after an error, \<open>OutOfFuel\<close> stands for a recursion that
    goes deeper than the bound its model gives it. \<open>bindE\<close> sequences such computations.
  \<^item> \<open>'a carray\<close>: a heap block as \<open>xmalloc\<close>, \<open>xcalloc\<close> and \<open>xrealloc\<close> (alloc.c) hand it out,
    a list of cells that may be uninitialised, with checked \<open>cread\<close>, \<open>cwrite\<close> and \<open>memmove\<close>.
  \<^item> the interface locales that several containers of libutils share.

  The allocators of alloc.c terminate the process when memory runs out (CheckResult), so a model
  state is a state of a process whose allocations have succeeded. A \<open>size_t\<close> that counts the cells
  of an allocated block is therefore far below \<open>2 ^ 64 / sizeof (void *)\<close> and is a \<open>nat\<close>; integers
  whose width matters (\<open>int\<close> parameters, hashes) are kept at their width.
\<close>

section \<open>Collections of rewrite rules\<close>

named_theorems c_simps \<open>evaluation of checked C operations under their preconditions\<close>
named_theorems rep_simps \<open>unfolding of representation predicates\<close>

section \<open>Faults and results\<close>

datatype fault = AssertFail | OutOfBounds | UninitRead | NullDeref | CounterWrap | SignedOverflow | OutOfFuel | ProcessExit

type_synonym 'a res = "fault + 'a"

abbreviation Ok :: "'a \<Rightarrow> 'a res" where
  "Ok x \<equiv> Inr x"

abbreviation Fault :: "fault \<Rightarrow> 'a res" where
  "Fault e \<equiv> Inl e"

fun bindE :: "'a res \<Rightarrow> ('a \<Rightarrow> 'b res) \<Rightarrow> 'b res" where
  "bindE (Inl e) f = Inl e"
| "bindE (Inr x) f = f x"

definition c_assert :: "bool \<Rightarrow> unit res" where
  "c_assert b = (if b then Ok () else Fault AssertFail)"

lemma bindE_cong [fundef_cong]:
  "m = m' \<Longrightarrow> (\<And>x. m' = Inr x \<Longrightarrow> f x = g x) \<Longrightarrow> bindE m f = bindE m' g"
  by (cases m') auto

lemma bindE_Ok_iff [simp]: "bindE m f = Inr y \<longleftrightarrow> (\<exists>x. m = Inr x \<and> f x = Inr y)"
  by (cases m) auto

lemma bindE_assoc: "bindE (bindE m f) g = bindE m (\<lambda>x. bindE (f x) g)"
  by (cases m) auto

lemma bindE_Ok_right [simp]: "bindE m Inr = m"
  by (cases m) auto

lemma c_assert_simps [simp]:
  "c_assert True = Ok ()" "c_assert False = Fault AssertFail"
  by (simp_all add: c_assert_def)

lemma c_assert_Ok_iff [simp]: "c_assert b = Inr u \<longleftrightarrow> b"
  by (simp add: c_assert_def)

section \<open>Pointers\<close>

text \<open>A \<open>void *\<close> item is \<open>NULL\<close> or a pointer that stands for the value behind it.\<close>

type_synonym 'a ptr = "'a option"

abbreviation NULL :: "'a ptr" where
  "NULL \<equiv> None"

abbreviation Ptr :: "'a \<Rightarrow> 'a ptr" where
  "Ptr x \<equiv> Some x"

section \<open>Heap blocks\<close>

datatype 'a cell = Undef | Val 'a

type_synonym 'a carray = "'a cell list"

definition xmalloc :: "nat \<Rightarrow> 'a carray" where
  "xmalloc n = replicate n Undef"

definition xcalloc :: "nat \<Rightarrow> 'a \<Rightarrow> 'a carray" where
  "xcalloc n zero = replicate n (Val zero)"

definition xrealloc :: "'a carray \<Rightarrow> nat \<Rightarrow> 'a carray" where
  "xrealloc a n = take n a @ replicate (n - length a) Undef"

definition cread :: "'a carray \<Rightarrow> nat \<Rightarrow> 'a res" where
  "cread a i =
     (if i < length a then (case a ! i of Undef \<Rightarrow> Fault UninitRead | Val v \<Rightarrow> Ok v)
      else Fault OutOfBounds)"

definition cwrite :: "'a carray \<Rightarrow> nat \<Rightarrow> 'a \<Rightarrow> 'a carray res" where
  "cwrite a i v = (if i < length a then Ok (a[i := Val v]) else Fault OutOfBounds)"

text \<open>
  \<open>memmove (a + dst, a + src, n)\<close> inside one block: both ranges have to lie in it. Copying
  uninitialised cells is allowed, reading them afterwards is not.
\<close>

definition memmove :: "'a carray \<Rightarrow> nat \<Rightarrow> nat \<Rightarrow> nat \<Rightarrow> 'a carray res" where
  "memmove a dst src n =
     (if src + n \<le> length a \<and> dst + n \<le> length a
      then Ok (take dst a @ take n (drop src a) @ drop (dst + n) a)
      else Fault OutOfBounds)"

text \<open>The values of \<open>n\<close> consecutive cells, read from left to right.\<close>

fun cread_range :: "'a carray \<Rightarrow> nat \<Rightarrow> nat \<Rightarrow> 'a list res" where
  "cread_range a i 0 = Ok []"
| "cread_range a i (Suc n) =
     bindE (cread a i) (\<lambda>x. bindE (cread_range a (Suc i) n) (\<lambda>xs. Ok (x # xs)))"

text \<open>Writing values to consecutive cells.\<close>

fun cwrite_range :: "'a carray \<Rightarrow> nat \<Rightarrow> 'a list \<Rightarrow> 'a carray res" where
  "cwrite_range a i [] = Ok a"
| "cwrite_range a i (x # xs) = bindE (cwrite a i x) (\<lambda>b. cwrite_range b (Suc i) xs)"

text \<open>\<open>Swap (&a[i], &a[j])\<close>.\<close>

definition cswap :: "'a carray \<Rightarrow> nat \<Rightarrow> nat \<Rightarrow> 'a carray res" where
  "cswap a i j =
     bindE (cread a i) (\<lambda>t. bindE (cread a j) (\<lambda>y.
     bindE (cwrite a i y) (\<lambda>b. cwrite b j t)))"

lemma length_blocks [simp]:
  "length (xmalloc n) = n" "length (xcalloc n z) = n" "length (xrealloc a n) = n"
  by (simp_all add: xmalloc_def xcalloc_def xrealloc_def)

lemma cread_Val [simp]: "i < length a \<Longrightarrow> a ! i = Val v \<Longrightarrow> cread a i = Ok v"
  by (simp add: cread_def)

lemma cwrite_Ok [simp]: "i < length a \<Longrightarrow> cwrite a i v = Ok (a[i := Val v])"
  by (simp add: cwrite_def)

lemma cread_Ok_iff: "cread a i = Inr v \<longleftrightarrow> i < length a \<and> a ! i = Val v"
  by (auto simp: cread_def split: cell.splits)

lemma cwrite_Ok_iff: "cwrite a i v = Inr b \<longleftrightarrow> i < length a \<and> b = a[i := Val v]"
  by (auto simp: cwrite_def)

lemma length_memmove: "memmove a d s n = Inr b \<Longrightarrow> length b = length a"
  by (auto simp: memmove_def split: if_splits)

lemma xrealloc_prefix: "m \<le> length a \<Longrightarrow> m \<le> n \<Longrightarrow> take m (xrealloc a n) = take m a"
  by (simp add: xrealloc_def)

lemma cwrite_range_Ok:
  "i + length xs \<le> length a \<Longrightarrow> cwrite_range a i xs = Ok (take i a @ map Val xs @ drop (i + length xs) a)"
proof (induction xs arbitrary: a i)
  case (Cons x xs)
  then show ?case
    by (simp add: take_Suc_conv_app_nth drop_update_cancel take_update_cancel)
qed simp

text \<open>\<open>stores a xs\<close>: the block starts with the (initialised) values \<open>xs\<close>.\<close>

definition stores :: "'a carray \<Rightarrow> 'a list \<Rightarrow> bool" where
  "stores a xs \<longleftrightarrow> take (length xs) a = map Val xs"

lemma stores_length: "stores a xs \<Longrightarrow> length xs \<le> length a"
  by (metis length_map length_take min.cobounded1 stores_def)

lemma stores_nth: "stores a xs \<Longrightarrow> i < length xs \<Longrightarrow> a ! i = Val (xs ! i)"
  by (metis nth_map nth_take stores_def)

lemma stores_cread [simp]: "stores a xs \<Longrightarrow> i < length xs \<Longrightarrow> cread a i = Ok (xs ! i)"
  using stores_length [of a xs] stores_nth [of a xs i] by simp

lemma stores_nthI:
  "length xs \<le> length a \<Longrightarrow> (\<And>i. i < length xs \<Longrightarrow> a ! i = Val (xs ! i)) \<Longrightarrow> stores a xs"
  by (auto simp: stores_def list_eq_iff_nth_eq)

lemma stores_Nil [simp]: "stores a []"
  by (simp add: stores_def)

lemma stores_xrealloc [simp]: "stores a xs \<Longrightarrow> length xs \<le> n \<Longrightarrow> stores (xrealloc a n) xs"
  using stores_length [of a xs] by (simp add: stores_def xrealloc_prefix)

lemma stores_snoc:
  "stores a xs \<Longrightarrow> length xs < length a \<Longrightarrow> stores (a[length xs := Val x]) (xs @ [x])"
  by (rule stores_nthI) (auto simp: nth_append stores_nth nth_list_update less_Suc_eq)

lemma stores_update:
  "stores a xs \<Longrightarrow> i < length xs \<Longrightarrow> stores (a[i := Val x]) (xs[i := x])"
  using stores_length [of a xs]
  by (intro stores_nthI) (auto simp: stores_nth nth_list_update)

lemma stores_take: "stores a xs \<Longrightarrow> stores a (take n xs)"
  using stores_length [of a xs] by (intro stores_nthI) (auto simp: stores_nth)

lemma stores_inj: "stores a xs \<Longrightarrow> stores a ys \<Longrightarrow> length xs = length ys \<Longrightarrow> xs = ys"
  by (metis (no_types, lifting) cell.inject nth_equalityI stores_nth)

lemma stores_cread_range [simp]:
  "stores a xs \<Longrightarrow> i + n \<le> length xs \<Longrightarrow> cread_range a i n = Ok (take n (drop i xs))"
proof (induction n arbitrary: i)
  case (Suc n)
  then have "drop i xs = xs ! i # drop (Suc i) xs" by (simp add: Cons_nth_drop_Suc)
  with Suc show ?case by simp
qed simp

lemma stores_cswap:
  assumes "stores a xs" "i < length xs" "j < length xs"
  shows "\<exists>b. cswap a i j = Ok b \<and> stores b (xs[i := xs ! j, j := xs ! i]) \<and> length b = length a"
proof -
  have "i < length a" "j < length a" using assms stores_length [of a xs] by auto
  moreover have "stores (a[i := Val (xs ! j), j := Val (xs ! i)]) (xs[i := xs ! j, j := xs ! i])"
    using assms by (simp add: stores_update)
  ultimately show ?thesis using assms by (simp add: cswap_def)
qed

text \<open>Closing a gap with \<open>memmove\<close>, as SeqRemoveRange and ArrayMapRemove do.\<close>

lemma memmove_close_gap:
  assumes st: "stores a xs" and i: "i \<le> j" "j \<le> length xs"
  shows "\<exists>b. memmove a i j (length xs - j) = Ok b \<and> stores b (take i xs @ drop j xs)
    \<and> length b = length a"
proof -
  let ?n = "length xs - j"
  let ?b = "take i a @ take ?n (drop j a) @ drop (i + ?n) a"
  have len: "length xs \<le> length a" using st by (rule stores_length)
  then have ok: "memmove a i j ?n = Ok ?b" using i by (simp add: memmove_def)
  have "take i a = map Val (take i xs)"
    using st i by (metis le_trans min.absorb1 stores_def take_map take_take)
  moreover have "take ?n (drop j a) = map Val (drop j xs)"
    using st by (metis drop_map stores_def take_drop drop_take)
  ultimately have "stores ?b (take i xs @ drop j xs)"
    using i by (simp add: stores_def min_def)
  moreover have "length ?b = length a" using len i by simp
  ultimately show ?thesis using ok by blast
qed

section \<open>Lists\<close>

lemma split_three: "i \<le> j \<Longrightarrow> xs = take i xs @ take (j - i) (drop i xs) @ drop j xs"
  using append_take_drop_id [of "j - i" "drop i xs"] by simp

section \<open>First match in a list\<close>

fun first_index :: "('a \<Rightarrow> bool) \<Rightarrow> 'a list \<Rightarrow> nat option" where
  "first_index P [] = None"
| "first_index P (x # xs) = (if P x then Some 0 else map_option Suc (first_index P xs))"

lemma first_index_None_iff: "first_index P xs = None \<longleftrightarrow> (\<forall>x \<in> set xs. \<not> P x)"
  by (induction xs) auto

lemma first_index_SomeD:
  "first_index P xs = Some i \<Longrightarrow> i < length xs \<and> P (xs ! i) \<and> (\<forall>j < i. \<not> P (xs ! j))"
proof (induction xs arbitrary: i)
  case (Cons x xs)
  then show ?case
    by (auto split: if_splits simp: less_Suc_eq_0_disj nth_Cons')
qed simp

lemma first_index_drop:
  "i < length xs \<Longrightarrow> first_index P (drop i xs)
    = (if P (xs ! i) then Some 0 else map_option Suc (first_index P (drop (Suc i) xs)))"
  by (simp add: Cons_nth_drop_Suc [symmetric])

section \<open>Fixed-width integers\<close>

text \<open>Conversion of an \<open>size_t\<close> value to \<open>int\<close>: the value modulo \<open>2 ^ 32\<close>, read as signed.\<close>

definition int_of_size :: "nat \<Rightarrow> int" where
  "int_of_size n = sint (of_nat n :: 32 word)"

lemma int_of_size_small [simp]: "n < 2 ^ 31 \<Longrightarrow> int_of_size n = int n"
  by (simp add: int_of_size_def signed_of_nat signed_take_bit_int_eq_self)

section \<open>Interfaces shared by containers\<close>

text \<open>Adding a list of items one by one, and taking \<open>n\<close> items one by one.\<close>

fun run_all :: "('s \<Rightarrow> 'a \<Rightarrow> 's res) \<Rightarrow> 's \<Rightarrow> 'a list \<Rightarrow> 's res" where
  "run_all add s [] = Ok s"
| "run_all add s (y # ys) = bindE (add s y) (\<lambda>s'. run_all add s' ys)"

fun take_n :: "('s \<Rightarrow> ('a \<times> 's) res) \<Rightarrow> 's \<Rightarrow> nat \<Rightarrow> ('a list \<times> 's) res" where
  "take_n get s 0 = Ok ([], s)"
| "take_n get s (Suc n) =
     bindE (get s) (\<lambda>(x, s'). bindE (take_n get s' n) (\<lambda>(xs, s''). Ok (x # xs, s'')))"

text \<open>
  A container with an element list as its meaning and an operation that adds one element at
  the end. Growing it item by item, the way SeqAppendSeq, SeqGetRange and SeqFromArgv do, adds
  the whole list. \<open>frame\<close> is the part of the state (callbacks) the operation keeps.
\<close>

locale appendable =
  fixes rep :: "'s \<Rightarrow> 'a list \<Rightarrow> bool"
    and append1 :: "'s \<Rightarrow> 'a \<Rightarrow> 's res"
    and frame :: "'s \<Rightarrow> 'f"
  assumes append1_rep:
    "rep s xs \<Longrightarrow> \<exists>s'. append1 s x = Ok s' \<and> rep s' (xs @ [x]) \<and> frame s' = frame s"
begin

lemma append_all_rep:
  "rep s xs \<Longrightarrow> \<exists>s'. run_all append1 s ys = Ok s' \<and> rep s' (xs @ ys) \<and> frame s' = frame s"
proof (induction ys arbitrary: s xs)
  case Nil
  then show ?case by simp
next
  case (Cons y ys)
  from append1_rep [OF Cons.prems] obtain s1
    where s1: "append1 s y = Ok s1" "rep s1 (xs @ [y])" "frame s1 = frame s" by blast
  from Cons.IH [OF s1(2)] s1 show ?case by force
qed

end

text \<open>
  Last in, first out: \<open>pop\<close> takes the item added last and leaves an empty container alone, with
  the result NULL. Popping as often as items were pushed returns them in reverse.
\<close>

locale lifo = appendable rep push frame
  for rep :: "'s \<Rightarrow> 'a ptr list \<Rightarrow> bool" and push :: "'s \<Rightarrow> 'a ptr \<Rightarrow> 's res" and frame :: "'s \<Rightarrow> 'f" +
  fixes pop :: "'s \<Rightarrow> ('a ptr \<times> 's) res"
  assumes pop_last:
      "rep s (xs @ [x]) \<Longrightarrow> \<exists>s'. pop s = Ok (x, s') \<and> rep s' xs \<and> frame s' = frame s"
    and pop_empty: "rep s [] \<Longrightarrow> pop s = Ok (NULL, s)"
begin

lemma pop_n_rev:
  "rep s (xs @ ys) \<Longrightarrow> \<exists>s'. take_n pop s (length ys) = Ok (rev ys, s') \<and> rep s' xs \<and> frame s' = frame s"
proof (induction ys arbitrary: s rule: rev_induct)
  case Nil
  then show ?case by simp
next
  case (snoc y ys)
  then have "rep s ((xs @ ys) @ [y])" by simp
  from pop_last [OF this] obtain s1 where
    s1: "pop s = Ok (y, s1)" "rep s1 (xs @ ys)" "frame s1 = frame s" by blast
  from snoc.IH [OF s1(2)] s1 show ?case by auto
qed

lemma push_pop_roundtrip:
  assumes "rep s xs"
  shows "\<exists>s1 s2. run_all push s ys = Ok s1 \<and> take_n pop s1 (length ys) = Ok (rev ys, s2) \<and> rep s2 xs
    \<and> frame s2 = frame s"
proof -
  from append_all_rep [OF assms] obtain s1 where
    s1: "run_all push s ys = Ok s1" "rep s1 (xs @ ys)" "frame s1 = frame s" by blast
  from pop_n_rev [OF s1(2)] s1 show ?thesis by auto
qed

end

text \<open>First in, first out.\<close>

locale fifo = appendable rep enq frame
  for rep :: "'s \<Rightarrow> 'a ptr list \<Rightarrow> bool" and enq :: "'s \<Rightarrow> 'a ptr \<Rightarrow> 's res" and frame :: "'s \<Rightarrow> 'f" +
  fixes deq :: "'s \<Rightarrow> ('a ptr \<times> 's) res"
  assumes deq_first: "rep s (x # xs) \<Longrightarrow> \<exists>s'. deq s = Ok (x, s') \<and> rep s' xs \<and> frame s' = frame s"
begin

lemma deq_n_take:
  "rep s (ys @ zs) \<Longrightarrow> \<exists>s'. take_n deq s (length ys) = Ok (ys, s') \<and> rep s' zs \<and> frame s' = frame s"
proof (induction ys arbitrary: s)
  case Nil
  then show ?case by simp
next
  case (Cons y ys)
  then have "rep s (y # (ys @ zs))" by simp
  from deq_first [OF this] obtain s1 where
    s1: "deq s = Ok (y, s1)" "rep s1 (ys @ zs)" "frame s1 = frame s" by blast
  from Cons.IH [OF s1(2)] s1 show ?case by auto
qed

lemma enq_deq_roundtrip:
  assumes "rep s xs"
  shows "\<exists>s1 s2. run_all enq s ys = Ok s1 \<and> take_n deq s1 (length (xs @ ys)) = Ok (xs @ ys, s2) \<and> rep s2 []
    \<and> frame s2 = frame s"
proof -
  from append_all_rep [OF assms] obtain s1 where
    s1: "run_all enq s ys = Ok s1" "rep s1 ((xs @ ys) @ [])" "frame s1 = frame s" by force
  from deq_n_take [OF s1(2)] s1 show ?thesis by auto
qed

end

end
