(* ===== verification/StringLib.thy ===== *)
theory StringLib
  imports Prelude
begin

text \<open>
  Parts of libutils/string_lib.c: comparison with NULL handling, the hash of string keys, case
  conversion. A C string is the list of its characters before the terminating NUL. Characters are
  bytes, read as unsigned char where the code casts them; character classes are those of the C
  locale.
\<close>

unbundle bit_operations_syntax

section \<open>C strings in a block\<close>

text \<open>
  Reading the C string at the start of a block, as \<open>xstrdup\<close> and \<open>strlen\<close> do: up to the terminating
  NUL, which has to be there before an unset cell or the end of the block.
\<close>

fun cstr_read :: "char carray \<Rightarrow> string res" where
  "cstr_read [] = Fault OutOfBounds"
| "cstr_read (Undef # a) = Fault UninitRead"
| "cstr_read (Val c # a) =
     (if c = CHR 0x00 then Ok [] else bindE (cstr_read a) (\<lambda>s. Ok (c # s)))"

lemma cstr_read_stores:
  "stores a (s @ [CHR 0x00]) \<Longrightarrow> CHR 0x00 \<notin> set s \<Longrightarrow> cstr_read a = Ok s"
proof (induction s arbitrary: a)
  case Nil
  then show ?case by (cases a) (auto simp: stores_def)
next
  case (Cons c s)
  then obtain b where "a = Val c # b" "stores b (s @ [CHR 0x00])"
    by (cases a) (auto simp: stores_def)
  with Cons show ?case by auto
qed

section \<open>Comparison\<close>

text \<open>
  \<open>strcmp\<close> compares bytes as unsigned char. The C standard fixes the sign of its result only.
\<close>

fun strcmp :: "string \<Rightarrow> string \<Rightarrow> int" where
  "strcmp [] [] = 0"
| "strcmp [] (y # ys) = -1"
| "strcmp (x # xs) [] = 1"
| "strcmp (x # xs) (y # ys) =
     (if x = y then strcmp xs ys
      else if (of_char x :: nat) < of_char y then -1 else 1)"

lemma strcmp_sym: "strcmp x y < 0 \<longleftrightarrow> strcmp y x > 0"
  by (induction x y rule: strcmp.induct) auto

lemma strcmp_trans: "strcmp x y \<le> 0 \<Longrightarrow> strcmp y z \<le> 0 \<Longrightarrow> strcmp x z \<le> 0"
proof (induction x y arbitrary: z rule: strcmp.induct)
  case (2 y ys)
  then show ?case by (cases z) auto
next
  case (4 x xs y ys)
  then show ?case by (cases z) (auto split: if_splits)
qed (auto elim: strcmp.elims)

lemma strcmp_eq_0_iff: "strcmp x y = 0 \<longleftrightarrow> x = y"
  by (induction x y rule: strcmp.induct) auto

lemma strcmp_cases: "strcmp x y \<in> {-1, 0, 1}"
  by (induction x y rule: strcmp.induct) auto

definition NullCompare :: "'a ptr \<Rightarrow> 'a ptr \<Rightarrow> int res" where
  "NullCompare a b =
     bindE (c_assert (a \<noteq> b)) (\<lambda>_.
     bindE (c_assert (a = NULL \<or> b = NULL)) (\<lambda>_.
     if a \<noteq> NULL then Ok 1
     else if b \<noteq> NULL then Ok (- 1)
     else Fault AssertFail))"

text \<open>
  The C code tests the addresses first; equal addresses hold equal strings, so comparing the values
  gives the same result. \<open>compare_result / abs (compare_result)\<close> is the sign.
\<close>

definition StringSafeCompare :: "string ptr \<Rightarrow> string ptr \<Rightarrow> int res" where
  "StringSafeCompare a b =
     (if a = b then Ok 0
      else case (a, b) of
        (Ptr s, Ptr t) \<Rightarrow>
          (let compare_result = strcmp s t
           in if compare_result \<noteq> 0 then Ok (compare_result div \<bar>compare_result\<bar>) else Ok compare_result)
      | _ \<Rightarrow> NullCompare a b)"

fun strncmp :: "string \<Rightarrow> string \<Rightarrow> nat \<Rightarrow> int" where
  "strncmp xs ys n = strcmp (take n xs) (take n ys)"

definition StringSafeCompareN :: "string ptr \<Rightarrow> string ptr \<Rightarrow> nat \<Rightarrow> int res" where
  "StringSafeCompareN a b n =
     (if a = b then Ok 0
      else case (a, b) of
        (Ptr s, Ptr t) \<Rightarrow> Ok (strncmp s t n)
      | _ \<Rightarrow> NullCompare a b)"

definition StringEqual :: "string ptr \<Rightarrow> string ptr \<Rightarrow> bool res" where
  "StringEqual a b = bindE (StringSafeCompare a b) (\<lambda>c. Ok (c = 0))"

definition StringEqualN :: "string ptr \<Rightarrow> string ptr \<Rightarrow> nat \<Rightarrow> bool res" where
  "StringEqualN a b n = bindE (StringSafeCompareN a b n) (\<lambda>c. Ok (c = 0))"

lemma StringSafeCompare_eq:
  "StringSafeCompare (Ptr s) (Ptr t) = Ok (strcmp s t)"
  using strcmp_cases [of s t] strcmp_eq_0_iff [of s t]
  by (auto simp: StringSafeCompare_def Let_def)

lemma StringEqual_iff: "StringEqual a b = Ok (a = b)"
  by (cases a; cases b)
    (auto simp: StringEqual_def StringSafeCompare_eq strcmp_eq_0_iff, auto simp: StringSafeCompare_def NullCompare_def)

lemma StringEqualN_iff: "StringEqualN (Ptr s) (Ptr t) n = Ok (take n s = take n t)"
  by (auto simp: StringEqualN_def StringSafeCompareN_def strcmp_eq_0_iff)

section \<open>Hashing\<close>

text \<open>Jenkins' one-at-a-time hash, on 32-bit words.\<close>

fun StringHash_loop :: "string \<Rightarrow> 32 word \<Rightarrow> 32 word" where
  "StringHash_loop [] h = h"
| "StringHash_loop (p # ps) h =
     (let h = h + of_char p;
          h = h + push_bit 10 h;
          h = h XOR drop_bit 6 h
      in StringHash_loop ps h)"

definition StringHash :: "string ptr \<Rightarrow> 32 word \<Rightarrow> 32 word res" where
  "StringHash str seed = (case str of
     NULL \<Rightarrow> Fault AssertFail
   | Ptr s \<Rightarrow>
       (let h = StringHash_loop s seed;
            h = h + push_bit 3 h;
            h = h XOR drop_bit 11 h;
            h = h + push_bit 15 h
        in Ok h))"

text \<open>The callbacks that the string maps and sets pass (seed 0), on non-NULL keys.\<close>

definition StringHash_untyped :: "string \<Rightarrow> 32 word" where
  "StringHash_untyped s = (case StringHash (Ptr s) 0 of Inr h \<Rightarrow> h | Inl _ \<Rightarrow> 0)"

definition StringEqual_untyped :: "string \<Rightarrow> string \<Rightarrow> bool" where
  "StringEqual_untyped a b = (case StringEqual (Ptr a) (Ptr b) of Inr e \<Rightarrow> e | Inl _ \<Rightarrow> False)"

lemma StringEqual_untyped_eq: "StringEqual_untyped = (=)"
  by (intro ext) (simp add: StringEqual_untyped_def StringEqual_iff)

section \<open>Case conversion\<close>

definition isupper :: "char \<Rightarrow> bool" where
  "isupper c \<longleftrightarrow> 65 \<le> (of_char c :: nat) \<and> (of_char c :: nat) \<le> 90"

definition islower :: "char \<Rightarrow> bool" where
  "islower c \<longleftrightarrow> 97 \<le> (of_char c :: nat) \<and> (of_char c :: nat) \<le> 122"

definition isdigit :: "char \<Rightarrow> bool" where
  "isdigit c \<longleftrightarrow> 48 \<le> (of_char c :: nat) \<and> (of_char c :: nat) \<le> 57"

definition ispunct :: "char \<Rightarrow> bool" where
  "ispunct c \<longleftrightarrow> (let n = (of_char c :: nat) in (33 \<le> n \<and> n \<le> 47) \<or> (58 \<le> n \<and> n \<le> 64)
     \<or> (91 \<le> n \<and> n \<le> 96) \<or> (123 \<le> n \<and> n \<le> 126))"

text \<open>The arithmetic is done in \<open>int\<close> and stored in a byte: 224 is \<open>'A' - 'a'\<close> modulo 256.\<close>

definition ToLower :: "char \<Rightarrow> char" where
  "ToLower ch = (if isupper ch then char_of ((of_char ch :: nat) - 65 + 97) else ch)"

definition ToUpper :: "char \<Rightarrow> char" where
  "ToUpper ch =
     (if isdigit ch \<or> ispunct ch then ch
      else if isupper ch then ch
      else char_of (((of_char ch :: nat) + 224) mod 256))"

text \<open>
  In-place conversion of a buffer that holds a C string. The result is what the buffer holds
  afterwards; \<open>c_string\<close> is the C string in a buffer.
\<close>

fun ToUpperStrInplace :: "string \<Rightarrow> string" where
  "ToUpperStrInplace [] = []"
| "ToUpperStrInplace (c # str) = ToUpper c # ToUpperStrInplace str"

fun ToLowerStrInplace :: "string \<Rightarrow> string" where
  "ToLowerStrInplace [] = []"
| "ToLowerStrInplace (c # str) = ToLower c # ToLowerStrInplace str"

definition c_string :: "string \<Rightarrow> string" where
  "c_string buf = takeWhile (\<lambda>c. c \<noteq> CHR 0x00) buf"

lemma ToLowerStrInplace_map: "ToLowerStrInplace s = map ToLower s"
  by (induction s) auto

lemma ToUpperStrInplace_map: "ToUpperStrInplace s = map ToUpper s"
  by (induction s) auto

lemma ToUpper_letter:
  assumes "islower c"
  shows "isupper (ToUpper c) \<and> ToLower (ToUpper c) = c"
proof -
  define n where "n = (of_char c :: nat)"
  have n: "97 \<le> n" "n \<le> 122" using assms by (simp_all add: islower_def n_def)
  then have "(n + 224) mod 256 = n - 32" by (simp add: mod_if)
  then have up: "ToUpper c = char_of (n - 32)"
    using n by (simp add: ToUpper_def isdigit_def ispunct_def isupper_def n_def [symmetric] Let_def)
  have oc: "(of_char (ToUpper c) :: nat) = n - 32" using n up by simp
  have "isupper (ToUpper c)" unfolding isupper_def oc using n by linarith
  moreover have "n - 32 - 65 + 97 = n" using n by linarith
  ultimately show ?thesis unfolding ToLower_def oc by (simp add: n_def)
qed

lemma ToUpper_same: "isdigit c \<or> ispunct c \<or> isupper c \<Longrightarrow> ToUpper c = c"
  by (auto simp: ToUpper_def)

section \<open>Properties\<close>

text \<open>
  ToUpperStrInplace maps a text of letters, digits and punctuation to its upper-case form:
  nothing but letters changes, every lower-case letter becomes the upper-case letter that
  ToLower turns back, and the C string keeps its length.
\<close>

theorem ToUpperStrInplace_text:
  assumes "\<forall>c \<in> set s. islower c \<or> isupper c \<or> isdigit c \<or> ispunct c"
  shows "c_string (ToUpperStrInplace s) = map ToUpper s
    \<and> (\<forall>i < length s. if islower (s ! i) then isupper (ToUpperStrInplace s ! i)
          \<and> ToLower (ToUpperStrInplace s ! i) = s ! i else ToUpperStrInplace s ! i = s ! i)"
proof -
  have nz: "ToUpper c \<noteq> CHR 0x00" if "islower c \<or> isupper c \<or> isdigit c \<or> ispunct c" for c
    using that ToUpper_letter [of c] ToUpper_same [of c]
    by (auto simp: isupper_def isdigit_def ispunct_def Let_def)
  then have "c_string (ToUpperStrInplace s) = map ToUpper s"
    using assms by (auto simp: c_string_def ToUpperStrInplace_map takeWhile_eq_all_conv)
  moreover have "if islower (s ! i) then isupper (ToUpperStrInplace s ! i)
          \<and> ToLower (ToUpperStrInplace s ! i) = s ! i else ToUpperStrInplace s ! i = s ! i"
    if "i < length s" for i
    using that assms ToUpper_letter ToUpper_same by (auto simp: ToUpperStrInplace_map)
  ultimately show ?thesis by blast
qed

theorem ToUpperStrInplace_text_witness:
  "c_string (ToUpperStrInplace ''a-Z9'') = map ToUpper ''a-Z9''"
  using ToUpperStrInplace_text [of "''a-Z9''"]
  by (simp add: islower_def isupper_def isdigit_def ispunct_def Let_def)

text \<open>
  ToUpper subtracts \<open>'a' - 'A'\<close> from every other character too: a space becomes NUL, so
  converting a text in place cuts it off at the first space.
\<close>

theorem ToUpperStrInplace_space:
  "c_string (ToUpperStrInplace (s @ CHR '' '' # t)) = c_string (ToUpperStrInplace s)"
proof -
  have "ToUpper (CHR '' '') = CHR 0x00"
    by (simp add: ToUpper_def isdigit_def ispunct_def isupper_def char_of_def)
  then show ?thesis by (simp add: c_string_def ToUpperStrInplace_map takeWhile_tail)
qed

end
