(* ===== verification/CLib.thy ===== *)
theory CLib
  imports StringLib
begin

text \<open>
  The part of the C library that the string functions of libutils use: the character classes of the C
  locale beyond those in StringLib, searching (\<open>strchr\<close>, \<open>strstr\<close>, \<open>strcspn\<close>), reading decimal
  integers (\<open>strtol\<close>, \<open>strtoul\<close>, the conversion \<open>%d\<close> of \<open>sscanf\<close>) and printing them (\<open>%d\<close>, \<open>%ld\<close>).
  A pointer into a string is the rest of the string from there.
\<close>

section \<open>Character classes\<close>

definition isspace :: "char \<Rightarrow> bool" where
  "isspace c \<longleftrightarrow> c \<in> {CHR '' '', CHR 0x09, CHR 0x0A, CHR 0x0B, CHR 0x0C, CHR 0x0D}"

definition isalnum :: "char \<Rightarrow> bool" where
  "isalnum c \<longleftrightarrow> isupper c \<or> islower c \<or> isdigit c"

definition isxdigit :: "char \<Rightarrow> bool" where
  "isxdigit c \<longleftrightarrow> isdigit c \<or> (65 \<le> (of_char c :: nat) \<and> (of_char c :: nat) \<le> 70)
     \<or> (97 \<le> (of_char c :: nat) \<and> (of_char c :: nat) \<le> 102)"

definition isprint :: "char \<Rightarrow> bool" where
  "isprint c \<longleftrightarrow> 32 \<le> (of_char c :: nat) \<and> (of_char c :: nat) \<le> 126"

lemma isspace_not_digit [simp]: "isspace c \<Longrightarrow> \<not> isdigit c"
  by (auto simp: isspace_def isdigit_def)

section \<open>Searching\<close>

text \<open>\<open>strchr (s, c)\<close> finds the terminating NUL too, so every string contains it.\<close>

definition strchr_in :: "string \<Rightarrow> char \<Rightarrow> bool" where
  "strchr_in s c \<longleftrightarrow> c = CHR 0x00 \<or> c \<in> set s"

definition strcspn :: "string \<Rightarrow> string \<Rightarrow> nat" where
  "strcspn s reject = length (takeWhile (\<lambda>c. c \<notin> set reject) s)"

text \<open>The offset of the first occurrence of a needle.\<close>

fun strstr :: "string \<Rightarrow> string \<Rightarrow> nat option" where
  "strstr [] needle = (if needle = [] then Some 0 else None)"
| "strstr (c # s) needle =
     (if take (length needle) (c # s) = needle then Some 0 else map_option Suc (strstr s needle))"

lemma strstr_SomeD:
  "strstr s needle = Some i \<Longrightarrow> i + length needle \<le> length s \<and> take (length needle) (drop i s) = needle"
proof (induction s needle arbitrary: i rule: strstr.induct)
  case (2 c s needle)
  show ?case
  proof (cases "take (length needle) (c # s) = needle")
    case True
    then have "length needle \<le> length (c # s)" by (metis length_take min.cobounded1)
    then show ?thesis using 2 True by simp
  next
    case False
    then show ?thesis using 2 by auto
  qed
qed (auto split: if_splits)

lemma strstr_first:
  "strstr s needle = Some i \<Longrightarrow> j < i \<Longrightarrow> take (length needle) (drop j s) \<noteq> needle"
proof (induction s needle arbitrary: i j rule: strstr.induct)
  case (2 c s needle)
  then show ?case by (cases j) (auto split: if_splits)
qed (auto split: if_splits)

lemma strstr_None:
  "strstr s needle = None \<Longrightarrow> take (length needle) (drop j s) \<noteq> needle"
proof (induction s needle arbitrary: j rule: strstr.induct)
  case (2 c s needle)
  then show ?case by (cases j) (auto split: if_splits)
qed (auto split: if_splits)

section \<open>Decimal integers\<close>

definition digit_char :: "nat \<Rightarrow> char" where
  "digit_char d = char_of (48 + d)"

definition digit_value :: "char \<Rightarrow> nat" where
  "digit_value c = of_char c - 48"

lemma digit_char [simp]: "d < 10 \<Longrightarrow> isdigit (digit_char d) \<and> digit_value (digit_char d) = d"
  by (simp add: digit_char_def isdigit_def digit_value_def)

text \<open>Printing, as \<open>%d\<close> and \<open>%ld\<close> do.\<close>

fun nat_digits :: "nat \<Rightarrow> string" where
  "nat_digits n = (if n < 10 then [digit_char n] else nat_digits (n div 10) @ [digit_char (n mod 10)])"

declare nat_digits.simps [simp del]

definition fmt_int :: "int \<Rightarrow> string" where
  "fmt_int i = (if i < 0 then CHR ''-'' # nat_digits (nat (- i)) else nat_digits (nat i))"

text \<open>Reading: white space, an optional sign, at least one digit. The value and the rest behind it.\<close>

fun digits_value :: "nat \<Rightarrow> string \<Rightarrow> nat \<times> string" where
  "digits_value acc [] = (acc, [])"
| "digits_value acc (c # s) =
     (if isdigit c then digits_value (10 * acc + digit_value c) s else (acc, c # s))"

definition scan_sign :: "string \<Rightarrow> bool \<times> string" where
  "scan_sign s = (case s of
     [] \<Rightarrow> (False, s)
   | c # t \<Rightarrow> if c = CHR ''-'' then (True, t) else if c = CHR ''+'' then (False, t) else (False, s))"

definition scan_decimal :: "string \<Rightarrow> (int \<times> string) option" where
  "scan_decimal s =
     (let (neg, t) = scan_sign (dropWhile isspace s)
      in if t \<noteq> [] \<and> isdigit (hd t)
         then let (n, rest) = digits_value 0 t in Some (if neg then - int n else int n, rest)
         else None)"

text \<open>
  \<open>strtol\<close> and \<open>strtoimax\<close> for a type with the range from \<open>lo\<close> to \<open>hi\<close>: the value, \<open>*endptr\<close>, and
  whether \<open>errno\<close> is set to ERANGE. Without digits the value is 0 and the end pointer is the start.
  \<open>strtoul\<close> negates modulo \<open>2 ^ 64\<close>.
\<close>

definition strtol :: "int \<Rightarrow> int \<Rightarrow> string \<Rightarrow> int \<times> string \<times> bool" where
  "strtol lo hi s = (case scan_decimal s of
     None \<Rightarrow> (0, s, False)
   | Some (v, rest) \<Rightarrow>
       if v < lo then (lo, rest, True) else if hi < v then (hi, rest, True) else (v, rest, False))"

definition LONG_MAX :: int where "LONG_MAX = 2 ^ 63 - 1"
definition LONG_MIN :: int where "LONG_MIN = - (2 ^ 63)"
definition ULONG_MAX :: int where "ULONG_MAX = 2 ^ 64 - 1"
definition INT_MAX :: int where "INT_MAX = 2 ^ 31 - 1"
definition INT_MIN :: int where "INT_MIN = - (2 ^ 31)"

lemmas c_limits = LONG_MAX_def LONG_MIN_def ULONG_MAX_def INT_MAX_def INT_MIN_def

definition strtoul :: "string \<Rightarrow> int \<times> string \<times> bool" where
  "strtoul s = (case scan_decimal s of
     None \<Rightarrow> (0, s, False)
   | Some (v, rest) \<Rightarrow>
       if ULONG_MAX < \<bar>v\<bar> then (ULONG_MAX, rest, True) else (v mod 2 ^ 64, rest, False))"

lemma digits_value_append:
  "\<forall>c \<in> set xs. isdigit c \<Longrightarrow> digits_value acc (xs @ ys) = digits_value (fst (digits_value acc xs)) ys"
  by (induction xs arbitrary: acc) auto

lemma nat_digits_digit: "c \<in> set (nat_digits n) \<Longrightarrow> isdigit c"
proof (induction n rule: nat_digits.induct)
  case (1 n)
  then show ?case by (subst (asm) nat_digits.simps) (auto split: if_splits)
qed

lemma nat_digits_ne [simp]: "nat_digits n \<noteq> []"
  by (subst nat_digits.simps) simp

lemma hd_nat_digits: "isdigit (hd (nat_digits n @ s))"
  using nat_digits_digit [of "hd (nat_digits n)" n] by simp

lemma digits_value_nat_digits: "fst (digits_value 0 (nat_digits n)) = n"
proof (induction n rule: nat_digits.induct)
  case (1 n)
  show ?case
  proof (cases "n < 10")
    case True
    then show ?thesis by (subst nat_digits.simps) simp
  next
    case False
    have "fst (digits_value 0 (nat_digits (n div 10) @ [digit_char (n mod 10)]))
        = 10 * fst (digits_value 0 (nat_digits (n div 10))) + n mod 10"
      using nat_digits_digit digits_value_append [of "nat_digits (n div 10)" 0 "[digit_char (n mod 10)]"] by auto
    then show ?thesis using 1 False by (subst nat_digits.simps) simp
  qed
qed

definition ends_number :: "string \<Rightarrow> bool" where
  "ends_number s \<longleftrightarrow> (case s of [] \<Rightarrow> True | c # _ \<Rightarrow> \<not> isdigit c)"

lemma digits_value_nat_digits_rest: "ends_number rest \<Longrightarrow> digits_value 0 (nat_digits n @ rest) = (n, rest)"
  using nat_digits_digit digits_value_append [of "nat_digits n" 0 rest]
  by (cases rest) (auto simp: digits_value_nat_digits ends_number_def)

lemma digit_not_special:
  "isdigit c \<Longrightarrow> c \<noteq> CHR ''-'' \<and> c \<noteq> CHR ''+'' \<and> c \<noteq> CHR ''.'' \<and> c \<noteq> CHR 0x00 \<and> \<not> isspace c"
  by (auto simp: isdigit_def isspace_def)

lemma scan_decimal_fmt: "ends_number rest \<Longrightarrow> scan_decimal (fmt_int i @ rest) = Some (i, rest)"
proof (cases "i < 0")
  case True
  assume e: "ends_number rest"
  have "scan_sign (dropWhile isspace (fmt_int i @ rest)) = (True, nat_digits (nat (- i)) @ rest)"
    using True by (simp add: fmt_int_def scan_sign_def isspace_def)
  then show ?thesis using True hd_nat_digits [of "nat (- i)" rest]
    by (simp add: scan_decimal_def digits_value_nat_digits_rest [OF e])
next
  case False
  assume e: "ends_number rest"
  obtain c t where ct: "nat_digits (nat i) @ rest = c # t" "isdigit c"
    using hd_nat_digits [of "nat i" rest] by (cases "nat_digits (nat i) @ rest") auto
  then have "scan_sign (dropWhile isspace (fmt_int i @ rest)) = (False, nat_digits (nat i) @ rest)"
    using False digit_not_special [OF ct(2)] by (simp add: fmt_int_def scan_sign_def)
  then show ?thesis using False hd_nat_digits [of "nat i" rest]
    by (simp add: scan_decimal_def digits_value_nat_digits_rest [OF e])
qed

lemma strtol_fmt: "lo \<le> i \<Longrightarrow> i \<le> hi \<Longrightarrow> ends_number rest \<Longrightarrow> strtol lo hi (fmt_int i @ rest) = (i, rest, False)"
  by (simp add: strtol_def scan_decimal_fmt)

lemma fmt_int_ne [simp]: "fmt_int i \<noteq> []"
  by (simp add: fmt_int_def)

lemma fmt_int_chars: "c \<in> set (fmt_int i) \<Longrightarrow> isdigit c \<or> c = CHR ''-''"
  using nat_digits_digit by (auto simp: fmt_int_def split: if_splits)

text \<open>The scan never runs past its digits: what is left is a proper suffix.\<close>

lemma digits_value_length: "length (snd (digits_value acc s)) \<le> length s"
  by (induction s arbitrary: acc) (auto intro: le_SucI)

lemma scan_decimal_shorter: "scan_decimal s = Some (v, rest) \<Longrightarrow> length rest < length s"
proof -
  assume a: "scan_decimal s = Some (v, rest)"
  define t where "t = snd (scan_sign (dropWhile isspace s))"
  have "length t \<le> length (dropWhile isspace s)" by (auto simp: t_def scan_sign_def split: list.splits)
  also have "\<dots> \<le> length s" by (rule length_dropWhile_le)
  finally have t: "length t \<le> length s" .
  have ne: "t \<noteq> []" "isdigit (hd t)" "rest = snd (digits_value 0 t)"
    using a by (auto simp: scan_decimal_def t_def Let_def case_prod_unfold split: if_splits)
  then obtain c u where "t = c # u" "isdigit c" by (cases t) auto
  then show ?thesis using t ne digits_value_length [of "digit_value c" u] by simp
qed

end
