(* ===== verification/StringNumbers.thy ===== *)
theory StringNumbers
  imports CLib
begin

text \<open>
  libutils/string_lib.c: conversion between strings and integers. The conversions return an error code
  and leave the result variable alone on errors; they take its old value and return the new one.
  \<open>long\<close> and \<open>int64_t\<close> have 64 bits.
\<close>

definition ERANGE :: int where "ERANGE = 34"

section \<open>Definitions\<close>

text \<open>
  The tests after the call are the same in StringToLong and StringToInt64: out of range, no digits, end
  pointer not set (\<open>strtol\<close> always sets it), text behind the number, any other error of \<open>strtol\<close> (it
  reports none in base 10).
\<close>

definition check_end :: "string \<Rightarrow> string \<Rightarrow> int option" where
  "check_end str endptr =
     (if endptr = str then Some (- 81)
      else if endptr \<noteq> [] \<and> \<not> isspace (hd endptr) then Some (- 83)
      else None)"

definition StringToLong :: "string ptr \<Rightarrow> int \<Rightarrow> (int \<times> int) res" where
  "StringToLong str value_out = (case str of
     NULL \<Rightarrow> Fault AssertFail
   | Ptr s \<Rightarrow>
       (let (val, endptr, erange) = strtol LONG_MIN LONG_MAX s
        in if erange \<and> (val = LONG_MAX \<or> val = LONG_MIN) then Ok (ERANGE, value_out)
           else case check_end s endptr of
             Some code \<Rightarrow> Ok (code, value_out)
           | None \<Rightarrow> if erange then Ok (ERANGE, value_out) else Ok (0, val)))"

definition INTMAX_MAX :: int where "INTMAX_MAX = 2 ^ 63 - 1"
definition INTMAX_MIN :: int where "INTMAX_MIN = - (2 ^ 63)"

definition StringToInt64 :: "string ptr \<Rightarrow> int \<Rightarrow> (int \<times> int) res" where
  "StringToInt64 str value_out = (case str of
     NULL \<Rightarrow> Fault AssertFail
   | Ptr s \<Rightarrow>
       (let (val, endptr, erange) = strtol INTMAX_MIN INTMAX_MAX s
        in if erange \<and> (val = INTMAX_MAX \<or> val = INTMAX_MIN) then Ok (ERANGE, value_out)
           else case check_end s endptr of
             Some code \<Rightarrow> Ok (code, value_out)
           | None \<Rightarrow> if erange then Ok (ERANGE, value_out) else Ok (0, val)))"

text \<open>The scan for a minus sign goes from the start over white space, not past the end pointer.\<close>

fun skip_spaces :: "string \<Rightarrow> nat \<Rightarrow> string" where
  "skip_spaces [] n = []"
| "skip_spaces (c # ch) 0 = c # ch"
| "skip_spaces (c # ch) (Suc n) = (if isspace c then skip_spaces ch n else c # ch)"

definition StringToUlong :: "string ptr \<Rightarrow> int \<Rightarrow> (int \<times> int) res" where
  "StringToUlong str value_out = (case str of
     NULL \<Rightarrow> Fault AssertFail
   | Ptr s \<Rightarrow>
       (let (val, endptr, erange) = strtoul s
        in if erange \<and> val = ULONG_MAX then Ok (ERANGE, value_out)
           else let ch = skip_spaces s (length s - length endptr)
           in if val > 0 \<and> ch \<noteq> [] \<and> hd ch = CHR ''-'' then Ok (ERANGE, value_out)
           else case check_end s endptr of
             Some code \<Rightarrow> Ok (code, value_out)
           | None \<Rightarrow> if erange then Ok (ERANGE, value_out) else Ok (0, val)))"

definition StringToLongDefaultOnError :: "string ptr \<Rightarrow> int \<Rightarrow> int res" where
  "StringToLongDefaultOnError str default_return =
     bindE (StringToLong str 0) (\<lambda>(return_code, result).
     if return_code \<noteq> 0 then Ok default_return else Ok result)"

definition StringToUlongDefaultOnError :: "string ptr \<Rightarrow> int \<Rightarrow> int res" where
  "StringToUlongDefaultOnError str default_return =
     bindE (StringToUlong str 0) (\<lambda>(return_code, result).
     if return_code \<noteq> 0 then Ok default_return else Ok result)"

definition StringToInt64DefaultOnError :: "string ptr \<Rightarrow> int \<Rightarrow> int res" where
  "StringToInt64DefaultOnError str default_return =
     bindE (StringToInt64 str 0) (\<lambda>(error_code, result).
     if error_code \<noteq> 0 then Ok default_return else Ok result)"

text \<open>\<open>None\<close>: the error is logged and the process exits.\<close>

definition StringToLongExitOnError :: "string ptr \<Rightarrow> int option res" where
  "StringToLongExitOnError str =
     bindE (StringToLong str 0) (\<lambda>(return_code, result). Ok (if return_code \<noteq> 0 then None else Some result))"

definition StringToUlongExitOnError :: "string ptr \<Rightarrow> int option res" where
  "StringToUlongExitOnError str =
     bindE (StringToUlong str 0) (\<lambda>(return_code, result). Ok (if return_code \<noteq> 0 then None else Some result))"

definition StringToInt64ExitOnError :: "string ptr \<Rightarrow> int option res" where
  "StringToInt64ExitOnError str =
     bindE (StringToInt64 str 0) (\<lambda>(error_code, result). Ok (if error_code \<noteq> 0 then None else Some result))"

text \<open>The limit on the integer part is \<open>PRINTSIZE (INT_MAX) = 3 + 53 * sizeof (int) / 22\<close>.\<close>

definition PRINTSIZE :: "nat \<Rightarrow> nat" where
  "PRINTSIZE size_of = 3 + 53 * size_of div 22"

definition StringDecimalToLong :: "string ptr \<Rightarrow> int \<Rightarrow> (int \<times> int) res" where
  "StringDecimalToLong str value_out = (case str of
     NULL \<Rightarrow> Fault AssertFail
   | Ptr s \<Rightarrow>
       (let len_of_int_part = strcspn s ''.''
        in if len_of_int_part > PRINTSIZE 4 then Ok (- 84, value_out)
           else if len_of_int_part = 0 \<or> len_of_int_part = length s then StringToLong str value_out
           else StringToLong (Ptr (take len_of_int_part s)) value_out))"

definition StringToLongUnsafe :: "string ptr \<Rightarrow> int res" where
  "StringToLongUnsafe str = (case str of
     NULL \<Rightarrow> Fault AssertFail
   | Ptr s \<Rightarrow> (let (result, end, _) = strtol LONG_MIN LONG_MAX s
       in bindE (c_assert (end = [])) (\<lambda>_. Ok result)))"

text \<open>\<open>snprintf (str, 32, "%ld", number)\<close> writes at most 31 characters and the NUL.\<close>

definition StringFromLong :: "int \<Rightarrow> char carray" where
  "StringFromLong number =
     (let text = take 31 (fmt_int number) @ [CHR 0x00]
      in map Val text @ drop (length text) (xcalloc 32 (CHR 0x00)))"

section \<open>How many digits a 64-bit number has\<close>

lemma nat_digits_length: "n < 10 ^ k \<Longrightarrow> 0 < k \<Longrightarrow> length (nat_digits n) \<le> k"
proof (induction n arbitrary: k rule: nat_digits.induct)
  case (1 n)
  show ?case
  proof (cases "n < 10")
    case True
    then show ?thesis using 1 by (subst nat_digits.simps) simp
  next
    case False
    then obtain j where k: "k = Suc j" "0 < j"
      using 1 by (cases k; cases "k - 1") auto
    then have "n div 10 < 10 ^ j" using 1 by (simp add: less_mult_imp_div_less mult.commute)
    then have "length (nat_digits (n div 10)) \<le> j" using 1 False k by blast
    then show ?thesis using False k by (subst nat_digits.simps) simp
  qed
qed

lemma fmt_int_length:
  assumes "\<bar>i\<bar> \<le> 2 ^ 63"
  shows "length (fmt_int i) \<le> 20"
proof -
  have "nat \<bar>i\<bar> \<le> 2 ^ 63" using assms by (simp add: nat_le_iff)
  also have "(2 ^ 63 :: nat) < 10 ^ 19" by simp
  finally have "length (nat_digits (nat \<bar>i\<bar>)) \<le> 19" by (rule nat_digits_length) simp
  then show ?thesis by (auto simp: fmt_int_def)
qed

lemma StringFromLong_string:
  assumes "\<bar>i\<bar> \<le> 2 ^ 63"
  shows "cstr_read (StringFromLong i) = Ok (fmt_int i)"
proof -
  have "take 31 (fmt_int i) = fmt_int i" using fmt_int_length [OF assms] by simp
  moreover have "CHR 0x00 \<notin> set (fmt_int i)" using fmt_int_chars [of "CHR 0x00" i] by (auto simp: isdigit_def)
  ultimately show ?thesis
    by (intro cstr_read_stores) (auto simp: stores_def StringFromLong_def Let_def)
qed

text \<open>What StringToLong accepts: digits with an optional sign, up to the end or to white space.\<close>

lemma StringToLong_cases:
  "StringToLong (Ptr s) old = Ok (case scan_decimal s of
     None \<Rightarrow> (- 81, old)
   | Some (v, rest) \<Rightarrow>
       if v < LONG_MIN \<or> LONG_MAX < v then (ERANGE, old)
       else if rest \<noteq> [] \<and> \<not> isspace (hd rest) then (- 83, old) else (0, v))"
proof (cases "scan_decimal s")
  case (Some p)
  obtain v rest where p: "p = (v, rest)" by (cases p)
  have "rest \<noteq> s" using scan_decimal_shorter [of s v rest] Some p by auto
  then show ?thesis using Some p by (auto simp: StringToLong_def strtol_def check_end_def)
qed (simp add: StringToLong_def strtol_def check_end_def)

lemma StringToInt64_eq: "StringToInt64 = StringToLong"
proof -
  have limits: "INTMAX_MAX = LONG_MAX" "INTMAX_MIN = LONG_MIN"
    by (simp_all add: INTMAX_MAX_def INTMAX_MIN_def LONG_MAX_def LONG_MIN_def)
  show ?thesis unfolding StringToInt64_def StringToLong_def limits ..
qed

section \<open>Properties\<close>

text \<open>
  C32: every \<open>long\<close> survives StringFromLong and StringToLong: the 32 bytes are enough for its text, and
  the text is read back as the number with the success code, also when white space and other text
  follow it.
\<close>

theorem StringFromLong_StringToLong:
  assumes "LONG_MIN \<le> i" "i \<le> LONG_MAX" "rest = [] \<or> isspace (hd rest)"
  shows "\<exists>s. cstr_read (StringFromLong i) = Ok s \<and> StringToLong (Ptr (s @ rest)) old = Ok (0, i)"
proof -
  have i: "\<bar>i\<bar> \<le> 2 ^ 63" using assms(1,2) by (simp add: c_limits)
  have "ends_number rest" using assms(3) by (cases rest) (auto simp: ends_number_def)
  then have "scan_decimal (fmt_int i @ rest) = Some (i, rest)" by (rule scan_decimal_fmt)
  then have "StringToLong (Ptr (fmt_int i @ rest)) old = Ok (0, i)"
    using assms by (auto simp: StringToLong_cases)
  then show ?thesis using StringFromLong_string [OF i] by blast
qed

theorem StringFromLong_StringToLong_witness:
  "\<exists>s. cstr_read (StringFromLong (- 9223372036854775808)) = Ok s
     \<and> StringToLong (Ptr (s @ '' kB'')) 7 = Ok (0, - 9223372036854775808)"
  by (rule StringFromLong_StringToLong) (simp_all add: c_limits isspace_def)

end
