(* ===== verification/StringText.thy ===== *)
theory StringText
  imports CLib
begin

text \<open>
  libutils/string_lib.c: the functions that read strings and return fresh ones, tokens, and
  libutils/path.c. A memory region is the list of its bytes; the bytes of a C string are followed by
  its terminating NUL.
\<close>

section \<open>Comparison and predicates\<close>

text \<open>\<open>strcasecmp\<close> compares the lower-case forms.\<close>

definition strcasecmp :: "string \<Rightarrow> string \<Rightarrow> int" where
  "strcasecmp a b = strcmp (map ToLower a) (map ToLower b)"

definition strncasecmp :: "string \<Rightarrow> string \<Rightarrow> nat \<Rightarrow> int" where
  "strncasecmp a b n = strcasecmp (take n a) (take n b)"

definition StringSafeCompare_IgnoreCase :: "string ptr \<Rightarrow> string ptr \<Rightarrow> int res" where
  "StringSafeCompare_IgnoreCase a b =
     (if a = b then Ok 0
      else case (a, b) of (Ptr s, Ptr t) \<Rightarrow> Ok (strcasecmp s t) | _ \<Rightarrow> NullCompare a b)"

definition StringSafeCompareN_IgnoreCase :: "string ptr \<Rightarrow> string ptr \<Rightarrow> nat \<Rightarrow> int res" where
  "StringSafeCompareN_IgnoreCase a b n =
     (if a = b then Ok 0
      else case (a, b) of (Ptr s, Ptr t) \<Rightarrow> Ok (strncasecmp s t n) | _ \<Rightarrow> NullCompare a b)"

definition StringEqual_IgnoreCase :: "string ptr \<Rightarrow> string ptr \<Rightarrow> bool res" where
  "StringEqual_IgnoreCase a b = bindE (StringSafeCompare_IgnoreCase a b) (\<lambda>c. Ok (c = 0))"

definition StringEqualN_IgnoreCase :: "string ptr \<Rightarrow> string ptr \<Rightarrow> nat \<Rightarrow> bool res" where
  "StringEqualN_IgnoreCase a b n = bindE (StringSafeCompareN_IgnoreCase a b n) (\<lambda>c. Ok (c = 0))"

fun StringIsNumeric :: "string \<Rightarrow> bool" where
  "StringIsNumeric [] = True"
| "StringIsNumeric (c # s) = (if \<not> isdigit c then False else StringIsNumeric s)"

fun StringIsPrintable :: "string \<Rightarrow> bool" where
  "StringIsPrintable [] = True"
| "StringIsPrintable (c # s) = (if \<not> isprint c then False else StringIsPrintable s)"

fun EmptyString :: "string \<Rightarrow> bool" where
  "EmptyString [] = True"
| "EmptyString (c # s) = (if \<not> isspace c then False else EmptyString s)"

definition CF_SHA1_LEN :: nat where "CF_SHA1_LEN = 20"

fun StringIsSHA1Hex_loop :: "string \<Rightarrow> nat \<Rightarrow> bool" where
  "StringIsSHA1Hex_loop [] i = (i = 2 * CF_SHA1_LEN)"
| "StringIsSHA1Hex_loop (c # str) i =
     (if i \<ge> 2 * CF_SHA1_LEN then False
      else if \<not> isxdigit c then False
      else StringIsSHA1Hex_loop str (i + 1))"

definition StringIsSHA1Hex :: "string ptr \<Rightarrow> bool" where
  "StringIsSHA1Hex str = (case str of NULL \<Rightarrow> False | Ptr s \<Rightarrow> StringIsSHA1Hex_loop s 0)"

fun IsStrIn :: "string \<Rightarrow> string list \<Rightarrow> bool" where
  "IsStrIn str [] = False"
| "IsStrIn str (t # strs) = (if strcmp str t = 0 then True else IsStrIn str strs)"

fun IsStrCaseIn :: "string \<Rightarrow> string list \<Rightarrow> bool" where
  "IsStrCaseIn str [] = False"
| "IsStrCaseIn str (t # strs) = (if strcasecmp str t = 0 then True else IsStrCaseIn str strs)"

fun ends_with_loop :: "string \<Rightarrow> string \<Rightarrow> bool \<Rightarrow> nat \<Rightarrow> nat \<Rightarrow> bool" where
  "ends_with_loop str suffix case_fold i 0 = True"
| "ends_with_loop str suffix case_fold i (Suc n) =
     (let a = str ! (length str - i - 1);
          b = suffix ! (length suffix - i - 1);
          a = (if case_fold then ToLower a else a);
          b = (if case_fold then ToLower b else b)
      in if a \<noteq> b then False else ends_with_loop str suffix case_fold (i + 1) n)"

definition StringEndsWithCase :: "string \<Rightarrow> string \<Rightarrow> bool \<Rightarrow> bool" where
  "StringEndsWithCase str suffix case_fold =
     (if length suffix > length str then False
      else ends_with_loop str suffix case_fold 0 (length suffix))"

definition StringEndsWith :: "string \<Rightarrow> string \<Rightarrow> bool" where
  "StringEndsWith str suffix = StringEndsWithCase str suffix False"

text \<open>The lengths are kept in \<open>int\<close> variables; the strings are assumed to fit.\<close>

fun starts_with_loop :: "string \<Rightarrow> string \<Rightarrow> bool" where
  "starts_with_loop str [] = True"
| "starts_with_loop [] (p # prefix) = False"
| "starts_with_loop (c # str) (p # prefix) = (if c \<noteq> p then False else starts_with_loop str prefix)"

definition StringStartsWith :: "string \<Rightarrow> string \<Rightarrow> bool" where
  "StringStartsWith str prefix =
     (if int_of_size (length prefix) > int_of_size (length str) then False
      else starts_with_loop str prefix)"

definition StringMatchesOption :: "string ptr \<Rightarrow> string ptr \<Rightarrow> string ptr \<Rightarrow> bool res" where
  "StringMatchesOption supplied longopt shortopt = (case (supplied, longopt, shortopt) of
     (Ptr given, Ptr long, Ptr short) \<Rightarrow>
       bindE (c_assert (length short = 2)) (\<lambda>_.
       bindE (c_assert (length long \<ge> 3)) (\<lambda>_.
       bindE (c_assert (short ! 0 = CHR ''-'' \<and> short ! 1 \<noteq> CHR ''-'')) (\<lambda>_.
       bindE (c_assert (long ! 0 = CHR ''-'' \<and> long ! 1 = CHR ''-'' \<and> long ! 2 \<noteq> CHR ''-'')) (\<lambda>_.
       if length given \<le> 1 then Ok False
       else if length given = 2 then StringEqual supplied shortopt
       else StringEqualN_IgnoreCase supplied longopt (length given)))))
   | _ \<Rightarrow> Fault AssertFail)"

fun StringFind_loop :: "string \<Rightarrow> string \<Rightarrow> nat \<Rightarrow> nat \<Rightarrow> int" where
  "StringFind_loop str sub i 0 = - 1"
| "StringFind_loop str sub i (Suc n) =
     (if strncmp (drop i str) sub (length sub) = 0 then int i else StringFind_loop str sub (i + 1) n)"

definition StringFind :: "string ptr \<Rightarrow> string ptr \<Rightarrow> nat \<Rightarrow> nat \<Rightarrow> int res" where
  "StringFind str sub from to = (case (str, sub) of
     (Ptr s, Ptr t) \<Rightarrow> Ok (StringFind_loop s t from (min (length s) to - from))
   | _ \<Rightarrow> Fault AssertFail)"

fun memcchr_loop :: "string \<Rightarrow> char \<Rightarrow> nat \<Rightarrow> nat \<Rightarrow> nat ptr res" where
  "memcchr_loop cbuf c i 0 = Ok NULL"
| "memcchr_loop [] c i (Suc n) = Fault OutOfBounds"
| "memcchr_loop (b # cbuf) c i (Suc n) = (if b \<noteq> c then Ok (Ptr i) else memcchr_loop cbuf c (i + 1) n)"

definition memcchr :: "string \<Rightarrow> char \<Rightarrow> nat \<Rightarrow> nat ptr res" where
  "memcchr buf c buf_size = memcchr_loop buf c 0 buf_size"

section \<open>Copies and replacement\<close>

definition SafeStringDuplicate :: "string ptr \<Rightarrow> string ptr" where
  "SafeStringDuplicate str = (case str of NULL \<Rightarrow> NULL | Ptr s \<Rightarrow> Ptr s)"

definition SafeStringNDuplicate :: "string ptr \<Rightarrow> nat \<Rightarrow> string ptr" where
  "SafeStringNDuplicate str n = (case str of NULL \<Rightarrow> NULL | Ptr s \<Rightarrow> Ptr (take n s))"

definition SafeStringLength :: "string ptr \<Rightarrow> int" where
  "SafeStringLength str = (case str of NULL \<Rightarrow> 0 | Ptr s \<Rightarrow> int_of_size (length s))"

definition NULLStringToEmpty :: "string ptr \<Rightarrow> string ptr" where
  "NULLStringToEmpty str = (case str of NULL \<Rightarrow> Ptr [] | Ptr s \<Rightarrow> Ptr s)"

text \<open>The loop of SearchAndReplace appends to the text \<open>w\<close> of a string writer.\<close>

function SearchAndReplace_loop :: "string \<Rightarrow> string \<Rightarrow> string \<Rightarrow> string \<Rightarrow> string" where
  "SearchAndReplace_loop w source_ptr search replace =
     (if search = [] then w @ source_ptr else
      case strstr source_ptr search of
        None \<Rightarrow> w @ source_ptr
      | Some i \<Rightarrow>
          SearchAndReplace_loop (w @ take i source_ptr @ replace) (drop (i + length search) source_ptr)
            search replace)"
  by pat_completeness auto
termination
  by (relation "measure (\<lambda>(w, s, f, r). length s)") (auto dest!: strstr_SomeD intro: diff_less)

declare SearchAndReplace_loop.simps [simp del]

text \<open>ProgrammingError aborts like a failed assertion.\<close>

definition SearchAndReplace :: "string ptr \<Rightarrow> string ptr \<Rightarrow> string ptr \<Rightarrow> string res" where
  "SearchAndReplace source search replace = (case (source, search, replace) of
     (Ptr src, Ptr f, Ptr r) \<Rightarrow>
       if strcmp f [] = 0 then Ok src else Ok (SearchAndReplace_loop [] src f r)
   | _ \<Rightarrow> Fault AssertFail)"

fun ScanPastChars :: "string \<Rightarrow> string \<Rightarrow> string" where
  "ScanPastChars scanpast [] = []"
| "ScanPastChars scanpast (c # pos) = (if strchr_in scanpast c then ScanPastChars scanpast pos else c # pos)"

text \<open>CountChar skips a separator behind a backslash.\<close>

fun CountChar_loop :: "string \<Rightarrow> char \<Rightarrow> int \<Rightarrow> int" where
  "CountChar_loop [] sep n = n"
| "CountChar_loop [c] sep n = (if c = sep then n + 1 else n)"
| "CountChar_loop (c # d # sp) sep n =
     (if c = CHR 0x5C \<and> d = sep then CountChar_loop sp sep n
      else if c = sep then CountChar_loop (d # sp) sep (n + 1)
      else CountChar_loop (d # sp) sep n)"

definition CountChar :: "string ptr \<Rightarrow> char \<Rightarrow> int" where
  "CountChar str sep = (case str of NULL \<Rightarrow> 0 | Ptr s \<Rightarrow> if length s = 0 then 0 else CountChar_loop s sep 0)"

text \<open>String2StringArray: one entry per separator and one more.\<close>

function string_array_loop :: "string \<Rightarrow> char \<Rightarrow> string list" where
  "string_array_loop sp separator =
     (if separator \<in> set sp
      then let len = length (takeWhile (\<lambda>c. c \<noteq> separator) sp)
           in take len sp # string_array_loop (drop (len + 1) sp) separator
      else [sp])"
  by pat_completeness auto
termination
  by (relation "measure (\<lambda>(s, c). length s)") (auto simp: length_pos_if_in_set intro: diff_less)

declare string_array_loop.simps [simp del]

definition String2StringArray :: "string ptr \<Rightarrow> char \<Rightarrow> string list ptr" where
  "String2StringArray str separator = (case str of NULL \<Rightarrow> NULL | Ptr s \<Rightarrow> Ptr (string_array_loop s separator))"

text \<open>FreeStringArray frees every string of the array; the strings freed.\<close>

definition FreeStringArray :: "string list ptr \<Rightarrow> string list" where
  "FreeStringArray strs = (case strs of NULL \<Rightarrow> [] | Ptr ss \<Rightarrow> ss)"

section \<open>Tokens\<close>

record StringRef =
  sr_data :: "nat ptr"
  sr_len :: nat

definition StringRefNull :: StringRef where
  "StringRefNull = \<lparr>sr_data = NULL, sr_len = 0\<rparr>"

text \<open>
  The loops run over the first \<open>len\<close> bytes of a region; a region that ends earlier is a fault. The
  data pointer of a token is its offset in the region.
\<close>

fun StringCountTokens_loop :: "string \<Rightarrow> nat \<Rightarrow> string \<Rightarrow> nat \<Rightarrow> bool \<Rightarrow> nat res" where
  "StringCountTokens_loop str 0 seps num_tokens in_token = Ok num_tokens"
| "StringCountTokens_loop [] (Suc len) seps num_tokens in_token = Fault OutOfBounds"
| "StringCountTokens_loop (c # str) (Suc len) seps num_tokens in_token =
     (if strchr_in seps c then StringCountTokens_loop str len seps num_tokens False
      else StringCountTokens_loop str len seps (if \<not> in_token then num_tokens + 1 else num_tokens) True)"

definition StringCountTokens :: "string \<Rightarrow> nat \<Rightarrow> string \<Rightarrow> nat res" where
  "StringCountTokens str len seps = StringCountTokens_loop str len seps 0 False"

fun StringNextToken_loop :: "string \<Rightarrow> nat \<Rightarrow> string \<Rightarrow> nat \<Rightarrow> nat \<Rightarrow> bool \<Rightarrow> StringRef res" where
  "StringNextToken_loop str 0 seps i start found =
     (if found then Ok \<lparr>sr_data = Ptr start, sr_len = i - start\<rparr> else Ok StringRefNull)"
| "StringNextToken_loop [] (Suc len) seps i start found = Fault OutOfBounds"
| "StringNextToken_loop (c # str) (Suc len) seps i start found =
     (if strchr_in seps c then
        (if found then bindE (c_assert (i > 0)) (\<lambda>_. Ok \<lparr>sr_data = Ptr start, sr_len = i - start\<rparr>)
         else StringNextToken_loop str len seps (i + 1) start found)
      else StringNextToken_loop str len seps (i + 1) (if \<not> found then i else start) True)"

definition StringNextToken :: "string \<Rightarrow> nat \<Rightarrow> string \<Rightarrow> StringRef res" where
  "StringNextToken str len seps = StringNextToken_loop str len seps 0 0 False"

text \<open>\<open>off\<close>: how far \<open>str\<close> has advanced in the region; the result is relative to the whole region.\<close>

fun StringGetToken_loop :: "string \<Rightarrow> nat \<Rightarrow> nat \<Rightarrow> nat \<Rightarrow> string \<Rightarrow> StringRef res" where
  "StringGetToken_loop region off len 0 seps =
     bindE (StringNextToken (drop off region) len seps) (\<lambda>ref. Ok (ref\<lparr>sr_data := map_option ((+) off) (sr_data ref)\<rparr>))"
| "StringGetToken_loop region off len (Suc index) seps =
     bindE (StringNextToken (drop off region) len seps) (\<lambda>ref. case sr_data ref of
       NULL \<Rightarrow> Ok ref
     | Ptr d \<Rightarrow> StringGetToken_loop region (off + d + sr_len ref) (len - (d + sr_len ref)) index seps)"

definition StringGetToken :: "string \<Rightarrow> nat \<Rightarrow> nat \<Rightarrow> string \<Rightarrow> StringRef res" where
  "StringGetToken str len index seps = StringGetToken_loop str 0 len index seps"

section \<open>Paths\<close>

definition Path_Basename :: "string ptr \<Rightarrow> string ptr res" where
  "Path_Basename path = (case path of
     NULL \<Rightarrow> Fault AssertFail
   | Ptr p \<Rightarrow>
       (let filename = (if CHR ''/'' \<in> set p then rev (takeWhile (\<lambda>c. c \<noteq> CHR ''/'') (rev p)) else p)
        in Ok (if filename = [] then NULL else Ptr filename)))"

definition Path_JoinAlloc :: "string \<Rightarrow> string \<Rightarrow> string" where
  "Path_JoinAlloc dir leaf = (if StringEndsWith dir ''/'' then dir @ leaf else dir @ ''/'' @ leaf)"

definition path_char :: "char \<Rightarrow> bool" where
  "path_char c \<longleftrightarrow> islower c \<or> isupper c \<or> isdigit c \<or> c = CHR ''_'' \<or> c = CHR ''-'' \<or> c = CHR ''/''"

fun Path_needs_quoting :: "string \<Rightarrow> bool \<Rightarrow> bool" where
  "Path_needs_quoting [] needs_quoting = needs_quoting"
| "Path_needs_quoting (cp # path) needs_quoting =
     (if needs_quoting then True else Path_needs_quoting path (\<not> path_char cp))"

text \<open>For an empty path the second test reads \<open>path[-1]\<close> only if \<open>path[0]\<close> is a quote.\<close>

definition Path_GetQuoted :: "string ptr \<Rightarrow> string ptr" where
  "Path_GetQuoted path = (case path of
     NULL \<Rightarrow> NULL
   | Ptr p \<Rightarrow>
       if p \<noteq> [] \<and> p ! 0 = CHR 0x22 \<and> p ! (length p - 1) = CHR 0x22 then SafeStringDuplicate path
       else if Path_needs_quoting p False then Ptr ([CHR 0x22] @ p @ [CHR 0x22])
       else SafeStringDuplicate path)"

section \<open>Reference definitions\<close>

text \<open>The words of a text, and replacing the first \<open>n\<close> occurrences of a pattern.\<close>

function tokens :: "(char \<Rightarrow> bool) \<Rightarrow> string \<Rightarrow> string list" where
  "tokens P s = (let t = dropWhile P s in
     if t = [] then [] else takeWhile (\<lambda>c. \<not> P c) t # tokens P (dropWhile (\<lambda>c. \<not> P c) t))"
  by pat_completeness auto
termination
proof (relation "measure (\<lambda>(P, s). length s)", goal_cases)
  case (2 P s t)
  have "length (dropWhile (\<lambda>c. \<not> P c) t) < length t"
  proof (cases t)
    case (Cons c u)
    then have "\<not> P c" using 2(1) hd_dropWhile [of P s] by (metis list.sel(1) list.simps(3))
    then show ?thesis using length_dropWhile_le [of "\<lambda>c. \<not> P c" u] by (simp add: Cons)
  qed (use 2 in simp)
  also have "\<dots> \<le> length s" using 2(1) length_dropWhile_le [of P s] by simp
  finally show ?case by simp
qed simp

declare tokens.simps [simp del]

lemma tokens_Nil_iff: "tokens P s = [] \<longleftrightarrow> dropWhile P s = []"
  by (subst tokens.simps) (simp add: Let_def)

lemma tokens_dropWhile: "tokens P (dropWhile P s) = tokens P s"
  by (subst (1 2) tokens.simps) simp

lemma tokens_sep [simp]: "P c \<Longrightarrow> tokens P (c # s) = tokens P s"
  using tokens_dropWhile [of P "c # s"] tokens_dropWhile [of P s] by simp

lemma tokens_word [simp]:
  "\<not> P c \<Longrightarrow> tokens P (c # s) = (c # takeWhile (\<lambda>c. \<not> P c) s) # tokens P (dropWhile (\<lambda>c. \<not> P c) s)"
  by (subst tokens.simps) simp

lemma tokens_empty [simp]: "tokens P [] = []"
  by (subst tokens.simps) simp

lemma StringCountTokens_loop_tokens:
  "len \<le> length str \<Longrightarrow> StringCountTokens_loop str len seps n b
    = Ok (n + length (tokens (strchr_in seps) (if b then dropWhile (\<lambda>c. \<not> strchr_in seps c) (take len str) else take len str)))"
proof (induction str len seps n b rule: StringCountTokens_loop.induct)
  case (3 c str len seps n b)
  then show ?case by (cases b) auto
qed auto

lemma StringCountTokens_tokens:
  "len \<le> length str \<Longrightarrow> StringCountTokens str len seps = Ok (length (tokens (strchr_in seps) (take len str)))"
  by (simp add: StringCountTokens_def StringCountTokens_loop_tokens)

lemma StringNextToken_found:
  "len \<le> length str \<Longrightarrow> start < i \<Longrightarrow> StringNextToken_loop str len seps i start True
    = Ok \<lparr>sr_data = Ptr start, sr_len = i + length (takeWhile (\<lambda>c. \<not> strchr_in seps c) (take len str)) - start\<rparr>"
  by (induction str len seps i start True rule: StringNextToken_loop.induct) auto

lemma StringNextToken_search:
  "len \<le> length str \<Longrightarrow> StringNextToken_loop str len seps i start False
    = Ok (let s = take len str; t = dropWhile (strchr_in seps) s
          in if t = [] then StringRefNull
             else \<lparr>sr_data = Ptr (i + length (takeWhile (strchr_in seps) s)),
                    sr_len = length (takeWhile (\<lambda>c. \<not> strchr_in seps c) t)\<rparr>)"
proof (induction str len seps i start False rule: StringNextToken_loop.induct)
  case (3 c str len seps i start)
  then show ?case by (auto simp: StringNextToken_found Let_def)
qed auto

text \<open>The next token splits the text; searching on behind it searches the rest.\<close>

lemma StringNextToken_split:
  assumes "tokens (strchr_in seps) s = w # ws"
  obtains pre post where "s = pre @ w @ post" "tokens (strchr_in seps) post = ws"
    "StringNextToken (s @ behind) (length s) seps = Ok \<lparr>sr_data = Ptr (length pre), sr_len = length w\<rparr>"
proof -
  let ?P = "strchr_in seps"
  define t where "t = dropWhile ?P s"
  have ne: "t \<noteq> []" using assms tokens_Nil_iff [of ?P s] by (auto simp: t_def)
  have w: "w = takeWhile (\<lambda>c. \<not> ?P c) t" "ws = tokens ?P (dropWhile (\<lambda>c. \<not> ?P c) t)"
    using assms ne tokens.simps [of ?P s] by (simp_all add: Let_def t_def [symmetric])
  have "s = takeWhile ?P s @ w @ dropWhile (\<lambda>c. \<not> ?P c) t" by (simp add: w(1) t_def)
  moreover have "StringNextToken (s @ behind) (length s) seps
      = Ok \<lparr>sr_data = Ptr (length (takeWhile ?P s)), sr_len = length w\<rparr>"
    unfolding StringNextToken_def using ne
    by (subst StringNextToken_search) (simp_all add: t_def [symmetric] w(1) Let_def del: dropWhile_eq_Nil_conv)
  ultimately show thesis using that w(2) by blast
qed

lemma StringNextToken_none:
  assumes "tokens (strchr_in seps) s = []"
  shows "StringNextToken (s @ behind) (length s) seps = Ok StringRefNull"
proof -
  have "dropWhile (strchr_in seps) s = []" using assms tokens_Nil_iff by blast
  then show ?thesis unfolding StringNextToken_def by (subst StringNextToken_search) (auto simp: Let_def)
qed

definition is_token :: "string \<Rightarrow> StringRef \<Rightarrow> string \<Rightarrow> bool" where
  "is_token region ref t \<longleftrightarrow>
     (\<exists>d. sr_data ref = Ptr d \<and> sr_len ref = length t \<and> d + length t \<le> length region \<and> take (length t) (drop d region) = t)"

lemma StringGetToken_loop_tokens:
  "\<exists>ref. StringGetToken_loop (front @ s @ behind) (length front) (length s) index seps = Ok ref \<and>
     (let ts = tokens (strchr_in seps) s
      in if index < length ts then is_token (front @ s @ behind) ref (ts ! index) else ref = StringRefNull)"
proof (induction index arbitrary: front s)
  case 0
  show ?case
  proof (cases "tokens (strchr_in seps) s")
    case Nil
    then show ?thesis using StringNextToken_none [OF Nil, of behind] by (simp add: StringRefNull_def)
  next
    case (Cons w ws)
    then obtain pre post where sp: "s = pre @ w @ post"
      "StringNextToken (s @ behind) (length s) seps = Ok \<lparr>sr_data = Ptr (length pre), sr_len = length w\<rparr>"
      by (rule StringNextToken_split [where behind = behind])
    have "is_token (front @ s @ behind) \<lparr>sr_data = Ptr (length front + length pre), sr_len = length w\<rparr> w"
      by (simp add: is_token_def sp(1))
    then show ?thesis using sp(2) by (simp add: Cons)
  qed
next
  case (Suc index)
  show ?case
  proof (cases "tokens (strchr_in seps) s")
    case Nil
    then show ?thesis using StringNextToken_none [OF Nil, of behind] by (simp add: StringRefNull_def)
  next
    case (Cons w ws)
    then obtain pre post where sp: "s = pre @ w @ post" "tokens (strchr_in seps) post = ws"
      "StringNextToken (s @ behind) (length s) seps = Ok \<lparr>sr_data = Ptr (length pre), sr_len = length w\<rparr>"
      by (rule StringNextToken_split [where behind = behind])
    have region: "(front @ pre @ w) @ post @ behind = front @ s @ behind" by (simp add: sp(1))
    from Suc [of "front @ pre @ w" post] obtain ref where
      "StringGetToken_loop (front @ s @ behind) (length (front @ pre @ w)) (length post) index seps = Ok ref"
      "if index < length ws then is_token (front @ s @ behind) ref (ws ! index) else ref = StringRefNull"
      unfolding region Let_def sp(2) by blast
    then show ?thesis using sp(3) by (intro exI [of _ ref]) (auto simp: Cons [unfolded sp(1)] sp(1) add.assoc split: if_splits)
  qed
qed

section \<open>Properties\<close>

text \<open>
  C33: the token functions agree with the reference definition of the words of a text:
  StringCountTokens counts them, StringGetToken returns the place of the word with the given index in
  the text, and the NULL reference when there are fewer words. They read nothing behind the given
  length.
\<close>

theorem StringGetToken_words:
  "StringCountTokens (s @ behind) (length s) seps = Ok (length (tokens (strchr_in seps) s)) \<and>
   (\<exists>ref. StringGetToken (s @ behind) (length s) index seps = Ok ref \<and>
     (if index < length (tokens (strchr_in seps) s)
      then is_token (s @ behind) ref (tokens (strchr_in seps) s ! index) else ref = StringRefNull))"
proof -
  have "StringCountTokens (s @ behind) (length s) seps = Ok (length (tokens (strchr_in seps) s))"
    by (simp add: StringCountTokens_tokens)
  then show ?thesis using StringGetToken_loop_tokens [of "[]" s behind index seps]
    unfolding Let_def StringGetToken_def append_Nil list.size(3) by blast
qed

end
