(* ===== verification/Sequence.thy ===== *)
theory Sequence
  imports Prelude "HOL-Library.Multiset"
begin

text \<open>
  The array list \<open>Seq\<close> of libutils/sequence.c and sequence.h.

  A \<open>Seq\<close> owns a block of \<open>seq_capacity\<close> cells, of which the first \<open>seq_length\<close> hold the items.
  \<open>ItemDestroy\<close> is a function pointer that may be NULL; the model records whether it is set, and
  every operation that may call it returns the items it was called on, in call order. \<open>seq_rep s xs\<close>
  says that \<open>s\<close> is well formed and represents the item list \<open>xs\<close>; the lemmas show that no operation
  faults inside its documented precondition and what it does to the list.
\<close>

section \<open>Data\<close>

record 'a Seq =
  seq_data :: "'a ptr carray"
  seq_length :: nat
  seq_capacity :: nat
  seq_ItemDestroy :: bool

type_synonym ('a, 'u) SeqItemComparator = "'a ptr \<Rightarrow> 'a ptr \<Rightarrow> 'u ptr \<Rightarrow> int"

definition EXPAND_FACTOR :: nat where
  "EXPAND_FACTOR = 2"

section \<open>Construction, access and growth\<close>

definition SeqNew :: "nat \<Rightarrow> bool \<Rightarrow> 'a Seq" where
  "SeqNew initialCapacity ItemDestroy =
     (let cap = (if initialCapacity \<le> 0 then 1 else initialCapacity)
      in \<lparr>seq_data = xcalloc cap NULL, seq_length = 0, seq_capacity = cap,
          seq_ItemDestroy = ItemDestroy\<rparr>)"

definition SeqLength :: "'a Seq \<Rightarrow> nat" where
  "SeqLength seq = seq_length seq"

definition SeqAt :: "'a Seq \<Rightarrow> nat \<Rightarrow> 'a ptr res" where
  "SeqAt seq i = bindE (c_assert (i < seq_length seq)) (\<lambda>_. cread (seq_data seq) i)"

definition ExpandIfNeccessary :: "'a Seq \<Rightarrow> 'a Seq res" where
  "ExpandIfNeccessary seq =
     bindE (c_assert (seq_length seq \<le> seq_capacity seq)) (\<lambda>_.
     if seq_length seq = seq_capacity seq
     then let cap = seq_capacity seq * EXPAND_FACTOR
          in Ok (seq\<lparr>seq_capacity := cap, seq_data := xrealloc (seq_data seq) cap\<rparr>)
     else Ok seq)"

definition SeqAppend :: "'a Seq \<Rightarrow> 'a ptr \<Rightarrow> 'a Seq res" where
  "SeqAppend seq item =
     bindE (ExpandIfNeccessary seq) (\<lambda>s.
     bindE (cwrite (seq_data s) (seq_length s) item) (\<lambda>d.
     Ok (s\<lparr>seq_data := d, seq_length := seq_length s + 1\<rparr>)))"

section \<open>Destroying items\<close>

definition DestroyRange :: "'a Seq \<Rightarrow> nat \<Rightarrow> nat \<Rightarrow> 'a ptr list res" where
  "DestroyRange seq start stop =
     (if seq_ItemDestroy seq then cread_range (seq_data seq) start (stop + 1 - start) else Ok [])"

definition SeqDestroy :: "'a Seq \<Rightarrow> 'a ptr list res" where
  "SeqDestroy seq =
     (if seq_length seq > 0 then DestroyRange seq 0 (seq_length seq - 1) else Ok [])"

definition SeqSet :: "'a Seq \<Rightarrow> nat \<Rightarrow> 'a ptr \<Rightarrow> ('a Seq \<times> 'a ptr list) res" where
  "SeqSet seq index item =
     bindE (c_assert (index < SeqLength seq)) (\<lambda>_.
     bindE (if seq_ItemDestroy seq then cread_range (seq_data seq) index 1 else Ok []) (\<lambda>gone.
     bindE (cwrite (seq_data seq) index item) (\<lambda>d.
     Ok (seq\<lparr>seq_data := d\<rparr>, gone))))"

definition SeqSoftSet :: "'a Seq \<Rightarrow> nat \<Rightarrow> 'a ptr \<Rightarrow> 'a Seq res" where
  "SeqSoftSet seq index item =
     bindE (c_assert (index < SeqLength seq)) (\<lambda>_.
     bindE (cwrite (seq_data seq) index item) (\<lambda>d.
     Ok (seq\<lparr>seq_data := d\<rparr>)))"

definition SeqSoftRemoveRange :: "'a Seq \<Rightarrow> nat \<Rightarrow> nat \<Rightarrow> 'a Seq res" where
  "SeqSoftRemoveRange seq start stop =
     bindE (c_assert (stop < seq_length seq)) (\<lambda>_.
     bindE (c_assert (start \<le> stop)) (\<lambda>_.
     let rest_len = seq_length seq - stop - 1
     in bindE (if rest_len > 0 then memmove (seq_data seq) start (stop + 1) rest_len
               else Ok (seq_data seq)) (\<lambda>d.
        Ok (seq\<lparr>seq_data := d, seq_length := seq_length seq - (stop - start + 1)\<rparr>))))"

definition SeqRemoveRange :: "'a Seq \<Rightarrow> nat \<Rightarrow> nat \<Rightarrow> ('a Seq \<times> 'a ptr list) res" where
  "SeqRemoveRange seq start stop =
     bindE (c_assert (stop < seq_length seq)) (\<lambda>_.
     bindE (c_assert (start \<le> stop)) (\<lambda>_.
     bindE (DestroyRange seq start stop) (\<lambda>gone.
     let rest_len = seq_length seq - stop - 1
     in bindE (if rest_len > 0 then memmove (seq_data seq) start (stop + 1) rest_len
               else Ok (seq_data seq)) (\<lambda>d.
        Ok (seq\<lparr>seq_data := d, seq_length := seq_length seq - (stop - start + 1)\<rparr>, gone)))))"

definition SeqRemove :: "'a Seq \<Rightarrow> nat \<Rightarrow> ('a Seq \<times> 'a ptr list) res" where
  "SeqRemove seq index = SeqRemoveRange seq index index"

definition SeqSoftRemove :: "'a Seq \<Rightarrow> nat \<Rightarrow> 'a Seq res" where
  "SeqSoftRemove seq index = SeqSoftRemoveRange seq index index"

definition SeqClear :: "'a Seq \<Rightarrow> ('a Seq \<times> 'a ptr list) res" where
  "SeqClear seq =
     (if SeqLength seq > 0 then SeqRemoveRange seq 0 (SeqLength seq - 1) else Ok (seq, []))"

section \<open>Linear search\<close>

function SeqIndexOf_loop ::
  "'a Seq \<Rightarrow> 'a ptr \<Rightarrow> ('a, 'u) SeqItemComparator \<Rightarrow> nat \<Rightarrow> nat option res" where
  "SeqIndexOf_loop seq key Compare i =
     (if i < seq_length seq
      then bindE (cread (seq_data seq) i) (\<lambda>x.
           if Compare key x NULL = 0 then Ok (Some i)
           else SeqIndexOf_loop seq key Compare (i + 1))
      else Ok None)"
  by pat_completeness auto
termination
  by (relation "measure (\<lambda>(seq, key, Compare, i). seq_length seq - i)") auto

declare SeqIndexOf_loop.simps [simp del]

definition SeqIndexOf :: "'a Seq \<Rightarrow> 'a ptr \<Rightarrow> ('a, 'u) SeqItemComparator \<Rightarrow> int res" where
  "SeqIndexOf seq key Compare =
     bindE (SeqIndexOf_loop seq key Compare 0) (\<lambda>r.
     Ok (case r of Some i \<Rightarrow> int i | None \<Rightarrow> -1))"

definition SeqLookup :: "'a Seq \<Rightarrow> 'a ptr \<Rightarrow> ('a, 'u) SeqItemComparator \<Rightarrow> 'a ptr res" where
  "SeqLookup seq key Compare =
     bindE (SeqIndexOf_loop seq key Compare 0) (\<lambda>r.
     case r of Some i \<Rightarrow> cread (seq_data seq) i | None \<Rightarrow> Ok NULL)"

definition SeqAppendOnce ::
  "'a Seq \<Rightarrow> 'a ptr \<Rightarrow> ('a, 'u) SeqItemComparator \<Rightarrow> ('a Seq \<times> 'a ptr list) res" where
  "SeqAppendOnce seq item Compare =
     bindE (SeqLookup seq item Compare) (\<lambda>found.
     if found = NULL then bindE (SeqAppend seq item) (\<lambda>s. Ok (s, []))
     else Ok (seq, if seq_ItemDestroy seq then [item] else []))"

section \<open>Whole-sequence operations\<close>

function SeqAppendSeq_loop :: "'a Seq \<Rightarrow> 'a Seq \<Rightarrow> nat \<Rightarrow> 'a Seq res" where
  "SeqAppendSeq_loop seq items i =
     (if i < SeqLength items
      then bindE (SeqAt items i) (\<lambda>x. bindE (SeqAppend seq x) (\<lambda>s.
           SeqAppendSeq_loop s items (i + 1)))
      else Ok seq)"
  by pat_completeness auto
termination
  by (relation "measure (\<lambda>(seq, items, i). SeqLength items - i)") auto

declare SeqAppendSeq_loop.simps [simp del]

definition SeqAppendSeq :: "'a Seq \<Rightarrow> 'a Seq \<Rightarrow> 'a Seq res" where
  "SeqAppendSeq seq items = SeqAppendSeq_loop seq items 0"

function SeqGetRange_loop :: "'a Seq \<Rightarrow> nat \<Rightarrow> nat \<Rightarrow> 'a Seq \<Rightarrow> 'a Seq res" where
  "SeqGetRange_loop seq i stop sub =
     (if i \<le> stop
      then bindE (c_assert (i < SeqLength seq)) (\<lambda>_.
           bindE (SeqAt seq i) (\<lambda>x. bindE (SeqAppend sub x) (\<lambda>s.
           SeqGetRange_loop seq (i + 1) stop s)))
      else Ok sub)"
  by pat_completeness auto
termination
  by (relation "measure (\<lambda>(seq, i, stop, sub). Suc stop - i)") auto

declare SeqGetRange_loop.simps [simp del]

definition SeqGetRange :: "'a Seq \<Rightarrow> nat \<Rightarrow> nat \<Rightarrow> 'a Seq ptr res" where
  "SeqGetRange seq start stop =
     (if start > stop \<or> start \<ge> seq_length seq \<or> stop \<ge> seq_length seq then Ok NULL
      else bindE (SeqGetRange_loop seq start stop
                    (SeqNew (stop - start + 1) (seq_ItemDestroy seq))) (\<lambda>sub. Ok (Ptr sub)))"

definition SeqSplit :: "'a Seq \<Rightarrow> nat \<Rightarrow> ('a Seq \<times> 'a Seq) res" where
  "SeqSplit seq index =
     (let length = SeqLength seq
      in bindE (c_assert (index \<le> length)) (\<lambda>_.
         if index \<ge> length then Ok (seq, SeqNew 1 (seq_ItemDestroy seq))
         else bindE (SeqGetRange seq index (length - 1)) (\<lambda>ret.
              bindE (c_assert (ret \<noteq> NULL)) (\<lambda>_.
              bindE (SeqSoftRemoveRange seq index (length - 1)) (\<lambda>s.
              Ok (s, the ret))))))"

function SeqReverse_loop :: "'a ptr carray \<Rightarrow> nat \<Rightarrow> nat \<Rightarrow> 'a ptr carray res" where
  "SeqReverse_loop data len i =
     (if i < len div 2
      then bindE (cswap data i (len - 1 - i)) (\<lambda>d. SeqReverse_loop d len (i + 1))
      else Ok data)"
  by pat_completeness auto
termination
  by (relation "measure (\<lambda>(data, len, i). len - i)") auto

declare SeqReverse_loop.simps [simp del]

definition SeqReverse :: "'a Seq \<Rightarrow> 'a Seq res" where
  "SeqReverse seq =
     bindE (SeqReverse_loop (seq_data seq) (seq_length seq) 0) (\<lambda>d. Ok (seq\<lparr>seq_data := d\<rparr>))"

text \<open>
  \<open>rand\<close> and \<open>srand\<close> belong to the C library, which fixes neither the generator nor its state:
  \<open>rand g\<close> is a number and the next generator state, \<open>srand seed\<close> the state after seeding.
\<close>

fun SeqShuffle_loop ::
  "('g \<Rightarrow> nat \<times> 'g) \<Rightarrow> 'a ptr carray \<Rightarrow> nat \<Rightarrow> 'g \<Rightarrow> ('a ptr carray \<times> 'g) res" where
  "SeqShuffle_loop rand data 0 g = Ok (data, g)"
| "SeqShuffle_loop rand data (Suc i) g =
     (case rand g of (r, g') \<Rightarrow>
        bindE (cswap data (Suc i) (r mod (Suc i + 1))) (\<lambda>d. SeqShuffle_loop rand d i g'))"

definition SeqShuffle ::
  "('g \<Rightarrow> nat \<times> 'g) \<Rightarrow> (nat \<Rightarrow> 'g) \<Rightarrow> 'a Seq \<Rightarrow> nat \<Rightarrow> 'g \<Rightarrow> ('a Seq \<times> 'g) res" where
  "SeqShuffle rand srand seq seed g =
     (if SeqLength seq = 0 then Ok (seq, g)
      else let rand_state = fst (rand g)
           in bindE (SeqShuffle_loop rand (seq_data seq) (SeqLength seq - 1) (srand seed)) (\<lambda>(d, _).
              Ok (seq\<lparr>seq_data := d\<rparr>, srand rand_state)))"

text \<open>\<open>int from\<close> and \<open>int to\<close> stay between 0 and \<open>int length\<close>, so they do not overflow.\<close>

function SeqFilter_loop ::
  "bool \<Rightarrow> ('a ptr \<Rightarrow> bool) \<Rightarrow> int \<Rightarrow> 'a ptr carray \<Rightarrow> nat \<Rightarrow> nat \<Rightarrow> 'a ptr list
    \<Rightarrow> ('a ptr carray \<times> nat \<times> 'a ptr list) res" where
  "SeqFilter_loop destroy filt len data from to gone =
     (if int from < len
      then bindE (cread data from) (\<lambda>x.
           if filt x
           then (if destroy then SeqFilter_loop destroy filt len data (from + 1) to (gone @ [x])
                 else Fault NullDeref)
           else bindE (cwrite data to x) (\<lambda>d.
                SeqFilter_loop destroy filt len d (from + 1) (to + 1) gone))
      else Ok (data, to, gone))"
  by pat_completeness auto
termination
  by (relation "measure (\<lambda>(destroy, filt, len, data, from, to, gone). nat len - from)") auto

declare SeqFilter_loop.simps [simp del]

definition SeqFilter :: "'a Seq \<Rightarrow> ('a ptr \<Rightarrow> bool) \<Rightarrow> ('a Seq \<times> 'a ptr list) res" where
  "SeqFilter seq filt =
     bindE (SeqFilter_loop (seq_ItemDestroy seq) filt (int_of_size (SeqLength seq))
              (seq_data seq) 0 0 []) (\<lambda>(d, to, gone).
     Ok (seq\<lparr>seq_data := d, seq_length := to\<rparr>, gone))"

definition SeqRemoveNulls :: "'a Seq \<Rightarrow> ('a Seq \<times> 'a ptr list) res" where
  "SeqRemoveNulls seq = SeqFilter seq (\<lambda>item. item = NULL)"

fun SeqFromArgv_loop :: "'a Seq \<Rightarrow> 'a ptr list \<Rightarrow> 'a Seq res" where
  "SeqFromArgv_loop args [] = Ok args"
| "SeqFromArgv_loop args (a # as) = bindE (SeqAppend args a) (\<lambda>s. SeqFromArgv_loop s as)"

definition SeqFromArgv :: "'a ptr list \<Rightarrow> 'a Seq res" where
  "SeqFromArgv argv =
     bindE (c_assert (length argv > 0)) (\<lambda>_.
     bindE (c_assert (hd argv \<noteq> NULL)) (\<lambda>_.
     SeqFromArgv_loop (SeqNew (length argv) False) argv))"

section \<open>Representation and basic operations\<close>

definition seq_rep :: "'a Seq \<Rightarrow> 'a ptr list \<Rightarrow> bool" where
  "seq_rep s xs \<longleftrightarrow> stores (seq_data s) xs \<and> length xs = seq_length s
     \<and> length (seq_data s) = seq_capacity s \<and> 0 < seq_capacity s"

lemma seq_repD:
  assumes "seq_rep s xs"
  shows "stores (seq_data s) xs" "seq_length s = length xs"
    "length (seq_data s) = seq_capacity s" "length xs \<le> seq_capacity s" "0 < seq_capacity s"
  using assms stores_length [of "seq_data s" xs] by (auto simp: seq_rep_def)

lemma seq_repI:
  "stores (seq_data s) xs \<Longrightarrow> length xs = seq_length s \<Longrightarrow> length (seq_data s) = seq_capacity s \<Longrightarrow>
   0 < seq_capacity s \<Longrightarrow> seq_rep s xs"
  by (simp add: seq_rep_def)

lemma seq_rep_unique: "seq_rep s xs \<Longrightarrow> seq_rep s ys \<Longrightarrow> xs = ys"
  by (auto simp: seq_rep_def intro: stores_inj)

lemma SeqNew_rep: "seq_rep (SeqNew n d) [] \<and> seq_ItemDestroy (SeqNew n d) = d"
  by (simp add: SeqNew_def seq_rep_def Let_def)

lemma SeqLength_rep [simp]: "seq_rep s xs \<Longrightarrow> SeqLength s = length xs"
  by (simp add: SeqLength_def seq_rep_def)

lemma SeqAt_eq:
  "seq_rep s xs \<Longrightarrow> SeqAt s i = (if i < length xs then Ok (xs ! i) else Fault AssertFail)"
  by (auto simp: SeqAt_def seq_rep_def)

lemma ExpandIfNeccessary_rep:
  assumes "seq_rep s xs"
  shows "\<exists>s'. ExpandIfNeccessary s = Ok s' \<and> seq_rep s' xs \<and> seq_length s' < seq_capacity s'
    \<and> seq_ItemDestroy s' = seq_ItemDestroy s"
proof (cases "seq_length s = seq_capacity s")
  case True
  let ?c = "seq_capacity s * 2"
  have "seq_rep (s\<lparr>seq_capacity := ?c, seq_data := xrealloc (seq_data s) ?c\<rparr>) xs"
    using seq_repD [OF assms] by (intro seq_repI) auto
  with True seq_repD [OF assms] show ?thesis
    by (simp add: ExpandIfNeccessary_def EXPAND_FACTOR_def Let_def)
next
  case False
  with assms seq_repD [OF assms] show ?thesis
    by (simp add: ExpandIfNeccessary_def)
qed

lemma SeqAppend_rep:
  assumes "seq_rep s xs"
  shows "\<exists>s'. SeqAppend s x = Ok s' \<and> seq_rep s' (xs @ [x])
    \<and> seq_ItemDestroy s' = seq_ItemDestroy s"
proof -
  from ExpandIfNeccessary_rep [OF assms] obtain t where t:
    "ExpandIfNeccessary s = Ok t" "seq_rep t xs" "seq_length t < seq_capacity t"
    "seq_ItemDestroy t = seq_ItemDestroy s" by blast
  note r = seq_repD [OF t(2)]
  have "stores ((seq_data t)[length xs := Val x]) (xs @ [x])"
    using r t(3) by (intro stores_snoc) auto
  then have "seq_rep (t\<lparr>seq_data := (seq_data t)[length xs := Val x],
      seq_length := seq_length t + 1\<rparr>) (xs @ [x])"
    using r by (intro seq_repI) auto
  with t r show ?thesis by (simp add: SeqAppend_def)
qed

interpretation seq: appendable seq_rep SeqAppend seq_ItemDestroy
  by unfold_locales (rule SeqAppend_rep)

section \<open>Destroying and removing items\<close>

lemma DestroyRange_eq:
  assumes "seq_rep s xs" "i \<le> j" "j < length xs"
  shows "DestroyRange s i j = Ok (if seq_ItemDestroy s then take (j + 1 - i) (drop i xs) else [])"
  using assms seq_repD [OF assms(1)] by (simp add: DestroyRange_def)

lemma SeqDestroy_eq:
  "seq_rep s xs \<Longrightarrow> SeqDestroy s = Ok (if seq_ItemDestroy s then xs else [])"
  using DestroyRange_eq [of s xs 0 "length xs - 1"] seq_repD [of s xs]
  by (cases "xs = []") (auto simp: SeqDestroy_def)

lemma SeqSet_rep:
  assumes "seq_rep s xs" "i < length xs"
  shows "\<exists>s'. SeqSet s i x = Ok (s', if seq_ItemDestroy s then [xs ! i] else [])
    \<and> seq_rep s' (xs[i := x]) \<and> seq_ItemDestroy s' = seq_ItemDestroy s"
proof -
  note r = seq_repD [OF assms(1)]
  have "seq_rep (s\<lparr>seq_data := (seq_data s)[i := Val x]\<rparr>) (xs[i := x])"
    using r assms(2) by (intro seq_repI) (auto simp: stores_update)
  moreover have "cread_range (seq_data s) i 1 = Ok [xs ! i]"
    using r assms(2) by simp
  ultimately show ?thesis using assms r by (simp add: SeqSet_def)
qed

lemma SeqSoftSet_rep:
  assumes "seq_rep s xs" "i < length xs"
  shows "\<exists>s'. SeqSoftSet s i x = Ok s' \<and> seq_rep s' (xs[i := x])
    \<and> seq_ItemDestroy s' = seq_ItemDestroy s"
proof -
  note r = seq_repD [OF assms(1)]
  have "seq_rep (s\<lparr>seq_data := (seq_data s)[i := Val x]\<rparr>) (xs[i := x])"
    using r assms(2) by (intro seq_repI) (auto simp: stores_update)
  then show ?thesis using assms r by (simp add: SeqSoftSet_def)
qed

lemma SeqSoftRemoveRange_rep:
  assumes rep: "seq_rep s xs" and ij: "i \<le> j" "j < length xs"
  shows "\<exists>s'. SeqSoftRemoveRange s i j = Ok s' \<and> seq_rep s' (take i xs @ drop (j + 1) xs)
    \<and> seq_ItemDestroy s' = seq_ItemDestroy s"
proof -
  note r = seq_repD [OF rep]
  let ?n = "length xs - (j + 1)"
  from memmove_close_gap [OF r(1), of i "j + 1"] ij obtain b where
    b: "memmove (seq_data s) i (j + 1) ?n = Ok b" "stores b (take i xs @ drop (j + 1) xs)"
      "length b = length (seq_data s)" by auto
  show ?thesis
  proof (cases "?n = 0")
    case True
    then have "take i xs @ drop (j + 1) xs = take i xs" by simp
    moreover have "seq_rep (s\<lparr>seq_data := seq_data s, seq_length := length xs - (j - i + 1)\<rparr>) (take i xs)"
      using r ij True by (intro seq_repI) (auto simp: stores_take)
    ultimately show ?thesis using True r ij by (simp add: SeqSoftRemoveRange_def Let_def)
  next
    case False
    have "seq_rep (s\<lparr>seq_data := b, seq_length := length xs - (j - i + 1)\<rparr>)
        (take i xs @ drop (j + 1) xs)"
      using b r ij by (intro seq_repI) auto
    with False b r ij show ?thesis by (simp add: SeqSoftRemoveRange_def Let_def)
  qed
qed

lemma SeqRemoveRange_soft:
  assumes "seq_rep s xs" "i \<le> j" "j < length xs"
  shows "SeqRemoveRange s i j = bindE (SeqSoftRemoveRange s i j)
    (\<lambda>s'. Ok (s', if seq_ItemDestroy s then take (j + 1 - i) (drop i xs) else []))"
  using assms seq_repD [OF assms(1)] DestroyRange_eq [OF assms]
  by (simp add: SeqRemoveRange_def SeqSoftRemoveRange_def Let_def bindE_assoc)

lemma SeqRemoveRange_rep:
  assumes "seq_rep s xs" "i \<le> j" "j < length xs"
  shows "\<exists>s'. SeqRemoveRange s i j
      = Ok (s', if seq_ItemDestroy s then take (j + 1 - i) (drop i xs) else [])
    \<and> seq_rep s' (take i xs @ drop (j + 1) xs) \<and> seq_ItemDestroy s' = seq_ItemDestroy s"
  using SeqSoftRemoveRange_rep [OF assms] SeqRemoveRange_soft [OF assms] by auto

lemma SeqClear_rep:
  assumes "seq_rep s xs"
  shows "\<exists>s'. SeqClear s = Ok (s', if seq_ItemDestroy s then xs else [])
    \<and> seq_rep s' [] \<and> seq_ItemDestroy s' = seq_ItemDestroy s"
proof (cases "xs = []")
  case False
  with SeqRemoveRange_rep [OF assms, of 0 "length xs - 1"] assms show ?thesis
    by (auto simp: SeqClear_def)
qed (use assms in \<open>simp add: SeqClear_def\<close>)

section \<open>Searching\<close>

lemma SeqIndexOf_loop_eq:
  assumes "seq_rep s xs"
  shows "i \<le> length xs \<Longrightarrow> SeqIndexOf_loop s key cmp i
    = Ok (map_option (\<lambda>k. k + i) (first_index (\<lambda>x. cmp key x NULL = 0) (drop i xs)))"
proof (induction "length xs - i" arbitrary: i)
  case 0
  with seq_repD [OF assms] show ?case by (simp add: SeqIndexOf_loop.simps)
next
  case (Suc n)
  then have i: "i < length xs" by simp
  have IH: "SeqIndexOf_loop s key cmp (Suc i)
      = Ok (map_option (\<lambda>k. k + Suc i) (first_index (\<lambda>x. cmp key x NULL = 0) (drop (Suc i) xs)))"
    using Suc.hyps i by simp
  show ?case using i seq_repD [OF assms] IH
    by (subst SeqIndexOf_loop.simps)
      (auto simp: first_index_drop option.map_comp o_def)
qed

lemma SeqIndexOf_eq:
  "seq_rep s xs \<Longrightarrow> SeqIndexOf s key cmp
    = Ok (case first_index (\<lambda>x. cmp key x NULL = 0) xs of Some i \<Rightarrow> int i | None \<Rightarrow> -1)"
  by (simp add: SeqIndexOf_def SeqIndexOf_loop_eq option.map_ident)

lemma SeqLookup_eq:
  assumes "seq_rep s xs"
  shows "SeqLookup s key cmp
    = Ok (case first_index (\<lambda>x. cmp key x NULL = 0) xs of Some i \<Rightarrow> xs ! i | None \<Rightarrow> NULL)"
  using assms seq_repD [OF assms]
  by (auto simp: SeqLookup_def SeqIndexOf_loop_eq option.map_ident split: option.split
      dest: first_index_SomeD)

lemma SeqAppendOnce_rep:
  assumes "seq_rep s xs"
  shows "\<exists>s'. seq_rep s' (if SeqLookup s x cmp = Ok NULL then xs @ [x] else xs)
    \<and> SeqAppendOnce s x cmp
        = Ok (s', if SeqLookup s x cmp \<noteq> Ok NULL \<and> seq_ItemDestroy s then [x] else [])
    \<and> seq_ItemDestroy s' = seq_ItemDestroy s"
  using SeqAppend_rep [OF assms, of x] assms SeqLookup_eq [OF assms, of x cmp]
  by (auto simp: SeqAppendOnce_def)

section \<open>Building sequences from sequences\<close>

lemma SeqAppendSeq_loop_eq:
  assumes "seq_rep items ys"
  shows "i \<le> length ys \<Longrightarrow> SeqAppendSeq_loop s items i = run_all SeqAppend s (drop i ys)"
proof (induction "length ys - i" arbitrary: i s)
  case 0
  with assms show ?case by (simp add: SeqAppendSeq_loop.simps)
next
  case (Suc n)
  then have "i < length ys" "drop i ys = ys ! i # drop (Suc i) ys"
    by (simp_all add: Cons_nth_drop_Suc)
  with assms Suc.hyps show ?case
    by (subst SeqAppendSeq_loop.simps) (simp add: SeqAt_eq)
qed

lemma SeqAppendSeq_rep:
  assumes "seq_rep s xs" "seq_rep items ys"
  shows "\<exists>s'. SeqAppendSeq s items = Ok s' \<and> seq_rep s' (xs @ ys)
    \<and> seq_ItemDestroy s' = seq_ItemDestroy s"
  using seq.append_all_rep [OF assms(1), of ys] SeqAppendSeq_loop_eq [OF assms(2), of 0 s]
  by (simp add: SeqAppendSeq_def)

lemma SeqGetRange_loop_eq:
  assumes "seq_rep s xs" "j < length xs"
  shows "i \<le> Suc j \<Longrightarrow> SeqGetRange_loop s i j sub = run_all SeqAppend sub (take (Suc j - i) (drop i xs))"
proof (induction "Suc j - i" arbitrary: i sub)
  case 0
  then show ?case by (simp add: SeqGetRange_loop.simps)
next
  case (Suc n)
  then have "i \<le> j" "drop i xs = xs ! i # drop (Suc i) xs" "Suc j - i = Suc (j - i)"
    using assms by (simp_all add: Cons_nth_drop_Suc)
  moreover from this Suc.hyps have "SeqGetRange_loop s (Suc i) j
      = (\<lambda>sub'. run_all SeqAppend sub' (take (j - i) (drop (Suc i) xs)))" by auto
  ultimately show ?case using assms
    by (subst SeqGetRange_loop.simps) (simp add: SeqAt_eq)
qed

lemma SeqGetRange_NULL:
  "seq_rep s xs \<Longrightarrow> \<not> (i \<le> j \<and> j < length xs) \<Longrightarrow> SeqGetRange s i j = Ok NULL"
  using seq_repD [of s xs] by (auto simp: SeqGetRange_def)

lemma SeqGetRange_rep:
  assumes "seq_rep s xs" "i \<le> j" "j < length xs"
  shows "\<exists>sub. SeqGetRange s i j = Ok (Ptr sub) \<and> seq_rep sub (take (j + 1 - i) (drop i xs))
    \<and> seq_ItemDestroy sub = seq_ItemDestroy s"
proof -
  let ?new = "SeqNew (j - i + 1) (seq_ItemDestroy s)"
  have "seq_rep ?new []" "seq_ItemDestroy ?new = seq_ItemDestroy s"
    using SeqNew_rep by blast+
  with seq.append_all_rep [of ?new "[]" "take (Suc j - i) (drop i xs)"]
  show ?thesis using assms seq_repD [OF assms(1)]
    by (auto simp: SeqGetRange_def SeqGetRange_loop_eq [OF assms(1,3)])
qed

lemma SeqSplit_rep:
  assumes "seq_rep s xs" "k \<le> length xs"
  shows "\<exists>s' r. SeqSplit s k = Ok (s', r) \<and> seq_rep s' (take k xs) \<and> seq_rep r (drop k xs)
    \<and> seq_ItemDestroy s' = seq_ItemDestroy s \<and> seq_ItemDestroy r = seq_ItemDestroy s"
proof (cases "k = length xs")
  case True
  with assms SeqNew_rep [of 1 "seq_ItemDestroy s"] show ?thesis by (simp add: SeqSplit_def)
next
  case False
  with assms have k: "k \<le> length xs - 1" "length xs - 1 < length xs" by auto
  from SeqGetRange_rep [OF assms(1) k] obtain r where
    "SeqGetRange s k (length xs - 1) = Ok (Ptr r)" "seq_rep r (drop k xs)"
    "seq_ItemDestroy r = seq_ItemDestroy s" using k by auto
  moreover from SeqSoftRemoveRange_rep [OF assms(1) k] obtain s' where
    "SeqSoftRemoveRange s k (length xs - 1) = Ok s'" "seq_rep s' (take k xs)"
    "seq_ItemDestroy s' = seq_ItemDestroy s" using k by auto
  ultimately show ?thesis using assms False by (simp add: SeqSplit_def)
qed

lemma SeqFromArgv_loop_eq: "SeqFromArgv_loop s as = run_all SeqAppend s as"
  by (induction as arbitrary: s) auto

lemma SeqFromArgv_rep:
  assumes "argv \<noteq> []" "hd argv \<noteq> NULL"
  shows "\<exists>s. SeqFromArgv argv = Ok s \<and> seq_rep s argv \<and> \<not> seq_ItemDestroy s"
proof -
  have "seq_rep (SeqNew (length argv) False) []" using SeqNew_rep by blast
  with seq.append_all_rep [of "SeqNew (length argv) False" "[]" argv] assms show ?thesis
    by (simp add: SeqFromArgv_def SeqFromArgv_loop_eq SeqNew_def Let_def)
qed

section \<open>Reversing, shuffling, filtering\<close>

lemma SeqReverse_loop_rep:
  assumes "length ys = length xs" "2 * i \<le> length xs" "stores a ys"
    and "\<And>k. k < length xs \<Longrightarrow>
      ys ! k = (if k < i \<or> length xs - i \<le> k then xs ! (length xs - 1 - k) else xs ! k)"
  shows "\<exists>b. SeqReverse_loop a (length xs) i = Ok b \<and> stores b (rev xs) \<and> length b = length a"
  using assms
proof (induction "length xs div 2 - i" arbitrary: i a ys)
  case 0
  then have i: "i = length xs div 2" by simp
  have "ys = rev xs"
  proof (rule nth_equalityI)
    fix k assume "k < length ys"
    then show "ys ! k = rev xs ! k"
      using 0(5) [of k] 0(2) i by (auto simp: rev_nth intro!: arg_cong [of _ _ "(!) xs"])
  qed (simp add: 0)
  with 0 i show ?case by (simp add: SeqReverse_loop.simps)
next
  case (Suc n)
  let ?m = "length xs - 1 - i"
  let ?zs = "ys[i := ys ! ?m, ?m := ys ! i]"
  have i: "i < length xs div 2" "i < length ys" "?m < length ys" using Suc.hyps Suc.prems by auto
  from stores_cswap [OF Suc.prems(3) i(2,3)] obtain b where
    b: "cswap a i ?m = Ok b" "stores b ?zs" "length b = length a" by blast
  have "\<exists>c. SeqReverse_loop b (length xs) (Suc i) = Ok c \<and> stores c (rev xs) \<and> length c = length b"
  proof (rule Suc.hyps(1) [where ys = ?zs])
    show "n = length xs div 2 - Suc i" using Suc.hyps(2) by simp
    show "length ?zs = length xs" "2 * Suc i \<le> length xs" using Suc.prems(1) i by auto
    show "stores b ?zs" by (rule b)
    fix k assume "k < length xs"
    with i Suc.prems(1) Suc.prems(4) [of k] Suc.prems(4) [of i] Suc.prems(4) [of ?m]
    show "?zs ! k = (if k < Suc i \<or> length xs - Suc i \<le> k then xs ! (length xs - 1 - k) else xs ! k)"
      by (auto simp: nth_list_update)
  qed
  with b i show ?case by (subst SeqReverse_loop.simps) auto
qed

lemma SeqReverse_rep:
  assumes "seq_rep s xs"
  shows "\<exists>s'. SeqReverse s = Ok s' \<and> seq_rep s' (rev xs) \<and> seq_ItemDestroy s' = seq_ItemDestroy s"
proof -
  note r = seq_repD [OF assms]
  from SeqReverse_loop_rep [of xs xs 0, OF _ _ r(1)] obtain b where
    "SeqReverse_loop (seq_data s) (length xs) 0 = Ok b" "stores b (rev xs)"
    "length b = length (seq_data s)" by auto
  with r show ?thesis by (auto simp: SeqReverse_def intro!: seq_repI)
qed

lemma SeqShuffle_loop_rep:
  "stores a xs \<Longrightarrow> i < length xs \<Longrightarrow>
   \<exists>b ys g'. SeqShuffle_loop rand a i g = Ok (b, g') \<and> stores b ys \<and> mset ys = mset xs
     \<and> length b = length a"
proof (induction i arbitrary: a xs g)
  case (Suc i)
  obtain r g1 where rg: "rand g = (r, g1)" by force
  let ?j = "r mod (Suc i + 1)"
  have j: "?j < Suc i + 1" by simp
  with Suc.prems have "?j < length xs" by linarith
  from stores_cswap [OF Suc.prems(1) Suc.prems(2) this] obtain b where
    b: "cswap a (Suc i) ?j = Ok b" "stores b (xs[Suc i := xs ! ?j, ?j := xs ! Suc i])"
      "length b = length a" by blast
  have "mset (xs[Suc i := xs ! ?j, ?j := xs ! Suc i]) = mset xs"
    using Suc.prems \<open>?j < length xs\<close> by (simp add: mset_swap)
  with Suc.IH [OF b(2), of g1] Suc.prems b rg show ?case by auto
qed auto

lemma SeqShuffle_rep:
  assumes "seq_rep s xs" "xs \<noteq> []"
  shows "\<exists>s' ys. SeqShuffle rand srand s seed g = Ok (s', srand (fst (rand g)))
    \<and> seq_rep s' ys \<and> mset ys = mset xs \<and> seq_ItemDestroy s' = seq_ItemDestroy s"
proof -
  note r = seq_repD [OF assms(1)]
  from SeqShuffle_loop_rep [OF r(1), of "length xs - 1" rand "srand seed"] assms(2)
  obtain b ys g' where b: "SeqShuffle_loop rand (seq_data s) (length xs - 1) (srand seed) = Ok (b, g')"
    "stores b ys" "mset ys = mset xs" "length b = length (seq_data s)" by auto
  have "length ys = length xs" using b(3) by (metis size_mset)
  with b r have "seq_rep (s\<lparr>seq_data := b\<rparr>) ys" by (intro seq_repI) auto
  with b assms show ?thesis by (auto simp: SeqShuffle_def Let_def)
qed

lemma SeqFilter_loop_rep:
  assumes "stores a (ys @ zs)" "length ys \<le> i" "\<forall>k. i \<le> k \<and> k < length xs \<longrightarrow> a ! k = Val (xs ! k)"
    and "i \<le> length xs" "length xs \<le> length a" "zs = []"
    and "destroy \<or> (\<forall>x \<in> set xs. \<not> P x)"
  shows "\<exists>b. SeqFilter_loop destroy P (int (length xs)) a i (length ys) gone
      = Ok (b, length (ys @ filter (\<lambda>x. \<not> P x) (drop i xs)), gone @ filter P (drop i xs))
    \<and> stores b (ys @ filter (\<lambda>x. \<not> P x) (drop i xs)) \<and> length b = length a"
  using assms
proof (induction "length xs - i" arbitrary: i a ys gone)
  case 0
  then show ?case by (simp add: SeqFilter_loop.simps)
next
  case (Suc n)
  then have i: "i < length xs" "n = length xs - Suc i" "drop i xs = xs ! i # drop (Suc i) xs"
    by (simp_all add: Cons_nth_drop_Suc)
  have rd: "cread a i = Ok (xs ! i)" using Suc.prems i(1) by simp
  show ?case
  proof (cases "P (xs ! i)")
    case True
    then have d: destroy using Suc.prems(7) i(1) nth_mem by blast
    from Suc.hyps(1) [OF i(2) Suc.prems(1), of "gone @ [xs ! i]"] Suc.prems i True d rd
    show ?thesis by (subst SeqFilter_loop.simps) simp
  next
    case False
    let ?a = "a[length ys := Val (xs ! i)]"
    have "stores ?a (ys @ [xs ! i])"
      using Suc.prems i(1) by (intro stores_snoc) auto
    moreover have "\<forall>k. Suc i \<le> k \<and> k < length xs \<longrightarrow> ?a ! k = Val (xs ! k)"
      using Suc.prems by auto
    ultimately obtain b where "SeqFilter_loop destroy P (int (length xs)) ?a (Suc i)
        (length (ys @ [xs ! i])) gone = Ok (b, length ((ys @ [xs ! i]) @
          filter (\<lambda>x. \<not> P x) (drop (Suc i) xs)), gone @ filter P (drop (Suc i) xs))"
      "stores b ((ys @ [xs ! i]) @ filter (\<lambda>x. \<not> P x) (drop (Suc i) xs))" "length b = length ?a"
      using Suc.hyps(1) [OF i(2), of ?a "ys @ [xs ! i]" gone] Suc.prems i(1) by auto
    with False i rd Suc.prems show ?thesis by (subst SeqFilter_loop.simps) simp
  qed
qed

lemma SeqFilter_rep:
  assumes "seq_rep s xs" "length xs < 2 ^ 31" "seq_ItemDestroy s \<or> (\<forall>x \<in> set xs. \<not> P x)"
  shows "\<exists>s'. SeqFilter s P = Ok (s', filter P xs) \<and> seq_rep s' (filter (\<lambda>x. \<not> P x) xs)
    \<and> seq_ItemDestroy s' = seq_ItemDestroy s"
proof -
  note r = seq_repD [OF assms(1)]
  have "\<forall>k. 0 \<le> k \<and> k < length xs \<longrightarrow> seq_data s ! k = Val (xs ! k)"
    using stores_nth [OF r(1)] by blast
  from SeqFilter_loop_rep [OF _ _ this, of "[]" "[]" "seq_ItemDestroy s" P "[]"] assms(3) r
  obtain b where
    "SeqFilter_loop (seq_ItemDestroy s) P (int (length xs)) (seq_data s) 0 0 []
      = Ok (b, length (filter (\<lambda>x. \<not> P x) xs), filter P xs)"
    "stores b (filter (\<lambda>x. \<not> P x) xs)" "length b = length (seq_data s)" by auto
  with assms r show ?thesis by (auto simp: SeqFilter_def intro!: seq_repI)
qed

lemma SeqFilter_loop_NULL:
  assumes "\<forall>k. i \<le> k \<and> k < length xs \<longrightarrow> a ! k = Val (xs ! k)" "j \<le> i"
    and "i \<le> length xs" "length xs \<le> length a" "\<exists>x \<in> set (drop i xs). P x"
  shows "SeqFilter_loop False P (int (length xs)) a i j gone = Fault NullDeref"
  using assms
proof (induction "length xs - i" arbitrary: i a j)
  case (Suc n)
  then have i: "i < length xs" "drop i xs = xs ! i # drop (Suc i) xs"
    by (simp_all add: Cons_nth_drop_Suc)
  have rd: "cread a i = Ok (xs ! i)" using Suc.prems i(1) by simp
  show ?case
  proof (cases "P (xs ! i)")
    case True
    with rd i show ?thesis by (subst SeqFilter_loop.simps) simp
  next
    case False
    let ?a = "a[j := Val (xs ! i)]"
    have "SeqFilter_loop False P (int (length xs)) ?a (Suc i) (Suc j) gone = Fault NullDeref"
      using Suc.prems Suc.hyps(2) i False by (intro Suc.hyps(1)) auto
    with False rd i Suc.prems show ?thesis by (subst SeqFilter_loop.simps) simp
  qed
qed simp

lemma SeqFilter_NULL:
  assumes "seq_rep s xs" "length xs < 2 ^ 31" "\<not> seq_ItemDestroy s" "\<exists>x \<in> set xs. P x"
  shows "SeqFilter s P = Fault NullDeref"
proof -
  note r = seq_repD [OF assms(1)]
  have "\<forall>k. 0 \<le> k \<and> k < length xs \<longrightarrow> seq_data s ! k = Val (xs ! k)"
    using stores_nth [OF r(1)] by blast
  from SeqFilter_loop_NULL [OF this, of 0 P "[]"] assms r show ?thesis
    by (simp add: SeqFilter_def)
qed

section \<open>Programs over a sequence\<close>

text \<open>
  Any sequence of calls on one \<open>Seq\<close>: what it hands over to the sequence, what the sequence
  passes to \<open>ItemDestroy\<close>, and when a call is inside its precondition.
\<close>

datatype 'a seq_op =
    OpAppend "'a ptr"
  | OpSet nat "'a ptr"
  | OpRemoveRange nat nat
  | OpFilter "'a ptr \<Rightarrow> bool"
  | OpReverse
  | OpClear

fun seq_exec :: "'a Seq \<Rightarrow> 'a seq_op \<Rightarrow> ('a Seq \<times> 'a ptr list) res" where
  "seq_exec s (OpAppend x) = bindE (SeqAppend s x) (\<lambda>t. Ok (t, []))"
| "seq_exec s (OpSet i x) = SeqSet s i x"
| "seq_exec s (OpRemoveRange i j) = SeqRemoveRange s i j"
| "seq_exec s (OpFilter P) = SeqFilter s P"
| "seq_exec s OpReverse = bindE (SeqReverse s) (\<lambda>t. Ok (t, []))"
| "seq_exec s OpClear = SeqClear s"

fun seq_run :: "'a Seq \<Rightarrow> 'a seq_op list \<Rightarrow> ('a Seq \<times> 'a ptr list) res" where
  "seq_run s [] = Ok (s, [])"
| "seq_run s (op # ops) =
     bindE (seq_exec s op) (\<lambda>(t, gone).
     bindE (seq_run t ops) (\<lambda>(u, gone'). Ok (u, gone @ gone')))"

fun seq_given :: "'a seq_op \<Rightarrow> 'a ptr list" where
  "seq_given (OpAppend x) = [x]"
| "seq_given (OpSet i x) = [x]"
| "seq_given op = []"

fun seq_pre :: "nat \<Rightarrow> 'a seq_op \<Rightarrow> bool" where
  "seq_pre n (OpSet i x) \<longleftrightarrow> i < n"
| "seq_pre n (OpRemoveRange i j) \<longleftrightarrow> i \<le> j \<and> j < n"
| "seq_pre n op \<longleftrightarrow> True"

fun seq_spec :: "'a ptr list \<Rightarrow> 'a seq_op \<Rightarrow> 'a ptr list \<times> 'a ptr list" where
  "seq_spec xs (OpAppend x) = (xs @ [x], [])"
| "seq_spec xs (OpSet i x) = (xs[i := x], [xs ! i])"
| "seq_spec xs (OpRemoveRange i j) = (take i xs @ drop (j + 1) xs, take (j + 1 - i) (drop i xs))"
| "seq_spec xs (OpFilter P) = (filter (\<lambda>x. \<not> P x) xs, filter P xs)"
| "seq_spec xs OpReverse = (rev xs, [])"
| "seq_spec xs OpClear = ([], xs)"

lemma seq_exec_refines:
  assumes "seq_rep s xs" "seq_ItemDestroy s" "length xs < 2 ^ 31" "seq_pre (length xs) op"
  shows "\<exists>t. seq_exec s op = Ok (t, snd (seq_spec xs op)) \<and> seq_rep t (fst (seq_spec xs op))
    \<and> seq_ItemDestroy t"
proof (cases op)
  case (OpAppend x)
  with SeqAppend_rep [OF assms(1), of x] assms(2) show ?thesis by auto
next
  case (OpSet i x)
  with SeqSet_rep [OF assms(1), of i x] assms(2,4) show ?thesis by auto
next
  case (OpRemoveRange i j)
  with SeqRemoveRange_rep [OF assms(1), of i j] assms(2,4) show ?thesis by auto
next
  case (OpFilter P)
  with SeqFilter_rep [OF assms(1,3), of P] assms(2) show ?thesis by auto
next
  case OpReverse
  with SeqReverse_rep [OF assms(1)] assms(2) show ?thesis by auto
next
  case OpClear
  with SeqClear_rep [OF assms(1)] assms(2) show ?thesis by auto
qed

lemma seq_exec_faults:
  assumes "seq_rep s xs" "\<not> seq_pre (length xs) op"
  shows "seq_exec s op = Fault AssertFail"
  using assms seq_repD(2) [OF assms(1)]
  by (cases op) (auto simp: SeqSet_def SeqRemoveRange_def c_assert_def)

lemma seq_spec_mset:
  assumes "seq_pre (length xs) op"
  shows "mset (fst (seq_spec xs op)) + mset (snd (seq_spec xs op)) = mset xs + mset (seq_given op)"
proof (cases op)
  case (OpSet i x)
  with assms show ?thesis
    by (simp add: mset_update)
next
  case (OpRemoveRange i j)
  with assms have "xs = take i xs @ take (j + 1 - i) (drop i xs) @ drop (j + 1) xs"
    by (intro split_three) simp
  then have "mset xs = mset (take i xs) + mset (take (j + 1 - i) (drop i xs)) + mset (drop (j + 1) xs)"
    by (metis mset_append add.assoc)
  with OpRemoveRange show ?thesis by simp
next
  case (OpFilter P)
  then show ?thesis
    using multiset_partition [of "mset xs" P] by (simp add: add.commute)
qed auto

lemma seq_spec_length:
  "seq_pre (length xs) op \<Longrightarrow> length (fst (seq_spec xs op)) \<le> length xs + length (seq_given op)"
  by (cases op) (auto intro: le_trans [OF length_filter_le])

lemma seq_run_accounts:
  assumes "seq_rep s xs" "seq_ItemDestroy s" "seq_run s ops = Ok (t, gone)"
    and "length xs + length (concat (map seq_given ops)) < 2 ^ 31"
  shows "\<exists>ys. seq_rep t ys \<and> seq_ItemDestroy t
    \<and> mset (gone @ ys) = mset (xs @ concat (map seq_given ops))"
  using assms
proof (induction ops arbitrary: s xs gone)
  case Nil
  then show ?case by auto
next
  case (Cons op ops)
  from Cons.prems(3) obtain u g g' where
    u: "seq_exec s op = Ok (u, g)" "seq_run u ops = Ok (t, g')" "gone = g @ g'" by auto
  have pre: "seq_pre (length xs) op" using seq_exec_faults [OF Cons.prems(1)] u(1) by force
  with seq_exec_refines [OF Cons.prems(1,2) _ pre] u(1) Cons.prems(4)
  have r: "seq_rep u (fst (seq_spec xs op))" "seq_ItemDestroy u" "g = snd (seq_spec xs op)" by auto
  have "length (fst (seq_spec xs op)) + length (concat (map seq_given ops)) < 2 ^ 31"
    using seq_spec_length [OF pre] Cons.prems(4) by simp
  from Cons.IH [OF r(1,2) u(2) this] obtain ys where
    ys: "seq_rep t ys" "seq_ItemDestroy t"
      "mset (g' @ ys) = mset (fst (seq_spec xs op)) + mset (concat (map seq_given ops))" by auto
  have "mset (gone @ ys) = mset (fst (seq_spec xs op)) + mset (snd (seq_spec xs op))
      + mset (concat (map seq_given ops))"
    using ys(3) u(3) r(3) by (simp add: algebra_simps)
  then have "mset (gone @ ys) = mset (xs @ concat (map seq_given (op # ops)))"
    using seq_spec_mset [OF pre] by simp
  with ys(1,2) show ?case by blast
qed

section \<open>Properties\<close>

text \<open>
  C3: Ownership. Take any program of appends, replacements, range removals, filters, reversals and
  clears on a new sequence with an item destructor. If the program runs without tripping an
  assertion, destroying the sequence afterwards passes to the destructor, together with what the
  program already destroyed, exactly the items that were handed over: no item leaks and no item
  is destroyed twice.
\<close>

theorem Seq_ownership:
  assumes "seq_run (SeqNew n True) ops = Ok (s, gone)"
    and "length (concat (map seq_given ops)) < 2 ^ 31"
  shows "\<exists>rest. SeqDestroy s = Ok rest \<and> mset (gone @ rest) = mset (concat (map seq_given ops))"
proof -
  have new: "seq_rep (SeqNew n True) []" "seq_ItemDestroy (SeqNew n True :: 'a Seq)"
    using SeqNew_rep by blast+
  with seq_run_accounts [OF new assms(1)] assms(2) obtain ys where
    "seq_rep s ys" "seq_ItemDestroy s" "mset (gone @ ys) = mset (concat (map seq_given ops))"
    by auto
  then show ?thesis using SeqDestroy_eq [of s ys] by auto
qed

theorem Seq_ownership_witness:
  "let ops = [OpAppend (Ptr 1), OpAppend (Ptr 2), OpSet 0 (Ptr (3 :: nat)), OpRemoveRange 1 1]
   in \<exists>s gone rest. seq_run (SeqNew 1 True) ops = Ok (s, gone) \<and> gone = [Ptr 1, Ptr 2]
      \<and> SeqDestroy s = Ok rest \<and> mset (gone @ rest) = mset [Ptr 1, Ptr 2, Ptr 3]"
proof -
  let ?ops = "[OpAppend (Ptr 1), OpAppend (Ptr 2), OpSet 0 (Ptr (3 :: nat)), OpRemoveRange 1 1]"
  let ?s = "\<lparr>seq_data = [Val (Ptr 3), Val (Ptr 2)], seq_length = 1, seq_capacity = 2,
    seq_ItemDestroy = True\<rparr>"
  have run: "seq_run (SeqNew 1 True) ?ops = Ok (?s, [Ptr 1, Ptr 2])" by code_simp
  then show ?thesis using Seq_ownership [OF run] by (auto simp: Let_def)
qed

text \<open>
  C4: Refinement. On a sequence that represents the item list \<open>xs\<close>, every call does what the list
  specification \<open>seq_spec\<close> says, to the represented list and to the destroyed items, when its
  arguments are inside the documented range, and trips the assertion otherwise. In particular no
  call reads or writes outside the block or reads a cell nobody wrote.
\<close>

theorem Seq_calls_refine_lists:
  assumes "seq_rep s xs" "seq_ItemDestroy s" "length xs < 2 ^ 31"
  shows "\<exists>t. seq_exec s op = (if seq_pre (length xs) op then Ok (t, snd (seq_spec xs op))
      else Fault AssertFail)
    \<and> (seq_pre (length xs) op \<longrightarrow> seq_rep t (fst (seq_spec xs op)) \<and> seq_ItemDestroy t)"
  using seq_exec_refines [OF assms] seq_exec_faults [OF assms(1)] by auto

theorem Seq_calls_refine_lists_witness:
  "\<exists>t. seq_exec \<lparr>seq_data = [Val (Ptr (CHR ''a'')), Val (Ptr (CHR ''b''))], seq_length = 2, seq_capacity = 2,
      seq_ItemDestroy = True\<rparr> (OpRemoveRange 0 0) = Ok (t, [Ptr (CHR ''a'')]) \<and> seq_rep t [Ptr (CHR ''b'')]"
proof -
  let ?s = "\<lparr>seq_data = [Val (Ptr (CHR ''a'')), Val (Ptr (CHR ''b''))], seq_length = 2, seq_capacity = 2,
    seq_ItemDestroy = True\<rparr>"
  have "seq_rep ?s [Ptr (CHR ''a''), Ptr (CHR ''b'')]" by (simp add: seq_rep_def stores_def)
  from Seq_calls_refine_lists [OF this, of "OpRemoveRange 0 0"] show ?thesis by auto
qed

text \<open>
  Round trip. SeqSplit cuts a sequence at an index into two sequences with the same destructor,
  and SeqAppendSeq puts the second part back behind the first.
\<close>

theorem SeqSplit_SeqAppendSeq_roundtrip:
  assumes "seq_rep s xs" "k \<le> length xs"
  shows "\<exists>front back whole. SeqSplit s k = Ok (front, back) \<and> seq_rep front (take k xs)
    \<and> seq_rep back (drop k xs) \<and> seq_ItemDestroy back = seq_ItemDestroy s
    \<and> SeqAppendSeq front back = Ok whole \<and> seq_rep whole xs"
proof -
  from SeqSplit_rep [OF assms] obtain f b where
    "SeqSplit s k = Ok (f, b)" "seq_rep f (take k xs)" "seq_rep b (drop k xs)"
    "seq_ItemDestroy b = seq_ItemDestroy s" by blast
  with SeqAppendSeq_rep [of f "take k xs" b "drop k xs"] show ?thesis by auto
qed

theorem SeqSplit_SeqAppendSeq_roundtrip_witness:
  "\<exists>front back whole. SeqSplit \<lparr>seq_data = [Val (Ptr True), Val NULL], seq_length = 2,
      seq_capacity = 2, seq_ItemDestroy = False\<rparr> 1 = Ok (front, back)
    \<and> seq_rep back [NULL] \<and> SeqAppendSeq front back = Ok whole \<and> seq_rep whole [Ptr True, NULL]"
proof -
  let ?s = "\<lparr>seq_data = [Val (Ptr True), Val NULL], seq_length = 2, seq_capacity = 2,
    seq_ItemDestroy = False\<rparr>"
  have "seq_rep ?s [Ptr True, NULL]" by (simp add: seq_rep_def stores_def)
  from SeqSplit_SeqAppendSeq_roundtrip [OF this, of 1] show ?thesis by auto
qed

text \<open>
  SeqFilter calls \<open>ItemDestroy\<close> without the NULL test that every other operation makes: on a
  sequence built without a destructor (SeqFromArgv, SeqSoftSort of an empty sequence) it calls
  through a NULL pointer as soon as the filter matches one item.
\<close>

theorem SeqFilter_without_destructor:
  assumes "seq_rep s xs" "length xs < 2 ^ 31" "\<not> seq_ItemDestroy s" "\<exists>x \<in> set xs. P x"
  shows "SeqFilter s P = Fault NullDeref"
  using assms by (rule SeqFilter_NULL)

theorem SeqFilter_without_destructor_witness:
  "\<exists>s. SeqFromArgv [Ptr ''a'', NULL] = Ok s \<and> SeqFilter s (\<lambda>item. item = NULL) = Fault NullDeref"
proof -
  from SeqFromArgv_rep [of "[Ptr ''a'', NULL]"] obtain s where
    s: "SeqFromArgv [Ptr ''a'', NULL] = Ok s" "seq_rep s [Ptr ''a'', NULL]" "\<not> seq_ItemDestroy s"
    by auto
  from SeqFilter_without_destructor [OF s(2) _ s(3), of "\<lambda>item. item = NULL"] s(1)
  show ?thesis by auto
qed

text \<open>
  SeqShuffle permutes the items, whatever the C library's generator does, and leaves the
  generator seeded with one number drawn from its previous state. (It does not restore that state,
  as the comment in the code has it: the C library offers no way to read it.)
\<close>

theorem SeqShuffle_permutes:
  assumes "seq_rep s xs" "xs \<noteq> []"
  shows "\<exists>s' ys. SeqShuffle rand srand s seed g = Ok (s', srand (fst (rand g)))
    \<and> seq_rep s' ys \<and> mset ys = mset xs \<and> seq_ItemDestroy s' = seq_ItemDestroy s"
  using assms by (rule SeqShuffle_rep)

theorem SeqShuffle_permutes_witness:
  "\<exists>s' ys. SeqShuffle (\<lambda>g. (g, g + 1)) (\<lambda>seed. seed) \<lparr>seq_data = [Val (Ptr True), Val (Ptr False)],
      seq_length = 2, seq_capacity = 2, seq_ItemDestroy = True\<rparr> 1 7 = Ok (s', 7)
    \<and> seq_rep s' ys \<and> mset ys = mset [Ptr True, Ptr False]"
proof -
  let ?s = "\<lparr>seq_data = [Val (Ptr True), Val (Ptr False)], seq_length = 2, seq_capacity = 2,
    seq_ItemDestroy = True\<rparr>"
  have "seq_rep ?s [Ptr True, Ptr False]" by (simp add: seq_rep_def stores_def)
  from SeqShuffle_permutes [OF this, of "\<lambda>g. (g, g + 1)" "\<lambda>seed. seed" 1 7] show ?thesis by auto
qed

end
