(* ===== verification/SequenceSort.thy ===== *)
theory SequenceSort
  imports Sequence StringLib
begin

text \<open>
  Ordered operations of libutils/sequence.c: SeqSort and SeqSoftSort (the quicksort of
  QuickSortRecursive), SeqBinaryIndexOf and SeqBinaryLookup.

  The quicksort walks two pointers over the block until they cross, with no bounds check: that it
  stays inside the sequence rests on the comparator being consistent. The locale \<open>comparator\<close> states
  that contract, and it is interpreted on \<open>StrCmpWrapper\<close>. The C recursion need not end for an
  inconsistent comparator, so its model carries fuel; \<open>Suc n\<close> levels are enough for \<open>n\<close> items
  because both parts of a partition are shorter than the whole (\<open>QuickSortRecursive_rep\<close>).
\<close>

section \<open>Quicksort\<close>

text \<open>Pointers into the block are signed offsets: \<open>r\<close> may step to the cell before the block.\<close>

definition cread_at :: "'a carray \<Rightarrow> int \<Rightarrow> 'a res" where
  "cread_at a i = (if i < 0 then Fault OutOfBounds else cread a (nat i))"

function scan_up ::
  "('a, 'u) SeqItemComparator \<Rightarrow> 'u ptr \<Rightarrow> 'a ptr \<Rightarrow> 'a ptr carray \<Rightarrow> int \<Rightarrow> int res" where
  "scan_up Compare user_data pivot a l =
     bindE (cread_at a l) (\<lambda>x.
     if Compare x pivot user_data < 0 then scan_up Compare user_data pivot a (l + 1) else Ok l)"
  by pat_completeness auto
termination
  by (relation "measure (\<lambda>(Compare, u, pivot, a, l). nat (int (length a) - l))")
    (auto simp: cread_at_def cread_Ok_iff split: if_splits)

function scan_down ::
  "('a, 'u) SeqItemComparator \<Rightarrow> 'u ptr \<Rightarrow> 'a ptr \<Rightarrow> 'a ptr carray \<Rightarrow> int \<Rightarrow> int res" where
  "scan_down Compare user_data pivot a r =
     bindE (cread_at a r) (\<lambda>x.
     if Compare x pivot user_data > 0 then scan_down Compare user_data pivot a (r - 1) else Ok r)"
  by pat_completeness auto
termination
  by (relation "measure (\<lambda>(Compare, u, pivot, a, r). nat (r + 1))")
    (auto simp: cread_at_def split: if_splits)

declare scan_up.simps [simp del] scan_down.simps [simp del]

lemma scan_up_ge: "scan_up C u p a l = Inr l' \<Longrightarrow> l \<le> l'"
proof (induction C u p a l rule: scan_up.induct)
  case (1 C u p a l)
  then show ?case by (subst (asm) (2) scan_up.simps) (force split: if_splits)
qed

lemma scan_down_le: "scan_down C u p a r = Inr r' \<Longrightarrow> r' \<le> r"
proof (induction C u p a r rule: scan_down.induct)
  case (1 C u p a r)
  then show ?case by (subst (asm) (2) scan_down.simps) (force split: if_splits)
qed

function partition_loop ::
  "('a, 'u) SeqItemComparator \<Rightarrow> 'u ptr \<Rightarrow> 'a ptr \<Rightarrow> 'a ptr carray \<Rightarrow> int \<Rightarrow> int
    \<Rightarrow> ('a ptr carray \<times> int \<times> int) res" where
  "partition_loop Compare user_data pivot a l r =
     (if l \<le> r
      then bindE (scan_up Compare user_data pivot a l) (\<lambda>l'.
           bindE (scan_down Compare user_data pivot a r) (\<lambda>r'.
           if l' \<le> r'
           then bindE (cswap a (nat l') (nat r')) (\<lambda>b.
                partition_loop Compare user_data pivot b (l' + 1) (r' - 1))
           else partition_loop Compare user_data pivot a l' r'))
      else Ok (a, l, r))"
  by pat_completeness auto
termination
  by (relation "measure (\<lambda>(Compare, u, pivot, a, l, r). nat (r - l + 1))")
    (auto dest!: scan_up_ge scan_down_le)

declare partition_loop.simps [simp del]

fun QuickSortRecursive ::
  "nat \<Rightarrow> 'a ptr carray \<Rightarrow> int \<Rightarrow> int \<Rightarrow> ('a, 'u) SeqItemComparator \<Rightarrow> 'u ptr \<Rightarrow> 'a ptr carray res" where
  "QuickSortRecursive 0 a data n Compare user_data = Fault OutOfFuel"
| "QuickSortRecursive (Suc fuel) a data n Compare user_data =
     (if n < 2 then Ok a
      else bindE (cread_at a (data + n div 2)) (\<lambda>pivot.
           bindE (partition_loop Compare user_data pivot a data (data + n - 1)) (\<lambda>(b, l, r).
           bindE (QuickSortRecursive fuel b data (r - data + 1) Compare user_data) (\<lambda>c.
           QuickSortRecursive fuel c l (data + n - l) Compare user_data))))"

definition SeqSort :: "'a Seq \<Rightarrow> ('a, 'u) SeqItemComparator \<Rightarrow> 'u ptr \<Rightarrow> 'a Seq res" where
  "SeqSort seq Compare user_data =
     bindE (QuickSortRecursive (Suc (seq_length seq)) (seq_data seq) 0
              (int_of_size (seq_length seq)) Compare user_data) (\<lambda>d.
     Ok (seq\<lparr>seq_data := d\<rparr>))"

definition SeqSoftSort :: "'a Seq \<Rightarrow> ('a, 'u) SeqItemComparator \<Rightarrow> 'u ptr \<Rightarrow> 'a Seq res" where
  "SeqSoftSort seq compare user_data =
     (let length = SeqLength seq
      in if length = 0 then Ok (SeqNew 0 False)
         else bindE (SeqGetRange seq 0 (length - 1)) (\<lambda>sorted_seq.
              case sorted_seq of NULL \<Rightarrow> Fault NullDeref
              | Ptr s \<Rightarrow> SeqSort s compare user_data))"

section \<open>Binary search\<close>

function SeqBinaryIndexOf_loop ::
  "'a Seq \<Rightarrow> 'a ptr \<Rightarrow> ('a, 'u) SeqItemComparator \<Rightarrow> nat \<Rightarrow> nat \<Rightarrow> int res" where
  "SeqBinaryIndexOf_loop seq key Compare low high =
     (if low < high
      then let middle = low + drop_bit 1 (high - low)
           in bindE (cread (seq_data seq) middle) (\<lambda>x.
              let result = Compare key x NULL
              in if result = 0 then Ok (int middle)
                 else if result > 0 then SeqBinaryIndexOf_loop seq key Compare (middle + 1) high
                 else SeqBinaryIndexOf_loop seq key Compare low middle)
      else Ok (-1))"
  by pat_completeness auto
termination
  by (relation "measure (\<lambda>(seq, key, Compare, low, high). high - low)")
    (auto simp: drop_bit_Suc)

declare SeqBinaryIndexOf_loop.simps [simp del]

definition SeqBinaryIndexOf :: "'a Seq \<Rightarrow> 'a ptr \<Rightarrow> ('a, 'u) SeqItemComparator \<Rightarrow> int res" where
  "SeqBinaryIndexOf seq key Compare =
     (if seq_length seq = 0 then Ok (-1)
      else SeqBinaryIndexOf_loop seq key Compare 0 (seq_length seq))"

definition SeqBinaryLookup :: "'a Seq \<Rightarrow> 'a ptr \<Rightarrow> ('a, 'u) SeqItemComparator \<Rightarrow> 'a ptr res" where
  "SeqBinaryLookup seq key Compare =
     bindE (SeqBinaryIndexOf seq key Compare) (\<lambda>index.
     if index = -1 then Ok NULL else cread_at (seq_data seq) index)"

section \<open>The string comparator\<close>

definition StrCmpWrapper :: "(string, 'u) SeqItemComparator" where
  "StrCmpWrapper s1 s2 user_data = strcmp (the s1) (the s2)"

section \<open>The comparator contract\<close>

text \<open>
  Items of the carrier \<open>A\<close> are compared consistently: swapping the arguments swaps the sign, and
  the induced order is transitive.
\<close>

locale comparator =
  fixes A :: "'a set" and cmp :: "'a \<Rightarrow> 'a \<Rightarrow> int"
  assumes cmp_sym: "x \<in> A \<Longrightarrow> y \<in> A \<Longrightarrow> cmp x y < 0 \<longleftrightarrow> cmp y x > 0"
    and cmp_trans: "x \<in> A \<Longrightarrow> y \<in> A \<Longrightarrow> z \<in> A \<Longrightarrow> cmp x y \<le> 0 \<Longrightarrow> cmp y z \<le> 0 \<Longrightarrow> cmp x z \<le> 0"
begin

definition ordered :: "'a list \<Rightarrow> bool" where
  "ordered xs \<longleftrightarrow> sorted_wrt (\<lambda>x y. cmp x y \<le> 0) xs"

lemma cmp_refl: "x \<in> A \<Longrightarrow> cmp x x = 0"
  using cmp_sym [of x x] by force

lemma cmp_le_ge: "x \<in> A \<Longrightarrow> y \<in> A \<Longrightarrow> cmp x y \<le> 0 \<longleftrightarrow> cmp y x \<ge> 0"
  using cmp_sym [of y x] by auto

text \<open>Three blocks around a pivot, each in order, are in order together.\<close>

lemma ordered_around_pivot:
  assumes p: "p \<in> A" and sub: "set us \<union> set vs \<union> set ws \<subseteq> A"
    and us: "\<And>x. x \<in> set us \<Longrightarrow> cmp x p \<le> 0" and vs: "\<And>x. x \<in> set vs \<Longrightarrow> cmp x p = 0"
    and ws: "\<And>x. x \<in> set ws \<Longrightarrow> cmp x p \<ge> 0" and ord: "ordered us" "ordered ws"
  shows "ordered (us @ vs @ ws)"
proof -
  have le: "cmp x y \<le> 0" if "x \<in> A" "y \<in> A" "cmp x p \<le> 0" "cmp y p \<ge> 0" for x y
    using cmp_trans [OF that(1) p that(2,3)] cmp_le_ge [OF p that(2)] that(4) by simp
  have A: "x \<in> A" if "x \<in> set us \<or> x \<in> set vs \<or> x \<in> set ws" for x using that sub by blast
  have up: "cmp x p \<le> 0" if "x \<in> set us \<or> x \<in> set vs" for x using that us vs [of x] by auto
  have dn: "cmp x p \<ge> 0" if "x \<in> set ws \<or> x \<in> set vs" for x using that ws vs [of x] by auto
  have "\<forall>x \<in> set vs. \<forall>y \<in> set vs. cmp x y \<le> 0" by (simp add: le A up dn)
  then have "sorted_wrt (\<lambda>x y. cmp x y \<le> 0) vs" by (induction vs) auto
  moreover have "\<forall>x \<in> set us. \<forall>y \<in> set vs \<union> set ws. cmp x y \<le> 0" by (auto simp: le A up dn)
  moreover have "\<forall>x \<in> set vs. \<forall>y \<in> set ws. cmp x y \<le> 0" by (simp add: le A up dn)
  ultimately show ?thesis using ord by (simp add: ordered_def sorted_wrt_append ball_Un)
qed

lemma ordered_short: "length xs < 2 \<Longrightarrow> ordered xs"
  by (cases xs) (auto simp: ordered_def)

text \<open>In an ordered list everything left of an item that compares below the key does too.\<close>

lemma ordered_below:
  assumes "ordered xs" "set xs \<subseteq> A" "key \<in> A" "j \<le> m" "m < length xs" "cmp key (xs ! m) > 0"
  shows "cmp key (xs ! j) > 0"
proof (cases "j = m")
  case False
  have A: "xs ! j \<in> A" "xs ! m \<in> A" using assms by auto
  have "cmp (xs ! j) (xs ! m) \<le> 0"
    using assms False sorted_wrt_nth_less [of _ xs j m] by (simp add: ordered_def)
  then show ?thesis
    using cmp_trans [OF assms(3) A] cmp_sym [OF assms(3) A(1)] assms(6) by force
qed (use assms in simp)

lemma ordered_above:
  assumes "ordered xs" "set xs \<subseteq> A" "key \<in> A" "m \<le> j" "j < length xs" "cmp key (xs ! m) < 0"
  shows "cmp key (xs ! j) < 0"
proof (cases "j = m")
  case False
  have A: "xs ! j \<in> A" "xs ! m \<in> A" using assms by auto
  have "cmp (xs ! m) (xs ! j) \<le> 0"
    using assms False sorted_wrt_nth_less [of _ xs m j] by (simp add: ordered_def)
  then have "cmp (xs ! j) key \<le> 0 \<Longrightarrow> cmp (xs ! m) key \<le> 0"
    using cmp_trans [OF A(2,1) assms(3)] by simp
  then show ?thesis
    using cmp_sym [OF assms(3) A(1)] cmp_sym [OF assms(3) A(2)] assms(6) by force
qed (use assms in simp)

end

section \<open>The partition step\<close>

lemma cread_at_stores [simp]:
  "stores a ys \<Longrightarrow> 0 \<le> i \<Longrightarrow> i < int (length ys) \<Longrightarrow> cread_at a i = Ok (ys ! nat i)"
  by (simp add: cread_at_def)

lemma scan_up_finds:
  assumes "stores a ys" "0 \<le> l" "l \<le> k" "k < int (length ys)" "0 \<le> C (ys ! nat k) p u"
  shows "\<exists>l'. scan_up C u p a l = Ok l' \<and> l \<le> l' \<and> l' \<le> k \<and> 0 \<le> C (ys ! nat l') p u
    \<and> (\<forall>j. l \<le> j \<and> j < l' \<longrightarrow> C (ys ! nat j) p u < 0)"
  using assms
proof (induction "nat (k - l)" arbitrary: l rule: less_induct)
  case less
  show ?case
  proof (cases "C (ys ! nat l) p u < 0")
    case True
    with less.prems have "l \<noteq> k" by auto
    with less.prems obtain l' where "scan_up C u p a (l + 1) = Ok l'" "l + 1 \<le> l'" "l' \<le> k"
      "0 \<le> C (ys ! nat l') p u" "\<forall>j. l + 1 \<le> j \<and> j < l' \<longrightarrow> C (ys ! nat j) p u < 0"
      using less.hyps [of "l + 1"] by auto
    moreover have "\<And>j. l \<le> j \<Longrightarrow> j = l \<or> l + 1 \<le> j" by auto
    ultimately show ?thesis using True less.prems
      by (subst scan_up.simps) auto
  qed (use less.prems in \<open>subst scan_up.simps, auto\<close>)
qed

lemma scan_down_finds:
  assumes "stores a ys" "0 \<le> k" "k \<le> r" "r < int (length ys)" "C (ys ! nat k) p u \<le> 0"
  shows "\<exists>r'. scan_down C u p a r = Ok r' \<and> k \<le> r' \<and> r' \<le> r \<and> C (ys ! nat r') p u \<le> 0
    \<and> (\<forall>j. r' < j \<and> j \<le> r \<longrightarrow> 0 < C (ys ! nat j) p u)"
  using assms
proof (induction "nat (r - k)" arbitrary: r rule: less_induct)
  case less
  show ?case
  proof (cases "C (ys ! nat r) p u > 0")
    case True
    with less.prems have "r \<noteq> k" by auto
    with less.prems obtain r' where "scan_down C u p a (r - 1) = Ok r'" "k \<le> r'" "r' \<le> r - 1"
      "C (ys ! nat r') p u \<le> 0" "\<forall>j. r' < j \<and> j \<le> r - 1 \<longrightarrow> 0 < C (ys ! nat j) p u"
      using less.hyps [of "r - 1"] by auto
    moreover have "\<And>j. j \<le> r \<Longrightarrow> j = r \<or> j \<le> r - 1" by auto
    ultimately show ?thesis using True less.prems
      by (subst scan_down.simps) auto
  qed (use less.prems in \<open>subst scan_down.simps, auto\<close>)
qed

text \<open>
  The state of the partition loop on the window \<open>lo .. hi\<close> of \<open>ys\<close>: what lies left of \<open>l\<close> is at
  most the pivot, what lies right of \<open>r\<close> is at least the pivot, and while the pointers have not
  crossed each scan has an item in the window that stops it.
\<close>

definition partition_inv ::
  "('a, 'u) SeqItemComparator \<Rightarrow> 'u ptr \<Rightarrow> 'a ptr \<Rightarrow> 'a ptr list \<Rightarrow> int \<Rightarrow> int \<Rightarrow> int \<Rightarrow> int \<Rightarrow> bool" where
  "partition_inv C u p ys lo hi l r \<longleftrightarrow>
     0 \<le> lo \<and> hi < int (length ys) \<and> lo \<le> l \<and> r \<le> hi \<and> l \<le> hi + 1 \<and> lo - 1 \<le> r
   \<and> (\<forall>k. lo \<le> k \<and> k < l \<longrightarrow> C (ys ! nat k) p u \<le> 0)
   \<and> (\<forall>k. r < k \<and> k \<le> hi \<longrightarrow> 0 \<le> C (ys ! nat k) p u)
   \<and> (l \<le> r \<longrightarrow> (\<exists>k. l \<le> k \<and> k \<le> hi \<and> 0 \<le> C (ys ! nat k) p u)
             \<and> (\<exists>k. lo \<le> k \<and> k \<le> r \<and> C (ys ! nat k) p u \<le> 0))"

text \<open>\<open>ys\<close> and \<open>zs\<close> hold the same items and agree outside the window.\<close>

definition same_outside :: "int \<Rightarrow> int \<Rightarrow> 'a list \<Rightarrow> 'a list \<Rightarrow> bool" where
  "same_outside lo hi ys zs \<longleftrightarrow> length zs = length ys \<and> mset zs = mset ys
   \<and> (\<forall>k < length ys. int k < lo \<or> hi < int k \<longrightarrow> zs ! k = ys ! k)"

lemma same_outside_trans:
  "same_outside lo hi xs ys \<Longrightarrow> same_outside lo hi ys zs \<Longrightarrow> same_outside lo hi xs zs"
  by (simp add: same_outside_def)

lemma same_outside_swap:
  assumes "lo \<le> int i" "int i \<le> hi" "lo \<le> int j" "int j \<le> hi" "i < length ys" "j < length ys"
  shows "same_outside lo hi ys (ys[i := ys ! j, j := ys ! i])"
  using assms by (auto simp: same_outside_def mset_swap nth_list_update)

lemma partition_inv_swap:
  assumes inv: "partition_inv C u p ys lo hi l r"
    and l': "l \<le> l'" "0 \<le> C (ys ! nat l') p u" "\<forall>j. l \<le> j \<and> j < l' \<longrightarrow> C (ys ! nat j) p u < 0"
    and r': "r' \<le> r" "C (ys ! nat r') p u \<le> 0" "\<forall>j. r' < j \<and> j \<le> r \<longrightarrow> 0 < C (ys ! nat j) p u"
    and le: "l' \<le> r'"
  shows "partition_inv C u p (ys[nat l' := ys ! nat r', nat r' := ys ! nat l']) lo hi (l' + 1) (r' - 1)"
proof -
  let ?zs = "ys[nat l' := ys ! nat r', nat r' := ys ! nat l']"
  have b: "0 \<le> lo" "lo \<le> l" "r \<le> hi" "hi < int (length ys)"
    using inv by (auto simp: partition_inv_def)
  have z: "?zs ! nat k = (if k = r' then ys ! nat l' else if k = l' then ys ! nat r' else ys ! nat k)"
    if "0 \<le> k" for k
    using b l' r' le that by (auto simp: nth_list_update)
  have low: "C (?zs ! nat k) p u \<le> 0" if "lo \<le> k" "k < l' + 1" for k
  proof (cases "k = l'")
    case True then show ?thesis using z [of k] that b l' r' le by auto
  next
    case False
    then show ?thesis using z [of k] that b inv l'(3) r' le
      by (cases "k < l") (auto simp: partition_inv_def less_imp_le)
  qed
  have high: "0 \<le> C (?zs ! nat k) p u" if "r' - 1 < k" "k \<le> hi" for k
  proof (cases "k = r'")
    case True then show ?thesis using z [of k] that b l' r' le by auto
  next
    case False
    then show ?thesis using z [of k] that b inv r'(3) l' le
      by (cases "r < k") (auto simp: partition_inv_def less_imp_le)
  qed
  have "\<exists>k. l' + 1 \<le> k \<and> k \<le> hi \<and> 0 \<le> C (?zs ! nat k) p u" if "l' + 1 \<le> r' - 1"
    using high [of r'] that r' b by (intro exI [of _ r']) auto
  moreover have "\<exists>k. lo \<le> k \<and> k \<le> r' - 1 \<and> C (?zs ! nat k) p u \<le> 0" if "l' + 1 \<le> r' - 1"
    using low [of l'] that l' b by (intro exI [of _ l']) auto
  ultimately show ?thesis using b l' r' le low high by (auto simp: partition_inv_def)
qed

lemma partition_loop_ok:
  assumes "stores a ys" "partition_inv C u p ys lo hi l r"
  shows "\<exists>b zs l' r'. partition_loop C u p a l r = Ok (b, l', r') \<and> stores b zs
    \<and> length b = length a \<and> same_outside lo hi ys zs \<and> r' < l'
    \<and> partition_inv C u p zs lo hi l' r' \<and> (l \<le> r \<longrightarrow> lo < l' \<and> r' < hi) \<and> l \<le> l' \<and> r' \<le> r"
  using assms
proof (induction "nat (r - l + 1)" arbitrary: a ys l r rule: less_induct)
  case less
  show ?case
  proof (cases "l \<le> r")
    case False
    with less.prems show ?thesis
      by (subst partition_loop.simps) (auto simp: same_outside_def)
  next
    case True
    note inv = less.prems(2)
    have b: "0 \<le> lo" "lo \<le> l" "r \<le> hi" "hi < int (length ys)"
      using inv by (auto simp: partition_inv_def)
    from inv True obtain k1 k2 where k: "l \<le> k1" "k1 \<le> hi" "0 \<le> C (ys ! nat k1) p u"
      "lo \<le> k2" "k2 \<le> r" "C (ys ! nat k2) p u \<le> 0" by (auto simp: partition_inv_def)
    from scan_up_finds [OF less.prems(1), of l k1 C p u] k b obtain l' where
      l': "scan_up C u p a l = Ok l'" "l \<le> l'" "l' \<le> k1" "0 \<le> C (ys ! nat l') p u"
        "\<forall>j. l \<le> j \<and> j < l' \<longrightarrow> C (ys ! nat j) p u < 0" by auto
    from scan_down_finds [OF less.prems(1), of k2 r C p u] k b obtain r' where
      r': "scan_down C u p a r = Ok r'" "k2 \<le> r'" "r' \<le> r" "C (ys ! nat r') p u \<le> 0"
        "\<forall>j. r' < j \<and> j \<le> r \<longrightarrow> 0 < C (ys ! nat j) p u" by auto
    show ?thesis
    proof (cases "l' \<le> r'")
      case swap: True
      let ?ys = "ys[nat l' := ys ! nat r', nat r' := ys ! nat l']"
      have in_ys: "nat l' < length ys" "nat r' < length ys" using swap b l' r' by auto
      from stores_cswap [OF less.prems(1) in_ys] obtain c where
        c: "cswap a (nat l') (nat r') = Ok c" "stores c ?ys" "length c = length a" by blast
      have "same_outside lo hi ys ?ys"
        using swap b l' r' k in_ys by (intro same_outside_swap) auto
      moreover have "partition_inv C u p ?ys lo hi (l' + 1) (r' - 1)"
        by (rule partition_inv_swap [OF inv l'(2,4,5) r'(3,4,5) swap])
      moreover have "nat (r' - 1 - (l' + 1) + 1) < nat (r - l + 1)" using True l' r' by simp
      ultimately obtain d zs l2 r2 where
        "partition_loop C u p c (l' + 1) (r' - 1) = Ok (d, l2, r2)" "stores d zs"
        "length d = length c" "same_outside lo hi ?ys zs" "r2 < l2"
        "partition_inv C u p zs lo hi l2 r2" "l' + 1 \<le> l2" "r2 \<le> r' - 1"
        using less.hyps [OF _ c(2), of "r' - 1" "l' + 1"] by blast
      with \<open>same_outside lo hi ys ?ys\<close> True swap l' r' c b show ?thesis
        by (subst partition_loop.simps) (auto intro: same_outside_trans)
    next
      case False
      have "C (ys ! nat j) p u \<le> 0" if "lo \<le> j" "j < l'" for j
        using that inv l'(5) by (cases "j < l") (auto simp: partition_inv_def less_imp_le)
      moreover have "0 \<le> C (ys ! nat j) p u" if "r' < j" "j \<le> hi" for j
        using that inv r'(5) by (cases "r < j") (auto simp: partition_inv_def less_imp_le)
      ultimately have "partition_inv C u p ys lo hi l' r'"
        using False l' r' k b by (simp add: partition_inv_def)
      moreover have "partition_loop C u p a l' r' = Ok (a, l', r')"
        using False by (subst partition_loop.simps) simp
      moreover have "lo < l'" "r' < hi" using False k l' r' b by auto
      ultimately show ?thesis using True False l' r' less.prems(1)
        by (subst partition_loop.simps) (auto simp: same_outside_def)
    qed
  qed
qed

section \<open>Correctness of the sort\<close>

lemma same_outside_window:
  assumes "same_outside (int (length P)) (int (length P) + int (length W) - 1) (P @ W @ S) zs"
  shows "\<exists>V. zs = P @ V @ S \<and> length V = length W \<and> mset V = mset W"
proof -
  let ?V = "take (length W) (drop (length P) zs)"
  note so = assms [unfolded same_outside_def]
  have len: "length zs = length P + length W + length S" using so by simp
  have "take (length P) zs = P"
    using so len by (intro nth_equalityI) (auto simp: nth_append)
  moreover have "drop (length P + length W) zs = S"
    using so len by (intro nth_equalityI) (auto simp: nth_append)
  ultimately have zs: "zs = P @ ?V @ S"
    by (metis add.commute append_take_drop_id drop_drop)
  have "mset (P @ ?V @ S) = mset (P @ W @ S)" using so zs by simp
  then have "mset ?V = mset W" by simp
  with zs len show ?thesis by (intro exI [of _ ?V]) simp
qed

lemma partition_blocks:
  assumes inv: "partition_inv C u p (P @ V @ S) (int (length P)) (int (length P + length V) - 1) l r"
    and cross: "r < l"
  shows "\<exists>us vs ws. V = us @ vs @ ws \<and> r + 1 = int (length P + length us)
    \<and> l = int (length P + length us + length vs) \<and> (\<forall>x \<in> set us. C x p u \<le> 0)
    \<and> (\<forall>x \<in> set vs. C x p u = 0) \<and> (\<forall>x \<in> set ws. 0 \<le> C x p u)"
proof -
  define i where "i = nat (r + 1) - length P"
  define j where "j = nat l - length P"
  have b: "int (length P) \<le> l" "int (length P) - 1 \<le> r" "l \<le> int (length P + length V)"
    "r \<le> int (length P + length V) - 1" using inv by (auto simp: partition_inv_def)
  have ij: "r + 1 = int (length P + i)" "l = int (length P + j)" "i \<le> j" "j \<le> length V"
    using b cross by (auto simp: i_def j_def)
  have V: "(P @ V @ S) ! nat (int (length P + k)) = V ! k" if "k < length V" for k
    using that by (simp add: nth_append nat_int_add)
  have side: "int (length P) \<le> k \<Longrightarrow> k < l \<Longrightarrow> C ((P @ V @ S) ! nat k) p u \<le> 0"
    "r < k \<Longrightarrow> k < int (length P + length V) \<Longrightarrow> 0 \<le> C ((P @ V @ S) ! nat k) p u" for k
    using inv by (simp_all add: partition_inv_def)
  have low: "C (V ! k) p u \<le> 0" if "k < j" for k
    using side(1) [of "int (length P + k)"] V [of k] ij that by simp
  have high: "0 \<le> C (V ! k) p u" if "i \<le> k" "k < length V" for k
    using side(2) [of "int (length P + k)"] V [of k] ij that by simp
  let ?us = "take i V" and ?vs = "take (j - i) (drop i V)" and ?ws = "drop j V"
  have "\<forall>x \<in> set ?us. C x p u \<le> 0"
    using ij low by (auto simp: in_set_conv_nth)
  moreover have "C (V ! k) p u = 0" if "i \<le> k" "k < j" for k
    using low [of k] high [of k] that ij(4) by simp
  then have "\<forall>x \<in> set ?vs. C x p u = 0"
    using ij(3,4) by (auto simp: in_set_conv_nth)
  moreover have "\<forall>x \<in> set ?ws. 0 \<le> C x p u"
    using ij(3,4) high by (auto simp: in_set_conv_nth)
  ultimately show ?thesis using split_three [OF ij(3), of V] ij
    by (intro exI [of _ ?us] exI [of _ ?vs] exI [of _ ?ws]) simp
qed

lemma partition_inv_start:
  assumes "comparator A (\<lambda>x y. C x y u)" "set W \<subseteq> A" "W \<noteq> []"
  shows "partition_inv C u (W ! (length W div 2)) (P @ W @ S) (int (length P))
    (int (length P + length W) - 1) (int (length P)) (int (length P + length W) - 1)"
proof -
  let ?m = "length W div 2"
  have "?m < length W" using assms(3) by auto
  then have "W ! ?m \<in> A" "(P @ W @ S) ! nat (int (length P + ?m)) = W ! ?m"
    using assms(2) by (auto simp: nth_append nat_int_add)
  then have "C ((P @ W @ S) ! nat (int (length P + ?m))) (W ! ?m) u = 0"
    using comparator.cmp_refl [OF assms(1)] by simp
  moreover have "int (length P) \<le> int (length P + ?m)"
    "int (length P + ?m) \<le> int (length P + length W) - 1" using \<open>?m < length W\<close> by auto
  ultimately show ?thesis
    unfolding partition_inv_def using assms(3) by (auto intro!: exI [of _ "int (length P + ?m)"])
qed

lemma QuickSort_partition:
  assumes cmp: "comparator A (\<lambda>x y. C x y u)" and st: "stores a (P @ W @ S)"
    and sub: "set W \<subseteq> A" and W: "2 \<le> length W"
  shows "\<exists>b us vs ws. partition_loop C u (W ! (length W div 2)) a (int (length P))
      (int (length P + length W) - 1)
        = Ok (b, int (length P + length us + length vs), int (length P + length us) - 1)
    \<and> stores b (P @ (us @ vs @ ws) @ S) \<and> length b = length a \<and> mset (us @ vs @ ws) = mset W
    \<and> length us < length W \<and> length ws < length W
    \<and> (\<forall>us' ws'. mset us' = mset us \<and> mset ws' = mset ws
        \<and> comparator.ordered (\<lambda>x y. C x y u) us' \<and> comparator.ordered (\<lambda>x y. C x y u) ws'
        \<longrightarrow> comparator.ordered (\<lambda>x y. C x y u) (us' @ vs @ ws'))"
proof -
  let ?p = "W ! (length W div 2)" and ?lo = "int (length P)"
  let ?hi = "int (length P + length W) - 1"
  have "W \<noteq> []" using W by auto
  from partition_loop_ok [OF st partition_inv_start [where C = C and u = u, OF cmp sub this]]
  obtain b zs l r where part: "partition_loop C u ?p a ?lo ?hi = Ok (b, l, r)" "stores b zs"
    "length b = length a" "same_outside ?lo ?hi (P @ W @ S) zs" "r < l"
    "partition_inv C u ?p zs ?lo ?hi l r" "?lo < l" "r < ?hi" using W by auto
  from same_outside_window [of P W S zs] part(4) obtain V where
    V: "zs = P @ V @ S" "length V = length W" "mset V = mset W" by (auto simp: algebra_simps)
  from partition_blocks [of C u ?p P V S l r] part(5,6) V(1,2) obtain us vs ws where
    blk: "V = us @ vs @ ws" "r + 1 = int (length P + length us)"
      "l = int (length P + length us + length vs)" "\<forall>x \<in> set us. C x ?p u \<le> 0"
      "\<forall>x \<in> set vs. C x ?p u = 0" "\<forall>x \<in> set ws. 0 \<le> C x ?p u" by auto
  have A: "?p \<in> A" "set us \<union> set vs \<union> set ws \<subseteq> A"
    using sub W mset_eq_setD [OF V(3)] blk(1) by auto
  have "comparator.ordered (\<lambda>x y. C x y u) (us' @ vs @ ws')"
    if "mset us' = mset us \<and> mset ws' = mset ws \<and> comparator.ordered (\<lambda>x y. C x y u) us'
      \<and> comparator.ordered (\<lambda>x y. C x y u) ws'" for us' ws'
    using that A blk by (intro comparator.ordered_around_pivot [OF cmp, of ?p])
      (auto dest!: mset_eq_setD)
  moreover have "int (length us) < int (length W)" "int (length ws) < int (length W)"
    using part(7,8) blk(1,2,3) V(2) by auto
  ultimately show ?thesis using part blk V by (intro exI [of _ b] exI [of _ us] exI [of _ vs]
      exI [of _ ws]) (auto simp: algebra_simps)
qed

lemma QuickSortRecursive_rep:
  assumes cmp: "comparator A (\<lambda>x y. C x y u)"
  shows "length W < fuel \<Longrightarrow> stores a (P @ W @ S) \<Longrightarrow> set W \<subseteq> A \<Longrightarrow>
    \<exists>b V. QuickSortRecursive fuel a (int (length P)) (int (length W)) C u = Ok b
      \<and> stores b (P @ V @ S) \<and> length b = length a \<and> mset V = mset W
      \<and> comparator.ordered (\<lambda>x y. C x y u) V"
proof (induction fuel arbitrary: a P W S)
  case (Suc fuel)
  show ?case
  proof (cases "length W < 2")
    case True
    with Suc.prems comparator.ordered_short [OF cmp True] show ?thesis by auto
  next
    case False
    let ?p = "W ! (length W div 2)"
    from QuickSort_partition [where C = C and u = u, OF cmp Suc.prems(2,3)] False obtain b us vs ws where
      part: "partition_loop C u ?p a (int (length P)) (int (length P + length W) - 1)
          = Ok (b, int (length P + length us + length vs), int (length P + length us) - 1)"
        "stores b (P @ (us @ vs @ ws) @ S)" "length b = length a" "mset (us @ vs @ ws) = mset W"
        "length us < length W" "length ws < length W"
        "\<forall>us' ws'. mset us' = mset us \<and> mset ws' = mset ws
          \<and> comparator.ordered (\<lambda>x y. C x y u) us' \<and> comparator.ordered (\<lambda>x y. C x y u) ws'
          \<longrightarrow> comparator.ordered (\<lambda>x y. C x y u) (us' @ vs @ ws')" by (auto simp: not_less)
    have A: "set us \<subseteq> A" "set ws \<subseteq> A"
      using mset_eq_setD [OF part(4)] Suc.prems(3) by auto
    from Suc.IH [of us b P "vs @ ws @ S"] part A Suc.prems(1) obtain c us' where
      c: "QuickSortRecursive fuel b (int (length P)) (int (length us)) C u = Ok c"
        "stores c (P @ us' @ vs @ ws @ S)" "length c = length b" "mset us' = mset us"
        "comparator.ordered (\<lambda>x y. C x y u) us'" by auto
    from Suc.IH [of ws c "P @ us' @ vs" S] c(2) part A Suc.prems(1) obtain d ws' where
      d: "QuickSortRecursive fuel c (int (length (P @ us' @ vs))) (int (length ws)) C u = Ok d"
        "stores d (P @ (us' @ vs @ ws') @ S)" "length d = length c" "mset ws' = mset ws"
        "comparator.ordered (\<lambda>x y. C x y u) ws'" by auto
    have "length us' = length us" "length W = length (us @ vs @ ws)"
      using c(4) part(4) by (metis size_mset)+
    moreover have "length W div 2 < length W" using False by simp
    then have "cread_at a (int (length P) + int (length W) div 2) = Ok ?p"
      using Suc.prems(2)
      by (simp add: nth_append zdiv_int [symmetric, of "length W" 2, simplified] nat_add_distrib
          flip: of_nat_add)
    ultimately have "QuickSortRecursive (Suc fuel) a (int (length P)) (int (length W)) C u = Ok d"
      using part(1) c(1) d(1) False by (simp add: algebra_simps)
    moreover have "mset (us' @ vs @ ws') = mset W" using part(4) c(4) d(4) by simp
    ultimately show ?thesis using part c d by (intro exI [of _ d] exI [of _ "us' @ vs @ ws'"]) simp
  qed
qed simp

lemma SeqSort_rep:
  assumes "comparator A (\<lambda>x y. C x y u)" "seq_rep s xs" "set xs \<subseteq> A" "length xs < 2 ^ 31"
  shows "\<exists>s' ys. SeqSort s C u = Ok s' \<and> seq_rep s' ys \<and> mset ys = mset xs
    \<and> comparator.ordered (\<lambda>x y. C x y u) ys \<and> seq_ItemDestroy s' = seq_ItemDestroy s"
proof -
  note r = seq_repD [OF assms(2)]
  from QuickSortRecursive_rep [where C = C and u = u, OF assms(1), of xs "Suc (length xs)" "seq_data s" "[]" "[]"] r assms(3)
  obtain b ys where b: "QuickSortRecursive (Suc (length xs)) (seq_data s) 0 (int (length xs)) C u = Ok b"
    "stores b ys" "length b = length (seq_data s)" "mset ys = mset xs"
    "comparator.ordered (\<lambda>x y. C x y u) ys" by auto
  have "length ys = length xs" using b(4) by (metis size_mset)
  with b r have "seq_rep (s\<lparr>seq_data := b\<rparr>) ys" by (intro seq_repI) auto
  with b r assms(4) show ?thesis
    by (intro exI [of _ "s\<lparr>seq_data := b\<rparr>"] exI [of _ ys]) (simp add: SeqSort_def)
qed

lemma SeqSoftSort_rep:
  assumes "comparator A (\<lambda>x y. C x y u)" "seq_rep s xs" "set xs \<subseteq> A" "length xs < 2 ^ 31"
  shows "\<exists>t ys. SeqSoftSort s C u = Ok t \<and> seq_rep t ys \<and> mset ys = mset xs
    \<and> comparator.ordered (\<lambda>x y. C x y u) ys"
proof (cases "xs = []")
  case True
  with assms SeqNew_rep [of 0 False] comparator.ordered_short [OF assms(1), of "[]"]
  show ?thesis by (auto simp: SeqSoftSort_def)
next
  case False
  with SeqGetRange_rep [OF assms(2), of 0 "length xs - 1"] obtain sub where
    "SeqGetRange s 0 (length xs - 1) = Ok (Ptr sub)" "seq_rep sub xs" by auto
  with SeqSort_rep [where C = C and u = u, OF assms(1) _ assms(3,4), of sub] False assms(2) show ?thesis
    by (auto simp: SeqSoftSort_def Let_def)
qed

section \<open>Correctness of the binary search\<close>

lemma SeqBinaryIndexOf_loop_ok:
  assumes rep: "seq_rep s xs" and cmp: "comparator A (\<lambda>x y. C x y NULL)"
    and ord: "comparator.ordered (\<lambda>x y. C x y NULL) xs" "set xs \<subseteq> A" "key \<in> A"
  shows "high \<le> length xs \<Longrightarrow> \<forall>k < low. C key (xs ! k) NULL > 0 \<Longrightarrow>
    \<forall>k. high \<le> k \<and> k < length xs \<longrightarrow> C key (xs ! k) NULL < 0 \<Longrightarrow> low \<le> high \<Longrightarrow>
    \<exists>i. SeqBinaryIndexOf_loop s key C low high = Ok i
      \<and> (if i = -1 then \<forall>x \<in> set xs. C key x NULL \<noteq> 0
         else 0 \<le> i \<and> nat i < length xs \<and> C key (xs ! nat i) NULL = 0)"
proof (induction "high - low" arbitrary: low high rule: less_induct)
  case less
  show ?case
  proof (cases "low < high")
    case False
    with less.prems have "\<forall>x \<in> set xs. C key x NULL \<noteq> 0"
      by (auto simp: in_set_conv_nth) (metis leI less_irrefl)
    with False show ?thesis by (subst SeqBinaryIndexOf_loop.simps) simp
  next
    case True
    let ?m = "low + drop_bit 1 (high - low)"
    have m: "low \<le> ?m" "?m < high" using True by (auto simp: drop_bit_Suc)
    have lt: "high - (?m + 1) < high - low" "?m - low < high - low" using m True by linarith+
    have rd: "cread (seq_data s) ?m = Ok (xs ! ?m)"
      using seq_repD [OF rep] m less.prems(1) by simp
    consider "C key (xs ! ?m) NULL = 0" | "C key (xs ! ?m) NULL > 0" | "C key (xs ! ?m) NULL < 0"
      by linarith
    then show ?thesis
    proof cases
      case 1
      with True rd m less.prems(1) show ?thesis
        by (subst SeqBinaryIndexOf_loop.simps) (simp add: Let_def nat_int_add)
    next
      case 2
      have "\<forall>k < ?m + 1. C key (xs ! k) NULL > 0"
        using comparator.ordered_below [OF cmp ord, of _ ?m] 2 m less.prems(1) by auto
      with less.hyps [OF lt(1)] m less.prems obtain i where
        i: "SeqBinaryIndexOf_loop s key C (?m + 1) high = Ok i"
          "if i = -1 then \<forall>x \<in> set xs. C key x NULL \<noteq> 0
           else 0 \<le> i \<and> nat i < length xs \<and> C key (xs ! nat i) NULL = 0" by auto
      have "SeqBinaryIndexOf_loop s key C low high = Ok i"
        using 2 True rd i(1) by (subst SeqBinaryIndexOf_loop.simps) (simp add: Let_def)
      with i(2) show ?thesis by blast
    next
      case 3
      have "\<forall>k. ?m \<le> k \<and> k < length xs \<longrightarrow> C key (xs ! k) NULL < 0"
        using comparator.ordered_above [OF cmp ord, of ?m] 3 by auto
      with less.hyps [OF lt(2)] m less.prems obtain i where
        i: "SeqBinaryIndexOf_loop s key C low ?m = Ok i"
          "if i = -1 then \<forall>x \<in> set xs. C key x NULL \<noteq> 0
           else 0 \<le> i \<and> nat i < length xs \<and> C key (xs ! nat i) NULL = 0" by auto
      have "SeqBinaryIndexOf_loop s key C low high = Ok i"
        using 3 True rd i(1) by (subst SeqBinaryIndexOf_loop.simps) (simp add: Let_def)
      with i(2) show ?thesis by blast
    qed
  qed
qed

lemma SeqBinaryIndexOf_ok:
  assumes "seq_rep s xs" "comparator A (\<lambda>x y. C x y NULL)"
    "comparator.ordered (\<lambda>x y. C x y NULL) xs" "set xs \<subseteq> A" "key \<in> A"
  shows "\<exists>i. SeqBinaryIndexOf s key C = Ok i
      \<and> (if i = -1 then \<forall>x \<in> set xs. C key x NULL \<noteq> 0
         else 0 \<le> i \<and> nat i < length xs \<and> C key (xs ! nat i) NULL = 0)"
  using SeqBinaryIndexOf_loop_ok [where C = C, OF assms, of "length xs" 0] seq_repD(2) [OF assms(1)]
  by (auto simp: SeqBinaryIndexOf_def)

section \<open>The string comparator keeps the contract\<close>

interpretation strs: comparator "range Ptr" "\<lambda>x y. StrCmpWrapper x y u"
  by unfold_locales (auto simp: StrCmpWrapper_def strcmp_sym intro: strcmp_trans)

section \<open>Properties\<close>

text \<open>
  C9: SeqSort. For any comparator that is consistent on the items, the quicksort stays inside the
  block, ends within \<open>n + 1\<close> levels of recursion, and leaves a permutation of the items in which
  no item compares above a later one.
\<close>

theorem SeqSort_sorts:
  assumes "comparator A (\<lambda>x y. C x y u)" "seq_rep s xs" "set xs \<subseteq> A" "length xs < 2 ^ 31"
  shows "\<exists>s' ys. SeqSort s C u = Ok s' \<and> seq_rep s' ys \<and> mset ys = mset xs
    \<and> sorted_wrt (\<lambda>x y. C x y u \<le> 0) ys"
  using SeqSort_rep [where C = C and u = u, OF assms]
  by (auto simp: comparator.ordered_def [OF assms(1)])

theorem SeqSort_sorts_witness:
  "\<exists>s' ys. SeqSort \<lparr>seq_data = map (Val \<circ> Ptr) [''b'', ''ab'', ''a''], seq_length = 3,
      seq_capacity = 3, seq_ItemDestroy = True\<rparr> StrCmpWrapper (NULL :: unit ptr) = Ok s'
    \<and> seq_rep s' ys \<and> mset ys = mset (map Ptr [''b'', ''ab'', ''a''])
    \<and> sorted_wrt (\<lambda>x y. StrCmpWrapper x y (NULL :: unit ptr) \<le> 0) ys"
proof -
  let ?s = "\<lparr>seq_data = map (Val \<circ> Ptr) [''b'', ''ab'', ''a''], seq_length = 3, seq_capacity = 3,
    seq_ItemDestroy = True\<rparr>"
  have "seq_rep ?s (map Ptr [''b'', ''ab'', ''a''])" by (simp add: seq_rep_def stores_def)
  from SeqSort_sorts [where C = StrCmpWrapper and u = "NULL :: unit ptr", OF strs.comparator_axioms this]
  show ?thesis by simp
qed

text \<open>
  C11: Binary search. For any comparator that is consistent on the items and the key, in a sequence sorted by it,
  SeqBinaryIndexOf returns an index at which an item equal to the key stands if there is one, and -1
  exactly if there is none; SeqBinaryLookup returns such an item, and NULL if there is none.
\<close>

theorem SeqBinaryIndexOf_finds:
  assumes "comparator A (\<lambda>x y. C x y NULL)" "seq_rep s xs" "sorted_wrt (\<lambda>x y. C x y NULL \<le> 0) xs" "set xs \<subseteq> A" "key \<in> A"
  shows "if \<exists>x \<in> set xs. C key x NULL = 0
    then \<exists>i item. SeqBinaryIndexOf s key C = Ok (int i) \<and> SeqAt s i = Ok item \<and> SeqBinaryLookup s key C = Ok item \<and> C key item NULL = 0
    else SeqBinaryIndexOf s key C = Ok (-1) \<and> SeqBinaryLookup s key C = Ok NULL"
proof -
  have "comparator.ordered (\<lambda>x y. C x y NULL) xs" using assms(3) by (simp add: comparator.ordered_def [OF assms(1)])
  from SeqBinaryIndexOf_ok [where C = C, OF assms(2,1) this assms(4,5)] obtain i where i: "SeqBinaryIndexOf s key C = Ok i"
    "if i = -1 then \<forall>x \<in> set xs. C key x NULL \<noteq> 0 else 0 \<le> i \<and> nat i < length xs \<and> C key (xs ! nat i) NULL = 0" by blast
  show ?thesis
  proof (cases "i = -1")
    case False
    then have "0 \<le> i" "nat i < length xs" "C key (xs ! nat i) NULL = 0" using i(2) by auto
    moreover have "xs ! nat i \<in> set xs" using \<open>nat i < length xs\<close> by simp
    ultimately show ?thesis using i(1) SeqAt_eq [OF assms(2), of "nat i"] seq_repD [OF assms(2)]
      by (auto simp: SeqBinaryLookup_def intro!: exI [of _ "nat i"])
  qed (use i in \<open>auto simp: SeqBinaryLookup_def\<close>)
qed

theorem SeqBinaryIndexOf_finds_witness:
  "\<exists>i item. SeqBinaryIndexOf \<lparr>seq_data = map (Val \<circ> Ptr) [''a'', ''ab'', ''b''], seq_length = 3, seq_capacity = 3,
      seq_ItemDestroy = True\<rparr> (Ptr ''b'') (StrCmpWrapper :: (string, unit) SeqItemComparator) = Ok (int i)
    \<and> SeqAt \<lparr>seq_data = map (Val \<circ> Ptr) [''a'', ''ab'', ''b''], seq_length = 3, seq_capacity = 3, seq_ItemDestroy = True\<rparr> i = Ok item
    \<and> StrCmpWrapper (Ptr ''b'') item (NULL :: unit ptr) = 0"
proof -
  let ?s = "\<lparr>seq_data = map (Val \<circ> Ptr) [''a'', ''ab'', ''b''], seq_length = 3, seq_capacity = 3, seq_ItemDestroy = True\<rparr>"
  let ?C = "StrCmpWrapper :: (string, unit) SeqItemComparator"
  have rep: "seq_rep ?s (map Ptr [''a'', ''ab'', ''b''])" by (simp add: seq_rep_def stores_def)
  have ord: "sorted_wrt (\<lambda>x y. ?C x y NULL \<le> 0) (map Ptr [''a'', ''ab'', ''b''])" by (simp add: StrCmpWrapper_def)
  have ex: "\<exists>x \<in> set (map Ptr [''a'', ''ab'', ''b'']). ?C (Ptr ''b'') x NULL = 0" by (simp add: StrCmpWrapper_def)
  from SeqBinaryIndexOf_finds [where C = ?C, OF strs.comparator_axioms rep ord, of "Ptr ''b''"] ex show ?thesis by auto
qed

text \<open>
  Binary search after sorting: once a sequence of strings has been sorted with SeqSort, SeqBinaryIndexOf returns an
  index of the key if the key is among the strings, and -1 exactly if it is not.
\<close>

lemma SeqSort_SeqBinaryIndexOf:
  assumes "seq_rep s (map Ptr strs)" "length strs < 2 ^ 31"
  shows "\<exists>s' i. SeqSort s StrCmpWrapper (NULL :: 'u ptr) = Ok s'
    \<and> SeqBinaryIndexOf s' (Ptr key) (StrCmpWrapper :: (string, 'u) SeqItemComparator) = Ok i
    \<and> (if key \<in> set strs then SeqAt s' (nat i) = Ok (Ptr key) \<and> 0 \<le> i else i = -1)"
proof -
  let ?C = "StrCmpWrapper :: (string, 'u) SeqItemComparator"
  have A: "set (map Ptr strs) \<subseteq> range Ptr" by auto
  from SeqSort_rep [where C = ?C and u = NULL, OF strs.comparator_axioms assms(1) A] assms(2) obtain s' ys where
    s': "SeqSort s ?C NULL = Ok s'" "seq_rep s' ys" "mset ys = mset (map Ptr strs)"
      "comparator.ordered (\<lambda>x y. ?C x y NULL) ys" by auto
  have ys: "set ys = Ptr ` set strs" using mset_eq_setD [OF s'(3)] by simp
  with s'(4) SeqBinaryIndexOf_ok [where C = ?C, OF s'(2) strs.comparator_axioms _ _, of "Ptr key"]
  obtain i where i: "SeqBinaryIndexOf s' (Ptr key) ?C = Ok i"
    "if i = -1 then \<forall>x \<in> set ys. ?C (Ptr key) x NULL \<noteq> 0
     else 0 \<le> i \<and> nat i < length ys \<and> ?C (Ptr key) (ys ! nat i) NULL = 0" by auto
  have eq: "?C (Ptr key) x NULL = 0 \<longleftrightarrow> x = Ptr key" if "x \<in> set ys" for x
    using that ys by (auto simp: StrCmpWrapper_def strcmp_eq_0_iff)
  have "if key \<in> set strs then SeqAt s' (nat i) = Ok (Ptr key) \<and> 0 \<le> i else i = -1"
  proof (cases "i = -1")
    case True
    with i(2) eq ys show ?thesis by auto
  next
    case False
    with i(2) have "ys ! nat i = Ptr key" "nat i < length ys" "0 \<le> i"
      using eq [of "ys ! nat i"] by auto
    moreover from this have "key \<in> set strs" using ys nth_mem by fastforce
    ultimately show ?thesis using SeqAt_eq [OF s'(2)] by simp
  qed
  with s'(1) i(1) show ?thesis by blast
qed

end
