(* ===== verification/JsonLib.thy ===== *)
theory JsonLib
  imports StringNumbers StringText SequenceSort
begin

text \<open>
  The JSON document model of libutils/json.c: elements, primitives, objects and arrays. An element owns
  its children and is a value here; the children of a container are a sequence (theory \<open>Sequence\<close>, whose
  operations behave as those of lists). \<open>float_text\<close> is the one parameter: what JsonRealCreate prints for
  the number StringToDouble reads, which is floating-point arithmetic of the C library.
\<close>

section \<open>Data\<close>

datatype JsonContainerType = JSON_CONTAINER_TYPE_OBJECT | JSON_CONTAINER_TYPE_ARRAY

datatype JsonPrimitiveType =
    JSON_PRIMITIVE_TYPE_STRING
  | JSON_PRIMITIVE_TYPE_INTEGER
  | JSON_PRIMITIVE_TYPE_REAL
  | JSON_PRIMITIVE_TYPE_BOOL
  | JSON_PRIMITIVE_TYPE_NULL

datatype JsonElement =
    Container (propertyName: "string ptr") (container_type: JsonContainerType) (children: "JsonElement list")
  | Primitive (propertyName: "string ptr") (primitive_type: JsonPrimitiveType) (pvalue: string)

abbreviation JObject :: "string ptr \<Rightarrow> JsonElement list \<Rightarrow> JsonElement" where
  "JObject name cs \<equiv> Container name JSON_CONTAINER_TYPE_OBJECT cs"

abbreviation JArray :: "string ptr \<Rightarrow> JsonElement list \<Rightarrow> JsonElement" where
  "JArray name cs \<equiv> Container name JSON_CONTAINER_TYPE_ARRAY cs"

definition is_container :: "JsonElement \<Rightarrow> bool" where
  "is_container e = (case e of Container _ _ _ \<Rightarrow> True | Primitive _ _ _ \<Rightarrow> False)"

definition is_object :: "JsonElement \<Rightarrow> bool" where
  "is_object e = (case e of Container _ t _ \<Rightarrow> t = JSON_CONTAINER_TYPE_OBJECT | Primitive _ _ _ \<Rightarrow> False)"

definition is_array :: "JsonElement \<Rightarrow> bool" where
  "is_array e = (case e of Container _ t _ \<Rightarrow> t = JSON_CONTAINER_TYPE_ARRAY | Primitive _ _ _ \<Rightarrow> False)"

definition is_primitive :: "JsonElement \<Rightarrow> JsonPrimitiveType \<Rightarrow> bool" where
  "is_primitive e t = (case e of Container _ _ _ \<Rightarrow> False | Primitive _ t' _ \<Rightarrow> t' = t)"

lemma json_type_simps [simp]:
  "is_container (Container name ct cs)" "\<not> is_container (Primitive name pt v)"
  "is_object (Container name ct cs) \<longleftrightarrow> ct = JSON_CONTAINER_TYPE_OBJECT" "\<not> is_object (Primitive name pt v)"
  "is_array (Container name ct cs) \<longleftrightarrow> ct = JSON_CONTAINER_TYPE_ARRAY" "\<not> is_array (Primitive name pt v)"
  "is_primitive (Primitive name pt v) t \<longleftrightarrow> pt = t" "\<not> is_primitive (Container name ct cs) t"
  by (simp_all add: is_container_def is_object_def is_array_def is_primitive_def)

datatype JsonElementType = JSON_ELEMENT_TYPE_CONTAINER | JSON_ELEMENT_TYPE_PRIMITIVE

definition JsonGetElementType :: "JsonElement \<Rightarrow> JsonElementType" where
  "JsonGetElementType e = (case e of
     Container _ _ _ \<Rightarrow> JSON_ELEMENT_TYPE_CONTAINER
   | Primitive _ _ _ \<Rightarrow> JSON_ELEMENT_TYPE_PRIMITIVE)"

text \<open>JsonType: the container and primitive types in one enumeration.\<close>

datatype JsonType = ContainerType JsonContainerType | PrimitiveType JsonPrimitiveType

definition JsonGetType :: "JsonElement \<Rightarrow> JsonType" where
  "JsonGetType e = (case e of Container _ t _ \<Rightarrow> ContainerType t | Primitive _ t _ \<Rightarrow> PrimitiveType t)"

definition JsonContainerTypeToString :: "JsonContainerType \<Rightarrow> string" where
  "JsonContainerTypeToString t = (case t of
     JSON_CONTAINER_TYPE_ARRAY \<Rightarrow> ''array''
   | JSON_CONTAINER_TYPE_OBJECT \<Rightarrow> ''object'')"

definition JsonPrimitiveTypeToString :: "JsonPrimitiveType \<Rightarrow> string" where
  "JsonPrimitiveTypeToString t = (case t of
     JSON_PRIMITIVE_TYPE_STRING \<Rightarrow> ''string''
   | JSON_PRIMITIVE_TYPE_REAL \<Rightarrow> ''number''
   | JSON_PRIMITIVE_TYPE_INTEGER \<Rightarrow> ''number''
   | JSON_PRIMITIVE_TYPE_BOOL \<Rightarrow> ''boolean''
   | JSON_PRIMITIVE_TYPE_NULL \<Rightarrow> ''null'')"

definition JsonGetTypeAsString :: "JsonElement \<Rightarrow> string" where
  "JsonGetTypeAsString e = (case e of
     Container _ t _ \<Rightarrow> JsonContainerTypeToString t
   | Primitive _ t _ \<Rightarrow> JsonPrimitiveTypeToString t)"

definition JsonGetContainerType :: "JsonElement \<Rightarrow> JsonContainerType res" where
  "JsonGetContainerType e = (case e of Container _ t _ \<Rightarrow> Ok t | Primitive _ _ _ \<Rightarrow> Fault AssertFail)"

definition JsonGetPrimitiveType :: "JsonElement \<Rightarrow> JsonPrimitiveType res" where
  "JsonGetPrimitiveType e = (case e of Primitive _ t _ \<Rightarrow> Ok t | Container _ _ _ \<Rightarrow> Fault AssertFail)"

fun JsonElementSetPropertyName :: "JsonElement \<Rightarrow> string ptr \<Rightarrow> JsonElement" where
  "JsonElementSetPropertyName (Container _ t cs) name = Container name t cs"
| "JsonElementSetPropertyName (Primitive _ t v) name = Primitive name t v"

definition JsonElementGetPropertyName :: "JsonElement \<Rightarrow> string ptr" where
  "JsonElementGetPropertyName e = propertyName e"

definition JsonGetPropertyAsString :: "JsonElement \<Rightarrow> string ptr" where
  "JsonGetPropertyAsString e = propertyName e"

definition JsonElementCreateContainer :: "JsonContainerType \<Rightarrow> string ptr \<Rightarrow> nat \<Rightarrow> JsonElement" where
  "JsonElementCreateContainer t name initialCapacity = Container name t []"

definition JsonElementCreatePrimitive :: "JsonPrimitiveType \<Rightarrow> string \<Rightarrow> JsonElement" where
  "JsonElementCreatePrimitive t v = Primitive NULL t v"

section \<open>Primitives\<close>

definition JSON_TRUE :: string where "JSON_TRUE = ''true''"
definition JSON_FALSE :: string where "JSON_FALSE = ''false''"
definition JSON_NULL :: string where "JSON_NULL = ''null''"

definition JsonStringCreate :: "string \<Rightarrow> JsonElement" where
  "JsonStringCreate v = JsonElementCreatePrimitive JSON_PRIMITIVE_TYPE_STRING v"

text \<open>The argument is an \<open>int\<close> of 32 bits, respectively an \<open>int64_t\<close>.\<close>

definition JsonIntegerCreate :: "32 word \<Rightarrow> JsonElement" where
  "JsonIntegerCreate v = JsonElementCreatePrimitive JSON_PRIMITIVE_TYPE_INTEGER (fmt_int (sint v))"

definition JsonIntegerCreate64 :: "64 word \<Rightarrow> JsonElement" where
  "JsonIntegerCreate64 v = JsonElementCreatePrimitive JSON_PRIMITIVE_TYPE_INTEGER (fmt_int (sint v))"

definition JsonBoolCreate :: "bool \<Rightarrow> JsonElement" where
  "JsonBoolCreate v = JsonElementCreatePrimitive JSON_PRIMITIVE_TYPE_BOOL (if v then JSON_TRUE else JSON_FALSE)"

definition JsonNullCreate :: JsonElement where
  "JsonNullCreate = JsonElementCreatePrimitive JSON_PRIMITIVE_TYPE_NULL JSON_NULL"

definition JsonPrimitiveGetAsString :: "JsonElement \<Rightarrow> string res" where
  "JsonPrimitiveGetAsString e = (case e of Primitive _ _ v \<Rightarrow> Ok v | Container _ _ _ \<Rightarrow> Fault AssertFail)"

definition JsonPrimitiveGetAsBool :: "JsonElement \<Rightarrow> bool res" where
  "JsonPrimitiveGetAsBool e =
     bindE (c_assert (is_primitive e JSON_PRIMITIVE_TYPE_BOOL)) (\<lambda>_. StringEqual (Ptr JSON_TRUE) (Ptr (pvalue e)))"

text \<open>A number that is not a \<open>long\<close> ends the process.\<close>

definition exit_on_error :: "int option \<Rightarrow> int res" where
  "exit_on_error r = (case r of None \<Rightarrow> Fault ProcessExit | Some v \<Rightarrow> Ok v)"

definition JsonPrimitiveGetAsInteger :: "JsonElement \<Rightarrow> int res" where
  "JsonPrimitiveGetAsInteger e =
     bindE (c_assert (is_primitive e JSON_PRIMITIVE_TYPE_INTEGER)) (\<lambda>_.
     bindE (StringToLongExitOnError (Ptr (pvalue e))) exit_on_error)"

definition JsonPrimitiveGetAsInt64 :: "JsonElement \<Rightarrow> int \<Rightarrow> (int \<times> int) res" where
  "JsonPrimitiveGetAsInt64 e value_out =
     bindE (c_assert (is_primitive e JSON_PRIMITIVE_TYPE_INTEGER)) (\<lambda>_. StringToInt64 (Ptr (pvalue e)) value_out)"

definition JsonPrimitiveGetAsInt64DefaultOnError :: "JsonElement \<Rightarrow> int \<Rightarrow> int res" where
  "JsonPrimitiveGetAsInt64DefaultOnError e default_return =
     bindE (c_assert (is_primitive e JSON_PRIMITIVE_TYPE_INTEGER)) (\<lambda>_.
     StringToInt64DefaultOnError (Ptr (pvalue e)) default_return)"

definition JsonPrimitiveGetAsInt64ExitOnError :: "JsonElement \<Rightarrow> int res" where
  "JsonPrimitiveGetAsInt64ExitOnError e =
     bindE (c_assert (is_primitive e JSON_PRIMITIVE_TYPE_INTEGER)) (\<lambda>_.
     bindE (StringToInt64ExitOnError (Ptr (pvalue e))) exit_on_error)"

text \<open>\<open>float_text\<close> stands for what StringFromDouble prints for the number StringToDouble reads.\<close>

definition JsonPrimitiveToString :: "(string \<Rightarrow> string) \<Rightarrow> JsonElement \<Rightarrow> string ptr res" where
  "JsonPrimitiveToString float_text e = (case e of
     Container _ _ _ \<Rightarrow> Ok NULL
   | Primitive _ t v \<Rightarrow> (case t of
       JSON_PRIMITIVE_TYPE_BOOL \<Rightarrow> bindE (JsonPrimitiveGetAsBool e) (\<lambda>b. Ok (Ptr (if b then ''true'' else ''false'')))
     | JSON_PRIMITIVE_TYPE_INTEGER \<Rightarrow>
         bindE (JsonPrimitiveGetAsInteger e) (\<lambda>i. bindE (cstr_read (StringFromLong i)) (\<lambda>s. Ok (Ptr s)))
     | JSON_PRIMITIVE_TYPE_REAL \<Rightarrow> Ok (Ptr (float_text v))
     | JSON_PRIMITIVE_TYPE_STRING \<Rightarrow> bindE (JsonPrimitiveGetAsString e) (\<lambda>s. Ok (Ptr s))
     | JSON_PRIMITIVE_TYPE_NULL \<Rightarrow> Ok NULL))"

definition JsonLength :: "JsonElement \<Rightarrow> nat" where
  "JsonLength e = (case e of Container _ _ cs \<Rightarrow> length cs | Primitive _ _ v \<Rightarrow> length v)"

section \<open>Objects\<close>

text \<open>SeqIndexOf with CompareKeyToPropertyName: the first child with that name.\<close>

fun index_of_key :: "string \<Rightarrow> JsonElement list \<Rightarrow> nat \<Rightarrow> int res" where
  "index_of_key key [] i = Ok (- 1)"
| "index_of_key key (c # cs) i =
     bindE (StringSafeCompare (Ptr key) (propertyName c)) (\<lambda>r. if r = 0 then Ok (int i) else index_of_key key cs (Suc i))"

definition JsonElementIndexInParentObject :: "JsonElement \<Rightarrow> string \<Rightarrow> int res" where
  "JsonElementIndexInParentObject parent key =
     bindE (c_assert (is_object parent)) (\<lambda>_. index_of_key key (children parent) 0)"

text \<open>SeqLookup with JsonElementHasProperty, which asserts that every child it looks at has a name.\<close>

fun lookup_key :: "string \<Rightarrow> JsonElement list \<Rightarrow> JsonElement ptr res" where
  "lookup_key key [] = Ok NULL"
| "lookup_key key (c # cs) = (case propertyName c of
     NULL \<Rightarrow> Fault AssertFail
   | Ptr name \<Rightarrow> bindE (StringEqual (Ptr key) (Ptr name)) (\<lambda>same. if same then Ok (Ptr c) else lookup_key key cs))"

definition JsonObjectCreate :: "nat \<Rightarrow> JsonElement" where
  "JsonObjectCreate initialCapacity = JsonElementCreateContainer JSON_CONTAINER_TYPE_OBJECT NULL initialCapacity"

definition with_children :: "JsonElement \<Rightarrow> JsonElement list \<Rightarrow> JsonElement" where
  "with_children e cs = Container (propertyName e) (container_type e) cs"

definition JsonObjectRemoveKey :: "JsonElement \<Rightarrow> string \<Rightarrow> (bool \<times> JsonElement) res" where
  "JsonObjectRemoveKey object key =
     bindE (JsonElementIndexInParentObject object key) (\<lambda>index.
     if index \<noteq> - 1
     then Ok (True, with_children object (take (nat index) (children object) @ drop (Suc (nat index)) (children object)))
     else Ok (False, object))"

definition JsonObjectAppendElement :: "JsonElement \<Rightarrow> string \<Rightarrow> JsonElement \<Rightarrow> JsonElement res" where
  "JsonObjectAppendElement object key element =
     bindE (JsonObjectRemoveKey object key) (\<lambda>(_, object').
     Ok (with_children object' (children object' @ [JsonElementSetPropertyName element (Ptr key)])))"

definition JsonObjectAppendString :: "JsonElement \<Rightarrow> string \<Rightarrow> string \<Rightarrow> JsonElement res" where
  "JsonObjectAppendString object key v = JsonObjectAppendElement object key (JsonStringCreate v)"

definition JsonObjectAppendInteger :: "JsonElement \<Rightarrow> string \<Rightarrow> 32 word \<Rightarrow> JsonElement res" where
  "JsonObjectAppendInteger object key v = JsonObjectAppendElement object key (JsonIntegerCreate v)"

definition JsonObjectAppendInteger64 :: "JsonElement \<Rightarrow> string \<Rightarrow> 64 word \<Rightarrow> JsonElement res" where
  "JsonObjectAppendInteger64 object key v = JsonObjectAppendElement object key (JsonIntegerCreate64 v)"

definition JsonObjectAppendBool :: "JsonElement \<Rightarrow> string \<Rightarrow> bool \<Rightarrow> JsonElement res" where
  "JsonObjectAppendBool object key v = JsonObjectAppendElement object key (JsonBoolCreate v)"

definition JsonObjectAppendNull :: "JsonElement \<Rightarrow> string \<Rightarrow> JsonElement res" where
  "JsonObjectAppendNull object key = JsonObjectAppendElement object key JsonNullCreate"

definition JsonObjectAppendArray :: "JsonElement \<Rightarrow> string \<Rightarrow> JsonElement \<Rightarrow> JsonElement res" where
  "JsonObjectAppendArray object key array =
     bindE (c_assert (is_array array)) (\<lambda>_. JsonObjectAppendElement object key array)"

definition JsonObjectAppendObject :: "JsonElement \<Rightarrow> string \<Rightarrow> JsonElement \<Rightarrow> JsonElement res" where
  "JsonObjectAppendObject object key childObject =
     bindE (c_assert (is_object childObject)) (\<lambda>_. JsonObjectAppendElement object key childObject)"

definition JsonObjectGet :: "JsonElement \<Rightarrow> string \<Rightarrow> JsonElement ptr res" where
  "JsonObjectGet object key = bindE (c_assert (is_object object)) (\<lambda>_. lookup_key key (children object))"

definition JsonObjectDetachKey :: "JsonElement \<Rightarrow> string \<Rightarrow> (JsonElement ptr \<times> JsonElement) res" where
  "JsonObjectDetachKey object key =
     bindE (JsonElementIndexInParentObject object key) (\<lambda>index.
     if index \<noteq> - 1
     then bindE (lookup_key key (children object)) (\<lambda>detached.
          Ok (detached, with_children object
            (take (nat index) (children object) @ drop (Suc (nat index)) (children object))))
     else Ok (NULL, object))"

definition JsonObjectGetAsString :: "JsonElement \<Rightarrow> string \<Rightarrow> string ptr res" where
  "JsonObjectGetAsString object key =
     bindE (JsonObjectGet object key) (\<lambda>child. case child of
       NULL \<Rightarrow> Ok NULL
     | Ptr c \<Rightarrow> bindE (c_assert (\<not> is_container c)) (\<lambda>_. Ok (Ptr (pvalue c))))"

definition JsonObjectGetAsBool :: "JsonElement \<Rightarrow> string \<Rightarrow> bool res" where
  "JsonObjectGetAsBool object key =
     bindE (JsonObjectGet object key) (\<lambda>child. case child of
       NULL \<Rightarrow> Ok False
     | Ptr c \<Rightarrow> bindE (c_assert (is_primitive c JSON_PRIMITIVE_TYPE_BOOL)) (\<lambda>_. StringEqual (Ptr (pvalue c)) (Ptr ''true'')))"

definition JsonObjectGetAsObject :: "JsonElement \<Rightarrow> string \<Rightarrow> JsonElement ptr res" where
  "JsonObjectGetAsObject object key =
     bindE (JsonObjectGet object key) (\<lambda>child. case child of
       NULL \<Rightarrow> Ok NULL | Ptr c \<Rightarrow> bindE (c_assert (is_object c)) (\<lambda>_. Ok (Ptr c)))"

definition JsonObjectGetAsArray :: "JsonElement \<Rightarrow> string \<Rightarrow> JsonElement ptr res" where
  "JsonObjectGetAsArray object key =
     bindE (JsonObjectGet object key) (\<lambda>child. case child of
       NULL \<Rightarrow> Ok NULL | Ptr c \<Rightarrow> bindE (c_assert (is_array c)) (\<lambda>_. Ok (Ptr c)))"

section \<open>Arrays\<close>

definition JsonArrayCreate :: "nat \<Rightarrow> JsonElement" where
  "JsonArrayCreate initialCapacity = JsonElementCreateContainer JSON_CONTAINER_TYPE_ARRAY NULL initialCapacity"

definition JsonArrayAppendElement :: "JsonElement \<Rightarrow> JsonElement \<Rightarrow> JsonElement res" where
  "JsonArrayAppendElement array element =
     bindE (c_assert (is_array array)) (\<lambda>_. Ok (with_children array (children array @ [element])))"

definition JsonArrayAppendString :: "JsonElement \<Rightarrow> string \<Rightarrow> JsonElement res" where
  "JsonArrayAppendString array v = JsonArrayAppendElement array (JsonStringCreate v)"

definition JsonArrayAppendBool :: "JsonElement \<Rightarrow> bool \<Rightarrow> JsonElement res" where
  "JsonArrayAppendBool array v = JsonArrayAppendElement array (JsonBoolCreate v)"

definition JsonArrayAppendInteger :: "JsonElement \<Rightarrow> 32 word \<Rightarrow> JsonElement res" where
  "JsonArrayAppendInteger array v = JsonArrayAppendElement array (JsonIntegerCreate v)"

definition JsonArrayAppendNull :: "JsonElement \<Rightarrow> JsonElement res" where
  "JsonArrayAppendNull array = JsonArrayAppendElement array JsonNullCreate"

definition JsonArrayAppendArray :: "JsonElement \<Rightarrow> JsonElement \<Rightarrow> JsonElement res" where
  "JsonArrayAppendArray array childArray =
     bindE (c_assert (is_array childArray)) (\<lambda>_. JsonArrayAppendElement array childArray)"

definition JsonArrayAppendObject :: "JsonElement \<Rightarrow> JsonElement \<Rightarrow> JsonElement res" where
  "JsonArrayAppendObject array object =
     bindE (c_assert (is_object object)) (\<lambda>_. JsonArrayAppendElement array object)"

definition JsonArrayExtend :: "JsonElement \<Rightarrow> JsonElement \<Rightarrow> JsonElement res" where
  "JsonArrayExtend a b =
     bindE (c_assert (is_array a)) (\<lambda>_. bindE (c_assert (is_array b)) (\<lambda>_.
     Ok (with_children a (children a @ children b))))"

definition JsonArrayRemoveRange :: "JsonElement \<Rightarrow> nat \<Rightarrow> nat \<Rightarrow> JsonElement res" where
  "JsonArrayRemoveRange array start stop =
     bindE (c_assert (is_array array)) (\<lambda>_.
     bindE (c_assert (stop < length (children array))) (\<lambda>_.
     bindE (c_assert (start \<le> stop)) (\<lambda>_.
     Ok (with_children array (take start (children array) @ drop (stop + 1) (children array))))))"

definition JsonAt :: "JsonElement \<Rightarrow> nat \<Rightarrow> JsonElement res" where
  "JsonAt container index =
     bindE (c_assert (is_container container)) (\<lambda>_.
     bindE (c_assert (index < JsonLength container)) (\<lambda>_. Ok (children container ! index)))"

definition JsonArrayGet :: "JsonElement \<Rightarrow> nat \<Rightarrow> JsonElement res" where
  "JsonArrayGet array index = bindE (c_assert (is_array array)) (\<lambda>_. JsonAt array index)"

definition JsonArrayGetAsString :: "JsonElement \<Rightarrow> nat \<Rightarrow> string res" where
  "JsonArrayGetAsString array index =
     bindE (JsonArrayGet array index) (\<lambda>c.
     bindE (c_assert (is_primitive c JSON_PRIMITIVE_TYPE_STRING)) (\<lambda>_. Ok (pvalue c)))"

definition JsonArrayGetAsObject :: "JsonElement \<Rightarrow> nat \<Rightarrow> JsonElement res" where
  "JsonArrayGetAsObject array index =
     bindE (JsonArrayGet array index) (\<lambda>c. bindE (c_assert (is_object c)) (\<lambda>_. Ok c))"

fun only_primitives :: "JsonElement list \<Rightarrow> bool" where
  "only_primitives [] = True"
| "only_primitives (c # cs) = (if is_container c then False else only_primitives cs)"

definition JsonArrayContainsOnlyPrimitives :: "JsonElement \<Rightarrow> bool res" where
  "JsonArrayContainsOnlyPrimitives array = bindE (c_assert (is_array array)) (\<lambda>_. Ok (only_primitives (children array)))"

definition JsonContainerReverse :: "JsonElement \<Rightarrow> JsonElement res" where
  "JsonContainerReverse array = bindE (c_assert (is_array array)) (\<lambda>_. Ok (with_children array (rev (children array))))"

end
