(* ===== verification/JsonOps.thy ===== *)
theory JsonOps
  imports JsonLib
begin

text \<open>
  libutils/json.c: copying, comparing, merging, selecting, iterating, walking and sorting of JSON
  elements. A process exit (a number that StringToLongExitOnError rejects) is a fault.
\<close>

section \<open>Copies\<close>

text \<open>JsonIntegerCreate takes an \<open>int\<close>: the \<open>long\<close> that was read is converted.\<close>

definition JsonPrimitiveCopy :: "(string \<Rightarrow> string) \<Rightarrow> JsonElement \<Rightarrow> JsonElement res" where
  "JsonPrimitiveCopy float_text e = (case e of
     Container _ _ _ \<Rightarrow> Fault AssertFail
   | Primitive _ t v \<Rightarrow> (case t of
       JSON_PRIMITIVE_TYPE_BOOL \<Rightarrow> bindE (JsonPrimitiveGetAsBool e) (\<lambda>b. Ok (JsonBoolCreate b))
     | JSON_PRIMITIVE_TYPE_INTEGER \<Rightarrow>
         bindE (JsonPrimitiveGetAsInteger e) (\<lambda>i. Ok (JsonIntegerCreate (word_of_int i)))
     | JSON_PRIMITIVE_TYPE_NULL \<Rightarrow> Ok JsonNullCreate
     | JSON_PRIMITIVE_TYPE_REAL \<Rightarrow> Ok (JsonElementCreatePrimitive JSON_PRIMITIVE_TYPE_REAL (float_text v))
     | JSON_PRIMITIVE_TYPE_STRING \<Rightarrow> bindE (JsonPrimitiveGetAsString e) (\<lambda>s. Ok (JsonStringCreate s))))"

fun JsonCopy :: "(string \<Rightarrow> string) \<Rightarrow> JsonElement \<Rightarrow> JsonElement res"
  and JsonArrayCopy_loop :: "(string \<Rightarrow> string) \<Rightarrow> JsonElement list \<Rightarrow> JsonElement \<Rightarrow> JsonElement res"
  and JsonObjectCopy_loop :: "(string \<Rightarrow> string) \<Rightarrow> JsonElement list \<Rightarrow> JsonElement \<Rightarrow> JsonElement res" where
  "JsonCopy ft (Container name JSON_CONTAINER_TYPE_ARRAY cs) = JsonArrayCopy_loop ft cs (JsonArrayCreate (length cs))"
| "JsonCopy ft (Container name JSON_CONTAINER_TYPE_OBJECT cs) = JsonObjectCopy_loop ft cs (JsonObjectCreate (length cs))"
| "JsonCopy ft (Primitive name t v) = JsonPrimitiveCopy ft (Primitive name t v)"
| "JsonArrayCopy_loop ft [] copy = Ok copy"
| "JsonArrayCopy_loop ft (child # cs) copy =
     bindE (JsonCopy ft child) (\<lambda>c. bindE (JsonArrayAppendElement copy c) (\<lambda>copy'. JsonArrayCopy_loop ft cs copy'))"
| "JsonObjectCopy_loop ft [] copy = Ok copy"
| "JsonObjectCopy_loop ft (child # cs) copy =
     bindE (JsonCopy ft child) (\<lambda>c. case propertyName child of
       NULL \<Rightarrow> Fault AssertFail
     | Ptr key \<Rightarrow> bindE (JsonObjectAppendElement copy key c) (\<lambda>copy'. JsonObjectCopy_loop ft cs copy'))"

definition JsonObjectCopy :: "(string \<Rightarrow> string) \<Rightarrow> JsonElement \<Rightarrow> JsonElement res" where
  "JsonObjectCopy ft object = bindE (c_assert (is_object object)) (\<lambda>_. JsonCopy ft object)"

section \<open>Comparison\<close>

definition element_type_code :: "JsonElement \<Rightarrow> int" where
  "element_type_code e = (case e of Container _ _ _ \<Rightarrow> 1 | Primitive _ _ _ \<Rightarrow> 2)"

definition container_type_code :: "JsonContainerType \<Rightarrow> int" where
  "container_type_code t = (case t of JSON_CONTAINER_TYPE_OBJECT \<Rightarrow> 3 | JSON_CONTAINER_TYPE_ARRAY \<Rightarrow> 4)"

text \<open>The difference of two lengths, a \<open>size_t\<close>, converted to \<open>int\<close>.\<close>

definition length_difference :: "JsonElement list \<Rightarrow> JsonElement list \<Rightarrow> int" where
  "length_difference as bs = sint (word_of_int (int (length as) - int (length bs)) :: 32 word)"

text \<open>Beyond the end the iterator of \<open>b\<close> returns NULL and JsonCompare asserts.\<close>

fun JsonCompare :: "JsonElement \<Rightarrow> JsonElement \<Rightarrow> int res"
  and JsonArrayCompare_loop :: "JsonElement list \<Rightarrow> JsonElement list \<Rightarrow> int res"
  and JsonObjectCompare_loop :: "JsonElement list \<Rightarrow> JsonElement \<Rightarrow> int res" where
  "JsonCompare (Container na ta as) (Container nb tb bs) =
     (if ta \<noteq> tb then Ok (container_type_code ta - container_type_code tb)
      else if length_difference as bs \<noteq> 0 then Ok (length_difference as bs)
      else if ta = JSON_CONTAINER_TYPE_ARRAY then JsonArrayCompare_loop as bs
      else JsonObjectCompare_loop as (Container nb tb bs))"
| "JsonCompare (Primitive na ta va) (Primitive nb tb vb) =
     bindE (StringEqual (Ptr va) (Ptr vb)) (\<lambda>same. Ok (if \<not> same then 1 else 0))"
| "JsonCompare a b = Ok (element_type_code a - element_type_code b)"
| "JsonArrayCompare_loop [] bs = Ok 0"
| "JsonArrayCompare_loop (a # as) [] = Fault AssertFail"
| "JsonArrayCompare_loop (a # as) (b # bs) =
     bindE (JsonCompare a b) (\<lambda>ret. if ret \<noteq> 0 then Ok ret else JsonArrayCompare_loop as bs)"
| "JsonObjectCompare_loop [] b = Ok 0"
| "JsonObjectCompare_loop (child_a # as) b = (case propertyName child_a of
     NULL \<Rightarrow> Fault AssertFail
   | Ptr key \<Rightarrow>
       bindE (JsonObjectGet b key) (\<lambda>child. case child of
         NULL \<Rightarrow> Ok 1
       | Ptr child_b \<Rightarrow> bindE (JsonCompare child_a child_b) (\<lambda>ret. if ret \<noteq> 0 then Ok ret else JsonObjectCompare_loop as b)))"

section \<open>Merging\<close>

fun copy_into_array :: "(string \<Rightarrow> string) \<Rightarrow> JsonElement \<Rightarrow> JsonElement list \<Rightarrow> JsonElement res" where
  "copy_into_array ft result [] = Ok result"
| "copy_into_array ft result (c # cs) =
     bindE (JsonCopy ft c) (\<lambda>c'. bindE (JsonArrayAppendElement result c') (\<lambda>r. copy_into_array ft r cs))"

definition JsonArrayMergeArray :: "(string \<Rightarrow> string) \<Rightarrow> JsonElement \<Rightarrow> JsonElement \<Rightarrow> JsonElement res" where
  "JsonArrayMergeArray ft a b =
     bindE (c_assert (is_array a \<and> is_array b)) (\<lambda>_.
     bindE (copy_into_array ft (JsonArrayCreate (JsonLength a + JsonLength b)) (children a)) (\<lambda>r.
     copy_into_array ft r (children b)))"

fun merge_array_loop :: "(string \<Rightarrow> string) \<Rightarrow> JsonElement \<Rightarrow> JsonElement list \<Rightarrow> nat \<Rightarrow> JsonElement res" where
  "merge_array_loop ft result [] i = Ok result"
| "merge_array_loop ft result (c # cs) i =
     bindE (cstr_read (StringFromLong (int i))) (\<lambda>key.
     bindE (JsonCopy ft c) (\<lambda>c'.
     bindE (JsonObjectAppendElement result key c') (\<lambda>r. merge_array_loop ft r cs (Suc i))))"

definition JsonObjectMergeArray :: "(string \<Rightarrow> string) \<Rightarrow> JsonElement \<Rightarrow> JsonElement \<Rightarrow> JsonElement res" where
  "JsonObjectMergeArray ft a b =
     bindE (c_assert (is_object a \<and> is_array b)) (\<lambda>_.
     bindE (JsonObjectCopy ft a) (\<lambda>r. merge_array_loop ft r (children b) 0))"

definition JsonObjectMergeObject :: "(string \<Rightarrow> string) \<Rightarrow> JsonElement \<Rightarrow> JsonElement \<Rightarrow> JsonElement res" where
  "JsonObjectMergeObject ft a b =
     bindE (c_assert (is_object a \<and> is_object b)) (\<lambda>_.
     bindE (JsonObjectCopy ft a) (\<lambda>r. JsonObjectCopy_loop ft (children b) r))"

definition JsonMerge :: "(string \<Rightarrow> string) \<Rightarrow> JsonElement \<Rightarrow> JsonElement \<Rightarrow> JsonElement res" where
  "JsonMerge ft a b = (case (a, b) of
     (Container _ JSON_CONTAINER_TYPE_ARRAY _, Container _ JSON_CONTAINER_TYPE_OBJECT _) \<Rightarrow> JsonObjectMergeArray ft b a
   | (Container _ JSON_CONTAINER_TYPE_ARRAY _, Container _ JSON_CONTAINER_TYPE_ARRAY _) \<Rightarrow> JsonArrayMergeArray ft a b
   | (Container _ JSON_CONTAINER_TYPE_OBJECT _, Container _ JSON_CONTAINER_TYPE_OBJECT _) \<Rightarrow> JsonObjectMergeObject ft a b
   | (Container _ JSON_CONTAINER_TYPE_OBJECT _, Container _ JSON_CONTAINER_TYPE_ARRAY _) \<Rightarrow> JsonObjectMergeArray ft a b
   | _ \<Rightarrow> Fault AssertFail)"

text \<open>The merge of a nested container changes the child of \<open>base\<close> where it is.\<close>

fun replace_child :: "string \<Rightarrow> JsonElement \<Rightarrow> JsonElement list \<Rightarrow> JsonElement list" where
  "replace_child key new [] = []"
| "replace_child key new (c # cs) = (if propertyName c = Ptr key then new # cs else c # replace_child key new cs)"

fun JsonObjectMergeDeepInplace :: "(string \<Rightarrow> string) \<Rightarrow> JsonElement \<Rightarrow> JsonElement \<Rightarrow> JsonElement res"
  and merge_deep_loop :: "(string \<Rightarrow> string) \<Rightarrow> JsonElement \<Rightarrow> JsonElement list \<Rightarrow> JsonElement res" where
  "JsonObjectMergeDeepInplace ft base (Primitive name t v) = Fault AssertFail"
| "JsonObjectMergeDeepInplace ft base (Container name t cs) =
     bindE (c_assert (is_object base \<and> t = JSON_CONTAINER_TYPE_OBJECT)) (\<lambda>_. merge_deep_loop ft base cs)"
| "merge_deep_loop ft base [] = Ok base"
| "merge_deep_loop ft base (extra_value # cs) = (case propertyName extra_value of
     NULL \<Rightarrow> Fault AssertFail
   | Ptr key \<Rightarrow>
       bindE (JsonObjectGet base key) (\<lambda>found.
       bindE (case found of
           NULL \<Rightarrow> bindE (JsonCopy ft extra_value) (\<lambda>element. JsonObjectAppendElement base key element)
         | Ptr base_value \<Rightarrow>
             if is_object base_value \<and> is_object extra_value
             then bindE (JsonObjectMergeDeepInplace ft base_value extra_value) (\<lambda>merged.
                  Ok (with_children base (replace_child key merged (children base))))
             else if is_array base_value \<and> is_array extra_value
             then bindE (JsonCopy ft extra_value) (\<lambda>element.
                  bindE (JsonArrayExtend base_value element) (\<lambda>merged.
                  Ok (with_children base (replace_child key merged (children base)))))
             else bindE (JsonCopy ft extra_value) (\<lambda>element. JsonObjectAppendElement base key element))
       (\<lambda>base'. merge_deep_loop ft base' cs)))"

section \<open>Iterating and walking\<close>

record JsonIterator =
  it_container :: JsonElement
  it_index :: nat

definition JsonIteratorInit :: "JsonElement \<Rightarrow> JsonIterator res" where
  "JsonIteratorInit container =
     bindE (c_assert (is_container container)) (\<lambda>_. Ok \<lparr>it_container = container, it_index = 0\<rparr>)"

definition JsonIteratorNextValue :: "JsonIterator \<Rightarrow> (JsonElement ptr \<times> JsonIterator) res" where
  "JsonIteratorNextValue it =
     bindE (c_assert (is_container (it_container it))) (\<lambda>_.
     if it_index it \<ge> JsonLength (it_container it) then Ok (NULL, it)
     else Ok (Ptr (children (it_container it) ! it_index it), it\<lparr>it_index := it_index it + 1\<rparr>))"

definition JsonIteratorNextKey :: "JsonIterator \<Rightarrow> (string ptr \<times> JsonIterator) res" where
  "JsonIteratorNextKey it =
     bindE (c_assert (is_object (it_container it))) (\<lambda>_.
     bindE (JsonIteratorNextValue it) (\<lambda>(child, it').
     Ok (case child of NULL \<Rightarrow> NULL | Ptr c \<Rightarrow> propertyName c, it')))"

text \<open>Every round of the search takes one child, so the number of children bounds it.\<close>

fun next_by_type_loop :: "nat \<Rightarrow> JsonIterator \<Rightarrow> bool \<Rightarrow> bool \<Rightarrow> (JsonElement ptr \<times> JsonIterator) res" where
  "next_by_type_loop 0 it container skip_null = Fault OutOfFuel"
| "next_by_type_loop (Suc fuel) it container skip_null =
     bindE (JsonIteratorNextValue it) (\<lambda>(e, it'). case e of
       NULL \<Rightarrow> Ok (NULL, it')
     | Ptr c \<Rightarrow>
         if skip_null \<and> is_primitive c JSON_PRIMITIVE_TYPE_NULL then next_by_type_loop fuel it' container skip_null
         else if is_container c = container then Ok (Ptr c, it')
         else next_by_type_loop fuel it' container skip_null)"

definition JsonIteratorNextValueByType :: "JsonIterator \<Rightarrow> bool \<Rightarrow> bool \<Rightarrow> (JsonElement ptr \<times> JsonIterator) res" where
  "JsonIteratorNextValueByType it container skip_null =
     next_by_type_loop (Suc (JsonLength (it_container it))) it container skip_null"

definition JsonIteratorCurrentValue :: "JsonIterator \<Rightarrow> JsonElement ptr res" where
  "JsonIteratorCurrentValue it =
     bindE (c_assert (is_container (it_container it))) (\<lambda>_.
     if it_index it = 0 \<or> it_index it > JsonLength (it_container it) then Ok NULL
     else Ok (Ptr (children (it_container it) ! (it_index it - 1))))"

definition JsonIteratorCurrentKey :: "JsonIterator \<Rightarrow> string ptr res" where
  "JsonIteratorCurrentKey it =
     bindE (c_assert (is_object (it_container it))) (\<lambda>_.
     bindE (JsonIteratorCurrentValue it) (\<lambda>child. Ok (case child of NULL \<Rightarrow> NULL | Ptr c \<Rightarrow> propertyName c)))"

definition current_child :: "JsonIterator \<Rightarrow> JsonElement res" where
  "current_child it = bindE (JsonIteratorCurrentValue it) (\<lambda>child. case child of NULL \<Rightarrow> Fault NullDeref | Ptr c \<Rightarrow> Ok c)"

definition JsonIteratorCurrentElementType :: "JsonIterator \<Rightarrow> bool res" where
  "JsonIteratorCurrentElementType it = bindE (current_child it) (\<lambda>c. Ok (is_container c))"

definition JsonIteratorCurrentContainerType :: "JsonIterator \<Rightarrow> JsonContainerType res" where
  "JsonIteratorCurrentContainerType it = bindE (current_child it) JsonGetContainerType"

definition JsonIteratorCurrentPrimitiveType :: "JsonIterator \<Rightarrow> JsonPrimitiveType res" where
  "JsonIteratorCurrentPrimitiveType it = bindE (current_child it) JsonGetPrimitiveType"

definition JsonIteratorHasMore :: "JsonIterator \<Rightarrow> bool" where
  "JsonIteratorHasMore it \<longleftrightarrow> it_index it < JsonLength (it_container it)"

text \<open>JsonSelect follows a path of keys and array positions; an index beyond \<open>long\<close> ends the process.\<close>

fun JsonSelect :: "JsonElement \<Rightarrow> string list \<Rightarrow> JsonElement ptr res" where
  "JsonSelect element [] = Ok (Ptr element)"
| "JsonSelect element (index # indices) = (case element of
     Primitive _ _ _ \<Rightarrow> Ok NULL
   | Container _ JSON_CONTAINER_TYPE_OBJECT _ \<Rightarrow>
       bindE (JsonObjectGet element index) (\<lambda>child. case child of
         Ptr c \<Rightarrow> JsonSelect c indices | NULL \<Rightarrow> Ok NULL)
   | Container _ JSON_CONTAINER_TYPE_ARRAY _ \<Rightarrow>
       if StringIsNumeric index
       then bindE (bindE (StringToLongExitOnError (Ptr index)) exit_on_error) (\<lambda>i.
            if nat i < JsonLength element
            then bindE (JsonArrayGet element (nat i)) (\<lambda>c. JsonSelect c indices)
            else Ok NULL)
       else Ok NULL)"

text \<open>The visitors read the element and thread their \<open>data\<close>; a visitor may be NULL.\<close>

type_synonym 'd JsonElementVisitor = "JsonElement \<Rightarrow> 'd \<Rightarrow> bool \<times> 'd"

fun visit :: "'d JsonElementVisitor ptr \<Rightarrow> JsonElement \<Rightarrow> 'd \<Rightarrow> bool \<times> 'd" where
  "visit NULL element d = (True, d)"
| "visit (Ptr f) element d = f element d"

fun JsonWalk :: "'d JsonElementVisitor ptr \<Rightarrow> 'd JsonElementVisitor ptr \<Rightarrow> 'd JsonElementVisitor ptr \<Rightarrow> JsonElement \<Rightarrow> 'd \<Rightarrow> bool \<times> 'd"
  and JsonWalk_loop :: "'d JsonElementVisitor ptr \<Rightarrow> 'd JsonElementVisitor ptr \<Rightarrow> 'd JsonElementVisitor ptr \<Rightarrow> JsonElement list \<Rightarrow> 'd \<Rightarrow> bool \<times> 'd" where
  "JsonWalk object_visitor array_visitor primitive_visitor (Primitive name t v) d =
     visit primitive_visitor (Primitive name t v) d"
| "JsonWalk object_visitor array_visitor primitive_visitor (Container name t cs) d =
     (let (keep_going, d') = visit (if t = JSON_CONTAINER_TYPE_ARRAY then array_visitor else object_visitor) (Container name t cs) d
      in if \<not> keep_going then (False, d')
         else JsonWalk_loop object_visitor array_visitor primitive_visitor cs d')"
| "JsonWalk_loop object_visitor array_visitor primitive_visitor [] d = (True, d)"
| "JsonWalk_loop object_visitor array_visitor primitive_visitor (child # cs) d =
     (let (keep_going, d') = JsonWalk object_visitor array_visitor primitive_visitor child d
      in if keep_going then JsonWalk_loop object_visitor array_visitor primitive_visitor cs d' else (False, d'))"

definition JsonErrorVisitor :: "'d JsonElementVisitor" where
  "JsonErrorVisitor element d = (False, d)"

section \<open>Sorting\<close>

text \<open>JsonSort runs SeqSort on the sequence of the children.\<close>

definition children_seq :: "JsonElement list \<Rightarrow> JsonElement Seq" where
  "children_seq cs = \<lparr>seq_data = map (\<lambda>c. Val (Ptr c)) cs @ replicate (Suc (length cs) - length cs) Undef,
     seq_length = length cs, seq_capacity = Suc (length cs), seq_ItemDestroy = True\<rparr>"

definition seq_children :: "JsonElement Seq \<Rightarrow> JsonElement list res" where
  "seq_children s = bindE (cread_range (seq_data s) 0 (seq_length s)) (\<lambda>cs. Ok (map the cs))"

definition JsonSort :: "JsonElement \<Rightarrow> (JsonElement, unit) SeqItemComparator \<Rightarrow> JsonElement res" where
  "JsonSort container Compare =
     bindE (c_assert (is_container container)) (\<lambda>_.
     bindE (SeqSort (children_seq (children container)) Compare NULL) (\<lambda>s.
     bindE (seq_children s) (\<lambda>cs. Ok (with_children container cs))))"

text \<open>The comparator is called on elements that have a name.\<close>

definition JsonElementPropertyCompare :: "(JsonElement, unit) SeqItemComparator" where
  "JsonElementPropertyCompare e1 e2 user_data = strcmp (the (propertyName (the e1))) (the (propertyName (the e2)))"

end
