(* ===== verification/JsonText.thy ===== *)
theory JsonText
  imports JsonOps
begin

text \<open>
  libutils/json.c: string escapes and the two printers. The functions that write to a Writer return the
  text they write; theory \<open>WriterLib\<close> shows that a writer holds the text written to it. Printing an object
  sorts its children in place, so the printers return the element as well.
\<close>

section \<open>Escapes\<close>

definition CharIsPrintableAscii :: "char \<Rightarrow> bool" where
  "CharIsPrintableAscii c \<longleftrightarrow> 32 \<le> (of_char c :: nat) \<and> (of_char c :: nat) \<le> 126"

definition hex_digit :: "nat \<Rightarrow> char" where
  "hex_digit d = (''0123456789abcdef'' ! d)"

definition hex_digit_upper :: "nat \<Rightarrow> char" where
  "hex_digit_upper d = (''0123456789ABCDEF'' ! d)"

abbreviation backslash :: char where "backslash \<equiv> CHR 0x5C"
abbreviation quote :: char where "quote \<equiv> CHR 0x22"

text \<open>\<open>"%04x"\<close> of an unsigned character.\<close>

definition unicode_escape :: "char \<Rightarrow> string" where
  "unicode_escape c = [backslash, CHR ''u'', CHR ''0'', CHR ''0'', hex_digit (of_char c div 16), hex_digit (of_char c mod 16)]"

definition encode_char :: "char \<Rightarrow> string" where
  "encode_char c =
     (if c = quote \<or> c = backslash then [backslash, c]
      else if c = CHR 0x08 then [backslash, CHR ''b'']
      else if c = CHR 0x0C then [backslash, CHR ''f'']
      else if c = CHR 0x0A then [backslash, CHR ''n'']
      else if c = CHR 0x0D then [backslash, CHR ''r'']
      else if c = CHR 0x09 then [backslash, CHR ''t'']
      else if CharIsPrintableAscii c then [c]
      else unicode_escape c)"

fun JsonEncodeStringWriter :: "string \<Rightarrow> string" where
  "JsonEncodeStringWriter [] = []"
| "JsonEncodeStringWriter (c # s) = encode_char c @ JsonEncodeStringWriter s"

definition JsonEncodeString :: "string \<Rightarrow> string" where
  "JsonEncodeString s = JsonEncodeStringWriter s"

definition hex_value :: "char \<Rightarrow> nat" where
  "hex_value c =
     (if isdigit c then of_char c - 48
      else if (of_char c :: nat) \<ge> 97 then of_char c - 87 else of_char c - 55)"

definition is_hex :: "char \<Rightarrow> bool" where
  "is_hex c \<longleftrightarrow> isdigit c \<or> (65 \<le> (of_char c :: nat) \<and> (of_char c :: nat) \<le> 70) \<or> (97 \<le> (of_char c :: nat) \<and> (of_char c :: nat) \<le> 102)"

text \<open>\<open>strtol (tmp, &end, 16)\<close> of four hexadecimal digits reads them all.\<close>

definition HexStringToChar :: "string \<Rightarrow> char option" where
  "HexStringToChar hex_string =
     (if length hex_string < 4 then None
      else let tmp = take 4 hex_string
           in if \<not> list_all is_hex tmp then None
              else let c = foldl (\<lambda>v h. v * 16 + hex_value h) 0 tmp
                   in if c > 255 then None else Some (char_of c))"

text \<open>
  The loop over the escaped string. After \<open>\\u\<close> without four hexadecimal digits the backslash is
  dropped. \<open>"%c"\<close> with NUL writes nothing, because the formatted text is copied as a C string.
\<close>

function JsonDecodeStringWriter :: "string \<Rightarrow> string" where
  "JsonDecodeStringWriter s = (case s of
     [] \<Rightarrow> []
   | c # t \<Rightarrow>
       if c = backslash
       then (case t of
           [] \<Rightarrow> c # JsonDecodeStringWriter t
         | d # u \<Rightarrow>
             if d = quote \<or> d = backslash then d # JsonDecodeStringWriter u
             else if d = CHR ''b'' then CHR 0x08 # JsonDecodeStringWriter u
             else if d = CHR ''f'' then CHR 0x0C # JsonDecodeStringWriter u
             else if d = CHR ''n'' then CHR 0x0A # JsonDecodeStringWriter u
             else if d = CHR ''r'' then CHR 0x0D # JsonDecodeStringWriter u
             else if d = CHR ''t'' then CHR 0x09 # JsonDecodeStringWriter u
             else if d = CHR ''u''
             then (case HexStringToChar u of
                 Some x \<Rightarrow> (if x = CHR 0x00 then [] else [x]) @ JsonDecodeStringWriter (drop 4 u)
               | None \<Rightarrow> JsonDecodeStringWriter t)
             else c # JsonDecodeStringWriter t)
       else c # JsonDecodeStringWriter t)"
  by pat_completeness auto
termination by (relation "measure length") auto

declare JsonDecodeStringWriter.simps [simp del]

definition JsonDecodeString :: "string \<Rightarrow> string" where
  "JsonDecodeString s = JsonDecodeStringWriter s"

text \<open>JSON5 escapes of a block of bytes.\<close>

definition json5_char :: "char \<Rightarrow> string" where
  "json5_char c =
     (if c = CHR 0x00 then [backslash, CHR ''0'']
      else if c = quote \<or> c = backslash then [backslash, c]
      else if c = CHR 0x08 then [backslash, CHR ''b'']
      else if c = CHR 0x0C then [backslash, CHR ''f'']
      else if c = CHR 0x0A then [backslash, CHR ''n'']
      else if c = CHR 0x0D then [backslash, CHR ''r'']
      else if c = CHR 0x09 then [backslash, CHR ''t'']
      else if CharIsPrintableAscii c then [c]
      else [backslash, CHR ''x'', hex_digit_upper (of_char c div 16), hex_digit_upper (of_char c mod 16)])"

fun Json5EscapeDataWriter :: "string \<Rightarrow> string" where
  "Json5EscapeDataWriter [] = []"
| "Json5EscapeDataWriter (c # s) = json5_char c @ Json5EscapeDataWriter s"

definition Json5EscapeData :: "string \<Rightarrow> string" where
  "Json5EscapeData s = Json5EscapeDataWriter s"

section \<open>Printing\<close>

definition SPACES_PER_INDENT :: nat where "SPACES_PER_INDENT = 2"

definition newline :: char where "newline = CHR 0x0A"

definition PrintIndent :: "nat \<Rightarrow> string" where
  "PrintIndent num = replicate (num * SPACES_PER_INDENT) (CHR '' '')"

definition JsonPrimitiveWrite :: "JsonElement \<Rightarrow> nat \<Rightarrow> string" where
  "JsonPrimitiveWrite e indent_level =
     (if is_primitive e JSON_PRIMITIVE_TYPE_STRING
      then PrintIndent indent_level @ [quote] @ JsonEncodeString (pvalue e) @ [quote]
      else PrintIndent indent_level @ pvalue e)"

fun all_children_have_keys :: "JsonElement list \<Rightarrow> bool" where
  "all_children_have_keys [] = True"
| "all_children_have_keys (c # cs) = (if propertyName c = NULL then False else all_children_have_keys cs)"

text \<open>
  The fuel bounds the nesting of containers. A loop over the children returns their text, with what
  follows each of them, and the children as printing leaves them.
\<close>

fun JsonContainerWrite :: "nat \<Rightarrow> JsonElement \<Rightarrow> nat \<Rightarrow> (string \<times> JsonElement) res"
  and JsonArrayWrite_loop :: "nat \<Rightarrow> JsonElement list \<Rightarrow> nat \<Rightarrow> (string \<times> JsonElement list) res"
  and JsonObjectWrite_loop :: "nat \<Rightarrow> JsonElement list \<Rightarrow> nat \<Rightarrow> (string \<times> JsonElement list) res" where
  "JsonContainerWrite 0 e indent_level = Fault OutOfFuel"
| "JsonContainerWrite (Suc fuel) e indent_level =
     (if is_object e
      then bindE (c_assert (all_children_have_keys (children e))) (\<lambda>_.
           bindE (JsonSort e JsonElementPropertyCompare) (\<lambda>sorted.
           bindE (JsonObjectWrite_loop fuel (children sorted) indent_level) (\<lambda>(text, cs).
           Ok ([CHR ''{'', newline] @ text @ PrintIndent indent_level @ [CHR ''}''], with_children e cs))))
      else if JsonLength e = 0 then Ok (''[]'', e)
      else bindE (JsonArrayWrite_loop fuel (children e) indent_level) (\<lambda>(text, cs).
           Ok ([CHR ''['', newline] @ text @ PrintIndent indent_level @ [CHR '']''], with_children e cs)))"
| "JsonArrayWrite_loop fuel [] indent_level = Ok ([], [])"
| "JsonArrayWrite_loop fuel (child # cs) indent_level =
     bindE (if is_container child
            then bindE (JsonContainerWrite fuel child (indent_level + 1)) (\<lambda>(t, c).
                 Ok (PrintIndent (indent_level + 1) @ t, c))
            else Ok (JsonPrimitiveWrite child (indent_level + 1), child)) (\<lambda>(t, c).
     bindE (JsonArrayWrite_loop fuel cs indent_level) (\<lambda>(ts, cs').
     Ok (t @ (if cs \<noteq> [] then [CHR '','', newline] else [newline]) @ ts, c # cs')))"
| "JsonObjectWrite_loop fuel [] indent_level = Ok ([], [])"
| "JsonObjectWrite_loop fuel (child # cs) indent_level = (case propertyName child of
     NULL \<Rightarrow> Fault AssertFail
   | Ptr key \<Rightarrow>
       bindE (if is_container child then JsonContainerWrite fuel child (indent_level + 1)
              else Ok (JsonPrimitiveWrite child 0, child)) (\<lambda>(t, c).
       bindE (JsonObjectWrite_loop fuel cs indent_level) (\<lambda>(ts, cs').
       Ok (PrintIndent (indent_level + 1) @ [quote] @ JsonEncodeString key @ [quote, CHR '':'', CHR '' ''] @ t
         @ (if cs \<noteq> [] then '','' else []) @ [newline] @ ts, c # cs'))))"

fun json_depth :: "JsonElement \<Rightarrow> nat" where
  "json_depth (Primitive name t v) = 0"
| "json_depth (Container name t cs) = Suc (Max (set (0 # map json_depth cs)))"

definition JsonWrite :: "JsonElement \<Rightarrow> nat \<Rightarrow> (string \<times> JsonElement) res" where
  "JsonWrite e indent_level =
     (if is_container e then JsonContainerWrite (json_depth e) e indent_level
      else Ok (JsonPrimitiveWrite e indent_level, e))"

fun JsonContainerWriteCompact :: "nat \<Rightarrow> JsonElement \<Rightarrow> (string \<times> JsonElement) res"
  and JsonArrayWriteCompact_loop :: "nat \<Rightarrow> JsonElement list \<Rightarrow> (string \<times> JsonElement list) res"
  and JsonObjectWriteCompact_loop :: "nat \<Rightarrow> JsonElement list \<Rightarrow> (string \<times> JsonElement list) res" where
  "JsonContainerWriteCompact 0 e = Fault OutOfFuel"
| "JsonContainerWriteCompact (Suc fuel) e =
     (if is_object e
      then bindE (c_assert (all_children_have_keys (children e))) (\<lambda>_.
           bindE (JsonSort e JsonElementPropertyCompare) (\<lambda>sorted.
           bindE (JsonObjectWriteCompact_loop fuel (children sorted)) (\<lambda>(text, cs).
           Ok ([CHR ''{''] @ text @ [CHR ''}''], with_children e cs))))
      else if JsonLength e = 0 then Ok (''[]'', e)
      else bindE (JsonArrayWriteCompact_loop fuel (children e)) (\<lambda>(text, cs).
           Ok ([CHR ''[''] @ text @ [CHR '']''], with_children e cs)))"
| "JsonArrayWriteCompact_loop fuel [] = Ok ([], [])"
| "JsonArrayWriteCompact_loop fuel (child # cs) =
     bindE (if is_container child then JsonContainerWriteCompact fuel child
            else Ok (JsonPrimitiveWrite child 0, child)) (\<lambda>(t, c).
     bindE (JsonArrayWriteCompact_loop fuel cs) (\<lambda>(ts, cs').
     Ok (t @ (if cs \<noteq> [] then '','' else []) @ ts, c # cs')))"
| "JsonObjectWriteCompact_loop fuel [] = Ok ([], [])"
| "JsonObjectWriteCompact_loop fuel (child # cs) = (case propertyName child of
     NULL \<Rightarrow> Fault AssertFail
   | Ptr key \<Rightarrow>
       bindE (if is_container child then JsonContainerWriteCompact fuel child
              else Ok (JsonPrimitiveWrite child 0, child)) (\<lambda>(t, c).
       bindE (JsonObjectWriteCompact_loop fuel cs) (\<lambda>(ts, cs').
       Ok ([quote] @ JsonEncodeString key @ [quote, CHR '':''] @ t @ (if cs \<noteq> [] then '','' else []) @ ts, c # cs'))))"

definition JsonWriteCompact :: "JsonElement \<Rightarrow> (string \<times> JsonElement) res" where
  "JsonWriteCompact e =
     (if is_container e then JsonContainerWriteCompact (json_depth e) e else Ok (JsonPrimitiveWrite e 0, e))"

end
