(* ===== verification/Mustache.thy ===== *)
theory Mustache
  imports JsonText
begin

text \<open>
  The template engine of mustache.c. Pointers into the template are offsets from its start; the buffer
  that receives the text and the delimiters are strings, each delimiter at most as long as its array
  allows; the stack of hashes is a list with its top at the end. An element of the JSON document is
  referred to by the path from the root, since serialising an object sorts it in place and a path stays
  valid then. What is printed for a real number is a parameter, as in JsonLib.
\<close>

section \<open>Tags\<close>

datatype TagType =
    TAG_TYPE_VAR | TAG_TYPE_VAR_UNESCAPED | TAG_TYPE_VAR_SERIALIZED | TAG_TYPE_VAR_SERIALIZED_COMPACT
  | TAG_TYPE_SECTION | TAG_TYPE_SECTION_END | TAG_TYPE_INVERTED | TAG_TYPE_COMMENT | TAG_TYPE_DELIM
  | TAG_TYPE_ERR | TAG_TYPE_NONE

text \<open>\<open>tag_content\<close> and \<open>tag_end\<close> are set only when a whole tag was found.\<close>

record Mustache =
  tag_type :: TagType
  tag_begin :: "nat ptr"
  tag_end :: "nat ptr"
  tag_content :: string

definition MUSTACHE_MAX_DELIM_SIZE :: nat where
  "MUSTACHE_MAX_DELIM_SIZE = 10"

definition IsSpace :: "char \<Rightarrow> bool" where
  "IsSpace c \<longleftrightarrow> c = CHR 0x09 \<or> c = CHR '' ''"

text \<open>Backwards from a tag to the start of its line; None when something else is on the line.\<close>

fun line_begin :: "string \<Rightarrow> nat \<Rightarrow> nat option" where
  "line_begin start 0 = Some 0"
| "line_begin start (Suc cur) =
     (if IsSpace (start ! cur) then line_begin start cur
      else if start ! cur = CHR 0x0A then Some (Suc cur)
      else None)"

text \<open>Forwards from the end of a tag.\<close>

fun line_end :: "string \<Rightarrow> nat \<Rightarrow> nat option" where
  "line_end [] cur = Some cur"
| "line_end (c # rest) cur =
     (if IsSpace c then line_end rest (Suc cur)
      else if c = CHR 0x0A then Some (Suc cur)
      else if c = CHR 0x0D then
        (case rest of d # _ \<Rightarrow> if d = CHR 0x0A then Some (cur + 2) else line_end rest (Suc cur) | [] \<Rightarrow> line_end rest (Suc cur))
      else None)"

text \<open>The bounds of the line of a tag that stands alone on it.\<close>

definition IsTagStandalone :: "string \<Rightarrow> nat \<Rightarrow> nat \<Rightarrow> (nat \<times> nat) option" where
  "IsTagStandalone start from to = (case line_begin start from of
     None \<Rightarrow> None
   | Some b \<Rightarrow> map_option (Pair b) (line_end (drop to start) to))"

definition IsTagTypeRenderable :: "TagType \<Rightarrow> bool" where
  "IsTagTypeRenderable type \<longleftrightarrow>
     type \<notin> {TAG_TYPE_COMMENT, TAG_TYPE_DELIM, TAG_TYPE_ERR, TAG_TYPE_INVERTED, TAG_TYPE_SECTION, TAG_TYPE_SECTION_END}"

text \<open>The type a tag has by its first character, the length of that mark, and a mark that must come before the end.\<close>

definition tag_mark :: "string \<Rightarrow> TagType \<times> nat \<times> string" where
  "tag_mark content = (case content of
     [] \<Rightarrow> (TAG_TYPE_VAR, 0, [])
   | c # _ \<Rightarrow>
       if c = CHR ''#'' then (TAG_TYPE_SECTION, 1, [])
       else if c = CHR ''^'' then (TAG_TYPE_INVERTED, 1, [])
       else if c = CHR ''/'' then (TAG_TYPE_SECTION_END, 1, [])
       else if c = CHR ''!'' then (TAG_TYPE_COMMENT, 1, [])
       else if c = CHR ''='' then (TAG_TYPE_DELIM, 1, ''='')
       else if c = CHR ''{'' then (TAG_TYPE_VAR_UNESCAPED, 1, ''}'')
       else if c = CHR ''&'' then (TAG_TYPE_VAR_UNESCAPED, 1, [])
       else if c = CHR ''%'' then (TAG_TYPE_VAR_SERIALIZED, 1, [])
       else if c = CHR ''$'' then (TAG_TYPE_VAR_SERIALIZED_COMPACT, 1, [])
       else (TAG_TYPE_VAR, 0, []))"

text \<open>
  The two loops that trim the content. The first one counts the length down without looking at it; a
  blank behind the content would wrap it around.
\<close>

fun trim_front :: "string \<Rightarrow> nat \<Rightarrow> string res" where
  "trim_front [] len = (if len = 0 then Ok [] else Fault OutOfBounds)"
| "trim_front (c # rest) len =
     (if IsSpace c then (if len = 0 then Fault CounterWrap else trim_front rest (len - 1)) else Ok (take len (c # rest)))"

definition trim_back :: "string \<Rightarrow> string" where
  "trim_back content = rev (dropWhile IsSpace (rev content))"

definition NextTag :: "string \<Rightarrow> nat \<Rightarrow> string \<Rightarrow> string \<Rightarrow> Mustache res" where
  "NextTag start input delim_start delim_end = (case strstr (drop input start) delim_start of
     None \<Rightarrow> Ok \<lparr>tag_type = TAG_TYPE_NONE, tag_begin = NULL, tag_end = NULL, tag_content = []\<rparr>
   | Some i \<Rightarrow>
       let (type, mark, extra_end) = tag_mark (drop (input + i + length delim_start) start);
           content = input + i + length delim_start + mark
       in case strstr (drop content start) (if extra_end = [] then delim_end else extra_end) of
            None \<Rightarrow> Ok \<lparr>tag_type = TAG_TYPE_ERR, tag_begin = Ptr (input + i), tag_end = NULL, tag_content = []\<rparr>
          | Some n \<Rightarrow>
              let after = content + n + length extra_end
              in if take (length delim_end) (drop after start) \<noteq> delim_end
                 then Ok \<lparr>tag_type = TAG_TYPE_ERR, tag_begin = Ptr (input + i), tag_end = NULL, tag_content = []\<rparr>
                 else bindE (trim_front (drop content start) n) (\<lambda>text.
                      Ok \<lparr>tag_type = type, tag_begin = Ptr (input + i), tag_end = Ptr (after + length delim_end), tag_content = trim_back text\<rparr>))"

section \<open>Variables\<close>

datatype step = Member string | Item nat

type_synonym path = "step list"

fun element_at :: "JsonElement \<Rightarrow> path \<Rightarrow> JsonElement option" where
  "element_at e [] = Some e"
| "element_at e (x # p) = (case e of
     Primitive _ _ _ \<Rightarrow> None
   | Container _ _ cs \<Rightarrow> (case (case x of Member k \<Rightarrow> find (\<lambda>c. propertyName c = Ptr k) cs | Item i \<Rightarrow> if i < length cs then Some (cs ! i) else None) of
       None \<Rightarrow> None
     | Some c \<Rightarrow> element_at c p))"

fun update_first :: "('a \<Rightarrow> bool) \<Rightarrow> ('a \<Rightarrow> 'a) \<Rightarrow> 'a list \<Rightarrow> 'a list" where
  "update_first P f [] = []"
| "update_first P f (x # xs) = (if P x then f x # xs else x # update_first P f xs)"

fun replace_at :: "JsonElement \<Rightarrow> path \<Rightarrow> JsonElement \<Rightarrow> JsonElement" where
  "replace_at e [] new = new"
| "replace_at e (x # p) new = (case e of
     Primitive _ _ _ \<Rightarrow> e
   | Container name t cs \<Rightarrow> Container name t (case x of
       Member k \<Rightarrow> update_first (\<lambda>c. propertyName c = Ptr k) (\<lambda>c. replace_at c p new) cs
     | Item i \<Rightarrow> if i < length cs then cs[i := replace_at (cs ! i) p new] else cs))"

definition deref :: "JsonElement \<Rightarrow> path \<Rightarrow> JsonElement res" where
  "deref root p = (case element_at root p of None \<Rightarrow> Fault OutOfBounds | Some e \<Rightarrow> Ok e)"

text \<open>\<open>xstrndup\<close> of the token that StringGetToken finds.\<close>

definition component_at :: "string \<Rightarrow> nat \<Rightarrow> string \<Rightarrow> string res" where
  "component_at name i seps = bindE (StringGetToken name (length name) i seps) (\<lambda>ref. case sr_data ref of
     NULL \<Rightarrow> Fault NullDeref
   | Ptr d \<Rightarrow> Ok (take (sr_len ref) (drop d name)))"

text \<open>The innermost hash with a member of that name.\<close>

fun lookup_base :: "JsonElement \<Rightarrow> path ptr list \<Rightarrow> string \<Rightarrow> path ptr res" where
  "lookup_base root [] cmpnt = Ok NULL"
| "lookup_base root (hash # below) cmpnt = (case hash of
     NULL \<Rightarrow> lookup_base root below cmpnt
   | Ptr p \<Rightarrow> bindE (deref root p) (\<lambda>e.
       if JsonGetType e = ContainerType JSON_CONTAINER_TYPE_OBJECT
       then bindE (JsonObjectGet e cmpnt) (\<lambda>var. case var of
              NULL \<Rightarrow> lookup_base root below cmpnt
            | Ptr _ \<Rightarrow> Ok (Ptr (p @ [Member cmpnt])))
       else lookup_base root below cmpnt))"

fun lookup_rest :: "JsonElement \<Rightarrow> string \<Rightarrow> nat \<Rightarrow> nat \<Rightarrow> path \<Rightarrow> path ptr res" where
  "lookup_rest root name 0 i p = Ok (Ptr p)"
| "lookup_rest root name (Suc n) i p = bindE (deref root p) (\<lambda>e.
     if JsonGetType e \<noteq> ContainerType JSON_CONTAINER_TYPE_OBJECT then Ok NULL
     else bindE (component_at name i ''.'') (\<lambda>cmpnt.
          bindE (JsonObjectGet e cmpnt) (\<lambda>var. case var of
            NULL \<Rightarrow> Ok NULL
          | Ptr _ \<Rightarrow> lookup_rest root name n (i + 1) (p @ [Member cmpnt]))))"

definition LookupVariable :: "JsonElement \<Rightarrow> path ptr list \<Rightarrow> string \<Rightarrow> path ptr res" where
  "LookupVariable root hash_stack name =
     bindE (c_assert (hash_stack \<noteq> [])) (\<lambda>_.
     bindE (StringCountTokens name (length name) ''.'') (\<lambda>num_comps.
     bindE (component_at name 0 ''.'') (\<lambda>base_comp.
     bindE (lookup_base root (rev hash_stack) base_comp) (\<lambda>found.
     case (if found = NULL \<and> base_comp = ''-top-'' then hd hash_stack else found) of
       NULL \<Rightarrow> Ok NULL
     | Ptr p \<Rightarrow> lookup_rest root name (num_comps - 1) 1 p))))"

section \<open>Text\<close>

definition html_char :: "char \<Rightarrow> string" where
  "html_char c =
     (if c = CHR ''&'' then ''&amp;''
      else if c = CHR 0x22 then ''&quot;''
      else if c = CHR ''<'' then ''&lt;''
      else if c = CHR ''>'' then ''&gt;''
      else [c])"

definition RenderHTMLContent :: "string \<Rightarrow> string \<Rightarrow> string" where
  "RenderHTMLContent out input = out @ concat (map html_char input)"

definition RenderContent :: "string \<Rightarrow> string \<Rightarrow> bool \<Rightarrow> bool \<Rightarrow> string" where
  "RenderContent out content html skip_content =
     (if skip_content then out else if html then RenderHTMLContent out content else out @ content)"

definition RenderVariablePrimitive :: "(string \<Rightarrow> string) \<Rightarrow> string \<Rightarrow> JsonElement \<Rightarrow> bool \<Rightarrow> string ptr \<Rightarrow> (bool \<times> string) res" where
  "RenderVariablePrimitive float_text out primitive escaped json_key = (case json_key of
     Ptr key \<Rightarrow> Ok (True, if escaped then RenderHTMLContent out key else out @ key)
   | NULL \<Rightarrow> bindE (JsonGetPrimitiveType primitive) (\<lambda>t. case t of
       JSON_PRIMITIVE_TYPE_STRING \<Rightarrow> bindE (JsonPrimitiveGetAsString primitive) (\<lambda>str.
         Ok (True, if escaped then RenderHTMLContent out str else out @ str))
     | JSON_PRIMITIVE_TYPE_INTEGER \<Rightarrow> bindE (JsonPrimitiveGetAsInteger primitive) (\<lambda>i.
         bindE (cstr_read (StringFromLong i)) (\<lambda>str. Ok (True, out @ str)))
     | JSON_PRIMITIVE_TYPE_REAL \<Rightarrow> Ok (True, out @ float_text (pvalue primitive))
     | JSON_PRIMITIVE_TYPE_BOOL \<Rightarrow> bindE (JsonPrimitiveGetAsBool primitive) (\<lambda>b. Ok (True, out @ (if b then ''true'' else ''false'')))
     | JSON_PRIMITIVE_TYPE_NULL \<Rightarrow> Ok (True, out)))"

text \<open>The text, and the element with its objects sorted.\<close>

definition RenderVariableContainer :: "string \<Rightarrow> JsonElement \<Rightarrow> bool \<Rightarrow> (string \<times> JsonElement) res" where
  "RenderVariableContainer out container compact =
     bindE (if compact then JsonWriteCompact container else JsonWrite container 0) (\<lambda>(text, container'). Ok (out @ text, container'))"

text \<open>The switch on the type of the element \<open>e\<close> at \<open>p\<close>.\<close>

definition render_element :: "(string \<Rightarrow> string) \<Rightarrow> string \<Rightarrow> path \<Rightarrow> JsonElement \<Rightarrow> TagType \<Rightarrow> bool \<Rightarrow> string ptr \<Rightarrow> JsonElement
    \<Rightarrow> (bool \<times> string \<times> JsonElement) res" where
  "render_element float_text out p e conversion item_mode key root = (case JsonGetElementType e of
     JSON_ELEMENT_TYPE_PRIMITIVE \<Rightarrow>
       bindE (RenderVariablePrimitive float_text out e (conversion = TAG_TYPE_VAR) key) (\<lambda>(ok, out). Ok (ok, out, root))
   | JSON_ELEMENT_TYPE_CONTAINER \<Rightarrow>
       if conversion = TAG_TYPE_VAR_SERIALIZED \<or> conversion = TAG_TYPE_VAR_SERIALIZED_COMPACT
       then bindE (RenderVariableContainer out e (conversion = TAG_TYPE_VAR_SERIALIZED_COMPACT)) (\<lambda>(out, e').
            Ok (True, out, replace_at root p e'))
       else if key \<noteq> NULL
       then bindE (RenderVariablePrimitive float_text out e (conversion = TAG_TYPE_VAR) key) (\<lambda>(ok, out). Ok (ok, out, root))
       else if item_mode then Ok (False, out, root)
       else Fault AssertFail)"

definition RenderVariable :: "(string \<Rightarrow> string) \<Rightarrow> string \<Rightarrow> string \<Rightarrow> TagType \<Rightarrow> path ptr list \<Rightarrow> string ptr \<Rightarrow> JsonElement
    \<Rightarrow> (bool \<times> string \<times> JsonElement) res" where
  "RenderVariable float_text out content conversion hash_stack json_key root =
     (let item_mode = (content = ''.''); key_mode = (content = ''@'')
      in bindE (if item_mode \<or> key_mode then bindE (c_assert (hash_stack \<noteq> [])) (\<lambda>_. Ok (last hash_stack))
                else LookupVariable root hash_stack content) (\<lambda>var.
         if key_mode \<and> json_key = NULL then Ok (False, out, root)
         else case var of
           NULL \<Rightarrow> Ok (True, out, root)
         | Ptr p \<Rightarrow> bindE (deref root p) (\<lambda>e.
             render_element float_text out p e conversion item_mode (if key_mode then json_key else NULL) root)))"

section \<open>Delimiters\<close>

type_synonym delims = "string \<times> string"

text \<open>A delimiter is copied with a terminating NUL into an array of MUSTACHE\_MAX\_DELIM\_SIZE characters.\<close>

definition copy_delim :: "string \<Rightarrow> string res" where
  "copy_delim delim = (if length delim < MUSTACHE_MAX_DELIM_SIZE then Ok delim else Fault OutOfBounds)"

definition SetDelimiters :: "string \<Rightarrow> delims \<Rightarrow> (bool \<times> delims) res" where
  "SetDelimiters content delims =
     bindE (StringCountTokens content (length content) [CHR '' '', CHR 0x09]) (\<lambda>num_tokens.
     if num_tokens \<noteq> 2 then Ok (False, delims)
     else bindE (component_at content 0 [CHR '' '', CHR 0x09]) (\<lambda>first.
       if length first > MUSTACHE_MAX_DELIM_SIZE then Ok (False, delims)
       else bindE (copy_delim first) (\<lambda>delim_start.
         bindE (component_at content 1 [CHR '' '', CHR 0x09]) (\<lambda>second.
         if length second > MUSTACHE_MAX_DELIM_SIZE then Ok (False, delim_start, snd delims)
         else bindE (copy_delim second) (\<lambda>delim_end. Ok (True, delim_start, delim_end))))))"

definition IsKeyExtensionVar :: "TagType \<Rightarrow> string \<Rightarrow> delims \<Rightarrow> bool" where
  "IsKeyExtensionVar type tag_start delims = (case delims of (delim_start, delim_end) \<Rightarrow>
     let behind = drop (length delim_start) tag_start
     in if type = TAG_TYPE_VAR
        then StringStartsWith tag_start delim_start \<and> take 1 behind = ''@'' \<and> StringStartsWith (drop 1 behind) delim_end
        else type = TAG_TYPE_VAR_UNESCAPED
          \<and> (StringStartsWith tag_start delim_start \<and> StringStartsWith behind ''&@'' \<and> StringStartsWith (drop 2 behind) delim_end
             \<or> delim_start = ''{{'' \<and> delim_end = ''}}'' \<and> StringStartsWith tag_start ''{{{@}}}''))"

fun ShouldIterateObject :: "nat \<Rightarrow> string \<Rightarrow> nat \<Rightarrow> delims \<Rightarrow> bool res" where
  "ShouldIterateObject 0 start input loc = Fault OutOfFuel"
| "ShouldIterateObject (Suc fuel) start input loc =
     bindE (NextTag start input (fst loc) (snd loc)) (\<lambda>tag. case tag_end tag of
       NULL \<Rightarrow> Ok False
     | Ptr stop \<Rightarrow>
         if tag_type tag \<in> {TAG_TYPE_ERR, TAG_TYPE_NONE, TAG_TYPE_SECTION, TAG_TYPE_SECTION_END} then Ok False
         else if tag_type tag \<in> {TAG_TYPE_VAR, TAG_TYPE_VAR_UNESCAPED}
         then (if IsKeyExtensionVar (tag_type tag) (drop (the (tag_begin tag)) start) loc then Ok True
               else ShouldIterateObject fuel start stop loc)
         else if tag_type tag = TAG_TYPE_DELIM
         then bindE (SetDelimiters (tag_content tag) loc) (\<lambda>(ok, loc).
              if ok then ShouldIterateObject fuel start stop loc else Ok False)
         else ShouldIterateObject fuel start stop loc)"

section \<open>Rendering\<close>

record render_state =
  r_out :: string
  r_stack :: "path ptr list"
  r_delims :: delims
  r_root :: JsonElement

text \<open>The result: success, where the section ended if it did, and the state.\<close>

type_synonym rendered = "(bool \<times> nat ptr \<times> render_state) res"

text \<open>The child with index \<open>i\<close> of the element at \<open>p\<close>: its path, and its name or number.\<close>

definition child_hash :: "JsonElement \<Rightarrow> path \<Rightarrow> nat \<Rightarrow> (path \<times> string) res" where
  "child_hash root p i = bindE (deref root p) (\<lambda>var. bindE (JsonAt var i) (\<lambda>child.
     bindE (JsonGetContainerType var) (\<lambda>t.
     if t = JSON_CONTAINER_TYPE_OBJECT
     then (case JsonElementGetPropertyName child of NULL \<Rightarrow> Fault NullDeref | Ptr name \<Rightarrow> Ok (p @ [Member name], name))
     else Ok (p @ [Item i], nat_digits i))))"

text \<open>The loop over the children, with what renders the section for one of them.\<close>

fun render_children :: "(string ptr \<Rightarrow> render_state \<Rightarrow> rendered) \<Rightarrow> path \<Rightarrow> nat \<Rightarrow> nat \<Rightarrow> nat ptr \<Rightarrow> render_state \<Rightarrow> rendered" where
  "render_children render p 0 i section_end st = Ok (True, section_end, st)"
| "render_children render p (Suc n) i section_end st =
     bindE (child_hash (r_root st) p i) (\<lambda>(q, key).
     bindE (render (Ptr key) (st\<lparr>r_stack := r_stack st @ [Ptr q]\<rparr>)) (\<lambda>(ok, ended, st).
     if \<not> ok then Ok (False, NULL, st)
     else render_children render p n (i + 1) (if ended = NULL then section_end else ended) st))"

text \<open>
  The text from \<open>input\<close> up to \<open>stop\<close>. A negative length is a huge size\_t, and the text ends at its NUL then.
\<close>

definition text_between :: "string \<Rightarrow> nat \<Rightarrow> nat \<Rightarrow> string" where
  "text_between start input stop = (if stop < input then drop input start else take (stop - input) (drop input start))"

text \<open>Text up to a tag, or up to its line when it stands alone there, and where to go on.\<close>

definition emit_text :: "string \<Rightarrow> nat \<Rightarrow> Mustache \<Rightarrow> bool \<Rightarrow> string \<Rightarrow> string \<times> nat ptr" where
  "emit_text start input tag skip_content out = (case tag_begin tag of
     NULL \<Rightarrow> (RenderContent out (drop input start) False skip_content, NULL)
   | Ptr b \<Rightarrow> (case (if IsTagTypeRenderable (tag_type tag) \<or> tag_end tag = NULL then None else IsTagStandalone start b (the (tag_end tag))) of
       None \<Rightarrow> (RenderContent out (text_between start input b) False skip_content, tag_end tag)
     | Some (first, behind) \<Rightarrow> (RenderContent out (text_between start input first) False skip_content, Ptr behind)))"

definition render_variable_tag :: "(string \<Rightarrow> string) \<Rightarrow> Mustache \<Rightarrow> string ptr \<Rightarrow> bool \<Rightarrow> render_state \<Rightarrow> (bool \<times> render_state) res" where
  "render_variable_tag float_text tag json_key skip_content st =
     (if skip_content then Ok (True, st)
      else if tag_content tag \<noteq> []
      then bindE (RenderVariable float_text (r_out st) (tag_content tag) (tag_type tag) (r_stack st) json_key (r_root st)) (\<lambda>(ok, out, root).
           Ok (ok, st\<lparr>r_out := out, r_root := root\<rparr>))
      else Ok (True, st\<lparr>r_out := r_out st @ fst (r_delims st) @ snd (r_delims st)\<rparr>))"

text \<open>What a section does with the value of its variable: render once, possibly skipping, or once per child.\<close>

datatype section_mode = Once bool | PerChild path nat bool | BadSection

definition section_mode :: "string \<Rightarrow> nat \<Rightarrow> bool \<Rightarrow> bool \<Rightarrow> path ptr \<Rightarrow> render_state \<Rightarrow> section_mode res" where
  "section_mode start input inverted skip_content var st = (case var of
     NULL \<Rightarrow> Ok (Once (skip_content \<or> \<not> inverted))
   | Ptr p \<Rightarrow> bindE (deref (r_root st) p) (\<lambda>e. case e of
       Primitive _ t _ \<Rightarrow>
         if t = JSON_PRIMITIVE_TYPE_BOOL
         then bindE (JsonPrimitiveGetAsBool e) (\<lambda>b. Ok (Once (skip_content \<or> (\<not> b) \<noteq> inverted)))
         else Ok BadSection
     | Container _ t _ \<Rightarrow>
         bindE (if t = JSON_CONTAINER_TYPE_OBJECT then ShouldIterateObject (Suc (length start)) start input (r_delims st) else Ok True) (\<lambda>iterate.
         if \<not> iterate then Ok (Once (skip_content \<or> inverted))
         else if JsonLength e > 0 then Ok (PerChild p (JsonLength e) (skip_content \<or> inverted))
         else Ok (Once (\<not> inverted)))))"

text \<open>
  What one round of the loop of Render does with a tag. \<open>render\<close> stands for Render: it goes on behind the tag
  (\<open>continue\<close>) or is called for the text of a section.
\<close>

type_synonym renderer = "nat ptr \<Rightarrow> string ptr \<Rightarrow> bool \<Rightarrow> string ptr \<Rightarrow> render_state \<Rightarrow> rendered"

definition render_body :: "renderer \<Rightarrow> nat ptr \<Rightarrow> string \<Rightarrow> section_mode \<Rightarrow> render_state \<Rightarrow> rendered" where
  "render_body render after cur_section mode st = (case mode of
     BadSection \<Rightarrow> Ok (False, NULL, st)
   | Once skip \<Rightarrow> render after NULL skip (Ptr cur_section) st
   | PerChild p n skip \<Rightarrow> render_children (\<lambda>key. render after key skip (Ptr cur_section)) p n 0 NULL st)"

definition render_section :: "renderer \<Rightarrow> string \<Rightarrow> Mustache \<Rightarrow> nat ptr \<Rightarrow> string ptr \<Rightarrow> bool \<Rightarrow> string ptr \<Rightarrow> render_state \<Rightarrow> rendered" where
  "render_section render start tag after json_key skip_content section st =
     bindE (LookupVariable (r_root st) (r_stack st) (tag_content tag)) (\<lambda>var.
     let st = st\<lparr>r_stack := r_stack st @ [var]\<rparr>
     in bindE (section_mode start (the after) (tag_type tag = TAG_TYPE_INVERTED) skip_content var st) (\<lambda>mode.
        bindE (render_body render after (tag_content tag) mode st) (\<lambda>(ok, section_end, st).
        if ok then render section_end json_key skip_content section st
        else Ok (False, NULL, st))))"

definition render_tag :: "renderer \<Rightarrow> (string \<Rightarrow> string) \<Rightarrow> string \<Rightarrow> Mustache \<Rightarrow> nat ptr \<Rightarrow> string ptr \<Rightarrow> bool \<Rightarrow> string ptr \<Rightarrow> render_state \<Rightarrow> rendered" where
  "render_tag render float_text start tag after json_key skip_content section st =
     (if tag_type tag = TAG_TYPE_ERR then Ok (False, NULL, st)
      else if tag_type tag = TAG_TYPE_DELIM
      then bindE (SetDelimiters (tag_content tag) (r_delims st)) (\<lambda>(ok, delims).
           if ok then render after json_key skip_content section (st\<lparr>r_delims := delims\<rparr>)
           else Ok (False, NULL, st\<lparr>r_delims := delims\<rparr>))
      else if tag_type tag = TAG_TYPE_COMMENT then render after json_key skip_content section st
      else if tag_type tag = TAG_TYPE_NONE then Ok (True, NULL, st)
      else if tag_type tag = TAG_TYPE_SECTION \<or> tag_type tag = TAG_TYPE_INVERTED
      then render_section render start tag after json_key skip_content section st
      else if tag_type tag = TAG_TYPE_SECTION_END
      then (if section = NULL then Ok (False, NULL, st)
            else Ok (True, after, st\<lparr>r_stack := butlast (r_stack st)\<rparr>))
      else bindE (render_variable_tag float_text tag json_key skip_content st) (\<lambda>(ok, st).
           if ok then render after json_key skip_content section st
           else Ok (False, NULL, st)))"

fun Render :: "nat \<Rightarrow> (string \<Rightarrow> string) \<Rightarrow> string \<Rightarrow> renderer" where
  "Render 0 float_text start input_ptr json_key skip_content section st = Fault OutOfFuel"
| "Render (Suc fuel) float_text start input_ptr json_key skip_content section st = (case input_ptr of
     NULL \<Rightarrow> Ok (False, NULL, st)
   | Ptr input \<Rightarrow>
     bindE (NextTag start input (fst (r_delims st)) (snd (r_delims st))) (\<lambda>tag.
     let (out, after) = emit_text start input tag skip_content (r_out st)
     in render_tag (Render fuel float_text start) float_text start tag after json_key skip_content section (st\<lparr>r_out := out\<rparr>)))"

definition MustacheRender :: "(string \<Rightarrow> string) \<Rightarrow> string \<Rightarrow> string \<Rightarrow> JsonElement \<Rightarrow> (bool \<times> string \<times> JsonElement) res" where
  "MustacheRender float_text out input hash =
     bindE (Render (Suc (Suc (length input))) float_text input (Ptr 0) NULL False NULL
       \<lparr>r_out = out, r_stack = [Ptr []], r_delims = (''{{'', ''}}''), r_root = hash\<rparr>) (\<lambda>(success, _, st).
     Ok (success, r_out st, r_root st))"

end
