(* ===== verification/JsonParser.thy ===== *)
theory JsonParser
  imports JsonText
begin

text \<open>
  The JSON parser of libutils/json.c. The argument \<open>const char **data\<close> is the text from the pointer to its
  terminating NUL; a parser leaves it at the last character it used, and the caller steps past it.
  Stepping past the NUL is a fault. A parser returns the error code, the element and the rest of the
  text. The lookup function of JsonParseWithLookup is a parameter: it reads at the pointer, may move it
  and may return an element.
\<close>

section \<open>Characters and error codes\<close>

datatype JsonParseError =
    JSON_PARSE_OK
  | JSON_PARSE_ERROR_STRING_NO_DOUBLEQUOTE_START
  | JSON_PARSE_ERROR_STRING_NO_DOUBLEQUOTE_END
  | JSON_PARSE_ERROR_NUMBER_EXPONENT_NEGATIVE
  | JSON_PARSE_ERROR_NUMBER_EXPONENT_POSITIVE
  | JSON_PARSE_ERROR_NUMBER_DUPLICATE_ZERO
  | JSON_PARSE_ERROR_NUMBER_NO_DIGIT
  | JSON_PARSE_ERROR_NUMBER_MULTIPLE_DOTS
  | JSON_PARSE_ERROR_NUMBER_EXPONENT_DUPLICATE
  | JSON_PARSE_ERROR_NUMBER_EXPONENT_DIGIT
  | JSON_PARSE_ERROR_NUMBER_EXPONENT_FOLLOW_LEADING_ZERO
  | JSON_PARSE_ERROR_NUMBER_BAD_SYMBOL
  | JSON_PARSE_ERROR_NUMBER_DIGIT_END
  | JSON_PARSE_ERROR_ARRAY_START
  | JSON_PARSE_ERROR_ARRAY_END
  | JSON_PARSE_ERROR_ARRAY_COMMA
  | JSON_PARSE_ERROR_OBJECT_BAD_SYMBOL
  | JSON_PARSE_ERROR_OBJECT_START
  | JSON_PARSE_ERROR_OBJECT_END
  | JSON_PARSE_ERROR_OBJECT_COLON
  | JSON_PARSE_ERROR_OBJECT_COMMA
  | JSON_PARSE_ERROR_OBJECT_COMMA_MISSING
  | JSON_PARSE_ERROR_OBJECT_ARRAY_LVAL
  | JSON_PARSE_ERROR_OBJECT_OBJECT_LVAL
  | JSON_PARSE_ERROR_OBJECT_OPEN_LVAL
  | JSON_PARSE_ERROR_INVALID_START
  | JSON_PARSE_ERROR_INVALID_END
  | JSON_PARSE_ERROR_NO_LIBYAML
  | JSON_PARSE_ERROR_LIBYAML_FAILURE
  | JSON_PARSE_ERROR_NO_SUCH_FILE
  | JSON_PARSE_ERROR_NO_DATA
  | JSON_PARSE_ERROR_TRUNCATED

text \<open>A character in single quotes, and the messages.\<close>

definition quoted :: "char \<Rightarrow> string" where
  "quoted c = [CHR 0x27, c, CHR 0x27]"

definition JsonParseErrorToString :: "JsonParseError \<Rightarrow> string" where
  "JsonParseErrorToString err = (case err of
     JSON_PARSE_OK \<Rightarrow> ''Success''
   | JSON_PARSE_ERROR_STRING_NO_DOUBLEQUOTE_START \<Rightarrow> ''Unable to parse json data as string, did not start with doublequote''
   | JSON_PARSE_ERROR_STRING_NO_DOUBLEQUOTE_END \<Rightarrow> ''Unable to parse json data as string, did not end with doublequote''
   | JSON_PARSE_ERROR_NUMBER_EXPONENT_NEGATIVE \<Rightarrow> ''Unable to parse json data as number, - not at the start or not after exponent''
   | JSON_PARSE_ERROR_NUMBER_EXPONENT_POSITIVE \<Rightarrow> ''Unable to parse json data as number, + without preceding exponent''
   | JSON_PARSE_ERROR_NUMBER_DUPLICATE_ZERO \<Rightarrow> ''Unable to parse json data as number, started with 0 before dot or exponent, duplicate 0 seen''
   | JSON_PARSE_ERROR_NUMBER_NO_DIGIT \<Rightarrow> ''Unable to parse json data as number, dot not preceded by digit''
   | JSON_PARSE_ERROR_NUMBER_MULTIPLE_DOTS \<Rightarrow> ''Unable to parse json data as number, two or more dots (decimal points)''
   | JSON_PARSE_ERROR_NUMBER_EXPONENT_DUPLICATE \<Rightarrow> ''Unable to parse json data as number, duplicate exponent''
   | JSON_PARSE_ERROR_NUMBER_EXPONENT_DIGIT \<Rightarrow> ''Unable to parse json data as number, exponent without preceding digit''
   | JSON_PARSE_ERROR_NUMBER_EXPONENT_FOLLOW_LEADING_ZERO \<Rightarrow> ''Unable to parse json data as number, dot or exponent must follow leading 0''
   | JSON_PARSE_ERROR_NUMBER_BAD_SYMBOL \<Rightarrow> ''Unable to parse json data as number, invalid symbol''
   | JSON_PARSE_ERROR_NUMBER_DIGIT_END \<Rightarrow> ''Unable to parse json data as string, did not end with digit''
   | JSON_PARSE_ERROR_ARRAY_START \<Rightarrow> ''Unable to parse json data as array, did not start with '' @ quoted (CHR ''['')
   | JSON_PARSE_ERROR_ARRAY_END \<Rightarrow> ''Unable to parse json data as array, did not end with '' @ quoted (CHR '']'')
   | JSON_PARSE_ERROR_ARRAY_COMMA \<Rightarrow> ''Unable to parse json data as array, extraneous commas''
   | JSON_PARSE_ERROR_OBJECT_BAD_SYMBOL \<Rightarrow> ''Unable to parse json data as object, unrecognized token beginning entry''
   | JSON_PARSE_ERROR_OBJECT_START \<Rightarrow> ''Unable to parse json data as object, did not start with '' @ quoted (CHR ''{'')
   | JSON_PARSE_ERROR_OBJECT_END \<Rightarrow> ''Unable to parse json data as string, did not end with '' @ quoted (CHR ''}'')
   | JSON_PARSE_ERROR_OBJECT_COLON \<Rightarrow> ''Unable to parse json data as object, '' @ quoted (CHR '':'') @ '' seen without having specified an l-value''
   | JSON_PARSE_ERROR_OBJECT_COMMA \<Rightarrow> ''Unable to parse json data as object, '' @ quoted (CHR '','') @ '' seen without having specified an r-value''
   | JSON_PARSE_ERROR_OBJECT_COMMA_MISSING \<Rightarrow> ''Unable to parse json data as object, new key started without preceding '' @ quoted (CHR '','')
   | JSON_PARSE_ERROR_OBJECT_ARRAY_LVAL \<Rightarrow> ''Unable to parse json data as object, array not allowed as l-value''
   | JSON_PARSE_ERROR_OBJECT_OBJECT_LVAL \<Rightarrow> ''Unable to parse json data as object, object not allowed as l-value''
   | JSON_PARSE_ERROR_OBJECT_OPEN_LVAL \<Rightarrow> ''Unable to parse json data as object, tried to close object having opened an l-value''
   | JSON_PARSE_ERROR_INVALID_START \<Rightarrow> ''Unwilling to parse json data starting with invalid character''
   | JSON_PARSE_ERROR_INVALID_END \<Rightarrow> ''Unwilling to parse json data with trailing non-whitespace characters''
   | JSON_PARSE_ERROR_TRUNCATED \<Rightarrow> ''Unable to parse JSON without truncating''
   | JSON_PARSE_ERROR_NO_LIBYAML \<Rightarrow> ''CFEngine was not built with libyaml support''
   | JSON_PARSE_ERROR_LIBYAML_FAILURE \<Rightarrow> ''libyaml internal failure''
   | JSON_PARSE_ERROR_NO_SUCH_FILE \<Rightarrow> ''No such file or directory''
   | JSON_PARSE_ERROR_NO_DATA \<Rightarrow> ''No data'')"

definition IsWhitespace :: "char \<Rightarrow> bool" where
  "IsWhitespace ch \<longleftrightarrow> ch = CHR '' '' \<or> ch = CHR 0x09 \<or> ch = CHR 0x0A \<or> ch = CHR 0x0D"

definition IsSeparator :: "char \<Rightarrow> bool" where
  "IsSeparator ch \<longleftrightarrow> IsWhitespace ch \<or> ch = CHR '','' \<or> ch = CHR '']'' \<or> ch = CHR ''}''"

text \<open>The digits 1 to 9.\<close>

definition IsDigit :: "char \<Rightarrow> bool" where
  "IsDigit ch \<longleftrightarrow> 49 \<le> (of_char ch :: nat) \<and> (of_char ch :: nat) \<le> 57"

definition starts_number :: "char \<Rightarrow> bool" where
  "starts_number ch \<longleftrightarrow> ch = CHR ''-'' \<or> ch = CHR ''0'' \<or> IsDigit ch"

type_synonym 'a parsed = "(JsonParseError \<times> 'a ptr \<times> string) res"

section \<open>Strings\<close>

text \<open>
  A backslash right before the terminating NUL is kept, the NUL is written behind it, and the loop goes
  on behind the NUL.
\<close>

fun JsonParseAsString_loop :: "string \<Rightarrow> string \<Rightarrow> string parsed" where
  "JsonParseAsString_loop [] out = Ok (JSON_PARSE_ERROR_STRING_NO_DOUBLEQUOTE_END, NULL, [])"
| "JsonParseAsString_loop (c # data) out =
     (if c = quote then Ok (JSON_PARSE_OK, Ptr out, c # data)
      else if c = backslash
      then (case data of
          [] \<Rightarrow> Fault OutOfBounds
        | d # rest \<Rightarrow>
            if d = backslash \<or> d = quote \<or> d = CHR ''/'' then JsonParseAsString_loop rest (out @ [d])
            else if d = CHR ''b'' then JsonParseAsString_loop rest (out @ [CHR 0x08])
            else if d = CHR ''f'' then JsonParseAsString_loop rest (out @ [CHR 0x0C])
            else if d = CHR ''n'' then JsonParseAsString_loop rest (out @ [CHR 0x0A])
            else if d = CHR ''r'' then JsonParseAsString_loop rest (out @ [CHR 0x0D])
            else if d = CHR ''t'' then JsonParseAsString_loop rest (out @ [CHR 0x09])
            else JsonParseAsString_loop rest (out @ [backslash, d]))
      else JsonParseAsString_loop data (out @ [c]))"

definition JsonParseAsString :: "string \<Rightarrow> string parsed" where
  "JsonParseAsString data = (case data of
     c # rest \<Rightarrow> if c = quote then JsonParseAsString_loop rest [] else Ok (JSON_PARSE_ERROR_STRING_NO_DOUBLEQUOTE_START, NULL, data)
   | [] \<Rightarrow> Ok (JSON_PARSE_ERROR_STRING_NO_DOUBLEQUOTE_START, NULL, data))"

section \<open>Numbers\<close>

text \<open>Behind a number the pointer is moved back onto its last character, which is \<open>prev_char\<close>.\<close>

definition number_end :: "bool \<Rightarrow> char \<Rightarrow> string \<Rightarrow> string \<Rightarrow> JsonElement parsed" where
  "number_end seen_dot prev_char out data =
     (if prev_char \<noteq> CHR ''0'' \<and> \<not> IsDigit prev_char then Ok (JSON_PARSE_ERROR_NUMBER_DIGIT_END, NULL, data)
      else Ok (JSON_PARSE_OK,
        Ptr (JsonElementCreatePrimitive (if seen_dot then JSON_PRIMITIVE_TYPE_REAL else JSON_PRIMITIVE_TYPE_INTEGER) out),
        prev_char # data))"

text \<open>One character of a number: an error, or the new values of the three flags.\<close>

definition number_char :: "bool \<Rightarrow> bool \<Rightarrow> bool \<Rightarrow> char \<Rightarrow> char \<Rightarrow> JsonParseError + bool \<times> bool \<times> bool" where
  "number_char zero_started seen_dot seen_exponent prev_char c =
     (if c = CHR ''-''
      then if prev_char \<noteq> CHR 0x00 \<and> prev_char \<noteq> CHR ''e'' \<and> prev_char \<noteq> CHR ''E''
           then Inl JSON_PARSE_ERROR_NUMBER_EXPONENT_NEGATIVE else Inr (zero_started, seen_dot, seen_exponent)
      else if c = CHR ''+''
      then if prev_char \<noteq> CHR ''e'' \<and> prev_char \<noteq> CHR ''E''
           then Inl JSON_PARSE_ERROR_NUMBER_EXPONENT_POSITIVE else Inr (zero_started, seen_dot, seen_exponent)
      else if c = CHR ''0''
      then if zero_started \<and> \<not> seen_dot \<and> \<not> seen_exponent then Inl JSON_PARSE_ERROR_NUMBER_DUPLICATE_ZERO
           else Inr (if prev_char = CHR 0x00 then True else zero_started, seen_dot, seen_exponent)
      else if c = CHR ''.''
      then if seen_dot then Inl JSON_PARSE_ERROR_NUMBER_MULTIPLE_DOTS
           else if prev_char \<noteq> CHR ''0'' \<and> \<not> IsDigit prev_char then Inl JSON_PARSE_ERROR_NUMBER_NO_DIGIT
           else Inr (zero_started, True, seen_exponent)
      else if c = CHR ''e'' \<or> c = CHR ''E''
      then if seen_exponent then Inl JSON_PARSE_ERROR_NUMBER_EXPONENT_DUPLICATE
           else if \<not> IsDigit prev_char \<and> prev_char \<noteq> CHR ''0'' then Inl JSON_PARSE_ERROR_NUMBER_EXPONENT_DIGIT
           else Inr (zero_started, seen_dot, True)
      else if zero_started \<and> \<not> seen_dot \<and> \<not> seen_exponent then Inl JSON_PARSE_ERROR_NUMBER_EXPONENT_FOLLOW_LEADING_ZERO
      else if \<not> IsDigit c then Inl JSON_PARSE_ERROR_NUMBER_BAD_SYMBOL
      else Inr (zero_started, seen_dot, seen_exponent))"

fun JsonParseAsNumber_loop :: "string \<Rightarrow> bool \<times> bool \<times> bool \<Rightarrow> char \<Rightarrow> string \<Rightarrow> JsonElement parsed" where
  "JsonParseAsNumber_loop [] (zero_started, seen_dot, seen_exponent) prev_char out = number_end seen_dot prev_char out []"
| "JsonParseAsNumber_loop (c # data) (zero_started, seen_dot, seen_exponent) prev_char out =
     (if IsSeparator c then number_end seen_dot prev_char out (c # data)
      else case number_char zero_started seen_dot seen_exponent prev_char c of
        Inl err \<Rightarrow> Ok (err, NULL, c # data)
      | Inr flags \<Rightarrow> JsonParseAsNumber_loop data flags c (out @ [c]))"

definition JsonParseAsNumber :: "string \<Rightarrow> JsonElement parsed" where
  "JsonParseAsNumber data = JsonParseAsNumber_loop data (False, False, False) (CHR 0x00) []"

section \<open>Words\<close>

text \<open>The element, with the pointer on the last character of the word, or nothing.\<close>

definition parse_word :: "string \<Rightarrow> JsonElement \<Rightarrow> string \<Rightarrow> (JsonElement \<times> string) option" where
  "parse_word word element data =
     (let rest = drop (length word) data
      in if StringStartsWith data word \<and> (rest = [] \<or> IsSeparator (hd rest))
         then Some (element, drop (length word - 1) data) else None)"

definition JsonParseAsBoolean :: "string \<Rightarrow> (JsonElement \<times> string) option" where
  "JsonParseAsBoolean data =
     (if StringStartsWith data ''true'' then parse_word ''true'' (JsonBoolCreate True) data
      else if StringStartsWith data ''false'' then parse_word ''false'' (JsonBoolCreate False) data
      else None)"

definition JsonParseAsNull :: "string \<Rightarrow> (JsonElement \<times> string) option" where
  "JsonParseAsNull data = parse_word ''null'' JsonNullCreate data"

definition JsonParseAsPrimitive :: "string \<Rightarrow> JsonElement parsed" where
  "JsonParseAsPrimitive data = (case data of
     [] \<Rightarrow> Ok (JSON_PARSE_ERROR_OBJECT_BAD_SYMBOL, NULL, data)
   | c # _ \<Rightarrow>
       if c = quote
       then bindE (JsonParseAsString data) (\<lambda>(err, value, data'). case value of
              NULL \<Rightarrow> Ok (err, NULL, data')
            | Ptr v \<Rightarrow> Ok (JSON_PARSE_OK, Ptr (JsonElementCreatePrimitive JSON_PRIMITIVE_TYPE_STRING (JsonDecodeString v)), data'))
       else if starts_number c then JsonParseAsNumber data
       else (case JsonParseAsBoolean data of
           Some (b, data') \<Rightarrow> Ok (JSON_PARSE_OK, Ptr b, data')
         | None \<Rightarrow> (case JsonParseAsNull data of
             Some (n, data') \<Rightarrow> Ok (JSON_PARSE_OK, Ptr n, data')
           | None \<Rightarrow> Ok (JSON_PARSE_ERROR_OBJECT_BAD_SYMBOL, NULL, data))))"

section \<open>Arrays and objects\<close>

definition wc :: "char \<Rightarrow> bool" where
  "wc c \<longleftrightarrow> isalnum c \<or> c = CHR ''_''"

text \<open>The number of characters before the colon.\<close>

definition unquoted_key_with_colon :: "string \<Rightarrow> nat option" where
  "unquoted_key_with_colon data = (case data of
     [] \<Rightarrow> None
   | c # rest \<Rightarrow>
       if \<not> wc c then None
       else let i = 1 + length (takeWhile (\<lambda>d. d = CHR ''-'' \<or> wc d) rest);
                j = i + length (takeWhile IsWhitespace (drop i data))
            in if j < length data \<and> data ! j = CHR '':'' then Some j else None)"

definition key_before :: "nat \<Rightarrow> string \<Rightarrow> string" where
  "key_before j data = rev (dropWhile IsWhitespace (rev (take j data)))"

type_synonym JsonLookup = "string \<Rightarrow> JsonElement ptr \<times> string"

definition DEFAULT_CONTAINER_CAPACITY :: nat where "DEFAULT_CONTAINER_CAPACITY = 64"

text \<open>A value that is neither a string nor a container, in an array or behind a key.\<close>

definition parse_plain :: "JsonLookup ptr \<Rightarrow> string \<Rightarrow> JsonElement parsed" where
  "parse_plain lookup data =
     (if data \<noteq> [] \<and> starts_number (hd data) then JsonParseAsNumber data
      else case JsonParseAsBoolean data of
        Some (b, data') \<Rightarrow> Ok (JSON_PARSE_OK, Ptr b, data')
      | None \<Rightarrow> (case JsonParseAsNull data of
          Some (n, data') \<Rightarrow> Ok (JSON_PARSE_OK, Ptr n, data')
        | None \<Rightarrow> (case lookup of
            NULL \<Rightarrow> Ok (JSON_PARSE_ERROR_OBJECT_BAD_SYMBOL, NULL, data)
          | Ptr f \<Rightarrow> (case f data of
              (Ptr e, data') \<Rightarrow> Ok (JSON_PARSE_OK, Ptr e, data')
            | (NULL, data') \<Rightarrow> Ok (JSON_PARSE_ERROR_OBJECT_BAD_SYMBOL, NULL, data')))))"

definition parse_string_element :: "string \<Rightarrow> JsonElement parsed" where
  "parse_string_element data =
     bindE (JsonParseAsString data) (\<lambda>(err, value, data').
     Ok (err, map_option (\<lambda>v. JsonElementCreatePrimitive JSON_PRIMITIVE_TYPE_STRING (JsonDecodeString v)) value, data'))"

text \<open>Stepping past the last character used.\<close>

definition step_past :: "string \<Rightarrow> (char \<times> string) res" where
  "step_past data = (case data of [] \<Rightarrow> Fault OutOfBounds | p # rest \<Rightarrow> Ok (p, rest))"

text \<open>What the loops do with a character, before they parse a value: skip it, go on, stop, or a value starts.\<close>

datatype json_action = Skip | Advance | Close | Reject JsonParseError | Key | BareKey | Item

definition array_action :: "char \<Rightarrow> char \<Rightarrow> json_action" where
  "array_action prev_char c =
     (if IsWhitespace c then Skip
      else if c = CHR '','' then if prev_char = CHR '','' \<or> prev_char = CHR ''['' then Reject JSON_PARSE_ERROR_ARRAY_COMMA else Advance
      else if c = CHR '']'' then Close
      else if (c = CHR ''['' \<or> c = CHR ''{'') \<and> prev_char \<noteq> CHR ''['' \<and> prev_char \<noteq> CHR '',''
      then Reject JSON_PARSE_ERROR_ARRAY_START
      else Item)"

definition object_action :: "bool \<Rightarrow> char \<Rightarrow> char \<Rightarrow> json_action" where
  "object_action has_name prev_char c =
     (if IsWhitespace c then Skip
      else if c = CHR '':''
      then if \<not> has_name \<or> prev_char = CHR '':'' \<or> prev_char = CHR '','' then Reject JSON_PARSE_ERROR_OBJECT_COLON else Advance
      else if c = CHR '',''
      then if has_name \<or> prev_char = CHR '':'' \<or> prev_char = CHR '','' then Reject JSON_PARSE_ERROR_OBJECT_COMMA else Advance
      else if c = CHR ''}'' then if has_name then Reject JSON_PARSE_ERROR_OBJECT_OPEN_LVAL else Close
      else if has_name then Item
      else if c = quote
      then if prev_char \<noteq> CHR ''{'' \<and> prev_char \<noteq> CHR '','' then Reject JSON_PARSE_ERROR_OBJECT_COMMA_MISSING else Key
      else if c = CHR ''['' then Reject JSON_PARSE_ERROR_OBJECT_ARRAY_LVAL
      else if c = CHR ''{'' then Reject JSON_PARSE_ERROR_OBJECT_OBJECT_LVAL
      else BareKey)"

text \<open>
  The loops of JsonParseAsArray and JsonParseAsObject, mutually recursive through the value they parse.
  The fuel is spent on every character looked at and on every value; twice the length of the text is
  enough.
\<close>

fun parse_value :: "nat \<Rightarrow> JsonLookup ptr \<Rightarrow> string \<Rightarrow> JsonElement parsed"
  and JsonParseAsArray_loop :: "nat \<Rightarrow> JsonLookup ptr \<Rightarrow> string \<Rightarrow> JsonElement \<Rightarrow> char \<Rightarrow> JsonElement parsed"
  and JsonParseAsObject_loop :: "nat \<Rightarrow> JsonLookup ptr \<Rightarrow> string \<Rightarrow> JsonElement \<Rightarrow> string ptr \<Rightarrow> char \<Rightarrow> JsonElement parsed" where
  "parse_value 0 lookup data = Fault OutOfFuel"
| "parse_value (Suc fuel) lookup data =
     bindE (step_past data) (\<lambda>(c, rest).
     if c = quote then parse_string_element data
     else if c = CHR ''['' then JsonParseAsArray_loop fuel lookup rest (JsonArrayCreate DEFAULT_CONTAINER_CAPACITY) (CHR ''['')
     else if c = CHR ''{'' then JsonParseAsObject_loop fuel lookup rest (JsonObjectCreate DEFAULT_CONTAINER_CAPACITY) NULL (CHR ''{'')
     else parse_plain lookup data)"
| "JsonParseAsArray_loop 0 lookup data array prev_char = Fault OutOfFuel"
| "JsonParseAsArray_loop (Suc fuel) lookup data array prev_char =
     (if data = [] then Ok (JSON_PARSE_ERROR_ARRAY_END, NULL, data)
      else case array_action prev_char (hd data) of
        Skip \<Rightarrow> JsonParseAsArray_loop fuel lookup (tl data) array prev_char
      | Advance \<Rightarrow> JsonParseAsArray_loop fuel lookup (tl data) array (hd data)
      | Close \<Rightarrow> Ok (JSON_PARSE_OK, Ptr array, data)
      | Reject err \<Rightarrow> Ok (err, NULL, data)
      | _ \<Rightarrow>
          bindE (parse_value fuel lookup data) (\<lambda>(err, child, data').
          if child = NULL then Ok (err, NULL, data')
          else bindE (JsonArrayAppendElement array (the child)) (\<lambda>array'.
               bindE (step_past data') (\<lambda>(p, rest). JsonParseAsArray_loop fuel lookup rest array' p))))"
| "JsonParseAsObject_loop 0 lookup data object property_name prev_char = Fault OutOfFuel"
| "JsonParseAsObject_loop (Suc fuel) lookup data object property_name prev_char =
     (if data = [] then Ok (JSON_PARSE_ERROR_OBJECT_END, NULL, data)
      else case object_action (property_name \<noteq> NULL) prev_char (hd data) of
        Skip \<Rightarrow> JsonParseAsObject_loop fuel lookup (tl data) object property_name prev_char
      | Advance \<Rightarrow> JsonParseAsObject_loop fuel lookup (tl data) object property_name (hd data)
      | Close \<Rightarrow> Ok (JSON_PARSE_OK, Ptr object, data)
      | Reject err \<Rightarrow> Ok (err, NULL, data)
      | Key \<Rightarrow>
          bindE (JsonParseAsString data) (\<lambda>(err, name, data').
          if name = NULL then Ok (err, NULL, data')
          else bindE (step_past data') (\<lambda>(p, rest). JsonParseAsObject_loop fuel lookup rest object name p))
      | BareKey \<Rightarrow>
          (case unquoted_key_with_colon data of
             None \<Rightarrow> Ok (JSON_PARSE_ERROR_OBJECT_BAD_SYMBOL, NULL, data)
           | Some j \<Rightarrow> JsonParseAsObject_loop fuel lookup (drop (Suc j) data) object (Ptr (key_before j data)) (CHR '':''))
      | Item \<Rightarrow>
          bindE (parse_value fuel lookup data) (\<lambda>(err, child, data').
          if child = NULL then Ok (err, NULL, data')
          else bindE (JsonObjectAppendElement object (the property_name) (the child)) (\<lambda>object'.
               bindE (step_past data') (\<lambda>(p, rest). JsonParseAsObject_loop fuel lookup rest object' NULL p))))"

text \<open>The functions check the bracket the loops start behind.\<close>

definition JsonParseAsArray :: "nat \<Rightarrow> JsonLookup ptr \<Rightarrow> string \<Rightarrow> JsonElement parsed" where
  "JsonParseAsArray fuel lookup data =
     (if data \<noteq> [] \<and> hd data = CHR ''[''
      then JsonParseAsArray_loop fuel lookup (tl data) (JsonArrayCreate DEFAULT_CONTAINER_CAPACITY) (CHR ''['')
      else Ok (JSON_PARSE_ERROR_ARRAY_START, NULL, data))"

definition JsonParseAsObject :: "nat \<Rightarrow> JsonLookup ptr \<Rightarrow> string \<Rightarrow> JsonElement parsed" where
  "JsonParseAsObject fuel lookup data =
     (if data \<noteq> [] \<and> hd data = CHR ''{''
      then JsonParseAsObject_loop fuel lookup (tl data) (JsonObjectCreate DEFAULT_CONTAINER_CAPACITY) NULL (CHR ''{'')
      else Ok (JSON_PARSE_ERROR_ARRAY_START, NULL, data))"

section \<open>Entry points\<close>

fun JsonParseWithLookup_loop :: "JsonLookup ptr \<Rightarrow> nat \<Rightarrow> string \<Rightarrow> JsonElement parsed" where
  "JsonParseWithLookup_loop lookup fuel [] = Ok (JSON_PARSE_ERROR_NO_DATA, NULL, [])"
| "JsonParseWithLookup_loop lookup fuel (c # data) =
     (if c = CHR ''{'' then JsonParseAsObject fuel lookup (c # data)
      else if c = CHR ''['' then JsonParseAsArray fuel lookup (c # data)
      else if IsWhitespace c then JsonParseWithLookup_loop lookup fuel data
      else JsonParseAsPrimitive (c # data))"

definition JsonParseWithLookup :: "JsonLookup ptr \<Rightarrow> string ptr \<Rightarrow> JsonElement parsed" where
  "JsonParseWithLookup lookup data = (case data of
     NULL \<Rightarrow> Fault AssertFail
   | Ptr s \<Rightarrow> JsonParseWithLookup_loop lookup (2 * length s + 2) s)"

definition JsonParse :: "string ptr \<Rightarrow> JsonElement parsed" where
  "JsonParse data = JsonParseWithLookup NULL data"

definition JsonParseAll :: "string ptr \<Rightarrow> JsonElement parsed" where
  "JsonParseAll data =
     bindE (JsonParseWithLookup NULL data) (\<lambda>(err, json, data').
     if err = JSON_PARSE_OK \<and> data' \<noteq> [] \<and> \<not> list_all isspace (tl data')
     then Ok (JSON_PARSE_ERROR_INVALID_END, NULL, data')
     else Ok (err, json, data'))"

end
