(* ===== verification/JsonTotal.thy ===== *)
theory JsonTotal
  imports JsonParser "HOL-Library.Sublist"
begin

text \<open>
  What the parser guarantees for every text: it returns, it never moves the pointer back before the
  start, and the element it returns is well formed. The one exception is a text whose last character is
  a backslash inside a string.
\<close>

section \<open>Well-formed elements\<close>

text \<open>
  The texts of numbers, with or without a fraction and an exponent: a sign, digits, and behind the digits at most
  one fraction and at most one exponent. (JSON has the fraction before the exponent and no leading zeros.)
\<close>

definition digit_run :: "string \<Rightarrow> bool" where
  "digit_run ds \<longleftrightarrow> ds \<noteq> [] \<and> list_all isdigit ds"

inductive number_form :: "bool \<Rightarrow> bool \<Rightarrow> string \<Rightarrow> bool" where
  whole: "s \<in> {[], ''-''} \<Longrightarrow> digit_run ds \<Longrightarrow> number_form False False (s @ ds)"
| fraction: "number_form False e v \<Longrightarrow> digit_run ds \<Longrightarrow> number_form True e (v @ CHR ''.'' # ds)"
| exponent: "number_form d False v \<Longrightarrow> c \<in> {CHR ''e'', CHR ''E''} \<Longrightarrow> s \<in> {[], ''-'', ''+''} \<Longrightarrow> digit_run ds \<Longrightarrow>
    number_form d True (v @ c # s @ ds)"

lemma digit_run_dot: "digit_run ds \<Longrightarrow> CHR ''.'' \<notin> set ds"
  by (auto simp: digit_run_def list_all_iff isdigit_def)

lemma number_form_dot: "number_form d e v \<Longrightarrow> CHR ''.'' \<in> set v \<longleftrightarrow> d"
  by (induction rule: number_form.induct) (auto dest: digit_run_dot)

lemma number_form_digit: "number_form d e v \<Longrightarrow> isdigit c \<Longrightarrow> number_form d e (v @ [c])"
proof (induction rule: number_form.cases)
  case (whole s ds)
  then show ?thesis using number_form.whole [of s "ds @ [c]"] by (simp add: digit_run_def)
next
  case (fraction e' v' ds)
  then show ?thesis using number_form.fraction [of e' v' "ds @ [c]"] by (simp add: digit_run_def)
next
  case (exponent d' v' x s ds)
  then show ?thesis using number_form.exponent [of d' v' x s "ds @ [c]"] by (simp add: digit_run_def)
qed

definition primitive_ok :: "JsonPrimitiveType \<Rightarrow> string \<Rightarrow> bool" where
  "primitive_ok t v \<longleftrightarrow>
     (t = JSON_PRIMITIVE_TYPE_BOOL \<longrightarrow> v = JSON_TRUE \<or> v = JSON_FALSE)
     \<and> (t = JSON_PRIMITIVE_TYPE_NULL \<longrightarrow> v = JSON_NULL)
     \<and> (t = JSON_PRIMITIVE_TYPE_INTEGER \<longrightarrow> (\<exists>exponent. number_form False exponent v))
     \<and> (t = JSON_PRIMITIVE_TYPE_REAL \<longrightarrow> (\<exists>exponent. number_form True exponent v))"

text \<open>The children of an object have names, all different; those of an array have none.\<close>

fun json_wf :: "JsonElement \<Rightarrow> bool" where
  "json_wf (Primitive name t v) \<longleftrightarrow> primitive_ok t v"
| "json_wf (Container name t cs) \<longleftrightarrow> list_all json_wf cs
     \<and> (if t = JSON_CONTAINER_TYPE_OBJECT then NULL \<notin> set (map propertyName cs) \<and> distinct (map propertyName cs)
        else set (map propertyName cs) \<subseteq> {NULL})"

lemma json_wf_name [simp]: "json_wf (JsonElementSetPropertyName e name) = json_wf e"
  by (cases e) auto

lemma propertyName_set [simp]: "propertyName (JsonElementSetPropertyName e name) = name"
  by (cases e) auto

section \<open>Objects as finite maps\<close>

lemma sign_zero_iff: "x div \<bar>x\<bar> = 0 \<longleftrightarrow> x = (0::int)"
  by (cases "0::int" x rule: linorder_cases) (auto simp: div_eq_0_iff zdiv_eq_0_iff)

lemma StringSafeCompare_name: "\<exists>r. StringSafeCompare (Ptr key) name = Ok r \<and> (r = 0 \<longleftrightarrow> name = Ptr key)"
  by (cases name) (auto simp: strcmp_eq_0_iff StringSafeCompare_def NullCompare_def Let_def sign_zero_iff)

fun remove_named :: "string \<Rightarrow> JsonElement list \<Rightarrow> JsonElement list" where
  "remove_named key [] = []"
| "remove_named key (c # cs) = (if propertyName c = Ptr key then cs else c # remove_named key cs)"

lemma index_of_key_found:
  "Ptr key \<in> set (map propertyName cs) \<Longrightarrow>
   \<exists>j. index_of_key key cs i = Ok (int (i + j)) \<and> take j cs @ drop (Suc j) cs = remove_named key cs"
proof (induction cs arbitrary: i)
  case (Cons c cs)
  from StringSafeCompare_name [of key "propertyName c"] obtain r where
    r: "StringSafeCompare (Ptr key) (propertyName c) = Ok r" "r = 0 \<longleftrightarrow> propertyName c = Ptr key" by blast
  show ?case
  proof (cases "propertyName c = Ptr key")
    case True
    then show ?thesis using r by (intro exI [of _ 0]) simp
  next
    case False
    then obtain j where "index_of_key key cs (Suc i) = Ok (int (Suc i + j))" "take j cs @ drop (Suc j) cs = remove_named key cs"
      using Cons.IH [of "Suc i"] Cons.prems by auto
    then show ?thesis using r False by (intro exI [of _ "Suc j"]) simp
  qed
qed simp

lemma index_of_key_missing: "Ptr key \<notin> set (map propertyName cs) \<Longrightarrow> index_of_key key cs i = Ok (- 1)"
proof (induction cs arbitrary: i)
  case (Cons c cs)
  then show ?case using StringSafeCompare_name [of key "propertyName c"] by auto
qed simp

lemma remove_named_missing [simp]: "Ptr key \<notin> set (map propertyName cs) \<Longrightarrow> remove_named key cs = cs"
  by (induction cs) auto

lemma remove_named_set: "set (remove_named key cs) \<subseteq> set cs"
  by (induction cs) auto

lemma remove_named_names: "map propertyName (remove_named key cs) = remove1 (Ptr key) (map propertyName cs)"
  by (induction cs) auto

lemma JsonObjectRemoveKey_eq:
  "JsonObjectRemoveKey (JObject name cs) key
     = Ok (Ptr key \<in> set (map propertyName cs), JObject name (remove_named key cs))"
proof (cases "Ptr key \<in> set (map propertyName cs)")
  case True
  from index_of_key_found [OF True, of 0] obtain j where
    "index_of_key key cs 0 = Ok (int j)" "take j cs @ drop (Suc j) cs = remove_named key cs" by auto
  then show ?thesis using True
    by (simp add: JsonObjectRemoveKey_def JsonElementIndexInParentObject_def with_children_def)
next
  case False
  then show ?thesis using index_of_key_missing [OF False]
    by (simp add: JsonObjectRemoveKey_def JsonElementIndexInParentObject_def)
qed

lemma JsonObjectAppendElement_eq:
  "JsonObjectAppendElement (JObject name cs) key e
     = Ok (JObject name (remove_named key cs @ [JsonElementSetPropertyName e (Ptr key)]))"
  by (simp add: JsonObjectAppendElement_def JsonObjectRemoveKey_eq with_children_def)

lemma JsonArrayAppendElement_eq: "JsonArrayAppendElement (JArray name cs) e = Ok (JArray name (cs @ [e]))"
  by (simp add: JsonArrayAppendElement_def with_children_def)

lemma lookup_key_eq:
  "NULL \<notin> set (map propertyName cs) \<Longrightarrow>
   lookup_key key cs = Ok (map_of (map (\<lambda>c. (propertyName c, c)) cs) (Ptr key))"
  by (induction cs) (auto simp: StringEqual_iff split: option.split)

lemma wf_object_append:
  assumes "json_wf (JObject name cs)" "json_wf e"
  shows "json_wf (JObject name (remove_named key cs @ [JsonElementSetPropertyName e (Ptr key)]))"
proof -
  have "Ptr key \<notin> set (map propertyName (remove_named key cs))" "distinct (map propertyName (remove_named key cs))"
    using assms(1) by (auto simp: remove_named_names)
  moreover have "NULL \<notin> set (map propertyName (remove_named key cs))" "list_all json_wf (remove_named key cs)"
    using assms(1) remove_named_set [of key cs] by (auto simp: list_all_iff)
  ultimately show ?thesis using assms(2) by simp
qed

section \<open>The parser returns\<close>

definition safe_end :: "string \<Rightarrow> bool" where
  "safe_end s \<longleftrightarrow> s = [] \<or> last s \<noteq> backslash"

lemma safe_end_suffix: "suffix t s \<Longrightarrow> safe_end s \<Longrightarrow> safe_end t"
  by (auto simp: safe_end_def suffix_def)

text \<open>
  The contract of a parser: it returns, with an element exactly when the code is OK, further on in the
  text, or the text ends in a backslash and it reads past the end.
\<close>

definition parses :: "('a \<Rightarrow> bool) \<Rightarrow> string \<Rightarrow> 'a parsed \<Rightarrow> bool" where
  "parses P data r \<longleftrightarrow> (r = Fault OutOfBounds \<and> \<not> safe_end data) \<or> (\<exists>err x rest. r = Ok (err, x, rest) \<and> (err = JSON_PARSE_OK \<longleftrightarrow> x \<noteq> NULL) \<and> suffix rest data
     \<and> (\<forall>v. x = Ptr v \<longrightarrow> rest \<noteq> [] \<and> P v))"

lemma parsesI_fault: "\<not> safe_end data \<Longrightarrow> parses P data (Fault OutOfBounds)"
  by (simp add: parses_def)

lemma parsesI_error: "err \<noteq> JSON_PARSE_OK \<Longrightarrow> suffix rest data \<Longrightarrow> parses P data (Ok (err, NULL, rest))"
  by (simp add: parses_def)

lemma parsesI_value: "P v \<Longrightarrow> suffix rest data \<Longrightarrow> rest \<noteq> [] \<Longrightarrow> parses P data (Ok (JSON_PARSE_OK, Ptr v, rest))"
  by (simp add: parses_def)

lemma parses_suffix: "parses P data r \<Longrightarrow> suffix data data' \<Longrightarrow> parses P data' r"
  unfolding parses_def using suffix_order.trans safe_end_suffix [of data data'] by blast

lemma JsonParseAsString_loop_parses: "parses (\<lambda>_. True) data (JsonParseAsString_loop data out)"
proof (induction data out rule: JsonParseAsString_loop.induct)
  case (1 out)
  show ?case by (simp add: parsesI_error)
next
  case (2 c data out)
  show ?case
  proof (cases "c = quote")
    case True
    then show ?thesis by (simp add: parsesI_value)
  next
    case nq: False
    show ?thesis
    proof (cases "c = backslash")
      case True
      show ?thesis
      proof (cases data)
        case Nil
        then show ?thesis using True by (simp add: parses_def safe_end_def)
      next
        case (Cons d rest)
        then have "parses (\<lambda>_. True) rest (JsonParseAsString_loop (c # data) out)"
          using "2.IH"(1-7) True nq by simp
        then show ?thesis by (rule parses_suffix) (simp add: Cons suffix_ConsI)
      qed
    next
      case False
      have "parses (\<lambda>_. True) data (JsonParseAsString_loop data (out @ [c]))"
        using "2.IH"(8) nq False by blast
      then show ?thesis using nq False by (simp add: parses_suffix suffix_ConsI)
    qed
  qed
qed

definition unnamed_wf :: "JsonElement \<Rightarrow> bool" where
  "unnamed_wf e \<longleftrightarrow> json_wf e \<and> propertyName e = NULL"

lemma digit_iff: "c = CHR ''0'' \<or> IsDigit c \<longleftrightarrow> isdigit c"
proof -
  have "c = CHR ''0'' \<longleftrightarrow> (of_char c :: nat) = of_char (CHR ''0'')" by (simp only: of_char_eq_iff)
  then show ?thesis by (auto simp: IsDigit_def isdigit_def)
qed

lemma JsonParseAsString_parses: "parses (\<lambda>_. True) data (JsonParseAsString data)"
proof (cases data)
  case (Cons c rest)
  then have "parses (\<lambda>_. True) data (JsonParseAsString_loop rest [])"
    by (auto intro!: parses_suffix [OF JsonParseAsString_loop_parses] simp: suffix_ConsI)
  then show ?thesis using Cons by (auto simp: JsonParseAsString_def parsesI_error)
qed (simp add: JsonParseAsString_def parsesI_error)

lemma parse_string_element_parses: "parses unnamed_wf data (parse_string_element data)"
  using JsonParseAsString_parses [of data]
  by (auto simp: parse_string_element_def parses_def unnamed_wf_def JsonElementCreatePrimitive_def primitive_ok_def)

text \<open>What the number loop knows of the characters it has copied.\<close>

definition number_state :: "bool \<Rightarrow> bool \<Rightarrow> char \<Rightarrow> string \<Rightarrow> bool" where
  "number_state seen_dot seen_exponent prev_char out \<longleftrightarrow>
     (if prev_char = CHR 0x00 then out = [] \<and> \<not> seen_dot \<and> \<not> seen_exponent
      else out \<noteq> [] \<and> last out = prev_char
        \<and> (if isdigit prev_char then number_form seen_dot seen_exponent out
           else if prev_char = CHR ''.'' then seen_dot \<and> number_form False seen_exponent (butlast out)
           else if prev_char \<in> {CHR ''e'', CHR ''E''} then seen_exponent \<and> number_form seen_dot False (butlast out)
           else prev_char \<in> {CHR ''-'', CHR ''+''}
             \<and> (out = ''-'' \<and> \<not> seen_dot \<and> \<not> seen_exponent
               \<or> (\<exists>v x. out = v @ [x, prev_char] \<and> x \<in> {CHR ''e'', CHR ''E''} \<and> seen_exponent \<and> number_form seen_dot False v))))"

lemma number_state_digit:
  assumes "number_state d e p out" "isdigit c"
  shows "number_state d e c (out @ [c])"
proof -
  have c: "c \<noteq> CHR 0x00" "digit_run [c]" using assms(2) by (auto simp: digit_run_def isdigit_def)
  have "number_form d e (out @ [c])"
  proof (cases "p = CHR 0x00")
    case True
    then show ?thesis using assms(1) whole [of "[]" "[c]"] c(2) by (simp add: number_state_def)
  next
    case False
    then have out: "out = butlast out @ [p]" using assms(1) by (simp add: number_state_def) (metis append_butlast_last_id)
    consider "isdigit p" | "\<not> isdigit p" "p = CHR ''.''" | "\<not> isdigit p" "p \<in> {CHR ''e'', CHR ''E''}"
      | "\<not> isdigit p" "p \<in> {CHR ''-'', CHR ''+''}"
      using assms(1) False by (auto simp: number_state_def split: if_splits)
    then show ?thesis
    proof cases
      case 1
      then show ?thesis using assms False number_form_digit by (simp add: number_state_def)
    next
      case 2
      then show ?thesis using assms(1) fraction [of e "butlast out" "[c]"] c(2) out by (simp add: number_state_def) (metis append.assoc append_Cons append_Nil)
    next
      case 3
      then show ?thesis using assms(1) exponent [of d "butlast out" p "[]" "[c]"] c(2) out False
        by (auto simp: number_state_def isdigit_def) (metis append.assoc append_Cons append_Nil)+
    next
      case 4
      then consider "out = ''-''" "\<not> d" "\<not> e" | v x where "out = v @ [x, p]" "x \<in> {CHR ''e'', CHR ''E''}" "e" "number_form d False v"
        using assms(1) False by (auto simp: number_state_def)
      then show ?thesis
        by cases (use whole [of "''-''" "[c]"] exponent [of d _ _ "[p]" "[c]"] c(2) 4(2) in \<open>auto simp: digit_run_def\<close>)
    qed
  qed
  then show ?thesis using assms(2) c(1) by (simp add: number_state_def)
qed

lemma number_char_state:
  assumes "number_char z d e p c = Inr (z', d', e')" "number_state d e p out"
  shows "number_state d' e' c (out @ [c])"
proof (cases "isdigit c")
  case True
  then have "c \<noteq> CHR ''-''" "c \<noteq> CHR ''+''" "c \<noteq> CHR ''.''" "c \<noteq> CHR ''e''" "c \<noteq> CHR ''E''" by (auto simp: isdigit_def)
  then have "d' = d" "e' = e" using assms(1) by (simp_all add: number_char_def split: if_splits)
  then show ?thesis using number_state_digit [OF assms(2) True] by simp
next
  case False
  then have c: "c \<in> set ''-+.eE''" using assms(1) digit_iff [of c] by (auto simp: number_char_def split: if_splits)
  have out: "out = butlast out @ [p]" if "p \<noteq> CHR 0x00"
    using assms(2) that by (simp add: number_state_def) (metis append_butlast_last_id)
  have signed: "p = CHR 0x00 \<and> out = [] \<and> \<not> d \<and> \<not> e
      \<or> p \<in> {CHR ''e'', CHR ''E''} \<and> e \<and> number_form d False (butlast out) \<and> out = butlast out @ [p]"
    if "p \<in> {CHR 0x00, CHR ''e'', CHR ''E''}"
    using assms(2) that out by (auto simp: number_state_def isdigit_def)
  have digit: "number_form d e out" if "isdigit p"
    using assms(2) that by (auto simp: number_state_def isdigit_def split: if_splits)
  from c consider "c = CHR ''-''" | "c = CHR ''+''" | "c = CHR ''.''" | "c = CHR ''e'' \<or> c = CHR ''E''" by auto
  then show ?thesis
  proof cases
    case 1
    then have "p \<in> {CHR 0x00, CHR ''e'', CHR ''E''}" "d' = d" "e' = e" using assms(1) by (auto simp: number_char_def split: if_splits)
    then show ?thesis using signed 1 by (auto simp: number_state_def isdigit_def)
  next
    case 2
    then have "p \<in> {CHR ''e'', CHR ''E''}" "d' = d" "e' = e" using assms(1) by (auto simp: number_char_def split: if_splits)
    then show ?thesis using signed 2 by (auto simp: number_state_def isdigit_def)
  next
    case 3
    then have "isdigit p" "\<not> d" "d'" "e' = e" using assms(1) digit_iff [of p] by (auto simp: number_char_def split: if_splits)
    then show ?thesis using digit 3 by (simp add: number_state_def isdigit_def)
  next
    case 4
    then have "isdigit p" "\<not> e" "e'" "d' = d" using assms(1) digit_iff [of p] by (auto simp: number_char_def split: if_splits)
    then show ?thesis using digit 4 by (auto simp: number_state_def isdigit_def)
  qed
qed

lemma number_char_error: "number_char z d e p c = Inl err \<Longrightarrow> err \<noteq> JSON_PARSE_OK"
  by (auto simp: number_char_def split: if_splits)

lemma number_end_parses:
  assumes "number_state d e p out"
  shows "parses unnamed_wf (if out = [] then data else p # data) (number_end d p out data)"
proof (cases "isdigit p")
  case True
  then have "p \<noteq> CHR 0x00" by (auto simp: isdigit_def)
  then have "out \<noteq> []" using assms by (simp add: number_state_def)
  then have "number_form d e out" using assms True \<open>p \<noteq> CHR 0x00\<close> by (simp add: number_state_def)
  then have "primitive_ok (if d then JSON_PRIMITIVE_TYPE_REAL else JSON_PRIMITIVE_TYPE_INTEGER) out"
    by (auto simp: primitive_ok_def)
  then show ?thesis using \<open>out \<noteq> []\<close> True digit_iff [of p]
    by (auto simp: number_end_def unnamed_wf_def JsonElementCreatePrimitive_def intro!: parsesI_value)
next
  case False
  then show ?thesis using digit_iff [of p] by (auto simp: number_end_def suffix_ConsI intro!: parsesI_error)
qed

lemma JsonParseAsNumber_loop_parses:
  "number_state d e p out \<Longrightarrow> parses unnamed_wf (if out = [] then data else p # data) (JsonParseAsNumber_loop data (z, d, e) p out)"
proof (induction data arbitrary: z d e p out)
  case Nil
  then show ?case using number_end_parses [OF Nil] by simp
next
  case (Cons c data)
  show ?case
  proof (cases "IsSeparator c")
    case True
    then show ?thesis using number_end_parses [OF Cons.prems] by simp
  next
    case sep: False
    show ?thesis
    proof (cases "number_char z d e p c")
      case (Inl err)
      then show ?thesis using sep by (auto simp: suffix_ConsI dest: number_char_error intro!: parsesI_error)
    next
      case (Inr flags)
      obtain z' d' e' where flags: "flags = (z', d', e')" by (cases flags)
      from Cons.IH [OF number_char_state [OF Inr [unfolded flags] Cons.prems]]
      have "parses unnamed_wf (c # data) (JsonParseAsNumber_loop data flags c (out @ [c]))" by (simp add: flags)
      then show ?thesis using sep Inr by (auto intro: parses_suffix simp: suffix_ConsI)
    qed
  qed
qed

lemma JsonParseAsNumber_parses: "parses unnamed_wf data (JsonParseAsNumber data)"
  using JsonParseAsNumber_loop_parses [of False False "CHR 0x00" "[]" data] by (simp add: JsonParseAsNumber_def number_state_def)

text \<open>Reading a word: true, false and null.\<close>

lemma starts_with_loop_prefix: "starts_with_loop str pre \<longleftrightarrow> prefix pre str"
  by (induction str pre rule: starts_with_loop.induct) auto

lemma StringStartsWith_prefix: "StringStartsWith str pre \<Longrightarrow> prefix pre str"
  by (simp add: StringStartsWith_def starts_with_loop_prefix split: if_splits)

lemma StringStartsWith_suffix:
  "StringStartsWith data word \<Longrightarrow> word \<noteq> [] \<Longrightarrow> drop (length word - 1) data \<noteq> []"
  by (cases word) (auto dest!: StringStartsWith_prefix prefix_length_le)

lemma parse_word_Some:
  "parse_word word x data = Some (y, rest) \<Longrightarrow> word \<noteq> [] \<Longrightarrow> y = x \<and> suffix rest data \<and> rest \<noteq> []"
  using StringStartsWith_suffix [of data word] by (auto simp: parse_word_def Let_def suffix_drop split: if_splits)

lemma JsonParseAsBoolean_Some:
  "JsonParseAsBoolean data = Some (b, rest) \<Longrightarrow> unnamed_wf b \<and> suffix rest data \<and> rest \<noteq> []"
  by (auto simp: JsonParseAsBoolean_def JsonBoolCreate_def JsonElementCreatePrimitive_def unnamed_wf_def primitive_ok_def
      dest: parse_word_Some split: if_splits)

lemma JsonParseAsNull_Some:
  "JsonParseAsNull data = Some (b, rest) \<Longrightarrow> unnamed_wf b \<and> suffix rest data \<and> rest \<noteq> []"
  by (auto simp: JsonParseAsNull_def JsonNullCreate_def JsonElementCreatePrimitive_def unnamed_wf_def primitive_ok_def
      dest: parse_word_Some)

text \<open>A parsed value leaves a rest the loop goes on with, behind its last character.\<close>

lemma parsed_value_cases:
  assumes "parses P data r" "data \<noteq> []"
  obtains "r = Fault OutOfBounds" "\<not> safe_end data"
  | err rest where "r = Ok (err, NULL, rest)" "err \<noteq> JSON_PARSE_OK" "suffix rest data"
  | v p rest where "r = Ok (JSON_PARSE_OK, Ptr v, p # rest)" "P v" "suffix rest data" "length rest < length data"
proof (cases "r = Fault OutOfBounds \<and> \<not> safe_end data")
  case False
  from assms(1) this obtain err x rest where r: "r = Ok (err, x, rest)" "err = JSON_PARSE_OK \<longleftrightarrow> x \<noteq> NULL" "suffix rest data"
    "\<And>v. x = Ptr v \<Longrightarrow> rest \<noteq> [] \<and> P v" unfolding parses_def by blast
  show thesis
  proof (cases x)
    case None
    then show ?thesis using r that(2) by auto
  next
    case (Some v)
    then obtain p rest' where "rest = p # rest'" using r(4) by (cases rest) auto
    moreover from this r(3) have "suffix rest' data" "length rest' < length data"
      using suffix_ConsD suffix_length_le by fastforce+
    ultimately show ?thesis using Some r that(3) [of v p rest'] by auto
  qed
qed (use that(1) in auto)

section \<open>Any lookup function that keeps the contract of a parser\<close>

locale json_lookup =
  fixes lookup :: "JsonLookup ptr"
  assumes lookup_parses:
    "lookup = Ptr f \<Longrightarrow> f data = (element, rest) \<Longrightarrow>
     suffix rest data \<and> (\<forall>e. element = Ptr e \<longrightarrow> rest \<noteq> [] \<and> unnamed_wf e)"
begin

lemma parse_plain_parses: "parses unnamed_wf data (parse_plain lookup data)"
proof (cases "data \<noteq> [] \<and> starts_number (hd data)")
  case False
  show ?thesis
  proof (cases "JsonParseAsBoolean data")
    case bool: None
    show ?thesis
    proof (cases "JsonParseAsNull data")
      case null: None
      show ?thesis
      proof (cases lookup)
        case (Some f)
        obtain element rest where "f data = (element, rest)" by (cases "f data")
        with lookup_parses [OF Some this] show ?thesis using False bool null Some
          by (cases element) (auto simp: parse_plain_def intro: parsesI_error parsesI_value)
      qed (use False bool null in \<open>auto simp: parse_plain_def intro: parsesI_error\<close>)
    qed (use False bool in \<open>auto simp: parse_plain_def dest: JsonParseAsNull_Some intro: parsesI_value\<close>)
  qed (use False in \<open>auto simp: parse_plain_def dest: JsonParseAsBoolean_Some intro: parsesI_value\<close>)
qed (auto simp: parse_plain_def JsonParseAsNumber_parses)

end

interpretation no_lookup: json_lookup NULL
  by unfold_locales simp

text \<open>A document that is a single primitive is a value of a container, without the lookup.\<close>

lemma JsonParseAsPrimitive_eq:
  "JsonParseAsPrimitive data =
     (if data \<noteq> [] \<and> hd data = quote
      then bindE (JsonParseAsString data) (\<lambda>(err, value, data'). case value of
             NULL \<Rightarrow> Ok (err, NULL, data')
           | Ptr v \<Rightarrow> Ok (JSON_PARSE_OK, Ptr (JsonElementCreatePrimitive JSON_PRIMITIVE_TYPE_STRING (JsonDecodeString v)), data'))
      else parse_plain NULL data)"
  by (cases data) (simp_all add: JsonParseAsPrimitive_def parse_plain_def JsonParseAsBoolean_def JsonParseAsNull_def
      parse_word_def StringStartsWith_def)

lemma JsonParseAsPrimitive_parses: "parses unnamed_wf data (JsonParseAsPrimitive data)"
proof (cases "data \<noteq> [] \<and> hd data = quote")
  case True
  with JsonParseAsString_parses [of data] have "data \<noteq> []" "parses (\<lambda>_. True) data (JsonParseAsString data)" by auto
  from this(2,1) show ?thesis
  proof (cases rule: parsed_value_cases)
    case 1
    then show ?thesis using True by (simp add: JsonParseAsPrimitive_eq parsesI_fault)
  next
    case (2 err rest)
    then show ?thesis using True by (simp add: JsonParseAsPrimitive_eq parsesI_error)
  next
    case (3 v p rest)
    then show ?thesis using True parse_string_element_parses [of data]
      by (simp add: JsonParseAsPrimitive_eq parse_string_element_def)
  qed
qed (auto simp: JsonParseAsPrimitive_eq no_lookup.parse_plain_parses)

context json_lookup
begin

definition value_ok :: "nat \<Rightarrow> bool" where
  "value_ok fuel \<longleftrightarrow> (\<forall>data. data \<noteq> [] \<and> 2 * length data \<le> fuel \<longrightarrow>
     parses unnamed_wf data (parse_value fuel lookup data))"

definition array_ok :: "nat \<Rightarrow> bool" where
  "array_ok fuel \<longleftrightarrow> (\<forall>data cs prev_char. 2 * length data + 1 \<le> fuel \<and> json_wf (JArray NULL cs) \<longrightarrow>
     parses unnamed_wf data (JsonParseAsArray_loop fuel lookup data (JArray NULL cs) prev_char))"

definition object_ok :: "nat \<Rightarrow> bool" where
  "object_ok fuel \<longleftrightarrow> (\<forall>data cs name prev_char. 2 * length data + 1 \<le> fuel \<and> json_wf (JObject NULL cs) \<longrightarrow>
     parses unnamed_wf data (JsonParseAsObject_loop fuel lookup data (JObject NULL cs) name prev_char))"

lemma value_okD:
  "value_ok fuel \<Longrightarrow> data \<noteq> [] \<Longrightarrow> 2 * length data \<le> fuel \<Longrightarrow>
   parses unnamed_wf data (parse_value fuel lookup data)"
  by (simp add: value_ok_def)

lemma array_okD:
  "array_ok fuel \<Longrightarrow> json_wf (JArray NULL cs) \<Longrightarrow> suffix rest data \<Longrightarrow> 2 * length rest + 1 \<le> fuel \<Longrightarrow>
   parses unnamed_wf data (JsonParseAsArray_loop fuel lookup rest (JArray NULL cs) prev_char)"
  using parses_suffix [of unnamed_wf rest _ data] unfolding array_ok_def by blast

lemma object_okD:
  "object_ok fuel \<Longrightarrow> json_wf (JObject NULL cs) \<Longrightarrow> suffix rest data \<Longrightarrow> 2 * length rest + 1 \<le> fuel \<Longrightarrow>
   parses unnamed_wf data (JsonParseAsObject_loop fuel lookup rest (JObject NULL cs) name prev_char)"
  using parses_suffix [of unnamed_wf rest _ data] unfolding object_ok_def by blast

lemma value_ok_Suc:
  assumes "array_ok fuel" "object_ok fuel"
  shows "value_ok (Suc fuel)"
  unfolding value_ok_def
proof (intro allI impI, elim conjE)
  fix data :: string
  assume data: "data \<noteq> []" "2 * length data \<le> Suc fuel"
  then obtain c rest where split: "data = c # rest" by (cases data) auto
  then have rest: "suffix rest data" "2 * length rest + 1 \<le> fuel" using data by (auto simp: suffix_ConsI)
  have "parses unnamed_wf data (JsonParseAsArray_loop fuel lookup rest (JArray NULL []) (CHR ''[''))"
    using array_okD [OF assms(1) _ rest] by simp
  moreover have "parses unnamed_wf data (JsonParseAsObject_loop fuel lookup rest (JObject NULL []) NULL (CHR ''{''))"
    using object_okD [OF assms(2) _ rest] by simp
  ultimately show "parses unnamed_wf data (parse_value (Suc fuel) lookup data)"
    using parse_string_element_parses [of data] parse_plain_parses [of data]
    by (auto simp: split step_past_def JsonArrayCreate_def JsonObjectCreate_def JsonElementCreateContainer_def)
qed

lemma array_ok_Suc:
  assumes val: "value_ok fuel" and array: "array_ok fuel"
  shows "array_ok (Suc fuel)"
  unfolding array_ok_def
proof (intro allI impI, elim conjE)
  fix data :: string and cs prev_char
  assume data: "2 * length data + 1 \<le> Suc fuel" and wf: "json_wf (JArray NULL cs)"
  show "parses unnamed_wf data (JsonParseAsArray_loop (Suc fuel) lookup data (JArray NULL cs) prev_char)"
  proof (cases "data = []")
    case False
    then have tl: "suffix (tl data) data" "2 * length (tl data) + 1 \<le> fuel" using data by (cases data; auto simp: suffix_ConsI)+
    note loop = array_okD [OF array wf tl]
    have item: ?thesis if "array_action prev_char (hd data) \<in> {Item, Key, BareKey}"
    proof -
      have "parses unnamed_wf data (parse_value fuel lookup data)" using value_okD [OF val False] data by simp
      from this False show ?thesis
      proof (cases rule: parsed_value_cases)
        case 1
        then show ?thesis using that False by (auto simp: parsesI_fault)
      next
        case (2 err rest)
        then show ?thesis using that False by (auto intro: parsesI_error)
      next
        case (3 v p rest)
        then have "json_wf (JArray NULL (cs @ [v]))" using wf by (auto simp: unnamed_wf_def)
        then have "parses unnamed_wf data (JsonParseAsArray_loop fuel lookup rest (JArray NULL (cs @ [v])) p)"
          using array_okD [OF array _ 3(3)] 3(4) data by auto
        then show ?thesis using that False 3(1) by (auto simp: JsonArrayAppendElement_eq step_past_def)
      qed
    qed
    show ?thesis
    proof (cases "array_action prev_char (hd data)")
      case (Reject err)
      then have "err \<noteq> JSON_PARSE_OK" by (auto simp: array_action_def split: if_splits)
      then show ?thesis using Reject False by (simp add: parsesI_error)
    next
      case Close
      then show ?thesis using False wf by (auto simp: unnamed_wf_def intro!: parsesI_value)
    qed (use False loop item in auto)
  qed (simp add: parsesI_error)
qed

lemma object_action_reject: "object_action named prev_char c = Reject err \<Longrightarrow> err \<noteq> JSON_PARSE_OK"
  by (auto simp: object_action_def split: if_splits)

lemma unquoted_key_bound: "unquoted_key_with_colon data = Some j \<Longrightarrow> j < length data"
  by (auto simp: unquoted_key_with_colon_def Let_def split: list.splits if_splits)

lemma object_ok_Suc:
  assumes val: "value_ok fuel" and object: "object_ok fuel"
  shows "object_ok (Suc fuel)"
  unfolding object_ok_def
proof (intro allI impI, elim conjE)
  fix data :: string and cs name prev_char
  assume data: "2 * length data + 1 \<le> Suc fuel" and wf: "json_wf (JObject NULL cs)"
  show "parses unnamed_wf data (JsonParseAsObject_loop (Suc fuel) lookup data (JObject NULL cs) name prev_char)"
  proof (cases "data = []")
    case False
    then have tl: "suffix (tl data) data" "2 * length (tl data) + 1 \<le> fuel" using data by (cases data; auto simp: suffix_ConsI)+
    note loop = object_okD [OF object wf tl]
    show ?thesis
    proof (cases "object_action (name \<noteq> NULL) prev_char (hd data)")
      case (Reject err)
      then show ?thesis using object_action_reject [OF Reject] False by (simp add: parsesI_error)
    next
      case Close
      then show ?thesis using False wf by (auto simp: unnamed_wf_def intro!: parsesI_value)
    next
      case Key
      from JsonParseAsString_parses [of data] False show ?thesis
      proof (cases rule: parsed_value_cases)
        case 1
        then show ?thesis using Key False by (auto simp: parsesI_fault)
      next
        case (2 err rest)
        then show ?thesis using Key False by (simp add: parsesI_error)
      next
        case (3 v p rest)
        then show ?thesis using Key False object_okD [OF object wf 3(3)] data by (simp add: step_past_def)
      qed
    next
      case BareKey
      show ?thesis
      proof (cases "unquoted_key_with_colon data")
        case (Some j)
        then have "2 * length (drop (Suc j) data) + 1 \<le> fuel" using data unquoted_key_bound [OF Some] by simp
        then show ?thesis using BareKey False Some object_okD [OF object wf suffix_drop] by simp
      qed (use BareKey False in \<open>simp add: parsesI_error\<close>)
    next
      case Item
      have "parses unnamed_wf data (parse_value fuel lookup data)" using value_okD [OF val False] data by simp
      from this False show ?thesis
      proof (cases rule: parsed_value_cases)
        case 1
        then show ?thesis using Item False by (auto simp: parsesI_fault)
      next
        case (2 err rest)
        then show ?thesis using Item False by (simp add: parsesI_error)
      next
        case (3 v p rest)
        then have "json_wf (JObject NULL (remove_named (the name) cs @ [JsonElementSetPropertyName v (Ptr (the name))]))"
          by (intro wf_object_append [OF wf]) (simp add: unnamed_wf_def)
        from object_okD [OF object this 3(3)] show ?thesis
          using Item False 3 data by (simp add: JsonObjectAppendElement_eq step_past_def)
      qed
    qed (use False loop in auto)
  qed (simp add: parsesI_error)
qed

lemma loops_ok: "value_ok fuel \<and> array_ok fuel \<and> object_ok fuel"
proof (induction fuel)
  case 0
  show ?case by (simp add: value_ok_def array_ok_def object_ok_def)
next
  case (Suc fuel)
  then show ?case by (intro conjI value_ok_Suc array_ok_Suc object_ok_Suc) auto
qed

lemma JsonParseWithLookup_loop_parses:
  "2 * length data + 2 \<le> fuel \<Longrightarrow> parses unnamed_wf data (JsonParseWithLookup_loop lookup fuel data)"
proof (induction data)
  case (Cons c data)
  have rest: "suffix data (c # data)" "2 * length data + 1 \<le> fuel" using Cons.prems by (auto simp: suffix_ConsI)
  have "parses unnamed_wf (c # data) (JsonParseAsArray_loop fuel lookup data (JArray NULL []) (CHR ''[''))"
    "parses unnamed_wf (c # data) (JsonParseAsObject_loop fuel lookup data (JObject NULL []) NULL (CHR ''{''))"
    using loops_ok [of fuel] array_okD [of fuel "[]", OF _ _ rest]
      object_okD [of fuel "[]", OF _ _ rest] by auto
  moreover have "parses unnamed_wf (c # data) (JsonParseWithLookup_loop lookup fuel data)"
    using Cons rest(1) by (auto intro: parses_suffix)
  ultimately show ?case using JsonParseAsPrimitive_parses [of "c # data"]
    by (auto simp: JsonParseAsArray_def JsonParseAsObject_def JsonArrayCreate_def JsonObjectCreate_def JsonElementCreateContainer_def)
qed (simp add: parsesI_error)

lemma JsonParseWithLookup_parses: "parses unnamed_wf s (JsonParseWithLookup lookup (Ptr s))"
  by (simp add: JsonParseWithLookup_def JsonParseWithLookup_loop_parses)

end

section \<open>Properties\<close>

text \<open>
  C19: Parsing terminates and never leaves the text: on every string whose last character is not a
  backslash, JsonParse returns; it returns an element exactly when the error code is JSON_PARSE_OK, and
  the pointer it leaves behind is inside the text.
\<close>

theorem JsonParse_terminates:
  assumes "s = [] \<or> last s \<noteq> backslash"
  shows "\<exists>err json rest. JsonParse (Ptr s) = Ok (err, json, rest) \<and> (err = JSON_PARSE_OK \<longleftrightarrow> json \<noteq> NULL)
    \<and> suffix rest s \<and> (json \<noteq> NULL \<longrightarrow> rest \<noteq> [])"
  using no_lookup.JsonParseWithLookup_parses [of s] assms unfolding parses_def JsonParse_def safe_end_def by blast

theorem JsonParse_terminates_witness:
  "\<exists>err json rest. JsonParse (Ptr ''[1, {'') = Ok (err, json, rest) \<and> (err = JSON_PARSE_OK \<longleftrightarrow> json \<noteq> NULL)
    \<and> suffix rest ''[1, {'' \<and> (json \<noteq> NULL \<longrightarrow> rest \<noteq> [])"
  by (rule JsonParse_terminates) simp



end
