(* ===== verification/JsonGrammar.thy ===== *)
theory JsonGrammar
  imports JsonTotal
begin

text \<open>
  A grammar of JSON documents, as relations between elements and texts, and the theorem that the parser
  of libutils/json.c reads every text of the grammar as its element. The grammar is the one of
  json.org, with keys that need no quotes, a unicode escape below 256 standing for one byte. It leaves out
  what the parser does not decode as JSON prescribes: an escaped backslash in front of a character that forms
  an escape with it, unicode escapes in keys and unicode escapes beyond one byte, and numbers with an exponent
  but no fraction, which the parser takes for integers.
\<close>

section \<open>Strings\<close>

definition escape_value :: "char \<Rightarrow> char option" where
  "escape_value d =
     map_of [(quote, quote), (backslash, backslash), (CHR ''/'', CHR ''/''), (CHR ''b'', CHR 0x08), (CHR ''f'', CHR 0x0C),
       (CHR ''n'', CHR 0x0A), (CHR ''r'', CHR 0x0D), (CHR ''t'', CHR 0x09)] d"

text \<open>The byte that four hexadecimal digits stand for.\<close>

definition nibble :: "char \<Rightarrow> nat option" where
  "nibble c = map_of (zip ''0123456789abcdefABCDEF'' [0, 1, 2, 3, 4, 5, 6, 7, 8, 9, 10, 11, 12, 13, 14, 15, 10, 11, 12, 13, 14, 15]) c"

definition unicode_value :: "string \<Rightarrow> char option" where
  "unicode_value h =
     (let n = foldl (\<lambda>v c. v * 16 + the (nibble c)) 0 h
      in if length h = 4 \<and> list_all (\<lambda>c. nibble c \<noteq> None) h \<and> 0 < n \<and> n < 256 then Some (char_of n) else None)"

lemma nibble_hex: "nibble c \<noteq> None \<Longrightarrow> is_hex c \<and> the (nibble c) = hex_value c"
  by (simp add: nibble_def split: if_splits) (simp_all add: is_hex_def hex_value_def isdigit_def)

lemma unicode_value_hex:
  assumes "unicode_value h = Some x"
  shows "length h = 4" "HexStringToChar h = Some x" "x \<noteq> CHR 0x00"
proof -
  let ?n = "foldl (\<lambda>v c. v * 16 + the (nibble c)) 0 h"
  from assms have h: "length h = 4" "list_all (\<lambda>c. nibble c \<noteq> None) h" "0 < ?n" "?n < 256" "x = char_of ?n"
    by (auto simp: unicode_value_def Let_def split: if_splits)
  have "foldl (\<lambda>v c. v * 16 + the (nibble c)) m h = foldl (\<lambda>v c. v * 16 + hex_value c) m h" for m
    using h(2) by (induction h arbitrary: m) (simp_all add: nibble_hex)
  moreover have "list_all is_hex h" using h(2) nibble_hex by (auto simp: list_all_iff)
  ultimately show "length h = 4" "HexStringToChar h = Some x" using h by (simp_all add: HexStringToChar_def Let_def)
  have "of_char x = ?n" using h(4,5) by simp
  then show "x \<noteq> CHR 0x00" using h(3) by auto
qed

text \<open>The characters that form an escape for JsonDecodeString.\<close>

definition escape_letters :: "char set" where
  "escape_letters = {quote, backslash, CHR ''b'', CHR ''f'', CHR ''n'', CHR ''r'', CHR ''t'', CHR ''u''}"

text \<open>
  The characters between the quotes, what the first decoding leaves of them, and the string they denote.
  A value is decoded twice: an escaped backslash must not meet a letter that forms an escape with it.
\<close>

inductive string_text :: "bool \<Rightarrow> string \<Rightarrow> string \<Rightarrow> string \<Rightarrow> bool" where
  empty: "string_text twice [] [] []"
| plain: "string_text twice s m v \<Longrightarrow> c \<noteq> quote \<Longrightarrow> c \<noteq> backslash \<Longrightarrow> string_text twice (c # s) (c # m) (c # v)"
| escape: "string_text twice s m v \<Longrightarrow> escape_value d = Some x \<Longrightarrow> d \<noteq> backslash \<Longrightarrow>
    string_text twice (backslash # d # s) (x # m) (x # v)"
| escaped_backslash: "string_text twice s m v \<Longrightarrow> (twice \<Longrightarrow> m = [] \<or> hd m \<notin> escape_letters) \<Longrightarrow>
    string_text twice (backslash # backslash # s) (backslash # m) (backslash # v)"
| unicode: "string_text twice s m v \<Longrightarrow> unicode_value h = Some x \<Longrightarrow>
    string_text twice (backslash # CHR ''u'' # h @ s) (backslash # CHR ''u'' # h @ m) (x # v)"

lemma JsonParseAsString_loop_escape:
  "JsonParseAsString_loop (backslash # d # rest) out
     = JsonParseAsString_loop rest (out @ (case escape_value d of Some x \<Rightarrow> [x] | None \<Rightarrow> [backslash, d]))"
  by (auto simp: escape_value_def)

lemma is_hex_plain: "is_hex c \<Longrightarrow> c \<noteq> quote \<and> c \<noteq> backslash"
  by (auto simp: is_hex_def isdigit_def)

lemma JsonParseAsString_loop_plain:
  "list_all (\<lambda>c. c \<noteq> quote \<and> c \<noteq> backslash) s \<Longrightarrow> JsonParseAsString_loop (s @ rest) out = JsonParseAsString_loop rest (out @ s)"
  by (induction s arbitrary: out) auto

lemma HexStringToChar_hex:
  "HexStringToChar h = Some x \<Longrightarrow> length h = 4 \<Longrightarrow> list_all (\<lambda>c. c \<noteq> quote \<and> c \<noteq> backslash) h"
  using is_hex_plain by (auto simp: HexStringToChar_def Let_def list_all_iff split: if_splits)

text \<open>The first decoding.\<close>

lemma JsonParseAsString_loop_prefix:
  "string_text twice s m v \<Longrightarrow> JsonParseAsString_loop (s @ rest) out = JsonParseAsString_loop rest (out @ m)"
proof (induction arbitrary: out rule: string_text.induct)
  case (escape twice s m v d x)
  then show ?case by (simp add: JsonParseAsString_loop_escape del: JsonParseAsString_loop.simps)
next
  case (escaped_backslash twice s m v)
  then show ?case
    by (simp add: JsonParseAsString_loop_escape escape_value_def del: JsonParseAsString_loop.simps)
next
  case (unicode twice s m v h x)
  note h = unicode_value_hex [OF unicode.hyps(2)]
  show ?case
    using unicode JsonParseAsString_loop_plain [OF HexStringToChar_hex [OF h(2,1)], of "s @ rest"]
    by (simp add: JsonParseAsString_loop_escape escape_value_def del: JsonParseAsString_loop.simps)
qed simp_all

lemma JsonParseAsString_loop_text:
  assumes "string_text twice s m v"
  shows "JsonParseAsString_loop (s @ quote # rest) out = Ok (JSON_PARSE_OK, Ptr (out @ m), quote # rest)"
  by (simp add: JsonParseAsString_loop_prefix [OF assms])

text \<open>The second decoding.\<close>

lemma HexStringToChar_append: "length h = 4 \<Longrightarrow> HexStringToChar (h @ m) = HexStringToChar h"
  by (simp add: HexStringToChar_def)

lemma JsonDecodeStringWriter_plain: "c \<noteq> backslash \<Longrightarrow> JsonDecodeStringWriter (c # s) = c # JsonDecodeStringWriter s"
  by (subst JsonDecodeStringWriter.simps) simp

lemma JsonDecodeStringWriter_backslash:
  "s = [] \<or> hd s \<notin> escape_letters \<Longrightarrow> JsonDecodeStringWriter (backslash # s) = backslash # JsonDecodeStringWriter s"
  by (cases s) (simp_all add: JsonDecodeStringWriter.simps [of "backslash # _"] escape_letters_def)

lemma JsonDecodeStringWriter_unicode:
  "length h = 4 \<Longrightarrow> HexStringToChar h = Some x \<Longrightarrow> x \<noteq> CHR 0x00 \<Longrightarrow>
   JsonDecodeStringWriter (backslash # CHR ''u'' # h @ s) = x # JsonDecodeStringWriter s"
  by (subst JsonDecodeStringWriter.simps) (simp add: HexStringToChar_append)

lemma escape_value_no_backslash: "escape_value d = Some x \<Longrightarrow> d \<noteq> backslash \<Longrightarrow> x \<noteq> backslash"
  by (auto simp: escape_value_def split: if_splits)

lemma JsonDecodeString_text: "string_text twice s m v \<Longrightarrow> twice \<Longrightarrow> JsonDecodeString m = v"
proof (induction rule: string_text.induct)
  case (empty twice)
  show ?case by (simp add: JsonDecodeString_def JsonDecodeStringWriter.simps)
next
  case (escape twice s m v d x)
  then show ?case using escape_value_no_backslash [of d x] by (simp add: JsonDecodeString_def JsonDecodeStringWriter_plain)
next
  case (unicode twice s m v h x)
  then show ?case using unicode_value_hex [OF unicode.hyps(2)] by (simp add: JsonDecodeString_def JsonDecodeStringWriter_unicode)
qed (simp_all add: JsonDecodeString_def JsonDecodeStringWriter_plain JsonDecodeStringWriter_backslash)

lemma parse_string_element_text:
  assumes "string_text True s m v"
  shows "parse_string_element (quote # s @ quote # rest) = Ok (JSON_PARSE_OK, Ptr (Primitive NULL JSON_PRIMITIVE_TYPE_STRING v), quote # rest)"
  using JsonParseAsString_loop_text [OF assms, of rest "[]"] JsonDecodeString_text [OF assms]
  by (simp add: parse_string_element_def JsonParseAsString_def JsonElementCreatePrimitive_def)

section \<open>Numbers and words\<close>

text \<open>The numbers of JSON: a real has a fraction, an integer neither fraction nor exponent.\<close>

definition json_number :: "JsonPrimitiveType \<Rightarrow> string \<Rightarrow> bool" where
  "json_number t v \<longleftrightarrow> (\<exists>s ds f x. v = s @ ds @ f @ x \<and> s \<in> {[], ''-''} \<and> digit_run ds \<and> (hd ds = CHR ''0'' \<longrightarrow> ds = ''0'')
     \<and> (if t = JSON_PRIMITIVE_TYPE_REAL
        then (\<exists>fs. f = CHR ''.'' # fs \<and> digit_run fs)
          \<and> (x = [] \<or> (\<exists>c g es. x = c # g @ es \<and> c \<in> {CHR ''e'', CHR ''E''} \<and> g \<in> {[], ''-'', ''+''} \<and> digit_run es))
        else t = JSON_PRIMITIVE_TYPE_INTEGER \<and> f = [] \<and> x = []))"

text \<open>The texts that the parser takes for a number of a type: those of JSON, which is proved, and some more.\<close>

definition number_read :: "JsonPrimitiveType \<Rightarrow> string \<Rightarrow> bool" where
  "number_read t v \<longleftrightarrow> v \<noteq> [] \<and> JsonParseAsNumber v = Ok (JSON_PARSE_OK, Ptr (Primitive NULL t v), [last v])"

definition separated :: "string \<Rightarrow> bool" where
  "separated rest \<longleftrightarrow> rest = [] \<or> IsSeparator (hd rest)"

lemma number_end_separated:
  "number_end d p out [] = Ok (JSON_PARSE_OK, Ptr e, [q]) \<Longrightarrow> number_end d p out rest = Ok (JSON_PARSE_OK, Ptr e, q # rest)"
  by (auto simp: number_end_def split: if_splits)

lemma JsonParseAsNumber_loop_separated:
  assumes "JsonParseAsNumber_loop v flags p out = Ok (JSON_PARSE_OK, Ptr e, [q])" "separated rest"
  shows "JsonParseAsNumber_loop (v @ rest) flags p out = Ok (JSON_PARSE_OK, Ptr e, q # rest)"
  using assms
proof (induction v flags p out rule: JsonParseAsNumber_loop.induct)
  case (1 z d x p out)
  then show ?case using number_end_separated [of d p out e q rest] by (cases rest) (simp_all add: separated_def)
next
  case (2 c data z d x p out)
  have "\<not> IsSeparator c" using "2.prems"(1) by (auto simp: number_end_def split: if_splits)
  then show ?case using 2 by (cases "number_char z d x p c") simp_all
qed

lemma digit_plain: "isdigit c \<Longrightarrow> c \<noteq> CHR 0x00 \<and> \<not> IsSeparator c \<and> c \<notin> set ''-+.eE''"
  by (intro conjI) (auto simp: IsSeparator_def IsWhitespace_def isdigit_def)

lemma number_loop_digits:
  "list_all isdigit ds \<Longrightarrow> d \<or> x \<or> \<not> z \<Longrightarrow> p \<noteq> CHR 0x00 \<Longrightarrow>
   JsonParseAsNumber_loop (ds @ rest) (z, d, x) p out = JsonParseAsNumber_loop rest (z, d, x) (last (p # ds)) (out @ ds)"
proof (induction ds arbitrary: p out)
  case (Cons c ds)
  then have c: "isdigit c" "c \<noteq> CHR 0x00" "\<not> IsSeparator c" "c \<notin> set ''-+.eE''" using digit_plain by auto
  then have "number_char z d x p c = Inr (z, d, x)"
    using Cons.prems(2,3) digit_iff [of c] by (auto simp: number_char_def)
  then show ?case using Cons c by simp
qed simp

lemma number_loop_whole:
  assumes "s \<in> {[], ''-''}" "digit_run ds" "hd ds = CHR ''0'' \<longrightarrow> ds = ''0''"
  shows "\<exists>z. JsonParseAsNumber_loop (s @ ds @ rest) (False, False, False) (CHR 0x00) []
    = JsonParseAsNumber_loop rest (z, False, False) (last ds) (s @ ds)"
proof -
  obtain c cs where ds: "ds = c # cs" "isdigit c" "list_all isdigit cs" using assms(2) by (cases ds) (auto simp: digit_run_def)
  have c: "c \<noteq> CHR 0x00" "\<not> IsSeparator c" "c \<notin> set ''-+.eE''" using digit_plain [OF ds(2)] by auto
  show ?thesis
  proof (cases "s = []")
    case True
    have "number_char False False False (CHR 0x00) c = Inr (c = CHR ''0'', False, False)"
      using ds(2) c(3) digit_iff [of c] by (auto simp: number_char_def)
    then have "JsonParseAsNumber_loop (s @ ds @ rest) (False, False, False) (CHR 0x00) []
        = JsonParseAsNumber_loop (cs @ rest) (c = CHR ''0'', False, False) c [c]" using True ds(1) c by simp
    moreover have "cs = []" if "c = CHR ''0''" using assms(3) that ds(1) by simp
    moreover have "JsonParseAsNumber_loop (cs @ rest) (False, False, False) c [c]
        = JsonParseAsNumber_loop rest (False, False, False) (last ds) ds"
      using number_loop_digits [of cs False False False c rest "[c]"] ds(1,3) c(1) by simp
    ultimately show ?thesis using True ds(1) by (intro exI [of _ "c = CHR ''0''"]) (cases "c = CHR ''0''", simp_all)
  next
    case False
    then have "s = ''-''" using assms(1) by simp
    moreover have "list_all isdigit ds" using assms(2) by (simp add: digit_run_def)
    moreover have "\<not> IsSeparator (CHR ''-'')" by (simp add: IsSeparator_def IsWhitespace_def)
    ultimately show ?thesis using number_loop_digits [of ds False False False "CHR ''-''" rest "''-''"] ds(1)
      by (intro exI [of _ False]) (simp add: number_char_def)
  qed
qed

lemma number_loop_fraction:
  assumes "digit_run fs" "isdigit p"
  shows "JsonParseAsNumber_loop (CHR ''.'' # fs @ rest) (z, False, x) p out
    = JsonParseAsNumber_loop rest (z, True, x) (last fs) (out @ CHR ''.'' # fs)"
proof -
  have "\<not> IsSeparator (CHR ''.'')" by (simp add: IsSeparator_def IsWhitespace_def)
  moreover have "number_char z False x p (CHR ''.'') = Inr (z, True, x)" using assms(2) digit_iff [of p] by (auto simp: number_char_def)
  ultimately show ?thesis using assms(1) number_loop_digits [of fs True x z "CHR ''.''" rest "out @ ''.''"]
    by (simp add: digit_run_def)
qed

lemma number_loop_exponent:
  assumes "c \<in> {CHR ''e'', CHR ''E''}" "g \<in> {[], ''-'', ''+''}" "digit_run es" "isdigit p"
  shows "JsonParseAsNumber_loop (c # g @ es @ rest) (z, d, False) p out
    = JsonParseAsNumber_loop rest (z, d, True) (last es) (out @ c # g @ es)"
proof -
  have sep: "\<not> IsSeparator x" if "x \<in> {CHR ''e'', CHR ''E'', CHR ''-'', CHR ''+''}" for x
    using that by (auto simp: IsSeparator_def IsWhitespace_def)
  have "number_char z d False p c = Inr (z, d, True)" using assms(1,4) digit_iff [of p] by (auto simp: number_char_def)
  then have "JsonParseAsNumber_loop (c # g @ es @ rest) (z, d, False) p out
      = JsonParseAsNumber_loop (g @ es @ rest) (z, d, True) c (out @ [c])" using sep [of c] assms(1) by auto
  also have "\<dots> = JsonParseAsNumber_loop (es @ rest) (z, d, True) (last (c # g)) (out @ c # g)"
  proof (cases "g = []")
    case False
    then obtain x where x: "g = [x]" "x = CHR ''-'' \<or> x = CHR ''+''" using assms(2) by auto
    then have "number_char z d True c x = Inr (z, d, True)" using assms(1) by (auto simp: number_char_def)
    then show ?thesis using x sep [of x] by auto
  qed simp
  also have "\<dots> = JsonParseAsNumber_loop rest (z, d, True) (last es) (out @ c # g @ es)"
  proof -
    have "last (c # g) \<noteq> CHR 0x00" using assms(1,2) by auto
    then show ?thesis using assms(3) number_loop_digits [of es d True z "last (c # g)" rest "out @ c # g"] by (simp add: digit_run_def)
  qed
  finally show ?thesis .
qed

lemma number_loop_end: "isdigit p \<Longrightarrow> JsonParseAsNumber_loop [] (z, d, x) p out
    = Ok (JSON_PARSE_OK, Ptr (Primitive NULL (if d then JSON_PRIMITIVE_TYPE_REAL else JSON_PRIMITIVE_TYPE_INTEGER) out), [p])"
  using digit_iff [of p] by (auto simp: number_end_def JsonElementCreatePrimitive_def)

lemma digit_run_last: "digit_run ds \<Longrightarrow> isdigit (last ds)"
  by (simp add: digit_run_def list_all_iff)

lemma json_number_read:
  assumes "json_number t v"
  shows "number_read t v"
proof -
  from assms obtain s ds f x where v: "v = s @ ds @ f @ x" "s \<in> {[], ''-''}" "digit_run ds" "hd ds = CHR ''0'' \<longrightarrow> ds = ''0''"
    and rest: "if t = JSON_PRIMITIVE_TYPE_REAL
        then (\<exists>fs. f = CHR ''.'' # fs \<and> digit_run fs)
          \<and> (x = [] \<or> (\<exists>c g es. x = c # g @ es \<and> c \<in> {CHR ''e'', CHR ''E''} \<and> g \<in> {[], ''-'', ''+''} \<and> digit_run es))
        else t = JSON_PRIMITIVE_TYPE_INTEGER \<and> f = [] \<and> x = []" unfolding json_number_def by blast
  obtain z where z: "JsonParseAsNumber v = JsonParseAsNumber_loop (f @ x) (z, False, False) (last ds) (s @ ds)"
    using number_loop_whole [OF v(2,3,4), of "f @ x"] v(1) by (auto simp: JsonParseAsNumber_def)
  have ne: "v \<noteq> []" using v(1,3) by (auto simp: digit_run_def)
  show ?thesis
  proof (cases "t = JSON_PRIMITIVE_TYPE_REAL")
    case False
    then show ?thesis using rest z v digit_run_last [OF v(3)] number_loop_end [of "last ds" z False False "s @ ds"] ne
      by (simp add: number_read_def digit_run_def)
  next
    case True
    then obtain fs where f: "f = CHR ''.'' # fs" "digit_run fs"
      "x = [] \<or> (\<exists>c g es. x = c # g @ es \<and> c \<in> {CHR ''e'', CHR ''E''} \<and> g \<in> {[], ''-'', ''+''} \<and> digit_run es)" using rest by auto
    have run: "JsonParseAsNumber v = JsonParseAsNumber_loop x (z, True, False) (last fs) (s @ ds @ f)"
      using z number_loop_fraction [OF f(2) digit_run_last [OF v(3)], of x z False "s @ ds"] f(1) by simp
    from f(3) show ?thesis
    proof (elim disjE exE conjE)
      assume "x = []"
      then show ?thesis using run v(1) f(1,2) True number_loop_end [OF digit_run_last [OF f(2)]] ne
        by (simp add: number_read_def digit_run_def)
    next
      fix c g es
      assume x: "x = c # g @ es" "c \<in> {CHR ''e'', CHR ''E''}" "g \<in> {[], ''-'', ''+''}" "digit_run es"
      then have "JsonParseAsNumber v = JsonParseAsNumber_loop [] (z, True, True) (last es) (s @ ds @ f @ x)"
        using run number_loop_exponent [OF x(2,3,4) digit_run_last [OF f(2)], of "[]"] by simp
      moreover have "last v = last es" using x(4) by (simp add: v(1) x(1) digit_run_def)
      ultimately show ?thesis using v(1) True number_loop_end [OF digit_run_last [OF x(4)]] ne by (simp add: number_read_def)
    qed
  qed
qed

lemma JsonParseAsNumber_loop_digit:
  "JsonParseAsNumber_loop v flags p out = Ok (JSON_PARSE_OK, Ptr e, q # rest) \<Longrightarrow> isdigit q"
proof (induction v flags p out rule: JsonParseAsNumber_loop.induct)
  case (1 z d e p out)
  then show ?case using digit_iff [of p] by (auto simp: number_end_def split: if_splits)
next
  case (2 c data z d e p out)
  then show ?case using digit_iff [of p]
    by (cases "number_char z d e p c"; cases "IsSeparator c") (auto simp: number_end_def split: if_splits)
qed

lemma parse_plain_number:
  assumes "number_read t v" "separated rest"
  shows "parse_plain lookup (v @ rest) = Ok (JSON_PARSE_OK, Ptr (Primitive NULL t v), last v # rest)" (is ?parsed)
    and "starts_number (hd v)" (is ?start) and "isdigit (last v)" (is ?digit)
proof -
  from assms(1) have v: "v \<noteq> []" "JsonParseAsNumber_loop v (False, False, False) (CHR 0x00) [] = Ok (JSON_PARSE_OK, Ptr (Primitive NULL t v), [last v])"
    by (auto simp: number_read_def JsonParseAsNumber_def)
  then obtain c w where cw: "v = c # w" by (cases v) auto
  show start: ?start using v(2) unfolding cw
    by (auto simp: number_char_def starts_number_def IsDigit_def number_end_def split: if_splits)
  show ?parsed using JsonParseAsNumber_loop_separated [OF v(2) assms(2)] start v(1)
    by (simp add: parse_plain_def JsonParseAsNumber_def)
  show ?digit using JsonParseAsNumber_loop_digit [OF v(2)] by simp
qed

lemma StringStartsWith_append: "length (pre @ rest) < 2 ^ 31 \<Longrightarrow> StringStartsWith (pre @ rest) pre"
  by (simp add: StringStartsWith_def starts_with_loop_prefix)

lemma parse_word_text:
  assumes "separated rest" "length (word @ rest) < 2 ^ 31" "word \<noteq> []"
  shows "parse_word word e (word @ rest) = Some (e, last word # rest)"
proof -
  have "drop (length word - 1) (word @ rest) = last word # rest"
    using assms(3) by (cases word rule: rev_cases) auto
  then show ?thesis using assms StringStartsWith_append [of word rest] by (auto simp: parse_word_def separated_def Let_def)
qed

lemma StringStartsWith_other: "c \<noteq> d \<Longrightarrow> \<not> StringStartsWith (c # s) (d # t)"
  by (simp add: StringStartsWith_def)

definition word_value :: "string \<Rightarrow> JsonElement option" where
  "word_value w = map_of [(''true'', JsonBoolCreate True), (''false'', JsonBoolCreate False), (''null'', JsonNullCreate)] w"

lemma parse_plain_word:
  assumes "word_value w = Some e" "separated rest" "length (w @ rest) < 2 ^ 31"
  shows "parse_plain lookup (w @ rest) = Ok (JSON_PARSE_OK, Ptr e, last w # rest)"
proof -
  have w: "w = ''true'' \<and> e = JsonBoolCreate True \<or> w = ''false'' \<and> e = JsonBoolCreate False \<or> w = ''null'' \<and> e = JsonNullCreate"
    using assms(1) by (auto simp: word_value_def split: if_splits)
  have start: "StringStartsWith (w @ rest) w" "parse_word w e (w @ rest) = Some (e, last w # rest)"
    using StringStartsWith_append [OF assms(3)] parse_word_text [OF assms(2,3)] w by auto
  have "\<not> starts_number (hd (w @ rest))" using w by (auto simp: starts_number_def IsDigit_def)
  with w start show ?thesis
    by (elim disjE conjE) (simp_all add: parse_plain_def JsonParseAsBoolean_def JsonParseAsNull_def StringStartsWith_other)
qed

section \<open>The grammar\<close>

abbreviation whitespace :: "string \<Rightarrow> bool" where
  "whitespace w \<equiv> list_all IsWhitespace w"

definition key_char :: "char \<Rightarrow> bool" where
  "key_char d \<longleftrightarrow> d = CHR ''-'' \<or> wc d"

text \<open>A key with what stands between it and its value.\<close>

inductive key_text :: "string \<Rightarrow> string \<Rightarrow> bool" where
  quoted: "string_text False s k k \<Longrightarrow> whitespace w \<Longrightarrow> key_text k (quote # s @ quote # w @ '':'')"
| bare: "wc c \<Longrightarrow> list_all key_char s \<Longrightarrow> whitespace w \<Longrightarrow> key_text (c # s) (c # s @ w @ '':'')"

text \<open>A later member replaces an earlier one of the same name.\<close>

definition add_member :: "JsonElement list \<Rightarrow> string \<times> JsonElement \<Rightarrow> JsonElement list" where
  "add_member cs m = remove_named (fst m) cs @ [JsonElementSetPropertyName (snd m) (Ptr (fst m))]"

inductive json_doc :: "(JsonPrimitiveType \<Rightarrow> string \<Rightarrow> bool) \<Rightarrow> JsonElement \<Rightarrow> string \<Rightarrow> bool"
  and doc_items :: "(JsonPrimitiveType \<Rightarrow> string \<Rightarrow> bool) \<Rightarrow> JsonElement list \<Rightarrow> string \<Rightarrow> bool"
  and doc_members :: "(JsonPrimitiveType \<Rightarrow> string \<Rightarrow> bool) \<Rightarrow> (string \<times> JsonElement) list \<Rightarrow> string \<Rightarrow> bool"
  for num :: "JsonPrimitiveType \<Rightarrow> string \<Rightarrow> bool" where
  string: "string_text True s m v \<Longrightarrow> json_doc num (Primitive NULL JSON_PRIMITIVE_TYPE_STRING v) (quote # s @ [quote])"
| number: "num t v \<Longrightarrow> json_doc num (Primitive NULL t v) v"
| word: "word_value w = Some e \<Longrightarrow> json_doc num e w"
| array: "doc_items num es u \<Longrightarrow> json_doc num (JArray NULL es) (CHR ''['' # u @ '']'')"
| object: "doc_members num ms u \<Longrightarrow> json_doc num (JObject NULL (foldl add_member [] ms)) (CHR ''{'' # u @ ''}'')"
| no_items: "whitespace w \<Longrightarrow> doc_items num [] w"
| last_item: "json_doc num e t \<Longrightarrow> whitespace w \<Longrightarrow> whitespace w' \<Longrightarrow> doc_items num [e] (w @ t @ w')"
| more_items: "json_doc num e t \<Longrightarrow> whitespace w \<Longrightarrow> whitespace w' \<Longrightarrow> doc_items num es u \<Longrightarrow> es \<noteq> [] \<Longrightarrow>
    doc_items num (e # es) (w @ t @ w' @ CHR '','' # u)"
| no_members: "whitespace w \<Longrightarrow> doc_members num [] w"
| last_member: "key_text k p \<Longrightarrow> json_doc num e t \<Longrightarrow> whitespace w \<Longrightarrow> whitespace w' \<Longrightarrow> whitespace w'' \<Longrightarrow>
    doc_members num [(k, e)] (w @ p @ w' @ t @ w'')"
| more_members: "key_text k p \<Longrightarrow> json_doc num e t \<Longrightarrow> whitespace w \<Longrightarrow> whitespace w' \<Longrightarrow> whitespace w'' \<Longrightarrow>
    doc_members num ms u \<Longrightarrow> ms \<noteq> [] \<Longrightarrow> doc_members num ((k, e) # ms) (w @ p @ w' @ t @ w'' @ CHR '','' # u)"

lemmas json_intros = json_doc_doc_items_doc_members.intros

text \<open>Documents with the numbers that the parser takes.\<close>

abbreviation json_text :: "JsonElement \<Rightarrow> string \<Rightarrow> bool" where
  "json_text \<equiv> json_doc number_read"

abbreviation items_text :: "JsonElement list \<Rightarrow> string \<Rightarrow> bool" where
  "items_text \<equiv> doc_items number_read"

abbreviation members_text :: "(string \<times> JsonElement) list \<Rightarrow> string \<Rightarrow> bool" where
  "members_text \<equiv> doc_members number_read"

lemma json_doc_mono:
  assumes "\<And>t v. num t v \<Longrightarrow> num' t v"
  shows "(json_doc num e t \<longrightarrow> json_doc num' e t) \<and> (doc_items num es u \<longrightarrow> doc_items num' es u)
    \<and> (doc_members num ms w \<longrightarrow> doc_members num' ms w)"
  by (induction rule: json_doc_doc_items_doc_members.induct) (auto intro: json_intros assms)

lemma json_doc_read: "json_doc json_number e t \<Longrightarrow> json_text e t"
  using json_doc_mono [of json_number number_read e t] json_number_read by blast

section \<open>The parser reads the grammar\<close>

definition enough :: "nat \<Rightarrow> string \<Rightarrow> bool" where
  "enough fuel data \<longleftrightarrow> 2 * length data + 1 \<le> fuel \<and> length data < 2 ^ 31"

definition reads_value :: "JsonElement \<Rightarrow> string \<Rightarrow> bool" where
  "reads_value e t \<longleftrightarrow> (\<forall>fuel rest. 2 * length (t @ rest) \<le> fuel \<longrightarrow> length (t @ rest) < 2 ^ 31 \<longrightarrow> separated rest \<longrightarrow>
     parse_value fuel NULL (t @ rest) = Ok (JSON_PARSE_OK, Ptr e, last t # rest))"

definition reads_items :: "JsonElement list \<Rightarrow> string \<Rightarrow> bool" where
  "reads_items es u \<longleftrightarrow> (\<forall>fuel rest cs p. enough fuel (u @ CHR '']'' # rest) \<longrightarrow> p = CHR ''['' \<or> p = CHR '','' \<longrightarrow>
     JsonParseAsArray_loop fuel NULL (u @ CHR '']'' # rest) (JArray NULL cs) p
       = Ok (JSON_PARSE_OK, Ptr (JArray NULL (cs @ es)), CHR '']'' # rest))"

definition reads_members :: "(string \<times> JsonElement) list \<Rightarrow> string \<Rightarrow> bool" where
  "reads_members ms u \<longleftrightarrow> (\<forall>fuel rest cs p. enough fuel (u @ CHR ''}'' # rest) \<longrightarrow> p = CHR ''{'' \<or> p = CHR '','' \<longrightarrow>
     JsonParseAsObject_loop fuel NULL (u @ CHR ''}'' # rest) (JObject NULL cs) NULL p
       = Ok (JSON_PARSE_OK, Ptr (JObject NULL (foldl add_member cs ms)), CHR ''}'' # rest))"

text \<open>Where a value can start and end.\<close>

definition value_start :: "char \<Rightarrow> bool" where
  "value_start c \<longleftrightarrow> \<not> IsWhitespace c \<and> c \<notin> set '',]:}''"

definition value_end :: "char \<Rightarrow> bool" where
  "value_end c \<longleftrightarrow> c \<notin> set '',[:{''"

lemma starts_number_value: "starts_number c \<Longrightarrow> value_start c \<and> c \<noteq> quote \<and> c \<noteq> CHR ''['' \<and> c \<noteq> CHR ''{''"
  by (auto simp: starts_number_def value_start_def IsWhitespace_def IsDigit_def)

lemma isdigit_value_end: "isdigit c \<Longrightarrow> value_end c"
  by (auto simp: isdigit_def value_end_def)

lemma json_text_ends:
  assumes "json_text e t"
  shows "t \<noteq> []" "value_start (hd t)" "value_end (last t)"
proof -
  from assms have "t \<noteq> [] \<and> value_start (hd t) \<and> value_end (last t)"
  proof (cases rule: json_doc.cases)
    case (number ty)
    then show ?thesis
      using parse_plain_number(2,3) [of ty t "[]"] starts_number_value [of "hd t"] isdigit_value_end [of "last t"]
      by (auto simp: number_read_def separated_def)
  qed (auto simp: value_start_def value_end_def IsWhitespace_def word_value_def split: if_splits)
  then show "t \<noteq> []" "value_start (hd t)" "value_end (last t)" by auto
qed

subsection \<open>White space\<close>

lemma array_loop_whitespace:
  "whitespace w \<Longrightarrow> JsonParseAsArray_loop (length w + fuel) lookup (w @ data) a p = JsonParseAsArray_loop fuel lookup data a p"
  by (induction w) (simp_all add: array_action_def)

lemma object_loop_whitespace:
  "whitespace w \<Longrightarrow> JsonParseAsObject_loop (length w + fuel) lookup (w @ data) ob name p = JsonParseAsObject_loop fuel lookup data ob name p"
  by (induction w) (simp_all add: object_action_def)

lemma array_skip:
  assumes "enough fuel (w @ data)" "whitespace w"
  obtains n where "enough (Suc n) data" "JsonParseAsArray_loop fuel lookup (w @ data) a p = JsonParseAsArray_loop (Suc n) lookup data a p"
proof -
  have "fuel = length w + Suc (fuel - length w - 1)" "enough (Suc (fuel - length w - 1)) data"
    using assms(1) by (auto simp: enough_def)
  then show thesis using that array_loop_whitespace [OF assms(2)] by metis
qed

lemma object_skip:
  assumes "enough fuel (w @ data)" "whitespace w"
  obtains n where "enough (Suc n) data"
    "JsonParseAsObject_loop fuel lookup (w @ data) ob name p = JsonParseAsObject_loop (Suc n) lookup data ob name p"
proof -
  have "fuel = length w + Suc (fuel - length w - 1)" "enough (Suc (fuel - length w - 1)) data"
    using assms(1) by (auto simp: enough_def)
  then show thesis using that object_loop_whitespace [OF assms(2)] by metis
qed

lemma enough_tl: "enough (Suc n) (c # data) \<Longrightarrow> enough n data"
  by (simp add: enough_def)

lemma separated_whitespace: "whitespace w \<Longrightarrow> separated rest \<Longrightarrow> separated (w @ rest)"
  by (cases w) (auto simp: separated_def IsSeparator_def)

lemma separated_simps [simp]: "separated (CHR '','' # rest)" "separated (CHR '']'' # rest)" "separated (CHR ''}'' # rest)"
  by (simp_all add: separated_def IsSeparator_def)

subsection \<open>Items of an array\<close>

text \<open>The loop reads white space and a value, and goes on behind the value.\<close>

lemma array_loop_item:
  assumes "reads_value e t" "json_text e t" "whitespace w" "separated rest" "p = CHR ''['' \<or> p = CHR '',''"
    and "enough fuel (w @ t @ rest)"
  shows "\<exists>fuel'. enough fuel' rest \<and>
    JsonParseAsArray_loop fuel NULL (w @ t @ rest) (JArray NULL cs) p = JsonParseAsArray_loop fuel' NULL rest (JArray NULL (cs @ [e])) (last t)"
proof -
  from array_skip [OF assms(6,3)] obtain m where m: "enough (Suc m) (t @ rest)"
    "JsonParseAsArray_loop fuel NULL (w @ t @ rest) (JArray NULL cs) p = JsonParseAsArray_loop (Suc m) NULL (t @ rest) (JArray NULL cs) p" .
  have t: "t \<noteq> []" "value_start (hd t)" using json_text_ends [OF assms(2)] by auto
  then have "array_action p (hd (t @ rest)) = Item" using assms(5) by (auto simp: array_action_def value_start_def)
  moreover have "parse_value m NULL (t @ rest) = Ok (JSON_PARSE_OK, Ptr e, last t # rest)"
    using assms(1,4) m(1) by (simp add: reads_value_def enough_def)
  ultimately have "JsonParseAsArray_loop (Suc m) NULL (t @ rest) (JArray NULL cs) p
      = JsonParseAsArray_loop m NULL rest (JArray NULL (cs @ [e])) (last t)"
    using t(1) by (simp add: JsonArrayAppendElement_eq step_past_def)
  moreover have "enough m rest" using m(1) t(1) by (cases t) (auto simp: enough_def)
  ultimately show ?thesis using m(2) by metis
qed

lemma array_loop_close:
  assumes "enough fuel (w @ CHR '']'' # rest)" "whitespace w"
  shows "JsonParseAsArray_loop fuel NULL (w @ CHR '']'' # rest) a p = Ok (JSON_PARSE_OK, Ptr a, CHR '']'' # rest)"
proof -
  from array_skip [OF assms] obtain m where
    "JsonParseAsArray_loop fuel NULL (w @ CHR '']'' # rest) a p = JsonParseAsArray_loop (Suc m) NULL (CHR '']'' # rest) a p" .
  then show ?thesis by (simp add: array_action_def IsWhitespace_def)
qed

lemma array_loop_comma:
  assumes "enough fuel (w @ CHR '','' # rest)" "whitespace w" "value_end p"
  shows "\<exists>fuel'. enough fuel' rest \<and>
    JsonParseAsArray_loop fuel NULL (w @ CHR '','' # rest) a p = JsonParseAsArray_loop fuel' NULL rest a (CHR '','')"
proof -
  from array_skip [OF assms(1,2)] obtain m where "enough (Suc m) (CHR '','' # rest)"
    "JsonParseAsArray_loop fuel NULL (w @ CHR '','' # rest) a p = JsonParseAsArray_loop (Suc m) NULL (CHR '','' # rest) a p" .
  then show ?thesis using assms(3) by (auto simp: array_action_def IsWhitespace_def value_end_def dest: enough_tl)
qed

lemma reads_items_last:
  assumes "reads_value e t" "json_text e t" "whitespace w" "whitespace w'"
  shows "reads_items [e] (w @ t @ w')"
  unfolding reads_items_def
proof (intro allI impI)
  fix fuel rest cs and p :: char
  assume fuel: "enough fuel ((w @ t @ w') @ CHR '']'' # rest)" and p: "p = CHR ''['' \<or> p = CHR '',''"
  from array_loop_item [OF assms(1,2,3) separated_whitespace [OF assms(4)] p, of "CHR '']'' # rest" fuel cs] fuel
  obtain m where m: "enough m (w' @ CHR '']'' # rest)"
    "JsonParseAsArray_loop fuel NULL (w @ t @ w' @ CHR '']'' # rest) (JArray NULL cs) p
      = JsonParseAsArray_loop m NULL (w' @ CHR '']'' # rest) (JArray NULL (cs @ [e])) (last t)" by auto
  then show "JsonParseAsArray_loop fuel NULL ((w @ t @ w') @ CHR '']'' # rest) (JArray NULL cs) p
      = Ok (JSON_PARSE_OK, Ptr (JArray NULL (cs @ [e])), CHR '']'' # rest)"
    using array_loop_close [OF m(1) assms(4)] by simp
qed

lemma reads_items_more:
  assumes "reads_value e t" "json_text e t" "whitespace w" "whitespace w'" "reads_items es u"
  shows "reads_items (e # es) (w @ t @ w' @ CHR '','' # u)"
  unfolding reads_items_def
proof (intro allI impI)
  fix fuel rest cs and p :: char
  let ?u = "u @ CHR '']'' # rest"
  assume fuel: "enough fuel ((w @ t @ w' @ CHR '','' # u) @ CHR '']'' # rest)" and p: "p = CHR ''['' \<or> p = CHR '',''"
  from array_loop_item [OF assms(1,2,3) separated_whitespace [OF assms(4)] p, of "CHR '','' # ?u" fuel cs] fuel
  obtain m where m: "enough m (w' @ CHR '','' # ?u)"
    "JsonParseAsArray_loop fuel NULL (w @ t @ w' @ CHR '','' # ?u) (JArray NULL cs) p
      = JsonParseAsArray_loop m NULL (w' @ CHR '','' # ?u) (JArray NULL (cs @ [e])) (last t)" by auto
  from array_loop_comma [OF m(1) assms(4) json_text_ends(3) [OF assms(2)], of "JArray NULL (cs @ [e])"]
  obtain k where k: "enough k ?u"
    "JsonParseAsArray_loop m NULL (w' @ CHR '','' # ?u) (JArray NULL (cs @ [e])) (last t)
      = JsonParseAsArray_loop k NULL ?u (JArray NULL (cs @ [e])) (CHR '','')" by auto
  have "JsonParseAsArray_loop k NULL ?u (JArray NULL (cs @ [e])) (CHR '','')
      = Ok (JSON_PARSE_OK, Ptr (JArray NULL ((cs @ [e]) @ es)), CHR '']'' # rest)"
    using assms(5) k(1) unfolding reads_items_def by blast
  then show "JsonParseAsArray_loop fuel NULL ((w @ t @ w' @ CHR '','' # u) @ CHR '']'' # rest) (JArray NULL cs) p
      = Ok (JSON_PARSE_OK, Ptr (JArray NULL (cs @ e # es)), CHR '']'' # rest)"
    using m(2) k(2) by simp
qed

subsection \<open>Members of an object\<close>

lemma wc_not_white: "wc c \<Longrightarrow> \<not> IsWhitespace c" "wc c \<Longrightarrow> c \<notin> set '',:{}[]-'' \<and> c \<noteq> quote"
  by (auto simp: wc_def isalnum_def isupper_def islower_def isdigit_def IsWhitespace_def)

lemma key_char_not: "IsWhitespace d \<Longrightarrow> \<not> key_char d" "\<not> key_char (CHR '':'')" "wc d \<Longrightarrow> key_char d"
  using wc_not_white(1) [of d] wc_not_white(2) [of "CHR '':''"] by (auto simp: key_char_def IsWhitespace_def)

lemma takeWhile_split:
  "list_all P s \<Longrightarrow> rest = [] \<or> \<not> P (hd rest) \<Longrightarrow> takeWhile P (s @ rest) = s"
  by (induction s) (auto simp: takeWhile_eq_Nil_iff)

lemma bare_key:
  assumes "wc c" "list_all key_char s" "whitespace w"
  shows "unquoted_key_with_colon (c # s @ w @ CHR '':'' # rest) = Some (length (c # s @ w))"
    and "key_before (length (c # s @ w)) (c # s @ w @ CHR '':'' # rest) = c # s"
proof -
  have "\<not> key_char (hd (w @ CHR '':'' # rest))" using assms(3) key_char_not by (cases w) auto
  then have "takeWhile key_char (s @ w @ CHR '':'' # rest) = s" by (intro takeWhile_split [OF assms(2)]) simp
  moreover have "takeWhile IsWhitespace (w @ CHR '':'' # rest) = w"
    by (intro takeWhile_split [OF assms(3)]) (simp add: IsWhitespace_def)
  ultimately show "unquoted_key_with_colon (c # s @ w @ CHR '':'' # rest) = Some (length (c # s @ w))"
    using assms(1) by (simp add: unquoted_key_with_colon_def key_char_def [abs_def] Let_def nth_append)
  have white: "\<forall>d \<in> set (c # s). \<not> IsWhitespace d"
    using assms(1,2) key_char_not(1,3) by (auto simp: list_all_iff)
  have "dropWhile IsWhitespace (rev w @ rev (c # s)) = dropWhile IsWhitespace (rev (c # s))"
    using assms(3) by (intro dropWhile_append2) (simp add: list_all_iff)
  also have "\<dots> = rev (c # s)" using white by (subst dropWhile_eq_self_iff) (simp add: hd_rev del: rev.simps)
  finally show "key_before (length (c # s @ w)) (c # s @ w @ CHR '':'' # rest) = c # s"
    by (simp add: key_before_def)
qed

lemma object_loop_key:
  assumes "key_text k q" "whitespace w" "p = CHR ''{'' \<or> p = CHR '',''" "enough fuel (w @ q @ rest)"
  shows "\<exists>fuel'. enough fuel' rest \<and>
    JsonParseAsObject_loop fuel NULL (w @ q @ rest) ob NULL p = JsonParseAsObject_loop fuel' NULL rest ob (Ptr k) (CHR '':'')"
  using assms(1)
proof cases
  case (quoted s w')
  let ?rest = "w' @ CHR '':'' # rest"
  from object_skip [OF assms(4,2)] obtain m where m: "enough (Suc m) (q @ rest)"
    "JsonParseAsObject_loop fuel NULL (w @ q @ rest) ob NULL p = JsonParseAsObject_loop (Suc m) NULL (q @ rest) ob NULL p" .
  have step: "JsonParseAsObject_loop (Suc m) NULL (q @ rest) ob NULL p = JsonParseAsObject_loop m NULL ?rest ob (Ptr k) quote"
    using assms(3) JsonParseAsString_loop_text [OF quoted(2), of ?rest "[]"]
    by (auto simp: quoted(1) object_action_def IsWhitespace_def JsonParseAsString_def step_past_def)
  have "enough m ?rest" using m(1) by (simp add: quoted(1) enough_def)
  from object_skip [OF this quoted(3)] obtain n where n: "enough (Suc n) (CHR '':'' # rest)"
    "JsonParseAsObject_loop m NULL ?rest ob (Ptr k) quote = JsonParseAsObject_loop (Suc n) NULL (CHR '':'' # rest) ob (Ptr k) quote" .
  then have "JsonParseAsObject_loop m NULL ?rest ob (Ptr k) quote = JsonParseAsObject_loop n NULL rest ob (Ptr k) (CHR '':'')"
    by (simp add: object_action_def IsWhitespace_def)
  then show ?thesis using m(2) step enough_tl [OF n(1)] by metis
next
  case (bare c s w')
  from object_skip [OF assms(4,2)] obtain m where m: "enough (Suc m) (q @ rest)"
    "JsonParseAsObject_loop fuel NULL (w @ q @ rest) ob NULL p = JsonParseAsObject_loop (Suc m) NULL (q @ rest) ob NULL p" .
  have "object_action False p c = BareKey" using wc_not_white [OF bare(3)] by (auto simp: object_action_def)
  then have "JsonParseAsObject_loop (Suc m) NULL (q @ rest) ob NULL p = JsonParseAsObject_loop m NULL rest ob (Ptr k) (CHR '':'')"
    using bare_key [OF bare(3,4,5), of rest] by (simp add: bare(1,2))
  moreover have "enough m rest" using m(1) by (simp add: bare(2) enough_def)
  ultimately show ?thesis using m(2) by metis
qed

lemma object_loop_value:
  assumes "reads_value e t" "json_text e t" "whitespace w" "separated rest" "enough fuel (w @ t @ rest)"
  shows "\<exists>fuel'. enough fuel' rest \<and>
    JsonParseAsObject_loop fuel NULL (w @ t @ rest) (JObject NULL cs) (Ptr k) p
      = JsonParseAsObject_loop fuel' NULL rest (JObject NULL (add_member cs (k, e))) NULL (last t)"
proof -
  from object_skip [OF assms(5,3)] obtain m where m: "enough (Suc m) (t @ rest)"
    "JsonParseAsObject_loop fuel NULL (w @ t @ rest) (JObject NULL cs) (Ptr k) p
      = JsonParseAsObject_loop (Suc m) NULL (t @ rest) (JObject NULL cs) (Ptr k) p" .
  have t: "t \<noteq> []" "value_start (hd t)" using json_text_ends [OF assms(2)] by auto
  then have "object_action True p (hd (t @ rest)) = Item" by (auto simp: object_action_def value_start_def)
  moreover have "parse_value m NULL (t @ rest) = Ok (JSON_PARSE_OK, Ptr e, last t # rest)"
    using assms(1,4) m(1) by (simp add: reads_value_def enough_def)
  ultimately have "JsonParseAsObject_loop (Suc m) NULL (t @ rest) (JObject NULL cs) (Ptr k) p
      = JsonParseAsObject_loop m NULL rest (JObject NULL (add_member cs (k, e))) NULL (last t)"
    using t(1) by (simp add: JsonObjectAppendElement_eq step_past_def add_member_def)
  moreover have "enough m rest" using m(1) t(1) by (cases t) (auto simp: enough_def)
  ultimately show ?thesis using m(2) by metis
qed

lemma object_loop_close:
  assumes "enough fuel (w @ CHR ''}'' # rest)" "whitespace w"
  shows "JsonParseAsObject_loop fuel NULL (w @ CHR ''}'' # rest) ob NULL p = Ok (JSON_PARSE_OK, Ptr ob, CHR ''}'' # rest)"
proof -
  from object_skip [OF assms] obtain m where
    "JsonParseAsObject_loop fuel NULL (w @ CHR ''}'' # rest) ob NULL p = JsonParseAsObject_loop (Suc m) NULL (CHR ''}'' # rest) ob NULL p" .
  then show ?thesis by (simp add: object_action_def IsWhitespace_def)
qed

lemma object_loop_comma:
  assumes "enough fuel (w @ CHR '','' # rest)" "whitespace w" "value_end p"
  shows "\<exists>fuel'. enough fuel' rest \<and>
    JsonParseAsObject_loop fuel NULL (w @ CHR '','' # rest) ob NULL p = JsonParseAsObject_loop fuel' NULL rest ob NULL (CHR '','')"
proof -
  from object_skip [OF assms(1,2)] obtain m where "enough (Suc m) (CHR '','' # rest)"
    "JsonParseAsObject_loop fuel NULL (w @ CHR '','' # rest) ob NULL p = JsonParseAsObject_loop (Suc m) NULL (CHR '','' # rest) ob NULL p" .
  then show ?thesis using assms(3) by (auto simp: object_action_def IsWhitespace_def value_end_def dest: enough_tl)
qed

text \<open>A whole member: the key and the value.\<close>

lemma object_loop_member:
  assumes "key_text k q" "reads_value e t" "json_text e t" "whitespace w" "whitespace w'" "separated rest"
    and "p = CHR ''{'' \<or> p = CHR '',''" "enough fuel (w @ q @ w' @ t @ rest)"
  shows "\<exists>fuel'. enough fuel' rest \<and>
    JsonParseAsObject_loop fuel NULL (w @ q @ w' @ t @ rest) (JObject NULL cs) NULL p
      = JsonParseAsObject_loop fuel' NULL rest (JObject NULL (add_member cs (k, e))) NULL (last t)"
proof -
  from object_loop_key [OF assms(1,4,7,8)] obtain m where m: "enough m (w' @ t @ rest)"
    "JsonParseAsObject_loop fuel NULL (w @ q @ w' @ t @ rest) (JObject NULL cs) NULL p
      = JsonParseAsObject_loop m NULL (w' @ t @ rest) (JObject NULL cs) (Ptr k) (CHR '':'')" by blast
  from object_loop_value [OF assms(2,3,5,6) m(1)] m(2) show ?thesis by metis
qed

lemma reads_members_last:
  assumes "key_text k q" "reads_value e t" "json_text e t" "whitespace w" "whitespace w'" "whitespace w''"
  shows "reads_members [(k, e)] (w @ q @ w' @ t @ w'')"
  unfolding reads_members_def
proof (intro allI impI)
  fix fuel rest cs and p :: char
  assume fuel: "enough fuel ((w @ q @ w' @ t @ w'') @ CHR ''}'' # rest)" and p: "p = CHR ''{'' \<or> p = CHR '',''"
  from object_loop_member [OF assms(1-5) separated_whitespace [OF assms(6)] p, of "CHR ''}'' # rest" fuel cs] fuel
  obtain m where m: "enough m (w'' @ CHR ''}'' # rest)"
    "JsonParseAsObject_loop fuel NULL (w @ q @ w' @ t @ w'' @ CHR ''}'' # rest) (JObject NULL cs) NULL p
      = JsonParseAsObject_loop m NULL (w'' @ CHR ''}'' # rest) (JObject NULL (add_member cs (k, e))) NULL (last t)" by auto
  then show "JsonParseAsObject_loop fuel NULL ((w @ q @ w' @ t @ w'') @ CHR ''}'' # rest) (JObject NULL cs) NULL p
      = Ok (JSON_PARSE_OK, Ptr (JObject NULL (foldl add_member cs [(k, e)])), CHR ''}'' # rest)"
    using object_loop_close [OF m(1) assms(6)] by simp
qed

lemma reads_members_more:
  assumes "key_text k q" "reads_value e t" "json_text e t" "whitespace w" "whitespace w'" "whitespace w''" "reads_members ms u"
  shows "reads_members ((k, e) # ms) (w @ q @ w' @ t @ w'' @ CHR '','' # u)"
  unfolding reads_members_def
proof (intro allI impI)
  fix fuel rest cs and p :: char
  let ?u = "u @ CHR ''}'' # rest" and ?cs = "add_member cs (k, e)"
  assume fuel: "enough fuel ((w @ q @ w' @ t @ w'' @ CHR '','' # u) @ CHR ''}'' # rest)" and p: "p = CHR ''{'' \<or> p = CHR '',''"
  from object_loop_member [OF assms(1-5) separated_whitespace [OF assms(6)] p, of "CHR '','' # ?u" fuel cs] fuel
  obtain m where m: "enough m (w'' @ CHR '','' # ?u)"
    "JsonParseAsObject_loop fuel NULL (w @ q @ w' @ t @ w'' @ CHR '','' # ?u) (JObject NULL cs) NULL p
      = JsonParseAsObject_loop m NULL (w'' @ CHR '','' # ?u) (JObject NULL ?cs) NULL (last t)" by auto
  from object_loop_comma [OF m(1) assms(6) json_text_ends(3) [OF assms(3)], of "JObject NULL ?cs"]
  obtain n where n: "enough n ?u"
    "JsonParseAsObject_loop m NULL (w'' @ CHR '','' # ?u) (JObject NULL ?cs) NULL (last t)
      = JsonParseAsObject_loop n NULL ?u (JObject NULL ?cs) NULL (CHR '','')" by auto
  have "JsonParseAsObject_loop n NULL ?u (JObject NULL ?cs) NULL (CHR '','')
      = Ok (JSON_PARSE_OK, Ptr (JObject NULL (foldl add_member ?cs ms)), CHR ''}'' # rest)"
    using assms(7) n(1) unfolding reads_members_def by blast
  then show "JsonParseAsObject_loop fuel NULL ((w @ q @ w' @ t @ w'' @ CHR '','' # u) @ CHR ''}'' # rest) (JObject NULL cs) NULL p
      = Ok (JSON_PARSE_OK, Ptr (JObject NULL (foldl add_member cs ((k, e) # ms))), CHR ''}'' # rest)"
    using m(2) n(2) by simp
qed

subsection \<open>Values\<close>

lemma reads_valueI:
  assumes "\<And>n rest. 2 * length (t @ rest) \<le> Suc n \<Longrightarrow> length (t @ rest) < 2 ^ 31 \<Longrightarrow> separated rest \<Longrightarrow>
    parse_value (Suc n) NULL (t @ rest) = Ok (JSON_PARSE_OK, Ptr e, last t # rest)" "t \<noteq> []"
  shows "reads_value e t"
  unfolding reads_value_def
proof (intro allI impI)
  fix fuel rest
  assume fuel: "2 * length (t @ rest) \<le> fuel" "length (t @ rest) < 2 ^ 31" "separated rest"
  then obtain n where "fuel = Suc n" using assms(2) by (cases fuel) auto
  then show "parse_value fuel NULL (t @ rest) = Ok (JSON_PARSE_OK, Ptr e, last t # rest)" using assms(1) fuel by simp
qed

lemma reads_array: "reads_items es u \<Longrightarrow> reads_value (JArray NULL es) (CHR ''['' # u @ '']'')"
  by (rule reads_valueI)
    (auto simp: step_past_def reads_items_def enough_def JsonArrayCreate_def JsonElementCreateContainer_def)

lemma reads_object: "reads_members ms u \<Longrightarrow> reads_value (JObject NULL (foldl add_member [] ms)) (CHR ''{'' # u @ ''}'')"
  by (rule reads_valueI)
    (auto simp: step_past_def reads_members_def enough_def JsonObjectCreate_def JsonElementCreateContainer_def)

lemma reads_plain:
  assumes "t \<noteq> []" "hd t \<noteq> quote" "hd t \<noteq> CHR ''[''" "hd t \<noteq> CHR ''{''"
    and "\<And>rest. separated rest \<Longrightarrow> length (t @ rest) < 2 ^ 31 \<Longrightarrow> parse_plain NULL (t @ rest) = Ok (JSON_PARSE_OK, Ptr e, last t # rest)"
  shows "reads_value e t"
proof (rule reads_valueI)
  fix n :: nat and rest
  assume "length (t @ rest) < 2 ^ 31" "separated rest"
  then show "parse_value (Suc n) NULL (t @ rest) = Ok (JSON_PARSE_OK, Ptr e, last t # rest)"
    using assms by (cases t) (simp_all add: step_past_def)
qed (fact assms(1))

lemma reads_grammar:
  "(json_text e t \<longrightarrow> reads_value e t) \<and> (items_text es u \<longrightarrow> reads_items es u) \<and> (members_text ms v \<longrightarrow> reads_members ms v)"
proof (induction rule: json_doc_doc_items_doc_members.induct)
  case (string s m v)
  then show ?case using parse_string_element_text [OF string] by (intro reads_valueI) (simp_all add: step_past_def)
next
  case (number t v)
  have "v \<noteq> []" "starts_number (hd v)"
    using number parse_plain_number(2) [OF number, of "[]"] by (auto simp: number_read_def separated_def)
  then show ?case using starts_number_value [of "hd v"] parse_plain_number(1) [OF number] by (intro reads_plain) auto
next
  case (word w e)
  then have "w \<noteq> []" "hd w \<noteq> quote" "hd w \<noteq> CHR ''[''" "hd w \<noteq> CHR ''{''"
    by (auto simp: word_value_def split: if_splits)
  then show ?case using parse_plain_word [OF word] by (intro reads_plain) auto
next
  case (no_items w)
  then show ?case using array_loop_close by (simp add: reads_items_def)
next
  case (no_members w)
  then show ?case using object_loop_close by (simp add: reads_members_def)
qed (simp_all add: reads_array reads_object reads_items_last reads_items_more reads_members_last reads_members_more)

section \<open>The parser reads every document of the grammar\<close>

lemma loop_leading_whitespace:
  "whitespace w \<Longrightarrow> JsonParseWithLookup_loop lookup fuel (w @ data) = JsonParseWithLookup_loop lookup fuel data"
  by (induction w) (auto simp: IsWhitespace_def)

lemma value_document:
  assumes "json_text e t" "separated rest" "2 * length (t @ rest) + 2 \<le> fuel" "length (t @ rest) < 2 ^ 31"
  shows "JsonParseWithLookup_loop NULL fuel (t @ rest) = Ok (JSON_PARSE_OK, Ptr e, last t # rest)"
proof -
  have "parse_value (Suc fuel) NULL (t @ rest) = Ok (JSON_PARSE_OK, Ptr e, last t # rest)"
    using reads_grammar assms unfolding reads_value_def by (metis add_leD1 le_SucI)
  moreover obtain c s where t: "t = c # s" "\<not> IsWhitespace c" using json_text_ends(1,2) [OF assms(1)]
    by (cases t) (auto simp: value_start_def)
  ultimately show ?thesis
    by (auto simp: JsonParseAsArray_def JsonParseAsObject_def JsonParseAsPrimitive_eq parse_string_element_def step_past_def
      split: if_splits)
qed

lemma JsonParse_document:
  assumes "json_text e t" "whitespace w" "whitespace w'" "length (w @ t @ w') < 2 ^ 31"
  shows "JsonParse (Ptr (w @ t @ w')) = Ok (JSON_PARSE_OK, Ptr e, last t # w')"
  using value_document [OF assms(1) separated_whitespace [OF assms(3), of "[]"], of "2 * length (w @ t @ w') + 2"] assms
  by (simp add: JsonParse_def JsonParseWithLookup_def loop_leading_whitespace separated_def)

lemma whitespace_isspace: "whitespace w \<Longrightarrow> list_all isspace w"
  by (induction w) (auto simp: IsWhitespace_def isspace_def)

text \<open>
  C18: The parser implements the grammar: JsonParse and JsonParseAll read a document of JSON, with or without quotes
  around keys and with white space around it, as the element the grammar gives it, and leave the pointer on its
  last character. The grammar leaves out numbers with an exponent and no fraction, an escaped backslash before a
  character that forms an escape with it, and unicode escapes in keys or beyond one byte. (A text is shorter
  than 2 ^ 31 because StringStartsWith keeps lengths in an int.)
\<close>

theorem JsonParseAll_grammar:
  assumes "json_doc json_number e t" "whitespace w" "whitespace w'" "length (w @ t @ w') < 2 ^ 31"
  shows "JsonParse (Ptr (w @ t @ w')) = Ok (JSON_PARSE_OK, Ptr e, last t # w')
    \<and> JsonParseAll (Ptr (w @ t @ w')) = Ok (JSON_PARSE_OK, Ptr e, last t # w')"
  using JsonParse_document [OF json_doc_read [OF assms(1)] assms(2-)] whitespace_isspace [OF assms(3)]
  by (simp add: JsonParseAll_def JsonParse_def)

theorem JsonParseAll_grammar_witness:
  "JsonParse (Ptr ''{k : [-1.5e3, true]} '') = Ok (JSON_PARSE_OK, Ptr (JObject NULL [JArray (Ptr ''k'')
       [Primitive NULL JSON_PRIMITIVE_TYPE_REAL ''-1.5e3'', JsonBoolCreate True]]), ''} '')
   \<and> JsonParseAll (Ptr ''{k : [-1.5e3, true]} '') = Ok (JSON_PARSE_OK, Ptr (JObject NULL [JArray (Ptr ''k'')
       [Primitive NULL JSON_PRIMITIVE_TYPE_REAL ''-1.5e3'', JsonBoolCreate True]]), ''} '')"
proof -
  let ?num = "Primitive NULL JSON_PRIMITIVE_TYPE_REAL ''-1.5e3''" and ?white = "'' ''" and ?doc = "json_doc json_number"
  have white: "whitespace []" "whitespace ?white" by (simp_all add: IsWhitespace_def)
  have "\<exists>c g es. ''e3'' = c # g @ es \<and> c \<in> {CHR ''e'', CHR ''E''} \<and> g \<in> {[], ''-'', ''+''} \<and> digit_run es"
    by (intro exI [of _ "CHR ''e''"] exI [of _ "[]"] exI [of _ "''3''"]) (simp add: digit_run_def isdigit_def)
  then have "json_number JSON_PRIMITIVE_TYPE_REAL (''-'' @ ''1'' @ ''.5'' @ ''e3'')"
    unfolding json_number_def by (intro exI [of _ "''-''"] exI [of _ "''1''"] exI [of _ "''.5''"] exI [of _ "''e3''"])
      (simp add: digit_run_def isdigit_def)
  then have num: "?doc ?num ''-1.5e3''" by (intro json_intros(2)) simp
  have true: "?doc (JsonBoolCreate True) ''true''" by (rule json_intros(3)) (simp add: word_value_def)
  have "doc_items json_number [?num, JsonBoolCreate True] ([] @ ''-1.5e3'' @ [] @ CHR '','' # ?white @ ''true'' @ [])"
    by (intro json_intros(8) json_intros(7) num true white) simp
  then have "?doc (JArray NULL [?num, JsonBoolCreate True]) (CHR ''['' # ''-1.5e3, true'' @ '']'')"
    by (intro json_intros(4)) simp
  moreover have "key_text [CHR ''k''] (CHR ''k'' # [] @ ?white @ '':'')"
    by (rule key_text.bare) (simp_all add: wc_def isalnum_def isupper_def islower_def IsWhitespace_def)
  ultimately have "doc_members json_number [(''k'', JArray NULL [?num, JsonBoolCreate True])]
      ([] @ (CHR ''k'' # [] @ ?white @ '':'') @ ?white @ (CHR ''['' # ''-1.5e3, true'' @ '']'') @ [])"
    by (intro json_intros(10) white)
  then have doc: "?doc (JObject NULL (foldl add_member [] [(''k'', JArray NULL [?num, JsonBoolCreate True])]))
      (CHR ''{'' # ''k : [-1.5e3, true]'' @ ''}'')"
    by (intro json_intros(5)) simp
  show ?thesis using JsonParseAll_grammar [OF doc white] by (simp add: add_member_def)
qed

text \<open>A number with an exponent and no fraction is read as an integer.\<close>

lemma JsonParse_exponent_integer:
  "JsonParse (Ptr ''1e5'') = Ok (JSON_PARSE_OK, Ptr (Primitive NULL JSON_PRIMITIVE_TYPE_INTEGER ''1e5''), ''5'')"
  by code_simp

end
