(* ===== verification/JsonRoundTrip.thy ===== *)
theory JsonRoundTrip
  imports JsonGrammar
begin

text \<open>
  What the printers of libutils/json.c write is a text of the grammar, so that the parser reads it back:
  the round trip between JSON elements and their texts, for the pretty and the compact printer.
\<close>

section \<open>Strings\<close>

definition control_escapes :: "char set" where
  "control_escapes = {CHR 0x08, CHR 0x0C, CHR 0x0A, CHR 0x0D, CHR 0x09}"

text \<open>A character that can stand behind a backslash in a value, because it does not form an escape with it.\<close>

definition harmless :: "char \<Rightarrow> bool" where
  "harmless d \<longleftrightarrow> d \<notin> escape_letters \<and> (CharIsPrintableAscii d \<or> d \<in> control_escapes)"

fun value_string :: "string \<Rightarrow> bool" where
  "value_string [] = True"
| "value_string (c # s) \<longleftrightarrow> c \<noteq> CHR 0x00 \<and> (c = backslash \<longrightarrow> s = [] \<or> harmless (hd s)) \<and> value_string s"

definition key_string :: "string \<Rightarrow> bool" where
  "key_string k \<longleftrightarrow> list_all (\<lambda>c. CharIsPrintableAscii c \<or> c \<in> control_escapes) k"

lemma nibble_hex_digit: "d < 16 \<Longrightarrow> nibble (hex_digit d) = Some d"
proof -
  assume "d < 16"
  then have "d \<in> set [0..<16]" by simp
  moreover have "list_all (\<lambda>d. nibble (hex_digit d) = Some d) [0..<16]" by code_simp
  ultimately show ?thesis by (simp add: list_all_iff)
qed

lemma unicode_value_escape:
  assumes "c \<noteq> CHR 0x00"
  shows "unicode_value [CHR ''0'', CHR ''0'', hex_digit (of_char c div 16), hex_digit (of_char c mod 16)] = Some c"
proof -
  let ?n = "of_char c :: nat"
  have n: "?n < 256" by simp
  then have div: "?n div 16 < 16" using less_mult_imp_div_less [of ?n 16 16] by simp
  have "nibble (CHR ''0'') = Some 0" by (simp add: nibble_def)
  moreover have "?n div 16 * 16 + ?n mod 16 = ?n" by simp
  moreover have "0 < ?n" using assms of_char_eq_iff [of c "CHR 0x00", where 'a = nat] by simp
  ultimately show ?thesis using n nibble_hex_digit [OF div] nibble_hex_digit [of "?n mod 16"]
    by (simp add: unicode_value_def)
qed

lemma encode_char_cases:
  obtains (escape) d where "encode_char c = [backslash, d]" "escape_value d = Some c" "c = quote \<or> c \<in> control_escapes" "d \<noteq> backslash"
  | (backslash) "c = backslash" "encode_char c = [backslash, backslash]"
  | (plain) "encode_char c = [c]" "c \<noteq> quote" "c \<noteq> backslash" "CharIsPrintableAscii c"
  | (unicode) "encode_char c = backslash # CHR ''u'' # [CHR ''0'', CHR ''0'', hex_digit (of_char c div 16), hex_digit (of_char c mod 16)]"
      "\<not> CharIsPrintableAscii c" "c \<notin> control_escapes"
proof -
  consider "c = quote" | "c = backslash" | "c \<in> control_escapes" | "c \<noteq> quote" "c \<noteq> backslash" "c \<notin> control_escapes" by blast
  then show thesis
  proof cases
    case 3
    then show ?thesis using escape by (auto simp: control_escapes_def encode_char_def escape_value_def)
  next
    case 4
    then show ?thesis using plain unicode by (auto simp: control_escapes_def encode_char_def unicode_escape_def)
  qed (use escape [of quote] backslash in \<open>simp_all add: encode_char_def escape_value_def\<close>)
qed

lemma JsonEncodeString_value:
  "value_string v \<Longrightarrow> \<exists>m. string_text True (JsonEncodeString v) m v \<and> (v \<noteq> [] \<and> harmless (hd v) \<longrightarrow> m \<noteq> [] \<and> hd m = hd v) \<and> (v = [] \<longrightarrow> m = [])"
proof (induction v)
  case Nil
  then show ?case by (auto simp: JsonEncodeString_def intro: string_text.empty)
next
  case (Cons c v)
  then obtain m where m: "string_text True (JsonEncodeString v) m v" "v \<noteq> [] \<and> harmless (hd v) \<longrightarrow> m \<noteq> [] \<and> hd m = hd v" "v = [] \<longrightarrow> m = []"
    by auto
  show ?case
  proof (cases c rule: encode_char_cases)
    case (escape d)
    then have "string_text True (JsonEncodeString (c # v)) (c # m) (c # v)"
      using string_text.escape [OF m(1) escape(2,4)] by (simp add: JsonEncodeString_def)
    then show ?thesis by (intro exI [of _ "c # m"]) simp
  next
    case backslash
    have "m = [] \<or> hd m \<notin> escape_letters" using Cons.prems m(2,3) backslash(1) by (auto simp: harmless_def)
    then have "string_text True (JsonEncodeString (c # v)) (c # m) (c # v)"
      using string_text.escaped_backslash [OF m(1)] backslash by (simp add: JsonEncodeString_def)
    then show ?thesis by (intro exI [of _ "c # m"]) simp
  next
    case plain
    then have "string_text True (JsonEncodeString (c # v)) (c # m) (c # v)"
      using string_text.plain [OF m(1) plain(2,3)] by (simp add: JsonEncodeString_def)
    then show ?thesis by (intro exI [of _ "c # m"]) simp
  next
    case unicode
    then have "\<not> harmless c" by (simp add: harmless_def)
    moreover have "\<exists>m'. string_text True (JsonEncodeString (c # v)) m' (c # v)"
      using string_text.unicode [OF m(1) unicode_value_escape [of c]] Cons.prems unicode(1) by (auto simp: JsonEncodeString_def)
    ultimately show ?thesis by auto
  qed
qed

lemma JsonEncodeString_key: "key_string k \<Longrightarrow> string_text False (JsonEncodeString k) k k"
proof (induction k)
  case Nil
  then show ?case by (simp add: JsonEncodeString_def string_text.empty)
next
  case (Cons c k)
  then have k: "string_text False (JsonEncodeString k) k k" "CharIsPrintableAscii c \<or> c \<in> control_escapes"
    by (auto simp: key_string_def)
  show ?case
    by (cases c rule: encode_char_cases)
      (use k in \<open>auto simp: JsonEncodeString_def intro: string_text.escape string_text.escaped_backslash string_text.plain\<close>)
qed

section \<open>Sorted members\<close>

definition key_of :: "JsonElement \<Rightarrow> string" where
  "key_of e = the (propertyName e)"

definition key_order :: "JsonElement \<Rightarrow> JsonElement \<Rightarrow> bool" where
  "key_order a b \<longleftrightarrow> strcmp (key_of a) (key_of b) \<le> 0"

interpretation keys: comparator "range Ptr" "\<lambda>x y. JsonElementPropertyCompare x y u"
  by unfold_locales (auto simp: JsonElementPropertyCompare_def strcmp_sym intro: strcmp_trans)

lemma JsonSort_keys:
  assumes "length cs < 2 ^ 31"
  shows "\<exists>ds. JsonSort (Container name t cs) JsonElementPropertyCompare = Ok (Container name t ds)
    \<and> mset ds = mset cs \<and> sorted_wrt key_order ds"
proof -
  have "seq_rep (children_seq cs) (map Ptr cs)"
    by (simp add: seq_rep_def stores_def children_seq_def nth_append)
  from SeqSort_rep [where C = JsonElementPropertyCompare and u = NULL, OF keys.comparator_axioms this] assms
  obtain s ys where s: "SeqSort (children_seq cs) JsonElementPropertyCompare NULL = Ok s" "seq_rep s ys"
    "mset ys = mset (map Ptr cs)" "comparator.ordered (\<lambda>x y. JsonElementPropertyCompare x y NULL) ys" by auto
  have "set ys = Ptr ` set cs" using mset_eq_setD [OF s(3)] by simp
  then have ys: "map Ptr (map the ys) = ys" by (subst map_map) (rule map_idI, auto)
  have "seq_children s = Ok (map the ys)" using seq_repD [OF s(2)] by (simp add: seq_children_def)
  moreover have "mset (map the ys) = mset cs" using s(3) arg_cong [of "mset ys" "mset (map Ptr cs)" "image_mset the"]
    by (simp add: multiset.map_comp comp_def)
  moreover have "sorted_wrt key_order (map the ys)"
    using s(4) unfolding keys.ordered_def
    by (simp add: sorted_wrt_map key_order_def key_of_def JsonElementPropertyCompare_def)
  ultimately show ?thesis using s(1) by (auto simp: JsonSort_def with_children_def)
qed

text \<open>The same document with the members of every object sorted by name.\<close>

inductive reordered :: "JsonElement \<Rightarrow> JsonElement \<Rightarrow> bool" where
  primitive: "reordered (Primitive name t v) (Primitive name t v)"
| array: "list_all2 reordered cs ds \<Longrightarrow> reordered (JArray name cs) (JArray name ds)"
| object: "mset cs' = mset cs \<Longrightarrow> sorted_wrt key_order cs' \<Longrightarrow> list_all2 reordered cs' ds \<Longrightarrow> reordered (JObject name cs) (JObject name ds)"
  monos list_all2_mono

lemma reordered_name: "reordered e d \<Longrightarrow> propertyName d = propertyName e"
  by (induction rule: reordered.induct) auto

lemma reordered_names: "list_all2 reordered cs ds \<Longrightarrow> map propertyName ds = map propertyName cs"
  by (induction rule: list_all2_induct) (auto dest: reordered_name)

section \<open>Elements that can be printed and read back\<close>

definition primitive_printable :: "JsonPrimitiveType \<Rightarrow> string \<Rightarrow> bool" where
  "primitive_printable t v = (case t of
     JSON_PRIMITIVE_TYPE_STRING \<Rightarrow> value_string v
   | JSON_PRIMITIVE_TYPE_BOOL \<Rightarrow> v = JSON_TRUE \<or> v = JSON_FALSE
   | JSON_PRIMITIVE_TYPE_NULL \<Rightarrow> v = JSON_NULL
   | _ \<Rightarrow> number_read t v)"

fun printable :: "JsonElement \<Rightarrow> bool" where
  "printable (Primitive name t v) \<longleftrightarrow> primitive_printable t v"
| "printable (Container name t cs) \<longleftrightarrow> list_all printable cs \<and> length cs < 2 ^ 31
     \<and> (if t = JSON_CONTAINER_TYPE_OBJECT
        then NULL \<notin> set (map propertyName cs) \<and> list_all (key_string \<circ> key_of) cs \<and> distinct (map propertyName cs)
        else set (map propertyName cs) \<subseteq> {NULL})"

definition unnamed :: "JsonElement \<Rightarrow> JsonElement" where
  "unnamed e = JsonElementSetPropertyName e NULL"

lemma unnamed_id [simp]: "propertyName e = NULL \<Longrightarrow> unnamed e = e"
  by (cases e) (simp_all add: unnamed_def)

lemma unnamed_simps [simp]:
  "unnamed (Container name ct cs) = Container NULL ct cs" "unnamed (Primitive name pt v) = Primitive NULL pt v"
  by (simp_all add: unnamed_def)

lemma name_unnamed [simp]: "propertyName e = Ptr k \<Longrightarrow> JsonElementSetPropertyName (unnamed e) (Ptr k) = e"
  by (cases e) auto

lemma JsonPrimitiveWrite_text:
  assumes "printable e" "\<not> is_container e"
  shows "json_text (unnamed e) (JsonPrimitiveWrite e 0)"
proof -
  from assms obtain name t v where e: "e = Primitive name t v" by (cases e) auto
  have indent: "PrintIndent 0 = []" by (simp add: PrintIndent_def)
  show ?thesis
  proof (cases t)
    case JSON_PRIMITIVE_TYPE_STRING
    then show ?thesis using assms(1) JsonEncodeString_value [of v]
      by (auto simp: e JsonPrimitiveWrite_def indent primitive_printable_def intro: json_doc_doc_items_doc_members.string)
  qed (use assms(1) in \<open>auto simp: e JsonPrimitiveWrite_def indent primitive_printable_def word_value_def
      JsonBoolCreate_def JsonNullCreate_def JsonElementCreatePrimitive_def JSON_TRUE_def JSON_FALSE_def JSON_NULL_def
      intro: json_doc_doc_items_doc_members.number json_doc_doc_items_doc_members.word\<close>)
qed

section \<open>White space around items and members\<close>

lemmas grammar = json_intros [where num = number_read]

lemma items_text_before:
  assumes "items_text es u" "whitespace w"
  shows "items_text es (w @ u)"
  using assms(1)
proof cases
  case (last_item e t w1 w2)
  then show ?thesis using grammar(7) [of e t "w @ w1" w2] assms(2) by simp
next
  case (more_items e t w1 w2 es' u')
  then show ?thesis using grammar(8) [of e t "w @ w1" w2 es' u'] assms(2) by simp
qed (use assms(2) in \<open>auto intro: grammar(6)\<close>)

lemma members_text_before:
  assumes "members_text ms u" "whitespace w"
  shows "members_text ms (w @ u)"
  using assms(1)
proof cases
  case (last_member k p e t w1 w2 w3)
  then show ?thesis using grammar(10) [of k p e t "w @ w1" w2 w3] assms(2) by simp
next
  case (more_members k p e t w1 w2 w3 ms' u')
  then show ?thesis using grammar(11) [of k p e t "w @ w1" w2 w3 ms' u'] assms(2) by simp
qed (use assms(2) in \<open>auto intro: grammar(9)\<close>)

lemma texts_after:
  "(json_text e t \<longrightarrow> True) \<and> (items_text es u \<longrightarrow> (\<forall>w. whitespace w \<longrightarrow> items_text es (u @ w)))
     \<and> (members_text ms v \<longrightarrow> (\<forall>w. whitespace w \<longrightarrow> members_text ms (v @ w)))"
proof (induction rule: json_doc_doc_items_doc_members.induct)
  case (last_item e t w1 w2)
  then show ?case using grammar(7) [of e t w1 "w2 @ w" for w] by simp
next
  case (more_items e t w1 w2 es u)
  then show ?case using grammar(8) [of e t w1 w2 es "u @ w" for w] by simp
next
  case (last_member k p e t w1 w2 w3)
  then show ?case using grammar(10) [of k p e t w1 w2 "w3 @ w" for w] by simp
next
  case (more_members k p e t w1 w2 w3 ms u)
  then show ?case using grammar(11) [of k p e t w1 w2 w3 ms "u @ w" for w] by simp
qed (auto intro: grammar(6,9))

lemma items_text_after: "items_text es u \<Longrightarrow> whitespace w \<Longrightarrow> items_text es (u @ w)"
  and members_text_after: "members_text ms u \<Longrightarrow> whitespace w \<Longrightarrow> members_text ms (u @ w)"
  using texts_after [of undefined undefined es u ms u] by blast+

text \<open>Members with different names are the children of the object.\<close>

lemma foldl_add_member:
  "distinct (map propertyName (cs @ ds)) \<Longrightarrow> NULL \<notin> set (map propertyName ds) \<Longrightarrow>
   foldl add_member cs (map (\<lambda>d. (key_of d, unnamed d)) ds) = cs @ ds"
proof (induction ds arbitrary: cs)
  case (Cons d ds)
  then have "propertyName d = Ptr (key_of d)" by (auto simp: key_of_def)
  moreover from this Cons.prems have "add_member cs (key_of d, unnamed d) = cs @ [d]"
    using remove_named_missing [of "key_of d" cs] by (auto simp: add_member_def)
  ultimately show ?case using Cons.IH [of "cs @ [d]"] Cons.prems by simp
qed simp

section \<open>Printers\<close>

text \<open>
  What the two printers have in common: they differ in the white space they write. The first component
  of the result is the text, the second the element as printing leaves it.
\<close>

locale json_printer =
  fixes container :: "nat \<Rightarrow> JsonElement \<Rightarrow> nat \<Rightarrow> (string \<times> JsonElement) res"
    and items members :: "nat \<Rightarrow> JsonElement list \<Rightarrow> nat \<Rightarrow> (string \<times> JsonElement list) res"
    and start before colon after finish :: "nat \<Rightarrow> string"
  assumes container_Suc:
    "container (Suc fuel) (Container name t cs) i =
       (if t = JSON_CONTAINER_TYPE_OBJECT
        then bindE (c_assert (all_children_have_keys cs)) (\<lambda>_.
             bindE (JsonSort (Container name t cs) JsonElementPropertyCompare) (\<lambda>sorted.
             bindE (members fuel (children sorted) i) (\<lambda>(text, ds).
             Ok (CHR ''{'' # start i @ text @ finish i @ ''}'', Container name t ds))))
        else if cs = [] then Ok (''[]'', Container name t cs)
        else bindE (items fuel cs i) (\<lambda>(text, ds). Ok (CHR ''['' # start i @ text @ finish i @ '']'', Container name t ds)))"
    and items_Nil: "items fuel [] i = Ok ([], [])"
    and items_Cons: "items fuel (c # cs) i =
       bindE (if is_container c then container fuel c (i + 1) else Ok (JsonPrimitiveWrite c 0, c)) (\<lambda>(t, d).
       bindE (items fuel cs i) (\<lambda>(ts, ds).
       Ok (before i @ t @ (if cs \<noteq> [] then '','' else []) @ after i @ ts, d # ds)))"
    and members_Nil: "members fuel [] i = Ok ([], [])"
    and members_Cons: "propertyName c = Ptr key \<Longrightarrow> members fuel (c # cs) i =
       bindE (if is_container c then container fuel c (i + 1) else Ok (JsonPrimitiveWrite c 0, c)) (\<lambda>(t, d).
       bindE (members fuel cs i) (\<lambda>(ts, ds).
       Ok (before i @ (quote # JsonEncodeString key @ quote # '':'') @ colon i @ t @ (if cs \<noteq> [] then '','' else []) @ after i @ ts, d # ds)))"
    and white: "whitespace (start i)" "whitespace (before i)" "whitespace (colon i)" "whitespace (after i)" "whitespace (finish i)"
begin

definition prints :: "nat \<Rightarrow> JsonElement \<Rightarrow> bool" where
  "prints fuel e \<longleftrightarrow> (\<forall>i. \<exists>t d. (if is_container e then container fuel e i else Ok (JsonPrimitiveWrite e 0, e)) = Ok (t, d)
     \<and> reordered e d \<and> json_text (unnamed d) t)"

lemma printsD:
  "prints fuel e \<Longrightarrow> \<exists>t d. (if is_container e then container fuel e i else Ok (JsonPrimitiveWrite e 0, e)) = Ok (t, d)
     \<and> reordered e d \<and> json_text (unnamed d) t"
  by (simp add: prints_def)

lemma prints_items:
  "list_all (prints fuel) cs \<Longrightarrow> set (map propertyName cs) \<subseteq> {NULL} \<Longrightarrow>
   \<exists>u ds. items fuel cs i = Ok (u, ds) \<and> list_all2 reordered cs ds \<and> items_text ds u"
proof (induction cs)
  case Nil
  then show ?case by (simp add: items_Nil grammar(6))
next
  case (Cons c cs)
  then obtain u ds where u: "items fuel cs i = Ok (u, ds)" "list_all2 reordered cs ds" "items_text ds u" by auto
  from Cons.prems(1) have "prints fuel c" by simp
  from printsD [OF this, of "i + 1"] obtain t d where
    d: "(if is_container c then container fuel c (i + 1) else Ok (JsonPrimitiveWrite c 0, c)) = Ok (t, d)"
    "reordered c d" "json_text (unnamed d) t" by blast
  have name: "unnamed d = d" using Cons.prems reordered_name [OF d(2)] by simp
  have "items_text (d # ds) (before i @ t @ (if cs \<noteq> [] then '','' else []) @ after i @ u)"
  proof (cases "cs = []")
    case True
    then show ?thesis using u(1,2) d(3) name grammar(7) [of d t "before i" "after i"] white by (simp add: items_Nil)
  next
    case False
    then have "ds \<noteq> []" using u(2) by auto
    then show ?thesis using False d(3) name grammar(8) [of d t "before i" "[]" ds "after i @ u"] items_text_before [OF u(3)] white by simp
  qed
  then show ?case using u(1,2) d(1,2) by (simp add: items_Cons)
qed

lemma prints_members:
  "list_all (prints fuel) cs \<Longrightarrow> NULL \<notin> set (map propertyName cs) \<Longrightarrow> list_all (key_string \<circ> key_of) cs \<Longrightarrow>
   \<exists>u ds. members fuel cs i = Ok (u, ds) \<and> list_all2 reordered cs ds \<and> members_text (map (\<lambda>d. (key_of d, unnamed d)) ds) u"
proof (induction cs)
  case Nil
  then show ?case by (simp add: members_Nil grammar(9))
next
  case (Cons c cs)
  then obtain u ds where u: "members fuel cs i = Ok (u, ds)" "list_all2 reordered cs ds"
    "members_text (map (\<lambda>d. (key_of d, unnamed d)) ds) u" by auto
  from Cons.prems(1) have "prints fuel c" by simp
  from printsD [OF this, of "i + 1"] obtain t d where
    d: "(if is_container c then container fuel c (i + 1) else Ok (JsonPrimitiveWrite c 0, c)) = Ok (t, d)"
    "reordered c d" "json_text (unnamed d) t" by blast
  have name: "propertyName c = Ptr (key_of c)" "key_of d = key_of c"
    using Cons.prems reordered_name [OF d(2)] by (auto simp: key_of_def)
  have "string_text False (JsonEncodeString (key_of d)) (key_of d) (key_of d)"
    using Cons.prems JsonEncodeString_key by (simp add: name(2))
  from key_text.quoted [OF this, of "[]"]
  have key: "key_text (key_of d) (quote # JsonEncodeString (key_of d) @ quote # '':'')" by simp
  have "members_text (map (\<lambda>d. (key_of d, unnamed d)) (d # ds))
      (before i @ (quote # JsonEncodeString (key_of d) @ quote # '':'') @ colon i @ t @ (if cs \<noteq> [] then '','' else []) @ after i @ u)"
  proof (cases "cs = []")
    case True
    then show ?thesis using u(1,2) grammar(10) [OF key d(3), of "before i" "colon i" "after i"] white by (simp add: members_Nil)
  next
    case False
    then have "ds \<noteq> []" using u(2) by auto
    then show ?thesis
      using False grammar(11) [OF key d(3), of "before i" "colon i" "[]" _ "after i @ u"] members_text_before [OF u(3)] white by simp
  qed
  then show ?case using u(1,2) d(1,2) by (simp add: members_Cons [OF name(1)] name(2))
qed

lemma prints_printable: "printable e \<Longrightarrow> json_depth e \<le> fuel \<Longrightarrow> prints fuel e"
proof (induction fuel arbitrary: e)
  case 0
  then have "\<not> is_container e" by (cases e) auto
  then show ?case using JsonPrimitiveWrite_text [OF 0(1)] by (cases e) (auto simp: prints_def reordered.primitive)
next
  case (Suc fuel)
  show ?case
  proof (cases e)
    case (Primitive name t v)
    then show ?thesis using JsonPrimitiveWrite_text [OF Suc.prems(1)] by (auto simp: prints_def reordered.primitive)
  next
    case (Container name t cs)
    have children: "list_all (prints fuel) cs"
      using Suc by (auto simp: Container list_all_iff)
    show ?thesis
    proof (cases "t = JSON_CONTAINER_TYPE_OBJECT")
      case True
      then have names: "NULL \<notin> set (map propertyName cs)" "list_all (key_string \<circ> key_of) cs" "distinct (map propertyName cs)" "length cs < 2 ^ 31"
        using Suc.prems(1) by (simp_all add: Container)
      from JsonSort_keys [OF names(4)] obtain ds where ds: "JsonSort (Container name t cs) JsonElementPropertyCompare = Ok (Container name t ds)"
        "mset ds = mset cs" "sorted_wrt key_order ds" by blast
      then have set: "set ds = set cs" "distinct (map propertyName ds)"
        using names(3) mset_eq_setD [OF ds(2)] mset_eq_imp_distinct_iff [of "map propertyName ds" "map propertyName cs"] by auto
      have "\<exists>u d. container (Suc fuel) e i = Ok (u, d) \<and> reordered e d \<and> json_text (unnamed d) u" for i
      proof -
        from prints_members [of fuel ds i] children names set(1) obtain u es where
          u: "members fuel ds i = Ok (u, es)" "list_all2 reordered ds es" "members_text (map (\<lambda>d. (key_of d, unnamed d)) es) u"
          by (auto simp: list_all_iff)
        have "members_text (map (\<lambda>d. (key_of d, unnamed d)) es) (start i @ u @ finish i)"
          by (intro members_text_before members_text_after u white)
        then have "json_text (JObject NULL es) (CHR ''{'' # (start i @ u @ finish i) @ ''}'')"
          using grammar(5) foldl_add_member [of "[]" es] names(1) set reordered_names [OF u(2)] by fastforce
        moreover have "all_children_have_keys cs" using names(1) by (induction cs) auto
        ultimately show ?thesis using u(1,2) ds True reordered.object [OF ds(2,3) u(2)]
          by (simp add: Container container_Suc)
      qed
      then show ?thesis by (simp add: prints_def Container)
    next
      case False
      then have names: "set (map propertyName cs) \<subseteq> {NULL}" and t: "t = JSON_CONTAINER_TYPE_ARRAY"
        using Suc.prems(1) by (simp_all add: Container, cases t, auto)
      have "\<exists>u d. container (Suc fuel) e i = Ok (u, d) \<and> reordered e d \<and> json_text (unnamed d) u" for i
      proof -
        from prints_items [OF children names, of i] obtain u es where
          u: "items fuel cs i = Ok (u, es)" "list_all2 reordered cs es" "items_text es u" by blast
        have "items_text es (start i @ u @ finish i)" by (intro items_text_before items_text_after u white)
        then have "json_text (JArray NULL es) (CHR ''['' # (start i @ u @ finish i) @ '']'')" by (rule grammar(4))
        moreover have "json_text (JArray NULL []) ''[]''" using grammar(4) [OF grammar(6), of "[]"] by simp
        ultimately show ?thesis using u(1,2) t reordered.array [OF u(2)] reordered.array [of "[]" "[]"]
          by (cases "cs = []") (simp_all add: Container container_Suc)
      qed
      then show ?thesis by (simp add: prints_def Container)
    qed
  qed
qed

end

lemma JsonPrimitiveWrite_indent: "JsonPrimitiveWrite e i = PrintIndent i @ JsonPrimitiveWrite e 0"
  by (simp add: JsonPrimitiveWrite_def PrintIndent_def)

lemma whitespace_layout: "whitespace (PrintIndent i)" "whitespace [newline]" "whitespace '' ''"
  by (simp_all add: PrintIndent_def newline_def IsWhitespace_def list_all_iff)

interpretation pretty: json_printer JsonContainerWrite JsonArrayWrite_loop JsonObjectWrite_loop
  "\<lambda>_. [newline]" "\<lambda>i. PrintIndent (i + 1)" "\<lambda>_. '' ''" "\<lambda>_. [newline]" PrintIndent
proof (unfold_locales, goal_cases)
  case (3 fuel c cs i)
  then show ?case by (simp add: JsonPrimitiveWrite_indent [of c "Suc i"] split_def bindE_assoc)
qed (simp_all add: with_children_def JsonLength_def whitespace_layout newline_def IsWhitespace_def split_def)

interpretation compact: json_printer "\<lambda>fuel e i. JsonContainerWriteCompact fuel e" "\<lambda>fuel cs i. JsonArrayWriteCompact_loop fuel cs"
  "\<lambda>fuel cs i. JsonObjectWriteCompact_loop fuel cs" "\<lambda>_. []" "\<lambda>_. []" "\<lambda>_. []" "\<lambda>_. []" "\<lambda>_. []"
  by unfold_locales (simp_all add: with_children_def JsonLength_def)

section \<open>Properties\<close>

lemma printed_document:
  assumes "reordered e d" "json_text (unnamed d) t" "propertyName e = NULL" "whitespace w" "length (w @ t) < 2 ^ 31"
  shows "JsonParse (Ptr (w @ t)) = Ok (JSON_PARSE_OK, Ptr d, [last (w @ t)])"
  using JsonParse_document [OF assms(2,4), of "[]"] reordered_name [OF assms(1)] assms(3,5) json_text_ends(1) [OF assms(2)] by simp

lemma JsonWrite_text:
  assumes "printable e"
  shows "\<exists>w t d. JsonWrite e i = Ok (w @ t, d) \<and> whitespace w \<and> reordered e d \<and> json_text (unnamed d) t"
  using pretty.printsD [OF pretty.prints_printable [OF assms order_refl], of i] JsonPrimitiveWrite_indent [of e i] whitespace_layout
  by (cases "is_container e") (auto simp: JsonWrite_def intro: exI [of _ "[]"])

lemma JsonWriteCompact_text:
  assumes "printable e"
  shows "\<exists>t d. JsonWriteCompact e = Ok (t, d) \<and> reordered e d \<and> json_text (unnamed d) t"
  using compact.printsD [OF compact.prints_printable [OF assms order_refl]]
  by (cases "is_container e") (auto simp: JsonWriteCompact_def)

text \<open>
  C17: The round trip through text. For every element whose names, strings and numbers are printable, both
  printers return, at every indentation, and JsonParse reads their text as the same document: the very
  element printing leaves, in which only the members of objects have been sorted by name.
\<close>

theorem Json_roundtrip:
  assumes "printable e" "propertyName e = NULL"
  shows "\<exists>t d t' d'. JsonWrite e i = Ok (t, d) \<and> JsonWriteCompact e = Ok (t', d') \<and> reordered e d \<and> reordered e d'
    \<and> (length t < 2 ^ 31 \<longrightarrow> JsonParse (Ptr t) = Ok (JSON_PARSE_OK, Ptr d, [last t]))
    \<and> (length t' < 2 ^ 31 \<longrightarrow> JsonParse (Ptr t') = Ok (JSON_PARSE_OK, Ptr d', [last t']))"
proof -
  from JsonWrite_text [OF assms(1), of i] obtain w t d where
    "JsonWrite e i = Ok (w @ t, d)" "whitespace w" "reordered e d" "json_text (unnamed d) t" by blast
  moreover from JsonWriteCompact_text [OF assms(1)] obtain t' d' where
    "JsonWriteCompact e = Ok (t', d')" "reordered e d'" "json_text (unnamed d') t'" by blast
  ultimately show ?thesis using printed_document [of e d t w] printed_document [of e d' t' "[]"] assms(2) by auto
qed

theorem Json_roundtrip_witness:
  "JsonWriteCompact (JObject NULL [Primitive (Ptr ''b'') JSON_PRIMITIVE_TYPE_STRING ''x '',
       JArray (Ptr ''a'') [Primitive NULL JSON_PRIMITIVE_TYPE_REAL ''1.5'']])
     = Ok (''{'' @ [quote] @ ''a'' @ [quote] @ '':[1.5],'' @ [quote] @ ''b'' @ [quote] @ '':'' @ [quote] @ ''x '' @ [quote] @ ''}'',
         JObject NULL [JArray (Ptr ''a'') [Primitive NULL JSON_PRIMITIVE_TYPE_REAL ''1.5''], Primitive (Ptr ''b'') JSON_PRIMITIVE_TYPE_STRING ''x ''])
   \<and> JsonParse (Ptr (''{'' @ [quote] @ ''a'' @ [quote] @ '':[1.5],'' @ [quote] @ ''b'' @ [quote] @ '':'' @ [quote] @ ''x '' @ [quote] @ ''}''))
     = Ok (JSON_PARSE_OK, Ptr (JObject NULL [JArray (Ptr ''a'') [Primitive NULL JSON_PRIMITIVE_TYPE_REAL ''1.5''],
         Primitive (Ptr ''b'') JSON_PRIMITIVE_TYPE_STRING ''x '']), ''}'')"
proof -
  let ?e = "JObject NULL [Primitive (Ptr ''b'') JSON_PRIMITIVE_TYPE_STRING ''x '', JArray (Ptr ''a'') [Primitive NULL JSON_PRIMITIVE_TYPE_REAL ''1.5'']]"
  have "JsonWriteCompact ?e
     = Ok (''{'' @ [quote] @ ''a'' @ [quote] @ '':[1.5],'' @ [quote] @ ''b'' @ [quote] @ '':'' @ [quote] @ ''x '' @ [quote] @ ''}'',
         JObject NULL [JArray (Ptr ''a'') [Primitive NULL JSON_PRIMITIVE_TYPE_REAL ''1.5''], Primitive (Ptr ''b'') JSON_PRIMITIVE_TYPE_STRING ''x ''])"
    by code_simp
  moreover have "number_read JSON_PRIMITIVE_TYPE_REAL ''1.5''" by code_simp
  then have "printable ?e"
    by (simp add: primitive_printable_def key_string_def key_of_def CharIsPrintableAscii_def)
  ultimately show ?thesis using Json_roundtrip [of ?e 0] by auto
qed

text \<open>The string that JSON gives the characters between the quotes.\<close>

fun json_unescape :: "string \<Rightarrow> string option" where
  "json_unescape [] = Some []"
| "json_unescape (c # s) =
     (if c = quote then None
      else if c \<noteq> backslash then map_option (Cons c) (json_unescape s)
      else case s of
        [] \<Rightarrow> None
      | d # t \<Rightarrow>
          if d = CHR ''u''
          then (case unicode_value (take 4 t) of None \<Rightarrow> None | Some x \<Rightarrow> map_option (Cons x) (json_unescape (drop 4 t)))
          else (case escape_value d of None \<Rightarrow> None | Some x \<Rightarrow> map_option (Cons x) (json_unescape t)))"

lemma JsonEncodeString_append: "JsonEncodeString (x @ y) = JsonEncodeString x @ JsonEncodeString y"
  by (induction x) (simp_all add: JsonEncodeString_def)

text \<open>The printer encodes every string correctly.\<close>

lemma json_unescape_encode: "CHR 0x00 \<notin> set v \<Longrightarrow> json_unescape (JsonEncodeString v) = Some v"
proof (induction v)
  case (Cons c v)
  then have v: "json_unescape (JsonEncodeString v) = Some v" "c \<noteq> CHR 0x00" by auto
  have cv: "JsonEncodeString (c # v) = encode_char c @ JsonEncodeString v" by (simp add: JsonEncodeString_def)
  show ?case
  proof (cases c rule: encode_char_cases)
    case (escape d)
    then have "d \<noteq> CHR ''u''" by (auto simp: escape_value_def)
    then show ?thesis using v escape unfolding cv by simp
  next
    case backslash
    then show ?thesis using v unfolding cv by (simp add: escape_value_def)
  next
    case unicode
    then show ?thesis using v unicode_value_escape [OF v(2)] unfolding cv by simp
  qed (use v cv in simp)
qed (simp add: JsonEncodeString_def)

text \<open>The second decoding of a string and of what follows it.\<close>

lemma JsonDecodeStringWriter_append:
  "string_text twice s m v \<Longrightarrow> twice \<Longrightarrow> v = [] \<or> last v \<noteq> backslash \<Longrightarrow>
   JsonDecodeStringWriter (m @ r) = v @ JsonDecodeStringWriter r"
proof (induction rule: string_text.induct)
  case (escape twice s m v d x)
  then have "v = [] \<or> last v \<noteq> backslash" by (auto split: if_splits)
  then show ?case using escape escape_value_no_backslash [of d x] by (simp add: JsonDecodeStringWriter_plain)
next
  case (escaped_backslash twice s m v)
  then have v: "v \<noteq> []" "last v \<noteq> backslash" by (auto split: if_splits)
  then have "m \<noteq> []" using escaped_backslash.hyps(1) by (auto elim: string_text.cases)
  then show ?case using escaped_backslash v by (simp add: JsonDecodeStringWriter_backslash)
next
  case (unicode twice s m v h x)
  then have "v = [] \<or> last v \<noteq> backslash" by (auto split: if_splits)
  then show ?case using unicode unicode_value_hex [OF unicode.hyps(2)] by (simp add: JsonDecodeStringWriter_unicode)
qed (auto simp: JsonDecodeStringWriter_plain split: if_splits)

lemma JsonDecodeStringWriter_control:
  assumes "d \<in> set ''bfnrt''" "escape_value d = Some x"
  shows "JsonDecodeStringWriter (backslash # d # s) = x # JsonDecodeStringWriter s"
  using assms by (subst JsonDecodeStringWriter.simps) (auto simp: escape_value_def split: if_splits)

text \<open>
  C24: Values are decoded twice. A string that has a backslash in front of one of the letters b, f, n, r and t is
  printed correctly: what stands between the quotes is the JSON encoding of the string, which JSON decodes to the
  string itself. JsonParse reads the same text as another string, with a control character in the place of the two
  characters. (Before and behind them the string may hold anything that survives both decodings.)
\<close>

theorem JsonParse_decodes_twice:
  assumes "value_string x" "x = [] \<or> last x \<noteq> backslash" "value_string y" "d \<in> set ''bfnrt''" "escape_value d = Some c"
  shows "\<exists>t. JsonPrimitiveWrite (JsonStringCreate (x @ backslash # d # y)) 0 = quote # t @ [quote]
    \<and> json_unescape t = Some (x @ backslash # d # y)
    \<and> JsonParse (Ptr (quote # t @ [quote])) = Ok (JSON_PARSE_OK, Ptr (JsonStringCreate (x @ c # y)), [quote])"
proof -
  let ?v = "x @ backslash # d # y"
  from JsonEncodeString_value [OF assms(1)] obtain mx where mx: "string_text True (JsonEncodeString x) mx x" by blast
  from JsonEncodeString_value [OF assms(3)] obtain my where my: "string_text True (JsonEncodeString y) my y" by blast
  have d: "encode_char d = [d]" "d \<noteq> quote" "d \<noteq> backslash" "d \<noteq> CHR 0x00"
  proof -
    have "list_all (\<lambda>d. encode_char d = [d] \<and> d \<noteq> quote \<and> d \<noteq> backslash \<and> d \<noteq> CHR 0x00) ''bfnrt''" by code_simp
    then show "encode_char d = [d]" "d \<noteq> quote" "d \<noteq> backslash" "d \<noteq> CHR 0x00" using assms(4) unfolding list_all_iff by blast+
  qed
  have enc: "JsonEncodeString ?v = JsonEncodeString x @ backslash # backslash # d # JsonEncodeString y"
  proof -
    have "JsonEncodeString (backslash # d # y) = encode_char backslash @ encode_char d @ JsonEncodeString y"
      by (simp add: JsonEncodeString_def)
    then show ?thesis using d(1) by (simp add: JsonEncodeString_append encode_char_def [of backslash])
  qed
  have nul: "value_string v \<Longrightarrow> CHR 0x00 \<notin> set v" for v by (induction v) auto
  have "CHR 0x00 \<notin> set ?v" using nul [OF assms(1)] nul [OF assms(3)] d(4) by auto
  then have right: "json_unescape (JsonEncodeString ?v) = Some ?v" by (rule json_unescape_encode)
  have printed: "JsonPrimitiveWrite (JsonStringCreate ?v) 0 = quote # JsonEncodeString ?v @ [quote]"
    by (simp add: JsonStringCreate_def JsonElementCreatePrimitive_def JsonPrimitiveWrite_def PrintIndent_def)
  have "JsonParseAsString_loop (JsonEncodeString ?v @ [quote]) []
      = JsonParseAsString_loop (backslash # backslash # d # JsonEncodeString y @ [quote]) mx"
    unfolding enc using JsonParseAsString_loop_prefix [OF mx] by simp
  also have "\<dots> = Ok (JSON_PARSE_OK, Ptr (mx @ backslash # d # my), [quote])"
    using JsonParseAsString_loop_text [OF my, of "[]" "mx @ [backslash, d]"] d(2,3) by simp
  finally have first: "JsonParseAsString_loop (JsonEncodeString ?v @ [quote]) [] = Ok (JSON_PARSE_OK, Ptr (mx @ backslash # d # my), [quote])" .
  have "JsonDecodeString (mx @ backslash # d # my) = x @ c # y"
    using JsonDecodeStringWriter_append [OF mx _ assms(2)] JsonDecodeStringWriter_control [OF assms(4,5)] JsonDecodeString_text [OF my]
    by (simp add: JsonDecodeString_def)
  then have "JsonParse (Ptr (quote # JsonEncodeString ?v @ [quote])) = Ok (JSON_PARSE_OK, Ptr (JsonStringCreate (x @ c # y)), [quote])"
    using first by (simp add: JsonStringCreate_def JsonElementCreatePrimitive_def JsonParse_def
      JsonParseWithLookup_def JsonParseAsPrimitive_eq JsonParseAsString_def IsWhitespace_def)
  then show ?thesis using printed right by blast
qed

theorem JsonParse_decodes_twice_witness:
  "\<exists>t. JsonPrimitiveWrite (JsonStringCreate (''c:'' @ backslash # ''new'')) 0 = quote # t @ [quote]
    \<and> json_unescape t = Some (''c:'' @ backslash # ''new'')
    \<and> JsonParse (Ptr (quote # t @ [quote])) = Ok (JSON_PARSE_OK, Ptr (JsonStringCreate (''c:'' @ CHR 0x0A # ''ew'')), [quote])"
  using JsonParse_decodes_twice [of "''c:''" "''ew''" "CHR ''n''" "CHR 0x0A"] by (simp add: escape_value_def)

end
