(* ===== verification/MustachePaths.thy ===== *)
theory MustachePaths
  imports Mustache JsonRoundTrip
begin

text \<open>
  Tags and variables of mustache.c: NextTag always moves on and never reads outside the template, and the paths
  that stand for pointers into the JSON document keep their elements, also when printing a part of the document
  sorts its objects. Results are handled by a small logic: a result is a value with a property, or a fault that is
  allowed.
\<close>

section \<open>Results with allowed faults\<close>

definition sat :: "fault set \<Rightarrow> ('a \<Rightarrow> bool) \<Rightarrow> 'a res \<Rightarrow> bool" where
  "sat F P r \<longleftrightarrow> (case r of Inl e \<Rightarrow> e \<in> F | Inr x \<Rightarrow> P x)"

lemma sat_simps [simp]: "sat F P (Ok x) \<longleftrightarrow> P x" "sat F P (Fault e) \<longleftrightarrow> e \<in> F"
  by (simp_all add: sat_def)

lemma sat_bind: "sat F Q r \<Longrightarrow> (\<And>x. Q x \<Longrightarrow> sat F P (f x)) \<Longrightarrow> sat F P (bindE r f)"
  by (cases r) auto

lemma sat_mono: "sat F Q r \<Longrightarrow> F \<subseteq> G \<Longrightarrow> (\<And>x. Q x \<Longrightarrow> P x) \<Longrightarrow> sat G P r"
  by (cases r) auto

lemma sat_Ok: "r = Ok x \<Longrightarrow> P x \<Longrightarrow> sat F P r"
  by simp

lemma sat_bind_Ok: "\<exists>x. r = Ok x \<and> Q x \<Longrightarrow> (\<And>x. Q x \<Longrightarrow> sat F P (f x)) \<Longrightarrow> sat F P (bindE r f)"
  by auto

section \<open>Tags\<close>

lemma component_at_tokens:
  "component_at name i seps
     = (if i < length (tokens (strchr_in seps) name) then Ok (tokens (strchr_in seps) name ! i) else Fault NullDeref)"
proof -
  obtain ref where "StringGetToken name (length name) i seps = Ok ref"
    "if i < length (tokens (strchr_in seps) name) then is_token name ref (tokens (strchr_in seps) name ! i) else ref = StringRefNull"
    using StringGetToken_loop_tokens [of "[]" name "[]" i seps] unfolding Let_def StringGetToken_def append_Nil append_Nil2 list.size(3) by blast
  then show ?thesis by (auto simp: component_at_def is_token_def StringRefNull_def split: if_splits option.splits)
qed

lemma tokens_nonempty: "t \<in> set (tokens P s) \<Longrightarrow> t \<noteq> []"
proof (induction P s rule: tokens.induct)
  case (1 P s)
  show ?case
  proof (cases "dropWhile P s = []")
    case True
    then show ?thesis using "1.prems" tokens_Nil_iff [of P s] by (simp del: tokens.simps)
  next
    case False
    then have "tokens P s = takeWhile (\<lambda>c. \<not> P c) (dropWhile P s) # tokens P (dropWhile (\<lambda>c. \<not> P c) (dropWhile P s))"
      by (subst tokens.simps) (simp add: Let_def)
    moreover have "takeWhile (\<lambda>c. \<not> P c) (dropWhile P s) \<noteq> []" using False hd_dropWhile [OF False] by (cases "dropWhile P s") auto
    ultimately show ?thesis using "1.IH" [OF refl False] "1.prems" by (metis set_ConsD)
  qed
qed

lemma StringCountTokens_length: "StringCountTokens s (length s) seps = Ok (length (tokens (strchr_in seps) s))"
  by (simp add: StringCountTokens_tokens)

lemma tokens_separated: "t \<in> set (tokens P s) \<Longrightarrow> c \<in> set t \<Longrightarrow> \<not> P c"
proof (induction P s rule: tokens.induct)
  case (1 P s)
  show ?case
  proof (cases "dropWhile P s = []")
    case True
    then show ?thesis using "1.prems" tokens_Nil_iff [of P s] by (simp del: tokens.simps)
  next
    case False
    then have "tokens P s = takeWhile (\<lambda>c. \<not> P c) (dropWhile P s) # tokens P (dropWhile (\<lambda>c. \<not> P c) (dropWhile P s))"
      by (subst tokens.simps) (simp add: Let_def)
    then consider "t = takeWhile (\<lambda>c. \<not> P c) (dropWhile P s)" | "t \<in> set (tokens P (dropWhile (\<lambda>c. \<not> P c) (dropWhile P s)))"
      using "1.prems"(1) by (metis set_ConsD)
    then show ?thesis
    proof cases
      case 1
      then show ?thesis using "1.prems"(2) set_takeWhileD by fastforce
    next
      case 2
      then show ?thesis using "1.IH" [OF refl False] "1.prems"(2) by blast
    qed
  qed
qed

lemma component_at_Ok:
  "i < length (tokens (strchr_in seps) name) \<Longrightarrow>
   \<exists>t. component_at name i seps = Ok t \<and> t \<noteq> [] \<and> (\<forall>c \<in> set t. \<not> strchr_in seps c)"
  using tokens_nonempty [OF nth_mem] tokens_separated [OF nth_mem] by (simp add: component_at_tokens) blast

definition delims_ok :: "delims \<Rightarrow> bool" where
  "delims_ok d \<longleftrightarrow> fst d \<noteq> [] \<and> snd d \<noteq> [] \<and> \<not> IsSpace (hd (snd d))"

lemma sat_SetDelimiters: "delims_ok d \<Longrightarrow> OutOfBounds \<in> F \<Longrightarrow> sat F (\<lambda>(ok, d'). delims_ok d') (SetDelimiters content d)"
proof -
  assume d: "delims_ok d" and F: "OutOfBounds \<in> F"
  let ?seps = "[CHR '' '', CHR 0x09]"
  show ?thesis
  proof (cases "length (tokens (strchr_in ?seps) content) = 2")
    case False
    then show ?thesis using d by (simp add: SetDelimiters_def StringCountTokens_length)
  next
    case True
    from component_at_Ok [of 0 ?seps content] obtain a where a: "component_at content 0 ?seps = Ok a" "a \<noteq> []" using True by auto
    from component_at_Ok [of 1 ?seps content] obtain b where
      b: "component_at content 1 ?seps = Ok b" "b \<noteq> []" "\<forall>c \<in> set b. \<not> strchr_in ?seps c" using True by auto
    have "\<not> IsSpace (hd b)" using b(2,3) hd_in_set [OF b(2)] by (auto simp: strchr_in_def IsSpace_def)
    then show ?thesis using True d F a b(1,2)
      by (auto simp: SetDelimiters_def StringCountTokens_length copy_delim_def delims_ok_def)
  qed
qed

lemma trim_front_Ok: "take (length e) (drop n s) = e \<Longrightarrow> e \<noteq> [] \<Longrightarrow> \<not> IsSpace (hd e) \<Longrightarrow> \<exists>t. trim_front s n = Ok t"
proof (induction s n rule: trim_front.induct)
  case (2 c rest len)
  show ?case
  proof (cases "IsSpace c")
    case True
    have "len \<noteq> 0"
    proof
      assume "len = 0"
      then have "hd e = c" using "2.prems"(1,2) by (cases e) auto
      then show False using True "2.prems"(3) by simp
    qed
    then obtain k where "len = Suc k" by (cases len) auto
    then show ?thesis using True 2 by simp
  qed simp
qed simp

text \<open>A tag that was found ends behind the position the search began at; a delimiter tag has an equals sign.\<close>

definition tag_ok :: "string \<Rightarrow> nat \<Rightarrow> Mustache \<Rightarrow> bool" where
  "tag_ok start input tag \<longleftrightarrow> (\<forall>b. tag_begin tag = Ptr b \<longrightarrow> input \<le> b)
     \<and> (\<forall>e. tag_end tag = Ptr e \<longrightarrow> input < e \<and> e \<le> length start \<and> tag_begin tag \<noteq> NULL)
     \<and> (tag_end tag = NULL \<longrightarrow> tag_type tag \<in> {TAG_TYPE_ERR, TAG_TYPE_NONE})
     \<and> (tag_type tag = TAG_TYPE_DELIM \<longrightarrow> CHR ''='' \<in> set start)"

lemma tag_mark_cases:
  "tag_mark s = (type, mark, extra) \<Longrightarrow> (type = TAG_TYPE_DELIM \<longrightarrow> CHR ''='' \<in> set s)
     \<and> (extra = [] \<or> \<not> IsSpace (hd extra)) \<and> type \<notin> {TAG_TYPE_ERR, TAG_TYPE_NONE}"
  by (auto simp: tag_mark_def IsSpace_def split: list.splits if_splits)

lemma sat_NextTag:
  assumes "ds \<noteq> []" "de \<noteq> []" "\<not> IsSpace (hd de)"
  shows "sat F (tag_ok start input) (NextTag start input ds de)"
proof (cases "strstr (drop input start) ds")
  case None
  then show ?thesis by (simp add: NextTag_def tag_ok_def)
next
  case (Some i)
  obtain type mark extra where m: "tag_mark (drop (input + i + length ds) start) = (type, mark, extra)" by (metis prod_cases3)
  let ?c = "input + i + length ds + mark"
  let ?e = "if extra = [] then de else extra"
  have e: "?e \<noteq> []" "\<not> IsSpace (hd ?e)" using assms(2,3) tag_mark_cases [OF m] by auto
  have delim: "type = TAG_TYPE_DELIM \<Longrightarrow> CHR ''='' \<in> set start" using tag_mark_cases [OF m] by (auto dest: in_set_dropD)
  show ?thesis
  proof (cases "strstr (drop ?c start) ?e")
    case None
    then show ?thesis using Some m by (simp add: NextTag_def tag_ok_def)
  next
    case n: (Some n)
    let ?a = "?c + n + length extra"
    from strstr_SomeD [OF n] trim_front_Ok [OF _ e] obtain t where t: "trim_front (drop ?c start) n = Ok t" by blast
    have "length (take (length de) (drop ?a start)) = length de \<Longrightarrow> de \<noteq> [] \<Longrightarrow> ?a + length de \<le> length start"
      by (cases de) (auto simp: min_def split: if_splits)
    then have "take (length de) (drop ?a start) = de \<Longrightarrow> ?a + length de \<le> length start" using assms(2) by simp
    then show ?thesis using Some m n t assms(1) delim by (auto simp: NextTag_def tag_ok_def Let_def)
  qed
qed

lemma line_end_bounds: "line_end s cur = Some e \<Longrightarrow> cur \<le> e \<and> e \<le> cur + length s"
proof (induction s arbitrary: cur)
  case (Cons c rest)
  have next_char: "line_end rest (Suc cur) = Some e \<Longrightarrow> ?case" using Cons.IH [of "Suc cur"] by auto
  show ?case
  proof (cases "IsSpace c")
    case True
    then show ?thesis using Cons.prems next_char by simp
  next
    case no: False
    show ?thesis
    proof (cases "c = CHR 0x0A")
      case True
      then show ?thesis using Cons.prems no by simp
    next
      case False
      then have "c = CHR 0x0D" using Cons.prems no by (cases "c = CHR 0x0D") simp_all
      then show ?thesis using Cons.prems no next_char by (cases rest) (simp_all, cases "hd rest = CHR 0x0A", simp_all)
    qed
  qed
qed simp

lemma emit_text_after:
  assumes "tag_ok start input tag" "emit_text start input tag skip out = (out', after)"
  shows "case after of None \<Rightarrow> tag_type tag \<in> {TAG_TYPE_ERR, TAG_TYPE_NONE} | Some a \<Rightarrow> input < a \<and> a \<le> length start"
proof (cases "tag_begin tag")
  case None
  then show ?thesis using assms by (cases "tag_end tag") (auto simp: emit_text_def tag_ok_def)
next
  case (Some b)
  show ?thesis
  proof (cases "tag_end tag")
    case None
    then show ?thesis using assms Some by (auto simp: emit_text_def tag_ok_def split: option.splits)
  next
    case e: (Some e)
    then have e2: "input < e" "e \<le> length start" using assms(1) by (auto simp: tag_ok_def)
    show ?thesis using assms(2) Some e e2 line_end_bounds [of "drop e start" e]
      by (auto simp: emit_text_def IsTagStandalone_def split: option.splits if_splits dest: line_end_bounds)
  qed
qed

section \<open>The document\<close>

lemma printable_names:
  "printable (Container name t cs) \<longleftrightarrow> list_all printable cs \<and> length (map propertyName cs) < 2 ^ 31
     \<and> (if t = JSON_CONTAINER_TYPE_OBJECT
        then NULL \<notin> set (map propertyName cs) \<and> list_all (key_string \<circ> the) (map propertyName cs) \<and> distinct (map propertyName cs)
        else set (map propertyName cs) \<subseteq> {NULL})"
  by (simp add: key_of_def list_all_iff)

lemma reordered_printable: "reordered e d \<Longrightarrow> printable e \<Longrightarrow> printable d"
proof (induction rule: reordered.induct)
  case (array cs ds name)
  have "list_all2 reordered cs ds" using array.IH by (rule list_all2_mono) simp
  from reordered_names [OF this] have "map propertyName ds = map propertyName cs" .
  moreover have "list_all printable ds"
    using array.IH array.prems by (induction rule: list_all2_induct) (auto simp del: printable.simps simp: printable_names)
  ultimately show ?case using array.prems unfolding printable_names by simp
next
  case (object cs' cs ds name)
  have "list_all2 reordered cs' ds" using object.IH by (rule list_all2_mono) simp
  from reordered_names [OF this] have names: "map propertyName ds = map propertyName cs'" .
  have ms: "mset (map propertyName cs') = mset (map propertyName cs)" using object.hyps(1) by (simp add: mset_map)
  have "list_all printable cs'" using object.prems mset_eq_setD [OF object.hyps(1)] unfolding printable_names by (simp add: list_all_iff)
  then have "list_all printable ds" using object.IH by (auto simp: list_all_iff list_all2_conv_all_nth set_conv_nth)
  then show ?case using object.prems ms mset_eq_setD [OF ms] mset_eq_length [OF ms] mset_eq_imp_distinct_iff [OF ms]
    unfolding printable_names names by (simp add: list_all_iff)
qed

lemma printable_update:
  assumes "printable (Container name t cs)" "i < length cs" "printable d" "propertyName d = propertyName (cs ! i)"
  shows "printable (Container name t (cs[i := d]))"
proof -
  have eq: "map propertyName (cs[i := d]) = map propertyName cs" using assms(2,4) by (simp add: map_update list_update_same_conv)
  have "list_all printable (cs[i := d])" using assms(1,3) set_update_subset_insert [of cs i d] by (auto simp: list_all_iff)
  then show ?thesis using assms(1) unfolding printable_names eq by blast
qed

lemma update_first_find: "find P cs = Some c \<Longrightarrow> \<exists>i < length cs. cs ! i = c \<and> update_first P f cs = cs[i := f c]"
proof (induction cs)
  case (Cons x xs)
  then show ?case by (cases "P x") (force intro: exI [of _ "0"] exI [of _ "Suc _"])+
qed simp

lemma element_printable: "printable root \<Longrightarrow> element_at root p = Some e \<Longrightarrow> printable e"
proof (induction p arbitrary: root)
  case (Cons x p)
  then obtain name t cs where root: "root = Container name t cs" by (cases root) auto
  then obtain c where "c \<in> set cs" "element_at c p = Some e"
    using Cons.prems(2) nth_mem by (cases x) (auto simp: find_Some_iff split: option.splits if_splits)
  then show ?case using Cons by (auto simp: root list_all_iff)
qed simp

section \<open>Paths\<close>

text \<open>A path into the document goes by name through objects and by index through arrays.\<close>

fun path_ok :: "JsonElement \<Rightarrow> path \<Rightarrow> bool" where
  "path_ok e [] = True"
| "path_ok e (x # p) = (case e of
     Primitive _ _ _ \<Rightarrow> False
   | Container _ t cs \<Rightarrow> (case x of
       Member k \<Rightarrow> t = JSON_CONTAINER_TYPE_OBJECT \<and> (\<exists>c. find (\<lambda>c. propertyName c = Ptr k) cs = Some c \<and> path_ok c p)
     | step.Item i \<Rightarrow> t = JSON_CONTAINER_TYPE_ARRAY \<and> i < length cs \<and> path_ok (cs ! i) p))"

definition alike :: "JsonElement \<Rightarrow> JsonElement \<Rightarrow> bool" where
  "alike e d \<longleftrightarrow> JsonGetType d = JsonGetType e \<and> JsonLength d = JsonLength e"

text \<open>Every path into one document leads to an element of the same kind in the other.\<close>

definition keeps :: "JsonElement \<Rightarrow> JsonElement \<Rightarrow> bool" where
  "keeps e d \<longleftrightarrow> (\<forall>p x. path_ok e p \<longrightarrow> element_at e p = Some x \<longrightarrow> path_ok d p \<and> (\<exists>y. element_at d p = Some y \<and> alike x y))"

lemma path_ok_element: "path_ok e p \<Longrightarrow> \<exists>x. element_at e p = Some x"
  by (induction e p rule: path_ok.induct) (auto split: JsonElement.splits step.splits)

lemma path_ok_append: "path_ok e p \<Longrightarrow> element_at e p = Some d \<Longrightarrow> path_ok e (p @ q) = path_ok d q \<and> element_at e (p @ q) = element_at d q"
proof (induction p arbitrary: e)
  case (Cons x p)
  then obtain name t cs where e: "e = Container name t cs" by (cases e) auto
  then obtain c where "(case x of Member k \<Rightarrow> find (\<lambda>c. propertyName c = Ptr k) cs = Some c | step.Item i \<Rightarrow> i < length cs \<and> cs ! i = c)"
    "path_ok c p" "element_at c p = Some d"
    using Cons.prems by (cases x) auto
  with Cons.IH [of c] Cons.prems show ?case by (cases x) (simp_all add: e)
qed simp

lemma alike_refl: "alike e e"
  by (simp add: alike_def)

lemma keeps_refl: "keeps e e"
  by (auto simp: keeps_def alike_refl)

lemma keeps_trans: "keeps a b \<Longrightarrow> keeps b c \<Longrightarrow> keeps a c"
  unfolding keeps_def alike_def by metis

lemma keepsD: "keeps e d \<Longrightarrow> path_ok e p \<Longrightarrow> path_ok d p"
  unfolding keeps_def using path_ok_element by blast

lemma keeps_element: "keeps e d \<Longrightarrow> path_ok e p \<Longrightarrow> element_at e p = Some x \<Longrightarrow> \<exists>y. element_at d p = Some y \<and> alike x y"
  unfolding keeps_def by blast

text \<open>Two containers whose children correspond.\<close>

lemma keeps_container:
  assumes "length ds = length cs"
    "\<And>k c. t = JSON_CONTAINER_TYPE_OBJECT \<Longrightarrow> find (\<lambda>c. propertyName c = Ptr k) cs = Some c
      \<Longrightarrow> \<exists>d. find (\<lambda>c. propertyName c = Ptr k) ds = Some d \<and> keeps c d"
    "\<And>i. t = JSON_CONTAINER_TYPE_ARRAY \<Longrightarrow> i < length cs \<Longrightarrow> keeps (cs ! i) (ds ! i)"
  shows "keeps (Container name t cs) (Container name t ds)"
  unfolding keeps_def
proof (intro allI impI)
  fix p x assume p: "path_ok (Container name t cs) p" "element_at (Container name t cs) p = Some x"
  show "path_ok (Container name t ds) p \<and> (\<exists>y. element_at (Container name t ds) p = Some y \<and> alike x y)"
  proof (cases p)
    case Nil
    then show ?thesis using p assms(1) by (auto simp: alike_def JsonGetType_def JsonLength_def)
  next
    case (Cons s q)
    show ?thesis
    proof (cases s)
      case (Member k)
      then obtain c where c: "t = JSON_CONTAINER_TYPE_OBJECT" "find (\<lambda>c. propertyName c = Ptr k) cs = Some c" "path_ok c q" "element_at c q = Some x"
        using p Cons by auto
      from assms(2) [OF c(1,2)] obtain d where d: "find (\<lambda>c. propertyName c = Ptr k) ds = Some d" "keeps c d" by blast
      show ?thesis using d(1) keepsD [OF d(2) c(3)] keeps_element [OF d(2) c(3,4)] c(1) by (simp add: Cons Member)
    next
      case (Item i)
      then have i: "t = JSON_CONTAINER_TYPE_ARRAY" "i < length cs" "path_ok (cs ! i) q" "element_at (cs ! i) q = Some x"
        using p Cons by (auto split: if_splits)
      show ?thesis
        using keepsD [OF assms(3) [OF i(1,2)] i(3)] keeps_element [OF assms(3) [OF i(1,2)] i(3,4)] i(1,2) assms(1)
        by (simp add: Cons Item)
    qed
  qed
qed

lemma find_name: "distinct (map propertyName cs) \<Longrightarrow> c \<in> set cs \<Longrightarrow> propertyName c = Ptr k \<Longrightarrow> find (\<lambda>c. propertyName c = Ptr k) cs = Some c"
  by (induction cs) force+

lemma reordered_keeps: "reordered e d \<Longrightarrow> printable e \<Longrightarrow> keeps e d"
proof (induction rule: reordered.induct)
  case (primitive name t v)
  show ?case by (rule keeps_refl)
next
  case (array cs ds name)
  have len: "length ds = length cs" using array.IH by (simp add: list_all2_lengthD)
  have "keeps (cs ! i) (ds ! i)" if "i < length cs" for i
    using array.IH array.prems that by (simp add: list_all2_conv_all_nth list_all_length)
  then show ?case using len by (intro keeps_container) simp_all
next
  case (object cs' cs ds name)
  have ms: "mset (map propertyName cs') = mset (map propertyName cs)" "length cs' = length cs"
    using object.hyps(1) mset_eq_length by (simp_all add: mset_map)
  have len: "length ds = length cs'" using object.IH by (simp add: list_all2_lengthD)
  have "list_all2 reordered cs' ds" using object.IH by (rule list_all2_mono) simp
  from reordered_names [OF this] have names: "map propertyName ds = map propertyName cs'" .
  have dist: "distinct (map propertyName ds)" using object.prems mset_eq_imp_distinct_iff [OF ms(1)] by (simp add: names)
  show ?case
  proof (rule keeps_container)
    fix k c assume "find (\<lambda>c. propertyName c = Ptr k) cs = Some c"
    then have c: "c \<in> set cs'" "propertyName c = Ptr k" using mset_eq_setD [OF object.hyps(1)] by (auto simp: find_Some_iff)
    then obtain i where i: "i < length cs'" "cs' ! i = c" by (auto simp: in_set_conv_nth)
    have "printable c" using object.prems c(1) mset_eq_setD [OF object.hyps(1)] by (simp add: list_all_iff)
    then have "keeps c (ds ! i)" "propertyName (ds ! i) = Ptr k" "ds ! i \<in> set ds"
      using object.IH i len c(2) reordered_name by (auto simp: list_all2_conv_all_nth)
    then show "\<exists>d. find (\<lambda>c. propertyName c = Ptr k) ds = Some d \<and> keeps c d" using find_name [OF dist] by blast
  qed (use len ms(2) in simp_all)
qed

lemma find_update:
  assumes "i < length cs" "propertyName c' = propertyName (cs ! i)" "find (\<lambda>c. propertyName c = Ptr k) cs = Some c"
  shows "\<exists>j < length cs. cs ! j = c \<and> find (\<lambda>c. propertyName c = Ptr k) (cs[i := c']) = Some (cs[i := c'] ! j)"
proof -
  obtain j where j: "j < length cs" "cs ! j = c" "propertyName c = Ptr k" "\<forall>n < j. propertyName (cs ! n) \<noteq> Ptr k"
    using assms(3) by (auto simp: find_Some_iff)
  have same: "propertyName (cs[i := c'] ! n) = propertyName (cs ! n)" if "n < length cs" for n
    using that assms(1,2) by (cases "n = i") simp_all
  then have "find (\<lambda>c. propertyName c = Ptr k) (cs[i := c']) = Some (cs[i := c'] ! j)"
    using j by (auto simp: find_Some_iff)
  then show ?thesis using j(1,2) by blast
qed

lemma keeps_update:
  assumes "i < length cs" "propertyName d = propertyName (cs ! i)" "keeps (cs ! i) d"
  shows "keeps (Container name t cs) (Container name t (cs[i := d]))"
proof (rule keeps_container)
  have each: "keeps (cs ! j) (cs[i := d] ! j)" if "j < length cs" for j
    using that assms(3) keeps_refl by (cases "j = i") simp_all
  then show "j < length cs \<Longrightarrow> keeps (cs ! j) (cs[i := d] ! j)" for j .
  fix k c assume "find (\<lambda>c. propertyName c = Ptr k) cs = Some c"
  from find_update [OF assms(1,2) this] show "\<exists>d'. find (\<lambda>c. propertyName c = Ptr k) (cs[i := d]) = Some d' \<and> keeps c d'" using each by blast
qed simp

text \<open>What replaces an element leaves a printable document in which every path is still good.\<close>

lemma replace_ok:
  "printable root \<Longrightarrow> element_at root p = Some e \<Longrightarrow> printable d \<Longrightarrow> propertyName d = propertyName e \<Longrightarrow> keeps e d \<Longrightarrow>
   printable (replace_at root p d) \<and> propertyName (replace_at root p d) = propertyName root \<and> keeps root (replace_at root p d)"
proof (induction p arbitrary: root)
  case (Cons x p)
  then obtain name t cs where root: "root = Container name t cs" by (cases root) auto
  have "\<exists>i < length cs. element_at (cs ! i) p = Some e \<and> replace_at root (x # p) d = Container name t (cs[i := replace_at (cs ! i) p d])"
  proof (cases x)
    case (Member k)
    then obtain c where "find (\<lambda>c. propertyName c = Ptr k) cs = Some c" "element_at c p = Some e"
      using Cons.prems(2) by (auto simp: root split: option.splits)
    then show ?thesis using update_first_find [of "\<lambda>c. propertyName c = Ptr k" cs c "\<lambda>c. replace_at c p d"] by (auto simp: root Member)
  next
    case (Item i)
    then show ?thesis using Cons.prems(2) by (auto simp: root split: if_splits)
  qed
  then obtain i where i: "i < length cs" "element_at (cs ! i) p = Some e"
    "replace_at root (x # p) d = Container name t (cs[i := replace_at (cs ! i) p d])" by blast
  have "printable (cs ! i)" using Cons.prems(1) i(1) by (simp add: root list_all_length)
  from Cons.IH [OF this i(2) Cons.prems(3-5)] show ?case
    unfolding i(3) using printable_update [of name t cs i "replace_at (cs ! i) p d"] keeps_update [of i cs "replace_at (cs ! i) p d" name t]
      Cons.prems(1) i(1) by (simp add: root del: printable.simps)
qed simp

end
