(* ===== verification/MustacheTotal.thy ===== *)
theory MustacheTotal
  imports MustachePaths
begin

text \<open>
  MustacheRender of mustache.c ends on every template. Each round of Render moves behind a tag, whose
  delimiters are not empty, so that the position grows; the paths on the stack of hashes stay good, and the
  stack is never empty when a name is looked up, so that only four faults are possible.
\<close>

section \<open>Variables\<close>

definition path_ptr_ok :: "JsonElement \<Rightarrow> path ptr \<Rightarrow> bool" where
  "path_ptr_ok root v = (case v of NULL \<Rightarrow> True | Ptr p \<Rightarrow> path_ok root p)"

lemma path_ptr_ok_simps [simp]: "path_ptr_ok root NULL" "path_ptr_ok root (Ptr p) \<longleftrightarrow> path_ok root p"
  by (simp_all add: path_ptr_ok_def)

lemma path_ptr_ok_keeps: "keeps root root' \<Longrightarrow> path_ptr_ok root v \<Longrightarrow> path_ptr_ok root' v"
  by (cases v) (auto intro: keepsD)

lemma deref_path: "path_ok root p \<Longrightarrow> \<exists>e. deref root p = Ok e \<and> element_at root p = Some e"
  using path_ok_element by (force simp: deref_def)

lemma lookup_key_find: "NULL \<notin> set (map propertyName cs) \<Longrightarrow> lookup_key k cs = Ok (find (\<lambda>c. propertyName c = Ptr k) cs)"
  by (induction cs) (auto simp: StringEqual_iff split: option.split)

lemma JsonObjectGet_find:
  "printable (Container name JSON_CONTAINER_TYPE_OBJECT cs) \<Longrightarrow>
   JsonObjectGet (Container name JSON_CONTAINER_TYPE_OBJECT cs) k = Ok (find (\<lambda>c. propertyName c = Ptr k) cs)"
  by (simp add: JsonObjectGet_def lookup_key_find)

text \<open>One step of the lookup: a member of the object at a path.\<close>

lemma object_member:
  assumes "printable root" "path_ok root p" "element_at root p = Some e" "JsonGetType e = ContainerType JSON_CONTAINER_TYPE_OBJECT"
  shows "\<exists>v. JsonObjectGet e k = Ok v \<and> (v \<noteq> NULL \<longrightarrow> path_ok root (p @ [Member k]))"
proof -
  obtain name cs where e: "e = Container name JSON_CONTAINER_TYPE_OBJECT cs"
    using assms(4) by (cases e) (auto simp: JsonGetType_def)
  have "printable e" using element_printable [OF assms(1,3)] .
  then show ?thesis using path_ok_append [OF assms(2,3), of "[Member k]"] JsonObjectGet_find [of name cs k] by (auto simp: e)
qed

lemma lookup_base_ok:
  "printable root \<Longrightarrow> list_all (path_ptr_ok root) stack \<Longrightarrow> \<exists>v. lookup_base root stack k = Ok v \<and> path_ptr_ok root v"
proof (induction stack)
  case (Cons hash below)
  then obtain v where v: "lookup_base root below k = Ok v" "path_ptr_ok root v" by auto
  show ?case
  proof (cases hash)
    case (Some p)
    then have p: "path_ok root p" using Cons.prems(2) by simp
    from deref_path [OF p] obtain e where e: "deref root p = Ok e" "element_at root p = Some e" by blast
    show ?thesis
    proof (cases "JsonGetType e = ContainerType JSON_CONTAINER_TYPE_OBJECT")
      case True
      from object_member [OF Cons.prems(1) p e(2) True, of k] obtain w where
        w: "JsonObjectGet e k = Ok w" "w \<noteq> NULL \<longrightarrow> path_ok root (p @ [Member k])" by blast
      then show ?thesis using Some e(1) True v by (cases w) auto
    qed (use Some e(1) v in simp)
  qed (use v in simp)
qed simp

lemma lookup_rest_ok:
  "printable root \<Longrightarrow> path_ok root p \<Longrightarrow> i + n = length (tokens (strchr_in ''.'') name) \<Longrightarrow>
   \<exists>v. lookup_rest root name n i p = Ok v \<and> path_ptr_ok root v"
proof (induction n arbitrary: i p)
  case (Suc n)
  from deref_path [OF Suc.prems(2)] obtain e where e: "deref root p = Ok e" "element_at root p = Some e" by blast
  show ?case
  proof (cases "JsonGetType e = ContainerType JSON_CONTAINER_TYPE_OBJECT")
    case True
    from component_at_Ok [of i "''.''" name] Suc.prems(3) obtain k where k: "component_at name i ''.'' = Ok k" by auto
    from object_member [OF Suc.prems(1,2) e(2) True, of k] obtain w where
      w: "JsonObjectGet e k = Ok w" "w \<noteq> NULL \<longrightarrow> path_ok root (p @ [Member k])" by blast
    show ?thesis
    proof (cases w)
      case (Some c)
      then show ?thesis using Suc.IH [of "p @ [Member k]" "i + 1"] Suc.prems(1,3) w e(1) True k by auto
    qed (use w e(1) True k in simp)
  qed (use e(1) in simp)
qed simp

text \<open>A name without components is the one fault of LookupVariable.\<close>

lemma sat_LookupVariable:
  assumes "printable root" "list_all (path_ptr_ok root) stack" "stack \<noteq> []" "NullDeref \<in> F"
  shows "sat F (path_ptr_ok root) (LookupVariable root stack name)"
proof (cases "tokens (strchr_in ''.'') name = []")
  case True
  then show ?thesis using assms(3,4)
    by (simp add: LookupVariable_def StringCountTokens_length component_at_tokens c_assert_def del: tokens.simps)
next
  case False
  then obtain k where k: "component_at name 0 ''.'' = Ok k" using component_at_Ok [of 0 "''.''" name] by auto
  have "list_all (path_ptr_ok root) (rev stack)" using assms(2) by simp
  from lookup_base_ok [OF assms(1) this, of k] obtain v where v: "lookup_base root (rev stack) k = Ok v" "path_ptr_ok root v" by blast
  let ?w = "if v = NULL \<and> k = ''-top-'' then hd stack else v"
  have "path_ptr_ok root ?w" using v(2) assms(2,3) by (cases stack) auto
  moreover have "1 + (length (tokens (strchr_in ''.'') name) - 1) = length (tokens (strchr_in ''.'') name)" using False by (cases "tokens (strchr_in ''.'') name") auto
  ultimately have "sat F (path_ptr_ok root)
      (case ?w of NULL \<Rightarrow> Ok NULL | Ptr p \<Rightarrow> lookup_rest root name (length (tokens (strchr_in ''.'') name) - 1) 1 p)"
    using lookup_rest_ok [OF assms(1), of _ 1 "length (tokens (strchr_in ''.'') name) - 1" name] by (cases ?w) fastforce+
  then show ?thesis using k v(1) assms(3)
    by (simp add: LookupVariable_def StringCountTokens_length c_assert_def del: tokens.simps)
qed

lemma sat_JsonPrimitiveGetAsInteger:
  assumes "ProcessExit \<in> F"
  shows "sat F (\<lambda>i. \<bar>i\<bar> \<le> 2 ^ 63) (JsonPrimitiveGetAsInteger (Primitive name JSON_PRIMITIVE_TYPE_INTEGER v))"
proof -
  obtain x r b where x: "strtol LONG_MIN LONG_MAX v = (x, r, b)" by (metis prod_cases3)
  then have "\<bar>x\<bar> \<le> 2 ^ 63" by (auto simp: strtol_def c_limits split: option.splits if_splits)
  then show ?thesis using assms x
    by (auto simp: JsonPrimitiveGetAsInteger_def StringToLongExitOnError_def StringToLong_def exit_on_error_def c_assert_def split: option.split)
qed

text \<open>A number that is not a \<open>long\<close> ends the process.\<close>

lemma sat_RenderVariablePrimitive:
  assumes "ProcessExit \<in> F" "JsonGetElementType e = JSON_ELEMENT_TYPE_PRIMITIVE \<or> key \<noteq> NULL"
  shows "sat F (\<lambda>_. True) (RenderVariablePrimitive float_text out e escaped key)"
proof (cases key)
  case None
  then obtain name t v where e: "e = Primitive name t v" using assms(2) by (cases e) (auto simp: JsonGetElementType_def)
  show ?thesis
  proof (cases t)
    case JSON_PRIMITIVE_TYPE_INTEGER
    then show ?thesis using None e StringFromLong_string
      by (auto simp: RenderVariablePrimitive_def JsonGetPrimitiveType_def intro!: sat_bind [OF sat_JsonPrimitiveGetAsInteger [OF assms(1)]])
  qed (simp_all add: None e RenderVariablePrimitive_def JsonGetPrimitiveType_def JsonPrimitiveGetAsString_def JsonPrimitiveGetAsBool_def
      StringEqual_iff c_assert_def)
qed (simp add: RenderVariablePrimitive_def)

text \<open>What rendering a variable leaves of the document.\<close>

abbreviation root_ok :: "JsonElement \<Rightarrow> JsonElement \<Rightarrow> bool" where
  "root_ok root root' \<equiv> printable root' \<and> keeps root root'"

lemma RenderVariableContainer_ok:
  assumes "printable e"
  shows "\<exists>out' d. RenderVariableContainer out e compact = Ok (out', d) \<and> printable d \<and> propertyName d = propertyName e \<and> keeps e d"
  using JsonWrite_text [OF assms, of 0] JsonWriteCompact_text [OF assms] reordered_printable [of e] reordered_name [of e] reordered_keeps [of e] assms
  by (cases compact) (auto simp: RenderVariableContainer_def)

lemma sat_render_element:
  assumes "printable root" "element_at root p = Some e" "ProcessExit \<in> F" "AssertFail \<in> F"
  shows "sat F (\<lambda>(ok, out, root'). root_ok root root') (render_element float_text out p e conversion item_mode key root)"
proof -
  have primitive: "sat F (\<lambda>(ok, out, root'). root_ok root root')
      (bindE (RenderVariablePrimitive float_text out e b key) (\<lambda>(ok, out). Ok (ok, out, root)))"
    if "JsonGetElementType e = JSON_ELEMENT_TYPE_PRIMITIVE \<or> key \<noteq> NULL" for b
    by (rule sat_bind [OF sat_RenderVariablePrimitive [OF assms(3) that]]) (simp add: assms(1) keeps_refl split: prod.split)
  have container: "sat F (\<lambda>(ok, out, root'). root_ok root root')
      (bindE (RenderVariableContainer out e b) (\<lambda>(out, e'). Ok (True, out, replace_at root p e')))" for b
    using RenderVariableContainer_ok [OF element_printable [OF assms(1,2)], of out b] replace_ok [OF assms(1,2)] by force
  show ?thesis
  proof (cases "JsonGetElementType e")
    case JSON_ELEMENT_TYPE_PRIMITIVE
    then show ?thesis using primitive unfolding render_element_def by simp
  next
    case JSON_ELEMENT_TYPE_CONTAINER
    then show ?thesis using primitive container assms(1,4) keeps_refl by (simp add: render_element_def)
  qed
qed

lemma sat_RenderVariable:
  assumes "printable root" "list_all (path_ptr_ok root) stack" "stack \<noteq> []" "{AssertFail, NullDeref, ProcessExit} \<subseteq> F"
  shows "sat F (\<lambda>(ok, out, root'). root_ok root root') (RenderVariable float_text out content conversion stack key root)"
proof -
  have var: "sat F (path_ptr_ok root)
      (if content = ''.'' \<or> content = ''@'' then bindE (c_assert (stack \<noteq> [])) (\<lambda>_. Ok (last stack)) else LookupVariable root stack content)"
    using sat_LookupVariable [OF assms(1-3)] assms(2-4) by (simp add: c_assert_def list_all_iff)
  show ?thesis unfolding RenderVariable_def Let_def
  proof (rule sat_bind [OF var])
    fix v assume v: "path_ptr_ok root v"
    show "sat F (\<lambda>(ok, out, root'). root_ok root root') (if content = ''@'' \<and> key = NULL then Ok (False, out, root) else case v of
        NULL \<Rightarrow> Ok (True, out, root)
      | Ptr p \<Rightarrow> bindE (deref root p) (\<lambda>e. render_element float_text out p e conversion (content = ''.'') (if content = ''@'' then key else NULL) root))"
    proof (cases v)
      case (Some p)
      then show ?thesis using v deref_path [of root p] sat_render_element [OF assms(1)] assms(1,4) keeps_refl by auto
    qed (simp add: assms(1) keeps_refl)
  qed
qed

section \<open>Rendering\<close>

text \<open>The faults a template can meet: memory is overrun only where delimiters are set.\<close>

definition render_faults :: "string \<Rightarrow> fault set" where
  "render_faults start = {AssertFail, NullDeref, ProcessExit} \<union> (if CHR ''='' \<in> set start then {OutOfBounds} else {})"

lemma sat_ShouldIterateObject:
  "delims_ok d \<Longrightarrow> length start - input < fuel \<Longrightarrow> sat (render_faults start) (\<lambda>_. True) (ShouldIterateObject fuel start input d)"
proof (induction fuel arbitrary: input d)
  case (Suc fuel)
  let ?F = "render_faults start"
  have tag: "sat ?F (tag_ok start input) (NextTag start input (fst d) (snd d))"
    using Suc.prems(1) by (intro sat_NextTag) (auto simp: delims_ok_def)
  show ?case unfolding ShouldIterateObject.simps
  proof (rule sat_bind [OF tag])
    fix t assume t: "tag_ok start input t"
    show "sat ?F (\<lambda>_. True) (case tag_end t of NULL \<Rightarrow> Ok False | Ptr stop \<Rightarrow>
         if tag_type t \<in> {TAG_TYPE_ERR, TAG_TYPE_NONE, TAG_TYPE_SECTION, TAG_TYPE_SECTION_END} then Ok False
         else if tag_type t \<in> {TAG_TYPE_VAR, TAG_TYPE_VAR_UNESCAPED}
         then (if IsKeyExtensionVar (tag_type t) (drop (the (tag_begin t)) start) d then Ok True
               else ShouldIterateObject fuel start stop d)
         else if tag_type t = TAG_TYPE_DELIM
         then bindE (SetDelimiters (tag_content t) d) (\<lambda>(ok, loc). if ok then ShouldIterateObject fuel start stop loc else Ok False)
         else ShouldIterateObject fuel start stop d)"
    proof (cases "tag_end t")
      case (Some stop)
      then have "length start - stop < fuel" using t Suc.prems(2) by (auto simp: tag_ok_def)
      then have go: "sat ?F (\<lambda>_. True) (ShouldIterateObject fuel start stop d')" if "delims_ok d'" for d' using Suc.IH that by blast
      have "sat ?F (\<lambda>_. True) (bindE (SetDelimiters (tag_content t) d) (\<lambda>(ok, loc). if ok then ShouldIterateObject fuel start stop loc else Ok False))"
        if "tag_type t = TAG_TYPE_DELIM"
        using t that Suc.prems(1) go
        by (intro sat_bind [OF sat_SetDelimiters]) (auto simp: tag_ok_def render_faults_def simp del: ShouldIterateObject.simps)
      then show ?thesis using Some Suc.prems(1) go by (simp del: ShouldIterateObject.simps)
    qed simp
  qed
qed simp

text \<open>
  What holds between the rounds. Inside a section the stack has a hash for the section above the first one; the
  loop may leave hashes behind, but takes away at most one.
\<close>

definition state_ok :: "bool \<Rightarrow> render_state \<Rightarrow> bool" where
  "state_ok inside st \<longleftrightarrow> delims_ok (r_delims st) \<and> printable (r_root st) \<and> list_all (path_ptr_ok (r_root st)) (r_stack st)
     \<and> (if inside then 2 else 1) \<le> length (r_stack st)"

definition follows :: "render_state \<Rightarrow> render_state \<Rightarrow> bool" where
  "follows st st' \<longleftrightarrow> delims_ok (r_delims st') \<and> root_ok (r_root st) (r_root st') \<and> list_all (path_ptr_ok (r_root st')) (r_stack st')
     \<and> length (r_stack st) \<le> Suc (length (r_stack st'))"

definition done_ok :: "string \<Rightarrow> nat \<Rightarrow> render_state \<Rightarrow> bool \<times> nat ptr \<times> render_state \<Rightarrow> bool" where
  "done_ok start input st r \<longleftrightarrow> follows st (snd (snd r)) \<and> (\<forall>e. fst (snd r) = Ptr e \<longrightarrow> input < e \<and> e \<le> length start)"

lemma done_ok_simps [simp]:
  "done_ok start input st (ok, NULL, st') \<longleftrightarrow> follows st st'"
  "done_ok start input st (ok, Ptr e, st') \<longleftrightarrow> follows st st' \<and> input < e \<and> e \<le> length start"
  by (simp_all add: done_ok_def)

lemma follows_refl: "state_ok inside st \<Longrightarrow> follows st st"
  by (simp add: follows_def state_ok_def keeps_refl)

text \<open>Another round from a state that has the same document and a stack that is not lower.\<close>

lemma follows_step:
  assumes "follows st' st''" "keeps (r_root st) (r_root st')" "length (r_stack st) \<le> length (r_stack st')"
  shows "follows st st''"
  using assms keeps_trans by (auto simp: follows_def)

lemma done_ok_step:
  "done_ok start input st' r \<Longrightarrow> keeps (r_root st) (r_root st') \<Longrightarrow> length (r_stack st) \<le> length (r_stack st') \<Longrightarrow> done_ok start input st r"
  by (auto simp: done_ok_def intro: follows_step)

lemma child_hash_ok:
  assumes "printable root" "path_ok root p" "element_at root p = Some e" "is_container e" "i < JsonLength e"
  shows "\<exists>q key. child_hash root p i = Ok (q, key) \<and> path_ok root q"
proof -
  obtain name t cs where e: "e = Container name t cs" using assms(4) by (cases e) auto
  have i: "i < length cs" using assms(5) by (simp add: e JsonLength_def)
  have d: "deref root p = Ok e" using assms(3) by (simp add: deref_def)
  note path = path_ok_append [OF assms(2,3)]
  show ?thesis
  proof (cases "t = JSON_CONTAINER_TYPE_OBJECT")
    case True
    have "printable e" using element_printable [OF assms(1,3)] .
    then have names: "NULL \<notin> set (map propertyName cs)" using True by (simp add: e)
    have "propertyName (cs ! i) \<in> set (map propertyName cs)" using nth_mem [OF i] by simp
    with names have "propertyName (cs ! i) \<noteq> NULL" by metis
    then obtain k where k: "propertyName (cs ! i) = Ptr k" by blast
    have "\<exists>c. find (\<lambda>c. propertyName c = Ptr k) cs = Some c"
      using k i by (cases "find (\<lambda>c. propertyName c = Ptr k) cs") (auto simp: find_None_iff)
    then show ?thesis using d e i k True path [of "[Member k]"]
      by (auto simp: child_hash_def JsonAt_def JsonGetContainerType_def JsonLength_def JsonElementGetPropertyName_def c_assert_def)
  next
    case False
    then have "t = JSON_CONTAINER_TYPE_ARRAY" by (cases t) auto
    then show ?thesis using d e i path [of "[step.Item i]"]
      by (auto simp: child_hash_def JsonAt_def JsonGetContainerType_def JsonLength_def c_assert_def)
  qed
qed

text \<open>A section renders per child only the children of the container its name stands for.\<close>

definition mode_ok :: "JsonElement \<Rightarrow> section_mode \<Rightarrow> bool" where
  "mode_ok root mode = (case mode of
     PerChild p n _ \<Rightarrow> path_ok root p \<and> (\<exists>e. element_at root p = Some e \<and> is_container e \<and> n = JsonLength e)
   | _ \<Rightarrow> True)"

lemma sat_section_mode:
  assumes "state_ok inside st" "path_ptr_ok (r_root st) var"
  shows "sat (render_faults start) (mode_ok (r_root st)) (section_mode start input inverted skip var st)"
proof (cases var)
  case (Some p)
  then have p: "path_ok (r_root st) p" using assms(2) by simp
  from deref_path [OF this] obtain e where e: "deref (r_root st) p = Ok e" "element_at (r_root st) p = Some e" by blast
  show ?thesis
  proof (cases e)
    case (Container name t cs)
    have "sat (render_faults start) (\<lambda>_. True) (if t = JSON_CONTAINER_TYPE_OBJECT then ShouldIterateObject (Suc (length start)) start input (r_delims st) else Ok True)"
      using assms(1) sat_ShouldIterateObject [of "r_delims st" start input "Suc (length start)"] by (simp add: state_ok_def del: ShouldIterateObject.simps)
    then show ?thesis using Some p e Container
      by (auto simp: section_mode_def mode_ok_def simp del: ShouldIterateObject.simps intro!: sat_bind [of _ "\<lambda>_. True"])
  next
    case (Primitive name t v)
    then show ?thesis using Some e(1)
      by (simp add: section_mode_def mode_ok_def JsonPrimitiveGetAsBool_def StringEqual_iff c_assert_def)
  qed
qed (simp add: section_mode_def mode_ok_def)

lemma sat_render_children:
  assumes "\<And>key st. state_ok True st \<Longrightarrow> sat F (done_ok start input st) (render key st)"
  shows "state_ok False st \<Longrightarrow> (\<forall>e. se = Ptr e \<longrightarrow> input < e \<and> e \<le> length start) \<Longrightarrow>
    path_ok (r_root st) p \<Longrightarrow> element_at (r_root st) p = Some e \<Longrightarrow> is_container e \<Longrightarrow> i + n = JsonLength e \<Longrightarrow>
    sat F (\<lambda>r. done_ok start input st r \<and> (fst r \<longrightarrow> length (r_stack st) \<le> length (r_stack (snd (snd r))))) (render_children render p n i se st)"
proof (induction n arbitrary: i se st e)
  case 0
  then show ?case by (auto simp: done_ok_def intro: follows_refl)
next
  case (Suc n)
  have pr: "printable (r_root st)" using Suc.prems(1) by (simp add: state_ok_def)
  from child_hash_ok [OF pr Suc.prems(3-5), of i] Suc.prems(6) obtain q key where
    q: "child_hash (r_root st) p i = Ok (q, key)" "path_ok (r_root st) q" by auto
  let ?st = "st\<lparr>r_stack := r_stack st @ [Ptr q]\<rparr>"
  have "state_ok True ?st" using Suc.prems(1) q(2) by (simp add: state_ok_def)
  from assms [OF this] have run: "sat F (done_ok start input ?st) (render (Ptr key) ?st)" .
  show ?case unfolding render_children.simps q(1) bindE.simps prod.case
  proof (rule sat_bind [OF run])
    fix r assume r: "done_ok start input ?st r"
    obtain ok ended st' where r3: "r = (ok, ended, st')" by (rule prod_cases3)
    have st': "delims_ok (r_delims st')" "root_ok (r_root st) (r_root st')" "list_all (path_ptr_ok (r_root st')) (r_stack st')"
      "length (r_stack st) \<le> length (r_stack st')" and ended: "\<forall>e. ended = Ptr e \<longrightarrow> input < e \<and> e \<le> length start"
      using r by (auto simp: r3 done_ok_def follows_def)
    then have ok': "state_ok False st'" using Suc.prems(1) by (simp add: state_ok_def)
    have kp: "keeps (r_root st) (r_root st')" using st'(2) by blast
    from keeps_element [OF kp Suc.prems(3,4)] obtain d where d: "element_at (r_root st') p = Some d" "alike e d" by blast
    have "is_container d" "Suc i + n = JsonLength d"
      using d(2) Suc.prems(5,6) by (cases e; cases d; auto simp: alike_def JsonGetType_def)+
    from Suc.IH [OF ok' _ keepsD [OF kp Suc.prems(3)] d(1) this, of "if ended = NULL then se else ended"]
    have "sat F (\<lambda>r. done_ok start input st' r \<and> (fst r \<longrightarrow> length (r_stack st') \<le> length (r_stack (snd (snd r)))))
        (render_children render p n (Suc i) (if ended = NULL then se else ended) st')"
      using Suc.prems(2) ended by simp
    then have "sat F (\<lambda>r. done_ok start input st r \<and> (fst r \<longrightarrow> length (r_stack st) \<le> length (r_stack (snd (snd r)))))
        (render_children render p n (Suc i) (if ended = NULL then se else ended) st')"
      by (rule sat_mono) (use st'(4) kp in \<open>auto intro: done_ok_step\<close>)
    moreover have "follows st st'" using st' by (simp add: follows_def)
    ultimately show "sat F (\<lambda>r. done_ok start input st r \<and> (fst r \<longrightarrow> length (r_stack st) \<le> length (r_stack (snd (snd r)))))
        (case r of (ok, ended, st) \<Rightarrow> if \<not> ok then Ok (False, NULL, st)
          else render_children render p n (i + 1) (if ended = NULL then se else ended) st)"
      by (simp add: r3)
  qed
qed

lemma sat_render_variable_tag:
  assumes "state_ok inside st" "{AssertFail, NullDeref, ProcessExit} \<subseteq> F"
  shows "sat F (\<lambda>(ok, st'). state_ok inside st' \<and> keeps (r_root st) (r_root st') \<and> r_stack st' = r_stack st) (render_variable_tag float_text tag key skip st)"
proof -
  have st: "printable (r_root st)" "list_all (path_ptr_ok (r_root st)) (r_stack st)" "r_stack st \<noteq> []"
    using assms(1) by (auto simp: state_ok_def split: if_splits)
  have keep: "list_all (path_ptr_ok root') (r_stack st)" if "keeps (r_root st) root'" for root'
    using st(2) path_ptr_ok_keeps [OF that] by (auto simp: list_all_iff)
  then have "sat F (\<lambda>(ok, st'). state_ok inside st' \<and> keeps (r_root st) (r_root st') \<and> r_stack st' = r_stack st)
      (bindE (RenderVariable float_text (r_out st) (tag_content tag) (tag_type tag) (r_stack st) key (r_root st))
        (\<lambda>(ok, out, root). Ok (ok, st\<lparr>r_out := out, r_root := root\<rparr>)))"
    using assms(1) by (intro sat_bind [OF sat_RenderVariable [OF st assms(2)]]) (auto simp: state_ok_def)
  then show ?thesis using assms(1) keeps_refl by (simp add: render_variable_tag_def state_ok_def)
qed

text \<open>One round: \<open>render\<close> returns from every position behind \<open>input\<close>.\<close>

definition renders :: "fault set \<Rightarrow> string \<Rightarrow> nat \<Rightarrow> renderer \<Rightarrow> bool" where
  "renders F start input render \<longleftrightarrow> (\<forall>after key skip section st. state_ok (section \<noteq> NULL) st \<longrightarrow>
     (\<forall>a. after = Ptr a \<longrightarrow> input < a \<and> a \<le> length start) \<longrightarrow> sat F (done_ok start input st) (render after key skip section st))"

lemma rendersD: "renders F start input render \<Longrightarrow> state_ok (section \<noteq> NULL) st \<Longrightarrow> (\<And>a. after = Ptr a \<Longrightarrow> input < a \<and> a \<le> length start) \<Longrightarrow>
    sat F (done_ok start input st) (render after key skip section st)"
  by (simp add: renders_def)

text \<open>Going on in a later state, and what it says of the state before.\<close>

lemma renders_step:
  assumes "renders F start input render" "state_ok (section \<noteq> NULL) st'" "\<And>a. after = Ptr a \<Longrightarrow> input < a \<and> a \<le> length start"
    "keeps (r_root st) (r_root st')" "length (r_stack st) \<le> length (r_stack st')"
  shows "sat F (done_ok start input st) (render after key skip section st')"
  by (rule sat_mono [OF rendersD [OF assms(1-3)]]) (use assms(4,5) in \<open>auto intro: done_ok_step\<close>)

lemma sat_render_section:
  assumes "renders (render_faults start) start input render" "state_ok (section \<noteq> NULL) st" "\<And>a. after = Ptr a \<Longrightarrow> input < a \<and> a \<le> length start"
  shows "sat (render_faults start) (done_ok start input st) (render_section render start tag after key skip section st)"
proof -
  let ?F = "render_faults start"
  have st: "printable (r_root st)" "list_all (path_ptr_ok (r_root st)) (r_stack st)" "r_stack st \<noteq> []" "delims_ok (r_delims st)"
    using assms(2) by (auto simp: state_ok_def split: if_splits)
  have var: "sat ?F (path_ptr_ok (r_root st)) (LookupVariable (r_root st) (r_stack st) (tag_content tag))"
    by (rule sat_LookupVariable [OF st(1-3)]) (simp add: render_faults_def)
  show ?thesis unfolding render_section_def Let_def
  proof (rule sat_bind [OF var])
    fix var assume var: "path_ptr_ok (r_root st) var"
    let ?st = "st\<lparr>r_stack := r_stack st @ [var]\<rparr>"
    have ok: "state_ok True ?st" using st var by (cases "r_stack st") (simp_all add: state_ok_def)
    have mode: "sat ?F (mode_ok (r_root ?st)) (section_mode start (the after) (tag_type tag = TAG_TYPE_INVERTED) skip var ?st)"
      by (rule sat_section_mode [OF ok]) (use var in simp)
    show "sat ?F (done_ok start input st) (bindE (section_mode start (the after) (tag_type tag = TAG_TYPE_INVERTED) skip var ?st) (\<lambda>mode.
        bindE (render_body render after (tag_content tag) mode ?st) (\<lambda>(ok, section_end, st).
        if ok then render section_end key skip section st else Ok (False, NULL, st))))"
    proof (rule sat_bind [OF mode])
      fix mode assume m: "mode_ok (r_root ?st) mode"
      have body: "sat ?F (done_ok start input ?st) (render_body render after (tag_content tag) mode ?st)"
      proof (cases mode)
        case (PerChild p n s)
        with m obtain e where e: "path_ok (r_root ?st) p" "element_at (r_root ?st) p = Some e" "is_container e" "0 + n = JsonLength e"
          by (auto simp: mode_ok_def)
        have each: "sat ?F (done_ok start input st') (render after k s (Ptr (tag_content tag)) st')" if "state_ok True st'" for k st'
          by (rule rendersD [OF assms(1)]) (use that assms(3) in auto)
        have "state_ok False ?st" using ok by (simp add: state_ok_def)
        from sat_render_children [where render = "\<lambda>k. render after k s (Ptr (tag_content tag))", OF each this _ e, of NULL] show ?thesis
          unfolding PerChild render_body_def section_mode.case by (rule sat_mono) auto
      next
        case (Once s)
        then show ?thesis using rendersD [OF assms(1) _ assms(3), of "Ptr (tag_content tag)"] ok by (simp add: render_body_def)
      next
        case BadSection
        then show ?thesis using follows_refl [OF ok] by (simp add: render_body_def)
      qed
      show "sat ?F (done_ok start input st) (bindE (render_body render after (tag_content tag) mode ?st) (\<lambda>(ok, section_end, st).
          if ok then render section_end key skip section st else Ok (False, NULL, st)))"
      proof (rule sat_bind [OF body])
        fix r assume "done_ok start input ?st r"
        then show "sat ?F (done_ok start input st) (case r of (ok, section_end, st) \<Rightarrow> if ok then render section_end key skip section st else Ok (False, NULL, st))"
          using assms(2) by (cases r) (auto simp: done_ok_def follows_def state_ok_def intro!: renders_step [OF assms(1)])
      qed
    qed
  qed
qed

lemma sat_render_tag:
  assumes "renders (render_faults start) start input render" "state_ok (section \<noteq> NULL) st" "\<And>a. after = Ptr a \<Longrightarrow> input < a \<and> a \<le> length start"
    "tag_type tag = TAG_TYPE_DELIM \<longrightarrow> CHR ''='' \<in> set start"
  shows "sat (render_faults start) (done_ok start input st) (render_tag render float_text start tag after key skip section st)"
proof -
  let ?F = "render_faults start"
  have go: "sat ?F (done_ok start input st) (render after key skip section st')"
    if "state_ok (section \<noteq> NULL) st'" "keeps (r_root st) (r_root st')" "length (r_stack st) \<le> length (r_stack st')" for st'
    by (rule renders_step [OF assms(1) that(1) assms(3) that(2,3)])
  have "sat ?F (done_ok start input st) (bindE (SetDelimiters (tag_content tag) (r_delims st)) (\<lambda>(ok, delims).
      if ok then render after key skip section (st\<lparr>r_delims := delims\<rparr>) else Ok (False, NULL, st\<lparr>r_delims := delims\<rparr>)))"
    if "tag_type tag = TAG_TYPE_DELIM"
  proof (rule sat_bind [OF sat_SetDelimiters])
    fix r :: "bool \<times> delims"
    assume "case r of (ok, d) \<Rightarrow> delims_ok d"
    then show "sat ?F (done_ok start input st) (case r of (ok, delims) \<Rightarrow>
        if ok then render after key skip section (st\<lparr>r_delims := delims\<rparr>) else Ok (False, NULL, st\<lparr>r_delims := delims\<rparr>))"
      using assms(2) by (auto simp: state_ok_def follows_def keeps_refl intro!: go)
  qed (use assms(2,4) that in \<open>simp_all add: state_ok_def render_faults_def\<close>)
  moreover have "sat ?F (done_ok start input st) (bindE (render_variable_tag float_text tag key skip st) (\<lambda>(ok, st).
      if ok then render after key skip section st else Ok (False, NULL, st)))"
  proof (rule sat_bind [OF sat_render_variable_tag [OF assms(2)]])
    fix r :: "bool \<times> render_state"
    assume "case r of (ok, st') \<Rightarrow> state_ok (section \<noteq> NULL) st' \<and> keeps (r_root st) (r_root st') \<and> r_stack st' = r_stack st"
    then show "sat ?F (done_ok start input st) (case r of (ok, st) \<Rightarrow> if ok then render after key skip section st else Ok (False, NULL, st))"
      by (cases r) (auto intro!: go follows_step [OF follows_refl])
  qed (simp add: render_faults_def)
  moreover have "done_ok start input st (True, after, st\<lparr>r_stack := butlast (r_stack st)\<rparr>)"
    using assms(2,3) by (auto simp: done_ok_def state_ok_def follows_def keeps_refl list_all_iff dest: in_set_butlastD)
  moreover have "sat ?F (done_ok start input st) (render after key skip section st)" by (rule rendersD [OF assms(1-3)])
  ultimately show ?thesis using sat_render_section [OF assms(1-3)] follows_refl [OF assms(2)]
    by (simp add: render_tag_def del: case_prod_conv)
qed

lemma done_ok_later: "done_ok start a st r \<Longrightarrow> i < a \<Longrightarrow> done_ok start i st r"
  by (auto simp: done_ok_def)

lemma Render_ok:
  "state_ok (sec \<noteq> NULL) st \<Longrightarrow> length start - input + 1 < fuel \<Longrightarrow>
   sat (render_faults start) (done_ok start input st) (Render fuel float_text start (Ptr input) key skip sec st)"
proof (induction fuel arbitrary: input key skip sec st)
  case (Suc fuel)
  let ?F = "render_faults start"
  have tag: "sat ?F (tag_ok start input) (NextTag start input (fst (r_delims st)) (snd (r_delims st)))"
    using Suc.prems(1) by (intro sat_NextTag) (auto simp: delims_ok_def state_ok_def)
  have go: "renders ?F start input (Render fuel float_text start)" unfolding renders_def
  proof (intro allI impI)
    fix after key skip and sec :: "string ptr" and st
    assume st: "state_ok (sec \<noteq> NULL) st" and after: "\<forall>a. after = Ptr a \<longrightarrow> input < a \<and> a \<le> length start"
    show "sat ?F (done_ok start input st) (Render fuel float_text start after key skip sec st)"
    proof (cases after)
      case None
      obtain k where "fuel = Suc k" using Suc.prems(2) by (cases fuel) auto
      then show ?thesis using None follows_refl [OF st] by simp
    next
      case (Some a)
      then have "sat ?F (done_ok start a st) (Render fuel float_text start (Ptr a) key skip sec st)"
        using st after Suc.prems(2) by (intro Suc.IH) auto
      then show ?thesis using Some after by (auto elim!: sat_mono intro: done_ok_later)
    qed
  qed
  show ?case unfolding Render.simps option.case
  proof (rule sat_bind [OF tag])
    fix t assume t: "tag_ok start input t"
    obtain out after where e: "emit_text start input t skip (r_out st) = (out, after)" by (rule prod.exhaust)
    let ?st = "st\<lparr>r_out := out\<rparr>"
    have st: "state_ok (sec \<noteq> NULL) ?st" using Suc.prems(1) by (simp add: state_ok_def)
    have "sat ?F (done_ok start input ?st) (render_tag (Render fuel float_text start) float_text start t after key skip sec ?st)"
    proof (cases after)
      case None
      then have "tag_type t \<in> {TAG_TYPE_ERR, TAG_TYPE_NONE}" using emit_text_after [OF t e] by simp
      then show ?thesis using follows_refl [OF st] by (auto simp: render_tag_def)
    next
      case (Some a)
      then show ?thesis using emit_text_after [OF t e] t by (intro sat_render_tag [OF go st]) (auto simp: tag_ok_def)
    qed
    moreover have "done_ok start input ?st = done_ok start input st" by (auto simp: fun_eq_iff done_ok_def follows_def)
    ultimately show "sat ?F (done_ok start input st) (let (out, after) = emit_text start input t skip (r_out st)
        in render_tag (Render fuel float_text start) float_text start t after key skip sec (st\<lparr>r_out := out\<rparr>))"
      unfolding e Let_def prod.case by simp
  qed
qed simp

lemma MustacheRender_ok:
  assumes "printable hash"
  shows "sat (render_faults input) (\<lambda>(ok, out', hash'). root_ok hash hash') (MustacheRender float_text out input hash)"
  unfolding MustacheRender_def
  by (rule sat_bind [OF Render_ok]) (use assms in \<open>auto simp: state_ok_def delims_ok_def IsSpace_def done_ok_def follows_def\<close>)

end
