(* ===== verification/MustacheText.thy ===== *)
theory MustacheText
  imports MustacheTotal
begin

text \<open>
  What MustacheRender of mustache.c writes, against a reference semantics of templates: texts, variables
  and nested sections over a document of strings and booleans.
\<close>

section \<open>Templates\<close>

text \<open>A template is a list of texts, each followed by a tag, and a last text.\<close>

datatype piece = Variable string | Unescaped string | Section bool string "(string \<times> piece) list" string

type_synonym template = "(string \<times> piece) list"

definition tag_text :: "string \<Rightarrow> string \<Rightarrow> string" where
  "tag_text mark name = ''{{'' @ mark @ name @ ''}}''"

abbreviation section_mark :: "bool \<Rightarrow> string" where
  "section_mark inverted \<equiv> (if inverted then ''^'' else ''#'')"

fun piece_text :: "piece \<Rightarrow> string"
  and template_text :: "template \<Rightarrow> string" where
  "piece_text (Variable name) = tag_text [] name"
| "piece_text (Unescaped name) = tag_text ''&'' name"
| "piece_text (Section inverted name ts t) = tag_text (section_mark inverted) name @ template_text ts @ t @ tag_text ''/'' name"
| "template_text [] = []"
| "template_text ((x, p) # ts) = x @ piece_text p @ template_text ts"

text \<open>The reference semantics.\<close>

definition member :: "JsonElement list \<Rightarrow> string \<Rightarrow> JsonElement option" where
  "member cs name = find (\<lambda>c. propertyName c = Ptr name) cs"

text \<open>The characters that HTML reserves, and how they are written.\<close>

definition html_entities :: "(char \<times> string) list" where
  "html_entities = [(CHR ''<'', ''&lt;''), (CHR ''>'', ''&gt;''), (CHR ''&'', ''&amp;''), (CHR 0x22, ''&quot;'')]"

definition html_text :: "string \<Rightarrow> string" where
  "html_text s = concat (map (\<lambda>c. case map_of html_entities c of None \<Rightarrow> [c] | Some entity \<Rightarrow> entity) s)"

definition value_text :: "bool \<Rightarrow> JsonElement \<Rightarrow> string" where
  "value_text escape e = (if escape \<and> primitive_type e = JSON_PRIMITIVE_TYPE_STRING then html_text (pvalue e) else pvalue e)"

definition shows_section :: "JsonElement list \<Rightarrow> bool \<Rightarrow> string \<Rightarrow> bool" where
  "shows_section cs inverted name = ((case member cs name of None \<Rightarrow> False | Some e \<Rightarrow> pvalue e = JSON_TRUE) \<noteq> inverted)"

fun piece_meaning :: "JsonElement list \<Rightarrow> piece \<Rightarrow> string"
  and meaning :: "JsonElement list \<Rightarrow> template \<Rightarrow> string" where
  "piece_meaning cs (Variable name) = (case member cs name of None \<Rightarrow> [] | Some e \<Rightarrow> value_text True e)"
| "piece_meaning cs (Unescaped name) = (case member cs name of None \<Rightarrow> [] | Some e \<Rightarrow> value_text False e)"
| "piece_meaning cs (Section inverted name ts t) = (if shows_section cs inverted name then meaning cs ts @ t else [])"
| "meaning cs [] = []"
| "meaning cs ((x, p) # ts) = x @ piece_meaning cs p @ meaning cs ts"

text \<open>
  Which templates. Names have no dots, blanks and braces, do not begin with the mark of another tag, and are not one of the
  two special names. Texts have no opening delimiter, and do not end with a brace. A section is over a boolean or over a name
  that the document does not have; its tags have visible text beside them, so that they do not stand alone on a line.
\<close>

definition visible :: "char \<Rightarrow> bool" where
  "visible c \<longleftrightarrow> \<not> IsSpace c \<and> c \<noteq> CHR 0x0A \<and> c \<noteq> CHR 0x0D"

definition name_ok :: "string \<Rightarrow> bool" where
  "name_ok name \<longleftrightarrow> name \<noteq> [] \<and> name \<noteq> ''@'' \<and> name \<noteq> ''-top-'' \<and> hd name \<notin> set ''#^/!=&%$''
     \<and> (\<forall>c \<in> set name. c \<notin> set ''{}.'' \<and> c \<noteq> CHR 0x00 \<and> \<not> IsSpace c)"

definition starts_visible :: "string \<Rightarrow> bool" where
  "starts_visible t \<longleftrightarrow> t \<noteq> [] \<and> visible (hd t)"

fun text_ok :: "string \<Rightarrow> bool" where
  "text_ok [] = True"
| "text_ok [c] = (c \<noteq> CHR ''{'')"
| "text_ok (c # d # s) = (\<not> (c = CHR ''{'' \<and> d = CHR ''{'') \<and> text_ok (d # s))"

fun piece_ok :: "JsonElement list \<Rightarrow> piece \<Rightarrow> bool"
  and template_ok :: "JsonElement list \<Rightarrow> template \<Rightarrow> bool" where
  "piece_ok cs (Variable name) \<longleftrightarrow> name_ok name"
| "piece_ok cs (Unescaped name) \<longleftrightarrow> name_ok name"
| "piece_ok cs (Section inverted name ts t) \<longleftrightarrow> name_ok name \<and> text_ok t \<and> t \<noteq> [] \<and> visible (last t)
     \<and> starts_visible (template_text ts @ t) \<and> template_ok cs ts
     \<and> (case member cs name of None \<Rightarrow> True | Some e \<Rightarrow> primitive_type e = JSON_PRIMITIVE_TYPE_BOOL)"
| "template_ok cs [] \<longleftrightarrow> True"
| "template_ok cs ((x, p) # ts) \<longleftrightarrow> text_ok x \<and> piece_ok cs p \<and> template_ok cs ts"

text \<open>Rounds of the loop of Render, those for nested sections included.\<close>

fun piece_rounds :: "piece \<Rightarrow> nat"
  and rounds :: "template \<Rightarrow> nat" where
  "piece_rounds (Variable name) = 1"
| "piece_rounds (Unescaped name) = 1"
| "piece_rounds (Section inverted name ts t) = rounds ts + 2"
| "rounds [] = 0"
| "rounds ((x, p) # ts) = piece_rounds p + rounds ts"

text \<open>A document of strings and booleans.\<close>

definition plain_child :: "JsonElement \<Rightarrow> bool" where
  "plain_child c \<longleftrightarrow> (\<exists>k v. c = Primitive (Ptr k) JSON_PRIMITIVE_TYPE_STRING v
     \<or> c = Primitive (Ptr k) JSON_PRIMITIVE_TYPE_BOOL v \<and> (v = JSON_TRUE \<or> v = JSON_FALSE))"

section \<open>Tags\<close>

lemma strstr_braces: "text_ok x \<Longrightarrow> strstr (x @ ''{{'' @ r) ''{{'' = Some (length x)"
  by (induction x rule: text_ok.induct) auto

lemma strstr_close: "CHR ''}'' \<notin> set n \<Longrightarrow> strstr (n @ ''}}'' @ r) ''}}'' = Some (length n)"
  by (induction n) auto

lemma strstr_no_brace: "text_ok x \<Longrightarrow> strstr x ''{{'' = None"
  by (induction x rule: text_ok.induct) auto

lemma html_text_chars: "html_text s = concat (map html_char s)"
  by (induction s) (auto simp: html_text_def html_entities_def html_char_def)

lemma trim_name: "name_ok n \<Longrightarrow> trim_front (n @ r) (length n) = Ok n \<and> trim_back n = n"
proof
  assume n: "name_ok n"
  then show "trim_front (n @ r) (length n) = Ok n" by (cases n) (auto simp: name_ok_def)
  have "\<not> IsSpace (hd (rev n))" using n by (simp add: name_ok_def hd_rev)
  then show "trim_back n = n" using n by (cases "rev n") (auto simp: trim_back_def name_ok_def)
qed

definition marked :: "string \<Rightarrow> TagType \<Rightarrow> bool" where
  "marked mark type \<longleftrightarrow> (mark, type) \<in> {([], TAG_TYPE_VAR), (''&'', TAG_TYPE_VAR_UNESCAPED), (''#'', TAG_TYPE_SECTION),
     (''^'', TAG_TYPE_INVERTED), (''/'', TAG_TYPE_SECTION_END)}"

lemma tag_mark_name: "name_ok n \<Longrightarrow> marked mark type \<Longrightarrow> tag_mark (mark @ n @ r) = (type, length mark, [])"
proof -
  assume n: "name_ok n" and m: "marked mark type"
  obtain c n' where c: "n = c # n'" using n by (cases n) (auto simp: name_ok_def)
  have first: "c \<noteq> CHR ''#''" "c \<noteq> CHR ''^''" "c \<noteq> CHR ''/''" "c \<noteq> CHR ''!''" "c \<noteq> CHR ''=''" "c \<noteq> CHR ''{''" "c \<noteq> CHR ''&''" "c \<noteq> CHR ''%''" "c \<noteq> CHR ''$''"
    using n by (simp_all add: name_ok_def c)
  show ?thesis using m unfolding marked_def insert_iff prod.inject empty_iff
    by (elim disjE conjE) (simp_all add: tag_mark_def c first)
qed

lemma NextTag_piece:
  assumes "text_ok x" "name_ok n" "marked mark type"
  shows "NextTag (pre @ x @ tag_text mark n @ r) (length pre) ''{{'' ''}}''
    = Ok \<lparr>tag_type = type, tag_begin = Ptr (length pre + length x), tag_end = Ptr (length (pre @ x @ tag_text mark n)), tag_content = n\<rparr>"
proof -
  let ?s = "pre @ x @ tag_text mark n @ r"
  have "CHR ''}'' \<notin> set n" using assms(2) by (auto simp: name_ok_def)
  have a: "drop (length pre + length x + 2) ?s = mark @ n @ ''}}'' @ r" by (simp add: tag_text_def)
  have b: "drop (length pre + length x + 2 + length mark) ?s = n @ ''}}'' @ r" by (simp add: tag_text_def)
  have c: "drop (length pre + length x + 2 + length mark + length n) ?s = ''}}'' @ r" by (simp add: tag_text_def)
  have "strstr (drop (length pre) ?s) ''{{'' = Some (length x)"
    using strstr_braces [of x "mark @ n @ ''}}'' @ r"] assms(1) by (simp add: tag_text_def)
  then show ?thesis
    using a b c strstr_close [OF \<open>CHR ''}'' \<notin> set n\<close>, of r] tag_mark_name [OF assms(2,3), of "''}}'' @ r"] trim_name [OF assms(2), of "''}}'' @ r"]
    by (simp add: NextTag_def Let_def) (simp add: tag_text_def)
qed

section \<open>Text before a tag\<close>

abbreviation shown :: "bool \<Rightarrow> string \<Rightarrow> string" where
  "shown skip t \<equiv> (if skip then [] else t)"

lemma emit_variable:
  "IsTagTypeRenderable type \<Longrightarrow> emit_text (pre @ x @ r) (length pre)
     \<lparr>tag_type = type, tag_begin = Ptr (length pre + length x), tag_end = Ptr e, tag_content = n\<rparr> skip out = (out @ shown skip x, Ptr e)"
  by (simp add: emit_text_def RenderContent_def text_between_def)

lemma emit_section:
  assumes "IsTagStandalone (pre @ x @ r) (length pre + length x) e = None"
  shows "emit_text (pre @ x @ r) (length pre)
     \<lparr>tag_type = type, tag_begin = Ptr (length pre + length x), tag_end = Ptr e, tag_content = n\<rparr> skip out = (out @ shown skip x, Ptr e)"
  using assms by (simp add: emit_text_def RenderContent_def text_between_def)

lemma open_not_standalone: "starts_visible r \<Longrightarrow> IsTagStandalone (pre @ r) b (length pre) = None"
  by (cases r) (auto simp: starts_visible_def IsTagStandalone_def visible_def split: option.split)

lemma close_not_standalone: "x \<noteq> [] \<Longrightarrow> visible (last x) \<Longrightarrow> IsTagStandalone (pre @ x @ r) (length pre + length x) e = None"
proof (cases x rule: rev_cases)
  case (snoc y c)
  assume "visible (last x)"
  then have "line_begin (pre @ x @ r) (length pre + length x) = None" by (simp add: snoc visible_def nth_append)
  then show ?thesis by (simp add: IsTagStandalone_def)
qed simp

section \<open>Lookup\<close>

definition stack_ok :: "JsonElement list \<Rightarrow> path ptr list \<Rightarrow> bool" where
  "stack_ok cs stack \<longleftrightarrow> stack \<noteq> [] \<and> hd stack = Ptr []
     \<and> (\<forall>p \<in> set (tl stack). p = NULL \<or> (\<exists>k e. p = Ptr [Member k] \<and> member cs k = Some e))"

lemma lookup_key_plain: "list_all plain_child cs \<Longrightarrow> lookup_key k cs = Ok (member cs k)"
  by (induction cs) (auto simp: plain_child_def member_def StringEqual_iff)

lemma member_plain: "list_all plain_child cs \<Longrightarrow> member cs k = Some e \<Longrightarrow> plain_child e \<and> propertyName e = Ptr k"
  by (auto simp: member_def find_Some_iff list_all_length)

lemma lookup_base_plain:
  assumes "list_all plain_child cs"
  shows "stack_ok cs stack \<Longrightarrow> lookup_base (Container nm JSON_CONTAINER_TYPE_OBJECT cs) (rev stack) k
    = Ok (map_option (\<lambda>_. [Member k]) (member cs k))"
proof (induction stack rule: rev_induct)
  case (snoc p stack)
  let ?root = "Container nm JSON_CONTAINER_TYPE_OBJECT cs"
  show ?case
  proof (cases "stack = []")
    case True
    then have "p = Ptr []" using snoc.prems by (simp add: stack_ok_def)
    then show ?thesis using True lookup_key_plain [OF assms]
      by (simp add: deref_def JsonGetType_def JsonObjectGet_def split: option.split)
  next
    case False
    then have IH: "lookup_base ?root (rev stack) k = Ok (map_option (\<lambda>_. [Member k]) (member cs k))"
      and p: "p = NULL \<or> (\<exists>m e. p = Ptr [Member m] \<and> member cs m = Some e)"
      using snoc by (cases stack; auto simp: stack_ok_def)+
    have "deref ?root [Member m] = Ok e \<and> (\<exists>t. JsonGetType e = PrimitiveType t)" if "member cs m = Some e" for m e
      using member_plain [OF assms that] that by (auto simp: deref_def member_def plain_child_def JsonGetType_def)
    then show ?thesis using IH p by fastforce
  qed
qed (simp add: stack_ok_def)

lemma tokens_name: "name_ok n \<Longrightarrow> tokens (strchr_in ''.'') n = [n]"
proof -
  assume n: "name_ok n"
  then have ne: "n \<noteq> []" by (simp add: name_ok_def)
  have all: "\<forall>c \<in> set n. \<not> strchr_in ''.'' c" using n by (simp add: name_ok_def strchr_in_def)
  have d1: "dropWhile (strchr_in ''.'') n = n" using all ne by (cases n) auto
  have t: "takeWhile (\<lambda>c. \<not> strchr_in ''.'' c) n = n" using all by (simp add: takeWhile_eq_all_conv)
  have d2: "dropWhile (\<lambda>c. \<not> strchr_in ''.'' c) n = []" using all by simp
  show ?thesis by (subst tokens.simps) (simp only: Let_def d1 ne if_False t d2 tokens_empty)
qed

lemma LookupVariable_plain:
  assumes "list_all plain_child cs" "stack_ok cs stack" "name_ok n"
  shows "LookupVariable (Container nm JSON_CONTAINER_TYPE_OBJECT cs) stack n = Ok (map_option (\<lambda>_. [Member n]) (member cs n))"
proof -
  have "n \<noteq> ''-top-''" using assms(3) by (simp add: name_ok_def)
  then show ?thesis using assms(2) lookup_base_plain [OF assms(1,2), of nm n]
    unfolding LookupVariable_def StringCountTokens_length component_at_tokens tokens_name [OF assms(3)]
    by (simp add: stack_ok_def split: option.split)
qed

section \<open>Rendering\<close>

definition plain_state :: "JsonElement list \<Rightarrow> render_state \<Rightarrow> bool" where
  "plain_state cs st \<longleftrightarrow> r_delims st = (''{{'', ''}}'') \<and> (\<exists>nm. r_root st = Container nm JSON_CONTAINER_TYPE_OBJECT cs)
     \<and> list_all plain_child cs \<and> stack_ok cs (r_stack st)"

lemma plain_state_out [simp]: "plain_state cs (st\<lparr>r_out := out\<rparr>) \<longleftrightarrow> plain_state cs st"
  by (simp add: plain_state_def)

lemma deref_member: "member cs n = Some e \<Longrightarrow> deref (Container nm t cs) [Member n] = Ok e"
  by (simp add: deref_def member_def)

lemma value_rendered:
  assumes "plain_child e"
  shows "RenderVariablePrimitive float_text out e escape NULL = Ok (True, out @ value_text escape e)" "JsonGetElementType e = JSON_ELEMENT_TYPE_PRIMITIVE"
proof -
  obtain k v where e: "e = Primitive (Ptr k) JSON_PRIMITIVE_TYPE_STRING v
     \<or> e = Primitive (Ptr k) JSON_PRIMITIVE_TYPE_BOOL v \<and> (v = JSON_TRUE \<or> v = JSON_FALSE)" using assms by (auto simp: plain_child_def)
  have ne: "JSON_FALSE \<noteq> JSON_TRUE" "JSON_TRUE = ''true''" "JSON_FALSE = ''false''" by (simp_all add: JSON_TRUE_def JSON_FALSE_def)
  from e show "RenderVariablePrimitive float_text out e escape NULL = Ok (True, out @ value_text escape e)" using ne
    by (elim disjE conjE) (simp_all add: RenderVariablePrimitive_def JsonGetPrimitiveType_def JsonPrimitiveGetAsString_def RenderHTMLContent_def value_text_def html_text_chars
      JsonPrimitiveGetAsBool_def StringEqual_iff)
  from e show "JsonGetElementType e = JSON_ELEMENT_TYPE_PRIMITIVE" by (auto simp: JsonGetElementType_def)
qed

lemma variable_rendered:
  assumes "plain_state cs st" "name_ok n" "tag_content tag = n" "escape = (tag_type tag = TAG_TYPE_VAR)"
  shows "render_variable_tag float_text tag key skip st
    = Ok (True, st\<lparr>r_out := r_out st @ shown skip (case member cs n of None \<Rightarrow> [] | Some e \<Rightarrow> value_text escape e)\<rparr>)"
proof (cases skip)
  case False
  have "CHR ''.'' \<notin> set n" "n \<noteq> ''@''" using assms(2) by (auto simp: name_ok_def)
  then have n: "n \<noteq> []" "n \<noteq> ''.''" "n \<noteq> ''@''" using assms(2) by (auto simp: name_ok_def [of "[]"])
  from assms(1) obtain nm where root: "r_root st = Container nm JSON_CONTAINER_TYPE_OBJECT cs" "list_all plain_child cs" "stack_ok cs (r_stack st)"
    by (auto simp: plain_state_def)
  note lookup = LookupVariable_plain [OF root(2,3) assms(2), of nm]
  have "RenderVariable float_text (r_out st) n type (r_stack st) key (r_root st)
      = Ok (True, r_out st @ (case member cs n of None \<Rightarrow> [] | Some e \<Rightarrow> value_text (type = TAG_TYPE_VAR) e), r_root st)" for type
  proof (cases "member cs n")
    case None
    then show ?thesis using lookup n by (simp add: RenderVariable_def root(1))
  next
    case (Some e)
    then show ?thesis using lookup n deref_member [OF Some] value_rendered [OF conjunct1 [OF member_plain [OF root(2) Some]]]
      by (simp add: RenderVariable_def root(1) render_element_def)
  qed
  then show ?thesis using False n(1) assms(3,4) by (cases "member cs n") (simp_all add: render_variable_tag_def)
qed (simp add: render_variable_tag_def)

lemma section_mode_plain:
  assumes "plain_state cs st" "case member cs n of None \<Rightarrow> True | Some e \<Rightarrow> primitive_type e = JSON_PRIMITIVE_TYPE_BOOL"
  shows "section_mode start a inverted skip (map_option (\<lambda>_. [Member n]) (member cs n)) st = Ok (Once (skip \<or> \<not> shows_section cs inverted n))"
proof (cases "member cs n")
  case None
  then show ?thesis by (simp add: section_mode_def shows_section_def)
next
  case (Some e)
  from assms(1) obtain nm where root: "r_root st = Container nm JSON_CONTAINER_TYPE_OBJECT cs" "list_all plain_child cs" by (auto simp: plain_state_def)
  have "plain_child e" using member_plain [OF root(2) Some] by simp
  then obtain k v where e: "e = Primitive (Ptr k) JSON_PRIMITIVE_TYPE_BOOL v" using assms(2) Some by (auto simp: plain_child_def)
  then show ?thesis using Some deref_member [OF Some]
    by (auto simp: section_mode_def root(1) shows_section_def JsonPrimitiveGetAsBool_def StringEqual_iff)
qed

lemma Render_round:
  assumes "plain_state cs st" "text_ok x" "name_ok n" "marked mark type" "start = pre @ x @ tag_text mark n @ r"
    "IsTagTypeRenderable type \<or> IsTagStandalone start (length pre + length x) (length (pre @ x @ tag_text mark n)) = None"
  shows "Render (Suc fuel) float_text start (Ptr (length pre)) key skip sec st
    = render_tag (Render fuel float_text start) float_text start
        \<lparr>tag_type = type, tag_begin = Ptr (length pre + length x), tag_end = Ptr (length (pre @ x @ tag_text mark n)), tag_content = n\<rparr>
        (Ptr (length (pre @ x @ tag_text mark n))) key skip sec (st\<lparr>r_out := r_out st @ shown skip x\<rparr>)"
proof -
  have d: "r_delims st = (''{{'', ''}}'')" using assms(1) by (simp add: plain_state_def)
  let ?tag = "\<lparr>tag_type = type, tag_begin = Ptr (length pre + length x), tag_end = Ptr (length (pre @ x @ tag_text mark n)), tag_content = n\<rparr>"
  have "emit_text start (length pre) ?tag skip (r_out st) = (r_out st @ shown skip x, Ptr (length (pre @ x @ tag_text mark n)))"
    using assms(5,6) emit_variable emit_section by metis
  then show ?thesis using NextTag_piece [OF assms(2-4), of pre r] d by (simp add: assms(5))
qed

lemma rounds_length: "1 \<le> piece_rounds p" "length ts \<le> rounds ts"
  by (induction p and ts rule: piece_rounds_rounds.induct) auto

lemma rounds_text: "piece_rounds p + 2 \<le> length (piece_text p)" "rounds ts \<le> length (template_text ts)"
  by (induction p and ts rule: piece_rounds_rounds.induct) (auto simp: tag_text_def)

lemma stack_ok_push: "stack_ok cs stack \<Longrightarrow> stack_ok cs (stack @ [map_option (\<lambda>_. [Member n]) (member cs n)])"
  by (cases "member cs n") (auto simp: stack_ok_def)

lemma section_rendered:
  assumes "plain_state cs st" "name_ok n" "case member cs n of None \<Rightarrow> True | Some e \<Rightarrow> primitive_type e = JSON_PRIMITIVE_TYPE_BOOL"
    "tag_content tag = n" "tag_type tag = (if inverted then TAG_TYPE_INVERTED else TAG_TYPE_SECTION)"
    "render after NULL (skip \<or> \<not> shows_section cs inverted n) (Ptr n) (st\<lparr>r_stack := r_stack st @ [map_option (\<lambda>_. [Member n]) (member cs n)]\<rparr>)
      = Ok (True, section_end, st')"
  shows "render_tag render float_text start tag after key skip sec st = render section_end key skip sec st'"
proof -
  let ?st = "st\<lparr>r_stack := r_stack st @ [map_option (\<lambda>_. [Member n]) (member cs n)]\<rparr>"
  from assms(1) obtain nm where root: "r_root st = Container nm JSON_CONTAINER_TYPE_OBJECT cs" "list_all plain_child cs" "stack_ok cs (r_stack st)"
    by (auto simp: plain_state_def)
  have "plain_state cs ?st" using assms(1) stack_ok_push by (auto simp: plain_state_def)
  from section_mode_plain [OF this assms(3), of start "the after" inverted skip] show ?thesis
    using LookupVariable_plain [OF root(2,3) assms(2), of nm] assms(4-6)
    by (cases inverted) (simp_all add: render_tag_def render_section_def render_body_def root(1))
qed

lemma Render_pieces:
  "piece_ok cs p \<Longrightarrow> plain_state cs st \<Longrightarrow> text_ok x \<Longrightarrow> piece_rounds p \<le> fuel \<Longrightarrow> start = pre @ x @ piece_text p @ r \<Longrightarrow>
   Render (Suc fuel) float_text start (Ptr (length pre)) key skip sec st
     = Render fuel float_text start (Ptr (length (pre @ x @ piece_text p))) key skip sec (st\<lparr>r_out := r_out st @ shown skip (x @ piece_meaning cs p)\<rparr>)"
  "template_ok cs ts \<Longrightarrow> plain_state cs st \<Longrightarrow> rounds ts < fuel \<Longrightarrow> start = pre @ template_text ts @ r \<Longrightarrow>
   Render fuel float_text start (Ptr (length pre)) key skip sec st
     = Render (fuel - length ts) float_text start (Ptr (length (pre @ template_text ts))) key skip sec (st\<lparr>r_out := r_out st @ shown skip (meaning cs ts)\<rparr>)"
proof (induction p and ts arbitrary: st x fuel pre r key skip sec and st fuel pre r key skip sec rule: piece_text_template_text.induct)
  case (1 n)
  then show ?case
    using Render_round [of cs st x n "[]" TAG_TYPE_VAR start pre r fuel float_text key skip sec]
      variable_rendered [of cs "st\<lparr>r_out := r_out st @ shown skip x\<rparr>" n _ True]
    by (simp add: marked_def render_tag_def IsTagTypeRenderable_def del: Render.simps)
next
  case (2 n)
  then show ?case
    using Render_round [of cs st x n "''&''" TAG_TYPE_VAR_UNESCAPED start pre r fuel float_text key skip sec]
      variable_rendered [of cs "st\<lparr>r_out := r_out st @ shown skip x\<rparr>" n _ False]
    by (simp add: marked_def render_tag_def IsTagTypeRenderable_def del: Render.simps)
next
  case (3 inverted n ts t)
  let ?m = "section_mark inverted" and ?type = "if inverted then TAG_TYPE_INVERTED else TAG_TYPE_SECTION"
  let ?open = "pre @ x @ tag_text ?m n" and ?close = "tag_text ''/'' n" and ?var = "map_option (\<lambda>_. [Member n]) (member cs n)"
  let ?skip = "skip \<or> \<not> shows_section cs inverted n"
  have ok: "name_ok n" "text_ok t" "t \<noteq> []" "visible (last t)" "starts_visible (template_text ts @ t)" "template_ok cs ts"
    "case member cs n of None \<Rightarrow> True | Some e \<Rightarrow> primitive_type e = JSON_PRIMITIVE_TYPE_BOOL" using "3.prems"(1) by simp_all
  have start: "start = ?open @ template_text ts @ t @ ?close @ r" using "3.prems"(5) by simp
  define st1 where "st1 = st\<lparr>r_out := r_out st @ shown skip x, r_stack := r_stack st @ [?var]\<rparr>"
  define st2 where "st2 = st1\<lparr>r_out := r_out st1 @ shown ?skip (meaning cs ts)\<rparr>"
  have st1: "plain_state cs st1" using "3.prems"(2) stack_ok_push by (auto simp: plain_state_def st1_def)
  then have st2: "plain_state cs st2" by (simp add: st2_def)
  have "starts_visible (template_text ts @ t @ ?close @ r)" using ok(3,5) by (auto simp: starts_visible_def hd_append)
  then have "IsTagStandalone start (length pre + length x) (length ?open) = None" unfolding start using open_not_standalone by blast
  then have round1: "Render (Suc fuel) float_text start (Ptr (length pre)) key skip sec st
      = render_tag (Render fuel float_text start) float_text start
          \<lparr>tag_type = ?type, tag_begin = Ptr (length pre + length x), tag_end = Ptr (length ?open), tag_content = n\<rparr>
          (Ptr (length ?open)) key skip sec (st\<lparr>r_out := r_out st @ shown skip x\<rparr>)"
    using "3.prems"(2,3) ok(1) start by (intro Render_round) (auto simp: marked_def)
  obtain k where k: "fuel - length ts = Suc k" using "3.prems"(4) rounds_length(2) [of ts] by (cases "fuel - length ts") auto
  have "Render fuel float_text start (Ptr (length ?open)) NULL ?skip (Ptr n) st1
      = Render (Suc k) float_text start (Ptr (length (?open @ template_text ts))) NULL ?skip (Ptr n) st2"
    using "3.IH" [OF ok(6) st1, of fuel ?open "t @ ?close @ r" NULL ?skip "Ptr n"] "3.prems"(4) start k by (simp add: st2_def)
  also have "\<dots> = Ok (True, Ptr (length (?open @ template_text ts @ t @ ?close)), st2\<lparr>r_out := r_out st2 @ shown ?skip t, r_stack := r_stack st\<rparr>)"
  proof -
    have "IsTagStandalone start (length (?open @ template_text ts) + length t) e = None" for e
      using close_not_standalone [OF ok(3,4), of "?open @ template_text ts" "?close @ r" e] by (simp add: start)
    then show ?thesis
      using Render_round [OF st2 ok(2,1), of "''/''" TAG_TYPE_SECTION_END start "?open @ template_text ts" r k float_text NULL ?skip "Ptr n"] start
      by (simp add: marked_def render_tag_def st1_def st2_def del: Render.simps)
  qed
  finally have body: "Render fuel float_text start (Ptr (length ?open)) NULL ?skip (Ptr n) st1
      = Ok (True, Ptr (length (?open @ template_text ts @ t @ ?close)), st2\<lparr>r_out := r_out st2 @ shown ?skip t, r_stack := r_stack st\<rparr>)" .
  have "st2\<lparr>r_out := r_out st2 @ shown ?skip t, r_stack := r_stack st\<rparr>
      = st\<lparr>r_out := r_out st @ shown skip (x @ piece_meaning cs (Section inverted n ts t))\<rparr>"
    by (simp add: st1_def st2_def)
  then show ?case unfolding round1 using body "3.prems"(2) ok(1,7)
    by (subst section_rendered [where cs = cs and n = n and inverted = inverted]) (simp_all add: st1_def)
next
  case 4
  then show ?case by simp
next
  case (5 x p ts)
  let ?st = "st\<lparr>r_out := r_out st @ shown skip (x @ piece_meaning cs p)\<rparr>"
  obtain k where k: "fuel = Suc k" "piece_rounds p + rounds ts \<le> k" using "5.prems"(3) rounds_length(1) [of p] by (cases fuel) auto
  have "Render fuel float_text start (Ptr (length pre)) key skip sec st
      = Render k float_text start (Ptr (length (pre @ x @ piece_text p))) key skip sec ?st"
    unfolding k using 5 k by (intro "5.IH"(1)) auto
  also have "\<dots> = Render (k - length ts) float_text start (Ptr (length ((pre @ x @ piece_text p) @ template_text ts))) key skip sec
      (?st\<lparr>r_out := r_out ?st @ shown skip (meaning cs ts)\<rparr>)"
    using 5 k rounds_length(1) [of p] by (intro "5.IH"(2)) auto
  finally show ?case using k by simp
qed

lemma Render_last:
  assumes "plain_state cs st" "text_ok t" "0 < fuel" "start = pre @ t"
  shows "Render fuel float_text start (Ptr (length pre)) key skip sec st = Ok (True, NULL, st\<lparr>r_out := r_out st @ shown skip t\<rparr>)"
proof -
  obtain k where "fuel = Suc k" using assms(3) by (cases fuel) auto
  then show ?thesis using assms(1,2,4) strstr_no_brace [of t]
    by (simp add: plain_state_def NextTag_def emit_text_def render_tag_def RenderContent_def)
qed

text \<open>
  C21: The meaning of templates. For a document of strings and booleans and a template of texts,
  variables, unescaped variables and nested sections and inverted sections over booleans or absent names, written
  with the default delimiters, with plain names and with no section tag alone on a line (as template\_ok says),
  MustacheRender succeeds and appends exactly the meaning of the template: texts as they are, values with or
  without their reserved HTML characters written as entities, nothing for unknown names, and the text of a section
  when its boolean, or its absence, calls for it.
\<close>

theorem MustacheRender_meaning:
  assumes "list_all plain_child cs" "template_ok cs ts" "text_ok t"
  shows "MustacheRender float_text out (template_text ts @ t) (Container nm JSON_CONTAINER_TYPE_OBJECT cs)
    = Ok (True, out @ meaning cs ts @ t, Container nm JSON_CONTAINER_TYPE_OBJECT cs)"
proof -
  let ?s = "template_text ts @ t" and ?root = "Container nm JSON_CONTAINER_TYPE_OBJECT cs"
  let ?st = "\<lparr>r_out = out, r_stack = [Ptr []], r_delims = (''{{'', ''}}''), r_root = ?root\<rparr>"
  let ?fuel = "Suc (Suc (length ?s))"
  have st: "plain_state cs ?st" using assms(1) by (simp add: plain_state_def stack_ok_def)
  have st': "plain_state cs (?st\<lparr>r_out := r_out ?st @ meaning cs ts\<rparr>)"
    using assms(1) by (simp add: plain_state_def stack_ok_def)
  have fuel: "rounds ts < ?fuel" "0 < ?fuel - length ts" using rounds_text(2) [of ts] rounds_length(2) [of ts] by simp_all
  have "Render ?fuel float_text ?s (Ptr 0) NULL False NULL ?st
      = Render (?fuel - length ts) float_text ?s (Ptr (length (template_text ts))) NULL False NULL (?st\<lparr>r_out := r_out ?st @ meaning cs ts\<rparr>)"
    using Render_pieces(2) [OF assms(2) st fuel(1), of ?s "[]" t float_text NULL False NULL] by (simp del: Render.simps)
  also have "\<dots> = Ok (True, NULL, ?st\<lparr>r_out := (out @ meaning cs ts) @ t\<rparr>)"
    using Render_last [OF st' assms(3) fuel(2), of ?s "template_text ts" float_text NULL False NULL]
    by (simp del: Render.simps)
  finally show ?thesis by (simp add: MustacheRender_def del: Render.simps)
qed

theorem MustacheRender_meaning_witness:
  "MustacheRender id ''>'' ''Hi {{name}}{{#vip}}, {{&title}}!{{/vip}}.'' (Container NULL JSON_CONTAINER_TYPE_OBJECT
      [Primitive (Ptr ''name'') JSON_PRIMITIVE_TYPE_STRING ''A&B'', Primitive (Ptr ''vip'') JSON_PRIMITIVE_TYPE_BOOL ''true''])
    = Ok (True, ''>Hi A&amp;B, !.'', Container NULL JSON_CONTAINER_TYPE_OBJECT
      [Primitive (Ptr ''name'') JSON_PRIMITIVE_TYPE_STRING ''A&B'', Primitive (Ptr ''vip'') JSON_PRIMITIVE_TYPE_BOOL ''true''])"
proof -
  let ?cs = "[Primitive (Ptr ''name'') JSON_PRIMITIVE_TYPE_STRING ''A&B'', Primitive (Ptr ''vip'') JSON_PRIMITIVE_TYPE_BOOL ''true'']"
  let ?ts = "[(''Hi '', Variable ''name''), ([], Section False ''vip'' [('', '', Unescaped ''title'')] ''!'')]"
  have "list_all plain_child ?cs" by (simp add: plain_child_def JSON_TRUE_def)
  moreover have "template_ok ?cs ?ts" "text_ok ''.''"
    by (simp_all add: name_ok_def starts_visible_def visible_def member_def IsSpace_def)
  moreover have "template_text ?ts @ ''.'' = ''Hi {{name}}{{#vip}}, {{&title}}!{{/vip}}.''" by (simp add: tag_text_def)
  moreover have "''>'' @ meaning ?cs ?ts @ ''.'' = ''>Hi A&amp;B, !.''"
    by (simp add: member_def value_text_def html_text_def html_entities_def shows_section_def JSON_TRUE_def)
  ultimately show ?thesis using MustacheRender_meaning [of ?cs ?ts "''.''" id "''>''" NULL] by simp
qed



text \<open>
  Each of the four faults is met. The last one has a number that JsonParse takes for an integer (JsonParse\_exponent\_integer)
  and that is not the text of a \<open>long\<close>.
\<close>

lemma MustacheRender_container_aborts:
  "MustacheRender id [] ''{{e}}'' (Container NULL JSON_CONTAINER_TYPE_OBJECT [Container (Ptr ''e'') JSON_CONTAINER_TYPE_ARRAY []]) = Fault AssertFail"
  by code_simp

lemma MustacheRender_delimiter_overflow:
  "MustacheRender id [] ''{{=1234567890 ]=}}'' (Container NULL JSON_CONTAINER_TYPE_OBJECT []) = Fault OutOfBounds"
  by code_simp

lemma MustacheRender_nameless_section:
  "MustacheRender id [] ''{{#.}}x{{/.}}'' (Container NULL JSON_CONTAINER_TYPE_OBJECT []) = Fault NullDeref"
  by code_simp

lemma MustacheRender_integer_exits:
  "MustacheRender id [] ''{{n}}'' (Container NULL JSON_CONTAINER_TYPE_OBJECT
     [Primitive (Ptr ''n'') JSON_PRIMITIVE_TYPE_INTEGER ''1e5'']) = Fault ProcessExit"
  by code_simp

text \<open>The name of a section end is not looked at.\<close>

lemma MustacheRender_mismatched_section:
  "MustacheRender id [] ''{{^a}}x{{/b}}'' (Container NULL JSON_CONTAINER_TYPE_OBJECT [])
    = Ok (True, ''x'', Container NULL JSON_CONTAINER_TYPE_OBJECT [])"
  by code_simp

text \<open>
  Scopes leak and skipped text shows. A section over an iterated object leaves its value on
  the stack of hashes, so that members of the object are found behind the section; an inverted section over
  an empty array is rendered although it stands inside a section that is skipped.
\<close>

lemma MustacheRender_scopes:
  "MustacheRender id [] ''{{#o}}{{@}},{{/o}}{{m}}'' (Container NULL JSON_CONTAINER_TYPE_OBJECT
      [Container (Ptr ''o'') JSON_CONTAINER_TYPE_OBJECT [Primitive (Ptr ''m'') JSON_PRIMITIVE_TYPE_STRING ''v'']])
    = Ok (True, ''m,v'', Container NULL JSON_CONTAINER_TYPE_OBJECT
      [Container (Ptr ''o'') JSON_CONTAINER_TYPE_OBJECT [Primitive (Ptr ''m'') JSON_PRIMITIVE_TYPE_STRING ''v'']])
  \<and> MustacheRender id [] ''{{#no}}{{^e}}x{{/e}}{{/no}}'' (Container NULL JSON_CONTAINER_TYPE_OBJECT [Container (Ptr ''e'') JSON_CONTAINER_TYPE_ARRAY []])
    = Ok (True, ''x'', Container NULL JSON_CONTAINER_TYPE_OBJECT [Container (Ptr ''e'') JSON_CONTAINER_TYPE_ARRAY []])"
  by (intro conjI) code_simp+

end
