(* ===== verification/MapCommon.thy ===== *)
theory MapCommon
  imports Prelude "HOL-Library.Multiset"
begin

text \<open>
  What the maps of libutils share (map_common.h): key/value pairs, destructor callbacks, the
  contract between the equality and hash callbacks, the map as a list of entries with at most one
  entry per key, and the interface \<open>kv_store\<close> that hash_map.c and map.c implement.
\<close>

section \<open>Callbacks\<close>

type_synonym ('k, 'v) MapKeyValue = "'k \<times> 'v"

text \<open>
  A \<open>MapDestroyDataFn\<close> may be NULL; map.c puts its own \<open>NopDestroyFn\<close> for NULL. Calling one returns
  what it released.
\<close>

datatype destroyer = NopDestroyFn | DestroyFn

fun released :: "destroyer \<Rightarrow> 'a list \<Rightarrow> 'a list" where
  "released NopDestroyFn xs = []"
| "released DestroyFn xs = xs"

fun call_destroy :: "destroyer ptr \<Rightarrow> 'a \<Rightarrow> 'a list res" where
  "call_destroy NULL x = Fault NullDeref"
| "call_destroy (Ptr d) x = Ok (released d [x])"

text \<open>The guard \<open>if (destroy_fn != NULL)\<close> of hash_map.c.\<close>

fun call_destroy_if :: "destroyer ptr \<Rightarrow> 'a \<Rightarrow> 'a list" where
  "call_destroy_if NULL x = []"
| "call_destroy_if (Ptr d) x = released d [x]"

fun released_if :: "destroyer ptr \<Rightarrow> 'a list \<Rightarrow> 'a list" where
  "released_if NULL xs = []"
| "released_if (Ptr d) xs = released d xs"

lemma released_append [simp]: "released d (xs @ ys) = released d xs @ released d ys"
  by (cases d) auto

lemma released_Nil [simp]: "released d [] = []"
  by (cases d) auto

lemma released_if_append [simp]: "released_if d (xs @ ys) = released_if d xs @ released_if d ys"
  by (cases d) auto

lemma released_if_Nil [simp]: "released_if d [] = []"
  by (cases d) auto

lemma released_if_eq: "released_if d xs = (if d = Ptr DestroyFn then xs else [])"
proof (cases d)
  case (Some e)
  then show ?thesis by (cases e) auto
qed simp

lemma call_destroy_if_eq: "call_destroy_if d x = released_if d [x]"
  by (cases d) auto

text \<open>What an operation released: keys and values, each in the order of the calls.\<close>

type_synonym ('k, 'v) gone = "'k list \<times> 'v list"

definition gone_of :: "destroyer ptr \<times> destroyer ptr \<Rightarrow> ('k \<times> 'v) list \<Rightarrow> ('k, 'v) gone" where
  "gone_of ds kvs = (released_if (fst ds) (map fst kvs), released_if (snd ds) (map snd kvs))"

lemma gone_of_Nil [simp]: "gone_of ds [] = ([], [])"
  by (simp add: gone_of_def)

lemma gone_of_Cons: "gone_of ds (x # xs) = (fst (gone_of ds [x]) @ fst (gone_of ds xs),
    snd (gone_of ds [x]) @ snd (gone_of ds xs))"
  by (simp add: gone_of_def released_if_eq)

section \<open>Entry lists\<close>

definition matches :: "('k \<Rightarrow> 'k \<Rightarrow> bool) \<Rightarrow> 'k \<Rightarrow> 'k \<times> 'v \<Rightarrow> bool" where
  "matches eq k kv = eq (fst kv) k"

definition kv_get :: "('k \<Rightarrow> 'k \<Rightarrow> bool) \<Rightarrow> 'k \<Rightarrow> ('k \<times> 'v) list \<Rightarrow> ('k \<times> 'v) option" where
  "kv_get eq k xs = find (matches eq k) xs"

definition kv_del :: "('k \<Rightarrow> 'k \<Rightarrow> bool) \<Rightarrow> 'k \<Rightarrow> ('k \<times> 'v) list \<Rightarrow> ('k \<times> 'v) list" where
  "kv_del eq k xs = filter (\<lambda>kv. \<not> matches eq k kv) xs"

definition kv_put :: "('k \<Rightarrow> 'k \<Rightarrow> bool) \<Rightarrow> 'k \<Rightarrow> 'v \<Rightarrow> ('k \<times> 'v) list \<Rightarrow> ('k \<times> 'v) list" where
  "kv_put eq k v xs = kv_del eq k xs @ [(k, v)]"

definition kv_old :: "('k \<Rightarrow> 'k \<Rightarrow> bool) \<Rightarrow> 'k \<Rightarrow> ('k \<times> 'v) list \<Rightarrow> ('k \<times> 'v) list" where
  "kv_old eq k xs = filter (matches eq k) xs"

text \<open>At most one entry per key, up to the map's equality.\<close>

definition uniq :: "('k \<Rightarrow> 'k \<Rightarrow> bool) \<Rightarrow> ('k \<times> 'v) list \<Rightarrow> bool" where
  "uniq eq xs \<longleftrightarrow> (\<forall>k. length (kv_old eq k xs) \<le> 1)"

lemma uniq_Nil [simp]: "uniq eq []"
  by (simp add: uniq_def kv_old_def)

lemma matches_cong:
  assumes "equivp eq" "eq k k'"
  shows "matches eq k = matches eq k'"
  using assms by (auto simp: matches_def fun_eq_iff) (metis equivp_def)+

lemma kv_get_None_iff: "kv_get eq k xs = None \<longleftrightarrow> kv_old eq k xs = []"
  by (auto simp: kv_get_def kv_old_def find_None_iff filter_empty_conv)

lemma kv_get_hd: "kv_get eq k xs = (case kv_old eq k xs of [] \<Rightarrow> None | kv # _ \<Rightarrow> Some kv)"
  by (induction xs) (auto simp: kv_get_def kv_old_def)

lemma uniq_kv_old:
  assumes "uniq eq xs"
  shows "kv_old eq k xs = (case kv_get eq k xs of None \<Rightarrow> [] | Some kv \<Rightarrow> [kv])"
proof -
  have "length (kv_old eq k xs) \<le> 1" using assms by (simp add: uniq_def)
  then show ?thesis by (auto simp: kv_get_hd split: list.splits)
qed

lemma kv_old_mset: "mset xs = mset ys \<Longrightarrow> mset (kv_old eq k xs) = mset (kv_old eq k ys)"
  by (simp add: kv_old_def)

lemma uniq_mset: "mset xs = mset ys \<Longrightarrow> uniq eq xs \<longleftrightarrow> uniq eq ys"
  unfolding uniq_def by (metis kv_old_mset size_mset)

lemma kv_old_perm:
  assumes "uniq eq xs" "mset xs = mset ys"
  shows "kv_old eq k xs = kv_old eq k ys"
proof -
  have "length (kv_old eq k xs) \<le> 1" "length (kv_old eq k ys) \<le> 1"
    using assms uniq_mset [OF assms(2), of eq] by (auto simp: uniq_def)
  with kv_old_mset [OF assms(2), of eq k] show ?thesis
    by (cases "kv_old eq k xs"; cases "kv_old eq k ys") auto
qed

lemma kv_get_perm: "uniq eq xs \<Longrightarrow> mset xs = mset ys \<Longrightarrow> kv_get eq k xs = kv_get eq k ys"
  by (simp add: kv_get_hd kv_old_perm)

lemma kv_del_mset: "mset xs = mset ys \<Longrightarrow> mset (kv_del eq k xs) = mset (kv_del eq k ys)"
  by (simp add: kv_del_def)

lemma kv_put_mset: "mset xs = mset ys \<Longrightarrow> mset (kv_put eq k v xs) = mset (kv_put eq k v ys)"
  by (simp add: kv_put_def kv_del_def)

lemma mset_old_del: "mset xs = mset (kv_old eq k xs) + mset (kv_del eq k xs)"
  by (simp add: kv_old_def kv_del_def)

lemma kv_old_of_del: "kv_old eq k' (kv_del eq k xs) = filter (\<lambda>kv. \<not> matches eq k kv) (kv_old eq k' xs)"
  unfolding kv_old_def kv_del_def filter_filter by (rule filter_cong) auto

lemma uniq_kv_del: "uniq eq xs \<Longrightarrow> uniq eq (kv_del eq k xs)"
  unfolding uniq_def kv_old_of_del by (meson le_trans length_filter_le)

lemma kv_old_del:
  assumes "equivp eq"
  shows "kv_old eq k' (kv_del eq k xs) = (if eq k k' then [] else kv_old eq k' xs)"
proof -
  have "matches eq k kv = eq k k'" if "kv \<in> set (kv_old eq k' xs)" for kv
    using that assms unfolding kv_old_def matches_def by (auto dest: equivp_symp equivp_transp)
  then have "filter (\<lambda>kv. \<not> matches eq k kv) (kv_old eq k' xs) = filter (\<lambda>kv. \<not> eq k k') (kv_old eq k' xs)"
    by (intro filter_cong) auto
  then show ?thesis by (simp add: kv_old_of_del)
qed

lemma kv_old_put:
  assumes "equivp eq"
  shows "kv_old eq k' (kv_put eq k v xs) = (if eq k k' then [(k, v)] else kv_old eq k' xs)"
proof -
  have "kv_old eq k' (kv_put eq k v xs) = kv_old eq k' (kv_del eq k xs) @ (if eq k k' then [(k, v)] else [])"
    by (simp add: kv_put_def kv_old_def matches_def)
  then show ?thesis by (simp add: kv_old_del [OF assms])
qed

lemma uniq_kv_put: "equivp eq \<Longrightarrow> uniq eq xs \<Longrightarrow> uniq eq (kv_put eq k v xs)"
  by (simp add: uniq_def kv_old_put)

lemma kv_get_put:
  "equivp eq \<Longrightarrow> kv_get eq k' (kv_put eq k v xs) = (if eq k k' then Some (k, v) else kv_get eq k' xs)"
  by (simp add: kv_get_hd kv_old_put)

lemma kv_get_del:
  "equivp eq \<Longrightarrow> kv_get eq k' (kv_del eq k xs) = (if eq k k' then None else kv_get eq k' xs)"
  by (simp add: kv_get_hd kv_old_del)

lemma length_kv_del: "uniq eq xs \<Longrightarrow>
    length (kv_del eq k xs) = length xs - (if kv_get eq k xs = None then 0 else 1)"
  using arg_cong [OF mset_old_del [of xs eq k], of size] uniq_kv_old [of eq xs k]
  by (auto split: option.splits)

text \<open>A list without the key of a new entry stays unique when the entry is added.\<close>

lemma kv_del_absent: "kv_get eq k xs = None \<Longrightarrow> kv_del eq k xs = xs"
  by (simp add: kv_get_None_iff kv_old_def kv_del_def filter_empty_conv)

lemmas kv_spec_simps = kv_get_put kv_get_del kv_old_put kv_old_del

section \<open>Contract of the callbacks\<close>

text \<open>
  What the maps rely on: the equality callback is an equivalence and equal keys have the same hash.
  \<open>hash\<close> is the hash callback with the seed 0 that HashMapGetBucket passes.
\<close>

definition key_ok :: "('k \<Rightarrow> 'k \<Rightarrow> bool) \<Rightarrow> ('k \<Rightarrow> 32 word) \<Rightarrow> bool" where
  "key_ok eq hash \<longleftrightarrow> equivp eq \<and> (\<forall>a b. eq a b \<longrightarrow> hash a = hash b)"

lemma key_okD: "key_ok eq hash \<Longrightarrow> equivp eq" "key_ok eq hash \<Longrightarrow> eq a b \<Longrightarrow> hash a = hash b"
  by (auto simp: key_ok_def)

section \<open>Interface\<close>

text \<open>
  A key/value store. \<open>rep s xs\<close>: the store holds the entries \<open>xs\<close>, in any order. Inserting under a
  key replaces the entry of that key and releases the old key and value.
\<close>

datatype ('k, 'v) kv_op = Put 'k 'v | Del 'k

fun kv_step :: "('k \<Rightarrow> 'k \<Rightarrow> bool) \<Rightarrow> ('k, 'v) kv_op \<Rightarrow> ('k \<times> 'v) list \<Rightarrow> ('k \<times> 'v) list" where
  "kv_step eq (Put k v) xs = kv_put eq k v xs"
| "kv_step eq (Del k) xs = kv_del eq k xs"

fun op_key :: "('k, 'v) kv_op \<Rightarrow> 'k" where
  "op_key (Put k v) = k"
| "op_key (Del k) = k"

text \<open>The entry of a key after a sequence of operations: what the last operation on that key left.\<close>

fun op_entry :: "('k, 'v) kv_op \<Rightarrow> ('k \<times> 'v) option" where
  "op_entry (Put k v) = Some (k, v)"
| "op_entry (Del k) = None"

definition latest :: "('k \<Rightarrow> 'k \<Rightarrow> bool) \<Rightarrow> 'k \<Rightarrow> ('k, 'v) kv_op list \<Rightarrow> ('k \<times> 'v) option" where
  "latest eq k ops = Option.bind (find (\<lambda>x. eq (op_key x) k) (rev ops)) op_entry"

lemma latest_Nil [simp]: "latest eq k [] = None"
  by (simp add: latest_def)

lemma latest_snoc:
  "latest eq k (ops @ [x]) = (if eq (op_key x) k then op_entry x else latest eq k ops)"
  by (simp add: latest_def)

definition op_puts :: "('k, 'v) kv_op list \<Rightarrow> ('k \<times> 'v) list" where
  "op_puts ops = concat (map (\<lambda>x. case op_entry x of Some kv \<Rightarrow> [kv] | None \<Rightarrow> []) ops)"

text \<open>Running operations on a store, collecting what they release.\<close>

fun kv_run ::
  "('s \<Rightarrow> 'k \<Rightarrow> 'v \<Rightarrow> (bool \<times> 's \<times> ('k, 'v) gone) res) \<Rightarrow> ('s \<Rightarrow> 'k \<Rightarrow> (bool \<times> 's \<times> ('k, 'v) gone) res)
    \<Rightarrow> 's \<Rightarrow> ('k, 'v) kv_op list \<Rightarrow> ('s \<times> ('k, 'v) gone) res" where
  "kv_run put del s [] = Ok (s, [], [])"
| "kv_run put del s (x # xs) =
     bindE (case x of Put k v \<Rightarrow> put s k v | Del k \<Rightarrow> del s k) (\<lambda>(_, s1, ks, vs).
     bindE (kv_run put del s1 xs) (\<lambda>(s2, ks', vs'). Ok (s2, ks @ ks', vs @ vs')))"

locale kv_store =
  fixes rep :: "'s \<Rightarrow> ('k \<times> 'v) list \<Rightarrow> bool"
    and eq :: "'k \<Rightarrow> 'k \<Rightarrow> bool"
    and frame :: "'s \<Rightarrow> destroyer ptr \<times> destroyer ptr"
    and put :: "'s \<Rightarrow> 'k \<Rightarrow> 'v \<Rightarrow> (bool \<times> 's \<times> ('k, 'v) gone) res"
    and del :: "'s \<Rightarrow> 'k \<Rightarrow> (bool \<times> 's \<times> ('k, 'v) gone) res"
    and get :: "'s \<Rightarrow> 'k \<Rightarrow> ('k \<times> 'v) ptr res"
  assumes eq_equiv: "rep s xs \<Longrightarrow> equivp eq"
    and rep_uniq: "rep s xs \<Longrightarrow> uniq eq xs"
    and put_rep: "rep s xs \<Longrightarrow> \<exists>s'. put s k v
        = Ok (kv_get eq k xs \<noteq> None, s', gone_of (frame s) (kv_old eq k xs))
      \<and> rep s' (kv_put eq k v xs) \<and> frame s' = frame s"
    and del_rep: "rep s xs \<Longrightarrow> \<exists>s'. del s k
        = Ok (kv_get eq k xs \<noteq> None, s', gone_of (frame s) (kv_old eq k xs))
      \<and> rep s' (kv_del eq k xs) \<and> frame s' = frame s"
    and get_rep: "rep s xs \<Longrightarrow> get s k = Ok (kv_get eq k xs)"
begin

lemma get_after_put:
  assumes "rep s xs"
  shows "\<exists>s'. put s k v = Ok (kv_get eq k xs \<noteq> None, s', gone_of (frame s) (kv_old eq k xs))
    \<and> get s' k' = (if eq k k' then Ok (Ptr (k, v)) else get s k')"
proof -
  from put_rep [OF assms, of k v] obtain s' where
    s': "put s k v = Ok (kv_get eq k xs \<noteq> None, s', gone_of (frame s) (kv_old eq k xs))"
      "rep s' (kv_put eq k v xs)" by blast
  then show ?thesis using get_rep [OF s'(2)] get_rep [OF assms]
    by (intro exI [of _ s']) (simp add: kv_get_put [OF eq_equiv [OF assms]])
qed

lemma get_after_del:
  assumes "rep s xs"
  shows "\<exists>s'. del s k = Ok (kv_get eq k xs \<noteq> None, s', gone_of (frame s) (kv_old eq k xs))
    \<and> get s' k' = (if eq k k' then Ok NULL else get s k')"
proof -
  from del_rep [OF assms, of k] obtain s' where
    s': "del s k = Ok (kv_get eq k xs \<noteq> None, s', gone_of (frame s) (kv_old eq k xs))"
      "rep s' (kv_del eq k xs)" by blast
  then show ?thesis using get_rep [OF s'(2)] get_rep [OF assms]
    by (intro exI [of _ s']) (simp add: kv_get_del [OF eq_equiv [OF assms]])
qed

text \<open>
  A program of insertions and removals: it never faults, the entries are those of the abstract
  list, and with destructors for both, every key and value handed over is either released or still
  there.
\<close>

lemma run_rep:
  "rep s xs \<Longrightarrow> \<exists>s' ks vs. kv_run put del s ops = Ok (s', ks, vs)
    \<and> rep s' (fold (kv_step eq) ops xs) \<and> frame s' = frame s
    \<and> (frame s = (Ptr DestroyFn, Ptr DestroyFn) \<longrightarrow>
        mset ks + mset (map fst (fold (kv_step eq) ops xs)) = mset (map fst (xs @ op_puts ops))
        \<and> mset vs + mset (map snd (fold (kv_step eq) ops xs)) = mset (map snd (xs @ op_puts ops)))"
proof (induction ops arbitrary: s xs)
  case Nil
  then show ?case by (simp add: op_puts_def)
next
  case (Cons x ops)
  let ?k = "op_key x" and ?put = "case op_entry x of Some kv \<Rightarrow> [kv] | None \<Rightarrow> []"
  have step: "kv_step eq x xs = kv_del eq ?k xs @ ?put" by (cases x) (auto simp: kv_put_def)
  obtain b s1 where s1: "(case x of Put k v \<Rightarrow> put s k v | Del k \<Rightarrow> del s k)
      = Ok (b, s1, gone_of (frame s) (kv_old eq ?k xs))" "rep s1 (kv_step eq x xs)" "frame s1 = frame s"
    using put_rep [OF Cons.prems] del_rep [OF Cons.prems] by (cases x) (simp, blast)+
  from Cons.IH [OF s1(2)] obtain s2 ks vs where s2: "kv_run put del s1 ops = Ok (s2, ks, vs)"
    "rep s2 (fold (kv_step eq) (x # ops) xs)" "frame s2 = frame s"
    "frame s = (Ptr DestroyFn, Ptr DestroyFn) \<longrightarrow>
      mset ks + mset (map fst (fold (kv_step eq) (x # ops) xs)) = mset (map fst (kv_step eq x xs @ op_puts ops))
      \<and> mset vs + mset (map snd (fold (kv_step eq) (x # ops) xs)) = mset (map snd (kv_step eq x xs @ op_puts ops))"
    using s1(3) by auto
  have split: "mset (map f xs) = mset (map f (kv_old eq ?k xs)) + mset (map f (kv_del eq ?k xs))" for f :: "'k \<times> 'v \<Rightarrow> 'z"
    using arg_cong [OF mset_old_del [of xs eq ?k], of "image_mset f"] by simp
  have puts: "op_puts (x # ops) = ?put @ op_puts ops" by (simp add: op_puts_def)
  show ?case
    using s1 s2 step split [of fst] split [of snd] puts
    by (auto simp: gone_of_def ac_simps)
qed

lemma run_latest:
  assumes "equivp eq" "kv_get eq k xs = None"
  shows "kv_get eq k (fold (kv_step eq) ops xs) = latest eq k ops"
proof (induction ops rule: rev_induct)
  case (snoc x ops)
  then show ?case by (cases x) (auto simp: kv_spec_simps assms(1) latest_snoc)
qed (simp add: assms(2))

end

end
