(* ===== verification/Nodes.thy ===== *)
theory Nodes
  imports Prelude
begin

text \<open>
  Doubly linked nodes in a store, a map from addresses to nodes that \<open>xmalloc\<close> extends with a fresh
  address and \<open>free\<close> shrinks; following NULL or an address that is not allocated is a fault. The linked
  queue, the reference-counted list and its reference counts are made of such nodes. \<open>dseg h p as xs q\<close>:
  the nodes at the addresses \<open>as\<close> carry the values \<open>xs\<close> and are linked both ways, from the predecessor
  \<open>p\<close> of the first to the successor \<open>q\<close> of the last.
\<close>

type_synonym addr = nat

record 'p dnode =
  dn_data :: 'p
  dn_next :: "addr ptr"
  dn_previous :: "addr ptr"

definition deref :: "(addr \<rightharpoonup> 'n) \<Rightarrow> addr ptr \<Rightarrow> (addr \<times> 'n) res" where
  "deref h p = (case p of NULL \<Rightarrow> Fault NullDeref
     | Ptr a \<Rightarrow> (case h a of None \<Rightarrow> Fault OutOfBounds | Some n \<Rightarrow> Ok (a, n)))"

lemma deref_Ptr [simp]: "h a = Some n \<Longrightarrow> deref h (Ptr a) = Ok (a, n)"
  by (simp add: deref_def)

fun first_or :: "addr ptr \<Rightarrow> addr list \<Rightarrow> addr ptr" where
  "first_or q [] = q"
| "first_or q (a # as) = Ptr a"

abbreviation first_of :: "addr list \<Rightarrow> addr ptr" where
  "first_of as \<equiv> first_or NULL as"

definition last_or :: "addr ptr \<Rightarrow> addr list \<Rightarrow> addr ptr" where
  "last_or p as = first_or p (rev as)"

lemma last_or_simps [simp]:
  "last_or p [] = p" "last_or p (as @ [a]) = Ptr a" "last_or p (a # as) = last_or (Ptr a) as"
  by (simp_all add: last_or_def) (cases as rule: rev_cases; simp)

lemma first_or_append [simp]: "first_or q (as @ bs) = first_or (first_or q bs) as"
  by (cases as) auto

lemma last_or_append [simp]: "last_or p (as @ bs) = last_or (last_or p as) bs"
  by (simp add: last_or_def)

lemma last_of_Nil_iff [simp]: "last_or NULL as = NULL \<longleftrightarrow> as = []"
  by (cases as rule: rev_cases) auto

lemma first_of_Nil_iff [simp]: "first_of as = NULL \<longleftrightarrow> as = []"
  by (cases as) auto

fun dseg :: "(addr \<rightharpoonup> 'p dnode) \<Rightarrow> addr ptr \<Rightarrow> addr list \<Rightarrow> 'p list \<Rightarrow> addr ptr \<Rightarrow> bool" where
  "dseg h p [] [] q = True"
| "dseg h p (a # as) (x # xs) q \<longleftrightarrow>
     h a = Some \<lparr>dn_data = x, dn_next = first_or q as, dn_previous = p\<rparr> \<and> dseg h (Ptr a) as xs q"
| "dseg h p as xs q = False"

abbreviation chain :: "(addr \<rightharpoonup> 'p dnode) \<Rightarrow> addr ptr \<Rightarrow> addr list \<Rightarrow> 'p list \<Rightarrow> bool" where
  "chain h p as xs \<equiv> dseg h p as xs NULL"

lemma dseg_length: "dseg h p as xs q \<Longrightarrow> length as = length xs"
  by (induction h p as xs q rule: dseg.induct) auto

lemma dseg_Nil_iff [simp]:
  "dseg h p [] xs q \<longleftrightarrow> xs = []" "dseg h p as [] q \<longleftrightarrow> as = []"
  by (cases xs, auto) (cases as, auto)

lemma dseg_frame: "dseg h p as xs q \<Longrightarrow> (\<And>a. a \<in> set as \<Longrightarrow> h' a = h a) \<Longrightarrow> dseg h' p as xs q"
  by (induction h p as xs q rule: dseg.induct) auto

lemma dseg_upd [simp]: "a \<notin> set as \<Longrightarrow> dseg (h(a := n)) p as xs q \<longleftrightarrow> dseg h p as xs q"
  by (auto elim!: dseg_frame)

lemma dseg_append:
  "length as = length xs \<Longrightarrow> dseg h p (as @ bs) (xs @ ys) q \<longleftrightarrow>
   dseg h p as xs (first_or q bs) \<and> dseg h (last_or p as) bs ys q"
  by (induction as xs arbitrary: p rule: list_induct2) auto

lemma dseg_snocE:
  assumes "dseg h p (as @ [t]) xs q"
  obtains ys y where "xs = ys @ [y]" "dseg h p as ys (Ptr t)"
    "h t = Some \<lparr>dn_data = y, dn_next = q, dn_previous = last_or p as\<rparr>"
proof -
  from dseg_length [OF assms] obtain ys y where xs: "xs = ys @ [y]" "length as = length ys"
    by (cases xs rule: rev_cases) auto
  with assms show thesis using that by (simp add: dseg_append)
qed

lemma dseg_nodes: "dseg h p as xs q \<Longrightarrow> a \<in> set as \<Longrightarrow> \<exists>n. h a = Some n"
  by (induction h p as xs q rule: dseg.induct) auto

lemma dseg_nth: "dseg h p (as @ a # bs) (xs @ x # ys) q \<Longrightarrow> length as = length xs \<Longrightarrow>
    h a = Some \<lparr>dn_data = x, dn_next = first_or q bs, dn_previous = last_or p as\<rparr>"
  by (simp add: dseg_append)

text \<open>Fuel: a loop over distinct addresses below \<open>n\<close> takes at most \<open>n\<close> rounds.\<close>

lemma distinct_bounded_length: "distinct as \<Longrightarrow> \<forall>a \<in> set as. a < n \<Longrightarrow> length as \<le> n"
  by (metis card_lessThan card_mono distinct_card finite_lessThan lessThan_iff subsetI)

section \<open>Changing the ends of a segment\<close>

lemma dseg_set_next:
  assumes "dseg h p (as @ [t]) xs q" "distinct (as @ [t])"
  shows "\<exists>tn. h t = Some tn \<and> dseg (h(t \<mapsto> tn\<lparr>dn_next := q'\<rparr>)) p (as @ [t]) xs q'"
proof -
  obtain ys y where xs: "xs = ys @ [y]" "dseg h p as ys (Ptr t)"
    "h t = Some \<lparr>dn_data = y, dn_next = q, dn_previous = last_or p as\<rparr>" using dseg_snocE [OF assms(1)] .
  have "length as = length ys" using dseg_length [OF xs(2)] .
  then show ?thesis using xs assms(2) by (simp add: dseg_append)
qed

lemma dseg_set_previous:
  assumes "dseg h p (b # bs) ys q" "distinct (b # bs)"
  shows "\<exists>bn. h b = Some bn \<and> dseg (h(b \<mapsto> bn\<lparr>dn_previous := p'\<rparr>)) p' (b # bs) ys q"
  using assms by (cases ys) auto

text \<open>A new node behind the last one, and in front of the first one.\<close>

lemma chain_snoc:
  assumes "chain h p (as @ [t]) xs" "distinct (as @ [t])" "n \<notin> set (as @ [t])"
  shows "\<exists>tn. h t = Some tn \<and> chain (h(t \<mapsto> tn\<lparr>dn_next := Ptr n\<rparr>,
      n \<mapsto> \<lparr>dn_data = x, dn_next = NULL, dn_previous = Ptr t\<rparr>)) p (as @ [t, n]) (xs @ [x])"
proof -
  from dseg_set_next [OF assms(1,2), of "Ptr n"] obtain tn where
    tn: "h t = Some tn" "dseg (h(t \<mapsto> tn\<lparr>dn_next := Ptr n\<rparr>)) p (as @ [t]) xs (Ptr n)" by blast
  have "length (as @ [t]) = length xs" using dseg_length [OF assms(1)] .
  then have "chain (h(t \<mapsto> tn\<lparr>dn_next := Ptr n\<rparr>, n \<mapsto> \<lparr>dn_data = x, dn_next = NULL, dn_previous = Ptr t\<rparr>)) p
      ((as @ [t]) @ [n]) (xs @ [x])"
    using tn(2) assms(3) by (simp only: dseg_append) (auto elim!: dseg_frame)
  then show ?thesis using tn(1) by auto
qed

lemma chain_cons:
  assumes "chain h NULL (b # bs) xs" "distinct (b # bs)" "n \<notin> set (b # bs)"
  shows "\<exists>bn. h b = Some bn \<and> chain (h(n \<mapsto> \<lparr>dn_data = x, dn_next = Ptr b, dn_previous = NULL\<rparr>,
      b \<mapsto> bn\<lparr>dn_previous := Ptr n\<rparr>)) NULL (n # b # bs) (x # xs)"
  using assms by (cases xs) auto

text \<open>
  Taking a node out of the chain: the pointer updates that ListRemove, ListMutableIteratorRemove and
  RefCountDetach share. The links of the neighbours, the first and the last pointer are updated in the
  order of the code.
\<close>

definition unlink :: "(addr \<rightharpoonup> 'p dnode) \<Rightarrow> 'p dnode \<Rightarrow> addr ptr \<times> addr ptr \<Rightarrow> ((addr \<rightharpoonup> 'p dnode) \<times> addr ptr \<times> addr ptr) res" where
  "unlink h node ends = (case (dn_next node, dn_previous node) of
     (Ptr n, Ptr p) \<Rightarrow>
       bindE (deref h (Ptr n)) (\<lambda>(_, nn).
       let h1 = h(n \<mapsto> nn\<lparr>dn_previous := Ptr p\<rparr>)
       in bindE (deref h1 (Ptr p)) (\<lambda>(_, pn). Ok (h1(p \<mapsto> pn\<lparr>dn_next := Ptr n\<rparr>), fst ends, snd ends)))
   | (Ptr n, NULL) \<Rightarrow>
       bindE (deref h (Ptr n)) (\<lambda>(_, nn). Ok (h(n \<mapsto> nn\<lparr>dn_previous := NULL\<rparr>), Ptr n, snd ends))
   | (NULL, Ptr p) \<Rightarrow>
       bindE (deref h (Ptr p)) (\<lambda>(_, pn). Ok (h(p \<mapsto> pn\<lparr>dn_next := NULL\<rparr>), fst ends, Ptr p))
   | (NULL, NULL) \<Rightarrow> Ok (h, NULL, NULL))"

lemma unlink_chain:
  assumes "chain h NULL (as @ a # bs) (xs @ x # ys)" "distinct (as @ a # bs)" "length as = length xs"
  shows "\<exists>node h'. h a = Some node \<and> dn_data node = x
    \<and> unlink h node (first_of (as @ a # bs), last_or NULL (as @ a # bs)) = Ok (h', first_of (as @ bs), last_or NULL (as @ bs))
    \<and> chain h' NULL (as @ bs) (xs @ ys) \<and> (\<forall>c. c \<notin> set as \<union> set bs \<longrightarrow> h' c = h c) \<and> dom h' = dom h"
proof -
  have seg: "dseg h NULL as xs (Ptr a)" "chain h (Ptr a) bs ys"
    and a: "h a = Some \<lparr>dn_data = x, dn_next = first_of bs, dn_previous = last_or NULL as\<rparr>"
    using assms(1) by (auto simp: dseg_append [OF assms(3)])
  have d: "a \<notin> set as" "a \<notin> set bs" "distinct as" "distinct bs" "set as \<inter> set bs = {}" using assms(2) by auto
  show ?thesis
  proof (cases as rule: rev_cases)
    case as: Nil
    show ?thesis
    proof (cases bs)
      case Nil
      then show ?thesis using a as seg by (simp add: unlink_def)
    next
      case (Cons b cs)
      with dseg_set_previous [of h "Ptr a" b cs ys NULL NULL] seg d obtain bn where
        bn: "h b = Some bn" "chain (h(b \<mapsto> bn\<lparr>dn_previous := NULL\<rparr>)) NULL (b # cs) ys" by auto
      then show ?thesis using a as Cons assms(3) d
        by (auto simp: unlink_def intro!: exI [of _ "h(b \<mapsto> bn\<lparr>dn_previous := NULL\<rparr>)"])
    qed
  next
    case (snoc cs t)
    then have ds: "distinct (cs @ [t])" "dseg h NULL (cs @ [t]) xs (Ptr a)" using d seg by auto
    show ?thesis
    proof (cases bs)
      case Nil
      from dseg_set_next [OF ds(2,1), of NULL] obtain tn where
        "h t = Some tn" "chain (h(t \<mapsto> tn\<lparr>dn_next := NULL\<rparr>)) NULL (cs @ [t]) xs" by blast
      then show ?thesis using a snoc Nil seg d
        by (auto simp: unlink_def intro!: exI [of _ "h(t \<mapsto> tn\<lparr>dn_next := NULL\<rparr>)"])
    next
      case (Cons b es)
      let ?h1 = "\<lambda>bn. h(b \<mapsto> bn\<lparr>dn_previous := Ptr t\<rparr>)"
      from dseg_set_previous [of h "Ptr a" b es ys NULL "Ptr t"] seg d Cons obtain bn where
        bn: "h b = Some bn" "chain (?h1 bn) (Ptr t) (b # es) ys" by auto
      have "dseg (?h1 bn) NULL (cs @ [t]) xs (Ptr a)" using ds(2) d snoc Cons by simp
      from dseg_set_next [OF this ds(1), of "Ptr b"] obtain tn where
        tn: "?h1 bn t = Some tn" "dseg ((?h1 bn)(t \<mapsto> tn\<lparr>dn_next := Ptr b\<rparr>)) NULL (cs @ [t]) xs (Ptr b)" by blast
      have "t \<notin> set (b # es)" using d snoc Cons by auto
      then have "chain ((?h1 bn)(t \<mapsto> tn\<lparr>dn_next := Ptr b\<rparr>)) (Ptr t) (b # es) ys" using bn(2) by simp
      moreover have "length (cs @ [t]) = length xs" using assms(3) snoc by simp
      ultimately have "chain ((?h1 bn)(t \<mapsto> tn\<lparr>dn_next := Ptr b\<rparr>)) NULL ((cs @ [t]) @ b # es) (xs @ ys)"
        using tn(2) by (simp only: dseg_append) simp
      then show ?thesis using a snoc Cons bn(1) tn(1) d
        by (auto simp: unlink_def Let_def intro!: exI [of _ "(?h1 bn)(t \<mapsto> tn\<lparr>dn_next := Ptr b\<rparr>)"])
    qed
  qed
qed

end
