(* ===== verification/RbTree.thy ===== *)
theory RbTree
  imports MapCommon Nodes
begin

text \<open>
  The red-black tree of libutils/rb-tree.c on a store of nodes with parent pointers. Two nodes are
  sentinels: \<open>nil\<close>, which all leaves point to and whose parent field RBTreeRemove uses as scratch space,
  and \<open>root\<close>, whose left child is the top of the tree. Following a pointer to a node that is not
  allocated is a fault. Keys and values are pointers that may be NULL; the copy, compare and destroy
  callbacks are fields of the tree, and what the destructors release is returned. Loops get as many
  rounds as addresses have been given out.
\<close>

section \<open>Nodes and trees\<close>

record ('k, 'v) RBNode =
  rb_key :: "'k ptr"
  rb_value :: "'v ptr"
  rb_red :: bool
  rb_parent :: addr
  rb_left :: addr
  rb_right :: addr

type_synonym ('k, 'v) rbheap = "addr \<rightharpoonup> ('k, 'v) RBNode"

record ('k, 'v) RBTree =
  KeyCopy :: "'k ptr \<Rightarrow> 'k ptr"
  KeyCompare :: "'k ptr \<Rightarrow> 'k ptr \<Rightarrow> int"
  KeyDestroy :: destroyer
  ValueCopy :: "'v ptr \<Rightarrow> 'v ptr"
  ValueCompare :: "'v ptr \<Rightarrow> 'v ptr \<Rightarrow> int"
  ValueDestroy :: destroyer
  rb_root :: addr
  rb_nil :: addr
  rb_size :: nat
  rb_heap :: "('k, 'v) rbheap"
  rb_fresh :: addr

definition rd :: "('k, 'v) rbheap \<Rightarrow> addr \<Rightarrow> ('k, 'v) RBNode res" where
  "rd h a = (case h a of None \<Rightarrow> Fault OutOfBounds | Some n \<Rightarrow> Ok n)"

definition wr :: "('k, 'v) rbheap \<Rightarrow> addr \<Rightarrow> (('k, 'v) RBNode \<Rightarrow> ('k, 'v) RBNode) \<Rightarrow> ('k, 'v) rbheap res" where
  "wr h a f = bindE (rd h a) (\<lambda>n. Ok (h(a \<mapsto> f n)))"

text \<open>\<open>a->parent->left\<close> and the like are chains of these reads.\<close>

definition get_parent :: "('k, 'v) rbheap \<Rightarrow> addr \<Rightarrow> addr res" where
  "get_parent h a = bindE (rd h a) (\<lambda>n. Ok (rb_parent n))"

definition get_left :: "('k, 'v) rbheap \<Rightarrow> addr \<Rightarrow> addr res" where
  "get_left h a = bindE (rd h a) (\<lambda>n. Ok (rb_left n))"

definition get_right :: "('k, 'v) rbheap \<Rightarrow> addr \<Rightarrow> addr res" where
  "get_right h a = bindE (rd h a) (\<lambda>n. Ok (rb_right n))"

definition get_red :: "('k, 'v) rbheap \<Rightarrow> addr \<Rightarrow> bool res" where
  "get_red h a = bindE (rd h a) (\<lambda>n. Ok (rb_red n))"

definition set_parent :: "('k, 'v) rbheap \<Rightarrow> addr \<Rightarrow> addr \<Rightarrow> ('k, 'v) rbheap res" where
  "set_parent h a p = wr h a (\<lambda>n. n\<lparr>rb_parent := p\<rparr>)"

definition set_left :: "('k, 'v) rbheap \<Rightarrow> addr \<Rightarrow> addr \<Rightarrow> ('k, 'v) rbheap res" where
  "set_left h a p = wr h a (\<lambda>n. n\<lparr>rb_left := p\<rparr>)"

definition set_right :: "('k, 'v) rbheap \<Rightarrow> addr \<Rightarrow> addr \<Rightarrow> ('k, 'v) rbheap res" where
  "set_right h a p = wr h a (\<lambda>n. n\<lparr>rb_right := p\<rparr>)"

definition set_red :: "('k, 'v) rbheap \<Rightarrow> addr \<Rightarrow> bool \<Rightarrow> ('k, 'v) rbheap res" where
  "set_red h a b = wr h a (\<lambda>n. n\<lparr>rb_red := b\<rparr>)"

definition assert_nil_black :: "('k, 'v) rbheap \<Rightarrow> addr \<Rightarrow> unit res" where
  "assert_nil_black h nil = bindE (get_red h nil) (\<lambda>b. c_assert (\<not> b))"

section \<open>Construction\<close>

text \<open>The difference of two pointers, cut to an \<open>int\<close>; \<open>address\<close> says where an object is.\<close>

definition PointerCompare :: "('a ptr \<Rightarrow> 64 word) \<Rightarrow> 'a ptr \<Rightarrow> 'a ptr \<Rightarrow> int" where
  "PointerCompare address a b = sint (ucast (address a - address b) :: 32 word)"

definition NoopCopy :: "'a ptr \<Rightarrow> 'a ptr" where
  "NoopCopy a = a"

definition NodeNew :: "('k, 'v) RBTree \<Rightarrow> addr \<Rightarrow> bool \<Rightarrow> 'k ptr \<Rightarrow> 'v ptr \<Rightarrow> addr \<times> ('k, 'v) RBTree" where
  "NodeNew tree parent red key val =
     (rb_fresh tree, tree\<lparr>rb_heap := (rb_heap tree)(rb_fresh tree \<mapsto>
        \<lparr>rb_key = KeyCopy tree key, rb_value = ValueCopy tree val, rb_red = red, rb_parent = parent,
          rb_left = rb_nil tree, rb_right = rb_nil tree\<rparr>),
       rb_fresh := rb_fresh tree + 1\<rparr>)"

text \<open>The node is released with its key and value; its callers never pass NULL.\<close>

definition NodeDestroy :: "('k, 'v) RBTree \<Rightarrow> addr \<Rightarrow> (('k, 'v) RBTree \<times> ('k ptr, 'v ptr) gone) res" where
  "NodeDestroy tree node = bindE (rd (rb_heap tree) node) (\<lambda>n.
     Ok (tree\<lparr>rb_heap := (rb_heap tree)(node := None)\<rparr>, released (KeyDestroy tree) [rb_key n], released (ValueDestroy tree) [rb_value n]))"

definition sentinel :: "addr \<Rightarrow> ('k, 'v) RBNode" where
  "sentinel nil = \<lparr>rb_key = NULL, rb_value = NULL, rb_red = False, rb_parent = nil, rb_left = nil, rb_right = nil\<rparr>"

definition Reset :: "('k, 'v) RBTree \<Rightarrow> ('k, 'v) RBTree" where
  "Reset tree = tree\<lparr>rb_heap := (rb_heap tree)(rb_nil tree \<mapsto> sentinel (rb_nil tree), rb_root tree \<mapsto> sentinel (rb_nil tree)), rb_size := 0\<rparr>"

definition RBTreeNew ::
  "('k ptr \<Rightarrow> 64 word) \<Rightarrow> ('v ptr \<Rightarrow> 64 word) \<Rightarrow>
   ('k ptr \<Rightarrow> 'k ptr) ptr \<Rightarrow> ('k ptr \<Rightarrow> 'k ptr \<Rightarrow> int) ptr \<Rightarrow> destroyer ptr \<Rightarrow>
   ('v ptr \<Rightarrow> 'v ptr) ptr \<Rightarrow> ('v ptr \<Rightarrow> 'v ptr \<Rightarrow> int) ptr \<Rightarrow> destroyer ptr \<Rightarrow> ('k, 'v) RBTree" where
  "RBTreeNew key_address value_address key_copy key_compare key_destroy value_copy value_compare value_destroy =
     Reset \<lparr>KeyCopy = (case key_copy of NULL \<Rightarrow> NoopCopy | Ptr f \<Rightarrow> f),
       KeyCompare = (case key_compare of NULL \<Rightarrow> PointerCompare key_address | Ptr f \<Rightarrow> f),
       KeyDestroy = (case key_destroy of NULL \<Rightarrow> NopDestroyFn | Ptr d \<Rightarrow> d),
       ValueCopy = (case value_copy of NULL \<Rightarrow> NoopCopy | Ptr f \<Rightarrow> f),
       ValueCompare = (case value_compare of NULL \<Rightarrow> PointerCompare value_address | Ptr f \<Rightarrow> f),
       ValueDestroy = (case value_destroy of NULL \<Rightarrow> NopDestroyFn | Ptr d \<Rightarrow> d),
       rb_root = 1, rb_nil = 0, rb_size = 0, rb_heap = Map.empty, rb_fresh = 2\<rparr>"

section \<open>Rotations\<close>

definition RotateLeft :: "addr \<Rightarrow> ('k, 'v) rbheap \<Rightarrow> addr \<Rightarrow> ('k, 'v) rbheap res" where
  "RotateLeft nil h x =
     bindE (assert_nil_black h nil) (\<lambda>_.
     bindE (get_right h x) (\<lambda>y.
     bindE (get_left h y) (\<lambda>yl.
     bindE (set_right h x yl) (\<lambda>h1.
     bindE (if yl \<noteq> nil then set_parent h1 yl x else Ok h1) (\<lambda>h2.
     bindE (get_parent h2 x) (\<lambda>xp.
     bindE (set_parent h2 y xp) (\<lambda>h3.
     bindE (get_left h3 xp) (\<lambda>xpl.
     bindE (if x = xpl then set_left h3 xp y else set_right h3 xp y) (\<lambda>h4.
     bindE (set_left h4 y x) (\<lambda>h5.
     bindE (set_parent h5 x y) (\<lambda>h6.
     bindE (assert_nil_black h6 nil) (\<lambda>_. Ok h6))))))))))))"

definition RotateRight :: "addr \<Rightarrow> ('k, 'v) rbheap \<Rightarrow> addr \<Rightarrow> ('k, 'v) rbheap res" where
  "RotateRight nil h y =
     bindE (assert_nil_black h nil) (\<lambda>_.
     bindE (get_left h y) (\<lambda>x.
     bindE (get_right h x) (\<lambda>xr.
     bindE (set_left h y xr) (\<lambda>h1.
     bindE (if xr \<noteq> nil then set_parent h1 xr y else Ok h1) (\<lambda>h2.
     bindE (get_parent h2 y) (\<lambda>yp.
     bindE (set_parent h2 x yp) (\<lambda>h3.
     bindE (get_left h3 yp) (\<lambda>ypl.
     bindE (if y = ypl then set_left h3 yp x else set_right h3 yp x) (\<lambda>h4.
     bindE (set_right h4 x y) (\<lambda>h5.
     bindE (set_parent h5 y x) (\<lambda>h6.
     bindE (assert_nil_black h6 nil) (\<lambda>_. Ok h6))))))))))))"

section \<open>Insertion\<close>

text \<open>The body of the loop of PutFix, for the parent \<open>zp\<close> and the grandparent \<open>zpp\<close> of \<open>z\<close>.\<close>

definition PutFix_recolour :: "('k, 'v) rbheap \<Rightarrow> addr \<Rightarrow> addr \<Rightarrow> addr \<Rightarrow> (addr \<times> ('k, 'v) rbheap) res" where
  "PutFix_recolour h zp y zpp =
     bindE (set_red h zp False) (\<lambda>h1. bindE (set_red h1 y False) (\<lambda>h2. bindE (set_red h2 zpp True) (\<lambda>h3. Ok (zpp, h3))))"

definition PutFix_left :: "addr \<Rightarrow> ('k, 'v) rbheap \<Rightarrow> addr \<Rightarrow> addr \<Rightarrow> addr \<Rightarrow> (addr \<times> ('k, 'v) rbheap) res" where
  "PutFix_left nil h z zp zpp =
     bindE (get_right h zpp) (\<lambda>y.
     bindE (get_red h y) (\<lambda>y_red.
     if y_red then PutFix_recolour h zp y zpp
     else bindE (get_right h zp) (\<lambda>zpr.
       bindE (if z = zpr then bindE (RotateLeft nil h zp) (\<lambda>h1. Ok (zp, h1)) else Ok (z, h)) (\<lambda>(z, h1).
       bindE (get_parent h1 z) (\<lambda>p.
       bindE (set_red h1 p False) (\<lambda>h2.
       bindE (get_parent h2 p) (\<lambda>g.
       bindE (set_red h2 g True) (\<lambda>h3.
       bindE (RotateRight nil h3 g) (\<lambda>h4. Ok (z, h4)))))))))) "

definition PutFix_right :: "addr \<Rightarrow> ('k, 'v) rbheap \<Rightarrow> addr \<Rightarrow> addr \<Rightarrow> addr \<Rightarrow> (addr \<times> ('k, 'v) rbheap) res" where
  "PutFix_right nil h z zp zpp =
     bindE (get_left h zpp) (\<lambda>y.
     bindE (get_red h y) (\<lambda>y_red.
     if y_red then PutFix_recolour h zp y zpp
     else bindE (get_left h zp) (\<lambda>zpl.
       bindE (if z = zpl then bindE (RotateRight nil h zp) (\<lambda>h1. Ok (zp, h1)) else Ok (z, h)) (\<lambda>(z, h1).
       bindE (get_parent h1 z) (\<lambda>p.
       bindE (set_red h1 p False) (\<lambda>h2.
       bindE (get_parent h2 p) (\<lambda>g.
       bindE (set_red h2 g True) (\<lambda>h3.
       bindE (RotateLeft nil h3 g) (\<lambda>h4. Ok (z, h4)))))))))) "

fun PutFix_loop :: "nat \<Rightarrow> addr \<Rightarrow> ('k, 'v) rbheap \<Rightarrow> addr \<Rightarrow> ('k, 'v) rbheap res" where
  "PutFix_loop 0 nil h z = Fault OutOfFuel"
| "PutFix_loop (Suc fuel) nil h z =
     bindE (get_parent h z) (\<lambda>zp.
     bindE (get_red h zp) (\<lambda>zp_red.
     if \<not> zp_red then Ok h
     else bindE (get_parent h zp) (\<lambda>zpp.
       bindE (get_left h zpp) (\<lambda>zppl.
       bindE (if zp = zppl then PutFix_left nil h z zp zpp else PutFix_right nil h z zp zpp) (\<lambda>(z, h1).
       PutFix_loop fuel nil h1 z)))))"

definition PutFix :: "('k, 'v) RBTree \<Rightarrow> addr \<Rightarrow> ('k, 'v) RBTree res" where
  "PutFix tree z =
     bindE (PutFix_loop (rb_fresh tree) (rb_nil tree) (rb_heap tree) z) (\<lambda>h.
     bindE (get_left h (rb_root tree)) (\<lambda>top.
     bindE (set_red h top False) (\<lambda>h1.
     bindE (assert_nil_black h1 (rb_nil tree)) (\<lambda>_.
     bindE (assert_nil_black h1 (rb_root tree)) (\<lambda>_. Ok (tree\<lparr>rb_heap := h1\<rparr>))))))"

text \<open>The search of RBTreePut: the node with the key, or the node below which it belongs.\<close>

fun put_search :: "nat \<Rightarrow> ('k, 'v) RBTree \<Rightarrow> 'k ptr \<Rightarrow> addr \<Rightarrow> addr \<Rightarrow> (bool \<times> addr) res" where
  "put_search 0 tree key y x = Fault OutOfFuel"
| "put_search (Suc fuel) tree key y x =
     (if x = rb_nil tree then Ok (False, y)
      else bindE (rd (rb_heap tree) x) (\<lambda>n.
        let cmp = KeyCompare tree key (rb_key n)
        in if cmp = 0 then Ok (True, x)
           else put_search fuel tree key x (if cmp < 0 then rb_left n else rb_right n)))"

definition put_replace :: "('k, 'v) RBTree \<Rightarrow> addr \<Rightarrow> 'k ptr \<Rightarrow> 'v ptr \<Rightarrow> (bool \<times> ('k, 'v) RBTree \<times> ('k ptr, 'v ptr) gone) res" where
  "put_replace tree x key val = bindE (rd (rb_heap tree) x) (\<lambda>n.
     Ok (True, tree\<lparr>rb_heap := (rb_heap tree)(x \<mapsto> n\<lparr>rb_key := KeyCopy tree key, rb_value := ValueCopy tree val\<rparr>)\<rparr>,
       released (KeyDestroy tree) [rb_key n], released (ValueDestroy tree) [rb_value n]))"

definition put_new :: "('k, 'v) RBTree \<Rightarrow> addr \<Rightarrow> 'k ptr \<Rightarrow> 'v ptr \<Rightarrow> (bool \<times> ('k, 'v) RBTree \<times> ('k ptr, 'v ptr) gone) res" where
  "put_new tree y key val =
     (let (z, tree1) = NodeNew tree y True key val
      in bindE (rd (rb_heap tree1) z) (\<lambda>zn.
         bindE (rd (rb_heap tree1) y) (\<lambda>yn.
         bindE (if y = rb_root tree1 \<or> KeyCompare tree1 (rb_key zn) (rb_key yn) < 0
                then set_left (rb_heap tree1) y z else set_right (rb_heap tree1) y z) (\<lambda>h.
         bindE (PutFix (tree1\<lparr>rb_heap := h\<rparr>) z) (\<lambda>tree2.
         Ok (False, tree2\<lparr>rb_size := rb_size tree2 + 1\<rparr>, [], []))))))"

definition RBTreePut :: "('k, 'v) RBTree \<Rightarrow> 'k ptr \<Rightarrow> 'v ptr \<Rightarrow> (bool \<times> ('k, 'v) RBTree \<times> ('k ptr, 'v ptr) gone) res" where
  "RBTreePut tree key val =
     bindE (get_left (rb_heap tree) (rb_root tree)) (\<lambda>x.
     bindE (put_search (rb_fresh tree) tree key (rb_root tree) x) (\<lambda>(found, y).
     if found then put_replace tree y key val else put_new tree y key val))"

section \<open>Search and succession\<close>

fun go_left :: "nat \<Rightarrow> addr \<Rightarrow> ('k, 'v) rbheap \<Rightarrow> addr \<Rightarrow> addr res" where
  "go_left 0 nil h current = Fault OutOfFuel"
| "go_left (Suc fuel) nil h current = bindE (get_left h current) (\<lambda>l. if l \<noteq> nil then go_left fuel nil h l else Ok current)"

fun go_up :: "nat \<Rightarrow> ('k, 'v) rbheap \<Rightarrow> addr \<Rightarrow> addr \<Rightarrow> addr res" where
  "go_up 0 h node current = Fault OutOfFuel"
| "go_up (Suc fuel) h node current = bindE (get_right h current) (\<lambda>r.
     if node = r then bindE (get_parent h current) (\<lambda>p. go_up fuel h current p) else Ok current)"

definition Next :: "('k, 'v) RBTree \<Rightarrow> addr \<Rightarrow> addr res" where
  "Next tree node =
     bindE (get_right (rb_heap tree) node) (\<lambda>r.
     if r \<noteq> rb_nil tree then go_left (rb_fresh tree) (rb_nil tree) (rb_heap tree) r
     else bindE (get_parent (rb_heap tree) node) (\<lambda>p.
          bindE (go_up (rb_fresh tree) (rb_heap tree) node p) (\<lambda>current.
          Ok (if current \<noteq> rb_root tree then current else rb_nil tree))))"

fun Get_loop :: "nat \<Rightarrow> ('k, 'v) RBTree \<Rightarrow> 'k ptr \<Rightarrow> addr \<Rightarrow> addr res" where
  "Get_loop 0 tree key current = Fault OutOfFuel"
| "Get_loop (Suc fuel) tree key current =
     (if current = rb_nil tree then Ok current
      else bindE (rd (rb_heap tree) current) (\<lambda>n.
        let cmp = KeyCompare tree key (rb_key n)
        in if cmp = 0 then Ok current
           else if cmp < 0 then Get_loop fuel tree key (rb_left n)
           else Get_loop fuel tree key (rb_right n)))"

definition Get :: "('k, 'v) RBTree \<Rightarrow> 'k ptr \<Rightarrow> addr res" where
  "Get tree key =
     bindE (assert_nil_black (rb_heap tree) (rb_nil tree)) (\<lambda>_.
     bindE (get_left (rb_heap tree) (rb_root tree)) (\<lambda>top.
     Get_loop (rb_fresh tree) tree key top))"

definition RBTreeGet :: "('k, 'v) RBTree \<Rightarrow> 'k ptr \<Rightarrow> 'v ptr res" where
  "RBTreeGet tree key = bindE (Get tree key) (\<lambda>node.
     if node \<noteq> rb_nil tree then bindE (rd (rb_heap tree) node) (\<lambda>n. Ok (rb_value n)) else Ok NULL)"

section \<open>Removal\<close>

text \<open>
  The body of the loop of RemoveFix for a left child \<open>x\<close> of \<open>xp\<close>: first a red sibling is rotated away,
  then one of the cases applies. The result is the next \<open>x\<close>.
\<close>

definition RemoveFix_left :: "addr \<Rightarrow> addr \<Rightarrow> ('k, 'v) rbheap \<Rightarrow> addr \<Rightarrow> (addr \<times> ('k, 'v) rbheap) res" where
  "RemoveFix_left nil root h x =
     bindE (get_parent h x) (\<lambda>xp.
     bindE (get_right h xp) (\<lambda>w.
     bindE (get_red h w) (\<lambda>w_red.
     bindE (if w_red
            then bindE (set_red h w False) (\<lambda>h1.
                 bindE (set_red h1 xp True) (\<lambda>h2.
                 bindE (RotateLeft nil h2 xp) (\<lambda>h3.
                 bindE (get_parent h3 x) (\<lambda>xp'.
                 bindE (get_right h3 xp') (\<lambda>w'. Ok (w', h3))))))
            else Ok (w, h)) (\<lambda>(w, h).
     bindE (bindE (get_left h w) (get_red h)) (\<lambda>wl_red.
     bindE (if wl_red then Ok False else bindE (bindE (get_right h w) (get_red h)) (\<lambda>wr_red. Ok (\<not> wr_red))) (\<lambda>both_black.
     if both_black
     then bindE (set_red h w True) (\<lambda>h1. bindE (get_parent h1 x) (\<lambda>xp. Ok (xp, h1)))
     else bindE (bindE (get_right h w) (get_red h)) (\<lambda>wr_red.
          bindE (if \<not> wr_red
                 then bindE (get_left h w) (\<lambda>wl.
                      bindE (set_red h wl False) (\<lambda>h1.
                      bindE (set_red h1 w True) (\<lambda>h2.
                      bindE (RotateRight nil h2 w) (\<lambda>h3.
                      bindE (get_parent h3 x) (\<lambda>xp'.
                      bindE (get_right h3 xp') (\<lambda>w'. Ok (w', h3)))))))
                 else Ok (w, h)) (\<lambda>(w, h).
          bindE (get_parent h x) (\<lambda>xp.
          bindE (get_red h xp) (\<lambda>xp_red.
          bindE (set_red h w xp_red) (\<lambda>h1.
          bindE (set_red h1 xp False) (\<lambda>h2.
          bindE (get_right h2 w) (\<lambda>wr.
          bindE (set_red h2 wr False) (\<lambda>h3.
          bindE (RotateLeft nil h3 xp) (\<lambda>h4.
          Ok (root, h4))))))))))))))))"

definition RemoveFix_right :: "addr \<Rightarrow> addr \<Rightarrow> ('k, 'v) rbheap \<Rightarrow> addr \<Rightarrow> (addr \<times> ('k, 'v) rbheap) res" where
  "RemoveFix_right nil root h x =
     bindE (get_parent h x) (\<lambda>xp.
     bindE (get_left h xp) (\<lambda>w.
     bindE (get_red h w) (\<lambda>w_red.
     bindE (if w_red
            then bindE (set_red h w False) (\<lambda>h1.
                 bindE (set_red h1 xp True) (\<lambda>h2.
                 bindE (RotateRight nil h2 xp) (\<lambda>h3.
                 bindE (get_parent h3 x) (\<lambda>xp'.
                 bindE (get_left h3 xp') (\<lambda>w'. Ok (w', h3))))))
            else Ok (w, h)) (\<lambda>(w, h).
     bindE (bindE (get_left h w) (get_red h)) (\<lambda>wl_red.
     bindE (if wl_red then Ok False else bindE (bindE (get_right h w) (get_red h)) (\<lambda>wr_red. Ok (\<not> wr_red))) (\<lambda>both_black.
     if both_black
     then bindE (set_red h w True) (\<lambda>h1. bindE (get_parent h1 x) (\<lambda>xp. Ok (xp, h1)))
     else bindE (bindE (get_left h w) (get_red h)) (\<lambda>wl_red.
          bindE (if \<not> wl_red
                 then bindE (get_right h w) (\<lambda>wr.
                      bindE (set_red h wr False) (\<lambda>h1.
                      bindE (set_red h1 w True) (\<lambda>h2.
                      bindE (RotateLeft nil h2 w) (\<lambda>h3.
                      bindE (get_parent h3 x) (\<lambda>xp'.
                      bindE (get_left h3 xp') (\<lambda>w'. Ok (w', h3)))))))
                 else Ok (w, h)) (\<lambda>(w, h).
          bindE (get_parent h x) (\<lambda>xp.
          bindE (get_red h xp) (\<lambda>xp_red.
          bindE (set_red h w xp_red) (\<lambda>h1.
          bindE (set_red h1 xp False) (\<lambda>h2.
          bindE (get_left h2 w) (\<lambda>wl.
          bindE (set_red h2 wl False) (\<lambda>h3.
          bindE (RotateRight nil h3 xp) (\<lambda>h4.
          Ok (root, h4))))))))))))))))"

fun RemoveFix_loop :: "nat \<Rightarrow> addr \<Rightarrow> addr \<Rightarrow> ('k, 'v) rbheap \<Rightarrow> addr \<Rightarrow> ('k, 'v) rbheap res" where
  "RemoveFix_loop 0 nil root h x = Fault OutOfFuel"
| "RemoveFix_loop (Suc fuel) nil root h x =
     bindE (get_red h x) (\<lambda>x_red.
     if x = root \<or> x_red then set_red h x False
     else bindE (bindE (get_parent h x) (get_left h)) (\<lambda>xpl.
          bindE (if x = xpl then RemoveFix_left nil root h x else RemoveFix_right nil root h x) (\<lambda>(x, h1).
          RemoveFix_loop fuel nil root h1 x)))"

definition RemoveFix :: "('k, 'v) RBTree \<Rightarrow> addr \<Rightarrow> ('k, 'v) RBTree res" where
  "RemoveFix tree x =
     bindE (assert_nil_black (rb_heap tree) (rb_nil tree)) (\<lambda>_.
     bindE (get_left (rb_heap tree) (rb_root tree)) (\<lambda>root.
     bindE (RemoveFix_loop (Suc (rb_fresh tree)) (rb_nil tree) root (rb_heap tree) x) (\<lambda>h.
     bindE (assert_nil_black h (rb_nil tree)) (\<lambda>_. Ok (tree\<lparr>rb_heap := h\<rparr>)))))"

text \<open>\<open>y\<close> is taken out, its only child \<open>x\<close> put in its place.\<close>

definition splice_out :: "('k, 'v) RBTree \<Rightarrow> addr \<Rightarrow> addr \<Rightarrow> ('k, 'v) RBTree res" where
  "splice_out tree y x =
     bindE (get_parent (rb_heap tree) y) (\<lambda>yp.
     bindE (set_parent (rb_heap tree) x yp) (\<lambda>h.
     bindE (get_parent h x) (\<lambda>xp.
     bindE (if rb_root tree = xp then set_left h (rb_root tree) x
            else bindE (get_parent h y) (\<lambda>yp.
                 bindE (get_left h yp) (\<lambda>ypl.
                 if y = ypl then set_left h yp x else set_right h yp x))) (\<lambda>h1.
     Ok (tree\<lparr>rb_heap := h1\<rparr>)))))"

text \<open>\<open>y\<close> takes the place of \<open>z\<close>.\<close>

definition put_in_place :: "('k, 'v) rbheap \<Rightarrow> addr \<Rightarrow> addr \<Rightarrow> ('k, 'v) rbheap res" where
  "put_in_place h z y =
     bindE (rd h z) (\<lambda>zn.
     bindE (wr h y (\<lambda>n. n\<lparr>rb_left := rb_left zn, rb_right := rb_right zn, rb_parent := rb_parent zn, rb_red := rb_red zn\<rparr>)) (\<lambda>h1.
     bindE (set_parent h1 (rb_left zn) y) (\<lambda>h2.
     bindE (set_parent h2 (rb_right zn) y) (\<lambda>h3.
     bindE (get_parent h3 z) (\<lambda>zp.
     bindE (get_left h3 zp) (\<lambda>zpl.
     if z = zpl then set_left h3 zp y else set_right h3 zp y))))))"

definition RBTreeRemove :: "('k, 'v) RBTree \<Rightarrow> 'k ptr \<Rightarrow> (bool \<times> ('k, 'v) RBTree \<times> ('k ptr, 'v ptr) gone) res" where
  "RBTreeRemove tree key =
     bindE (assert_nil_black (rb_heap tree) (rb_nil tree)) (\<lambda>_.
     bindE (Get tree key) (\<lambda>z.
     if z = rb_nil tree then Ok (False, tree, [], [])
     else bindE (rd (rb_heap tree) z) (\<lambda>zn.
       bindE (if rb_left zn = rb_nil tree \<or> rb_right zn = rb_nil tree then Ok z else Next tree z) (\<lambda>y.
       bindE (rd (rb_heap tree) y) (\<lambda>yn.
       let x = (if rb_left yn = rb_nil tree then rb_right yn else rb_left yn)
       in bindE (splice_out tree y x) (\<lambda>tree1.
          bindE (get_red (rb_heap tree1) y) (\<lambda>y_red.
          bindE (if z \<noteq> y
                 then bindE (c_assert (y \<noteq> rb_nil tree)) (\<lambda>_. assert_nil_black (rb_heap tree1) (rb_nil tree1))
                 else Ok ()) (\<lambda>_.
          bindE (if \<not> y_red then RemoveFix tree1 x else Ok tree1) (\<lambda>tree2.
          bindE (if z \<noteq> y
                 then bindE (put_in_place (rb_heap tree2) z y) (\<lambda>h. NodeDestroy (tree2\<lparr>rb_heap := h\<rparr>) z)
                 else NodeDestroy tree2 y) (\<lambda>(tree3, gone).
          bindE (assert_nil_black (rb_heap tree3) (rb_nil tree3)) (\<lambda>_.
          if rb_size tree3 = 0 then Fault CounterWrap
          else Ok (True, tree3\<lparr>rb_size := rb_size tree3 - 1\<rparr>, gone))))))))))))"

section \<open>Release\<close>

text \<open>TreeDestroy and ClearRecursive have the same body.\<close>

fun TreeDestroy :: "nat \<Rightarrow> ('k, 'v) RBTree \<Rightarrow> addr \<Rightarrow> (('k, 'v) RBTree \<times> ('k ptr, 'v ptr) gone) res" where
  "TreeDestroy 0 tree x = Fault OutOfFuel"
| "TreeDestroy (Suc fuel) tree x =
     (if x = rb_nil tree then Ok (tree, [], [])
      else bindE (get_left (rb_heap tree) x) (\<lambda>l.
           bindE (TreeDestroy fuel tree l) (\<lambda>(tree1, ks1, vs1).
           bindE (get_right (rb_heap tree1) x) (\<lambda>r.
           bindE (TreeDestroy fuel tree1 r) (\<lambda>(tree2, ks2, vs2).
           bindE (NodeDestroy tree2 x) (\<lambda>(tree3, ks3, vs3).
           Ok (tree3, ks1 @ ks2 @ ks3, vs1 @ vs2 @ vs3)))))))"

definition ClearRecursive :: "nat \<Rightarrow> ('k, 'v) RBTree \<Rightarrow> addr \<Rightarrow> (('k, 'v) RBTree \<times> ('k ptr, 'v ptr) gone) res" where
  "ClearRecursive fuel tree node = TreeDestroy fuel tree node"

definition RBTreeDestroy :: "('k, 'v) RBTree ptr \<Rightarrow> ('k ptr, 'v ptr) gone res" where
  "RBTreeDestroy rb_tree = (case rb_tree of
     NULL \<Rightarrow> Ok ([], [])
   | Ptr tree \<Rightarrow> bindE (get_left (rb_heap tree) (rb_root tree)) (\<lambda>top.
       bindE (TreeDestroy (Suc (rb_fresh tree)) tree top) (\<lambda>(_, gone). Ok gone)))"

text \<open>The sentinel \<open>root\<close> is released like any node, with its NULL key and value, and allocated anew.\<close>

definition RBTreeClear :: "('k, 'v) RBTree \<Rightarrow> (('k, 'v) RBTree \<times> ('k ptr, 'v ptr) gone) res" where
  "RBTreeClear tree = bindE (ClearRecursive (Suc (rb_fresh tree)) tree (rb_root tree)) (\<lambda>(tree1, gone).
     Ok (Reset (tree1\<lparr>rb_root := rb_fresh tree1, rb_fresh := rb_fresh tree1 + 1\<rparr>), gone))"

definition RBTreeSize :: "('k, 'v) RBTree \<Rightarrow> nat" where
  "RBTreeSize tree = rb_size tree"

section \<open>Iteration\<close>

definition RBTreeIteratorNew :: "('k, 'v) RBTree \<Rightarrow> addr res" where
  "RBTreeIteratorNew tree = go_left (rb_fresh tree) (rb_nil tree) (rb_heap tree) (rb_root tree)"

definition Peek :: "('k, 'v) RBTree \<Rightarrow> addr \<Rightarrow> ('k ptr \<times> 'v ptr) option res" where
  "Peek tree current =
     (if rb_size tree = 0 then Ok None
      else if current = rb_nil tree then Ok None
      else bindE (rd (rb_heap tree) current) (\<lambda>n. Ok (Some (rb_key n, rb_value n))))"

definition RBTreeIteratorNext :: "('k, 'v) RBTree \<Rightarrow> addr \<Rightarrow> (('k ptr \<times> 'v ptr) option \<times> addr) res" where
  "RBTreeIteratorNext tree current = bindE (Peek tree current) (\<lambda>entry. case entry of
     None \<Rightarrow> Ok (None, current)
   | Some e \<Rightarrow> bindE (Next tree current) (\<lambda>next. Ok (Some e, next)))"

text \<open>Whether the arguments are the same pointer, and whether the callbacks are, is known to the caller.\<close>

fun RBTreeEqual_loop :: "nat \<Rightarrow> ('k, 'v) RBTree \<Rightarrow> ('k, 'v) RBTree \<Rightarrow> addr \<Rightarrow> addr \<Rightarrow> bool res" where
  "RBTreeEqual_loop 0 a b it_a it_b = Fault OutOfFuel"
| "RBTreeEqual_loop (Suc fuel) a b it_a it_b =
     bindE (RBTreeIteratorNext a it_a) (\<lambda>(ea, it_a). case ea of
       None \<Rightarrow> Ok True
     | Some (a_key, a_val) \<Rightarrow> bindE (RBTreeIteratorNext b it_b) (\<lambda>(eb, it_b). case eb of
         None \<Rightarrow> Ok True
       | Some (b_key, b_val) \<Rightarrow>
           if KeyCompare a a_key b_key \<noteq> 0 \<or> ValueCompare b a_val b_val \<noteq> 0 then Ok False
           else RBTreeEqual_loop fuel a b it_a it_b))"

definition RBTreeEqual :: "bool \<Rightarrow> bool \<Rightarrow> ('k, 'v) RBTree ptr \<Rightarrow> ('k, 'v) RBTree ptr \<Rightarrow> bool res" where
  "RBTreeEqual same_pointer same_callbacks a b = (case (a, b) of
     (NULL, NULL) \<Rightarrow> Ok True
   | (Ptr a, Ptr b) \<Rightarrow>
       if same_pointer then Ok True
       else if \<not> same_callbacks then Ok False
       else if RBTreeSize a \<noteq> RBTreeSize b then Ok False
       else bindE (RBTreeIteratorNew a) (\<lambda>it_a. bindE (RBTreeIteratorNew b) (\<lambda>it_b.
            RBTreeEqual_loop (Suc (rb_size a)) a b it_a it_b))
   | _ \<Rightarrow> Ok False)"

section \<open>Verification and copies\<close>

fun VerifyNode :: "nat \<Rightarrow> ('k, 'v) RBTree \<Rightarrow> addr \<Rightarrow> int \<Rightarrow> int \<Rightarrow> int res" where
  "VerifyNode 0 tree node black_count path_black_count = Fault OutOfFuel"
| "VerifyNode (Suc fuel) tree node black_count path_black_count =
     bindE (rd (rb_heap tree) node) (\<lambda>n.
     bindE (if rb_red n
            then bindE (get_red (rb_heap tree) (rb_left n)) (\<lambda>l. bindE (c_assert (\<not> l)) (\<lambda>_.
                 bindE (get_red (rb_heap tree) (rb_right n)) (\<lambda>r. bindE (c_assert (\<not> r)) (\<lambda>_. Ok black_count))))
            else Ok (black_count + 1)) (\<lambda>black_count.
     if node = rb_nil tree
     then bindE (c_assert (\<not> rb_red n)) (\<lambda>_.
          if path_black_count = - 1 then Ok black_count
          else bindE (c_assert (black_count = path_black_count)) (\<lambda>_. Ok path_black_count))
     else bindE (VerifyNode fuel tree (rb_left n) black_count path_black_count) (\<lambda>path_black_count.
          VerifyNode fuel tree (rb_right n) black_count path_black_count)))"

definition verify_sentinel :: "('k, 'v) RBTree \<Rightarrow> addr \<Rightarrow> unit res" where
  "verify_sentinel tree a = bindE (rd (rb_heap tree) a) (\<lambda>n.
     bindE (c_assert (\<not> rb_red n)) (\<lambda>_. bindE (c_assert (rb_key n = NULL)) (\<lambda>_. c_assert (rb_value n = NULL))))"

definition VerifyTree :: "('k, 'v) RBTree \<Rightarrow> unit res" where
  "VerifyTree tree =
     bindE (verify_sentinel tree (rb_root tree)) (\<lambda>_.
     bindE (verify_sentinel tree (rb_nil tree)) (\<lambda>_.
     bindE (get_left (rb_heap tree) (rb_root tree)) (\<lambda>top.
     bindE (VerifyNode (Suc (rb_fresh tree)) tree top 0 (- 1)) (\<lambda>_. Ok ()))))"

text \<open>The first loop of RBTreeCopy; the block \<open>nodes\<close> has as many cells as the tree has nodes.\<close>

fun RBTreeCopy_collect :: "nat \<Rightarrow> ('k, 'v) RBTree \<Rightarrow> ('k ptr \<Rightarrow> 'v ptr \<Rightarrow> bool) ptr \<Rightarrow> addr \<Rightarrow> addr carray \<Rightarrow> nat
    \<Rightarrow> (addr carray \<times> nat) res" where
  "RBTreeCopy_collect 0 tree filter_fn current nodes node_count = Fault OutOfFuel"
| "RBTreeCopy_collect (Suc fuel) tree filter_fn current nodes node_count =
     (if current = rb_nil tree then Ok (nodes, node_count)
      else bindE (rd (rb_heap tree) current) (\<lambda>n.
           bindE (if (case filter_fn of NULL \<Rightarrow> True | Ptr f \<Rightarrow> f (rb_key n) (rb_value n))
                  then bindE (cwrite nodes node_count current) (\<lambda>nodes. Ok (nodes, node_count + 1))
                  else Ok (nodes, node_count)) (\<lambda>(nodes, node_count).
           bindE (Next tree current) (\<lambda>next. RBTreeCopy_collect fuel tree filter_fn next nodes node_count))))"

definition put_node :: "('k, 'v) RBTree \<Rightarrow> addr carray \<Rightarrow> nat \<Rightarrow> ('k, 'v) RBTree \<Rightarrow> ('k, 'v) RBTree res" where
  "put_node tree nodes i copy = bindE (cread nodes i) (\<lambda>a. bindE (rd (rb_heap tree) a) (\<lambda>n.
     bindE (RBTreePut copy (rb_key n) (rb_value n)) (\<lambda>(_, copy, _). Ok copy)))"

fun RBTreeCopy_loop :: "('k, 'v) RBTree \<Rightarrow> addr carray \<Rightarrow> nat \<Rightarrow> nat \<Rightarrow> nat \<Rightarrow> ('k, 'v) RBTree \<Rightarrow> ('k, 'v) RBTree res" where
  "RBTreeCopy_loop tree nodes half 0 i copy = Ok copy"
| "RBTreeCopy_loop tree nodes half (Suc n) i copy =
     bindE (put_node tree nodes (half + i) copy) (\<lambda>copy.
     bindE (put_node tree nodes (half - i - 1) copy) (\<lambda>copy.
     RBTreeCopy_loop tree nodes half n (i + 1) copy))"

definition RBTreeCopy :: "('k ptr \<Rightarrow> 64 word) \<Rightarrow> ('v ptr \<Rightarrow> 64 word) \<Rightarrow> ('k, 'v) RBTree \<Rightarrow> ('k ptr \<Rightarrow> 'v ptr \<Rightarrow> bool) ptr \<Rightarrow> ('k, 'v) RBTree res" where
  "RBTreeCopy key_address value_address tree filter_fn =
     bindE (RBTreeIteratorNew tree) (\<lambda>current.
     bindE (RBTreeCopy_collect (rb_fresh tree) tree filter_fn current (xmalloc (rb_size tree)) 0) (\<lambda>(nodes, node_count).
     let copy = RBTreeNew key_address value_address (Ptr (KeyCopy tree)) (Ptr (KeyCompare tree)) (Ptr (KeyDestroy tree))
         (Ptr (ValueCopy tree)) (Ptr (ValueCompare tree)) (Ptr (ValueDestroy tree))
     in bindE (if node_count mod 2 \<noteq> 0
               then bindE (put_node tree nodes (node_count div 2) copy) (\<lambda>copy. Ok (copy, node_count - 1))
               else Ok (copy, node_count)) (\<lambda>(copy, node_count).
        bindE (c_assert (node_count mod 2 = 0)) (\<lambda>_.
        bindE (RBTreeCopy_loop tree nodes (node_count div 2) (node_count div 2) 0 copy) (\<lambda>copy.
        bindE (VerifyTree copy) (\<lambda>_. Ok copy))))))"

end
