(* ===== verification/RbZipper.thy ===== *)
theory RbZipper
  imports RbTree "HOL-Library.Tree"
begin

text \<open>
  Positions in the tree of rb-tree.c. A zipper is a subtree with the frames above it; moving the focus
  along a parent or child pointer changes the zipper but not the tree it stands for. \<open>zip_rep\<close> relates a
  zipper to the store, and the pointer operations of the code (colouring, rotation, linking) are shown
  once to act on zippers. Left and right are treated alike: \<open>mk Lft n i f\<close> has \<open>n\<close> on the left.
  The colour and black-height conditions of a red-black tree are stated for subtrees (\<open>rbt\<close>) and for
  frames (\<open>ctx_ok\<close>).
\<close>

section \<open>Trees and frames\<close>

datatype side = Lft | Rgt

fun opp :: "side \<Rightarrow> side" where
  "opp Lft = Rgt"
| "opp Rgt = Lft"

type_synonym 'e nd = "addr \<times> bool \<times> 'e"

definition mk :: "side \<Rightarrow> 'e nd tree \<Rightarrow> 'e nd \<Rightarrow> 'e nd tree \<Rightarrow> 'e nd tree" where
  "mk d near i far = (case d of Lft \<Rightarrow> Node near i far | Rgt \<Rightarrow> Node far i near)"

datatype 'e frame = Fr side "'e nd" "'e nd tree"

fun plug :: "'e nd tree \<Rightarrow> 'e frame list \<Rightarrow> 'e nd tree" where
  "plug t [] = t"
| "plug t (Fr d i s # C) = plug (mk d t i s) C"

lemma mk_opp: "mk (opp d) n i f = mk d f i n"
  by (cases d) (simp_all add: mk_def)

lemma opp_opp [simp]: "opp (opp d) = d" "opp d \<noteq> d" "d \<noteq> opp d"
  by (cases d; simp)+

lemma not_side: "d \<noteq> e \<longleftrightarrow> d = opp e"
  by (cases d; cases e) simp_all

lemma mk_ex: "t \<noteq> Leaf \<Longrightarrow> \<exists>n a c e f. t = mk d n (a, c, e) f"
proof (cases t)
  case (Node l i r)
  obtain a c e where "i = (a, c, e)" by (rule prod_cases3)
  then have "t = mk Lft l (a, c, e) r" "t = mk Rgt r (a, c, e) l" using Node by (simp_all add: mk_def)
  then show ?thesis by (cases d) blast+
qed simp

fun is_red :: "'e nd tree \<Rightarrow> bool" where
  "is_red Leaf = False"
| "is_red (Node l (a, c, e) r) = c"

fun blacken :: "'e nd tree \<Rightarrow> 'e nd tree" where
  "blacken Leaf = Leaf"
| "blacken (Node l (a, c, e) r) = Node l (a, False, e) r"

lemma mk_simps [simp]:
  "is_red (mk d n (a, c, e) f) = c" "blacken (mk d n (a, c, e) f) = mk d n (a, False, e) f" "mk d n i f \<noteq> Leaf"
  by (cases d; simp add: mk_def)+

text \<open>What the tree holds, from left to right: the addresses and entries of the nodes.\<close>

definition cont :: "'e nd tree \<Rightarrow> (addr \<times> 'e) list" where
  "cont t = map (\<lambda>(a, c, e). (a, e)) (inorder t)"

fun lcont :: "'e frame list \<Rightarrow> (addr \<times> 'e) list" where
  "lcont [] = []"
| "lcont (Fr d (a, c, e) s # C) = lcont C @ (case d of Lft \<Rightarrow> [] | Rgt \<Rightarrow> cont s @ [(a, e)])"

fun rcont :: "'e frame list \<Rightarrow> (addr \<times> 'e) list" where
  "rcont [] = []"
| "rcont (Fr d (a, c, e) s # C) = (case d of Lft \<Rightarrow> (a, e) # cont s | Rgt \<Rightarrow> []) @ rcont C"

lemma cont_simps [simp]: "cont Leaf = []" "cont (Node l (a, c, e) r) = cont l @ (a, e) # cont r"
  by (simp_all add: cont_def)

lemma cont_mk: "cont (mk d n (a, c, e) f) = (case d of Lft \<Rightarrow> cont n @ (a, e) # cont f | Rgt \<Rightarrow> cont f @ (a, e) # cont n)"
  by (cases d) (simp_all add: mk_def)

lemma cont_blacken [simp]: "cont (blacken t) = cont t"
  by (cases t rule: blacken.cases) simp_all

lemma cont_plug: "cont (plug t C) = lcont C @ cont t @ rcont C"
  by (induction t C rule: plug.induct) (auto simp: cont_mk split: side.splits prod.splits)

lemma plug_append: "plug t (C @ D) = plug (plug t C) D"
  by (induction t C rule: plug.induct) auto

section \<open>Red-black trees\<close>

fun bh :: "'e nd tree \<Rightarrow> nat" where
  "bh Leaf = 0"
| "bh (Node l (a, c, e) r) = bh l + (if c then 0 else 1)"

fun rbt :: "'e nd tree \<Rightarrow> bool" where
  "rbt Leaf = True"
| "rbt (Node l (a, c, e) r) \<longleftrightarrow> rbt l \<and> rbt r \<and> bh l = bh r \<and> (c \<longrightarrow> \<not> is_red l \<and> \<not> is_red r)"

text \<open>The top of the tree must not be red, so the empty list of frames counts as red.\<close>

fun top_red :: "'e frame list \<Rightarrow> bool" where
  "top_red [] = True"
| "top_red (Fr d (a, c, e) s # C) = c"

text \<open>The frames accept a subtree of black height \<open>n\<close>, if its colour fits the first frame.\<close>

fun ctx_ok :: "'e frame list \<Rightarrow> nat \<Rightarrow> bool" where
  "ctx_ok [] n = True"
| "ctx_ok (Fr d (a, c, e) s # C) n \<longleftrightarrow> rbt s \<and> bh s = n \<and> (c \<longrightarrow> \<not> is_red s \<and> \<not> top_red C) \<and> ctx_ok C (n + (if c then 0 else 1))"

lemma rbt_mk: "rbt (mk d n (a, c, e) f) \<longleftrightarrow> rbt n \<and> rbt f \<and> bh n = bh f \<and> (c \<longrightarrow> \<not> is_red n \<and> \<not> is_red f)"
  by (cases d) (auto simp: mk_def)

lemma bh_mk: "bh n = bh f \<Longrightarrow> bh (mk d n (a, c, e) f) = bh n + (if c then 0 else 1)"
  by (cases d) (simp_all add: mk_def)

lemma rbt_blacken [simp]: "rbt t \<Longrightarrow> rbt (blacken t)"
  by (cases t rule: blacken.cases) auto

lemma bh_blacken [simp]: "bh (blacken t) = bh t + (if is_red t then 1 else 0)"
  by (cases t rule: blacken.cases) auto

lemma black_blacken [simp]: "\<not> is_red (blacken t)"
  by (cases t rule: blacken.cases) auto

lemma blacken_id: "\<not> is_red t \<Longrightarrow> blacken t = t"
  by (cases t rule: blacken.cases) auto

lemma rbt_plug:
  "rbt t \<Longrightarrow> ctx_ok C (bh t) \<Longrightarrow> \<not> (is_red t \<and> top_red C) \<Longrightarrow> rbt (plug t C) \<and> \<not> is_red (plug t C)"
proof (induction C arbitrary: t)
  case (Cons F C)
  obtain d a c e s where F: "F = Fr d (a, c, e) s" by (metis frame.exhaust prod_cases3)
  have "rbt (mk d t (a, c, e) s)" "bh (mk d t (a, c, e) s) = bh t + (if c then 0 else 1)"
    using Cons.prems by (auto simp: F rbt_mk bh_mk)
  then show ?case using Cons.IH [of "mk d t (a, c, e) s"] Cons.prems by (auto simp: F)
qed simp

section \<open>The steps of insertion and removal\<close>

text \<open>Insertion: a red uncle.\<close>

lemma put_recolour:
  assumes "rbt t" "is_red t" "ctx_ok (Fr d (p, True, ep) s # Fr e (g, cg, eg) u # C) (bh t)" "is_red u"
  shows "rbt (mk e (mk d t (p, False, ep) s) (g, True, eg) (blacken u)) \<and>
    ctx_ok C (bh (mk e (mk d t (p, False, ep) s) (g, True, eg) (blacken u)))"
  using assms by (auto simp: rbt_mk bh_mk split: if_splits)

text \<open>Insertion: a black uncle, for an outer and an inner grandchild.\<close>

lemma put_outer:
  assumes "rbt t" "is_red t" "ctx_ok (Fr e (p, True, ep) s # Fr e (g, cg, eg) u # C) (bh t)" "\<not> is_red u"
  shows "rbt (mk e t (p, False, ep) (mk e s (g, True, eg) u)) \<and> ctx_ok C (bh (mk e t (p, False, ep) (mk e s (g, True, eg) u)))"
  using assms by (auto simp: rbt_mk bh_mk split: if_splits)

lemma put_inner:
  assumes "rbt (mk e n (z, True, ez) f)" "ctx_ok (Fr (opp e) (p, True, ep) s # Fr e (g, cg, eg) u # C) (bh (mk e n (z, True, ez) f))" "\<not> is_red u"
  shows "rbt (mk e (mk e s (p, True, ep) n) (z, False, ez) (mk e f (g, True, eg) u)) \<and>
    ctx_ok C (bh (mk e (mk e s (p, True, ep) n) (z, False, ez) (mk e f (g, True, eg) u)))"
  using assms by (auto simp: rbt_mk bh_mk split: if_splits)

text \<open>Removal: the subtree \<open>t\<close> lacks one black node.\<close>

lemma del_red_sibling:
  assumes "ctx_ok (Fr d (p, cp, ep) (mk d n (w, True, ew) f) # C) (Suc k)"
  shows "ctx_ok (Fr d (p, True, ep) n # Fr d (w, False, ew) f # C) (Suc k) \<and> \<not> is_red n"
  using assms by (auto simp: rbt_mk bh_mk)

lemma del_both_black:
  assumes "rbt t" "\<not> is_red t" "ctx_ok (Fr d (p, cp, ep) (mk d n (w, False, ew) f) # C) (Suc (bh t))" "\<not> is_red n" "\<not> is_red f"
  shows "rbt (blacken (mk d t (p, cp, ep) (mk d n (w, True, ew) f))) \<and> ctx_ok C (Suc (bh (mk d t (p, cp, ep) (mk d n (w, True, ew) f))))"
  using assms by (auto simp: rbt_mk bh_mk)

lemma del_far_red:
  assumes "rbt t" "ctx_ok (Fr d (p, cp, ep) (mk d n (w, False, ew) f) # C) (Suc (bh t))" "is_red f"
  shows "rbt (mk d (mk d t (p, False, ep) n) (w, cp, ew) (blacken f)) \<and>
    ctx_ok C (bh (mk d (mk d t (p, False, ep) n) (w, cp, ew) (blacken f))) \<and> \<not> (cp \<and> top_red C)"
  using assms by (auto simp: rbt_mk bh_mk)

lemma del_near_red:
  assumes "ctx_ok (Fr d (p, cp, ep) (mk d (mk d n1 (n, True, en) n2) (w, False, ew) f) # C) (Suc k)" "\<not> is_red f"
  shows "ctx_ok (Fr d (p, cp, ep) (mk d n1 (n, False, en) (mk d n2 (w, True, ew) f)) # C) (Suc k)"
  using assms by (auto simp: rbt_mk bh_mk)

section \<open>The store\<close>

definition adr :: "addr \<Rightarrow> 'e nd tree \<Rightarrow> addr" where
  "adr nil t = (case t of Leaf \<Rightarrow> nil | Node l i r \<Rightarrow> fst i)"

fun adrs :: "'e nd tree \<Rightarrow> addr list" where
  "adrs Leaf = []"
| "adrs (Node l (a, c, e) r) = a # adrs l @ adrs r"

fun top :: "addr \<Rightarrow> 'e frame list \<Rightarrow> addr" where
  "top root [] = root"
| "top root (Fr d (a, c, e) s # C) = a"

fun ctx_adrs :: "'e frame list \<Rightarrow> addr list" where
  "ctx_adrs [] = []"
| "ctx_adrs (Fr d (a, c, e) s # C) = a # adrs s @ ctx_adrs C"

definition node :: "side \<Rightarrow> bool \<Rightarrow> 'k ptr \<times> 'v ptr \<Rightarrow> addr \<Rightarrow> addr \<Rightarrow> addr \<Rightarrow> ('k, 'v) RBNode" where
  "node d c e p near far = \<lparr>rb_key = fst e, rb_value = snd e, rb_red = c, rb_parent = p,
     rb_left = (case d of Lft \<Rightarrow> near | Rgt \<Rightarrow> far), rb_right = (case d of Lft \<Rightarrow> far | Rgt \<Rightarrow> near)\<rparr>"

fun tree_rep :: "('k, 'v) rbheap \<Rightarrow> addr \<Rightarrow> addr \<Rightarrow> ('k ptr \<times> 'v ptr) nd tree \<Rightarrow> bool" where
  "tree_rep h nil p Leaf = True"
| "tree_rep h nil p (Node l (a, c, e) r) \<longleftrightarrow>
     h a = Some (node Lft c e p (adr nil l) (adr nil r)) \<and> tree_rep h nil a l \<and> tree_rep h nil a r"

fun ctx_rep :: "('k, 'v) rbheap \<Rightarrow> addr \<Rightarrow> addr \<Rightarrow> addr \<Rightarrow> ('k ptr \<times> 'v ptr) frame list \<Rightarrow> bool" where
  "ctx_rep h nil root x [] \<longleftrightarrow> h root = Some ((sentinel nil)\<lparr>rb_left := x\<rparr>)"
| "ctx_rep h nil root x (Fr d (a, c, e) s # C) \<longleftrightarrow>
     h a = Some (node d c e (top root C) x (adr nil s)) \<and> tree_rep h nil a s \<and> ctx_rep h nil root a C"

definition nil_ok :: "('k, 'v) rbheap \<Rightarrow> addr \<Rightarrow> bool" where
  "nil_ok h nil \<longleftrightarrow> (\<exists>p. h nil = Some ((sentinel nil)\<lparr>rb_parent := p\<rparr>))"

definition zip_rep :: "('k, 'v) rbheap \<Rightarrow> addr \<Rightarrow> addr \<Rightarrow> ('k ptr \<times> 'v ptr) nd tree \<Rightarrow> ('k ptr \<times> 'v ptr) frame list \<Rightarrow> bool" where
  "zip_rep h nil root t C \<longleftrightarrow> tree_rep h nil (top root C) t \<and> ctx_rep h nil root (adr nil t) C \<and> nil_ok h nil
     \<and> distinct (nil # root # adrs t @ ctx_adrs C)"

text \<open>The nodes that an operation on a zipper may change.\<close>

definition zone :: "addr \<Rightarrow> 'e nd tree \<Rightarrow> 'e frame list \<Rightarrow> addr set" where
  "zone root t C = insert root (set (adrs t) \<union> set (ctx_adrs C))"

definition same_off :: "addr set \<Rightarrow> ('k, 'v) rbheap \<Rightarrow> ('k, 'v) rbheap \<Rightarrow> bool" where
  "same_off S h h' \<longleftrightarrow> (\<forall>q. q \<notin> S \<longrightarrow> h' q = h q)"

lemma same_off_trans: "same_off S h h1 \<Longrightarrow> same_off S h1 h2 \<Longrightarrow> same_off S h h2"
  by (simp add: same_off_def)

lemma same_off_refl [simp]: "same_off S h h"
  by (simp add: same_off_def)

lemma same_off_upd [simp]: "a \<in> S \<Longrightarrow> same_off S h (h'(a := n)) \<longleftrightarrow> same_off S h h'"
  by (auto simp: same_off_def)

lemma adr_simps [simp]: "adr nil Leaf = nil" "adr nil (mk d n (a, c, e) f) = a" "adr nil (Node l (a, c, e) r) = a"
  by (cases d; simp add: adr_def mk_def)+

lemma tree_rep_mk:
  "tree_rep h nil p (mk d n (a, c, e) f) \<longleftrightarrow>
     h a = Some (node d c e p (adr nil n) (adr nil f)) \<and> tree_rep h nil a n \<and> tree_rep h nil a f"
  by (cases d) (auto simp: mk_def node_def)

lemma adrs_mk: "mset (adrs (mk d n (a, c, e) f)) = add_mset a (mset (adrs n) + mset (adrs f))"
  by (cases d) (auto simp: mk_def)

lemma set_adrs_mk [simp]: "set (adrs (mk d n (a, c, e) f)) = insert a (set (adrs n) \<union> set (adrs f))"
  by (cases d) (auto simp: mk_def)

lemma distinct_mk [simp]:
  "distinct (adrs (mk d n (a, c, e) f)) \<longleftrightarrow> a \<notin> set (adrs n) \<and> a \<notin> set (adrs f) \<and> distinct (adrs n) \<and> distinct (adrs f)
     \<and> set (adrs n) \<inter> set (adrs f) = {}"
  by (cases d) (auto simp: mk_def)

lemma zip_up: "zip_rep h nil root t (Fr d (a, c, e) s # C) \<longleftrightarrow> zip_rep h nil root (mk d t (a, c, e) s) C"
  by (auto simp: zip_rep_def tree_rep_mk)

lemma zone_up [simp]: "zone root t (Fr d (a, c, e) s # C) = zone root (mk d t (a, c, e) s) C"
  by (auto simp: zone_def)

lemma adrs_cont: "set (adrs t) = fst ` set (cont t)"
  by (induction t rule: adrs.induct) auto

lemma tree_rep_frame: "tree_rep h nil p t \<Longrightarrow> (\<And>a. a \<in> set (adrs t) \<Longrightarrow> h' a = h a) \<Longrightarrow> tree_rep h' nil p t"
  by (induction h nil p t rule: tree_rep.induct) auto

lemma ctx_rep_frame:
  "ctx_rep h nil root x C \<Longrightarrow> (\<And>a. a \<in> set (ctx_adrs C) \<Longrightarrow> h' a = h a) \<Longrightarrow> h' root = h root \<Longrightarrow> ctx_rep h' nil root x C"
  by (induction h nil root x C rule: ctx_rep.induct) (auto elim: tree_rep_frame)

lemma tree_rep_upd [simp]: "a \<notin> set (adrs t) \<Longrightarrow> tree_rep (h(a := n)) nil p t \<longleftrightarrow> tree_rep h nil p t"
  by (auto elim!: tree_rep_frame)

lemma ctx_rep_upd [simp]: "a \<notin> set (ctx_adrs C) \<Longrightarrow> a \<noteq> root \<Longrightarrow> ctx_rep (h(a := n)) nil root x C \<longleftrightarrow> ctx_rep h nil root x C"
  by (auto elim!: ctx_rep_frame)

lemma nil_ok_upd [simp]: "a \<noteq> nil \<Longrightarrow> nil_ok (h(a := n)) nil \<longleftrightarrow> nil_ok h nil"
  by (simp add: nil_ok_def)

section \<open>Reading and writing nodes\<close>

definition get_near :: "side \<Rightarrow> ('k, 'v) rbheap \<Rightarrow> addr \<Rightarrow> addr res" where
  "get_near d = (case d of Lft \<Rightarrow> get_left | Rgt \<Rightarrow> get_right)"

definition set_near :: "side \<Rightarrow> ('k, 'v) rbheap \<Rightarrow> addr \<Rightarrow> addr \<Rightarrow> ('k, 'v) rbheap res" where
  "set_near d = (case d of Lft \<Rightarrow> set_left | Rgt \<Rightarrow> set_right)"

abbreviation get_far :: "side \<Rightarrow> ('k, 'v) rbheap \<Rightarrow> addr \<Rightarrow> addr res" where
  "get_far d \<equiv> get_near (opp d)"

abbreviation set_far :: "side \<Rightarrow> ('k, 'v) rbheap \<Rightarrow> addr \<Rightarrow> addr \<Rightarrow> ('k, 'v) rbheap res" where
  "set_far d \<equiv> set_near (opp d)"

lemma node_opp: "node (opp d) c e p n f = node d c e p f n"
  by (cases d) (simp_all add: node_def)

lemma node_fields [simp]:
  "rb_red (node d c e p n f) = c" "rb_parent (node d c e p n f) = p" "rb_key (node d c e p n f) = fst e" "rb_value (node d c e p n f) = snd e"
  "(node d c e p n f)\<lparr>rb_red := c'\<rparr> = node d c' e p n f" "(node d c e p n f)\<lparr>rb_parent := p'\<rparr> = node d c e p' n f"
  by (simp_all add: node_def)

lemma node_eval:
  assumes "h a = Some (node d c e p n f)"
  shows "get_near d h a = Ok n" "get_far d h a = Ok f" "get_parent h a = Ok p" "get_red h a = Ok c" "rd h a = Ok (node d c e p n f)"
    "set_near d h a x = Ok (h(a \<mapsto> node d c e p x f))" "set_far d h a x = Ok (h(a \<mapsto> node d c e p n x))"
    "set_parent h a q = Ok (h(a \<mapsto> node d c e q n f))" "set_red h a b = Ok (h(a \<mapsto> node d b e p n f))"
  using assms
  by (cases d; simp add: get_near_def get_left_def get_right_def get_parent_def get_red_def set_near_def set_left_def set_right_def
    set_parent_def set_red_def wr_def rd_def node_def)+

lemma nil_black: "nil_ok h nil \<Longrightarrow> assert_nil_black h nil = Ok ()" "nil_ok h nil \<Longrightarrow> get_red h nil = Ok False"
  by (auto simp: nil_ok_def assert_nil_black_def get_red_def rd_def sentinel_def)

text \<open>The parent of a subtree.\<close>

lemma set_parent_tree:
  assumes "tree_rep h nil p t" "distinct (adrs t)" "nil \<notin> set (adrs t)"
  shows "\<exists>h'. (if adr nil t \<noteq> nil then set_parent h (adr nil t) q else Ok h) = Ok h' \<and> tree_rep h' nil q t
    \<and> (\<forall>a. a \<notin> set (adrs t) \<longrightarrow> h' a = h a)"
proof (cases t rule: adrs.cases)
  case (2 l a c e r)
  then have "set_parent h a q = Ok (h(a \<mapsto> node Lft c e q (adr nil l) (adr nil r)))"
    using assms(1) by (simp add: node_eval [where d = Lft])
  then show ?thesis using 2 assms by auto
qed simp

text \<open>The child pointer above a subtree: \<open>if (x == xp->left) xp->left = y; else xp->right = y;\<close>.\<close>

definition relink :: "('k, 'v) rbheap \<Rightarrow> addr \<Rightarrow> addr \<Rightarrow> addr \<Rightarrow> ('k, 'v) rbheap res" where
  "relink h x xp y = bindE (get_left h xp) (\<lambda>l. if x = l then set_left h xp y else set_right h xp y)"

fun not_left_sibling :: "addr \<Rightarrow> addr \<Rightarrow> 'e frame list \<Rightarrow> bool" where
  "not_left_sibling nil x (Fr Rgt i s # C) \<longleftrightarrow> x \<noteq> adr nil s"
| "not_left_sibling nil x C = True"

lemma relink_ctx:
  assumes "ctx_rep h nil root x C" "not_left_sibling nil x C" "distinct (root # ctx_adrs C)"
  shows "\<exists>h'. relink h x (top root C) y = Ok h' \<and> ctx_rep h' nil root y C \<and> (\<forall>a. a \<noteq> top root C \<longrightarrow> h' a = h a)"
proof (cases C rule: ctx_adrs.cases)
  case 1
  then show ?thesis using assms(1)
    by (simp add: relink_def get_left_def set_left_def wr_def rd_def sentinel_def)
next
  case (2 d a c e s C')
  then have a: "h a = Some (node d c e (top root C') x (adr nil s))" using assms(1) by simp
  have "relink h x a y = Ok (h(a \<mapsto> node d c e (top root C') y (adr nil s)))"
    using a assms(2) 2 by (cases d) (auto simp: relink_def get_left_def set_left_def set_right_def wr_def rd_def node_def)
  then show ?thesis using assms(1,3) 2 by auto
qed

section \<open>Rotations\<close>

definition Rotate :: "side \<Rightarrow> addr \<Rightarrow> ('k, 'v) rbheap \<Rightarrow> addr \<Rightarrow> ('k, 'v) rbheap res" where
  "Rotate d = (case d of Lft \<Rightarrow> RotateLeft | Rgt \<Rightarrow> RotateRight)"

lemma Rotate_steps:
  "Rotate d nil h x =
     bindE (assert_nil_black h nil) (\<lambda>_. bindE (get_far d h x) (\<lambda>y. bindE (get_near d h y) (\<lambda>b. bindE (set_far d h x b) (\<lambda>h1.
     bindE (if b \<noteq> nil then set_parent h1 b x else Ok h1) (\<lambda>h2. bindE (get_parent h2 x) (\<lambda>xp. bindE (set_parent h2 y xp) (\<lambda>h3.
     bindE (relink h3 x xp y) (\<lambda>h4. bindE (set_near d h4 y x) (\<lambda>h5. bindE (set_parent h5 x y) (\<lambda>h6.
     bindE (assert_nil_black h6 nil) (\<lambda>_. Ok h6)))))))))))"
  by (cases d) (simp_all add: Rotate_def RotateLeft_def RotateRight_def get_near_def set_near_def relink_def bindE_assoc)

lemma top_in: "top root C \<in> insert root (set (ctx_adrs C))"
  by (cases C rule: ctx_adrs.cases) auto

lemma top_neq: "x \<notin> set (ctx_adrs C) \<Longrightarrow> root \<noteq> x \<Longrightarrow> top root C \<noteq> x"
  using top_in [of root C] by auto

lemma top_notin: "A \<inter> insert root (set (ctx_adrs C)) = {} \<Longrightarrow> top root C \<notin> A"
  using top_in [of root C] by (auto simp: disjoint_iff)

lemma adr_in: "t \<noteq> Leaf \<Longrightarrow> adr nil t \<in> set (adrs t)"
  by (cases t rule: adrs.cases) auto

lemma not_left_siblingI: "x \<notin> set (ctx_adrs C) \<Longrightarrow> x \<noteq> nil \<Longrightarrow> not_left_sibling nil x C"
proof (cases "(nil, x, C)" rule: not_left_sibling.cases)
  case (1 nil' x' i s C')
  moreover assume "x \<notin> set (ctx_adrs C)" "x \<noteq> nil"
  ultimately show ?thesis using adr_in [of s nil] by (cases i; cases "s = Leaf") auto
qed auto

lemma rotation_distinct:
  assumes "distinct (nil # root # adrs (mk d a (x, cx, ex) (mk d b (y, cy, ey) c)) @ ctx_adrs C)"
  shows "distinct (adrs b)" "distinct (root # ctx_adrs C)" "x \<notin> set (adrs b)" "x \<notin> set (ctx_adrs C)" "y \<notin> set (ctx_adrs C)"
    "y \<notin> set (adrs b)" "x \<noteq> y" "root \<noteq> x" "root \<noteq> y" "nil \<notin> set (adrs b)" "x \<noteq> nil" "y \<noteq> nil" "nil \<noteq> root" "nil \<notin> set (ctx_adrs C)"
    "x \<notin> set (adrs a)" "x \<notin> set (adrs c)" "y \<notin> set (adrs a)" "y \<notin> set (adrs c)"
    "set (adrs b) \<inter> insert root (set (ctx_adrs C)) = {}" "set (adrs b) \<inter> set (adrs a) = {}" "set (adrs b) \<inter> set (adrs c) = {}"
    "set (adrs a) \<inter> insert root (set (ctx_adrs C)) = {}" "set (adrs c) \<inter> insert root (set (ctx_adrs C)) = {}"
    "distinct (nil # root # adrs (mk d (mk d a (x, cx, ex) b) (y, cy, ey) c) @ ctx_adrs C)"
  using assms by (simp_all add: Int_Un_distrib Int_Un_distrib2 Int_commute)

lemma Rotate_zip:
  assumes "zip_rep h nil root (mk d a (x, cx, ex) (mk d b (y, cy, ey) c)) C"
  shows "\<exists>h'. Rotate d nil h x = Ok h' \<and> zip_rep h' nil root (mk d (mk d a (x, cx, ex) b) (y, cy, ey) c) C
    \<and> same_off (zone root (mk d a (x, cx, ex) (mk d b (y, cy, ey) c)) C) h h'"
proof -
  let ?p = "top root C"
  have rep: "tree_rep h nil ?p (mk d a (x, cx, ex) (mk d b (y, cy, ey) c))" and ctx: "ctx_rep h nil root x C" and nil: "nil_ok h nil"
    and dist: "distinct (nil # root # adrs (mk d a (x, cx, ex) (mk d b (y, cy, ey) c)) @ ctx_adrs C)"
    using assms unfolding zip_rep_def by simp_all
  from rep have hx: "h x = Some (node d cx ex ?p (adr nil a) y)" and hy: "h y = Some (node d cy ey x (adr nil b) (adr nil c))"
    and sub: "tree_rep h nil x a" "tree_rep h nil y b" "tree_rep h nil y c" by (simp_all add: tree_rep_mk)
  note ds = rotation_distinct [OF dist]
  have p: "?p \<noteq> x" "?p \<noteq> y" "?p \<noteq> nil" "?p \<notin> set (adrs a)" "?p \<notin> set (adrs b)" "?p \<notin> set (adrs c)"
    using top_neq [OF ds(4,8)] top_neq [OF ds(5,9)] top_neq [OF ds(14), of root] ds(13) top_notin [OF ds(22)] top_notin [OF ds(19)]
      top_notin [OF ds(23)] by simp_all
  let ?h1 = "h(x \<mapsto> node d cx ex ?p (adr nil a) (adr nil b))"
  have "tree_rep ?h1 nil y b" using sub(2) ds(3) by simp
  from set_parent_tree [OF this ds(1,10), of x] obtain h2 where
    h2: "(if adr nil b \<noteq> nil then set_parent ?h1 (adr nil b) x else Ok ?h1) = Ok h2" "tree_rep h2 nil x b"
      "\<forall>q. q \<notin> set (adrs b) \<longrightarrow> h2 q = ?h1 q" by blast
  have h2x: "h2 x = Some (node d cx ex ?p (adr nil a) (adr nil b))" and h2y: "h2 y = Some (node d cy ey x (adr nil b) (adr nil c))"
    using h2(3) hy ds(3,6,7) by simp_all
  let ?h3 = "h2(y \<mapsto> node d cy ey ?p (adr nil b) (adr nil c))"
  have "ctx_rep ?h3 nil root x C"
    using ctx by (rule ctx_rep_frame) (use h2(3) ds(4,5,8,9,19) in auto)
  from relink_ctx [OF this not_left_siblingI [OF ds(4) ds(11)] ds(2), of y] obtain h4 where
    h4: "relink ?h3 x ?p y = Ok h4" "ctx_rep h4 nil root y C" "\<forall>q. q \<noteq> ?p \<longrightarrow> h4 q = ?h3 q" by blast
  have h4x: "h4 x = Some (node d cx ex ?p (adr nil a) (adr nil b))" and h4y: "h4 y = Some (node d cy ey ?p (adr nil b) (adr nil c))"
    using h4(3) p(1,2) ds(7) h2x by simp_all
  let ?h5 = "h4(y \<mapsto> node d cy ey ?p x (adr nil c))"
  have h5x: "?h5 x = Some (node d cx ex ?p (adr nil a) (adr nil b))" using h4x ds(7) by simp
  let ?h6 = "?h5(x \<mapsto> node d cx ex y (adr nil a) (adr nil b))"
  have off: "?h6 q = h q" if "q \<noteq> x" "q \<noteq> y" "q \<notin> set (adrs b)" "q \<noteq> ?p" for q using that h4(3) h2(3) by simp
  have off2: "?h6 q = h2 q" if "q \<noteq> x" "q \<noteq> y" "q \<noteq> ?p" for q using that h4(3) by simp
  have "nil_ok ?h6 nil" using nil off [of nil] ds(10-12) p(3) by (simp add: nil_ok_def)
  then have "Rotate d nil h x = Ok ?h6"
    using nil by (simp add: Rotate_steps nil_black node_eval [where h = h and a = x, OF hx] node_eval [where h = h and a = y, OF hy] h2(1) node_eval [where h = h2 and a = x, OF h2x] node_eval [where h = h2 and a = y, OF h2y] h4(1)
      node_eval [where h = h4 and a = y, OF h4y] node_eval [where h = ?h5 and a = x, OF h5x] del: fun_upd_apply)
  moreover have "zip_rep ?h6 nil root (mk d (mk d a (x, cx, ex) b) (y, cy, ey) c) C"
  proof -
    have "tree_rep ?h6 nil x a" using sub(1) by (rule tree_rep_frame) (rule off; use ds(15,17,20) p(4) in blast)
    moreover have "tree_rep ?h6 nil y c" using sub(3) by (rule tree_rep_frame) (rule off; use ds(16,18,21) p(6) in blast)
    moreover have "tree_rep ?h6 nil x b" using h2(2) by (rule tree_rep_frame) (rule off2; use p(5) ds(3,6) in blast)
    moreover have "ctx_rep ?h6 nil root y C" using h4(2) ds(4,5,8,9) by simp
    ultimately show ?thesis using \<open>nil_ok ?h6 nil\<close> ds(7,24) unfolding zip_rep_def tree_rep_mk adr_simps by simp
  qed
  moreover have "same_off (zone root (mk d a (x, cx, ex) (mk d b (y, cy, ey) c)) C) h ?h6"
    using off top_in [of root C] by (auto simp: same_off_def zone_def)
  ultimately show ?thesis by blast
qed

end
