(* ===== verification/RbPut.thy ===== *)
theory RbPut
  imports RbZipper
begin

text \<open>
  Insertion into the tree of rb-tree.c: PutFix keeps the store a tree, restores the colour conditions
  and keeps the contents.
\<close>

section \<open>Colours and pointers at the focus\<close>

lemma zip_node: "zip_rep h nil root (mk d n (a, c, e) f) C \<Longrightarrow> h a = Some (node d c e (top root C) (adr nil n) (adr nil f))"
  by (simp add: zip_rep_def tree_rep_mk)

lemma zip_nil: "zip_rep h nil root t C \<Longrightarrow> nil_ok h nil"
  by (simp add: zip_rep_def)

lemma zip_down_far: "zip_rep h nil root (mk d n (a, c, e) f) C \<longleftrightarrow> zip_rep h nil root f (Fr (opp d) (a, c, e) n # C)"
  by (simp add: zip_up mk_opp)

lemma zip_plug: "zip_rep h nil root t C \<longleftrightarrow> zip_rep h nil root (plug t C) []"
proof (induction C arbitrary: t)
  case (Cons F C)
  obtain d a c e s where "F = Fr d (a, c, e) s" by (metis frame.exhaust prod_cases3)
  then show ?case using Cons by (simp add: zip_up)
qed simp

lemma zone_plug: "zone root (plug t C) [] = zone root t C"
proof (induction C arbitrary: t)
  case (Cons F C)
  obtain d a c e s where "F = Fr d (a, c, e) s" by (metis frame.exhaust prod_cases3)
  then show ?case using Cons by simp
qed simp

lemma zone_cont: "zone root t C = insert root (fst ` set (cont (plug t C)))"
  unfolding zone_plug [of root t C, symmetric] by (simp add: zone_def adrs_cont)

lemma zip_red: "zip_rep h nil root t C \<Longrightarrow> get_red h (adr nil t) = Ok (is_red t)"
proof (cases t rule: is_red.cases)
  case (2 l a c e r)
  moreover assume "zip_rep h nil root t C"
  ultimately have "h a = Some (node Lft c e (top root C) (adr nil l) (adr nil r))" by (simp add: zip_rep_def)
  then show ?thesis using 2 by (simp add: get_red_def rd_def)
qed (auto simp: zip_rep_def nil_black)

lemma zip_parent: "zip_rep h nil root t C \<Longrightarrow> t \<noteq> Leaf \<Longrightarrow> get_parent h (adr nil t) = Ok (top root C)"
proof (cases t rule: is_red.cases)
  case (2 l a c e r)
  moreover assume "zip_rep h nil root t C"
  ultimately have "h a = Some (node Lft c e (top root C) (adr nil l) (adr nil r))" by (simp add: zip_rep_def)
  then show ?thesis using 2 by (simp add: get_parent_def rd_def)
qed auto

lemma set_red_zip:
  assumes "zip_rep h nil root (mk d n (a, c, e) f) C"
  shows "\<exists>h'. set_red h a b = Ok h' \<and> zip_rep h' nil root (mk d n (a, b, e) f) C \<and> same_off (zone root (mk d n (a, c, e) f) C) h h'"
proof -
  note a = zip_node [OF assms]
  have "zip_rep (h(a \<mapsto> node d b e (top root C) (adr nil n) (adr nil f))) nil root (mk d n (a, b, e) f) C"
    using assms by (auto simp: zip_rep_def tree_rep_mk)
  then show ?thesis by (simp add: node_eval [where h = h and a = a, OF a] zone_def)
qed

text \<open>Two levels, on either side.\<close>

lemma set_red_near:
  assumes "zip_rep h nil root (mk d (mk d' n (a, c, e) f) (x, cx, ex) s) C"
  shows "\<exists>h'. set_red h a b = Ok h' \<and> zip_rep h' nil root (mk d (mk d' n (a, b, e) f) (x, cx, ex) s) C
    \<and> same_off (zone root (mk d (mk d' n (a, c, e) f) (x, cx, ex) s) C) h h'"
  using set_red_zip [of h nil root d' n a c e f "Fr d (x, cx, ex) s # C" b] assms by (simp add: zip_up)

lemma set_red_far:
  assumes "zip_rep h nil root (mk d s (x, cx, ex) (mk d' n (a, c, e) f)) C"
  shows "\<exists>h'. set_red h a b = Ok h' \<and> zip_rep h' nil root (mk d s (x, cx, ex) (mk d' n (a, b, e) f)) C
    \<and> same_off (zone root (mk d s (x, cx, ex) (mk d' n (a, c, e) f)) C) h h'"
  using set_red_near [of h nil root "opp d" d' n a c e f x cx ex s C b] assms by (simp add: mk_opp)

lemma Rotate_near:
  assumes "zip_rep h nil root (mk d' (mk d a (x, cx, ex) (mk d b (y, cy, ey) c)) (g, cg, eg) s) C"
  shows "\<exists>h'. Rotate d nil h x = Ok h' \<and> zip_rep h' nil root (mk d' (mk d (mk d a (x, cx, ex) b) (y, cy, ey) c) (g, cg, eg) s) C
    \<and> same_off (zone root (mk d' (mk d a (x, cx, ex) (mk d b (y, cy, ey) c)) (g, cg, eg) s) C) h h'"
  using Rotate_zip [of h nil root d a x cx ex b y cy ey c "Fr d' (g, cg, eg) s # C"] assms by (simp add: zip_up)

text \<open>\<open>Rotate (opp d)\<close> is the rotation back.\<close>

lemma Rotate_back:
  assumes "zip_rep h nil root (mk d (mk d a (x, cx, ex) b) (y, cy, ey) c) C"
  shows "\<exists>h'. Rotate (opp d) nil h y = Ok h' \<and> zip_rep h' nil root (mk d a (x, cx, ex) (mk d b (y, cy, ey) c)) C
    \<and> same_off (zone root (mk d (mk d a (x, cx, ex) b) (y, cy, ey) c) C) h h'"
  using Rotate_zip [of h nil root "opp d" c y cy ey b x cx ex a C] assms by (simp add: mk_opp)

section \<open>PutFix\<close>

definition PutFix_side :: "side \<Rightarrow> addr \<Rightarrow> ('k, 'v) rbheap \<Rightarrow> addr \<Rightarrow> addr \<Rightarrow> addr \<Rightarrow> (addr \<times> ('k, 'v) rbheap) res" where
  "PutFix_side d = (case d of Lft \<Rightarrow> PutFix_left | Rgt \<Rightarrow> PutFix_right)"

lemma PutFix_side_steps:
  "PutFix_side d nil h z zp zpp =
     bindE (get_far d h zpp) (\<lambda>y. bindE (get_red h y) (\<lambda>y_red.
     if y_red then PutFix_recolour h zp y zpp
     else bindE (get_far d h zp) (\<lambda>zpf.
       bindE (if z = zpf then bindE (Rotate d nil h zp) (\<lambda>h1. Ok (zp, h1)) else Ok (z, h)) (\<lambda>(z, h1).
       bindE (get_parent h1 z) (\<lambda>p. bindE (set_red h1 p False) (\<lambda>h2. bindE (get_parent h2 p) (\<lambda>g. bindE (set_red h2 g True) (\<lambda>h3.
       bindE (Rotate (opp d) nil h3 g) (\<lambda>h4. Ok (z, h4))))))))))"
  by (cases d) (simp_all add: PutFix_side_def PutFix_left_def PutFix_right_def Rotate_def get_near_def cong: if_cong)

text \<open>A red uncle.\<close>

lemma PutFix_red_uncle:
  assumes "zip_rep h nil root (mk e (mk d t (p, True, ep) s) (g, cg, eg) u) C" "is_red u"
  shows "\<exists>h'. PutFix_side e nil h z p g = Ok (g, h') \<and> zip_rep h' nil root (mk e (mk d t (p, False, ep) s) (g, True, eg) (blacken u)) C
    \<and> same_off (zone root (mk e (mk d t (p, True, ep) s) (g, cg, eg) u) C) h h'"
proof -
  obtain n y ey f where u: "u = mk e n (y, True, ey) f" using mk_ex [of u e] assms(2) by (cases "u = Leaf") auto
  let ?S = "zone root (mk e (mk d t (p, True, ep) s) (g, cg, eg) u) C"
  obtain h1 where h1: "set_red h p False = Ok h1" "zip_rep h1 nil root (mk e (mk d t (p, False, ep) s) (g, cg, eg) u) C" "same_off ?S h h1"
    using set_red_near [OF assms(1)] by blast
  obtain h2 where h2: "set_red h1 y False = Ok h2" "zip_rep h2 nil root (mk e (mk d t (p, False, ep) s) (g, cg, eg) (blacken u)) C"
    "same_off ?S h1 h2"
    using set_red_far [OF h1(2) [unfolded u], of False] by (auto simp: u zone_def)
  obtain h3 where h3: "set_red h2 g True = Ok h3" "zip_rep h3 nil root (mk e (mk d t (p, False, ep) s) (g, True, eg) (blacken u)) C"
    "same_off ?S h2 h3"
    using set_red_zip [OF h2(2), of True] by (auto simp: u zone_def)
  have "h g = Some (node e cg eg (top root C) p y)" using zip_node [OF assms(1)] by (simp add: u)
  moreover have "get_red h y = Ok True" using assms(1) zip_red [of h nil root u] unfolding zip_down_far by (auto simp: u)
  ultimately have "PutFix_side e nil h z p g = Ok (g, h3)"
    using h1(1) h2(1) h3(1) by (simp add: PutFix_side_steps node_eval [where h = h and a = g] PutFix_recolour_def)
  then show ?thesis using h3(2) same_off_trans [OF same_off_trans [OF h1(3) h2(3)] h3(3)] by blast
qed

text \<open>A black uncle: the parent, an inner grandchild after one rotation, goes to the top.\<close>

lemma zip_adr_neq: "zip_rep h nil root (mk d t (a, c, e) s) C \<Longrightarrow> t \<noteq> Leaf \<Longrightarrow> adr nil t \<noteq> adr nil s"
proof -
  assume zip: "zip_rep h nil root (mk d t (a, c, e) s) C" and t: "t \<noteq> Leaf"
  have "nil \<notin> set (adrs t)" "set (adrs t) \<inter> set (adrs s) = {}" using zip by (auto simp: zip_rep_def)
  then show ?thesis using adr_in [OF t, of nil] adr_in [of s nil] by (cases "s = Leaf") auto
qed

lemma PutFix_tail:
  assumes "zip_rep h nil root (mk e (mk e t (p, cp, ep) s) (g, cg, eg) u) C" "t \<noteq> Leaf"
  shows "\<exists>h'. bindE (get_parent h (adr nil t)) (\<lambda>p. bindE (set_red h p False) (\<lambda>h2. bindE (get_parent h2 p) (\<lambda>g.
      bindE (set_red h2 g True) (\<lambda>h3. bindE (Rotate (opp e) nil h3 g) (\<lambda>h4. Ok (adr nil t, h4)))))) = Ok (adr nil t, h')
    \<and> zip_rep h' nil root (mk e t (p, False, ep) (mk e s (g, True, eg) u)) C
    \<and> same_off (zone root (mk e (mk e t (p, cp, ep) s) (g, cg, eg) u) C) h h'"
proof -
  let ?S = "zone root (mk e (mk e t (p, cp, ep) s) (g, cg, eg) u) C"
  have "get_parent h (adr nil t) = Ok p" using assms zip_parent [of h nil root t "Fr e (p, cp, ep) s # Fr e (g, cg, eg) u # C"] by (simp add: zip_up)
  moreover obtain h1 where h1: "set_red h p False = Ok h1" "zip_rep h1 nil root (mk e (mk e t (p, False, ep) s) (g, cg, eg) u) C" "same_off ?S h h1"
    using set_red_near [OF assms(1)] by blast
  moreover have "get_parent h1 p = Ok g" using h1(2) zip_parent [of h1 nil root "mk e t (p, False, ep) s" "Fr e (g, cg, eg) u # C"] by (simp add: zip_up)
  moreover obtain h2 where h2: "set_red h1 g True = Ok h2" "zip_rep h2 nil root (mk e (mk e t (p, False, ep) s) (g, True, eg) u) C" "same_off ?S h1 h2"
    using set_red_zip [OF h1(2), of True] by (auto simp: zone_def)
  moreover obtain h3 where h3: "Rotate (opp e) nil h2 g = Ok h3" "zip_rep h3 nil root (mk e t (p, False, ep) (mk e s (g, True, eg) u)) C" "same_off ?S h2 h3"
    using Rotate_back [OF h2(2)] by (auto simp: zone_def)
  ultimately show ?thesis using same_off_trans [OF same_off_trans [OF h1(3) h2(3)] h3(3)] by simp
qed

lemma PutFix_black_uncle:
  assumes "zip_rep h nil root (mk e (mk e t (p, cp, ep) s) (g, cg, eg) u) C" "\<not> is_red u"
  shows "get_far e h g = Ok (adr nil u)" "get_red h (adr nil u) = Ok False" "get_far e h p = Ok (adr nil s)"
proof -
  show "get_far e h g = Ok (adr nil u)" using node_eval(2) [where h = h and a = g, OF zip_node [OF assms(1)]] .
  show "get_red h (adr nil u) = Ok False" using assms zip_red [of h nil root u] unfolding zip_down_far by auto
  have "zip_rep h nil root (mk e t (p, cp, ep) s) (Fr e (g, cg, eg) u # C)" using assms(1) by (simp add: zip_up)
  from node_eval(2) [where h = h and a = p, OF zip_node [OF this]] show "get_far e h p = Ok (adr nil s)" .
qed

lemma PutFix_outer:
  assumes "zip_rep h nil root (mk e (mk e t (p, cp, ep) s) (g, cg, eg) u) C" "\<not> is_red u" "t \<noteq> Leaf"
  shows "\<exists>h'. PutFix_side e nil h (adr nil t) p g = Ok (adr nil t, h')
    \<and> zip_rep h' nil root (mk e t (p, False, ep) (mk e s (g, True, eg) u)) C
    \<and> same_off (zone root (mk e (mk e t (p, cp, ep) s) (g, cg, eg) u) C) h h'"
proof -
  have "adr nil t \<noteq> adr nil s" using zip_adr_neq [of h nil root e t p cp ep s "Fr e (g, cg, eg) u # C"] assms by (simp add: zip_up)
  then show ?thesis using PutFix_tail [OF assms(1,3)] PutFix_black_uncle [OF assms(1,2)] by (simp add: PutFix_side_steps)
qed

lemma PutFix_inner:
  assumes "zip_rep h nil root (mk e (mk e s (p, cp, ep) (mk e n (z, cz, ez) f)) (g, cg, eg) u) C" "\<not> is_red u"
  shows "\<exists>h'. PutFix_side e nil h z p g = Ok (p, h')
    \<and> zip_rep h' nil root (mk e (mk e s (p, cp, ep) n) (z, False, ez) (mk e f (g, True, eg) u)) C
    \<and> same_off (zone root (mk e (mk e s (p, cp, ep) (mk e n (z, cz, ez) f)) (g, cg, eg) u) C) h h'"
proof -
  let ?S = "zone root (mk e (mk e s (p, cp, ep) (mk e n (z, cz, ez) f)) (g, cg, eg) u) C"
  obtain h1 where h1: "Rotate e nil h p = Ok h1" "zip_rep h1 nil root (mk e (mk e (mk e s (p, cp, ep) n) (z, cz, ez) f) (g, cg, eg) u) C"
    "same_off ?S h h1" using Rotate_near [OF assms(1)] by blast
  have S: "zone root (mk e (mk e (mk e s (p, cp, ep) n) (z, cz, ez) f) (g, cg, eg) u) C = ?S" by (auto simp: zone_def)
  from PutFix_tail [OF h1(2), unfolded S] obtain h2 where
    h2: "bindE (get_parent h1 p) (\<lambda>q. bindE (set_red h1 q False) (\<lambda>h2. bindE (get_parent h2 q) (\<lambda>g.
      bindE (set_red h2 g True) (\<lambda>h3. bindE (Rotate (opp e) nil h3 g) (\<lambda>h4. Ok (p, h4)))))) = Ok (p, h2)"
      "zip_rep h2 nil root (mk e (mk e s (p, cp, ep) n) (z, False, ez) (mk e f (g, True, eg) u)) C" "same_off ?S h1 h2"
    unfolding adr_simps using mk_simps(3) by blast
  have "PutFix_side e nil h z p g = Ok (p, h2)" using PutFix_black_uncle [OF assms] h1(1) h2(1) by (simp add: PutFix_side_steps)
  then show ?thesis using h2(2) same_off_trans [OF h1(3) h2(3)] by blast
qed

section \<open>The loop\<close>

definition put_done :: "('k, 'v) rbheap res \<Rightarrow> ('k, 'v) rbheap \<Rightarrow> addr \<Rightarrow> addr \<Rightarrow> ('k ptr \<times> 'v ptr) nd tree \<Rightarrow> bool" where
  "put_done r h nil root t0 \<longleftrightarrow> (\<exists>h' t. r = Ok h' \<and> zip_rep h' nil root t [] \<and> rbt (blacken t) \<and> cont t = cont t0
     \<and> same_off (zone root t0 []) h h')"

lemma put_doneI:
  "r = Ok h' \<Longrightarrow> zip_rep h' nil root t [] \<Longrightarrow> rbt (blacken t) \<Longrightarrow> cont t = cont t0 \<Longrightarrow> same_off (zone root t0 []) h h' \<Longrightarrow> put_done r h nil root t0"
  by (auto simp: put_done_def)

lemma PutFix_loop_stop:
  assumes "zip_rep h nil root t C" "t \<noteq> Leaf" "rbt t" "ctx_ok C (bh t)" "C = [] \<or> \<not> top_red C"
  shows "put_done (PutFix_loop (Suc fuel) nil h (adr nil t)) h nil root (plug t C)"
proof -
  have "get_red h (top root C) = Ok False"
  proof (cases C rule: ctx_adrs.cases)
    case 1
    then show ?thesis using assms(1) by (simp add: zip_rep_def get_red_def rd_def sentinel_def)
  next
    case (2 d a c e s C')
    then have "zip_rep h nil root (mk d t (a, c, e) s) C'" using assms(1) by (simp add: zip_up)
    from node_eval(4) [where h = h and a = a, OF zip_node [OF this]] show ?thesis using 2 assms(5) by simp
  qed
  then have r: "PutFix_loop (Suc fuel) nil h (adr nil t) = Ok h" using zip_parent [OF assms(1,2)] by simp
  have b: "rbt (blacken (plug t C))" using assms(3,4,5) rbt_plug [of t C] by (cases C) auto
  show ?thesis by (rule put_doneI [OF r _ b refl same_off_refl]) (use assms(1) zip_plug [of h nil root t C] in blast)
qed

lemma put_done_step:
  assumes "put_done r h' nil root t1" "same_off (zone root t0 []) h h'" "cont t1 = cont t0"
  shows "put_done r h nil root t0"
  using assms same_off_trans by (fastforce simp: put_done_def zone_cont)

lemma PutFix_loop_step:
  assumes "zip_rep h nil root t (Fr d (p, True, ep) s # Fr e (g, cg, eg) u # C)" "t \<noteq> Leaf"
  shows "PutFix_loop (Suc fuel) nil h (adr nil t) = bindE (PutFix_side e nil h (adr nil t) p g) (\<lambda>(z, h1). PutFix_loop fuel nil h1 z)"
proof -
  have zp: "zip_rep h nil root (mk d t (p, True, ep) s) (Fr e (g, cg, eg) u # C)" using assms(1) by (simp add: zip_up)
  have zg: "zip_rep h nil root (mk e (mk d t (p, True, ep) s) (g, cg, eg) u) C" using zp by (simp add: zip_up)
  have "get_parent h (adr nil t) = Ok p" using zip_parent [OF assms] by simp
  moreover have "get_red h p = Ok True" using zip_red [OF zp] by simp
  moreover have "get_parent h p = Ok g" using zip_parent [OF zp] by simp
  moreover have "get_left h g = Ok (case e of Lft \<Rightarrow> p | Rgt \<Rightarrow> adr nil u)"
    using node_eval(1,2) [where h = h and a = g, OF zip_node [OF zg]] by (cases e) (simp_all add: get_near_def)
  moreover have "p \<noteq> adr nil u" using zip_adr_neq [OF zg] by simp
  ultimately show ?thesis by (cases e) (simp_all add: PutFix_side_def)
qed

lemma PutFix_loop_ok:
  "zip_rep h nil root t C \<Longrightarrow> rbt t \<Longrightarrow> is_red t \<Longrightarrow> ctx_ok C (bh t) \<Longrightarrow> length C < fuel \<Longrightarrow>
   put_done (PutFix_loop fuel nil h (adr nil t)) h nil root (plug t C)"
proof (induction fuel arbitrary: h t C)
  case (Suc fuel)
  have t: "t \<noteq> Leaf" using Suc.prems(3) by auto
  show ?case
  proof (cases "C = [] \<or> \<not> top_red C")
    case True
    then show ?thesis using PutFix_loop_stop [OF Suc.prems(1) t Suc.prems(2,4)] by blast
  next
    case False
    then obtain d p ep s C1 where C1: "C = Fr d (p, True, ep) s # C1" "\<not> top_red C1"
      using Suc.prems(4) by (cases C rule: ctx_adrs.cases) auto
    then obtain e g eg u C2 where C: "C = Fr d (p, True, ep) s # Fr e (g, False, eg) u # C2"
      by (cases C1 rule: ctx_adrs.cases) auto
    note zip = Suc.prems(1) [unfolded C]
    have zg: "zip_rep h nil root (mk e (mk d t (p, True, ep) s) (g, False, eg) u) C2" using zip by (simp add: zip_up)
    have S: "zone root (plug t C) [] = zone root (mk e (mk d t (p, True, ep) s) (g, False, eg) u) C2" by (simp add: C zone_plug)
    note step = PutFix_loop_step [OF zip t, of fuel]
    note ctx = Suc.prems(4) [unfolded C]
    have fuel: "\<exists>k. fuel = Suc k" using Suc.prems(5) by (cases fuel) (auto simp: C)
    consider "is_red u" | "\<not> is_red u" "d = e" | "\<not> is_red u" "d = opp e" using not_side by blast
    then show ?thesis
    proof cases
      case 1
      let ?t = "mk e (mk d t (p, False, ep) s) (g, True, eg) (blacken u)"
      from PutFix_red_uncle [OF zg 1, of "adr nil t"] obtain h' where h': "PutFix_side e nil h (adr nil t) p g = Ok (g, h')"
        "zip_rep h' nil root ?t C2" "same_off (zone root (plug t C) []) h h'" unfolding S by blast
      have "put_done (PutFix_loop fuel nil h' g) h' nil root (plug ?t C2)"
        using Suc.IH [OF h'(2)] put_recolour [OF Suc.prems(2,3) ctx 1] Suc.prems(5) by (simp add: C)
      then have "put_done (PutFix_loop fuel nil h' g) h nil root (plug t C)"
        using h'(3) by (rule put_done_step) (simp add: C cont_plug cont_mk split: side.splits)
      then show ?thesis unfolding step h'(1) by simp
    next
      case 2
      let ?F = "Fr e (p, False, ep) (mk e s (g, True, eg) u) # C2"
      from PutFix_outer [OF zg [unfolded 2(2)] 2(1) t] obtain h' where h': "PutFix_side e nil h (adr nil t) p g = Ok (adr nil t, h')"
        "zip_rep h' nil root t ?F" "same_off (zone root (plug t C) []) h h'" unfolding S 2(2) zip_up by blast
      have "ctx_ok ?F (bh t)" using put_outer [OF Suc.prems(2,3) ctx [unfolded 2(2)] 2(1)] ctx
        by (auto simp: rbt_mk bh_mk)
      then have "put_done (PutFix_loop fuel nil h' (adr nil t)) h' nil root (plug t ?F)"
        using PutFix_loop_stop [OF h'(2) t Suc.prems(2)] fuel by auto
      then have "put_done (PutFix_loop fuel nil h' (adr nil t)) h nil root (plug t C)"
        using h'(3) by (rule put_done_step) (simp add: C 2(2) cont_plug cont_mk split: side.splits)
      then show ?thesis unfolding step h'(1) by simp
    next
      case 3
      obtain n z ez f where tz: "t = mk e n (z, True, ez) f" using mk_ex [OF t, of e] Suc.prems(3) by auto
      let ?t = "mk e s (p, True, ep) n" and ?F = "Fr e (z, False, ez) (mk e f (g, True, eg) u) # C2"
      have zg': "zip_rep h nil root (mk e (mk e s (p, True, ep) (mk e n (z, True, ez) f)) (g, False, eg) u) C2"
        using zg by (simp add: 3(2) mk_opp tz)
      have S': "zone root (plug t C) [] = zone root (mk e (mk e s (p, True, ep) (mk e n (z, True, ez) f)) (g, False, eg) u) C2"
        unfolding S by (simp add: 3(2) mk_opp tz)
      from PutFix_inner [OF zg' 3(1), folded S'] obtain h' where h': "PutFix_side e nil h z p g = Ok (p, h')"
        "zip_rep h' nil root ?t ?F" "same_off (zone root (plug t C) []) h h'" unfolding zip_up by blast
      have "rbt ?t \<and> ctx_ok ?F (bh ?t)" using put_inner [OF Suc.prems(2) [unfolded tz] ctx [unfolded 3(2) tz] 3(1)]
        by (auto simp: rbt_mk bh_mk)
      then have "put_done (PutFix_loop fuel nil h' p) h' nil root (plug ?t ?F)"
        using PutFix_loop_stop [OF h'(2)] fuel by auto
      then have "put_done (PutFix_loop fuel nil h' p) h nil root (plug t C)"
        using h'(3) by (rule put_done_step) (simp add: C 3(2) mk_opp tz cont_plug cont_mk split: side.splits)
      then show ?thesis unfolding step using h'(1) by (simp add: tz)
    qed
  qed
qed simp

end
