(* ===== verification/RbRemove.thy ===== *)
theory RbRemove
  imports RbPut
begin

text \<open>
  Removal from the tree of rb-tree.c: RemoveFix keeps the store a tree, restores the black heights and
  keeps the contents. The subtree at the focus may be a leaf; the parent field of \<open>nil\<close> then says where it is.
\<close>

section \<open>One round of RemoveFix\<close>

definition both_black :: "('k, 'v) rbheap \<Rightarrow> addr \<Rightarrow> bool res" where
  "both_black h w = bindE (bindE (get_left h w) (get_red h)) (\<lambda>wl_red.
     if wl_red then Ok False else bindE (bindE (get_right h w) (get_red h)) (\<lambda>wr_red. Ok (\<not> wr_red)))"

definition RemoveFix_sibling :: "side \<Rightarrow> addr \<Rightarrow> ('k, 'v) rbheap \<Rightarrow> addr \<Rightarrow> (addr \<times> ('k, 'v) rbheap) res" where
  "RemoveFix_sibling d nil h x =
     bindE (get_parent h x) (\<lambda>xp. bindE (get_far d h xp) (\<lambda>w. bindE (get_red h w) (\<lambda>w_red.
     if w_red
     then bindE (set_red h w False) (\<lambda>h1. bindE (set_red h1 xp True) (\<lambda>h2. bindE (Rotate d nil h2 xp) (\<lambda>h3.
          bindE (get_parent h3 x) (\<lambda>xp'. bindE (get_far d h3 xp') (\<lambda>w'. Ok (w', h3))))))
     else Ok (w, h))))"

definition RemoveFix_finish :: "side \<Rightarrow> addr \<Rightarrow> addr \<Rightarrow> ('k, 'v) rbheap \<Rightarrow> addr \<Rightarrow> addr \<Rightarrow> (addr \<times> ('k, 'v) rbheap) res" where
  "RemoveFix_finish d nil root h x w =
     bindE (get_parent h x) (\<lambda>xp. bindE (get_red h xp) (\<lambda>xp_red. bindE (set_red h w xp_red) (\<lambda>h1. bindE (set_red h1 xp False) (\<lambda>h2.
     bindE (get_far d h2 w) (\<lambda>wf. bindE (set_red h2 wf False) (\<lambda>h3. bindE (Rotate d nil h3 xp) (\<lambda>h4. Ok (root, h4))))))))"

definition RemoveFix_black :: "side \<Rightarrow> addr \<Rightarrow> addr \<Rightarrow> ('k, 'v) rbheap \<Rightarrow> addr \<Rightarrow> addr \<Rightarrow> (addr \<times> ('k, 'v) rbheap) res" where
  "RemoveFix_black d nil root h x w =
     bindE (both_black h w) (\<lambda>both.
     if both then bindE (set_red h w True) (\<lambda>h1. bindE (get_parent h1 x) (\<lambda>xp. Ok (xp, h1)))
     else bindE (bindE (get_far d h w) (get_red h)) (\<lambda>wf_red.
       bindE (if \<not> wf_red
              then bindE (get_near d h w) (\<lambda>wn. bindE (set_red h wn False) (\<lambda>h1. bindE (set_red h1 w True) (\<lambda>h2.
                   bindE (Rotate (opp d) nil h2 w) (\<lambda>h3. bindE (get_parent h3 x) (\<lambda>xp'. bindE (get_far d h3 xp') (\<lambda>w'. Ok (w', h3)))))))
              else Ok (w, h)) (\<lambda>(w, h). RemoveFix_finish d nil root h x w)))"

definition RemoveFix_side :: "side \<Rightarrow> addr \<Rightarrow> addr \<Rightarrow> ('k, 'v) rbheap \<Rightarrow> addr \<Rightarrow> (addr \<times> ('k, 'v) rbheap) res" where
  "RemoveFix_side d = (case d of Lft \<Rightarrow> RemoveFix_left | Rgt \<Rightarrow> RemoveFix_right)"

lemma RemoveFix_side_steps:
  "RemoveFix_side d nil root h x = bindE (RemoveFix_sibling d nil h x) (\<lambda>(w, h). RemoveFix_black d nil root h x w)"
  by (cases d) (simp_all add: RemoveFix_side_def RemoveFix_left_def RemoveFix_right_def RemoveFix_sibling_def RemoveFix_black_def
    RemoveFix_finish_def both_black_def Rotate_def get_near_def bindE_assoc cong: if_cong)

section \<open>The parent of the focus\<close>

definition par_ok :: "('k, 'v) rbheap \<Rightarrow> addr \<Rightarrow> addr \<Rightarrow> ('k ptr \<times> 'v ptr) nd tree \<Rightarrow> bool" where
  "par_ok h nil p t \<longleftrightarrow> (t = Leaf \<longrightarrow> get_parent h nil = Ok p)"

lemma par_parent: "zip_rep h nil root t C \<Longrightarrow> par_ok h nil (top root C) t \<Longrightarrow> get_parent h (adr nil t) = Ok (top root C)"
  using zip_parent by (cases "t = Leaf") (auto simp: par_ok_def)

lemma par_keep:
  assumes "par_ok h nil p t" "same_off (zone root t' C) h h'" "zip_rep h nil root t' C"
  shows "par_ok h' nil p t"
proof -
  have "nil \<notin> zone root t' C" using assms(3) by (auto simp: zip_rep_def zone_def)
  then have "h' nil = h nil" using assms(2) by (simp add: same_off_def)
  then show ?thesis using assms(1) by (simp add: par_ok_def get_parent_def rd_def)
qed

lemma both_black_eval:
  assumes "zip_rep h nil root (mk d n (w, cw, ew) f) C"
  shows "both_black h w = Ok (\<not> is_red n \<and> \<not> is_red f)" "get_far d h w = Ok (adr nil f)" "get_near d h w = Ok (adr nil n)"
    "get_red h (adr nil f) = Ok (is_red f)" "get_red h (adr nil n) = Ok (is_red n)"
proof -
  note w = node_eval [where h = h and a = w, OF zip_node [OF assms]]
  show f: "get_red h (adr nil f) = Ok (is_red f)" using assms zip_red [of h nil root f] unfolding zip_down_far by blast
  show n: "get_red h (adr nil n) = Ok (is_red n)" using assms zip_red [of h nil root n] unfolding zip_up [symmetric] by blast
  show "get_far d h w = Ok (adr nil f)" "get_near d h w = Ok (adr nil n)" using w by simp_all
  then show "both_black h w = Ok (\<not> is_red n \<and> \<not> is_red f)" using f n by (cases d) (simp_all add: both_black_def get_near_def)
qed

section \<open>Colours and rotations below the sibling\<close>

lemma set_red_far_far:
  assumes "zip_rep h nil root (mk d t (p, cp, ep) (mk d n (w, cw, ew) (mk d' f1 (y, cy, ey) f2))) C"
  shows "\<exists>h'. set_red h y b = Ok h' \<and> zip_rep h' nil root (mk d t (p, cp, ep) (mk d n (w, cw, ew) (mk d' f1 (y, b, ey) f2))) C
    \<and> same_off (zone root (mk d t (p, cp, ep) (mk d n (w, cw, ew) (mk d' f1 (y, cy, ey) f2))) C) h h'"
  using set_red_far [of h nil root d n w cw ew d' f1 y cy ey f2 "Fr (opp d) (p, cp, ep) t # C" b] assms by (simp add: zip_up mk_opp)

lemma set_red_far_near:
  assumes "zip_rep h nil root (mk d t (p, cp, ep) (mk d (mk d' n1 (m, cm, em) n2) (w, cw, ew) f)) C"
  shows "\<exists>h'. set_red h m b = Ok h' \<and> zip_rep h' nil root (mk d t (p, cp, ep) (mk d (mk d' n1 (m, b, em) n2) (w, cw, ew) f)) C
    \<and> same_off (zone root (mk d t (p, cp, ep) (mk d (mk d' n1 (m, cm, em) n2) (w, cw, ew) f)) C) h h'"
  using set_red_near [of h nil root d d' n1 m cm em n2 w cw ew f "Fr (opp d) (p, cp, ep) t # C" b] assms by (simp add: zip_up mk_opp)

lemma Rotate_back_far:
  assumes "zip_rep h nil root (mk d t (p, cp, ep) (mk d (mk d n1 (m, cm, em) n2) (w, cw, ew) f)) C"
  shows "\<exists>h'. Rotate (opp d) nil h w = Ok h' \<and> zip_rep h' nil root (mk d t (p, cp, ep) (mk d n1 (m, cm, em) (mk d n2 (w, cw, ew) f))) C
    \<and> same_off (zone root (mk d t (p, cp, ep) (mk d (mk d n1 (m, cm, em) n2) (w, cw, ew) f)) C) h h'"
  using Rotate_back [of h nil root d n1 m cm em n2 w cw ew f "Fr (opp d) (p, cp, ep) t # C"] assms by (simp add: zip_up mk_opp)

lemma zip_near: "zip_rep h nil root (mk d t (p, cp, ep) s) C \<Longrightarrow> par_ok h nil p t \<Longrightarrow> get_parent h (adr nil t) = Ok p"
  using par_parent [of h nil root t "Fr d (p, cp, ep) s # C"] by (simp add: zip_up)

section \<open>The cases\<close>

text \<open>A red sibling is rotated above the parent; the new sibling is its near child.\<close>

lemma RemoveFix_sibling_red:
  assumes "zip_rep h nil root (mk d t (p, cp, ep) (mk d n (w, True, ew) f)) C" "par_ok h nil p t"
  shows "\<exists>h'. RemoveFix_sibling d nil h (adr nil t) = Ok (adr nil n, h')
    \<and> zip_rep h' nil root (mk d (mk d t (p, True, ep) n) (w, False, ew) f) C
    \<and> same_off (zone root (mk d t (p, cp, ep) (mk d n (w, True, ew) f)) C) h h'"
proof -
  let ?S = "zone root (mk d t (p, cp, ep) (mk d n (w, True, ew) f)) C"
  have S: "zone root (mk d t (p, True, ep) (mk d n (w, False, ew) f)) C = ?S" "zone root (mk d t (p, cp, ep) (mk d n (w, False, ew) f)) C = ?S"
    by (auto simp: zone_def)
  obtain h1 where h1: "set_red h w False = Ok h1" "zip_rep h1 nil root (mk d t (p, cp, ep) (mk d n (w, False, ew) f)) C" "same_off ?S h h1"
    using set_red_far [OF assms(1)] by blast
  obtain h2 where h2: "set_red h1 p True = Ok h2" "zip_rep h2 nil root (mk d t (p, True, ep) (mk d n (w, False, ew) f)) C" "same_off ?S h1 h2"
    using set_red_zip [OF h1(2), of True, unfolded S] by blast
  obtain h3 where h3: "Rotate d nil h2 p = Ok h3" "zip_rep h3 nil root (mk d (mk d t (p, True, ep) n) (w, False, ew) f) C" "same_off ?S h2 h3"
    using Rotate_zip [OF h2(2), unfolded S] by blast
  have off: "same_off ?S h h3" using same_off_trans [OF same_off_trans [OF h1(3) h2(3)] h3(3)] .
  have z3: "zip_rep h3 nil root (mk d t (p, True, ep) n) (Fr d (w, False, ew) f # C)" using h3(2) by (simp add: zip_up)
  have "get_parent h3 (adr nil t) = Ok p" using zip_near [OF z3] par_keep [OF assms(2) off assms(1)] by simp
  moreover have "get_far d h3 p = Ok (adr nil n)" using both_black_eval(2) [OF z3] .
  moreover have "get_parent h (adr nil t) = Ok p" using zip_near [OF assms] .
  moreover have "get_far d h p = Ok w" "get_red h w = Ok True" using both_black_eval(2,4) [OF assms(1)] by simp_all
  ultimately have "RemoveFix_sibling d nil h (adr nil t) = Ok (adr nil n, h3)"
    using h1(1) h2(1) h3(1) by (simp add: RemoveFix_sibling_def)
  then show ?thesis using h3(2) off by blast
qed

lemma RemoveFix_sibling_black:
  assumes "zip_rep h nil root (mk d t (p, cp, ep) w) C" "par_ok h nil p t" "\<not> is_red w"
  shows "RemoveFix_sibling d nil h (adr nil t) = Ok (adr nil w, h)"
  using zip_near [OF assms(1,2)] both_black_eval(2,4) [OF assms(1)] assms(3) by (simp add: RemoveFix_sibling_def)

text \<open>A black sibling with two black children becomes red.\<close>

lemma zip_far: "zip_rep h nil root (mk d t (p, cp, ep) w) C \<Longrightarrow> zip_rep h nil root w (Fr (opp d) (p, cp, ep) t # C)"
  by (simp add: zip_up mk_opp)

lemma RemoveFix_black_both:
  assumes "zip_rep h nil root (mk d t (p, cp, ep) (mk d n (w, cw, ew) f)) C" "par_ok h nil p t" "\<not> is_red n" "\<not> is_red f"
  shows "\<exists>h'. RemoveFix_black d nil r h (adr nil t) w = Ok (p, h')
    \<and> zip_rep h' nil root (mk d t (p, cp, ep) (mk d n (w, True, ew) f)) C
    \<and> same_off (zone root (mk d t (p, cp, ep) (mk d n (w, cw, ew) f)) C) h h'"
proof -
  obtain h1 where h1: "set_red h w True = Ok h1" "zip_rep h1 nil root (mk d t (p, cp, ep) (mk d n (w, True, ew) f)) C"
    "same_off (zone root (mk d t (p, cp, ep) (mk d n (w, cw, ew) f)) C) h h1"
    using set_red_far [OF assms(1)] by blast
  have "get_parent h1 (adr nil t) = Ok p" using zip_near [OF h1(2)] par_keep [OF assms(2) h1(3) assms(1)] by simp
  then have "RemoveFix_black d nil r h (adr nil t) w = Ok (p, h1)"
    using both_black_eval(1) [OF zip_far [OF assms(1)]] assms(3,4) h1(1) by (simp add: RemoveFix_black_def)
  then show ?thesis using h1(2,3) by blast
qed

text \<open>A red far child of the sibling ends the loop.\<close>

lemma RemoveFix_finish_zip:
  assumes "zip_rep h nil root (mk d t (p, cp, ep) (mk d n (w, cw, ew) (mk d' f1 (y, cy, ey) f2))) C" "par_ok h nil p t"
  shows "\<exists>h'. RemoveFix_finish d nil r h (adr nil t) w = Ok (r, h')
    \<and> zip_rep h' nil root (mk d (mk d t (p, False, ep) n) (w, cp, ew) (mk d' f1 (y, False, ey) f2)) C
    \<and> same_off (zone root (mk d t (p, cp, ep) (mk d n (w, cw, ew) (mk d' f1 (y, cy, ey) f2))) C) h h'"
proof -
  let ?f = "mk d' f1 (y, cy, ey) f2" and ?g = "mk d' f1 (y, False, ey) f2"
  let ?S = "zone root (mk d t (p, cp, ep) (mk d n (w, cw, ew) ?f)) C"
  have S: "zone root (mk d t (p, cp, ep) (mk d n (w, cp, ew) ?f)) C = ?S" "zone root (mk d t (p, False, ep) (mk d n (w, cp, ew) ?f)) C = ?S"
    "zone root (mk d t (p, False, ep) (mk d n (w, cp, ew) ?g)) C = ?S" by (auto simp: zone_def)
  obtain h1 where h1: "set_red h w cp = Ok h1" "zip_rep h1 nil root (mk d t (p, cp, ep) (mk d n (w, cp, ew) ?f)) C" "same_off ?S h h1"
    using set_red_far [OF assms(1)] by blast
  obtain h2 where h2: "set_red h1 p False = Ok h2" "zip_rep h2 nil root (mk d t (p, False, ep) (mk d n (w, cp, ew) ?f)) C" "same_off ?S h1 h2"
    using set_red_zip [OF h1(2), of False, unfolded S] by blast
  obtain h3 where h3: "set_red h2 y False = Ok h3" "zip_rep h3 nil root (mk d t (p, False, ep) (mk d n (w, cp, ew) ?g)) C" "same_off ?S h2 h3"
    using set_red_far_far [OF h2(2), of False, unfolded S] by blast
  obtain h4 where h4: "Rotate d nil h3 p = Ok h4" "zip_rep h4 nil root (mk d (mk d t (p, False, ep) n) (w, cp, ew) ?g) C" "same_off ?S h3 h4"
    using Rotate_zip [OF h3(2), unfolded S] by blast
  have "get_parent h (adr nil t) = Ok p" using zip_near [OF assms] .
  moreover have "get_red h p = Ok cp" using zip_red [OF assms(1)] by simp
  moreover have "get_far d h2 w = Ok y" using both_black_eval(2) [OF zip_far [OF h2(2)]] by simp
  ultimately have "RemoveFix_finish d nil r h (adr nil t) w = Ok (r, h4)"
    using h1(1) h2(1) h3(1) h4(1) by (simp add: RemoveFix_finish_def)
  then show ?thesis using h4(2) same_off_trans [OF same_off_trans [OF same_off_trans [OF h1(3) h2(3)] h3(3)] h4(3)] by blast
qed

lemma RemoveFix_black_far:
  assumes "zip_rep h nil root (mk d t (p, cp, ep) (mk d n (w, cw, ew) f)) C" "par_ok h nil p t" "is_red f"
  shows "\<exists>h'. RemoveFix_black d nil r h (adr nil t) w = Ok (r, h')
    \<and> zip_rep h' nil root (mk d (mk d t (p, False, ep) n) (w, cp, ew) (blacken f)) C
    \<and> same_off (zone root (mk d t (p, cp, ep) (mk d n (w, cw, ew) f)) C) h h'"
proof -
  obtain f1 y ey f2 where f: "f = mk d f1 (y, True, ey) f2" using mk_ex [of f d] assms(3) by (cases "f = Leaf") auto
  note w = both_black_eval [OF zip_far [OF assms(1)]]
  have "RemoveFix_black d nil r h (adr nil t) w = RemoveFix_finish d nil r h (adr nil t) w"
    using w assms(3) by (simp add: RemoveFix_black_def)
  then show ?thesis using RemoveFix_finish_zip [OF assms(1) [unfolded f] assms(2), of r] by (simp add: f)
qed

lemma RemoveFix_black_near:
  assumes "zip_rep h nil root (mk d t (p, cp, ep) (mk d (mk d n1 (m, True, em) n2) (w, cw, ew) f)) C" "par_ok h nil p t" "\<not> is_red f"
  shows "\<exists>h'. RemoveFix_black d nil r h (adr nil t) w = Ok (r, h')
    \<and> zip_rep h' nil root (mk d (mk d t (p, False, ep) n1) (m, cp, em) (mk d n2 (w, False, ew) f)) C
    \<and> same_off (zone root (mk d t (p, cp, ep) (mk d (mk d n1 (m, True, em) n2) (w, cw, ew) f)) C) h h'"
proof -
  let ?S = "zone root (mk d t (p, cp, ep) (mk d (mk d n1 (m, True, em) n2) (w, cw, ew) f)) C"
  have S: "zone root (mk d t (p, cp, ep) (mk d (mk d n1 (m, False, em) n2) (w, cw, ew) f)) C = ?S"
    "zone root (mk d t (p, cp, ep) (mk d (mk d n1 (m, False, em) n2) (w, True, ew) f)) C = ?S"
    "zone root (mk d t (p, cp, ep) (mk d n1 (m, False, em) (mk d n2 (w, True, ew) f))) C = ?S" by (auto simp: zone_def)
  obtain h1 where h1: "set_red h m False = Ok h1" "zip_rep h1 nil root (mk d t (p, cp, ep) (mk d (mk d n1 (m, False, em) n2) (w, cw, ew) f)) C"
    "same_off ?S h h1" using set_red_far_near [OF assms(1), of False] by blast
  obtain h2 where h2: "set_red h1 w True = Ok h2" "zip_rep h2 nil root (mk d t (p, cp, ep) (mk d (mk d n1 (m, False, em) n2) (w, True, ew) f)) C"
    "same_off ?S h1 h2" using set_red_far [OF h1(2), of True, unfolded S] by blast
  obtain h3 where h3: "Rotate (opp d) nil h2 w = Ok h3"
    "zip_rep h3 nil root (mk d t (p, cp, ep) (mk d n1 (m, False, em) (mk d n2 (w, True, ew) f))) C" "same_off ?S h2 h3"
    using Rotate_back_far [OF h2(2), unfolded S] by blast
  have off: "same_off ?S h h3" using same_off_trans [OF same_off_trans [OF h1(3) h2(3)] h3(3)] .
  have par: "par_ok h3 nil p t" using par_keep [OF assms(2) off assms(1)] .
  obtain h4 where h4: "RemoveFix_finish d nil r h3 (adr nil t) m = Ok (r, h4)"
    "zip_rep h4 nil root (mk d (mk d t (p, False, ep) n1) (m, cp, em) (mk d n2 (w, False, ew) f)) C" "same_off ?S h3 h4"
    using RemoveFix_finish_zip [OF h3(2) par, of r, unfolded S] by blast
  have "get_parent h3 (adr nil t) = Ok p" using zip_near [OF h3(2) par] .
  moreover have "get_far d h3 p = Ok m" using both_black_eval(2) [OF h3(2)] by simp
  ultimately have "RemoveFix_black d nil r h (adr nil t) w = Ok (r, h4)"
    using both_black_eval [OF zip_far [OF assms(1)]] assms(3) h1(1) h2(1) h3(1) h4(1) by (simp add: RemoveFix_black_def)
  then show ?thesis using h4(2) same_off_trans [OF off h4(3)] by blast
qed

section \<open>The loop\<close>

definition del_done :: "('k, 'v) rbheap res \<Rightarrow> ('k, 'v) rbheap \<Rightarrow> addr \<Rightarrow> addr \<Rightarrow> ('k ptr \<times> 'v ptr) nd tree \<Rightarrow> bool" where
  "del_done r h nil root t0 \<longleftrightarrow> (\<exists>h' t. r = Ok h' \<and> zip_rep h' nil root t [] \<and> rbt t \<and> \<not> is_red t \<and> cont t = cont t0
     \<and> same_off (zone root t0 []) h h')"

lemma del_doneI:
  assumes "r = Ok h'" "zip_rep h' nil root t C" "rbt t" "ctx_ok C (bh t)" "\<not> (is_red t \<and> top_red C)" "cont (plug t C) = cont t0"
    "same_off (zone root t0 []) h h'"
  shows "del_done r h nil root t0"
  using assms rbt_plug [OF assms(3-5)] zip_plug [of h' nil root t C] unfolding del_done_def by blast

lemma del_done_step:
  assumes "del_done r h' nil root t1" "same_off (zone root t0 []) h h'" "cont t1 = cont t0"
  shows "del_done r h nil root t0"
  using assms same_off_trans by (fastforce simp: del_done_def zone_cont)

text \<open>A black node stays as it is when it is coloured black.\<close>

lemma set_red_same:
  assumes "zip_rep h nil root (mk d n (a, False, e) f) C"
  shows "get_red h a = Ok False \<and> set_red h a False = Ok h"
  using node_eval(4,9) [where h = h and a = a, OF zip_node [OF assms]] zip_node [OF assms] by (simp add: fun_upd_idem)

text \<open>The top of the tree is above every focus and black.\<close>

lemma plug_top: "C \<noteq> [] \<Longrightarrow> ctx_ok C n \<Longrightarrow> \<exists>a e. \<forall>t. \<exists>m f. plug t C = mk Lft m (a, False, e) f"
proof (induction C arbitrary: n)
  case (Cons F C)
  obtain d a c e s where F: "F = Fr d (a, c, e) s" by (metis frame.exhaust prod_cases3)
  show ?case
  proof (cases "C = []")
    case True
    then have "c = False" using Cons.prems by (auto simp: F)
    then have "\<exists>m f. plug t (F # C) = mk Lft m (a, False, e) f" for t using True by (cases d) (auto simp: F mk_def)
    then show ?thesis by blast
  next
    case False
    then obtain b g where "\<forall>t. \<exists>m f. plug t C = mk Lft m (b, False, g) f" using Cons.IH Cons.prems by (fastforce simp: F)
    then show ?thesis by (intro exI [of _ b] exI [of _ g]) (simp add: F)
  qed
qed simp

lemma plug_adr: "C \<noteq> [] \<Longrightarrow> adr nil (plug t C) \<in> set (ctx_adrs C)"
proof (induction C arbitrary: t)
  case (Cons F C)
  obtain d a c e s where F: "F = Fr d (a, c, e) s" by (metis frame.exhaust prod_cases3)
  then show ?case using Cons.IH [of "mk d t (a, c, e) s"] by (cases "C = []") auto
qed simp

lemma zip_adr_ctx: "zip_rep h nil root t C \<Longrightarrow> adr nil t \<notin> set (ctx_adrs C)"
  using adr_in [of t nil] by (cases "t = Leaf") (auto simp: zip_rep_def)

lemma RemoveFix_loop_red:
  assumes "zip_rep h nil root t C" "is_red t \<or> adr nil t = r" "rbt (blacken t)" "C = [] \<or> is_red t" "ctx_ok C (Suc (bh t))"
  shows "del_done (RemoveFix_loop (Suc fuel) nil r h (adr nil t)) h nil root (plug t C)"
proof -
  have loop: "RemoveFix_loop (Suc fuel) nil r h (adr nil t) = set_red h (adr nil t) False"
    using zip_red [OF assms(1)] assms(2) by auto
  show ?thesis
  proof (cases "t = Leaf")
    case True
    have "set_red h nil False = Ok h"
      using zip_nil [OF assms(1)] by (auto simp: nil_ok_def set_red_def wr_def rd_def sentinel_def fun_upd_idem)
    then show ?thesis using loop assms True by (intro del_doneI [where h' = h and t = Leaf and C = C]) auto
  next
    case False
    then obtain n a c e f where t: "t = mk Lft n (a, c, e) f" using mk_ex by blast
    obtain h1 where h1: "set_red h a False = Ok h1" "zip_rep h1 nil root (blacken t) C" "same_off (zone root t C) h h1"
      using set_red_zip [OF assms(1) [unfolded t]] by (auto simp: t)
    have "RemoveFix_loop (Suc fuel) nil r h (adr nil t) = Ok h1" unfolding loop using h1(1) by (simp add: t)
    moreover have "ctx_ok C (bh (blacken t))" using assms(4,5) by auto
    moreover have "same_off (zone root (plug t C) []) h h1" using h1(3) by (simp add: zone_plug)
    ultimately show ?thesis using h1(2) assms(3) by (intro del_doneI [where t = "blacken t" and C = C]) (simp_all add: cont_plug)
  qed
qed

text \<open>With a black sibling the loop goes on one level higher, or is done up to the next test.\<close>

definition goes_on :: "(addr \<times> ('k, 'v) rbheap) res \<Rightarrow> ('k, 'v) rbheap \<Rightarrow> addr \<Rightarrow> addr \<Rightarrow> addr \<Rightarrow> bool
    \<Rightarrow> ('k ptr \<times> 'v ptr) nd tree \<Rightarrow> ('k ptr \<times> 'v ptr) frame list \<Rightarrow> bool" where
  "goes_on res h nil root p cp t0 C \<longleftrightarrow> (\<exists>h' t. res = Ok (p, h') \<and> zip_rep h' nil root t C \<and> adr nil t = p \<and> t \<noteq> Leaf \<and> is_red t = cp
     \<and> rbt (blacken t) \<and> ctx_ok C (Suc (bh t)) \<and> cont t = cont t0 \<and> same_off (zone root t0 C) h h')"

definition is_done :: "(addr \<times> ('k, 'v) rbheap) res \<Rightarrow> ('k, 'v) rbheap \<Rightarrow> addr \<Rightarrow> addr \<Rightarrow> addr \<Rightarrow> addr
    \<Rightarrow> ('k ptr \<times> 'v ptr) nd tree \<Rightarrow> ('k ptr \<times> 'v ptr) frame list \<Rightarrow> bool" where
  "is_done res h nil root r p t0 C \<longleftrightarrow> (\<exists>h' t. res = Ok (r, h') \<and> zip_rep h' nil root t C \<and> rbt t \<and> ctx_ok C (bh t) \<and> \<not> (is_red t \<and> top_red C)
     \<and> cont t = cont t0 \<and> same_off (zone root t0 C) h h' \<and> get_red h' p = Ok False \<and> set_red h' p False = Ok h')"

lemma is_doneI:
  assumes "res = Ok (r, h')" "zip_rep h' nil root (mk d (mk d t (p, False, ep) n) (w, cp, ew) f) C"
    "rbt (mk d (mk d t (p, False, ep) n) (w, cp, ew) f)" "ctx_ok C (bh (mk d (mk d t (p, False, ep) n) (w, cp, ew) f))" "\<not> (cp \<and> top_red C)"
    "cont (mk d (mk d t (p, False, ep) n) (w, cp, ew) f) = cont t0" "same_off (zone root t0 C) h h'"
  shows "is_done res h nil root r p t0 C"
proof -
  have "zip_rep h' nil root (mk d t (p, False, ep) n) (Fr d (w, cp, ew) f # C)" using assms(2) by (simp add: zip_up)
  note black = set_red_same [OF this]
  show ?thesis unfolding is_done_def
    by (rule exI [of _ h'], rule exI [of _ "mk d (mk d t (p, False, ep) n) (w, cp, ew) f"]) (use assms black in simp)
qed

lemma RemoveFix_black_cases:
  assumes zip: "zip_rep h nil root (mk d t (p, cp, ep) w) C" and par: "par_ok h nil p t" and t: "rbt t" "\<not> is_red t"
    and ctx: "ctx_ok (Fr d (p, cp, ep) w # C) (Suc (bh t))" and w: "\<not> is_red w"
  shows "goes_on (RemoveFix_black d nil r h (adr nil t) (adr nil w)) h nil root p cp (mk d t (p, cp, ep) w) C
    \<or> is_done (RemoveFix_black d nil r h (adr nil t) (adr nil w)) h nil root r p (mk d t (p, cp, ep) w) C"
proof -
  have "w \<noteq> Leaf" using ctx by auto
  then obtain n a e f where wn: "w = mk d n (a, False, e) f" using mk_ex [of w d] w by auto
  note zip' = zip [unfolded wn] and ctx' = ctx [unfolded wn]
  consider "\<not> is_red n" "\<not> is_red f" | "is_red f" | "is_red n" "\<not> is_red f" by blast
  then show ?thesis
  proof cases
    case 1
    let ?t = "mk d t (p, cp, ep) (mk d n (a, True, e) f)"
    from RemoveFix_black_both [OF zip' par 1, of r] obtain h' where h': "RemoveFix_black d nil r h (adr nil t) a = Ok (p, h')"
      "zip_rep h' nil root ?t C" "same_off (zone root (mk d t (p, cp, ep) w) C) h h'" unfolding wn by blast
    have "cont ?t = cont (mk d t (p, cp, ep) w)" by (simp add: wn cont_mk split: side.splits)
    then have "goes_on (RemoveFix_black d nil r h (adr nil t) a) h nil root p cp (mk d t (p, cp, ep) w) C"
      unfolding goes_on_def using h' del_both_black [OF t ctx' 1]
      by (intro exI [of _ h'] exI [of _ ?t] conjI) (simp_all del: mk_simps(2))
    then show ?thesis by (simp add: wn)
  next
    case 2
    let ?t = "mk d (mk d t (p, False, ep) n) (a, cp, e) (blacken f)"
    from RemoveFix_black_far [OF zip' par 2, of r] obtain h' where h': "RemoveFix_black d nil r h (adr nil t) a = Ok (r, h')"
      "zip_rep h' nil root ?t C" "same_off (zone root (mk d t (p, cp, ep) w) C) h h'" unfolding wn by blast
    have "cont ?t = cont (mk d t (p, cp, ep) w)" by (simp add: wn cont_mk split: side.splits)
    then have "is_done (RemoveFix_black d nil r h (adr nil t) a) h nil root r p (mk d t (p, cp, ep) w) C"
      using del_far_red [OF t(1) ctx' 2] by (intro is_doneI [OF h'(1,2) _ _ _ _ h'(3)]) blast+
    then show ?thesis by (simp add: wn)
  next
    case 3
    obtain n1 m em n2 where n: "n = mk d n1 (m, True, em) n2" using mk_ex [of n d] 3(1) by (cases "n = Leaf") auto
    let ?f = "mk d n2 (a, False, e) f"
    let ?t = "mk d (mk d t (p, False, ep) n1) (m, cp, em) ?f"
    from RemoveFix_black_near [OF zip' [unfolded n] par 3(2), of r] obtain h' where h': "RemoveFix_black d nil r h (adr nil t) a = Ok (r, h')"
      "zip_rep h' nil root ?t C" "same_off (zone root (mk d t (p, cp, ep) w) C) h h'" unfolding wn n by blast
    have "cont ?t = cont (mk d t (p, cp, ep) w)" by (simp add: wn n cont_mk split: side.splits)
    moreover have "rbt ?t \<and> ctx_ok C (bh ?t) \<and> \<not> (cp \<and> top_red C)"
      using del_far_red [OF t(1) del_near_red [OF ctx' [unfolded n] 3(2)]] by simp
    ultimately have "is_done (RemoveFix_black d nil r h (adr nil t) a) h nil root r p (mk d t (p, cp, ep) w) C"
      by (intro is_doneI [OF h'(1,2) _ _ _ _ h'(3)]) blast+
    then show ?thesis by (simp add: wn)
  qed
qed

lemma RemoveFix_loop_step:
  assumes "zip_rep h nil root t (Fr d (p, cp, ep) w # C)" "par_ok h nil p t" "\<not> is_red t" "w \<noteq> Leaf" "adr nil t \<noteq> r"
  shows "RemoveFix_loop (Suc fuel) nil r h (adr nil t) = bindE (RemoveFix_side d nil r h (adr nil t)) (\<lambda>(x, h1). RemoveFix_loop fuel nil r h1 x)"
proof -
  have zip: "zip_rep h nil root (mk d t (p, cp, ep) w) C" using assms(1) by (simp add: zip_up)
  have "get_red h (adr nil t) = Ok False" using zip_red [OF assms(1)] assms(3) by simp
  moreover have "get_parent h (adr nil t) = Ok p" using zip_near [OF zip assms(2)] .
  moreover have "get_left h p = Ok (case d of Lft \<Rightarrow> adr nil t | Rgt \<Rightarrow> adr nil w)"
    using both_black_eval(2,3) [OF zip] by (cases d) (simp_all add: get_near_def)
  moreover have "adr nil t \<noteq> adr nil w" using zip_adr_neq [of h nil root "opp d" w p cp ep t C] zip assms(4) by (simp add: mk_opp)
  ultimately show ?thesis using assms(5) by (cases d) (simp_all add: RemoveFix_side_def)
qed

lemma is_done_loop:
  assumes "is_done res h nil root r p t0 C" "r = p \<or> C \<noteq> [] \<and> (\<exists>m e f. plug t0 C = mk Lft m (r, False, e) f)"
  shows "del_done (bindE res (\<lambda>(x, h1). RemoveFix_loop (Suc fuel) nil r h1 x)) h nil root (plug t0 C)"
proof -
  from assms(1) obtain h' t where h': "res = Ok (r, h')" "zip_rep h' nil root t C" "rbt t" "ctx_ok C (bh t)" "\<not> (is_red t \<and> top_red C)"
    "cont t = cont t0" "same_off (zone root t0 C) h h'" "get_red h' p = Ok False" "set_red h' p False = Ok h'" unfolding is_done_def by blast
  have "get_red h' r = Ok False \<and> set_red h' r False = Ok h'"
  proof (cases "r = p")
    case False
    with assms(2) obtain m e f where top: "C \<noteq> []" "plug t0 C = mk Lft m (r, False, e) f" by blast
    from plug_top [OF top(1) h'(4)] obtain a g where ag: "\<forall>t. \<exists>m f. plug t C = mk Lft m (a, False, g) f" by blast
    have "a = r" using ag top(2) by (metis adr_simps(2))
    moreover obtain m' f' where "plug t C = mk Lft m' (a, False, g) f'" using ag by blast
    ultimately have "zip_rep h' nil root (mk Lft m' (r, False, g) f') []" using h'(2) zip_plug [of h' nil root t C] by simp
    then show ?thesis by (rule set_red_same)
  qed (use h'(8,9) in simp)
  then have loop: "bindE res (\<lambda>(x, h1). RemoveFix_loop (Suc fuel) nil r h1 x) = Ok h'" using h'(1) by simp
  show ?thesis
    by (rule del_doneI [OF loop h'(2-5)]) (use h'(6,7) in \<open>simp_all add: cont_plug zone_plug\<close>)
qed

lemma RemoveFix_loop_ok:
  "zip_rep h nil root t C \<Longrightarrow> par_ok h nil (top root C) t \<Longrightarrow> rbt (blacken t) \<Longrightarrow> ctx_ok C (Suc (bh t)) \<Longrightarrow>
   r = adr nil (plug t C) \<Longrightarrow> length C + 2 \<le> fuel \<Longrightarrow>
   del_done (RemoveFix_loop fuel nil r h (adr nil t)) h nil root (plug t C)"
proof (induction fuel arbitrary: h t C)
  case (Suc fuel)
  show ?case
  proof (cases "is_red t \<or> C = []")
    case True
    moreover have "is_red t \<or> adr nil t = r" using True Suc.prems(5) by auto
    ultimately show ?thesis using RemoveFix_loop_red [OF Suc.prems(1) _ Suc.prems(3) _ Suc.prems(4)] by blast
  next
    case False
    then obtain d p cp ep w C1 where C: "C = Fr d (p, cp, ep) w # C1" by (cases C rule: ctx_adrs.cases) auto
    have t: "\<not> is_red t" "rbt t" using False Suc.prems(3) by (auto simp: blacken_id)
    note zip = Suc.prems(1) [unfolded C] and ctx = Suc.prems(4) [unfolded C]
    have par: "par_ok h nil p t" using Suc.prems(2) by (simp add: C)
    have w: "w \<noteq> Leaf" using ctx by auto
    have top: "r = p \<and> C1 = [] \<or> C1 \<noteq> [] \<and> (\<exists>g. \<forall>u. \<exists>m f. plug u C1 = mk Lft m (r, False, g) f)"
    proof (cases "C1 = []")
      case True
      then show ?thesis using Suc.prems(5) by (simp add: C)
    next
      case C1: False
      have "\<exists>k. ctx_ok C1 k" using ctx by auto
      then obtain b g where bg: "\<forall>u. \<exists>m f. plug u C1 = mk Lft m (b, False, g) f" using plug_top [OF C1] by blast
      then have "r = b" using Suc.prems(5) by (metis C plug.simps(2) adr_simps(2))
      then show ?thesis using C1 bg by blast
    qed
    have "adr nil t \<noteq> r" using plug_adr [of C nil t] zip_adr_ctx [OF Suc.prems(1)] Suc.prems(5) by (auto simp: C)
    note step = RemoveFix_loop_step [OF zip par t(1) w this, of fuel]
    obtain k where fuel: "fuel = Suc k" using Suc.prems(6) by (cases fuel) (auto simp: C)
    have zg: "zip_rep h nil root (mk d t (p, cp, ep) w) C1" using zip by (simp add: zip_up)
    have plug: "plug t C = plug (mk d t (p, cp, ep) w) C1" by (simp add: C)
    let ?res = "RemoveFix_side d nil r h (adr nil t)"
    show ?thesis
    proof (cases "is_red w")
      case False
      have side: "?res = RemoveFix_black d nil r h (adr nil t) (adr nil w)"
        using RemoveFix_sibling_black [OF zg par False] by (simp add: RemoveFix_side_steps)
      from RemoveFix_black_cases [OF zg par t(2,1) ctx False, of r, folded side] show ?thesis
      proof
        assume "goes_on ?res h nil root p cp (mk d t (p, cp, ep) w) C1"
        then obtain h' t' where h': "?res = Ok (p, h')" "zip_rep h' nil root t' C1" "adr nil t' = p" "t' \<noteq> Leaf" "rbt (blacken t')"
          "ctx_ok C1 (Suc (bh t'))" "cont t' = cont (mk d t (p, cp, ep) w)" "same_off (zone root (mk d t (p, cp, ep) w) C1) h h'"
          unfolding goes_on_def by blast
        have "r = adr nil (plug t' C1)"
        proof (cases "C1 = []")
          case C1: False
          with top obtain g where g: "\<forall>u. \<exists>m f. plug u C1 = mk Lft m (r, False, g) f" by blast
          then obtain m f where "plug t' C1 = mk Lft m (r, False, g) f" by blast
          then show ?thesis by simp
        qed (use top h'(3) in simp)
        then have "del_done (RemoveFix_loop fuel nil r h' p) h' nil root (plug t' C1)"
          using Suc.IH [OF h'(2) _ h'(5,6)] h'(3,4) Suc.prems(6) by (simp add: C par_ok_def)
        then have "del_done (RemoveFix_loop fuel nil r h' p) h nil root (plug t C)"
          by (rule del_done_step) (use h'(7,8) in \<open>simp_all only: plug zone_plug cont_plug\<close>)
        then show ?thesis unfolding step h'(1) by simp
      next
        assume "is_done ?res h nil root r p (mk d t (p, cp, ep) w) C1"
        from is_done_loop [OF this, of k] top show ?thesis unfolding step unfolding plug fuel by blast
      qed
    next
      case True
      obtain n a e f where wn: "w = mk d n (a, True, e) f" using mk_ex [OF w, of d] True by auto
      let ?t = "mk d t (p, True, ep) n" and ?C = "Fr d (a, False, e) f # C1"
      from RemoveFix_sibling_red [OF zg [unfolded wn] par] obtain h1 where
        h1: "RemoveFix_sibling d nil h (adr nil t) = Ok (adr nil n, h1)" "zip_rep h1 nil root ?t ?C"
          "same_off (zone root (mk d t (p, cp, ep) w) C1) h h1" unfolding wn zip_up by blast
      have side: "?res = RemoveFix_black d nil r h1 (adr nil t) (adr nil n)" using h1(1) by (simp add: RemoveFix_side_steps)
      have ctx1: "ctx_ok (Fr d (p, True, ep) n # ?C) (Suc (bh t))" "\<not> is_red n" using del_red_sibling [OF ctx [unfolded wn]] by blast+
      have cont1: "cont (plug ?t ?C) = cont (plug t C)" by (simp add: plug wn cont_plug cont_mk split: side.splits)
      have off: "same_off (zone root (plug t C) []) h h1" using h1(3) by (simp only: plug zone_plug)
      have "del_done (RemoveFix_loop (Suc fuel) nil r h (adr nil t)) h1 nil root (plug ?t ?C)"
        using RemoveFix_black_cases [OF h1(2) par_keep [OF par h1(3) zg] t(2,1) ctx1, of r, folded side]
      proof
        assume "goes_on ?res h1 nil root p True ?t ?C"
        then obtain h' t' where h': "?res = Ok (p, h')" "zip_rep h' nil root t' ?C" "adr nil t' = p" "is_red t'" "rbt (blacken t')"
          "ctx_ok ?C (Suc (bh t'))" "cont t' = cont ?t" "same_off (zone root ?t ?C) h1 h'" unfolding goes_on_def by blast
        have "del_done (RemoveFix_loop fuel nil r h' (adr nil t')) h' nil root (plug t' ?C)"
          unfolding fuel by (rule RemoveFix_loop_red [OF h'(2) _ h'(5) _ h'(6)]) (use h'(4) in simp_all)
        then have "del_done (RemoveFix_loop fuel nil r h' p) h1 nil root (plug ?t ?C)" unfolding h'(3)
          by (rule del_done_step) (use h'(7,8) in \<open>simp_all only: zone_plug cont_plug\<close>)
        then show ?thesis unfolding step h'(1) by simp
      next
        assume "is_done ?res h1 nil root r p ?t ?C"
        from is_done_loop [OF this, of k] top show ?thesis unfolding step unfolding fuel plug.simps by blast
      qed
      then show ?thesis using off cont1 by (rule del_done_step)
    qed
  qed
qed simp

end
