(* ===== verification/RbMap.thy ===== *)
theory RbMap
  imports RbRemove SequenceSort
begin

text \<open>
  The operations of rb-tree.c on whole trees: a tree that is reached by them is a red-black tree whose
  keys are in order, a lookup follows the order to its entry, and the tree is a key/value store in the
  sense of \<open>kv_store\<close>.
\<close>

section \<open>Keys in order\<close>

definition before :: "('k ptr \<Rightarrow> 'k ptr \<Rightarrow> int) \<Rightarrow> addr \<times> 'k ptr \<times> 'v ptr \<Rightarrow> addr \<times> 'k ptr \<times> 'v ptr \<Rightarrow> bool" where
  "before cmp x y \<longleftrightarrow> cmp (fst (snd x)) (fst (snd y)) < 0"

definition in_order :: "('k ptr \<Rightarrow> 'k ptr \<Rightarrow> int) \<Rightarrow> (addr \<times> 'k ptr \<times> 'v ptr) list \<Rightarrow> bool" where
  "in_order cmp xs \<longleftrightarrow> sorted_wrt (before cmp) xs"

lemma in_order_append:
  "in_order cmp (xs @ ys) \<longleftrightarrow> in_order cmp xs \<and> in_order cmp ys \<and> (\<forall>x \<in> set xs. \<forall>y \<in> set ys. before cmp x y)"
  by (simp add: in_order_def sorted_wrt_append)

lemma in_order_Cons: "in_order cmp (x # xs) \<longleftrightarrow> (\<forall>y \<in> set xs. before cmp x y) \<and> in_order cmp xs"
  by (simp add: in_order_def)

lemma in_order_Nil [simp]: "in_order cmp []"
  by (simp add: in_order_def)

text \<open>The key lies between the entries on the left and those on the right.\<close>

definition between :: "('k ptr \<Rightarrow> 'k ptr \<Rightarrow> int) \<Rightarrow> 'k ptr \<Rightarrow> (addr \<times> 'k ptr \<times> 'v ptr) list \<Rightarrow> (addr \<times> 'k ptr \<times> 'v ptr) list \<Rightarrow> bool" where
  "between cmp k ls rs \<longleftrightarrow> (\<forall>x \<in> set ls. cmp k (fst (snd x)) > 0) \<and> (\<forall>x \<in> set rs. cmp k (fst (snd x)) < 0)"

lemma between_Nil [simp]: "between cmp k [] []"
  by (simp add: between_def)

context comparator
begin

lemma less_trans: "x \<in> A \<Longrightarrow> y \<in> A \<Longrightarrow> z \<in> A \<Longrightarrow> cmp x y < 0 \<Longrightarrow> cmp y z \<le> 0 \<Longrightarrow> cmp x z < 0"
proof (rule ccontr)
  assume xyz: "x \<in> A" "y \<in> A" "z \<in> A" "cmp x y < 0" "cmp y z \<le> 0" "\<not> cmp x z < 0"
  then have "cmp z x \<le> 0" using cmp_le_ge [of z x] by simp
  then have "cmp y x \<le> 0" using cmp_trans [of y z x] xyz by blast
  then show False using cmp_sym [of x y] xyz by simp
qed

lemma less_trans2: "x \<in> A \<Longrightarrow> y \<in> A \<Longrightarrow> z \<in> A \<Longrightarrow> cmp x y \<le> 0 \<Longrightarrow> cmp y z < 0 \<Longrightarrow> cmp x z < 0"
proof (rule ccontr)
  assume xyz: "x \<in> A" "y \<in> A" "z \<in> A" "cmp x y \<le> 0" "cmp y z < 0" "\<not> cmp x z < 0"
  then have "cmp z x \<le> 0" using cmp_le_ge [of z x] by simp
  then have "cmp z y \<le> 0" using cmp_trans [of z x y] xyz by blast
  then show False using cmp_sym [of y z] xyz by simp
qed

end

lemma before_keys:
  assumes "comparator UNIV cmp" "cmp k (fst (snd x)) < 0" "before cmp x y"
  shows "cmp k (fst (snd y)) < 0"
  using comparator.less_trans [OF assms(1)] assms(2,3) by (simp add: before_def less_imp_le)

lemma before_keys2:
  assumes "comparator UNIV cmp" "cmp k (fst (snd y)) > 0" "before cmp x y"
  shows "cmp k (fst (snd x)) > 0"
proof -
  have "cmp (fst (snd y)) k < 0" using comparator.cmp_sym [OF assms(1)] assms(2) by simp
  then have "cmp (fst (snd x)) k < 0"
    using comparator.less_trans [OF assms(1)] assms(3) by (simp add: before_def less_imp_le)
  then show ?thesis using comparator.cmp_sym [OF assms(1)] by simp
qed

section \<open>Search\<close>

text \<open>
  Going down from the focus \<open>t\<close> ends at the node with the key, or at the leaf where the key belongs. The
  loops of RBTreePut and Get\_ are the same walk.
\<close>

lemma Get_loop_put_search:
  "Get_loop fuel tree key x = bindE (put_search fuel tree key y x) (\<lambda>(found, a). Ok (if found then a else rb_nil tree))"
proof (induction fuel arbitrary: x y)
  case (Suc fuel)
  show ?case by (cases "rd (rb_heap tree) x") (simp_all add: Let_def Suc [of _ x])
qed simp

definition searched :: "('k, 'v) RBTree \<Rightarrow> addr \<Rightarrow> 'k ptr \<Rightarrow> ('k ptr \<times> 'v ptr) nd tree \<Rightarrow> (bool \<times> addr) res \<Rightarrow> bool" where
  "searched tree root key T res \<longleftrightarrow>
     (\<exists>n a c e f C. res = Ok (True, a) \<and> plug (mk Lft n (a, c, e) f) C = T \<and> KeyCompare tree key (fst e) = 0)
     \<or> (\<exists>C. res = Ok (False, top root C) \<and> plug Leaf C = T \<and> between (KeyCompare tree) key (lcont C) (rcont C))"

lemma searched_hit: "res = Ok (True, a) \<Longrightarrow> plug (mk Lft n (a, c, e) f) C = T \<Longrightarrow> KeyCompare tree key (fst e) = 0 \<Longrightarrow> searched tree root key T res"
  unfolding searched_def by blast

lemma put_search_ok:
  assumes "comparator UNIV (KeyCompare tree)"
  shows "zip_rep (rb_heap tree) (rb_nil tree) root t C \<Longrightarrow> in_order (KeyCompare tree) (cont t) \<Longrightarrow>
    between (KeyCompare tree) key (lcont C) (rcont C) \<Longrightarrow> size t < fuel \<Longrightarrow>
    searched tree root key (plug t C) (put_search fuel tree key (top root C) (adr (rb_nil tree) t))"
proof (induction fuel arbitrary: t C)
  case (Suc fuel)
  let ?h = "rb_heap tree" and ?nil = "rb_nil tree" and ?cmp = "KeyCompare tree key"
  show ?case
  proof (cases "t = Leaf")
    case True
    then show ?thesis using Suc.prems(3) by (auto simp: searched_def)
  next
    case False
    then obtain l a c e r where t: "t = mk Lft l (a, c, e) r" using mk_ex by blast
    have rd: "rd ?h a = Ok (node Lft c e (top root C) (adr ?nil l) (adr ?nil r))"
      using node_eval(5) [where h = ?h and a = a, OF zip_node [OF Suc.prems(1) [unfolded t]]] .
    have "a \<noteq> ?nil" using Suc.prems(1) by (auto simp: t zip_rep_def)
    then have step: "put_search (Suc fuel) tree key (top root C) (adr ?nil t)
      = (if ?cmp (fst e) = 0 then Ok (True, a) else put_search fuel tree key a (if ?cmp (fst e) < 0 then adr ?nil l else adr ?nil r))"
      by (simp add: t rd Let_def) (simp add: node_def)
    have ord: "in_order (KeyCompare tree) (cont l)" "in_order (KeyCompare tree) (cont r)" "\<forall>x \<in> set (cont l). before (KeyCompare tree) x (a, e)"
      "\<forall>x \<in> set (cont r). before (KeyCompare tree) (a, e) x" using Suc.prems(2) by (auto simp: t cont_mk in_order_append in_order_Cons)
    have size: "size l < fuel" "size r < fuel" using Suc.prems(4) by (simp_all add: t mk_def)
    consider "?cmp (fst e) = 0" | "?cmp (fst e) < 0" | "?cmp (fst e) > 0" by linarith
    then show ?thesis
    proof cases
      case 1
      show ?thesis unfolding step by (rule searched_hit [OF _ _ 1]) (use 1 t in auto)
    next
      case 2
      have z: "zip_rep ?h ?nil root l (Fr Lft (a, c, e) r # C)" using Suc.prems(1) by (simp add: zip_up t)
      have "between (KeyCompare tree) key (lcont (Fr Lft (a, c, e) r # C)) (rcont (Fr Lft (a, c, e) r # C))"
        using Suc.prems(3) 2 ord(4) before_keys [OF assms, of key "(a, e)"] by (auto simp: between_def)
      from Suc.IH [OF z ord(1) this size(1)] show ?thesis unfolding step using 2 by (simp add: t)
    next
      case 3
      have z: "zip_rep ?h ?nil root r (Fr Rgt (a, c, e) l # C)" using Suc.prems(1) by (simp add: zip_up t mk_def)
      have "between (KeyCompare tree) key (lcont (Fr Rgt (a, c, e) l # C)) (rcont (Fr Rgt (a, c, e) l # C))"
        using Suc.prems(3) 3 ord(3) before_keys2 [OF assms, of key "(a, e)"] by (auto simp: between_def)
      from Suc.IH [OF z ord(2) this size(2)] show ?thesis unfolding step using 3 by (simp add: t mk_def)
    qed
  qed
qed simp

section \<open>Trees\<close>

text \<open>
  What holds of a tree between operations. Copies of keys and values are equal to their originals, and
  the comparison is a consistent order.
\<close>

definition rb_rep :: "('k, 'v) RBTree \<Rightarrow> ('k ptr \<times> 'v ptr) nd tree \<Rightarrow> bool" where
  "rb_rep tree t \<longleftrightarrow> zip_rep (rb_heap tree) (rb_nil tree) (rb_root tree) t [] \<and> rbt t \<and> \<not> is_red t
     \<and> comparator UNIV (KeyCompare tree) \<and> in_order (KeyCompare tree) (cont t) \<and> rb_size tree = length (cont t)
     \<and> (\<forall>a \<in> insert (rb_nil tree) (zone (rb_root tree) t []). a < rb_fresh tree)
     \<and> KeyCopy tree = NoopCopy \<and> ValueCopy tree = NoopCopy"

lemma ctx_ok_plug: "rbt (plug t C) \<Longrightarrow> \<not> is_red (plug t C) \<Longrightarrow> rbt t \<and> ctx_ok C (bh t) \<and> \<not> (is_red t \<and> top_red C)"
proof (induction C arbitrary: t)
  case (Cons F C)
  obtain d a c e s where F: "F = Fr d (a, c, e) s" by (metis frame.exhaust prod_cases3)
  then have m: "rbt (mk d t (a, c, e) s)" "ctx_ok C (bh (mk d t (a, c, e) s))" "\<not> (c \<and> top_red C)"
    using Cons.IH [of "mk d t (a, c, e) s"] Cons.prems by auto
  then have "bh t = bh s" by (simp add: rbt_mk)
  then show ?case using m by (auto simp: F rbt_mk bh_mk)
qed simp

lemma rbt_rename:
  assumes "rbt (plug (mk d n (a, c, e) f) C)" "\<not> is_red (plug (mk d n (a, c, e) f) C)"
  shows "rbt (plug (mk d n (a', c, e') f) C) \<and> \<not> is_red (plug (mk d n (a', c, e') f) C)"
proof -
  have ok: "rbt (mk d n (a, c, e) f)" "ctx_ok C (bh (mk d n (a, c, e) f))" "\<not> (c \<and> top_red C)" using ctx_ok_plug [OF assms] by simp_all
  then have "bh n = bh f" "rbt (mk d n (a', c, e') f)" by (simp_all add: rbt_mk)
  then show ?thesis using ok(2,3) by (intro rbt_plug) (simp_all add: bh_mk)
qed

lemma adrs_length: "length (adrs t) = size t"
  by (induction t rule: adrs.induct) auto

lemma ctx_length: "length C \<le> length (ctx_adrs C)"
  by (induction C rule: ctx_adrs.induct) auto

lemma cont_length: "length (cont t) = size t"
  by (simp add: cont_def)

text \<open>Fuel: there are fewer nodes than addresses.\<close>

lemma zip_fuel:
  assumes "zip_rep h nil root t C" "\<forall>a \<in> insert nil (zone root t C). a < n"
  shows "size t + length C + 2 \<le> n"
proof -
  have "length (nil # root # adrs t @ ctx_adrs C) \<le> n"
    using assms by (intro distinct_bounded_length) (auto simp: zip_rep_def zone_def)
  then show ?thesis using ctx_length [of C] by (simp add: adrs_length)
qed

lemma rb_rep_search:
  assumes "rb_rep tree t"
  shows "get_left (rb_heap tree) (rb_root tree) = Ok (adr (rb_nil tree) t)"
    "searched tree (rb_root tree) key t (put_search (rb_fresh tree) tree key (rb_root tree) (adr (rb_nil tree) t))"
proof -
  have zip: "zip_rep (rb_heap tree) (rb_nil tree) (rb_root tree) t []" using assms by (simp add: rb_rep_def)
  show "get_left (rb_heap tree) (rb_root tree) = Ok (adr (rb_nil tree) t)"
    using zip by (simp add: zip_rep_def get_left_def rd_def sentinel_def)
  have "size t < rb_fresh tree" using zip_fuel [OF zip, of "rb_fresh tree"] assms by (simp add: rb_rep_def)
  then show "searched tree (rb_root tree) key t (put_search (rb_fresh tree) tree key (rb_root tree) (adr (rb_nil tree) t))"
    using put_search_ok [of tree "rb_root tree" t "[]" key "rb_fresh tree"] assms by (simp add: rb_rep_def)
qed

section \<open>Entries around a key\<close>

abbreviation key_eq :: "('k, 'v) RBTree \<Rightarrow> 'k ptr \<Rightarrow> 'k ptr \<Rightarrow> bool" where
  "key_eq tree a b \<equiv> KeyCompare tree a b = 0"

definition ents :: "('k ptr \<times> 'v ptr) nd tree \<Rightarrow> ('k ptr \<times> 'v ptr) list" where
  "ents t = map snd (cont t)"

lemma comparator_equiv: "comparator UNIV cmp \<Longrightarrow> equivp (\<lambda>a b. cmp a b = 0)"
proof (rule equivpI)
  assume c: "comparator UNIV cmp"
  show "reflp (\<lambda>a b. cmp a b = 0)" using comparator.cmp_refl [OF c] by (simp add: reflp_def)
  have zero: "cmp y x = 0" if "cmp x y = 0" for x y
    using that comparator.cmp_le_ge [OF c, of x y] comparator.cmp_le_ge [OF c, of y x] by simp
  then show "symp (\<lambda>a b. cmp a b = 0)" by (simp add: symp_def)
  show "transp (\<lambda>a b. cmp a b = 0)"
  proof (rule transpI)
    fix x y z assume xyz: "cmp x y = 0" "cmp y z = 0"
    then have "cmp x z \<le> 0" using comparator.cmp_trans [OF c, of x y z] by simp
    moreover have "cmp z x \<le> 0" using comparator.cmp_trans [OF c, of z y x] zero [OF xyz(1)] zero [OF xyz(2)] by simp
    ultimately show "cmp x z = 0" using comparator.cmp_le_ge [OF c, of z x] by simp
  qed
qed

lemma between_hit:
  assumes "comparator UNIV cmp" "in_order cmp (ls @ (a, e) # rs)" "cmp k (fst e) = 0"
  shows "between cmp k ls rs"
proof -
  have "cmp k (fst (snd x)) > 0" if "x \<in> set ls" for x
  proof -
    have "cmp (fst (snd x)) (fst e) < 0" using assms(2) that by (auto simp: in_order_append before_def)
    moreover have "cmp (fst e) k \<le> 0" using comparator.cmp_le_ge [OF assms(1), of "fst e" k] assms(3) by simp
    ultimately have "cmp (fst (snd x)) k < 0" using comparator.less_trans [OF assms(1)] by simp
    then show ?thesis using comparator.cmp_sym [OF assms(1)] by simp
  qed
  moreover have "cmp k (fst (snd x)) < 0" if "x \<in> set rs" for x
    using assms(2,3) that comparator.less_trans2 [OF assms(1), of k "fst e"] by (auto simp: in_order_append in_order_Cons before_def)
  ultimately show ?thesis by (simp add: between_def)
qed

lemma in_order_insert:
  assumes "comparator UNIV cmp" "in_order cmp (ls @ rs)" "between cmp k ls rs"
  shows "in_order cmp (ls @ (a, k, v) # rs)"
  using assms(2,3) comparator.cmp_sym [OF assms(1)] by (auto simp: in_order_append in_order_Cons between_def before_def)

lemma between_kv:
  assumes "comparator UNIV cmp" "between cmp k ls rs"
  shows "kv_old (\<lambda>a b. cmp a b = 0) k (map snd (ls @ rs)) = []" "kv_del (\<lambda>a b. cmp a b = 0) k (map snd (ls @ rs)) = map snd (ls @ rs)"
proof -
  have "\<not> matches (\<lambda>a b. cmp a b = 0) k x" if "x \<in> set (map snd (ls @ rs))" for x
  proof
    assume "matches (\<lambda>a b. cmp a b = 0) k x"
    then have "cmp k (fst x) = 0" using equivp_symp [OF comparator_equiv [OF assms(1)], of "fst x" k] by (simp add: matches_def)
    then show False using that assms(2) by (auto simp: between_def)
  qed
  then show "kv_old (\<lambda>a b. cmp a b = 0) k (map snd (ls @ rs)) = []" "kv_del (\<lambda>a b. cmp a b = 0) k (map snd (ls @ rs)) = map snd (ls @ rs)"
    unfolding kv_old_def kv_del_def by (simp_all add: filter_empty_conv filter_id_conv del: map_append set_map)
qed

lemma hit_kv:
  assumes "comparator UNIV cmp" "between cmp k ls rs" "cmp k (fst e) = 0"
  shows "kv_old (\<lambda>a b. cmp a b = 0) k (map snd (ls @ (a, e) # rs)) = [e]" "kv_del (\<lambda>a b. cmp a b = 0) k (map snd (ls @ (a, e) # rs)) = map snd (ls @ rs)"
    "kv_get (\<lambda>a b. cmp a b = 0) k (map snd (ls @ (a, e) # rs)) = Some e"
proof -
  have m: "matches (\<lambda>a b. cmp a b = 0) k e"
    using assms(3) equivp_symp [OF comparator_equiv [OF assms(1)], of k "fst e"] by (simp add: matches_def)
  show old: "kv_old (\<lambda>a b. cmp a b = 0) k (map snd (ls @ (a, e) # rs)) = [e]"
    using between_kv(1) [OF assms(1,2)] m by (simp add: kv_old_def)
  show "kv_del (\<lambda>a b. cmp a b = 0) k (map snd (ls @ (a, e) # rs)) = map snd (ls @ rs)"
    using between_kv(2) [OF assms(1,2)] m by (simp add: kv_del_def)
  show "kv_get (\<lambda>a b. cmp a b = 0) k (map snd (ls @ (a, e) # rs)) = Some e" by (simp add: kv_get_hd old del: map_append list.map)
qed

lemma in_order_uniq:
  assumes "comparator UNIV cmp" "in_order cmp xs"
  shows "uniq (\<lambda>a b. cmp a b = 0) (map snd xs)"
  unfolding uniq_def
proof
  fix k
  show "length (kv_old (\<lambda>a b. cmp a b = 0) k (map snd xs)) \<le> 1"
  proof (cases "\<exists>x \<in> set xs. cmp k (fst (snd x)) = 0")
    case True
    then obtain ls a e rs where xs: "xs = ls @ (a, e) # rs" "cmp k (fst e) = 0" by (metis split_list surj_pair snd_conv)
    show ?thesis using hit_kv(1) [OF assms(1) between_hit [OF assms(1) assms(2) [unfolded xs(1)] xs(2)] xs(2)] by (simp add: xs(1))
  next
    case False
    then have "kv_old (\<lambda>a b. cmp a b = 0) k (map snd xs) = []"
      using equivp_symp [OF comparator_equiv [OF assms(1)]] by (auto simp: kv_old_def filter_empty_conv matches_def)
    then show ?thesis by simp
  qed
qed

section \<open>Lookup\<close>

definition rb_entry :: "('k, 'v) RBTree \<Rightarrow> 'k ptr \<Rightarrow> ('k ptr \<times> 'v ptr) ptr res" where
  "rb_entry tree key = bindE (Get tree key) (\<lambda>a.
     if a = rb_nil tree then Ok NULL else bindE (rd (rb_heap tree) a) (\<lambda>n. Ok (Ptr (rb_key n, rb_value n))))"

text \<open>A search finds the entry of the key, at its node, or there is none.\<close>

lemma rb_searchE:
  assumes "rb_rep tree t"
  obtains (hit) n a c e f C where "put_search (rb_fresh tree) tree key (rb_root tree) (adr (rb_nil tree) t) = Ok (True, a)"
      "t = plug (mk Lft n (a, c, e) f) C" "zip_rep (rb_heap tree) (rb_nil tree) (rb_root tree) (mk Lft n (a, c, e) f) C"
      "KeyCompare tree key (fst e) = 0" "between (KeyCompare tree) key (lcont C @ cont n) (cont f @ rcont C)"
      "cont t = (lcont C @ cont n) @ (a, e) # (cont f @ rcont C)"
    | (miss) C where "put_search (rb_fresh tree) tree key (rb_root tree) (adr (rb_nil tree) t) = Ok (False, top (rb_root tree) C)"
      "t = plug Leaf C" "zip_rep (rb_heap tree) (rb_nil tree) (rb_root tree) Leaf C" "between (KeyCompare tree) key (lcont C) (rcont C)"
      "cont t = lcont C @ rcont C"
proof -
  have zip: "zip_rep (rb_heap tree) (rb_nil tree) (rb_root tree) t []" and cmp: "comparator UNIV (KeyCompare tree)"
    and ord: "in_order (KeyCompare tree) (cont t)" using assms by (simp_all add: rb_rep_def)
  from rb_rep_search(2) [OF assms, of key] show thesis unfolding searched_def
  proof (elim disjE exE conjE)
    fix n a c e f C
    assume r: "put_search (rb_fresh tree) tree key (rb_root tree) (adr (rb_nil tree) t) = Ok (True, a)"
      and t: "plug (mk Lft n (a, c, e) f) C = t" and e: "KeyCompare tree key (fst e) = 0"
    have c: "cont t = (lcont C @ cont n) @ (a, e) # (cont f @ rcont C)" by (simp add: t [symmetric] cont_plug cont_mk)
    have "zip_rep (rb_heap tree) (rb_nil tree) (rb_root tree) (mk Lft n (a, c, e) f) C" using zip unfolding t [symmetric] zip_plug [symmetric] .
    from hit [OF r t [symmetric] this e between_hit [OF cmp ord [unfolded c] e] c] show thesis .
  next
    fix C
    assume r: "put_search (rb_fresh tree) tree key (rb_root tree) (adr (rb_nil tree) t) = Ok (False, top (rb_root tree) C)"
      and t: "plug Leaf C = t" and b: "between (KeyCompare tree) key (lcont C) (rcont C)"
    have "zip_rep (rb_heap tree) (rb_nil tree) (rb_root tree) Leaf C" using zip unfolding t [symmetric] zip_plug [symmetric] .
    from miss [OF r t [symmetric] this b] show thesis by (simp add: t [symmetric] cont_plug)
  qed
qed

lemma rb_rep_nil: "rb_rep tree t \<Longrightarrow> nil_ok (rb_heap tree) (rb_nil tree)"
  by (simp add: rb_rep_def zip_rep_def)

lemma Get_search:
  assumes "rb_rep tree t"
  shows "Get tree key = bindE (put_search (rb_fresh tree) tree key (rb_root tree) (adr (rb_nil tree) t)) (\<lambda>(found, a). Ok (if found then a else rb_nil tree))"
  using rb_rep_search(1) [OF assms] nil_black(1) [OF rb_rep_nil [OF assms]] Get_loop_put_search by (simp add: Get_def)

lemma zip_not_nil: "zip_rep h nil root (mk d n (a, c, e) f) C \<Longrightarrow> a \<noteq> nil"
  by (auto simp: zip_rep_def)

lemma zip_not_root: "zip_rep h nil root (mk d n (a, c, e) f) C \<Longrightarrow> a \<noteq> root"
  by (auto simp: zip_rep_def)

lemma rb_entry_ok:
  assumes "rb_rep tree t"
  shows "rb_entry tree key = Ok (kv_get (key_eq tree) key (ents t))"
    "RBTreeGet tree key = Ok (case kv_get (key_eq tree) key (ents t) of None \<Rightarrow> NULL | Some e \<Rightarrow> snd e)"
proof -
  have cmp: "comparator UNIV (KeyCompare tree)" using assms by (simp add: rb_rep_def)
  show "rb_entry tree key = Ok (kv_get (key_eq tree) key (ents t))"
    using assms
  proof (cases rule: rb_searchE [where key = key])
    case (hit n a c e f C)
    then show ?thesis using hit_kv(3) [OF cmp hit(5,4), of a] zip_not_nil [OF hit(3)] node_eval(5) [where h = "rb_heap tree" and a = a, OF zip_node [OF hit(3)]]
      by (simp add: rb_entry_def Get_search [OF assms] ents_def)
  next
    case (miss C)
    then show ?thesis using between_kv(1) [OF cmp miss(4)] by (simp add: rb_entry_def Get_search [OF assms] ents_def kv_get_hd)
  qed
  then show "RBTreeGet tree key = Ok (case kv_get (key_eq tree) key (ents t) of None \<Rightarrow> NULL | Some e \<Rightarrow> snd e)"
    by (cases "Get tree key") (auto simp: rb_entry_def RBTreeGet_def split: if_splits option.splits)
qed

section \<open>Insertion\<close>

text \<open>The callbacks and sentinels stay.\<close>

definition same_calls :: "('k, 'v) RBTree \<Rightarrow> ('k, 'v) RBTree \<Rightarrow> bool" where
  "same_calls t t' \<longleftrightarrow> KeyCopy t' = KeyCopy t \<and> KeyCompare t' = KeyCompare t \<and> KeyDestroy t' = KeyDestroy t \<and> ValueCopy t' = ValueCopy t
     \<and> ValueCompare t' = ValueCompare t \<and> ValueDestroy t' = ValueDestroy t"

definition rb_frame :: "('k, 'v) RBTree \<Rightarrow> destroyer ptr \<times> destroyer ptr" where
  "rb_frame tree = (Ptr (KeyDestroy tree), Ptr (ValueDestroy tree))"

lemma set_entry_zip:
  assumes "zip_rep h nil root (mk d n (a, c, e) f) C"
  shows "zip_rep (h(a \<mapsto> node d c e' (top root C) (adr nil n) (adr nil f))) nil root (mk d n (a, c, e') f) C"
  using assms by (auto simp: zip_rep_def tree_rep_mk)

lemma same_zone: "zone root (mk d n (a, c, e) f) C = zone root (mk d n (a, c', e') f) C"
  by (simp add: zone_def)

lemma put_replace_ok:
  assumes "rb_rep tree (plug (mk Lft n (a, c, e) f) C)" "KeyCompare tree key (fst e) = 0"
    "zip_rep (rb_heap tree) (rb_nil tree) (rb_root tree) (mk Lft n (a, c, e) f) C"
    "between (KeyCompare tree) key (lcont C @ cont n) (cont f @ rcont C)"
  shows "\<exists>tree'. put_replace tree a key val = Ok (True, tree', gone_of (rb_frame tree) [e])
    \<and> rb_rep tree' (plug (mk Lft n (a, c, (key, val)) f) C) \<and> same_calls tree tree'"
proof -
  let ?t = "plug (mk Lft n (a, c, e) f) C" and ?t' = "plug (mk Lft n (a, c, (key, val)) f) C"
  have r: "rb_rep tree ?t" by (fact assms(1))
  have copies: "KeyCopy tree key = key" "ValueCopy tree val = val" using r by (simp_all add: rb_rep_def NoopCopy_def)
  let ?n = "node Lft c (key, val) (top (rb_root tree) C) (adr (rb_nil tree) n) (adr (rb_nil tree) f)"
  have "put_replace tree a key val = Ok (True, tree\<lparr>rb_heap := (rb_heap tree)(a \<mapsto> ?n)\<rparr>, gone_of (rb_frame tree) [e])"
    using node_eval(5) [where h = "rb_heap tree" and a = a, OF zip_node [OF assms(3)]] copies
    by (simp add: put_replace_def gone_of_def rb_frame_def) (simp add: node_def)
  moreover have "rb_rep (tree\<lparr>rb_heap := (rb_heap tree)(a \<mapsto> ?n)\<rparr>) ?t'"
  proof -
    have c: "cont ?t = (lcont C @ cont n) @ (a, e) # cont f @ rcont C" "cont ?t' = (lcont C @ cont n) @ (a, key, val) # cont f @ rcont C"
      by (simp_all add: cont_plug cont_mk)
    have "in_order (KeyCompare tree) ((lcont C @ cont n) @ cont f @ rcont C)"
      using r unfolding rb_rep_def c by (auto simp: in_order_append in_order_Cons)
    then have "in_order (KeyCompare tree) (cont ?t')" unfolding c using r assms(4) by (intro in_order_insert) (auto simp: rb_rep_def)
    moreover have "rbt ?t' \<and> \<not> is_red ?t'"
      using rbt_rename [of Lft n a c e f C] r by (simp add: rb_rep_def)
    moreover have "length (cont ?t') = length (cont ?t)" by (simp add: c)
    moreover have "zone (rb_root tree) ?t' [] = zone (rb_root tree) ?t []" unfolding zone_plug by (rule same_zone)
    ultimately show ?thesis using r set_entry_zip [OF assms(3), of "(key, val)"] by (simp add: rb_rep_def zip_plug [symmetric])
  qed
  ultimately show ?thesis by (simp add: same_calls_def)
qed

text \<open>A new red node at a leaf.\<close>

lemma link_new:
  assumes "zip_rep h nil root Leaf C" "z \<notin> zone root Leaf C" "z \<noteq> nil" "between cmp k (lcont C) (rcont C)"
    and h1_def: "h1 = h(z \<mapsto> node Lft True e (top root C) nil nil)"
  shows "\<exists>yn h2. rd h1 (top root C) = Ok yn
    \<and> (if top root C = root \<or> cmp k (rb_key yn) < 0 then set_left h1 (top root C) z else set_right h1 (top root C) z) = Ok h2
    \<and> zip_rep h2 nil root (mk Lft Leaf (z, True, e) Leaf) C"
proof (cases C rule: ctx_adrs.cases)
  case 1
  then have r: "h1 root = Some (sentinel nil)" and z: "z \<noteq> root" using assms by (auto simp: zip_rep_def zone_def sentinel_def)
  have "zip_rep (h1(root \<mapsto> (sentinel nil)\<lparr>rb_left := z\<rparr>)) nil root (mk Lft Leaf (z, True, e) Leaf) C"
    using assms(1,3) 1 z by (auto simp: zip_rep_def h1_def mk_def)
  then show ?thesis using r 1 by (simp add: set_left_def wr_def rd_def)
next
  case (2 d a c ee s C')
  have a: "h a = Some (node d c ee (top root C') nil (adr nil s))" and za: "z \<noteq> a" "a \<noteq> root"
    using assms(1,2) by (auto simp: 2 zip_rep_def zone_def)
  then have a1: "h1 a = Some (node d c ee (top root C') nil (adr nil s))" by (simp add: h1_def)
  have "cmp k (fst ee) < 0 \<longleftrightarrow> d = Lft" using assms(4) by (cases d) (auto simp: 2 between_def)
  then have link: "(if a = root \<or> cmp k (rb_key (node d c ee (top root C') nil (adr nil s))) < 0 then set_left h1 a z else set_right h1 a z)
      = Ok (h1(a \<mapsto> node d c ee (top root C') z (adr nil s)))"
    using za(2) node_eval(6) [where h = h1 and a = a, OF a1] by (cases d) (simp_all add: set_near_def)
  have "zip_rep (h1(a \<mapsto> node d c ee (top root C') z (adr nil s))) nil root (mk Lft Leaf (z, True, e) Leaf) C"
    using assms(1-3) za by (auto simp: 2 zip_rep_def h1_def mk_def zone_def)
  then show ?thesis using link node_eval(5) [where h = h1 and a = a, OF a1] unfolding 2 top.simps by blast
qed

lemma PutFix_ok:
  assumes "zip_rep (rb_heap tree) (rb_nil tree) (rb_root tree) t C" "rbt t" "is_red t" "ctx_ok C (bh t)" "length C < rb_fresh tree"
  shows "\<exists>h' t'. PutFix tree (adr (rb_nil tree) t) = Ok (tree\<lparr>rb_heap := h'\<rparr>) \<and> zip_rep h' (rb_nil tree) (rb_root tree) t' []
    \<and> rbt t' \<and> \<not> is_red t' \<and> cont t' = cont (plug t C)"
proof -
  from PutFix_loop_ok [OF assms] obtain h1 t1 where h1: "PutFix_loop (rb_fresh tree) (rb_nil tree) (rb_heap tree) (adr (rb_nil tree) t) = Ok h1"
    "zip_rep h1 (rb_nil tree) (rb_root tree) t1 []" "rbt (blacken t1)" "cont t1 = cont (plug t C)" unfolding put_done_def by blast
  have top: "get_left h1 (rb_root tree) = Ok (adr (rb_nil tree) t1)" using h1(2) by (simp add: zip_rep_def get_left_def rd_def sentinel_def)
  have "t1 \<noteq> Leaf" using h1(4) assms(3) by (cases t rule: is_red.cases) (auto simp: cont_plug)
  then obtain n a c e f where t1: "t1 = mk Lft n (a, c, e) f" using mk_ex by blast
  from set_red_zip [OF h1(2) [unfolded t1], of False] obtain h2 where
    h2: "set_red h1 a False = Ok h2" "zip_rep h2 (rb_nil tree) (rb_root tree) (blacken t1) []" by (auto simp: t1)
  have "assert_nil_black h2 (rb_nil tree) = Ok ()" using nil_black(1) [OF zip_nil [OF h2(2)]] .
  moreover have "assert_nil_black h2 (rb_root tree) = Ok ()"
    using h2(2) by (simp add: zip_rep_def assert_nil_black_def get_red_def rd_def sentinel_def)
  ultimately have "PutFix tree (adr (rb_nil tree) t) = Ok (tree\<lparr>rb_heap := h2\<rparr>)" using h1(1) top h2(1) by (simp add: PutFix_def t1)
  then show ?thesis using h2(2) h1(3,4) by (intro exI [of _ h2] exI [of _ "blacken t1"]) (simp del: mk_simps(2) add: t1 [symmetric])
qed

lemma put_new_ok:
  assumes "rb_rep tree (plug Leaf C)" "zip_rep (rb_heap tree) (rb_nil tree) (rb_root tree) Leaf C" "between (KeyCompare tree) key (lcont C) (rcont C)"
  shows "\<exists>tree' t'. put_new tree (top (rb_root tree) C) key val = Ok (False, tree', [], [])
    \<and> rb_rep tree' t' \<and> same_calls tree tree' \<and> cont t' = lcont C @ (rb_fresh tree, key, val) # rcont C"
proof -
  let ?nil = "rb_nil tree" and ?root = "rb_root tree" and ?z = "rb_fresh tree" and ?y = "top (rb_root tree) C"
  let ?t = "mk Lft Leaf (?z, True, (key, val)) Leaf"
  have r: "rb_rep tree (plug Leaf C)" by (fact assms(1))
  have copies: "KeyCopy tree key = key" "ValueCopy tree val = val" using r by (simp_all add: rb_rep_def NoopCopy_def)
  have bound: "\<forall>a \<in> insert ?nil (zone ?root Leaf C). a < ?z" using r by (simp add: rb_rep_def zone_plug)
  let ?h1 = "(rb_heap tree)(?z \<mapsto> node Lft True (key, val) ?y ?nil ?nil)"
  from link_new [OF assms(2) _ _ assms(3) refl, of ?z "(key, val)"] bound obtain yn h2 where
    h2: "rd ?h1 ?y = Ok yn" "(if ?y = ?root \<or> KeyCompare tree key (rb_key yn) < 0 then set_left ?h1 ?y ?z else set_right ?h1 ?y ?z) = Ok h2"
      "zip_rep h2 ?nil ?root ?t C" by blast
  let ?tree2 = "tree\<lparr>rb_fresh := ?z + 1, rb_heap := h2\<rparr>"
  have ctx: "ctx_ok C 0" using ctx_ok_plug [of Leaf C] r by (simp add: rb_rep_def)
  have len: "length C < ?z + 1" using zip_fuel [OF assms(2) bound] by simp
  have "\<exists>h' t'. PutFix ?tree2 (adr ?nil ?t) = Ok (?tree2\<lparr>rb_heap := h'\<rparr>) \<and> zip_rep h' ?nil ?root t' []
    \<and> rbt t' \<and> \<not> is_red t' \<and> cont t' = cont (plug ?t C)"
    using PutFix_ok [of ?tree2 ?t C] h2(3) ctx len by (simp add: rbt_mk mk_def)
  then obtain h3 t' where h3: "PutFix ?tree2 ?z = Ok (?tree2\<lparr>rb_heap := h3\<rparr>)" "zip_rep h3 ?nil ?root t' []"
    "rbt t'" "\<not> is_red t'" "cont t' = cont (plug ?t C)" by auto
  have c: "cont t' = lcont C @ (?z, key, val) # rcont C" using h3(5) by (simp add: cont_plug cont_mk)
  let ?tree' = "?tree2\<lparr>rb_heap := h3, rb_size := rb_size tree + 1\<rparr>"
  have new: "NodeNew tree ?y True key val = (?z, tree\<lparr>rb_heap := ?h1, rb_fresh := ?z + 1\<rparr>)"
    using copies by (simp add: NodeNew_def node_def)
  have "put_new tree ?y key val = Ok (False, ?tree', [], [])"
  proof -
    have "rd ?h1 ?z = Ok (node Lft True (key, val) ?y ?nil ?nil)" by (simp add: rd_def)
    then show ?thesis using h3(1) by (simp add: put_new_def new h2(1,2) del: bindE_Ok_iff fun_upd_apply split del: if_split cong: if_cong)
  qed
  moreover have "rb_rep ?tree' t'"
  proof -
    have "in_order (KeyCompare tree) (cont t')"
      unfolding c using r assms(3) by (intro in_order_insert) (simp_all add: rb_rep_def cont_plug)
    moreover have "length (cont t') = rb_size tree + 1" using r by (simp add: c rb_rep_def cont_plug)
    moreover have "zone ?root t' [] = insert ?z (zone ?root Leaf C)" by (auto simp: zone_cont c cont_plug)
    ultimately show ?thesis using r h3(2-4) bound by (auto simp: rb_rep_def)
  qed
  ultimately show ?thesis using c by (auto simp: same_calls_def)
qed

lemma RBTreePut_ok:
  assumes "rb_rep tree t"
  shows "\<exists>tree' t'. RBTreePut tree key val = Ok (kv_get (key_eq tree) key (ents t) \<noteq> None, tree', gone_of (rb_frame tree) (kv_old (key_eq tree) key (ents t)))
    \<and> rb_rep tree' t' \<and> same_calls tree tree' \<and> mset (ents t') = mset (kv_put (key_eq tree) key val (ents t))"
proof -
  have cmp: "comparator UNIV (KeyCompare tree)" using assms by (simp add: rb_rep_def)
  have put: "RBTreePut tree key val = bindE (put_search (rb_fresh tree) tree key (rb_root tree) (adr (rb_nil tree) t)) (\<lambda>(found, y).
     if found then put_replace tree y key val else put_new tree y key val)"
    using rb_rep_search(1) [OF assms] by (simp add: RBTreePut_def)
  show ?thesis
    using assms
  proof (cases rule: rb_searchE [where key = key])
    case (hit n a c e f C)
    let ?t = "plug (mk Lft n (a, c, (key, val)) f) C"
    from put_replace_ok [OF assms [unfolded hit(2)] hit(4,3,5), of val] obtain tree' where
      "put_replace tree a key val = Ok (True, tree', gone_of (rb_frame tree) [e])" "rb_rep tree' ?t" "same_calls tree tree'" by blast
    moreover have "mset (ents ?t) = mset (kv_put (key_eq tree) key val (ents t))"
      using hit_kv(2) [OF cmp hit(5,4), of a] by (simp add: ents_def hit(6) kv_put_def cont_plug cont_mk)
    ultimately show ?thesis using put hit(1) hit_kv(1,3) [OF cmp hit(5,4), of a]
      by (intro exI [of _ tree'] exI [of _ ?t]) (simp add: ents_def hit(6))
  next
    case (miss C)
    from put_new_ok [OF assms [unfolded miss(2)] miss(3,4), of val] obtain tree' t' where
      new: "put_new tree (top (rb_root tree) C) key val = Ok (False, tree', [], [])" "rb_rep tree' t'" "same_calls tree tree'"
        "cont t' = lcont C @ (rb_fresh tree, key, val) # rcont C" by blast
    have "mset (ents t') = mset (kv_put (key_eq tree) key val (ents t))"
      using between_kv(2) [OF cmp miss(4)] by (simp add: ents_def miss(5) kv_put_def new(4))
    then show ?thesis using put miss(1) new(1-3) between_kv(1) [OF cmp miss(4)]
      by (intro exI [of _ tree'] exI [of _ t']) (simp add: ents_def miss(5) kv_get_hd)
  qed
qed

end
