(* ===== verification/RbErase.thy ===== *)
theory RbErase
  imports RbMap
begin

text \<open>
  RBTreeRemove of rb-tree.c. A node with a free side is spliced out; a node with two children is replaced
  by its successor, which is spliced out in its stead, after RemoveFix has worked on the tree that still
  holds the node to be removed.
\<close>

section \<open>Taking a node out\<close>

lemma set_parent_sub:
  assumes "tree_rep h nil p t" "distinct (adrs t)" "nil \<notin> set (adrs t)" "nil_ok h nil"
  shows "\<exists>h'. set_parent h (adr nil t) q = Ok h' \<and> tree_rep h' nil q t \<and> nil_ok h' nil \<and> par_ok h' nil q t
    \<and> (\<forall>a. a \<noteq> nil \<and> a \<notin> set (adrs t) \<longrightarrow> h' a = h a)"
proof (cases "t = Leaf")
  case True
  from assms(4) obtain p' where "h nil = Some ((sentinel nil)\<lparr>rb_parent := p'\<rparr>)" by (auto simp: nil_ok_def)
  then show ?thesis using True
    by (auto simp: set_parent_def wr_def rd_def nil_ok_def par_ok_def get_parent_def sentinel_def)
next
  case False
  then have "adr nil t \<noteq> nil" using adr_in [OF False, of nil] assms(3) by auto
  with set_parent_tree [OF assms(1-3), of q] obtain h' where
    "set_parent h (adr nil t) q = Ok h'" "tree_rep h' nil q t" "\<forall>a. a \<notin> set (adrs t) \<longrightarrow> h' a = h a" by auto
  then show ?thesis using False assms(3,4) by (auto simp: nil_ok_def par_ok_def)
qed

lemma get_parent_eq: "h' a = h a \<Longrightarrow> get_parent h' a = get_parent h a"
  by (simp add: get_parent_def rd_def)

lemma splice_zip:
  assumes "zip_rep (rb_heap tree) (rb_nil tree) (rb_root tree) (mk d x (y, cy, ey) Leaf) C"
  shows "\<exists>h'. splice_out tree y (adr (rb_nil tree) x) = Ok (tree\<lparr>rb_heap := h'\<rparr>) \<and> zip_rep h' (rb_nil tree) (rb_root tree) x C
    \<and> par_ok h' (rb_nil tree) (top (rb_root tree) C) x \<and> h' y = rb_heap tree y \<and> y \<notin> zone (rb_root tree) x C \<and> y \<noteq> rb_nil tree"
proof -
  let ?h = "rb_heap tree" and ?nil = "rb_nil tree" and ?root = "rb_root tree" and ?p = "top (rb_root tree) C"
  have hy: "?h y = Some (node d cy ey ?p (adr ?nil x) ?nil)" using zip_node [OF assms] by simp
  have rep: "tree_rep ?h ?nil y x" and ctx: "ctx_rep ?h ?nil ?root y C" and nil: "nil_ok ?h ?nil"
    using assms by (simp_all add: zip_rep_def tree_rep_mk)
  have dist: "distinct (?nil # ?root # adrs x @ ctx_adrs C)" and y: "y \<notin> set (adrs x)" "y \<notin> set (ctx_adrs C)" "y \<noteq> ?nil" "y \<noteq> ?root"
    using assms by (auto simp: zip_rep_def)
  have dx: "distinct (adrs x)" "?nil \<notin> set (adrs x)" "distinct (?root # ctx_adrs C)" "?nil \<notin> set (ctx_adrs C)" "?nil \<noteq> ?root"
    "set (adrs x) \<inter> insert ?root (set (ctx_adrs C)) = {}" using dist by auto
  obtain h1 where h1: "set_parent ?h (adr ?nil x) ?p = Ok h1" "tree_rep h1 ?nil ?p x" "nil_ok h1 ?nil" "par_ok h1 ?nil ?p x"
    "\<forall>a. a \<noteq> ?nil \<and> a \<notin> set (adrs x) \<longrightarrow> h1 a = ?h a" using set_parent_sub [OF rep dx(1,2) nil] by blast
  have h1y: "h1 y = ?h y" using h1(5) y by simp
  have p1: "?p \<notin> set (adrs x)" "?p \<noteq> ?nil" "?p \<noteq> y"
    using top_notin [OF dx(6)] top_neq [OF dx(4), of ?root] dx(5) top_neq [OF y(2), of ?root] y(4) by auto
  have "ctx_rep h1 ?nil ?root y C" using ctx
  proof (rule ctx_rep_frame)
    show "h1 a = ?h a" if "a \<in> set (ctx_adrs C)" for a using that h1(5) dx(4,6) by (metis disjoint_iff insert_iff)
    show "h1 ?root = ?h ?root" using h1(5) dx(5,6) by simp
  qed
  from relink_ctx [OF this not_left_siblingI [OF y(2,3)] dx(3), of "adr ?nil x"] obtain h2 where
    h2: "relink h1 y ?p (adr ?nil x) = Ok h2" "ctx_rep h2 ?nil ?root (adr ?nil x) C" "\<forall>a. a \<noteq> ?p \<longrightarrow> h2 a = h1 a" by blast
  have gx: "get_parent h1 (adr ?nil x) = Ok ?p"
  proof (cases "x = Leaf")
    case False
    then obtain n a c e f where "x = mk Lft n (a, c, e) f" using mk_ex by blast
    then show ?thesis using h1(2) by (simp add: tree_rep_mk get_parent_def rd_def)
  qed (use h1(4) in \<open>simp add: par_ok_def\<close>)
  have gy: "get_parent h1 y = Ok ?p" "get_parent ?h y = Ok ?p" using h1y hy by (simp_all add: get_parent_def rd_def)
  have link: "(if ?root = ?p then set_left h1 ?root (adr ?nil x)
      else bindE (get_parent h1 y) (\<lambda>yp. bindE (get_left h1 yp) (\<lambda>ypl. if y = ypl then set_left h1 yp (adr ?nil x) else set_right h1 yp (adr ?nil x))))
    = Ok h2"
  proof (cases "C = []")
    case True
    then have "get_left h1 ?root = Ok y" using \<open>ctx_rep h1 ?nil ?root y C\<close> by (simp add: get_left_def rd_def)
    then show ?thesis using h2(1) True by (simp add: relink_def)
  next
    case False
    then have "?root \<noteq> ?p" using dx(3) by (cases C rule: ctx_adrs.cases) auto
    then show ?thesis using h2(1) gy(1) by (simp add: relink_def)
  qed
  have "splice_out tree y (adr ?nil x) = Ok (tree\<lparr>rb_heap := h2\<rparr>)" using gy h1(1) gx link by (simp add: splice_out_def del: bindE_Ok_iff)
  moreover have "zip_rep h2 ?nil ?root x C"
  proof -
    have "tree_rep h2 ?nil ?p x" using h1(2) by (rule tree_rep_frame) (use h2(3) p1(1) in metis)
    moreover have "nil_ok h2 ?nil" using h1(3) h2(3) p1 by (simp add: nil_ok_def)
    ultimately show ?thesis using h2(2) dist by (simp add: zip_rep_def)
  qed
  moreover have "par_ok h2 ?nil ?p x" using h1(4) h2(3) p1(2) get_parent_eq [of h2 ?nil h1] by (auto simp: par_ok_def)
  moreover have "h2 y = ?h y" using h2(3) p1 h1y by simp
  ultimately show ?thesis using y by (auto simp: zone_def)
qed

lemma RemoveFix_ok:
  assumes "zip_rep (rb_heap tree) (rb_nil tree) (rb_root tree) x C" "par_ok (rb_heap tree) (rb_nil tree) (top (rb_root tree) C) x"
    "rbt x" "ctx_ok C (Suc (bh x))" "\<forall>a \<in> insert (rb_nil tree) (zone (rb_root tree) x C). a < rb_fresh tree"
  shows "\<exists>h' t. RemoveFix tree (adr (rb_nil tree) x) = Ok (tree\<lparr>rb_heap := h'\<rparr>) \<and> zip_rep h' (rb_nil tree) (rb_root tree) t []
    \<and> rbt t \<and> \<not> is_red t \<and> cont t = cont (plug x C) \<and> same_off (zone (rb_root tree) x C) (rb_heap tree) h'"
proof -
  let ?h = "rb_heap tree" and ?nil = "rb_nil tree" and ?root = "rb_root tree"
  have top: "get_left ?h ?root = Ok (adr ?nil (plug x C))"
    using assms(1) zip_plug [of ?h ?nil ?root x C] by (simp add: zip_rep_def get_left_def rd_def sentinel_def)
  have "length C + 2 \<le> Suc (rb_fresh tree)" using zip_fuel [OF assms(1,5)] by simp
  from RemoveFix_loop_ok [OF assms(1,2) rbt_blacken [OF assms(3)] assms(4) refl this] obtain h' t where
    h': "RemoveFix_loop (Suc (rb_fresh tree)) ?nil (adr ?nil (plug x C)) ?h (adr ?nil x) = Ok h'" "zip_rep h' ?nil ?root t []"
      "rbt t" "\<not> is_red t" "cont t = cont (plug x C)" "same_off (zone ?root (plug x C) []) ?h h'" unfolding del_done_def by blast
  have "RemoveFix tree (adr ?nil x) = Ok (tree\<lparr>rb_heap := h'\<rparr>)"
    using nil_black(1) [OF zip_nil [OF assms(1)]] nil_black(1) [OF zip_nil [OF h'(2)]] top h'(1) by (simp add: RemoveFix_def del: RemoveFix_loop.simps)
  then show ?thesis using h'(2-5) h'(6) [unfolded zone_plug] by blast
qed

section \<open>The successor\<close>

lemma lcont_append: "lcont (C @ D) = lcont D @ lcont C" "rcont (C @ D) = rcont C @ rcont D"
  by (induction C rule: lcont.induct) auto

text \<open>The leftmost node of a subtree.\<close>

lemma go_left_ok:
  "zip_rep h nil root t C \<Longrightarrow> t \<noteq> Leaf \<Longrightarrow> size t < fuel \<Longrightarrow>
   \<exists>n y c e D. go_left fuel nil h (adr nil t) = Ok y \<and> t = plug (mk Rgt n (y, c, e) Leaf) D \<and> lcont D = []"
proof (induction fuel arbitrary: t C)
  case (Suc fuel)
  obtain l a c e r where t: "t = mk Lft l (a, c, e) r" using mk_ex [OF Suc.prems(2)] by blast
  have l: "get_left h a = Ok (adr nil l)"
    using node_eval(1) [where h = h and a = a, OF zip_node [OF Suc.prems(1) [unfolded t]]] by (simp add: get_near_def)
  have zl: "zip_rep h nil root l (Fr Lft (a, c, e) r # C)" using Suc.prems(1) by (simp add: t zip_up)
  show ?case
  proof (cases "l = Leaf")
    case True
    have "t = plug (mk Rgt r (a, c, e) Leaf) []" by (simp add: t True mk_def)
    then show ?thesis using l True t by (intro exI [of _ r] exI [of _ a] exI [of _ c] exI [of _ e] exI [of _ "[]"]) simp
  next
    case False
    then have "adr nil l \<noteq> nil" using adr_in [OF False, of nil] zl by (auto simp: zip_rep_def)
    moreover obtain n y c' e' D where d: "go_left fuel nil h (adr nil l) = Ok y" "l = plug (mk Rgt n (y, c', e') Leaf) D" "lcont D = []"
      using Suc.IH [OF zl False] Suc.prems(3) by (auto simp: t mk_def)
    ultimately have "go_left (Suc fuel) nil h (adr nil t) = Ok y" using l by (simp add: t)
    moreover have "t = plug (mk Rgt n (y, c', e') Leaf) (D @ [Fr Lft (a, c, e) r])" by (simp add: t plug_append d(2) [symmetric])
    moreover have "lcont (D @ [Fr Lft (a, c, e) r]) = []" by (simp add: lcont_append d(3))
    ultimately show ?thesis by blast
  qed
qed simp

lemma find_node: "(a, e) \<in> set (cont t) \<Longrightarrow> \<exists>n c f C. t = plug (mk Lft n (a, c, e) f) C"
proof (induction t rule: adrs.induct)
  case (2 l b c g r)
  then consider "a = b" "e = g" | "(a, e) \<in> set (cont l)" | "(a, e) \<in> set (cont r)" by auto
  then show ?case
  proof cases
    case 1
    then have "Node l (b, c, g) r = plug (mk Lft l (a, c, e) r) []" by (simp add: mk_def)
    then show ?thesis by blast
  next
    case 2
    then obtain n c' f C where "l = plug (mk Lft n (a, c', e) f) C" using "2.IH"(1) by blast
    then have "Node l (b, c, g) r = plug (mk Lft n (a, c', e) f) (C @ [Fr Lft (b, c, g) r])" by (simp add: plug_append) (simp add: mk_def)
    then show ?thesis by blast
  next
    case 3
    then obtain n c' f C where "r = plug (mk Lft n (a, c', e) f) C" using "2.IH"(2) by blast
    then have "Node l (b, c, g) r = plug (mk Lft n (a, c', e) f) (C @ [Fr Rgt (b, c, g) l])" by (simp add: plug_append) (simp add: mk_def)
    then show ?thesis by blast
  qed
qed simp

lemma cont_distinct: "zip_rep h nil root t [] \<Longrightarrow> distinct (map fst (cont t))"
proof -
  have "mset (map fst (cont t)) = mset (adrs t)" by (induction t rule: adrs.induct) auto
  then show "zip_rep h nil root t [] \<Longrightarrow> distinct (map fst (cont t))" using mset_eq_imp_distinct_iff by (fastforce simp: zip_rep_def)
qed

lemma split_unique:
  assumes "xs @ (a, e) # ys = xs' @ (a, e') # ys'" "distinct (map fst (xs @ (a, e) # ys))"
  shows "xs = xs' \<and> e = e' \<and> ys = ys'"
  using assms
proof (induction xs arbitrary: xs')
  case Nil
  then show ?case by (cases xs') force+
next
  case (Cons x xs)
  then show ?case by (cases xs') force+
qed

section \<open>Putting the successor in place\<close>

lemma put_in_place_zip:
  assumes "zip_rep h nil root (mk Lft n (z, c, ez) f) C" "h y = Some (node d cy ey p q r)" "y \<notin> zone root (mk Lft n (z, c, ez) f) C" "y \<noteq> nil"
  shows "\<exists>h'. put_in_place h z y = Ok h' \<and> zip_rep h' nil root (mk Lft n (y, c, ey) f) C \<and> h' z = h z"
proof -
  let ?p = "top root C"
  note hz = zip_node [OF assms(1)]
  have rep: "tree_rep h nil z n" "tree_rep h nil z f" and ctx: "ctx_rep h nil root z C" and nil: "nil_ok h nil"
    and dist: "distinct (nil # root # adrs (mk Lft n (z, c, ez) f) @ ctx_adrs C)" using assms(1) by (simp_all add: zip_rep_def tree_rep_mk)
  have y: "y \<noteq> z" "y \<notin> set (adrs n)" "y \<notin> set (adrs f)" "y \<notin> set (ctx_adrs C)" "y \<noteq> root" using assms(3) by (auto simp: zone_def)
  have z: "z \<noteq> nil" "z \<notin> set (ctx_adrs C)" "z \<noteq> root" "z \<notin> set (adrs n)" "z \<notin> set (adrs f)" using dist by auto
  have dn: "distinct (adrs n)" "nil \<notin> set (adrs n)" "distinct (adrs f)" "nil \<notin> set (adrs f)" "distinct (root # ctx_adrs C)"
    "set (adrs n) \<inter> set (adrs f) = {}" "nil \<notin> insert root (set (ctx_adrs C))"
    "set (adrs n) \<inter> insert root (set (ctx_adrs C)) = {}" "set (adrs f) \<inter> insert root (set (ctx_adrs C)) = {}"
    using dist by (simp_all add: Int_Un_distrib2)
  have p: "?p \<notin> set (adrs n)" "?p \<notin> set (adrs f)" "?p \<noteq> nil" "?p \<noteq> y" "?p \<noteq> z"
    using top_notin [OF dn(8)] top_notin [OF dn(9)] top_neq [of nil C root] dn(7) top_neq [OF y(4), of root] y(5) top_neq [OF z(2), of root] z(3) by auto
  let ?h1 = "h(y \<mapsto> node Lft c ey ?p (adr nil n) (adr nil f))"
  have "tree_rep ?h1 nil z n" "nil_ok ?h1 nil" using rep(1) nil y(2) assms(4) by simp_all
  from set_parent_sub [OF this(1) dn(1,2) this(2), of y] obtain h2 where h2: "set_parent ?h1 (adr nil n) y = Ok h2" "tree_rep h2 nil y n" "nil_ok h2 nil"
    "\<forall>a. a \<noteq> nil \<and> a \<notin> set (adrs n) \<longrightarrow> h2 a = ?h1 a" by blast
  have "tree_rep h2 nil z f"
  proof (rule tree_rep_frame [OF rep(2)])
    show "h2 a = h a" if "a \<in> set (adrs f)" for a using that h2(4) dn(4,6) y(3) by (auto simp: disjoint_iff)
  qed
  from set_parent_sub [OF this dn(3,4) h2(3), of y] obtain h3 where h3: "set_parent h2 (adr nil f) y = Ok h3" "tree_rep h3 nil y f" "nil_ok h3 nil"
    "\<forall>a. a \<noteq> nil \<and> a \<notin> set (adrs f) \<longrightarrow> h3 a = h2 a" by blast
  have off: "h3 a = ?h1 a" if "a \<noteq> nil" "a \<notin> set (adrs n)" "a \<notin> set (adrs f)" for a using that h2(4) h3(4) by simp
  have "ctx_rep h3 nil root z C"
  proof (rule ctx_rep_frame [OF ctx])
    show "h3 a = h a" if a: "a \<in> set (ctx_adrs C)" for a
    proof -
      have "a \<noteq> nil" "a \<notin> set (adrs n)" "a \<notin> set (adrs f)" "a \<noteq> y" using a dn(7,8,9) y(4) by blast+
      then show ?thesis using off [of a] by simp
    qed
    show "h3 root = h root" using off [of root] dn(7,8,9) y(5) by auto
  qed
  from relink_ctx [OF this not_left_siblingI [OF z(2,1)] dn(5), of y] obtain h4 where
    h4: "relink h3 z ?p y = Ok h4" "ctx_rep h4 nil root y C" "\<forall>a. a \<noteq> ?p \<longrightarrow> h4 a = h3 a" by blast
  have "get_parent h3 z = Ok ?p" using off [OF z(1,4,5)] y(1) hz by (simp add: get_parent_def rd_def)
  moreover have "wr h y (\<lambda>m. m\<lparr>rb_left := adr nil n, rb_right := adr nil f, rb_parent := ?p, rb_red := c\<rparr>) = Ok ?h1"
    using assms(2) by (cases d) (simp_all add: wr_def rd_def node_def)
  moreover have "rd h z = Ok (node Lft c ez ?p (adr nil n) (adr nil f))" using hz by (simp add: rd_def)
  ultimately have "put_in_place h z y = Ok h4" using h2(1) h3(1) h4(1)
    by (simp add: put_in_place_def relink_def del: bindE_Ok_iff fun_upd_apply) (simp add: node_def del: bindE_Ok_iff fun_upd_apply)
  moreover have "h4 z = h z" using h4(3) p(5) off [OF z(1,4,5)] y(1) by simp
  moreover have "zip_rep h4 nil root (mk Lft n (y, c, ey) f) C"
  proof -
    have "tree_rep h4 nil y n"
    proof (rule tree_rep_frame [OF h2(2)])
      show "h4 a = h2 a" if "a \<in> set (adrs n)" for a using that h4(3) h3(4) p(1) dn(2,6) by (metis disjoint_iff)
    qed
    moreover have "tree_rep h4 nil y f" by (rule tree_rep_frame [OF h3(2)]) (use h4(3) p(2) in metis)
    moreover have "h4 y = Some (node Lft c ey ?p (adr nil n) (adr nil f))" using h4(3) p(4) off [OF assms(4) y(2,3)] by simp
    moreover have "nil_ok h4 nil" using h3(3) h4(3) p(3) by (simp add: nil_ok_def)
    moreover have "distinct (nil # root # adrs (mk Lft n (y, c, ey) f) @ ctx_adrs C)" using dist y assms(4) by auto
    ultimately show ?thesis using h4(2) unfolding zip_rep_def tree_rep_mk by simp
  qed
  ultimately show ?thesis by blast
qed

section \<open>RBTreeRemove\<close>

lemma zip_free: "zip_rep h nil root t C \<Longrightarrow> y \<notin> zone root t C \<Longrightarrow> y \<noteq> nil \<Longrightarrow> zip_rep (h(y := n)) nil root t C"
  by (auto simp: zip_rep_def zone_def)

text \<open>A node with a free side leaves the tree, and the colours are put right.\<close>

lemma splice_fix:
  assumes "rb_rep tree (plug (mk d x (y, cy, ey) Leaf) C)"
  shows "\<exists>tree1 h2 t. splice_out tree y (adr (rb_nil tree) x) = Ok tree1 \<and> get_red (rb_heap tree1) y = Ok cy
    \<and> (if \<not> cy then RemoveFix tree1 (adr (rb_nil tree) x) else Ok tree1) = Ok (tree\<lparr>rb_heap := h2\<rparr>)
    \<and> zip_rep h2 (rb_nil tree) (rb_root tree) t [] \<and> rbt t \<and> \<not> is_red t \<and> cont t = cont (plug x C)
    \<and> h2 y = rb_heap tree y \<and> y \<notin> zone (rb_root tree) t [] \<and> y \<noteq> rb_nil tree
    \<and> assert_nil_black (rb_heap tree1) (rb_nil tree1) = Ok ()"
proof -
  let ?nil = "rb_nil tree" and ?root = "rb_root tree"
  have zip: "zip_rep (rb_heap tree) ?nil ?root (mk d x (y, cy, ey) Leaf) C"
    using assms zip_plug [of "rb_heap tree" ?nil ?root] by (simp add: rb_rep_def)
  have ok: "rbt (mk d x (y, cy, ey) Leaf)" "ctx_ok C (bh (mk d x (y, cy, ey) Leaf))" using ctx_ok_plug [of "mk d x (y, cy, ey) Leaf" C] assms by (simp_all add: rb_rep_def)
  have bound: "\<forall>a \<in> insert ?nil (zone ?root x C). a < rb_fresh tree"
    using assms unfolding rb_rep_def zone_plug by (auto simp: zone_def)
  from splice_zip [OF zip] obtain h1 where h1: "splice_out tree y (adr ?nil x) = Ok (tree\<lparr>rb_heap := h1\<rparr>)" "zip_rep h1 ?nil ?root x C"
    "par_ok h1 ?nil (top ?root C) x" "h1 y = rb_heap tree y" "y \<notin> zone ?root x C" "y \<noteq> ?nil" by blast
  have black: "assert_nil_black h1 ?nil = Ok ()" using nil_black(1) [OF zip_nil [OF h1(2)]] .
  have red: "get_red h1 y = Ok cy" using h1(4) zip_node [OF zip] by (simp add: get_red_def rd_def)
  have bx: "bh x = 0" "rbt x" "cy \<longrightarrow> \<not> is_red x" using ok(1) by (auto simp: rbt_mk)
  have ctx: "ctx_ok C (if cy then 0 else 1)" using ok(2) bx(1) by (simp add: bh_mk)
  show ?thesis
  proof (cases cy)
    case True
    then have "rbt (plug x C)" "\<not> is_red (plug x C)" using rbt_plug [of x C] bx ctx by auto
    moreover have "zip_rep h1 ?nil ?root (plug x C) []" using h1(2) zip_plug by blast
    ultimately show ?thesis using h1 red black True by (intro exI [of _ "tree\<lparr>rb_heap := h1\<rparr>"] exI [of _ h1] exI [of _ "plug x C"]) (simp add: zone_plug)
  next
    case False
    let ?tree1 = "tree\<lparr>rb_heap := h1\<rparr>"
    have "\<exists>h' t. RemoveFix ?tree1 (adr ?nil x) = Ok (?tree1\<lparr>rb_heap := h'\<rparr>) \<and> zip_rep h' ?nil ?root t []
      \<and> rbt t \<and> \<not> is_red t \<and> cont t = cont (plug x C) \<and> same_off (zone ?root x C) h1 h'"
      using RemoveFix_ok [of ?tree1 x C] h1(2,3) bx ctx False bound by simp
    then obtain h2 t where h2: "RemoveFix ?tree1 (adr ?nil x) = Ok (tree\<lparr>rb_heap := h2\<rparr>)" "zip_rep h2 ?nil ?root t []"
      "rbt t" "\<not> is_red t" "cont t = cont (plug x C)" "same_off (zone ?root x C) h1 h2" by auto
    have "h2 y = rb_heap tree y" using h2(6) h1(4,5) by (simp add: same_off_def)
    moreover have "y \<notin> zone ?root t []" using h1(5) h2(5) by (simp add: zone_cont)
    ultimately show ?thesis using h1(1,6) red black False h2(1-5) by (intro exI [of _ ?tree1] exI [of _ h2] exI [of _ t]) simp
  qed
qed

text \<open>What is left of the tree.\<close>

lemma rb_rep_erase:
  assumes "rb_rep tree t" "cont t = ls @ (a, e) # rs" "zip_rep h' (rb_nil tree) (rb_root tree) t' []" "rbt t'" "\<not> is_red t'" "cont t' = ls @ rs"
  shows "rb_rep (tree\<lparr>rb_heap := h', rb_size := rb_size tree - 1\<rparr>) t'"
proof -
  have "zone (rb_root tree) t' [] \<subseteq> zone (rb_root tree) t []" using assms(2,6) by (auto simp: zone_cont)
  moreover have "in_order (KeyCompare tree) (ls @ rs)" using assms(1,2) by (auto simp: rb_rep_def in_order_append in_order_Cons)
  ultimately show ?thesis using assms by (auto simp: rb_rep_def)
qed

lemma remove_leafward:
  assumes "rb_rep tree t" "t = plug (mk d x (z, c, e) Leaf) C"
  shows "\<exists>tree1 tree2 h3 t'. splice_out tree z (adr (rb_nil tree) x) = Ok tree1 \<and> get_red (rb_heap tree1) z = Ok c
    \<and> (if \<not> c then RemoveFix tree1 (adr (rb_nil tree) x) else Ok tree1) = Ok tree2
    \<and> NodeDestroy tree2 z = Ok (tree\<lparr>rb_heap := h3\<rparr>, gone_of (rb_frame tree) [e])
    \<and> zip_rep h3 (rb_nil tree) (rb_root tree) t' [] \<and> rbt t' \<and> \<not> is_red t' \<and> cont t' = cont (plug x C)"
proof -
  from splice_fix [OF assms(1) [unfolded assms(2)]] obtain tree1 h2 t' where
    s: "splice_out tree z (adr (rb_nil tree) x) = Ok tree1" "get_red (rb_heap tree1) z = Ok c"
      "(if \<not> c then RemoveFix tree1 (adr (rb_nil tree) x) else Ok tree1) = Ok (tree\<lparr>rb_heap := h2\<rparr>)"
      "zip_rep h2 (rb_nil tree) (rb_root tree) t' []" "rbt t'" "\<not> is_red t'" "cont t' = cont (plug x C)"
      "h2 z = rb_heap tree z" "z \<notin> zone (rb_root tree) t' []" "z \<noteq> rb_nil tree" by blast
  have "zip_rep (rb_heap tree) (rb_nil tree) (rb_root tree) (mk d x (z, c, e) Leaf) C"
    using assms zip_plug [of "rb_heap tree" "rb_nil tree" "rb_root tree"] by (simp add: rb_rep_def)
  then have "h2 z = Some (node d c e (top (rb_root tree) C) (adr (rb_nil tree) x) (rb_nil tree))" using s(8) zip_node by fastforce
  then have "NodeDestroy (tree\<lparr>rb_heap := h2\<rparr>) z = Ok (tree\<lparr>rb_heap := h2(z := None)\<rparr>, gone_of (rb_frame tree) [e])"
    by (simp add: NodeDestroy_def rd_def gone_of_def rb_frame_def)
  then show ?thesis using s zip_free [OF s(4,9,10), of None]
    by (intro exI [of _ tree1] exI [of _ "tree\<lparr>rb_heap := h2\<rparr>"] exI [of _ "h2(z := None)"] exI [of _ t']) simp
qed

lemma remove_innerE:
  fixes tree :: "('k, 'v) RBTree"
  assumes "rb_rep tree t" "t = plug (mk Lft l (z, c, e) r) C" "r \<noteq> Leaf"
  obtains n :: "('k ptr \<times> 'v ptr) nd tree" and y cy ey p tree1 tree2 h3 h4 t' where "Next tree z = Ok y" "y \<noteq> z" "y \<noteq> rb_nil tree"
    "rb_heap tree y = Some (node Rgt cy ey p (adr (rb_nil tree) n) (rb_nil tree))"
    "splice_out tree y (adr (rb_nil tree) n) = Ok tree1" "get_red (rb_heap tree1) y = Ok cy"
    "(if \<not> cy then RemoveFix tree1 (adr (rb_nil tree) n) else Ok tree1) = Ok tree2"
    "put_in_place (rb_heap tree2) z y = Ok h3" "NodeDestroy (tree2\<lparr>rb_heap := h3\<rparr>) z = Ok (tree\<lparr>rb_heap := h4\<rparr>, gone_of (rb_frame tree) [e])"
    "zip_rep h4 (rb_nil tree) (rb_root tree) t' []" "rbt t'" "\<not> is_red t'" "cont t' = (lcont C @ cont l) @ (cont r @ rcont C)"
    "assert_nil_black (rb_heap tree1) (rb_nil tree1) = Ok ()"
proof -
  let ?h = "rb_heap tree" and ?nil = "rb_nil tree" and ?root = "rb_root tree"
  have zip: "zip_rep ?h ?nil ?root (mk Lft l (z, c, e) r) C" using assms zip_plug [of ?h ?nil ?root] by (simp add: rb_rep_def)
  have zr: "zip_rep ?h ?nil ?root r (Fr Rgt (z, c, e) l # C)" using zip by (simp add: zip_up mk_def)
  have bound: "\<forall>a \<in> insert ?nil (zone ?root r (Fr Rgt (z, c, e) l # C)). a < rb_fresh tree"
    using assms(1) unfolding rb_rep_def assms(2) zone_plug by (auto simp: zone_def)
  then have fuel: "size r < rb_fresh tree" using zip_fuel [OF zr bound] by simp
  from go_left_ok [OF zr assms(3) fuel] obtain n y cy ey D where
    y: "go_left (rb_fresh tree) ?nil ?h (adr ?nil r) = Ok y" "r = plug (mk Rgt n (y, cy, ey) Leaf) D" "lcont D = []" by blast
  let ?C = "D @ Fr Rgt (z, c, e) l # C"
  have t: "t = plug (mk Rgt n (y, cy, ey) Leaf) ?C" by (simp add: plug_append y(2) [symmetric] assms(2)) (simp add: mk_def)
  have hz: "?h z = Some (node Lft c e (top ?root C) (adr ?nil l) (adr ?nil r))" using zip_node [OF zip] .
  have "adr ?nil r \<noteq> ?nil" using adr_in [OF assms(3), of ?nil] zr by (auto simp: zip_rep_def)
  then have nxt: "Next tree z = Ok y"
    using y(1) node_eval(2) [where h = ?h and a = z, OF hz] by (simp add: Next_def get_near_def)
  have zy: "zip_rep ?h ?nil ?root (mk Rgt n (y, cy, ey) Leaf) ?C" using assms(1) zip_plug [of ?h ?nil ?root] by (simp add: rb_rep_def t)
  have hy: "?h y = Some (node Rgt cy ey (top ?root ?C) (adr ?nil n) ?nil)" using zip_node [OF zy] by simp
  from splice_fix [OF assms(1) [unfolded t]] obtain tree1 h2 t2 where
    s: "splice_out tree y (adr ?nil n) = Ok tree1" "get_red (rb_heap tree1) y = Ok cy"
      "(if \<not> cy then RemoveFix tree1 (adr ?nil n) else Ok tree1) = Ok (tree\<lparr>rb_heap := h2\<rparr>)"
      "zip_rep h2 ?nil ?root t2 []" "rbt t2" "\<not> is_red t2" "cont t2 = cont (plug n ?C)"
      "h2 y = ?h y" "y \<notin> zone ?root t2 []" "y \<noteq> ?nil" "assert_nil_black (rb_heap tree1) (rb_nil tree1) = Ok ()" by blast
  have c2: "cont t2 = (lcont C @ cont l) @ (z, e) # cont n @ rcont D @ rcont C"
    using s(7) y(3) by (simp add: cont_plug lcont_append)
  then obtain m c' f C' where t2: "t2 = plug (mk Lft m (z, c', e) f) C'" using find_node [of z e t2] by auto
  have z2: "zip_rep h2 ?nil ?root (mk Lft m (z, c', e) f) C'" using s(4) zip_plug [of h2 ?nil ?root] by (simp add: t2)
  have "cont t2 = (lcont C' @ cont m) @ (z, e) # cont f @ rcont C'" by (simp add: t2 cont_plug cont_mk)
  then have same: "lcont C' @ cont m = lcont C @ cont l" "cont f @ rcont C' = cont n @ rcont D @ rcont C"
    using split_unique [of "lcont C' @ cont m" z e "cont f @ rcont C'" "lcont C @ cont l" e "cont n @ rcont D @ rcont C"] c2 cont_distinct [OF s(4)] by auto
  have "y \<notin> zone ?root (mk Lft m (z, c', e) f) C'" using s(9) by (simp add: t2 zone_plug)
  from put_in_place_zip [OF z2 s(8) [unfolded hy] this s(10)] obtain h3 where
    h3: "put_in_place h2 z y = Ok h3" "zip_rep h3 ?nil ?root (mk Lft m (y, c', ey) f) C'" "h3 z = h2 z" by blast
  let ?t = "plug (mk Lft m (y, c', ey) f) C'"
  have yz: "y \<noteq> z" using s(9) unfolding t2 zone_plug by (auto simp: zone_def)
  have gone: "NodeDestroy (tree\<lparr>rb_heap := h3\<rparr>) z = Ok (tree\<lparr>rb_heap := h3(z := None)\<rparr>, gone_of (rb_frame tree) [e])"
    using h3(3) zip_node [OF z2] by (simp add: NodeDestroy_def rd_def gone_of_def rb_frame_def)
  have "z \<notin> zone ?root (mk Lft m (y, c', ey) f) C'" "z \<noteq> ?nil" using z2 yz by (auto simp: zip_rep_def zone_def)
  then have rep: "zip_rep (h3(z := None)) ?nil ?root ?t []" using zip_free [OF h3(2), of z None] zip_plug by blast
  have rb: "rbt ?t" "\<not> is_red ?t" using rbt_rename [of Lft m z c' e f C'] s(5,6) by (simp_all add: t2)
  have cont: "cont ?t = (lcont C @ cont l) @ (cont r @ rcont C)"
    using same y(3) by (simp add: cont_plug cont_mk y(2))
  show thesis by (rule that [OF nxt yz s(10) hy s(1,2,3) _ _ rep rb cont s(11)]) (use h3(1) gone in simp_all)
qed

text \<open>The last steps, whichever node left the tree.\<close>

lemma remove_endE:
  assumes "rb_rep tree t" "cont t = ls @ (a, e) # rs" "zip_rep h' (rb_nil tree) (rb_root tree) t' []" "rbt t'" "\<not> is_red t'" "cont t' = ls @ rs"
  obtains tree' where "bindE (assert_nil_black h' (rb_nil tree)) (\<lambda>_. if rb_size tree = 0 then Fault CounterWrap
      else Ok (True, tree\<lparr>rb_heap := h', rb_size := rb_size tree - 1\<rparr>, gone)) = Ok (True, tree', gone)"
    "rb_rep tree' t'" "same_calls tree tree'"
proof -
  have "rb_size tree \<noteq> 0" using assms(1,2) by (simp add: rb_rep_def)
  then show thesis using that [of "tree\<lparr>rb_heap := h', rb_size := rb_size tree - 1\<rparr>"] nil_black(1) [OF zip_nil [OF assms(3)]] rb_rep_erase [OF assms]
    by (simp add: same_calls_def)
qed

lemma remove_hit:
  fixes tree :: "('k, 'v) RBTree"
  assumes "rb_rep tree t" "t = plug (mk Lft n (a, c, e) f) C" "Get tree key = Ok a"
  shows "\<exists>tree' t'. RBTreeRemove tree key = Ok (True, tree', gone_of (rb_frame tree) [e]) \<and> rb_rep tree' t' \<and> same_calls tree tree'
    \<and> cont t' = (lcont C @ cont n) @ (cont f @ rcont C)"
proof -
  let ?nil = "rb_nil tree"
  have zip: "zip_rep (rb_heap tree) ?nil (rb_root tree) (mk Lft n (a, c, e) f) C"
    using assms(1) zip_plug [of "rb_heap tree" ?nil "rb_root tree"] by (simp add: rb_rep_def assms(2))
  have rd: "rd (rb_heap tree) a = Ok (node Lft c e (top (rb_root tree) C) (adr ?nil n) (adr ?nil f))"
    using node_eval(5) [where h = "rb_heap tree" and a = a, OF zip_node [OF zip]] .
  have c: "cont t = (lcont C @ cont n) @ (a, e) # (cont f @ rcont C)" by (simp add: assms(2) cont_plug cont_mk)
  have start: "assert_nil_black (rb_heap tree) ?nil = Ok ()" using nil_black(1) [OF rb_rep_nil [OF assms(1)]] .
  have a: "a \<noteq> ?nil" using zip_not_nil [OF zip] .
  have leaf: "(adr ?nil s = ?nil) = (s = Leaf)" if "s = n \<or> s = f" for s
    using that zip adr_in [of s ?nil] by (cases "s = Leaf") (auto simp: zip_rep_def)
  show ?thesis
  proof (cases "n = Leaf \<or> f = Leaf")
    case True
    then have free: "(adr ?nil n = ?nil \<or> adr ?nil f = ?nil) = True" using leaf by auto
    obtain d x where x: "mk Lft n (a, c, e) f = mk d x (a, c, e) Leaf" "adr ?nil x = (if adr ?nil n = ?nil then adr ?nil f else adr ?nil n)"
      "cont x = cont n @ cont f" 
    proof (cases "n = Leaf")
      case True
      then show thesis using that [of Rgt f] leaf [of n] by (simp add: mk_def)
    next
      case False
      then show thesis using that [of Lft n] leaf [of n] \<open>n = Leaf \<or> f = Leaf\<close> by (simp add: mk_def)
    qed
    from remove_leafward [OF assms(1) assms(2) [unfolded x(1)]] obtain tree1 tree2 h3 t' where
      s: "splice_out tree a (adr ?nil x) = Ok tree1" "get_red (rb_heap tree1) a = Ok c"
        "(if \<not> c then RemoveFix tree1 (adr ?nil x) else Ok tree1) = Ok tree2"
        "NodeDestroy tree2 a = Ok (tree\<lparr>rb_heap := h3\<rparr>, gone_of (rb_frame tree) [e])"
        "zip_rep h3 ?nil (rb_root tree) t' []" "rbt t'" "\<not> is_red t'" "cont t' = cont (plug x C)" by blast
    have c': "cont t' = (lcont C @ cont n) @ (cont f @ rcont C)" using s(8) by (simp add: cont_plug x(3))
    obtain tree' where
      e: "bindE (assert_nil_black h3 ?nil) (\<lambda>_. if rb_size tree = 0 then Fault CounterWrap
        else Ok (True, tree\<lparr>rb_heap := h3, rb_size := rb_size tree - 1\<rparr>, gone_of (rb_frame tree) [e])) = Ok (True, tree', gone_of (rb_frame tree) [e])"
        "rb_rep tree' t'" "same_calls tree tree'" by (rule remove_endE [OF assms(1) c s(5-7) c'])
    have "RBTreeRemove tree key = Ok (True, tree', gone_of (rb_frame tree) [e])"
      unfolding RBTreeRemove_def using free a s(1-4) e(1)
      by (simp add: start assms(3) rd x(2) [symmetric] Let_def node_def del: bindE_Ok_iff split del: if_split cong: if_cong)
    then show ?thesis using e(2,3) c' by blast
  next
    case False
    then have f: "f \<noteq> Leaf" and free: "(adr ?nil n = ?nil \<or> adr ?nil f = ?nil) = False" using leaf by auto
    obtain m :: "('k ptr \<times> 'v ptr) nd tree" and y cy ey p tree1 tree2 h3 h4 t' where
      s: "Next tree a = Ok y" "y \<noteq> a" "y \<noteq> ?nil" "rb_heap tree y = Some (node Rgt cy ey p (adr ?nil m) ?nil)"
        "splice_out tree y (adr ?nil m) = Ok tree1" "get_red (rb_heap tree1) y = Ok cy"
        "(if \<not> cy then RemoveFix tree1 (adr ?nil m) else Ok tree1) = Ok tree2"
        "put_in_place (rb_heap tree2) a y = Ok h3" "NodeDestroy (tree2\<lparr>rb_heap := h3\<rparr>) a = Ok (tree\<lparr>rb_heap := h4\<rparr>, gone_of (rb_frame tree) [e])"
        "zip_rep h4 ?nil (rb_root tree) t' []" "rbt t'" "\<not> is_red t'" "cont t' = (lcont C @ cont n) @ (cont f @ rcont C)"
        "assert_nil_black (rb_heap tree1) (rb_nil tree1) = Ok ()" by (rule remove_innerE [OF assms(1,2) f])
    note c' = s(13)
    obtain tree' where
      e: "bindE (assert_nil_black h4 ?nil) (\<lambda>_. if rb_size tree = 0 then Fault CounterWrap
        else Ok (True, tree\<lparr>rb_heap := h4, rb_size := rb_size tree - 1\<rparr>, gone_of (rb_frame tree) [e])) = Ok (True, tree', gone_of (rb_frame tree) [e])"
        "rb_rep tree' t'" "same_calls tree tree'" by (rule remove_endE [OF assms(1) c s(10-12) c'])
    have rdy: "rd (rb_heap tree) y = Ok (node Rgt cy ey p (adr ?nil m) ?nil)" using s(4) by (simp add: rd_def)
    have "RBTreeRemove tree key = Ok (True, tree', gone_of (rb_frame tree) [e])"
      unfolding RBTreeRemove_def using free a s(1-3,5-9,14) e(1)
      by (simp add: start assms(3) rd rdy Let_def node_def del: bindE_Ok_iff split del: if_split cong: if_cong)
    then show ?thesis using e(2,3) c' by blast
  qed
qed

lemma RBTreeRemove_ok:
  assumes "rb_rep tree t"
  shows "\<exists>tree' t'. RBTreeRemove tree key = Ok (kv_get (key_eq tree) key (ents t) \<noteq> None, tree', gone_of (rb_frame tree) (kv_old (key_eq tree) key (ents t)))
    \<and> rb_rep tree' t' \<and> same_calls tree tree' \<and> ents t' = kv_del (key_eq tree) key (ents t)"
proof -
  have cmp: "comparator UNIV (KeyCompare tree)" using assms by (simp add: rb_rep_def)
  show ?thesis
    using assms
  proof (cases rule: rb_searchE [where key = key])
    case (hit n a c e f C)
    then have "Get tree key = Ok a" by (simp add: Get_search [OF assms])
    from remove_hit [OF assms hit(2) this] obtain tree' t' where
      "RBTreeRemove tree key = Ok (True, tree', gone_of (rb_frame tree) [e])" "rb_rep tree' t'" "same_calls tree tree'"
      "cont t' = (lcont C @ cont n) @ (cont f @ rcont C)" by blast
    then show ?thesis using hit_kv [OF cmp hit(5,4), of a]
      by (intro exI [of _ tree'] exI [of _ t']) (simp add: ents_def hit(6))
  next
    case (miss C)
    then have "Get tree key = Ok (rb_nil tree)" by (simp add: Get_search [OF assms])
    then have "RBTreeRemove tree key = Ok (False, tree, [], [])"
      using nil_black(1) [OF rb_rep_nil [OF assms]] by (simp add: RBTreeRemove_def)
    then show ?thesis using assms between_kv [OF cmp miss(4)]
      by (intro exI [of _ tree] exI [of _ t]) (simp add: ents_def miss(5) kv_get_hd same_calls_def)
  qed
qed

end
