(* ===== verification/RbStore.thy ===== *)
theory RbStore
  imports RbErase
begin

text \<open>
  The red-black tree of rb-tree.c as a key/value store: a new tree is empty, and insertion, removal and
  lookup satisfy the interface \<open>kv_store\<close> that the other maps satisfy. The code's own check VerifyTree\_
  passes on every tree that the operations reach, and RBTreeDestroy releases every entry.
\<close>

section \<open>The interface\<close>

text \<open>The tree compares with \<open>cmp\<close> and holds the entries \<open>xs\<close>.\<close>

definition rb_holds :: "('k ptr \<Rightarrow> 'k ptr \<Rightarrow> int) \<Rightarrow> ('k, 'v) RBTree \<Rightarrow> ('k ptr \<times> 'v ptr) list \<Rightarrow> bool" where
  "rb_holds cmp tree xs \<longleftrightarrow> KeyCompare tree = cmp \<and> (\<exists>t. rb_rep tree t \<and> mset (ents t) = mset xs)"

lemma rb_holdsE:
  assumes "rb_holds cmp tree xs"
  obtains t where "KeyCompare tree = cmp" "rb_rep tree t" "mset (ents t) = mset xs" "uniq (\<lambda>a b. cmp a b = 0) (ents t)" "comparator UNIV cmp"
proof -
  from assms obtain t where t: "KeyCompare tree = cmp" "rb_rep tree t" "mset (ents t) = mset xs" by (auto simp: rb_holds_def)
  then have "comparator UNIV cmp" "uniq (\<lambda>a b. cmp a b = 0) (ents t)"
    using in_order_uniq [of cmp "cont t"] by (auto simp: rb_rep_def ents_def)
  then show thesis using t that by blast
qed

lemma rb_frame_same: "same_calls tree tree' \<Longrightarrow> rb_frame tree' = rb_frame tree \<and> KeyCompare tree' = KeyCompare tree"
  by (simp add: same_calls_def rb_frame_def)

lemma RBTreeNew_rep:
  "comparator UNIV cmp \<Longrightarrow> rb_rep (RBTreeNew ka va NULL (Ptr cmp) kd NULL vc vd) Leaf"
  by (auto simp: RBTreeNew_def Reset_def rb_rep_def zip_rep_def nil_ok_def sentinel_def zone_def)

lemma RBTreeNew_holds: "comparator UNIV cmp \<Longrightarrow> rb_holds cmp (RBTreeNew ka va NULL (Ptr cmp) kd NULL vc vd) []"
  using RBTreeNew_rep [of cmp ka va kd vc vd] by (auto simp: rb_holds_def ents_def RBTreeNew_def Reset_def intro!: exI [of _ Leaf])

interpretation rb: kv_store "rb_holds cmp" "\<lambda>a b. cmp a b = 0" rb_frame RBTreePut RBTreeRemove rb_entry
  for cmp :: "'k ptr \<Rightarrow> 'k ptr \<Rightarrow> int"
proof unfold_locales
  fix tree :: "('k, 'v) RBTree" and xs k v
  let ?eq = "\<lambda>a b. cmp a b = 0"
  assume rep: "rb_holds cmp tree xs"
  from rep obtain t where t: "KeyCompare tree = cmp" "rb_rep tree t" "mset (ents t) = mset xs" "uniq ?eq (ents t)" "comparator UNIV cmp"
    by (rule rb_holdsE)
  note same = kv_get_perm [OF t(4,3), of k] kv_old_perm [OF t(4,3), of k]
  show "equivp ?eq" using t(5) by (rule comparator_equiv)
  show "uniq ?eq xs" using uniq_mset [OF t(3)] t(4) by blast
  show "rb_entry tree k = Ok (kv_get ?eq k xs)" using rb_entry_ok(1) [OF t(2), of k] by (simp add: t(1) same)
  show "\<exists>s'. RBTreePut tree k v = Ok (kv_get ?eq k xs \<noteq> None, s', gone_of (rb_frame tree) (kv_old ?eq k xs))
    \<and> rb_holds cmp s' (kv_put ?eq k v xs) \<and> rb_frame s' = rb_frame tree"
  proof -
    from RBTreePut_ok [OF t(2), of k v] obtain tree' t' where
      "RBTreePut tree k v = Ok (kv_get ?eq k xs \<noteq> None, tree', gone_of (rb_frame tree) (kv_old ?eq k xs))"
      "rb_rep tree' t'" "same_calls tree tree'" "mset (ents t') = mset (kv_put ?eq k v (ents t))" unfolding t(1) same by blast
    then show ?thesis using rb_frame_same [of tree tree'] kv_put_mset [OF t(3), of ?eq k v] t(1)
      by (intro exI [of _ tree']) (auto simp: rb_holds_def intro!: exI [of _ t'])
  qed
  show "\<exists>s'. RBTreeRemove tree k = Ok (kv_get ?eq k xs \<noteq> None, s', gone_of (rb_frame tree) (kv_old ?eq k xs))
    \<and> rb_holds cmp s' (kv_del ?eq k xs) \<and> rb_frame s' = rb_frame tree"
  proof -
    from RBTreeRemove_ok [OF t(2), of k] obtain tree' t' where
      "RBTreeRemove tree k = Ok (kv_get ?eq k xs \<noteq> None, tree', gone_of (rb_frame tree) (kv_old ?eq k xs))"
      "rb_rep tree' t'" "same_calls tree tree'" "ents t' = kv_del ?eq k (ents t)" unfolding t(1) same by blast
    then show ?thesis using rb_frame_same [of tree tree'] kv_del_mset [OF t(3), of ?eq k] t(1)
      by (intro exI [of _ tree']) (auto simp: rb_holds_def intro!: exI [of _ t'])
  qed
qed

lemma rb_holds_get: "rb_holds cmp tree xs \<Longrightarrow> RBTreeGet tree key = Ok (case kv_get (\<lambda>a b. cmp a b = 0) key xs of None \<Rightarrow> NULL | Some e \<Rightarrow> snd e)"
proof (erule rb_holdsE)
  fix t assume t: "KeyCompare tree = cmp" "rb_rep tree t" "mset (ents t) = mset xs" "uniq (\<lambda>a b. cmp a b = 0) (ents t)"
  show ?thesis using rb_entry_ok(2) [OF t(2), of key] kv_get_perm [OF t(4,3), of key] by (simp add: t(1))
qed

section \<open>The code's own check\<close>

lemma get_red_sub: "tree_rep h nil p t \<Longrightarrow> nil_ok h nil \<Longrightarrow> get_red h (adr nil t) = Ok (is_red t)"
proof (cases t rule: is_red.cases)
  case 1
  then show "nil_ok h nil \<Longrightarrow> ?thesis" by (simp add: nil_black(2))
qed (simp add: get_red_def rd_def)

lemma VerifyNode_ok:
  "tree_rep (rb_heap tree) (rb_nil tree) p t \<Longrightarrow> nil_ok (rb_heap tree) (rb_nil tree) \<Longrightarrow> rb_nil tree \<notin> set (adrs t) \<Longrightarrow> rbt t \<Longrightarrow>
   0 \<le> n \<Longrightarrow> m = - 1 \<or> m = n + int (bh t) + 1 \<Longrightarrow> size t < fuel \<Longrightarrow>
   VerifyNode fuel tree (adr (rb_nil tree) t) n m = Ok (n + int (bh t) + 1)"
proof (induction t arbitrary: p n m fuel rule: adrs.induct)
  case 1
  then obtain fuel' q where "fuel = Suc fuel'" "rd (rb_heap tree) (rb_nil tree) = Ok ((sentinel (rb_nil tree))\<lparr>rb_parent := q\<rparr>)"
    by (cases fuel) (auto simp: nil_ok_def rd_def)
  then show ?case using 1 by (auto simp: sentinel_def c_assert_def)
next
  case (2 l a c e r)
  obtain fuel' where fuel: "fuel = Suc fuel'" using 2 by (cases fuel) auto
  have rd: "rd (rb_heap tree) a = Ok (node Lft c e p (adr (rb_nil tree) l) (adr (rb_nil tree) r))" using 2 by (simp add: rd_def)
  have red: "get_red (rb_heap tree) (adr (rb_nil tree) l) = Ok (is_red l)" "get_red (rb_heap tree) (adr (rb_nil tree) r) = Ok (is_red r)"
    using 2 get_red_sub [of "rb_heap tree" "rb_nil tree" a] by auto
  let ?n = "if c then n else n + 1"
  have l: "VerifyNode fuel' tree (adr (rb_nil tree) l) ?n m = Ok (?n + int (bh l) + 1)"
    using 2 fuel by (intro "2.IH"(1)) auto
  have r: "VerifyNode fuel' tree (adr (rb_nil tree) r) ?n (?n + int (bh l) + 1) = Ok (?n + int (bh r) + 1)"
    using 2 fuel by (intro "2.IH"(2)) auto
  have "a \<noteq> rb_nil tree" using "2.prems"(3) by auto
  then show ?case using l r "2.prems"(4) red
    by (cases c) (simp_all add: fuel rd node_def c_assert_def algebra_simps del: bindE_Ok_iff)
qed

lemma VerifyTree_ok: "rb_rep tree t \<Longrightarrow> VerifyTree tree = Ok ()"
proof -
  assume rep: "rb_rep tree t"
  then have zip: "zip_rep (rb_heap tree) (rb_nil tree) (rb_root tree) t []" and "rbt t" by (simp_all add: rb_rep_def)
  have "size t < Suc (rb_fresh tree)" using zip_fuel [OF zip, of "rb_fresh tree"] rep by (simp add: rb_rep_def)
  then have "VerifyNode (Suc (rb_fresh tree)) tree (adr (rb_nil tree) t) 0 (- 1) = Ok (0 + int (bh t) + 1)"
    using zip \<open>rbt t\<close> by (intro VerifyNode_ok) (auto simp: zip_rep_def)
  moreover have "verify_sentinel tree (rb_root tree) = Ok ()" "verify_sentinel tree (rb_nil tree) = Ok ()"
    using zip by (auto simp: verify_sentinel_def zip_rep_def rd_def sentinel_def nil_ok_def c_assert_def)
  ultimately show ?thesis using rb_rep_search(1) [OF rep] by (simp add: VerifyTree_def del: VerifyNode.simps bindE_Ok_iff)
qed

lemma rb_holds_verify: "rb_holds cmp tree xs \<Longrightarrow> VerifyTree tree = Ok () \<and> RBTreeSize tree = length xs"
  using VerifyTree_ok by (auto simp: rb_holds_def rb_rep_def RBTreeSize_def ents_def dest: arg_cong [of _ _ size])

section \<open>Release\<close>

fun post :: "'e nd tree \<Rightarrow> 'e list" where
  "post Leaf = []"
| "post (Node l (a, c, e) r) = post l @ post r @ [e]"

lemma mset_post: "mset (post t) = mset (map snd (cont t))"
  by (induction t rule: post.induct) auto

lemma TreeDestroy_ok:
  "tree_rep (rb_heap tree) (rb_nil tree) p t \<Longrightarrow> distinct (adrs t) \<Longrightarrow> rb_nil tree \<notin> set (adrs t) \<Longrightarrow> size t < fuel \<Longrightarrow>
   TreeDestroy fuel tree (adr (rb_nil tree) t)
     = Ok (tree\<lparr>rb_heap := \<lambda>a. if a \<in> set (adrs t) then None else rb_heap tree a\<rparr>, gone_of (rb_frame tree) (post t))"
proof (induction t arbitrary: tree p fuel rule: adrs.induct)
  case 1
  then show ?case by (cases fuel) simp_all
next
  case (2 l a c e r)
  let ?nil = "rb_nil tree"
  obtain fuel' where fuel: "fuel = Suc fuel'" using 2 by (cases fuel) auto
  have n: "rd (rb_heap tree) a = Ok (node Lft c e p (adr ?nil l) (adr ?nil r))" using 2 by (simp add: rd_def)
  let ?tree1 = "tree\<lparr>rb_heap := \<lambda>b. if b \<in> set (adrs l) then None else rb_heap tree b\<rparr>"
  have l: "TreeDestroy fuel' tree (adr ?nil l) = Ok (?tree1, gone_of (rb_frame tree) (post l))"
    using 2 fuel by (intro "2.IH"(1)) auto
  have n1: "rd (rb_heap ?tree1) a = Ok (node Lft c e p (adr ?nil l) (adr ?nil r))" using 2 by (simp add: rd_def)
  have "tree_rep (rb_heap ?tree1) ?nil a r" by (rule tree_rep_frame [of "rb_heap tree"]) (use 2 in auto)
  then have r: "TreeDestroy fuel' ?tree1 (adr (rb_nil ?tree1) r)
      = Ok (?tree1\<lparr>rb_heap := \<lambda>b. if b \<in> set (adrs r) then None else rb_heap ?tree1 b\<rparr>, gone_of (rb_frame ?tree1) (post r))"
    using 2 fuel by (intro "2.IH"(2)) auto
  let ?tree2 = "tree\<lparr>rb_heap := \<lambda>b. if b \<in> set (adrs r) then None else rb_heap ?tree1 b\<rparr>"
  have d: "NodeDestroy ?tree2 a = Ok (tree\<lparr>rb_heap := (rb_heap ?tree2)(a := None)\<rparr>, gone_of (rb_frame tree) [e])"
    using 2 by (simp add: NodeDestroy_def rd_def gone_of_def rb_frame_def)
  have heap: "(rb_heap ?tree2)(a := None) = (\<lambda>b. if b \<in> set (adrs (Node l (a, c, e) r)) then None else rb_heap tree b)" by auto
  have app: "gone_of ds (xs @ ys) = (fst (gone_of ds xs) @ fst (gone_of ds ys), snd (gone_of ds xs) @ snd (gone_of ds ys))" for ds and xs ys :: "('a ptr \<times> 'b ptr) list"
    by (simp add: gone_of_def)
  have "a \<noteq> ?nil" using "2.prems"(3) by auto
  moreover have "get_left (rb_heap tree) a = Ok (adr ?nil l)" "get_right (rb_heap ?tree1) a = Ok (adr (rb_nil ?tree1) r)"
    using n n1 by (simp_all add: get_left_def get_right_def node_def)
  moreover have "rb_frame ?tree1 = rb_frame tree" "?tree1\<lparr>rb_heap := \<lambda>b. if b \<in> set (adrs r) then None else rb_heap ?tree1 b\<rparr> = ?tree2"
    by (simp_all add: rb_frame_def)
  ultimately show ?case using l r d [unfolded heap]
    by (simp add: fuel app case_prod_beta del: adrs.simps bindE_Ok_iff RBTree.simps)
qed

lemma RBTreeDestroy_ok:
  assumes "rb_holds cmp tree xs"
  shows "\<exists>es. RBTreeDestroy (Ptr tree) = Ok (gone_of (rb_frame tree) es) \<and> mset es = mset xs"
  using assms
proof (rule rb_holdsE)
  fix t assume t: "rb_rep tree t" "mset (ents t) = mset xs"
  then have zip: "zip_rep (rb_heap tree) (rb_nil tree) (rb_root tree) t []" by (simp add: rb_rep_def)
  have "size t < Suc (rb_fresh tree)" using zip_fuel [OF zip, of "rb_fresh tree"] t by (simp add: rb_rep_def)
  then have "RBTreeDestroy (Ptr tree) = Ok (gone_of (rb_frame tree) (post t))"
    using rb_rep_search(1) [OF t(1)] TreeDestroy_ok [of tree "rb_root tree" t "Suc (rb_fresh tree)"] zip
    by (simp add: RBTreeDestroy_def zip_rep_def del: TreeDestroy.simps)
  then show ?thesis using t(2) mset_post [of t] by (auto simp: ents_def)
qed

end
