(* ===== verification/RbIter.thy ===== *)
theory RbIter
  imports RbStore
begin

text \<open>
  Iteration over the red-black tree of rb-tree.c: the iterator yields the entries in the order of the
  keys, RBTreeEqual compares them pairwise, and RBTreeCopy inserts the collected nodes into a new tree.
\<close>

section \<open>The next node\<close>

text \<open>From the top of a subtree upwards: the first frame that the subtree is on the left of.\<close>

lemma go_up_ok:
  "zip_rep h nil root t C \<Longrightarrow> t \<noteq> Leaf \<Longrightarrow> length C < fuel \<Longrightarrow>
   go_up fuel h (adr nil t) (top root C) = Ok (if rcont C = [] then root else fst (hd (rcont C)))"
proof (induction C arbitrary: t fuel)
  case Nil
  have "adr nil t \<noteq> nil" using adr_in [OF Nil.prems(2), of nil] Nil.prems(1) by (auto simp: zip_rep_def)
  then show ?case using Nil by (cases fuel) (auto simp: zip_rep_def get_right_def rd_def sentinel_def)
next
  case (Cons F C)
  obtain d a c e s where F: "F = Fr d (a, c, e) s" by (metis frame.exhaust prod_cases3)
  obtain fuel' where fuel: "fuel = Suc fuel'" using Cons.prems(3) by (cases fuel) auto
  have zip: "zip_rep h nil root (mk d t (a, c, e) s) C" using Cons.prems(1) by (simp add: F zip_up)
  have n: "rd h a = Ok (node d c e (top root C) (adr nil t) (adr nil s))"
    using node_eval(5) [where h = h and a = a, OF zip_node [OF zip]] .
  have "adr nil t \<noteq> adr nil s"
    using adr_in [OF Cons.prems(2), of nil] adr_in [of s nil] zip by (cases "s = Leaf") (auto simp: zip_rep_def)
  then show ?case using Cons.IH [OF zip, of fuel'] Cons.prems(3) n
    by (cases d) (simp_all add: F fuel get_right_def get_parent_def node_def)
qed

lemma Next_ok:
  assumes "rb_rep tree t" "cont t = ls @ (a, e) # rs"
  shows "Next tree a = Ok (if rs = [] then rb_nil tree else fst (hd rs))"
proof -
  let ?h = "rb_heap tree" and ?nil = "rb_nil tree" and ?root = "rb_root tree"
  have rep: "zip_rep ?h ?nil ?root t []" and bound: "\<forall>a \<in> insert ?nil (zone ?root t []). a < rb_fresh tree"
    using assms(1) by (simp_all add: rb_rep_def)
  obtain n c f C where t: "t = plug (mk Lft n (a, c, e) f) C" using find_node [of a e t] assms(2) by auto
  have eq: "ls @ (a, e) # rs = (lcont C @ cont n) @ (a, e) # cont f @ rcont C" using assms(2) by (simp add: t cont_plug cont_mk)
  have rs: "rs = cont f @ rcont C" using split_unique [OF eq cont_distinct [OF rep, unfolded assms(2)]] by blast
  have zip: "zip_rep ?h ?nil ?root (mk Lft n (a, c, e) f) C" using rep unfolding t zip_plug [symmetric] .
  have zf: "zip_rep ?h ?nil ?root f (Fr Rgt (a, c, e) n # C)" using zip by (simp add: zip_up mk_def)
  have bounds: "\<forall>b \<in> insert ?nil (zone ?root (mk Lft n (a, c, e) f) C). b < rb_fresh tree" using bound unfolding t zone_plug .
  have fuel: "size f + length C + 3 \<le> rb_fresh tree" using zip_fuel [OF zip bounds] by (simp add: mk_def)
  have node: "get_right ?h a = Ok (adr ?nil f)" "get_parent ?h a = Ok (top ?root C)"
    using zip_node [OF zip] by (simp_all add: get_right_def get_parent_def rd_def node_def)
  show ?thesis
  proof (cases "f = Leaf")
    case True
    have "?root \<notin> fst ` set (rcont C)"
    proof -
      have "fst ` set (rcont C) \<subseteq> set (adrs t)" by (auto simp: adrs_cont t cont_plug)
      then show ?thesis using rep by (auto simp: zip_rep_def)
    qed
    then have "rcont C \<noteq> [] \<Longrightarrow> fst (hd (rcont C)) \<noteq> ?root" by (metis hd_in_set image_eqI)
    then show ?thesis using go_up_ok [OF zip, of "rb_fresh tree"] fuel node True by (simp add: Next_def rs)
  next
    case False
    have "adr ?nil f \<noteq> ?nil" using adr_in [OF False, of ?nil] zf by (auto simp: zip_rep_def)
    moreover obtain m y cy ey D where "go_left (rb_fresh tree) ?nil ?h (adr ?nil f) = Ok y" "f = plug (mk Rgt m (y, cy, ey) Leaf) D" "lcont D = []"
      using go_left_ok [OF zf False, of "rb_fresh tree"] fuel by auto
    ultimately show ?thesis using node by (simp add: Next_def rs cont_plug cont_mk)
  qed
qed

section \<open>The iterator\<close>

text \<open>Where the iterator stands when the entries \<open>rs\<close> are still to come.\<close>

definition rb_at :: "('k, 'v) RBTree \<Rightarrow> (addr \<times> 'k ptr \<times> 'v ptr) list \<Rightarrow> addr" where
  "rb_at tree rs = (if rs = [] then rb_nil tree else fst (hd rs))"

lemma RBTreeIteratorNew_ok:
  assumes "rb_rep tree t"
  shows "RBTreeIteratorNew tree = Ok (if t = Leaf then rb_root tree else rb_at tree (cont t))"
proof -
  let ?h = "rb_heap tree" and ?nil = "rb_nil tree" and ?root = "rb_root tree"
  have rep: "zip_rep ?h ?nil ?root t []" and bound: "\<forall>a \<in> insert ?nil (zone ?root t []). a < rb_fresh tree"
    using assms by (simp_all add: rb_rep_def)
  obtain k where k: "rb_fresh tree = Suc k" "size t < k" using zip_fuel [OF rep bound] by (cases "rb_fresh tree") auto
  show ?thesis
  proof (cases "t = Leaf")
    case True
    then show ?thesis using rb_rep_search(1) [OF assms] k by (simp add: RBTreeIteratorNew_def)
  next
    case False
    have "adr ?nil t \<noteq> ?nil" using adr_in [OF False, of ?nil] rep by (auto simp: zip_rep_def)
    moreover obtain m y cy ey D where "go_left k ?nil ?h (adr ?nil t) = Ok y" "t = plug (mk Rgt m (y, cy, ey) Leaf) D" "lcont D = []"
      using go_left_ok [OF rep False k(2)] by auto
    ultimately show ?thesis using rb_rep_search(1) [OF assms] k False by (simp add: RBTreeIteratorNew_def rb_at_def cont_plug cont_mk)
  qed
qed

lemma cont_node:
  assumes "rb_rep tree t" "cont t = ls @ (a, e) # rs"
  shows "\<exists>n. rd (rb_heap tree) a = Ok n \<and> rb_key n = fst e \<and> rb_value n = snd e" "a \<noteq> rb_nil tree"
proof -
  have rep: "zip_rep (rb_heap tree) (rb_nil tree) (rb_root tree) t []" using assms(1) by (simp add: rb_rep_def)
  obtain n c f C where t: "t = plug (mk Lft n (a, c, e) f) C" using find_node [of a e t] assms(2) by auto
  have zip: "zip_rep (rb_heap tree) (rb_nil tree) (rb_root tree) (mk Lft n (a, c, e) f) C" using rep unfolding t zip_plug [symmetric] .
  show "\<exists>n. rd (rb_heap tree) a = Ok n \<and> rb_key n = fst e \<and> rb_value n = snd e" using zip_node [OF zip] by (simp add: rd_def)
  show "a \<noteq> rb_nil tree" using zip_not_nil [OF zip] .
qed

lemma RBTreeIteratorNext_ok:
  assumes "rb_rep tree t" "cont t = ls @ rs"
  shows "RBTreeIteratorNext tree (rb_at tree rs) = Ok (case rs of [] \<Rightarrow> (None, rb_at tree []) | x # rs' \<Rightarrow> (Some (snd x), rb_at tree rs'))"
proof (cases rs)
  case Nil
  then show ?thesis by (simp add: RBTreeIteratorNext_def Peek_def rb_at_def)
next
  case (Cons x rs')
  obtain a e where x: "x = (a, e)" by (rule prod.exhaust)
  have t: "cont t = ls @ (a, e) # rs'" using assms(2) by (simp add: Cons x)
  then have "rb_size tree \<noteq> 0" using assms(1) by (simp add: rb_rep_def)
  then show ?thesis using cont_node [OF assms(1) t] Next_ok [OF assms(1) t]
    by (auto simp: RBTreeIteratorNext_def Peek_def rb_at_def Cons x)
qed

text \<open>A client that calls RBTreeIteratorNext until it returns false.\<close>

fun rb_drain :: "nat \<Rightarrow> ('k, 'v) RBTree \<Rightarrow> addr \<Rightarrow> ('k ptr \<times> 'v ptr) list res" where
  "rb_drain 0 tree it = Fault OutOfFuel"
| "rb_drain (Suc fuel) tree it = bindE (RBTreeIteratorNext tree it) (\<lambda>(entry, it). case entry of
     None \<Rightarrow> Ok []
   | Some e \<Rightarrow> bindE (rb_drain fuel tree it) (\<lambda>es. Ok (e # es)))"

lemma rb_drain_ok:
  "rb_rep tree t \<Longrightarrow> cont t = ls @ rs \<Longrightarrow> length rs < fuel \<Longrightarrow> rb_drain fuel tree (rb_at tree rs) = Ok (map snd rs)"
proof (induction fuel arbitrary: ls rs)
  case (Suc fuel)
  show ?case
  proof (cases rs)
    case (Cons x rs')
    have "rb_drain fuel tree (rb_at tree rs') = Ok (map snd rs')" using Suc.IH [of "ls @ [x]" rs'] Suc.prems Cons by simp
    then show ?thesis using RBTreeIteratorNext_ok [OF Suc.prems(1,2)] Cons by simp
  qed (use RBTreeIteratorNext_ok [OF Suc.prems(1,2)] in simp)
qed simp

lemma iterate_ok:
  assumes "rb_rep tree t"
  shows "bindE (RBTreeIteratorNew tree) (rb_drain (Suc (rb_size tree)) tree) = Ok (ents t)"
proof (cases "t = Leaf")
  case True
  then have "rb_size tree = 0" using assms by (simp add: rb_rep_def)
  then show ?thesis using RBTreeIteratorNew_ok [OF assms] True by (simp add: ents_def RBTreeIteratorNext_def Peek_def)
next
  case False
  then show ?thesis using RBTreeIteratorNew_ok [OF assms] rb_drain_ok [OF assms, of "[]" "cont t" "Suc (rb_size tree)"] assms
    by (simp add: ents_def rb_rep_def del: rb_drain.simps)
qed

section \<open>Equality\<close>

lemma RBTreeEqual_loop_ok:
  "rb_rep a t \<Longrightarrow> rb_rep b u \<Longrightarrow> cont t = ls @ rs \<Longrightarrow> cont u = ms @ qs \<Longrightarrow> length rs = length qs \<Longrightarrow> length rs < fuel \<Longrightarrow>
   RBTreeEqual_loop fuel a b (rb_at a rs) (rb_at b qs)
     = Ok (list_all2 (\<lambda>x y. KeyCompare a (fst x) (fst y) = 0 \<and> ValueCompare b (snd x) (snd y) = 0) (map snd rs) (map snd qs))"
proof (induction fuel arbitrary: ls rs ms qs)
  case (Suc fuel)
  show ?case
  proof (cases rs)
    case Nil
    then show ?thesis using RBTreeIteratorNext_ok [OF Suc.prems(1,3)] Suc.prems(5) by simp
  next
    case (Cons x rs')
    then obtain y qs' where qs: "qs = y # qs'" using Suc.prems(5) by (cases qs) auto
    have "RBTreeEqual_loop fuel a b (rb_at a rs') (rb_at b qs')
      = Ok (list_all2 (\<lambda>x y. KeyCompare a (fst x) (fst y) = 0 \<and> ValueCompare b (snd x) (snd y) = 0) (map snd rs') (map snd qs'))"
      using Suc.IH [of "ls @ [x]" rs' "ms @ [y]" qs'] Suc.prems Cons qs by simp
    then show ?thesis using RBTreeIteratorNext_ok [OF Suc.prems(1,3)] RBTreeIteratorNext_ok [OF Suc.prems(2,4)] Cons qs
      by (auto simp: case_prod_beta del: bindE_Ok_iff)
  qed
qed simp

lemma RBTreeEqual_ok:
  assumes "rb_rep a t" "rb_rep b u"
  shows "RBTreeEqual False True (Ptr a) (Ptr b)
    = Ok (list_all2 (\<lambda>x y. KeyCompare a (fst x) (fst y) = 0 \<and> ValueCompare b (snd x) (snd y) = 0) (ents t) (ents u))"
proof (cases "size t = size u")
  case True
  have s: "rb_size a = length (cont t)" "rb_size b = length (cont u)" using assms by (simp_all add: rb_rep_def)
  then have eq: "rb_size a = rb_size b" using True by (simp add: cont_length)
  show ?thesis
  proof (cases "t = Leaf")
    case leaf: True
    then have "u = Leaf" using True by (cases u) simp_all
    then show ?thesis using leaf s RBTreeIteratorNew_ok [OF assms(1)] RBTreeIteratorNew_ok [OF assms(2)]
      by (simp add: RBTreeEqual_def RBTreeSize_def RBTreeIteratorNext_def Peek_def ents_def)
  next
    case False
    then have "u \<noteq> Leaf" using True by (cases t; cases u) simp_all
    then show ?thesis
      using False s eq RBTreeIteratorNew_ok [OF assms(1)] RBTreeIteratorNew_ok [OF assms(2)]
        RBTreeEqual_loop_ok [OF assms, of "[]" "cont t" "[]" "cont u" "Suc (rb_size a)"]
      by (simp add: RBTreeEqual_def RBTreeSize_def ents_def del: RBTreeEqual_loop.simps)
  qed
next
  case False
  then have "length (ents t) \<noteq> length (ents u)" by (simp add: ents_def cont_length)
  moreover have "rb_size a \<noteq> rb_size b" using assms False by (simp add: rb_rep_def cont_length)
  ultimately show ?thesis by (auto simp: RBTreeEqual_def RBTreeSize_def dest: list_all2_lengthD)
qed

section \<open>Copies\<close>

abbreviation chosen :: "('k ptr \<Rightarrow> 'v ptr \<Rightarrow> bool) ptr \<Rightarrow> addr \<times> 'k ptr \<times> 'v ptr \<Rightarrow> bool" where
  "chosen filter_fn x \<equiv> (case filter_fn of None \<Rightarrow> True | Some f \<Rightarrow> f (fst (snd x)) (snd (snd x)))"

lemma collect_ok:
  "rb_rep tree t \<Longrightarrow> cont t = ls @ rs \<Longrightarrow> length rs < fuel \<Longrightarrow> stores nodes as \<Longrightarrow> length as + length rs \<le> length nodes \<Longrightarrow>
   \<exists>nodes'. RBTreeCopy_collect fuel tree filter_fn (rb_at tree rs) nodes (length as)
      = Ok (nodes', length (as @ map fst (filter (chosen filter_fn) rs))) \<and> stores nodes' (as @ map fst (filter (chosen filter_fn) rs))"
proof (induction fuel arbitrary: ls rs nodes as)
  case (Suc fuel)
  show ?case
  proof (cases rs)
    case Nil
    then show ?thesis using Suc.prems(4) by (simp add: rb_at_def)
  next
    case (Cons x rs')
    obtain a e where x: "x = (a, e)" by (rule prod.exhaust)
    have t: "cont t = ls @ (a, e) # rs'" using Suc.prems(2) by (simp add: Cons x)
    obtain n where n: "rd (rb_heap tree) a = Ok n" "rb_key n = fst e" "rb_value n = snd e" "a \<noteq> rb_nil tree"
      using cont_node [OF Suc.prems(1) t] by blast
    have nx: "Next tree a = Ok (rb_at tree rs')" using Next_ok [OF Suc.prems(1) t] by (simp add: rb_at_def)
    have tl: "cont t = (ls @ [x]) @ rs'" "length rs' < fuel" using Suc.prems(2,3) by (simp_all add: Cons)
    show ?thesis
    proof (cases "chosen filter_fn x")
      case True
      have st: "stores (nodes[length as := Val a]) (as @ [a])" "length (as @ [a]) + length rs' \<le> length (nodes[length as := Val a])"
        "length as < length nodes" using Suc.prems(4,5) Cons by (simp_all add: stores_snoc)
      from Suc.IH [OF Suc.prems(1) tl st(1,2)] show ?thesis using n nx True st(3)
        by (cases filter_fn) (simp_all add: Cons x rb_at_def [of tree "(a, e) # rs'"])
    next
      case False
      from Suc.IH [OF Suc.prems(1) tl Suc.prems(4)] show ?thesis using n nx False Suc.prems(5)
        by (cases filter_fn) (simp_all add: Cons x rb_at_def [of tree "(a, e) # rs'"])
    qed
  qed
qed simp

text \<open>
  The copy holds some of the entries \<open>zs\<close>, each once. Inserting one more of them adds it, unless it is
  there already.
\<close>

definition rb_part :: "('k ptr \<Rightarrow> 'k ptr \<Rightarrow> int) \<Rightarrow> ('k ptr \<times> 'v ptr) list \<Rightarrow> ('k, 'v) RBTree \<Rightarrow> ('k ptr \<times> 'v ptr) set \<Rightarrow> bool" where
  "rb_part cmp zs copy S \<longleftrightarrow> (\<exists>xs. rb_holds cmp copy xs \<and> distinct xs \<and> set xs = S \<and> S \<subseteq> set zs)"

lemma kv_del_member:
  assumes "equivp eq" "uniq eq zs" "set xs \<subseteq> set zs" "(k, v) \<in> set zs"
  shows "set (kv_del eq k xs) = set xs - {(k, v)}"
proof -
  have k: "(k, v) \<in> set (kv_old eq k zs)" using assms(1,4) by (simp add: kv_old_def matches_def equivp_reflp)
  have old: "kv_old eq k zs = [(k, v)]" using k uniq_kv_old [OF assms(2), of k] by (cases "kv_get eq k zs") simp_all
  have "x = (k, v)" if "x \<in> set zs" "matches eq k x" for x
  proof -
    have "x \<in> set (kv_old eq k zs)" using that by (simp add: kv_old_def)
    then show ?thesis by (simp add: old)
  qed
  moreover have "matches eq k (k, v)" using assms(1) by (simp add: matches_def equivp_reflp)
  ultimately show ?thesis using assms(3) by (auto simp: kv_del_def)
qed

lemma put_part:
  assumes "rb_part cmp zs copy S" "uniq (\<lambda>a b. cmp a b = 0) zs" "e \<in> set zs"
  shows "\<exists>b copy' gone. RBTreePut copy (fst e) (snd e) = Ok (b, copy', gone) \<and> rb_part cmp zs copy' (insert e S)"
proof -
  obtain k v where e: "e = (k, v)" by (rule prod.exhaust)
  from assms(1) obtain xs where xs: "rb_holds cmp copy xs" "distinct xs" "set xs = S" "S \<subseteq> set zs" by (auto simp: rb_part_def)
  from rb.put_rep [OF xs(1), of k v] obtain copy' where
    put: "RBTreePut copy k v = Ok (kv_get (\<lambda>a b. cmp a b = 0) k xs \<noteq> None, copy', gone_of (rb_frame copy) (kv_old (\<lambda>a b. cmp a b = 0) k xs))"
      "rb_holds cmp copy' (kv_put (\<lambda>a b. cmp a b = 0) k v xs)" by blast
  have del: "set (kv_del (\<lambda>a b. cmp a b = 0) k xs) = S - {e}"
    using kv_del_member [OF rb.eq_equiv [OF xs(1)] assms(2), of xs k v] xs(3,4) assms(3) by (simp add: e)
  have "distinct (kv_del (\<lambda>a b. cmp a b = 0) k xs)" using xs(2) by (simp add: kv_del_def)
  then have "distinct (kv_put (\<lambda>a b. cmp a b = 0) k v xs)" "set (kv_put (\<lambda>a b. cmp a b = 0) k v xs) = insert e S"
    using del by (auto simp: kv_put_def e)
  then have "rb_part cmp zs copy' (insert e S)" using put(2) xs(4) assms(3) unfolding rb_part_def by blast
  then show ?thesis using put(1) by (simp add: e)
qed

lemma put_node_ok:
  assumes "rb_rep tree t" "stores nodes (map fst zs)" "set zs \<subseteq> set (cont t)" "i < length zs"
    "rb_part cmp (map snd zs) copy S" "uniq (\<lambda>a b. cmp a b = 0) (map snd zs)"
  shows "\<exists>copy'. put_node tree nodes i copy = Ok copy' \<and> rb_part cmp (map snd zs) copy' (insert (snd (zs ! i)) S)"
proof -
  obtain a e where z: "zs ! i = (a, e)" by (rule prod.exhaust)
  have "(a, e) \<in> set (cont t)" using assms(3,4) z by (metis nth_mem subsetD)
  then obtain ls rs where t: "cont t = ls @ (a, e) # rs" by (meson split_list)
  have "cread nodes i = Ok a" using stores_cread [OF assms(2)] assms(4) z by simp
  moreover have "e \<in> set (map snd zs)" using assms(4) z by (metis nth_mem image_eqI list.set_map snd_conv)
  from put_part [OF assms(5,6) this] obtain b copy' gone where
    "RBTreePut copy (fst e) (snd e) = Ok (b, copy', gone)" "rb_part cmp (map snd zs) copy' (insert e S)" by blast
  ultimately show ?thesis using cont_node(1) [OF assms(1) t] z by (cases gone) (auto simp: put_node_def)
qed

lemma RBTreeCopy_loop_ok:
  assumes "rb_rep tree t" "stores nodes (map fst zs)" "set zs \<subseteq> set (cont t)" "uniq (\<lambda>a b. cmp a b = 0) (map snd zs)"
  shows "rb_part cmp (map snd zs) copy S \<Longrightarrow> n + i = half \<Longrightarrow> 2 * half \<le> length zs \<Longrightarrow>
    \<exists>copy'. RBTreeCopy_loop tree nodes half n i copy = Ok copy'
      \<and> rb_part cmp (map snd zs) copy' (S \<union> (\<lambda>j. snd (zs ! j)) ` ({half + i..<2 * half} \<union> {..<half - i}))"
proof (induction n arbitrary: i copy S)
  case (Suc n)
  have "half + i < length zs" "half - i - 1 < length zs" using Suc.prems(2,3) by simp_all
  note step = put_node_ok [OF assms(1-3)] 
  from step [OF \<open>half + i < length zs\<close> Suc.prems(1) assms(4)] obtain c1 where
    c1: "put_node tree nodes (half + i) copy = Ok c1" "rb_part cmp (map snd zs) c1 (insert (snd (zs ! (half + i))) S)" by blast
  from step [OF \<open>half - i - 1 < length zs\<close> c1(2) assms(4)] obtain c2 where
    c2: "put_node tree nodes (half - i - 1) c1 = Ok c2"
      "rb_part cmp (map snd zs) c2 (insert (snd (zs ! (half - i - 1))) (insert (snd (zs ! (half + i))) S))" by blast
  from Suc.IH [OF c2(2), of "i + 1"] Suc.prems(2,3) obtain c3 where
    c3: "RBTreeCopy_loop tree nodes half n (i + 1) c2 = Ok c3"
      "rb_part cmp (map snd zs) c3 (insert (snd (zs ! (half - i - 1))) (insert (snd (zs ! (half + i))) S)
        \<union> (\<lambda>j. snd (zs ! j)) ` ({half + (i + 1)..<2 * half} \<union> {..<half - (i + 1)}))" by auto
  have range: "{half + i..<2 * half} \<union> {..<half - i} = insert (half - i - 1) (insert (half + i) ({half + (i + 1)..<2 * half} \<union> {..<half - (i + 1)}))"
    using Suc.prems(2) by auto
  have "RBTreeCopy_loop tree nodes half (Suc n) i copy = Ok c3" using c1(1) c2(1) c3(1) by simp
  then show ?case using c3(2) unfolding range by (auto simp: insert_commute)
qed simp

text \<open>
  What ends up in the copy: for an odd number of nodes, three or more, the middle node is inserted twice
  and the last one never.
\<close>

definition copied :: "'a list \<Rightarrow> 'a list" where
  "copied zs = (if length zs = 1 then zs else take (2 * (length zs div 2)) zs)"

lemma set_copied:
  "set (map f (copied zs)) = (if odd (length zs) then {f (zs ! (length zs div 2))} else {})
     \<union> (\<lambda>j. f (zs ! j)) ` ({length zs div 2..<2 * (length zs div 2)} \<union> {..<length zs div 2})"
proof (cases "length zs = 1")
  case True
  then obtain z where "zs = [z]" by (auto simp: length_Suc_conv)
  then show ?thesis by (simp add: copied_def)
next
  case False
  let ?h = "length zs div 2"
  have r: "{?h..<2 * ?h} \<union> {..<?h} = {..<2 * ?h}" by auto
  have "2 * ?h \<le> length zs" by simp
  then have "set (map f (take (2 * ?h) zs)) = (\<lambda>j. f (zs ! j)) ` {..<2 * ?h}"
    using nth_image [of "2 * ?h" zs] by (simp add: image_image [symmetric, of f "(!) zs"] lessThan_atLeast0)
  moreover have "odd (length zs) \<Longrightarrow> ?h < 2 * ?h" using False by (cases "length zs") auto
  ultimately show ?thesis using False unfolding r by (auto simp: copied_def)
qed

lemma in_order_distinct: "comparator UNIV cmp \<Longrightarrow> in_order cmp xs \<Longrightarrow> distinct (map snd xs)"
proof (induction xs)
  case (Cons x xs)
  then show ?case using comparator.cmp_refl [OF Cons.prems(1)] by (force simp: in_order_Cons before_def)
qed simp

lemma rb_part_holds:
  assumes "rb_part cmp zs copy (set ys)" "distinct ys"
  shows "rb_holds cmp copy ys"
proof -
  from assms(1) obtain xs where "rb_holds cmp copy xs" "distinct xs" "set xs = set ys" by (auto simp: rb_part_def)
  then show ?thesis using assms(2) set_eq_iff_mset_eq_distinct [of xs ys] by (simp add: rb_holds_def)
qed

lemma RBTreeCopy_ok:
  assumes "rb_rep tree t" "t \<noteq> Leaf"
  shows "\<exists>copy. RBTreeCopy ka va tree filter_fn = Ok copy
    \<and> rb_holds (KeyCompare tree) copy (map snd (copied (filter (chosen filter_fn) (cont t))))"
proof -
  let ?zs = "filter (chosen filter_fn) (cont t)" and ?cmp = "KeyCompare tree"
  let ?n = "length ?zs" and ?eq = "\<lambda>a b. KeyCompare tree a b = 0"
  let ?new = "RBTreeNew ka va (Ptr (KeyCopy tree)) (Ptr (KeyCompare tree)) (Ptr (KeyDestroy tree))
         (Ptr (ValueCopy tree)) (Ptr (ValueCompare tree)) (Ptr (ValueDestroy tree))"
  have rep: "zip_rep (rb_heap tree) (rb_nil tree) (rb_root tree) t []" and cmp: "comparator UNIV ?cmp"
    and size: "rb_size tree = length (cont t)" and noop: "KeyCopy tree = NoopCopy" "ValueCopy tree = NoopCopy"
    and bound: "\<forall>a \<in> insert (rb_nil tree) (zone (rb_root tree) t []). a < rb_fresh tree"
    and ord: "in_order ?cmp (cont t)" using assms(1) by (simp_all add: rb_rep_def)
  have "?new = RBTreeNew ka va NULL (Ptr ?cmp) (Ptr (KeyDestroy tree)) NULL (Ptr (ValueCompare tree)) (Ptr (ValueDestroy tree))"
    by (simp add: RBTreeNew_def noop)
  then have new: "rb_part ?cmp (map snd ?zs) ?new {}" using RBTreeNew_holds [OF cmp] unfolding rb_part_def by auto
  have "in_order ?cmp ?zs" using ord by (simp add: in_order_def sorted_wrt_filter)
  then have uq: "uniq ?eq (map snd ?zs)" by (rule in_order_uniq [OF cmp])
  have start: "RBTreeIteratorNew tree = Ok (rb_at tree (cont t))" using RBTreeIteratorNew_ok [OF assms(1)] assms(2) by simp
  have "length (cont t) < rb_fresh tree" using zip_fuel [OF rep bound] by (simp add: cont_length)
  from collect_ok [OF assms(1), of "[]" "cont t" "rb_fresh tree" "xmalloc (rb_size tree)" "[]" filter_fn] this obtain nodes where
    nodes: "RBTreeCopy_collect (rb_fresh tree) tree filter_fn (rb_at tree (cont t)) (xmalloc (rb_size tree)) 0 = Ok (nodes, ?n)"
      "stores nodes (map fst ?zs)" by (auto simp: size)
  have sub: "set ?zs \<subseteq> set (cont t)" by auto
  let ?S = "if odd ?n then {snd (?zs ! (?n div 2))} else {}"
  obtain c1 where c1: "(if ?n mod 2 \<noteq> 0 then bindE (put_node tree nodes (?n div 2) ?new) (\<lambda>copy. Ok (copy, ?n - 1)) else Ok (?new, ?n))
      = Ok (c1, 2 * (?n div 2))" "rb_part ?cmp (map snd ?zs) c1 ?S"
  proof (cases "odd ?n")
    case True
    then have "?n div 2 < ?n" "?n - 1 = 2 * (?n div 2)" by presburger+
    then show thesis using that put_node_ok [OF assms(1) nodes(2) sub _ new uq, of "?n div 2"] True
      by (auto simp: odd_iff_mod_2_eq_one)
  qed (use that new in auto)
  from RBTreeCopy_loop_ok [OF assms(1) nodes(2) sub uq c1(2), of "?n div 2" 0 "?n div 2"] obtain c2 where
    c2: "RBTreeCopy_loop tree nodes (?n div 2) (?n div 2) 0 c1 = Ok c2"
      "rb_part ?cmp (map snd ?zs) c2 (set (map snd (copied ?zs)))" unfolding set_copied by auto
  have "distinct (map snd ?zs)" using \<open>in_order ?cmp ?zs\<close> by (rule in_order_distinct [OF cmp])
  then have "distinct (map snd (copied ?zs))" by (simp add: copied_def take_map [symmetric])
  then have holds: "rb_holds ?cmp c2 (map snd (copied ?zs))" using rb_part_holds [OF c2(2)] by simp
  then have "VerifyTree c2 = Ok ()" using rb_holds_verify by blast
  then have "RBTreeCopy ka va tree filter_fn = Ok c2" using start nodes(1) c1(1) c2(1)
    by (simp add: RBTreeCopy_def Let_def c_assert_def del: bindE_Ok_iff split del: if_split cong: if_cong)
  then show ?thesis using holds by blast
qed

text \<open>In an empty tree the iterator starts at the sentinel \<open>root\<close>, which is taken for a node.\<close>

lemma RBTreeCopy_empty:
  assumes "rb_rep tree Leaf"
  shows "RBTreeCopy ka va tree NULL = Fault OutOfBounds"
proof -
  have r: "rb_root tree \<noteq> rb_nil tree" "rb_heap tree (rb_root tree) = Some ((sentinel (rb_nil tree))\<lparr>rb_left := rb_nil tree\<rparr>)"
    "rb_size tree = 0" "rb_fresh tree \<noteq> 0" using assms by (auto simp: rb_rep_def zip_rep_def)
  then obtain k where "rb_fresh tree = Suc k" by (cases "rb_fresh tree") auto
  then show ?thesis using RBTreeIteratorNew_ok [OF assms] r(1-3) by (simp add: RBTreeCopy_def rd_def cwrite_def)
qed

end
