(* ===== verification/RbUse.thy ===== *)
theory RbUse
  imports RbIter
begin

text \<open>
  Programs over the red-black tree of rb-tree.c: what holds after any sequence of insertions and
  removals on a new tree.
\<close>

abbreviation rb_new :: "('k ptr \<Rightarrow> 'k ptr \<Rightarrow> int) \<Rightarrow> destroyer \<Rightarrow> destroyer \<Rightarrow> ('k, 'v) RBTree" where
  "rb_new cmp kd vd \<equiv> RBTreeNew (\<lambda>_. 0) (\<lambda>_. 0) NULL (Ptr cmp) (Ptr kd) NULL NULL (Ptr vd)"

lemma rb_run_new:
  fixes cmp :: "'k ptr \<Rightarrow> 'k ptr \<Rightarrow> int" and ops :: "('k ptr, 'v ptr) kv_op list"
  assumes "comparator UNIV cmp"
  shows "\<exists>tree ks vs xs. kv_run RBTreePut RBTreeRemove (rb_new cmp kd vd) ops = Ok (tree, ks, vs)
    \<and> rb_holds cmp tree xs \<and> xs = fold (kv_step (\<lambda>a b. cmp a b = 0)) ops [] \<and> (\<forall>k. kv_get (\<lambda>a b. cmp a b = 0) k xs = latest (\<lambda>a b. cmp a b = 0) k ops) \<and> rb_frame tree = (Ptr kd, Ptr vd)
    \<and> (kd = DestroyFn \<and> vd = DestroyFn \<longrightarrow> mset ks + mset (map fst xs) = mset (map fst (op_puts ops))
        \<and> mset vs + mset (map snd xs) = mset (map snd (op_puts ops)))"
proof -
  let ?eq = "\<lambda>a b. cmp a b = 0" and ?new = "rb_new cmp kd vd :: ('k, 'v) RBTree"
  have new: "rb_holds cmp ?new []" using RBTreeNew_holds [OF assms] .
  have frame: "rb_frame ?new = (Ptr kd, Ptr vd)" by (simp add: rb_frame_def RBTreeNew_def Reset_def)
  from rb.run_rep [OF new, of ops] frame obtain tree ks vs where
    m: "kv_run RBTreePut RBTreeRemove ?new ops = Ok (tree, ks, vs)" "rb_holds cmp tree (fold (kv_step ?eq) ops [])" "rb_frame tree = (Ptr kd, Ptr vd)"
      "kd = DestroyFn \<and> vd = DestroyFn \<longrightarrow>
        mset ks + mset (map fst (fold (kv_step ?eq) ops [])) = mset (map fst (op_puts ops))
        \<and> mset vs + mset (map snd (fold (kv_step ?eq) ops [])) = mset (map snd (op_puts ops))" by auto
  have "kv_get ?eq k (fold (kv_step ?eq) ops []) = latest ?eq k ops" for k
    using rb.run_latest [OF comparator_equiv [OF assms], of k "[]" ops] by (simp add: kv_get_def)
  with m show ?thesis by blast
qed

lemma map_fst_mset: "mset xs = mset ys \<Longrightarrow> mset (map f xs) = mset (map f ys)"
  by (simp add: mset_map)

lemma RBTree_ownership:
  assumes "comparator UNIV cmp"
  shows "\<exists>tree ks vs ks' vs'. kv_run RBTreePut RBTreeRemove (rb_new cmp DestroyFn DestroyFn) ops = Ok (tree, ks, vs)
    \<and> RBTreeDestroy (Ptr tree) = Ok (ks', vs')
    \<and> mset (ks @ ks') = mset (map fst (op_puts ops)) \<and> mset (vs @ vs') = mset (map snd (op_puts ops))"
proof -
  from rb_run_new [OF assms, of DestroyFn DestroyFn ops] obtain tree ks vs xs where
    m: "kv_run RBTreePut RBTreeRemove (rb_new cmp DestroyFn DestroyFn) ops = Ok (tree, ks, vs)" "rb_holds cmp tree xs"
      "rb_frame tree = (Ptr DestroyFn, Ptr DestroyFn)"
      "mset ks + mset (map fst xs) = mset (map fst (op_puts ops))" "mset vs + mset (map snd xs) = mset (map snd (op_puts ops))" by auto
  from RBTreeDestroy_ok [OF m(2)] m(3) obtain es where
    es: "RBTreeDestroy (Ptr tree) = Ok (map fst es, map snd es)" "mset es = mset xs" by (auto simp: gone_of_def)
  have "mset (map fst es) = mset (map fst xs)" "mset (map snd es) = mset (map snd xs)" using map_fst_mset [OF es(2)] by blast+
  then show ?thesis using m(1,4,5) es(1)
    by (intro exI [of _ tree] exI [of _ ks] exI [of _ vs] exI [of _ "map fst es"] exI [of _ "map snd es"]) simp
qed

text \<open>Everything an iterator returns.\<close>

definition rb_entries :: "('k, 'v) RBTree \<Rightarrow> ('k ptr \<times> 'v ptr) list res" where
  "rb_entries tree = bindE (RBTreeIteratorNew tree) (rb_drain (Suc (RBTreeSize tree)) tree)"

lemma rb_entries_ok: "rb_rep tree t \<Longrightarrow> rb_entries tree = Ok (ents t)"
  using iterate_ok by (simp add: rb_entries_def RBTreeSize_def del: rb_drain.simps)

lemma in_order_ents: "in_order cmp (cont t) \<longleftrightarrow> sorted_wrt (\<lambda>x y. cmp (fst x) (fst y) < 0) (ents t)"
  unfolding in_order_def before_def [abs_def] ents_def sorted_wrt_map ..

lemma sorted_wrt_unique:
  assumes "asymp R"
  shows "sorted_wrt R xs \<Longrightarrow> sorted_wrt R ys \<Longrightarrow> set xs = set ys \<Longrightarrow> xs = ys"
proof (induction xs arbitrary: ys)
  case (Cons x xs)
  then obtain y ys' where ys: "ys = y # ys'" by (cases ys) auto
  have irr: "\<not> R z z" for z using assms by (meson asympD)
  have "x = y"
  proof (rule ccontr)
    assume "x \<noteq> y"
    then have "x \<in> set ys'" "y \<in> set xs" using Cons.prems(3) ys by auto
    then have "R y x" "R x y" using Cons.prems(1,2) ys by simp_all
    then show False using assms by (meson asympD)
  qed
  moreover have "x \<notin> set xs" "y \<notin> set ys'" using Cons.prems(1,2) ys irr by auto
  ultimately have "set xs = set ys'" using Cons.prems(3) ys by auto
  then show ?case using Cons.IH [of ys'] Cons.prems(1,2) ys \<open>x = y\<close> by simp
qed simp

lemma comparator_asym: "comparator UNIV cmp \<Longrightarrow> asymp (\<lambda>x y. cmp (fst x) (fst y) < 0)"
  by (rule asympI) (use comparator.cmp_sym [of UNIV cmp] in force)

lemma rb_entries_holds:
  assumes "rb_holds cmp tree xs" "sorted_wrt (\<lambda>x y. cmp (fst x) (fst y) < 0) xs"
  shows "rb_entries tree = Ok xs \<and> RBTreeSize tree = length xs"
  using assms(1)
proof (rule rb_holdsE)
  fix t assume t: "KeyCompare tree = cmp" "rb_rep tree t" "mset (ents t) = mset xs" "comparator UNIV cmp"
  have "sorted_wrt (\<lambda>x y. cmp (fst x) (fst y) < 0) (ents t)" using t(1,2) in_order_ents [of cmp t] by (simp add: rb_rep_def)
  then have "ents t = xs" using sorted_wrt_unique [OF comparator_asym [OF t(4)] _ assms(2)] mset_eq_setD [OF t(3)] by blast
  then show ?thesis using rb_entries_ok [OF t(2)] rb_holds_verify [OF assms(1)] by simp
qed

text \<open>An order of pointers to integers, NULL first.\<close>

definition int_order :: "int ptr \<Rightarrow> int ptr \<Rightarrow> int" where
  "int_order a b = (case a of NULL \<Rightarrow> (case b of NULL \<Rightarrow> 0 | Ptr y \<Rightarrow> - 1) | Ptr x \<Rightarrow> (case b of NULL \<Rightarrow> 1 | Ptr y \<Rightarrow> x - y))"

lemma int_order: "comparator UNIV int_order"
  by unfold_locales (auto simp: int_order_def split: option.splits)

section \<open>Theorems\<close>

text \<open>
  C7: The red-black tree is a map and stays a red-black tree. After any sequence of insertions and
  removals on a new tree whose comparison is a consistent order, nothing has faulted, the code's own
  check VerifyTree\_ passes (no red node has a red child and all paths have as many black nodes), and
  RBTreeGet answers for every key what the last operation on that key says.
\<close>

theorem RBTree_invariant:
  assumes "comparator UNIV cmp"
  shows "\<exists>tree ks vs. kv_run RBTreePut RBTreeRemove (rb_new cmp kd vd) ops = Ok (tree, ks, vs)
    \<and> VerifyTree tree = Ok ()
    \<and> (\<forall>key. RBTreeGet tree key = Ok (case latest (\<lambda>a b. cmp a b = 0) key ops of None \<Rightarrow> NULL | Some e \<Rightarrow> snd e))"
proof -
  from rb_run_new [OF assms, of kd vd ops] obtain tree ks vs xs where
    m: "kv_run RBTreePut RBTreeRemove (rb_new cmp kd vd) ops = Ok (tree, ks, vs)" "rb_holds cmp tree xs"
      "\<forall>k. kv_get (\<lambda>a b. cmp a b = 0) k xs = latest (\<lambda>a b. cmp a b = 0) k ops" by blast
  then show ?thesis using rb_holds_verify [OF m(2)] rb_holds_get [OF m(2)]
    by (intro exI [of _ tree] exI [of _ ks] exI [of _ vs]) simp
qed

theorem RBTree_invariant_witness:
  "\<exists>tree ks vs. kv_run RBTreePut RBTreeRemove (rb_new int_order DestroyFn DestroyFn)
      [Put (Ptr 2) (Ptr True), Put (Ptr 1) (Ptr True), Put (Ptr 2) (Ptr False), Del (Ptr 1)] = Ok (tree, ks, vs)
    \<and> VerifyTree tree = Ok () \<and> RBTreeGet tree (Ptr 2) = Ok (Ptr False) \<and> RBTreeGet tree (Ptr 1) = Ok NULL"
proof -
  from RBTree_invariant [OF int_order, of DestroyFn DestroyFn "[Put (Ptr 2) (Ptr True), Put (Ptr 1) (Ptr True), Put (Ptr 2) (Ptr False), Del (Ptr 1)]"]
  obtain tree ks vs where "kv_run RBTreePut RBTreeRemove (rb_new int_order DestroyFn DestroyFn)
      [Put (Ptr 2) (Ptr True), Put (Ptr 1) (Ptr True), Put (Ptr 2) (Ptr False), Del (Ptr 1)] = Ok (tree, ks, vs)"
    "VerifyTree tree = Ok ()" "\<And>key. RBTreeGet tree key = Ok (case latest (\<lambda>a b. int_order a b = 0) key
      [Put (Ptr 2) (Ptr True), Put (Ptr 1) (Ptr True), Put (Ptr 2) (Ptr False), Del (Ptr 1)] of None \<Rightarrow> NULL | Some e \<Rightarrow> snd e)" by blast
  then show ?thesis by (intro exI [of _ tree] exI [of _ ks] exI [of _ vs]) (simp add: latest_def int_order_def del: kv_run.simps)
qed

text \<open>
  C8: Iteration over a red-black tree is sorted. After any sequence of insertions and removals an
  iterator returns entries in strictly ascending order of the keys, and they are exactly the entries
  that the operations left.
\<close>

theorem RBTree_iterates_in_order:
  assumes "comparator UNIV cmp"
  shows "\<exists>tree ks vs es. kv_run RBTreePut RBTreeRemove (rb_new cmp kd vd) ops = Ok (tree, ks, vs)
    \<and> rb_entries tree = Ok es \<and> sorted_wrt (\<lambda>x y. cmp (fst x) (fst y) < 0) es \<and> RBTreeSize tree = length es
    \<and> (\<forall>key. kv_get (\<lambda>a b. cmp a b = 0) key es = latest (\<lambda>a b. cmp a b = 0) key ops)"
proof -
  from rb_run_new [OF assms, of kd vd ops] obtain tree ks vs xs where
    m: "kv_run RBTreePut RBTreeRemove (rb_new cmp kd vd) ops = Ok (tree, ks, vs)" "rb_holds cmp tree xs"
      "\<forall>k. kv_get (\<lambda>a b. cmp a b = 0) k xs = latest (\<lambda>a b. cmp a b = 0) k ops" by blast
  from m(2) obtain t where t: "KeyCompare tree = cmp" "rb_rep tree t" "mset (ents t) = mset xs" "uniq (\<lambda>a b. cmp a b = 0) (ents t)"
    by (rule rb_holdsE)
  have "sorted_wrt (\<lambda>x y. cmp (fst x) (fst y) < 0) (ents t)" using t(2) in_order_ents [of cmp t] by (simp add: rb_rep_def t(1))
  moreover have "RBTreeSize tree = length (ents t)" using t(2) by (simp add: RBTreeSize_def rb_rep_def ents_def)
  ultimately show ?thesis using m(1,3) rb_entries_ok [OF t(2)] kv_get_perm [OF t(4,3)]
    by (intro exI [of _ tree] exI [of _ ks] exI [of _ vs] exI [of _ "ents t"]) simp
qed

theorem RBTree_iterates_in_order_witness:
  "\<exists>tree ks vs es. kv_run RBTreePut RBTreeRemove (rb_new int_order NopDestroyFn NopDestroyFn)
      [Put (Ptr 3) (Ptr CHR ''c''), Put (Ptr 1) (Ptr CHR ''a''), Put (Ptr 2) (Ptr CHR ''b'')] = Ok (tree, ks, vs)
    \<and> rb_entries tree = Ok es \<and> sorted_wrt (\<lambda>x y. int_order (fst x) (fst y) < 0) es
    \<and> kv_get (\<lambda>a b. int_order a b = 0) (Ptr 1) es = Some (Ptr 1, Ptr CHR ''a'')"
proof -
  let ?ops = "[Put (Ptr 3) (Ptr CHR ''c''), Put (Ptr 1) (Ptr CHR ''a''), Put (Ptr 2) (Ptr CHR ''b'')]"
  from RBTree_iterates_in_order [OF int_order, of NopDestroyFn NopDestroyFn ?ops]
  obtain tree ks vs es where "kv_run RBTreePut RBTreeRemove (rb_new int_order NopDestroyFn NopDestroyFn) ?ops = Ok (tree, ks, vs)"
    "rb_entries tree = Ok es" "sorted_wrt (\<lambda>x y. int_order (fst x) (fst y) < 0) es"
    "\<And>key. kv_get (\<lambda>a b. int_order a b = 0) key es = latest (\<lambda>a b. int_order a b = 0) key ?ops" by blast
  then show ?thesis by (intro exI [of _ tree] exI [of _ ks] exI [of _ vs] exI [of _ es]) (simp add: latest_def int_order_def del: kv_run.simps)
qed

text \<open>
  C39: RBTreeCopy loses an entry. The copy of a tree with entries, made without a filter, passes
  VerifyTree\_ and holds every entry when their number is even or one; when it is odd and three or more,
  the copy lacks the entry with the greatest key.
\<close>

theorem RBTreeCopy_drops_last:
  assumes "comparator UNIV cmp" "kv_run RBTreePut RBTreeRemove (rb_new cmp kd vd) ops = Ok (tree, ks, vs)" "RBTreeSize tree \<noteq> 0"
  shows "\<exists>es copy. rb_entries tree = Ok es \<and> length es = RBTreeSize tree \<and> RBTreeCopy ka va tree NULL = Ok copy \<and> VerifyTree copy = Ok ()
    \<and> rb_entries copy = Ok (if odd (length es) \<and> length es \<noteq> 1 then butlast es else es)"
proof -
  from rb_run_new [OF assms(1), of kd vd ops] assms(2) obtain xs where "rb_holds cmp tree xs" by auto
  then obtain t where t: "KeyCompare tree = cmp" "rb_rep tree t" by (rule rb_holdsE)
  have size: "RBTreeSize tree = length (ents t)" using t(2) by (simp add: RBTreeSize_def rb_rep_def ents_def)
  then have "t \<noteq> Leaf" using assms(3) by (auto simp: ents_def)
  from RBTreeCopy_ok [OF t(2) this, of ka va NULL] obtain copy where
    copy: "RBTreeCopy ka va tree NULL = Ok copy" "rb_holds cmp copy (map snd (copied (cont t)))" by (auto simp: t(1))
  let ?R = "\<lambda>x y. cmp (fst x) (fst y) < 0" and ?es = "ents t"
  have c: "map snd (copied (cont t)) = (if odd (length ?es) \<and> length ?es \<noteq> 1 then butlast ?es else ?es)"
  proof -
    have "odd n \<Longrightarrow> 2 * (n div 2) = n - 1" for n :: nat by presburger
    then show ?thesis by (auto simp: copied_def ents_def butlast_conv_take take_map)
  qed
  have "sorted_wrt ?R ?es" using t in_order_ents [of cmp] by (auto simp: rb_rep_def)
  then have "sorted_wrt ?R (map snd (copied (cont t)))" unfolding c by (simp add: butlast_conv_take sorted_wrt_take)
  from rb_entries_holds [OF copy(2) this] rb_holds_verify [OF copy(2)] show ?thesis using rb_entries_ok [OF t(2)] copy(1) size c
    by (intro exI [of _ ?es] exI [of _ copy]) simp
qed

theorem RBTreeCopy_drops_last_witness:
  "\<exists>tree ks vs copy. kv_run RBTreePut RBTreeRemove (rb_new int_order NopDestroyFn NopDestroyFn)
      [Put (Ptr 1) (Ptr True), Put (Ptr 2) (Ptr True), Put (Ptr 3) (Ptr True)] = Ok (tree, ks, vs)
    \<and> rb_entries tree = Ok [(Ptr 1, Ptr True), (Ptr 2, Ptr True), (Ptr 3, Ptr True)]
    \<and> RBTreeCopy (\<lambda>_. 0) (\<lambda>_. 0) tree NULL = Ok copy \<and> rb_entries copy = Ok [(Ptr 1, Ptr True), (Ptr 2, Ptr True)]"
proof -
  let ?ops = "[Put (Ptr 1) (Ptr True), Put (Ptr 2) (Ptr True), Put (Ptr 3) (Ptr True)]"
  have "fold (kv_step (\<lambda>a b. int_order a b = 0)) ?ops [] = [(Ptr 1, Ptr True), (Ptr 2, Ptr True), (Ptr 3, Ptr True)]"
    by (simp add: kv_put_def kv_del_def matches_def int_order_def)
  with rb_run_new [OF int_order, of NopDestroyFn NopDestroyFn ?ops] obtain tree ks vs where
    run: "kv_run RBTreePut RBTreeRemove (rb_new int_order NopDestroyFn NopDestroyFn) ?ops = Ok (tree, ks, vs)"
      "rb_holds int_order tree [(Ptr 1, Ptr True), (Ptr 2, Ptr True), (Ptr 3, Ptr True)]" by auto
  have "sorted_wrt (\<lambda>x y. int_order (fst x) (fst y) < 0) [(Ptr 1, Ptr True), (Ptr 2, Ptr True), (Ptr 3, Ptr True)]"
    by (simp add: int_order_def)
  from rb_entries_holds [OF run(2) this]
  have es: "rb_entries tree = Ok [(Ptr 1, Ptr True), (Ptr 2, Ptr True), (Ptr 3, Ptr True)]" "RBTreeSize tree \<noteq> 0" by simp_all
  from RBTreeCopy_drops_last [OF int_order run(1) es(2), of "\<lambda>_. 0" "\<lambda>_. 0"] es(1) obtain copy where
    "RBTreeCopy (\<lambda>_. 0) (\<lambda>_. 0) tree NULL = Ok copy" "rb_entries copy = Ok [(Ptr 1, Ptr True), (Ptr 2, Ptr True)]" by auto
  then show ?thesis using run(1) es(1) by blast
qed

end
