(* ===== verification/StringBuf.thy ===== *)
theory StringBuf
  imports StringText
begin

text \<open>
  libutils/string_lib.c: the functions that write to buffers. A buffer is a heap block of characters
  with checked reads and writes; sizes passed by the caller are separate arguments, as in the code.
  In-place functions return the new contents of the buffer.
\<close>

text \<open>\<open>holds b s\<close>: the buffer holds the C string \<open>s\<close>.\<close>

definition holds :: "char carray \<Rightarrow> string \<Rightarrow> bool" where
  "holds b s \<longleftrightarrow> stores b (s @ [CHR 0x00]) \<and> CHR 0x00 \<notin> set s"

text \<open>Reading \<open>n\<close> bytes at an offset of a C string, which ends with its NUL.\<close>

definition read_bytes :: "string \<Rightarrow> nat \<Rightarrow> nat \<Rightarrow> string res" where
  "read_bytes s off n =
     (if off + n \<le> length s + 1 then Ok (take n (drop off (s @ [CHR 0x00]))) else Fault OutOfBounds)"

section \<open>Copying\<close>

text \<open>\<open>strncpy\<close> pads with NUL; \<open>strcat\<close> writes behind the string in the buffer.\<close>

definition strncpy :: "char carray \<Rightarrow> string \<Rightarrow> nat \<Rightarrow> char carray res" where
  "strncpy to from n = cwrite_range to 0 (take n from @ replicate (n - length from) (CHR 0x00))"

definition strcat :: "char carray \<Rightarrow> string \<Rightarrow> char carray res" where
  "strcat to s = bindE (cstr_read to) (\<lambda>d. cwrite_range to (length d) (s @ [CHR 0x00]))"

definition StringCopy :: "string ptr \<Rightarrow> char carray ptr \<Rightarrow> nat \<Rightarrow> (nat \<times> char carray) res" where
  "StringCopy from to buf_size = (case (from, to) of
     (Ptr s, Ptr b) \<Rightarrow>
       bindE (cwrite_range b 0 (replicate buf_size (CHR 0x00))) (\<lambda>b1.
       bindE (strncpy b1 s buf_size) (\<lambda>b2.
       if buf_size = 0 then Fault OutOfBounds else
       bindE (cread b2 (buf_size - 1)) (\<lambda>c.
       if c \<noteq> CHR 0x00
       then bindE (cwrite b2 (buf_size - 1) (CHR 0x00)) (\<lambda>b3. Ok (buf_size, b3))
       else bindE (cstr_read b2) (\<lambda>t. Ok (length t, b2)))))
   | _ \<Rightarrow> Fault AssertFail)"

fun strcat_all :: "char carray \<Rightarrow> string ptr list \<Rightarrow> char carray res" where
  "strcat_all b [] = Ok b"
| "strcat_all b (arg # args) = (case arg of
     NULL \<Rightarrow> strcat_all b args
   | Ptr s \<Rightarrow> bindE (strcat b s) (\<lambda>b'. strcat_all b' args))"

definition arg_length :: "string ptr \<Rightarrow> nat" where
  "arg_length arg = (case arg of NULL \<Rightarrow> 0 | Ptr s \<Rightarrow> length s)"

text \<open>The arguments are \<open>first\<close> and the \<open>count - 1\<close> variadic ones.\<close>

definition StringConcatenate :: "string ptr list \<Rightarrow> char carray ptr res" where
  "StringConcatenate args = (case args of
     [] \<Rightarrow> Ok NULL
   | first # rest \<Rightarrow>
       (let total_length = arg_length first + sum_list (map arg_length rest);
            result = xcalloc (total_length + 1) (CHR 0x00)
        in bindE (case first of NULL \<Rightarrow> Ok result | Ptr s \<Rightarrow> strncpy result s total_length) (\<lambda>b.
           bindE (strcat_all b rest) (\<lambda>b'. Ok (Ptr b')))))"

text \<open>Unsigned and signed 64-bit values, and \<open>int\<close>.\<close>

definition u64 :: "int \<Rightarrow> int" where "u64 x = x mod 2 ^ 64"
definition s64 :: "int \<Rightarrow> int" where "s64 x = (x + 2 ^ 63) mod 2 ^ 64 - 2 ^ 63"
definition s32 :: "int \<Rightarrow> int" where "s32 x = (x + 2 ^ 31) mod 2 ^ 32 - 2 ^ 31"

text \<open>
  StringSubstring. \<open>MIN (end, source_len - 1)\<close> compares a signed with an unsigned value, so both are
  compared as unsigned. The bytes copied have to lie in the source string and its NUL.
\<close>

definition substring_end :: "nat \<Rightarrow> int \<Rightarrow> int \<Rightarrow> int res" where
  "substring_end source_len start len =
     (if len < 0 then Ok (s64 (int source_len + len - 1))
      else if start + len < INT_MIN \<or> INT_MAX < start + len then Fault SignedOverflow
      else Ok (start + len - 1))"

definition StringSubstring :: "string \<Rightarrow> nat \<Rightarrow> int \<Rightarrow> int \<Rightarrow> string res" where
  "StringSubstring source source_len start len =
     (if len = 0 then Ok [] else
      bindE (substring_end source_len start len) (\<lambda>end0.
      let max_end = u64 (int source_len - 1);
          end1 = s64 (if u64 end0 < max_end then u64 end0 else max_end);
          start1 = (if start < 0 then s32 (int source_len + start) else start)
      in if start1 > end1 then Ok []
         else if start1 < 0 then Fault OutOfBounds
         else bindE (read_bytes source (nat start1) (nat (end1 - start1 + 1))) (\<lambda>bytes. Ok (c_string bytes))))"

section \<open>Hexadecimal text\<close>

definition hex_chars :: string where
  "hex_chars = ''0123456789abcdef''"

fun StringBytesToHex_loop :: "char carray \<Rightarrow> nat \<Rightarrow> nat \<Rightarrow> string \<Rightarrow> (nat \<times> char carray) res" where
  "StringBytesToHex_loop dst dst_size i [] = Ok (i, dst)"
| "StringBytesToHex_loop dst dst_size i (b # src) =
     (if i * 2 + 2 < dst_size
      then bindE (cwrite dst (2 * i) (hex_chars ! ((of_char b div 16) mod 16))) (\<lambda>d1.
           bindE (cwrite d1 (2 * i + 1) (hex_chars ! (of_char b mod 16))) (\<lambda>d2.
           StringBytesToHex_loop d2 dst_size (i + 1) src))
      else Ok (i, dst))"

definition StringBytesToHex :: "char carray \<Rightarrow> nat \<Rightarrow> string \<Rightarrow> nat \<Rightarrow> (nat \<times> char carray) res" where
  "StringBytesToHex dst dst_size src_bytes src_len =
     bindE (StringBytesToHex_loop dst dst_size 0 (take src_len src_bytes)) (\<lambda>(i, d).
     bindE (c_assert (2 * i < dst_size)) (\<lambda>_.
     bindE (cwrite d (2 * i) (CHR 0x00)) (\<lambda>d'. Ok (2 * i, d'))))"

section \<open>Replacing characters and substrings\<close>

fun ReplaceChar_loop :: "string \<Rightarrow> char carray \<Rightarrow> int \<Rightarrow> nat \<Rightarrow> char \<Rightarrow> char \<Rightarrow> char carray res" where
  "ReplaceChar_loop [] out outSz i from to = Ok out"
| "ReplaceChar_loop (c # s) out outSz i from to =
     (if int i < outSz - 1
      then bindE (cwrite out i (if c = from then to else c)) (\<lambda>out'. ReplaceChar_loop s out' outSz (i + 1) from to)
      else Ok out)"

definition ReplaceChar :: "string \<Rightarrow> char carray \<Rightarrow> int \<Rightarrow> char \<Rightarrow> char \<Rightarrow> char carray res" where
  "ReplaceChar s out outSz from to =
     (if outSz < 0 then Fault OutOfBounds else
      bindE (cwrite_range out 0 (replicate (nat outSz) (CHR 0x00))) (\<lambda>out'. ReplaceChar_loop s out' outSz 0 from to))"

definition ReplaceTrailingChar :: "char carray ptr \<Rightarrow> char \<Rightarrow> char \<Rightarrow> char carray ptr res" where
  "ReplaceTrailingChar str from to = (case str of
     NULL \<Rightarrow> Ok NULL
   | Ptr b \<Rightarrow> bindE (cstr_read b) (\<lambda>s.
       let strLen = int_of_size (length s)
       in if strLen = 0 then Ok str
          else if strLen < 0 then Fault OutOfBounds
          else bindE (cread b (nat strLen - 1)) (\<lambda>c.
          if c = from then bindE (cwrite b (nat strLen - 1) to) (\<lambda>b'. Ok (Ptr b')) else Ok str)))"

text \<open>
  The loop of StringReplaceN. \<open>p\<close> is the offset of an occurrence, \<open>n\<close> the number of replacements
  left; \<open>buf\<close> is the string in the buffer and \<open>tmp\<close> the block of \<open>buf_size\<close> bytes the result is built
  in. The result is \<open>None\<close> when it does not fit.
\<close>

fun StringReplaceN_loop ::
  "nat \<Rightarrow> string \<Rightarrow> nat \<Rightarrow> string \<Rightarrow> string \<Rightarrow> nat \<Rightarrow> nat \<Rightarrow> char carray \<Rightarrow> nat \<Rightarrow> (char carray \<times> nat \<times> nat) option res" where
  "StringReplaceN_loop 0 buf buf_size needle replace p buf_idx tmp tmp_len = Ok (Some (tmp, tmp_len, buf_idx))"
| "StringReplaceN_loop (Suc n) buf buf_size needle replace p buf_idx tmp tmp_len =
     (let buf_newidx = p; prefix_len = buf_newidx - buf_idx
      in if tmp_len + prefix_len + length replace \<ge> buf_size then Ok None
         else bindE (cwrite_range tmp tmp_len (take prefix_len (drop buf_idx buf))) (\<lambda>tmp1.
         bindE (cwrite_range tmp1 (tmp_len + prefix_len) replace) (\<lambda>tmp2.
         let tmp_len' = tmp_len + prefix_len + length replace;
             buf_idx' = buf_newidx + length needle
         in case strstr (drop buf_idx' buf) needle of
              None \<Rightarrow> Ok (Some (tmp2, tmp_len', buf_idx'))
            | Some q \<Rightarrow>
                if n > 0 then StringReplaceN_loop n buf buf_size needle replace (buf_idx' + q) buf_idx' tmp2 tmp_len'
                else Ok (Some (tmp2, tmp_len', buf_idx')))))"

definition StringReplaceN :: "char carray \<Rightarrow> nat \<Rightarrow> string \<Rightarrow> string \<Rightarrow> nat \<Rightarrow> (int \<times> char carray) res" where
  "StringReplaceN buf buf_size needle replace n =
     bindE (c_assert (needle \<noteq> [])) (\<lambda>_.
     if n = 0 then Ok (0, buf) else
     bindE (cstr_read buf) (\<lambda>s.
     case strstr s needle of
       None \<Rightarrow> Ok (0, buf)
     | Some p \<Rightarrow>
         bindE (StringReplaceN_loop n s buf_size needle replace p 0 (xmalloc buf_size) 0) (\<lambda>r.
         case r of
           None \<Rightarrow> Ok (- 1, buf)
         | Some (tmp, tmp_len, buf_idx) \<Rightarrow>
             let leftover_len = length s - buf_idx
             in if tmp_len + leftover_len \<ge> buf_size then Ok (- 1, buf)
                else bindE (cwrite_range tmp tmp_len (drop buf_idx s @ [CHR 0x00])) (\<lambda>tmp1.
                bindE (cread_range tmp1 0 (tmp_len + leftover_len + 1)) (\<lambda>bytes.
                bindE (cwrite_range buf 0 bytes) (\<lambda>buf1. Ok (int (tmp_len + leftover_len), buf1)))))))"

definition StringReplace :: "char carray \<Rightarrow> nat \<Rightarrow> string \<Rightarrow> string \<Rightarrow> (int \<times> char carray) res" where
  "StringReplace buf buf_size needle replace = StringReplaceN buf buf_size needle replace buf_size"



section \<open>Trimming\<close>

text \<open>\<open>strnlen\<close> reads at most \<open>n\<close> bytes.\<close>

fun strnlen :: "char carray \<Rightarrow> nat \<Rightarrow> nat res" where
  "strnlen b 0 = Ok 0"
| "strnlen [] (Suc n) = Fault OutOfBounds"
| "strnlen (Undef # b) (Suc n) = Fault UninitRead"
| "strnlen (Val c # b) (Suc n) = (if c = CHR 0x00 then Ok 0 else bindE (strnlen b n) (\<lambda>k. Ok (Suc k)))"

text \<open>The loops that step back over characters of a class.\<close>

fun strip_back :: "(char \<Rightarrow> bool) \<Rightarrow> char carray \<Rightarrow> nat \<Rightarrow> nat res" where
  "strip_back P str 0 = Ok 0"
| "strip_back P str (Suc i) = bindE (cread str i) (\<lambda>c. if P c then strip_back P str i else Ok (Suc i))"

definition StripTrailingNewline :: "char carray ptr \<Rightarrow> nat \<Rightarrow> (int \<times> char carray ptr) res" where
  "StripTrailingNewline str max_length = (case str of
     NULL \<Rightarrow> Ok (0, NULL)
   | Ptr b \<Rightarrow>
       bindE (strnlen b (nat (u64 (int max_length + 1)))) (\<lambda>i.
       if i > max_length then Ok (- 1, str) else
       bindE (strip_back (\<lambda>c. c = CHR 0x0A) b i) (\<lambda>j.
       bindE (cread b j) (\<lambda>c. bindE (c_assert (c = CHR 0x00 \<or> c = CHR 0x0A)) (\<lambda>_.
       bindE (cwrite b j (CHR 0x00)) (\<lambda>b'. Ok (0, Ptr b')))))))"

definition Chop :: "char carray ptr \<Rightarrow> nat \<Rightarrow> (int \<times> char carray ptr) res" where
  "Chop str max_length = (case str of
     NULL \<Rightarrow> Ok (0, NULL)
   | Ptr b \<Rightarrow>
       bindE (strnlen b (nat (u64 (int max_length + 1)))) (\<lambda>i.
       if i > max_length then Ok (- 1, str) else
       bindE (strip_back isspace b i) (\<lambda>j.
       bindE (cread b j) (\<lambda>c. bindE (c_assert (c = CHR 0x00 \<or> isspace c)) (\<lambda>_.
       bindE (cwrite b j (CHR 0x00)) (\<lambda>b'. Ok (0, Ptr b')))))))"

text \<open>TrimWhitespace returns the offset of the first character kept and the changed buffer.\<close>

fun skip_space :: "char carray \<Rightarrow> nat \<Rightarrow> nat \<Rightarrow> nat res" where
  "skip_space b i 0 = Fault OutOfBounds"
| "skip_space b i (Suc n) = bindE (cread b i) (\<lambda>c. if isspace c then skip_space b (i + 1) n else Ok i)"

definition TrimWhitespace :: "char carray ptr \<Rightarrow> (nat \<times> char carray) res" where
  "TrimWhitespace s = (case s of
     NULL \<Rightarrow> Fault AssertFail
   | Ptr b \<Rightarrow>
       bindE (skip_space b 0 (length b)) (\<lambda>i.
       bindE (cread b i) (\<lambda>c.
       if c = CHR 0x00 then Ok (i, b) else
       bindE (cstr_read (drop i b)) (\<lambda>t.
       bindE (strip_back isspace b (i + length t)) (\<lambda>j.
       bindE (cwrite b j (CHR 0x00)) (\<lambda>b'. Ok (i, b')))))))"

definition TrimCSVLineCRLF :: "char carray ptr \<Rightarrow> (nat \<times> char carray) res" where
  "TrimCSVLineCRLF data = (case data of
     NULL \<Rightarrow> Fault AssertFail
   | Ptr b \<Rightarrow>
       bindE (cstr_read b) (\<lambda>s.
       let len = length s
       in if len < 2 then Ok (len, b)
          else if s ! (len - 2) = CHR 0x0D \<and> s ! (len - 1) = CHR 0x0A
          then bindE (cwrite b (len - 2) (CHR 0x00)) (\<lambda>b1.
               bindE (cwrite b1 (len - 1) (CHR 0x00)) (\<lambda>b2.
               bindE (cstr_read b2) (\<lambda>t. bindE (c_assert (len - 2 = length t)) (\<lambda>_. Ok (len - 2, b2)))))
          else Ok (len, b)))"

definition TrimCSVLineCRLFStrict :: "char carray ptr \<Rightarrow> (nat \<times> char carray) res" where
  "TrimCSVLineCRLFStrict data = (case data of
     NULL \<Rightarrow> Fault AssertFail
   | Ptr b \<Rightarrow>
       bindE (cstr_read b) (\<lambda>s.
       bindE (c_assert (length s > 0 \<and> length s < 4096)) (\<lambda>_.
       bindE (c_assert (\<not> isspace (hd s))) (\<lambda>_.
       bindE (TrimCSVLineCRLF data) (\<lambda>(len, b').
       bindE (cstr_read b') (\<lambda>t.
       bindE (c_assert (len = length t \<and> len > 0)) (\<lambda>_.
       bindE (c_assert (\<not> isspace (t ! (len - 1)) \<and> \<not> isspace (t ! 0))) (\<lambda>_. Ok (len, b')))))))))"

definition StringCloseHole :: "char carray ptr \<Rightarrow> nat \<Rightarrow> nat \<Rightarrow> char carray res" where
  "StringCloseHole s start stop = (case s of
     NULL \<Rightarrow> Fault AssertFail
   | Ptr b \<Rightarrow>
       bindE (cstr_read b) (\<lambda>t.
       bindE (c_assert (start \<le> stop \<and> stop \<le> length t)) (\<lambda>_.
       bindE (c_assert (stop - start \<le> length t)) (\<lambda>_.
       if stop > start then memmove b start stop (length t - stop + 1) else Ok b))))"

section \<open>Appending to bounded buffers\<close>

text \<open>\<open>limit - 1\<close> wraps around for the limit 0.\<close>

definition StringNotMatchingSetCapped :: "string \<Rightarrow> nat \<Rightarrow> string \<Rightarrow> char carray \<Rightarrow> (bool \<times> char carray) res" where
  "StringNotMatchingSetCapped isp limit exclude obuf =
     (let l = strcspn isp exclude
      in if int l < u64 (int limit - 1)
         then bindE (read_bytes isp 0 l) (\<lambda>bytes. bindE (cwrite_range obuf 0 bytes) (\<lambda>b1.
              bindE (cwrite b1 l (CHR 0x00)) (\<lambda>b2. Ok (False, b2))))
         else bindE (read_bytes isp 0 (limit - 1)) (\<lambda>bytes. bindE (cwrite_range obuf 0 bytes) (\<lambda>b1.
              bindE (cwrite b1 (limit - 1) (CHR 0x00)) (\<lambda>b2. Ok (True, b2)))))"

text \<open>StringAppend looks for the end of \<open>dst\<close> in its first \<open>n - 1\<close> bytes, then copies.\<close>

fun StringAppend_copy :: "char carray \<Rightarrow> string \<Rightarrow> nat \<Rightarrow> nat \<Rightarrow> (nat \<times> string \<times> char carray) res" where
  "StringAppend_copy dst [] n i = Ok (i, [], dst)"
| "StringAppend_copy dst (c # src) n i =
     (if i < n then bindE (cwrite dst i c) (\<lambda>d. StringAppend_copy d src n (i + 1)) else Ok (i, c # src, dst))"

definition StringAppend :: "char carray \<Rightarrow> string \<Rightarrow> nat \<Rightarrow> (bool \<times> char carray) res" where
  "StringAppend dst src n0 =
     (let n = nat (u64 (int n0 - 1))
      in bindE (strnlen dst n) (\<lambda>i.
         bindE (StringAppend_copy dst src n i) (\<lambda>(i', left, d).
         bindE (cwrite d i' (CHR 0x00)) (\<lambda>d'. Ok (i' < n \<or> left = [], d')))))"

text \<open>StringCanonify returns its destination pointer, which it has advanced to the terminating NUL.\<close>

fun StringCanonify_loop :: "char carray \<Rightarrow> nat \<Rightarrow> string \<Rightarrow> (nat \<times> char carray) res" where
  "StringCanonify_loop dst i [] = Ok (i, dst)"
| "StringCanonify_loop dst i (c # src) =
     bindE (cwrite dst i (if isalnum c then c else CHR ''_'')) (\<lambda>d. StringCanonify_loop d (i + 1) src)"

definition StringCanonify :: "char carray \<Rightarrow> string \<Rightarrow> (nat \<times> char carray) res" where
  "StringCanonify dst src =
     bindE (StringCanonify_loop dst 0 src) (\<lambda>(i, d). bindE (cwrite d i (CHR 0x00)) (\<lambda>d'. Ok (i, d')))"

fun CanonifyNameInPlace :: "string \<Rightarrow> string" where
  "CanonifyNameInPlace [] = []"
| "CanonifyNameInPlace (c # s) = (if \<not> isalnum c then CHR ''_'' else c) # CanonifyNameInPlace s"

definition PathAppend :: "char carray \<Rightarrow> nat \<Rightarrow> string \<Rightarrow> char \<Rightarrow> (bool \<times> char carray) res" where
  "PathAppend path path_size leaf sep =
     bindE (cstr_read path) (\<lambda>p.
     let path_len = (if length p > 0 \<and> p ! (length p - 1) = sep then length p - 1 else length p)
     in if path_len + 1 + length leaf \<ge> path_size then Ok (False, path)
        else bindE (cwrite path path_len sep) (\<lambda>b1.
             bindE (cwrite_range b1 (path_len + 1) (leaf @ [CHR 0x00])) (\<lambda>b2. Ok (True, b2))))"

text \<open>
  StrCat and StrCatDelim: the in-out length is a pointer that may be NULL. The result is the buffer
  and the new length behind the pointer.
\<close>

definition current_length :: "char carray \<Rightarrow> nat ptr \<Rightarrow> nat res" where
  "current_length dst dst_len = (case dst_len of NULL \<Rightarrow> bindE (cstr_read dst) (\<lambda>d. Ok (length d)) | Ptr l \<Rightarrow> Ok l)"

definition StrCat :: "char carray \<Rightarrow> nat \<Rightarrow> nat ptr \<Rightarrow> string \<Rightarrow> nat \<Rightarrow> (char carray \<times> nat ptr) res" where
  "StrCat dst dst_size dst_len src src_len =
     bindE (current_length dst dst_len) (\<lambda>dlen.
     let slen = (if src_len \<noteq> 0 then src_len else length src);
         needed_len = dlen + slen
     in bindE
          (if dlen + 1 \<ge> dst_size then Ok dst
           else if needed_len < dst_size
           then bindE (read_bytes src 0 slen) (\<lambda>bytes.
                bindE (cwrite_range dst dlen bytes) (\<lambda>b. cwrite b needed_len (CHR 0x00)))
           else bindE (c_assert (dlen + slen \<ge> dst_size)) (\<lambda>_.
                bindE (read_bytes src 0 (dst_size - dlen - 1)) (\<lambda>bytes.
                bindE (cwrite_range dst dlen bytes) (\<lambda>b. cwrite b (dst_size - 1) (CHR 0x00)))))
          (\<lambda>b. Ok (b, map_option (\<lambda>_. needed_len) dst_len)))"

definition StrCatDelim :: "char carray \<Rightarrow> nat \<Rightarrow> nat ptr \<Rightarrow> string \<Rightarrow> char \<Rightarrow> (char carray \<times> nat ptr) res" where
  "StrCatDelim dst dst_size dst_len src sep =
     bindE (current_length dst dst_len) (\<lambda>dlen.
     let slen = length src;
         needed_len = (if dlen > 0 then dlen + slen + 1 else dlen + slen)
     in bindE
          (if dlen + 1 \<ge> dst_size then Ok dst
           else if needed_len < dst_size
           then bindE (if dlen > 0 then cwrite dst dlen sep else Ok dst) (\<lambda>b1.
                bindE (cwrite_range b1 (if dlen > 0 then dlen + 1 else dlen) src) (\<lambda>b2. cwrite b2 needed_len (CHR 0x00)))
           else Ok dst)
          (\<lambda>b. Ok (b, map_option (\<lambda>_. needed_len) dst_len)))"

section \<open>Writing into a buffer\<close>

lemma cwrite_range_stores:
  assumes "stores b xs" "off \<le> length xs" "off + length ys \<le> length b"
  shows "\<exists>b'. cwrite_range b off ys = Ok b' \<and> stores b' (take off xs @ ys) \<and> length b' = length b"
proof -
  have "take off b = map Val (take off xs)"
    using assms(1,2) by (metis min.absorb1 stores_def take_map take_take)
  then have "stores (take off b @ map Val ys @ drop (off + length ys) b) (take off xs @ ys)"
    using assms(2) by (simp add: stores_def)
  then show ?thesis using assms(3) by (simp add: cwrite_range_Ok)
qed

lemma holds_cstr_read [simp]: "holds b s \<Longrightarrow> cstr_read b = Ok s"
  by (simp add: holds_def cstr_read_stores)

lemma holds_length: "holds b s \<Longrightarrow> length s < length b"
  using stores_length [of b "s @ [CHR 0x00]"] by (simp add: holds_def)

lemma stores_append_left: "stores b (xs @ ys) \<Longrightarrow> stores b xs"
  using stores_take [of b "xs @ ys" "length xs"] by simp

lemma stores_stop: "stores b (s @ [CHR 0x00]) \<Longrightarrow> CHR 0x00 \<notin> set s \<Longrightarrow> holds b s"
  by (simp add: holds_def)

section \<open>Replacing substrings\<close>

text \<open>Reference: the first \<open>n\<close> occurrences from the left are replaced.\<close>

fun replace_n :: "nat \<Rightarrow> string \<Rightarrow> string \<Rightarrow> string \<Rightarrow> string" where
  "replace_n 0 needle replace s = s"
| "replace_n (Suc n) needle replace s = (case strstr s needle of
     None \<Rightarrow> s
   | Some i \<Rightarrow> take i s @ replace @ replace_n n needle replace (drop (i + length needle) s))"

lemma replace_n_none [simp]: "strstr s needle = None \<Longrightarrow> replace_n n needle replace s = s"
  by (cases n) auto

definition replaced :: "string \<Rightarrow> nat \<Rightarrow> string \<Rightarrow> (char carray \<times> nat \<times> nat) option \<Rightarrow> bool" where
  "replaced buf buf_size full r = (case r of
     None \<Rightarrow> buf_size \<le> length full
   | Some (tmp, tmp_len, buf_idx) \<Rightarrow> length tmp = buf_size \<and> buf_idx \<le> length buf
       \<and> (\<exists>d. stores tmp d \<and> length d = tmp_len \<and> d @ drop buf_idx buf = full))"

lemma StringReplaceN_loop_correct:
  "0 < n \<Longrightarrow> needle \<noteq> [] \<Longrightarrow> stores tmp d \<Longrightarrow> length tmp = buf_size \<Longrightarrow> strstr (drop buf_idx buf) needle = Some i \<Longrightarrow>
   \<exists>r. StringReplaceN_loop n buf buf_size needle replace (buf_idx + i) buf_idx tmp (length d) = Ok r
     \<and> replaced buf buf_size (d @ replace_n n needle replace (drop buf_idx buf)) r"
proof (induction n arbitrary: buf_idx i tmp d)
  case (Suc n)
  let ?pre = "take i (drop buf_idx buf)" and ?rest = "drop (buf_idx + i + length needle) buf"
  have i: "i + length needle \<le> length (drop buf_idx buf)" using strstr_SomeD [OF Suc.prems(5)] by blast
  have inside: "buf_idx + i + length needle \<le> length buf"
    using i Suc.prems(2) by (cases needle) (simp_all add: le_diff_conv2 add.commute)
  have full: "d @ replace_n (Suc n) needle replace (drop buf_idx buf)
      = (d @ ?pre @ replace) @ replace_n n needle replace ?rest"
    using Suc.prems(5) by (simp add: add.commute add.left_commute)
  show ?case
  proof (cases "length d + i + length replace \<ge> buf_size")
    case True
    then show ?thesis using Suc.prems(5) i by (auto simp: replaced_def)
  next
    case False
    from cwrite_range_stores [OF Suc.prems(3), of "length d" ?pre] False i Suc.prems(4) obtain t1 where
      t1: "cwrite_range tmp (length d) ?pre = Ok t1" "stores t1 (d @ ?pre)" "length t1 = buf_size" by auto
    from cwrite_range_stores [OF t1(2), of "length (d @ ?pre)" replace] False i t1(3) obtain t2 where
      t2: "cwrite_range t1 (length d + i) replace = Ok t2" "stores t2 (d @ ?pre @ replace)" "length t2 = buf_size" by auto
    have len: "length (d @ ?pre @ replace) = length d + i + length replace" using i by simp
    have stop: "replaced buf buf_size (d @ replace_n (Suc n) needle replace (drop buf_idx buf))
        (Some (t2, length d + i + length replace, buf_idx + i + length needle))"
      if "replace_n n needle replace ?rest = ?rest"
      unfolding full that using t2(2,3) inside len by (auto simp: replaced_def)
    show ?thesis
    proof (cases "strstr ?rest needle")
      case None
      then show ?thesis using False t1 t2 stop by simp
    next
      case (Some q)
      show ?thesis
      proof (cases "n = 0")
        case True
        then show ?thesis using False t1 t2 stop Some by simp
      next
        case n: False
        from Suc.IH [OF _ Suc.prems(2) t2(2,3) Some] n obtain r where
          "StringReplaceN_loop n buf buf_size needle replace (buf_idx + i + length needle + q) (buf_idx + i + length needle) t2
             (length d + i + length replace) = Ok r"
          "replaced buf buf_size (d @ replace_n (Suc n) needle replace (drop buf_idx buf)) r"
          unfolding len full by auto
        then show ?thesis using False t1 t2 Some n by simp
      qed
    qed
  qed
qed simp

lemma replace_n_no_NUL: "c \<notin> set s \<Longrightarrow> c \<notin> set replace \<Longrightarrow> c \<notin> set (replace_n n needle replace s)"
proof (induction n arbitrary: s)
  case (Suc n)
  then show ?case by (auto split: option.split dest: in_set_takeD in_set_dropD)
qed simp

text \<open>
  C34: StringReplaceN agrees with the reference definition. When the text occurs and the result with
  its NUL fits, the buffer holds the reference result and its length is returned; when it does not
  fit, the buffer is unchanged and the result is -1; when nothing is to be replaced the result is 0.
  No access leaves the buffer or the temporary array.
\<close>

theorem StringReplaceN_reference:
  assumes "holds buf s" "buf_size \<le> length buf" "needle \<noteq> []" "CHR 0x00 \<notin> set replace"
  shows "if n = 0 \<or> strstr s needle = None then StringReplaceN buf buf_size needle replace n = Ok (0, buf)
    else if buf_size \<le> length (replace_n n needle replace s) then StringReplaceN buf buf_size needle replace n = Ok (- 1, buf)
    else \<exists>buf'. StringReplaceN buf buf_size needle replace n = Ok (int (length (replace_n n needle replace s)), buf')
      \<and> holds buf' (replace_n n needle replace s)"
proof (cases "n = 0 \<or> strstr s needle = None")
  case True
  then show ?thesis using assms by (auto simp: StringReplaceN_def)
next
  case False
  then obtain p where p: "strstr s needle = Some p" "0 < n" by auto
  let ?full = "replace_n n needle replace s"
  have "strstr (drop 0 s) needle = Some p" using p by simp
  from StringReplaceN_loop_correct [OF p(2) assms(3) stores_Nil _ this, of "xmalloc buf_size" buf_size replace]
  obtain r where r: "StringReplaceN_loop n s buf_size needle replace p 0 (xmalloc buf_size) 0 = Ok r"
    "replaced s buf_size ?full r" by auto
  show ?thesis
  proof (cases r)
    case None
    then show ?thesis using r False assms p by (simp add: StringReplaceN_def replaced_def)
  next
    case (Some a)
    obtain tmp tl bi where a: "a = (tmp, tl, bi)" by (cases a)
    from r(2) Some a obtain d where d: "length tmp = buf_size" "bi \<le> length s" "stores tmp d" "length d = tl"
      "d @ drop bi s = ?full" by (auto simp: replaced_def)
    have len: "tl + (length s - bi) = length ?full" by (metis d(4,5) length_append length_drop)
    show ?thesis
    proof (cases "buf_size \<le> length ?full")
      case True
      then show ?thesis using r Some a False assms p len by (simp add: StringReplaceN_def)
    next
      case fits: False
      then have "length d + length (drop bi s @ [CHR 0x00]) \<le> length tmp" using len d(1,2,4) by simp
      from cwrite_range_stores [OF d(3) le_refl this] obtain t1 where
        t1: "cwrite_range tmp tl (drop bi s @ [CHR 0x00]) = Ok t1" "stores t1 (?full @ [CHR 0x00])"
        using d(4,5) by (metis append.assoc take_all_iff le_refl)
      have rd: "cread_range t1 0 (length ?full + 1) = Ok (?full @ [CHR 0x00])"
        using stores_cread_range [OF t1(2), of 0 "length ?full + 1"] by simp
      have "0 + length (?full @ [CHR 0x00]) \<le> length buf" using fits assms(2) by simp
      from cwrite_range_stores [OF stores_Nil _ this] obtain buf' where
        buf': "cwrite_range buf 0 (?full @ [CHR 0x00]) = Ok buf'" "stores buf' (?full @ [CHR 0x00])" by auto
      have "holds buf' ?full"
        using buf'(2) replace_n_no_NUL assms(1,4) by (auto simp: holds_def)
      moreover have "StringReplaceN buf buf_size needle replace n = Ok (int (length ?full), buf')"
        using r(1) Some a p assms(1,3) fits len t1(1) rd buf'(1)
        by (simp add: StringReplaceN_def del: cread_range.simps)
      ultimately show ?thesis using p fits by auto
    qed
  qed
qed

theorem StringReplaceN_reference_witness:
  "\<exists>buf'. StringReplaceN (map Val (''a-b-c'' @ [CHR 0x00]) @ replicate 4 Undef) 10 ''-'' ''==='' 1 = Ok (7, buf')
     \<and> holds buf' ''a===b-c''"
proof -
  have "replace_n 1 ''-'' ''==='' ''a-b-c'' = ''a===b-c''" by code_simp
  moreover have "strstr ''a-b-c'' ''-'' = Some 1" by code_simp
  moreover have "holds (map Val (''a-b-c'' @ [CHR 0x00]) @ replicate 4 Undef) ''a-b-c''"
    by (simp add: holds_def stores_def)
  ultimately show ?thesis
    using StringReplaceN_reference [of "map Val (''a-b-c'' @ [CHR 0x00]) @ replicate 4 Undef" "''a-b-c''" 10 "''-''" "''===''" 1]
    by simp
qed

section \<open>Escaping\<close>












section \<open>Bounded concatenation\<close>

text \<open>
  StrCat never writes behind the buffer size it is given: the buffer holds the concatenation,
  cut after \<open>dst_size - 1\<close> characters, and the length returned is the length of the whole
  concatenation, so a caller sees the truncation.
\<close>

theorem StrCat_truncates:
  assumes "holds dst d" "dst_size \<le> length dst" "length d < dst_size" "CHR 0x00 \<notin> set src"
  shows "\<exists>dst'. StrCat dst dst_size (Ptr (length d)) src 0 = Ok (dst', Ptr (length d + length src))
    \<and> holds dst' (take (dst_size - 1) (d @ src)) \<and> length dst' = length dst"
proof (cases "length d + 1 \<ge> dst_size")
  case True
  then have "length d = dst_size - 1" using assms(3) by linarith
  then show ?thesis using assms(1) True by (auto simp: StrCat_def current_length_def)
next
  case room: False
  define k where "k = min (length src) (dst_size - 1 - length d)"
  have st: "stores dst d" using assms(1) stores_append_left by (auto simp: holds_def)
  have "length d + length (take k src) \<le> length dst" using assms(2) room by (simp add: k_def)
  from cwrite_range_stores [OF st le_refl this] obtain b where
    b: "cwrite_range dst (length d) (take k src) = Ok b" "stores b (d @ take k src)" "length b = length dst" by auto
  have lt: "length (d @ take k src) < length b" using b(3) assms(2) room by (simp add: k_def)
  have "stores (b[length d + k := Val (CHR 0x00)]) ((d @ take k src) @ [CHR 0x00])"
    using stores_snoc [OF b(2) lt] by (simp add: k_def)
  moreover have "take (dst_size - 1) (d @ src) = d @ take k src" using room by (simp add: k_def min_def)
  moreover have "CHR 0x00 \<notin> set (d @ take k src)"
    using assms(1,4) by (auto simp: holds_def dest: in_set_takeD)
  ultimately have h: "holds (b[length d + k := Val (CHR 0x00)]) (take (dst_size - 1) (d @ src))"
    by (simp add: holds_def)
  have cw: "cwrite b (length d + k) (CHR 0x00) = Ok (b[length d + k := Val (CHR 0x00)])"
    using lt by (simp add: k_def)
  show ?thesis
  proof (cases "length d + length src < dst_size")
    case True
    then have "k = length src" using room by (simp add: k_def)
    then show ?thesis using True room b h cw by (simp add: StrCat_def current_length_def read_bytes_def Let_def)
  next
    case False
    then have "k = dst_size - length d - 1" "length d + k = dst_size - 1" "k \<le> length src" using room by (simp_all add: k_def)
    then show ?thesis using False room b h cw by (simp add: StrCat_def current_length_def read_bytes_def Let_def)
  qed
qed

theorem StrCat_truncates_witness:
  "\<exists>dst'. StrCat (map Val (''ab'' @ [CHR 0x00]) @ [Undef, Undef]) 5 (Ptr 2) ''cde'' 0 = Ok (dst', Ptr 5)
     \<and> holds dst' ''abcd''"
proof -
  have "holds (map Val (''ab'' @ [CHR 0x00]) @ [Undef, Undef]) ''ab''" by (simp add: holds_def stores_def)
  from StrCat_truncates [OF this, of 5 "''cde''"] show ?thesis by (auto simp: eval_nat_numeral)
qed

section \<open>Substrings\<close>

text \<open>
  StringSubstring clamps the end of the substring to \<open>source_len - 1\<close>, which wraps around for an
  empty source: asked for two or more characters of an empty string it reads behind its NUL.
\<close>

theorem StringSubstring_empty_source:
  assumes "2 \<le> len" "len \<le> INT_MAX"
  shows "StringSubstring [] 0 0 len = Fault OutOfBounds"
proof -
  have "u64 (int 0 - 1) = 2 ^ 64 - 1" "u64 (len - 1) = len - 1" "s64 (len - 1) = len - 1"
    using assms by (simp_all add: u64_def s64_def c_limits)
  then show ?thesis using assms
    by (simp add: StringSubstring_def substring_end_def c_limits read_bytes_def)
qed

theorem StringSubstring_empty_source_witness: "StringSubstring [] 0 0 5 = Fault OutOfBounds"
  by (rule StringSubstring_empty_source) (simp_all add: c_limits)

text \<open>On non-empty sources and a start inside them the result is the slice.\<close>

lemma StringSubstring_slice:
  assumes "s \<noteq> []" "length s < 2 ^ 31" "0 \<le> start" "0 < len" "start + len \<le> INT_MAX" "CHR 0x00 \<notin> set s"
  shows "StringSubstring s (length s) start len = Ok (take (nat len) (drop (nat start) s))"
proof -
  let ?n = "int (length s)"
  define E where "E = min (start + len - 1) (?n - 1)"
  have n: "0 < ?n" "?n < 2 ^ 31" using assms(1,2) by simp_all
  have u: "u64 (?n - 1) = ?n - 1" "u64 (start + len - 1) = start + len - 1"
    using n assms(3-5) by (simp_all add: u64_def c_limits)
  have e: "s64 (start + len - 1) = start + len - 1" "s64 (?n - 1) = ?n - 1"
    using n assms(3-5) by (simp_all add: s64_def c_limits)
  have eq: "start + len - 1 < ?n \<Longrightarrow> \<not> start + len < ?n \<Longrightarrow> ?n - start = len" by linarith
  have sub: "StringSubstring s (length s) start len = (if start > E then Ok []
      else bindE (read_bytes s (nat start) (nat (E - start + 1))) (\<lambda>bytes. Ok (c_string bytes)))"
    using assms(3-5) unfolding StringSubstring_def substring_end_def Let_def
    by (simp add: E_def c_limits u e min_def eq)
  have str: "c_string (take (nat len) (drop (nat start) s)) = take (nat len) (drop (nat start) s)"
    using assms(6) unfolding c_string_def
    by (intro takeWhile_eq_all_conv [THEN iffD2]) (metis in_set_dropD in_set_takeD)
  show ?thesis
  proof (cases "start > E")
    case True
    then have "length s \<le> nat start" using assms(4) n by (simp add: E_def)
    then show ?thesis using sub True by simp
  next
    case False
    then have k: "nat (E - start + 1) = min (nat len) (length s - nat start)"
      using assms(3,4) unfolding E_def by linarith
    have "start < ?n" using False by (simp add: E_def)
    then have "nat start \<le> length s" using assms(3) by linarith
    then have "read_bytes s (nat start) (nat (E - start + 1)) = Ok (take (nat len) (drop (nat start) s))"
      unfolding k by (auto simp: read_bytes_def min_def)
    then show ?thesis using sub False str by simp
  qed
qed

end
