(* ===== verification/MiscLib.thy ===== *)
theory MiscLib
  imports Prelude
begin

text \<open>
  Powers of two from misc_lib.h and misc_lib.c, on 64-bit \<open>size_t\<close>: the test ISPOW2 and the bit
  trick of UpperPowerOfTwo, with what they compute.
\<close>

unbundle bit_operations_syntax

definition ISPOW2 :: "64 word \<Rightarrow> bool" where
  "ISPOW2 n \<longleftrightarrow> n > 0 \<and> n AND (n - 1) = 0"

definition UpperPowerOfTwo :: "64 word \<Rightarrow> 64 word" where
  "UpperPowerOfTwo v0 =
     (let v = v0 - 1;
          v = v OR drop_bit 1 v;
          v = v OR drop_bit 2 v;
          v = v OR drop_bit 4 v;
          v = v OR drop_bit 8 v;
          v = v OR drop_bit 16 v
      in v + 1)"

section \<open>ISPOW2\<close>

lemma pow2_minus_1_mask: "(2 :: 64 word) ^ k - 1 = mask k"
  by (simp add: mask_eq_exp_minus_1)

lemma ISPOW2_exp:
  assumes "k < 64"
  shows "ISPOW2 (2 ^ k)"
proof -
  have "(2 :: 64 word) ^ k AND mask k = 0"
    by (rule bit_eqI) (simp add: bit_and_iff bit_mask_iff bit_exp_iff)
  moreover have "(2 :: 64 word) ^ k \<noteq> 0" using assms by simp
  ultimately show ?thesis unfolding ISPOW2_def pow2_minus_1_mask by (simp add: word_gt_0)
qed

lemma ISPOW2_of_nat: "k < 64 \<Longrightarrow> ISPOW2 (of_nat (2 ^ k))"
  using ISPOW2_exp [of k] by simp

text \<open>Masking with \<open>2 ^ k - 1\<close> is the remainder modulo \<open>2 ^ k\<close>.\<close>

lemma unat_and_pow2_minus_1:
  assumes "k < 64"
  shows "unat ((w :: 64 word) AND (2 ^ k - 1)) = unat w mod 2 ^ k"
  unfolding pow2_minus_1_mask take_bit_eq_mask [symmetric]
  by (simp only: unsigned_take_bit_eq) (simp add: take_bit_eq_mod)

section \<open>UpperPowerOfTwo\<close>

text \<open>\<open>smeared v a s\<close>: a bit of \<open>a\<close> is set when one of the \<open>s\<close> bits of \<open>v\<close> from there on is set.\<close>

definition smeared :: "64 word \<Rightarrow> 64 word \<Rightarrow> nat \<Rightarrow> bool" where
  "smeared v a s \<longleftrightarrow> (\<forall>n. bit a n \<longleftrightarrow> (\<exists>j < s. bit v (n + j)))"

lemma smeared_step:
  assumes "smeared v a s"
  shows "smeared v (a OR drop_bit s a) (s + s)"
  unfolding smeared_def
proof (intro allI iffI)
  fix n assume "bit (a OR drop_bit s a) n"
  then consider "bit a n" | "bit a (s + n)" by (auto simp: bit_or_iff bit_drop_bit_eq)
  then show "\<exists>j < s + s. bit v (n + j)"
  proof cases
    case 1
    then obtain j where "j < s" "bit v (n + j)" using assms by (auto simp: smeared_def)
    then show ?thesis by (intro exI [of _ j]) simp
  next
    case 2
    then obtain j where "j < s" "bit v (s + n + j)" using assms by (auto simp: smeared_def)
    then show ?thesis by (intro exI [of _ "s + j"]) (simp add: ac_simps)
  qed
next
  fix n assume "\<exists>j < s + s. bit v (n + j)"
  then obtain j where j: "j < s + s" "bit v (n + j)" by blast
  show "bit (a OR drop_bit s a) n"
  proof (cases "j < s")
    case True
    then have "bit a n" using assms j by (auto simp: smeared_def)
    then show ?thesis by (simp add: bit_or_iff)
  next
    case False
    then have "j - s < s" "s + n + (j - s) = n + j" using j(1) by auto
    then have "bit a (s + n)" using assms j(2) unfolding smeared_def by metis
    then show ?thesis by (simp add: bit_or_iff bit_drop_bit_eq)
  qed
qed

lemma smeared_1: "smeared v v 1"
  by (simp add: smeared_def)

lemma UpperPowerOfTwo_smeared: "\<exists>a. smeared (v - 1) a 32 \<and> UpperPowerOfTwo v = a + 1"
proof -
  define v0 where "v0 = v - 1"
  define v1 where "v1 = v0 OR drop_bit 1 v0"
  define v2 where "v2 = v1 OR drop_bit 2 v1"
  define v3 where "v3 = v2 OR drop_bit 4 v2"
  define v4 where "v4 = v3 OR drop_bit 8 v3"
  define v5 where "v5 = v4 OR drop_bit 16 v4"
  have "smeared v0 v1 2" using smeared_step [OF smeared_1 [of v0]] by (simp only: v1_def one_add_one)
  from smeared_step [OF this] have "smeared v0 v2 4" by (simp only: v2_def) simp
  from smeared_step [OF this] have "smeared v0 v3 8" by (simp only: v3_def) simp
  from smeared_step [OF this] have "smeared v0 v4 16" by (simp only: v4_def) simp
  from smeared_step [OF this] have "smeared v0 v5 32" by (simp only: v5_def) simp
  moreover have "UpperPowerOfTwo v = v5 + 1"
    unfolding UpperPowerOfTwo_def Let_def v5_def v4_def v3_def v2_def v1_def v0_def ..
  ultimately show ?thesis unfolding v0_def by blast
qed

lemma nat_log_bounds: "0 < (u :: nat) \<Longrightarrow> \<exists>m. 2 ^ m \<le> u \<and> u < 2 ^ Suc m"
  using ex_power_ivl1 [of 2 u] by auto

lemma smeared_mask:
  assumes "smeared u a 32" "2 ^ m \<le> unat u" "unat u < 2 ^ Suc m" "m < 32"
  shows "a = mask (Suc m)"
proof (rule bit_word_eqI)
  fix n assume "n < LENGTH(64)"
  have high: "\<not> bit u i" if "m < i" for i
  proof -
    have "unat u < 2 ^ i" using assms(3) that by (meson less_le_trans power_increasing Suc_leI one_le_numeral)
    then have "\<not> bit (unat u) i" by (simp add: bit_iff_odd)
    then show ?thesis by (simp add: bit_unsigned_iff)
  qed
  have top: "bit u m"
  proof -
    have "unat u div 2 ^ m = 1" using assms(2,3) by (simp add: div_nat_eqI)
    then have "bit (unat u) m" by (simp add: bit_iff_odd)
    then show ?thesis by (simp add: bit_unsigned_iff)
  qed
  have "(\<exists>j < 32. bit u (n + j)) \<longleftrightarrow> n \<le> m"
  proof
    assume "\<exists>j < 32. bit u (n + j)"
    then show "n \<le> m" using high by (metis le_add1 le_trans linorder_not_less)
  next
    assume "n \<le> m"
    then show "\<exists>j < 32. bit u (n + j)" using top assms(4) by (intro exI [of _ "m - n"]) auto
  qed
  then show "bit a n \<longleftrightarrow> bit (mask (Suc m) :: 64 word) n"
    using assms(1,4) \<open>n < LENGTH(64)\<close> by (auto simp: smeared_def bit_mask_iff less_Suc_eq_le)
qed

lemma UpperPowerOfTwo_correct:
  assumes "0 < unat v" "unat v \<le> 2 ^ 32"
  shows "\<exists>k \<le> 32. UpperPowerOfTwo v = 2 ^ k \<and> unat v \<le> 2 ^ k \<and> (\<forall>j. unat v \<le> 2 ^ j \<longrightarrow> k \<le> j)"
proof (cases "unat v = 1")
  case True
  then have "v = 1" by (metis unat_1 unsigned_word_eqI)
  then have "UpperPowerOfTwo v = 2 ^ 0" by (simp add: UpperPowerOfTwo_def)
  then show ?thesis using True by (intro exI [of _ 0]) simp
next
  case False
  have u: "unat (v - 1) = unat v - 1" using assms(1) by (simp add: unat_minus_one word_neq_0_conv unat_gt_0)
  with False assms(1) have "0 < unat (v - 1)" by simp
  from nat_log_bounds [OF this] obtain m where
    m: "2 ^ m \<le> unat (v - 1)" "unat (v - 1) < 2 ^ Suc m" by blast
  have two: "1 < (2 :: nat)" by simp
  have "(2 :: nat) ^ m < 2 ^ 32" using m(1) assms u by linarith
  from power_less_imp_less_exp [OF two this] have lt: "m < 32" .
  obtain a where a: "smeared (v - 1) a 32" "UpperPowerOfTwo v = a + 1"
    using UpperPowerOfTwo_smeared by blast
  from smeared_mask [OF a(1) m lt] have "UpperPowerOfTwo v = 2 ^ Suc m"
    using a(2) by (simp add: mask_eq_exp_minus_1)
  moreover have "unat v \<le> 2 ^ Suc m" using m(2) u by linarith
  moreover have "Suc m \<le> j" if "unat v \<le> 2 ^ j" for j
  proof -
    have "(2 :: nat) ^ m < 2 ^ j" using m(1) u that assms(1) by linarith
    then show ?thesis by (simp add: Suc_leI)
  qed
  ultimately show ?thesis using lt by (intro exI [of _ "Suc m"]) auto
qed

section \<open>Properties\<close>

text \<open>
  C25: UpperPowerOfTwo returns the smallest power of two that is not below its argument, for every
  argument from 1 to \<open>2 ^ 32\<close>, and the result passes ISPOW2.
\<close>

theorem UpperPowerOfTwo_least:
  assumes "0 < unat v" "unat v \<le> 2 ^ 32"
  shows "\<exists>k \<le> 32. UpperPowerOfTwo v = 2 ^ k \<and> unat v \<le> 2 ^ k \<and> (\<forall>j. unat v \<le> 2 ^ j \<longrightarrow> k \<le> j)
    \<and> ISPOW2 (UpperPowerOfTwo v)"
  using UpperPowerOfTwo_correct [OF assms] ISPOW2_exp by fastforce

theorem UpperPowerOfTwo_least_witness:
  "UpperPowerOfTwo 100 = 128 \<and> ISPOW2 (UpperPowerOfTwo 100)"
proof -
  have "UpperPowerOfTwo 100 = 128" by (simp add: UpperPowerOfTwo_def)
  moreover have "0 < unat (100 :: 64 word)" "unat (100 :: 64 word) \<le> 2 ^ 32" by simp_all
  from UpperPowerOfTwo_least [OF this] have "ISPOW2 (UpperPowerOfTwo 100)" by blast
  ultimately show ?thesis by simp
qed

text \<open>
  The trick smears only 32 of the 64 bits of a \<open>size_t\<close>: above \<open>2 ^ 32\<close> the result is not a
  power of two.
\<close>

theorem UpperPowerOfTwo_beyond_32_bits:
  "\<not> ISPOW2 (UpperPowerOfTwo (2 ^ 33 + 1))"
  by (simp add: UpperPowerOfTwo_def ISPOW2_def)

end
