(* ===== verification/BufferLib.thy ===== *)
theory BufferLib
  imports StringBuf MiscLib
begin

text \<open>
  libutils/buffer.c: a growing byte container with a C string mode and a byte array mode. Bytes handed
  to the operations are C strings or lists of bytes; formatted text is the text that \<open>vsnprintf\<close>
  produces. The replacement by regular expressions (PCRE2) is not modelled.
\<close>

section \<open>Definitions\<close>

datatype BufferBehavior = BUFFER_BEHAVIOR_CSTRING | BUFFER_BEHAVIOR_BYTEARRAY

record Buffer =
  buf_buffer :: "char carray"
  buf_mode :: BufferBehavior
  buf_capacity :: nat
  buf_used :: nat
  buf_unsafe :: bool

definition DEFAULT_BUFFER_CAPACITY :: nat where
  "DEFAULT_BUFFER_CAPACITY = 4096"

text \<open>The flag \<open>unsafe\<close> is not set on creation and never read.\<close>

definition BufferNewWithCapacity :: "nat \<Rightarrow> Buffer res" where
  "BufferNewWithCapacity initial_capacity =
     bindE (cwrite (xmalloc initial_capacity) 0 (CHR 0x00)) (\<lambda>b.
     Ok \<lparr>buf_buffer = b, buf_mode = BUFFER_BEHAVIOR_CSTRING, buf_capacity = initial_capacity, buf_used = 0, buf_unsafe = False\<rparr>)"

definition BufferNew :: "Buffer res" where
  "BufferNew = BufferNewWithCapacity DEFAULT_BUFFER_CAPACITY"

definition ExpandIfNeeded :: "Buffer \<Rightarrow> nat \<Rightarrow> Buffer" where
  "ExpandIfNeeded b needed =
     (if needed \<ge> buf_capacity b
      then let new_capacity = unat (UpperPowerOfTwo (of_nat (needed + 1)))
           in b\<lparr>buf_buffer := xrealloc (buf_buffer b) new_capacity, buf_capacity := new_capacity\<rparr>
      else b)"

text \<open>\<open>bytes\<close> is the memory the pointer refers to; C string mode stops at a NUL in it.\<close>

definition BufferAppend :: "Buffer \<Rightarrow> string \<Rightarrow> nat \<Rightarrow> Buffer res" where
  "BufferAppend b bytes len =
     (if len = 0 then Ok b
      else case buf_mode b of
        BUFFER_BEHAVIOR_CSTRING \<Rightarrow>
          bindE (strnlen (map Val bytes) len) (\<lambda>actual_length.
          let e = ExpandIfNeeded b (buf_used b + actual_length + 1)
          in bindE (cwrite_range (buf_buffer e) (buf_used e) (take actual_length bytes)) (\<lambda>d1.
             bindE (cwrite d1 (buf_used e + actual_length) (CHR 0x00)) (\<lambda>d2.
             Ok (e\<lparr>buf_buffer := d2, buf_used := buf_used e + actual_length\<rparr>))))
      | BUFFER_BEHAVIOR_BYTEARRAY \<Rightarrow>
          if len > length bytes then Fault OutOfBounds else
          let e = ExpandIfNeeded b (buf_used b + len)
          in bindE (cwrite_range (buf_buffer e) (buf_used e) (take len bytes)) (\<lambda>d1.
             Ok (e\<lparr>buf_buffer := d1, buf_used := buf_used e + len\<rparr>)))"

definition BufferNewFrom :: "string \<Rightarrow> nat \<Rightarrow> Buffer res" where
  "BufferNewFrom data len = bindE (BufferNewWithCapacity (len + 1)) (\<lambda>b. BufferAppend b data len)"

definition BufferClose :: "Buffer \<Rightarrow> char carray" where
  "BufferClose b = buf_buffer b"

definition BufferCopy :: "Buffer \<Rightarrow> Buffer res" where
  "BufferCopy source =
     bindE (cread_range (buf_buffer source) 0 (buf_used source)) (\<lambda>bytes. BufferNewFrom bytes (buf_used source))"

text \<open>Plain \<open>char\<close> is signed; \<open>strcmp\<close> compares unsigned bytes.\<close>

definition schar :: "char \<Rightarrow> int" where
  "schar c = (let n = (of_char c :: nat) in if n < 128 then int n else int n - 256)"

fun compare_bytes :: "char carray \<Rightarrow> char carray \<Rightarrow> nat \<Rightarrow> nat \<Rightarrow> int \<Rightarrow> int res" where
  "compare_bytes b1 b2 i 0 otherwise = Ok otherwise"
| "compare_bytes b1 b2 i (Suc n) otherwise =
     bindE (cread b1 i) (\<lambda>x. bindE (cread b2 i) (\<lambda>y.
     if schar x < schar y then Ok (- 1) else if schar x > schar y then Ok 1
     else compare_bytes b1 b2 (i + 1) n otherwise))"

definition compare_used :: "Buffer \<Rightarrow> Buffer \<Rightarrow> int res" where
  "compare_used b1 b2 =
     (if buf_used b1 < buf_used b2 then compare_bytes (buf_buffer b1) (buf_buffer b2) 0 (buf_used b1) (- 1)
      else if buf_used b1 = buf_used b2 then compare_bytes (buf_buffer b1) (buf_buffer b2) 0 (buf_used b1) 0
      else compare_bytes (buf_buffer b1) (buf_buffer b2) 0 (buf_used b2) 1)"

definition BufferCompare :: "Buffer \<Rightarrow> Buffer \<Rightarrow> int res" where
  "BufferCompare b1 b2 =
     (if buf_mode b1 = buf_mode b2
      then if buf_mode b1 = BUFFER_BEHAVIOR_CSTRING
           then bindE (cstr_read (buf_buffer b1)) (\<lambda>s. bindE (cstr_read (buf_buffer b2)) (\<lambda>t.
                let compare_result = strcmp s t
                in if compare_result \<noteq> 0 then Ok (compare_result div \<bar>compare_result\<bar>) else Ok compare_result))
           else compare_used b1 b2
      else compare_used b1 b2)"

definition BufferClear :: "Buffer \<Rightarrow> Buffer res" where
  "BufferClear b = bindE (cwrite (buf_buffer b) 0 (CHR 0x00)) (\<lambda>d. Ok (b\<lparr>buf_used := 0, buf_buffer := d\<rparr>))"

definition BufferSet :: "Buffer \<Rightarrow> string \<Rightarrow> nat \<Rightarrow> Buffer res" where
  "BufferSet b bytes len = bindE (BufferClear b) (\<lambda>b1. BufferAppend b1 bytes len)"

definition BufferGet :: "Buffer \<Rightarrow> char carray \<times> Buffer" where
  "BufferGet b = (buf_buffer b, b\<lparr>buf_unsafe := True\<rparr>)"

definition BufferAppendString :: "Buffer \<Rightarrow> string \<Rightarrow> Buffer res" where
  "BufferAppendString b str =
     (let len = length str; e = ExpandIfNeeded b (buf_used b + len + 1)
      in bindE (cwrite_range (buf_buffer e) (buf_used e) str) (\<lambda>d1.
         bindE (cwrite d1 (buf_used e + len) (CHR 0x00)) (\<lambda>d2.
         Ok (e\<lparr>buf_buffer := d2, buf_used := buf_used e + len\<rparr>))))"

definition BufferTrimToMaxLength :: "Buffer \<Rightarrow> nat \<Rightarrow> Buffer res" where
  "BufferTrimToMaxLength b max_length =
     (if buf_used b > max_length
      then bindE (cwrite (buf_buffer b) max_length (CHR 0x00)) (\<lambda>d. Ok (b\<lparr>buf_used := max_length, buf_buffer := d\<rparr>))
      else Ok b)"

definition BufferAppendChar :: "Buffer \<Rightarrow> char \<Rightarrow> Buffer res" where
  "BufferAppendChar b byte =
     (if int (buf_used b) < u64 (int (buf_capacity b) - 1)
      then bindE (cwrite (buf_buffer b) (buf_used b) byte) (\<lambda>d1.
           bindE (if buf_mode b = BUFFER_BEHAVIOR_CSTRING then cwrite d1 (buf_used b + 1) (CHR 0x00) else Ok d1) (\<lambda>d2.
           Ok (b\<lparr>buf_buffer := d2, buf_used := buf_used b + 1\<rparr>)))
      else BufferAppend b [byte] 1)"

text \<open>\<open>vsnprintf\<close> at an offset with room for \<open>room\<close> bytes: cut text with a NUL; the length of the text.\<close>

definition vsnprintf :: "char carray \<Rightarrow> nat \<Rightarrow> nat \<Rightarrow> string \<Rightarrow> char carray res" where
  "vsnprintf d off room text =
     (if room = 0 then Ok d else cwrite_range d off (take (room - 1) text @ [CHR 0x00]))"

definition BufferAppendF :: "Buffer \<Rightarrow> string \<Rightarrow> Buffer res" where
  "BufferAppendF b text =
     (let room = buf_capacity b - buf_used b
      in bindE (vsnprintf (buf_buffer b) (buf_used b) room text) (\<lambda>d1.
         if length text \<ge> room
         then let e = ExpandIfNeeded (b\<lparr>buf_buffer := d1\<rparr>) (buf_used b + length text)
              in bindE (vsnprintf (buf_buffer e) (buf_used e) (buf_capacity e - buf_used e) text) (\<lambda>d2.
                 Ok (e\<lparr>buf_buffer := d2, buf_used := buf_used e + length text\<rparr>))
         else Ok (b\<lparr>buf_buffer := d1, buf_used := buf_used b + length text\<rparr>)))"

definition BufferPrintf :: "Buffer \<Rightarrow> string \<Rightarrow> (int \<times> Buffer) res" where
  "BufferPrintf b text =
     bindE (vsnprintf (buf_buffer b) 0 (buf_capacity b) text) (\<lambda>d1.
     if length text \<ge> buf_capacity b
     then let e = ExpandIfNeeded (b\<lparr>buf_buffer := d1\<rparr>) (length text)
          in bindE (vsnprintf (buf_buffer e) 0 (buf_capacity e) text) (\<lambda>d2.
             Ok (int (length text), e\<lparr>buf_buffer := d2, buf_used := length text\<rparr>))
     else Ok (int (length text), b\<lparr>buf_buffer := d1, buf_used := length text\<rparr>))"

definition BufferVPrintf :: "Buffer \<Rightarrow> string \<Rightarrow> (int \<times> Buffer) res" where
  "BufferVPrintf b text =
     bindE (vsnprintf (buf_buffer b) 0 (buf_capacity b) text) (\<lambda>d1.
     if length text \<ge> buf_capacity b
     then let e = ExpandIfNeeded (b\<lparr>buf_buffer := d1\<rparr>) (length text)
          in bindE (vsnprintf (buf_buffer e) 0 (buf_capacity e) text) (\<lambda>d2.
             Ok (int (length text), e\<lparr>buf_buffer := d2, buf_used := length text\<rparr>))
     else Ok (int (length text), b\<lparr>buf_buffer := d1, buf_used := length text\<rparr>))"

definition BufferSize :: "Buffer \<Rightarrow> nat" where "BufferSize b = buf_used b"

definition BufferData :: "Buffer \<Rightarrow> char carray" where "BufferData b = buf_buffer b"

definition BufferMode :: "Buffer \<Rightarrow> BufferBehavior" where "BufferMode b = buf_mode b"

definition BufferCapacity :: "Buffer \<Rightarrow> nat" where "BufferCapacity b = buf_capacity b"

definition BufferCanonify :: "Buffer \<Rightarrow> Buffer res" where
  "BufferCanonify b =
     bindE (cstr_read (buf_buffer b)) (\<lambda>s.
     bindE (cwrite_range (buf_buffer b) 0 (CanonifyNameInPlace s)) (\<lambda>d. Ok (b\<lparr>buf_buffer := d\<rparr>)))"

fun find_NUL :: "char carray \<Rightarrow> nat \<Rightarrow> nat \<Rightarrow> nat option res" where
  "find_NUL b i 0 = Ok None"
| "find_NUL b i (Suc n) = bindE (cread b i) (\<lambda>c. if c = CHR 0x00 then Ok (Some i) else find_NUL b (i + 1) n)"

definition BufferSetMode :: "Buffer \<Rightarrow> BufferBehavior \<Rightarrow> Buffer res" where
  "BufferSetMode b mode =
     bindE (if mode = BUFFER_BEHAVIOR_CSTRING
            then bindE (find_NUL (buf_buffer b) 0 (buf_used b)) (\<lambda>r.
                 Ok (case r of Some i \<Rightarrow> b\<lparr>buf_used := i\<rparr> | None \<Rightarrow> b))
            else Ok b) (\<lambda>b'. Ok (b'\<lparr>buf_mode := mode\<rparr>))"

fun BufferFilter_loop :: "char carray \<Rightarrow> nat \<Rightarrow> nat \<Rightarrow> (char \<Rightarrow> bool) \<Rightarrow> bool \<Rightarrow> Buffer \<Rightarrow> Buffer res" where
  "BufferFilter_loop d i 0 filter_fn invert filtered = Ok filtered"
| "BufferFilter_loop d i (Suc n) filter_fn invert filtered =
     bindE (cread d i) (\<lambda>c.
     let test = (if invert then \<not> filter_fn c else filter_fn c)
     in bindE (if test then BufferAppendChar filtered c else Ok filtered) (\<lambda>filtered'.
        BufferFilter_loop d (i + 1) n filter_fn invert filtered'))"

definition BufferFilter :: "Buffer \<Rightarrow> (char \<Rightarrow> bool) \<Rightarrow> bool \<Rightarrow> Buffer res" where
  "BufferFilter b filter_fn invert =
     bindE BufferNew (\<lambda>filtered. BufferFilter_loop (buf_buffer b) 0 (buf_used b) filter_fn invert filtered)"

text \<open>The bytes BufferSet copies are those of the temporary buffer and its terminating NUL.\<close>

definition BufferRewrite :: "Buffer \<Rightarrow> (char \<Rightarrow> bool) \<Rightarrow> bool \<Rightarrow> Buffer res" where
  "BufferRewrite b filter_fn invert =
     bindE (BufferFilter b filter_fn invert) (\<lambda>rewrite.
     bindE (cread_range (BufferData rewrite) 0 (BufferSize rewrite)) (\<lambda>bytes.
     BufferSet b bytes (BufferSize rewrite)))"

section \<open>C string buffers\<close>

text \<open>\<open>buf_rep b s\<close>: a buffer in C string mode that holds \<open>s\<close>.\<close>

definition buf_rep :: "Buffer \<Rightarrow> string \<Rightarrow> bool" where
  "buf_rep b s \<longleftrightarrow> buf_mode b = BUFFER_BEHAVIOR_CSTRING \<and> buf_capacity b = length (buf_buffer b)
     \<and> buf_used b = length s \<and> holds (buf_buffer b) s"

abbreviation max_text :: nat where "max_text \<equiv> 2 ^ 31"

lemma buf_repD: "buf_rep b s \<Longrightarrow> stores (buf_buffer b) s \<and> length s < buf_capacity b"
  using holds_length [of "buf_buffer b" s] stores_append_left by (auto simp: buf_rep_def holds_def)

lemma BufferNewWithCapacity_rep: "0 < n \<Longrightarrow> \<exists>b. BufferNewWithCapacity n = Ok b \<and> buf_rep b [] \<and> buf_capacity b = n"
  by (cases n) (auto simp: BufferNewWithCapacity_def buf_rep_def holds_def stores_def xmalloc_def)

lemma BufferNew_rep: "\<exists>b. BufferNew = Ok b \<and> buf_rep b []"
  using BufferNewWithCapacity_rep [of 4096] by (auto simp: BufferNew_def DEFAULT_BUFFER_CAPACITY_def)

lemma ExpandIfNeeded_room:
  assumes "buf_capacity b = length (buf_buffer b)" "stores (buf_buffer b) xs" "needed < 2 ^ 32 - 1" "length xs \<le> needed"
  shows "stores (buf_buffer (ExpandIfNeeded b needed)) xs \<and> needed < buf_capacity (ExpandIfNeeded b needed)
    \<and> buf_capacity (ExpandIfNeeded b needed) = length (buf_buffer (ExpandIfNeeded b needed))
    \<and> buf_mode (ExpandIfNeeded b needed) = buf_mode b \<and> buf_used (ExpandIfNeeded b needed) = buf_used b"
proof (cases "needed \<ge> buf_capacity b")
  case True
  let ?v = "of_nat (needed + 1) :: 64 word"
  have v: "unat ?v = needed + 1" using assms(3) by (simp add: unat_of_nat take_bit_nat_eq_self del: of_nat_add of_nat_Suc)
  from UpperPowerOfTwo_correct [of ?v] v assms(3) obtain k where
    k: "k \<le> 32" "UpperPowerOfTwo ?v = 2 ^ k" "needed + 1 \<le> 2 ^ k" by auto
  have "(2 :: nat) ^ k < 2 ^ 64" using k(1) by (intro power_strict_increasing) simp_all
  then have "unat (of_nat (2 ^ k) :: 64 word) = 2 ^ k"
    by (simp only: unat_of_nat) (simp add: take_bit_nat_eq_self)
  then have "unat ((2 :: 64 word) ^ k) = 2 ^ k" by simp
  then have "needed < unat (UpperPowerOfTwo ?v)" using k by simp
  then show ?thesis using True assms by (simp add: ExpandIfNeeded_def Let_def)
qed (use assms in \<open>simp add: ExpandIfNeeded_def\<close>)

text \<open>Writing a text behind the string, with its NUL, into a buffer that has room for it.\<close>

lemma buf_write:
  assumes "stores d s" "CHR 0x00 \<notin> set s" "CHR 0x00 \<notin> set t" "length s + length t < length d"
  shows "\<exists>d1 d2. cwrite_range d (length s) t = Ok d1 \<and> cwrite d1 (length s + length t) (CHR 0x00) = Ok d2
    \<and> holds d2 (s @ t) \<and> length d2 = length d"
proof -
  from cwrite_range_stores [OF assms(1) le_refl, of t] assms(4) obtain d1 where
    d1: "cwrite_range d (length s) t = Ok d1" "stores d1 (s @ t)" "length d1 = length d" by auto
  have "stores (d1[length s + length t := Val (CHR 0x00)]) ((s @ t) @ [CHR 0x00])"
    using stores_snoc [OF d1(2)] d1(3) assms(4) by simp
  then show ?thesis using d1 assms by (simp add: holds_def)
qed

lemma BufferAppendString_rep:
  assumes "buf_rep b s" "CHR 0x00 \<notin> set t" "length s + length t < max_text"
  shows "\<exists>b'. BufferAppendString b t = Ok b' \<and> buf_rep b' (s @ t)"
proof -
  let ?e = "ExpandIfNeeded b (length s + length t + 1)"
  have b: "stores (buf_buffer b) s" "buf_capacity b = length (buf_buffer b)" "CHR 0x00 \<notin> set s" "buf_used b = length s"
    using assms(1) buf_repD [OF assms(1)] by (auto simp: buf_rep_def holds_def)
  have e: "stores (buf_buffer ?e) s" "length s + length t + 1 < length (buf_buffer ?e)"
    "buf_capacity ?e = length (buf_buffer ?e)" "buf_mode ?e = BUFFER_BEHAVIOR_CSTRING" "buf_used ?e = length s"
    using ExpandIfNeeded_room [OF b(2,1), of "length s + length t + 1"] assms(1,3) b(4) by (auto simp: buf_rep_def)
  from buf_write [OF e(1) b(3) assms(2)] e(2) obtain d1 d2 where
    d: "cwrite_range (buf_buffer ?e) (length s) t = Ok d1" "cwrite d1 (length s + length t) (CHR 0x00) = Ok d2"
      "holds d2 (s @ t)" "length d2 = length (buf_buffer ?e)" by auto
  have "BufferAppendString b t = Ok (?e\<lparr>buf_buffer := d2, buf_used := length s + length t\<rparr>)"
    unfolding BufferAppendString_def Let_def b(4) e(5) using d(1,2) by simp
  moreover have "buf_rep (?e\<lparr>buf_buffer := d2, buf_used := length s + length t\<rparr>) (s @ t)"
    using e d by (simp add: buf_rep_def)
  ultimately show ?thesis by blast
qed

lemma strnlen_text: "CHR 0x00 \<notin> set t \<Longrightarrow> n \<le> length t \<Longrightarrow> strnlen (map Val t) n = Ok n"
proof (induction t arbitrary: n)
  case (Cons c t)
  then show ?case by (cases n) auto
qed simp

lemma BufferAppend_rep:
  assumes "buf_rep b s" "CHR 0x00 \<notin> set t" "length s + length t < max_text"
  shows "\<exists>b'. BufferAppend b t (length t) = Ok b' \<and> buf_rep b' (s @ t)"
proof (cases "t = []")
  case False
  have "BufferAppend b t (length t) = BufferAppendString b t"
    using False assms(1,2) strnlen_text [of t "length t"]
    by (simp add: BufferAppend_def BufferAppendString_def buf_rep_def Let_def)
  then show ?thesis using BufferAppendString_rep [OF assms] by simp
qed (use assms in \<open>simp add: BufferAppend_def\<close>)

lemma BufferClear_rep: "buf_rep b s \<Longrightarrow> \<exists>b'. BufferClear b = Ok b' \<and> buf_rep b' [] \<and> buf_capacity b' = buf_capacity b"
proof -
  assume b: "buf_rep b s"
  then have "0 < length (buf_buffer b)" using buf_repD [OF b] by (auto simp: buf_rep_def)
  then show ?thesis using b stores_snoc [of "buf_buffer b" "[]" "CHR 0x00"]
    by (simp add: BufferClear_def buf_rep_def holds_def)
qed

lemma BufferSet_rep:
  assumes "buf_rep b s" "CHR 0x00 \<notin> set t" "length t < max_text"
  shows "\<exists>b'. BufferSet b t (length t) = Ok b' \<and> buf_rep b' t"
proof -
  from BufferClear_rep [OF assms(1)] obtain b1 where b1: "BufferClear b = Ok b1" "buf_rep b1 []" by blast
  from BufferAppend_rep [OF b1(2) assms(2)] assms(3) b1(1) show ?thesis by (auto simp: BufferSet_def)
qed

lemma u64_le: "0 \<le> x \<Longrightarrow> u64 x \<le> x"
  by (simp add: u64_def zmod_le_nonneg_dividend)

lemma BufferAppendChar_rep:
  assumes "buf_rep b s" "c \<noteq> CHR 0x00" "length s + 1 < max_text"
  shows "\<exists>b'. BufferAppendChar b c = Ok b' \<and> buf_rep b' (s @ [c])"
proof (cases "int (buf_used b) < u64 (int (buf_capacity b) - 1)")
  case True
  have b: "stores (buf_buffer b) s" "length s < length (buf_buffer b)" "CHR 0x00 \<notin> set s" "buf_used b = length s"
    "buf_capacity b = length (buf_buffer b)"
    using assms(1) buf_repD [OF assms(1)] by (auto simp: buf_rep_def holds_def)
  have "u64 (int (buf_capacity b) - 1) \<le> int (buf_capacity b) - 1"
    by (rule u64_le) (use b(2,5) in linarith)
  with True b(4,5) have room: "length s + length [c] < length (buf_buffer b)" by simp
  from buf_write [OF b(1,3) _ room] assms(2) obtain d1 d2 where
    d: "cwrite_range (buf_buffer b) (length s) [c] = Ok d1" "cwrite d1 (length s + 1) (CHR 0x00) = Ok d2"
      "holds d2 (s @ [c])" "length d2 = length (buf_buffer b)" by auto
  then show ?thesis using True b assms(1) by (auto simp: BufferAppendChar_def buf_rep_def)
next
  case False
  then show ?thesis using BufferAppend_rep [OF assms(1), of "[c]"] assms(2,3) by (simp add: BufferAppendChar_def)
qed

lemma BufferTrimToMaxLength_rep:
  assumes "buf_rep b s"
  shows "\<exists>b'. BufferTrimToMaxLength b n = Ok b' \<and> buf_rep b' (take n s)"
proof (cases "length s > n")
  case True
  have b: "stores (buf_buffer b) s" "length s < length (buf_buffer b)" "CHR 0x00 \<notin> set s"
    using assms buf_repD [OF assms] by (auto simp: buf_rep_def holds_def)
  have "stores ((buf_buffer b)[n := Val (CHR 0x00)]) (take n s @ [CHR 0x00])"
    using stores_snoc [OF stores_take [OF b(1), of n], of "CHR 0x00"] b(2) True by simp
  moreover have "CHR 0x00 \<notin> set (take n s)" using b(3) by (auto dest: in_set_takeD)
  ultimately show ?thesis using True assms b(2) by (simp add: BufferTrimToMaxLength_def buf_rep_def holds_def)
qed (use assms in \<open>simp add: BufferTrimToMaxLength_def buf_rep_def\<close>)

text \<open>Formatted output, tried with the room there is and again in a larger buffer.\<close>

lemma vsnprintf_fits:
  assumes "stores d s" "CHR 0x00 \<notin> set s" "CHR 0x00 \<notin> set t" "length s + length t < length d"
  shows "\<exists>d'. vsnprintf d (length s) (length d - length s) t = Ok d' \<and> holds d' (s @ t) \<and> length d' = length d"
proof -
  have tk: "take (length d - length s - 1) t = t" using assms(4) by simp
  have "length s + length (t @ [CHR 0x00]) \<le> length d" using assms(4) by simp
  from cwrite_range_stores [OF assms(1) le_refl this] assms show ?thesis
    unfolding vsnprintf_def tk by (auto simp: holds_def)
qed

lemma vsnprintf_cut:
  assumes "stores d s" "length s < length d"
  shows "\<exists>d'. vsnprintf d (length s) (length d - length s) t = Ok d' \<and> stores d' s \<and> length d' = length d"
proof -
  let ?u = "take (length d - length s - 1) t @ [CHR 0x00]"
  have "length s + length ?u \<le> length d" using assms(2) by simp
  from cwrite_range_stores [OF assms(1) le_refl this] show ?thesis
    using assms(2) stores_append_left by (auto simp: vsnprintf_def)
qed

lemma BufferAppendF_rep:
  assumes "buf_rep b s" "CHR 0x00 \<notin> set t" "length s + length t < max_text"
  shows "\<exists>b'. BufferAppendF b t = Ok b' \<and> buf_rep b' (s @ t)"
proof -
  have b: "stores (buf_buffer b) s" "length s < length (buf_buffer b)" "CHR 0x00 \<notin> set s" "buf_used b = length s"
    "buf_capacity b = length (buf_buffer b)" "buf_mode b = BUFFER_BEHAVIOR_CSTRING"
    using assms(1) buf_repD [OF assms(1)] by (auto simp: buf_rep_def holds_def)
  show ?thesis
  proof (cases "length t \<ge> length (buf_buffer b) - length s")
    case False
    then have "length s + length t < length (buf_buffer b)" using b(2) by linarith
    from vsnprintf_fits [OF b(1,3) assms(2) this] False b show ?thesis
      by (auto simp: BufferAppendF_def buf_rep_def)
  next
    case True
    from vsnprintf_cut [OF b(1,2), of t] obtain d1 where
      d1: "vsnprintf (buf_buffer b) (length s) (length (buf_buffer b) - length s) t = Ok d1" "stores d1 s"
        "length d1 = length (buf_buffer b)" by blast
    let ?e = "ExpandIfNeeded (b\<lparr>buf_buffer := d1\<rparr>) (length s + length t)"
    have e: "stores (buf_buffer ?e) s" "length s + length t < length (buf_buffer ?e)"
      "buf_capacity ?e = length (buf_buffer ?e)" "buf_mode ?e = BUFFER_BEHAVIOR_CSTRING" "buf_used ?e = length s"
      using ExpandIfNeeded_room [of "b\<lparr>buf_buffer := d1\<rparr>" s "length s + length t"] d1(2,3) b assms(3) by auto
    from vsnprintf_fits [OF e(1) b(3) assms(2) e(2)] obtain d2 where
      d2: "vsnprintf (buf_buffer ?e) (length s) (length (buf_buffer ?e) - length s) t = Ok d2" "holds d2 (s @ t)"
        "length d2 = length (buf_buffer ?e)" by blast
    have "BufferAppendF b t = Ok (?e\<lparr>buf_buffer := d2, buf_used := length s + length t\<rparr>)"
      unfolding BufferAppendF_def Let_def b(4,5) using d1(1) d2(1) True e(3,5) by simp
    moreover have "buf_rep (?e\<lparr>buf_buffer := d2, buf_used := length s + length t\<rparr>) (s @ t)"
      using e d2 by (simp add: buf_rep_def)
    ultimately show ?thesis by blast
  qed
qed

lemma BufferCanonify_rep:
  assumes "buf_rep b s"
  shows "\<exists>b'. BufferCanonify b = Ok b' \<and> buf_rep b' (map (\<lambda>c. if isalnum c then c else CHR ''_'') s)"
proof -
  let ?f = "\<lambda>c. if isalnum c then c else CHR ''_''"
  have c: "CanonifyNameInPlace s = map ?f s" by (induction s) auto
  have b: "holds (buf_buffer b) s" "stores (buf_buffer b) (s @ [CHR 0x00])" "length s < length (buf_buffer b)"
    using assms buf_repD [OF assms] by (auto simp: buf_rep_def holds_def)
  have "cwrite_range (buf_buffer b) 0 (map ?f s) = Ok (map Val (map ?f s) @ drop (length s) (buf_buffer b))"
    using b(3) by (simp add: cwrite_range_Ok)
  moreover have "buf_buffer b ! length s = Val (CHR 0x00)" using stores_nth [OF b(2), of "length s"] by simp
  then have "take 1 (drop (length s) (buf_buffer b)) = [Val (CHR 0x00)]" using b(3) by (simp add: take_Suc_conv_app_nth)
  then have "holds (map Val (map ?f s) @ drop (length s) (buf_buffer b)) (map ?f s)"
    by (auto simp: holds_def stores_def isalnum_def isupper_def islower_def isdigit_def)
  ultimately show ?thesis using assms b c by (auto simp: BufferCanonify_def buf_rep_def)
qed

lemma BufferFilter_loop_rep:
  "stores d s \<Longrightarrow> i + n = length s \<Longrightarrow> CHR 0x00 \<notin> set s \<Longrightarrow> buf_rep b t \<Longrightarrow> length t + n < max_text \<Longrightarrow>
   \<exists>b'. BufferFilter_loop d i n f neg b = Ok b' \<and> buf_rep b' (t @ filter (\<lambda>c. f c = (\<not> neg)) (drop i s))"
proof (induction n arbitrary: i b t)
  case (Suc n)
  have i: "i < length s" using Suc.prems(2) by simp
  have nz: "s ! i \<noteq> CHR 0x00" using Suc.prems(3) nth_mem [OF i] by metis
  then have c: "cread d i = Ok (s ! i)" "drop i s = s ! i # drop (Suc i) s" "s ! i \<noteq> CHR 0x00"
    using Suc.prems(1) i by (auto simp: Cons_nth_drop_Suc)
  have "\<exists>b1. (if (if neg then \<not> f (s ! i) else f (s ! i)) then BufferAppendChar b (s ! i) else Ok b) = Ok b1
      \<and> buf_rep b1 (t @ filter (\<lambda>c. f c = (\<not> neg)) [s ! i])"
    using BufferAppendChar_rep [OF Suc.prems(4) c(3)] Suc.prems(4,5) by auto
  then obtain b1 where b1: "(if (if neg then \<not> f (s ! i) else f (s ! i)) then BufferAppendChar b (s ! i) else Ok b) = Ok b1"
    "buf_rep b1 (t @ filter (\<lambda>c. f c = (\<not> neg)) [s ! i])" by blast
  have "length (t @ filter (\<lambda>c. f c = (\<not> neg)) [s ! i]) + n < max_text" using Suc.prems(5) by simp
  from Suc.IH [OF Suc.prems(1) _ Suc.prems(3) b1(2) this, of "Suc i"] Suc.prems(2)
  obtain b' where "BufferFilter_loop d (Suc i) n f neg b1 = Ok b'"
    "buf_rep b' ((t @ filter (\<lambda>c. f c = (\<not> neg)) [s ! i]) @ filter (\<lambda>c. f c = (\<not> neg)) (drop (Suc i) s))" by auto
  then show ?case using b1(1) c by (auto simp: Let_def split: if_splits)
qed simp

lemma BufferRewrite_rep:
  assumes "buf_rep b s" "length s < max_text"
  shows "\<exists>b'. BufferRewrite b f neg = Ok b' \<and> buf_rep b' (filter (\<lambda>c. f c = (\<not> neg)) s)"
proof -
  let ?t = "filter (\<lambda>c. f c = (\<not> neg)) s"
  have b: "stores (buf_buffer b) s" "CHR 0x00 \<notin> set s" "buf_used b = length s"
    using assms(1) buf_repD [OF assms(1)] by (auto simp: buf_rep_def holds_def)
  obtain n where n: "BufferNew = Ok n" "buf_rep n []" using BufferNew_rep by blast
  from BufferFilter_loop_rep [OF b(1) _ b(2) n(2), of 0 "length s" f neg] assms(2)
  obtain r where r: "BufferFilter b f neg = Ok r" "buf_rep r ?t" by (auto simp: BufferFilter_def n(1) b(3))
  have "cread_range (buf_buffer r) 0 (buf_used r) = Ok ?t"
    using r(2) buf_repD [OF r(2)] stores_cread_range [of "buf_buffer r" ?t 0 "length ?t"] by (simp add: buf_rep_def)
  moreover have "length ?t < max_text" using assms(2) length_filter_le [of "\<lambda>c. f c = (\<not> neg)" s] by linarith
  with BufferSet_rep [OF assms(1), of ?t] b(2) obtain b' where "BufferSet b ?t (length ?t) = Ok b'" "buf_rep b' ?t" by auto
  ultimately show ?thesis using r by (simp add: BufferRewrite_def BufferData_def BufferSize_def buf_rep_def)
qed

section \<open>Programs\<close>

text \<open>The operations that change a C string buffer, and what they do to the text.\<close>

datatype buffer_op =
    Op_AppendString string
  | Op_Append string
  | Op_AppendChar char
  | Op_AppendF string
  | Op_Printf string
  | Op_Set string
  | Op_Clear
  | Op_Trim nat
  | Op_Canonify
  | Op_Rewrite "char \<Rightarrow> bool" bool

primrec exec_op :: "buffer_op \<Rightarrow> Buffer \<Rightarrow> Buffer res" where
  "exec_op (Op_AppendString t) b = BufferAppendString b t"
| "exec_op (Op_Append t) b = BufferAppend b t (length t)"
| "exec_op (Op_AppendChar c) b = BufferAppendChar b c"
| "exec_op (Op_AppendF t) b = BufferAppendF b t"
| "exec_op (Op_Printf t) b = bindE (BufferPrintf b t) (\<lambda>(_, b'). Ok b')"
| "exec_op (Op_Set t) b = BufferSet b t (length t)"
| "exec_op Op_Clear b = BufferClear b"
| "exec_op (Op_Trim n) b = BufferTrimToMaxLength b n"
| "exec_op Op_Canonify b = BufferCanonify b"
| "exec_op (Op_Rewrite f neg) b = BufferRewrite b f neg"

primrec spec_op :: "buffer_op \<Rightarrow> string \<Rightarrow> string" where
  "spec_op (Op_AppendString t) s = s @ t"
| "spec_op (Op_Append t) s = s @ t"
| "spec_op (Op_AppendChar c) s = s @ [c]"
| "spec_op (Op_AppendF t) s = s @ t"
| "spec_op (Op_Printf t) s = t"
| "spec_op (Op_Set t) s = t"
| "spec_op Op_Clear s = []"
| "spec_op (Op_Trim n) s = take n s"
| "spec_op Op_Canonify s = map (\<lambda>c. if isalnum c then c else CHR ''_'') s"
| "spec_op (Op_Rewrite f neg) s = filter (\<lambda>c. f c = (\<not> neg)) s"

primrec op_text :: "buffer_op \<Rightarrow> string" where
  "op_text (Op_AppendString t) = t"
| "op_text (Op_Append t) = t"
| "op_text (Op_AppendChar c) = [c]"
| "op_text (Op_AppendF t) = t"
| "op_text (Op_Printf t) = t"
| "op_text (Op_Set t) = t"
| "op_text Op_Clear = []"
| "op_text (Op_Trim n) = []"
| "op_text Op_Canonify = []"
| "op_text (Op_Rewrite f neg) = []"

text \<open>Texts handed over are C strings, and what the buffer holds stays below 2 GiB.\<close>

definition op_ok :: "buffer_op \<Rightarrow> string \<Rightarrow> bool" where
  "op_ok op s \<longleftrightarrow> CHR 0x00 \<notin> set (op_text op) \<and> length s + length (op_text op) < max_text"

fun ops_ok :: "buffer_op list \<Rightarrow> string \<Rightarrow> bool" where
  "ops_ok [] s \<longleftrightarrow> True"
| "ops_ok (op # ops) s \<longleftrightarrow> op_ok op s \<and> ops_ok ops (spec_op op s)"

lemma BufferPrintf_rep:
  assumes "buf_rep b s" "CHR 0x00 \<notin> set t" "length t < max_text"
  shows "\<exists>b'. BufferPrintf b t = Ok (int (length t), b') \<and> buf_rep b' t"
proof -
  let ?n = "length (buf_buffer b)"
  have b: "0 < ?n" "buf_capacity b = ?n" "buf_mode b = BUFFER_BEHAVIOR_CSTRING"
    using assms(1) buf_repD [OF assms(1)] by (auto simp: buf_rep_def)
  show ?thesis
  proof (cases "length t \<ge> ?n")
    case False
    then show ?thesis using vsnprintf_fits [OF stores_Nil, of t "buf_buffer b"] assms(2) b
      by (auto simp: BufferPrintf_def buf_rep_def)
  next
    case True
    from vsnprintf_cut [OF stores_Nil, of "buf_buffer b" t] b(1) obtain d1 where
      d1: "vsnprintf (buf_buffer b) 0 ?n t = Ok d1" "length d1 = ?n" by auto
    let ?e = "ExpandIfNeeded (b\<lparr>buf_buffer := d1\<rparr>) (length t)"
    have e: "length t < length (buf_buffer ?e)" "buf_capacity ?e = length (buf_buffer ?e)"
        "buf_mode ?e = BUFFER_BEHAVIOR_CSTRING"
      using ExpandIfNeeded_room [of "b\<lparr>buf_buffer := d1\<rparr>" "[]" "length t"] d1(2) b assms(3) by auto
    from vsnprintf_fits [OF stores_Nil, of t "buf_buffer ?e"] e(1) assms(2) obtain d2 where
      d2: "vsnprintf (buf_buffer ?e) 0 (length (buf_buffer ?e)) t = Ok d2" "holds d2 t" "length d2 = length (buf_buffer ?e)"
      by auto
    have "BufferPrintf b t = Ok (int (length t), ?e\<lparr>buf_buffer := d2, buf_used := length t\<rparr>)"
      unfolding BufferPrintf_def Let_def b(2) using d1(1) d2(1) True e(2) by simp
    then show ?thesis using e d2 by (auto simp: buf_rep_def)
  qed
qed

lemma exec_op_rep:
  assumes "buf_rep b s" "op_ok op s"
  shows "\<exists>b'. exec_op op b = Ok b' \<and> buf_rep b' (spec_op op s)"
proof (cases op)
  case (Op_Printf t)
  then show ?thesis using BufferPrintf_rep [OF assms(1), of t] assms(2) by (auto simp: op_ok_def)
qed (use assms in \<open>auto simp: op_ok_def intro: BufferAppendString_rep BufferAppend_rep BufferAppendChar_rep
      BufferAppendF_rep BufferSet_rep BufferTrimToMaxLength_rep BufferCanonify_rep BufferRewrite_rep
      dest: BufferClear_rep\<close>)

lemma exec_ops_rep:
  "buf_rep b s \<Longrightarrow> ops_ok ops s \<Longrightarrow>
   \<exists>b'. run_all (\<lambda>b op. exec_op op b) b ops = Ok b' \<and> buf_rep b' (fold spec_op ops s)"
proof (induction ops arbitrary: b s)
  case (Cons op ops)
  from exec_op_rep [OF Cons.prems(1)] Cons.prems(2) obtain b1 where
    b1: "exec_op op b = Ok b1" "buf_rep b1 (spec_op op s)" by auto
  from Cons.IH [OF b1(2)] Cons.prems(2) b1(1) show ?case by auto
qed simp

section \<open>Properties\<close>

text \<open>
  C38: the invariant of a C string buffer holds after any program of operations: the buffer is
  terminated, its size is the length of its text, it fits its capacity with the NUL, and the text is
  what the same operations do to a list of characters. No operation faults.
\<close>

theorem Buffer_invariant:
  assumes "0 < n" "ops_ok ops []"
  shows "\<exists>b0 b. BufferNewWithCapacity n = Ok b0 \<and> run_all (\<lambda>b op. exec_op op b) b0 ops = Ok b
    \<and> holds (BufferData b) (fold spec_op ops []) \<and> BufferSize b = length (fold spec_op ops [])
    \<and> BufferSize b < BufferCapacity b \<and> BufferCapacity b = length (BufferData b)"
proof -
  from BufferNewWithCapacity_rep [OF assms(1)] obtain b0 where
    b0: "BufferNewWithCapacity n = Ok b0" "buf_rep b0 []" by blast
  from exec_ops_rep [OF b0(2) assms(2)] obtain b where
    b: "run_all (\<lambda>b op. exec_op op b) b0 ops = Ok b" "buf_rep b (fold spec_op ops [])" by blast
  then show ?thesis using b0(1) buf_repD [OF b(2)]
    by (auto simp: buf_rep_def BufferData_def BufferSize_def BufferCapacity_def)
qed

theorem Buffer_invariant_witness:
  "\<exists>b0 b. BufferNewWithCapacity 2 = Ok b0
     \<and> run_all (\<lambda>b op. exec_op op b) b0 [Op_Append ''a-b'', Op_Rewrite isalnum False, Op_AppendChar (CHR ''!''), Op_Canonify] = Ok b
     \<and> holds (BufferData b) ''ab_''"
proof -
  let ?ops = "[Op_Append ''a-b'', Op_Rewrite isalnum False, Op_AppendChar (CHR ''!''), Op_Canonify]"
  have "fold spec_op ?ops [] = ''ab_''"
    by (simp add: isalnum_def isupper_def islower_def isdigit_def)
  moreover have "ops_ok ?ops []" by (simp add: op_ok_def isalnum_def isupper_def islower_def isdigit_def)
  ultimately show ?thesis using Buffer_invariant [of 2 ?ops] by auto
qed

text \<open>
  BufferSetMode back to C string mode does not terminate the text: a new buffer that gets its
  text in byte array mode and is switched to C string mode has no NUL behind the text, and comparing
  it reads memory that was never written.
\<close>

theorem BufferSetMode_unterminated:
  "bindE (BufferNewWithCapacity 8) (\<lambda>b0. bindE (BufferSetMode b0 BUFFER_BEHAVIOR_BYTEARRAY) (\<lambda>b1.
   bindE (BufferAppend b1 ''ab'' 2) (\<lambda>b2. bindE (BufferSetMode b2 BUFFER_BEHAVIOR_CSTRING) (\<lambda>b3.
   BufferCompare b3 b3)))) = Fault UninitRead"
  by code_simp

end
