(* ===== verification/IpAddress.thy ===== *)
theory IpAddress
  imports BufferLib
begin

text \<open>
  libutils/ip_address.c: the parsers of IPv4 and IPv6 addresses, which are state machines over the
  characters of the text, the parsers of the hexadecimal form of procfs, printing and comparison. Every
  caller passes an address to the parsers; the result None stands for the return value -1. Octets and
  groups are stored in fields of 8 and 16 bits.
\<close>

section \<open>Data\<close>

record IPV4Address =
  octets :: "8 word list"
  ipv4_port :: "16 word"

record IPV6Address =
  sixteen :: "16 word list"
  ipv6_port :: "16 word"

datatype IPAddress = IP_ADDRESS_TYPE_IPV4 IPV4Address | IP_ADDRESS_TYPE_IPV6 IPV6Address

definition Char2Dec :: "int \<Rightarrow> char \<Rightarrow> int" where
  "Char2Dec o' c = o' * 10 + of_char c - 48"

definition Char2Hex :: "int \<Rightarrow> char \<Rightarrow> int" where
  "Char2Hex beginning increment =
     (let number = beginning * 16
      in if 97 \<le> (of_char increment :: int) \<and> (of_char increment :: int) \<le> 102 then number + (of_char increment - 97 + 10)
         else if 65 \<le> (of_char increment :: int) \<and> (of_char increment :: int) \<le> 70 then number + (of_char increment - 65 + 10)
         else number + (of_char increment - 48))"

section \<open>Dotted IPv4 addresses\<close>

record v4_parser =
  v4_octet :: int
  v4_port :: int
  v4_period_counter :: nat
  v4_port_counter :: nat
  v4_char_counter :: nat
  v4_has_digit :: bool
  v4_state :: nat
  v4_address :: IPV4Address

definition v4_init :: v4_parser where
  "v4_init = \<lparr>v4_octet = 0, v4_port = 0, v4_period_counter = 0, v4_port_counter = 0, v4_char_counter = 0,
     v4_has_digit = False, v4_state = 0, v4_address = \<lparr>octets = replicate 4 0, ipv4_port = 0\<rparr>\<rparr>"

text \<open>The switch over the state, with the flag \<open>state_change\<close>; None returns -1.\<close>

definition v4_digit :: "char \<Rightarrow> v4_parser \<Rightarrow> v4_parser" where
  "v4_digit c p = p\<lparr>v4_octet := Char2Dec (v4_octet p) c, v4_has_digit := True\<rparr>"

definition v4_store :: "v4_parser \<Rightarrow> nat \<Rightarrow> v4_parser" where
  "v4_store p state = p\<lparr>v4_address := (v4_address p)\<lparr>octets := (octets (v4_address p))[v4_state p := word_of_int (v4_octet p)]\<rparr>,
     v4_state := state\<rparr>"

definition v4_switch :: "char \<Rightarrow> v4_parser \<Rightarrow> (v4_parser \<times> bool) option" where
  "v4_switch c p =
     (if v4_state p < 3
      then if isdigit c then Some (v4_digit c p, False)
           else if c = CHR ''.'' then Some (v4_store p (v4_state p + 1), True)
           else Some (p\<lparr>v4_state := 7\<rparr>, True)
      else if v4_state p = 3
      then if isdigit c then Some (v4_digit c p, False)
           else if c = CHR '':'' then Some (v4_store p 5, True)
           else Some (p\<lparr>v4_state := 7\<rparr>, True)
      else if v4_state p = 4 then Some (p, False)
      else if v4_state p = 5
      then if isdigit c then Some (p\<lparr>v4_port := Char2Dec (v4_port p) c\<rparr>, False)
           else Some (p\<lparr>v4_state := 7\<rparr>, True)
      else None)"

definition v4_reset :: "v4_parser \<Rightarrow> v4_parser" where
  "v4_reset p = p\<lparr>v4_char_counter := 0, v4_octet := 0, v4_port := 0, v4_period_counter := 0, v4_port_counter := 0,
     v4_has_digit := False\<rparr>"

definition v4_char :: "char \<Rightarrow> v4_parser \<Rightarrow> v4_parser option" where
  "v4_char c p =
     (let p1 = p\<lparr>v4_period_counter := v4_period_counter p + (if c = CHR ''.'' then 1 else 0),
         v4_port_counter := v4_port_counter p + (if c = CHR '':'' then 1 else 0)\<rparr>
      in case v4_switch c p1 of
        None \<Rightarrow> None
      | Some (p2, state_change) \<Rightarrow>
          let p3 = p2\<lparr>v4_char_counter := v4_char_counter p2 + 1\<rparr>
          in if v4_octet p3 > 255 \<or> v4_port p3 > 65535 \<or> v4_period_counter p3 > 1 \<or> v4_port_counter p3 > 1 then None
             else if state_change then if \<not> v4_has_digit p3 then None else Some (v4_reset p3)
             else Some p3)"

fun v4_loop :: "string \<Rightarrow> v4_parser \<Rightarrow> v4_parser option" where
  "v4_loop [] p = Some p"
| "v4_loop (c # s) p = (case v4_char c p of None \<Rightarrow> None | Some q \<Rightarrow> v4_loop s q)"

text \<open>Behind the loop. State 7, where an error leads to, is not looked at here.\<close>

definition v4_finish :: "v4_parser \<Rightarrow> IPV4Address option" where
  "v4_finish p =
     (if v4_state p < 3 then None
      else if v4_state p = 3
      then if v4_char_counter p = 0 then None
           else Some ((v4_address p)\<lparr>octets := (octets (v4_address p))[3 := word_of_int (v4_octet p)]\<rparr>)
      else if v4_state p = 5
      then if v4_char_counter p = 0 then None else Some ((v4_address p)\<lparr>ipv4_port := word_of_int (v4_port p)\<rparr>)
      else if v4_state p = 6 then None
      else Some (v4_address p))"

definition IPV4_parser :: "string \<Rightarrow> IPV4Address option" where
  "IPV4_parser source = (case v4_loop source v4_init of None \<Rightarrow> None | Some p \<Rightarrow> v4_finish p)"

section \<open>Colon-separated IPv6 addresses\<close>

record v6_parser =
  v6_sixteen :: int
  unsorted_sixteen :: "int list"
  unsorted_pointer :: nat
  bracket_expected :: bool
  v6_port :: int
  v6_char_counter :: nat
  is_upper_hexdigit :: bool
  zero_compression :: bool
  already_compressed :: bool
  v6_state :: nat
  v6_address :: IPV6Address

definition v6_init :: v6_parser where
  "v6_init = \<lparr>v6_sixteen = 0, unsorted_sixteen = replicate 6 0, unsorted_pointer = 0, bracket_expected = False, v6_port = 0,
     v6_char_counter = 0, is_upper_hexdigit = False, zero_compression = False, already_compressed = False, v6_state = 0,
     v6_address = \<lparr>sixteen = replicate 8 0, ipv6_port = 0\<rparr>\<rparr>"

definition v6_error :: "v6_parser \<Rightarrow> (v6_parser \<times> bool) res" where
  "v6_error p = Ok (p\<lparr>v6_state := 11\<rparr>, True)"

definition v6_digit :: "char \<Rightarrow> v6_parser \<Rightarrow> (v6_parser \<times> bool) res" where
  "v6_digit c p =
     (if is_upper_hexdigit p then v6_error p else Ok (p\<lparr>v6_sixteen := Char2Hex (v6_sixteen p) c\<rparr>, False))"

definition v6_store :: "v6_parser \<Rightarrow> nat \<Rightarrow> v6_parser" where
  "v6_store p i = p\<lparr>v6_address := (v6_address p)\<lparr>sixteen := (sixteen (v6_address p))[i := word_of_int (v6_sixteen p)]\<rparr>\<rparr>"

text \<open>The array \<open>unsorted_sixteen\<close> has six fields.\<close>

definition v6_unsorted :: "v6_parser \<Rightarrow> v6_parser res" where
  "v6_unsorted p =
     (if unsorted_pointer p < length (unsorted_sixteen p)
      then Ok (p\<lparr>unsorted_sixteen := (unsorted_sixteen p)[unsorted_pointer p := v6_sixteen p],
        unsorted_pointer := unsorted_pointer p + 1\<rparr>)
      else Fault OutOfBounds)"

definition v6_case0 :: "char \<Rightarrow> v6_parser \<Rightarrow> (v6_parser \<times> bool) res" where
  "v6_case0 c p =
     (if c = CHR ''['' then if v6_char_counter p = 0 then Ok (p\<lparr>bracket_expected := True\<rparr>, False) else v6_error p
      else if isxdigit c then v6_digit c p
      else if c = CHR '':'' then Ok ((v6_store p 0)\<lparr>v6_state := 1\<rparr>, True)
      else v6_error p)"

definition v6_case1 :: "char \<Rightarrow> v6_parser \<Rightarrow> (v6_parser \<times> bool) res" where
  "v6_case1 c p =
     (if isxdigit c then v6_digit c p
      else if c = CHR '':''
      then Ok ((if v6_char_counter p = 0 then p\<lparr>zero_compression := True, already_compressed := True\<rparr>
                else v6_store p (v6_state p))\<lparr>v6_state := v6_state p + 1\<rparr>, True)
      else v6_error p)"

definition v6_middle :: "char \<Rightarrow> v6_parser \<Rightarrow> (v6_parser \<times> bool) res" where
  "v6_middle c p =
     (if isxdigit c then v6_digit c p
      else if c = CHR '':''
      then if v6_char_counter p = 0
           then if already_compressed p then v6_error p
                else Ok (p\<lparr>zero_compression := True, already_compressed := True\<rparr>, False)
           else bindE (if zero_compression p then v6_unsorted p else Ok (v6_store p (v6_state p))) (\<lambda>q.
                Ok (q\<lparr>v6_state := v6_state q + 1\<rparr>, True))
      else if c = CHR '']''
      then if bracket_expected p \<and> zero_compression p
           then bindE (v6_unsorted (p\<lparr>bracket_expected := False\<rparr>)) (\<lambda>q. Ok (q\<lparr>v6_state := 8\<rparr>, True))
           else v6_error p
      else v6_error p)"

definition v6_case7 :: "char \<Rightarrow> v6_parser \<Rightarrow> (v6_parser \<times> bool) res" where
  "v6_case7 c p =
     (if isxdigit c then v6_digit c p
      else if c = CHR '']''
      then if bracket_expected p
           then Ok ((v6_store (p\<lparr>bracket_expected := False\<rparr>) (v6_state p))\<lparr>v6_state := v6_state p + 1\<rparr>, True)
           else v6_error p
      else v6_error p)"

text \<open>The switch; None returns -1.\<close>

definition v6_switch :: "char \<Rightarrow> v6_parser \<Rightarrow> (v6_parser \<times> bool) option res" where
  "v6_switch c p =
     (if v6_state p = 0 then bindE (v6_case0 c p) (\<lambda>r. Ok (Some r))
      else if v6_state p = 1 then bindE (v6_case1 c p) (\<lambda>r. Ok (Some r))
      else if v6_state p \<le> 6 then bindE (v6_middle c p) (\<lambda>r. Ok (Some r))
      else if v6_state p = 7 then bindE (v6_case7 c p) (\<lambda>r. Ok (Some r))
      else if v6_state p = 8
      then if c = CHR '':'' then Ok (Some (p\<lparr>v6_state := v6_state p + 1\<rparr>, True))
           else bindE (v6_error p) (\<lambda>r. Ok (Some r))
      else if v6_state p = 9
      then if isdigit c then Ok (Some (p\<lparr>v6_port := Char2Dec (v6_port p) c\<rparr>, False))
           else bindE (v6_error p) (\<lambda>r. Ok (Some r))
      else if v6_state p = 10 then Ok (Some (p, False))
      else Ok None)"

definition v6_reset :: "v6_parser \<Rightarrow> v6_parser" where
  "v6_reset p = p\<lparr>v6_sixteen := 0, v6_port := 0, v6_char_counter := 0, is_upper_hexdigit := False\<rparr>"

definition v6_char :: "char \<Rightarrow> v6_parser \<Rightarrow> v6_parser option res" where
  "v6_char c p =
     (let p1 = (if isxdigit c \<and> (isupper c \<or> islower c) then p\<lparr>is_upper_hexdigit := isupper c\<rparr> else p)
      in bindE (v6_switch c p1) (\<lambda>r. case r of
        None \<Rightarrow> Ok None
      | Some (p2, state_change) \<Rightarrow>
          let p3 = p2\<lparr>v6_char_counter := v6_char_counter p2 + 1\<rparr>
          in if v6_sixteen p3 > 0xFFFF \<or> v6_port p3 > 65535 then Ok None
             else Ok (Some (if state_change then v6_reset p3 else p3))))"

fun v6_loop :: "string \<Rightarrow> v6_parser \<Rightarrow> v6_parser option res" where
  "v6_loop [] p = Ok (Some p)"
| "v6_loop (c # s) p = bindE (v6_char c p) (\<lambda>r. case r of None \<Rightarrow> Ok None | Some q \<Rightarrow> v6_loop s q)"

text \<open>
  Behind the loop: the groups behind \<open>::\<close> are copied to the end of the address, backwards. In state 8 they
  are taken from the front of \<open>unsorted_sixteen\<close>, and in state 7 and 9 not at all.
\<close>

fun v6_copy_back :: "nat \<Rightarrow> (nat \<Rightarrow> int) \<Rightarrow> 16 word list \<Rightarrow> 16 word list" where
  "v6_copy_back 0 source groups = groups"
| "v6_copy_back (Suc n) source groups = (v6_copy_back n source groups)[7 - n := word_of_int (source n)]"

definition v6_finish :: "v6_parser \<Rightarrow> IPV6Address option res" where
  "v6_finish p =
     (if v6_state p < 2 then Ok None
      else if v6_state p \<le> 6
      then if bracket_expected p then Ok None
           else bindE (v6_unsorted p) (\<lambda>q.
                if zero_compression q
                then Ok (Some ((v6_address q)\<lparr>sixteen :=
                  v6_copy_back (unsorted_pointer q) (\<lambda>i. unsorted_sixteen q ! (unsorted_pointer q - i - 1)) (sixteen (v6_address q))\<rparr>))
                else Ok None)
      else if v6_state p = 7
      then if v6_char_counter p = 0 \<or> bracket_expected p then Ok None
           else Ok (Some (v6_address (v6_store p 7)))
      else if v6_state p = 8
      then Ok (Some (if zero_compression p
             then (v6_address p)\<lparr>sixteen := v6_copy_back (unsorted_pointer p) (\<lambda>i. unsorted_sixteen p ! i) (sixteen (v6_address p))\<rparr>
             else v6_address p))
      else if v6_state p = 9
      then if v6_char_counter p = 0 then Ok None else Ok (Some ((v6_address p)\<lparr>ipv6_port := word_of_int (v6_port p)\<rparr>))
      else if v6_state p = 11 then Ok None
      else Ok (Some (v6_address p)))"

definition IPV6_parser :: "string \<Rightarrow> IPV6Address option res" where
  "IPV6_parser source = bindE (v6_loop source v6_init) (\<lambda>r. case r of None \<Rightarrow> Ok None | Some p \<Rightarrow> v6_finish p)"

section \<open>The hexadecimal form of procfs\<close>

text \<open>
  The conversion \<open>%\<close>width\<open>x\<close> of \<open>sscanf\<close>: white space, then at most \<open>width\<close> characters of an optional sign, an
  optional prefix \<open>0x\<close> and hexadecimal digits, as an \<open>unsigned int\<close>.
\<close>

definition scan_sign_hex :: "nat \<Rightarrow> string \<Rightarrow> bool \<times> nat \<times> string" where
  "scan_sign_hex width s = (case s of
     c # t \<Rightarrow> if (c = CHR ''-'' \<or> c = CHR ''+'') \<and> 0 < width then (c = CHR ''-'', width - 1, t) else (False, width, s)
   | [] \<Rightarrow> (False, width, s))"

definition scan_prefix_hex :: "nat \<Rightarrow> string \<Rightarrow> nat \<times> string" where
  "scan_prefix_hex width s =
     (if 2 \<le> width \<and> 2 \<le> length s \<and> s ! 0 = CHR ''0'' \<and> (s ! 1 = CHR ''x'' \<or> s ! 1 = CHR ''X'') then (width - 2, drop 2 s) else (width, s))"

definition sscanf_x :: "nat \<Rightarrow> string \<Rightarrow> (int \<times> string) option" where
  "sscanf_x width s =
     (let (neg, w1, s1) = scan_sign_hex width (dropWhile isspace s);
          (w2, s2) = scan_prefix_hex w1 s1;
          digits = takeWhile isxdigit (take w2 s2);
          v = foldl Char2Hex 0 digits
      in if digits = [] then None else Some (if neg then (- v) mod 2 ^ 32 else v, drop (length digits) s2))"

fun sscanf_xs :: "nat \<Rightarrow> nat \<Rightarrow> string \<Rightarrow> (int list \<times> string) option" where
  "sscanf_xs width 0 s = Some ([], s)"
| "sscanf_xs width (Suc n) s = (case sscanf_x width s of
     None \<Rightarrow> None
   | Some (v, rest) \<Rightarrow> (case sscanf_xs width n rest of None \<Rightarrow> None | Some (vs, rest') \<Rightarrow> Some (v # vs, rest')))"

text \<open>A colon and a number behind the groups.\<close>

definition sscanf_colon_x :: "string \<Rightarrow> int option" where
  "sscanf_colon_x s = (case s of
     c # t \<Rightarrow> if c = CHR '':'' then map_option fst (sscanf_x 4 t) else None
   | [] \<Rightarrow> None)"

definition IPV4_hex_parser :: "string \<Rightarrow> IPV4Address option" where
  "IPV4_hex_parser source = (case sscanf_xs 2 4 source of
     None \<Rightarrow> None
   | Some (vs, rest) \<Rightarrow>
       if length source = 8 then Some \<lparr>octets = map word_of_int (rev vs), ipv4_port = 0\<rparr>
       else if length source = 8 + 1 + 4
       then (case sscanf_colon_x rest of
           None \<Rightarrow> None | Some port \<Rightarrow> Some \<lparr>octets = map word_of_int (rev vs), ipv4_port = word_of_int port\<rparr>)
       else None)"

text \<open>Without a port the field \<open>port\<close> of the block from \<open>xmalloc\<close> is not written: \<open>old\<close> is what it holds.\<close>

definition IPV6_hex_parser :: "string \<Rightarrow> 16 word \<Rightarrow> IPV6Address option" where
  "IPV6_hex_parser source old = (case sscanf_xs 4 8 source of
     None \<Rightarrow> None
   | Some (vs, rest) \<Rightarrow>
       if length source = 32 then Some \<lparr>sixteen = map word_of_int vs, ipv6_port = old\<rparr>
       else if length source = 32 + 1 + 4
       then (case sscanf_colon_x rest of
           None \<Rightarrow> None | Some port \<Rightarrow> Some \<lparr>sixteen = map word_of_int vs, ipv6_port = word_of_int port\<rparr>)
       else None)"

section \<open>Addresses\<close>

definition IPAddressNew :: "Buffer ptr \<Rightarrow> IPAddress ptr res" where
  "IPAddressNew source = (case source of
     NULL \<Rightarrow> Ok NULL
   | Ptr b \<Rightarrow> bindE (cstr_read (BufferData b)) (\<lambda>pad.
       case IPV4_parser pad of
         Some ipv4 \<Rightarrow> Ok (Ptr (IP_ADDRESS_TYPE_IPV4 ipv4))
       | None \<Rightarrow> bindE (IPV6_parser pad) (\<lambda>r. Ok (map_option IP_ADDRESS_TYPE_IPV6 r))))"

definition IPAddressNewHex :: "Buffer ptr \<Rightarrow> 16 word \<Rightarrow> IPAddress ptr res" where
  "IPAddressNewHex source old = (case source of
     NULL \<Rightarrow> Ok NULL
   | Ptr b \<Rightarrow> bindE (cstr_read (BufferData b)) (\<lambda>pad.
       case IPV4_hex_parser pad of
         Some ipv4 \<Rightarrow> Ok (Ptr (IP_ADDRESS_TYPE_IPV4 ipv4))
       | None \<Rightarrow> Ok (map_option IP_ADDRESS_TYPE_IPV6 (IPV6_hex_parser pad old))))"

definition IPAddressIsIPAddress :: "Buffer ptr \<Rightarrow> (bool \<times> IPAddress ptr) res" where
  "IPAddressIsIPAddress source = (case source of
     NULL \<Rightarrow> Ok (False, NULL)
   | Ptr b \<Rightarrow> bindE (cstr_read (BufferData b)) (\<lambda>pad.
       case IPV4_parser pad of
         Some ipv4 \<Rightarrow> Ok (True, Ptr (IP_ADDRESS_TYPE_IPV4 ipv4))
       | None \<Rightarrow> bindE (IPV6_parser pad) (\<lambda>r. case r of
           Some ipv6 \<Rightarrow> Ok (True, Ptr (IP_ADDRESS_TYPE_IPV6 ipv6))
         | None \<Rightarrow> Ok (False, NULL))))"

text \<open>\<open>%x\<close> and the texts printed.\<close>

fun hex_digits :: "nat \<Rightarrow> string" where
  "hex_digits n = (if n < 16 then [''0123456789abcdef'' ! n] else hex_digits (n div 16) @ [''0123456789abcdef'' ! (n mod 16)])"

declare hex_digits.simps [simp del]

fun join_with :: "char \<Rightarrow> string list \<Rightarrow> string" where
  "join_with c [] = []"
| "join_with c [s] = s"
| "join_with c (s # t # ts) = s @ c # join_with c (t # ts)"

definition ipv4_text :: "IPV4Address \<Rightarrow> string" where
  "ipv4_text a = join_with (CHR ''.'') (map (\<lambda>w. nat_digits (unat w)) (octets a))"

definition ipv6_text :: "IPV6Address \<Rightarrow> string" where
  "ipv6_text a = join_with (CHR '':'') (map (\<lambda>w. hex_digits (unat w)) (sixteen a))"

text \<open>BIG_ENDIAN is defined by the system headers, so the first format is the one compiled.\<close>

definition IPAddressGetAddress :: "IPAddress ptr \<Rightarrow> Buffer ptr res" where
  "IPAddressGetAddress address = (case address of
     NULL \<Rightarrow> Ok NULL
   | Ptr a \<Rightarrow> bindE BufferNew (\<lambda>buffer.
       bindE (BufferPrintf buffer (case a of IP_ADDRESS_TYPE_IPV4 ipv4 \<Rightarrow> ipv4_text ipv4 | IP_ADDRESS_TYPE_IPV6 ipv6 \<Rightarrow> ipv6_text ipv6))
       (\<lambda>(result, buffer'). if result < 0 then Ok NULL else Ok (Ptr buffer'))))"

definition IPAddressType :: "IPAddress ptr \<Rightarrow> int" where
  "IPAddressType address = (case address of
     NULL \<Rightarrow> - 1
   | Ptr (IP_ADDRESS_TYPE_IPV4 _) \<Rightarrow> 0
   | Ptr (IP_ADDRESS_TYPE_IPV6 _) \<Rightarrow> 1)"

definition IPAddressGetPort :: "IPAddress ptr \<Rightarrow> int" where
  "IPAddressGetPort address = (case address of
     NULL \<Rightarrow> - 1
   | Ptr (IP_ADDRESS_TYPE_IPV4 ipv4) \<Rightarrow> uint (ipv4_port ipv4)
   | Ptr (IP_ADDRESS_TYPE_IPV6 ipv6) \<Rightarrow> uint (ipv6_port ipv6))"

fun same_groups :: "'a::equal list \<Rightarrow> 'a list \<Rightarrow> int" where
  "same_groups (a # as) (b # bs) = (if a \<noteq> b then 0 else same_groups as bs)"
| "same_groups as bs = 1"

fun less_groups :: "'a::linorder list \<Rightarrow> 'a list \<Rightarrow> bool" where
  "less_groups (a # as) (b # bs) = (if a > b then False else if a < b then True else less_groups as bs)"
| "less_groups as bs = False"

definition IPV4Compare :: "IPV4Address \<Rightarrow> IPV4Address \<Rightarrow> int" where
  "IPV4Compare a b = same_groups (octets a) (octets b)"

definition IPV6Compare :: "IPV6Address \<Rightarrow> IPV6Address \<Rightarrow> int" where
  "IPV6Compare a b = same_groups (sixteen a) (sixteen b)"

definition IPAddressIsEqual :: "IPAddress ptr \<Rightarrow> IPAddress ptr \<Rightarrow> int" where
  "IPAddressIsEqual a b = (case (a, b) of
     (Ptr (IP_ADDRESS_TYPE_IPV4 x), Ptr (IP_ADDRESS_TYPE_IPV4 y)) \<Rightarrow> IPV4Compare x y
   | (Ptr (IP_ADDRESS_TYPE_IPV6 x), Ptr (IP_ADDRESS_TYPE_IPV6 y)) \<Rightarrow> IPV6Compare x y
   | _ \<Rightarrow> - 1)"

definition IPV4CompareLess :: "IPV4Address \<Rightarrow> IPV4Address \<Rightarrow> bool" where
  "IPV4CompareLess a b = less_groups (octets a) (octets b)"

definition IPV6CompareLess :: "IPV6Address \<Rightarrow> IPV6Address \<Rightarrow> bool" where
  "IPV6CompareLess a b = less_groups (sixteen a) (sixteen b)"

definition IPAddressCompareLess :: "IPAddress ptr \<Rightarrow> IPAddress ptr \<Rightarrow> bool" where
  "IPAddressCompareLess a b = (case (a, b) of
     (Ptr (IP_ADDRESS_TYPE_IPV4 x), Ptr (IP_ADDRESS_TYPE_IPV4 y)) \<Rightarrow> IPV4CompareLess x y
   | (Ptr (IP_ADDRESS_TYPE_IPV6 x), Ptr (IP_ADDRESS_TYPE_IPV6 y)) \<Rightarrow> IPV6CompareLess x y
   | (Ptr (IP_ADDRESS_TYPE_IPV4 x), Ptr (IP_ADDRESS_TYPE_IPV6 y)) \<Rightarrow> True
   | (Ptr (IP_ADDRESS_TYPE_IPV6 x), Ptr (IP_ADDRESS_TYPE_IPV4 y)) \<Rightarrow> False
   | _ \<Rightarrow> True)"

end
