(* ===== verification/IpParsing.thy ===== *)
theory IpParsing
  imports IpAddress
begin

text \<open>
  What the IPv4 parser of libutils/ip_address.c accepts: on texts that end in a digit exactly the dotted
  form with an optional port, and otherwise too much. What it makes of the text IPAddressGetAddress
  writes for either kind of address.
\<close>

section \<open>Runs of digits\<close>

definition dec :: "string \<Rightarrow> int" where
  "dec ds = foldl Char2Dec 0 ds"

lemma Char2Dec_mono: "isdigit c \<Longrightarrow> 0 \<le> n \<Longrightarrow> n \<le> Char2Dec n c"
  by (auto simp: Char2Dec_def isdigit_def of_char_def split: char.splits)

lemma Char2Dec_foldl_mono: "list_all isdigit ds \<Longrightarrow> 0 \<le> n \<Longrightarrow> n \<le> foldl Char2Dec n ds"
proof (induction ds arbitrary: n)
  case (Cons c ds)
  then have "n \<le> Char2Dec n c" using Char2Dec_mono by simp
  then show ?case using Cons.IH [of "Char2Dec n c"] Cons.prems by simp
qed simp

lemma isdigit_not_special: "isdigit c \<Longrightarrow> c \<noteq> CHR ''.'' \<and> c \<noteq> CHR '':''"
  by (auto simp: isdigit_def)

text \<open>The parser right behind a transition.\<close>

definition fresh :: "nat \<Rightarrow> IPV4Address \<Rightarrow> v4_parser" where
  "fresh k a = v4_init\<lparr>v4_state := k, v4_address := a\<rparr>"

definition in_octet :: "nat \<Rightarrow> IPV4Address \<Rightarrow> int \<Rightarrow> nat \<Rightarrow> v4_parser" where
  "in_octet k a n len = (fresh k a)\<lparr>v4_octet := n, v4_has_digit := (len \<noteq> 0), v4_char_counter := len\<rparr>"

definition in_port :: "IPV4Address \<Rightarrow> int \<Rightarrow> nat \<Rightarrow> v4_parser" where
  "in_port a n len = (fresh 5 a)\<lparr>v4_port := n, v4_char_counter := len\<rparr>"

lemma v4_octet_digit:
  "k \<le> 3 \<Longrightarrow> isdigit c \<Longrightarrow> v4_char c (in_octet k a n len) = (if Char2Dec n c > 255 then None else Some (in_octet k a (Char2Dec n c) (Suc len)))"
  using isdigit_not_special [of c]
  by (simp add: v4_char_def v4_switch_def v4_digit_def in_octet_def fresh_def v4_init_def Let_def)

lemma v4_port_digit:
  "isdigit c \<Longrightarrow> v4_char c (in_port a n len) = (if Char2Dec n c > 65535 then None else Some (in_port a (Char2Dec n c) (Suc len)))"
  using isdigit_not_special [of c]
  by (simp add: v4_char_def v4_switch_def in_port_def fresh_def v4_init_def Let_def)

lemma v4_octet_digits:
  "k \<le> 3 \<Longrightarrow> list_all isdigit ds \<Longrightarrow> 0 \<le> n \<Longrightarrow> n \<le> 255 \<Longrightarrow>
   v4_loop (ds @ s) (in_octet k a n len)
     = (if foldl Char2Dec n ds > 255 then None else v4_loop s (in_octet k a (foldl Char2Dec n ds) (len + length ds)))"
proof (induction ds arbitrary: n len)
  case (Cons c ds)
  have n: "n \<le> Char2Dec n c" using Char2Dec_mono Cons.prems by simp
  then have "Char2Dec n c \<le> foldl Char2Dec (Char2Dec n c) ds" using Char2Dec_foldl_mono Cons.prems by simp
  then show ?case using Cons n by (simp add: v4_octet_digit)
qed simp

lemma v4_port_digits:
  "list_all isdigit ds \<Longrightarrow> 0 \<le> n \<Longrightarrow> n \<le> 65535 \<Longrightarrow>
   v4_loop (ds @ s) (in_port a n len)
     = (if foldl Char2Dec n ds > 65535 then None else v4_loop s (in_port a (foldl Char2Dec n ds) (len + length ds)))"
proof (induction ds arbitrary: n len)
  case (Cons c ds)
  have n: "n \<le> Char2Dec n c" using Char2Dec_mono Cons.prems by simp
  then have "Char2Dec n c \<le> foldl Char2Dec (Char2Dec n c) ds" using Char2Dec_foldl_mono Cons.prems by simp
  then show ?case using Cons n by (simp add: v4_port_digit)
qed simp

section \<open>Transitions\<close>

lemma v4_period:
  "k < 3 \<Longrightarrow> n \<le> 255 \<Longrightarrow> v4_char (CHR ''.'') (in_octet k a n len)
     = (if len = 0 then None else Some (fresh (k + 1) (a\<lparr>octets := (octets a)[k := word_of_int n]\<rparr>)))"
  by (simp add: v4_char_def v4_switch_def v4_store_def v4_reset_def in_octet_def fresh_def v4_init_def isdigit_def Let_def)

lemma v4_colon:
  "n \<le> 255 \<Longrightarrow> v4_char (CHR '':'') (in_octet 3 a n len)
     = (if len = 0 then None else Some (in_port (a\<lparr>octets := (octets a)[3 := word_of_int n]\<rparr>) 0 0))"
  by (simp add: v4_char_def v4_switch_def v4_store_def v4_reset_def in_octet_def in_port_def fresh_def v4_init_def isdigit_def Let_def)

lemma v4_bad:
  "k \<le> 3 \<Longrightarrow> n \<le> 255 \<Longrightarrow> \<not> isdigit c \<Longrightarrow> k < 3 \<longrightarrow> c \<noteq> CHR ''.'' \<Longrightarrow> k = 3 \<longrightarrow> c \<noteq> CHR '':'' \<Longrightarrow>
   v4_char c (in_octet k a n len) = (if len = 0 then None else Some (fresh 7 a))"
  by (auto simp: v4_char_def v4_switch_def v4_reset_def in_octet_def fresh_def v4_init_def Let_def)

lemma v4_port_bad: "n \<le> 65535 \<Longrightarrow> \<not> isdigit c \<Longrightarrow> v4_char c (in_port a n len) = None"
  by (auto simp: v4_char_def v4_switch_def in_port_def fresh_def v4_init_def Let_def)

lemma v4_error_state: "v4_loop (c # s) (fresh 7 a) = None"
  by (simp add: v4_char_def v4_switch_def fresh_def v4_init_def Let_def)

section \<open>The dotted form\<close>

definition octet_text :: "string \<Rightarrow> bool" where
  "octet_text ds \<longleftrightarrow> ds \<noteq> [] \<and> list_all isdigit ds \<and> dec ds \<le> 255"

definition port_text :: "string \<Rightarrow> bool" where
  "port_text ds \<longleftrightarrow> ds \<noteq> [] \<and> list_all isdigit ds \<and> dec ds \<le> 65535"

definition v4_run :: "nat \<Rightarrow> IPV4Address \<Rightarrow> string \<Rightarrow> IPV4Address option" where
  "v4_run k a s = (case v4_loop s (fresh k a) of None \<Rightarrow> None | Some p \<Rightarrow> v4_finish p)"

definition set_octet :: "IPV4Address \<Rightarrow> nat \<Rightarrow> string \<Rightarrow> IPV4Address" where
  "set_octet a k ds = a\<lparr>octets := (octets a)[k := word_of_int (dec ds)]\<rparr>"

lemma digits_split: "list_all isdigit ds \<Longrightarrow> \<not> isdigit c \<Longrightarrow> ds @ c # rest = es @ d # rest' \<Longrightarrow> list_all isdigit es \<Longrightarrow> \<not> isdigit d \<Longrightarrow>
   ds = es \<and> c = d \<and> rest = rest'"
  by (induction ds arbitrary: es) (auto simp: Cons_eq_append_conv)

lemma fresh_octet: "fresh k a = in_octet k a 0 0"
  by (simp add: in_octet_def fresh_def v4_init_def)

lemma v4_run_split:
  assumes "k \<le> 3" "list_all isdigit ds"
  shows "v4_run k a (ds @ s) = (if dec ds > 255 then None
    else case v4_loop s (in_octet k a (dec ds) (length ds)) of None \<Rightarrow> None | Some p \<Rightarrow> v4_finish p)"
  using v4_octet_digits [OF assms, of 0 s a 0] by (simp add: v4_run_def fresh_octet dec_def)

lemma last_digit_split:
  assumes "s \<noteq> []" "isdigit (last s)"
  obtains "list_all isdigit s" | ds c rest where "s = ds @ c # rest" "list_all isdigit ds" "\<not> isdigit c" "rest \<noteq> []" "isdigit (last rest)"
proof (cases "list_all isdigit s")
  case False
  let ?ds = "takeWhile isdigit s" and ?rest = "dropWhile isdigit s"
  have "?rest \<noteq> []" using False by (auto simp: list_all_iff)
  then obtain c rest where c: "?rest = c # rest" "\<not> isdigit c" by (cases ?rest) (auto simp: dropWhile_eq_Cons_conv)
  have s: "s = ?ds @ c # rest" using takeWhile_dropWhile_id [of isdigit s] c(1) by simp
  then have "rest \<noteq> []" using assms(2) c(2) by (metis last_snoc)
  moreover from this have "isdigit (last rest)" using assms(2) s by (metis last_appendR last_ConsR list.distinct(1))
  moreover have "list_all isdigit ?ds" by (auto simp: list_all_iff dest: set_takeWhileD)
  ultimately show ?thesis using that(2) [OF s _ c(2)] by blast
qed (use that(1) in auto)

lemma v4_run_octet:
  assumes "k < 3" "s \<noteq> []" "isdigit (last s)"
  shows "v4_run k a s = Some b \<longleftrightarrow>
    (\<exists>ds rest. s = ds @ CHR ''.'' # rest \<and> octet_text ds \<and> rest \<noteq> [] \<and> v4_run (k + 1) (set_octet a k ds) rest = Some b)"
  using assms(2,3)
proof (cases rule: last_digit_split)
  case 1
  then have "v4_run k a s = None" using v4_run_split [of k s a "[]"] assms(1)
    by (simp add: v4_finish_def in_octet_def fresh_def)
  moreover have "s \<noteq> ds @ CHR ''.'' # rest" for ds rest using 1 by (auto simp: isdigit_def)
  ultimately show ?thesis by simp
next
  case (2 ds c rest)
  have run: "v4_run k a s = (if dec ds > 255 then None
    else case v4_loop (c # rest) (in_octet k a (dec ds) (length ds)) of None \<Rightarrow> None | Some p \<Rightarrow> v4_finish p)"
    using v4_run_split [OF _ 2(2)] assms(1) 2(1) by simp
  have unique: "es = ds \<and> c = CHR ''.'' \<and> rest' = rest" if "s = es @ CHR ''.'' # rest'" "octet_text es" for es rest'
    using digits_split [of es "CHR ''.''" rest' ds c rest] that 2 by (auto simp: octet_text_def isdigit_def)
  show ?thesis
  proof (cases "c = CHR ''.''")
    case True
    then have "v4_run k a s = Some b \<longleftrightarrow> octet_text ds \<and> v4_run (k + 1) (set_octet a k ds) rest = Some b"
      using run assms(1) 2(2) by (auto simp: v4_period octet_text_def set_octet_def v4_run_def)
    then show ?thesis using unique 2(1,4) True by blast
  next
    case False
    then have "v4_run k a s = None" using run assms(1) 2(3,4) v4_error_state
      by (cases rest) (auto simp: v4_bad split: if_splits)
    then show ?thesis using unique False by auto
  qed
qed

lemma v4_run_last:
  assumes "s \<noteq> []" "isdigit (last s)"
  shows "v4_run 3 a s = Some b \<longleftrightarrow> (octet_text s \<and> b = set_octet a 3 s)
    \<or> (\<exists>ds ps. s = ds @ CHR '':'' # ps \<and> octet_text ds \<and> port_text ps \<and> b = (set_octet a 3 ds)\<lparr>ipv4_port := word_of_int (dec ps)\<rparr>)"
  using assms
proof (cases rule: last_digit_split)
  case 1
  then have "v4_run 3 a s = Some b \<longleftrightarrow> octet_text s \<and> b = set_octet a 3 s" using v4_run_split [of 3 s a "[]"] assms(1)
    by (auto simp: v4_finish_def in_octet_def fresh_def v4_init_def octet_text_def set_octet_def)
  moreover have "s \<noteq> ds @ CHR '':'' # ps" for ds ps using 1 by (auto simp: isdigit_def)
  ultimately show ?thesis by simp
next
  case (2 ds c rest)
  have run: "v4_run 3 a s = (if dec ds > 255 then None
    else case v4_loop (c # rest) (in_octet 3 a (dec ds) (length ds)) of None \<Rightarrow> None | Some p \<Rightarrow> v4_finish p)"
    using v4_run_split [OF _ 2(2)] 2(1) by simp
  have no: "\<not> octet_text s" using 2 by (auto simp: octet_text_def)
  have unique: "es = ds \<and> c = CHR '':'' \<and> ps = rest" if "s = es @ CHR '':'' # ps" "octet_text es" for es ps
    using digits_split [of es "CHR '':''" ps ds c rest] that 2 by (auto simp: octet_text_def isdigit_def)
  show ?thesis
  proof (cases "c = CHR '':''")
    case True
    let ?a = "set_octet a 3 ds"
    have tail: "(case v4_loop rest (in_port ?a 0 0) of None \<Rightarrow> None | Some p \<Rightarrow> v4_finish p) = Some b \<longleftrightarrow>
      port_text rest \<and> b = ?a\<lparr>ipv4_port := word_of_int (dec rest)\<rparr>"
      using 2(4,5)
    proof (cases rule: last_digit_split)
      case 1
      then show ?thesis using v4_port_digits [OF 1, of 0 "[]" ?a 0] 2(4)
        by (auto simp: port_text_def dec_def v4_finish_def in_port_def fresh_def v4_init_def)
    next
      case (2 es d rest')
      then show ?thesis using v4_port_digits [OF 2(2), of 0 "d # rest'" ?a 0]
        by (auto simp: port_text_def v4_port_bad)
    qed
    then have "v4_run 3 a s = Some b \<longleftrightarrow> octet_text ds \<and> port_text rest \<and> b = ?a\<lparr>ipv4_port := word_of_int (dec rest)\<rparr>"
      using run True 2(2) by (auto simp: v4_colon octet_text_def set_octet_def)
    then show ?thesis using unique no 2(1) True by blast
  next
    case False
    then have "v4_run 3 a s = None" using run 2(3,4) v4_error_state
      by (cases rest) (auto simp: v4_bad split: if_splits)
    then show ?thesis using unique no False by auto
  qed
qed

lemma v4_runE:
  assumes "v4_run k a t = Some b" "k < 3" "t \<noteq> []" "isdigit (last t)" "j = k + 1"
  obtains ds rest where "t = ds @ CHR ''.'' # rest" "octet_text ds" "rest \<noteq> []" "isdigit (last rest)" "v4_run j (set_octet a k ds) rest = Some b"
proof -
  from assms v4_run_octet [of k t a b] obtain ds rest where
    r: "t = ds @ CHR ''.'' # rest" "octet_text ds" "rest \<noteq> []" "v4_run j (set_octet a k ds) rest = Some b" by auto
  moreover have "last t = last rest" using r(1,3) by simp
  ultimately show thesis using that assms(4) by simp
qed

lemma v4_runI:
  assumes "v4_run j (set_octet a k ds) rest = Some b" "j = k + 1" "k < 3" "octet_text ds" "rest \<noteq> []" "isdigit (last rest)"
  shows "v4_run k a (ds @ CHR ''.'' # rest) = Some b"
proof -
  have "ds @ CHR ''.'' # rest \<noteq> []" "isdigit (last (ds @ CHR ''.'' # rest))" using assms(5,6) by simp_all
  from v4_run_octet [OF assms(3) this, of a b] assms show ?thesis by blast
qed

definition dotted :: "string \<Rightarrow> IPV4Address \<Rightarrow> bool" where
  "dotted s b \<longleftrightarrow> (\<exists>w x y z ps. list_all octet_text [w, x, y, z] \<and> (ps = [] \<or> port_text ps)
     \<and> s = w @ CHR ''.'' # x @ CHR ''.'' # y @ CHR ''.'' # z @ (if ps = [] then [] else CHR '':'' # ps)
     \<and> b = \<lparr>octets = map (\<lambda>ds. word_of_int (dec ds)) [w, x, y, z], ipv4_port = (if ps = [] then 0 else word_of_int (dec ps))\<rparr>)"

lemma IPV4_parser_run: "IPV4_parser s = v4_run 0 \<lparr>octets = replicate 4 0, ipv4_port = 0\<rparr> s"
  by (simp add: IPV4_parser_def v4_run_def fresh_def v4_init_def)

lemma v4_run_last_iff:
  assumes "s \<noteq> []" "isdigit (last s)"
  shows "v4_run 3 a s = Some b \<longleftrightarrow> (\<exists>z ps. octet_text z \<and> (ps = [] \<or> port_text ps) \<and> s = z @ (if ps = [] then [] else CHR '':'' # ps)
    \<and> b = (if ps = [] then set_octet a 3 z else (set_octet a 3 z)\<lparr>ipv4_port := word_of_int (dec ps)\<rparr>))"
    (is "_ \<longleftrightarrow> ?rhs")
proof
  assume "v4_run 3 a s = Some b"
  then consider "octet_text s" "b = set_octet a 3 s"
    | ds ps where "s = ds @ CHR '':'' # ps" "octet_text ds" "port_text ps" "b = (set_octet a 3 ds)\<lparr>ipv4_port := word_of_int (dec ps)\<rparr>"
    using v4_run_last [OF assms] by blast
  then show ?rhs
  proof cases
    case 1
    then show ?thesis by (intro exI [of _ s] exI [of _ "[]"]) simp
  next
    case (2 ds ps)
    then show ?thesis by (intro exI [of _ ds] exI [of _ ps]) (simp add: port_text_def)
  qed
next
  assume ?rhs
  then show "v4_run 3 a s = Some b" using v4_run_last [OF assms] by (auto split: if_splits)
qed

lemma set_octets:
  "set_octet (set_octet (set_octet (set_octet \<lparr>octets = replicate 4 0, ipv4_port = 0\<rparr> 0 w) 1 x) 2 y) 3 z
     = \<lparr>octets = map (\<lambda>ds. word_of_int (dec ds)) [w, x, y, z], ipv4_port = 0\<rparr>"
  by (simp add: set_octet_def numeral_eq_Suc)

abbreviation no_address :: IPV4Address where
  "no_address \<equiv> \<lparr>octets = replicate 4 0, ipv4_port = 0\<rparr>"

abbreviation port_part :: "string \<Rightarrow> string" where
  "port_part ps \<equiv> (if ps = [] then [] else CHR '':'' # ps)"

lemma IPV4_parser_sound:
  assumes "IPV4_parser s = Some b" "s \<noteq> []" "isdigit (last s)"
  shows "dotted s b"
proof -
  from assms(1) have run: "v4_run 0 no_address s = Some b" by (simp add: IPV4_parser_run)
  obtain w s1 where
    1: "s = w @ CHR ''.'' # s1" "octet_text w" "s1 \<noteq> []" "isdigit (last s1)" "v4_run 1 (set_octet no_address 0 w) s1 = Some b"
    by (rule v4_runE [OF run _ assms(2,3), of 1]) simp_all
  obtain x s2 where 2: "s1 = x @ CHR ''.'' # s2" "octet_text x" "s2 \<noteq> []" "isdigit (last s2)"
    "v4_run 2 (set_octet (set_octet no_address 0 w) 1 x) s2 = Some b"
    by (rule v4_runE [OF 1(5) _ 1(3,4), of 2]) simp_all
  obtain y s3 where 3: "s2 = y @ CHR ''.'' # s3" "octet_text y" "s3 \<noteq> []" "isdigit (last s3)"
    "v4_run 3 (set_octet (set_octet (set_octet no_address 0 w) 1 x) 2 y) s3 = Some b"
    by (rule v4_runE [OF 2(5) _ 2(3,4), of 3]) simp_all
  from 3(5) obtain z ps where 4: "octet_text z" "ps = [] \<or> port_text ps" "s3 = z @ port_part ps"
    "b = (if ps = [] then set_octet (set_octet (set_octet (set_octet no_address 0 w) 1 x) 2 y) 3 z
      else (set_octet (set_octet (set_octet (set_octet no_address 0 w) 1 x) 2 y) 3 z)\<lparr>ipv4_port := word_of_int (dec ps)\<rparr>)"
    unfolding v4_run_last_iff [OF 3(3,4)] by blast
  have "b = \<lparr>octets = map (\<lambda>ds. word_of_int (dec ds)) [w, x, y, z], ipv4_port = (if ps = [] then 0 else word_of_int (dec ps))\<rparr>"
    using 4(4) unfolding set_octets by simp
  moreover have "s = w @ CHR ''.'' # x @ CHR ''.'' # y @ CHR ''.'' # z @ port_part ps" by (simp only: 1(1) 2(1) 3(1) 4(3))
  moreover have "list_all octet_text [w, x, y, z]" using 1(2) 2(2) 3(2) 4(1) by simp
  ultimately show ?thesis unfolding dotted_def using 4(2) by blast
qed

lemma IPV4_parser_complete:
  assumes "dotted s b" "isdigit (last s)"
  shows "IPV4_parser s = Some b"
proof -
  from assms(1) obtain w x y z ps where p: "list_all octet_text [w, x, y, z]" "ps = [] \<or> port_text ps"
    "s = w @ CHR ''.'' # x @ CHR ''.'' # y @ CHR ''.'' # z @ port_part ps"
    "b = \<lparr>octets = map (\<lambda>ds. word_of_int (dec ds)) [w, x, y, z], ipv4_port = (if ps = [] then 0 else word_of_int (dec ps))\<rparr>"
    unfolding dotted_def by blast
  define s3 where "s3 = z @ port_part ps"
  let ?b = "set_octet (set_octet (set_octet (set_octet no_address 0 w) 1 x) 2 y) 3 z"
  have octets: "octet_text w" "octet_text x" "octet_text y" "octet_text z" using p(1) by simp_all
  have s: "s = w @ CHR ''.'' # x @ CHR ''.'' # y @ CHR ''.'' # s3" using p(3) by (simp only: s3_def)
  have s3: "s3 \<noteq> []" using octets(4) by (simp add: octet_text_def s3_def)
  have last: "isdigit (last s3)" using assms(2) s3 by (simp add: s)
  have "b = (if ps = [] then ?b else ?b\<lparr>ipv4_port := word_of_int (dec ps)\<rparr>)" unfolding set_octets p(4) by simp
  then have "v4_run 3 (set_octet (set_octet (set_octet no_address 0 w) 1 x) 2 y) s3 = Some b"
    unfolding v4_run_last_iff [OF s3 last] using octets(4) p(2) s3_def by blast
  from v4_runI [OF this _ _ octets(3) s3 last]
  have "v4_run 2 (set_octet (set_octet no_address 0 w) 1 x) (y @ CHR ''.'' # s3) = Some b" by simp
  from v4_runI [OF this _ _ octets(2)] have "v4_run 1 (set_octet no_address 0 w) (x @ CHR ''.'' # y @ CHR ''.'' # s3) = Some b"
    using s3 last by simp
  from v4_runI [OF this _ _ octets(1)] have "v4_run 0 no_address s = Some b" using s3 last by (simp add: s)
  then show ?thesis by (simp add: IPV4_parser_run)
qed

text \<open>
  The IPv4 parser, on texts that end in a digit, accepts exactly the dotted form: four numbers of at
  most 255 separated by periods, and a port of at most 65535 behind a colon when there is one; the
  address has these numbers.
\<close>

theorem IPV4_parser_dotted:
  assumes "s \<noteq> []" "isdigit (last s)"
  shows "IPV4_parser s = Some b \<longleftrightarrow> dotted s b"
  using IPV4_parser_sound [OF _ assms] IPV4_parser_complete [OF _ assms(2)] by blast

theorem IPV4_parser_dotted_witness: "IPV4_parser ''10.0.0.255:80'' = Some \<lparr>octets = [10, 0, 0, 255], ipv4_port = 80\<rparr>"
proof -
  have "dotted ''10.0.0.255:80'' \<lparr>octets = [10, 0, 0, 255], ipv4_port = 80\<rparr>"
    unfolding dotted_def
    by (rule exI [of _ "''10''"], rule exI [of _ "''0''"], rule exI [of _ "''0''"], rule exI [of _ "''255''"], rule exI [of _ "''80''"])
      (simp add: octet_text_def port_text_def isdigit_def dec_def Char2Dec_def)
  then show ?thesis using IPV4_parser_dotted [of "''10.0.0.255:80''" "\<lparr>octets = [10, 0, 0, 255], ipv4_port = 80\<rparr>"]
    by (simp add: isdigit_def)
qed

section \<open>Too much is accepted\<close>

text \<open>
  A number of at most 255 followed by a single character that is neither a digit nor a period is
  accepted as the address 0.0.0.0: the error state is only noticed by the next round of the loop, and
  the end of the text is not checked for it.
\<close>

theorem IPAddressIsIPAddress_accepts_garbage:
  assumes "buf_rep b (ds @ [c])" "octet_text ds" "\<not> isdigit c" "c \<noteq> CHR ''.''" "c \<noteq> CHR 0x00"
  shows "IPAddressIsIPAddress (Ptr b) = Ok (True, Ptr (IP_ADDRESS_TYPE_IPV4 \<lparr>octets = [0, 0, 0, 0], ipv4_port = 0\<rparr>))"
proof -
  have ds: "list_all isdigit ds" "ds \<noteq> []" "dec ds \<le> 255" using assms(2) by (simp_all add: octet_text_def)
  have "IPV4_parser (ds @ [c]) = Some no_address"
    using v4_run_split [OF _ ds(1), of 0 no_address "[c]"] v4_bad [of 0 "dec ds" c no_address "length ds"] ds(2,3) assms(3,4)
    by (simp add: IPV4_parser_run v4_finish_def fresh_def)
  moreover have "cstr_read (BufferData b) = Ok (ds @ [c])"
    using assms(1) holds_cstr_read by (auto simp: BufferData_def buf_rep_def)
  ultimately show ?thesis by (simp add: IPAddressIsIPAddress_def numeral_eq_Suc)
qed

theorem IPAddressIsIPAddress_accepts_garbage_witness:
  "IPAddressIsIPAddress (Ptr \<lparr>buf_buffer = [Val (CHR ''1''), Val (CHR ''x''), Val (CHR 0x00)],
       buf_mode = BUFFER_BEHAVIOR_CSTRING, buf_capacity = 3, buf_used = 2, buf_unsafe = False\<rparr>)
     = Ok (True, Ptr (IP_ADDRESS_TYPE_IPV4 \<lparr>octets = [0, 0, 0, 0], ipv4_port = 0\<rparr>))"
  by (rule IPAddressIsIPAddress_accepts_garbage [where ds = "''1''" and c = "CHR ''x''"])
    (simp_all add: buf_rep_def holds_def stores_def octet_text_def dec_def Char2Dec_def isdigit_def numeral_eq_Suc)

section \<open>The text of an address\<close>

lemma of_char_digit: "d < 10 \<Longrightarrow> (of_char (digit_char d) :: int) = 48 + int d"
  using of_nat_of_char [of "digit_char d", where 'a = int, symmetric] by (simp add: digit_char_def)

lemma dec_digits: "foldl Char2Dec 0 (nat_digits n) = int n"
proof (induction n rule: nat_digits.induct)
  case (1 n)
  show ?case
  proof (cases "n < 10")
    case True
    then show ?thesis by (subst nat_digits.simps) (simp add: Char2Dec_def of_char_digit)
  next
    case False
    then have "foldl Char2Dec 0 (nat_digits n) = Char2Dec (int (n div 10)) (digit_char (n mod 10))"
      using 1 by (subst nat_digits.simps) simp
    also have "\<dots> = int (n div 10) * 10 + int (n mod 10)" by (simp add: Char2Dec_def of_char_digit)
    finally show ?thesis using div_mult_mod_eq [of "int n" 10] by (simp add: zdiv_int zmod_int)
  qed
qed

lemma octet_text_digits: "octet_text (nat_digits (unat (w :: 8 word)))"
  using unsigned_less [of w, where 'a = int] nat_digits_digit
  by (auto simp: octet_text_def dec_def dec_digits list_all_iff)

lemma IPV4_parser_text: "length (octets a) = 4 \<Longrightarrow> IPV4_parser (ipv4_text a) = Some (a\<lparr>ipv4_port := 0\<rparr>)"
proof -
  assume "length (octets a) = 4"
  then obtain w x y z where o: "octets a = [w, x, y, z]" by (auto simp: length_Suc_conv numeral_eq_Suc)
  have "dotted (ipv4_text a) (a\<lparr>ipv4_port := 0\<rparr>)"
    unfolding dotted_def
    by (rule exI [of _ "nat_digits (unat w)"], rule exI [of _ "nat_digits (unat x)"], rule exI [of _ "nat_digits (unat y)"],
        rule exI [of _ "nat_digits (unat z)"], rule exI [of _ "[]"])
      (simp add: octet_text_digits ipv4_text_def o dec_def dec_digits)
  moreover have "isdigit (last (ipv4_text a))"
    using nat_digits_digit [of _ "unat z"] last_in_set [of "nat_digits (unat z)"] by (simp add: ipv4_text_def o)
  ultimately show ?thesis by (rule IPV4_parser_complete)
qed

end
