(* ===== verification/IpGroups.thy ===== *)
theory IpGroups
  imports IpParsing
begin

text \<open>
  The IPv6 parser of ip_address.c: it writes its six fields of unsorted groups within their bounds on
  every text and gives eight groups; it reads back what \<open>IPAddressGetAddress\<close> prints; and what it makes
  of the groups behind \<open>::\<close> in brackets. Then the order of the addresses.
\<close>

section \<open>Bounds\<close>

text \<open>In state \<open>k \<le> 6\<close> at most \<open>k - 2\<close> groups have been put aside.\<close>

definition v6_inv :: "v6_parser \<Rightarrow> bool" where
  "v6_inv p \<longleftrightarrow> length (unsorted_sixteen p) = 6 \<and> length (sixteen (v6_address p)) = 8 \<and>
     (v6_state p \<le> 6 \<longrightarrow> unsorted_pointer p \<le> v6_state p - 2) \<and> unsorted_pointer p \<le> 5"

lemma v6_inv_fields:
  "v6_inv p \<Longrightarrow> v6_inv (p\<lparr>bracket_expected := b\<rparr>)"
  "v6_inv p \<Longrightarrow> v6_inv (p\<lparr>is_upper_hexdigit := b\<rparr>)"
  "v6_inv p \<Longrightarrow> v6_inv (p\<lparr>zero_compression := b, already_compressed := c\<rparr>)"
  "v6_inv p \<Longrightarrow> v6_inv (p\<lparr>v6_sixteen := n\<rparr>)"
  "v6_inv p \<Longrightarrow> v6_inv (p\<lparr>v6_port := n\<rparr>)"
  "v6_inv p \<Longrightarrow> v6_inv (p\<lparr>v6_char_counter := k\<rparr>)"
  "v6_inv p \<Longrightarrow> v6_inv (v6_reset p)"
  "v6_inv p \<Longrightarrow> v6_inv (v6_store p k)"
  "v6_inv p \<Longrightarrow> v6_state p \<le> k \<Longrightarrow> v6_inv (p\<lparr>v6_state := k\<rparr>)"
  by (auto simp: v6_inv_def v6_reset_def v6_store_def)

lemma v6_unsorted_ok:
  assumes "v6_inv p" "2 \<le> v6_state p" "v6_state p \<le> 6"
  obtains q where "v6_unsorted p = Ok q" "v6_state q = v6_state p" "length (sixteen (v6_address q)) = 8"
    "\<And>k. v6_state p < k \<Longrightarrow> v6_inv (q\<lparr>v6_state := k\<rparr>)"
proof
  let ?q = "p\<lparr>unsorted_sixteen := (unsorted_sixteen p)[unsorted_pointer p := v6_sixteen p], unsorted_pointer := unsorted_pointer p + 1\<rparr>"
  show "v6_unsorted p = Ok ?q" using assms by (simp add: v6_unsorted_def v6_inv_def)
  show "v6_inv (?q\<lparr>v6_state := k\<rparr>)" if "v6_state p < k" for k using assms that by (auto simp: v6_inv_def)
qed (use assms in \<open>simp_all add: v6_inv_def\<close>)

definition keeps :: "(v6_parser \<times> bool) res \<Rightarrow> bool" where
  "keeps r \<longleftrightarrow> (\<exists>q b. r = Ok (q, b) \<and> v6_inv q)"

lemma keepsI: "v6_inv q \<Longrightarrow> keeps (Ok (q, b))"
  by (simp add: keeps_def)

lemma v6_error_keeps: "v6_inv p \<Longrightarrow> keeps (v6_error p)"
  by (auto simp: keeps_def v6_error_def v6_inv_def)

lemma v6_digit_keeps: "v6_inv p \<Longrightarrow> keeps (v6_digit c p)"
  by (auto simp: v6_digit_def intro!: v6_error_keeps keepsI v6_inv_fields)

lemma v6_case0_keeps: "v6_inv p \<Longrightarrow> v6_state p = 0 \<Longrightarrow> keeps (v6_case0 c p)"
  by (auto simp: v6_case0_def v6_store_def v6_inv_def intro!: v6_error_keeps v6_digit_keeps keepsI v6_inv_fields)

lemma v6_case1_keeps: "v6_inv p \<Longrightarrow> keeps (v6_case1 c p)"
  unfolding v6_case1_def by (auto intro!: v6_error_keeps v6_digit_keeps keepsI v6_inv_fields simp: v6_store_def) (auto simp: v6_inv_def)

lemma v6_case7_keeps: "v6_inv p \<Longrightarrow> keeps (v6_case7 c p)"
  unfolding v6_case7_def by (auto intro!: v6_error_keeps v6_digit_keeps keepsI v6_inv_fields simp: v6_store_def) (auto simp: v6_inv_def)

lemma v6_middle_keeps:
  assumes "v6_inv p" "2 \<le> v6_state p" "v6_state p \<le> 6"
  shows "keeps (v6_middle c p)"
proof -
  have "keeps (bindE (v6_unsorted p) (\<lambda>q. Ok (q\<lparr>v6_state := v6_state q + 1\<rparr>, True)))"
    by (rule v6_unsorted_ok [OF assms]) (auto intro!: keepsI)
  moreover have "keeps (bindE (v6_unsorted (p\<lparr>bracket_expected := False\<rparr>)) (\<lambda>q. Ok (q\<lparr>v6_state := 8\<rparr>, True)))"
    by (rule v6_unsorted_ok [OF v6_inv_fields(1) [OF assms(1), of False]]) (use assms in \<open>auto intro!: keepsI\<close>)
  moreover have "v6_inv ((v6_store p (v6_state p))\<lparr>v6_state := v6_state (v6_store p (v6_state p)) + 1\<rparr>)"
    by (intro v6_inv_fields assms(1)) (simp add: v6_store_def)
  ultimately show ?thesis
    using assms(1) by (auto simp: v6_middle_def intro!: v6_error_keeps v6_digit_keeps keepsI v6_inv_fields)
qed

lemma v6_switch_ok:
  assumes "v6_inv p"
  shows "v6_switch c p = Ok None \<or> (\<exists>q b. v6_switch c p = Ok (Some (q, b)) \<and> v6_inv q)"
proof -
  have lift: "bindE r (\<lambda>x. Ok (Some x)) = Ok None \<or> (\<exists>q b. bindE r (\<lambda>x. Ok (Some x)) = Ok (Some (q, b)) \<and> v6_inv q)" if "keeps r" for r
    using that by (auto simp: keeps_def)
  consider "v6_state p = 0" | "v6_state p = 1" | "2 \<le> v6_state p" "v6_state p \<le> 6" | "v6_state p = 7"
    | "v6_state p = 8" | "v6_state p = 9" | "v6_state p = 10" | "11 \<le> v6_state p" by linarith
  then show ?thesis
  proof cases
    case 1 then show ?thesis using lift [OF v6_case0_keeps [OF assms]] by (simp add: v6_switch_def)
  next
    case 2 then show ?thesis using lift [OF v6_case1_keeps [OF assms]] by (simp add: v6_switch_def)
  next
    case 3 then show ?thesis using lift [OF v6_middle_keeps [OF assms]] by (simp add: v6_switch_def)
  next
    case 4 then show ?thesis using lift [OF v6_case7_keeps [OF assms]] by (simp add: v6_switch_def)
  next
    case 5
    then have "v6_inv (p\<lparr>v6_state := v6_state p + 1\<rparr>)" by (intro v6_inv_fields assms) simp
    then show ?thesis using 5 lift [OF v6_error_keeps [OF assms]] by (cases "c = CHR '':''") (auto simp: v6_switch_def)
  next
    case 6
    then show ?thesis using lift [OF v6_error_keeps [OF assms]] v6_inv_fields(5) [OF assms]
      by (cases "isdigit c") (auto simp: v6_switch_def)
  qed (use assms in \<open>auto simp: v6_switch_def\<close>)
qed

lemma v6_char_ok:
  assumes "v6_inv p"
  shows "v6_char c p = Ok None \<or> (\<exists>q. v6_char c p = Ok (Some q) \<and> v6_inv q)"
proof -
  define p1 where "p1 = (if isxdigit c \<and> (isupper c \<or> islower c) then p\<lparr>is_upper_hexdigit := isupper c\<rparr> else p)"
  have "v6_inv p1" using assms by (simp add: p1_def v6_inv_fields)
  from v6_switch_ok [OF this, of c] show ?thesis
  proof (elim disjE exE conjE)
    fix q b assume q: "v6_switch c p1 = Ok (Some (q, b))" "v6_inv q"
    let ?q = "q\<lparr>v6_char_counter := v6_char_counter q + 1\<rparr>"
    have "v6_inv (v6_reset ?q)" "v6_inv ?q" using q(2) by (simp_all add: v6_inv_fields)
    then show ?thesis using q(1)
      by (cases "v6_sixteen q > 0xFFFF \<or> v6_port q > 65535") (simp_all add: v6_char_def Let_def flip: p1_def)
  qed (simp add: v6_char_def flip: p1_def)
qed

lemma v6_loop_ok: "v6_inv p \<Longrightarrow> v6_loop s p = Ok None \<or> (\<exists>q. v6_loop s p = Ok (Some q) \<and> v6_inv q)"
proof (induction s arbitrary: p)
  case (Cons c s)
  from v6_char_ok [OF Cons.prems, of c] show ?case
  proof (elim disjE exE conjE)
    fix q assume "v6_char c p = Ok (Some q)" "v6_inv q"
    then show ?case using Cons.IH [of q] by simp
  qed simp
qed simp

lemma v6_copy_back_length [simp]: "length (v6_copy_back n f g) = length g"
  by (induction n) auto

lemma v6_finish_ok:
  assumes "v6_inv p"
  shows "\<exists>r. v6_finish p = Ok r \<and> (\<forall>a. r = Some a \<longrightarrow> length (sixteen a) = 8)"
proof (cases "2 \<le> v6_state p \<and> v6_state p \<le> 6")
  case True
  then obtain q where "v6_unsorted p = Ok q" "length (sixteen (v6_address q)) = 8" using v6_unsorted_ok [OF assms] by metis
  then show ?thesis using True by (auto simp: v6_finish_def)
next
  case False
  then show ?thesis using assms by (auto simp: v6_finish_def v6_inv_def v6_store_def)
qed

text \<open>
  C27: The IPv6 parser never leaves its six fields for the groups behind a compressed run of zeros,
  whatever the text, and an address it accepts has eight groups.
\<close>

theorem IPV6_parser_bounds: "\<exists>r. IPV6_parser s = Ok r \<and> pred_option (\<lambda>a. length (sixteen a) = 8) r"
proof -
  have "v6_inv v6_init" by (simp add: v6_inv_def v6_init_def)
  from v6_loop_ok [OF this, of s] show ?thesis
  proof (elim disjE exE conjE)
    fix q assume "v6_loop s v6_init = Ok (Some q)" "v6_inv q"
    then show ?thesis using v6_finish_ok [of q] by (auto simp: IPV6_parser_def option.pred_set)
  qed (simp add: IPV6_parser_def)
qed

theorem IPV6_parser_bounds_witness: "\<exists>r. IPV6_parser ''1:::2:3:4:5:6:7:8:9'' = Ok r \<and> pred_option (\<lambda>a. length (sixteen a) = 8) r"
  by (rule IPV6_parser_bounds)

section \<open>Groups in the order of the text\<close>

text \<open>The parser in state \<open>k\<close> with the groups \<open>us\<close> put aside and \<open>len\<close> characters of the group \<open>n\<close> read.\<close>

definition at_group :: "nat \<Rightarrow> bool \<Rightarrow> bool \<Rightarrow> int list \<Rightarrow> IPV6Address \<Rightarrow> int \<Rightarrow> nat \<Rightarrow> v6_parser" where
  "at_group k bracket zeros us a n len = \<lparr>v6_sixteen = n, unsorted_sixteen = us @ replicate (6 - length us) 0,
     unsorted_pointer = length us, bracket_expected = bracket, v6_port = 0, v6_char_counter = len, is_upper_hexdigit = False,
     zero_compression = zeros, already_compressed = zeros, v6_state = k, v6_address = a\<rparr>"

definition hex_char :: "char \<Rightarrow> bool" where
  "hex_char c \<longleftrightarrow> isxdigit c \<and> \<not> isupper c"

definition group_text :: "string \<Rightarrow> bool" where
  "group_text ds \<longleftrightarrow> ds \<noteq> [] \<and> list_all hex_char ds \<and> foldl Char2Hex 0 ds \<le> 0xFFFF"

definition group_value :: "string \<Rightarrow> int" where
  "group_value ds = foldl Char2Hex 0 ds"

definition set_group :: "IPV6Address \<Rightarrow> nat \<Rightarrow> int \<Rightarrow> IPV6Address" where
  "set_group a k n = a\<lparr>sixteen := (sixteen a)[k := word_of_int n]\<rparr>"

primrec set_groups :: "IPV6Address \<Rightarrow> nat \<Rightarrow> int list \<Rightarrow> IPV6Address" where
  "set_groups a k [] = a"
| "set_groups a k (n # ns) = set_groups (set_group a k n) (k + 1) ns"

lemma hex_char_not: "hex_char c \<Longrightarrow> c \<noteq> CHR '':'' \<and> c \<noteq> CHR ''['' \<and> c \<noteq> CHR '']''"
  by (auto simp: hex_char_def isxdigit_def isdigit_def)

lemma Char2Hex_mono: "isxdigit c \<Longrightarrow> 0 \<le> n \<Longrightarrow> n \<le> Char2Hex n c"
  using of_nat_of_char [of c, where 'a = int, symmetric]
  by (auto simp: Char2Hex_def isxdigit_def isdigit_def Let_def)

lemma Char2Hex_foldl_mono: "list_all hex_char ds \<Longrightarrow> 0 \<le> n \<Longrightarrow> n \<le> foldl Char2Hex n ds"
proof (induction ds arbitrary: n)
  case (Cons c ds)
  then have "n \<le> Char2Hex n c" by (simp add: Char2Hex_mono hex_char_def)
  then show ?case using Cons.IH [of "Char2Hex n c"] Cons.prems by simp
qed simp

lemma v6_hex_char:
  assumes "hex_char c" "k \<le> 7" "Char2Hex n c \<le> 0xFFFF"
  shows "v6_char c (at_group k b z us a n len) = Ok (Some (at_group k b z us a (Char2Hex n c) (len + 1)))"
  using assms hex_char_not [OF assms(1)]
  by (auto simp: v6_char_def at_group_def hex_char_def v6_switch_def v6_digit_def v6_case0_def v6_case1_def v6_middle_def
    v6_case7_def Let_def)

lemma v6_hex_chars:
  "list_all hex_char ds \<Longrightarrow> k \<le> 7 \<Longrightarrow> foldl Char2Hex n ds \<le> 0xFFFF \<Longrightarrow> 0 \<le> n \<Longrightarrow>
   v6_loop (ds @ rest) (at_group k b z us a n len) = v6_loop rest (at_group k b z us a (foldl Char2Hex n ds) (len + length ds))"
proof (induction ds arbitrary: n len)
  case (Cons c ds)
  have "hex_char c" "list_all hex_char ds" using Cons.prems by simp_all
  then have "isxdigit c" "list_all hex_char ds" by (simp_all add: hex_char_def)
  then have n: "0 \<le> Char2Hex n c" "Char2Hex n c \<le> foldl Char2Hex (Char2Hex n c) ds"
    using Char2Hex_mono [of c n] Char2Hex_foldl_mono [of ds "Char2Hex n c"] Cons.prems by simp_all
  then show ?case using Cons v6_hex_char [of c k n b z us a len] by simp
qed simp

lemma v6_group:
  assumes "group_text ds" "k \<le> 7"
  shows "v6_loop (ds @ rest) (at_group k b z us a 0 len) = v6_loop rest (at_group k b z us a (group_value ds) (len + length ds))"
  using assms v6_hex_chars [of ds k 0] by (simp add: group_text_def group_value_def)

lemma colon_class [simp]: "\<not> isxdigit (CHR '':'')" "\<not> isxdigit (CHR '']'')" "\<not> isxdigit (CHR ''['')"
  by (simp_all add: isxdigit_def isdigit_def)

lemma v6_colon:
  assumes "k \<le> 6" "k = 0 \<or> 0 < len" "n \<le> 0xFFFF"
  shows "v6_char (CHR '':'') (at_group k b False us a n len) = Ok (Some (at_group (k + 1) b False us (set_group a k n) 0 0))"
proof -
  consider "k = 0" | "k = 1" | "2 \<le> k" by linarith
  then show ?thesis
  proof cases
    case 1
    then show ?thesis using assms
      by (simp add: v6_char_def at_group_def v6_switch_def v6_case0_def v6_store_def v6_reset_def set_group_def Let_def)
  next
    case 2
    then show ?thesis using assms
      by (simp add: v6_char_def at_group_def v6_switch_def v6_case1_def v6_store_def v6_reset_def set_group_def Let_def)
  next
    case 3
    then show ?thesis using assms
      by (simp add: v6_char_def at_group_def v6_switch_def v6_middle_def v6_store_def v6_reset_def set_group_def Let_def)
  qed
qed

lemma aside_update: "length us < 6 \<Longrightarrow> (us @ replicate (6 - length us) 0)[length us := n] = (us @ [n]) @ replicate (6 - length (us @ [n])) 0"
  by (cases "6 - length us") (auto simp: list_update_append)

lemma v6_colon_aside:
  assumes "2 \<le> k" "k \<le> 6" "0 < len" "n \<le> 0xFFFF" "length us < 6"
  shows "v6_char (CHR '':'') (at_group k b True us a n len) = Ok (Some (at_group (k + 1) b True (us @ [n]) a 0 0))"
  using assms aside_update [of us n]
  by (simp add: v6_char_def at_group_def v6_switch_def v6_middle_def v6_unsorted_def v6_reset_def Let_def)

lemma v6_groups:
  "k + length gs \<le> 7 \<Longrightarrow> list_all group_text gs \<Longrightarrow>
   v6_loop (concat (map (\<lambda>g. g @ '':'') gs) @ rest) (at_group k b False us a 0 0)
     = v6_loop rest (at_group (k + length gs) b False us
         (set_groups a k (map group_value gs)) 0 0)"
proof (induction gs arbitrary: k a)
  case (Cons g gs)
  have "v6_char (CHR '':'') (at_group k b False us a (group_value g) (length g))
      = Ok (Some (at_group (k + 1) b False us (set_group a k (group_value g)) 0 0))"
    using Cons.prems by (intro v6_colon) (auto simp: group_text_def group_value_def)
  then show ?case
    using Cons.prems Cons.IH [of "k + 1" "set_group a k (group_value g)"] v6_group [of g k _ b False us a 0]
    by simp
qed simp

section \<open>The text of an address read back\<close>

lemma hex_digit_facts:
  assumes "d < 16"
  shows "hex_char (''0123456789abcdef'' ! d)" "Char2Hex n (''0123456789abcdef'' ! d) = n * 16 + int d"
proof -
  have d: "d \<in> {0, 1, 2, 3, 4, 5, 6, 7, 8, 9, 10, 11, 12, 13, 14, 15}" using assms by (simp, presburger)
  show "hex_char (''0123456789abcdef'' ! d)" using d by (auto simp: hex_char_def isxdigit_def isdigit_def isupper_def)
  show "Char2Hex n (''0123456789abcdef'' ! d) = n * 16 + int d" using d by (auto simp: Char2Hex_def)
qed

lemma hex_digits_ne [simp]: "hex_digits n \<noteq> []"
  by (subst hex_digits.simps) simp

lemma hex_digits_props: "list_all hex_char (hex_digits n) \<and> foldl Char2Hex 0 (hex_digits n) = int n \<and> length (hex_digits n) \<le> n + 1"
proof (induction n rule: hex_digits.induct)
  case (1 n)
  show ?case
  proof (cases "n < 16")
    case True
    then show ?thesis by (subst (1 2 3) hex_digits.simps) (simp add: hex_digit_facts [OF True])
  next
    case False
    have rec: "hex_digits n = hex_digits (n div 16) @ [''0123456789abcdef'' ! (n mod 16)]" using False by (subst hex_digits.simps) simp
    have "foldl Char2Hex 0 (hex_digits n) = int (n div 16) * 16 + int (n mod 16)"
      unfolding rec using 1 [OF False] hex_digit_facts(2) [of "n mod 16"] by simp
    moreover have "int (n div 16) * 16 + int (n mod 16) = int n"
      using div_mult_mod_eq [of "int n" 16] by (simp add: zdiv_int zmod_int)
    moreover have "list_all hex_char (hex_digits n)" unfolding rec using 1 [OF False] hex_digit_facts(1) [of "n mod 16"] by simp
    moreover have "length (hex_digits n) \<le> n + 1"
      using 1 [OF False] False div_less_dividend [of 16 n] unfolding rec length_append by (simp only: list.size) linarith
    ultimately show ?thesis by simp
  qed
qed

lemma hex_group:
  "group_text (hex_digits (unat (w :: 16 word)))" "group_value (hex_digits (unat w)) = uint w" "length (hex_digits (unat w)) \<le> 65536"
  using hex_digits_props [of "unat w"] unsigned_less [of w, where 'a = int] unsigned_less [of w, where 'a = nat]
  by (simp_all add: group_text_def group_value_def)

lemma join_with_snoc: "join_with c (gs @ [g]) = concat (map (\<lambda>g. g @ [c]) gs) @ g"
  by (induction gs rule: join_with.induct) auto

lemma v6_start: "v6_init = at_group 0 False False [] \<lparr>sixteen = replicate 8 0, ipv6_port = 0\<rparr> 0 0"
  by (simp add: v6_init_def at_group_def)

lemma set_groups_8:
  "set_group (set_groups \<lparr>sixteen = replicate 8 0, ipv6_port = 0\<rparr> 0 [g0, g1, g2, g3, g4, g5, g6]) 7 g7
     = \<lparr>sixteen = map word_of_int [g0, g1, g2, g3, g4, g5, g6, g7], ipv6_port = 0\<rparr>"
  by (simp add: set_group_def numeral_eq_Suc)

lemma list_8: "length xs = 8 \<Longrightarrow> \<exists>a b c d e f g h. xs = [a, b, c, d, e, f, g, h]"
  by (auto simp: length_Suc_conv numeral_eq_Suc)

lemma v6_finish_last:
  assumes "0 < len"
  shows "v6_finish (at_group 7 False False us a n len) = Ok (Some (set_group a 7 n))"
  using assms by (simp add: v6_finish_def at_group_def v6_store_def set_group_def)

text \<open>Eight groups with colons between them.\<close>

lemma IPV6_parser_full:
  assumes "length gs = 7" "list_all group_text gs" "group_text g"
  shows "IPV6_parser (concat (map (\<lambda>g. g @ '':'') gs) @ g)
    = Ok (Some \<lparr>sixteen = map (\<lambda>g. word_of_int (group_value g)) (gs @ [g]), ipv6_port = 0\<rparr>)"
proof -
  let ?a = "set_groups \<lparr>sixteen = replicate 8 0, ipv6_port = 0\<rparr> 0 (map group_value gs)"
  have "v6_loop (concat (map (\<lambda>g. g @ '':'') gs) @ g) v6_init = Ok (Some (at_group 7 False False [] ?a (group_value g) (length g)))"
    using v6_groups [of 0 gs g False "[]"] v6_group [of g 7 "[]" False False "[]" ?a 0] assms by (simp add: v6_start)
  moreover have "set_group ?a 7 (group_value g) = \<lparr>sixteen = map (\<lambda>g. word_of_int (group_value g)) (gs @ [g]), ipv6_port = 0\<rparr>"
  proof -
    obtain g0 g1 g2 g3 g4 g5 g6 where "gs = [g0, g1, g2, g3, g4, g5, g6]"
      using assms(1) by (auto simp: length_Suc_conv numeral_eq_Suc)
    then show ?thesis using set_groups_8 by simp
  qed
  moreover have "0 < length g" using assms(3) by (auto simp: group_text_def)
  ultimately show ?thesis by (simp add: IPV6_parser_def v6_finish_last)
qed

lemma IPV6_parser_text:
  assumes "length (sixteen a) = 8"
  shows "IPV6_parser (ipv6_text a) = Ok (Some (a\<lparr>ipv6_port := 0\<rparr>))"
proof -
  let ?h = "\<lambda>w :: 16 word. hex_digits (unat w)"
  obtain ws w where ws: "sixteen a = ws @ [w]" "length ws = 7"
    using assms by (cases "sixteen a" rule: rev_cases) auto
  have "list_all group_text (map ?h ws)" by (simp add: list_all_iff hex_group)
  from IPV6_parser_full [OF _ this hex_group(1) [of w]] ws(2)
  have "IPV6_parser (concat (map (\<lambda>g. g @ '':'') (map ?h ws)) @ ?h w)
    = Ok (Some \<lparr>sixteen = map (\<lambda>g. word_of_int (group_value g)) (map ?h ws @ [?h w]), ipv6_port = 0\<rparr>)" by simp
  moreover have "ipv6_text a = concat (map (\<lambda>g. g @ '':'') (map ?h ws)) @ ?h w" by (simp add: ipv6_text_def ws(1) join_with_snoc)
  moreover have "map (\<lambda>g. word_of_int (group_value g)) (map ?h ws @ [?h w]) = sixteen a" by (simp add: ws(1) comp_def hex_group(2))
  ultimately show ?thesis by simp
qed

text \<open>A text whose first group is not followed by a period is none of IPv4, unless it ends there.\<close>

lemma IPV4_parser_rejects:
  assumes "CHR ''.'' \<notin> set s" "c # t = dropWhile isdigit s" "t \<noteq> []"
  shows "IPV4_parser s = None"
proof -
  let ?ds = "takeWhile isdigit s"
  have s: "s = ?ds @ c # t" unfolding assms(2) by simp
  have c: "\<not> isdigit c" using assms(2) by (metis dropWhile_eq_Cons_conv)
  have "c \<noteq> CHR ''.''" using assms(1) s by (metis in_set_conv_decomp)
  then have "dec ?ds \<le> 255 \<Longrightarrow> v4_loop (c # t) (in_octet 0 no_address (dec ?ds) (length ?ds)) = None"
    using v4_bad [of 0 "dec ?ds" c no_address "length ?ds"] c assms(3) v4_error_state by (cases t) (auto simp del: v4_loop.simps simp: v4_loop.simps(2) [of c])
  moreover have "list_all isdigit ?ds" by (auto simp: list_all_iff dest: set_takeWhileD)
  ultimately have "v4_run 0 no_address (?ds @ c # t) = None"
    using v4_run_split [of 0 ?ds no_address "c # t"] by simp
  then show ?thesis using s by (simp add: IPV4_parser_run)
qed

definition address_ok :: "IPAddress \<Rightarrow> bool" where
  "address_ok a = (case a of IP_ADDRESS_TYPE_IPV4 x \<Rightarrow> length (octets x) = 4 | IP_ADDRESS_TYPE_IPV6 x \<Rightarrow> length (sixteen x) = 8)"

definition without_port :: "IPAddress \<Rightarrow> IPAddress" where
  "without_port a = (case a of IP_ADDRESS_TYPE_IPV4 x \<Rightarrow> IP_ADDRESS_TYPE_IPV4 (x\<lparr>ipv4_port := 0\<rparr>)
     | IP_ADDRESS_TYPE_IPV6 x \<Rightarrow> IP_ADDRESS_TYPE_IPV6 (x\<lparr>ipv6_port := 0\<rparr>))"

lemma octet_digits_length: "length (nat_digits n) \<le> n + 1"
proof (induction n rule: nat_digits.induct)
  case (1 n)
  then show ?case using div_less_dividend [of 10 n] by (subst nat_digits.simps) (auto simp: le_trans)
qed

lemma join_with_set: "set (join_with c gs) \<subseteq> insert c (\<Union>g \<in> set gs. set g)"
  by (induction c gs rule: join_with.induct) auto

lemma join_with_length: "(\<And>g. g \<in> set gs \<Longrightarrow> length g \<le> k) \<Longrightarrow> length (join_with c gs) \<le> length gs * (k + 1)"
proof (induction c gs rule: join_with.induct)
  case (3 c s t ts)
  then have "length (join_with c (t # ts)) \<le> length (t # ts) * (k + 1)" "length s \<le> k" by simp_all
  then show ?case by simp
qed simp_all

lemma hex_char_plain: "hex_char c \<Longrightarrow> c \<noteq> CHR ''.'' \<and> c \<noteq> CHR 0x00"
  by (auto simp: hex_char_def isxdigit_def isdigit_def)

lemma ipv6_text_chars: "c \<in> set (ipv6_text a) \<Longrightarrow> c \<noteq> CHR ''.'' \<and> c \<noteq> CHR 0x00"
  using join_with_set [of "CHR '':''" "map (\<lambda>w. hex_digits (unat w)) (sixteen a)"] hex_digits_props hex_char_plain
  by (force simp: ipv6_text_def list_all_iff)

lemma ipv4_text_chars: "c \<in> set (ipv4_text a) \<Longrightarrow> c \<noteq> CHR 0x00"
  using join_with_set [of "CHR ''.''" "map (\<lambda>w. nat_digits (unat w)) (octets a)"] nat_digits_digit
  by (force simp: ipv4_text_def isdigit_def)

lemma ipv6_not_ipv4:
  assumes "length (sixteen a) = 8"
  shows "IPV4_parser (ipv6_text a) = None"
proof -
  obtain w x ws where ws: "sixteen a = w # x # ws" "ws \<noteq> []"
    using list_8 [OF assms] by auto
  let ?g = "hex_digits (unat w)" and ?r = "join_with (CHR '':'') (map (\<lambda>w. hex_digits (unat w)) (x # ws))"
  have printed: "ipv6_text a = ?g @ CHR '':'' # ?r" by (simp add: ipv6_text_def ws)
  have "?r \<noteq> []" using ws(2) by (cases ws) simp_all
  moreover have "\<exists>c t. dropWhile isdigit (?g @ CHR '':'' # ?r) = c # t @ ?r"
  proof (cases "list_all isdigit ?g")
    case True
    then have "dropWhile isdigit (?g @ CHR '':'' # ?r) = CHR '':'' # [] @ ?r"
      by (simp add: dropWhile_append2 list_all_iff isdigit_def)
    then show ?thesis by blast
  next
    case False
    then obtain c where c: "c \<in> set ?g" "\<not> isdigit c" by (auto simp: list_all_iff)
    then have d: "dropWhile isdigit (?g @ CHR '':'' # ?r) = dropWhile isdigit ?g @ CHR '':'' # ?r"
      by (rule dropWhile_append1)
    show ?thesis using c unfolding d by (cases "dropWhile isdigit ?g") auto
  qed
  then obtain c t where "c # t @ ?r = dropWhile isdigit (ipv6_text a)" unfolding printed by metis
  ultimately show ?thesis using ipv6_text_chars [of "CHR ''.''" a] IPV4_parser_rejects [of "ipv6_text a" c "t @ ?r"] by auto
qed

lemma ipv6_text_length: "length (sixteen a) = 8 \<Longrightarrow> length (ipv6_text a) \<le> 8 * 65537"
  using join_with_length [of "map (\<lambda>w. hex_digits (unat w)) (sixteen a)" 65536] hex_group(3) by (auto simp: ipv6_text_def)

lemma ipv4_text_length: "length (octets a) = 4 \<Longrightarrow> length (ipv4_text a) \<le> 4 * 257"
proof -
  assume "length (octets a) = 4"
  moreover have "length (nat_digits (unat w)) \<le> 256" for w :: "8 word"
    using octet_digits_length [of "unat w"] unsigned_less [of w, where 'a = nat] by simp
  ultimately show ?thesis
    using join_with_length [of "map (\<lambda>w. nat_digits (unat w)) (octets a)" 256] by (auto simp: ipv4_text_def)
qed

text \<open>
  C26: An address that is printed by \<open>IPAddressGetAddress\<close> and read again by \<open>IPAddressNew\<close> is the same address,
  of the same family, with the port 0: the port is not printed.
\<close>

theorem IPAddress_roundtrip:
  assumes "address_ok a"
  shows "bindE (IPAddressGetAddress (Ptr a)) IPAddressNew = Ok (Ptr (without_port a))"
proof -
  let ?t = "case a of IP_ADDRESS_TYPE_IPV4 x \<Rightarrow> ipv4_text x | IP_ADDRESS_TYPE_IPV6 x \<Rightarrow> ipv6_text x"
  have chars: "CHR 0x00 \<notin> set ?t" using ipv4_text_chars ipv6_text_chars by (auto split: IPAddress.splits)
  have "length ?t \<le> 8 * 65537"
    using assms ipv4_text_length ipv6_text_length by (fastforce simp: address_ok_def split: IPAddress.splits)
  then have "length ?t < max_text" by simp
  obtain b0 where b0: "BufferNew = Ok b0" "buf_rep b0 []" using BufferNew_rep by blast
  obtain b where b: "BufferPrintf b0 ?t = Ok (int (length ?t), b)" "buf_rep b ?t"
    using BufferPrintf_rep [OF b0(2) chars] \<open>length ?t < max_text\<close> by blast
  have "cstr_read (BufferData b) = Ok ?t" using b(2) by (simp add: buf_rep_def BufferData_def)
  moreover have "bindE (IPAddressGetAddress (Ptr a)) IPAddressNew = IPAddressNew (Ptr b)"
    by (simp add: IPAddressGetAddress_def b0(1) b(1))
  ultimately show ?thesis
    using assms by (auto simp: IPAddressNew_def address_ok_def without_port_def IPV4_parser_text IPV6_parser_text ipv6_not_ipv4
      split: IPAddress.splits)
qed

theorem IPAddress_roundtrip_witness:
  "bindE (IPAddressGetAddress (Ptr (IP_ADDRESS_TYPE_IPV6 \<lparr>sixteen = [0xfe80, 0, 0, 0, 1, 2, 3, 0xabcd], ipv6_port = 80\<rparr>))) IPAddressNew
     = Ok (Ptr (IP_ADDRESS_TYPE_IPV6 \<lparr>sixteen = [0xfe80, 0, 0, 0, 1, 2, 3, 0xabcd], ipv6_port = 0\<rparr>))"
  using IPAddress_roundtrip [of "IP_ADDRESS_TYPE_IPV6 \<lparr>sixteen = [0xfe80, 0, 0, 0, 1, 2, 3, 0xabcd], ipv6_port = 80\<rparr>"]
  by (simp add: address_ok_def without_port_def)

section \<open>Zeros left out\<close>

lemma v6_second_colon:
  "v6_char (CHR '':'') (at_group (Suc 0) b False us a 0 0) = Ok (Some (at_group 2 b True us a 0 0))"
  by (simp add: v6_char_def at_group_def v6_switch_def v6_case1_def v6_reset_def Let_def)

lemma v6_open: "v6_char (CHR ''['') (at_group 0 False False us a 0 0) = Ok (Some (at_group 0 True False us a 0 1))"
  by (simp add: v6_char_def at_group_def v6_switch_def v6_case0_def Let_def)

lemma v6_close:
  assumes "2 \<le> k" "k \<le> 6" "n \<le> 0xFFFF" "length us < 6"
  shows "v6_char (CHR '']'') (at_group k True True us a n len) = Ok (Some (at_group 8 False True (us @ [n]) a 0 0))"
  using assms aside_update [of us n]
  by (simp add: v6_char_def at_group_def v6_switch_def v6_middle_def v6_unsorted_def v6_reset_def Let_def)

lemma v6_open_groups:
  assumes "group_text x" "group_text y"
  shows "v6_loop (''['' @ x @ ''::'' @ y @ rest) v6_init
    = v6_loop rest (at_group 2 True True [] (set_group \<lparr>sixteen = replicate 8 0, ipv6_port = 0\<rparr> 0 (group_value x)) (group_value y) (length y))"
  using v6_group [OF assms(1), of 0 "''::'' @ y @ rest" True False "[]" "\<lparr>sixteen = replicate 8 0, ipv6_port = 0\<rparr>" 1]
    v6_colon [of 0 "1 + length x" "group_value x" True "[]" "\<lparr>sixteen = replicate 8 0, ipv6_port = 0\<rparr>"] assms(1)
    v6_group [OF assms(2), of 2 rest True True "[]" "set_group \<lparr>sixteen = replicate 8 0, ipv6_port = 0\<rparr> 0 (group_value x)" 0]
  by (simp add: v6_start v6_open v6_second_colon group_text_def group_value_def)

text \<open>
  C30: The groups behind \<open>::\<close> come out in the wrong order when the address is written in brackets:
  \<open>[x::y:z]\<close> is read as \<open>x:0:0:0:0:0:z:y\<close>, for all groups \<open>x\<close>, \<open>y\<close> and \<open>z\<close>.
\<close>

theorem IPV6_parser_reverses:
  assumes "group_text x" "group_text y" "group_text z"
  shows "IPV6_parser (''['' @ x @ ''::'' @ y @ '':'' @ z @ '']'')
    = Ok (Some \<lparr>sixteen = map word_of_int [group_value x, 0, 0, 0, 0, 0, group_value z, group_value y], ipv6_port = 0\<rparr>)"
proof -
  let ?a = "set_group \<lparr>sixteen = replicate 8 0, ipv6_port = 0\<rparr> 0 (group_value x)"
  have small: "group_value y \<le> 0xFFFF" "group_value z \<le> 0xFFFF" "0 < length y"
    using assms by (auto simp: group_text_def group_value_def)
  have "v6_loop (''['' @ x @ ''::'' @ y @ '':'' @ z @ '']'') v6_init
    = Ok (Some (at_group 8 False True [group_value y, group_value z] ?a 0 0))"
    using v6_open_groups [OF assms(1,2), of "'':'' @ z @ '']''"] v6_colon_aside [of 2 "length y" "group_value y" "[]" True ?a] small
      v6_group [OF assms(3), of 3 "'']''" True True "[group_value y]" ?a 0] v6_close [of 3 "group_value z" "[group_value y]" ?a]
    by simp
  moreover have "v6_finish (at_group 8 False True [group_value y, group_value z] ?a 0 0)
    = Ok (Some \<lparr>sixteen = map word_of_int [group_value x, 0, 0, 0, 0, 0, group_value z, group_value y], ipv6_port = 0\<rparr>)"
    by (simp add: v6_finish_def at_group_def set_group_def numeral_eq_Suc)
  ultimately show ?thesis unfolding IPV6_parser_def by (simp only: bindE.simps option.case)
qed

theorem IPV6_parser_reverses_witness:
  "IPV6_parser ''[fe80::a:b]'' = Ok (Some \<lparr>sixteen = [0xfe80, 0, 0, 0, 0, 0, 0xb, 0xa], ipv6_port = 0\<rparr>)"
  using IPV6_parser_reverses [of "''fe80''" "''a''" "''b''"]
  by (simp add: group_text_def group_value_def hex_char_def isxdigit_def isdigit_def isupper_def Char2Hex_def)

section \<open>Equality and order\<close>

lemma same_groups_eq: "length xs = length ys \<Longrightarrow> same_groups xs ys = (if xs = ys then 1 else 0)"
  by (induction xs ys rule: same_groups.induct) auto

text \<open>The reference: the family of an address and its octets or groups as numbers.\<close>

fun family :: "IPAddress \<Rightarrow> nat" where
  "family (IP_ADDRESS_TYPE_IPV4 a) = 4"
| "family (IP_ADDRESS_TYPE_IPV6 a) = 6"

fun numbers :: "IPAddress \<Rightarrow> nat list" where
  "numbers (IP_ADDRESS_TYPE_IPV4 a) = map unat (octets a)"
| "numbers (IP_ADDRESS_TYPE_IPV6 a) = map unat (sixteen a)"

lemma less_groups_lexord:
  fixes xs ys :: "'a::len word list"
  shows "length xs = length ys \<Longrightarrow> less_groups xs ys \<longleftrightarrow> (map unat xs, map unat ys) \<in> lexord {(x, y). x < y}"
  by (induction xs ys rule: list_induct2) (auto simp: word_less_nat_alt)

lemma IPAddressCompareLess_lexord:
  assumes "address_ok a" "address_ok b"
  shows "IPAddressCompareLess (Ptr a) (Ptr b)
    \<longleftrightarrow> family a < family b \<or> family a = family b \<and> (numbers a, numbers b) \<in> lexord {(x, y). x < y}"
  using assms by (cases a; cases b)
    (auto simp: IPAddressCompareLess_def IPV4CompareLess_def IPV6CompareLess_def less_groups_lexord address_ok_def)

lemma map_unat_eq: "map unat xs = map unat ys \<longleftrightarrow> xs = (ys :: 'a::len word list)"
  by (rule inj_map_eq_map) (simp add: inj_def word_unat_eq_iff)

lemma IPAddressIsEqual_numbers:
  assumes "address_ok a" "address_ok b"
  shows "IPAddressIsEqual (Ptr a) (Ptr b) = 1 \<longleftrightarrow> family a = family b \<and> numbers a = numbers b"
  using assms by (cases a; cases b)
    (auto simp: IPAddressIsEqual_def IPV4Compare_def IPV6Compare_def same_groups_eq address_ok_def map_unat_eq)

text \<open>
  C29: On addresses of their size \<open>IPAddressCompareLess\<close> is the lexicographic order of the octets or groups as
  numbers, with every IPv4 address before every IPv6 address, and \<open>IPAddressIsEqual\<close> is equality of family and
  numbers: neither looks at the port. The order is irreflexive and transitive, and of two addresses exactly one
  is less or they are equal.
\<close>

theorem IPAddressCompareLess_order:
  assumes "address_ok a" "address_ok b" "address_ok c"
  shows "(IPAddressCompareLess (Ptr a) (Ptr b)
      \<longleftrightarrow> family a < family b \<or> family a = family b \<and> (numbers a, numbers b) \<in> lexord {(x, y). x < y})
    \<and> (IPAddressIsEqual (Ptr a) (Ptr b) = 1 \<longleftrightarrow> family a = family b \<and> numbers a = numbers b)
    \<and> \<not> IPAddressCompareLess (Ptr a) (Ptr a)
    \<and> (IPAddressCompareLess (Ptr a) (Ptr b) \<longrightarrow> IPAddressCompareLess (Ptr b) (Ptr c) \<longrightarrow> IPAddressCompareLess (Ptr a) (Ptr c))
    \<and> (IPAddressIsEqual (Ptr a) (Ptr b) = 1 \<longrightarrow> \<not> IPAddressCompareLess (Ptr a) (Ptr b) \<and> \<not> IPAddressCompareLess (Ptr b) (Ptr a))
    \<and> (IPAddressIsEqual (Ptr a) (Ptr b) \<noteq> 1 \<longrightarrow> IPAddressCompareLess (Ptr a) (Ptr b) \<noteq> IPAddressCompareLess (Ptr b) (Ptr a))"
proof -
  let ?r = "{(x, y). x < y} :: (nat \<times> nat) set"
  note less = IPAddressCompareLess_lexord [OF assms(1,2)] IPAddressCompareLess_lexord [OF assms(2,1)]
    IPAddressCompareLess_lexord [OF assms(2,3)] IPAddressCompareLess_lexord [OF assms(1,3)] IPAddressCompareLess_lexord [OF assms(1,1)]
  note same = IPAddressIsEqual_numbers [OF assms(1,2)]
  have irrefl: "(xs, xs) \<notin> lexord ?r" for xs by (rule lexord_irreflexive) simp
  have trans: "(xs, zs) \<in> lexord ?r" if "(xs, ys) \<in> lexord ?r" "(ys, zs) \<in> lexord ?r" for xs ys zs
    using lexord_trans [OF that] by (simp add: trans_def)
  have total: "(xs, ys) \<in> lexord ?r \<or> xs = ys \<or> (ys, xs) \<in> lexord ?r" for xs ys
    by (rule lexord_linear) auto
  have "\<not> IPAddressCompareLess (Ptr a) (Ptr a)" using irrefl less(5) by simp
  moreover have "IPAddressCompareLess (Ptr a) (Ptr b) \<Longrightarrow> IPAddressCompareLess (Ptr b) (Ptr c) \<Longrightarrow> IPAddressCompareLess (Ptr a) (Ptr c)"
    unfolding less by (auto intro: trans)
  moreover have "IPAddressIsEqual (Ptr a) (Ptr b) = 1 \<longrightarrow> \<not> IPAddressCompareLess (Ptr a) (Ptr b) \<and> \<not> IPAddressCompareLess (Ptr b) (Ptr a)"
    using irrefl by (simp add: less same)
  moreover have "IPAddressIsEqual (Ptr a) (Ptr b) \<noteq> 1 \<longrightarrow> IPAddressCompareLess (Ptr a) (Ptr b) \<noteq> IPAddressCompareLess (Ptr b) (Ptr a)"
  proof
    assume ne: "IPAddressIsEqual (Ptr a) (Ptr b) \<noteq> 1"
    consider "family a < family b" | "family b < family a" | "family a = family b" by linarith
    then show "IPAddressCompareLess (Ptr a) (Ptr b) \<noteq> IPAddressCompareLess (Ptr b) (Ptr a)"
    proof cases
      case 3
      then have "(numbers a, numbers b) \<in> lexord ?r \<longleftrightarrow> (numbers b, numbers a) \<notin> lexord ?r"
        using ne same total [of "numbers a" "numbers b"] trans [of "numbers a" "numbers b" "numbers a"] irrefl by blast
      then show ?thesis using 3 by (simp add: less)
    qed (simp_all add: less)
  qed
  ultimately show ?thesis using less(1) same by blast
qed

theorem IPAddressCompareLess_order_witness:
  "IPAddressCompareLess (Ptr (IP_ADDRESS_TYPE_IPV4 \<lparr>octets = [10, 0, 0, 1], ipv4_port = 80\<rparr>))
     (Ptr (IP_ADDRESS_TYPE_IPV4 \<lparr>octets = [10, 0, 0, 2], ipv4_port = 0\<rparr>))"
  using IPAddressCompareLess_order [of "IP_ADDRESS_TYPE_IPV4 \<lparr>octets = [10, 0, 0, 1], ipv4_port = 80\<rparr>"
    "IP_ADDRESS_TYPE_IPV4 \<lparr>octets = [10, 0, 0, 2], ipv4_port = 0\<rparr>" "IP_ADDRESS_TYPE_IPV6 \<lparr>sixteen = replicate 8 0, ipv6_port = 0\<rparr>"]
  by (simp add: address_ok_def)

end
