(* ===== verification/JsonObjects.thy ===== *)
theory JsonObjects
  imports JsonRoundTrip
begin

text \<open>
  JSON objects as finite maps from names to elements, copies and merges of elements, and two defects:
  copies cut integers to 32 bits, and the parser reads past a text that ends inside an escape.
\<close>

section \<open>Programs over an object\<close>

datatype object_call = Put string JsonElement | Drop string | Detach string

fun call_object :: "object_call \<Rightarrow> JsonElement \<Rightarrow> JsonElement res" where
  "call_object (Put key e) ob = JsonObjectAppendElement ob key e"
| "call_object (Drop key) ob = bindE (JsonObjectRemoveKey ob key) (\<lambda>(_, ob'). Ok ob')"
| "call_object (Detach key) ob = bindE (JsonObjectDetachKey ob key) (\<lambda>(_, ob'). Ok ob')"

fun object_calls :: "object_call list \<Rightarrow> JsonElement \<Rightarrow> JsonElement res" where
  "object_calls [] ob = Ok ob"
| "object_calls (c # cs) ob = bindE (call_object c ob) (object_calls cs)"

text \<open>The same on a finite map.\<close>

fun map_call :: "object_call \<Rightarrow> (string \<rightharpoonup> JsonElement) \<Rightarrow> (string \<rightharpoonup> JsonElement)" where
  "map_call (Put key e) m = m(key \<mapsto> JsonElementSetPropertyName e (Ptr key))"
| "map_call (Drop key) m = m(key := None)"
| "map_call (Detach key) m = m(key := None)"

definition object_ok :: "JsonElement list \<Rightarrow> bool" where
  "object_ok cs \<longleftrightarrow> NULL \<notin> set (map propertyName cs) \<and> distinct (map propertyName cs)"

definition members :: "JsonElement list \<Rightarrow> (string \<rightharpoonup> JsonElement)" where
  "members cs key = map_of (map (\<lambda>c. (propertyName c, c)) cs) (Ptr key)"

lemma members_Nil [simp]: "members [] = Map.empty"
  by (simp add: members_def fun_eq_iff)

lemma members_Cons: "members (c # cs) key = (if propertyName c = Ptr key then Some c else members cs key)"
  by (simp add: members_def)

lemma members_append: "members (cs @ ds) key = (case members cs key of None \<Rightarrow> members ds key | Some c \<Rightarrow> Some c)"
  by (induction cs) (auto simp: members_Cons)

lemma members_None_iff: "members cs key = None \<longleftrightarrow> Ptr key \<notin> set (map propertyName cs)"
  by (induction cs) (auto simp: members_Cons)

lemma members_remove: "object_ok cs \<Longrightarrow> members (remove_named key cs) = (members cs)(key := None)"
proof (induction cs)
  case (Cons c cs)
  then have "object_ok cs" by (simp add: object_ok_def)
  then show ?case using Cons members_None_iff [of cs key] by (auto simp: fun_eq_iff members_Cons object_ok_def)
qed simp

lemma object_ok_remove: "object_ok cs \<Longrightarrow> object_ok (remove_named key cs)"
  using remove_named_set [of key cs] by (auto simp: object_ok_def remove_named_names)

lemma object_ok_put:
  assumes "object_ok cs"
  shows "object_ok (remove_named key cs @ [JsonElementSetPropertyName e (Ptr key)])"
    and "members (remove_named key cs @ [JsonElementSetPropertyName e (Ptr key)])
      = (members cs)(key \<mapsto> JsonElementSetPropertyName e (Ptr key))"
proof -
  have gone: "Ptr key \<notin> set (map propertyName (remove_named key cs))"
    using assms by (simp add: remove_named_names object_ok_def)
  then show "object_ok (remove_named key cs @ [JsonElementSetPropertyName e (Ptr key)])"
    using object_ok_remove [OF assms, of key] by (auto simp: object_ok_def)
  show "members (remove_named key cs @ [JsonElementSetPropertyName e (Ptr key)])
      = (members cs)(key \<mapsto> JsonElementSetPropertyName e (Ptr key))"
    using members_remove [OF assms, of key] by (auto simp: fun_eq_iff members_append members_Cons split: option.splits)
qed

lemma JsonObjectGet_members: "object_ok cs \<Longrightarrow> JsonObjectGet (JObject name cs) key = Ok (members cs key)"
  by (simp add: JsonObjectGet_def lookup_key_eq object_ok_def members_def)

lemma JsonObjectDetachKey_eq:
  assumes "object_ok cs"
  shows "JsonObjectDetachKey (JObject name cs) key = Ok (members cs key, JObject name (remove_named key cs))"
proof (cases "Ptr key \<in> set (map propertyName cs)")
  case True
  from index_of_key_found [OF True, of 0] obtain j where
    "index_of_key key cs 0 = Ok (int j)" "take j cs @ drop (Suc j) cs = remove_named key cs" by auto
  then show ?thesis using assms
    by (simp add: JsonObjectDetachKey_def JsonElementIndexInParentObject_def with_children_def lookup_key_eq object_ok_def members_def)
next
  case False
  then show ?thesis using index_of_key_missing [OF False] members_None_iff [of cs key]
    by (simp add: JsonObjectDetachKey_def JsonElementIndexInParentObject_def)
qed

lemma call_object_members:
  "object_ok cs \<Longrightarrow> \<exists>ds. call_object c (JObject name cs) = Ok (JObject name ds) \<and> object_ok ds \<and> members ds = map_call c (members cs)"
  by (cases c)
    (simp_all add: JsonObjectAppendElement_eq JsonObjectRemoveKey_eq JsonObjectDetachKey_eq object_ok_put object_ok_remove members_remove)

lemma object_calls_members:
  "object_ok cs \<Longrightarrow> \<exists>ds. object_calls prog (JObject name cs) = Ok (JObject name ds) \<and> object_ok ds \<and> members ds = fold map_call prog (members cs)"
proof (induction prog arbitrary: cs)
  case (Cons c prog)
  from call_object_members [OF Cons.prems, of c name] obtain ds where
    "call_object c (JObject name cs) = Ok (JObject name ds)" "object_ok ds" "members ds = map_call c (members cs)" by blast
  then show ?case using Cons.IH [of ds] by simp
qed simp

lemma card_members: "object_ok cs \<Longrightarrow> card (dom (members cs)) = length cs"
proof (induction cs)
  case (Cons c cs)
  then obtain k where k: "propertyName c = Ptr k" by (cases "propertyName c") (auto simp: object_ok_def)
  have "dom (members (c # cs)) = insert k (dom (members cs))" by (auto simp: members_Cons k dom_def)
  moreover have "k \<notin> dom (members cs)" using Cons.prems members_None_iff [of cs k] by (auto simp: object_ok_def k)
  moreover have "finite (dom (members cs))"
    by (rule finite_subset [of _ "(\<lambda>c. the (propertyName c)) ` set cs"])
      (auto simp: members_def dom_def dest!: map_of_SomeD intro!: image_eqI, metis option.sel)
  ultimately show ?case using Cons by (simp add: object_ok_def)
qed simp

section \<open>Copies\<close>

lemma JsonPrimitiveGetAsInteger_fmt:
  "LONG_MIN \<le> i \<Longrightarrow> i \<le> LONG_MAX \<Longrightarrow> JsonPrimitiveGetAsInteger (Primitive name JSON_PRIMITIVE_TYPE_INTEGER (fmt_int i)) = Ok i"
  using scan_decimal_fmt [of "[]" i]
  by (simp add: JsonPrimitiveGetAsInteger_def StringToLongExitOnError_def StringToLong_cases exit_on_error_def ends_number_def)

lemma sint_word_of_int_32: "sint (word_of_int i :: 32 word) = i \<longleftrightarrow> INT_MIN \<le> i \<and> i \<le> INT_MAX"
  by (simp add: sint_sbintrunc' signed_take_bit_int_eq_self_iff c_limits) auto

text \<open>Elements that JsonCopy copies exactly: the integers fit an \<open>int\<close> and there are no reals.\<close>

definition primitive_copyable :: "JsonPrimitiveType \<Rightarrow> string \<Rightarrow> bool" where
  "primitive_copyable t v = (case t of
     JSON_PRIMITIVE_TYPE_STRING \<Rightarrow> True
   | JSON_PRIMITIVE_TYPE_INTEGER \<Rightarrow> (case scan_decimal v of
       Some (i, rest) \<Rightarrow> INT_MIN \<le> i \<and> i \<le> INT_MAX \<and> v = fmt_int i | None \<Rightarrow> False)
   | JSON_PRIMITIVE_TYPE_REAL \<Rightarrow> False
   | JSON_PRIMITIVE_TYPE_BOOL \<Rightarrow> v = JSON_TRUE \<or> v = JSON_FALSE
   | JSON_PRIMITIVE_TYPE_NULL \<Rightarrow> v = JSON_NULL)"

fun copyable :: "JsonElement \<Rightarrow> bool" where
  "copyable (Primitive name t v) \<longleftrightarrow> primitive_copyable t v"
| "copyable (Container name t cs) \<longleftrightarrow> list_all copyable cs
     \<and> (if t = JSON_CONTAINER_TYPE_OBJECT then object_ok cs else set (map propertyName cs) \<subseteq> {NULL})"

lemma JsonPrimitiveCopy_exact: "primitive_copyable t v \<Longrightarrow> JsonPrimitiveCopy ft (Primitive name t v) = Ok (Primitive NULL t v)"
proof (cases t)
  case JSON_PRIMITIVE_TYPE_INTEGER
  assume "primitive_copyable t v"
  with JSON_PRIMITIVE_TYPE_INTEGER obtain i where i: "v = fmt_int i" "INT_MIN \<le> i" "i \<le> INT_MAX"
    by (auto simp: primitive_copyable_def split: option.splits)
  moreover from this have "JsonPrimitiveGetAsInteger (Primitive name JSON_PRIMITIVE_TYPE_INTEGER v) = Ok i"
    by (auto intro!: JsonPrimitiveGetAsInteger_fmt simp: c_limits)
  ultimately show ?thesis using JSON_PRIMITIVE_TYPE_INTEGER sint_word_of_int_32 [of i]
    by (simp add: JsonPrimitiveCopy_def JsonIntegerCreate_def JsonElementCreatePrimitive_def)
qed (auto simp: primitive_copyable_def JsonPrimitiveCopy_def JsonPrimitiveGetAsBool_def StringEqual_iff JsonBoolCreate_def
    JsonNullCreate_def JsonStringCreate_def JsonPrimitiveGetAsString_def JsonElementCreatePrimitive_def JSON_TRUE_def JSON_FALSE_def)

definition copies :: "(string \<Rightarrow> string) \<Rightarrow> JsonElement \<Rightarrow> bool" where
  "copies ft e \<longleftrightarrow> JsonCopy ft e = Ok (unnamed e)"

lemma JsonArrayCopy_loop_exact:
  "list_all (copies ft) cs \<Longrightarrow> set (map propertyName cs) \<subseteq> {NULL} \<Longrightarrow>
   JsonArrayCopy_loop ft cs (JArray NULL ds) = Ok (JArray NULL (ds @ cs))"
  by (induction cs arbitrary: ds) (auto simp: copies_def JsonArrayAppendElement_eq)

text \<open>Copying the members of one object into another one.\<close>

lemma JsonObjectCopy_loop_put:
  "list_all (copies ft) cs \<Longrightarrow> NULL \<notin> set (map propertyName cs) \<Longrightarrow>
   JsonObjectCopy_loop ft cs (JObject NULL ds) = Ok (JObject NULL (foldl add_member ds (map (\<lambda>c. (key_of c, unnamed c)) cs)))"
proof (induction cs arbitrary: ds)
  case (Cons c cs)
  then obtain k where "propertyName c = Ptr k" by (cases "propertyName c") auto
  then show ?case using Cons by (simp add: copies_def JsonObjectAppendElement_eq add_member_def key_of_def)
qed simp

lemma copyable_copies: "copyable e \<Longrightarrow> copies ft e"
proof (induction e)
  case (Container name t cs)
  then have children: "list_all (copies ft) cs" by (auto simp: list_all_iff)
  show ?case
  proof (cases t)
    case JSON_CONTAINER_TYPE_OBJECT
    then have "object_ok cs" using Container.prems by simp
    then show ?thesis using JSON_CONTAINER_TYPE_OBJECT JsonObjectCopy_loop_put [OF children, of "[]"] foldl_add_member [of "[]" cs]
      by (simp add: copies_def object_ok_def JsonObjectCreate_def JsonElementCreateContainer_def)
  next
    case JSON_CONTAINER_TYPE_ARRAY
    then show ?thesis using Container.prems JsonArrayCopy_loop_exact [OF children, of "[]"]
      by (simp add: copies_def JsonArrayCreate_def JsonElementCreateContainer_def)
  qed
next
  case (Primitive name t v)
  then show ?case using JsonPrimitiveCopy_exact by (simp add: copies_def)
qed

lemma members_foldl:
  "object_ok ds \<Longrightarrow> object_ok cs \<Longrightarrow>
   object_ok (foldl add_member ds (map (\<lambda>c. (key_of c, unnamed c)) cs))
   \<and> members (foldl add_member ds (map (\<lambda>c. (key_of c, unnamed c)) cs)) = members ds ++ members cs"
proof (induction cs arbitrary: ds)
  case (Cons c cs)
  then obtain k where k: "propertyName c = Ptr k" by (cases "propertyName c") (auto simp: object_ok_def)
  have cs: "object_ok cs" "members cs k = None" using Cons.prems(2) members_None_iff [of cs k] by (auto simp: object_ok_def k)
  let ?ds = "add_member ds (key_of c, unnamed c)"
  have ds: "object_ok ?ds" "members ?ds = (members ds)(k \<mapsto> c)"
    using object_ok_put [OF Cons.prems(1), of k "unnamed c"] k by (simp_all add: add_member_def key_of_def)
  have "members ?ds ++ members cs = members ds ++ members (c # cs)"
    using cs(2) by (auto simp: ds(2) fun_eq_iff map_add_def members_Cons k split: option.splits)
  then show ?case using Cons.IH [OF ds(1) cs(1)] by simp
qed simp

section \<open>Properties\<close>

text \<open>
  C23: A JSON object is a finite map. After any sequence of insertions, removals and detachments, none
  of which faults, JsonObjectGet returns for every key the element stored last under it, NULL when there
  is none, and JsonLength is the number of keys.
\<close>

theorem JsonObject_get_latest:
  "\<exists>ob. object_calls prog (JsonObjectCreate n) = Ok ob
    \<and> (\<forall>key. JsonObjectGet ob key = Ok (fold map_call prog Map.empty key))
    \<and> JsonLength ob = card (dom (fold map_call prog Map.empty))"
proof -
  have "object_ok []" by (simp add: object_ok_def)
  from object_calls_members [OF this, of prog NULL] obtain ds where
    ds: "object_calls prog (JObject NULL []) = Ok (JObject NULL ds)" "object_ok ds" "members ds = fold map_call prog Map.empty" by auto
  then show ?thesis using card_members [OF ds(2)]
    by (simp add: JsonObjectCreate_def JsonElementCreateContainer_def JsonObjectGet_members JsonLength_def)
qed

text \<open>
  Merging two objects: the result has the members of both, the second object's where both have the
  key, and neither argument is changed or shared: the members are exact copies.
\<close>

theorem JsonMerge_objects:
  assumes "copyable (JObject na as)" "copyable (JObject nb bs)"
  shows "\<exists>ob. JsonMerge ft (JObject na as) (JObject nb bs) = Ok ob
    \<and> (\<forall>key a b. JsonObjectGet (JObject na as) key = Ok a \<and> JsonObjectGet (JObject nb bs) key = Ok b
         \<longrightarrow> JsonObjectGet ob key = Ok (if b = NULL then a else b))"
proof -
  have ok: "object_ok as" "object_ok bs" using assms by simp_all
  have bs: "list_all (copies ft) bs" using assms(2) copyable_copies by (auto simp: list_all_iff)
  have "JsonCopy ft (JObject na as) = Ok (JObject NULL as)" using copyable_copies [OF assms(1)] by (simp add: copies_def)
  then have "JsonMerge ft (JObject na as) (JObject nb bs)
      = Ok (JObject NULL (foldl add_member as (map (\<lambda>c. (key_of c, unnamed c)) bs)))"
    using JsonObjectCopy_loop_put [OF bs] ok(2)
    by (simp add: JsonMerge_def JsonObjectMergeObject_def JsonObjectCopy_def object_ok_def)
  then show ?thesis using members_foldl [OF ok] ok
    by (auto simp: JsonObjectGet_members map_add_def split: option.splits)
qed

theorem JsonMerge_objects_witness:
  "\<exists>ob. JsonMerge (\<lambda>v. v) (JObject NULL [Primitive (Ptr ''a'') JSON_PRIMITIVE_TYPE_INTEGER ''1''])
      (JObject NULL [Primitive (Ptr ''a'') JSON_PRIMITIVE_TYPE_INTEGER ''-2'']) = Ok ob
    \<and> JsonObjectGet ob ''a'' = Ok (Ptr (Primitive (Ptr ''a'') JSON_PRIMITIVE_TYPE_INTEGER ''-2''))"
proof -
  let ?a = "JObject NULL [Primitive (Ptr ''a'') JSON_PRIMITIVE_TYPE_INTEGER ''1'']"
  let ?b = "JObject NULL [Primitive (Ptr ''a'') JSON_PRIMITIVE_TYPE_INTEGER ''-2'']"
  have "copyable ?a" "copyable ?b" by code_simp+
  from JsonMerge_objects [OF this, of "\<lambda>v. v"] obtain ob where ob: "JsonMerge (\<lambda>v. v) ?a ?b = Ok ob"
    "JsonObjectGet ?a ''a'' = Ok a \<Longrightarrow> JsonObjectGet ?b ''a'' = Ok b \<Longrightarrow> JsonObjectGet ob ''a'' = Ok (if b = NULL then a else b)" for a b
    by blast
  have "JsonObjectGet ?a ''a'' = Ok (Ptr (Primitive (Ptr ''a'') JSON_PRIMITIVE_TYPE_INTEGER ''1''))"
    "JsonObjectGet ?b ''a'' = Ok (Ptr (Primitive (Ptr ''a'') JSON_PRIMITIVE_TYPE_INTEGER ''-2''))" by code_simp+
  from ob(2) [OF this] ob(1) show ?thesis by auto
qed

text \<open>
  JsonCopy cuts integers: an integer of 64 bits, which the parser and JsonIntegerCreate64 accept, is
  copied as its low 32 bits, so that the copy is another number as soon as the number is not an \<open>int\<close>.
\<close>

theorem JsonCopy_truncates_integers:
  assumes "LONG_MIN \<le> i" "i \<le> LONG_MAX"
  shows "JsonCopy ft (Primitive name JSON_PRIMITIVE_TYPE_INTEGER (fmt_int i))
      = Ok (Primitive NULL JSON_PRIMITIVE_TYPE_INTEGER (fmt_int (sint (word_of_int i :: 32 word))))
    \<and> (sint (word_of_int i :: 32 word) = i \<longleftrightarrow> INT_MIN \<le> i \<and> i \<le> INT_MAX)"
  using JsonPrimitiveGetAsInteger_fmt [OF assms] sint_word_of_int_32
  by (simp add: JsonPrimitiveCopy_def JsonIntegerCreate_def JsonElementCreatePrimitive_def)

theorem JsonCopy_truncates_integers_witness:
  "JsonCopy (\<lambda>v. v) (Primitive NULL JSON_PRIMITIVE_TYPE_INTEGER (fmt_int 4294967297))
     = Ok (Primitive NULL JSON_PRIMITIVE_TYPE_INTEGER (fmt_int 1))"
  using JsonCopy_truncates_integers [of 4294967297 "\<lambda>v. v" NULL] by (simp add: c_limits)

text \<open>
  The parser reads past the end of its text when the text ends behind a backslash inside a string: it
  copies the terminating NUL as the escaped character and goes on behind it.
\<close>

theorem JsonParse_reads_past_end:
  assumes "string_text twice s m v" "whitespace w"
  shows "JsonParse (Ptr (w @ quote # s @ [backslash])) = Fault OutOfBounds"
proof -
  have "JsonParseAsString_loop (s @ [backslash]) out = Fault OutOfBounds" for out
    by (simp add: JsonParseAsString_loop_prefix [OF assms(1)])
  then show ?thesis
    by (simp add: JsonParse_def JsonParseWithLookup_def loop_leading_whitespace [OF assms(2)] JsonParseAsPrimitive_eq
      JsonParseAsString_def IsWhitespace_def)
qed

theorem JsonParse_reads_past_end_witness:
  "JsonParse (Ptr ([] @ quote # ''a'' @ [backslash])) = Fault OutOfBounds"
  by (rule JsonParse_reads_past_end [where twice = False and m = "''a''" and v = "''a''"])
    (auto intro: string_text.plain string_text.empty)

end
