(* ===== verification/Circular.thy ===== *)
theory Circular
  imports Prelude
begin

text \<open>
  Circular arrays, shared by ring_buffer.c, threaded_queue.c and threaded_deque.c: \<open>circ a h xs\<close>
  says that the block \<open>a\<close> holds the items \<open>xs\<close> from index \<open>h\<close> on, wrapping at its end.
\<close>

definition circ :: "'a carray \<Rightarrow> nat \<Rightarrow> 'a list \<Rightarrow> bool" where
  "circ a h xs \<longleftrightarrow> length xs \<le> length a \<and> h < length a
     \<and> (\<forall>k < length xs. a ! ((h + k) mod length a) = Val (xs ! k))"

lemma circD:
  assumes "circ a h xs"
  shows "length xs \<le> length a" "h < length a" "0 < length a"
    "k < length xs \<Longrightarrow> a ! ((h + k) mod length a) = Val (xs ! k)"
  using assms by (auto simp: circ_def)

lemma circI:
  "length xs \<le> length a \<Longrightarrow> h < length a \<Longrightarrow>
   (\<And>k. k < length xs \<Longrightarrow> a ! ((h + k) mod length a) = Val (xs ! k)) \<Longrightarrow> circ a h xs"
  by (simp add: circ_def)

lemma circ_Nil [simp]: "circ a h [] \<longleftrightarrow> h < length a"
  by (auto simp: circ_def)

lemma circ_stores: "0 < length a \<Longrightarrow> stores a xs \<Longrightarrow> circ a 0 xs"
  using stores_length [of a xs] by (auto simp: circ_def stores_nth)

lemma mod_offset_inj:
  assumes "(h + i) mod n = (h + j) mod n" "i < n" "j < (n :: nat)"
  shows "i = j"
proof -
  have "n dvd (h + j) - (h + i)" "n dvd (h + i) - (h + j)"
    using assms(1) by (metis mod_eq_dvd_iff_nat nat_le_linear diff_is_0_eq' dvd_0_right)+
  then show ?thesis using assms(2,3) nat_dvd_not_less by (metis add_diff_cancel_left
        bot_nat_0.not_eq_extremum diff_diff_cancel diff_is_0_eq le_eq_less_or_eq less_imp_diff_less nat_le_linear)
qed

lemma circ_read [simp]: "circ a h xs \<Longrightarrow> k < length xs \<Longrightarrow> cread a ((h + k) mod length a) = Ok (xs ! k)"
  using circD [of a h xs] by simp

lemma circ_read_first: "circ a h xs \<Longrightarrow> xs \<noteq> [] \<Longrightarrow> cread a h = Ok (hd xs)"
  using circ_read [of a h xs 0] circD [of a h xs] by (simp add: hd_conv_nth)

lemma circ_pop_first:
  assumes "circ a h (x # xs)"
  shows "circ (a[h := v]) ((h + 1) mod length a) xs"
proof (rule circI)
  note c = circD [OF assms]
  show "length xs \<le> length (a[h := v])" "(h + 1) mod length a < length (a[h := v])"
    using c by auto
  fix k assume k: "k < length xs"
  have eq: "((h + 1) mod length a + k) mod length a = (h + Suc k) mod length a"
    by (simp add: mod_add_left_eq)
  have "(h + Suc k) mod length a \<noteq> h"
    using mod_offset_inj [of h "Suc k" "length a" 0] c(1,2,3) k by fastforce
  then show "a[h := v] ! (((h + 1) mod length a + k) mod length (a[h := v])) = Val (xs ! k)"
    using c(4) [of "Suc k"] k eq by simp
qed

lemma circ_push_last:
  assumes "circ a h xs" "length xs < length a"
  shows "circ (a[(h + length xs) mod length a := Val x]) h (xs @ [x])"
proof (rule circI)
  note c = circD [OF assms(1)]
  show "length (xs @ [x]) \<le> length (a[(h + length xs) mod length a := Val x])"
    "h < length (a[(h + length xs) mod length a := Val x])" using assms(2) c by auto
  fix k assume k: "k < length (xs @ [x])"
  show "a[(h + length xs) mod length a := Val x] !
      ((h + k) mod length (a[(h + length xs) mod length a := Val x])) = Val ((xs @ [x]) ! k)"
  proof (cases "k = length xs")
    case True then show ?thesis using c(3) by simp
  next
    case False
    then have "(h + length xs) mod length a \<noteq> (h + k) mod length a"
      using mod_offset_inj [of h "length xs" "length a" k] assms(2) k by auto
    then show ?thesis using c(4) [of k] k False by (simp add: nth_append)
  qed
qed

lemma circ_pop_last:
  assumes "circ a h (xs @ [x])"
  shows "cread a ((h + length xs) mod length a) = Ok x"
    "circ (a[(h + length xs) mod length a := v]) h xs"
proof -
  note c = circD [OF assms]
  show "cread a ((h + length xs) mod length a) = Ok x"
    using circ_read [OF assms, of "length xs"] by simp
  show "circ (a[(h + length xs) mod length a := v]) h xs"
  proof (rule circI)
    fix k assume k: "k < length xs"
    have "(h + length xs) mod length a \<noteq> (h + k) mod length a"
      using mod_offset_inj [of h "length xs" "length a" k] c(1) k by auto
    then show "a[(h + length xs) mod length a := v] !
        ((h + k) mod length (a[(h + length xs) mod length a := v])) = Val (xs ! k)"
      using c(4) [of k] k by (simp add: nth_append)
  qed (use c in auto)
qed

text \<open>Moving the head one cell to the left, as ThreadedDequePushLeft does.\<close>

definition dec_wrap :: "nat \<Rightarrow> nat \<Rightarrow> nat" where
  "dec_wrap i n = (if i = 0 then n - 1 else i - 1)"

lemma dec_wrap_less [simp]: "i < n \<Longrightarrow> dec_wrap i n < n"
  by (auto simp: dec_wrap_def)

lemma dec_wrap_Suc:
  assumes "i < n"
  shows "(dec_wrap i n + Suc k) mod n = (i + k) mod n"
proof -
  have "dec_wrap i n + Suc k = (if i = 0 then n + (i + k) else i + k)"
    using assms by (auto simp: dec_wrap_def)
  then show ?thesis by (simp del: add_Suc_right split: if_splits)
qed

lemma dec_wrap_mod: "h < n \<Longrightarrow> 0 < k \<Longrightarrow> dec_wrap ((h + k) mod n) n = (h + (k - 1)) mod n"
proof -
  assume n: "h < n" and "0 < k"
  then obtain j where k: "k = Suc j" by (cases k) auto
  have "Suc (h + j) mod n = (if Suc ((h + j) mod n) = n then 0 else Suc ((h + j) mod n))"
    by (rule mod_Suc)
  then show ?thesis using n k mod_less_divisor [of n "h + j"] by (auto simp: dec_wrap_def)
qed

lemma circ_push_first:
  assumes "circ a h xs" "length xs < length a"
  shows "circ (a[dec_wrap h (length a) := Val x]) (dec_wrap h (length a)) (x # xs)"
proof (rule circI)
  note c = circD [OF assms(1)]
  let ?n = "length a" and ?d = "dec_wrap h (length a)"
  show "length (x # xs) \<le> length (a[?d := Val x])" "?d < length (a[?d := Val x])"
    using assms(2) c by auto
  fix k assume k: "k < length (x # xs)"
  show "a[?d := Val x] ! ((?d + k) mod length (a[?d := Val x])) = Val ((x # xs) ! k)"
  proof (cases k)
    case 0 then show ?thesis using c by simp
  next
    case (Suc j)
    have "(?d + Suc j) mod ?n \<noteq> (?d + 0) mod ?n"
      using mod_offset_inj [of ?d "Suc j" ?n 0] assms(2) c(3) k Suc by fastforce
    then show ?thesis using c(2) c(4) [of j] k Suc dec_wrap_Suc [OF c(2), of j] by simp
  qed
qed

text \<open>
  Growing a full array: after doubling the block, the part that had wrapped around is copied
  behind the old end, so that the items lie in one piece from the head on.
\<close>

lemma circ_expand_wrapped:
  assumes c: "circ a h xs" and full: "length xs = length a"
  shows "\<exists>b. memmove (xrealloc a (length a * 2)) (length a) 0 h = Ok b
    \<and> length b = length a * 2 \<and> circ b h xs"
proof -
  let ?n = "length a"
  let ?b = "a @ take h a @ replicate (?n - h) Undef"
  note cd = circD [OF c]
  have re: "xrealloc a (?n * 2) = a @ replicate ?n Undef" by (simp add: xrealloc_def)
  have mv: "memmove (a @ replicate ?n Undef) ?n 0 h = Ok ?b"
    using cd by (simp add: memmove_def)
  have "circ ?b h xs"
  proof (rule circI)
    fix k assume k: "k < length xs"
    have "(h + k) mod length ?b = h + k" using k full cd(2) by simp
    moreover have "?b ! (h + k) = a ! ((h + k) mod ?n)"
    proof (cases "h + k < ?n")
      case False
      then have "(h + k) mod ?n = h + k - ?n"
        using k full cd(2) by (simp add: mod_if)
      moreover have "h + k - ?n < h" using k full False by linarith
      ultimately show ?thesis using False cd(2) by (simp add: nth_append)
    qed (simp add: nth_append)
    ultimately show "?b ! ((h + k) mod length ?b) = Val (xs ! k)" using cd(4) [OF k] by simp
  qed (use cd full in auto)
  then show ?thesis using re mv cd by (intro exI [of _ ?b]) auto
qed

lemma circ_expand_flat:
  assumes "circ a 0 xs" "length a \<le> n"
  shows "circ (xrealloc a n) 0 xs"
proof (rule circI)
  note c = circD [OF assms(1)]
  fix k assume k: "k < length xs"
  then have "k < length a" using c(1) by simp
  then show "xrealloc a n ! ((0 + k) mod length (xrealloc a n)) = Val (xs ! k)"
    using c(4) [OF k] assms(2) by (simp add: xrealloc_def nth_append)
qed (use circD(1,3) [OF assms(1)] assms(2) in \<open>auto intro: less_le_trans\<close>)

text \<open>Taking several items from the front, cell by cell.\<close>

fun circ_take :: "'a ptr carray \<Rightarrow> nat \<Rightarrow> nat \<Rightarrow> nat \<Rightarrow> ('a ptr list \<times> 'a ptr carray \<times> nat) res" where
  "circ_take a cap h 0 = Ok ([], a, h)"
| "circ_take a cap h (Suc n) =
     bindE (cread a h) (\<lambda>x. bindE (cwrite a h NULL) (\<lambda>b.
     bindE (circ_take b cap ((h + 1) mod cap) n) (\<lambda>(xs, c, h'). Ok (x # xs, c, h'))))"

lemma circ_take_ok:
  "circ a h xs \<Longrightarrow> n \<le> length xs \<Longrightarrow>
   \<exists>b. circ_take a (length a) h n = Ok (take n xs, b, (h + n) mod length a)
     \<and> length b = length a \<and> circ b ((h + n) mod length a) (drop n xs)"
proof (induction n arbitrary: a h xs)
  case 0
  then show ?case using circD [of a h xs] by simp
next
  case (Suc n)
  then obtain y ys where xs: "xs = y # ys" by (cases xs) auto
  note c = circD [OF Suc.prems(1)]
  have step: "circ (a[h := Val NULL]) ((h + 1) mod length a) ys"
    using circ_pop_first [of a h y ys] Suc.prems(1) xs by blast
  from Suc.IH [OF step] Suc.prems(2) xs obtain b where
    b: "circ_take (a[h := Val NULL]) (length a) ((h + 1) mod length a) n
        = Ok (take n ys, b, ((h + 1) mod length a + n) mod length a)"
      "length b = length a" "circ b (((h + 1) mod length a + n) mod length a) (drop n ys)" by auto
  have "((h + 1) mod length a + n) mod length a = (h + Suc n) mod length a"
    by (simp add: mod_add_left_eq)
  then show ?case using b c circ_read_first [OF Suc.prems(1)] xs by auto
qed

text \<open>Taking several items from the back.\<close>

fun circ_take_right :: "'a ptr carray \<Rightarrow> nat \<Rightarrow> nat \<Rightarrow> nat \<Rightarrow> ('a ptr list \<times> 'a ptr carray \<times> nat) res" where
  "circ_take_right a cap r 0 = Ok ([], a, r)"
| "circ_take_right a cap r (Suc n) =
     (let r' = dec_wrap r cap
      in bindE (cread a r') (\<lambda>x. bindE (cwrite a r' NULL) (\<lambda>b.
         bindE (circ_take_right b cap r' n) (\<lambda>(xs, c, r''). Ok (x # xs, c, r'')))))"

lemma circ_take_right_ok:
  "circ a h xs \<Longrightarrow> n \<le> length xs \<Longrightarrow>
   \<exists>b. circ_take_right a (length a) ((h + length xs) mod length a) n
       = Ok (take n (rev xs), b, (h + (length xs - n)) mod length a)
     \<and> length b = length a \<and> circ b h (take (length xs - n) xs)"
proof (induction n arbitrary: a xs)
  case 0
  then show ?case by simp
next
  case (Suc n)
  then obtain ys y where xs: "xs = ys @ [y]" by (cases xs rule: rev_cases) auto
  note c = circD [OF Suc.prems(1)]
  let ?r = "(h + length ys) mod length a"
  have r: "dec_wrap ((h + length xs) mod length a) (length a) = ?r"
    using dec_wrap_mod [OF c(2), of "length xs"] xs by simp
  have pop: "cread a ?r = Ok y" "circ (a[?r := Val NULL]) h ys"
    using circ_pop_last [of a h ys y] Suc.prems(1) xs by auto
  from Suc.IH [OF pop(2)] Suc.prems(2) xs obtain b where
    b: "circ_take_right (a[?r := Val NULL]) (length a) ?r n
        = Ok (take n (rev ys), b, (h + (length ys - n)) mod length a)"
      "length b = length a" "circ b h (take (length ys - n) ys)" by auto
  have "?r < length a" using c by simp
  then show ?case using b r pop(1) xs Suc.prems(2) by (simp add: Let_def)
qed

text \<open>The capacity after an item is added to an array that doubles when full.\<close>

definition grown :: "nat \<Rightarrow> nat \<Rightarrow> nat" where
  "grown cap n = (if n = cap then cap * 2 else cap)"

end
