(* ===== verification/RingBuffer.thy ===== *)
theory RingBuffer
  imports Circular "HOL-Library.Multiset"
begin

text \<open>
  The bounded ring buffer of libutils/ring_buffer.c. The buffer keeps the last \<open>capacity\<close> items;
  an append to a full buffer destroys the oldest item. \<open>copy\<close> and \<open>destroy\<close> are function pointers
  that may be NULL; operations that destroy items return them in call order.
\<close>

section \<open>Data and operations\<close>

record 'a RingBuffer =
  rb_copy :: "('a ptr \<Rightarrow> 'a ptr) option"
  rb_destroy :: bool
  rb_data :: "'a ptr carray"
  rb_capacity :: nat
  rb_end :: nat
  rb_len :: nat

record RingBufferIterator =
  iter_num_read :: nat

definition RingBufferNew ::
  "nat \<Rightarrow> ('a ptr \<Rightarrow> 'a ptr) option \<Rightarrow> bool \<Rightarrow> 'a RingBuffer res" where
  "RingBufferNew capacity copy destroy =
     bindE (c_assert (capacity > 0)) (\<lambda>_.
     Ok \<lparr>rb_copy = copy, rb_destroy = destroy, rb_data = xcalloc capacity NULL,
         rb_capacity = max capacity 1, rb_end = 0, rb_len = 0\<rparr>)"

definition RingBufferAppend :: "'a RingBuffer \<Rightarrow> 'a ptr \<Rightarrow> ('a RingBuffer \<times> 'a ptr list) res" where
  "RingBufferAppend buf item =
     bindE (cread (rb_data buf) (rb_end buf)) (\<lambda>old.
     let gone = (if old \<noteq> NULL \<and> rb_destroy buf then [old] else []);
         new = (case rb_copy buf of Some copy \<Rightarrow> copy item | None \<Rightarrow> item)
     in bindE (cwrite (rb_data buf) (rb_end buf) new) (\<lambda>d.
        Ok (buf\<lparr>rb_data := d, rb_end := (rb_end buf + 1) mod rb_capacity buf,
                rb_len := (if rb_len buf < rb_capacity buf then rb_len buf + 1 else rb_len buf)\<rparr>,
            gone)))"

function RingBufferClear_loop ::
  "'a ptr carray \<Rightarrow> nat \<Rightarrow> nat \<Rightarrow> ('a ptr carray \<times> 'a ptr list) res" where
  "RingBufferClear_loop data capacity i =
     (if i < capacity
      then bindE (cread data i) (\<lambda>x.
           if x \<noteq> NULL
           then bindE (cwrite data i NULL) (\<lambda>d.
                bindE (RingBufferClear_loop d capacity (i + 1)) (\<lambda>(d', gone). Ok (d', x # gone)))
           else RingBufferClear_loop data capacity (i + 1))
      else Ok (data, []))"
  by pat_completeness auto
termination
  by (relation "measure (\<lambda>(data, capacity, i). capacity - i)") auto

declare RingBufferClear_loop.simps [simp del]

definition RingBufferClear :: "'a RingBuffer \<Rightarrow> ('a RingBuffer \<times> 'a ptr list) res" where
  "RingBufferClear buf =
     bindE (if rb_destroy buf then RingBufferClear_loop (rb_data buf) (rb_capacity buf) 0
            else Ok (rb_data buf, [])) (\<lambda>(d, gone).
     Ok (buf\<lparr>rb_data := d, rb_end := 0, rb_len := 0\<rparr>, gone))"

definition RingBufferLength :: "'a RingBuffer \<Rightarrow> nat" where
  "RingBufferLength buf = rb_len buf"

definition RingBufferIsFull :: "'a RingBuffer \<Rightarrow> bool" where
  "RingBufferIsFull buf \<longleftrightarrow> rb_len buf = rb_capacity buf"

definition RingBufferHead :: "'a RingBuffer \<Rightarrow> 'a ptr res" where
  "RingBufferHead buf =
     (if RingBufferLength buf = 0 then Ok NULL
      else if rb_end buf = 0 then cread (rb_data buf) (rb_capacity buf - 1)
      else cread (rb_data buf) (rb_end buf - 1))"

definition RingBufferDestroy :: "'a RingBuffer \<Rightarrow> 'a ptr list res" where
  "RingBufferDestroy buf = bindE (RingBufferClear buf) (\<lambda>(_, gone). Ok gone)"

definition RingBufferIteratorNew :: "'a RingBuffer \<Rightarrow> RingBufferIterator" where
  "RingBufferIteratorNew buf = \<lparr>iter_num_read = 0\<rparr>"

text \<open>
  The iterator points to its buffer, which is an argument here. The unsigned difference of
  \<open>len\<close> and \<open>num_read\<close> is 0 exactly when the two are equal.
\<close>

definition RingBufferIteratorNext ::
  "'a RingBuffer \<Rightarrow> RingBufferIterator \<Rightarrow> ('a ptr \<times> RingBufferIterator) res" where
  "RingBufferIteratorNext buf iter =
     (if rb_len buf = iter_num_read iter then Ok (NULL, iter)
      else let offset = (if RingBufferIsFull buf
                         then (rb_end buf + iter_num_read iter) mod rb_capacity buf
                         else iter_num_read iter)
           in bindE (cread (rb_data buf) offset) (\<lambda>data.
              Ok (data, iter\<lparr>iter_num_read := iter_num_read iter + 1\<rparr>)))"

section \<open>Representation\<close>

definition rb_start :: "'a RingBuffer \<Rightarrow> nat" where
  "rb_start b = (if rb_len b = rb_capacity b then rb_end b else 0)"

definition rb_rep :: "'a RingBuffer \<Rightarrow> 'a ptr list \<Rightarrow> bool" where
  "rb_rep b xs \<longleftrightarrow> length (rb_data b) = rb_capacity b \<and> 0 < rb_capacity b
     \<and> rb_len b = length xs \<and> length xs \<le> rb_capacity b \<and> rb_end b < rb_capacity b
     \<and> (length xs < rb_capacity b \<longrightarrow> rb_end b = length xs)
     \<and> circ (rb_data b) (rb_start b) xs
     \<and> (\<forall>c \<in> set (rb_data b). c \<noteq> Undef)
     \<and> (rb_destroy b \<longrightarrow> (\<forall>i. length xs \<le> i \<and> i < rb_capacity b \<longrightarrow> rb_data b ! i = Val NULL))"

lemma rb_repD:
  assumes "rb_rep b xs"
  shows "length (rb_data b) = rb_capacity b" "0 < rb_capacity b" "rb_len b = length xs"
    "length xs \<le> rb_capacity b" "rb_end b < rb_capacity b"
    "length xs < rb_capacity b \<Longrightarrow> rb_end b = length xs"
    "circ (rb_data b) (rb_start b) xs" "\<forall>c \<in> set (rb_data b). c \<noteq> Undef"
    "rb_destroy b \<Longrightarrow> \<forall>i. length xs \<le> i \<and> i < rb_capacity b \<longrightarrow> rb_data b ! i = Val NULL"
  using assms by (simp_all add: rb_rep_def)

text \<open>What the copy function of the buffer makes of an item.\<close>

definition rb_stored :: "'a RingBuffer \<Rightarrow> 'a ptr \<Rightarrow> 'a ptr" where
  "rb_stored b x = (case rb_copy b of Some copy \<Rightarrow> copy x | None \<Rightarrow> x)"

definition rb_frame :: "'a RingBuffer \<Rightarrow> ('a ptr \<Rightarrow> 'a ptr) option \<times> bool \<times> nat" where
  "rb_frame b = (rb_copy b, rb_destroy b, rb_capacity b)"

lemma RingBufferNew_rep:
  "0 < n \<Longrightarrow> \<exists>b. RingBufferNew n copy d = Ok b \<and> rb_rep b [] \<and> rb_frame b = (copy, d, n)"
  by (auto simp: RingBufferNew_def rb_rep_def rb_start_def rb_frame_def xcalloc_def)

lemma RingBufferAppend_fresh:
  assumes rep: "rb_rep b xs" and room: "length xs < rb_capacity b"
  shows "\<exists>b'. RingBufferAppend b x = Ok (b', []) \<and> rb_rep b' (xs @ [rb_stored b x])
    \<and> rb_frame b' = rb_frame b"
proof -
  note r = rb_repD [OF rep]
  have e: "rb_end b = length xs" using r room by simp
  obtain old where old: "rb_data b ! length xs = Val old"
    using r(1,8) room by (metis cell.exhaust nth_mem)
  have none: "\<not> (old \<noteq> NULL \<and> rb_destroy b)" using r(9) room old by auto
  let ?d = "(rb_data b)[length xs := Val (rb_stored b x)]"
  let ?b = "b\<lparr>rb_data := ?d, rb_end := (length xs + 1) mod rb_capacity b, rb_len := length xs + 1\<rparr>"
  have "circ (rb_data b) 0 xs" using r(3,7) room by (simp add: rb_start_def)
  from circ_push_last [OF this, of "rb_stored b x"] r(1) room
  have c: "circ ?d 0 (xs @ [rb_stored b x])" by simp
  moreover have "\<forall>c \<in> set ?d. c \<noteq> Undef" using r(8) by (auto dest!: set_update_subset_insert [THEN subsetD])
  moreover have "rb_start ?b = 0" using room by (auto simp: rb_start_def)
  moreover have "length xs + 1 < rb_capacity b \<Longrightarrow> (length xs + 1) mod rb_capacity b = length xs + 1"
    by simp
  ultimately have "rb_rep ?b (xs @ [rb_stored b x])"
    using r room by (simp add: rb_rep_def)
  moreover have "RingBufferAppend b x = Ok (?b, [])"
    using old none e r room by (simp add: RingBufferAppend_def rb_stored_def Let_def)
  ultimately show ?thesis by (auto simp: rb_frame_def)
qed

lemma RingBufferAppend_full:
  assumes rep: "rb_rep b (y # ys)" and full: "length (y # ys) = rb_capacity b"
  shows "\<exists>b'. RingBufferAppend b x = Ok (b', if y \<noteq> NULL \<and> rb_destroy b then [y] else [])
    \<and> rb_rep b' (ys @ [rb_stored b x]) \<and> rb_frame b' = rb_frame b"
proof -
  note r = rb_repD [OF rep]
  let ?n = "rb_capacity b" and ?e = "rb_end b" and ?v = "Val (rb_stored b x)"
  let ?d = "(rb_data b)[?e := ?v]"
  let ?b = "b\<lparr>rb_data := ?d, rb_end := (?e + 1) mod ?n, rb_len := ?n\<rparr>"
  have c0: "circ (rb_data b) ?e (y # ys)" using r(3,7) full by (simp add: rb_start_def)
  from circ_pop_first [OF c0, of ?v] r(1) have c1: "circ ?d ((?e + 1) mod ?n) ys" by simp
  have "length ys = ?n - 1" using full by simp
  then have s: "?e + 1 + length ys = ?e + ?n" using r(2) by simp
  have "((?e + 1) mod ?n + length ys) mod ?n = (?e + 1 + length ys) mod ?n"
    by (rule mod_add_left_eq)
  also have "\<dots> = ?e" using r(5) by (simp only: s mod_add_self2 mod_less)
  finally have "((?e + 1) mod ?n + length ys) mod ?n = ?e" .
  with circ_push_last [OF c1, of "rb_stored b x"] r(1) full
  have c2: "circ ?d ((?e + 1) mod ?n) (ys @ [rb_stored b x])" by simp
  moreover have "\<forall>c \<in> set ?d. c \<noteq> Undef" using r(8) by (auto dest!: set_update_subset_insert [THEN subsetD])
  moreover have "rb_start ?b = (?e + 1) mod ?n" by (simp add: rb_start_def)
  ultimately have "rb_rep ?b (ys @ [rb_stored b x])"
    using r(1-5) full by (auto simp: rb_rep_def)
  moreover have "RingBufferAppend b x = Ok (?b, if y \<noteq> NULL \<and> rb_destroy b then [y] else [])"
    using circ_read_first [OF c0] r full
    by (auto simp: RingBufferAppend_def rb_stored_def Let_def)
  ultimately show ?thesis by (auto simp: rb_frame_def)
qed

section \<open>Any number of appends\<close>

fun RingBufferAppend_all :: "'a RingBuffer \<Rightarrow> 'a ptr list \<Rightarrow> ('a RingBuffer \<times> 'a ptr list) res" where
  "RingBufferAppend_all b [] = Ok (b, [])"
| "RingBufferAppend_all b (x # xs) =
     bindE (RingBufferAppend b x) (\<lambda>(b', gone).
     bindE (RingBufferAppend_all b' xs) (\<lambda>(b'', gone'). Ok (b'', gone @ gone')))"

text \<open>The last \<open>n\<close> items of a list, and the items before them.\<close>

definition last_n :: "nat \<Rightarrow> 'a list \<Rightarrow> 'a list" where
  "last_n n xs = drop (length xs - n) xs"

definition but_last_n :: "nat \<Rightarrow> 'a list \<Rightarrow> 'a list" where
  "but_last_n n xs = take (length xs - n) xs"

lemma but_last_n_append_last_n: "but_last_n n xs @ last_n n xs = xs"
  by (simp add: but_last_n_def last_n_def)

lemma last_n_short: "length xs \<le> n \<Longrightarrow> last_n n xs = xs \<and> but_last_n n xs = []"
  by (simp add: last_n_def but_last_n_def)

lemma last_n_Cons:
  assumes "n \<le> length xs"
  shows "last_n n (x # xs) = last_n n xs" "but_last_n n (x # xs) = x # but_last_n n xs"
  using assms by (simp_all add: last_n_def but_last_n_def Suc_diff_le)

lemma rb_stored_frame: "rb_frame b' = rb_frame b \<Longrightarrow> rb_stored b' = rb_stored b"
  by (auto simp: rb_frame_def rb_stored_def fun_eq_iff)

lemma RingBufferAppend_all_rep:
  assumes "rb_rep b xs"
  shows "\<exists>b'. RingBufferAppend_all b ys = Ok (b',
      if rb_destroy b then filter (\<lambda>x. x \<noteq> NULL) (but_last_n (rb_capacity b) (xs @ map (rb_stored b) ys))
      else [])
    \<and> rb_rep b' (last_n (rb_capacity b) (xs @ map (rb_stored b) ys)) \<and> rb_frame b' = rb_frame b"
  using assms
proof (induction ys arbitrary: b xs)
  case Nil
  then show ?case using last_n_short [of xs] rb_repD(4) [OF Nil] by auto
next
  case (Cons y ys)
  let ?n = "rb_capacity b" and ?s = "rb_stored b"
  show ?case
  proof (cases "length xs < ?n")
    case True
    from RingBufferAppend_fresh [OF Cons.prems True, of y] obtain b1 where
      b1: "RingBufferAppend b y = Ok (b1, [])" "rb_rep b1 (xs @ [?s y])" "rb_frame b1 = rb_frame b"
      by blast
    from Cons.IH [OF b1(2)] b1 rb_stored_frame [OF b1(3)] show ?thesis
      by (auto simp: rb_frame_def)
  next
    case False
    then have full: "length xs = ?n" "xs \<noteq> []" using rb_repD [OF Cons.prems] by auto
    then obtain z zs where xs: "xs = z # zs" by (cases xs) auto
    from RingBufferAppend_full [of b z zs y] Cons.prems full(1) xs obtain b1 where
      b1: "RingBufferAppend b y = Ok (b1, if z \<noteq> NULL \<and> rb_destroy b then [z] else [])"
        "rb_rep b1 (zs @ [?s y])" "rb_frame b1 = rb_frame b" by auto
    from Cons.IH [OF b1(2)] b1 rb_stored_frame [OF b1(3)]
      last_n_Cons [of ?n "zs @ map ?s (y # ys)" z] full(1) xs
    show ?thesis by (auto simp: rb_frame_def)
  qed
qed

section \<open>Reading the buffer\<close>

lemma RingBufferHead_eq:
  assumes "rb_rep b xs"
  shows "RingBufferHead b = Ok (if xs = [] then NULL else last xs)"
proof (cases "xs = []")
  case True
  then show ?thesis using rb_repD(3) [OF assms] by (simp add: RingBufferHead_def RingBufferLength_def)
next
  case False
  note r = rb_repD [OF assms]
  let ?n = "rb_capacity b"
  have k: "length xs - 1 < length xs" using False by simp
  have "(rb_start b + (length xs - 1)) mod ?n = (if rb_end b = 0 then ?n - 1 else rb_end b - 1)"
  proof (cases "length xs = ?n")
    case True
    then have "rb_start b = rb_end b" "length xs - 1 = ?n - 1" using r(3) by (auto simp: rb_start_def)
    then show ?thesis using r(2,5) by (auto simp: mod_if)
  next
    case less: False
    then have "rb_start b = 0" "rb_end b = length xs" using r by (auto simp: rb_start_def)
    then show ?thesis using False r(4) less by auto
  qed
  with circ_read [OF r(7) k] r(1) False r(3) show ?thesis
    by (simp add: RingBufferHead_def RingBufferLength_def last_conv_nth split: if_splits)
qed

fun RingBufferIterate :: "'a RingBuffer \<Rightarrow> RingBufferIterator \<Rightarrow> nat \<Rightarrow> 'a ptr list res" where
  "RingBufferIterate b it 0 = Ok []"
| "RingBufferIterate b it (Suc n) =
     bindE (RingBufferIteratorNext b it) (\<lambda>(x, it').
     bindE (RingBufferIterate b it' n) (\<lambda>xs. Ok (x # xs)))"

lemma RingBufferIteratorNext_eq:
  assumes "rb_rep b xs" "iter_num_read it < length xs"
  shows "RingBufferIteratorNext b it
    = Ok (xs ! iter_num_read it, \<lparr>iter_num_read = iter_num_read it + 1\<rparr>)"
proof -
  note r = rb_repD [OF assms(1)]
  have "cread (rb_data b) ((rb_start b + iter_num_read it) mod rb_capacity b) = Ok (xs ! iter_num_read it)"
    using circ_read [OF r(7) assms(2)] r(1) by simp
  then show ?thesis using r(3,4) assms(2)
    by (auto simp: RingBufferIteratorNext_def RingBufferIsFull_def rb_start_def Let_def)
qed

lemma RingBufferIterate_eq:
  assumes "rb_rep b xs"
  shows "k \<le> length xs \<Longrightarrow> RingBufferIterate b \<lparr>iter_num_read = k\<rparr> (Suc (length xs - k))
    = Ok (drop k xs @ [NULL])"
proof (induction "length xs - k" arbitrary: k)
  case 0
  then show ?case using rb_repD(3) [OF assms] by (simp add: RingBufferIteratorNext_def)
next
  case (Suc n)
  then have k: "k < length xs" by simp
  have "RingBufferIterate b \<lparr>iter_num_read = Suc k\<rparr> (Suc (length xs - Suc k)) = Ok (drop (Suc k) xs @ [NULL])"
    using Suc by simp
  moreover have "length xs - k = Suc (length xs - Suc k)" using k by simp
  ultimately show ?case using RingBufferIteratorNext_eq [OF assms, of "\<lparr>iter_num_read = k\<rparr>"] k
    by (simp del: RingBufferIterate.simps add: RingBufferIterate.simps(2) [of b "\<lparr>iter_num_read = k\<rparr>"]
        Cons_nth_drop_Suc)
qed

section \<open>Clearing\<close>

lemma RingBufferClear_loop_ok:
  "length data = n \<Longrightarrow> i \<le> n \<Longrightarrow> data = map Val ds \<Longrightarrow>
   RingBufferClear_loop data n i
     = Ok (map Val (take i ds @ replicate (n - i) NULL), filter (\<lambda>x. x \<noteq> NULL) (drop i ds))"
proof (induction "n - i" arbitrary: i data ds)
  case 0
  then show ?case by (simp add: RingBufferClear_loop.simps)
next
  case (Suc m)
  then have i: "i < length ds" "drop i ds = ds ! i # drop (Suc i) ds"
    by (auto simp: Cons_nth_drop_Suc)
  let ?ds = "ds[i := NULL]"
  have up: "(map Val ds)[i := Val NULL] = map Val ?ds" by (simp add: map_update)
  have "RingBufferClear_loop (map Val ?ds) n (Suc i) = Ok (map Val (take (Suc i) ?ds @
      replicate (n - Suc i) NULL), filter (\<lambda>x. x \<noteq> NULL) (drop (Suc i) ?ds))"
    using Suc by (intro Suc.hyps(1)) auto
  moreover have "take (Suc i) ?ds = take i ds @ [NULL]" using i(1) by (simp add: take_Suc_conv_app_nth)
  moreover have "drop (Suc i) ?ds = drop (Suc i) ds" by simp
  moreover have "[NULL] @ replicate (n - Suc i) NULL = replicate (n - i) NULL"
    using Suc i(1) by (simp add: replicate_Suc [symmetric] Suc_diff_Suc del: replicate_Suc)
  ultimately have next_: "RingBufferClear_loop (map Val ?ds) n (Suc i) = Ok (map Val (take i ds @
      replicate (n - i) NULL), filter (\<lambda>x. x \<noteq> NULL) (drop (Suc i) ds))"
    by (metis append_assoc)
  have keep: "ds ! i = NULL \<Longrightarrow> ?ds = ds" by (metis list_update_id)
  show ?case using Suc.prems Suc.hyps(2) i next_ up keep
    by (subst RingBufferClear_loop.simps) auto
qed

lemma circ_full_rotate:
  assumes "circ (map Val ds) h xs" "length xs = length ds"
  shows "xs = rotate h ds"
proof (rule nth_equalityI)
  fix k assume k: "k < length xs"
  have "ds ! ((h + k) mod length ds) = xs ! k"
    using circD(4) [OF assms(1) k] circD(3) [OF assms(1)] by simp
  then show "xs ! k = rotate h ds ! k" using k assms(2) by (simp add: nth_rotate add.commute)
qed (simp add: assms(2))

lemma RingBufferClear_rep:
  assumes "rb_rep b xs"
  shows "\<exists>b' gone. RingBufferClear b = Ok (b', gone) \<and> rb_rep b' [] \<and> rb_frame b' = rb_frame b
    \<and> mset gone = (if rb_destroy b then mset (filter (\<lambda>x. x \<noteq> NULL) xs) else {#})"
proof (cases "rb_destroy b")
  case False
  with rb_repD [OF assms] show ?thesis
    by (auto simp: RingBufferClear_def rb_rep_def rb_start_def rb_frame_def)
next
  case True
  note r = rb_repD [OF assms]
  let ?n = "rb_capacity b"
  obtain ds where ds: "rb_data b = map Val ds"
    using r(8) by (metis cell.exhaust ex_map_conv)
  have len: "length ds = ?n" using ds r(1) by simp
  have "mset (filter (\<lambda>x. x \<noteq> NULL) ds) = mset (filter (\<lambda>x. x \<noteq> NULL) xs)"
  proof (cases "length xs = ?n")
    case True
    then have "xs = rotate (rb_end b) ds"
      using circ_full_rotate [of ds "rb_end b" xs] r(3,7) ds len by (simp add: rb_start_def)
    then have "mset xs = mset ds"
      by (metis append_take_drop_id mset_append rotate_drop_take union_commute)
    then show ?thesis by (simp only: mset_filter)
  next
    case False
    have "ds ! k = xs ! k" if "k < length xs" for k
      using circD(4) [OF r(7) that] that r(3,4) ds len False by (simp add: rb_start_def)
    moreover have "ds ! k = NULL" if "length xs \<le> k" "k < ?n" for k
      using r(9) True that ds len by auto
    ultimately have "ds = xs @ replicate (?n - length xs) NULL"
      using len r(4) by (intro nth_equalityI) (auto simp: nth_append)
    then show ?thesis by simp
  qed
  moreover have "RingBufferClear_loop (rb_data b) ?n 0
      = Ok (map Val (replicate ?n NULL), filter (\<lambda>x. x \<noteq> NULL) ds)"
    using RingBufferClear_loop_ok [of "rb_data b" ?n 0 ds] r(1) ds by simp
  ultimately show ?thesis using True r(1,2)
    by (auto simp: RingBufferClear_def rb_rep_def rb_start_def rb_frame_def)
qed

section \<open>Properties\<close>

text \<open>
  C16: A ring buffer of capacity \<open>n\<close> keeps the last \<open>n\<close> of the items appended to it (as its copy
  function made them), oldest first for the iterator, which then returns NULL, with the newest as
  its head; the destructor has been called, oldest first, on exactly the non-NULL items that were
  pushed out. Nothing faults on the way.
\<close>

theorem RingBuffer_keeps_last:
  assumes "0 < n"
  shows "\<exists>b0 b. RingBufferNew n copy destroy = Ok b0
    \<and> RingBufferAppend_all b0 items = Ok (b,
        if destroy then filter (\<lambda>x. x \<noteq> NULL) (but_last_n n (map (rb_stored b0) items)) else [])
    \<and> RingBufferIterate b (RingBufferIteratorNew b) (Suc (RingBufferLength b))
        = Ok (last_n n (map (rb_stored b0) items) @ [NULL])
    \<and> RingBufferLength b = min n (length items)
    \<and> RingBufferHead b = Ok (if items = [] then NULL else rb_stored b0 (last items))"
proof -
  from RingBufferNew_rep [OF assms, of copy destroy] obtain b0 where
    b0: "RingBufferNew n copy destroy = Ok b0" "rb_rep b0 []" "rb_frame b0 = (copy, destroy, n)" by blast
  let ?ys = "map (rb_stored b0) items"
  from RingBufferAppend_all_rep [OF b0(2), of items] b0(3) obtain b where
    b: "RingBufferAppend_all b0 items
        = Ok (b, if destroy then filter (\<lambda>x. x \<noteq> NULL) (but_last_n n ?ys) else [])"
      "rb_rep b (last_n n ?ys)" by (auto simp: rb_frame_def)
  have len: "RingBufferLength b = length (last_n n ?ys)"
    using rb_repD(3) [OF b(2)] by (simp add: RingBufferLength_def)
  have "RingBufferIterate b (RingBufferIteratorNew b) (Suc (RingBufferLength b))
      = Ok (last_n n ?ys @ [NULL])"
    using RingBufferIterate_eq [OF b(2), of 0] len by (simp add: RingBufferIteratorNew_def)
  moreover have "RingBufferHead b = Ok (if items = [] then NULL else rb_stored b0 (last items))"
    using RingBufferHead_eq [OF b(2)] assms
    by (cases items rule: rev_cases) (auto simp: last_n_def last_drop last_map)
  ultimately show ?thesis using b0(1) b(1) len by (auto simp: last_n_def min_def)
qed

theorem RingBuffer_keeps_last_witness:
  "\<exists>b0 b. RingBufferNew 2 None True = Ok b0
    \<and> RingBufferAppend_all b0 [Ptr (1 :: nat), Ptr 2, Ptr 3] = Ok (b, [Ptr 1])
    \<and> RingBufferIterate b (RingBufferIteratorNew b) 3 = Ok [Ptr 2, Ptr 3, NULL]
    \<and> RingBufferHead b = Ok (Ptr 3)"
proof -
  have two: "0 < (2 :: nat)" by simp
  have "RingBufferNew 2 None True = Ok b0 \<Longrightarrow> rb_stored b0 = (\<lambda>x. x)" for b0 :: "nat RingBuffer"
    by (auto simp: RingBufferNew_def rb_stored_def)
  with RingBuffer_keeps_last [OF two, of None True "[Ptr (1 :: nat), Ptr 2, Ptr 3]"] show ?thesis
    by (auto simp: but_last_n_def last_n_def numeral_eq_Suc)
qed

text \<open>
  Ownership in a ring buffer. With a destructor, appending any items and then destroying the
  buffer passes every non-NULL stored item to the destructor exactly once.
\<close>

theorem RingBuffer_ownership:
  assumes "0 < n"
  shows "\<exists>b0 b gone rest. RingBufferNew n copy True = Ok b0
    \<and> RingBufferAppend_all b0 items = Ok (b, gone) \<and> RingBufferDestroy b = Ok rest
    \<and> mset (gone @ rest) = mset (filter (\<lambda>x. x \<noteq> NULL) (map (rb_stored b0) items))"
proof -
  from RingBufferNew_rep [OF assms, of copy True] obtain b0 where
    b0: "RingBufferNew n copy True = Ok b0" "rb_rep b0 []" "rb_frame b0 = (copy, True, n)" by blast
  let ?ys = "map (rb_stored b0) items"
  from RingBufferAppend_all_rep [OF b0(2), of items] b0(3) obtain b where
    b: "RingBufferAppend_all b0 items = Ok (b, filter (\<lambda>x. x \<noteq> NULL) (but_last_n n ?ys))"
      "rb_rep b (last_n n ?ys)" "rb_destroy b" by (auto simp: rb_frame_def)
  from RingBufferClear_rep [OF b(2)] b(3) obtain b' rest where
    rest: "RingBufferClear b = Ok (b', rest)" "mset rest = mset (filter (\<lambda>x. x \<noteq> NULL) (last_n n ?ys))"
    by auto
  have "mset (filter (\<lambda>x. x \<noteq> NULL) (but_last_n n ?ys) @ rest)
      = mset (filter (\<lambda>x. x \<noteq> NULL) (but_last_n n ?ys @ last_n n ?ys))"
    using rest(2) by simp
  then show ?thesis using b0(1) b(1) rest(1)
    by (auto simp: RingBufferDestroy_def but_last_n_append_last_n)
qed

theorem RingBuffer_ownership_witness:
  "\<exists>b0 b gone rest. RingBufferNew 1 None True = Ok b0
    \<and> RingBufferAppend_all b0 [Ptr True, NULL] = Ok (b, gone) \<and> RingBufferDestroy b = Ok rest
    \<and> mset (gone @ rest) = mset (filter (\<lambda>x. x \<noteq> NULL) (map (rb_stored b0) [Ptr True, NULL]))"
  by (rule RingBuffer_ownership) simp

end
