(* ===== verification/StackLib.thy ===== *)
theory StackLib
  imports Prelude
begin

text \<open>
  The stacks of libutils: stack.c and stack_base.c (\<open>Stack\<close>), and the lock-protected
  threaded_stack.c (\<open>ThreadedStack\<close>), whose operations run the \<open>Stack\<close> operation between
  ThreadLock and ThreadUnlock. Each such operation is one critical section, modelled as one
  function on the state the lock protects; interleavings are the subject of theory Monitor.
\<close>

section \<open>stack\_base.c and stack.c\<close>

definition STACK_EXPAND_FACTOR :: nat where
  "STACK_EXPAND_FACTOR = 2"

definition STACK_DEFAULT_CAPACITY :: nat where
  "STACK_DEFAULT_CAPACITY = 16"

record 'a Stack =
  st_ItemDestroy :: bool
  st_data :: "'a ptr carray"
  st_size :: nat
  st_capacity :: nat

definition StackInit :: "nat \<Rightarrow> bool \<Rightarrow> 'a Stack" where
  "StackInit initial_capacity ItemDestroy =
     (let cap = (if initial_capacity = 0 then STACK_DEFAULT_CAPACITY else initial_capacity)
      in \<lparr>st_ItemDestroy = ItemDestroy, st_data = xcalloc cap NULL, st_size = 0, st_capacity = cap\<rparr>)"

definition StackNew :: "nat \<Rightarrow> bool \<Rightarrow> 'a Stack" where
  "StackNew initial_capacity ItemDestroy = StackInit initial_capacity ItemDestroy"

definition Stack_DestroyRange :: "'a Stack \<Rightarrow> nat \<Rightarrow> nat \<Rightarrow> 'a ptr list res" where
  "Stack_DestroyRange stack start stop =
     (if start > st_capacity stack \<or> stop > st_capacity stack then Ok []
      else if st_ItemDestroy stack then cread_range (st_data stack) start (stop - start)
      else Ok [])"

definition StackDestroy :: "'a Stack \<Rightarrow> 'a ptr list res" where
  "StackDestroy stack = Stack_DestroyRange stack 0 (st_size stack)"

definition StackPop :: "'a Stack \<Rightarrow> ('a ptr \<times> 'a Stack) res" where
  "StackPop stack =
     (if st_size stack > 0
      then let size = st_size stack - 1
           in bindE (cread (st_data stack) size) (\<lambda>item.
              bindE (cwrite (st_data stack) size NULL) (\<lambda>d.
              Ok (item, stack\<lparr>st_data := d, st_size := size\<rparr>)))
      else Ok (NULL, stack))"

definition StackTop :: "'a Stack \<Rightarrow> 'a ptr res" where
  "StackTop stack =
     (if st_size stack > 0 then cread (st_data stack) (st_size stack - 1) else Ok NULL)"

definition Stack_ExpandIfNecessary :: "'a Stack \<Rightarrow> 'a Stack res" where
  "Stack_ExpandIfNecessary stack =
     bindE (c_assert (st_size stack \<le> st_capacity stack)) (\<lambda>_.
     if st_size stack = st_capacity stack
     then let cap = st_capacity stack * STACK_EXPAND_FACTOR
          in Ok (stack\<lparr>st_capacity := cap, st_data := xrealloc (st_data stack) cap\<rparr>)
     else Ok stack)"

definition StackPush :: "'a Stack \<Rightarrow> 'a ptr \<Rightarrow> 'a Stack res" where
  "StackPush stack item =
     bindE (Stack_ExpandIfNecessary stack) (\<lambda>s.
     bindE (cwrite (st_data s) (st_size s) item) (\<lambda>d.
     Ok (s\<lparr>st_data := d, st_size := st_size s + 1\<rparr>)))"

definition StackPushReportCount :: "'a Stack \<Rightarrow> 'a ptr \<Rightarrow> (nat \<times> 'a Stack) res" where
  "StackPushReportCount stack item =
     bindE (Stack_ExpandIfNecessary stack) (\<lambda>s.
     bindE (cwrite (st_data s) (st_size s) item) (\<lambda>d.
     let s' = s\<lparr>st_data := d, st_size := st_size s + 1\<rparr> in Ok (st_size s', s')))"

definition StackCount :: "'a Stack \<Rightarrow> nat" where
  "StackCount stack = st_size stack"

definition StackCapacity :: "'a Stack \<Rightarrow> nat" where
  "StackCapacity stack = st_capacity stack"

definition StackIsEmpty :: "'a Stack \<Rightarrow> bool" where
  "StackIsEmpty stack \<longleftrightarrow> st_size stack = 0"

text \<open>\<open>xmalloc\<close> of the capacity, then \<open>memcpy\<close> of the \<open>size\<close> cells in use.\<close>

definition StackCopy :: "'a Stack \<Rightarrow> 'a Stack res" where
  "StackCopy stack =
     (if st_size stack \<le> length (st_data stack) \<and> st_size stack \<le> st_capacity stack
      then Ok (stack\<lparr>st_data := take (st_size stack) (st_data stack)
                 @ drop (st_size stack) (xmalloc (st_capacity stack))\<rparr>)
      else Fault OutOfBounds)"

section \<open>threaded\_stack.c\<close>

text \<open>
  \<open>mutex_init_ok\<close> is the outcome of \<open>pthread_mutex_init\<close>: creating or copying a threaded stack
  returns NULL when it fails. The lock itself is not part of the value.
\<close>

record 'a ThreadedStack =
  ts_base :: "'a Stack"

definition ThreadedStackNew :: "bool \<Rightarrow> nat \<Rightarrow> bool \<Rightarrow> 'a ThreadedStack ptr" where
  "ThreadedStackNew mutex_init_ok initial_capacity ItemDestroy =
     (if mutex_init_ok then Ptr \<lparr>ts_base = StackInit initial_capacity ItemDestroy\<rparr> else NULL)"

definition ThreadedStackDestroy :: "'a ThreadedStack \<Rightarrow> 'a ptr list res" where
  "ThreadedStackDestroy stack = Stack_DestroyRange (ts_base stack) 0 (st_size (ts_base stack))"

definition ThreadedStackPop :: "'a ThreadedStack \<Rightarrow> ('a ptr \<times> 'a ThreadedStack) res" where
  "ThreadedStackPop stack =
     bindE (StackPop (ts_base stack)) (\<lambda>(item, b). Ok (item, stack\<lparr>ts_base := b\<rparr>))"

definition ThreadedStackPush :: "'a ThreadedStack \<Rightarrow> 'a ptr \<Rightarrow> 'a ThreadedStack res" where
  "ThreadedStackPush stack item =
     bindE (StackPush (ts_base stack) item) (\<lambda>b. Ok (stack\<lparr>ts_base := b\<rparr>))"

definition ThreadedStackPushReportCount ::
  "'a ThreadedStack \<Rightarrow> 'a ptr \<Rightarrow> (nat \<times> 'a ThreadedStack) res" where
  "ThreadedStackPushReportCount stack item =
     bindE (StackPushReportCount (ts_base stack) item) (\<lambda>(size, b). Ok (size, stack\<lparr>ts_base := b\<rparr>))"

definition ThreadedStackCount :: "'a ThreadedStack \<Rightarrow> nat" where
  "ThreadedStackCount stack = StackCount (ts_base stack)"

definition ThreadedStackCapacity :: "'a ThreadedStack \<Rightarrow> nat" where
  "ThreadedStackCapacity stack = StackCapacity (ts_base stack)"

definition ThreadedStackIsEmpty :: "'a ThreadedStack \<Rightarrow> bool" where
  "ThreadedStackIsEmpty stack = StackIsEmpty (ts_base stack)"

definition ThreadedStackCopy :: "bool \<Rightarrow> 'a ThreadedStack \<Rightarrow> 'a ThreadedStack ptr res" where
  "ThreadedStackCopy mutex_init_ok stack =
     bindE (StackCopy (ts_base stack)) (\<lambda>b.
     Ok (if mutex_init_ok then Ptr (stack\<lparr>ts_base := b\<rparr>) else NULL))"

section \<open>Representation\<close>

definition stack_rep :: "'a Stack \<Rightarrow> 'a ptr list \<Rightarrow> bool" where
  "stack_rep s xs \<longleftrightarrow> stores (st_data s) xs \<and> length xs = st_size s
     \<and> length (st_data s) = st_capacity s \<and> 0 < st_capacity s"

lemma stack_repD:
  assumes "stack_rep s xs"
  shows "stores (st_data s) xs" "st_size s = length xs" "length (st_data s) = st_capacity s"
    "length xs \<le> st_capacity s" "0 < st_capacity s"
  using assms stores_length [of "st_data s" xs] by (auto simp: stack_rep_def)

lemma StackInit_rep: "stack_rep (StackInit n d) [] \<and> st_ItemDestroy (StackInit n d) = d"
  by (simp add: StackInit_def stack_rep_def STACK_DEFAULT_CAPACITY_def Let_def)

lemma Stack_ExpandIfNecessary_rep:
  assumes "stack_rep s xs"
  shows "\<exists>s'. Stack_ExpandIfNecessary s = Ok s' \<and> stack_rep s' xs \<and> st_size s' < st_capacity s'
    \<and> st_ItemDestroy s' = st_ItemDestroy s"
  using stack_repD [OF assms] assms
  by (auto simp: Stack_ExpandIfNecessary_def STACK_EXPAND_FACTOR_def stack_rep_def Let_def)

lemma StackPush_rep:
  assumes "stack_rep s xs"
  shows "\<exists>s'. StackPush s x = Ok s' \<and> stack_rep s' (xs @ [x]) \<and> st_ItemDestroy s' = st_ItemDestroy s"
proof -
  from Stack_ExpandIfNecessary_rep [OF assms] obtain t where t:
    "Stack_ExpandIfNecessary s = Ok t" "stack_rep t xs" "st_size t < st_capacity t"
    "st_ItemDestroy t = st_ItemDestroy s" by blast
  note r = stack_repD [OF t(2)]
  have "stores ((st_data t)[length xs := Val x]) (xs @ [x])"
    using r t(3) by (intro stores_snoc) auto
  with t r show ?thesis by (simp add: StackPush_def stack_rep_def)
qed

lemma StackPushReportCount_eq:
  "StackPushReportCount s x = bindE (StackPush s x) (\<lambda>s'. Ok (StackCount s', s'))"
  by (simp add: StackPushReportCount_def StackPush_def StackCount_def bindE_assoc)

lemma StackPop_rep:
  assumes "stack_rep s (xs @ [x])"
  shows "\<exists>s'. StackPop s = Ok (x, s') \<and> stack_rep s' xs \<and> st_ItemDestroy s' = st_ItemDestroy s"
proof -
  note r = stack_repD [OF assms]
  have "stores ((st_data s)[length xs := Val NULL]) xs"
    using stores_take [OF stores_update [OF r(1), of "length xs" NULL], of "length xs"] by simp
  moreover have "cread (st_data s) (length xs) = Ok x" using r(1) by simp
  ultimately show ?thesis using r by (simp add: StackPop_def stack_rep_def Let_def)
qed

lemma StackPop_empty: "stack_rep s [] \<Longrightarrow> StackPop s = Ok (NULL, s)"
  using stack_repD(2) [of s "[]"] by (simp add: StackPop_def)

interpretation stk: lifo stack_rep StackPush st_ItemDestroy StackPop
  by unfold_locales (auto simp: StackPush_rep StackPop_rep StackPop_empty)

lemma StackTop_eq:
  "stack_rep s xs \<Longrightarrow> StackTop s = Ok (if xs = [] then NULL else last xs)"
  using stack_repD [of s xs] by (simp add: StackTop_def last_conv_nth)

lemma StackDestroy_eq:
  "stack_rep s xs \<Longrightarrow> StackDestroy s = Ok (if st_ItemDestroy s then xs else [])"
  using stack_repD [of s xs] by (simp add: StackDestroy_def Stack_DestroyRange_def)

lemma StackCopy_rep:
  assumes "stack_rep s xs"
  shows "\<exists>c. StackCopy s = Ok c \<and> stack_rep c xs \<and> st_ItemDestroy c = st_ItemDestroy s
    \<and> StackCapacity c = StackCapacity s"
  using stack_repD [OF assms]
  by (simp add: StackCopy_def stack_rep_def stores_def StackCapacity_def)

section \<open>The threaded stack inherits the contract\<close>

definition tstack_rep :: "'a ThreadedStack \<Rightarrow> 'a ptr list \<Rightarrow> bool" where
  "tstack_rep s xs \<longleftrightarrow> stack_rep (ts_base s) xs"

lemma ThreadedStackPush_rep:
  assumes "tstack_rep s xs"
  shows "\<exists>s'. ThreadedStackPush s x = Ok s' \<and> tstack_rep s' (xs @ [x])
    \<and> st_ItemDestroy (ts_base s') = st_ItemDestroy (ts_base s)"
  using StackPush_rep [of "ts_base s" xs x] assms
  by (auto simp: ThreadedStackPush_def tstack_rep_def)

lemma ThreadedStackPop_rep:
  assumes "tstack_rep s (xs @ [x])"
  shows "\<exists>s'. ThreadedStackPop s = Ok (x, s') \<and> tstack_rep s' xs
    \<and> st_ItemDestroy (ts_base s') = st_ItemDestroy (ts_base s)"
  using StackPop_rep [of "ts_base s" xs x] assms
  by (auto simp: ThreadedStackPop_def tstack_rep_def)

lemma ThreadedStackPop_empty: "tstack_rep s [] \<Longrightarrow> ThreadedStackPop s = Ok (NULL, s)"
  by (simp add: ThreadedStackPop_def tstack_rep_def StackPop_empty)

interpretation tstk: lifo tstack_rep ThreadedStackPush "\<lambda>s. st_ItemDestroy (ts_base s)" ThreadedStackPop
  by unfold_locales (auto simp: ThreadedStackPush_rep ThreadedStackPop_rep ThreadedStackPop_empty)

section \<open>Properties\<close>

text \<open>
  Push and pop. Pushing items on a threaded stack and popping as many returns the items in
  reverse order and leaves the stack as it was, through every reallocation on the way; popping an
  empty stack returns NULL and changes nothing.
\<close>

theorem ThreadedStack_push_pop:
  assumes "tstack_rep s xs"
  shows "\<exists>s1 s2. run_all ThreadedStackPush s ys = Ok s1 \<and> take_n ThreadedStackPop s1 (length ys) = Ok (rev ys, s2)
    \<and> tstack_rep s2 xs \<and> (xs = [] \<longrightarrow> ThreadedStackPop s2 = Ok (NULL, s2))"
  using tstk.push_pop_roundtrip [OF assms, of ys] tstk.pop_empty by blast

theorem ThreadedStack_push_pop_witness:
  "\<exists>s1 s2. run_all ThreadedStackPush (the (ThreadedStackNew True 1 True)) [Ptr (CHR ''x''), NULL] = Ok s1
    \<and> take_n ThreadedStackPop s1 2 = Ok ([NULL, Ptr (CHR ''x'')], s2) \<and> ThreadedStackPop s2 = Ok (NULL, s2)"
proof -
  have "tstack_rep (the (ThreadedStackNew True 1 True)) []"
    using StackInit_rep by (auto simp: ThreadedStackNew_def tstack_rep_def)
  from ThreadedStack_push_pop [OF this, of "[Ptr (CHR ''x''), NULL]"] show ?thesis
    by (simp add: numeral_2_eq_2) blast
qed

end
