(* ===== verification/QueueLib.thy ===== *)
theory QueueLib
  imports Nodes
begin

text \<open>
  The doubly linked queue of libutils/queue.c, on a store of nodes. \<open>queue_rep q xs\<close> ties the pointers, the node count
  and the store to the item list: the nodes of the queue are linked both ways, and the store holds
  these nodes and no others.
\<close>

section \<open>Data\<close>

type_synonym 'a QueueNode = "'a ptr dnode"

record 'a Queue =
  q_node_count :: nat
  q_destroy :: bool
  q_head :: "addr ptr"
  q_tail :: "addr ptr"
  q_store :: "addr \<rightharpoonup> 'a QueueNode"
  q_fresh :: addr

section \<open>Operations\<close>

definition QueueNew :: "bool \<Rightarrow> 'a Queue" where
  "QueueNew item_destroy =
     \<lparr>q_node_count = 0, q_destroy = item_destroy, q_head = NULL, q_tail = NULL,
      q_store = Map.empty, q_fresh = 0\<rparr>"

fun QueueDestroy_loop ::
  "nat \<Rightarrow> bool \<Rightarrow> (addr \<rightharpoonup> 'a QueueNode) \<Rightarrow> addr ptr \<Rightarrow> ('a ptr list \<times> (addr \<rightharpoonup> 'a QueueNode)) res" where
  "QueueDestroy_loop 0 destroy h current = (if current = NULL then Ok ([], h) else Fault OutOfFuel)"
| "QueueDestroy_loop (Suc fuel) destroy h current =
     (if current = NULL then Ok ([], h)
      else bindE (deref h current) (\<lambda>(a, node).
           bindE (QueueDestroy_loop fuel destroy (h(a := None)) (dn_next node)) (\<lambda>(gone, h').
           Ok (if destroy then dn_data node # gone else gone, h'))))"

text \<open>At most \<open>q_fresh\<close> nodes were ever allocated, which bounds the loop.\<close>

definition QueueDestroy :: "'a Queue \<Rightarrow> ('a ptr list \<times> (addr \<rightharpoonup> 'a QueueNode)) res" where
  "QueueDestroy q = QueueDestroy_loop (q_fresh q) (q_destroy q) (q_store q) (q_head q)"

definition QueueNodeNew :: "'a ptr \<Rightarrow> 'a QueueNode" where
  "QueueNodeNew element = \<lparr>dn_data = element, dn_next = NULL, dn_previous = NULL\<rparr>"

definition QueueEnqueue :: "'a Queue \<Rightarrow> 'a ptr \<Rightarrow> 'a Queue res" where
  "QueueEnqueue q element =
     (let node = q_fresh q;
          h = (q_store q)(node \<mapsto> QueueNodeNew element)
      in case q_tail q of
           Ptr t \<Rightarrow>
             bindE (deref h (Ptr t)) (\<lambda>(_, tn).
             let h' = h(t \<mapsto> tn\<lparr>dn_next := Ptr node\<rparr>)
             in bindE (deref h' (Ptr node)) (\<lambda>(_, nn).
                Ok (q\<lparr>q_store := h'(node \<mapsto> nn\<lparr>dn_previous := Ptr t\<rparr>), q_tail := Ptr node,
                      q_fresh := node + 1, q_node_count := q_node_count q + 1\<rparr>)))
         | NULL \<Rightarrow>
             Ok (q\<lparr>q_store := h, q_tail := Ptr node, q_head := Ptr node,
                   q_fresh := node + 1, q_node_count := q_node_count q + 1\<rparr>))"

definition QueueDequeue :: "'a Queue \<Rightarrow> ('a ptr \<times> 'a Queue) res" where
  "QueueDequeue q =
     bindE (deref (q_store q) (q_head q)) (\<lambda>(a, node).
     let h = dn_next node
     in bindE (if h \<noteq> NULL
               then bindE (deref (q_store q) h) (\<lambda>(b, hn).
                    Ok (q\<lparr>q_head := h, q_store := (q_store q)(b \<mapsto> hn\<lparr>dn_previous := NULL\<rparr>)\<rparr>))
               else Ok (q\<lparr>q_head := NULL, q_tail := NULL\<rparr>)) (\<lambda>q'.
        Ok (dn_data node,
            q'\<lparr>q_node_count := q_node_count q - 1, q_store := (q_store q')(a := None)\<rparr>)))"

definition QueueHead :: "'a Queue \<Rightarrow> 'a ptr res" where
  "QueueHead q = bindE (deref (q_store q) (q_head q)) (\<lambda>(_, node). Ok (dn_data node))"

definition QueueCount :: "'a Queue \<Rightarrow> int" where
  "QueueCount q = int_of_size (q_node_count q)"

definition QueueIsEmpty :: "'a Queue \<Rightarrow> bool" where
  "QueueIsEmpty q \<longleftrightarrow> q_node_count q = 0"

section \<open>Representation\<close>

definition queue_rep :: "'a Queue \<Rightarrow> 'a ptr list \<Rightarrow> bool" where
  "queue_rep q xs \<longleftrightarrow> (\<exists>as. chain (q_store q) NULL as xs \<and> distinct as \<and> dom (q_store q) = set as
     \<and> q_head q = first_of as \<and> q_tail q = last_or NULL as \<and> q_node_count q = length xs
     \<and> (\<forall>a \<in> set as. a < q_fresh q))"

section \<open>Operations on represented queues\<close>

lemma QueueNew_rep: "queue_rep (QueueNew d) []"
  by (simp add: queue_rep_def QueueNew_def)

lemma QueueEnqueue_rep:
  assumes "queue_rep q xs"
  shows "\<exists>q'. QueueEnqueue q x = Ok q' \<and> queue_rep q' (xs @ [x]) \<and> q_destroy q' = q_destroy q"
proof -
  from assms obtain as where as: "chain (q_store q) NULL as xs" "distinct as"
    "dom (q_store q) = set as" "q_head q = first_of as" "q_tail q = last_or NULL as"
    "q_node_count q = length xs" "\<forall>a \<in> set as. a < q_fresh q" by (auto simp: queue_rep_def)
  let ?n = "q_fresh q"
  have fresh: "?n \<notin> set as" using as(7) by auto
  show ?thesis
  proof (cases as rule: rev_cases)
    case Nil
    with as have "queue_rep (q\<lparr>q_store := (q_store q)(?n \<mapsto> QueueNodeNew x), q_tail := Ptr ?n,
        q_head := Ptr ?n, q_fresh := ?n + 1, q_node_count := q_node_count q + 1\<rparr>) (xs @ [x])"
      by (auto simp: queue_rep_def QueueNodeNew_def intro!: exI [of _ "[?n]"])
    with Nil as show ?thesis by (simp add: QueueEnqueue_def Let_def)
  next
    case (snoc bs t)
    from chain_snoc [of "q_store q" NULL bs t xs ?n x] as fresh snoc obtain tn where
      tn: "q_store q t = Some tn" "chain ((q_store q)(t \<mapsto> tn\<lparr>dn_next := Ptr ?n\<rparr>,
        ?n \<mapsto> \<lparr>dn_data = x, dn_next = NULL, dn_previous = Ptr t\<rparr>)) NULL (bs @ [t, ?n]) (xs @ [x])"
      by auto
    have tn_neq: "t \<noteq> ?n" using fresh snoc by auto
    let ?h = "(q_store q)(t \<mapsto> tn\<lparr>dn_next := Ptr ?n\<rparr>,
      ?n \<mapsto> \<lparr>dn_data = x, dn_next = NULL, dn_previous = Ptr t\<rparr>)"
    let ?q = "q\<lparr>q_store := ?h, q_tail := Ptr ?n, q_fresh := ?n + 1, q_node_count := q_node_count q + 1\<rparr>"
    have "queue_rep ?q (xs @ [x])"
      using as fresh snoc tn tn_neq unfolding queue_rep_def
      by (intro exI [of _ "bs @ [t, ?n]"]) (auto simp: less_Suc_eq)
    moreover have "QueueEnqueue q x = Ok ?q"
      using as(5) snoc tn(1) tn_neq
      by (auto simp: QueueEnqueue_def deref_def QueueNodeNew_def Let_def fun_upd_twist)
    ultimately show ?thesis by auto
  qed
qed

lemma QueueDequeue_rep:
  assumes "queue_rep q (x # xs)"
  shows "\<exists>q'. QueueDequeue q = Ok (x, q') \<and> queue_rep q' xs \<and> q_destroy q' = q_destroy q"
proof -
  from assms obtain as where as: "chain (q_store q) NULL as (x # xs)" "distinct as"
    "dom (q_store q) = set as" "q_head q = first_of as" "q_tail q = last_or NULL as"
    "q_node_count q = length (x # xs)" "\<forall>a \<in> set as. a < q_fresh q" by (auto simp: queue_rep_def)
  then obtain a bs where ab: "as = a # bs" by (cases as) auto
  with as have a: "q_store q a = Some \<lparr>dn_data = x, dn_next = first_of bs, dn_previous = NULL\<rparr>"
    "chain (q_store q) (Ptr a) bs xs" by auto
  show ?thesis
  proof (cases bs)
    case Nil
    let ?q = "q\<lparr>q_head := NULL, q_tail := NULL, q_node_count := q_node_count q - 1,
      q_store := (q_store q)(a := None)\<rparr>"
    have "queue_rep ?q xs" using as ab a Nil by (auto simp: queue_rep_def intro!: exI [of _ "[]"])
    moreover have "QueueDequeue q = Ok (x, ?q)"
      using as(4) ab a Nil by (simp add: QueueDequeue_def deref_def)
    ultimately show ?thesis by auto
  next
    case (Cons b cs)
    with a obtain y ys where xs: "xs = y # ys" by (cases xs) auto
    with a Cons have b: "q_store q b = Some \<lparr>dn_data = y, dn_next = first_of cs, dn_previous = Ptr a\<rparr>"
      "chain (q_store q) (Ptr b) cs ys" by auto
    let ?h = "(q_store q)(b \<mapsto> \<lparr>dn_data = y, dn_next = first_of cs, dn_previous = NULL\<rparr>, a := None)"
    let ?q = "q\<lparr>q_head := Ptr b, q_node_count := q_node_count q - 1, q_store := ?h\<rparr>"
    have d: "a \<noteq> b" "a \<notin> set cs" "b \<notin> set cs" using as(2) ab Cons by auto
    then have "chain ?h (Ptr b) cs ys" by (intro dseg_frame [OF b(2)]) auto
    then have "chain ?h NULL (b # cs) xs" using xs d by simp
    then have "queue_rep ?q xs"
      using as ab Cons d unfolding queue_rep_def by (intro exI [of _ "b # cs"]) auto
    moreover have "QueueDequeue q = Ok (x, ?q)"
      using as(4) ab a Cons b by (simp add: QueueDequeue_def deref_def)
    ultimately show ?thesis by auto
  qed
qed

interpretation que: fifo queue_rep QueueEnqueue q_destroy QueueDequeue
  by unfold_locales (auto simp: QueueEnqueue_rep QueueDequeue_rep)

lemma QueueHead_eq:
  "queue_rep q xs \<Longrightarrow> QueueHead q = (case xs of [] \<Rightarrow> Fault NullDeref | x # _ \<Rightarrow> Ok x)"
proof -
  assume "queue_rep q xs"
  then obtain as where "chain (q_store q) NULL as xs" "q_head q = first_of as"
    by (auto simp: queue_rep_def)
  then show ?thesis by (cases as; cases xs) (auto simp: QueueHead_def deref_def)
qed

lemma QueueDequeue_empty: "queue_rep q [] \<Longrightarrow> QueueDequeue q = Fault NullDeref"
  by (auto simp: queue_rep_def QueueDequeue_def deref_def)

lemma QueueIsEmpty_eq: "queue_rep q xs \<Longrightarrow> QueueIsEmpty q \<longleftrightarrow> xs = []"
  by (auto simp: queue_rep_def QueueIsEmpty_def)

lemma QueueDestroy_loop_ok:
  "chain h p as xs \<Longrightarrow> distinct as \<Longrightarrow> length as \<le> fuel \<Longrightarrow>
   QueueDestroy_loop fuel d h (first_of as)
     = Ok (if d then xs else [], \<lambda>a. if a \<in> set as then None else h a)"
proof (induction as arbitrary: p xs h fuel)
  case Nil
  then show ?case by (cases fuel) auto
next
  case (Cons a as)
  then obtain y ys f where xs: "xs = y # ys" "fuel = Suc f" by (cases xs; cases fuel) auto
  have "chain h (Ptr a) as ys" using Cons.prems(1) xs by simp
  then have "chain (h(a := None)) (Ptr a) as ys"
    by (rule dseg_frame) (use Cons.prems(2) in auto)
  moreover have "distinct as" "length as \<le> f" using Cons.prems xs(2) by auto
  ultimately have "QueueDestroy_loop f d (h(a := None)) (first_of as)
      = Ok (if d then ys else [], \<lambda>b. if b \<in> set as then None else (h(a := None)) b)"
    by (rule Cons.IH)
  moreover have "(\<lambda>b. if b \<in> set as then None else (h(a := None)) b)
      = (\<lambda>b. if b \<in> set (a # as) then None else h b)" by auto
  moreover have "deref h (Ptr a) = Ok (a, \<lparr>dn_data = y, dn_next = first_of as, dn_previous = p\<rparr>)"
    using Cons.prems(1) xs(1) by (simp add: deref_def)
  ultimately show ?case using xs by simp
qed

lemma QueueDestroy_eq:
  assumes "queue_rep q xs"
  shows "QueueDestroy q = Ok (if q_destroy q then xs else [], Map.empty)"
proof -
  from assms obtain as where as: "chain (q_store q) NULL as xs" "distinct as"
    "dom (q_store q) = set as" "q_head q = first_of as" "\<forall>a \<in> set as. a < q_fresh q"
    by (auto simp: queue_rep_def)
  have "length as \<le> q_fresh q" using as(2,5) by (rule distinct_bounded_length)
  moreover have "(\<lambda>a. if a \<in> set as then None else q_store q a) = Map.empty"
    using as(3) by (auto simp: fun_eq_iff)
  ultimately show ?thesis using QueueDestroy_loop_ok [OF as(1,2)] as(4)
    by (simp add: QueueDestroy_def)
qed

section \<open>Properties\<close>

text \<open>
  The linked queue is first in, first out: enqueueing items and dequeueing everything returns
  the items in order, through every pointer update, and afterwards dequeueing or reading the head
  follows the NULL head pointer.
\<close>

theorem Queue_fifo:
  "\<exists>q1 q2. run_all QueueEnqueue (QueueNew d) items = Ok q1
    \<and> take_n QueueDequeue q1 (length items) = Ok (items, q2) \<and> QueueIsEmpty q2
    \<and> QueueDequeue q2 = Fault NullDeref \<and> QueueHead q2 = Fault NullDeref"
  using que.enq_deq_roundtrip [OF QueueNew_rep, of d items] QueueIsEmpty_eq QueueDequeue_empty
    QueueHead_eq by fastforce

text \<open>
  Destroying a queue releases every node and passes every item still queued to the destructor
  once, in order; no node leaks and the loop ends.
\<close>

theorem QueueDestroy_releases_all:
  "\<exists>q. run_all QueueEnqueue (QueueNew True) items = Ok q
    \<and> QueueDestroy q = Ok (items, Map.empty)"
  using que.append_all_rep [OF QueueNew_rep, of True items] QueueDestroy_eq
  by (fastforce simp: QueueNew_def)

end
