(* ===== verification/Monitor.thy ===== *)
theory Monitor
  imports Prelude
begin

text \<open>
  Lock-protected objects, the pattern of threaded_stack.c, threaded_queue.c and threaded_deque.c
  (with ThreadLock, ThreadUnlock and ThreadWait of mutex.c). Any number of threads call operations
  of one object. An operation takes the lock, runs on the object and releases the lock; an operation
  that finds its condition unmet gives the lock up in ThreadWait and tries again when it wakes,
  whether it was signalled or woken spuriously, or gives up when its timeout expires.

  \<open>exec op s\<close> is one run of an operation's critical section: \<open>Done r s'\<close>, or \<open>Wait\<close> if it has to
  wait. The step relation interleaves the threads at the points where the lock changes hands. The
  log is a ghost variable: who finished which operation with which result, in the order of the
  critical sections.
\<close>

definition THREAD_BLOCK_INDEFINITELY :: int where
  "THREAD_BLOCK_INDEFINITELY = - 1"

datatype ('r, 's) outcome = Done 'r 's | Wait

fun map_outcome :: "('r \<Rightarrow> 'q) \<Rightarrow> ('r, 's) outcome \<Rightarrow> ('q, 's) outcome" where
  "map_outcome f (Done r s) = Done (f r) s"
| "map_outcome f Wait = Wait"

definition ret_as :: "('r \<Rightarrow> 'q) \<Rightarrow> ('r, 's) outcome res \<Rightarrow> ('q, 's) outcome res" where
  "ret_as f m = bindE m (\<lambda>oc. Ok (map_outcome f oc))"

datatype 'op pc =
    Idle
  | Locked 'op
  | Waiting 'op

record ('s, 'op, 'r) monitor =
  m_object :: 's
  m_holder :: "nat option"
  m_pc :: "nat \<Rightarrow> 'op pc"
  m_log :: "('op \<times> 'r) list"

definition monitor_init :: "'s \<Rightarrow> ('s, 'op, 'r) monitor" where
  "monitor_init s = \<lparr>m_object = s, m_holder = None, m_pc = (\<lambda>_. Idle), m_log = []\<rparr>"

inductive monitor_step ::
  "('op \<Rightarrow> 's \<Rightarrow> ('r, 's) outcome res) \<Rightarrow> ('op \<Rightarrow> 'r option)
    \<Rightarrow> ('s, 'op, 'r) monitor \<Rightarrow> ('s, 'op, 'r) monitor \<Rightarrow> bool"
  for exec :: "'op \<Rightarrow> 's \<Rightarrow> ('r, 's) outcome res" and expired :: "'op \<Rightarrow> 'r option" where
  call: "m_pc m t = Idle \<Longrightarrow> m_holder m = None \<Longrightarrow>
    monitor_step exec expired m (m\<lparr>m_holder := Some t, m_pc := (m_pc m)(t := Locked op)\<rparr>)"
| finish: "m_pc m t = Locked op \<Longrightarrow> exec op (m_object m) = Ok (Done r s) \<Longrightarrow>
    monitor_step exec expired m (m\<lparr>m_object := s, m_holder := None, m_pc := (m_pc m)(t := Idle),
      m_log := m_log m @ [(op, r)]\<rparr>)"
| wait: "m_pc m t = Locked op \<Longrightarrow> exec op (m_object m) = Ok Wait \<Longrightarrow>
    monitor_step exec expired m (m\<lparr>m_holder := None, m_pc := (m_pc m)(t := Waiting op)\<rparr>)"
| wake: "m_pc m t = Waiting op \<Longrightarrow> m_holder m = None \<Longrightarrow>
    monitor_step exec expired m (m\<lparr>m_holder := Some t, m_pc := (m_pc m)(t := Locked op)\<rparr>)"
| expire: "m_pc m t = Waiting op \<Longrightarrow> m_holder m = None \<Longrightarrow> expired op = Some r \<Longrightarrow>
    monitor_step exec expired m (m\<lparr>m_pc := (m_pc m)(t := Idle), m_log := m_log m @ [(op, r)]\<rparr>)"

inductive monitor_reachable ::
  "('op \<Rightarrow> 's \<Rightarrow> ('r, 's) outcome res) \<Rightarrow> ('op \<Rightarrow> 'r option) \<Rightarrow> 's \<Rightarrow> ('s, 'op, 'r) monitor \<Rightarrow> bool"
  for exec :: "'op \<Rightarrow> 's \<Rightarrow> ('r, 's) outcome res" and expired :: "'op \<Rightarrow> 'r option" and s0 :: 's where
  start: "monitor_reachable exec expired s0 (monitor_init s0)"
| step: "monitor_reachable exec expired s0 m \<Longrightarrow> monitor_step exec expired m m' \<Longrightarrow>
    monitor_reachable exec expired s0 m'"

inductive_cases monitor_stepE: "monitor_step exec expired m m'"

section \<open>Mutual exclusion\<close>

definition lock_inv :: "('s, 'op, 'r) monitor \<Rightarrow> bool" where
  "lock_inv m \<longleftrightarrow> (\<forall>t. (\<exists>op. m_pc m t = Locked op) \<longleftrightarrow> m_holder m = Some t)"

lemma lock_inv_step: "monitor_step exec expired m m' \<Longrightarrow> lock_inv m \<Longrightarrow> lock_inv m'"
proof (induction rule: monitor_step.induct)
  case (call m t op)
  then show ?case by (auto simp: lock_inv_def)
next
  case (finish m t op r s)
  then have "m_holder m = Some t" by (auto simp: lock_inv_def)
  with finish show ?case by (auto simp: lock_inv_def)
next
  case (wait m t op)
  then have "m_holder m = Some t" by (auto simp: lock_inv_def)
  with wait show ?case by (auto simp: lock_inv_def)
next
  case (wake m t op)
  then show ?case by (auto simp: lock_inv_def)
next
  case (expire m t op r)
  then show ?case by (auto simp: lock_inv_def)
qed

lemma reachable_lock_inv: "monitor_reachable exec expired s0 m \<Longrightarrow> lock_inv m"
proof (induction rule: monitor_reachable.induct)
  case start
  show ?case by (simp add: lock_inv_def monitor_init_def)
next
  case (step m m')
  then show ?case by (blast intro: lock_inv_step)
qed

lemma mutual_exclusion:
  assumes "monitor_reachable exec expired s0 m" "m_pc m t = Locked op" "m_pc m t' = Locked op'"
  shows "t = t'"
  using reachable_lock_inv [OF assms(1)] assms(2,3) by (metis lock_inv_def option.inject)

section \<open>Linearisation\<close>

text \<open>
  \<open>replay exec expired s log s'\<close>: running the logged operations one after the other from \<open>s\<close>,
  in the order of the log, gives the logged results and ends in \<open>s'\<close>. An expired wait leaves the
  object alone.
\<close>

inductive replay ::
  "('op \<Rightarrow> 's \<Rightarrow> ('r, 's) outcome res) \<Rightarrow> ('op \<Rightarrow> 'r option) \<Rightarrow> 's \<Rightarrow> ('op \<times> 'r) list \<Rightarrow> 's \<Rightarrow> bool"
  for exec :: "'op \<Rightarrow> 's \<Rightarrow> ('r, 's) outcome res" and expired :: "'op \<Rightarrow> 'r option" and s :: 's where
  replay_nil: "replay exec expired s [] s"
| replay_run: "replay exec expired s log s1 \<Longrightarrow> exec op s1 = Ok (Done r s2) \<Longrightarrow>
    replay exec expired s (log @ [(op, r)]) s2"
| replay_expired: "replay exec expired s log s1 \<Longrightarrow> expired op = Some r \<Longrightarrow>
    replay exec expired s (log @ [(op, r)]) s1"

lemma reachable_replay:
  "monitor_reachable exec expired s0 m \<Longrightarrow> replay exec expired s0 (m_log m) (m_object m)"
proof (induction rule: monitor_reachable.induct)
  case start
  show ?case by (simp add: monitor_init_def replay.intros)
next
  case (step m m')
  from step.hyps(2) step.IH show ?case
    by (cases rule: monitor_step.cases) (auto intro: replay.intros)
qed

text \<open>\<open>follows\<close>: an outcome does what an abstract specification asks for.\<close>

definition follows ::
  "('s \<Rightarrow> 'x \<Rightarrow> bool) \<Rightarrow> ('r \<times> 'x) option \<Rightarrow> ('r, 's) outcome res \<Rightarrow> bool" where
  "follows rep sp m = (case sp of
     Some (r, x') \<Rightarrow> \<exists>s'. m = Ok (Done r s') \<and> rep s' x'
   | None \<Rightarrow> m = Ok Wait)"

lemma followsI:
  "m = Ok (Done r s') \<Longrightarrow> rep s' x' \<Longrightarrow> sp = Some (r, x') \<Longrightarrow> follows rep sp m"
  "m = Ok Wait \<Longrightarrow> sp = None \<Longrightarrow> follows rep sp m"
  by (auto simp: follows_def)

text \<open>One thread running a call to its end, while the others are idle.\<close>

lemma serial_step:
  assumes "monitor_reachable exec expired s0 m" "m_holder m = None" "m_pc m = (\<lambda>_. Idle)"
    "exec op (m_object m) = Ok (Done r s)"
  shows "monitor_reachable exec expired s0 (m\<lparr>m_object := s, m_log := m_log m @ [(op, r)]\<rparr>)"
proof -
  let ?m = "m\<lparr>m_holder := Some 0, m_pc := (m_pc m)(0 := Locked op)\<rparr>"
  have 1: "monitor_step exec expired m ?m" by (rule call) (use assms in auto)
  have 2: "monitor_step exec expired ?m (?m\<lparr>m_object := s, m_holder := None,
      m_pc := (m_pc ?m)(0 := Idle), m_log := m_log ?m @ [(op, r)]\<rparr>)"
    by (rule finish) (use assms in auto)
  have eq: "?m\<lparr>m_object := s, m_holder := None, m_pc := (m_pc ?m)(0 := Idle), m_log := m_log ?m @ [(op, r)]\<rparr>
      = m\<lparr>m_object := s, m_log := m_log m @ [(op, r)]\<rparr>"
    using assms(2,3) by (cases m) auto
  from step [OF step [OF assms(1) 1] 2] show ?thesis unfolding eq .
qed

fun serial_log :: "('op \<Rightarrow> 'x \<Rightarrow> ('r \<times> 'x) option) \<Rightarrow> 'x \<Rightarrow> ('op \<times> 'r) list \<Rightarrow> bool" where
  "serial_log spec x [] = True"
| "serial_log spec x ((op, r) # log) =
     (case spec op x of Some (r', x') \<Rightarrow> r' = r \<and> serial_log spec x' log | None \<Rightarrow> False)"

text \<open>
  An object whose critical sections keep a representation relation and follow an abstract
  specification: \<open>spec op xs\<close> relates results and next abstract states. Then the abstract object,
  run through the log, explains every reachable state, and no critical section ever faults.
\<close>

inductive spec_replay ::
  "('op \<Rightarrow> 'x \<Rightarrow> ('r \<times> 'x) option) \<Rightarrow> ('op \<Rightarrow> 'r option) \<Rightarrow> 'x \<Rightarrow> ('op \<times> 'r) list \<Rightarrow> 'x \<Rightarrow> bool"
  for spec :: "'op \<Rightarrow> 'x \<Rightarrow> ('r \<times> 'x) option" and expired :: "'op \<Rightarrow> 'r option" and x :: 'x where
  spec_nil: "spec_replay spec expired x [] x"
| spec_run: "spec_replay spec expired x log y \<Longrightarrow> spec op y = Some (r, z) \<Longrightarrow>
    spec_replay spec expired x (log @ [(op, r)]) z"
| spec_expired: "spec_replay spec expired x log y \<Longrightarrow> expired op = Some r \<Longrightarrow>
    spec_replay spec expired x (log @ [(op, r)]) y"

locale locked_object =
  fixes rep :: "'s \<Rightarrow> 'x \<Rightarrow> bool"
    and exec :: "'op \<Rightarrow> 's \<Rightarrow> ('r, 's) outcome res"
    and expired :: "'op \<Rightarrow> 'r option"
    and spec :: "'op \<Rightarrow> 'x \<Rightarrow> ('r \<times> 'x) option"
  assumes exec_spec: "rep s x \<Longrightarrow> follows rep (spec op x) (exec op s)"
begin

lemma exec_no_fault: "rep s x \<Longrightarrow> exec op s \<noteq> Fault e"
  using exec_spec [of s x op] by (auto simp: follows_def split: option.splits)

lemma replay_spec:
  "replay exec expired s log s' \<Longrightarrow> rep s x \<Longrightarrow> \<exists>x'. spec_replay spec expired x log x' \<and> rep s' x'"
proof (induction rule: replay.induct)
  case replay_nil
  then show ?case by (blast intro: spec_nil)
next
  case (replay_run log s1 op r s2)
  then obtain y where y: "spec_replay spec expired x log y" "rep s1 y" by blast
  from exec_spec [OF y(2), of op] replay_run.hyps(2) obtain z where
    "spec op y = Some (r, z)" "rep s2 z" by (auto simp: follows_def split: option.splits)
  with y(1) show ?case by (blast intro: spec_run)
next
  case (replay_expired log s1 op r)
  then show ?case by (blast intro: spec_expired)
qed

lemma linearizable:
  assumes "monitor_reachable exec expired s0 m" "rep s0 x0"
  shows "\<exists>x. spec_replay spec expired x0 (m_log m) x \<and> rep (m_object m) x"
  using replay_spec [OF reachable_replay [OF assms(1)] assms(2)] .

lemma reachable_no_fault:
  assumes "monitor_reachable exec expired s0 m" "rep s0 x0"
  shows "exec op (m_object m) \<noteq> Fault e"
  using linearizable [OF assms] exec_no_fault by blast

lemma serial_run_from:
  "serial_log spec x log \<Longrightarrow> monitor_reachable exec expired s0 m \<Longrightarrow> m_holder m = None \<Longrightarrow>
   m_pc m = (\<lambda>_. Idle) \<Longrightarrow> rep (m_object m) x \<Longrightarrow>
   \<exists>m'. monitor_reachable exec expired s0 m' \<and> m_log m' = m_log m @ log"
proof (induction log arbitrary: x m)
  case (Cons p log)
  obtain op r where p: "p = (op, r)" by (cases p)
  from Cons.prems(1) p obtain x' where x': "spec op x = Some (r, x')" "serial_log spec x' log"
    by (auto split: option.splits)
  from exec_spec [OF Cons.prems(5), of op] x'(1) obtain s where
    s: "exec op (m_object m) = Ok (Done r s)" "rep s x'" by (auto simp: follows_def)
  from Cons.IH [OF x'(2) serial_step [OF Cons.prems(2,3,4) s(1)]] Cons.prems(3,4) s(2) p
  show ?case by auto
qed auto

lemma serial_run:
  "rep s0 x \<Longrightarrow> serial_log spec x log \<Longrightarrow> \<exists>m. monitor_reachable exec expired s0 m \<and> m_log m = log"
  using serial_run_from [OF _ monitor_reachable.start, of x log s0]
  by (auto simp: monitor_init_def)

end

end
