(* ===== verification/Signals.thy ===== *)
theory Signals
  imports Monitor
begin

text \<open>
  The monitor of theory \<open>Monitor\<close> lets a waiting thread wake up at any time. Here a thread sleeps on a
  condition variable until another thread signals it: \<open>pthread_cond_signal\<close> wakes one thread that sleeps
  on the condition, \<open>pthread_cond_broadcast\<close> all of them, and spurious wake-ups remain possible. A wait with
  a time-out may expire before or after it was signalled, since \<open>pthread_cond_timedwait\<close> may consume a signal
  and report the time-out all the same. This is what is needed to ask whether a sleeping thread is ever
  woken. Every step is a step of the monitor or changes nothing there, so what holds of the monitor holds here.
\<close>

datatype condition = NonEmpty | Empty

datatype notification = Quiet | Signal condition | Broadcast condition

datatype 'op status = Resting | Running 'op | Asleep 'op | Woken 'op

record ('s, 'op, 'r) condmon =
  c_object :: 's
  c_holder :: "nat option"
  c_status :: "nat \<Rightarrow> 'op status"
  c_log :: "('op \<times> 'r) list"

definition condmon_init :: "'s \<Rightarrow> ('s, 'op, 'r) condmon" where
  "condmon_init s = \<lparr>c_object = s, c_holder = None, c_status = (\<lambda>_. Resting), c_log = []\<rparr>"

definition wake_all :: "('op \<Rightarrow> condition option) \<Rightarrow> condition \<Rightarrow> (nat \<Rightarrow> 'op status) \<Rightarrow> nat \<Rightarrow> 'op status" where
  "wake_all on c pc = (\<lambda>t. case pc t of Asleep op \<Rightarrow> if on op = Some c then Woken op else Asleep op | st \<Rightarrow> st)"

inductive notified ::
  "('op \<Rightarrow> condition option) \<Rightarrow> notification \<Rightarrow> (nat \<Rightarrow> 'op status) \<Rightarrow> (nat \<Rightarrow> 'op status) \<Rightarrow> bool"
  for on :: "'op \<Rightarrow> condition option" where
  quiet: "notified on Quiet pc pc"
| signal: "pc t = Asleep op \<Longrightarrow> on op = Some c \<Longrightarrow> notified on (Signal c) pc (pc(t := Woken op))"
| signal_nobody: "(\<And>t op. pc t = Asleep op \<Longrightarrow> on op \<noteq> Some c) \<Longrightarrow> notified on (Signal c) pc pc"
| broadcast: "notified on (Broadcast c) pc (wake_all on c pc)"

text \<open>
  \<open>inner_step\<close>: a thread that runs or was woken goes on. \<open>cond_step\<close> adds new calls (those with the
  property \<open>ok\<close>), spurious wake-ups, and time-outs of threads that sleep or were signalled: the call returns
  without looking at the object again.
\<close>

inductive inner_step ::
  "('op \<Rightarrow> 's \<Rightarrow> ('r, 's) outcome res) \<Rightarrow> ('op \<Rightarrow> condition option) \<Rightarrow> ('op \<Rightarrow> 's \<Rightarrow> notification)
    \<Rightarrow> ('s, 'op, 'r) condmon \<Rightarrow> ('s, 'op, 'r) condmon \<Rightarrow> bool"
  for exec :: "'op \<Rightarrow> 's \<Rightarrow> ('r, 's) outcome res" and on :: "'op \<Rightarrow> condition option"
    and notify :: "'op \<Rightarrow> 's \<Rightarrow> notification" where
  i_finish: "c_status m t = Running op \<Longrightarrow> exec op (c_object m) = Ok (Done r s) \<Longrightarrow>
    notified on (notify op s) ((c_status m)(t := Resting)) pc \<Longrightarrow>
    inner_step exec on notify m \<lparr>c_object = s, c_holder = None, c_status = pc, c_log = c_log m @ [(op, r)]\<rparr>"
| i_wait: "c_status m t = Running op \<Longrightarrow> exec op (c_object m) = Ok Wait \<Longrightarrow>
    inner_step exec on notify m (m\<lparr>c_holder := None, c_status := (c_status m)(t := Asleep op)\<rparr>)"
| i_wake: "c_status m t = Woken op \<Longrightarrow> c_holder m = None \<Longrightarrow>
    inner_step exec on notify m (m\<lparr>c_holder := Some t, c_status := (c_status m)(t := Running op)\<rparr>)"

inductive cond_step ::
  "('op \<Rightarrow> 's \<Rightarrow> ('r, 's) outcome res) \<Rightarrow> ('op \<Rightarrow> 'r option) \<Rightarrow> ('op \<Rightarrow> condition option) \<Rightarrow> ('op \<Rightarrow> 's \<Rightarrow> notification)
    \<Rightarrow> ('op \<Rightarrow> bool) \<Rightarrow> ('s, 'op, 'r) condmon \<Rightarrow> ('s, 'op, 'r) condmon \<Rightarrow> bool"
  for exec :: "'op \<Rightarrow> 's \<Rightarrow> ('r, 's) outcome res" and expired :: "'op \<Rightarrow> 'r option" and on :: "'op \<Rightarrow> condition option"
    and notify :: "'op \<Rightarrow> 's \<Rightarrow> notification" and ok :: "'op \<Rightarrow> bool" where
  c_inner: "inner_step exec on notify m m' \<Longrightarrow> cond_step exec expired on notify ok m m'"
| c_call: "c_status m t = Resting \<Longrightarrow> c_holder m = None \<Longrightarrow> ok op \<Longrightarrow>
    cond_step exec expired on notify ok m (m\<lparr>c_holder := Some t, c_status := (c_status m)(t := Running op)\<rparr>)"
| c_spurious: "c_status m t = Asleep op \<Longrightarrow>
    cond_step exec expired on notify ok m (m\<lparr>c_status := (c_status m)(t := Woken op)\<rparr>)"
| c_expire: "c_status m t = Asleep op \<or> c_status m t = Woken op \<Longrightarrow> c_holder m = None \<Longrightarrow> expired op = Some r \<Longrightarrow>
    cond_step exec expired on notify ok m (m\<lparr>c_status := (c_status m)(t := Resting), c_log := c_log m @ [(op, r)]\<rparr>)"

inductive cond_reachable ::
  "('op \<Rightarrow> 's \<Rightarrow> ('r, 's) outcome res) \<Rightarrow> ('op \<Rightarrow> 'r option) \<Rightarrow> ('op \<Rightarrow> condition option) \<Rightarrow> ('op \<Rightarrow> 's \<Rightarrow> notification)
    \<Rightarrow> ('op \<Rightarrow> bool) \<Rightarrow> 's \<Rightarrow> ('s, 'op, 'r) condmon \<Rightarrow> bool"
  for exec :: "'op \<Rightarrow> 's \<Rightarrow> ('r, 's) outcome res" and expired :: "'op \<Rightarrow> 'r option" and on :: "'op \<Rightarrow> condition option"
    and notify :: "'op \<Rightarrow> 's \<Rightarrow> notification" and ok :: "'op \<Rightarrow> bool" and s0 :: 's where
  c_start: "cond_reachable exec expired on notify ok s0 (condmon_init s0)"
| c_step: "cond_reachable exec expired on notify ok s0 m \<Longrightarrow> cond_step exec expired on notify ok m m' \<Longrightarrow>
    cond_reachable exec expired on notify ok s0 m'"

inductive_cases inner_stepE: "inner_step exec on notify m m'"
inductive_cases cond_stepE: "cond_step exec expired on notify ok m m'"

section \<open>The monitor behind it\<close>

fun pc_of :: "'op status \<Rightarrow> 'op pc" where
  "pc_of Resting = Idle"
| "pc_of (Running op) = Locked op"
| "pc_of (Asleep op) = Waiting op"
| "pc_of (Woken op) = Waiting op"

definition monitor_of :: "('s, 'op, 'r) condmon \<Rightarrow> ('s, 'op, 'r) monitor" where
  "monitor_of m = \<lparr>m_object = c_object m, m_holder = c_holder m, m_pc = pc_of \<circ> c_status m, m_log = c_log m\<rparr>"

lemma notified_pc: "notified on n pc pc' \<Longrightarrow> pc_of \<circ> pc' = pc_of \<circ> pc"
  by (induction rule: notified.induct) (auto simp: fun_eq_iff wake_all_def split: status.split)

lemma comp_upd: "f \<circ> g(t := x) = (f \<circ> g)(t := f x)"
  by (auto simp: fun_eq_iff)

lemma inner_step_monitor:
  assumes "inner_step exec on notify m m'"
  shows "monitor_step exec expired (monitor_of m) (monitor_of m')"
  using assms
proof (cases rule: inner_step.cases)
  case (i_finish t op r s pc)
  have "m_pc (monitor_of m) t = Locked op" "exec op (m_object (monitor_of m)) = Ok (Done r s)"
    using i_finish by (simp_all add: monitor_of_def)
  from finish [where exec = exec and expired = expired, OF this] show ?thesis using notified_pc [OF i_finish(4)] i_finish(1)
    by (simp add: monitor_of_def comp_upd)
next
  case (i_wait t op)
  have "m_pc (monitor_of m) t = Locked op" "exec op (m_object (monitor_of m)) = Ok Wait"
    using i_wait by (simp_all add: monitor_of_def)
  from wait [where exec = exec and expired = expired, OF this] show ?thesis using i_wait(1) by (simp add: monitor_of_def comp_upd)
next
  case (i_wake t op)
  have "m_pc (monitor_of m) t = Waiting op" "m_holder (monitor_of m) = None"
    using i_wake by (simp_all add: monitor_of_def)
  from wake [where exec = exec and expired = expired, OF this] show ?thesis using i_wake(1) by (simp add: monitor_of_def comp_upd)
qed

lemma cond_step_monitor:
  assumes "cond_step exec expired on notify ok m m'"
  shows "monitor_of m' = monitor_of m \<or> monitor_step exec expired (monitor_of m) (monitor_of m')"
  using assms
proof (cases rule: cond_step.cases)
  case c_inner
  then show ?thesis using inner_step_monitor by blast
next
  case (c_call t op)
  have "m_pc (monitor_of m) t = Idle" "m_holder (monitor_of m) = None" using c_call by (simp_all add: monitor_of_def)
  from call [where exec = exec and expired = expired and op = op, OF this] show ?thesis using c_call(1) by (simp add: monitor_of_def comp_upd)
next
  case (c_spurious t op)
  then show ?thesis by (auto simp: monitor_of_def fun_eq_iff)
next
  case (c_expire t op r)
  have "m_pc (monitor_of m) t = Waiting op" "m_holder (monitor_of m) = None" using c_expire by (auto simp: monitor_of_def)
  from expire [where exec = exec and expired = expired, OF this c_expire(4)] show ?thesis using c_expire(1) by (simp add: monitor_of_def comp_upd)
qed

lemma cond_reachable_monitor:
  "cond_reachable exec expired on notify ok s0 m \<Longrightarrow> monitor_reachable exec expired s0 (monitor_of m)"
proof (induction rule: cond_reachable.induct)
  case c_start
  have "monitor_of (condmon_init s0) = monitor_init s0"
    by (simp add: monitor_of_def condmon_init_def monitor_init_def fun_eq_iff)
  then show ?case using monitor_reachable.start by metis
next
  case (c_step m m')
  then show ?case using cond_step_monitor [OF c_step.hyps(2)] by (metis monitor_reachable.step)
qed

lemma running_holder:
  assumes "cond_reachable exec expired on notify ok s0 m"
  shows "(\<exists>op. c_status m t = Running op) \<longleftrightarrow> c_holder m = Some t"
proof -
  have "(\<exists>op. pc_of (c_status m t) = Locked op) \<longleftrightarrow> c_holder m = Some t"
    using reachable_lock_inv [OF cond_reachable_monitor [OF assms]] by (simp add: lock_inv_def monitor_of_def)
  then show ?thesis by (cases "c_status m t") auto
qed

section \<open>Runs without new calls end\<close>

definition busy :: "('s, 'op, 'r) condmon \<Rightarrow> nat set" where
  "busy m = {t. c_status m t \<noteq> Resting}"

definition woken :: "('s, 'op, 'r) condmon \<Rightarrow> nat set" where
  "woken m = {t. \<exists>op. c_status m t = Woken op}"

definition running :: "('s, 'op, 'r) condmon \<Rightarrow> nat set" where
  "running m = {t. \<exists>op. c_status m t = Running op}"

text \<open>A step that finishes a call leaves fewer busy threads; the others bring a thread closer to sleep.\<close>

definition inner_order :: "(('s, 'op, 'r) condmon \<times> ('s, 'op, 'r) condmon) set" where
  "inner_order = measures [\<lambda>m. card (busy m), \<lambda>m. 2 * card (woken m) + card (running m)]"

lemma wf_inner_order: "wf inner_order"
  by (simp add: inner_order_def)

lemma notified_resting: "notified on n pc pc' \<Longrightarrow> pc' t = Resting \<longleftrightarrow> pc t = Resting"
  by (induction rule: notified.induct) (auto simp: wake_all_def split: status.splits)

lemma notified_total: "\<exists>pc'. notified on n pc pc'"
proof (cases n)
  case (Signal c)
  then show ?thesis by (cases "\<exists>t op. pc t = Asleep op \<and> on op = Some c") (blast intro: notified.intros)+
qed (blast intro: notified.intros)+

lemma running_busy: "running m \<subseteq> busy m" by (auto simp: running_def busy_def)

lemma woken_busy: "woken m \<subseteq> busy m" by (auto simp: woken_def busy_def)

lemma inner_step_decreases:
  assumes "inner_step exec on notify m m'" "finite (busy m)"
  shows "(m', m) \<in> inner_order \<and> finite (busy m')"
  using assms(1)
proof (cases rule: inner_step.cases)
  case (i_finish t op r s pc)
  have b: "busy m' = busy m - {t}" "t \<in> busy m"
    using notified_resting [OF i_finish(4)] i_finish(1,2) by (auto simp: busy_def split: if_splits)
  then have "card (busy m') < card (busy m)" using card_Diff1_less [OF assms(2) b(2)] by simp
  then show ?thesis using b assms(2) by (simp add: inner_order_def)
next
  case (i_wait t op)
  have b: "busy m' = busy m" "woken m' = woken m" "running m' = running m - {t}" "t \<in> running m"
    using i_wait(1,2) by (auto simp: busy_def woken_def running_def)
  have "finite (running m)" using finite_subset [OF running_busy assms(2)] .
  then have "card (running m') < card (running m)" using card_Diff1_less [OF _ b(4)] b(3) by simp
  then show ?thesis using b assms(2) by (simp add: inner_order_def)
next
  case (i_wake t op)
  have b: "busy m' = busy m" "woken m' = woken m - {t}" "t \<in> woken m" "running m' = insert t (running m)" "t \<notin> running m"
    using i_wake(1,2) by (auto simp: busy_def woken_def running_def)
  have f: "finite (running m)" "finite (woken m)"
    using finite_subset [OF running_busy assms(2)] finite_subset [OF woken_busy assms(2)] by blast+
  have "card (woken m) = Suc (card (woken m'))" using f(2) b(2,3) by (metis card.remove)
  moreover have "card (running m') = Suc (card (running m))" using f(1) b(4,5) by simp
  ultimately show ?thesis using b(1) assms(2) by (simp add: inner_order_def)
qed

lemma cond_step_busy:
  assumes "cond_step exec expired on notify ok m m'" "finite (busy m)"
  shows "finite (busy m')"
  using assms(1)
proof (cases rule: cond_step.cases)
  case c_inner
  then show ?thesis using inner_step_decreases assms(2) by blast
next
  case (c_call t op)
  then have "busy m' = insert t (busy m)" by (auto simp: busy_def)
  then show ?thesis using assms(2) by simp
next
  case (c_spurious t op)
  then have "busy m' = busy m" by (auto simp: busy_def)
  then show ?thesis using assms(2) by simp
next
  case (c_expire t op r)
  then have "busy m' = busy m - {t}" by (auto simp: busy_def)
  then show ?thesis using assms(2) by simp
qed

lemma reachable_busy: "cond_reachable exec expired on notify ok s0 m \<Longrightarrow> finite (busy m)"
proof (induction rule: cond_reachable.induct)
  case c_start
  show ?case by (simp add: busy_def condmon_init_def)
qed (rule cond_step_busy)

text \<open>A run takes inner steps as long as there are any; it is settled when no thread runs or was woken.\<close>

definition inner_run ::
  "('op \<Rightarrow> 's \<Rightarrow> ('r, 's) outcome res) \<Rightarrow> ('op \<Rightarrow> condition option) \<Rightarrow> ('op \<Rightarrow> 's \<Rightarrow> notification)
    \<Rightarrow> (nat \<Rightarrow> ('s, 'op, 'r) condmon) \<Rightarrow> bool" where
  "inner_run exec on notify f \<longleftrightarrow> (\<forall>i. inner_step exec on notify (f i) (f (Suc i))
     \<or> (\<nexists>m'. inner_step exec on notify (f i) m') \<and> f (Suc i) = f i)"

definition settled :: "('s, 'op, 'r) condmon \<Rightarrow> bool" where
  "settled m \<longleftrightarrow> (\<forall>t op. c_status m t \<noteq> Running op \<and> c_status m t \<noteq> Woken op)"

lemma inner_run_ends:
  assumes "inner_run exec on notify f" "finite (busy (f 0))"
  shows "\<exists>n. \<nexists>m'. inner_step exec on notify (f n) m'"
proof (rule ccontr)
  assume "\<not> ?thesis"
  then have step: "inner_step exec on notify (f i) (f (Suc i))" for i using assms(1) by (auto simp: inner_run_def)
  have "finite (busy (f i))" for i
    by (induction i) (use assms(2) inner_step_decreases [OF step] in auto)
  then have "(f (Suc i), f i) \<in> inner_order" for i using inner_step_decreases [OF step] by blast
  then show False using wf_inner_order unfolding wf_iff_no_infinite_down_chain by blast
qed

section \<open>No wake-up is lost\<close>

text \<open>
  Who sleeps on a condition, and who is on the way to take something out. While a thread sleeps until
  there are items, there are at least as many takers as items; a thread sleeps until there are no
  items only while there are some.
\<close>

definition awaited :: "('op \<Rightarrow> condition option) \<Rightarrow> (nat \<Rightarrow> 'op status) \<Rightarrow> condition \<Rightarrow> bool" where
  "awaited on pc c \<longleftrightarrow> (\<exists>t op. pc t = Asleep op \<and> on op = Some c)"

definition takers :: "('op \<Rightarrow> condition option) \<Rightarrow> (nat \<Rightarrow> 'op status) \<Rightarrow> nat set" where
  "takers on pc = {t. \<exists>op. (pc t = Running op \<or> pc t = Woken op) \<and> on op = Some NonEmpty}"

definition signal_inv :: "('op \<Rightarrow> condition option) \<Rightarrow> ('op \<Rightarrow> bool) \<Rightarrow> nat \<Rightarrow> (nat \<Rightarrow> 'op status) \<Rightarrow> bool" where
  "signal_inv on ok n pc \<longleftrightarrow> (awaited on pc NonEmpty \<longrightarrow> n \<le> card (takers on pc)) \<and> (awaited on pc Empty \<longrightarrow> n \<noteq> 0)
     \<and> (\<forall>t op. pc t = Asleep op \<longrightarrow> on op \<noteq> None) \<and> (\<forall>t op. pc t = Running op \<or> pc t = Woken op \<or> pc t = Asleep op \<longrightarrow> ok op)"

lemma card_insert_le_Suc: "card (insert t A) \<le> Suc (card A)"
  by (cases "finite A") (auto simp: card_insert_if)

lemma takers_finite: "finite (busy m) \<Longrightarrow> finite (takers on (c_status m))"
  by (rule finite_subset [of _ "busy m"]) (auto simp: takers_def busy_def)

lemma notified_takers: "notified on n pc pc' \<Longrightarrow> takers on pc \<subseteq> takers on pc'"
  by (induction rule: notified.induct) (auto simp: takers_def wake_all_def split: status.splits)

lemma notified_asleep: "notified on n pc pc' \<Longrightarrow> pc' t = Asleep op \<Longrightarrow> pc t = Asleep op"
  by (induction rule: notified.induct) (auto simp: wake_all_def split: status.splits if_splits)

lemma notified_op:
  "notified on n pc pc' \<Longrightarrow> pc' t = Running op \<or> pc' t = Woken op \<or> pc' t = Asleep op \<Longrightarrow>
   pc t = Running op \<or> pc t = Woken op \<or> pc t = Asleep op"
  by (induction rule: notified.induct) (auto simp: wake_all_def split: status.splits if_splits)

lemma notified_awaited: "notified on n pc pc' \<Longrightarrow> awaited on pc' c \<Longrightarrow> awaited on pc c"
  using notified_asleep unfolding awaited_def by metis

lemma broadcast_awaited: "notified on (Broadcast c) pc pc' \<Longrightarrow> \<not> awaited on pc' c"
  by (induction "Broadcast c" pc pc' rule: notified.induct)
    (auto simp: awaited_def wake_all_def split: status.splits if_splits)

lemma signal_takers:
  assumes "notified on (Signal NonEmpty) pc pc'" "awaited on pc' NonEmpty" "finite (takers on pc')"
  shows "card (takers on pc) < card (takers on pc')"
  using assms(1)
proof (cases rule: notified.cases)
  case (signal t op)
  then have "t \<in> takers on pc'" "t \<notin> takers on pc" by (auto simp: takers_def)
  then show ?thesis using notified_takers [OF assms(1)] assms(3) by (metis psubsetI psubset_card_mono)
next
  case signal_nobody
  then show ?thesis using assms(2) by (auto simp: awaited_def)
qed

locale signalled_buffer = locked_object rep exec expired spec
  for rep :: "'s \<Rightarrow> 'x \<Rightarrow> bool" and exec :: "'op \<Rightarrow> 's \<Rightarrow> ('r, 's) outcome res"
    and expired :: "'op \<Rightarrow> 'r option" and spec :: "'op \<Rightarrow> 'x \<Rightarrow> ('r \<times> 'x) option" +
  fixes on :: "'op \<Rightarrow> condition option" and notify :: "'op \<Rightarrow> 's \<Rightarrow> notification"
    and level :: "'s \<Rightarrow> nat" and ok :: "'op \<Rightarrow> bool"
  assumes wait_iff: "rep s x \<Longrightarrow> exec op s = Ok Wait \<longleftrightarrow>
      (case on op of None \<Rightarrow> False | Some NonEmpty \<Rightarrow> level s = 0 | Some Empty \<Rightarrow> level s \<noteq> 0)"
    and done_level: "ok op \<Longrightarrow> rep s x \<Longrightarrow> exec op s = Ok (Done r s') \<Longrightarrow>
      level s' \<le> level s + (if notify op s' = Signal NonEmpty then 1 else 0)"
    and done_take: "ok op \<Longrightarrow> rep s x \<Longrightarrow> exec op s = Ok (Done r s') \<Longrightarrow> on op = Some NonEmpty \<Longrightarrow> level s' < level s"
    and done_empty: "rep s x \<Longrightarrow> exec op s = Ok (Done r s') \<Longrightarrow> level s \<noteq> 0 \<Longrightarrow> level s' = 0 \<Longrightarrow>
      notify op s' = Broadcast Empty"
    and ok_untimed: "ok op \<Longrightarrow> on op = Some NonEmpty \<Longrightarrow> expired op = None"
begin

lemma finish_inv:
  assumes inv: "signal_inv on ok (level (c_object m)) (c_status m)" and rep: "rep (c_object m) x"
    and fin: "finite (busy m)" and t: "c_status m t = Running op" and run: "exec op (c_object m) = Ok (Done r s)"
    and ntf: "notified on (notify op s) ((c_status m)(t := Resting)) pc"
  shows "signal_inv on ok (level s) pc"
proof -
  let ?pc0 = "(c_status m)(t := Resting)" and ?n = "level (c_object m)"
  have ok: "ok op" using inv t by (auto simp: signal_inv_def)
  have fin': "finite (takers on pc)"
  proof -
    have "{t. pc t \<noteq> Resting} \<subseteq> busy m" using notified_resting [OF ntf] by (auto simp: busy_def split: if_splits)
    then have "takers on pc \<subseteq> busy m" by (auto simp: takers_def)
    then show ?thesis using fin by (rule finite_subset)
  qed
  have before: "awaited on (c_status m) c" if "awaited on pc c" for c
    using notified_awaited [OF ntf that] by (auto simp: awaited_def split: if_splits)
  have le: "level s \<le> card (takers on pc)" if aw: "awaited on pc NonEmpty"
  proof -
    have bound: "?n \<le> card (takers on (c_status m))" using inv before [OF aw] by (simp add: signal_inv_def)
    have sub: "card (takers on ?pc0) \<le> card (takers on pc)" using card_mono [OF fin' notified_takers [OF ntf]] .
    show ?thesis
    proof (cases "on op = Some NonEmpty")
      case True
      have "takers on (c_status m) = insert t (takers on ?pc0)" "t \<notin> takers on ?pc0"
        using t True by (auto simp: takers_def split: if_splits)
      then have "card (takers on (c_status m)) \<le> Suc (card (takers on ?pc0))" by (simp add: card_insert_le_Suc)
      then show ?thesis using bound sub done_take [OF ok rep run True] by linarith
    next
      case False
      then have same: "takers on (c_status m) = takers on ?pc0" using t by (auto simp: takers_def split: if_splits)
      show ?thesis
      proof (cases "notify op s = Signal NonEmpty")
        case True
        with signal_takers [OF ntf [unfolded True] aw fin'] same bound done_level [OF ok rep run] show ?thesis by simp
      qed (use same bound sub done_level [OF ok rep run] in simp)
    qed
  qed
  moreover have "level s \<noteq> 0" if aw: "awaited on pc Empty"
  proof
    assume "level s = 0"
    moreover have "?n \<noteq> 0" using inv before [OF aw] by (simp add: signal_inv_def)
    ultimately have "notify op s = Broadcast Empty" using done_empty [OF rep run] by blast
    then show False using broadcast_awaited ntf aw by metis
  qed
  moreover have "on op' \<noteq> None" if "pc t' = Asleep op'" for t' op'
    using notified_asleep [OF ntf that] inv by (auto simp: signal_inv_def split: if_splits)
  moreover have "ok op'" if "pc t' = Running op' \<or> pc t' = Woken op' \<or> pc t' = Asleep op'" for t' op'
    using notified_op [OF ntf that] inv by (auto simp: signal_inv_def split: if_splits)
  ultimately show ?thesis by (auto simp: signal_inv_def)
qed

lemma step_inv:
  assumes inv: "signal_inv on ok (level (c_object m)) (c_status m)" and rep: "rep (c_object m) x"
    and fin: "finite (busy m)" and st: "cond_step exec expired on notify ok m m'"
  shows "signal_inv on ok (level (c_object m')) (c_status m')"
  using st
proof (cases rule: cond_step.cases)
  case c_inner
  then show ?thesis
  proof (cases rule: inner_step.cases)
    case (i_finish t op r s pc)
    then show ?thesis using finish_inv [OF inv rep fin] by simp
  next
    case (i_wait t op)
    have lev: "on op = Some NonEmpty \<and> level (c_object m) = 0 \<or> on op = Some Empty \<and> level (c_object m) \<noteq> 0"
      using wait_iff [OF rep, of op] i_wait(3) by (auto split: option.splits condition.splits)
    have aw: "awaited on (c_status m') c \<Longrightarrow> on op = Some c \<or> awaited on (c_status m) c" for c
      using i_wait(1) by (auto simp: awaited_def split: if_splits)
    have "takers on (c_status m') = takers on (c_status m) \<or> on op = Some NonEmpty"
      using i_wait(1,2) by (auto simp: takers_def split: if_splits)
    then have "awaited on (c_status m') NonEmpty \<longrightarrow> level (c_object m) \<le> card (takers on (c_status m'))"
      using lev inv aw [of NonEmpty] by (auto simp: signal_inv_def)
    moreover have "awaited on (c_status m') Empty \<longrightarrow> level (c_object m) \<noteq> 0"
      using lev inv aw [of Empty] by (auto simp: signal_inv_def)
    moreover have "on op \<noteq> None" using lev by auto
    ultimately show ?thesis using inv i_wait(1,2) by (auto simp: signal_inv_def split: if_splits)
  next
    case (i_wake t op)
    have "takers on (c_status m') = takers on (c_status m)"
      using i_wake(1,2) by (auto simp: takers_def split: if_splits)
    moreover have "awaited on (c_status m') c \<Longrightarrow> awaited on (c_status m) c" for c
      using i_wake(1,2) by (auto simp: awaited_def split: if_splits)
    ultimately show ?thesis using inv i_wake(1,2) by (auto simp: signal_inv_def split: if_splits)
  qed
next
  case (c_call t op)
  have "takers on (c_status m) \<subseteq> takers on (c_status m')" "takers on (c_status m') \<subseteq> insert t (takers on (c_status m))"
    using c_call by (auto simp: takers_def split: if_splits)
  then have "card (takers on (c_status m)) \<le> card (takers on (c_status m'))"
    using takers_finite [OF fin] by (meson card_mono finite_insert finite_subset)
  moreover have "awaited on (c_status m') c \<Longrightarrow> awaited on (c_status m) c" for c
    using c_call(1,2) by (auto simp: awaited_def split: if_splits)
  ultimately show ?thesis using inv c_call(1,4) by (auto simp: signal_inv_def split: if_splits)
next
  case (c_spurious t op)
  have "takers on (c_status m) \<subseteq> takers on (c_status m')" "takers on (c_status m') \<subseteq> insert t (takers on (c_status m))"
    using c_spurious by (auto simp: takers_def split: if_splits)
  then have "card (takers on (c_status m)) \<le> card (takers on (c_status m'))"
    using takers_finite [OF fin] by (meson card_mono finite_insert finite_subset)
  moreover have "awaited on (c_status m') c \<Longrightarrow> awaited on (c_status m) c" for c
    using c_spurious(1) by (auto simp: awaited_def split: if_splits)
  ultimately show ?thesis using inv c_spurious(1,2) by (auto simp: signal_inv_def split: if_splits)
next
  case (c_expire t op r)
  have "on op \<noteq> Some NonEmpty" using ok_untimed [of op] inv c_expire(2,4) by (auto simp: signal_inv_def)
  then have "takers on (c_status m') = takers on (c_status m)" using c_expire(1,2) by (auto simp: takers_def split: if_splits)
  moreover have "awaited on (c_status m') c \<Longrightarrow> awaited on (c_status m) c" for c
    using c_expire(1) by (auto simp: awaited_def split: if_splits)
  ultimately show ?thesis using inv c_expire(1,2) by (auto simp: signal_inv_def split: if_splits)
qed

lemma reachable_rep:
  assumes "cond_reachable exec expired on notify ok' s0 m" "rep s0 x0"
  shows "\<exists>x. rep (c_object m) x"
  using linearizable [OF cond_reachable_monitor [OF assms(1)] assms(2)] by (auto simp: monitor_of_def)

lemma reachable_inv:
  assumes "cond_reachable exec expired on notify ok s0 m" "rep s0 x0"
  shows "signal_inv on ok (level (c_object m)) (c_status m)"
  using assms(1)
proof (induction rule: cond_reachable.induct)
  case c_start
  show ?case by (simp add: signal_inv_def awaited_def condmon_init_def)
next
  case (c_step m m')
  obtain x where "rep (c_object m) x" using reachable_rep [OF c_step.hyps(1) assms(2)] by blast
  from step_inv [OF c_step.IH this reachable_busy [OF c_step.hyps(1)] c_step.hyps(2)] show ?case .
qed

lemma progress:
  assumes "cond_reachable exec expired on notify ok s0 m" "rep s0 x0" "\<nexists>m'. inner_step exec on notify m m'"
  shows "settled m"
proof -
  obtain x where x: "rep (c_object m) x" using reachable_rep [OF assms(1,2)] by blast
  have run: False if t: "c_status m t = Running op" for t op
  proof (cases "exec op (c_object m)")
    case (Inl e)
    then show ?thesis using exec_no_fault [OF x] by blast
  next
    case (Inr oc)
    show ?thesis
    proof (cases oc)
      case (Done r s)
      obtain pc where "notified on (notify op s) ((c_status m)(t := Resting)) pc" using notified_total by blast
      then show ?thesis using i_finish [where exec = exec, OF t, of r s] Inr Done assms(3) by blast
    next
      case Wait
      then show ?thesis using i_wait [where exec = exec, OF t] Inr assms(3) by blast
    qed
  qed
  then have "c_holder m = None" using running_holder [OF assms(1)] by (cases "c_holder m") blast+
  then have "c_status m t \<noteq> Woken op" for t op using assms(3) i_wake [where exec = exec and m = m] by blast
  then show ?thesis using run by (auto simp: settled_def)
qed

lemma settled_waits:
  assumes "cond_reachable exec expired on notify ok s0 m" "rep s0 x0" "settled m" "c_status m t = Asleep op"
  shows "exec op (c_object m) = Ok Wait"
proof -
  obtain x where x: "rep (c_object m) x" using reachable_rep [OF assms(1,2)] by blast
  have inv: "signal_inv on ok (level (c_object m)) (c_status m)" by (rule reachable_inv [OF assms(1,2)])
  have none: "takers on (c_status m) = {}" using assms(3) by (auto simp: settled_def takers_def)
  have "on op \<noteq> None" using inv assms(4) by (auto simp: signal_inv_def)
  then obtain c where c: "on op = Some c" by auto
  then have "awaited on (c_status m) c" using assms(4) by (auto simp: awaited_def)
  then show ?thesis using inv none c wait_iff [OF x, of op] by (cases c) (auto simp: signal_inv_def)
qed

lemma run_reachable:
  assumes "cond_reachable exec expired on notify ok s0 (f 0)" "inner_run exec on notify f"
  shows "cond_reachable exec expired on notify ok s0 (f n)"
proof (induction n)
  case (Suc n)
  then show ?case using assms(2) c_step c_inner unfolding inner_run_def by metis
qed (rule assms(1))

lemma run_settles:
  assumes "cond_reachable exec expired on notify ok s0 (f 0)" "rep s0 x0" "inner_run exec on notify f"
  shows "\<exists>n. settled (f n) \<and> (\<forall>t op. c_status (f n) t = Asleep op \<longrightarrow> exec op (c_object (f n)) = Ok Wait)"
proof -
  from inner_run_ends [OF assms(3) reachable_busy [OF assms(1)]] obtain n where
    n: "\<nexists>m'. inner_step exec on notify (f n) m'" by blast
  note reach = run_reachable [OF assms(1,3), of n]
  then show ?thesis using progress [OF reach assms(2) n] settled_waits [OF reach assms(2)] by blast
qed

end

end
