(* ===== verification/ThreadedQueue.thy ===== *)
theory ThreadedQueue
  imports Circular Monitor
begin

text \<open>
  The blocking queue of libutils/threaded_queue.c, a circular array under a lock. Every operation
  is modelled as one run of its critical section; the operations that may block return \<open>Wait\<close> when
  the C code would enter ThreadWait. \<open>tail\<close> is reduced modulo the capacity only when the next item
  is pushed, so it may equal the capacity. The last part puts the operations under the monitor of
  theory Monitor, with any number of threads, and shows that they behave as a list.
\<close>

section \<open>Data and operations\<close>

definition TQ_EXPAND_FACTOR :: nat where
  "TQ_EXPAND_FACTOR = 2"

definition TQ_DEFAULT_CAPACITY :: nat where
  "TQ_DEFAULT_CAPACITY = 16"

record 'a ThreadedQueue =
  tq_ItemDestroy :: bool
  tq_data :: "'a ptr carray"
  tq_head :: nat
  tq_tail :: nat
  tq_size :: nat
  tq_capacity :: nat

text \<open>
  The three flags are the outcomes of \<open>pthread_mutex_init\<close> and of the two \<open>pthread_cond_init\<close>.
\<close>

definition ThreadedQueueNew :: "bool \<Rightarrow> bool \<Rightarrow> bool \<Rightarrow> nat \<Rightarrow> bool \<Rightarrow> 'a ThreadedQueue ptr" where
  "ThreadedQueueNew mutex_ok cond_non_empty_ok cond_empty_ok initial_capacity ItemDestroy =
     (let cap = (if initial_capacity = 0 then TQ_DEFAULT_CAPACITY else initial_capacity)
      in if \<not> mutex_ok then NULL
         else if \<not> cond_non_empty_ok then NULL
         else if \<not> cond_empty_ok then NULL
         else Ptr \<lparr>tq_ItemDestroy = ItemDestroy, tq_data = xmalloc cap, tq_head = 0, tq_tail = 0,
                tq_size = 0, tq_capacity = cap\<rparr>)"

text \<open>
  DestroyRange with its loop. The loop stops when \<open>i = end\<close>; each round takes one off \<open>size\<close>, and a
  round with \<open>size = 0\<close> would wrap the counter.
\<close>

fun tq_DestroyRange_loop ::
  "'a ThreadedQueue \<Rightarrow> nat \<Rightarrow> nat \<Rightarrow> nat \<Rightarrow> ('a ptr list \<times> nat) res" where
  "tq_DestroyRange_loop queue i stop 0 = (if i = stop then Ok ([], 0) else Fault CounterWrap)"
| "tq_DestroyRange_loop queue i stop (Suc n) =
     (if i = stop then Ok ([], Suc n)
      else let i' = i mod tq_capacity queue
           in bindE (if tq_ItemDestroy queue
                     then bindE (cread (tq_data queue) i') (\<lambda>x. Ok [x]) else Ok []) (\<lambda>gone.
              bindE (tq_DestroyRange_loop queue (i' + 1) stop n) (\<lambda>(more, left).
              Ok (gone @ more, left))))"

definition tq_DestroyRange ::
  "'a ThreadedQueue \<Rightarrow> nat \<Rightarrow> nat \<Rightarrow> ('a ptr list \<times> 'a ThreadedQueue) res" where
  "tq_DestroyRange queue start stop =
     (if start > tq_capacity queue \<or> stop > tq_capacity queue then Ok ([], queue)
      else if tq_size queue > 0
      then bindE (if tq_ItemDestroy queue
                  then bindE (cread (tq_data queue) start) (\<lambda>x. Ok [x]) else Ok []) (\<lambda>gone.
           bindE (tq_DestroyRange_loop queue (start + 1) stop (tq_size queue - 1)) (\<lambda>(more, left).
           Ok (gone @ more, queue\<lparr>tq_size := left\<rparr>)))
      else Ok ([], queue))"

definition tq_ExpandIfNecessary :: "'a ThreadedQueue \<Rightarrow> 'a ThreadedQueue res" where
  "tq_ExpandIfNecessary queue =
     bindE (c_assert (tq_size queue \<le> tq_capacity queue)) (\<lambda>_.
     bindE (if tq_size queue = tq_capacity queue
            then if tq_tail queue \<le> tq_head queue
                 then let old_capacity = tq_capacity queue;
                          cap = old_capacity * TQ_EXPAND_FACTOR;
                          d = xrealloc (tq_data queue) cap
                      in bindE (memmove d old_capacity 0 (tq_tail queue)) (\<lambda>d'.
                         Ok (queue\<lparr>tq_capacity := cap, tq_data := d',
                                   tq_tail := tq_tail queue + old_capacity\<rparr>))
                 else let cap = tq_capacity queue * TQ_EXPAND_FACTOR
                      in Ok (queue\<lparr>tq_capacity := cap, tq_data := xrealloc (tq_data queue) cap\<rparr>)
            else Ok queue) (\<lambda>q.
     Ok (q\<lparr>tq_tail := tq_tail q mod tq_capacity q\<rparr>)))"

text \<open>
  ThreadedQueuePop returns the return value and what \<open>*item\<close> is set to. In the timeout case, when
  ThreadWait fails, \<open>*item\<close> is left alone (see \<open>tq_expired\<close> below).
\<close>

definition ThreadedQueuePop ::
  "'a ThreadedQueue \<Rightarrow> int \<Rightarrow> (bool \<times> 'a ptr, 'a ThreadedQueue) outcome res" where
  "ThreadedQueuePop queue timeout =
     (if tq_size queue = 0 \<and> timeout \<noteq> 0 then Ok Wait
      else if tq_size queue > 0
      then let head = tq_head queue
           in bindE (cread (tq_data queue) head) (\<lambda>item.
              bindE (cwrite (tq_data queue) head NULL) (\<lambda>d.
              Ok (Done (True, item)
                (queue\<lparr>tq_data := d, tq_head := (head + 1) mod tq_capacity queue,
                       tq_size := tq_size queue - 1\<rparr>))))
      else Ok (Done (False, NULL) queue))"

text \<open>The loop that PopN and PopNIntoArray share is \<open>circ_take\<close>.\<close>

definition ThreadedQueuePopN ::
  "'a ThreadedQueue \<Rightarrow> nat \<Rightarrow> int \<Rightarrow> (nat \<times> 'a ptr list ptr, 'a ThreadedQueue) outcome res" where
  "ThreadedQueuePopN queue num timeout =
     (if tq_size queue = 0 \<and> timeout \<noteq> 0 then Ok Wait
      else let size = (if num < tq_size queue then num else tq_size queue)
           in if size > 0
              then bindE (circ_take (tq_data queue) (tq_capacity queue) (tq_head queue) size) (\<lambda>(data, d, head).
                   Ok (Done (size, Ptr data)
                     (queue\<lparr>tq_data := d, tq_head := head, tq_size := tq_size queue - size\<rparr>)))
              else Ok (Done (size, NULL) queue))"

definition ThreadedQueuePopNIntoArray ::
  "'a ThreadedQueue \<Rightarrow> 'a ptr carray \<Rightarrow> nat \<Rightarrow> int
    \<Rightarrow> (nat \<times> 'a ptr carray, 'a ThreadedQueue) outcome res" where
  "ThreadedQueuePopNIntoArray queue data_array num timeout =
     (if tq_size queue = 0 \<and> timeout \<noteq> 0 then Ok Wait
      else let size = (if num < tq_size queue then num else tq_size queue)
           in if size > 0
              then bindE (circ_take (tq_data queue) (tq_capacity queue) (tq_head queue) size) (\<lambda>(data, d, head).
                   bindE (cwrite_range data_array 0 data) (\<lambda>arr.
                   Ok (Done (size, arr)
                     (queue\<lparr>tq_data := d, tq_head := head, tq_size := tq_size queue - size\<rparr>))))
              else Ok (Done (size, data_array) queue))"

definition tq_push1 :: "'a ThreadedQueue \<Rightarrow> 'a ptr \<Rightarrow> 'a ThreadedQueue res" where
  "tq_push1 queue item =
     bindE (tq_ExpandIfNecessary queue) (\<lambda>q.
     bindE (cwrite (tq_data q) (tq_tail q) item) (\<lambda>d.
     Ok (q\<lparr>tq_data := d, tq_tail := tq_tail q + 1, tq_size := tq_size q + 1\<rparr>)))"

definition ThreadedQueuePush :: "'a ThreadedQueue \<Rightarrow> 'a ptr \<Rightarrow> (nat, 'a ThreadedQueue) outcome res" where
  "ThreadedQueuePush queue item = bindE (tq_push1 queue item) (\<lambda>q. Ok (Done (tq_size q) q))"

definition ThreadedQueuePushN ::
  "'a ThreadedQueue \<Rightarrow> 'a ptr list \<Rightarrow> (nat, 'a ThreadedQueue) outcome res" where
  "ThreadedQueuePushN queue items = bindE (run_all tq_push1 queue items) (\<lambda>q. Ok (Done (tq_size q) q))"

definition ThreadedQueueCount :: "'a ThreadedQueue \<Rightarrow> nat" where
  "ThreadedQueueCount queue = tq_size queue"

definition ThreadedQueueCapacity :: "'a ThreadedQueue \<Rightarrow> nat" where
  "ThreadedQueueCapacity queue = tq_capacity queue"

definition ThreadedQueueIsEmpty :: "'a ThreadedQueue \<Rightarrow> bool" where
  "ThreadedQueueIsEmpty queue \<longleftrightarrow> tq_size queue = 0"

definition ThreadedQueueWaitEmpty ::
  "'a ThreadedQueue \<Rightarrow> int \<Rightarrow> (bool, 'a ThreadedQueue) outcome" where
  "ThreadedQueueWaitEmpty queue timeout =
     (if tq_size queue \<noteq> 0
      then if timeout \<noteq> 0 then Wait else Done False queue
      else Done True queue)"

text \<open>\<open>xmemdup\<close> of the struct, then \<open>memcpy\<close> of all \<open>capacity\<close> cells; the copy has its own lock.\<close>

definition ThreadedQueueCopy ::
  "bool \<Rightarrow> bool \<Rightarrow> bool \<Rightarrow> 'a ThreadedQueue \<Rightarrow> 'a ThreadedQueue ptr res" where
  "ThreadedQueueCopy mutex_ok cond_non_empty_ok cond_empty_ok queue =
     (if tq_capacity queue \<le> length (tq_data queue)
      then let new_queue = queue\<lparr>tq_data := take (tq_capacity queue) (tq_data queue)\<rparr>
           in Ok (if mutex_ok \<and> cond_non_empty_ok \<and> cond_empty_ok then Ptr new_queue else NULL)
      else Fault OutOfBounds)"

definition ThreadedQueueClear :: "'a ThreadedQueue \<Rightarrow> ('a ptr list, 'a ThreadedQueue) outcome res" where
  "ThreadedQueueClear queue =
     bindE (tq_DestroyRange queue (tq_head queue) (tq_tail queue)) (\<lambda>(gone, q).
     bindE (c_assert (tq_size q = 0)) (\<lambda>_.
     Ok (Done gone (q\<lparr>tq_head := 0, tq_tail := 0\<rparr>))))"

definition ThreadedQueueClearAndPush ::
  "'a ThreadedQueue \<Rightarrow> 'a ptr \<Rightarrow> ('a ptr list \<times> nat, 'a ThreadedQueue) outcome res" where
  "ThreadedQueueClearAndPush queue item =
     bindE (tq_DestroyRange queue (tq_head queue) (tq_tail queue)) (\<lambda>(gone, q).
     bindE (tq_push1 (q\<lparr>tq_head := 0, tq_tail := 0\<rparr>) item) (\<lambda>q'.
     bindE (c_assert (tq_size q' = 1)) (\<lambda>_.
     Ok (Done (gone, tq_size q') q'))))"

definition ThreadedQueueDestroy :: "'a ThreadedQueue ptr \<Rightarrow> 'a ptr list res" where
  "ThreadedQueueDestroy queue = (case queue of
     NULL \<Rightarrow> Ok []
   | Ptr q \<Rightarrow> bindE (tq_DestroyRange q (tq_head q) (tq_tail q)) (\<lambda>(gone, _). Ok gone))"


section \<open>Representation\<close>

text \<open>
  The queue stands for its capacity, whether it has a destructor, and its items. \<open>tail\<close> is the
  position after the last item, either reduced modulo the capacity or equal to it, and is not 0
  while there are items, which is what stops the loop of DestroyRange.
\<close>

definition tq_rep :: "'a ThreadedQueue \<Rightarrow> nat \<times> bool \<times> 'a ptr list \<Rightarrow> bool" where
  "tq_rep q = (\<lambda>(cap, d, xs).
     circ (tq_data q) (tq_head q) xs \<and> tq_size q = length xs
     \<and> tq_capacity q = cap \<and> length (tq_data q) = cap \<and> tq_ItemDestroy q = d
     \<and> tq_tail q \<le> cap \<and> tq_tail q mod cap = (tq_head q + length xs) mod cap
     \<and> (xs \<noteq> [] \<longrightarrow> 0 < tq_tail q))"

lemma tq_repD:
  assumes "tq_rep q (cap, d, xs)"
  shows "circ (tq_data q) (tq_head q) xs" "tq_size q = length xs" "tq_capacity q = cap"
    "length (tq_data q) = cap" "tq_ItemDestroy q = d" "tq_tail q \<le> cap"
    "tq_tail q mod cap = (tq_head q + length xs) mod cap" "xs \<noteq> [] \<Longrightarrow> 0 < tq_tail q"
    "0 < cap" "tq_head q < cap" "length xs \<le> cap"
  using assms circD [of "tq_data q" "tq_head q" xs] by (auto simp: tq_rep_def)

lemma ThreadedQueueNew_rep:
  assumes "ThreadedQueueNew m c1 c2 n d = Ptr q"
  shows "tq_rep q (if n = 0 then TQ_DEFAULT_CAPACITY else n, d, [])"
  using assms by (auto simp: ThreadedQueueNew_def tq_rep_def TQ_DEFAULT_CAPACITY_def split: if_splits)

text \<open>What the loop of DestroyRange does from position \<open>i\<close> on, with \<open>n\<close> items to go.\<close>

lemma tq_DestroyRange_loop_ok:
  assumes "circ (tq_data q) h xs" "length (tq_data q) = tq_capacity q" "0 < stop" "stop \<le> tq_capacity q"
    "stop mod tq_capacity q = (h + length xs) mod tq_capacity q"
  shows "0 < j \<Longrightarrow> j + n = length xs \<Longrightarrow> i mod tq_capacity q = (h + j) mod tq_capacity q \<Longrightarrow>
    0 < i \<Longrightarrow> i \<le> tq_capacity q \<Longrightarrow>
    tq_DestroyRange_loop q i stop n = Ok (if tq_ItemDestroy q then drop j xs else [], 0)"
proof (induction n arbitrary: i j)
  case 0
  have "i mod tq_capacity q = stop mod tq_capacity q" using 0 assms(5) by simp
  then have "i = stop" using 0(4,5) assms(3,4)
    by (metis le_neq_implies_less mod_less mod_self neq0_conv)
  then show ?case using 0 by simp
next
  case (Suc n)
  note c = circD [OF assms(1)]
  let ?cap = "tq_capacity q"
  have j: "j < length xs" "drop j xs = xs ! j # drop (Suc j) xs"
    using Suc.prems(2) by (auto simp: Cons_nth_drop_Suc)
  have ne: "i \<noteq> stop"
  proof
    assume "i = stop"
    then have "(h + j) mod ?cap = (h + length xs) mod ?cap" using assms(5) Suc.prems(3) by simp
    moreover have "length xs \<le> ?cap" using c(1) assms(2) by simp
    ultimately consider "j = length xs" | "length xs = ?cap" "(h + j) mod ?cap = (h + 0) mod ?cap"
      using mod_offset_inj [of h j ?cap "length xs"] j(1) by (cases "length xs < ?cap") auto
    then show False
      using mod_offset_inj [of h j ?cap 0] j(1) Suc.prems(1) by cases auto
  qed
  have next_i: "(i mod ?cap + 1) mod ?cap = (h + Suc j) mod ?cap"
    using Suc.prems(3) by (simp add: mod_Suc_eq)
  have pos: "0 < ?cap" using c(3) assms(2) by simp
  have "tq_DestroyRange_loop q (i mod ?cap + 1) stop n
      = Ok (if tq_ItemDestroy q then drop (Suc j) xs else [], 0)"
    using Suc.prems(2) pos mod_less_divisor [OF pos, of i]
    by (intro Suc.IH [OF _ _ next_i]) auto
  moreover have "cread (tq_data q) (i mod ?cap) = Ok (xs ! j)"
    using circ_read [OF assms(1) j(1)] Suc.prems(3) assms(2) by simp
  ultimately show ?case using ne j(2) by (simp add: Let_def)
qed

lemma tq_DestroyRange_ok:
  assumes "tq_rep q (cap, d, xs)"
  shows "tq_DestroyRange q (tq_head q) (tq_tail q)
    = Ok (if d then xs else [], q\<lparr>tq_size := 0\<rparr>)"
proof (cases xs)
  case Nil
  then show ?thesis using tq_repD(2,3,6,10) [OF assms] by (simp add: tq_DestroyRange_def)
next
  case (Cons y ys)
  note r = tq_repD [OF assms]
  have "tq_DestroyRange_loop q (tq_head q + 1) (tq_tail q) (tq_size q - 1)
      = Ok (if tq_ItemDestroy q then drop 1 xs else [], 0)"
    by (rule tq_DestroyRange_loop_ok [OF r(1)]) (use r Cons in auto)
  then show ?thesis using r Cons circ_read_first [OF r(1)] by (simp add: tq_DestroyRange_def)
qed

lemma tq_cleared_rep:
  assumes "tq_rep q (cap, d, xs)"
  shows "tq_rep (q\<lparr>tq_size := 0, tq_head := 0, tq_tail := 0\<rparr>) (cap, d, [])"
  using tq_repD(3,4,5,9) [OF assms] by (simp add: tq_rep_def)

lemma tq_ExpandIfNecessary_rep:
  assumes "tq_rep q (cap, d, xs)"
  shows "\<exists>q'. tq_ExpandIfNecessary q = Ok q' \<and> circ (tq_data q') (tq_head q') xs
    \<and> tq_size q' = length xs \<and> tq_capacity q' = grown cap (length xs)
    \<and> length (tq_data q') = tq_capacity q' \<and> tq_ItemDestroy q' = d
    \<and> tq_tail q' = (tq_head q' + length xs) mod tq_capacity q' \<and> length xs < tq_capacity q'"
proof -
  note r = tq_repD [OF assms]
  consider (room) "length xs < cap" | (wrapped) "length xs = cap" "tq_tail q \<le> tq_head q"
    | (flat) "length xs = cap" "tq_head q < tq_tail q" using r(11) by linarith
  then show ?thesis
  proof cases
    case room
    then have "tq_ExpandIfNecessary q = Ok (q\<lparr>tq_tail := (tq_head q + length xs) mod cap\<rparr>)"
      using r(2,3,7) by (simp add: tq_ExpandIfNecessary_def)
    then show ?thesis using r(1-5) room by (simp add: grown_def)
  next
    case wrapped
    then have "tq_tail q < cap" using r(10) by simp
    then have t: "tq_tail q = tq_head q" using r(7,10) wrapped(1) by simp
    from circ_expand_wrapped [OF r(1)] wrapped(1) r(4) obtain b where
      b: "memmove (xrealloc (tq_data q) (cap * 2)) cap 0 (tq_head q) = Ok b" "length b = cap * 2"
        "circ b (tq_head q) xs" by auto
    have "tq_ExpandIfNecessary q = Ok (q\<lparr>tq_capacity := cap * 2, tq_data := b,
        tq_tail := (tq_head q + cap) mod (cap * 2)\<rparr>)"
      using b(1) r(2,3) t wrapped(1)
      by (simp add: tq_ExpandIfNecessary_def TQ_EXPAND_FACTOR_def Let_def)
    then show ?thesis using r(2,5,9) b(2,3) wrapped(1) by (simp add: grown_def)
  next
    case flat
    then have m: "tq_tail q mod cap = tq_head q" using r(7,10) by simp
    then have t: "tq_tail q = cap"
      using flat(2) r(6) by (metis le_neq_implies_less mod_less nat_neq_iff)
    then have h: "tq_head q = 0" using m by simp
    have "circ (xrealloc (tq_data q) (cap * 2)) 0 xs"
      using circ_expand_flat [of "tq_data q" xs "cap * 2"] r(1,4) h by simp
    moreover have "tq_ExpandIfNecessary q = Ok (q\<lparr>tq_capacity := cap * 2,
        tq_data := xrealloc (tq_data q) (cap * 2), tq_tail := cap mod (cap * 2)\<rparr>)"
      using r(2,3) t flat by (simp add: tq_ExpandIfNecessary_def TQ_EXPAND_FACTOR_def Let_def)
    ultimately show ?thesis using r(2,5,9) h flat(1) by (simp add: grown_def)
  qed
qed

lemma tq_push1_rep:
  assumes "tq_rep q (cap, d, xs)"
  shows "\<exists>q'. tq_push1 q x = Ok q' \<and> tq_rep q' (grown cap (length xs), d, xs @ [x])"
proof -
  from tq_ExpandIfNecessary_rep [OF assms] obtain q1 where
    q1: "tq_ExpandIfNecessary q = Ok q1" "circ (tq_data q1) (tq_head q1) xs"
      "tq_size q1 = length xs" "tq_capacity q1 = grown cap (length xs)"
      "length (tq_data q1) = tq_capacity q1" "tq_ItemDestroy q1 = d"
      "tq_tail q1 = (tq_head q1 + length xs) mod tq_capacity q1" "length xs < tq_capacity q1" by blast
  have lt: "tq_tail q1 < tq_capacity q1" using q1(7,8) by simp
  have "circ ((tq_data q1)[tq_tail q1 := Val x]) (tq_head q1) (xs @ [x])"
    using circ_push_last [OF q1(2)] q1(5,7,8) by simp
  moreover have "(tq_tail q1 + 1) mod tq_capacity q1 = (tq_head q1 + (length xs + 1)) mod tq_capacity q1"
    using q1(7) by (simp add: mod_Suc_eq)
  ultimately show ?thesis using q1 lt by (simp add: tq_push1_def tq_rep_def Suc_le_eq)
qed

text \<open>PushN grows the queue item by item.\<close>

fun grown_n :: "nat \<Rightarrow> nat \<Rightarrow> nat \<Rightarrow> nat" where
  "grown_n cap n 0 = cap"
| "grown_n cap n (Suc k) = grown_n (grown cap n) (Suc n) k"

lemma tq_push_all_rep:
  "tq_rep q (cap, d, xs) \<Longrightarrow>
   \<exists>q'. run_all tq_push1 q ys = Ok q' \<and> tq_rep q' (grown_n cap (length xs) (length ys), d, xs @ ys)"
proof (induction ys arbitrary: q cap xs)
  case (Cons y ys)
  from tq_push1_rep [OF Cons.prems, of y] obtain q1 where
    q1: "tq_push1 q y = Ok q1" "tq_rep q1 (grown cap (length xs), d, xs @ [y])" by blast
  from Cons.IH [OF q1(2)] q1(1) show ?case by simp
qed simp

lemma tq_take_rep:
  assumes "tq_rep q (cap, d, xs)" "n \<le> length xs"
  shows "\<exists>b h. circ_take (tq_data q) (tq_capacity q) (tq_head q) n = Ok (take n xs, b, h)
    \<and> tq_rep (q\<lparr>tq_data := b, tq_head := h, tq_size := tq_size q - n\<rparr>) (cap, d, drop n xs)"
proof -
  note r = tq_repD [OF assms(1)]
  from circ_take_ok [OF r(1) assms(2)] r(3,4) obtain b where
    b: "circ_take (tq_data q) (tq_capacity q) (tq_head q) n = Ok (take n xs, b, (tq_head q + n) mod cap)"
      "length b = cap" "circ b ((tq_head q + n) mod cap) (drop n xs)" by auto
  have "((tq_head q + n) mod cap + length (drop n xs)) mod cap = (tq_head q + length xs) mod cap"
    by (subst length_drop, subst mod_add_left_eq) (use assms(2) in simp)
  then have "tq_rep (q\<lparr>tq_data := b, tq_head := (tq_head q + n) mod cap, tq_size := tq_size q - n\<rparr>)
      (cap, d, drop n xs)"
    using r(2,3,5,6,7) b(2,3) r(8) by (cases "xs = []") (auto simp: tq_rep_def)
  with b(1) show ?thesis by blast
qed

text \<open>Popping one item is popping a block of one.\<close>

lemma ThreadedQueuePop_rep:
  assumes "tq_rep q (cap, d, x # xs)"
  shows "\<exists>q'. ThreadedQueuePop q t = Ok (Done (True, x) q') \<and> tq_rep q' (cap, d, xs)"
proof -
  note r = tq_repD [OF assms]
  from tq_take_rep [OF assms, of 1] obtain b h where
    "circ_take (tq_data q) (tq_capacity q) (tq_head q) 1 = Ok ([x], b, h)"
    "tq_rep (q\<lparr>tq_data := b, tq_head := h, tq_size := tq_size q - 1\<rparr>) (cap, d, xs)" by auto
  then show ?thesis using r(2) by (auto simp: ThreadedQueuePop_def Let_def)
qed

lemma ThreadedQueueCopy_rep:
  assumes "tq_rep q x"
  shows "\<exists>c. ThreadedQueueCopy True True True q = Ok (Ptr c) \<and> tq_rep c x"
  using assms by (cases x) (auto simp: ThreadedQueueCopy_def tq_rep_def Let_def)

lemma ThreadedQueueDestroy_rep:
  assumes "tq_rep q (cap, d, xs)"
  shows "ThreadedQueueDestroy (Ptr q) = Ok (if d then xs else [])"
  using tq_DestroyRange_ok [OF assms] by (simp add: ThreadedQueueDestroy_def)

section \<open>Calls from many threads\<close>

datatype 'a tq_call =
    QPop int
  | QPopN nat int
  | QPopNIntoArray nat int
  | QPush "'a ptr"
  | QPushN "'a ptr list"
  | QCount
  | QCapacity
  | QIsEmpty
  | QWaitEmpty int
  | QClear
  | QClearAndPush "'a ptr"

text \<open>
  Results: \<open>RPop ret item\<close> with \<open>item = None\<close> when \<open>*item\<close> was not written, \<open>RDestroyed\<close> with the
  items passed to the destructor.
\<close>

datatype 'a tq_ret =
    RPop bool "'a ptr option"
  | RPopN nat "'a ptr list ptr"
  | RInto nat "'a ptr carray"
  | RSize nat
  | RBool bool
  | RDestroyed "'a ptr list" nat

text \<open>The caller of PopNIntoArray provides an array with room for \<open>num\<close> items.\<close>

fun tq_exec :: "'a tq_call \<Rightarrow> 'a ThreadedQueue \<Rightarrow> ('a tq_ret, 'a ThreadedQueue) outcome res" where
  "tq_exec (QPop t) q = ret_as (\<lambda>(b, x). RPop b (Some x)) (ThreadedQueuePop q t)"
| "tq_exec (QPopN n t) q = ret_as (\<lambda>(k, xs). RPopN k xs) (ThreadedQueuePopN q n t)"
| "tq_exec (QPopNIntoArray n t) q =
     ret_as (\<lambda>(k, a). RInto k a) (ThreadedQueuePopNIntoArray q (xmalloc n) n t)"
| "tq_exec (QPush x) q = ret_as RSize (ThreadedQueuePush q x)"
| "tq_exec (QPushN xs) q = ret_as RSize (ThreadedQueuePushN q xs)"
| "tq_exec QCount q = Ok (Done (RSize (ThreadedQueueCount q)) q)"
| "tq_exec QCapacity q = Ok (Done (RSize (ThreadedQueueCapacity q)) q)"
| "tq_exec QIsEmpty q = Ok (Done (RBool (ThreadedQueueIsEmpty q)) q)"
| "tq_exec (QWaitEmpty t) q = Ok (map_outcome RBool (ThreadedQueueWaitEmpty q t))"
| "tq_exec QClear q = ret_as (\<lambda>gone. RDestroyed gone 0) (ThreadedQueueClear q)"
| "tq_exec (QClearAndPush x) q =
     ret_as (\<lambda>(gone, n). RDestroyed gone n) (ThreadedQueueClearAndPush q x)"

text \<open>What a call returns when ThreadWait reports a timeout. Waiting without limit does not end so.\<close>

fun tq_expired :: "'a tq_call \<Rightarrow> 'a tq_ret option" where
  "tq_expired (QPop t) = (if t = THREAD_BLOCK_INDEFINITELY then None else Some (RPop False None))"
| "tq_expired (QPopN n t) = (if t = THREAD_BLOCK_INDEFINITELY then None else Some (RPopN 0 NULL))"
| "tq_expired (QPopNIntoArray n t) =
     (if t = THREAD_BLOCK_INDEFINITELY then None else Some (RInto 0 (xmalloc n)))"
| "tq_expired (QWaitEmpty t) = (if t = THREAD_BLOCK_INDEFINITELY then None else Some (RBool False))"
| "tq_expired _ = None"

text \<open>The abstract queue: what every call does to capacity, destructor flag and item list.\<close>

fun tq_spec :: "'a tq_call \<Rightarrow> nat \<times> bool \<times> 'a ptr list \<Rightarrow> ('a tq_ret \<times> nat \<times> bool \<times> 'a ptr list) option" where
  "tq_spec (QPop t) (cap, d, xs) = (case xs of
     [] \<Rightarrow> if t \<noteq> 0 then None else Some (RPop False (Some NULL), cap, d, [])
   | x # ys \<Rightarrow> Some (RPop True (Some x), cap, d, ys))"
| "tq_spec (QPopN n t) (cap, d, xs) =
     (if xs = [] \<and> t \<noteq> 0 then None
      else Some (RPopN (length (take n xs)) (if take n xs = [] then NULL else Ptr (take n xs)),
        cap, d, drop n xs))"
| "tq_spec (QPopNIntoArray n t) (cap, d, xs) =
     (if xs = [] \<and> t \<noteq> 0 then None
      else Some (RInto (length (take n xs))
          (map Val (take n xs) @ replicate (n - length (take n xs)) Undef), cap, d, drop n xs))"
| "tq_spec (QPush x) (cap, d, xs) = Some (RSize (length xs + 1), grown cap (length xs), d, xs @ [x])"
| "tq_spec (QPushN ys) (cap, d, xs) =
     Some (RSize (length xs + length ys), grown_n cap (length xs) (length ys), d, xs @ ys)"
| "tq_spec QCount (cap, d, xs) = Some (RSize (length xs), cap, d, xs)"
| "tq_spec QCapacity (cap, d, xs) = Some (RSize cap, cap, d, xs)"
| "tq_spec QIsEmpty (cap, d, xs) = Some (RBool (xs = []), cap, d, xs)"
| "tq_spec (QWaitEmpty t) (cap, d, xs) =
     (if xs = [] then Some (RBool True, cap, d, xs)
      else if t \<noteq> 0 then None else Some (RBool False, cap, d, xs))"
| "tq_spec QClear (cap, d, xs) = Some (RDestroyed (if d then xs else []) 0, cap, d, [])"
| "tq_spec (QClearAndPush x) (cap, d, xs) = Some (RDestroyed (if d then xs else []) 1, cap, d, [x])"

text \<open>One lemma per call, then the contract of the monitor.\<close>

lemma tq_exec_pop: "tq_rep q (cap, d, xs) \<Longrightarrow> follows tq_rep (tq_spec (QPop t) (cap, d, xs)) (tq_exec (QPop t) q)"
proof (cases xs)
  case Nil
  assume "tq_rep q (cap, d, xs)"
  then show ?thesis using Nil tq_repD(2) [of q cap d xs]
    by (auto simp: follows_def ThreadedQueuePop_def ret_as_def)
next
  case (Cons x ys)
  assume "tq_rep q (cap, d, xs)"
  with ThreadedQueuePop_rep [of q cap d x ys t] Cons show ?thesis
    by (auto simp: follows_def ret_as_def)
qed

lemma tq_min: "(if n < length xs then n else length xs) = length (take n xs)"
  by auto

lemma tq_exec_pop_n:
  assumes "tq_rep q (cap, d, xs)"
  shows "follows tq_rep (tq_spec (QPopN n t) (cap, d, xs)) (tq_exec (QPopN n t) q)"
    "follows tq_rep (tq_spec (QPopNIntoArray n t) (cap, d, xs)) (tq_exec (QPopNIntoArray n t) q)"
proof -
  let ?k = "length (take n xs)"
  have k: "?k \<le> length xs" "take ?k xs = take n xs" "drop ?k xs = drop n xs"
    by (auto simp: min_def)
  note size = tq_repD(2) [OF assms]
  from tq_take_rep [OF assms k(1)] k obtain b h where
    b: "circ_take (tq_data q) (tq_capacity q) (tq_head q) ?k = Ok (take n xs, b, h)"
      "tq_rep (q\<lparr>tq_data := b, tq_head := h, tq_size := length xs - ?k\<rparr>) (cap, d, drop n xs)"
    unfolding size by metis
  let ?q = "q\<lparr>tq_data := b, tq_head := h, tq_size := length xs - ?k\<rparr>"
  have wr: "cwrite_range (xmalloc n) 0 (take n xs)
      = Ok (map Val (take n xs) @ replicate (n - ?k) Undef)"
    by (subst cwrite_range_Ok) (auto simp: xmalloc_def)
  show "follows tq_rep (tq_spec (QPopN n t) (cap, d, xs)) (tq_exec (QPopN n t) q)"
  proof (cases "take n xs = []")
    case True
    then show ?thesis using assms size
      by (auto simp: follows_def ret_as_def ThreadedQueuePopN_def Let_def)
  next
    case False
    then have "ThreadedQueuePopN q n t = Ok (Done (?k, Ptr (take n xs)) ?q)"
      unfolding ThreadedQueuePopN_def size tq_min Let_def using b(1) by (simp del: length_take)
    then show ?thesis using b(2) False by (intro followsI(1)) (auto simp: ret_as_def)
  qed
  show "follows tq_rep (tq_spec (QPopNIntoArray n t) (cap, d, xs)) (tq_exec (QPopNIntoArray n t) q)"
  proof (cases "take n xs = []")
    case True
    then show ?thesis using assms size
      by (auto simp: follows_def ret_as_def ThreadedQueuePopNIntoArray_def Let_def xmalloc_def)
  next
    case False
    then have "ThreadedQueuePopNIntoArray q (xmalloc n) n t
        = Ok (Done (?k, map Val (take n xs) @ replicate (n - ?k) Undef) ?q)"
      unfolding ThreadedQueuePopNIntoArray_def size tq_min Let_def
      using b(1) wr by (simp del: length_take)
    then show ?thesis using b(2) False by (intro followsI(1)) (auto simp: ret_as_def)
  qed
qed

lemma tq_exec_push:
  assumes "tq_rep q (cap, d, xs)"
  shows "follows tq_rep (tq_spec (QPush x) (cap, d, xs)) (tq_exec (QPush x) q)"
    "follows tq_rep (tq_spec (QPushN ys) (cap, d, xs)) (tq_exec (QPushN ys) q)"
  using tq_push1_rep [OF assms, of x] tq_push_all_rep [OF assms, of ys]
  by (auto simp: follows_def ret_as_def ThreadedQueuePush_def ThreadedQueuePushN_def tq_rep_def)

lemma tq_exec_clear:
  assumes "tq_rep q (cap, d, xs)"
  shows "follows tq_rep (tq_spec QClear (cap, d, xs)) (tq_exec QClear q)"
    "follows tq_rep (tq_spec (QClearAndPush x) (cap, d, xs)) (tq_exec (QClearAndPush x) q)"
proof -
  let ?q = "q\<lparr>tq_size := 0, tq_head := 0, tq_tail := 0\<rparr>"
  note clr = tq_DestroyRange_ok [OF assms] tq_cleared_rep [OF assms]
  then show "follows tq_rep (tq_spec QClear (cap, d, xs)) (tq_exec QClear q)"
    by (auto simp: follows_def ret_as_def ThreadedQueueClear_def)
  have "0 < cap" using tq_repD(9) [OF assms] .
  with tq_push1_rep [OF clr(2), of x] obtain q' where
    q': "tq_push1 ?q x = Ok q'" "tq_rep q' (cap, d, [x])" by (auto simp: grown_def)
  with clr(1) tq_repD(2) [OF q'(2)]
  show "follows tq_rep (tq_spec (QClearAndPush x) (cap, d, xs)) (tq_exec (QClearAndPush x) q)"
    by (auto simp: follows_def ret_as_def ThreadedQueueClearAndPush_def)
qed

lemma tq_exec_spec:
  assumes "tq_rep q x"
  shows "follows tq_rep (tq_spec op x) (tq_exec op q)"
proof -
  obtain cap d xs where x: "x = (cap, d, xs)" by (cases x)
  with assms have rep: "tq_rep q (cap, d, xs)" by simp
  note r = tq_repD(2,3) [OF rep]
  show ?thesis
  proof (cases op)
    case (QWaitEmpty t)
    then show ?thesis using r rep by (auto simp: x follows_def ThreadedQueueWaitEmpty_def)
  qed (use tq_exec_pop [OF rep] tq_exec_pop_n [OF rep] tq_exec_push [OF rep] tq_exec_clear [OF rep]
      r rep in \<open>simp_all add: x follows_def ThreadedQueueCount_def ThreadedQueueCapacity_def
        ThreadedQueueIsEmpty_def\<close>)
qed

interpretation tq: locked_object tq_rep tq_exec tq_expired tq_spec
  by unfold_locales (use tq_exec_spec in \<open>simp add: follows_def\<close>)

section \<open>Properties\<close>

text \<open>What a logged call put into the queue and what it took out.\<close>

fun tq_in :: "'a tq_call \<times> 'a tq_ret \<Rightarrow> 'a ptr list" where
  "tq_in (QPush x, _) = [x]"
| "tq_in (QPushN xs, _) = xs"
| "tq_in (QClearAndPush x, _) = [x]"
| "tq_in _ = []"

fun tq_out :: "'a tq_call \<times> 'a tq_ret \<Rightarrow> 'a ptr list" where
  "tq_out (_, RPop True (Some x)) = [x]"
| "tq_out (_, RPopN _ (Ptr xs)) = xs"
| "tq_out (_, RInto k arr) = concat (map (case_cell [] (\<lambda>v. [v])) (take k arr))"
| "tq_out (_, RDestroyed gone _) = gone"
| "tq_out _ = []"

lemma concat_map_Val [simp]: "concat (map (case_cell [] (\<lambda>v. [v]) \<circ> Val) xs) = xs"
  by (induction xs) auto

lemma tq_spec_conserves:
  "tq_spec op (cap, True, xs) = Some (r, cap', d', ys) \<Longrightarrow>
   d' \<and> xs @ tq_in (op, r) = tq_out (op, r) @ ys"
  by (cases op) (auto split: list.splits if_splits)

lemma tq_expired_conserves: "tq_expired op = Some r \<Longrightarrow> tq_in (op, r) = [] \<and> tq_out (op, r) = []"
  by (cases op) (auto split: if_splits)

lemma tq_replay_conserves:
  "spec_replay tq_spec tq_expired (cap0, True, []) log x \<Longrightarrow>
   \<exists>cap xs. x = (cap, True, xs) \<and> concat (map tq_in log) = concat (map tq_out log) @ xs"
proof (induction rule: spec_replay.induct)
  case spec_nil
  show ?case by simp
next
  case (spec_run log y op r z)
  then obtain cap xs where y: "y = (cap, True, xs)"
    "concat (map tq_in log) = concat (map tq_out log) @ xs" by blast
  obtain cap' d' ys where z: "z = (cap', d', ys)" by (cases z)
  show ?case using tq_spec_conserves [of op cap xs r cap' d' ys] spec_run.hyps(2) y z by simp
next
  case (spec_expired log y op r)
  then show ?case using tq_expired_conserves [of op r] by auto
qed

text \<open>
  C5: Any number of threads may push to, pop from, clear and inspect one threaded queue. However
  their calls interleave, block, wake up or time out, at most one of them is in its critical
  section, no critical section faults (no access outside the array or to an unset cell, no failing
  assertion, no endless loop), and the queue behaves as a list: the results returned so far are
  those of the list operations \<open>tq_spec\<close> in the order of the critical sections.
\<close>

theorem ThreadedQueue_linearizable:
  assumes "ThreadedQueueNew True True True n d = Ptr q0" "monitor_reachable tq_exec tq_expired q0 m"
  shows "(\<exists>x. spec_replay tq_spec tq_expired (if n = 0 then TQ_DEFAULT_CAPACITY else n, d, []) (m_log m) x
      \<and> tq_rep (m_object m) x)
    \<and> (\<forall>op e. tq_exec op (m_object m) \<noteq> Fault e)
    \<and> (\<forall>t t' op op'. \<not> (t \<noteq> t' \<and> m_pc m t = Locked op \<and> m_pc m t' = Locked op'))"
  using tq.linearizable [OF assms(2) ThreadedQueueNew_rep [OF assms(1)]]
    tq.reachable_no_fault [OF assms(2) ThreadedQueueNew_rep [OF assms(1)]]
    mutual_exclusion [OF assms(2)] by metis

theorem ThreadedQueue_linearizable_witness:
  "\<exists>q0 (m :: (nat ThreadedQueue, nat tq_call, nat tq_ret) monitor).
    ThreadedQueueNew True True True 1 True = Ptr (q0 :: nat ThreadedQueue)
    \<and> m_log m = [(QPushN [Ptr 4, Ptr 5], RSize 2), (QPop 0, RPop True (Some (Ptr 4)))]
    \<and> (\<exists>x. spec_replay tq_spec tq_expired (1, True, []) (m_log m) x \<and> tq_rep (m_object m) x)"
proof -
  define q0 :: "nat ThreadedQueue" where "q0 = the (ThreadedQueueNew True True True 1 True)"
  have new: "ThreadedQueueNew True True True 1 True = Ptr q0"
    by (simp add: q0_def ThreadedQueueNew_def Let_def)
  from tq.serial_run [OF ThreadedQueueNew_rep [OF new],
      of "[(QPushN [Ptr 4, Ptr 5], RSize 2), (QPop 0, RPop True (Some (Ptr 4)))]"]
  obtain m where m: "monitor_reachable tq_exec tq_expired q0 m"
    "m_log m = [(QPushN [Ptr 4, Ptr 5], RSize 2), (QPop 0, RPop True (Some (Ptr 4)))]"
    by (auto simp: grown_def)
  from ThreadedQueue_linearizable [OF new m(1)] new m(2) show ?thesis
    by (intro exI [of _ q0] exI [of _ m]) auto
qed

text \<open>
  C2: First in, first out, across all threads, and nothing is lost or duplicated: on a queue with
  a destructor, the items pushed, in the order of the pushes, are the items popped or destroyed so
  far, in the order they left, followed by the items still in the queue.
\<close>

theorem ThreadedQueue_fifo:
  assumes "ThreadedQueueNew True True True n True = Ptr q0" "monitor_reachable tq_exec tq_expired q0 m"
  shows "\<exists>cap xs. tq_rep (m_object m) (cap, True, xs)
    \<and> concat (map tq_in (m_log m)) = concat (map tq_out (m_log m)) @ xs
    \<and> ThreadedQueueDestroy (Ptr (m_object m)) = Ok xs"
proof -
  from tq.linearizable [OF assms(2) ThreadedQueueNew_rep [OF assms(1)]] obtain x where
    x: "spec_replay tq_spec tq_expired (if n = 0 then TQ_DEFAULT_CAPACITY else n, True, []) (m_log m) x"
      "tq_rep (m_object m) x" by blast
  from tq_replay_conserves [OF x(1)] x(2) show ?thesis
    using ThreadedQueueDestroy_rep by fastforce
qed

theorem ThreadedQueue_fifo_witness:
  "\<exists>q0 (m :: (nat ThreadedQueue, nat tq_call, nat tq_ret) monitor) cap.
    ThreadedQueueNew True True True 1 True = Ptr (q0 :: nat ThreadedQueue)
    \<and> m_log m = [(QPushN [Ptr 4, Ptr 5], RSize 2), (QPop 0, RPop True (Some (Ptr 4)))]
    \<and> tq_rep (m_object m) (cap, True, [Ptr 5]) \<and> ThreadedQueueDestroy (Ptr (m_object m)) = Ok [Ptr 5]"
proof -
  define q0 :: "nat ThreadedQueue" where "q0 = the (ThreadedQueueNew True True True 1 True)"
  have new: "ThreadedQueueNew True True True 1 True = Ptr q0"
    by (simp add: q0_def ThreadedQueueNew_def Let_def)
  from tq.serial_run [OF ThreadedQueueNew_rep [OF new],
      of "[(QPushN [Ptr 4, Ptr 5], RSize 2), (QPop 0, RPop True (Some (Ptr 4)))]"]
  obtain m where m: "monitor_reachable tq_exec tq_expired q0 m"
    "m_log m = [(QPushN [Ptr 4, Ptr 5], RSize 2), (QPop 0, RPop True (Some (Ptr 4)))]"
    by (auto simp: grown_def)
  from ThreadedQueue_fifo [OF new m(1)] new m(2) show ?thesis by auto
qed

end
