(* ===== verification/ThreadedDeque.thy ===== *)
theory ThreadedDeque
  imports Circular Monitor
begin

text \<open>
  The blocking double-ended queue of libutils/threaded_deque.c, a circular array under a lock,
  modelled like theory ThreadedQueue. Here \<open>right\<close> is reduced modulo the capacity after every push.
\<close>

section \<open>Data and operations\<close>

definition TD_EXPAND_FACTOR :: nat where
  "TD_EXPAND_FACTOR = 2"

definition TD_DEFAULT_CAPACITY :: nat where
  "TD_DEFAULT_CAPACITY = 16"

record 'a ThreadedDeque =
  td_ItemDestroy :: bool
  td_data :: "'a ptr carray"
  td_left :: nat
  td_right :: nat
  td_size :: nat
  td_capacity :: nat

definition ThreadedDequeNew :: "bool \<Rightarrow> bool \<Rightarrow> bool \<Rightarrow> nat \<Rightarrow> bool \<Rightarrow> 'a ThreadedDeque ptr" where
  "ThreadedDequeNew mutex_ok cond_non_empty_ok cond_empty_ok initial_capacity ItemDestroy =
     (let cap = (if initial_capacity = 0 then TD_DEFAULT_CAPACITY else initial_capacity)
      in if \<not> mutex_ok then NULL
         else if \<not> cond_non_empty_ok then NULL
         else if \<not> cond_empty_ok then NULL
         else Ptr \<lparr>td_ItemDestroy = ItemDestroy, td_data = xmalloc cap, td_left = 0, td_right = 0,
                td_size = 0, td_capacity = cap\<rparr>)"

text \<open>
  The do-while loop of DestroyRange. \<open>start\<close> runs through the indices modulo the capacity, so when
  it has not met \<open>end\<close> after \<open>capacity\<close> rounds, the loop never ends.
\<close>

fun td_DestroyRange_loop :: "'a ptr carray \<Rightarrow> nat \<Rightarrow> nat \<Rightarrow> nat \<Rightarrow> nat \<Rightarrow> 'a ptr list res" where
  "td_DestroyRange_loop data capacity start stop 0 = Fault OutOfFuel"
| "td_DestroyRange_loop data capacity start stop (Suc n) =
     bindE (cread data start) (\<lambda>x.
     let start' = (start + 1) mod capacity
     in if start' \<noteq> stop
        then bindE (td_DestroyRange_loop data capacity start' stop n) (\<lambda>gone. Ok (x # gone))
        else Ok [x])"

definition td_DestroyRange :: "'a ThreadedDeque \<Rightarrow> nat \<Rightarrow> nat \<Rightarrow> 'a ptr list res" where
  "td_DestroyRange deque start stop =
     (if start > td_capacity deque \<or> stop > td_capacity deque then Ok []
      else if td_ItemDestroy deque \<and> td_size deque > 0
      then td_DestroyRange_loop (td_data deque) (td_capacity deque) start stop (td_capacity deque)
      else Ok [])"

definition td_ExpandIfNecessary :: "'a ThreadedDeque \<Rightarrow> 'a ThreadedDeque res" where
  "td_ExpandIfNecessary deque =
     bindE (c_assert (td_size deque \<le> td_capacity deque)) (\<lambda>_.
     if td_size deque = td_capacity deque
     then if td_right deque \<le> td_left deque
          then let old_capacity = td_capacity deque;
                   cap = old_capacity * TD_EXPAND_FACTOR;
                   d = xrealloc (td_data deque) cap
               in bindE (memmove d old_capacity 0 (td_right deque)) (\<lambda>d'.
                  Ok (deque\<lparr>td_capacity := cap, td_data := d',
                            td_right := td_right deque + old_capacity\<rparr>))
          else let cap = td_capacity deque * TD_EXPAND_FACTOR
               in Ok (deque\<lparr>td_capacity := cap, td_data := xrealloc (td_data deque) cap\<rparr>)
     else Ok deque)"

definition ThreadedDequePopLeft ::
  "'a ThreadedDeque \<Rightarrow> int \<Rightarrow> (bool \<times> 'a ptr, 'a ThreadedDeque) outcome res" where
  "ThreadedDequePopLeft deque timeout =
     (if td_size deque = 0 \<and> timeout \<noteq> 0 then Ok Wait
      else if td_size deque > 0
      then let left = td_left deque
           in bindE (cread (td_data deque) left) (\<lambda>item.
              bindE (cwrite (td_data deque) left NULL) (\<lambda>d.
              Ok (Done (True, item)
                (deque\<lparr>td_data := d, td_left := (left + 1) mod td_capacity deque,
                       td_size := td_size deque - 1\<rparr>))))
      else Ok (Done (False, NULL) deque))"

text \<open>\<open>right == 0 ? capacity - 1 : right - 1\<close> is \<open>dec_wrap right capacity\<close> of theory Circular.\<close>

definition ThreadedDequePopRight ::
  "'a ThreadedDeque \<Rightarrow> int \<Rightarrow> (bool \<times> 'a ptr, 'a ThreadedDeque) outcome res" where
  "ThreadedDequePopRight deque timeout =
     (if td_size deque = 0 \<and> timeout \<noteq> 0 then Ok Wait
      else if td_size deque > 0
      then let right = dec_wrap (td_right deque) (td_capacity deque)
           in bindE (cread (td_data deque) right) (\<lambda>item.
              bindE (cwrite (td_data deque) right NULL) (\<lambda>d.
              Ok (Done (True, item)
                (deque\<lparr>td_data := d, td_right := right, td_size := td_size deque - 1\<rparr>))))
      else Ok (Done (False, NULL) deque))"

definition ThreadedDequePopLeftN ::
  "'a ThreadedDeque \<Rightarrow> nat \<Rightarrow> int \<Rightarrow> (nat \<times> 'a ptr list ptr, 'a ThreadedDeque) outcome res" where
  "ThreadedDequePopLeftN deque num timeout =
     (if td_size deque = 0 \<and> timeout \<noteq> 0 then Ok Wait
      else let size = (if num < td_size deque then num else td_size deque)
           in if size > 0
              then bindE (circ_take (td_data deque) (td_capacity deque) (td_left deque) size) (\<lambda>(data, d, left).
                   Ok (Done (size, Ptr data)
                     (deque\<lparr>td_data := d, td_left := left, td_size := td_size deque - size\<rparr>)))
              else Ok (Done (size, NULL) deque))"

definition ThreadedDequePopRightN ::
  "'a ThreadedDeque \<Rightarrow> nat \<Rightarrow> int \<Rightarrow> (nat \<times> 'a ptr list ptr, 'a ThreadedDeque) outcome res" where
  "ThreadedDequePopRightN deque num timeout =
     (if td_size deque = 0 \<and> timeout \<noteq> 0 then Ok Wait
      else let size = (if num < td_size deque then num else td_size deque)
           in if size > 0
              then bindE (circ_take_right (td_data deque) (td_capacity deque) (td_right deque) size) (\<lambda>(data, d, right).
                   Ok (Done (size, Ptr data)
                     (deque\<lparr>td_data := d, td_right := right, td_size := td_size deque - size\<rparr>)))
              else Ok (Done (size, NULL) deque))"

definition ThreadedDequePushLeft ::
  "'a ThreadedDeque \<Rightarrow> 'a ptr \<Rightarrow> (nat, 'a ThreadedDeque) outcome res" where
  "ThreadedDequePushLeft deque item =
     bindE (td_ExpandIfNecessary deque) (\<lambda>q.
     let left = dec_wrap (td_left q) (td_capacity q)
     in bindE (cwrite (td_data q) left item) (\<lambda>d.
        Ok (Done (td_size q + 1) (q\<lparr>td_left := left, td_data := d, td_size := td_size q + 1\<rparr>))))"

definition ThreadedDequePushRight ::
  "'a ThreadedDeque \<Rightarrow> 'a ptr \<Rightarrow> (nat, 'a ThreadedDeque) outcome res" where
  "ThreadedDequePushRight deque item =
     bindE (td_ExpandIfNecessary deque) (\<lambda>q.
     bindE (cwrite (td_data q) (td_right q) item) (\<lambda>d.
     Ok (Done (td_size q + 1)
       (q\<lparr>td_data := d, td_right := (td_right q + 1) mod td_capacity q, td_size := td_size q + 1\<rparr>))))"

definition ThreadedDequeCount :: "'a ThreadedDeque \<Rightarrow> nat" where
  "ThreadedDequeCount deque = td_size deque"

definition ThreadedDequeCapacity :: "'a ThreadedDeque \<Rightarrow> nat" where
  "ThreadedDequeCapacity deque = td_capacity deque"

definition ThreadedDequeIsEmpty :: "'a ThreadedDeque \<Rightarrow> bool" where
  "ThreadedDequeIsEmpty deque \<longleftrightarrow> td_size deque = 0"

definition ThreadedDequeWaitEmpty ::
  "'a ThreadedDeque \<Rightarrow> int \<Rightarrow> (bool, 'a ThreadedDeque) outcome" where
  "ThreadedDequeWaitEmpty deque timeout =
     (if td_size deque = 0 then Done True deque
      else if timeout = 0 then Done False deque
      else Wait)"

definition ThreadedDequeCopy ::
  "bool \<Rightarrow> bool \<Rightarrow> bool \<Rightarrow> 'a ThreadedDeque \<Rightarrow> 'a ThreadedDeque ptr res" where
  "ThreadedDequeCopy mutex_ok cond_non_empty_ok cond_empty_ok deque =
     (if td_capacity deque \<le> length (td_data deque)
      then let new_deque = deque\<lparr>td_data := take (td_capacity deque) (td_data deque)\<rparr>
           in Ok (if mutex_ok \<and> cond_non_empty_ok \<and> cond_empty_ok then Ptr new_deque else NULL)
      else Fault OutOfBounds)"

definition ThreadedDequeDestroy :: "'a ThreadedDeque ptr \<Rightarrow> 'a ptr list res" where
  "ThreadedDequeDestroy deque = (case deque of
     NULL \<Rightarrow> Ok []
   | Ptr q \<Rightarrow> td_DestroyRange q (td_left q) (td_right q))"

section \<open>Representation\<close>

definition td_rep :: "'a ThreadedDeque \<Rightarrow> nat \<times> bool \<times> 'a ptr list \<Rightarrow> bool" where
  "td_rep q = (\<lambda>(cap, d, xs).
     circ (td_data q) (td_left q) xs \<and> td_size q = length xs
     \<and> td_capacity q = cap \<and> length (td_data q) = cap \<and> td_ItemDestroy q = d
     \<and> td_right q = (td_left q + length xs) mod cap)"

lemma td_repD:
  assumes "td_rep q (cap, d, xs)"
  shows "circ (td_data q) (td_left q) xs" "td_size q = length xs" "td_capacity q = cap"
    "length (td_data q) = cap" "td_ItemDestroy q = d" "td_right q = (td_left q + length xs) mod cap"
    "0 < cap" "td_left q < cap" "length xs \<le> cap"
  using assms circD [of "td_data q" "td_left q" xs] by (auto simp: td_rep_def)

lemma ThreadedDequeNew_rep:
  assumes "ThreadedDequeNew m c1 c2 n d = Ptr q"
  shows "td_rep q (if n = 0 then TD_DEFAULT_CAPACITY else n, d, [])"
  using assms by (auto simp: ThreadedDequeNew_def td_rep_def TD_DEFAULT_CAPACITY_def split: if_splits)

lemma td_DestroyRange_loop_ok:
  assumes "circ a h xs"
  shows "j < length xs \<Longrightarrow> length xs - j \<le> n \<Longrightarrow>
    td_DestroyRange_loop a (length a) ((h + j) mod length a) ((h + length xs) mod length a) n
      = Ok (drop j xs)"
proof (induction n arbitrary: j)
  case (Suc n)
  note c = circD [OF assms]
  have d: "drop j xs = xs ! j # drop (Suc j) xs" using Suc.prems(1) by (simp add: Cons_nth_drop_Suc)
  have next_i: "((h + j) mod length a + 1) mod length a = (h + Suc j) mod length a"
    by (simp add: mod_Suc_eq)
  show ?case
  proof (cases "Suc j = length xs")
    case True
    then show ?thesis using circ_read [OF assms Suc.prems(1)] d next_i by simp
  next
    case False
    then have lt: "Suc j < length xs" using Suc.prems(1) by simp
    have "(h + Suc j) mod length a \<noteq> (h + length xs) mod length a"
    proof
      assume eq: "(h + Suc j) mod length a = (h + length xs) mod length a"
      consider "length xs < length a" | "length xs = length a" using c(1) by linarith
      then show False
        using mod_offset_inj [of h "Suc j" "length a" "length xs"]
          mod_offset_inj [of h "Suc j" "length a" 0] eq lt c(3) by cases auto
    qed
    then show ?thesis
      using circ_read [OF assms Suc.prems(1)] d next_i Suc.IH [OF lt] Suc.prems(2) by simp
  qed
qed simp

lemma ThreadedDequeDestroy_rep:
  assumes "td_rep q (cap, d, xs)"
  shows "ThreadedDequeDestroy (Ptr q) = Ok (if d then xs else [])"
proof (cases "d \<and> xs \<noteq> []")
  case True
  note r = td_repD [OF assms]
  have "td_DestroyRange_loop (td_data q) cap (td_left q) (td_right q) cap = Ok xs"
    using td_DestroyRange_loop_ok [OF r(1), of 0 cap] r(4,6,8,9) True by simp
  moreover have "td_right q \<le> cap" using r(6,7) by simp
  ultimately show ?thesis using r(2,3,5,8) True
    by (simp add: ThreadedDequeDestroy_def td_DestroyRange_def)
next
  case False
  then show ?thesis using td_repD(2,5) [OF assms]
    by (auto simp: ThreadedDequeDestroy_def td_DestroyRange_def)
qed

lemma td_ExpandIfNecessary_rep:
  assumes "td_rep q (cap, d, xs)"
  shows "\<exists>q'. td_ExpandIfNecessary q = Ok q' \<and> td_rep q' (grown cap (length xs), d, xs)
    \<and> length xs < grown cap (length xs)"
proof (cases "length xs = cap")
  case False
  then show ?thesis using td_repD(2,3,9) [OF assms] assms
    by (simp add: td_ExpandIfNecessary_def grown_def)
next
  case True
  note r = td_repD [OF assms]
  have t: "td_right q = td_left q" using r(6,8) True by simp
  from circ_expand_wrapped [OF r(1)] True r(4) obtain b where
    b: "memmove (xrealloc (td_data q) (cap * 2)) cap 0 (td_left q) = Ok b" "length b = cap * 2"
      "circ b (td_left q) xs" by auto
  have "td_ExpandIfNecessary q = Ok (q\<lparr>td_capacity := cap * 2, td_data := b,
      td_right := td_left q + cap\<rparr>)"
    using b(1) r(2,3) t True
    by (simp add: td_ExpandIfNecessary_def TD_EXPAND_FACTOR_def Let_def)
  moreover have "(td_left q + cap) mod (cap * 2) = td_left q + cap"
    using r(8) by simp
  ultimately show ?thesis using r(2,5,7) b(2,3) True by (simp add: td_rep_def grown_def)
qed

lemma ThreadedDequePushRight_rep:
  assumes "td_rep q (cap, d, xs)"
  shows "\<exists>q'. ThreadedDequePushRight q x = Ok (Done (length xs + 1) q')
    \<and> td_rep q' (grown cap (length xs), d, xs @ [x])"
proof -
  from td_ExpandIfNecessary_rep [OF assms] obtain q1 where q1: "td_ExpandIfNecessary q = Ok q1"
    "td_rep q1 (grown cap (length xs), d, xs)" "length xs < grown cap (length xs)" by blast
  note r = td_repD [OF q1(2)]
  have lt: "td_right q1 < length (td_data q1)" using r(4,6,7) by simp
  have "circ ((td_data q1)[td_right q1 := Val x]) (td_left q1) (xs @ [x])"
    using circ_push_last [OF r(1)] q1(3) r(4,6) by simp
  then show ?thesis using q1(1) r lt
    by (simp add: ThreadedDequePushRight_def td_rep_def mod_Suc_eq)
qed

lemma ThreadedDequePushLeft_rep:
  assumes "td_rep q (cap, d, xs)"
  shows "\<exists>q'. ThreadedDequePushLeft q x = Ok (Done (length xs + 1) q')
    \<and> td_rep q' (grown cap (length xs), d, x # xs)"
proof -
  from td_ExpandIfNecessary_rep [OF assms] obtain q1 where q1: "td_ExpandIfNecessary q = Ok q1"
    "td_rep q1 (grown cap (length xs), d, xs)" "length xs < grown cap (length xs)" by blast
  note r = td_repD [OF q1(2)]
  define l where "l = dec_wrap (td_left q1) (grown cap (length xs))"
  have lt: "l < length (td_data q1)" using r(4,8) by (simp add: l_def)
  have "circ ((td_data q1)[l := Val x]) l (x # xs)"
    using circ_push_first [OF r(1)] q1(3) r(4) by (simp add: l_def)
  moreover have "td_right q1 = Suc (l + length xs) mod grown cap (length xs)"
    using dec_wrap_Suc [OF r(8), of "length xs"] r(6) by (simp add: l_def)
  ultimately show ?thesis using q1(1) r(2-5) lt
    by (simp add: ThreadedDequePushLeft_def td_rep_def Let_def l_def [symmetric])
qed

lemma td_take_rep:
  assumes "td_rep q (cap, d, xs)" "n \<le> length xs"
  shows "\<exists>b h. circ_take (td_data q) (td_capacity q) (td_left q) n = Ok (take n xs, b, h)
    \<and> td_rep (q\<lparr>td_data := b, td_left := h, td_size := td_size q - n\<rparr>) (cap, d, drop n xs)"
proof -
  note r = td_repD [OF assms(1)]
  from circ_take_ok [OF r(1) assms(2)] r(3,4) obtain b where
    b: "circ_take (td_data q) (td_capacity q) (td_left q) n = Ok (take n xs, b, (td_left q + n) mod cap)"
      "length b = cap" "circ b ((td_left q + n) mod cap) (drop n xs)" by auto
  have "((td_left q + n) mod cap + length (drop n xs)) mod cap = (td_left q + length xs) mod cap"
    by (subst length_drop, subst mod_add_left_eq) (use assms(2) in simp)
  then have "td_rep (q\<lparr>td_data := b, td_left := (td_left q + n) mod cap, td_size := td_size q - n\<rparr>)
      (cap, d, drop n xs)"
    using r(2,3,5,6) b(2,3) by (simp add: td_rep_def)
  with b(1) show ?thesis by blast
qed

lemma td_take_right_rep:
  assumes "td_rep q (cap, d, xs)" "n \<le> length xs"
  shows "\<exists>b r. circ_take_right (td_data q) (td_capacity q) (td_right q) n = Ok (take n (rev xs), b, r)
    \<and> td_rep (q\<lparr>td_data := b, td_right := r, td_size := td_size q - n\<rparr>)
        (cap, d, take (length xs - n) xs)"
proof -
  note r = td_repD [OF assms(1)]
  from circ_take_right_ok [OF r(1) assms(2)] r(3,4,6) obtain b where
    b: "circ_take_right (td_data q) (td_capacity q) (td_right q) n
        = Ok (take n (rev xs), b, (td_left q + (length xs - n)) mod cap)"
      "length b = cap" "circ b (td_left q) (take (length xs - n) xs)" by auto
  have "td_rep (q\<lparr>td_data := b, td_right := (td_left q + (length xs - n)) mod cap,
      td_size := td_size q - n\<rparr>) (cap, d, take (length xs - n) xs)"
    using r(2,3,5) b(2,3) by (simp add: td_rep_def)
  with b(1) show ?thesis by blast
qed

lemma ThreadedDequePopLeft_rep:
  assumes "td_rep q (cap, d, x # xs)"
  shows "\<exists>q'. ThreadedDequePopLeft q t = Ok (Done (True, x) q') \<and> td_rep q' (cap, d, xs)"
proof -
  from td_take_rep [OF assms, of 1] obtain b h where
    "circ_take (td_data q) (td_capacity q) (td_left q) 1 = Ok ([x], b, h)"
    "td_rep (q\<lparr>td_data := b, td_left := h, td_size := td_size q - 1\<rparr>) (cap, d, xs)" by auto
  then show ?thesis using td_repD(2) [OF assms] by (auto simp: ThreadedDequePopLeft_def Let_def)
qed

lemma ThreadedDequePopRight_rep:
  assumes "td_rep q (cap, d, xs @ [x])"
  shows "\<exists>q'. ThreadedDequePopRight q t = Ok (Done (True, x) q') \<and> td_rep q' (cap, d, xs)"
proof -
  from td_take_right_rep [OF assms, of 1] obtain b r where
    "circ_take_right (td_data q) (td_capacity q) (td_right q) 1 = Ok ([x], b, r)"
    "td_rep (q\<lparr>td_data := b, td_right := r, td_size := td_size q - 1\<rparr>) (cap, d, xs)" by auto
  then show ?thesis using td_repD(2) [OF assms] by (auto simp: ThreadedDequePopRight_def Let_def)
qed

lemma ThreadedDequeCopy_rep:
  assumes "td_rep q x"
  shows "\<exists>c. ThreadedDequeCopy True True True q = Ok (Ptr c) \<and> td_rep c x"
  using assms by (cases x) (auto simp: ThreadedDequeCopy_def td_rep_def Let_def)

section \<open>Calls from many threads\<close>

datatype 'a td_call =
    DPopLeft int
  | DPopRight int
  | DPopLeftN nat int
  | DPopRightN nat int
  | DPushLeft "'a ptr"
  | DPushRight "'a ptr"
  | DCount
  | DCapacity
  | DIsEmpty
  | DWaitEmpty int

datatype 'a td_ret =
    DItem bool "'a ptr option"
  | DItems nat "'a ptr list ptr"
  | DSize nat
  | DBool bool

fun td_exec :: "'a td_call \<Rightarrow> 'a ThreadedDeque \<Rightarrow> ('a td_ret, 'a ThreadedDeque) outcome res" where
  "td_exec (DPopLeft t) q = ret_as (\<lambda>(b, x). DItem b (Some x)) (ThreadedDequePopLeft q t)"
| "td_exec (DPopRight t) q = ret_as (\<lambda>(b, x). DItem b (Some x)) (ThreadedDequePopRight q t)"
| "td_exec (DPopLeftN n t) q = ret_as (\<lambda>(k, xs). DItems k xs) (ThreadedDequePopLeftN q n t)"
| "td_exec (DPopRightN n t) q = ret_as (\<lambda>(k, xs). DItems k xs) (ThreadedDequePopRightN q n t)"
| "td_exec (DPushLeft x) q = ret_as DSize (ThreadedDequePushLeft q x)"
| "td_exec (DPushRight x) q = ret_as DSize (ThreadedDequePushRight q x)"
| "td_exec DCount q = Ok (Done (DSize (ThreadedDequeCount q)) q)"
| "td_exec DCapacity q = Ok (Done (DSize (ThreadedDequeCapacity q)) q)"
| "td_exec DIsEmpty q = Ok (Done (DBool (ThreadedDequeIsEmpty q)) q)"
| "td_exec (DWaitEmpty t) q = Ok (map_outcome DBool (ThreadedDequeWaitEmpty q t))"

fun td_expired :: "'a td_call \<Rightarrow> 'a td_ret option" where
  "td_expired (DPopLeft t) = (if t = THREAD_BLOCK_INDEFINITELY then None else Some (DItem False None))"
| "td_expired (DPopRight t) = (if t = THREAD_BLOCK_INDEFINITELY then None else Some (DItem False None))"
| "td_expired (DPopLeftN n t) = (if t = THREAD_BLOCK_INDEFINITELY then None else Some (DItems 0 NULL))"
| "td_expired (DPopRightN n t) = (if t = THREAD_BLOCK_INDEFINITELY then None else Some (DItems 0 NULL))"
| "td_expired (DWaitEmpty t) = (if t = THREAD_BLOCK_INDEFINITELY then None else Some (DBool False))"
| "td_expired _ = None"

fun td_spec :: "'a td_call \<Rightarrow> nat \<times> bool \<times> 'a ptr list \<Rightarrow> ('a td_ret \<times> nat \<times> bool \<times> 'a ptr list) option" where
  "td_spec (DPopLeft t) (cap, d, xs) =
     (if xs = [] then if t \<noteq> 0 then None else Some (DItem False (Some NULL), cap, d, [])
      else Some (DItem True (Some (hd xs)), cap, d, tl xs))"
| "td_spec (DPopRight t) (cap, d, xs) =
     (if xs = [] then if t \<noteq> 0 then None else Some (DItem False (Some NULL), cap, d, [])
      else Some (DItem True (Some (last xs)), cap, d, butlast xs))"
| "td_spec (DPopLeftN n t) (cap, d, xs) =
     (if xs = [] \<and> t \<noteq> 0 then None
      else let ys = take n xs
           in Some (DItems (length ys) (if ys = [] then NULL else Ptr ys), cap, d, drop n xs))"
| "td_spec (DPopRightN n t) (cap, d, xs) =
     (if xs = [] \<and> t \<noteq> 0 then None
      else let ys = take n (rev xs)
           in Some (DItems (length ys) (if ys = [] then NULL else Ptr ys), cap, d, take (length xs - n) xs))"
| "td_spec (DPushLeft x) (cap, d, xs) = Some (DSize (length xs + 1), grown cap (length xs), d, x # xs)"
| "td_spec (DPushRight x) (cap, d, xs) = Some (DSize (length xs + 1), grown cap (length xs), d, xs @ [x])"
| "td_spec DCount (cap, d, xs) = Some (DSize (length xs), cap, d, xs)"
| "td_spec DCapacity (cap, d, xs) = Some (DSize cap, cap, d, xs)"
| "td_spec DIsEmpty (cap, d, xs) = Some (DBool (xs = []), cap, d, xs)"
| "td_spec (DWaitEmpty t) (cap, d, xs) =
     (if xs = [] then Some (DBool True, cap, d, xs)
      else if t = 0 then Some (DBool False, cap, d, xs) else None)"

text \<open>One lemma per kind of call, then the contract of the monitor.\<close>

lemma td_exec_pop:
  assumes "td_rep q (cap, d, xs)"
  shows "follows td_rep (td_spec (DPopLeft t) (cap, d, xs)) (td_exec (DPopLeft t) q)"
    "follows td_rep (td_spec (DPopRight t) (cap, d, xs)) (td_exec (DPopRight t) q)"
proof -
  note size = td_repD(2) [OF assms]
  show "follows td_rep (td_spec (DPopLeft t) (cap, d, xs)) (td_exec (DPopLeft t) q)"
  proof (cases xs)
    case Nil
    then show ?thesis using assms size by (auto simp: follows_def ThreadedDequePopLeft_def ret_as_def)
  next
    case (Cons x ys)
    with ThreadedDequePopLeft_rep [of q cap d x ys t] assms show ?thesis
      by (auto simp: follows_def ret_as_def)
  qed
  show "follows td_rep (td_spec (DPopRight t) (cap, d, xs)) (td_exec (DPopRight t) q)"
  proof (cases xs rule: rev_cases)
    case Nil
    then show ?thesis using assms size by (auto simp: follows_def ThreadedDequePopRight_def ret_as_def)
  next
    case (snoc ys x)
    with ThreadedDequePopRight_rep [of q cap d ys x t] assms show ?thesis
      by (auto simp: follows_def ret_as_def)
  qed
qed

lemma min_length_take: "(if n < length xs then n else length xs) = length (take n xs)"
  by auto

lemma td_exec_pop_left_n:
  assumes "td_rep q (cap, d, xs)"
  shows "follows td_rep (td_spec (DPopLeftN n t) (cap, d, xs)) (td_exec (DPopLeftN n t) q)"
proof (cases "take n xs = []")
  case True
  then show ?thesis using assms td_repD(2) [OF assms]
    by (auto simp: follows_def ret_as_def ThreadedDequePopLeftN_def Let_def)
next
  case False
  let ?k = "length (take n xs)"
  have k: "?k \<le> length xs" "take ?k xs = take n xs" "drop ?k xs = drop n xs"
    by (auto simp: min_def)
  note size = td_repD(2) [OF assms]
  from td_take_rep [OF assms k(1)] k obtain b h where
    b: "circ_take (td_data q) (td_capacity q) (td_left q) ?k = Ok (take n xs, b, h)"
      "td_rep (q\<lparr>td_data := b, td_left := h, td_size := length xs - ?k\<rparr>) (cap, d, drop n xs)"
    unfolding size by metis
  have "ThreadedDequePopLeftN q n t = Ok (Done (?k, Ptr (take n xs))
      (q\<lparr>td_data := b, td_left := h, td_size := length xs - ?k\<rparr>))"
    unfolding ThreadedDequePopLeftN_def size min_length_take Let_def
    using b(1) False by (simp del: length_take)
  then show ?thesis using b(2) False by (intro followsI(1)) (auto simp: ret_as_def Let_def)
qed

lemma td_exec_pop_right_n:
  assumes "td_rep q (cap, d, xs)"
  shows "follows td_rep (td_spec (DPopRightN n t) (cap, d, xs)) (td_exec (DPopRightN n t) q)"
proof (cases "take n (rev xs) = []")
  case True
  then show ?thesis using assms td_repD(2) [OF assms]
    by (auto simp: follows_def ret_as_def ThreadedDequePopRightN_def Let_def)
next
  case False
  let ?k = "length (take n xs)"
  have k: "?k \<le> length xs" "take ?k (rev xs) = take n (rev xs)"
    "take (length xs - ?k) xs = take (length xs - n) xs"
    by (auto simp: min_def)
  note size = td_repD(2) [OF assms]
  from td_take_right_rep [OF assms k(1)] k(2,3) obtain b r where
    b: "circ_take_right (td_data q) (td_capacity q) (td_right q) ?k = Ok (take n (rev xs), b, r)"
      "td_rep (q\<lparr>td_data := b, td_right := r, td_size := length xs - ?k\<rparr>)
        (cap, d, take (length xs - n) xs)"
    unfolding size by metis
  have "ThreadedDequePopRightN q n t = Ok (Done (?k, Ptr (take n (rev xs)))
      (q\<lparr>td_data := b, td_right := r, td_size := length xs - ?k\<rparr>))"
    unfolding ThreadedDequePopRightN_def size min_length_take Let_def
    using b(1) False by (simp del: length_take)
  then show ?thesis using b(2) False by (intro followsI(1)) (auto simp: ret_as_def Let_def)
qed

lemma td_exec_spec:
  assumes "td_rep q x"
  shows "follows td_rep (td_spec op x) (td_exec op q)"
proof -
  obtain cap d xs where x: "x = (cap, d, xs)" by (cases x)
  with assms have rep: "td_rep q (cap, d, xs)" by simp
  note r = td_repD(2,3) [OF rep]
  show ?thesis unfolding x
  proof (cases op)
    case (DPushLeft y)
    then show "follows td_rep (td_spec op (cap, d, xs)) (td_exec op q)"
      using ThreadedDequePushLeft_rep [OF rep, of y] by (auto simp: follows_def ret_as_def)
  next
    case (DPushRight y)
    then show "follows td_rep (td_spec op (cap, d, xs)) (td_exec op q)"
      using ThreadedDequePushRight_rep [OF rep, of y] by (auto simp: follows_def ret_as_def)
  next
    case (DWaitEmpty t)
    then show "follows td_rep (td_spec op (cap, d, xs)) (td_exec op q)"
      using r rep by (auto simp: follows_def ThreadedDequeWaitEmpty_def)
  qed (use td_exec_pop [OF rep] td_exec_pop_left_n [OF rep] td_exec_pop_right_n [OF rep]
      r rep in \<open>simp_all add: follows_def ThreadedDequeCount_def ThreadedDequeCapacity_def
        ThreadedDequeIsEmpty_def\<close>)
qed

interpretation td: locked_object td_rep td_exec td_expired td_spec
  by unfold_locales (rule td_exec_spec)

lemma td_spec_flag: "td_spec op (cap, d, xs) = Some (r, cap', d', ys) \<Longrightarrow> d' = d"
  by (cases op) (auto simp: Let_def split: if_splits)

lemma td_replay_flag:
  "spec_replay td_spec td_expired (cap0, d, xs0) log x \<Longrightarrow> fst (snd x) = d"
proof (induction rule: spec_replay.induct)
  case (spec_run log y op r z)
  obtain cap e xs where y: "y = (cap, e, xs)" by (cases y)
  obtain cap' e' ys where z: "z = (cap', e', ys)" by (cases z)
  show ?case using spec_run td_spec_flag [of op cap e xs r cap' e' ys] y z by simp
qed simp_all

section \<open>Properties\<close>

text \<open>
  C6: Any number of threads may use both ends of one threaded deque. However their calls
  interleave, block, wake up or time out, no critical section faults, the results so far are those
  of the operations \<open>td_spec\<close> on a list, in the order of the critical sections, and destroying the
  deque passes exactly the items of that list, left to right, to the destructor.
\<close>

theorem ThreadedDeque_linearizable:
  assumes "ThreadedDequeNew True True True n d = Ptr q0" "monitor_reachable td_exec td_expired q0 m"
  shows "(\<exists>cap xs. spec_replay td_spec td_expired (if n = 0 then TD_DEFAULT_CAPACITY else n, d, [])
        (m_log m) (cap, d, xs)
      \<and> td_rep (m_object m) (cap, d, xs)
      \<and> ThreadedDequeDestroy (Ptr (m_object m)) = Ok (if d then xs else []))
    \<and> (\<forall>op e. td_exec op (m_object m) \<noteq> Fault e)"
proof -
  note new = ThreadedDequeNew_rep [OF assms(1)]
  from td.linearizable [OF assms(2) new] obtain cap d' xs where
    x: "spec_replay td_spec td_expired (if n = 0 then TD_DEFAULT_CAPACITY else n, d, []) (m_log m) (cap, d', xs)"
      "td_rep (m_object m) (cap, d', xs)" by (metis prod_cases3)
  from td_replay_flag [OF x(1)] have "d' = d" by simp
  with x ThreadedDequeDestroy_rep [OF x(2)] td.reachable_no_fault [OF assms(2) new] show ?thesis by blast
qed

theorem ThreadedDeque_linearizable_witness:
  "\<exists>q0 (m :: (nat ThreadedDeque, nat td_call, nat td_ret) monitor) cap xs.
    ThreadedDequeNew True True True 1 True = Ptr (q0 :: nat ThreadedDeque)
    \<and> m_log m = [(DPushRight (Ptr 4), DSize 1), (DPushLeft (Ptr 5), DSize 2),
        (DPopRight 0, DItem True (Some (Ptr 4)))]
    \<and> td_rep (m_object m) (cap, True, xs) \<and> ThreadedDequeDestroy (Ptr (m_object m)) = Ok xs"
proof -
  define q0 :: "nat ThreadedDeque" where "q0 = the (ThreadedDequeNew True True True 1 True)"
  have new: "ThreadedDequeNew True True True 1 True = Ptr q0"
    by (simp add: q0_def ThreadedDequeNew_def Let_def)
  from td.serial_run [OF ThreadedDequeNew_rep [OF new],
      of "[(DPushRight (Ptr 4), DSize 1), (DPushLeft (Ptr 5), DSize 2),
        (DPopRight 0, DItem True (Some (Ptr 4)))]"]
  obtain m where m: "monitor_reachable td_exec td_expired q0 m"
    "m_log m = [(DPushRight (Ptr 4), DSize 1), (DPushLeft (Ptr 5), DSize 2),
        (DPopRight 0, DItem True (Some (Ptr 4)))]"
    by (auto simp: grown_def)
  from ThreadedDeque_linearizable [OF new m(1)] new m(2) show ?thesis
    by (intro exI [of _ q0] exI [of _ m]) auto
qed

end
