(* ===== verification/ThreadedLive.thy ===== *)
theory ThreadedLive
  imports Signals ThreadedQueue ThreadedDeque
begin

text \<open>
  The condition variables of threaded_queue.c and threaded_deque.c: which condition a call waits for,
  which one it signals when it is done, and whether the threads that wait are woken. A pop that times out
  returns without passing on a signal it may have received, so that the positive results are about pops that
  wait without a time-out or not at all; WaitEmpty, whose condition is broadcast, may time out.
\<close>

section \<open>The queue\<close>

fun tq_on :: "'a tq_call \<Rightarrow> condition option" where
  "tq_on (QPop t) = (if t = 0 then None else Some NonEmpty)"
| "tq_on (QPopN n t) = (if t = 0 then None else Some NonEmpty)"
| "tq_on (QPopNIntoArray n t) = (if t = 0 then None else Some NonEmpty)"
| "tq_on (QWaitEmpty t) = (if t = 0 then None else Some Empty)"
| "tq_on _ = None"

text \<open>The signal a call gives before it releases the lock, with the queue as it leaves it.\<close>

fun tq_notify :: "'a tq_call \<Rightarrow> 'a ThreadedQueue \<Rightarrow> notification" where
  "tq_notify (QPop t) q = (if tq_size q = 0 then Broadcast Empty else Quiet)"
| "tq_notify (QPopN n t) q = (if tq_size q = 0 then Broadcast Empty else Quiet)"
| "tq_notify (QPopNIntoArray n t) q = (if tq_size q = 0 then Broadcast Empty else Quiet)"
| "tq_notify (QPush x) q = Signal NonEmpty"
| "tq_notify (QPushN xs) q = Signal NonEmpty"
| "tq_notify QClear q = Broadcast Empty"
| "tq_notify (QClearAndPush x) q = Signal NonEmpty"
| "tq_notify _ q = Quiet"

text \<open>Calls that push one item at a time, and pop at least one without a finite time-out.\<close>

definition untimed :: "int \<Rightarrow> bool" where
  "untimed t \<longleftrightarrow> t = 0 \<or> t = THREAD_BLOCK_INDEFINITELY"

fun tq_single :: "'a tq_call \<Rightarrow> bool" where
  "tq_single (QPushN xs) \<longleftrightarrow> length xs \<le> 1"
| "tq_single (QPop t) \<longleftrightarrow> untimed t"
| "tq_single (QPopN n t) \<longleftrightarrow> n \<noteq> 0 \<and> untimed t"
| "tq_single (QPopNIntoArray n t) \<longleftrightarrow> n \<noteq> 0 \<and> untimed t"
| "tq_single _ \<longleftrightarrow> True"

lemma followsD:
  assumes "follows rep sp oc"
  shows "oc = Ok Wait \<longleftrightarrow> sp = None" "oc = Ok (Done r s') \<Longrightarrow> \<exists>x'. sp = Some (r, x') \<and> rep s' x'"
  using assms by (auto simp: follows_def split: option.splits)

lemma tq_level: "tq_rep q (cap, d, xs) \<Longrightarrow> tq_size q = length xs"
  by (rule tq_repD(2))

interpretation tqs: signalled_buffer tq_rep tq_exec tq_expired tq_spec tq_on tq_notify tq_size tq_single
proof unfold_locales
  fix s :: "'a ThreadedQueue" and x op
  assume rep: "tq_rep s x"
  obtain cap d xs where x: "x = (cap, d, xs)" by (cases x)
  note lev = tq_level [OF rep [unfolded x]]
  show "tq_exec op s = Ok Wait \<longleftrightarrow>
      (case tq_on op of None \<Rightarrow> False | Some NonEmpty \<Rightarrow> tq_size s = 0 | Some Empty \<Rightarrow> tq_size s \<noteq> 0)"
    unfolding followsD(1) [OF tq_exec_spec [OF rep]] lev x by (cases op) (auto split: list.splits)
next
  fix s :: "'a ThreadedQueue" and x op r s'
  assume rep: "tq_rep s x" and run: "tq_exec op s = Ok (Done r s')"
  obtain cap d xs where x: "x = (cap, d, xs)" by (cases x)
  obtain cap' d' ys where y: "tq_spec op (cap, d, xs) = Some (r, cap', d', ys)" "tq_rep s' (cap', d', ys)"
    using followsD(2) [OF tq_exec_spec [OF rep] run] x by (metis prod_cases3)
  note lev = tq_level [OF rep [unfolded x]] tq_level [OF y(2)]
  show "tq_single op \<Longrightarrow> tq_size s' \<le> tq_size s + (if tq_notify op s' = Signal NonEmpty then 1 else 0)"
    using y(1) unfolding lev by (cases op) (auto split: list.splits if_splits)
  show "tq_single op \<Longrightarrow> tq_on op = Some NonEmpty \<Longrightarrow> tq_size s' < tq_size s"
    using y(1) unfolding lev by (cases op) (auto split: list.splits if_splits)
  show "tq_size s \<noteq> 0 \<Longrightarrow> tq_size s' = 0 \<Longrightarrow> tq_notify op s' = Broadcast Empty"
    using y(1) lev by (cases op) (auto split: list.splits if_splits)
next
  fix op :: "'a tq_call"
  show "tq_single op \<Longrightarrow> tq_on op = Some NonEmpty \<Longrightarrow> tq_expired op = None"
    by (cases op) (auto simp: untimed_def split: if_splits)
qed

section \<open>The deque\<close>

fun td_on :: "'a td_call \<Rightarrow> condition option" where
  "td_on (DPopLeft t) = (if t = 0 then None else Some NonEmpty)"
| "td_on (DPopRight t) = (if t = 0 then None else Some NonEmpty)"
| "td_on (DPopLeftN n t) = (if t = 0 then None else Some NonEmpty)"
| "td_on (DPopRightN n t) = (if t = 0 then None else Some NonEmpty)"
| "td_on (DWaitEmpty t) = (if t = 0 then None else Some Empty)"
| "td_on _ = None"

fun td_notify :: "'a td_call \<Rightarrow> 'a ThreadedDeque \<Rightarrow> notification" where
  "td_notify (DPopLeft t) q = (if td_size q = 0 then Broadcast Empty else Quiet)"
| "td_notify (DPopRight t) q = (if td_size q = 0 then Broadcast Empty else Quiet)"
| "td_notify (DPopLeftN n t) q = (if td_size q = 0 then Broadcast Empty else Quiet)"
| "td_notify (DPopRightN n t) q = (if td_size q = 0 then Broadcast Empty else Quiet)"
| "td_notify (DPushLeft x) q = Signal NonEmpty"
| "td_notify (DPushRight x) q = Signal NonEmpty"
| "td_notify _ q = Quiet"

fun td_single :: "'a td_call \<Rightarrow> bool" where
  "td_single (DPopLeft t) \<longleftrightarrow> untimed t"
| "td_single (DPopRight t) \<longleftrightarrow> untimed t"
| "td_single (DPopLeftN n t) \<longleftrightarrow> n \<noteq> 0 \<and> untimed t"
| "td_single (DPopRightN n t) \<longleftrightarrow> n \<noteq> 0 \<and> untimed t"
| "td_single _ \<longleftrightarrow> True"

interpretation tds: signalled_buffer td_rep td_exec td_expired td_spec td_on td_notify td_size td_single
proof unfold_locales
  fix s :: "'a ThreadedDeque" and x op
  assume rep: "td_rep s x"
  obtain cap d xs where x: "x = (cap, d, xs)" by (cases x)
  note lev = td_repD(2) [OF rep [unfolded x]]
  show "td_exec op s = Ok Wait \<longleftrightarrow>
      (case td_on op of None \<Rightarrow> False | Some NonEmpty \<Rightarrow> td_size s = 0 | Some Empty \<Rightarrow> td_size s \<noteq> 0)"
    unfolding followsD(1) [OF td_exec_spec [OF rep]] lev x by (cases op) (auto simp: Let_def)
next
  fix s :: "'a ThreadedDeque" and x op r s'
  assume rep: "td_rep s x" and run: "td_exec op s = Ok (Done r s')"
  obtain cap d xs where x: "x = (cap, d, xs)" by (cases x)
  obtain cap' d' ys where y: "td_spec op (cap, d, xs) = Some (r, cap', d', ys)" "td_rep s' (cap', d', ys)"
    using followsD(2) [OF td_exec_spec [OF rep] run] x by (metis prod_cases3)
  note lev = td_repD(2) [OF rep [unfolded x]] td_repD(2) [OF y(2)]
  show "td_single op \<Longrightarrow> td_size s' \<le> td_size s + (if td_notify op s' = Signal NonEmpty then 1 else 0)"
    using y(1) unfolding lev by (cases op) (auto simp: Let_def split: if_splits)
  show "td_single op \<Longrightarrow> td_on op = Some NonEmpty \<Longrightarrow> td_size s' < td_size s"
    using y(1) unfolding lev by (cases op) (auto simp: Let_def split: if_splits)
  show "td_size s \<noteq> 0 \<Longrightarrow> td_size s' = 0 \<Longrightarrow> td_notify op s' = Broadcast Empty"
    using y(1) lev by (cases op) (auto simp: Let_def split: if_splits)
next
  fix op :: "'a td_call"
  show "td_single op \<Longrightarrow> td_on op = Some NonEmpty \<Longrightarrow> td_expired op = None"
    by (cases op) (auto simp: untimed_def split: if_splits)
qed

section \<open>Properties\<close>

text \<open>
  C12: no wake-up is lost in the threaded queue as long as items are pushed one per call, PopN asks for at least
  one item, and pops wait without a finite time-out or not at all. Any number of threads may do this, clear
  the queue, wait until it is empty, with or without time-out, and be woken for no reason. From every state
  reached so, whatever order the threads run in, without new calls all work ends, and then every thread that
  still waits is one whose call has to wait: a popper sleeps only if the queue is empty, WaitEmpty only if it is
  not.
\<close>

theorem ThreadedQueue_no_lost_wakeup:
  assumes "ThreadedQueueNew True True True n d = Ptr q0"
    "cond_reachable tq_exec tq_expired tq_on tq_notify tq_single q0 (f 0)" "inner_run tq_exec tq_on tq_notify f"
  shows "\<exists>k. settled (f k) \<and> (\<forall>t op. c_status (f k) t = Asleep op \<longrightarrow> tq_exec op (c_object (f k)) = Ok Wait)"
  using tqs.run_settles [OF assms(2) ThreadedQueueNew_rep [OF assms(1)] assms(3)] .

text \<open>
  C14: the same of the threaded deque, whose calls push one item at a time, when PopLeftN and PopRightN ask for
  at least one item and pops wait without a finite time-out or not at all: all work ends, and no popper is left
  sleeping while the deque has items, nor a thread in WaitEmpty while it has none.
\<close>

theorem ThreadedDeque_no_lost_wakeup:
  assumes "ThreadedDequeNew True True True n d = Ptr q0"
    "cond_reachable td_exec td_expired td_on td_notify td_single q0 (f 0)" "inner_run td_exec td_on td_notify f"
  shows "\<exists>k. settled (f k) \<and> (\<forall>t op. c_status (f k) t = Asleep op \<longrightarrow> td_exec op (c_object (f k)) = Ok Wait)"
  using tds.run_settles [OF assms(2) ThreadedDequeNew_rep [OF assms(1)] assms(3)] .

text \<open>A popper asleep on an empty queue and a pusher in its critical section, for the witnesses.\<close>

lemma tq_sleeper:
  assumes "tq_rep q0 (cap, d, [])" "ok (QPop t)" "t \<noteq> 0" "cond_reachable tq_exec tq_expired tq_on tq_notify ok q0 m"
    "c_object m = q0" "c_status m i = Resting" "c_holder m = None"
  shows "cond_reachable tq_exec tq_expired tq_on tq_notify ok q0 (m\<lparr>c_status := (c_status m)(i := Asleep (QPop t))\<rparr>)"
proof -
  let ?m1 = "m\<lparr>c_holder := Some i, c_status := (c_status m)(i := Running (QPop t))\<rparr>"
  have "cond_reachable tq_exec tq_expired tq_on tq_notify ok q0 ?m1"
    by (rule c_step [OF assms(4)]) (rule c_call, use assms(2,6,7) in simp_all)
  moreover have "tq_exec (QPop t) q0 = Ok Wait" using followsD(1) [OF tq_exec_spec [OF assms(1), of "QPop t"]] assms(3) by (simp del: tq_exec.simps)
  then have "inner_step tq_exec tq_on tq_notify ?m1 (?m1\<lparr>c_holder := None, c_status := (c_status ?m1)(i := Asleep (QPop t))\<rparr>)"
    using assms(5) by (intro i_wait) simp_all
  ultimately have "cond_reachable tq_exec tq_expired tq_on tq_notify ok q0
      (?m1\<lparr>c_holder := None, c_status := (c_status ?m1)(i := Asleep (QPop t))\<rparr>)" by (rule c_step [OF _ c_inner])
  moreover have "?m1\<lparr>c_holder := None, c_status := (c_status ?m1)(i := Asleep (QPop t))\<rparr>
      = m\<lparr>c_status := (c_status m)(i := Asleep (QPop t))\<rparr>" using assms(7) by simp
  ultimately show ?thesis by simp
qed

lemma inner_run_exists: "\<exists>f. inner_run exec on notify f \<and> f 0 = m"
proof -
  define g where "g m = (if \<exists>m'. inner_step exec on notify m m' then SOME m'. inner_step exec on notify m m' else m)" for m
  define f where "f i = (g ^^ i) m" for i
  have "inner_step exec on notify m (g m) \<or> (\<nexists>m'. inner_step exec on notify m m') \<and> g m = m" for m
    by (auto simp: g_def intro: someI)
  then have "inner_run exec on notify f" by (simp add: inner_run_def f_def)
  moreover have "f 0 = m" by (simp add: f_def)
  ultimately show ?thesis by blast
qed

theorem ThreadedQueue_no_lost_wakeup_witness:
  "\<exists>f :: nat \<Rightarrow> (nat ThreadedQueue, nat tq_call, nat tq_ret) condmon.
    c_status (f 0) 0 = Asleep (QPop THREAD_BLOCK_INDEFINITELY) \<and> c_status (f 0) 1 = Running (QPush (Ptr 4))
    \<and> (\<exists>k. settled (f k) \<and> (\<forall>t op. c_status (f k) t = Asleep op \<longrightarrow> tq_exec op (c_object (f k)) = Ok Wait))"
proof -
  define q0 :: "nat ThreadedQueue" where "q0 = the (ThreadedQueueNew True True True 1 True)"
  have new: "ThreadedQueueNew True True True 1 True = Ptr q0" by (simp add: q0_def ThreadedQueueNew_def Let_def)
  have rep: "tq_rep q0 (1, True, [])" using ThreadedQueueNew_rep [OF new] by simp
  define m0 :: "(nat ThreadedQueue, nat tq_call, nat tq_ret) condmon" where "m0 = condmon_init q0"
  have at_start: "cond_reachable tq_exec tq_expired tq_on tq_notify tq_single q0 m0" unfolding m0_def by (rule c_start)
  let ?m1 = "m0\<lparr>c_status := (c_status m0)(0 := Asleep (QPop THREAD_BLOCK_INDEFINITELY))\<rparr>"
  let ?m2 = "?m1\<lparr>c_holder := Some 1, c_status := (c_status ?m1)(1 := Running (QPush (Ptr 4)))\<rparr>"
  have "cond_reachable tq_exec tq_expired tq_on tq_notify tq_single q0 ?m1"
    by (rule tq_sleeper [OF rep _ _ at_start])
      (simp_all add: untimed_def THREAD_BLOCK_INDEFINITELY_def m0_def condmon_init_def)
  then have reach: "cond_reachable tq_exec tq_expired tq_on tq_notify tq_single q0 ?m2"
    by (rule c_step) (rule c_call, simp_all add: m0_def condmon_init_def)
  obtain f where f: "inner_run tq_exec tq_on tq_notify f" "f 0 = ?m2" using inner_run_exists by blast
  from ThreadedQueue_no_lost_wakeup [OF new reach [folded f(2)] f(1)] f(2) show ?thesis
    by (intro exI [of _ f]) simp
qed

theorem ThreadedDeque_no_lost_wakeup_witness:
  "\<exists>f :: nat \<Rightarrow> (nat ThreadedDeque, nat td_call, nat td_ret) condmon.
    c_status (f 0) 1 = Running (DPushLeft (Ptr 4))
    \<and> (\<exists>k. settled (f k) \<and> (\<forall>t op. c_status (f k) t = Asleep op \<longrightarrow> td_exec op (c_object (f k)) = Ok Wait))"
proof -
  define q0 :: "nat ThreadedDeque" where "q0 = the (ThreadedDequeNew True True True 1 True)"
  have new: "ThreadedDequeNew True True True 1 True = Ptr q0" by (simp add: q0_def ThreadedDequeNew_def Let_def)
  define m0 :: "(nat ThreadedDeque, nat td_call, nat td_ret) condmon" where "m0 = condmon_init q0"
  have at_start: "cond_reachable td_exec td_expired td_on td_notify td_single q0 m0" unfolding m0_def by (rule c_start)
  let ?m = "m0\<lparr>c_holder := Some 1, c_status := (c_status m0)(1 := Running (DPushLeft (Ptr 4)))\<rparr>"
  have reach: "cond_reachable td_exec td_expired td_on td_notify td_single q0 ?m"
    by (rule c_step [OF at_start]) (rule c_call, simp_all add: m0_def condmon_init_def)
  obtain f where f: "inner_run td_exec td_on td_notify f" "f 0 = ?m" using inner_run_exists by blast
  from ThreadedDeque_no_lost_wakeup [OF new reach [folded f(2)] f(1)] f(2) show ?thesis
    by (intro exI [of _ f]) simp
qed

text \<open>A whole call of a resting thread, and the rest of a call of a thread that was woken.\<close>

lemma reach_call:
  assumes "cond_reachable exec expired on notify ok q0 m" "c_status m i = Resting" "c_holder m = None" "ok op"
    "exec op (c_object m) = Ok (Done r q)" "notified on (notify op q) (c_status m) pc"
  shows "cond_reachable exec expired on notify ok q0
    \<lparr>c_object = q, c_holder = None, c_status = pc, c_log = c_log m @ [(op, r)]\<rparr>"
proof -
  let ?m = "m\<lparr>c_holder := Some i, c_status := (c_status m)(i := Running op)\<rparr>"
  have "cond_reachable exec expired on notify ok q0 ?m" by (rule c_step [OF assms(1)]) (rule c_call, use assms(2,3,4) in simp_all)
  moreover have "(c_status m)(i := Running op, i := Resting) = c_status m" using assms(2) by auto
  then have "inner_step exec on notify ?m \<lparr>c_object = q, c_holder = None, c_status = pc, c_log = c_log ?m @ [(op, r)]\<rparr>"
    using assms(5,6) by (intro i_finish [where t = i]) simp_all
  ultimately show ?thesis using c_step [OF _ c_inner] by fastforce
qed

lemma reach_woken:
  assumes "cond_reachable exec expired on notify ok q0 m" "c_status m i = Woken op" "c_holder m = None"
    "exec op (c_object m) = Ok (Done r q)" "notified on (notify op q) ((c_status m)(i := Resting)) pc"
  shows "cond_reachable exec expired on notify ok q0
    \<lparr>c_object = q, c_holder = None, c_status = pc, c_log = c_log m @ [(op, r)]\<rparr>"
proof -
  let ?m = "m\<lparr>c_holder := Some i, c_status := (c_status m)(i := Running op)\<rparr>"
  have "cond_reachable exec expired on notify ok q0 ?m" by (rule c_step [OF assms(1) c_inner]) (rule i_wake [OF assms(2,3)])
  moreover have "inner_step exec on notify ?m \<lparr>c_object = q, c_holder = None, c_status = pc, c_log = c_log ?m @ [(op, r)]\<rparr>"
    using assms(4,5) by (intro i_finish [where t = i]) simp_all
  ultimately show ?thesis using c_step [OF _ c_inner] by fastforce
qed

text \<open>Two threads asleep in a pop on an empty queue, when a third one pushes; the signal goes to the first.\<close>

lemma tq_two_sleepers:
  fixes q0 :: "'a ThreadedQueue"
  assumes "tq_rep q0 (cap, d, [])" "t0 \<noteq> 0" "t1 \<noteq> 0" "tq_exec op q0 = Ok (Done r q1)" "tq_notify op q1 = Signal NonEmpty"
  shows "cond_reachable tq_exec tq_expired tq_on tq_notify (\<lambda>_. True) q0
    \<lparr>c_object = q1, c_holder = None, c_status = (\<lambda>_ :: nat. Resting)(0 := Woken (QPop t0), 1 := Asleep (QPop t1)), c_log = [(op, r)]\<rparr>"
proof -
  let ?reach = "cond_reachable tq_exec tq_expired tq_on tq_notify (\<lambda>_. True) q0"
  let ?m = "\<lambda>pc. \<lparr>c_object = q0, c_holder = None, c_status = pc, c_log = []\<rparr>"
  let ?pc = "(\<lambda>_ :: nat. Resting)(0 := Asleep (QPop t0 :: 'a tq_call), 1 := Asleep (QPop t1))"
  have "?reach (?m (\<lambda>_ :: nat. Resting))" using c_start by (simp add: condmon_init_def)
  from tq_sleeper [OF assms(1) _ assms(2) this, of 0] have "?reach (?m ((\<lambda>_ :: nat. Resting)(0 := Asleep (QPop t0))))" by simp
  from tq_sleeper [OF assms(1) _ assms(3) this, of 1] have m: "?reach (?m ?pc)" by simp
  have "notified tq_on (tq_notify op q1) ?pc (?pc(0 := Woken (QPop t0)))"
    unfolding assms(5) by (rule signal) (use assms(2) in simp_all)
  moreover have "?pc(0 := Woken (QPop t0)) = (\<lambda>_ :: nat. Resting)(0 := Woken (QPop t0), 1 := Asleep (QPop t1))" by (simp add: fun_eq_iff)
  ultimately have "notified tq_on (tq_notify op q1) (c_status (?m ?pc)) ((\<lambda>_ :: nat. Resting)(0 := Woken (QPop t0), 1 := Asleep (QPop t1)))"
    by (simp only: condmon.simps)
  from reach_call [OF m _ _ _ _ this, of 2 r] show ?thesis using assms(4) by (simp add: fun_upd_def)
qed

text \<open>
  C13: ThreadedQueuePushN signals once for all its items. Two threads that wait for an item and a third
  that pushes two items reach a state in which nothing runs any more, the queue holds an item, and one
  of the two threads still sleeps in its pop without a timeout, though its call would not have to wait.
\<close>

theorem ThreadedQueuePushN_strands_popper:
  "\<exists>(q0 :: nat ThreadedQueue) m. ThreadedQueueNew True True True 2 True = Ptr q0
    \<and> cond_reachable tq_exec tq_expired tq_on tq_notify (\<lambda>_. True) q0 m \<and> settled m
    \<and> c_log m = [(QPushN [Ptr 4, Ptr 5], RSize 2), (QPop THREAD_BLOCK_INDEFINITELY, RPop True (Some (Ptr 4)))]
    \<and> c_status m 1 = Asleep (QPop THREAD_BLOCK_INDEFINITELY) \<and> tq_size (c_object m) = 1
    \<and> tq_exec (QPop THREAD_BLOCK_INDEFINITELY) (c_object m) \<noteq> Ok Wait"
proof -
  define q0 :: "nat ThreadedQueue" where "q0 = the (ThreadedQueueNew True True True 2 True)"
  have new: "ThreadedQueueNew True True True 2 True = Ptr q0" by (simp add: q0_def ThreadedQueueNew_def Let_def)
  have rep: "tq_rep q0 (2, True, [])" using ThreadedQueueNew_rep [OF new] by simp
  let ?pop = "QPop THREAD_BLOCK_INDEFINITELY :: nat tq_call" and ?push = "QPushN [Ptr 4, Ptr 5]"
  obtain q1 where q1: "tq_exec ?push q0 = Ok (Done (RSize 2) q1)" "tq_rep q1 (2, True, [Ptr 4, Ptr 5])"
    using tq_exec_spec [OF rep, of ?push] by (auto simp: follows_def grown_def)
  obtain q2 where q2: "tq_exec ?pop q1 = Ok (Done (RPop True (Some (Ptr 4))) q2)" "tq_rep q2 (2, True, [Ptr 5])"
    using tq_exec_spec [OF q1(2), of ?pop] by (auto simp: follows_def)
  let ?m = "\<lparr>c_object = q2, c_holder = None, c_status = (\<lambda>_ :: nat. Resting)(1 := Asleep ?pop),
    c_log = [(?push, RSize 2), (?pop, RPop True (Some (Ptr 4)))]\<rparr>"
  have "((\<lambda>_ :: nat. Resting)(0 := Woken ?pop, 1 := Asleep ?pop))(0 := Resting) = (\<lambda>_ :: nat. Resting)(1 := Asleep ?pop)" by (simp add: fun_eq_iff)
  then have "cond_reachable tq_exec tq_expired tq_on tq_notify (\<lambda>_. True) q0 ?m"
    using reach_woken [where pc = "(\<lambda>_ :: nat. Resting)(1 := Asleep ?pop)" and i = 0 and op = ?pop and r = "RPop True (Some (Ptr 4))" and q = q2,
        OF tq_two_sleepers [OF rep _ _ q1(1), of THREAD_BLOCK_INDEFINITELY THREAD_BLOCK_INDEFINITELY]]
      q2 tq_level [OF q2(2)] by (simp add: quiet THREAD_BLOCK_INDEFINITELY_def del: tq_exec.simps)
  moreover have "settled ?m" by (simp add: settled_def)
  moreover have "tq_exec ?pop q2 \<noteq> Ok Wait" using followsD(1) [OF tq_exec_spec [OF q2(2), of ?pop]] by (simp del: tq_exec.simps)
  ultimately show ?thesis using new tq_level [OF q2(2)]
    by (intro exI [of _ q0] exI [of _ ?m]) (simp del: tq_exec.simps)
qed

text \<open>
  C15: a pop that times out keeps the signal it was given. Whatever the time-out of one pop and whatever item is
  pushed: if one thread waits with a finite time-out and another one without, and the signal of a push goes to
  the first, which times out before it runs, then nothing runs any more, the queue holds the item, and the other
  thread still sleeps in its pop, though its call would not have to wait.
\<close>

theorem ThreadedQueuePop_timeout_strands_popper:
  fixes q0 :: "'a ThreadedQueue"
  assumes "ThreadedQueueNew True True True n d = Ptr q0" "t \<noteq> 0" "t \<noteq> THREAD_BLOCK_INDEFINITELY"
  shows "\<exists>m. cond_reachable tq_exec tq_expired tq_on tq_notify (\<lambda>_. True) q0 m \<and> settled m
    \<and> c_log m = [(QPush x, RSize 1), (QPop t, RPop False None)]
    \<and> c_status m 1 = Asleep (QPop THREAD_BLOCK_INDEFINITELY) \<and> tq_size (c_object m) = 1
    \<and> tq_exec (QPop THREAD_BLOCK_INDEFINITELY) (c_object m) \<noteq> Ok Wait"
proof -
  let ?pop = "QPop THREAD_BLOCK_INDEFINITELY :: 'a tq_call"
  obtain cap where rep: "tq_rep q0 (cap, d, [])" using ThreadedQueueNew_rep [OF assms(1)] by blast
  obtain q1 cap' where q1: "tq_exec (QPush x) q0 = Ok (Done (RSize 1) q1)" "tq_rep q1 (cap', d, [x])"
    using tq_exec_spec [OF rep, of "QPush x"] by (auto simp: follows_def)
  have m: "cond_reachable tq_exec tq_expired tq_on tq_notify (\<lambda>_. True) q0 \<lparr>c_object = q1, c_holder = None,
      c_status = (\<lambda>_ :: nat. Resting)(0 := Woken (QPop t), 1 := Asleep ?pop), c_log = [(QPush x, RSize 1)]\<rparr>"
    by (rule tq_two_sleepers [OF rep assms(2) _ q1(1)]) (simp_all add: THREAD_BLOCK_INDEFINITELY_def)
  let ?m = "\<lparr>c_object = q1, c_holder = None, c_status = (\<lambda>_ :: nat. Resting)(1 := Asleep ?pop),
    c_log = [(QPush x, RSize 1), (QPop t, RPop False None)]\<rparr>"
  have "((\<lambda>_ :: nat. Resting)(0 := Woken (QPop t), 1 := Asleep ?pop))(0 := Resting) = (\<lambda>_ :: nat. Resting)(1 := Asleep ?pop)" by (simp add: fun_eq_iff)
  then have "cond_reachable tq_exec tq_expired tq_on tq_notify (\<lambda>_. True) q0 ?m"
    using c_step [OF m c_expire [where t = 0 and op = "QPop t"]] assms(3) by simp
  moreover have "settled ?m" by (simp add: settled_def)
  moreover have "tq_exec ?pop q1 \<noteq> Ok Wait" using followsD(1) [OF tq_exec_spec [OF q1(2), of ?pop]] by (simp del: tq_exec.simps)
  ultimately show ?thesis using tq_level [OF q1(2)] by (intro exI [of _ ?m]) (simp del: tq_exec.simps)
qed

theorem ThreadedQueuePop_timeout_strands_popper_witness:
  "\<exists>(q0 :: nat ThreadedQueue) m. cond_reachable tq_exec tq_expired tq_on tq_notify (\<lambda>_. True) q0 m
    \<and> c_status m 1 = Asleep (QPop THREAD_BLOCK_INDEFINITELY) \<and> tq_size (c_object m) = 1"
proof -
  have "ThreadedQueueNew True True True 1 True = Ptr (the (ThreadedQueueNew True True True 1 True) :: nat ThreadedQueue)"
    by (simp add: ThreadedQueueNew_def Let_def)
  from ThreadedQueuePop_timeout_strands_popper [OF this, of 5 "Ptr 4"] show ?thesis
    by (auto simp: THREAD_BLOCK_INDEFINITELY_def)
qed

end
