(* ===== verification/ArrayMap.thy ===== *)
theory ArrayMap
  imports MapCommon
begin

text \<open>
  libutils/array_map.c: a map of at most TINY\_LIMIT entries in an array, searched linearly. The
  destructors are called without a NULL check, so a NULL destructor faults; map.c never passes one.
\<close>

section \<open>Data and operations\<close>

definition TINY_LIMIT :: nat where
  "TINY_LIMIT = 14"

record ('k, 'v) ArrayMap =
  am_equal_fn :: "'k \<Rightarrow> 'k \<Rightarrow> bool"
  am_destroy_key_fn :: "destroyer ptr"
  am_destroy_value_fn :: "destroyer ptr"
  am_values :: "('k, 'v) MapKeyValue carray"
  am_size :: nat

text \<open>
  \<open>xcalloc\<close> fills the array with \<open>{NULL, NULL}\<close> entries, which are not entries of the map; they are
  modelled as unset cells.
\<close>

definition ArrayMapNew ::
  "('k \<Rightarrow> 'k \<Rightarrow> bool) \<Rightarrow> destroyer ptr \<Rightarrow> destroyer ptr \<Rightarrow> ('k, 'v) ArrayMap" where
  "ArrayMapNew equal_fn destroy_key_fn destroy_value_fn =
     \<lparr>am_equal_fn = equal_fn, am_destroy_key_fn = destroy_key_fn,
      am_destroy_value_fn = destroy_value_fn, am_values = xmalloc TINY_LIMIT, am_size = 0\<rparr>"

text \<open>The search loop of Insert, Remove and Get: the first index in \<open>i .. size - 1\<close> with the key.\<close>

fun ArrayMap_search :: "('k, 'v) ArrayMap \<Rightarrow> 'k \<Rightarrow> nat \<Rightarrow> nat \<Rightarrow> nat option res" where
  "ArrayMap_search m key i 0 = Ok None"
| "ArrayMap_search m key i (Suc n) =
     bindE (cread (am_values m) i) (\<lambda>kv.
     if am_equal_fn m (fst kv) key then Ok (Some i)
     else ArrayMap_search m key (i + 1) n)"

definition ArrayMap_destroy_at ::
  "('k, 'v) ArrayMap \<Rightarrow> nat \<Rightarrow> ('k, 'v) gone res" where
  "ArrayMap_destroy_at m i =
     bindE (cread (am_values m) i) (\<lambda>(k, v).
     bindE (call_destroy (am_destroy_key_fn m) k) (\<lambda>ks.
     bindE (call_destroy (am_destroy_value_fn m) v) (\<lambda>vs. Ok (ks, vs))))"

text \<open>Returns 0 when the array is full, 1 when an entry was replaced, 2 when one was added.\<close>

definition ArrayMapInsert ::
  "('k, 'v) ArrayMap \<Rightarrow> 'k \<Rightarrow> 'v \<Rightarrow> (nat \<times> ('k, 'v) ArrayMap \<times> ('k, 'v) gone) res" where
  "ArrayMapInsert m key value =
     (if am_size m = TINY_LIMIT then Ok (0, m, [], [])
      else bindE (ArrayMap_search m key 0 (am_size m)) (\<lambda>found. case found of
        Some i \<Rightarrow>
          bindE (ArrayMap_destroy_at m i) (\<lambda>gone.
          bindE (cwrite (am_values m) i (key, value)) (\<lambda>d.
          Ok (1, m\<lparr>am_values := d\<rparr>, gone)))
      | None \<Rightarrow>
          bindE (cwrite (am_values m) (am_size m) (key, value)) (\<lambda>d.
          Ok (2, m\<lparr>am_values := d, am_size := am_size m + 1\<rparr>, [], []))))"

definition ArrayMapRemove ::
  "('k, 'v) ArrayMap \<Rightarrow> 'k \<Rightarrow> (bool \<times> ('k, 'v) ArrayMap \<times> ('k, 'v) gone) res" where
  "ArrayMapRemove m key =
     bindE (ArrayMap_search m key 0 (am_size m)) (\<lambda>found. case found of
       Some i \<Rightarrow>
         bindE (ArrayMap_destroy_at m i) (\<lambda>gone.
         bindE (memmove (am_values m) i (i + 1) (am_size m - i - 1)) (\<lambda>d.
         Ok (True, m\<lparr>am_values := d, am_size := am_size m - 1\<rparr>, gone)))
     | None \<Rightarrow> Ok (False, m, [], []))"

definition ArrayMapGet :: "('k, 'v) ArrayMap \<Rightarrow> 'k \<Rightarrow> ('k, 'v) MapKeyValue ptr res" where
  "ArrayMapGet m key =
     bindE (ArrayMap_search m key 0 (am_size m)) (\<lambda>found. case found of
       Some i \<Rightarrow> bindE (cread (am_values m) i) (\<lambda>kv. Ok (Ptr kv))
     | None \<Rightarrow> Ok NULL)"

fun ArrayMapClear_loop :: "('k, 'v) ArrayMap \<Rightarrow> nat \<Rightarrow> nat \<Rightarrow> ('k, 'v) gone res" where
  "ArrayMapClear_loop m i 0 = Ok ([], [])"
| "ArrayMapClear_loop m i (Suc n) =
     bindE (ArrayMap_destroy_at m i) (\<lambda>(ks, vs).
     bindE (ArrayMapClear_loop m (i + 1) n) (\<lambda>(ks', vs'). Ok (ks @ ks', vs @ vs')))"

definition ArrayMapClear :: "('k, 'v) ArrayMap \<Rightarrow> (('k, 'v) ArrayMap \<times> ('k, 'v) gone) res" where
  "ArrayMapClear m =
     bindE (ArrayMapClear_loop m 0 (am_size m)) (\<lambda>gone. Ok (m\<lparr>am_size := 0\<rparr>, gone))"

fun ArrayMapSoftDestroy_loop :: "('k, 'v) ArrayMap \<Rightarrow> nat \<Rightarrow> nat \<Rightarrow> 'k list res" where
  "ArrayMapSoftDestroy_loop m i 0 = Ok []"
| "ArrayMapSoftDestroy_loop m i (Suc n) =
     bindE (cread (am_values m) i) (\<lambda>(k, v).
     bindE (call_destroy (am_destroy_key_fn m) k) (\<lambda>ks.
     bindE (ArrayMapSoftDestroy_loop m (i + 1) n) (\<lambda>ks'. Ok (ks @ ks'))))"

definition ArrayMapSoftDestroy :: "('k, 'v) ArrayMap ptr \<Rightarrow> ('k, 'v) gone res" where
  "ArrayMapSoftDestroy m = (case m of
     NULL \<Rightarrow> Ok ([], [])
   | Ptr m \<Rightarrow> bindE (ArrayMapSoftDestroy_loop m 0 (am_size m)) (\<lambda>ks. Ok (ks, [])))"

definition ArrayMapDestroy :: "('k, 'v) ArrayMap ptr \<Rightarrow> ('k, 'v) gone res" where
  "ArrayMapDestroy m = (case m of
     NULL \<Rightarrow> Ok ([], [])
   | Ptr m \<Rightarrow> bindE (ArrayMapClear m) (\<lambda>(_, gone). Ok gone))"

record ('k, 'v) ArrayMapIterator =
  ami_map :: "('k, 'v) ArrayMap"
  ami_pos :: nat

definition ArrayMapIteratorInit :: "('k, 'v) ArrayMap \<Rightarrow> ('k, 'v) ArrayMapIterator" where
  "ArrayMapIteratorInit m = \<lparr>ami_map = m, ami_pos = 0\<rparr>"

definition ArrayMapIteratorNext ::
  "('k, 'v) ArrayMapIterator \<Rightarrow> (('k, 'v) MapKeyValue ptr \<times> ('k, 'v) ArrayMapIterator) res" where
  "ArrayMapIteratorNext i =
     (if ami_pos i \<ge> am_size (ami_map i) then Ok (NULL, i)
      else bindE (cread (am_values (ami_map i)) (ami_pos i)) (\<lambda>kv.
           Ok (Ptr kv, i\<lparr>ami_pos := ami_pos i + 1\<rparr>)))"

section \<open>Correctness\<close>

definition am_frame :: "('k, 'v) ArrayMap \<Rightarrow> destroyer ptr \<times> destroyer ptr" where
  "am_frame m = (am_destroy_key_fn m, am_destroy_value_fn m)"

definition am_rep :: "('k \<Rightarrow> 'k \<Rightarrow> bool) \<Rightarrow> ('k, 'v) ArrayMap \<Rightarrow> ('k \<times> 'v) list \<Rightarrow> bool" where
  "am_rep eq m xs \<longleftrightarrow> equivp eq \<and> am_equal_fn m = eq \<and> stores (am_values m) xs
     \<and> am_size m = length xs \<and> length (am_values m) = TINY_LIMIT \<and> uniq eq xs
     \<and> am_destroy_key_fn m \<noteq> NULL \<and> am_destroy_value_fn m \<noteq> NULL"

lemma am_repD:
  assumes "am_rep eq m xs"
  shows "equivp eq" "am_equal_fn m = eq" "stores (am_values m) xs" "am_size m = length xs"
    "length (am_values m) = TINY_LIMIT" "uniq eq xs" "length xs \<le> TINY_LIMIT"
    "\<exists>dk dv. am_destroy_key_fn m = Ptr dk \<and> am_destroy_value_fn m = Ptr dv"
  using assms stores_length [of "am_values m" xs] by (auto simp: am_rep_def)

lemma ArrayMapNew_rep:
  "equivp eq \<Longrightarrow> am_rep eq (ArrayMapNew eq (Ptr dk) (Ptr dv)) [] \<and>
     am_frame (ArrayMapNew eq (Ptr dk) (Ptr dv)) = (Ptr dk, Ptr dv)"
  by (simp add: am_rep_def ArrayMapNew_def am_frame_def)

lemma ArrayMap_search_eq:
  assumes "am_rep eq m xs"
  shows "i + n = length xs \<Longrightarrow> ArrayMap_search m key i n
    = Ok (map_option (\<lambda>j. i + j) (first_index (matches eq key) (drop i xs)))"
proof (induction n arbitrary: i)
  case (Suc n)
  then have "drop i xs = xs ! i # drop (Suc i) xs" by (simp add: Cons_nth_drop_Suc)
  then show ?case using Suc am_repD(2,3) [OF assms]
    by (simp add: matches_def option.map_comp comp_def)
qed simp

lemma ArrayMap_search_all:
  "am_rep eq m xs \<Longrightarrow> ArrayMap_search m key 0 (am_size m) = Ok (first_index (matches eq key) xs)"
  using ArrayMap_search_eq [of eq m xs 0 "length xs" key] am_repD(4) [of eq m xs]
  by (simp add: option.map_ident)

text \<open>The entry found by the search is the only one of its key.\<close>

lemma kv_get_first_index:
  "kv_get eq k xs = map_option (\<lambda>i. xs ! i) (first_index (matches eq k) xs)"
  by (induction xs) (auto simp: kv_get_def option.map_comp comp_def)

lemma uniq_split:
  assumes "uniq eq xs" "first_index (matches eq k) xs = Some i"
  shows "i < length xs" "kv_old eq k xs = [xs ! i]" "kv_del eq k xs = take i xs @ drop (Suc i) xs"
proof -
  from first_index_SomeD [OF assms(2)] have i: "i < length xs" "matches eq k (xs ! i)" by auto
  have xs: "xs = take i xs @ xs ! i # drop (Suc i) xs" using i(1) by (rule id_take_nth_drop)
  have get: "kv_get eq k xs = Some (xs ! i)" using assms(2) by (simp add: kv_get_first_index)
  show "i < length xs" "kv_old eq k xs = [xs ! i]"
    using i(1) uniq_kv_old [OF assms(1), of k] get by auto
  have "kv_old eq k xs = kv_old eq k (take i xs) @ xs ! i # kv_old eq k (drop (Suc i) xs)"
    by (subst xs) (use i(2) in \<open>simp add: kv_old_def\<close>)
  with \<open>kv_old eq k xs = [xs ! i]\<close> have "kv_old eq k (take i xs) = []" "kv_old eq k (drop (Suc i) xs) = []"
    by (auto simp: append_eq_Cons_conv)
  then have "kv_del eq k (take i xs) = take i xs" "kv_del eq k (drop (Suc i) xs) = drop (Suc i) xs"
    by (simp_all add: kv_del_absent kv_get_None_iff)
  moreover have "kv_del eq k xs = kv_del eq k (take i xs) @ kv_del eq k (drop (Suc i) xs)"
    by (subst xs) (use i(2) in \<open>simp add: kv_del_def\<close>)
  ultimately show "kv_del eq k xs = take i xs @ drop (Suc i) xs" by simp
qed

lemma ArrayMap_destroy_at_eq:
  assumes "am_rep eq m xs" "i < length xs"
  shows "ArrayMap_destroy_at m i = Ok (gone_of (am_frame m) [xs ! i])"
  using am_repD(3,8) [OF assms(1)] assms(2)
  by (cases "xs ! i") (auto simp: ArrayMap_destroy_at_def gone_of_def am_frame_def)

lemma ArrayMapGet_eq: "am_rep eq m xs \<Longrightarrow> ArrayMapGet m k = Ok (kv_get eq k xs)"
  using first_index_SomeD [of "matches eq k" xs] am_repD(3) [of eq m xs]
  by (auto simp: ArrayMapGet_def ArrayMap_search_all kv_get_first_index split: option.splits)

lemma ArrayMapInsert_full:
  "am_rep eq m xs \<Longrightarrow> length xs = TINY_LIMIT \<Longrightarrow> ArrayMapInsert m k v = Ok (0, m, [], [])"
  using am_repD(4) [of eq m xs] by (simp add: ArrayMapInsert_def)

text \<open>A replaced entry keeps its place; the entries agree with \<open>kv_put\<close> up to their order.\<close>

lemma ArrayMapInsert_rep:
  assumes "am_rep eq m xs" "length xs < TINY_LIMIT"
  shows "\<exists>m' ys. ArrayMapInsert m k v = Ok (if kv_get eq k xs \<noteq> None then 1 else 2, m',
        gone_of (am_frame m) (kv_old eq k xs))
    \<and> am_rep eq m' ys \<and> mset ys = mset (kv_put eq k v xs) \<and> am_frame m' = am_frame m"
proof (cases "first_index (matches eq k) xs")
  case None
  note r = am_repD [OF assms(1)]
  have get: "kv_get eq k xs = None" using None by (simp add: kv_get_first_index)
  then have put: "kv_put eq k v xs = xs @ [(k, v)]" by (simp add: kv_put_def kv_del_absent)
  have "stores ((am_values m)[length xs := Val (k, v)]) (xs @ [(k, v)])"
    using stores_snoc [OF r(3)] assms(2) r(5) by simp
  moreover have "uniq eq (xs @ [(k, v)])" using uniq_kv_put [OF r(1,6), of k v] put by simp
  moreover have "kv_old eq k xs = []" using get by (simp add: kv_get_None_iff)
  ultimately show ?thesis
    using assms r None get put ArrayMap_search_all [OF assms(1), of k]
    by (auto simp: ArrayMapInsert_def am_rep_def am_frame_def)
next
  case (Some i)
  note r = am_repD [OF assms(1)] and u = uniq_split [OF am_repD(6) [OF assms(1)] Some]
  have m: "mset (xs[i := (k, v)]) = mset (kv_put eq k v xs)"
    using u(1,3) by (simp add: kv_put_def upd_conv_take_nth_drop)
  have "uniq eq (xs[i := (k, v)])"
    using uniq_kv_put [OF r(1,6), of k v] uniq_mset [OF m, of eq] by simp
  then have "am_rep eq (m\<lparr>am_values := (am_values m)[i := Val (k, v)]\<rparr>) (xs[i := (k, v)])"
    using r u(1) stores_update [OF r(3) u(1), of "(k, v)"] by (auto simp: am_rep_def)
  moreover have "kv_get eq k xs \<noteq> None" using Some by (simp add: kv_get_first_index)
  ultimately show ?thesis
    using m u(1,2) r(4,5,7) assms(2) Some ArrayMap_search_all [OF assms(1), of k]
      ArrayMap_destroy_at_eq [OF assms(1) u(1)]
    by (intro exI [of _ "m\<lparr>am_values := (am_values m)[i := Val (k, v)]\<rparr>"] exI [of _ "xs[i := (k, v)]"])
      (auto simp: ArrayMapInsert_def am_frame_def)
qed

lemma ArrayMapRemove_rep:
  assumes "am_rep eq m xs"
  shows "\<exists>m'. ArrayMapRemove m k = Ok (kv_get eq k xs \<noteq> None, m', gone_of (am_frame m) (kv_old eq k xs))
    \<and> am_rep eq m' (kv_del eq k xs) \<and> am_frame m' = am_frame m"
proof (cases "first_index (matches eq k) xs")
  case None
  then have "kv_get eq k xs = None" by (simp add: kv_get_first_index)
  then show ?thesis using assms None ArrayMap_search_all [OF assms, of k]
    by (simp add: ArrayMapRemove_def kv_del_absent kv_get_None_iff)
next
  case (Some i)
  note r = am_repD [OF assms] and u = uniq_split [OF am_repD(6) [OF assms] Some]
  from memmove_close_gap [OF r(3), of i "Suc i"] u(1) obtain b where
    b: "memmove (am_values m) i (Suc i) (length xs - Suc i) = Ok b"
      "stores b (take i xs @ drop (Suc i) xs)" "length b = length (am_values m)" by auto
  have "am_rep eq (m\<lparr>am_values := b, am_size := am_size m - 1\<rparr>) (kv_del eq k xs)"
    using r u(1) b(2,3) uniq_kv_del [OF r(6), of k] by (auto simp: am_rep_def u(3))
  moreover have "kv_get eq k xs \<noteq> None" using Some by (simp add: kv_get_first_index)
  ultimately show ?thesis
    using b(1) u(2) r(4) Some ArrayMap_search_all [OF assms, of k] ArrayMap_destroy_at_eq [OF assms u(1)]
    by (intro exI [of _ "m\<lparr>am_values := b, am_size := am_size m - 1\<rparr>"])
      (auto simp: ArrayMapRemove_def am_frame_def)
qed

lemma ArrayMapClear_loop_eq:
  assumes "am_rep eq m xs"
  shows "i + n = length xs \<Longrightarrow> ArrayMapClear_loop m i n = Ok (gone_of (am_frame m) (drop i xs))"
proof (induction n arbitrary: i)
  case (Suc n)
  then have "drop i xs = xs ! i # drop (Suc i) xs" by (simp add: Cons_nth_drop_Suc)
  then show ?case using Suc ArrayMap_destroy_at_eq [OF assms, of i]
      gone_of_Cons [of "am_frame m" "xs ! i" "drop (Suc i) xs"]
    by (cases "gone_of (am_frame m) [xs ! i]"; cases "gone_of (am_frame m) (drop (Suc i) xs)") simp
qed simp

lemma ArrayMapClear_rep:
  assumes "am_rep eq m xs"
  shows "\<exists>m'. ArrayMapClear m = Ok (m', gone_of (am_frame m) xs) \<and> am_rep eq m' []
    \<and> am_frame m' = am_frame m"
  using ArrayMapClear_loop_eq [OF assms, of 0 "length xs"] am_repD [OF assms]
  by (auto simp: ArrayMapClear_def am_rep_def am_frame_def)

lemma ArrayMapSoftDestroy_loop_eq:
  assumes "am_rep eq m xs"
  shows "i + n = length xs \<Longrightarrow> ArrayMapSoftDestroy_loop m i n = Ok (fst (gone_of (am_frame m) (drop i xs)))"
proof (induction n arbitrary: i)
  case (Suc n)
  then have "drop i xs = xs ! i # drop (Suc i) xs" by (simp add: Cons_nth_drop_Suc)
  then show ?case using Suc am_repD(3,8) [OF assms] gone_of_Cons [of "am_frame m" "xs ! i" "drop (Suc i) xs"]
    by (cases "xs ! i") (auto simp: gone_of_def am_frame_def)
qed simp

lemma ArrayMapIteratorNext_eq:
  assumes "am_rep eq m xs"
  shows "ArrayMapIteratorNext \<lparr>ami_map = m, ami_pos = i\<rparr>
    = Ok (if i < length xs then (Ptr (xs ! i), \<lparr>ami_map = m, ami_pos = i + 1\<rparr>)
          else (NULL, \<lparr>ami_map = m, ami_pos = i\<rparr>))"
  using am_repD(3,4) [OF assms] by (simp add: ArrayMapIteratorNext_def)

end
