(* ===== verification/HashMap.thy ===== *)
theory HashMap
  imports MapCommon MiscLib
begin

text \<open>
  libutils/hash_map.c: a hash table with chained buckets whose number is a power of two; it doubles
  when the load passes 0.75 and halves when it falls below 0.35, within bounds. A chain of
  \<open>BucketListItem\<close>s is owned by its bucket and modelled as the list of its entries.
\<close>

section \<open>Data and operations\<close>

definition MAX_HASHMAP_BUCKETS :: nat where
  "MAX_HASHMAP_BUCKETS = 2 ^ 30"

definition MIN_HASHMAP_BUCKETS :: nat where
  "MIN_HASHMAP_BUCKETS = 2 ^ 5"

text \<open>
  The thresholds are \<open>(size_t) size * 0.75\<close> and \<open>(size_t) size * 0.35\<close>, computed in \<open>double\<close> and
  truncated. Sizes are powers of two up to \<open>2 ^ 30\<close>: the first product is exact, and \<open>7 * size / 20\<close>
  is at least 1/5 away from an integer, far more than the rounding error of the second.
\<close>

definition max_load :: "nat \<Rightarrow> nat" where
  "max_load n = n * 75 div 100"

definition min_load :: "nat \<Rightarrow> nat" where
  "min_load n = n * 35 div 100"

record ('k, 'v) HashMap =
  hm_hash_fn :: "'k \<Rightarrow> 32 word"
  hm_equal_fn :: "'k \<Rightarrow> 'k \<Rightarrow> bool"
  hm_destroy_key_fn :: "destroyer ptr"
  hm_destroy_value_fn :: "destroyer ptr"
  hm_buckets :: "('k, 'v) MapKeyValue list carray"
  hm_size :: nat
  hm_init_size :: nat
  hm_load :: nat
  hm_max_threshold :: nat
  hm_min_threshold :: nat

definition HashMapNew ::
  "('k \<Rightarrow> 32 word) \<Rightarrow> ('k \<Rightarrow> 'k \<Rightarrow> bool) \<Rightarrow> destroyer ptr \<Rightarrow> destroyer ptr \<Rightarrow> nat \<Rightarrow> ('k, 'v) HashMap" where
  "HashMapNew hash_fn equal_fn destroy_key_fn destroy_value_fn init_size =
     (let init_size' = min (max init_size MIN_HASHMAP_BUCKETS) MAX_HASHMAP_BUCKETS;
          sz = (if ISPOW2 (of_nat init_size') then init_size'
                else unat (UpperPowerOfTwo (of_nat init_size')))
      in \<lparr>hm_hash_fn = hash_fn, hm_equal_fn = equal_fn, hm_destroy_key_fn = destroy_key_fn,
          hm_destroy_value_fn = destroy_value_fn, hm_buckets = xcalloc sz [], hm_size = sz,
          hm_init_size = sz, hm_load = 0, hm_max_threshold = max_load sz,
          hm_min_threshold = min_load sz\<rparr>)"

definition HashMapGetBucket :: "('k, 'v) HashMap \<Rightarrow> 'k \<Rightarrow> nat res" where
  "HashMapGetBucket m key =
     bindE (c_assert (ISPOW2 (of_nat (hm_size m)))) (\<lambda>_.
     Ok (unat ((ucast (hm_hash_fn m key) :: 64 word) AND (of_nat (hm_size m) - 1))))"

text \<open>The two loops of HashMapResize: the items of one old chain, and the old buckets.\<close>

fun HashMapResize_chain :: "('k, 'v) HashMap \<Rightarrow> ('k, 'v) MapKeyValue list \<Rightarrow> ('k, 'v) HashMap res" where
  "HashMapResize_chain m [] = Ok m"
| "HashMapResize_chain m (item # next) =
     bindE (HashMapGetBucket m (fst item)) (\<lambda>bucket.
     bindE (cread (hm_buckets m) bucket) (\<lambda>chain.
     bindE (cwrite (hm_buckets m) bucket (item # chain)) (\<lambda>bs.
     HashMapResize_chain (m\<lparr>hm_buckets := bs\<rparr>) next)))"

fun HashMapResize_loop ::
  "('k, 'v) HashMap \<Rightarrow> ('k, 'v) MapKeyValue list carray \<Rightarrow> nat \<Rightarrow> nat \<Rightarrow> ('k, 'v) HashMap res" where
  "HashMapResize_loop m old_buckets i 0 = Ok m"
| "HashMapResize_loop m old_buckets i (Suc n) =
     bindE (cread old_buckets i) (\<lambda>item.
     bindE (HashMapResize_chain m item) (\<lambda>m'.
     HashMapResize_loop m' old_buckets (i + 1) n))"

definition HashMapResize :: "('k, 'v) HashMap \<Rightarrow> nat \<Rightarrow> ('k, 'v) HashMap res" where
  "HashMapResize m new_size =
     HashMapResize_loop
       (m\<lparr>hm_size := new_size, hm_max_threshold := max_load new_size,
          hm_min_threshold := min_load new_size, hm_buckets := xcalloc new_size []\<rparr>)
       (hm_buckets m) 0 (hm_size m)"

text \<open>The search of HashMapInsert in a chain: the chain with the entry replaced, and the old entry.\<close>

fun chain_replace ::
  "('k \<Rightarrow> 'k \<Rightarrow> bool) \<Rightarrow> 'k \<Rightarrow> 'v \<Rightarrow> ('k \<times> 'v) list \<Rightarrow> (('k \<times> 'v) list \<times> ('k \<times> 'v)) option" where
  "chain_replace eq key value [] = None"
| "chain_replace eq key value (kv # chain) =
     (if eq (fst kv) key then Some ((key, value) # chain, kv)
      else map_option (\<lambda>(c, old). (kv # c, old)) (chain_replace eq key value chain))"

fun chain_remove :: "('k \<Rightarrow> 'k \<Rightarrow> bool) \<Rightarrow> 'k \<Rightarrow> ('k \<times> 'v) list \<Rightarrow> (('k \<times> 'v) list \<times> ('k \<times> 'v)) option" where
  "chain_remove eq key [] = None"
| "chain_remove eq key (kv # chain) =
     (if eq (fst kv) key then Some (chain, kv)
      else map_option (\<lambda>(c, old). (kv # c, old)) (chain_remove eq key chain))"

definition hm_destroy_entry :: "('k, 'v) HashMap \<Rightarrow> 'k \<times> 'v \<Rightarrow> ('k, 'v) gone" where
  "hm_destroy_entry m kv =
     (call_destroy_if (hm_destroy_key_fn m) (fst kv), call_destroy_if (hm_destroy_value_fn m) (snd kv))"

definition HashMapInsert ::
  "('k, 'v) HashMap \<Rightarrow> 'k \<Rightarrow> 'v \<Rightarrow> (bool \<times> ('k, 'v) HashMap \<times> ('k, 'v) gone) res" where
  "HashMapInsert m key value =
     bindE (HashMapGetBucket m key) (\<lambda>bucket.
     bindE (cread (hm_buckets m) bucket) (\<lambda>chain.
     case chain_replace (hm_equal_fn m) key value chain of
       Some (chain', old) \<Rightarrow>
         bindE (cwrite (hm_buckets m) bucket chain') (\<lambda>bs.
         Ok (True, m\<lparr>hm_buckets := bs\<rparr>, hm_destroy_entry m old))
     | None \<Rightarrow>
         bindE (cwrite (hm_buckets m) bucket ((key, value) # chain)) (\<lambda>bs.
         let m1 = m\<lparr>hm_buckets := bs, hm_load := hm_load m + 1\<rparr>
         in bindE (if hm_load m1 > hm_max_threshold m1 \<and> hm_size m1 < MAX_HASHMAP_BUCKETS
                   then HashMapResize m1 (hm_size m1 * 2) else Ok m1) (\<lambda>m2.
            Ok (False, m2, [], [])))))"

definition HashMapRemove ::
  "('k, 'v) HashMap \<Rightarrow> 'k \<Rightarrow> (bool \<times> ('k, 'v) HashMap \<times> ('k, 'v) gone) res" where
  "HashMapRemove m key =
     bindE (HashMapGetBucket m key) (\<lambda>bucket.
     bindE (cread (hm_buckets m) bucket) (\<lambda>chain.
     case chain_remove (hm_equal_fn m) key chain of
       Some (chain', old) \<Rightarrow>
         bindE (cwrite (hm_buckets m) bucket chain') (\<lambda>bs.
         let m1 = m\<lparr>hm_buckets := bs, hm_load := hm_load m - 1\<rparr>
         in bindE (if hm_load m1 < hm_min_threshold m1 \<and> hm_size m1 > hm_init_size m1
                   then HashMapResize m1 (hm_size m1 div 2) else Ok m1) (\<lambda>m2.
            Ok (True, m2, hm_destroy_entry m old)))
     | None \<Rightarrow> Ok (False, m, [], [])))"

definition HashMapGet :: "('k, 'v) HashMap \<Rightarrow> 'k \<Rightarrow> ('k, 'v) MapKeyValue ptr res" where
  "HashMapGet m key =
     bindE (HashMapGetBucket m key) (\<lambda>bucket.
     bindE (cread (hm_buckets m) bucket) (\<lambda>chain.
     Ok (find (\<lambda>kv. hm_equal_fn m (fst kv) key) chain)))"

text \<open>FreeBucketListItem releases the rest of the chain before the item itself.\<close>

fun FreeBucketListItem ::
  "('k, 'v) HashMap \<Rightarrow> ('k, 'v) MapKeyValue list \<Rightarrow> (('k, 'v) HashMap \<times> ('k, 'v) gone) res" where
  "FreeBucketListItem m [] = Ok (m, [], [])"
| "FreeBucketListItem m (item # next) =
     bindE (FreeBucketListItem m next) (\<lambda>(m', ks, vs).
     let (ks', vs') = hm_destroy_entry m item
     in if hm_load m' = 0 then Fault CounterWrap
        else Ok (m'\<lparr>hm_load := hm_load m' - 1\<rparr>, ks @ ks', vs @ vs'))"

fun FreeBucketListItemSoft ::
  "('k, 'v) HashMap \<Rightarrow> ('k, 'v) MapKeyValue list \<Rightarrow> (('k, 'v) HashMap \<times> 'k list) res" where
  "FreeBucketListItemSoft m [] = Ok (m, [])"
| "FreeBucketListItemSoft m (item # next) =
     bindE (FreeBucketListItemSoft m next) (\<lambda>(m', ks).
     bindE (call_destroy (hm_destroy_key_fn m) (fst item)) (\<lambda>ks'.
     if hm_load m' = 0 then Fault CounterWrap
     else Ok (m'\<lparr>hm_load := hm_load m' - 1\<rparr>, ks @ ks')))"

fun HashMapClear_loop :: "('k, 'v) HashMap \<Rightarrow> nat \<Rightarrow> nat \<Rightarrow> (('k, 'v) HashMap \<times> ('k, 'v) gone) res" where
  "HashMapClear_loop m i 0 = Ok (m, [], [])"
| "HashMapClear_loop m i (Suc n) =
     bindE (cread (hm_buckets m) i) (\<lambda>chain.
     bindE (FreeBucketListItem m chain) (\<lambda>(m1, ks, vs).
     bindE (cwrite (hm_buckets m1) i []) (\<lambda>bs.
     bindE (HashMapClear_loop (m1\<lparr>hm_buckets := bs\<rparr>) (i + 1) n) (\<lambda>(m2, ks', vs').
     Ok (m2, ks @ ks', vs @ vs')))))"

definition HashMapClear :: "('k, 'v) HashMap \<Rightarrow> (('k, 'v) HashMap \<times> ('k, 'v) gone) res" where
  "HashMapClear m =
     bindE (HashMapClear_loop m 0 (hm_size m)) (\<lambda>(m', gone).
     bindE (c_assert (hm_load m' = 0)) (\<lambda>_. Ok (m', gone)))"

fun HashMapSoftDestroy_loop :: "('k, 'v) HashMap \<Rightarrow> nat \<Rightarrow> nat \<Rightarrow> 'k list res" where
  "HashMapSoftDestroy_loop m i 0 = Ok []"
| "HashMapSoftDestroy_loop m i (Suc n) =
     bindE (cread (hm_buckets m) i) (\<lambda>chain.
     bindE (FreeBucketListItemSoft m chain) (\<lambda>(m1, ks).
     bindE (cwrite (hm_buckets m1) i []) (\<lambda>bs.
     bindE (HashMapSoftDestroy_loop (m1\<lparr>hm_buckets := bs\<rparr>) (i + 1) n) (\<lambda>ks'.
     Ok (ks @ ks')))))"

definition HashMapSoftDestroy :: "('k, 'v) HashMap ptr \<Rightarrow> ('k, 'v) gone res" where
  "HashMapSoftDestroy m = (case m of
     NULL \<Rightarrow> Ok ([], [])
   | Ptr h \<Rightarrow> bindE (HashMapSoftDestroy_loop h 0 (hm_size h)) (\<lambda>ks. Ok (ks, [])))"

definition HashMapDestroy :: "('k, 'v) HashMap ptr \<Rightarrow> ('k, 'v) gone res" where
  "HashMapDestroy m = (case m of
     NULL \<Rightarrow> Ok ([], [])
   | Ptr h \<Rightarrow> bindE (HashMapClear h) (\<lambda>(_, gone). Ok gone))"

record ('k, 'v) HashMapIterator =
  hmi_map :: "('k, 'v) HashMap"
  hmi_cur :: "('k, 'v) MapKeyValue list"
  hmi_bucket :: nat

definition HashMapIteratorInit :: "('k, 'v) HashMap \<Rightarrow> ('k, 'v) HashMapIterator res" where
  "HashMapIteratorInit m =
     bindE (cread (hm_buckets m) 0) (\<lambda>cur. Ok \<lparr>hmi_map = m, hmi_cur = cur, hmi_bucket = 0\<rparr>)"

function HashMapIteratorNext ::
  "('k, 'v) HashMapIterator \<Rightarrow> (('k, 'v) MapKeyValue ptr \<times> ('k, 'v) HashMapIterator) res" where
  "HashMapIteratorNext i =
     (case hmi_cur i of
        [] \<Rightarrow>
          let i' = i\<lparr>hmi_bucket := hmi_bucket i + 1\<rparr>
          in if hmi_bucket i' \<ge> hm_size (hmi_map i) then Ok (NULL, i')
             else bindE (cread (hm_buckets (hmi_map i)) (hmi_bucket i')) (\<lambda>cur.
                  HashMapIteratorNext (i'\<lparr>hmi_cur := cur\<rparr>))
      | kv # next \<Rightarrow> Ok (Ptr kv, i\<lparr>hmi_cur := next\<rparr>))"
  by pat_completeness auto
termination
  by (relation "measure (\<lambda>i. hm_size (hmi_map i) - hmi_bucket i)") auto

declare HashMapIteratorNext.simps [simp del]

section \<open>Buckets\<close>

text \<open>Every entry sits in the bucket its key hashes to.\<close>

definition hashed :: "('k \<Rightarrow> 32 word) \<Rightarrow> nat \<Rightarrow> ('k \<times> 'v) list list \<Rightarrow> bool" where
  "hashed hash n bs \<longleftrightarrow> length bs = n
     \<and> (\<forall>b < n. \<forall>kv \<in> set (bs ! b). unat (hash (fst kv)) mod n = b)"

lemma hashed_replicate [simp]: "hashed hash n (replicate n [])"
  by (simp add: hashed_def)

lemma hashed_update:
  assumes "hashed hash n bs" "\<And>kv. kv \<in> set c \<Longrightarrow> unat (hash (fst kv)) mod n = b"
  shows "hashed hash n (bs[b := c])"
  using assms by (cases "b < length bs") (auto simp: hashed_def nth_list_update split: if_splits)

lemma mset_concat_update:
  assumes "i < length bs"
  shows "mset (concat (bs[i := c])) + mset (bs ! i) = mset (concat bs) + mset c"
proof -
  have "mset (concat bs) = mset (concat (take i bs)) + mset (bs ! i) + mset (concat (drop (Suc i) bs))"
    by (subst id_take_nth_drop [OF assms]) simp
  then show ?thesis using assms by (simp add: upd_conv_take_nth_drop)
qed

text \<open>The entries of a key are in its bucket.\<close>

lemma kv_old_append [simp]: "kv_old eq k (xs @ ys) = kv_old eq k xs @ kv_old eq k ys"
  by (simp add: kv_old_def)

lemma kv_old_concat_Nil: "(\<And>c. c \<in> set bs \<Longrightarrow> kv_old eq k c = []) \<Longrightarrow> kv_old eq k (concat bs) = []"
  by (induction bs) (auto simp: kv_old_def)

lemma kv_old_bucket:
  assumes "key_ok eq hash" "hashed hash n bs" "0 < n"
  shows "kv_old eq k (concat bs) = kv_old eq k (bs ! (unat (hash k) mod n))"
proof -
  let ?b = "unat (hash k) mod n"
  have other: "kv_old eq k (bs ! i) = []" if "i < n" "i \<noteq> ?b" for i
  proof -
    have "unat (hash (fst kv)) mod n = i" if "kv \<in> set (bs ! i)" for kv
      using assms(2) that \<open>i < n\<close> by (auto simp: hashed_def)
    then show ?thesis using key_okD(2) [OF assms(1)] \<open>i \<noteq> ?b\<close>
      by (fastforce simp: kv_old_def matches_def filter_empty_conv)
  qed
  have b: "?b < length bs" "length bs = n" using assms(2,3) by (auto simp: hashed_def)
  have "kv_old eq k (concat (take ?b bs)) = []" "kv_old eq k (concat (drop (Suc ?b) bs)) = []"
    using other b by (auto intro!: kv_old_concat_Nil simp: in_set_conv_nth)
  then show ?thesis by (subst id_take_nth_drop [OF b(1)]) simp
qed

text \<open>The searches in a chain, against the entry-list operations.\<close>

lemma chain_replace_None: "chain_replace eq k v c = None \<longleftrightarrow> kv_old eq k c = []"
  by (induction c) (auto simp: kv_old_def matches_def)

lemma chain_replace_Some:
  "chain_replace eq k v c = Some (c', old) \<Longrightarrow>
   (\<exists>rest. kv_old eq k c = old # rest) \<and> add_mset old (mset c') = add_mset (k, v) (mset c)"
  by (induction c arbitrary: c') (auto simp: kv_old_def matches_def split: if_splits)

lemma chain_remove_None: "chain_remove eq k c = None \<longleftrightarrow> kv_old eq k c = []"
  by (induction c) (auto simp: kv_old_def matches_def)

lemma chain_remove_Some:
  "chain_remove eq k c = Some (c', old) \<Longrightarrow>
   (\<exists>rest. kv_old eq k c = old # rest) \<and> add_mset old (mset c') = mset c"
  by (induction c arbitrary: c') (auto simp: kv_old_def matches_def split: if_splits)

section \<open>Representation\<close>

definition hm_frame :: "('k, 'v) HashMap \<Rightarrow> destroyer ptr \<times> destroyer ptr" where
  "hm_frame m = (hm_destroy_key_fn m, hm_destroy_value_fn m)"

definition hm_sizes :: "('k, 'v) HashMap \<Rightarrow> bool" where
  "hm_sizes m \<longleftrightarrow> (\<exists>j k. hm_init_size m = 2 ^ j \<and> hm_size m = 2 ^ k \<and> 5 \<le> j \<and> j \<le> k \<and> k \<le> 30)"

definition hm_rep ::
  "('k \<Rightarrow> 'k \<Rightarrow> bool) \<Rightarrow> ('k \<Rightarrow> 32 word) \<Rightarrow> ('k, 'v) HashMap \<Rightarrow> ('k \<times> 'v) list \<Rightarrow> bool" where
  "hm_rep eq hash m xs \<longleftrightarrow> key_ok eq hash \<and> hm_equal_fn m = eq \<and> hm_hash_fn m = hash \<and> hm_sizes m
     \<and> (\<exists>bs. hm_buckets m = map Val bs \<and> hashed hash (hm_size m) bs \<and> mset (concat bs) = mset xs)
     \<and> hm_load m = length xs \<and> uniq eq xs
     \<and> hm_max_threshold m = max_load (hm_size m) \<and> hm_min_threshold m = min_load (hm_size m)"

lemma hm_repD:
  assumes "hm_rep eq hash m xs"
  shows "key_ok eq hash" "hm_equal_fn m = eq" "hm_hash_fn m = hash" "hm_sizes m"
    "hm_load m = length xs" "uniq eq xs" "equivp eq" "0 < hm_size m"
  using assms by (auto simp: hm_rep_def key_ok_def hm_sizes_def)

lemma hm_repE:
  assumes "hm_rep eq hash m xs"
  obtains bs where "hm_buckets m = map Val bs" "hashed hash (hm_size m) bs" "mset (concat bs) = mset xs"
    "length bs = hm_size m"
  using assms by (auto simp: hm_rep_def hashed_def)

lemma hm_rep_perm: "mset xs = mset ys \<Longrightarrow> hm_rep eq hash m xs \<Longrightarrow> hm_rep eq hash m ys"
  using uniq_mset [of xs ys eq] mset_eq_length [of xs ys] by (auto simp: hm_rep_def)

lemma unat_ucast_64: "unat (ucast (h :: 32 word) :: 64 word) = unat h"
  using unsigned_less [of h, where ?'a = nat]
  by (simp add: unsigned_ucast_eq take_bit_nat_eq_self_iff)

lemma HashMapGetBucket_eq:
  assumes "hm_size m = 2 ^ k" "k \<le> 30"
  shows "HashMapGetBucket m key = Ok (unat (hm_hash_fn m key) mod hm_size m)"
proof -
  have "ISPOW2 (of_nat (hm_size m))" using assms ISPOW2_of_nat [of k] by simp
  moreover have "unat ((ucast (hm_hash_fn m key) :: 64 word) AND (of_nat (hm_size m) - 1))
      = unat (hm_hash_fn m key) mod hm_size m"
    using unat_and_pow2_minus_1 [of k "ucast (hm_hash_fn m key)"] assms
    by (simp add: unat_ucast_64)
  ultimately show ?thesis by (simp add: HashMapGetBucket_def)
qed

lemma hm_bucket:
  assumes "hm_rep eq hash m xs"
  shows "HashMapGetBucket m key = Ok (unat (hash key) mod hm_size m)"
    "unat (hash key) mod hm_size m < hm_size m"
  using hm_repD(3,4,8) [OF assms] HashMapGetBucket_eq [of m _ key] by (auto simp: hm_sizes_def)

text \<open>A size between \<open>2 ^ 5\<close> and \<open>2 ^ 30\<close> is rounded to a power of two in that range.\<close>

lemma ISPOW2_D:
  assumes "ISPOW2 v" "unat v \<le> 2 ^ 32"
  shows "\<exists>k. unat v = 2 ^ k"
proof -
  have pos: "0 < unat v" using assms(1) by (simp add: ISPOW2_def unat_gt_0 word_gt_0)
  obtain m where m: "2 ^ m \<le> unat v" "unat v < 2 ^ Suc m" using nat_log_bounds [OF pos] by blast
  show ?thesis
  proof (cases "unat v = 2 ^ m")
    case False
    then have u: "2 ^ m \<le> unat v - 1" "unat v - 1 < 2 ^ Suc m" using m by auto
    have "unat (v - 1) = unat v - 1" using pos by (simp add: unat_minus_one unat_gt_0)
    moreover have "unat v div 2 ^ m = 1" "(unat v - 1) div 2 ^ m = 1"
      using m u by (simp_all add: div_nat_eqI)
    ultimately have "bit (unat v) m" "bit (unat (v - 1)) m" by (simp_all add: bit_iff_odd)
    then have "bit (v AND (v - 1)) m" by (simp add: bit_unsigned_iff bit_and_iff)
    then show ?thesis using assms(1) by (simp add: ISPOW2_def)
  qed blast
qed

lemma hm_pow2_size:
  assumes "2 ^ 5 \<le> i" "i \<le> 2 ^ 30"
  shows "\<exists>k. (if ISPOW2 (of_nat i) then i else unat (UpperPowerOfTwo (of_nat i))) = 2 ^ k
    \<and> 5 \<le> k \<and> k \<le> 30"
proof -
  have u: "unat (of_nat i :: 64 word) = i"
    using assms(2) by (simp add: unat_of_nat take_bit_nat_eq_self_iff)
  have range: "5 \<le> k" if "i \<le> 2 ^ k" for k
    using power_le_imp_le_exp [of "2 :: nat" 5 k] order_trans [OF assms(1) that] by simp
  show ?thesis
  proof (cases "ISPOW2 (of_nat i)")
    case True
    with ISPOW2_D [of "of_nat i"] u assms(2) obtain k where k: "i = 2 ^ k" by auto
    have "k \<le> 30" using power_le_imp_le_exp [of "2 :: nat" k 30] assms(2) k by simp
    then show ?thesis using True k range [of k] by auto
  next
    case False
    from UpperPowerOfTwo_correct [of "of_nat i"] u assms obtain k where
      k: "UpperPowerOfTwo (of_nat i) = 2 ^ k" "i \<le> 2 ^ k" "k \<le> 30" by auto
    have "(2 :: nat) ^ k < 2 ^ 64" using k(3) by (intro power_strict_increasing) auto
    then have "unat (of_nat (2 ^ k) :: 64 word) = 2 ^ k"
      by (simp only: unat_of_nat take_bit_nat_eq_self_iff) simp
    then have "unat ((2 :: 64 word) ^ k) = 2 ^ k" by simp
    then show ?thesis using False k range [OF k(2)] by auto
  qed
qed

lemma HashMapNew_rep:
  assumes "key_ok eq hash"
  shows "hm_rep eq hash (HashMapNew hash eq dk dv n) []"
    "hm_frame (HashMapNew hash eq dk dv n) = (dk, dv)"
proof -
  define i where "i = min (max n MIN_HASHMAP_BUCKETS) MAX_HASHMAP_BUCKETS"
  define sz where "sz = (if ISPOW2 (of_nat i) then i else unat (UpperPowerOfTwo (of_nat i)))"
  have i: "2 ^ 5 \<le> i" "i \<le> 2 ^ 30" by (auto simp: i_def MIN_HASHMAP_BUCKETS_def MAX_HASHMAP_BUCKETS_def)
  let ?m = "HashMapNew hash eq dk dv n :: ('a, 'b) HashMap"
  from hm_pow2_size [OF i] obtain k where k: "sz = 2 ^ k" "5 \<le> k" "k \<le> 30"
    unfolding sz_def by blast
  have m: "?m = \<lparr>hm_hash_fn = hash, hm_equal_fn = eq, hm_destroy_key_fn = dk, hm_destroy_value_fn = dv,
      hm_buckets = xcalloc sz [], hm_size = sz, hm_init_size = sz, hm_load = 0,
      hm_max_threshold = max_load sz, hm_min_threshold = min_load sz\<rparr>"
    unfolding HashMapNew_def Let_def i_def sz_def ..
  have "hm_sizes ?m" unfolding hm_sizes_def m using k by auto
  moreover have "hm_buckets ?m = map Val (replicate sz [])" by (simp add: m xcalloc_def)
  moreover have "hashed hash sz (replicate sz [])" by simp
  moreover have "concat (replicate sz []) = []" by simp
  ultimately show "hm_rep eq hash ?m []"
    unfolding hm_rep_def using assms by (intro conjI exI [of _ "replicate sz []"]) (simp_all add: m)
  show "hm_frame (HashMapNew hash eq dk dv n) = (dk, dv)"
    by (simp add: hm_frame_def HashMapNew_def Let_def)
qed

section \<open>Resizing\<close>

text \<open>Rehashing keeps the entries and everything but the buckets.\<close>

lemma HashMapResize_chain_ok:
  "hm_size m = 2 ^ k \<Longrightarrow> k \<le> 30 \<Longrightarrow> hm_hash_fn m = hash \<Longrightarrow> hm_buckets m = map Val bs \<Longrightarrow>
   hashed hash (hm_size m) bs \<Longrightarrow>
   \<exists>bs'. HashMapResize_chain m c = Ok (m\<lparr>hm_buckets := map Val bs'\<rparr>) \<and> hashed hash (hm_size m) bs'
     \<and> mset (concat bs') = mset (concat bs) + mset c"
proof (induction c arbitrary: m bs)
  case Nil
  then have "m = m\<lparr>hm_buckets := map Val bs\<rparr>" by simp
  then show ?case using Nil.prems(5) by (metis HashMapResize_chain.simps(1) add.right_neutral mset.simps(1))
next
  case (Cons kv c)
  let ?b = "unat (hash (fst kv)) mod hm_size m"
  let ?bs = "bs[?b := kv # bs ! ?b]"
  have b: "?b < length bs" using Cons.prems(1,5) by (simp add: hashed_def)
  have hb: "hashed hash (hm_size m) ?bs"
    using b Cons.prems(5) by (intro hashed_update) (auto simp: hashed_def)
  have "mset (concat ?bs) = mset (concat bs) + {#kv#}"
    using mset_concat_update [OF b, of "kv # bs ! ?b"] by simp
  with Cons.IH [of "m\<lparr>hm_buckets := map Val ?bs\<rparr>" ?bs] Cons.prems hb obtain bs' where
    bs': "HashMapResize_chain (m\<lparr>hm_buckets := map Val ?bs\<rparr>) c = Ok (m\<lparr>hm_buckets := map Val bs'\<rparr>)"
      "hashed hash (hm_size m) bs'" "mset (concat bs') = mset (concat bs) + mset (kv # c)" by auto
  have upd: "(map Val bs)[?b := Val (kv # bs ! ?b)] = map Val ?bs" by (simp add: map_update)
  have "HashMapResize_chain m (kv # c) = HashMapResize_chain (m\<lparr>hm_buckets := map Val ?bs\<rparr>) c"
    using b Cons.prems(3,4) HashMapGetBucket_eq [OF Cons.prems(1,2), of "fst kv"] upd by simp
  then show ?case using bs' by auto
qed

lemma HashMapResize_loop_ok:
  "hm_size m = 2 ^ k \<Longrightarrow> k \<le> 30 \<Longrightarrow> hm_hash_fn m = hash \<Longrightarrow> hm_buckets m = map Val bs \<Longrightarrow>
   hashed hash (hm_size m) bs \<Longrightarrow> i + n = length old \<Longrightarrow>
   \<exists>bs'. HashMapResize_loop m (map Val old) i n = Ok (m\<lparr>hm_buckets := map Val bs'\<rparr>)
     \<and> hashed hash (hm_size m) bs' \<and> mset (concat bs') = mset (concat bs) + mset (concat (drop i old))"
proof (induction n arbitrary: m bs i)
  case 0
  then have "m = m\<lparr>hm_buckets := map Val bs\<rparr>" by simp
  then show ?case using 0(5,6) by (intro exI [of _ bs]) auto
next
  case (Suc n)
  from HashMapResize_chain_ok [OF Suc.prems(1-5), of "old ! i"] obtain bs1 where
    bs1: "HashMapResize_chain m (old ! i) = Ok (m\<lparr>hm_buckets := map Val bs1\<rparr>)"
      "hashed hash (hm_size m) bs1" "mset (concat bs1) = mset (concat bs) + mset (old ! i)" by blast
  from Suc.IH [of "m\<lparr>hm_buckets := map Val bs1\<rparr>" bs1 "Suc i"] Suc.prems bs1(2) obtain bs' where
    bs': "HashMapResize_loop (m\<lparr>hm_buckets := map Val bs1\<rparr>) (map Val old) (Suc i) n
        = Ok (m\<lparr>hm_buckets := map Val bs'\<rparr>)" "hashed hash (hm_size m) bs'"
      "mset (concat bs') = mset (concat bs1) + mset (concat (drop (Suc i) old))" by auto
  have "drop i old = old ! i # drop (Suc i) old" using Suc.prems(6) by (simp add: Cons_nth_drop_Suc)
  then show ?case using Suc.prems(6) bs1 bs' by (intro exI [of _ bs']) simp
qed

lemma HashMapResize_ok:
  assumes "hm_hash_fn m = hash" "hm_buckets m = map Val bs" "length bs = hm_size m"
    "new_size = 2 ^ k" "k \<le> 30"
  shows "\<exists>bs'. HashMapResize m new_size = Ok (m\<lparr>hm_size := new_size, hm_max_threshold := max_load new_size,
        hm_min_threshold := min_load new_size, hm_buckets := map Val bs'\<rparr>)
    \<and> hashed hash new_size bs' \<and> mset (concat bs') = mset (concat bs)"
proof -
  let ?m = "m\<lparr>hm_size := new_size, hm_max_threshold := max_load new_size,
    hm_min_threshold := min_load new_size, hm_buckets := xcalloc new_size []\<rparr>"
  have x: "xcalloc new_size [] = map Val (replicate new_size [])" by (simp add: xcalloc_def)
  have "\<exists>bs'. HashMapResize_loop ?m (map Val bs) 0 (hm_size m) = Ok (?m\<lparr>hm_buckets := map Val bs'\<rparr>)
     \<and> hashed hash (hm_size ?m) bs'
     \<and> mset (concat bs') = mset (concat (replicate new_size [])) + mset (concat (drop 0 bs))"
    by (rule HashMapResize_loop_ok [where k = k]) (use assms x in auto)
  then show ?thesis using assms(2) by (auto simp: HashMapResize_def)
qed

text \<open>Resizing within the bounds keeps the representation.\<close>

lemma HashMapResize_rep:
  assumes "hm_rep eq hash m xs" "new_size = 2 ^ k" "hm_init_size m \<le> new_size" "k \<le> 30"
  shows "\<exists>m'. HashMapResize m new_size = Ok m' \<and> hm_rep eq hash m' xs \<and> hm_frame m' = hm_frame m"
proof -
  note r = hm_repD [OF assms(1)]
  obtain bs where bs: "hm_buckets m = map Val bs" "mset (concat bs) = mset xs" "length bs = hm_size m"
    using hm_repE [OF assms(1)] by metis
  obtain j where j: "hm_init_size m = 2 ^ j" "5 \<le> j" using r(4) by (auto simp: hm_sizes_def)
  then have "j \<le> k" using assms(2,3) power_le_imp_le_exp [of "2 :: nat" j k] by simp
  from HashMapResize_ok [OF r(3) bs(1,3) assms(2,4)] obtain bs' where
    bs': "HashMapResize m new_size = Ok (m\<lparr>hm_size := new_size, hm_max_threshold := max_load new_size,
        hm_min_threshold := min_load new_size, hm_buckets := map Val bs'\<rparr>)"
      "hashed hash new_size bs'" "mset (concat bs') = mset (concat bs)" by blast
  let ?m = "m\<lparr>hm_size := new_size, hm_max_threshold := max_load new_size,
        hm_min_threshold := min_load new_size, hm_buckets := map Val bs'\<rparr>"
  have "hm_sizes ?m" using j \<open>j \<le> k\<close> assms(2,4) by (auto simp: hm_sizes_def)
  then have "hm_rep eq hash ?m xs" using r bs' bs(2) by (auto simp: hm_rep_def)
  then show ?thesis using bs'(1) by (intro exI [of _ ?m]) (simp add: hm_frame_def)
qed

section \<open>Operations\<close>

lemma HashMapGet_eq:
  assumes "hm_rep eq hash m xs"
  shows "HashMapGet m k = Ok (kv_get eq k xs)"
proof -
  note r = hm_repD [OF assms]
  obtain bs where bs: "hm_buckets m = map Val bs" "hashed hash (hm_size m) bs" "mset (concat bs) = mset xs"
    "length bs = hm_size m" using hm_repE [OF assms] .
  let ?b = "unat (hash k) mod hm_size m"
  have "kv_get eq k xs = kv_get eq k (concat bs)" using kv_get_perm [OF r(6)] bs(3) by metis
  also have "\<dots> = kv_get eq k (bs ! ?b)"
    unfolding kv_get_hd using kv_old_bucket [OF r(1) bs(2) r(8), of k] by simp
  finally have get: "kv_get eq k xs = find (\<lambda>kv. eq (fst kv) k) (bs ! ?b)"
    by (simp add: kv_get_def matches_def [abs_def])
  show ?thesis using hm_bucket [OF assms, of k] bs(1,4) r(2) get by (simp add: HashMapGet_def)
qed

text \<open>What insertion and removal do to one bucket, before any resizing.\<close>

lemma bucket_update_rep:
  assumes rep: "hm_rep eq hash m xs" and bs: "hm_buckets m = map Val bs" "hashed hash (hm_size m) bs"
      "mset (concat bs) = mset xs"
    and b: "b = unat (hash k) mod hm_size m"
    and c: "\<And>kv. kv \<in> set c \<Longrightarrow> kv \<in> set (bs ! b) \<or> fst kv = k"
    and ys: "mset ys + mset (bs ! b) = mset xs + mset c" "uniq eq ys"
  shows "hm_rep eq hash (m\<lparr>hm_buckets := map Val (bs[b := c]), hm_load := length ys\<rparr>) ys"
proof -
  note r = hm_repD [OF rep]
  have lt: "b < length bs" "b < hm_size m" using bs(2) r(8) b by (auto simp: hashed_def)
  have "hashed hash (hm_size m) (bs[b := c])"
    using bs(2) c lt b by (intro hashed_update) (auto simp: hashed_def)
  moreover have "mset (concat (bs[b := c])) = mset ys"
    using mset_concat_update [OF lt(1), of c] ys(1) bs(3) by (metis add_right_cancel)
  ultimately show ?thesis using rep ys(2) by (auto simp: hm_rep_def hm_sizes_def)
qed

lemma hm_destroy_entry_eq: "hm_destroy_entry m kv = gone_of (hm_frame m) [kv]"
  by (simp add: hm_destroy_entry_def gone_of_def hm_frame_def call_destroy_if_eq)

lemma HashMapInsert_grow:
  assumes "hm_rep eq hash m xs" "hm_size m < MAX_HASHMAP_BUCKETS"
  shows "\<exists>m'. HashMapResize m (hm_size m * 2) = Ok m' \<and> hm_rep eq hash m' xs \<and> hm_frame m' = hm_frame m"
proof -
  obtain j k where s: "hm_init_size m = 2 ^ j" "hm_size m = 2 ^ k" "j \<le> k"
    using hm_repD(4) [OF assms(1)] by (auto simp: hm_sizes_def)
  then have "k < 30" using assms(2) power_less_imp_less_exp [of "2 :: nat" k 30]
    by (simp add: MAX_HASHMAP_BUCKETS_def)
  moreover have "(2 :: nat) ^ j \<le> 2 ^ Suc k" using s(3) by (intro power_increasing) auto
  ultimately show ?thesis using s
    by (intro HashMapResize_rep [OF assms(1), where k = "Suc k"]) auto
qed

lemma HashMapRemove_shrink:
  assumes "hm_rep eq hash m xs" "hm_init_size m < hm_size m"
  shows "\<exists>m'. HashMapResize m (hm_size m div 2) = Ok m' \<and> hm_rep eq hash m' xs \<and> hm_frame m' = hm_frame m"
proof -
  obtain j k where s: "hm_init_size m = 2 ^ j" "hm_size m = 2 ^ k" "k \<le> 30"
    using hm_repD(4) [OF assms(1)] by (auto simp: hm_sizes_def)
  then have "j < k" using assms(2) power_less_imp_less_exp [of "2 :: nat" j k] by simp
  then obtain k' where k': "k = Suc k'" "j \<le> k'" by (cases k) auto
  then have "(2 :: nat) ^ j \<le> 2 ^ k'" by (intro power_increasing) auto
  then show ?thesis using s k'
    by (intro HashMapResize_rep [OF assms(1), where k = k']) auto
qed

lemma HashMapInsert_rep:
  assumes "hm_rep eq hash m xs"
  shows "\<exists>m'. HashMapInsert m k v
      = Ok (kv_get eq k xs \<noteq> None, m', gone_of (hm_frame m) (kv_old eq k xs))
    \<and> hm_rep eq hash m' (kv_put eq k v xs) \<and> hm_frame m' = hm_frame m"
proof -
  note r = hm_repD [OF assms]
  obtain bs where bs: "hm_buckets m = map Val bs" "hashed hash (hm_size m) bs" "mset (concat bs) = mset xs"
    "length bs = hm_size m" using hm_repE [OF assms] .
  define b where "b = unat (hash k) mod hm_size m"
  have lt: "b < length bs" using bs(4) r(8) by (simp add: b_def)
  have "kv_old eq k xs = kv_old eq k (concat bs)" using kv_old_perm [OF r(6)] bs(3) by metis
  then have old: "kv_old eq k xs = kv_old eq k (bs ! b)"
    using kv_old_bucket [OF r(1) bs(2) r(8), of k] by (simp add: b_def)
  have pre: "HashMapGetBucket m k = Ok b" "cread (hm_buckets m) b = Ok (bs ! b)"
    using hm_bucket [OF assms, of k] lt bs(1) by (simp_all add: b_def)
  have uq: "uniq eq (kv_put eq k v xs)" using uniq_kv_put r(6,7) by metis
  have split: "mset xs = mset (kv_old eq k xs) + mset (kv_del eq k xs)" by (rule mset_old_del)
  show ?thesis
  proof (cases "chain_replace eq k v (bs ! b)")
    case (Some p)
    then obtain c old' where p: "chain_replace eq k v (bs ! b) = Some (c, old')" by (cases p) auto
    from chain_replace_Some [OF p] obtain rest where
      c: "kv_old eq k (bs ! b) = old' # rest" "add_mset old' (mset c) = add_mset (k, v) (mset (bs ! b))"
      by blast
    then have o: "kv_old eq k xs = [old']" "kv_get eq k xs = Some old'"
      using old uniq_kv_old [OF r(6), of k] by (auto split: option.splits)
    have len: "length (kv_put eq k v xs) = length xs"
      using arg_cong [OF split, of size] o(1) by (simp add: kv_put_def)
    have "set c \<subseteq> insert (k, v) (set (bs ! b))"
      using arg_cong [OF c(2), of set_mset] by auto
    moreover have "mset (kv_put eq k v xs) + mset (bs ! b) = mset xs + mset c"
      using c(2) split o(1) by (simp add: kv_put_def)
    ultimately have "hm_rep eq hash (m\<lparr>hm_buckets := map Val (bs[b := c]), hm_load := length (kv_put eq k v xs)\<rparr>)
        (kv_put eq k v xs)"
      using uq by (intro bucket_update_rep [OF assms bs(1-3) b_def]) auto
    then have "hm_rep eq hash (m\<lparr>hm_buckets := map Val (bs[b := c])\<rparr>) (kv_put eq k v xs)"
      using len r(5) by (simp add: hm_rep_def hm_sizes_def)
    then show ?thesis using pre p r(2) o lt bs(1)
      by (simp add: HashMapInsert_def hm_destroy_entry_eq map_update [symmetric] hm_frame_def)
  next
    case None
    then have o: "kv_old eq k xs = []" "kv_get eq k xs = None"
      using old chain_replace_None [of eq k v "bs ! b"] kv_get_None_iff [of eq k xs] by auto
    then have put: "kv_put eq k v xs = xs @ [(k, v)]" by (simp add: kv_put_def kv_del_absent)
    define m1 where "m1 = m\<lparr>hm_buckets := map Val (bs[b := (k, v) # bs ! b]), hm_load := Suc (hm_load m)\<rparr>"
    have "hm_rep eq hash (m\<lparr>hm_buckets := map Val (bs[b := (k, v) # bs ! b]),
        hm_load := length (kv_put eq k v xs)\<rparr>) (kv_put eq k v xs)"
      by (rule bucket_update_rep [OF assms bs(1-3) b_def]) (use uq put in auto)
    then have m1: "hm_rep eq hash m1 (kv_put eq k v xs)" using r(5) put by (simp add: m1_def)
    have sel: "hm_load m1 = Suc (hm_load m)" "hm_size m1 = hm_size m"
      "hm_max_threshold m1 = hm_max_threshold m" "hm_frame m1 = hm_frame m"
      by (simp_all add: m1_def hm_frame_def)
    have "cwrite (hm_buckets m) b ((k, v) # bs ! b) = Ok (map Val (bs[b := (k, v) # bs ! b]))"
      using lt bs(1) by (simp add: map_update)
    then show ?thesis using pre None r(2) o m1 HashMapInsert_grow [OF m1] sel
      by (simp add: HashMapInsert_def Let_def m1_def [symmetric])
  qed
qed

lemma HashMapRemove_rep:
  assumes "hm_rep eq hash m xs"
  shows "\<exists>m'. HashMapRemove m k
      = Ok (kv_get eq k xs \<noteq> None, m', gone_of (hm_frame m) (kv_old eq k xs))
    \<and> hm_rep eq hash m' (kv_del eq k xs) \<and> hm_frame m' = hm_frame m"
proof -
  note r = hm_repD [OF assms]
  obtain bs where bs: "hm_buckets m = map Val bs" "hashed hash (hm_size m) bs" "mset (concat bs) = mset xs"
    "length bs = hm_size m" using hm_repE [OF assms] .
  define b where "b = unat (hash k) mod hm_size m"
  have lt: "b < length bs" using bs(4) r(8) by (simp add: b_def)
  have "kv_old eq k xs = kv_old eq k (concat bs)" using kv_old_perm [OF r(6)] bs(3) by metis
  then have old: "kv_old eq k xs = kv_old eq k (bs ! b)"
    using kv_old_bucket [OF r(1) bs(2) r(8), of k] by (simp add: b_def)
  have pre: "HashMapGetBucket m k = Ok b" "cread (hm_buckets m) b = Ok (bs ! b)"
    using hm_bucket [OF assms, of k] lt bs(1) by (simp_all add: b_def)
  show ?thesis
  proof (cases "chain_remove eq k (bs ! b)")
    case None
    then have o: "kv_old eq k xs = []" "kv_get eq k xs = None"
      using old chain_remove_None [of eq k "bs ! b"] kv_get_None_iff [of eq k xs] by auto
    then show ?thesis using pre None r(2) assms by (simp add: HashMapRemove_def kv_del_absent)
  next
    case (Some p)
    then obtain c old' where p: "chain_remove eq k (bs ! b) = Some (c, old')" by (cases p) auto
    from chain_remove_Some [OF p] obtain rest where
      c: "kv_old eq k (bs ! b) = old' # rest" "add_mset old' (mset c) = mset (bs ! b)" by blast
    then have o: "kv_old eq k xs = [old']" "kv_get eq k xs = Some old'"
      using old uniq_kv_old [OF r(6), of k] by (auto split: option.splits)
    have split: "mset xs = add_mset old' (mset (kv_del eq k xs))" using mset_old_del [of xs eq k] o(1) by simp
    have "length xs = Suc (length (kv_del eq k xs))" by (metis size_add_mset size_mset split)
    then have len: "length (kv_del eq k xs) = hm_load m - 1" using r(5) by simp
    define m1 where "m1 = m\<lparr>hm_buckets := map Val (bs[b := c]), hm_load := hm_load m - Suc 0\<rparr>"
    have "set c \<subseteq> set (bs ! b)" using arg_cong [OF c(2), of set_mset] by auto
    moreover have "mset (kv_del eq k xs) + mset (bs ! b) = mset xs + mset c"
      unfolding split c(2) [symmetric] by simp
    ultimately have m1: "hm_rep eq hash m1 (kv_del eq k xs)"
      using bucket_update_rep [OF assms bs(1-3) b_def, of c "kv_del eq k xs"] uniq_kv_del [OF r(6)] len
      by (auto simp: m1_def)
    have sel: "hm_load m1 = hm_load m - Suc 0" "hm_size m1 = hm_size m" "hm_init_size m1 = hm_init_size m"
      "hm_min_threshold m1 = hm_min_threshold m" "hm_frame m1 = hm_frame m"
      by (simp_all add: m1_def hm_frame_def)
    have "cwrite (hm_buckets m) b c = Ok (map Val (bs[b := c]))"
      using lt bs(1) by (simp add: map_update)
    then show ?thesis using pre p r(2) o m1 HashMapRemove_shrink [OF m1] sel
      by (simp add: HashMapRemove_def Let_def m1_def [symmetric] hm_destroy_entry_eq)
  qed
qed

interpretation hm: kv_store "hm_rep eq hash" eq hm_frame HashMapInsert HashMapRemove HashMapGet
  for eq hash
  by unfold_locales (erule hm_repD(7), erule hm_repD(6), erule HashMapInsert_rep,
      erule HashMapRemove_rep, erule HashMapGet_eq)

section \<open>Clearing and destroying\<close>

lemma gone_of_append:
  "gone_of ds (xs @ ys) = (fst (gone_of ds xs) @ fst (gone_of ds ys), snd (gone_of ds xs) @ snd (gone_of ds ys))"
  by (simp add: gone_of_def)

lemma FreeBucketListItem_eq:
  "length c \<le> hm_load m \<Longrightarrow>
   FreeBucketListItem m c = Ok (m\<lparr>hm_load := hm_load m - length c\<rparr>, gone_of (hm_frame m) (rev c))"
proof (induction c)
  case (Cons kv c)
  then show ?case
    by (simp add: hm_destroy_entry_eq gone_of_append split_beta diff_Suc)
qed simp

lemma HashMapClear_loop_eq:
  "hm_buckets m = map Val bs \<Longrightarrow> i + n = length bs \<Longrightarrow> length (concat (drop i bs)) \<le> hm_load m \<Longrightarrow>
   HashMapClear_loop m i n = Ok (m\<lparr>hm_buckets := map Val (take i bs @ replicate n []),
       hm_load := hm_load m - length (concat (drop i bs))\<rparr>,
     gone_of (hm_frame m) (concat (map rev (drop i bs))))"
proof (induction n arbitrary: m i bs)
  case 0
  then show ?case by simp
next
  case (Suc n)
  have i: "i < length bs" using Suc.prems(2) by simp
  then have d: "drop i bs = bs ! i # drop (Suc i) bs" by (simp add: Cons_nth_drop_Suc)
  let ?m1 = "m\<lparr>hm_load := hm_load m - length (bs ! i)\<rparr>"
  let ?m2 = "?m1\<lparr>hm_buckets := map Val (bs[i := []])\<rparr>"
  have free: "FreeBucketListItem m (bs ! i) = Ok (?m1, gone_of (hm_frame m) (rev (bs ! i)))"
    using Suc.prems(3) d by (intro FreeBucketListItem_eq) simp
  have "HashMapClear_loop ?m2 (Suc i) n = Ok (?m2\<lparr>hm_buckets := map Val (take (Suc i) (bs[i := []]) @ replicate n []),
       hm_load := hm_load ?m2 - length (concat (drop (Suc i) (bs[i := []])))\<rparr>,
     gone_of (hm_frame ?m2) (concat (map rev (drop (Suc i) (bs[i := []])))))"
    using Suc.prems d by (intro Suc.IH) auto
  moreover have "take (Suc i) (bs[i := []]) = take i bs @ [[]]"
    using i by (simp add: take_Suc_conv_app_nth)
  moreover have "hm_frame ?m2 = hm_frame m" by (simp add: hm_frame_def)
  moreover have "(map Val bs)[i := Val []] = map Val (bs[i := []])" by (simp add: map_update)
  ultimately show ?case using free i Suc.prems(1) d
    by (simp add: gone_of_append split_beta)
qed

lemma mset_concat_rev: "mset (concat (map rev bs)) = mset (concat bs)"
  by (induction bs) auto

lemma HashMapClear_rep:
  assumes "hm_rep eq hash m xs"
  shows "\<exists>m' ys. HashMapClear m = Ok (m', gone_of (hm_frame m) ys) \<and> mset ys = mset xs
    \<and> hm_rep eq hash m' [] \<and> hm_frame m' = hm_frame m"
proof -
  note r = hm_repD [OF assms]
  obtain bs where bs: "hm_buckets m = map Val bs" "mset (concat bs) = mset xs" "length bs = hm_size m"
    using hm_repE [OF assms] by metis
  let ?m = "m\<lparr>hm_buckets := map Val (replicate (hm_size m) []), hm_load := 0\<rparr>"
  have len: "length (concat bs) = hm_load m" using r(5) mset_eq_length [OF bs(2)] by simp
  then have "HashMapClear_loop m 0 (hm_size m) = Ok (?m, gone_of (hm_frame m) (concat (map rev bs)))"
    using HashMapClear_loop_eq [OF bs(1), of 0 "hm_size m"] bs(3) by simp
  moreover have "hm_rep eq hash ?m []"
    unfolding hm_rep_def using assms
    by (intro conjI exI [of _ "replicate (hm_size m) []"]) (auto simp: hm_rep_def hm_sizes_def)
  ultimately show ?thesis using mset_concat_rev [of bs] bs(2)
    by (intro exI [of _ ?m] exI [of _ "concat (map rev bs)"]) (simp add: HashMapClear_def hm_frame_def)
qed

lemma FreeBucketListItemSoft_eq:
  "length c \<le> hm_load m \<Longrightarrow> hm_destroy_key_fn m = Ptr d \<Longrightarrow>
   FreeBucketListItemSoft m c = Ok (m\<lparr>hm_load := hm_load m - length c\<rparr>, released d (map fst (rev c)))"
proof (induction c)
  case (Cons kv c)
  then show ?case by (simp add: diff_Suc)
qed simp

lemma HashMapSoftDestroy_loop_eq:
  "hm_buckets m = map Val bs \<Longrightarrow> i + n = length bs \<Longrightarrow> length (concat (drop i bs)) \<le> hm_load m \<Longrightarrow>
   hm_destroy_key_fn m = Ptr d \<Longrightarrow>
   HashMapSoftDestroy_loop m i n = Ok (released d (map fst (concat (map rev (drop i bs)))))"
proof (induction n arbitrary: m i bs)
  case 0
  then show ?case by simp
next
  case (Suc n)
  have i: "i < length bs" using Suc.prems(2) by simp
  then have d: "drop i bs = bs ! i # drop (Suc i) bs" by (simp add: Cons_nth_drop_Suc)
  let ?m1 = "m\<lparr>hm_load := hm_load m - length (bs ! i)\<rparr>"
  let ?m2 = "?m1\<lparr>hm_buckets := map Val (bs[i := []])\<rparr>"
  have free: "FreeBucketListItemSoft m (bs ! i) = Ok (?m1, released d (map fst (rev (bs ! i))))"
    using Suc.prems(3,4) d by (intro FreeBucketListItemSoft_eq) simp_all
  have "HashMapSoftDestroy_loop ?m2 (Suc i) n
      = Ok (released d (map fst (concat (map rev (drop (Suc i) (bs[i := []]))))))"
    using Suc.prems d by (intro Suc.IH) auto
  moreover have "(map Val bs)[i := Val []] = map Val (bs[i := []])" by (simp add: map_update)
  ultimately show ?case using free i Suc.prems(1) d by simp
qed

section \<open>Iteration\<close>

text \<open>\<open>hmi_ok bs i rest\<close>: the iterator is on a map with the buckets \<open>bs\<close> and has \<open>rest\<close> still to return.\<close>

definition hmi_ok :: "('k \<times> 'v) list list \<Rightarrow> ('k, 'v) HashMapIterator \<Rightarrow> ('k \<times> 'v) list \<Rightarrow> bool" where
  "hmi_ok bs i rest \<longleftrightarrow> hm_buckets (hmi_map i) = map Val bs \<and> length bs = hm_size (hmi_map i)
     \<and> rest = hmi_cur i @ concat (drop (Suc (hmi_bucket i)) bs)"

lemma HashMapIteratorInit_ok:
  assumes "hm_rep eq hash m xs"
  shows "\<exists>i bs. HashMapIteratorInit m = Ok i \<and> hmi_ok bs i (concat bs) \<and> mset (concat bs) = mset xs"
proof -
  obtain bs where bs: "hm_buckets m = map Val bs" "mset (concat bs) = mset xs" "length bs = hm_size m"
    using hm_repE [OF assms] by metis
  with hm_repD(8) [OF assms] have "bs = bs ! 0 # drop (Suc 0) bs"
    by (simp add: Cons_nth_drop_Suc)
  then have "concat bs = bs ! 0 @ concat (drop (Suc 0) bs)" by (metis concat.simps(2))
  then show ?thesis using bs hm_repD(8) [OF assms]
    by (intro exI [of _ "\<lparr>hmi_map = m, hmi_cur = bs ! 0, hmi_bucket = 0\<rparr>"] exI [of _ bs])
      (simp add: HashMapIteratorInit_def hmi_ok_def)
qed

lemma HashMapIteratorNext_ok:
  "hmi_ok bs i rest \<Longrightarrow>
   \<exists>i'. HashMapIteratorNext i = Ok (case rest of [] \<Rightarrow> NULL | kv # _ \<Rightarrow> Ptr kv, i') \<and> hmi_ok bs i' (tl rest)"
proof (induction i rule: HashMapIteratorNext.induct)
  case (1 i)
  show ?case
  proof (cases "hmi_cur i")
    case (Cons kv cs)
    then show ?thesis using 1 by (simp add: HashMapIteratorNext.simps [of i] hmi_ok_def)
  next
    case Nil
    let ?i = "i\<lparr>hmi_bucket := hmi_bucket i + 1\<rparr>"
    show ?thesis
    proof (cases "hmi_bucket ?i \<ge> hm_size (hmi_map i)")
      case True
      then show ?thesis using 1 Nil by (simp add: HashMapIteratorNext.simps [of i] hmi_ok_def)
    next
      case False
      let ?j = "?i\<lparr>hmi_cur := bs ! hmi_bucket ?i\<rparr>"
      have lt: "hmi_bucket ?i < length bs" using False 1(2) by (simp add: hmi_ok_def)
      then have "drop (Suc (hmi_bucket i)) bs = bs ! hmi_bucket ?i # drop (Suc (hmi_bucket ?i)) bs"
        by (simp add: Cons_nth_drop_Suc)
      then have ok: "hmi_ok bs ?j rest" using 1(2) Nil by (simp add: hmi_ok_def)
      have rd: "cread (hm_buckets (hmi_map i)) (hmi_bucket ?i) = Ok (bs ! hmi_bucket ?i)"
        using lt 1(2) by (simp add: hmi_ok_def)
      have "HashMapIteratorNext i = HashMapIteratorNext ?j"
        using Nil False rd by (simp add: HashMapIteratorNext.simps [of i])
      then show ?thesis using 1(1) [OF Nil refl False rd ok] by simp
    qed
  qed
qed

end
