(* ===== verification/MapLib.thy ===== *)
theory MapLib
  imports ArrayMap HashMap StringLib
begin

text \<open>
  libutils/map.c: the map that starts as an \<open>ArrayMap\<close> and becomes a \<open>HashMap\<close>, for good, when an
  insertion does not fit. \<open>hash_fn\<close> doubles as the flag: it is NULL once the union holds the hash map.
\<close>

section \<open>Data and operations\<close>

definition DEFAULT_HASHMAP_INIT_SIZE :: nat where
  "DEFAULT_HASHMAP_INIT_SIZE = 128"

datatype ('k, 'v) map_union = Arraymap "('k, 'v) ArrayMap" | Hashmap "('k, 'v) HashMap"

record ('k, 'v) Map =
  map_hash_fn :: "('k \<Rightarrow> 32 word) ptr"
  map_impl :: "('k, 'v) map_union"

text \<open>Reading the member of the union that is not there is a fault.\<close>

definition arraymap_of :: "('k, 'v) Map \<Rightarrow> ('k, 'v) ArrayMap res" where
  "arraymap_of m = (case map_impl m of Arraymap a \<Rightarrow> Ok a | Hashmap _ \<Rightarrow> Fault UninitRead)"

definition hashmap_of :: "('k, 'v) Map \<Rightarrow> ('k, 'v) HashMap res" where
  "hashmap_of m = (case map_impl m of Hashmap h \<Rightarrow> Ok h | Arraymap _ \<Rightarrow> Fault UninitRead)"

definition IsArrayMap :: "('k, 'v) Map \<Rightarrow> bool" where
  "IsArrayMap m \<longleftrightarrow> map_hash_fn m \<noteq> NULL"

text \<open>
  \<open>address\<close> is the address of a key, which IdentityHashFn cuts to 32 bits; keys with the same
  address are the same key.
\<close>

definition IdentityHashFn :: "('k \<Rightarrow> 64 word) \<Rightarrow> 'k \<Rightarrow> 32 word" where
  "IdentityHashFn address p = ucast (address p)"

definition IdentityEqualFn :: "'k \<Rightarrow> 'k \<Rightarrow> bool" where
  "IdentityEqualFn p1 p2 \<longleftrightarrow> p1 = p2"

definition MapNew ::
  "('k \<Rightarrow> 64 word) \<Rightarrow> ('k \<Rightarrow> 32 word) ptr \<Rightarrow> ('k \<Rightarrow> 'k \<Rightarrow> bool) ptr \<Rightarrow> destroyer ptr \<Rightarrow> destroyer ptr
    \<Rightarrow> ('k, 'v) Map" where
  "MapNew address hash_fn equal_fn destroy_key_fn destroy_value_fn =
     (let hash_fn' = (case hash_fn of NULL \<Rightarrow> IdentityHashFn address | Ptr h \<Rightarrow> h);
          equal_fn' = (case equal_fn of NULL \<Rightarrow> IdentityEqualFn | Ptr e \<Rightarrow> e);
          destroy_key_fn' = (case destroy_key_fn of NULL \<Rightarrow> Ptr NopDestroyFn | Ptr d \<Rightarrow> Ptr d);
          destroy_value_fn' = (case destroy_value_fn of NULL \<Rightarrow> Ptr NopDestroyFn | Ptr d \<Rightarrow> Ptr d)
      in \<lparr>map_hash_fn = Ptr hash_fn',
          map_impl = Arraymap (ArrayMapNew equal_fn' destroy_key_fn' destroy_value_fn')\<rparr>)"

definition MapSize :: "('k, 'v) Map \<Rightarrow> nat res" where
  "MapSize m =
     (if IsArrayMap m then bindE (arraymap_of m) (\<lambda>a. Ok (am_size a))
      else bindE (hashmap_of m) (\<lambda>h. Ok (hm_load h)))"

fun ConvertToHashMap_loop ::
  "('k, 'v) ArrayMap \<Rightarrow> ('k, 'v) HashMap \<Rightarrow> nat \<Rightarrow> nat \<Rightarrow> (('k, 'v) HashMap \<times> ('k, 'v) gone) res" where
  "ConvertToHashMap_loop a h i 0 = Ok (h, [], [])"
| "ConvertToHashMap_loop a h i (Suc n) =
     bindE (cread (am_values a) i) (\<lambda>(key, value).
     bindE (HashMapInsert h key value) (\<lambda>(_, h1, ks, vs).
     bindE (ConvertToHashMap_loop a h1 (i + 1) n) (\<lambda>(h2, ks', vs').
     Ok (h2, ks @ ks', vs @ vs'))))"

definition ConvertToHashMap :: "('k, 'v) Map \<Rightarrow> (('k, 'v) Map \<times> ('k, 'v) gone) res" where
  "ConvertToHashMap m =
     bindE (arraymap_of m) (\<lambda>a.
     case map_hash_fn m of
       NULL \<Rightarrow> Fault NullDeref
     | Ptr hash_fn \<Rightarrow>
         bindE (ConvertToHashMap_loop a
                  (HashMapNew hash_fn (am_equal_fn a) (am_destroy_key_fn a) (am_destroy_value_fn a)
                     DEFAULT_HASHMAP_INIT_SIZE) 0 (am_size a)) (\<lambda>(h, gone).
         Ok (m\<lparr>map_impl := Hashmap h, map_hash_fn := NULL\<rparr>, gone)))"

definition MapInsert ::
  "('k, 'v) Map \<Rightarrow> 'k ptr \<Rightarrow> 'v ptr \<Rightarrow> (bool \<times> ('k, 'v) Map \<times> ('k, 'v) gone) res" where
  "MapInsert m key value = (case (key, value) of
     (Ptr k, Ptr v) \<Rightarrow>
       bindE (if IsArrayMap m
              then bindE (arraymap_of m) (\<lambda>a.
                   bindE (ArrayMapInsert a k v) (\<lambda>(ret, a', gone).
                   if ret \<noteq> 0 then Ok (Inl (ret = 1, m\<lparr>map_impl := Arraymap a'\<rparr>, gone))
                   else bindE (ConvertToHashMap m) (\<lambda>(m', gone'). Ok (Inr (m', gone')))))
              else Ok (Inr (m, [], []))) (\<lambda>r.
       case r of
         Inl done \<Rightarrow> Ok done
       | Inr (m', ks, vs) \<Rightarrow>
           bindE (hashmap_of m') (\<lambda>h.
           bindE (HashMapInsert h k v) (\<lambda>(replaced, h', ks', vs').
           Ok (replaced, m'\<lparr>map_impl := Hashmap h'\<rparr>, ks @ ks', vs @ vs'))))
   | _ \<Rightarrow> Fault AssertFail)"

definition MapGetRaw :: "('k, 'v) Map \<Rightarrow> 'k \<Rightarrow> ('k, 'v) MapKeyValue ptr res" where
  "MapGetRaw m key =
     (if IsArrayMap m then bindE (arraymap_of m) (\<lambda>a. ArrayMapGet a key)
      else bindE (hashmap_of m) (\<lambda>h. HashMapGet h key))"

definition MapHasKey :: "('k, 'v) Map \<Rightarrow> 'k ptr \<Rightarrow> bool res" where
  "MapHasKey m key = (case key of
     NULL \<Rightarrow> Fault AssertFail
   | Ptr k \<Rightarrow> bindE (MapGetRaw m k) (\<lambda>kv. Ok (kv \<noteq> NULL)))"

definition MapGet :: "('k, 'v) Map \<Rightarrow> 'k \<Rightarrow> 'v ptr res" where
  "MapGet m key = bindE (MapGetRaw m key) (\<lambda>kv. Ok (map_option snd kv))"

definition MapRemove :: "('k, 'v) Map \<Rightarrow> 'k \<Rightarrow> (bool \<times> ('k, 'v) Map \<times> ('k, 'v) gone) res" where
  "MapRemove m key =
     (if IsArrayMap m
      then bindE (arraymap_of m) (\<lambda>a.
           bindE (ArrayMapRemove a key) (\<lambda>(r, a', gone). Ok (r, m\<lparr>map_impl := Arraymap a'\<rparr>, gone)))
      else bindE (hashmap_of m) (\<lambda>h.
           bindE (HashMapRemove h key) (\<lambda>(r, h', gone). Ok (r, m\<lparr>map_impl := Hashmap h'\<rparr>, gone))))"

definition MapClear :: "('k, 'v) Map \<Rightarrow> (('k, 'v) Map \<times> ('k, 'v) gone) res" where
  "MapClear m =
     (if IsArrayMap m
      then bindE (arraymap_of m) (\<lambda>a.
           bindE (ArrayMapClear a) (\<lambda>(a', gone). Ok (m\<lparr>map_impl := Arraymap a'\<rparr>, gone)))
      else bindE (hashmap_of m) (\<lambda>h.
           bindE (HashMapClear h) (\<lambda>(h', gone). Ok (m\<lparr>map_impl := Hashmap h'\<rparr>, gone))))"

definition MapSoftDestroy :: "('k, 'v) Map ptr \<Rightarrow> ('k, 'v) gone res" where
  "MapSoftDestroy mp = (case mp of
     NULL \<Rightarrow> Ok ([], [])
   | Ptr m \<Rightarrow>
       if IsArrayMap m then bindE (arraymap_of m) (\<lambda>a. ArrayMapSoftDestroy (Ptr a))
       else bindE (hashmap_of m) (\<lambda>h. HashMapSoftDestroy (Ptr h)))"

definition MapDestroy :: "('k, 'v) Map ptr \<Rightarrow> ('k, 'v) gone res" where
  "MapDestroy mp = (case mp of
     NULL \<Rightarrow> Ok ([], [])
   | Ptr m \<Rightarrow>
       if IsArrayMap m then bindE (arraymap_of m) (\<lambda>a. ArrayMapDestroy (Ptr a))
       else bindE (hashmap_of m) (\<lambda>h. HashMapDestroy (Ptr h)))"

text \<open>The iterator is a union with the flag \<open>is_array\<close>.\<close>

datatype ('k, 'v) MapIterator =
    ArraymapIter "('k, 'v) ArrayMapIterator"
  | HashmapIter "('k, 'v) HashMapIterator"

definition MapIteratorInit :: "('k, 'v) Map \<Rightarrow> ('k, 'v) MapIterator res" where
  "MapIteratorInit m =
     (if IsArrayMap m then bindE (arraymap_of m) (\<lambda>a. Ok (ArraymapIter (ArrayMapIteratorInit a)))
      else bindE (hashmap_of m) (\<lambda>h. bindE (HashMapIteratorInit h) (\<lambda>i. Ok (HashmapIter i))))"

fun MapIteratorNext ::
  "('k, 'v) MapIterator \<Rightarrow> (('k, 'v) MapKeyValue ptr \<times> ('k, 'v) MapIterator) res" where
  "MapIteratorNext (ArraymapIter i) =
     bindE (ArrayMapIteratorNext i) (\<lambda>(kv, i'). Ok (kv, ArraymapIter i'))"
| "MapIteratorNext (HashmapIter i) =
     bindE (HashMapIteratorNext i) (\<lambda>(kv, i'). Ok (kv, HashmapIter i'))"

text \<open>
  The loop of MapContainsSameKeys, which ends when the iterator of the first map is exhausted; the
  bound is one more than the size of that map.
\<close>

fun MapContainsSameKeys_loop :: "('k, 'v) MapIterator \<Rightarrow> ('k, 'w) Map \<Rightarrow> nat \<Rightarrow> nat \<Rightarrow> bool res" where
  "MapContainsSameKeys_loop i m2 cnt 0 = Fault OutOfFuel"
| "MapContainsSameKeys_loop i m2 cnt (Suc n) =
     bindE (MapIteratorNext i) (\<lambda>(item, i').
     case item of
       NULL \<Rightarrow> bindE (MapSize m2) (\<lambda>sz. Ok (cnt = sz))
     | Ptr kv \<Rightarrow>
         bindE (MapHasKey m2 (Ptr (fst kv))) (\<lambda>has.
         if \<not> has then Ok False else MapContainsSameKeys_loop i' m2 (cnt + 1) n))"

definition MapContainsSameKeys :: "('k, 'v) Map \<Rightarrow> ('k, 'w) Map \<Rightarrow> bool res" where
  "MapContainsSameKeys m1 m2 =
     bindE (MapIteratorInit m1) (\<lambda>i.
     bindE (MapSize m1) (\<lambda>n. MapContainsSameKeys_loop i m2 0 (Suc n)))"

section \<open>Representation\<close>

definition map_frame :: "('k, 'v) Map \<Rightarrow> destroyer ptr \<times> destroyer ptr" where
  "map_frame m = (case map_impl m of Arraymap a \<Rightarrow> am_frame a | Hashmap h \<Rightarrow> hm_frame h)"

definition map_rep ::
  "('k \<Rightarrow> 'k \<Rightarrow> bool) \<Rightarrow> ('k \<Rightarrow> 32 word) \<Rightarrow> ('k, 'v) Map \<Rightarrow> ('k \<times> 'v) list \<Rightarrow> bool" where
  "map_rep eq hash m xs \<longleftrightarrow> key_ok eq hash \<and> (case map_impl m of
     Arraymap a \<Rightarrow> map_hash_fn m = Ptr hash \<and> (\<exists>ys. am_rep eq a ys \<and> mset ys = mset xs)
   | Hashmap h \<Rightarrow> map_hash_fn m = NULL \<and> hm_rep eq hash h xs
       \<and> hm_destroy_key_fn h \<noteq> NULL \<and> hm_destroy_value_fn h \<noteq> NULL)"

lemma map_rep_cases [consumes 1, case_names array hash]:
  assumes "map_rep eq hash m xs"
  obtains (array) a ys where "m = \<lparr>map_hash_fn = Ptr hash, map_impl = Arraymap a\<rparr>" "am_rep eq a ys"
      "mset ys = mset xs" "key_ok eq hash"
    | (hash) h where "m = \<lparr>map_hash_fn = NULL, map_impl = Hashmap h\<rparr>" "hm_rep eq hash h xs"
      "hm_destroy_key_fn h \<noteq> NULL" "hm_destroy_value_fn h \<noteq> NULL" "key_ok eq hash"
  using assms by (cases m) (auto simp: map_rep_def split: map_union.splits)

lemmas map_access = IsArrayMap_def arraymap_of_def hashmap_of_def

lemma map_rep_uniq:
  assumes "map_rep eq hash m xs"
  shows "uniq eq xs" "equivp eq"
proof -
  show "uniq eq xs" using assms
  proof (cases rule: map_rep_cases)
    case (array a ys)
    then show ?thesis using am_repD(6) [OF array(2)] uniq_mset [OF array(3), of eq] by simp
  next
    case (hash h)
    then show ?thesis using hm_repD(6) [OF hash(2)] by simp
  qed
  show "equivp eq" using assms key_okD(1) by (auto simp: map_rep_def)
qed

lemma map_rep_perm: "mset xs = mset ys \<Longrightarrow> map_rep eq hash m xs \<Longrightarrow> map_rep eq hash m ys"
  using hm_rep_perm [of xs ys eq hash] by (auto simp: map_rep_def split: map_union.splits)

lemma MapNew_rep:
  assumes "key_ok eq hash"
  shows "map_rep eq hash (MapNew address (Ptr hash) (Ptr eq) (Ptr dk) (Ptr dv)) []"
    "map_frame (MapNew address (Ptr hash) (Ptr eq) (Ptr dk) (Ptr dv)) = (Ptr dk, Ptr dv)"
    "map_rep eq hash (MapNew address (Ptr hash) (Ptr eq) (Ptr dk) NULL) []"
    "map_frame (MapNew address (Ptr hash) (Ptr eq) (Ptr dk) NULL) = (Ptr dk, Ptr NopDestroyFn)"
  using assms
  by (simp_all add: MapNew_def map_rep_def map_frame_def Let_def ArrayMapNew_rep [OF key_okD(1) [OF assms]])

text \<open>A NULL hash and a NULL equality stand for address and identity, a sound pair of callbacks.\<close>

lemma identity_key_ok: "key_ok IdentityEqualFn (IdentityHashFn address)"
  by (auto simp: key_ok_def IdentityEqualFn_def [abs_def] identity_equivp)

lemma MapNew_defaults_rep:
  "map_rep IdentityEqualFn (IdentityHashFn address) (MapNew address NULL NULL NULL NULL) []"
  by (simp add: MapNew_def map_rep_def Let_def identity_key_ok
      ArrayMapNew_rep [OF key_okD(1) [OF identity_key_ok]])

lemma MapSize_eq:
  assumes "map_rep eq hash m xs"
  shows "MapSize m = Ok (length xs)"
  using assms
proof (cases rule: map_rep_cases)
  case (array a ys)
  then show ?thesis using am_repD(4) [of eq a ys] mset_eq_length [of ys xs]
    by (simp add: MapSize_def map_access)
next
  case (hash h)
  then show ?thesis using hm_repD(5) [of eq hash h xs] by (simp add: MapSize_def map_access)
qed

lemma MapGetRaw_eq:
  assumes "map_rep eq hash m xs"
  shows "MapGetRaw m k = Ok (kv_get eq k xs)"
  using assms
proof (cases rule: map_rep_cases)
  case (array a ys)
  then show ?thesis using ArrayMapGet_eq [of eq a ys k] kv_get_perm [OF am_repD(6) [of eq a ys], of xs k]
    by (simp add: MapGetRaw_def map_access)
next
  case (hash h)
  then show ?thesis using HashMapGet_eq [of eq hash h xs k] by (simp add: MapGetRaw_def map_access)
qed

lemma MapHasKey_eq: "map_rep eq hash m xs \<Longrightarrow> MapHasKey m (Ptr k) = Ok (kv_get eq k xs \<noteq> None)"
  by (simp add: MapHasKey_def MapGetRaw_eq)

lemma MapGet_eq: "map_rep eq hash m xs \<Longrightarrow> MapGet m k = Ok (map_option snd (kv_get eq k xs))"
  by (simp add: MapGet_def MapGetRaw_eq)

section \<open>Conversion, insertion and removal\<close>

text \<open>Distinct keys are inserted into the fresh hash map without replacing anything.\<close>

lemma ConvertToHashMap_loop_ok:
  assumes "am_rep eq a xs"
  shows "hm_rep eq hash h (take i xs) \<Longrightarrow> i + n = length xs \<Longrightarrow>
    \<exists>h'. ConvertToHashMap_loop a h i n = Ok (h', [], []) \<and> hm_rep eq hash h' xs \<and> hm_frame h' = hm_frame h"
proof (induction n arbitrary: h i)
  case 0
  then show ?case by simp
next
  case (Suc n)
  obtain k v where kv: "xs ! i = (k, v)" by (cases "xs ! i")
  have i: "i < length xs" using Suc.prems(2) by simp
  then have tk: "take (Suc i) xs = take i xs @ [(k, v)]" using kv by (simp add: take_Suc_conv_app_nth)
  have eqv: "equivp eq" using am_repD(1) [OF assms] .
  have "mset xs = mset (take (Suc i) xs @ drop (Suc i) xs)" by simp
  then have "uniq eq (take (Suc i) xs @ drop (Suc i) xs)" using am_repD(6) [OF assms] by simp
  then have "length (kv_old eq k (take i xs @ [(k, v)])) \<le> 1"
    unfolding uniq_def tk kv_old_append by (metis add_leE length_append)
  moreover have "eq k k" using eqv by (simp add: equivp_reflp)
  ultimately have old: "kv_old eq k (take i xs) = []"
    by (simp add: kv_old_def matches_def)
  then have get: "kv_get eq k (take i xs) = None" by (simp add: kv_get_None_iff)
  from HashMapInsert_rep [OF Suc.prems(1), of k v] old get obtain h1 where
    h1: "HashMapInsert h k v = Ok (False, h1, [], [])" "hm_rep eq hash h1 (take (Suc i) xs)"
      "hm_frame h1 = hm_frame h"
    unfolding tk by (auto simp: kv_put_def kv_del_absent)
  from Suc.IH [OF h1(2)] Suc.prems(2) h1(3) obtain h' where
    "ConvertToHashMap_loop a h1 (Suc i) n = Ok (h', [], [])" "hm_rep eq hash h' xs" "hm_frame h' = hm_frame h"
    by auto
  then show ?case using h1(1) kv i am_repD(3) [OF assms] by simp
qed

lemma ConvertToHashMap_ok:
  assumes "am_rep eq a xs" "key_ok eq hash"
  shows "\<exists>h. ConvertToHashMap \<lparr>map_hash_fn = Ptr hash, map_impl = Arraymap a\<rparr>
      = Ok (\<lparr>map_hash_fn = NULL, map_impl = Hashmap h\<rparr>, [], [])
    \<and> hm_rep eq hash h xs \<and> hm_frame h = am_frame a"
proof -
  let ?h = "HashMapNew hash eq (am_destroy_key_fn a) (am_destroy_value_fn a) DEFAULT_HASHMAP_INIT_SIZE
    :: ('a, 'b) HashMap"
  have "hm_rep eq hash ?h (take 0 xs)" using HashMapNew_rep(1) [OF assms(2)] by simp
  from ConvertToHashMap_loop_ok [OF assms(1) this, of "length xs"] obtain h where
    "ConvertToHashMap_loop a ?h 0 (length xs) = Ok (h, [], [])" "hm_rep eq hash h xs" "hm_frame h = hm_frame ?h"
    by auto
  then show ?thesis using am_repD(2,4) [OF assms(1)] HashMapNew_rep(2) [OF assms(2)]
    by (simp add: ConvertToHashMap_def arraymap_of_def am_frame_def)
qed

lemma MapInsert_hash:
  assumes "hm_rep eq hash h xs" "hm_destroy_key_fn h \<noteq> NULL" "hm_destroy_value_fn h \<noteq> NULL"
  shows "\<exists>h'. HashMapInsert h k v = Ok (kv_get eq k xs \<noteq> None, h', gone_of (hm_frame h) (kv_old eq k xs))
    \<and> map_rep eq hash \<lparr>map_hash_fn = NULL, map_impl = Hashmap h'\<rparr> (kv_put eq k v xs)
    \<and> hm_frame h' = hm_frame h"
  using HashMapInsert_rep [OF assms(1), of k v] hm_repD(1) [OF assms(1)] assms(2,3)
  by (auto simp: map_rep_def hm_frame_def)

lemma MapInsert_rep:
  assumes "map_rep eq hash m xs"
  shows "\<exists>m'. MapInsert m (Ptr k) (Ptr v)
      = Ok (kv_get eq k xs \<noteq> None, m', gone_of (map_frame m) (kv_old eq k xs))
    \<and> map_rep eq hash m' (kv_put eq k v xs) \<and> map_frame m' = map_frame m"
  using assms
proof (cases rule: map_rep_cases)
  case (hash h)
  from MapInsert_hash [OF hash(2-4), of k v] obtain h' where
    "HashMapInsert h k v = Ok (kv_get eq k xs \<noteq> None, h', gone_of (hm_frame h) (kv_old eq k xs))"
    "map_rep eq hash \<lparr>map_hash_fn = NULL, map_impl = Hashmap h'\<rparr> (kv_put eq k v xs)"
    "hm_frame h' = hm_frame h" by blast
  then show ?thesis by (auto simp: hash(1) MapInsert_def map_access map_frame_def gone_of_def)
next
  case (array a ys)
  note uq = am_repD(6) [OF array(2)]
  have same: "kv_get eq k ys = kv_get eq k xs" "kv_old eq k ys = kv_old eq k xs"
    using kv_get_perm [OF uq array(3)] kv_old_perm [OF uq array(3)] by auto
  show ?thesis
  proof (cases "length ys = TINY_LIMIT")
    case False
    then have "length ys < TINY_LIMIT" using am_repD(7) [OF array(2)] by simp
    from ArrayMapInsert_rep [OF array(2) this, of k v] obtain a' zs where
      a': "ArrayMapInsert a k v = Ok (if kv_get eq k xs \<noteq> None then 1 else 2, a',
          gone_of (am_frame a) (kv_old eq k xs))"
        "am_rep eq a' zs" "mset zs = mset (kv_put eq k v ys)" "am_frame a' = am_frame a"
      unfolding same by blast
    have "map_rep eq hash \<lparr>map_hash_fn = Ptr hash, map_impl = Arraymap a'\<rparr> (kv_put eq k v xs)"
      using a'(2,3) kv_put_mset [OF array(3), of eq k v] array(4) by (auto simp: map_rep_def)
    then show ?thesis using a'(1,4)
      by (auto simp: array(1) MapInsert_def map_access map_frame_def)
  next
    case True
    have full: "ArrayMapInsert a k v = Ok (0, a, [], [])"
      using ArrayMapInsert_full [OF array(2) True] .
    from ConvertToHashMap_ok [OF array(2,4)] obtain h where
      h: "ConvertToHashMap \<lparr>map_hash_fn = Ptr hash, map_impl = Arraymap a\<rparr>
          = Ok (\<lparr>map_hash_fn = NULL, map_impl = Hashmap h\<rparr>, [], [])"
        "hm_rep eq hash h ys" "hm_frame h = am_frame a" by blast
    have "hm_destroy_key_fn h \<noteq> NULL" "hm_destroy_value_fn h \<noteq> NULL"
      using h(3) am_repD(8) [OF array(2)] by (auto simp: hm_frame_def am_frame_def)
    from MapInsert_hash [OF hm_rep_perm [OF array(3) h(2)] this, of k v] obtain h' where
      "HashMapInsert h k v = Ok (kv_get eq k xs \<noteq> None, h', gone_of (hm_frame h) (kv_old eq k xs))"
      "map_rep eq hash \<lparr>map_hash_fn = NULL, map_impl = Hashmap h'\<rparr> (kv_put eq k v xs)"
      "hm_frame h' = hm_frame h" by blast
    then show ?thesis using full h(1,3)
      by (auto simp: array(1) MapInsert_def map_access map_frame_def gone_of_def)
  qed
qed

lemma MapRemove_rep:
  assumes "map_rep eq hash m xs"
  shows "\<exists>m'. MapRemove m k
      = Ok (kv_get eq k xs \<noteq> None, m', gone_of (map_frame m) (kv_old eq k xs))
    \<and> map_rep eq hash m' (kv_del eq k xs) \<and> map_frame m' = map_frame m"
  using assms
proof (cases rule: map_rep_cases)
  case (hash h)
  from HashMapRemove_rep [OF hash(2), of k] obtain h' where
    h': "HashMapRemove h k = Ok (kv_get eq k xs \<noteq> None, h', gone_of (hm_frame h) (kv_old eq k xs))"
      "hm_rep eq hash h' (kv_del eq k xs)" "hm_frame h' = hm_frame h" by blast
  then have "map_rep eq hash \<lparr>map_hash_fn = NULL, map_impl = Hashmap h'\<rparr> (kv_del eq k xs)"
    using hash by (auto simp: map_rep_def hm_frame_def)
  then show ?thesis using h'(1,3) by (auto simp: hash(1) MapRemove_def map_access map_frame_def)
next
  case (array a ys)
  note uq = am_repD(6) [OF array(2)]
  have same: "kv_get eq k ys = kv_get eq k xs" "kv_old eq k ys = kv_old eq k xs"
    using kv_get_perm [OF uq array(3)] kv_old_perm [OF uq array(3)] by auto
  from ArrayMapRemove_rep [OF array(2), of k] obtain a' where
    a': "ArrayMapRemove a k = Ok (kv_get eq k xs \<noteq> None, a', gone_of (am_frame a) (kv_old eq k xs))"
      "am_rep eq a' (kv_del eq k ys)" "am_frame a' = am_frame a" unfolding same by blast
  then have "map_rep eq hash \<lparr>map_hash_fn = Ptr hash, map_impl = Arraymap a'\<rparr> (kv_del eq k xs)"
    using array(3,4) kv_del_mset [OF array(3), of eq k] by (auto simp: map_rep_def)
  then show ?thesis using a'(1,3) by (auto simp: array(1) MapRemove_def map_access map_frame_def)
qed

interpretation mp: kv_store "map_rep eq hash" eq map_frame "\<lambda>m k v. MapInsert m (Ptr k) (Ptr v)"
    MapRemove MapGetRaw
  for eq hash
  by unfold_locales (erule map_rep_uniq(2), erule map_rep_uniq(1), erule MapInsert_rep,
      erule MapRemove_rep, erule MapGetRaw_eq)

section \<open>Clearing and destroying\<close>

lemma MapClear_rep:
  assumes "map_rep eq hash m xs"
  shows "\<exists>m' ys. MapClear m = Ok (m', gone_of (map_frame m) ys) \<and> mset ys = mset xs
    \<and> map_rep eq hash m' [] \<and> map_frame m' = map_frame m"
  using assms
proof (cases rule: map_rep_cases)
  case (array a ys)
  from ArrayMapClear_rep [OF array(2)] obtain a' where
    "ArrayMapClear a = Ok (a', gone_of (am_frame a) ys)" "am_rep eq a' []" "am_frame a' = am_frame a" by blast
  then show ?thesis using array(3,4)
    by (auto simp: array(1) MapClear_def map_access map_frame_def map_rep_def)
next
  case (hash h)
  from HashMapClear_rep [OF hash(2)] obtain h' ys where
    "HashMapClear h = Ok (h', gone_of (hm_frame h) ys)" "mset ys = mset xs" "hm_rep eq hash h' []"
    "hm_frame h' = hm_frame h" by blast
  then show ?thesis using hash(3-5)
    by (auto simp: hash(1) MapClear_def map_access map_frame_def map_rep_def hm_frame_def)
qed

lemma MapDestroy_rep:
  assumes "map_rep eq hash m xs"
  shows "\<exists>ys. MapDestroy (Ptr m) = Ok (gone_of (map_frame m) ys) \<and> mset ys = mset xs"
proof -
  from MapClear_rep [OF assms] obtain m' ys where
    m': "MapClear m = Ok (m', gone_of (map_frame m) ys)" "mset ys = mset xs" by blast
  have "MapDestroy (Ptr m) = bindE (MapClear m) (\<lambda>(_, gone). Ok gone)"
    by (auto simp: MapDestroy_def MapClear_def ArrayMapDestroy_def HashMapDestroy_def bindE_assoc case_prod_unfold)
  then show ?thesis using m' by auto
qed

text \<open>MapSoftDestroy releases the keys only.\<close>

lemma MapSoftDestroy_rep:
  assumes "map_rep eq hash m xs" "fst (map_frame m) = Ptr d"
  shows "\<exists>ys. MapSoftDestroy (Ptr m) = Ok (released d (map fst ys), []) \<and> mset ys = mset xs"
  using assms(1)
proof (cases rule: map_rep_cases)
  case (array a ys)
  have "am_destroy_key_fn a = Ptr d" using assms(2) by (simp add: array(1) map_frame_def am_frame_def)
  then have "ArrayMapSoftDestroy_loop a 0 (length ys) = Ok (released d (map fst ys))"
    using ArrayMapSoftDestroy_loop_eq [OF array(2), of 0 "length ys"] by (simp add: gone_of_def am_frame_def)
  then show ?thesis using array(3) am_repD(4) [OF array(2)]
    by (auto simp: array(1) MapSoftDestroy_def ArrayMapSoftDestroy_def map_access)
next
  case (hash h)
  have d: "hm_destroy_key_fn h = Ptr d" using assms(2) by (simp add: hash(1) map_frame_def hm_frame_def)
  obtain bs where bs: "hm_buckets h = map Val bs" "mset (concat bs) = mset xs" "length bs = hm_size h"
    using hm_repE [OF hash(2)] by metis
  have "length (concat bs) = hm_load h" using hm_repD(5) [OF hash(2)] mset_eq_length [OF bs(2)] by simp
  then have "HashMapSoftDestroy_loop h 0 (hm_size h) = Ok (released d (map fst (concat (map rev bs))))"
    using HashMapSoftDestroy_loop_eq [OF bs(1) _ _ d, of 0 "hm_size h"] bs(3) by simp
  then show ?thesis using mset_concat_rev [of bs] bs(2)
    by (auto simp: hash(1) MapSoftDestroy_def HashMapSoftDestroy_def map_access)
qed

section \<open>Iteration\<close>

definition mit_ok :: "('k, 'v) MapIterator \<Rightarrow> ('k \<times> 'v) list \<Rightarrow> bool" where
  "mit_ok it rest = (case it of
     ArraymapIter i \<Rightarrow> \<exists>eq ys. am_rep eq (ami_map i) ys \<and> rest = drop (ami_pos i) ys
   | HashmapIter i \<Rightarrow> \<exists>bs. hmi_ok bs i rest)"

lemma MapIteratorInit_ok:
  assumes "map_rep eq hash m xs"
  shows "\<exists>it ys. MapIteratorInit m = Ok it \<and> mit_ok it ys \<and> mset ys = mset xs"
  using assms
proof (cases rule: map_rep_cases)
  case (array a ys)
  then show ?thesis
    by (intro exI [of _ "ArraymapIter (ArrayMapIteratorInit a)"] exI [of _ ys])
      (auto simp: MapIteratorInit_def map_access mit_ok_def ArrayMapIteratorInit_def)
next
  case (hash h)
  from HashMapIteratorInit_ok [OF hash(2)] obtain i bs where
    "HashMapIteratorInit h = Ok i" "hmi_ok bs i (concat bs)" "mset (concat bs) = mset xs" by blast
  then show ?thesis
    by (intro exI [of _ "HashmapIter i"] exI [of _ "concat bs"])
      (auto simp: hash(1) MapIteratorInit_def map_access mit_ok_def)
qed

lemma MapIteratorNext_ok:
  assumes "mit_ok it rest"
  shows "\<exists>it'. MapIteratorNext it = Ok (case rest of [] \<Rightarrow> NULL | kv # _ \<Rightarrow> Ptr kv, it') \<and> mit_ok it' (tl rest)"
proof (cases it)
  case (HashmapIter i)
  with assms obtain bs where "hmi_ok bs i rest" by (auto simp: mit_ok_def)
  from HashMapIteratorNext_ok [OF this] HashmapIter show ?thesis by (auto simp: mit_ok_def)
next
  case (ArraymapIter i)
  obtain a p where i: "i = \<lparr>ami_map = a, ami_pos = p\<rparr>" by (cases i)
  with assms ArraymapIter obtain eq ys where ys: "am_rep eq a ys" "rest = drop p ys"
    by (auto simp: mit_ok_def)
  show ?thesis
  proof (cases "p < length ys")
    case True
    then have "rest = ys ! p # drop (Suc p) ys" using ys(2) by (simp add: Cons_nth_drop_Suc)
    then show ?thesis using ArrayMapIteratorNext_eq [OF ys(1), of p] True ys(1) ArraymapIter i
      by (intro exI [of _ "ArraymapIter \<lparr>ami_map = a, ami_pos = p + 1\<rparr>"]) (auto simp: mit_ok_def)
  next
    case False
    then show ?thesis using ArrayMapIteratorNext_eq [OF ys(1), of p] ys ArraymapIter i
      by (intro exI [of _ it]) (auto simp: mit_ok_def not_less)
  qed
qed

lemma MapIteratorNext_all:
  "mit_ok it rest \<Longrightarrow> \<exists>it'. take_n MapIteratorNext it (Suc (length rest)) = Ok (map Ptr rest @ [NULL], it')"
proof (induction rest arbitrary: it)
  case Nil
  from MapIteratorNext_ok [OF Nil] show ?case by auto
next
  case (Cons kv rest)
  from MapIteratorNext_ok [OF Cons.prems] obtain it1 where
    it1: "MapIteratorNext it = Ok (Ptr kv, it1)" "mit_ok it1 rest" by auto
  from Cons.IH [OF it1(2)] it1(1) show ?case by auto
qed

section \<open>MapContainsSameKeys\<close>

lemma MapContainsSameKeys_loop_eq:
  assumes "map_rep eq hash m2 zs"
  shows "mit_ok it rest \<Longrightarrow> length rest < n \<Longrightarrow> MapContainsSameKeys_loop it m2 cnt n
    = Ok ((\<forall>kv \<in> set rest. kv_get eq (fst kv) zs \<noteq> None) \<and> cnt + length rest = length zs)"
proof (induction n arbitrary: it rest cnt)
  case (Suc n)
  from MapIteratorNext_ok [OF Suc.prems(1)] obtain it1 where
    it1: "MapIteratorNext it = Ok (case rest of [] \<Rightarrow> NULL | kv # _ \<Rightarrow> Ptr kv, it1)" "mit_ok it1 (tl rest)"
    by blast
  show ?case
  proof (cases rest)
    case Nil
    then show ?thesis using it1(1) MapSize_eq [OF assms] by simp
  next
    case (Cons kv rs)
    then have "MapContainsSameKeys_loop it1 m2 (cnt + 1) n
        = Ok ((\<forall>kv \<in> set rs. kv_get eq (fst kv) zs \<noteq> None) \<and> cnt + 1 + length rs = length zs)"
      using it1(2) Suc.prems(2) by (intro Suc.IH) auto
    then show ?thesis using it1(1) Cons MapHasKey_eq [OF assms, of "fst kv"] by auto
  qed
qed simp

text \<open>The key classes of an entry list; one entry per class.\<close>

definition key_classes :: "('k \<Rightarrow> 'k \<Rightarrow> bool) \<Rightarrow> ('k \<times> 'v) list \<Rightarrow> ('k \<Rightarrow> bool) set" where
  "key_classes eq xs = (\<lambda>kv. eq (fst kv)) ` set xs"

lemma kv_get_key_classes:
  "equivp eq \<Longrightarrow> kv_get eq k xs \<noteq> None \<longleftrightarrow> eq k \<in> key_classes eq xs"
  unfolding kv_get_None_iff kv_old_def key_classes_def matches_def filter_empty_conv image_iff
  by (metis equivp_def)

lemma uniq_distinct_classes:
  assumes "equivp eq" "uniq eq xs"
  shows "distinct (map (\<lambda>kv. eq (fst kv)) xs)"
  using assms(2)
proof (induction xs)
  case (Cons x xs)
  have len: "length (kv_old eq k (x # xs)) \<le> 1" for k using Cons.prems by (simp add: uniq_def)
  have "kv_old eq (fst x) xs = []"
    using len [of "fst x"] equivp_reflp [OF assms(1), of "fst x"] by (simp add: kv_old_def matches_def)
  then have "eq (fst x) \<notin> (\<lambda>kv. eq (fst kv)) ` set xs"
    using kv_get_key_classes [OF assms(1), of "fst x" xs] by (simp add: kv_get_None_iff key_classes_def)
  moreover have "length (kv_old eq k xs) \<le> 1" for k
    using len [of k] by (simp add: kv_old_def split: if_splits)
  then have "uniq eq xs" by (simp add: uniq_def)
  ultimately show ?case using Cons.IH by simp
qed simp

lemma card_key_classes: "equivp eq \<Longrightarrow> uniq eq xs \<Longrightarrow> card (key_classes eq xs) = length xs"
  using distinct_card [OF uniq_distinct_classes, of eq xs] by (simp add: key_classes_def)

lemma same_keys_iff:
  assumes "equivp eq" "uniq eq xs" "uniq eq zs"
  shows "(\<forall>kv \<in> set xs. kv_get eq (fst kv) zs \<noteq> None) \<and> length xs = length zs
    \<longleftrightarrow> (\<forall>k. kv_get eq k xs = None \<longleftrightarrow> kv_get eq k zs = None)" (is "?L \<longleftrightarrow> ?R")
proof -
  have sub: "(\<forall>kv \<in> set xs. kv_get eq (fst kv) zs \<noteq> None) \<longleftrightarrow> key_classes eq xs \<subseteq> key_classes eq zs"
    unfolding kv_get_key_classes [OF assms(1)] by (auto simp: key_classes_def)
  have fin: "finite (key_classes eq zs)" by (simp add: key_classes_def)
  have "?L \<longleftrightarrow> key_classes eq xs = key_classes eq zs"
    using sub card_key_classes assms card_subset_eq [OF fin] by (metis subset_refl)
  also have "\<dots> \<longleftrightarrow> (\<forall>k. eq k \<in> key_classes eq xs \<longleftrightarrow> eq k \<in> key_classes eq zs)"
    by (auto simp: key_classes_def)
  also have "\<dots> \<longleftrightarrow> ?R" unfolding kv_get_key_classes [OF assms(1), symmetric] by (simp only: simp_thms)
  finally show ?thesis .
qed

lemma MapContainsSameKeys_eq:
  assumes "map_rep eq hash m1 xs" "map_rep eq hash m2 zs"
  shows "MapContainsSameKeys m1 m2 = Ok (\<forall>k. kv_get eq k xs = None \<longleftrightarrow> kv_get eq k zs = None)"
proof -
  from MapIteratorInit_ok [OF assms(1)] obtain it ys where
    it: "MapIteratorInit m1 = Ok it" "mit_ok it ys" "mset ys = mset xs" by blast
  have len: "length ys = length xs" "set ys = set xs"
    using mset_eq_length [OF it(3)] mset_eq_setD [OF it(3)] by auto
  have "MapContainsSameKeys m1 m2
      = Ok ((\<forall>kv \<in> set xs. kv_get eq (fst kv) zs \<noteq> None) \<and> length xs = length zs)"
    using MapContainsSameKeys_loop_eq [OF assms(2) it(2), of "Suc (length xs)" 0] it(1) len
      MapSize_eq [OF assms(1)] by (simp add: MapContainsSameKeys_def)
  then show ?thesis
    using same_keys_iff [OF map_rep_uniq(2,1) [OF assms(1)] map_rep_uniq(1) [OF assms(2)]] by simp
qed

section \<open>Properties\<close>

text \<open>The callbacks of the string maps satisfy the contract.\<close>

lemma string_key_ok: "key_ok StringEqual_untyped StringHash_untyped"
  by (simp add: key_ok_def StringEqual_untyped_eq identity_equivp)

abbreviation map_put :: "('k, 'v) Map \<Rightarrow> 'k \<Rightarrow> 'v \<Rightarrow> (bool \<times> ('k, 'v) Map \<times> ('k, 'v) gone) res" where
  "map_put m k v \<equiv> MapInsert m (Ptr k) (Ptr v)"

lemma map_run_new:
  assumes "key_ok eq hash"
  shows "\<exists>m ks vs xs. kv_run map_put MapRemove (MapNew address (Ptr hash) (Ptr eq) (Ptr dk) (Ptr dv)) ops = Ok (m, ks, vs)
    \<and> map_rep eq hash m xs \<and> (\<forall>k. kv_get eq k xs = latest eq k ops) \<and> map_frame m = (Ptr dk, Ptr dv)
    \<and> (dk = DestroyFn \<and> dv = DestroyFn \<longrightarrow> mset ks + mset (map fst xs) = mset (map fst (op_puts ops))
        \<and> mset vs + mset (map snd xs) = mset (map snd (op_puts ops)))"
proof -
  let ?m0 = "MapNew address (Ptr hash) (Ptr eq) (Ptr dk) (Ptr dv) :: ('a, 'b) Map"
  have new: "map_rep eq hash ?m0 []" "map_frame ?m0 = (Ptr dk, Ptr dv)"
    using MapNew_rep(1,2) [OF assms] by blast+
  from mp.run_rep [OF new(1), of ops] new(2) obtain m ks vs where
    m: "kv_run map_put MapRemove (MapNew address (Ptr hash) (Ptr eq) (Ptr dk) (Ptr dv)) ops = Ok (m, ks, vs)"
      "map_rep eq hash m (fold (kv_step eq) ops [])" "map_frame m = (Ptr dk, Ptr dv)"
      "dk = DestroyFn \<and> dv = DestroyFn \<longrightarrow>
        mset ks + mset (map fst (fold (kv_step eq) ops [])) = mset (map fst (op_puts ops))
        \<and> mset vs + mset (map snd (fold (kv_step eq) ops [])) = mset (map snd (op_puts ops))"
    by auto
  have "kv_get eq k (fold (kv_step eq) ops []) = latest eq k ops" for k
    using mp.run_latest [OF key_okD(1) [OF assms], of k "[]" ops] by (simp add: kv_get_def)
  with m show ?thesis by blast
qed

lemma key_classes_get:
  assumes "equivp eq"
  shows "key_classes eq xs = {eq k |k. kv_get eq k xs \<noteq> None}"
  unfolding kv_get_key_classes [OF assms] by (auto simp: key_classes_def)

text \<open>
  C1: A map is a map. After any sequence of insertions and removals on a new map, with callbacks
  that satisfy their contract, nothing has faulted, MapGet and MapHasKey answer for every key what
  the last operation on that key says, and MapSize is the number of distinct keys present. This
  covers the conversion from array to hash table and every growth and shrinkage of the table.
\<close>

theorem Map_get_latest:
  assumes "key_ok eq hash"
  shows "\<exists>m ks vs. kv_run map_put MapRemove (MapNew address (Ptr hash) (Ptr eq) (Ptr dk) (Ptr dv)) ops = Ok (m, ks, vs)
    \<and> (\<forall>k. MapGet m k = Ok (map_option snd (latest eq k ops)))
    \<and> (\<forall>k. MapHasKey m (Ptr k) = Ok (latest eq k ops \<noteq> None))
    \<and> MapSize m = Ok (card {eq k |k. latest eq k ops \<noteq> None})"
proof -
  from map_run_new [OF assms, of address dk dv ops] obtain m ks vs xs where
    m: "kv_run map_put MapRemove (MapNew address (Ptr hash) (Ptr eq) (Ptr dk) (Ptr dv)) ops = Ok (m, ks, vs)"
      "map_rep eq hash m xs" "\<And>k. kv_get eq k xs = latest eq k ops" by blast
  note uq = map_rep_uniq [OF m(2)]
  have "card {eq k |k. latest eq k ops \<noteq> None} = length xs"
    using card_key_classes [OF uq(2,1)] key_classes_get [OF uq(2), of xs] m(3) by simp
  then show ?thesis using m(1) MapGet_eq [OF m(2)] MapHasKey_eq [OF m(2)] MapSize_eq [OF m(2)] m(3)
    by simp
qed

theorem Map_get_latest_witness:
  "\<exists>m ks vs. kv_run map_put MapRemove
      (MapNew (\<lambda>_. 0) (Ptr StringHash_untyped) (Ptr StringEqual_untyped) (Ptr DestroyFn) (Ptr DestroyFn))
      [Put ''a'' ''1'', Put ''b'' ''2'', Put ''a'' ''3'', Del ''b''] = Ok (m, ks, vs)
    \<and> MapGet m ''a'' = Ok (Ptr ''3'') \<and> MapHasKey m (Ptr ''b'') = Ok False"
proof -
  from Map_get_latest [OF string_key_ok, of "\<lambda>_. 0" DestroyFn DestroyFn
      "[Put ''a'' ''1'', Put ''b'' ''2'', Put ''a'' ''3'', Del ''b'']"]
  obtain m ks vs where "kv_run map_put MapRemove
      (MapNew (\<lambda>_. 0) (Ptr StringHash_untyped) (Ptr StringEqual_untyped) (Ptr DestroyFn) (Ptr DestroyFn))
      [Put ''a'' ''1'', Put ''b'' ''2'', Put ''a'' ''3'', Del ''b''] = Ok (m, ks, vs)"
    "MapGet m ''a'' = Ok (map_option snd (latest StringEqual_untyped ''a''
      [Put ''a'' ''1'', Put ''b'' ''2'', Put ''a'' ''3'', Del ''b'']))"
    "MapHasKey m (Ptr ''b'') = Ok (latest StringEqual_untyped ''b''
      [Put ''a'' ''1'', Put ''b'' ''2'', Put ''a'' ''3'', Del ''b''] \<noteq> None)" by metis
  then show ?thesis by (simp add: latest_def StringEqual_untyped_eq del: kv_run.simps)
qed

text \<open>
  C10: Ownership in a map. With destructors for keys and values, any sequence of insertions and
  removals followed by MapDestroy releases every key and every value that was inserted exactly once.
\<close>

theorem Map_ownership:
  assumes "key_ok eq hash"
  shows "\<exists>m ks vs ks' vs'.
    kv_run map_put MapRemove (MapNew address (Ptr hash) (Ptr eq) (Ptr DestroyFn) (Ptr DestroyFn)) ops = Ok (m, ks, vs)
    \<and> MapDestroy (Ptr m) = Ok (ks', vs')
    \<and> mset (ks @ ks') = mset (map fst (op_puts ops)) \<and> mset (vs @ vs') = mset (map snd (op_puts ops))"
proof -
  from map_run_new [OF assms, of address DestroyFn DestroyFn ops] obtain m ks vs xs where
    m: "kv_run map_put MapRemove (MapNew address (Ptr hash) (Ptr eq) (Ptr DestroyFn) (Ptr DestroyFn)) ops = Ok (m, ks, vs)"
      "map_rep eq hash m xs" "map_frame m = (Ptr DestroyFn, Ptr DestroyFn)"
      "mset ks + mset (map fst xs) = mset (map fst (op_puts ops))"
      "mset vs + mset (map snd xs) = mset (map snd (op_puts ops))" by blast
  from MapDestroy_rep [OF m(2)] m(3) obtain ys where
    ys: "MapDestroy (Ptr m) = Ok (map fst ys, map snd ys)" "mset ys = mset xs" by (auto simp: gone_of_def)
  then show ?thesis using m(1,4,5) by (intro exI conjI) (auto simp: mset_map)
qed

theorem Map_ownership_witness:
  "\<exists>m ks vs ks' vs'. kv_run map_put MapRemove
      (MapNew (\<lambda>_. 0) (Ptr StringHash_untyped) (Ptr StringEqual_untyped) (Ptr DestroyFn) (Ptr DestroyFn))
      [Put ''a'' True, Put ''a'' False] = Ok (m, ks, vs)
    \<and> MapDestroy (Ptr m) = Ok (ks', vs') \<and> mset (ks @ ks') = {#''a'', ''a''#} \<and> mset (vs @ vs') = {#True, False#}"
  using Map_ownership [OF string_key_ok, of "\<lambda>_. 0" "[Put ''a'' True, Put ''a'' False]"]
  by (simp add: op_puts_def)

text \<open>
  Iterating over a map after any sequence of insertions and removals returns exactly the
  entries present, each once, and then NULL.
\<close>

theorem Map_iterates_all:
  assumes "key_ok eq hash"
  shows "\<exists>m ks vs it it' ys.
    kv_run map_put MapRemove (MapNew address (Ptr hash) (Ptr eq) (Ptr dk) (Ptr dv)) ops = Ok (m, ks, vs)
    \<and> MapIteratorInit m = Ok it \<and> MapSize m = Ok (length ys)
    \<and> take_n MapIteratorNext it (Suc (length ys)) = Ok (map Ptr ys @ [NULL], it')
    \<and> uniq eq ys \<and> (\<forall>k. kv_get eq k ys = latest eq k ops)"
proof -
  from map_run_new [OF assms, of address dk dv ops] obtain m ks vs xs where
    m: "kv_run map_put MapRemove (MapNew address (Ptr hash) (Ptr eq) (Ptr dk) (Ptr dv)) ops = Ok (m, ks, vs)"
      "map_rep eq hash m xs" "\<And>k. kv_get eq k xs = latest eq k ops" by blast
  from MapIteratorInit_ok [OF m(2)] obtain it ys where
    it: "MapIteratorInit m = Ok it" "mit_ok it ys" "mset ys = mset xs" by blast
  from MapIteratorNext_all [OF it(2)] obtain it' where
    it': "take_n MapIteratorNext it (Suc (length ys)) = Ok (map Ptr ys @ [NULL], it')" by blast
  have "uniq eq ys" using map_rep_uniq(1) [OF m(2)] uniq_mset [OF it(3)] by simp
  moreover from this have "kv_get eq k ys = latest eq k ops" for k
    using kv_get_perm [OF _ it(3), of eq k] m(3) by simp
  ultimately show ?thesis using m(1) it(1) it' MapSize_eq [OF m(2)] mset_eq_length [OF it(3)] by metis
qed

theorem Map_iterates_all_witness:
  "\<exists>m ks vs it it' ys. kv_run map_put MapRemove
      (MapNew (\<lambda>_. 0) (Ptr StringHash_untyped) (Ptr StringEqual_untyped) (Ptr NopDestroyFn) (Ptr NopDestroyFn))
      [Put ''a'' True, Del ''a''] = Ok (m, ks, vs)
    \<and> MapIteratorInit m = Ok it \<and> MapSize m = Ok (length ys)
    \<and> take_n MapIteratorNext it (Suc (length ys)) = Ok (map Ptr ys @ [NULL], it')
    \<and> kv_get StringEqual_untyped ''a'' ys = None"
proof -
  from Map_iterates_all [OF string_key_ok, of "\<lambda>_. 0" NopDestroyFn NopDestroyFn "[Put ''a'' True, Del ''a'']"]
  obtain m ks vs it it' ys where
    "kv_run map_put MapRemove
      (MapNew (\<lambda>_. 0) (Ptr StringHash_untyped) (Ptr StringEqual_untyped) (Ptr NopDestroyFn) (Ptr NopDestroyFn))
      [Put ''a'' True, Del ''a''] = Ok (m, ks, vs)"
    "MapIteratorInit m = Ok it" "MapSize m = Ok (length ys)"
    "take_n MapIteratorNext it (Suc (length ys)) = Ok (map Ptr ys @ [NULL], it')"
    "kv_get StringEqual_untyped ''a'' ys = latest StringEqual_untyped ''a'' [Put ''a'' True, Del ''a'']"
    by blast
  moreover have "latest StringEqual_untyped ''a'' [Put ''a'' True, Del ''a''] = None"
    by (simp add: latest_def StringEqual_untyped_eq)
  ultimately show ?thesis by (intro exI conjI) (assumption | simp)+
qed

text \<open>
  MapContainsSameKeys (and so SetIsEqual) returns, without faulting, whether exactly the same
  keys are in both maps, whether each is an array or a hash table.
\<close>

theorem MapContainsSameKeys_iff:
  assumes "map_rep eq hash m1 xs" "map_rep eq hash m2 zs"
  shows "MapContainsSameKeys m1 m2 = Ok (\<forall>k. MapHasKey m1 (Ptr k) = MapHasKey m2 (Ptr k))"
  using MapContainsSameKeys_eq [OF assms] MapHasKey_eq [OF assms(1)] MapHasKey_eq [OF assms(2)]
  by (simp only: sum.inject simp_thms)

theorem MapContainsSameKeys_iff_witness:
  "MapContainsSameKeys
     (MapNew (\<lambda>_. 0) (Ptr StringHash_untyped) (Ptr StringEqual_untyped) (Ptr DestroyFn) (Ptr DestroyFn)
        :: (string, bool) Map)
     (MapNew (\<lambda>_. 0) (Ptr StringHash_untyped) (Ptr StringEqual_untyped) (Ptr DestroyFn) (Ptr DestroyFn)
        :: (string, bool) Map) = Ok True"
  (is "MapContainsSameKeys ?m ?m = _")
proof -
  have "map_rep StringEqual_untyped StringHash_untyped ?m []" using MapNew_rep(1) [OF string_key_ok] .
  from MapContainsSameKeys_iff [OF this this] show ?thesis by simp
qed

end
