(* ===== verification/SetLib.thy ===== *)
theory SetLib
  imports MapLib
begin

text \<open>
  libutils/set.c: a set is a map whose entries have the element as key and as value, and no value
  destructor. The string sets add splitting and joining of delimited text. \<open>StringSetToBuffer\<close> is
  modelled by the contents of the buffer it returns.
\<close>

section \<open>Operations\<close>

type_synonym 'k Set = "('k, 'k) Map"

definition SetNew ::
  "('k \<Rightarrow> 64 word) \<Rightarrow> ('k \<Rightarrow> 32 word) ptr \<Rightarrow> ('k \<Rightarrow> 'k \<Rightarrow> bool) ptr \<Rightarrow> destroyer ptr \<Rightarrow> 'k Set" where
  "SetNew address element_hash_fn element_equal_fn element_destroy_fn =
     MapNew address element_hash_fn element_equal_fn element_destroy_fn NULL"

definition SetDestroy :: "'k Set ptr \<Rightarrow> ('k, 'k) gone res" where
  "SetDestroy s = MapDestroy s"

definition SetAdd :: "'k Set \<Rightarrow> 'k ptr \<Rightarrow> ('k Set \<times> ('k, 'k) gone) res" where
  "SetAdd s element = bindE (MapInsert s element element) (\<lambda>(_, s', gone). Ok (s', gone))"

definition SetContains :: "'k Set \<Rightarrow> 'k ptr \<Rightarrow> bool res" where
  "SetContains s element = MapHasKey s element"

definition SetRemove :: "'k Set \<Rightarrow> 'k \<Rightarrow> (bool \<times> 'k Set \<times> ('k, 'k) gone) res" where
  "SetRemove s element = MapRemove s element"

definition SetClear :: "'k Set \<Rightarrow> ('k Set \<times> ('k, 'k) gone) res" where
  "SetClear s = MapClear s"

definition SetSize :: "'k Set \<Rightarrow> nat res" where
  "SetSize s = MapSize s"

definition SetIsEqual :: "'k Set \<Rightarrow> 'k Set \<Rightarrow> bool res" where
  "SetIsEqual set1 set2 = MapContainsSameKeys set1 set2"

type_synonym 'k SetIterator = "('k, 'k) MapIterator"

definition SetIteratorInit :: "'k Set \<Rightarrow> 'k SetIterator res" where
  "SetIteratorInit s = MapIteratorInit s"

definition SetIteratorNext :: "'k SetIterator \<Rightarrow> ('k ptr \<times> 'k SetIterator) res" where
  "SetIteratorNext i = bindE (MapIteratorNext i) (\<lambda>(kv, i'). Ok (map_option fst kv, i'))"

text \<open>
  SetJoin: \<open>same\<close> tells whether both arguments are the same pointer. The loop ends when the iterator
  is exhausted; the bound is one more than the size of the other set.
\<close>

fun SetJoin_loop ::
  "'k Set \<Rightarrow> 'k SetIterator \<Rightarrow> ('k \<Rightarrow> 'k ptr) ptr \<Rightarrow> nat \<Rightarrow> ('k Set \<times> ('k, 'k) gone) res" where
  "SetJoin_loop s si copy_function 0 = Fault OutOfFuel"
| "SetJoin_loop s si copy_function (Suc n) =
     bindE (SetIteratorNext si) (\<lambda>(p, si').
     case p of
       NULL \<Rightarrow> Ok (s, [], [])
     | Ptr x \<Rightarrow>
         bindE (SetAdd s (case copy_function of NULL \<Rightarrow> Ptr x | Ptr copy \<Rightarrow> copy x)) (\<lambda>(s1, ks, vs).
         bindE (SetJoin_loop s1 si' copy_function n) (\<lambda>(s2, ks', vs').
         Ok (s2, ks @ ks', vs @ vs'))))"

definition SetJoin ::
  "bool \<Rightarrow> 'k Set \<Rightarrow> 'k Set \<Rightarrow> ('k \<Rightarrow> 'k ptr) ptr \<Rightarrow> ('k Set \<times> ('k, 'k) gone) res" where
  "SetJoin same s otherset copy_function =
     (if same then Ok (s, [], [])
      else bindE (SetIteratorInit otherset) (\<lambda>si.
           bindE (SetSize otherset) (\<lambda>n. SetJoin_loop s si copy_function (Suc n))))"

section \<open>String sets\<close>

text \<open>The instance that TYPED\_SET\_DEFINE makes for \<open>char *\<close>.\<close>

type_synonym StringSet = "string Set"

definition StringSetNew :: StringSet where
  "StringSetNew = SetNew (\<lambda>_. 0) (Ptr StringHash_untyped) (Ptr StringEqual_untyped) (Ptr DestroyFn)"

text \<open>
  StringSetAddSplit: \<open>piece\<close> is the text between \<open>prev\<close> and \<open>cur\<close>. A piece that ends at a delimiter
  is added even when it is empty; the last piece only when it is not.
\<close>

fun StringSetAddSplit_loop :: "StringSet \<Rightarrow> char \<Rightarrow> string \<Rightarrow> string \<Rightarrow> (StringSet \<times> (string, string) gone) res" where
  "StringSetAddSplit_loop s delimiter piece [] =
     (if piece \<noteq> [] then SetAdd s (Ptr piece) else Ok (s, [], []))"
| "StringSetAddSplit_loop s delimiter piece (c # str) =
     (if c = delimiter
      then bindE (SetAdd s (Ptr piece)) (\<lambda>(s1, ks, vs).
           bindE (StringSetAddSplit_loop s1 delimiter [] str) (\<lambda>(s2, ks', vs').
           Ok (s2, ks @ ks', vs @ vs')))
      else StringSetAddSplit_loop s delimiter (piece @ [c]) str)"

definition StringSetAddSplit :: "StringSet \<Rightarrow> string ptr \<Rightarrow> char \<Rightarrow> (StringSet \<times> (string, string) gone) res" where
  "StringSetAddSplit s str delimiter = (case str of
     NULL \<Rightarrow> Ok (s, [], [])
   | Ptr t \<Rightarrow> StringSetAddSplit_loop s delimiter [] t)"

definition StringSetFromString :: "string ptr \<Rightarrow> char \<Rightarrow> StringSet res" where
  "StringSetFromString str delimiter =
     bindE (StringSetAddSplit StringSetNew str delimiter) (\<lambda>(s, _). Ok s)"

fun StringSetToBuffer_loop :: "string SetIterator \<Rightarrow> char \<Rightarrow> nat \<Rightarrow> nat \<Rightarrow> nat \<Rightarrow> string res" where
  "StringSetToBuffer_loop it delimiter pos sz 0 = Fault OutOfFuel"
| "StringSetToBuffer_loop it delimiter pos sz (Suc n) =
     bindE (SetIteratorNext it) (\<lambda>(element, it').
     case element of
       NULL \<Rightarrow> Ok []
     | Ptr e \<Rightarrow>
         bindE (StringSetToBuffer_loop it' delimiter (pos + 1) sz n) (\<lambda>rest.
         Ok (e @ (if int pos < int sz - 1 then [delimiter] else []) @ rest)))"

definition StringSetToBuffer :: "StringSet \<Rightarrow> char \<Rightarrow> string res" where
  "StringSetToBuffer s delimiter =
     bindE (SetIteratorInit s) (\<lambda>it.
     bindE (SetSize s) (\<lambda>sz. StringSetToBuffer_loop it delimiter 0 sz (Suc sz)))"

section \<open>Representation\<close>

definition diag :: "'k list \<Rightarrow> ('k \<times> 'k) list" where
  "diag xs = map (\<lambda>x. (x, x)) xs"

definition set_rep :: "('k \<Rightarrow> 'k \<Rightarrow> bool) \<Rightarrow> ('k \<Rightarrow> 32 word) \<Rightarrow> 'k Set \<Rightarrow> 'k list \<Rightarrow> bool" where
  "set_rep eq hash s xs \<longleftrightarrow> map_rep eq hash s (diag xs)"

definition set_add :: "('k \<Rightarrow> 'k \<Rightarrow> bool) \<Rightarrow> 'k \<Rightarrow> 'k list \<Rightarrow> 'k list" where
  "set_add eq x xs = filter (\<lambda>y. \<not> eq y x) xs @ [x]"

definition set_mem :: "('k \<Rightarrow> 'k \<Rightarrow> bool) \<Rightarrow> 'k \<Rightarrow> 'k list \<Rightarrow> bool" where
  "set_mem eq x xs \<longleftrightarrow> (\<exists>y \<in> set xs. eq y x)"

lemma map_fst_diag [simp]: "map fst (diag xs) = xs"
  by (simp add: diag_def comp_def)

lemma kv_put_diag: "kv_put eq x x (diag xs) = diag (set_add eq x xs)"
  by (simp add: kv_put_def kv_del_def diag_def set_add_def matches_def filter_map comp_def)

lemma kv_get_diag: "kv_get eq x (diag xs) \<noteq> None \<longleftrightarrow> set_mem eq x xs"
  unfolding kv_get_None_iff kv_old_def
  by (auto simp: diag_def set_mem_def matches_def filter_empty_conv)

lemma set_mem_add:
  assumes "equivp eq"
  shows "set_mem eq k (set_add eq x xs) \<longleftrightarrow> eq x k \<or> set_mem eq k xs"
proof -
  have "set_mem eq k (set_add eq x xs) \<longleftrightarrow> kv_get eq k (kv_put eq x x (diag xs)) \<noteq> None"
    unfolding kv_put_diag by (rule kv_get_diag [symmetric])
  also have "\<dots> \<longleftrightarrow> eq x k \<or> set_mem eq k xs"
    using kv_get_put [OF assms, of k x x "diag xs"] kv_get_diag [of eq k xs] by (auto split: if_splits)
  finally show ?thesis .
qed

lemma SetNew_rep:
  "key_ok eq hash \<Longrightarrow> set_rep eq hash (SetNew address (Ptr hash) (Ptr eq) (Ptr d)) []"
  using MapNew_rep(3) [of eq hash address d] by (simp add: SetNew_def set_rep_def diag_def)

lemma StringSetNew_rep: "set_rep StringEqual_untyped StringHash_untyped StringSetNew []"
  unfolding StringSetNew_def by (rule SetNew_rep [OF string_key_ok])

lemma SetAdd_rep:
  assumes "set_rep eq hash s xs"
  shows "\<exists>s' gone. SetAdd s (Ptr x) = Ok (s', gone) \<and> set_rep eq hash s' (set_add eq x xs)"
  using MapInsert_rep [OF assms [unfolded set_rep_def], of x x]
  by (auto simp: SetAdd_def set_rep_def kv_put_diag)

lemma SetContains_eq: "set_rep eq hash s xs \<Longrightarrow> SetContains s (Ptr x) = Ok (set_mem eq x xs)"
  using MapHasKey_eq [of eq hash s "diag xs" x] kv_get_diag [of eq x xs]
  by (simp only: set_rep_def SetContains_def)

lemma SetSize_eq: "set_rep eq hash s xs \<Longrightarrow> SetSize s = Ok (length xs)"
  using MapSize_eq [of eq hash s "diag xs"] by (simp add: set_rep_def SetSize_def diag_def)

lemma SetRemove_rep:
  assumes "set_rep eq hash s xs"
  shows "\<exists>s' gone. SetRemove s x = Ok (set_mem eq x xs, s', gone)
    \<and> set_rep eq hash s' (filter (\<lambda>y. \<not> eq y x) xs)"
proof -
  have "kv_del eq x (diag xs) = diag (filter (\<lambda>y. \<not> eq y x) xs)"
    by (simp add: kv_del_def diag_def matches_def filter_map comp_def)
  moreover from MapRemove_rep [OF assms [unfolded set_rep_def], of x] obtain s' where
    "MapRemove s x = Ok (kv_get eq x (diag xs) \<noteq> None, s', gone_of (map_frame s) (kv_old eq x (diag xs)))"
    "map_rep eq hash s' (kv_del eq x (diag xs))" by blast
  ultimately show ?thesis unfolding SetRemove_def set_rep_def kv_get_diag by (intro exI) auto
qed

section \<open>Iteration and joining\<close>

definition sit_ok :: "'k SetIterator \<Rightarrow> 'k list \<Rightarrow> bool" where
  "sit_ok it rest \<longleftrightarrow> mit_ok it (diag rest)"

lemma SetIteratorInit_ok:
  assumes "set_rep eq hash s xs"
  shows "\<exists>it ys. SetIteratorInit s = Ok it \<and> sit_ok it ys \<and> mset ys = mset xs"
proof -
  from MapIteratorInit_ok [OF assms [unfolded set_rep_def]] obtain it kvs where
    it: "MapIteratorInit s = Ok it" "mit_ok it kvs" "mset kvs = mset (diag xs)" by blast
  have "fst kv = snd kv" if "kv \<in> set kvs" for kv
    using that mset_eq_setD [OF it(3)] by (auto simp: diag_def)
  then have "kvs = diag (map fst kvs)" by (auto simp: diag_def intro!: nth_equalityI) (metis nth_mem prod.collapse)
  moreover have "mset (map fst kvs) = mset xs" using arg_cong [OF it(3), of "image_mset fst"]
    by (metis map_fst_diag mset_map)
  ultimately show ?thesis using it(1,2) unfolding SetIteratorInit_def sit_ok_def by metis
qed

lemma SetIteratorNext_ok:
  assumes "sit_ok it rest"
  shows "\<exists>it'. SetIteratorNext it = Ok (case rest of [] \<Rightarrow> NULL | x # _ \<Rightarrow> Ptr x, it') \<and> sit_ok it' (tl rest)"
proof -
  from MapIteratorNext_ok [OF assms [unfolded sit_ok_def]] obtain it' where
    "MapIteratorNext it = Ok (case diag rest of [] \<Rightarrow> NULL | kv # _ \<Rightarrow> Ptr kv, it')" "mit_ok it' (tl (diag rest))"
    by blast
  then show ?thesis by (cases rest) (auto simp: SetIteratorNext_def sit_ok_def diag_def)
qed

text \<open>Joining adds the elements of the other set, or their copies, one by one.\<close>

lemma SetJoin_loop_ok:
  assumes "equivp eq" "\<And>x. x \<in> set rest \<Longrightarrow> \<exists>y. (case copy of NULL \<Rightarrow> Ptr x | Ptr f \<Rightarrow> f x) = Ptr y \<and> eq x y"
  shows "set_rep eq hash s xs \<Longrightarrow> sit_ok it rest \<Longrightarrow> length rest < n \<Longrightarrow>
    \<exists>s' gone ys. SetJoin_loop s it copy n = Ok (s', gone) \<and> set_rep eq hash s' ys
      \<and> (\<forall>k. set_mem eq k ys \<longleftrightarrow> set_mem eq k xs \<or> set_mem eq k rest)"
  using assms(2)
proof (induction n arbitrary: s xs it rest)
  case (Suc n)
  from SetIteratorNext_ok [OF Suc.prems(2)] obtain it1 where
    it1: "SetIteratorNext it = Ok (case rest of [] \<Rightarrow> NULL | x # _ \<Rightarrow> Ptr x, it1)" "sit_ok it1 (tl rest)" by blast
  show ?case
  proof (cases rest)
    case Nil
    then show ?thesis using it1(1) Suc.prems(1) by (auto simp: set_mem_def)
  next
    case (Cons x rs)
    from Suc.prems(4) [of x] Cons obtain y where
      y: "(case copy of NULL \<Rightarrow> Ptr x | Ptr f \<Rightarrow> f x) = Ptr y" "eq x y" by auto
    from SetAdd_rep [OF Suc.prems(1), of y] obtain s1 gone where
      s1: "SetAdd s (Ptr y) = Ok (s1, gone)" "set_rep eq hash s1 (set_add eq y xs)" by blast
    from Suc.IH [OF s1(2), of it1 rs] it1(2) Suc.prems(3,4) Cons obtain s' gone' ys where
      s': "SetJoin_loop s1 it1 copy n = Ok (s', gone')" "set_rep eq hash s' ys"
        "\<forall>k. set_mem eq k ys \<longleftrightarrow> set_mem eq k (set_add eq y xs) \<or> set_mem eq k rs" by auto
    have "eq y k \<longleftrightarrow> eq x k" for k using assms(1) y(2) by (metis equivp_def)
    then have "set_mem eq k ys \<longleftrightarrow> set_mem eq k xs \<or> set_mem eq k rest" for k
      using s'(3) Cons set_mem_add [OF assms(1), of k y xs] by (auto simp: set_mem_def)
    moreover have "\<exists>g. SetJoin_loop s it copy (Suc n) = Ok (s', g)"
      using it1(1) Cons y(1) s1(1) s'(1) by (cases gone; cases gone') simp
    ultimately show ?thesis using s'(2) by blast
  qed
qed simp

section \<open>Splitting and joining text\<close>

text \<open>The pieces of a text between delimiters; StringSetAddSplit adds them all, but not an empty last one.\<close>

fun pieces :: "char \<Rightarrow> string \<Rightarrow> string \<Rightarrow> string list" where
  "pieces d p [] = [p]"
| "pieces d p (c # s) = (if c = d then p # pieces d [] s else pieces d (p @ [c]) s)"

lemma pieces_not_Nil [simp]: "pieces d p s \<noteq> []"
  by (induction d p s rule: pieces.induct) auto

lemma StringSetAddSplit_loop_ok:
  "set_rep (=) hash s xs \<Longrightarrow>
   \<exists>s' gone ys. StringSetAddSplit_loop s d p str = Ok (s', gone) \<and> set_rep (=) hash s' ys
     \<and> set ys = set xs \<union> set (let ps = pieces d p str in if last ps = [] then butlast ps else ps)"
proof (induction d p str arbitrary: s xs rule: pieces.induct)
  case (1 d p)
  then show ?case using SetAdd_rep [OF 1, of p] by (cases "p = []") (force simp: set_add_def)+
next
  case (2 d p c str)
  show ?case
  proof (cases "c = d")
    case False
    then show ?thesis using 2(2) [OF False 2(3)] by simp
  next
    case True
    from SetAdd_rep [OF 2(3), of p] obtain s1 gone where
      s1: "SetAdd s (Ptr p) = Ok (s1, gone)" "set_rep (=) hash s1 (set_add (=) p xs)" by blast
    from 2(1) [OF True s1(2)] obtain s' gone' ys where
      s': "StringSetAddSplit_loop s1 d [] str = Ok (s', gone')" "set_rep (=) hash s' ys"
        "set ys = set (set_add (=) p xs) \<union> set (let ps = pieces d [] str in if last ps = [] then butlast ps else ps)"
      by blast
    have "\<exists>g. StringSetAddSplit_loop s d p (c # str) = Ok (s', g)"
      using True s1(1) s'(1) by (cases gone; cases gone') simp
    moreover have "set ys = set xs \<union> set (let ps = pieces d p (c # str) in if last ps = [] then butlast ps else ps)"
      using s'(3) True by (auto simp: set_add_def Let_def)
    ultimately show ?thesis using s'(2) by blast
  qed
qed

text \<open>The text StringSetToBuffer writes, and its pieces.\<close>

fun join :: "char \<Rightarrow> string list \<Rightarrow> string" where
  "join d [] = []"
| "join d [x] = x"
| "join d (x # y # zs) = x @ d # join d (y # zs)"

lemma pieces_append: "d \<notin> set x \<Longrightarrow> pieces d p (x @ s) = pieces d (p @ x) s"
  by (induction x arbitrary: p) auto

lemma pieces_join: "xs \<noteq> [] \<Longrightarrow> (\<forall>x \<in> set xs. d \<notin> set x) \<Longrightarrow> pieces d [] (join d xs) = xs"
proof (induction d xs rule: join.induct)
  case (2 d x)
  then show ?case using pieces_append [of d x "[]" "[]"] by simp
next
  case (3 d x y zs)
  then show ?case using pieces_append [of d x "[]"] by simp
qed simp

lemma StringSetToBuffer_loop_eq:
  "sit_ok it rest \<Longrightarrow> pos + length rest = sz \<Longrightarrow> length rest < n \<Longrightarrow>
   StringSetToBuffer_loop it d pos sz n = Ok (join d rest)"
proof (induction n arbitrary: it rest pos)
  case (Suc n)
  from SetIteratorNext_ok [OF Suc.prems(1)] obtain it1 where
    it1: "SetIteratorNext it = Ok (case rest of [] \<Rightarrow> NULL | x # _ \<Rightarrow> Ptr x, it1)" "sit_ok it1 (tl rest)" by blast
  show ?case
  proof (cases rest)
    case Nil
    then show ?thesis using it1(1) by simp
  next
    case (Cons x rs)
    have "StringSetToBuffer_loop it1 d (pos + 1) sz n = Ok (join d rs)"
      using it1(2) Suc.prems(2,3) Cons by (intro Suc.IH) auto
    then show ?thesis using it1(1) Suc.prems(2) Cons by (cases rs) auto
  qed
qed simp

section \<open>Properties\<close>

text \<open>
  SetJoin computes the union: afterwards an element is in the set when it was in the set or in
  the other set, provided a copy function, if there is one, returns an equal, non-NULL element.
\<close>

theorem SetJoin_union:
  assumes "set_rep eq hash s xs" "set_rep eq hash t zs"
    "case copy of NULL \<Rightarrow> True | Ptr f \<Rightarrow> \<forall>x. \<exists>y. f x = Ptr y \<and> eq x y"
  shows "\<exists>s' gone. SetJoin False s t copy = Ok (s', gone)
    \<and> (\<forall>x. SetContains s' (Ptr x)
        = Ok (SetContains s (Ptr x) = Ok True \<or> SetContains t (Ptr x) = Ok True))"
proof -
  have eqv: "equivp eq" using assms(1) map_rep_uniq(2) unfolding set_rep_def by blast
  from SetIteratorInit_ok [OF assms(2)] obtain it ys where
    it: "SetIteratorInit t = Ok it" "sit_ok it ys" "mset ys = mset zs" by blast
  have len: "length ys = length zs" "set ys = set zs"
    using mset_eq_length [OF it(3)] mset_eq_setD [OF it(3)] by auto
  have "\<exists>y. (case copy of NULL \<Rightarrow> Ptr x | Ptr f \<Rightarrow> f x) = Ptr y \<and> eq x y" for x
    using assms(3) equivp_reflp [OF eqv] by (cases copy) auto
  from SetJoin_loop_ok [OF eqv this assms(1) it(2), of "Suc (length zs)"] len obtain s' gone us where
    s': "SetJoin_loop s it copy (Suc (length zs)) = Ok (s', gone)" "set_rep eq hash s' us"
      "\<forall>k. set_mem eq k us \<longleftrightarrow> set_mem eq k xs \<or> set_mem eq k ys" by auto
  have "set_mem eq k ys \<longleftrightarrow> set_mem eq k zs" for k using len by (simp add: set_mem_def)
  then show ?thesis
    using s' it(1) SetSize_eq [OF assms(2)] SetContains_eq [OF s'(2)] SetContains_eq [OF assms(1)]
      SetContains_eq [OF assms(2)]
    by (simp add: SetJoin_def del: SetJoin_loop.simps)
qed

theorem SetJoin_union_witness:
  "\<exists>s' gone. SetJoin False StringSetNew StringSetNew NULL = Ok (s', gone)
    \<and> SetContains s' (Ptr ''a'') = Ok False"
proof -
  have "SetContains StringSetNew (Ptr ''a'') = Ok False"
    using SetContains_eq [OF StringSetNew_rep] by (simp add: set_mem_def)
  with SetJoin_union [OF StringSetNew_rep StringSetNew_rep, of NULL] show ?thesis by auto
qed

text \<open>
  Writing a string set with a delimiter and reading the text back gives an equal set, when no
  element is empty or contains the delimiter.
\<close>

theorem StringSet_text_roundtrip:
  assumes "set_rep StringEqual_untyped StringHash_untyped s xs"
    "\<forall>x \<in> set xs. x \<noteq> [] \<and> d \<notin> set x"
  shows "\<exists>str t. StringSetToBuffer s d = Ok str \<and> StringSetFromString (Ptr str) d = Ok t
    \<and> SetIsEqual s t = Ok True"
proof -
  from SetIteratorInit_ok [OF assms(1)] obtain it ys where
    it: "SetIteratorInit s = Ok it" "sit_ok it ys" "mset ys = mset xs" by blast
  have len: "length ys = length xs" "set ys = set xs"
    using mset_eq_length [OF it(3)] mset_eq_setD [OF it(3)] by auto
  have str: "StringSetToBuffer s d = Ok (join d ys)"
    using StringSetToBuffer_loop_eq [OF it(2), of 0 "length xs" "Suc (length xs)" d] it(1) len
      SetSize_eq [OF assms(1)] by (simp add: StringSetToBuffer_def)
  have ps: "set (let ps = pieces d [] (join d ys) in if last ps = [] then butlast ps else ps) = set ys"
  proof (cases "ys = []")
    case False
    then have "last ys \<noteq> []" using assms(2) len(2) last_in_set by metis
    then show ?thesis using pieces_join [OF False, of d] assms(2) len(2) by auto
  qed simp
  from StringSetAddSplit_loop_ok [OF StringSetNew_rep [unfolded StringEqual_untyped_eq], of d "[]" "join d ys"]
  obtain t gone zs where t: "StringSetAddSplit_loop StringSetNew d [] (join d ys) = Ok (t, gone)"
    "set_rep (=) StringHash_untyped t zs" "set zs = set ys" using ps by auto
  have "set_mem StringEqual_untyped k xs = set_mem StringEqual_untyped k zs" for k
    using t(3) len(2) by (simp add: set_mem_def)
  then have "kv_get StringEqual_untyped k (diag xs) = None \<longleftrightarrow> kv_get StringEqual_untyped k (diag zs) = None" for k
    using kv_get_diag [of StringEqual_untyped k xs] kv_get_diag [of StringEqual_untyped k zs] by blast
  moreover have "map_rep StringEqual_untyped StringHash_untyped t (diag zs)"
    using t(2) by (simp add: set_rep_def StringEqual_untyped_eq)
  ultimately have "SetIsEqual s t = Ok True"
    using MapContainsSameKeys_eq [OF assms(1) [unfolded set_rep_def], of t "diag zs"]
    unfolding SetIsEqual_def by simp
  then show ?thesis using str t(1) by (auto simp: StringSetFromString_def StringSetAddSplit_def)
qed

theorem StringSet_text_roundtrip_witness:
  "\<exists>s str t gone. SetAdd StringSetNew (Ptr ''ab'') = Ok (s, gone) \<and> StringSetToBuffer s (CHR '','') = Ok str
    \<and> StringSetFromString (Ptr str) (CHR '','') = Ok t \<and> SetIsEqual s t = Ok True"
proof -
  from SetAdd_rep [OF StringSetNew_rep, of "''ab''"] obtain s gone where
    s: "SetAdd StringSetNew (Ptr ''ab'') = Ok (s, gone)"
      "set_rep StringEqual_untyped StringHash_untyped s [''ab'']" by (auto simp: set_add_def)
  from StringSet_text_roundtrip [OF s(2), of "CHR '',''"] s(1) show ?thesis by auto
qed

end
