(* ===== verification/CsvLib.thy ===== *)
theory CsvLib
  imports Sequence StringLib
begin

text \<open>
  libutils/csv_writer.c and csv_parser.c. The parser is a state machine that copies a field byte by
  byte into the block \<open>snatched\<close> through the pointer \<open>sn\<close> (an index, or NULL) and appends finished
  fields to a \<open>Seq\<close>; the block is not initialised beyond what has been written, so the model faults
  where the C code would read an unset byte. A \<open>Writer\<close> is the text written so far; a text contains
  no NUL byte.
\<close>

abbreviation NUL :: char where
  "NUL \<equiv> CHR 0x00"

abbreviation CR :: char where
  "CR \<equiv> CHR 0x0D"

abbreviation LF :: char where
  "LF \<equiv> CHR 0x0A"

section \<open>The writer\<close>

record CsvWriter =
  cw_w :: string
  cw_beginning_of_line :: bool
  cw_terminate_last_line :: bool

definition CsvWriterOpenSpecifyTerminate :: "string \<Rightarrow> bool \<Rightarrow> CsvWriter" where
  "CsvWriterOpenSpecifyTerminate w terminate_last_line =
     \<lparr>cw_w = w, cw_beginning_of_line = True, cw_terminate_last_line = terminate_last_line\<rparr>"

definition CsvWriterOpen :: "string \<Rightarrow> CsvWriter" where
  "CsvWriterOpen w = CsvWriterOpenSpecifyTerminate w True"

fun WriteCsvEscapedString_loop :: "string \<Rightarrow> string" where
  "WriteCsvEscapedString_loop [] = []"
| "WriteCsvEscapedString_loop (c # s) =
     (if c = CHR 0x22 then [CHR 0x22] else []) @ c # WriteCsvEscapedString_loop s"

definition WriteCsvEscapedString :: "string \<Rightarrow> string \<Rightarrow> string" where
  "WriteCsvEscapedString w s = w @ [CHR 0x22] @ WriteCsvEscapedString_loop s @ [CHR 0x22]"

text \<open>\<open>strpbrk (str, "\",\\r\\n")\<close> finds one of the four characters.\<close>

definition needs_quotes :: "string \<Rightarrow> bool" where
  "needs_quotes str \<longleftrightarrow> (\<exists>c \<in> set str. c = CHR 0x22 \<or> c = CHR '','' \<or> c = CR \<or> c = LF)"

definition CsvWriterField :: "CsvWriter \<Rightarrow> string \<Rightarrow> CsvWriter" where
  "CsvWriterField csvw str =
     (let csvw1 = (if cw_beginning_of_line csvw then csvw\<lparr>cw_beginning_of_line := False\<rparr>
                   else csvw\<lparr>cw_w := cw_w csvw @ [CHR '','']\<rparr>)
      in if needs_quotes str then csvw1\<lparr>cw_w := WriteCsvEscapedString (cw_w csvw1) str\<rparr>
         else csvw1\<lparr>cw_w := cw_w csvw1 @ str\<rparr>)"

definition CsvWriterNewRecord :: "CsvWriter \<Rightarrow> CsvWriter" where
  "CsvWriterNewRecord csvw = csvw\<lparr>cw_w := cw_w csvw @ [CR, LF], cw_beginning_of_line := True\<rparr>"

definition CsvWriterClose :: "CsvWriter \<Rightarrow> string" where
  "CsvWriterClose csvw =
     (if \<not> cw_beginning_of_line csvw \<and> cw_terminate_last_line csvw then cw_w csvw @ [CR, LF]
      else cw_w csvw)"

definition CsvWriterGetWriter :: "CsvWriter \<Rightarrow> string" where
  "CsvWriterGetWriter csvw = cw_w csvw"

section \<open>The parser\<close>

datatype csv_state =
    CSV_ST_NEW_LINE
  | CSV_ST_PRE_START_SPACE
  | CSV_ST_NO_QUOTE_MODE
  | CSV_ST_SEPARATOR
  | CSV_ST_LEADING_QUOTE
  | CSV_ST_INTERNAL_QUOTE
  | CSV_ST_WITH_QUOTE_MODE
  | CSV_ST_SPACE_AFTER_QUOTE
  | CSV_ST_ERROR
  | CSV_ST_CLOSED

datatype csv_parser_error =
    CSV_ERR_OK
  | CVS_ERR_MALFORMED
  | CSV_ERR_UNKNOWN_STATE
  | CSV_ERR_UNEXPECTED_END
  | CSV_ERR_INVALID_INPUT

definition CSVCL_BLANK :: "char \<Rightarrow> bool" where
  "CSVCL_BLANK x \<longleftrightarrow> x = CHR '' '' \<or> x = CHR 0x09 \<or> x = LF \<or> x = CR"

definition CSVCL_QUOTE :: "char \<Rightarrow> bool" where
  "CSVCL_QUOTE x \<longleftrightarrow> x = CHR 0x22"

definition CSVCL_SEP :: "char \<Rightarrow> bool" where
  "CSVCL_SEP x \<longleftrightarrow> x = CHR '',''"

record csv_parser =
  csv_newlist :: "string Seq"
  csv_snatched :: "char carray"
  csv_sn :: "nat ptr"
  csv_current_state :: csv_state

text \<open>The actions: \<open>*sn = c\<close>, \<open>snatched[0] = '\\0'\<close> and \<open>SeqAppend (*newlist, xstrdup (snatched))\<close>.\<close>

definition csv_put :: "char \<Rightarrow> csv_parser \<Rightarrow> csv_parser res" where
  "csv_put c p = (case csv_sn p of
     NULL \<Rightarrow> Fault NullDeref
   | Ptr i \<Rightarrow> bindE (cwrite (csv_snatched p) i c) (\<lambda>b. Ok (p\<lparr>csv_snatched := b\<rparr>)))"

definition csv_advance :: "csv_parser \<Rightarrow> csv_parser" where
  "csv_advance p = p\<lparr>csv_sn := map_option Suc (csv_sn p)\<rparr>"

definition csv_reset :: "csv_parser \<Rightarrow> csv_parser res" where
  "csv_reset p = bindE (cwrite (csv_snatched p) 0 NUL) (\<lambda>b. Ok (p\<lparr>csv_snatched := b\<rparr>))"

definition csv_emit :: "csv_parser \<Rightarrow> csv_parser res" where
  "csv_emit p =
     bindE (cstr_read (csv_snatched p)) (\<lambda>str.
     bindE (SeqAppend (csv_newlist p) (Ptr str)) (\<lambda>l. Ok (p\<lparr>csv_newlist := l\<rparr>)))"

text \<open>One round of the loop, for a state other than CSV\_ST\_ERROR.\<close>

definition csv_step :: "csv_parser \<Rightarrow> char \<Rightarrow> csv_parser res" where
  "csv_step p c = (case csv_current_state p of
     CSV_ST_NEW_LINE \<Rightarrow>
       if CSVCL_SEP c then
         bindE (csv_put NUL p) (\<lambda>p1.
         bindE (SeqAppend (csv_newlist p1) (Ptr [])) (\<lambda>l.
         Ok (p1\<lparr>csv_sn := NULL, csv_newlist := l, csv_current_state := CSV_ST_SEPARATOR\<rparr>)))
       else if CSVCL_BLANK c then
         bindE (csv_put c p) (\<lambda>p1. Ok ((csv_advance p1)\<lparr>csv_current_state := CSV_ST_PRE_START_SPACE\<rparr>))
       else if CSVCL_QUOTE c then
         bindE (csv_reset p) (\<lambda>p1. Ok (p1\<lparr>csv_sn := NULL, csv_current_state := CSV_ST_LEADING_QUOTE\<rparr>))
       else
         bindE (csv_put c p) (\<lambda>p1. Ok ((csv_advance p1)\<lparr>csv_current_state := CSV_ST_NO_QUOTE_MODE\<rparr>))
   | CSV_ST_PRE_START_SPACE \<Rightarrow>
       if CSVCL_SEP c then
         bindE (csv_put NUL p) (\<lambda>p1. bindE (csv_emit p1) (\<lambda>p2. bindE (csv_reset p2) (\<lambda>p3.
         Ok (p3\<lparr>csv_sn := NULL, csv_current_state := CSV_ST_SEPARATOR\<rparr>))))
       else if CSVCL_BLANK c then
         bindE (csv_put c p) (\<lambda>p1. Ok ((csv_advance p1)\<lparr>csv_current_state := CSV_ST_PRE_START_SPACE\<rparr>))
       else if CSVCL_QUOTE c then
         bindE (csv_reset p) (\<lambda>p1. Ok (p1\<lparr>csv_sn := NULL, csv_current_state := CSV_ST_LEADING_QUOTE\<rparr>))
       else
         bindE (csv_put c p) (\<lambda>p1. Ok ((csv_advance p1)\<lparr>csv_current_state := CSV_ST_NO_QUOTE_MODE\<rparr>))
   | CSV_ST_NO_QUOTE_MODE \<Rightarrow>
       if CSVCL_SEP c then
         bindE (csv_put NUL p) (\<lambda>p1. bindE (csv_emit p1) (\<lambda>p2. bindE (csv_reset p2) (\<lambda>p3.
         Ok (p3\<lparr>csv_sn := NULL, csv_current_state := CSV_ST_SEPARATOR\<rparr>))))
       else if CSVCL_QUOTE c then
         bindE (csv_reset p) (\<lambda>p1. Ok (p1\<lparr>csv_sn := NULL, csv_current_state := CSV_ST_ERROR\<rparr>))
       else
         bindE (csv_put c p) (\<lambda>p1. Ok ((csv_advance p1)\<lparr>csv_current_state := CSV_ST_NO_QUOTE_MODE\<rparr>))
   | CSV_ST_SEPARATOR \<Rightarrow>
       if CSVCL_SEP c then
         bindE (csv_reset p) (\<lambda>p1. bindE (csv_emit p1) (\<lambda>p2.
         Ok (p2\<lparr>csv_sn := NULL, csv_current_state := CSV_ST_SEPARATOR\<rparr>)))
       else if CSVCL_BLANK c then
         bindE (csv_put c (p\<lparr>csv_sn := Ptr 0\<rparr>)) (\<lambda>p1.
         Ok ((csv_advance p1)\<lparr>csv_current_state := CSV_ST_PRE_START_SPACE\<rparr>))
       else if CSVCL_QUOTE c then
         bindE (csv_reset p) (\<lambda>p1. Ok (p1\<lparr>csv_sn := NULL, csv_current_state := CSV_ST_LEADING_QUOTE\<rparr>))
       else
         bindE (csv_put c (p\<lparr>csv_sn := Ptr 0\<rparr>)) (\<lambda>p1.
         Ok ((csv_advance p1)\<lparr>csv_current_state := CSV_ST_NO_QUOTE_MODE\<rparr>))
   | CSV_ST_LEADING_QUOTE \<Rightarrow>
       if CSVCL_QUOTE c then
         Ok (p\<lparr>csv_sn := Ptr 0, csv_current_state := CSV_ST_INTERNAL_QUOTE\<rparr>)
       else
         bindE (csv_put c (p\<lparr>csv_sn := Ptr 0\<rparr>)) (\<lambda>p1.
         Ok ((csv_advance p1)\<lparr>csv_current_state := CSV_ST_WITH_QUOTE_MODE\<rparr>))
   | CSV_ST_INTERNAL_QUOTE \<Rightarrow>
       if CSVCL_SEP c then
         bindE (csv_put NUL p) (\<lambda>p1. bindE (csv_emit p1) (\<lambda>p2.
         Ok (p2\<lparr>csv_sn := NULL, csv_current_state := CSV_ST_SEPARATOR\<rparr>)))
       else if CSVCL_BLANK c then
         Ok (p\<lparr>csv_current_state := CSV_ST_SPACE_AFTER_QUOTE\<rparr>)
       else if CSVCL_QUOTE c then
         bindE (csv_put c p) (\<lambda>p1. Ok ((csv_advance p1)\<lparr>csv_current_state := CSV_ST_WITH_QUOTE_MODE\<rparr>))
       else
         bindE (csv_reset p) (\<lambda>p1. Ok ((csv_advance p1)\<lparr>csv_current_state := CSV_ST_ERROR\<rparr>))
   | CSV_ST_WITH_QUOTE_MODE \<Rightarrow>
       if CSVCL_QUOTE c then
         Ok (p\<lparr>csv_current_state := CSV_ST_INTERNAL_QUOTE\<rparr>)
       else
         bindE (csv_put c p) (\<lambda>p1. Ok ((csv_advance p1)\<lparr>csv_current_state := CSV_ST_WITH_QUOTE_MODE\<rparr>))
   | CSV_ST_SPACE_AFTER_QUOTE \<Rightarrow>
       if CSVCL_SEP c then
         bindE (csv_emit p) (\<lambda>p1. Ok (p1\<lparr>csv_sn := NULL, csv_current_state := CSV_ST_SEPARATOR\<rparr>))
       else if CSVCL_BLANK c then
         bindE (if csv_sn p \<noteq> NULL then csv_put NUL p else Ok p) (\<lambda>p1.
         Ok (p1\<lparr>csv_sn := NULL, csv_current_state := CSV_ST_SPACE_AFTER_QUOTE\<rparr>))
       else
         bindE (csv_reset p) (\<lambda>p1. Ok (p1\<lparr>csv_sn := NULL, csv_current_state := CSV_ST_ERROR\<rparr>))
   | CSV_ST_ERROR \<Rightarrow> Ok p
   | CSV_ST_CLOSED \<Rightarrow> Ok p)"

text \<open>The loop over the input: an error code and the state there, or the state at the end of the input.\<close>

fun csv_loop :: "csv_parser \<Rightarrow> string \<Rightarrow> ((csv_parser_error \<times> csv_parser) + csv_parser) res" where
  "csv_loop p [] = Ok (Inr p)"
| "csv_loop p (c # s) =
     (if csv_current_state p = CSV_ST_ERROR then Ok (Inl (CVS_ERR_MALFORMED, p))
      else if csv_current_state p = CSV_ST_CLOSED then Ok (Inl (CSV_ERR_UNKNOWN_STATE, p))
      else bindE (csv_step p c) (\<lambda>p'. csv_loop p' s))"

text \<open>The part after the loop. The length of the last field is kept in an \<open>int\<close>.\<close>

definition csv_trim :: "csv_parser \<Rightarrow> csv_parser res" where
  "csv_trim p =
     (if csv_current_state p = CSV_ST_NO_QUOTE_MODE \<or> csv_current_state p = CSV_ST_PRE_START_SPACE
      then bindE (cstr_read (csv_snatched p)) (\<lambda>str.
           let len = int_of_size (length str)
           in if len > 1 \<and> str ! nat (len - 2) = CR \<and> str ! nat (len - 1) = LF
              then bindE (cwrite (csv_snatched p) (nat (len - 2)) NUL) (\<lambda>b. Ok (p\<lparr>csv_snatched := b\<rparr>))
              else Ok p)
      else Ok p)"

definition csv_finish :: "csv_parser \<Rightarrow> ((csv_parser_error \<times> csv_parser) + csv_parser) res" where
  "csv_finish p =
     (if csv_current_state p \<noteq> CSV_ST_LEADING_QUOTE \<and> csv_current_state p \<noteq> CSV_ST_WITH_QUOTE_MODE
      then bindE (if csv_sn p \<noteq> NULL then csv_put NUL p else Ok p) (\<lambda>p1.
           bindE (csv_trim (p1\<lparr>csv_sn := NULL\<rparr>)) (\<lambda>p2.
           bindE (csv_emit p2) (\<lambda>p3.
           bindE (csv_reset p3) (\<lambda>p4. Ok (Inr p4)))))
      else Ok (Inl (CSV_ERR_UNEXPECTED_END, p)))"

text \<open>
  LaunchCsvAutomata returns the error code with the filled list; after an error the list has been
  destroyed (the fields it held are returned in its place).
\<close>

definition LaunchCsvAutomata ::
  "string ptr \<Rightarrow> string Seq \<Rightarrow> (csv_parser_error \<times> (string ptr list + string Seq)) res" where
  "LaunchCsvAutomata str newlist = (case str of
     NULL \<Rightarrow> Fault AssertFail
   | Ptr s \<Rightarrow>
       bindE (csv_reset \<lparr>csv_newlist = newlist, csv_snatched = xmalloc (length s + 1), csv_sn = Ptr 0,
               csv_current_state = CSV_ST_NEW_LINE\<rparr>) (\<lambda>p.
       bindE (csv_loop p s) (\<lambda>r.
       bindE (case r of Inl e \<Rightarrow> Ok (Inl e) | Inr p' \<Rightarrow> csv_finish p') (\<lambda>r'.
       case r' of
         Inr p'' \<Rightarrow> Ok (CSV_ERR_OK, Inr (csv_newlist p''))
       | Inl (e, p'') \<Rightarrow> bindE (SeqDestroy (csv_newlist p'')) (\<lambda>gone. Ok (e, Inl gone))))))"

definition SeqParseCsvString :: "string ptr \<Rightarrow> string Seq ptr res" where
  "SeqParseCsvString str =
     bindE (LaunchCsvAutomata str (SeqNew 16 True)) (\<lambda>(e, l).
     case l of
       Inr newlist \<Rightarrow> if e \<noteq> CSV_ERR_OK then Ok NULL else Ok (Ptr newlist)
     | Inl _ \<Rightarrow> Ok NULL)"

text \<open>GetCsvLineNext: the bytes of the next record and the rest of the file.\<close>

fun GetCsvLineNext_loop :: "bool \<Rightarrow> char \<Rightarrow> string \<Rightarrow> string \<times> string" where
  "GetCsvLineNext_loop in_quotes prev [] = ([], [])"
| "GetCsvLineNext_loop in_quotes prev (current # fp) =
     (if current = CHR 0x22
      then let (line, rest) = GetCsvLineNext_loop (\<not> in_quotes) current fp in (current # line, rest)
      else if \<not> in_quotes \<and> current = LF \<and> prev = CR then ([current], fp)
      else let (line, rest) = GetCsvLineNext_loop in_quotes current fp in (current # line, rest))"

definition GetCsvLineNext :: "string ptr \<Rightarrow> string ptr \<times> string" where
  "GetCsvLineNext fp = (case fp of
     NULL \<Rightarrow> (NULL, [])
   | Ptr input \<Rightarrow>
       (let (line, rest) = GetCsvLineNext_loop False NUL input
        in if length line \<le> 0 then (NULL, rest) else (Ptr line, rest)))"

section \<open>What the automaton does on well-formed fields\<close>

lemmas csv_classes = CSVCL_SEP_def CSVCL_QUOTE_def CSVCL_BLANK_def

text \<open>
  \<open>csv_at N p fs w S\<close>: the fields \<open>fs\<close> have been appended, the block of \<open>N\<close> bytes starts with the
  text \<open>w\<close> of the current field, \<open>sn\<close> points behind it, and the state is one of \<open>S\<close>. \<open>csv_start\<close>: the
  next byte starts a field. \<open>csv_lead\<close>: an opening quote has just been read.
\<close>

definition csv_base :: "nat \<Rightarrow> csv_parser \<Rightarrow> string list \<Rightarrow> bool" where
  "csv_base N p fs \<longleftrightarrow> seq_rep (csv_newlist p) (map Ptr fs) \<and> length (csv_snatched p) = N \<and> 0 < N"

definition csv_at :: "nat \<Rightarrow> csv_parser \<Rightarrow> string list \<Rightarrow> string \<Rightarrow> csv_state set \<Rightarrow> bool" where
  "csv_at N p fs w S \<longleftrightarrow> csv_base N p fs \<and> stores (csv_snatched p) w \<and> csv_sn p = Ptr (length w)
     \<and> csv_current_state p \<in> S"

definition csv_start :: "nat \<Rightarrow> csv_parser \<Rightarrow> string list \<Rightarrow> bool" where
  "csv_start N p fs \<longleftrightarrow> csv_base N p fs \<and> (csv_current_state p = CSV_ST_SEPARATOR
     \<or> csv_current_state p = CSV_ST_NEW_LINE \<and> csv_sn p = Ptr 0)"

definition csv_lead :: "nat \<Rightarrow> csv_parser \<Rightarrow> string list \<Rightarrow> bool" where
  "csv_lead N p fs \<longleftrightarrow> csv_base N p fs \<and> csv_current_state p = CSV_ST_LEADING_QUOTE"

abbreviation plain_states :: "csv_state set" where
  "plain_states \<equiv> {CSV_ST_PRE_START_SPACE, CSV_ST_NO_QUOTE_MODE}"

lemma csv_loop_append:
  "csv_loop p (xs @ ys) = bindE (csv_loop p xs) (\<lambda>r. case r of Inl e \<Rightarrow> Ok (Inl e) | Inr p' \<Rightarrow> csv_loop p' ys)"
  by (induction xs arbitrary: p) (auto simp: bindE_assoc)

lemma csv_loop_seq: "csv_loop p xs = Ok (Inr p1) \<Longrightarrow> csv_loop p1 ys = r \<Longrightarrow> csv_loop p (xs @ ys) = r"
  by (simp add: csv_loop_append)

lemma csv_loop_one:
  "csv_current_state p \<noteq> CSV_ST_ERROR \<Longrightarrow> csv_current_state p \<noteq> CSV_ST_CLOSED \<Longrightarrow> csv_step p c = Ok p' \<Longrightarrow>
   csv_loop p [c] = Ok (Inr p')"
  by simp

lemma csv_put_advance:
  assumes "csv_at N p fs w S" "length w < N"
  shows "\<exists>p1. csv_put c p = Ok p1 \<and> csv_at N ((csv_advance p1)\<lparr>csv_current_state := st\<rparr>) fs (w @ [c]) {st}"
  using assms stores_snoc [of "csv_snatched p" w c]
  by (auto simp: csv_at_def csv_base_def csv_put_def csv_advance_def)

lemma csv_put_start:
  assumes "csv_base N p fs" "csv_sn p = Ptr 0"
  shows "\<exists>p1. csv_put c p = Ok p1 \<and> csv_at N ((csv_advance p1)\<lparr>csv_current_state := st\<rparr>) fs [c] {st}"
  using csv_put_advance [of N p fs "[]" UNIV c st] assms by (simp add: csv_at_def csv_base_def)

lemma csv_emit_ok:
  assumes "csv_base N p fs" "stores (csv_snatched p) (w @ [NUL])" "NUL \<notin> set w"
  shows "\<exists>l. csv_emit p = Ok (p\<lparr>csv_newlist := l\<rparr>) \<and> seq_rep l (map Ptr (fs @ [w]))"
  using SeqAppend_rep [of "csv_newlist p" "map Ptr fs" "Ptr w"] assms cstr_read_stores [OF assms(2,3)]
  by (auto simp: csv_emit_def csv_base_def)

lemma csv_reset_ok: "csv_base N p fs \<Longrightarrow>
    csv_reset p = Ok (p\<lparr>csv_snatched := (csv_snatched p)[0 := Val NUL]\<rparr>)"
  by (simp add: csv_reset_def csv_base_def)

lemma csv_terminate:
  assumes "csv_at N p fs w S" "length w < N" "NUL \<notin> set w"
  shows "\<exists>p1 l. csv_put NUL p = Ok p1 \<and> csv_emit p1 = Ok (p1\<lparr>csv_newlist := l\<rparr>)
    \<and> csv_base N (p1\<lparr>csv_newlist := l\<rparr>) (fs @ [w]) \<and> stores (csv_snatched p1) (w @ [NUL]) \<and> csv_base N p1 fs
    \<and> csv_current_state p1 = csv_current_state p"
proof -
  let ?p1 = "p\<lparr>csv_snatched := (csv_snatched p)[length w := Val NUL]\<rparr>"
  have put: "csv_put NUL p = Ok ?p1" using assms(1,2) by (simp add: csv_put_def csv_at_def csv_base_def)
  have st: "stores (csv_snatched ?p1) (w @ [NUL])"
    using assms(1,2) stores_snoc [of "csv_snatched p" w NUL] by (simp add: csv_at_def csv_base_def)
  have base: "csv_base N ?p1 fs" using assms(1) by (simp add: csv_at_def csv_base_def)
  from csv_emit_ok [OF base st assms(3)] obtain l where
    "csv_emit ?p1 = Ok (?p1\<lparr>csv_newlist := l\<rparr>)" "seq_rep l (map Ptr (fs @ [w]))" by blast
  then show ?thesis using put st base
    by (intro exI [of _ ?p1] exI [of _ l]) (simp add: csv_base_def)
qed

lemma csv_plain_step:
  assumes "csv_at N p fs w plain_states" "length w < N" "\<not> CSVCL_SEP c" "\<not> CSVCL_QUOTE c"
  shows "\<exists>p'. csv_loop p [c] = Ok (Inr p') \<and> csv_at N p' fs (w @ [c]) plain_states"
proof -
  define st where "st = (if csv_current_state p = CSV_ST_PRE_START_SPACE \<and> CSVCL_BLANK c
    then CSV_ST_PRE_START_SPACE else CSV_ST_NO_QUOTE_MODE)"
  from csv_put_advance [OF assms(1,2), of c st] obtain p1 where
    p1: "csv_put c p = Ok p1" "csv_at N ((csv_advance p1)\<lparr>csv_current_state := st\<rparr>) fs (w @ [c]) {st}" by blast
  have "csv_current_state p \<in> plain_states" using assms(1) by (simp add: csv_at_def)
  then have "csv_loop p [c] = Ok (Inr ((csv_advance p1)\<lparr>csv_current_state := st\<rparr>))"
    using p1(1) assms(3,4) by (auto simp: csv_step_def st_def)
  then show ?thesis using p1(2) by (auto simp: csv_at_def st_def)
qed

lemma csv_plain_run:
  "csv_at N p fs w plain_states \<Longrightarrow> length w + length u \<le> N \<Longrightarrow>
   (\<forall>c \<in> set u. \<not> CSVCL_SEP c \<and> \<not> CSVCL_QUOTE c) \<Longrightarrow>
   \<exists>p'. csv_loop p u = Ok (Inr p') \<and> csv_at N p' fs (w @ u) plain_states"
proof (induction u arbitrary: p w)
  case (Cons c u)
  from csv_plain_step [OF Cons.prems(1), of c] Cons.prems(2,3) obtain p1 where
    p1: "csv_loop p [c] = Ok (Inr p1)" "csv_at N p1 fs (w @ [c]) plain_states" by auto
  from Cons.IH [OF p1(2)] Cons.prems(2,3) obtain p' where
    "csv_loop p1 u = Ok (Inr p')" "csv_at N p' fs (w @ c # u) plain_states" by auto
  then show ?case using csv_loop_append [of p "[c]" u] p1(1) by auto
qed auto

text \<open>A field without quotes and separators, from its start.\<close>

lemma csv_plain_start:
  assumes "csv_start N p fs" "u \<noteq> []" "length u \<le> N" "\<forall>c \<in> set u. \<not> CSVCL_SEP c \<and> \<not> CSVCL_QUOTE c"
  shows "\<exists>p'. csv_loop p u = Ok (Inr p') \<and> csv_at N p' fs u plain_states"
proof -
  obtain c v where u: "u = c # v" using assms(2) by (cases u) auto
  define st where "st = (if CSVCL_BLANK c then CSV_ST_PRE_START_SPACE else CSV_ST_NO_QUOTE_MODE)"
  have "csv_base N (p\<lparr>csv_sn := Ptr 0\<rparr>) fs" using assms(1) by (simp add: csv_start_def csv_base_def)
  from csv_put_start [OF this, of c st] obtain p1 where
    p1: "csv_put c (p\<lparr>csv_sn := Ptr 0\<rparr>) = Ok p1" "csv_at N ((csv_advance p1)\<lparr>csv_current_state := st\<rparr>) fs [c] {st}"
    by auto
  have "csv_sn p = Ptr 0 \<Longrightarrow> p\<lparr>csv_sn := Ptr 0\<rparr> = p" by simp
  then have "csv_sn p = Ptr 0 \<Longrightarrow> csv_put c p = Ok p1" using p1(1) by metis
  then have "csv_loop p [c] = Ok (Inr ((csv_advance p1)\<lparr>csv_current_state := st\<rparr>))"
    using p1(1) assms(1,4) u by (auto simp: csv_step_def csv_start_def st_def)
  moreover have "csv_at N ((csv_advance p1)\<lparr>csv_current_state := st\<rparr>) fs [c] plain_states"
    using p1(2) by (auto simp: csv_at_def st_def)
  ultimately show ?thesis
    using csv_plain_run [of N "(csv_advance p1)\<lparr>csv_current_state := st\<rparr>" fs "[c]" v] assms(3,4) u
      csv_loop_append [of p "[c]" v] by auto
qed

lemma csv_plain_sep:
  assumes "csv_at N p fs w plain_states" "length w < N" "NUL \<notin> set w"
  shows "\<exists>p'. csv_loop p [CHR '',''] = Ok (Inr p') \<and> csv_start N p' (fs @ [w])"
proof -
  from csv_terminate [OF assms] obtain p1 l where
    p1: "csv_put NUL p = Ok p1" "csv_emit p1 = Ok (p1\<lparr>csv_newlist := l\<rparr>)"
      "csv_base N (p1\<lparr>csv_newlist := l\<rparr>) (fs @ [w])" by blast
  have "csv_current_state p \<in> plain_states" using assms(1) by (simp add: csv_at_def)
  then show ?thesis using p1 csv_reset_ok [OF p1(3)]
    by (auto simp: csv_step_def CSVCL_SEP_def csv_start_def csv_base_def)
qed

lemma csv_empty_sep:
  assumes "csv_start N p fs"
  shows "\<exists>p'. csv_loop p [CHR '',''] = Ok (Inr p') \<and> csv_start N p' (fs @ [[]])"
proof -
  have base: "csv_base N p fs" using assms by (simp add: csv_start_def)
  let ?p1 = "p\<lparr>csv_snatched := (csv_snatched p)[0 := Val NUL]\<rparr>"
  have b1: "csv_base N ?p1 fs" "stores (csv_snatched ?p1) ([] @ [NUL])"
    using base by (cases "csv_snatched p"; auto simp: csv_base_def stores_def)+
  from csv_emit_ok [OF b1] obtain l where
    l: "csv_emit ?p1 = Ok (?p1\<lparr>csv_newlist := l\<rparr>)" "seq_rep l (map Ptr (fs @ [[]]))" by auto
  from SeqAppend_rep [of "csv_newlist p" "map Ptr fs" "Ptr []"] base obtain l' where
    l': "SeqAppend (csv_newlist p) (Ptr []) = Ok l'" "seq_rep l' (map Ptr (fs @ [[]]))"
    by (auto simp: csv_base_def)
  from assms consider "csv_current_state p = CSV_ST_SEPARATOR"
    | "csv_current_state p = CSV_ST_NEW_LINE" "csv_sn p = Ptr 0" by (auto simp: csv_start_def)
  then show ?thesis
  proof cases
    case 1
    then show ?thesis using l csv_reset_ok [OF base] b1(1)
      by (auto simp: csv_step_def CSVCL_SEP_def csv_start_def csv_base_def)
  next
    case 2
    then show ?thesis using l' base
      by (auto simp: csv_step_def CSVCL_SEP_def csv_start_def csv_base_def csv_put_def)
  qed
qed

text \<open>Quoted fields: the escaped text up to the closing quote.\<close>

lemma csv_start_quote:
  assumes "csv_start N p fs"
  shows "\<exists>p'. csv_loop p [CHR 0x22] = Ok (Inr p') \<and> csv_lead N p' fs"
proof -
  have base: "csv_base N p fs" using assms by (simp add: csv_start_def)
  then show ?thesis using csv_reset_ok [OF base] assms
    by (auto simp: csv_step_def csv_classes csv_start_def csv_lead_def csv_base_def)
qed

definition csv_in_quotes :: "nat \<Rightarrow> csv_parser \<Rightarrow> string list \<Rightarrow> string \<Rightarrow> bool" where
  "csv_in_quotes N p fs w \<longleftrightarrow> csv_lead N p fs \<and> w = [] \<or> csv_at N p fs w {CSV_ST_WITH_QUOTE_MODE}"

lemma csv_quote_char:
  assumes "csv_in_quotes N p fs w" "length w < N" "c \<noteq> CHR 0x22"
  shows "\<exists>p'. csv_loop p [c] = Ok (Inr p') \<and> csv_in_quotes N p' fs (w @ [c])"
proof (cases "csv_lead N p fs \<and> w = []")
  case True
  then have "csv_base N (p\<lparr>csv_sn := Ptr 0\<rparr>) fs" by (simp add: csv_lead_def csv_base_def)
  from csv_put_start [OF this, of c CSV_ST_WITH_QUOTE_MODE] obtain p1 where
    "csv_put c (p\<lparr>csv_sn := Ptr 0\<rparr>) = Ok p1"
    "csv_at N ((csv_advance p1)\<lparr>csv_current_state := CSV_ST_WITH_QUOTE_MODE\<rparr>) fs [c] {CSV_ST_WITH_QUOTE_MODE}"
    by auto
  then show ?thesis using True assms(3)
    by (auto simp: csv_step_def csv_classes csv_in_quotes_def csv_lead_def)
next
  case False
  then have at: "csv_at N p fs w {CSV_ST_WITH_QUOTE_MODE}" using assms(1) by (auto simp: csv_in_quotes_def)
  from csv_put_advance [OF at assms(2), of c CSV_ST_WITH_QUOTE_MODE] obtain p1 where
    "csv_put c p = Ok p1"
    "csv_at N ((csv_advance p1)\<lparr>csv_current_state := CSV_ST_WITH_QUOTE_MODE\<rparr>) fs (w @ [c]) {CSV_ST_WITH_QUOTE_MODE}"
    by blast
  then show ?thesis using at assms(3)
    by (auto simp: csv_step_def csv_classes csv_in_quotes_def csv_at_def)
qed

lemma csv_quote_quote:
  assumes "csv_in_quotes N p fs w"
  shows "\<exists>p'. csv_loop p [CHR 0x22] = Ok (Inr p') \<and> csv_at N p' fs w {CSV_ST_INTERNAL_QUOTE}"
  using assms by (auto simp: csv_in_quotes_def csv_lead_def csv_at_def csv_base_def csv_step_def csv_classes)

lemma csv_internal_quote:
  assumes "csv_at N p fs w {CSV_ST_INTERNAL_QUOTE}" "length w < N"
  shows "\<exists>p'. csv_loop p [CHR 0x22] = Ok (Inr p') \<and> csv_in_quotes N p' fs (w @ [CHR 0x22])"
proof -
  from csv_put_advance [OF assms, of "CHR 0x22" CSV_ST_WITH_QUOTE_MODE] obtain p1 where
    "csv_put (CHR 0x22) p = Ok p1"
    "csv_at N ((csv_advance p1)\<lparr>csv_current_state := CSV_ST_WITH_QUOTE_MODE\<rparr>) fs (w @ [CHR 0x22]) {CSV_ST_WITH_QUOTE_MODE}"
    by blast
  then show ?thesis using assms(1)
    by (auto simp: csv_step_def csv_classes csv_in_quotes_def csv_at_def)
qed

lemma csv_quoted_run:
  "csv_in_quotes N p fs w \<Longrightarrow> length w + length u < N \<Longrightarrow>
   \<exists>p'. csv_loop p (WriteCsvEscapedString_loop u @ [CHR 0x22]) = Ok (Inr p')
     \<and> csv_at N p' fs (w @ u) {CSV_ST_INTERNAL_QUOTE}"
proof (induction u arbitrary: p w)
  case Nil
  then show ?case using csv_quote_quote by simp
next
  case (Cons c u)
  have "\<exists>p1. csv_loop p ((if c = CHR 0x22 then [CHR 0x22] else []) @ [c]) = Ok (Inr p1)
      \<and> csv_in_quotes N p1 fs (w @ [c])"
  proof (cases "c = CHR 0x22")
    case False
    then show ?thesis using csv_quote_char [OF Cons.prems(1) _ False] Cons.prems(2) by simp
  next
    case True
    from csv_quote_quote [OF Cons.prems(1)] obtain p1 where
      p1: "csv_loop p [CHR 0x22] = Ok (Inr p1)" "csv_at N p1 fs w {CSV_ST_INTERNAL_QUOTE}" by blast
    from csv_internal_quote [OF p1(2)] Cons.prems(2) True p1(1) show ?thesis
      using csv_loop_append [of p "[CHR 0x22]" "[CHR 0x22]"] by auto
  qed
  then obtain p1 where p1: "csv_loop p ((if c = CHR 0x22 then [CHR 0x22] else []) @ [c]) = Ok (Inr p1)"
    "csv_in_quotes N p1 fs (w @ [c])" by blast
  from Cons.IH [OF p1(2)] Cons.prems(2) obtain p' where
    p': "csv_loop p1 (WriteCsvEscapedString_loop u @ [CHR 0x22]) = Ok (Inr p')"
      "csv_at N p' fs (w @ c # u) {CSV_ST_INTERNAL_QUOTE}" by auto
  have "WriteCsvEscapedString_loop (c # u) @ [CHR 0x22]
      = ((if c = CHR 0x22 then [CHR 0x22] else []) @ [c]) @ WriteCsvEscapedString_loop u @ [CHR 0x22]" by simp
  then show ?case using csv_loop_seq [OF p1(1) p'(1)] p'(2) by metis
qed

text \<open>One encoded field, followed by a separator or by the end of the record.\<close>

definition csv_field :: "string \<Rightarrow> string" where
  "csv_field f = (if needs_quotes f then WriteCsvEscapedString [] f else f)"

lemma not_needs_quotes: "\<not> needs_quotes f \<Longrightarrow> c \<in> set f \<Longrightarrow> \<not> CSVCL_SEP c \<and> \<not> CSVCL_QUOTE c"
  by (auto simp: needs_quotes_def csv_classes)

lemma length_escaped: "length u \<le> length (WriteCsvEscapedString_loop u)"
  by (induction u) auto

lemma csv_quoted_field:
  assumes "csv_start N p fs" "needs_quotes f" "length (csv_field f) < N"
  shows "\<exists>p'. csv_loop p (csv_field f) = Ok (Inr p') \<and> csv_at N p' fs f {CSV_ST_INTERNAL_QUOTE}"
proof -
  from csv_start_quote [OF assms(1)] obtain p1 where
    p1: "csv_loop p [CHR 0x22] = Ok (Inr p1)" "csv_in_quotes N p1 fs []" by (auto simp: csv_in_quotes_def)
  have "length f < N" using assms(2,3) length_escaped [of f] by (simp add: csv_field_def WriteCsvEscapedString_def)
  with csv_quoted_run [OF p1(2), of f] obtain p' where
    p': "csv_loop p1 (WriteCsvEscapedString_loop f @ [CHR 0x22]) = Ok (Inr p')"
      "csv_at N p' fs f {CSV_ST_INTERNAL_QUOTE}" by auto
  have "csv_field f = [CHR 0x22] @ WriteCsvEscapedString_loop f @ [CHR 0x22]"
    using assms(2) by (simp add: csv_field_def WriteCsvEscapedString_def)
  then show ?thesis using csv_loop_seq [OF p1(1) p'(1)] p'(2) by metis
qed

lemma csv_field_sep:
  assumes "csv_start N p fs" "length (csv_field f) < N" "NUL \<notin> set f"
  shows "\<exists>p'. csv_loop p (csv_field f @ [CHR '','']) = Ok (Inr p') \<and> csv_start N p' (fs @ [f])"
proof (cases "needs_quotes f")
  case True
  from csv_quoted_field [OF assms(1) True assms(2)] obtain p1 where
    p1: "csv_loop p (csv_field f) = Ok (Inr p1)" "csv_at N p1 fs f {CSV_ST_INTERNAL_QUOTE}" by blast
  have "length f < N" using True assms(2) length_escaped [of f]
    by (simp add: csv_field_def WriteCsvEscapedString_def)
  from csv_terminate [OF p1(2) this assms(3)] obtain p2 l where
    p2: "csv_put NUL p1 = Ok p2" "csv_emit p2 = Ok (p2\<lparr>csv_newlist := l\<rparr>)"
      "csv_base N (p2\<lparr>csv_newlist := l\<rparr>) (fs @ [f])" by blast
  have "csv_loop p1 [CHR '',''] = Ok (Inr (p2\<lparr>csv_newlist := l, csv_sn := NULL, csv_current_state := CSV_ST_SEPARATOR\<rparr>))"
    using p1(2) p2(1,2) by (auto simp: csv_step_def csv_at_def CSVCL_SEP_def)
  from csv_loop_seq [OF p1(1) this] show ?thesis using p2(3) by (auto simp: csv_start_def csv_base_def)
next
  case False
  then have f: "csv_field f = f" by (simp add: csv_field_def)
  show ?thesis
  proof (cases "f = []")
    case True
    then show ?thesis using csv_empty_sep [OF assms(1)] f by simp
  next
    case ne: False
    from csv_plain_start [OF assms(1) ne] assms(2) f not_needs_quotes [OF False] obtain p1 where
      p1: "csv_loop p f = Ok (Inr p1)" "csv_at N p1 fs f plain_states" by auto
    from csv_plain_sep [OF p1(2)] assms(2,3) f obtain p' where
      p': "csv_loop p1 [CHR '',''] = Ok (Inr p')" "csv_start N p' (fs @ [f])" by auto
    show ?thesis unfolding f using csv_loop_seq [OF p1(1) p'(1)] p'(2) by metis
  qed
qed

lemma csv_quoted_crlf:
  assumes "csv_start N p fs" "length (csv_field f) + 2 < N" "NUL \<notin> set f" "N \<le> 2 ^ 31" "needs_quotes f"
  shows "\<exists>p1 p2. csv_loop p (csv_field f @ [CR, LF]) = Ok (Inr p1) \<and> csv_finish p1 = Ok (Inr p2)
    \<and> seq_rep (csv_newlist p2) (map Ptr (fs @ [f]))"
proof -
  from csv_quoted_field [OF assms(1,5)] assms(2) obtain p1 where
    p1: "csv_loop p (csv_field f) = Ok (Inr p1)" "csv_at N p1 fs f {CSV_ST_INTERNAL_QUOTE}" by auto
  have "length f < N" using assms(2,5) length_escaped [of f]
    by (simp add: csv_field_def WriteCsvEscapedString_def)
  then have put: "csv_put NUL p1 = Ok (p1\<lparr>csv_snatched := (csv_snatched p1)[length f := Val NUL]\<rparr>)"
    "stores ((csv_snatched p1)[length f := Val NUL]) (f @ [NUL])"
    using p1(2) stores_snoc [of "csv_snatched p1" f NUL] by (auto simp: csv_put_def csv_at_def csv_base_def)
  define p2 where "p2 = p1\<lparr>csv_snatched := (csv_snatched p1)[length f := Val NUL], csv_sn := NULL,
    csv_current_state := CSV_ST_SPACE_AFTER_QUOTE\<rparr>"
  have "csv_loop p1 [CR, LF] = Ok (Inr p2)"
    using p1(2) put(1) by (auto simp: csv_step_def csv_at_def csv_classes csv_put_def p2_def)
  from csv_loop_seq [OF p1(1) this] have run: "csv_loop p (csv_field f @ [CR, LF]) = Ok (Inr p2)" .
  have base: "csv_base N p2 fs" using p1(2) by (auto simp: csv_at_def csv_base_def p2_def)
  have "stores (csv_snatched p2) (f @ [NUL])" using put(2) by (simp add: p2_def)
  from csv_emit_ok [OF base this assms(3)] obtain l where
    l: "csv_emit p2 = Ok (p2\<lparr>csv_newlist := l\<rparr>)" "seq_rep l (map Ptr (fs @ [f]))" by blast
  have "csv_base N (p2\<lparr>csv_newlist := l\<rparr>) (fs @ [f])" using base l(2) by (simp add: csv_base_def)
  from csv_reset_ok [OF this] have rs: "csv_reset (p2\<lparr>csv_newlist := l\<rparr>) = Ok (p2\<lparr>csv_newlist := l,
      csv_snatched := (csv_snatched p2)[0 := Val NUL]\<rparr>)" by simp
  have sel: "csv_sn p2 = NULL" "csv_current_state p2 = CSV_ST_SPACE_AFTER_QUOTE" "p2\<lparr>csv_sn := NULL\<rparr> = p2"
    by (simp_all add: p2_def)
  have "csv_finish p2 = Ok (Inr (p2\<lparr>csv_newlist := l, csv_snatched := (csv_snatched p2)[0 := Val NUL]\<rparr>))"
    unfolding csv_finish_def csv_trim_def using sel(1,2) l(1) rs by (simp add: sel(3))
  then show ?thesis using run l(2) by auto
qed

lemma csv_plain_crlf:
  assumes "csv_start N p fs" "length (csv_field f) + 2 < N" "NUL \<notin> set f" "N \<le> 2 ^ 31" "\<not> needs_quotes f"
  shows "\<exists>p1 p2. csv_loop p (csv_field f @ [CR, LF]) = Ok (Inr p1) \<and> csv_finish p1 = Ok (Inr p2)
    \<and> seq_rep (csv_newlist p2) (map Ptr (fs @ [f]))"
proof -
  have f: "csv_field f = f" using assms(5) by (simp add: csv_field_def)
  let ?u = "f @ [CR, LF]"
  have cls: "\<forall>c \<in> set ?u. \<not> CSVCL_SEP c \<and> \<not> CSVCL_QUOTE c"
    using not_needs_quotes [OF assms(5)] by (auto simp: csv_classes)
  from csv_plain_start [OF assms(1) _ _ cls] assms(2) f obtain p1 where
    p1: "csv_loop p ?u = Ok (Inr p1)" "csv_at N p1 fs ?u plain_states" by auto
  define b where "b = (csv_snatched p1)[length ?u := Val NUL]"
  have lt: "length ?u < N" using assms(2) f by simp
  have nul: "NUL \<notin> set ?u" using assms(3) by auto
  have put: "csv_put NUL p1 = Ok (p1\<lparr>csv_snatched := b\<rparr>)" and st: "stores b (?u @ [NUL])" and len: "length b = N"
    using p1(2) lt stores_snoc [of "csv_snatched p1" ?u NUL] by (auto simp: csv_put_def csv_at_def csv_base_def b_def)
  have rd: "cstr_read b = Ok ?u" by (rule cstr_read_stores [OF st nul])
  define b' where "b' = b[length f := Val NUL]"
  have "int_of_size (length ?u) = int (length f) + 2" using lt assms(4) by (simp add: int_of_size_small)
  then have trim: "csv_trim (p1\<lparr>csv_snatched := b, csv_sn := NULL\<rparr>) = Ok (p1\<lparr>csv_snatched := b', csv_sn := NULL\<rparr>)"
    using p1(2) rd lt len by (auto simp: csv_trim_def csv_at_def b'_def Let_def nth_append nat_add_distrib)
  have "stores b' (f @ [NUL])"
    using stores_take [OF stores_update [OF st, of "length f" NUL], of "length f + 1"] by (simp add: b'_def)
  moreover have base: "csv_base N (p1\<lparr>csv_snatched := b', csv_sn := NULL\<rparr>) fs"
    using p1(2) len by (auto simp: csv_at_def csv_base_def b'_def)
  ultimately obtain l where
    l: "csv_emit (p1\<lparr>csv_snatched := b', csv_sn := NULL\<rparr>) = Ok (p1\<lparr>csv_snatched := b', csv_sn := NULL, csv_newlist := l\<rparr>)"
      "seq_rep l (map Ptr (fs @ [f]))" using csv_emit_ok [OF base _ assms(3)] by auto
  have "csv_base N (p1\<lparr>csv_snatched := b', csv_sn := NULL, csv_newlist := l\<rparr>) (fs @ [f])"
    using base l(2) by (simp add: csv_base_def)
  from csv_reset_ok [OF this] have "csv_finish p1 = Ok (Inr (p1\<lparr>csv_snatched := b'[0 := Val NUL], csv_sn := NULL, csv_newlist := l\<rparr>))"
    using p1(2) put trim l(1) by (auto simp: csv_finish_def csv_at_def)
  then show ?thesis using p1(1) l(2) f by auto
qed

lemma csv_field_crlf:
  assumes "csv_start N p fs" "length (csv_field f) + 2 < N" "NUL \<notin> set f" "N \<le> 2 ^ 31"
  shows "\<exists>p1 p2. csv_loop p (csv_field f @ [CR, LF]) = Ok (Inr p1) \<and> csv_finish p1 = Ok (Inr p2)
    \<and> seq_rep (csv_newlist p2) (map Ptr (fs @ [f]))"
  using csv_quoted_crlf [OF assms] csv_plain_crlf [OF assms] by blast

section \<open>Records\<close>

text \<open>What the writer produces for the fields of one record.\<close>

fun csv_line :: "string list \<Rightarrow> string" where
  "csv_line [] = []"
| "csv_line [f] = csv_field f"
| "csv_line (f # g # fs) = csv_field f @ CHR '','' # csv_line (g # fs)"

lemma csv_line_parse:
  "csv_start N p gs \<Longrightarrow> fs \<noteq> [] \<Longrightarrow> length (csv_line fs) + 2 < N \<Longrightarrow> N \<le> 2 ^ 31 \<Longrightarrow>
   \<forall>f \<in> set fs. NUL \<notin> set f \<Longrightarrow>
   \<exists>p1 p2. csv_loop p (csv_line fs @ [CR, LF]) = Ok (Inr p1) \<and> csv_finish p1 = Ok (Inr p2)
     \<and> seq_rep (csv_newlist p2) (map Ptr (gs @ fs))"
proof (induction fs arbitrary: p gs rule: csv_line.induct)
  case (2 f)
  then show ?case using csv_field_crlf [of N p gs f] by simp
next
  case (3 f g fs)
  from csv_field_sep [OF 3(2), of f] 3(4,6) obtain p' where
    p': "csv_loop p (csv_field f @ [CHR '','']) = Ok (Inr p')" "csv_start N p' (gs @ [f])" by auto
  from 3(1) [OF p'(2)] 3(4-6) obtain p1 p2 where
    p1: "csv_loop p' (csv_line (g # fs) @ [CR, LF]) = Ok (Inr p1)" "csv_finish p1 = Ok (Inr p2)"
      "seq_rep (csv_newlist p2) (map Ptr (gs @ f # g # fs))" by auto
  have "csv_line (f # g # fs) @ [CR, LF] = (csv_field f @ [CHR '','']) @ csv_line (g # fs) @ [CR, LF]" by simp
  then show ?case using csv_loop_seq [OF p'(1) p1(1)] p1(2,3) by metis
qed simp

lemma SeqParseCsvString_line:
  assumes "fs \<noteq> []" "\<forall>f \<in> set fs. NUL \<notin> set f" "length (csv_line fs) + 3 \<le> 2 ^ 31"
  shows "\<exists>l. SeqParseCsvString (Ptr (csv_line fs @ [CR, LF])) = Ok (Ptr l) \<and> seq_rep l (map Ptr fs)"
proof -
  let ?s = "csv_line fs @ [CR, LF]"
  define N where "N = length ?s + 1"
  define p where "p = \<lparr>csv_newlist = SeqNew 16 True :: string Seq, csv_snatched = (xmalloc N)[0 := Val NUL],
    csv_sn = Ptr 0, csv_current_state = CSV_ST_NEW_LINE\<rparr>"
  have "csv_start N p []" by (simp add: csv_start_def csv_base_def p_def N_def SeqNew_rep)
  from csv_line_parse [OF this assms(1)] assms(2,3) obtain p1 p2 where
    "csv_loop p ?s = Ok (Inr p1)" "csv_finish p1 = Ok (Inr p2)" "seq_rep (csv_newlist p2) (map Ptr fs)"
    by (auto simp: N_def)
  then show ?thesis
    by (simp add: SeqParseCsvString_def LaunchCsvAutomata_def csv_reset_def p_def N_def)
qed

text \<open>The writer, field by field and record by record.\<close>

definition csv_write_record :: "CsvWriter \<Rightarrow> string list \<Rightarrow> CsvWriter" where
  "csv_write_record cw fs = CsvWriterNewRecord (fold (\<lambda>f w. CsvWriterField w f) fs cw)"

definition csv_write :: "string list list \<Rightarrow> string" where
  "csv_write rs = CsvWriterClose (fold (\<lambda>fs w. csv_write_record w fs) rs (CsvWriterOpen []))"

lemma CsvWriterField_eq:
  "CsvWriterField cw f = cw\<lparr>cw_beginning_of_line := False,
     cw_w := cw_w cw @ (if cw_beginning_of_line cw then [] else [CHR '','']) @ csv_field f\<rparr>"
  by (cases cw) (auto simp: CsvWriterField_def csv_field_def WriteCsvEscapedString_def Let_def)

lemma csv_write_fields:
  "\<not> cw_beginning_of_line cw \<Longrightarrow> fold (\<lambda>f w. CsvWriterField w f) fs cw
    = cw\<lparr>cw_w := cw_w cw @ concat (map (\<lambda>f. CHR '','' # csv_field f) fs)\<rparr>"
proof (induction fs arbitrary: cw)
  case (Cons f fs)
  then show ?case by (cases cw) (simp add: CsvWriterField_eq)
qed simp

lemma csv_line_Cons: "csv_line (f # fs) = csv_field f @ concat (map (\<lambda>f. CHR '','' # csv_field f) fs)"
  by (induction fs arbitrary: f) auto

lemma csv_write_record_eq:
  "cw_beginning_of_line cw \<Longrightarrow> fs \<noteq> [] \<Longrightarrow>
   csv_write_record cw fs = cw\<lparr>cw_w := cw_w cw @ csv_line fs @ [CR, LF], cw_beginning_of_line := True\<rparr>"
proof (cases fs)
  case (Cons f gs)
  assume "cw_beginning_of_line cw"
  then have f: "CsvWriterField cw f = cw\<lparr>cw_beginning_of_line := False, cw_w := cw_w cw @ csv_field f\<rparr>"
    by (simp add: CsvWriterField_eq)
  show ?thesis
    by (simp add: Cons csv_write_record_def f csv_write_fields CsvWriterNewRecord_def csv_line_Cons)
qed simp

lemma csv_write_eq:
  assumes "\<forall>fs \<in> set rs. fs \<noteq> []"
  shows "csv_write rs = concat (map (\<lambda>fs. csv_line fs @ [CR, LF]) rs)"
proof -
  have "cw_beginning_of_line cw \<Longrightarrow> fold (\<lambda>fs w. csv_write_record w fs) rs cw
    = cw\<lparr>cw_w := cw_w cw @ concat (map (\<lambda>fs. csv_line fs @ [CR, LF]) rs)\<rparr>" for cw
    using assms
  proof (induction rs arbitrary: cw)
    case (Cons fs rs)
    then show ?case by (cases cw) (simp add: csv_write_record_eq)
  qed simp
  then show ?thesis
    by (simp add: csv_write_def CsvWriterOpen_def CsvWriterOpenSpecifyTerminate_def CsvWriterClose_def)
qed

section \<open>Lines\<close>

text \<open>GetCsvLineNext passes over fields and separators and stops after the line end of the record.\<close>

lemma line_plain:
  "(\<forall>c \<in> set s. c \<noteq> CHR 0x22 \<and> c \<noteq> LF) \<Longrightarrow>
   GetCsvLineNext_loop q prev (s @ t) = apfst ((@) s) (GetCsvLineNext_loop q (last (prev # s)) t)"
  by (induction s arbitrary: prev) (auto simp: case_prod_unfold apfst_def map_prod_def)

lemma line_escaped:
  "GetCsvLineNext_loop True prev (WriteCsvEscapedString_loop s @ CHR 0x22 # t)
   = apfst ((@) (WriteCsvEscapedString_loop s @ [CHR 0x22])) (GetCsvLineNext_loop False (CHR 0x22) t)"
  by (induction s arbitrary: prev) (auto simp: case_prod_unfold apfst_def map_prod_def Let_def)

lemma line_field:
  "\<exists>prev'. GetCsvLineNext_loop False prev (csv_field f @ t)
     = apfst ((@) (csv_field f)) (GetCsvLineNext_loop False prev' t)"
proof (cases "needs_quotes f")
  case True
  then show ?thesis using line_escaped [of "CHR 0x22" f t]
    by (intro exI [of _ "CHR 0x22"]) (simp add: csv_field_def WriteCsvEscapedString_def apfst_def map_prod_def case_prod_unfold)
next
  case False
  then have "\<forall>c \<in> set f. c \<noteq> CHR 0x22 \<and> c \<noteq> LF" by (auto simp: needs_quotes_def)
  from line_plain [OF this, of False prev t] False show ?thesis by (auto simp: csv_field_def)
qed

lemma line_record:
  "GetCsvLineNext_loop False prev (csv_line fs @ CR # LF # t) = (csv_line fs @ [CR, LF], t)"
proof (induction fs arbitrary: prev rule: csv_line.induct)
  case 1
  show ?case by simp
next
  case (2 f)
  from line_field [of prev f "CR # LF # t"] show ?case by auto
next
  case (3 f g fs)
  from line_field [of prev f "CHR '','' # csv_line (g # fs) @ CR # LF # t"] 3 show ?case
    by (auto simp: case_prod_unfold)
qed

text \<open>Reading all records of a file: each line with GetCsvLineNext, then SeqParseCsvString.\<close>

function csv_read :: "string \<Rightarrow> string Seq list option res" where
  "csv_read input = (case GetCsvLineNext (Ptr input) of
     (NULL, _) \<Rightarrow> Ok (Some [])
   | (Ptr line, rest) \<Rightarrow>
       if length rest < length input
       then bindE (SeqParseCsvString (Ptr line)) (\<lambda>l.
            bindE (csv_read rest) (\<lambda>ls. Ok (case (l, ls) of (Ptr x, Some xs) \<Rightarrow> Some (x # xs) | _ \<Rightarrow> None)))
       else Ok None)"
  by pat_completeness auto
termination
  by (relation "measure length") auto

declare csv_read.simps [simp del]

lemma csv_read_Cons:
  "csv_read (csv_line fs @ CR # LF # t) = bindE (SeqParseCsvString (Ptr (csv_line fs @ [CR, LF]))) (\<lambda>l.
     bindE (csv_read t) (\<lambda>ls. Ok (case (l, ls) of (Ptr x, Some xs) \<Rightarrow> Some (x # xs) | _ \<Rightarrow> None)))"
  by (subst csv_read.simps) (simp add: GetCsvLineNext_def line_record)

definition csv_record_ok :: "string list \<Rightarrow> bool" where
  "csv_record_ok fs \<longleftrightarrow> fs \<noteq> [] \<and> (\<forall>f \<in> set fs. NUL \<notin> set f) \<and> length (csv_line fs) + 3 \<le> 2 ^ 31"

lemma csv_read_lines:
  "\<forall>fs \<in> set rs. csv_record_ok fs \<Longrightarrow>
   \<exists>ls. csv_read (concat (map (\<lambda>fs. csv_line fs @ [CR, LF]) rs)) = Ok (Some ls)
     \<and> list_all2 (\<lambda>l fs. seq_rep l (map Ptr fs)) ls rs"
proof (induction rs)
  case Nil
  show ?case by (simp add: csv_read.simps [of "[]"] GetCsvLineNext_def)
next
  case (Cons fs rs)
  then obtain ls where
    ls: "csv_read (concat (map (\<lambda>fs. csv_line fs @ [CR, LF]) rs)) = Ok (Some ls)"
      "list_all2 (\<lambda>l fs. seq_rep l (map Ptr fs)) ls rs" by auto
  from Cons.prems SeqParseCsvString_line [of fs] obtain l where
    l: "SeqParseCsvString (Ptr (csv_line fs @ [CR, LF])) = Ok (Ptr l)" "seq_rep l (map Ptr fs)"
    by (auto simp: csv_record_ok_def)
  show ?case using ls l by (simp add: csv_read_Cons)
qed

text \<open>
  C28: a CSV document written with CsvWriterOpen, CsvWriterField, CsvWriterNewRecord and CsvWriterClose
  is read back, line by line with GetCsvLineNext and SeqParseCsvString, as the records that were
  written: every record is a fresh list of exactly its fields, whatever commas, quotes, spaces and line
  ends the fields hold. Records have at least one field, fields are C strings, and the text of a record
  fits an \<open>int\<close>.
\<close>

theorem csv_roundtrip:
  assumes "\<forall>fs \<in> set rs. csv_record_ok fs"
  shows "\<exists>ls. csv_read (csv_write rs) = Ok (Some ls) \<and> list_all2 (\<lambda>l fs. seq_rep l (map Ptr fs)) ls rs"
  using csv_read_lines [OF assms] csv_write_eq [of rs] assms by (auto simp: csv_record_ok_def)

theorem csv_roundtrip_witness:
  "\<exists>ls. csv_read (csv_write [[''a,b'', [], '' c''], [[CHR 0x22, CR, LF]]]) = Ok (Some ls)
     \<and> list_all2 (\<lambda>l fs. seq_rep l (map Ptr fs)) ls [[''a,b'', [], '' c''], [[CHR 0x22, CR, LF]]]"
  by (rule csv_roundtrip)
     (simp add: csv_record_ok_def csv_field_def WriteCsvEscapedString_def needs_quotes_def)

section \<open>Records without a line end\<close>

text \<open>
  After a quoted field and its separator the text of the field stays in the block; the code behind the
  loop takes it for the field after the separator.
\<close>

lemma csv_quoted_sep_end:
  assumes "csv_start N p fs" "needs_quotes f" "length (csv_field f) < N" "NUL \<notin> set f"
  shows "\<exists>p1 p2. csv_loop p (csv_field f @ [CHR '','']) = Ok (Inr p1) \<and> csv_finish p1 = Ok (Inr p2)
    \<and> seq_rep (csv_newlist p2) (map Ptr (fs @ [f, f]))"
proof -
  from csv_quoted_field [OF assms(1-3)] obtain p1 where
    p1: "csv_loop p (csv_field f) = Ok (Inr p1)" "csv_at N p1 fs f {CSV_ST_INTERNAL_QUOTE}" by blast
  have "length f < N" using assms(2,3) length_escaped [of f]
    by (simp add: csv_field_def WriteCsvEscapedString_def)
  from csv_terminate [OF p1(2) this assms(4)] obtain p2 l where
    p2: "csv_put NUL p1 = Ok p2" "csv_emit p2 = Ok (p2\<lparr>csv_newlist := l\<rparr>)"
      "csv_base N (p2\<lparr>csv_newlist := l\<rparr>) (fs @ [f])" "stores (csv_snatched p2) (f @ [NUL])" by blast
  define p3 where "p3 = p2\<lparr>csv_newlist := l, csv_sn := NULL, csv_current_state := CSV_ST_SEPARATOR\<rparr>"
  have "csv_loop p1 [CHR '',''] = Ok (Inr p3)"
    using p1(2) p2(1,2) by (auto simp: csv_step_def csv_at_def CSVCL_SEP_def p3_def)
  from csv_loop_seq [OF p1(1) this] have run: "csv_loop p (csv_field f @ [CHR '','']) = Ok (Inr p3)" .
  have p3: "csv_base N p3 (fs @ [f])" "stores (csv_snatched p3) (f @ [NUL])" "csv_sn p3 = NULL"
    "csv_current_state p3 = CSV_ST_SEPARATOR" "p3\<lparr>csv_sn := NULL\<rparr> = p3"
    using p2(3,4) by (auto simp: p3_def csv_base_def)
  from csv_emit_ok [OF p3(1,2) assms(4)] obtain l' where
    l': "csv_emit p3 = Ok (p3\<lparr>csv_newlist := l'\<rparr>)" "seq_rep l' (map Ptr (fs @ [f, f]))" by auto
  have "csv_base N (p3\<lparr>csv_newlist := l'\<rparr>) (fs @ [f, f])" using p3(1) l'(2) by (simp add: csv_base_def)
  from csv_reset_ok [OF this] have "csv_finish p3
    = Ok (Inr (p3\<lparr>csv_newlist := l', csv_snatched := (csv_snatched p3)[0 := Val NUL]\<rparr>))"
    using p3(3,4) l'(1) by (simp add: csv_finish_def csv_trim_def p3(5))
  then show ?thesis using run l'(2) by auto
qed

text \<open>The text of one record written without its line end.\<close>

definition csv_write_last :: "string list \<Rightarrow> string" where
  "csv_write_last fs = CsvWriterClose (fold (\<lambda>f w. CsvWriterField w f) fs (CsvWriterOpenSpecifyTerminate [] False))"

text \<open>
  a record of a quoted field and an empty field, written by a CsvWriter that does not terminate
  the last line, is read back as the quoted field twice: on a separator after a closing quote the
  automaton leaves the field in its buffer, and the code at the end of the input appends the buffer.
\<close>

theorem csv_empty_last_field:
  assumes "needs_quotes f" "NUL \<notin> set f"
  shows "\<exists>l. SeqParseCsvString (Ptr (csv_write_last [f, []])) = Ok (Ptr l) \<and> seq_rep l [Ptr f, Ptr f]"
proof -
  have w: "csv_write_last [f, []] = csv_field f @ [CHR '','']"
    by (simp add: csv_write_last_def CsvWriterOpenSpecifyTerminate_def CsvWriterClose_def CsvWriterField_eq
      csv_field_def [of "[]"] needs_quotes_def)
  define N where "N = length (csv_field f @ [CHR '','']) + 1"
  define p where "p = \<lparr>csv_newlist = SeqNew 16 True :: string Seq, csv_snatched = (xmalloc N)[0 := Val NUL],
    csv_sn = Ptr 0, csv_current_state = CSV_ST_NEW_LINE\<rparr>"
  have "csv_start N p []" by (simp add: csv_start_def csv_base_def p_def N_def SeqNew_rep)
  from csv_quoted_sep_end [OF this assms(1) _ assms(2)] obtain p1 p2 where
    "csv_loop p (csv_field f @ [CHR '','']) = Ok (Inr p1)" "csv_finish p1 = Ok (Inr p2)"
    "seq_rep (csv_newlist p2) (map Ptr [f, f])" by (auto simp: N_def)
  then show ?thesis
    by (simp add: w SeqParseCsvString_def LaunchCsvAutomata_def csv_reset_def p_def N_def)
qed

theorem csv_empty_last_field_witness:
  "\<exists>l. SeqParseCsvString (Ptr (csv_write_last [''a,b'', []])) = Ok (Ptr l) \<and> seq_rep l [Ptr ''a,b'', Ptr ''a,b'']"
  by (rule csv_empty_last_field) (simp_all add: needs_quotes_def)

text \<open>
  a quoted field followed by a single space and a separator is never terminated in the buffer: as
  the first field of a line its copy is read past the characters written so far, from memory that
  malloc left uninitialised.
\<close>

theorem csv_space_after_quote_unterminated:
  "SeqParseCsvString (Ptr (CHR 0x22 # CHR ''x'' # CHR 0x22 # '' ,y'')) = Fault UninitRead"
  by code_simp

end
