(* ===== verification/VersionLib.thy ===== *)
theory VersionLib
  imports CLib
begin

text \<open>
  libutils/version_comparison.c: comparison of version numbers with one to three components. A number
  that does not fit an \<open>int\<close> makes the behaviour of \<open>sscanf\<close> undefined; here it is a fault.
\<close>

datatype VersionComparison = VERSION_SMALLER | VERSION_EQUAL | VERSION_GREATER | VERSION_ERROR

datatype BooleanOrError = BOOLEAN_ERROR | BOOLEAN_FALSE | BOOLEAN_TRUE

section \<open>Definitions\<close>

text \<open>
  \<open>sscanf (s, "%d.%d.%d", ...)\<close>: a conversion, then a dot and a conversion up to twice. The list
  holds the numbers converted; its length is the result of \<open>sscanf\<close> (EOF, which the callers treat as
  0, when the text ends before the first conversion).
\<close>

definition scan_d :: "string \<Rightarrow> (int \<times> string) option res" where
  "scan_d s = (case scan_decimal s of
     None \<Rightarrow> Ok None
   | Some (v, rest) \<Rightarrow> if INT_MIN \<le> v \<and> v \<le> INT_MAX then Ok (Some (v, rest)) else Fault SignedOverflow)"

fun sscanf_dotted :: "nat \<Rightarrow> string \<Rightarrow> int list res" where
  "sscanf_dotted 0 s = Ok []"
| "sscanf_dotted (Suc n) s =
     bindE (scan_d s) (\<lambda>r. case r of
       None \<Rightarrow> Ok []
     | Some (v, rest) \<Rightarrow>
         (case rest of
            [] \<Rightarrow> Ok [v]
          | c # t \<Rightarrow> if c = CHR ''.'' then bindE (sscanf_dotted n t) (\<lambda>vs. Ok (v # vs)) else Ok [v]))"

text \<open>Variables start at 0 and are set by the conversions.\<close>

definition component :: "int list \<Rightarrow> nat \<Rightarrow> int" where
  "component vs i = (if i < length vs then vs ! i else 0)"

definition CompareVersion :: "string \<Rightarrow> string \<Rightarrow> VersionComparison res" where
  "CompareVersion a b =
     bindE (sscanf_dotted 3 a) (\<lambda>av.
     let a_num = length av; a_major = component av 0; a_minor = component av 1; a_patch = component av 2
     in if a_num < 1 \<or> a_num > 3 then Ok VERSION_ERROR else
     bindE (sscanf_dotted 3 b) (\<lambda>bv.
     let b_num = length bv; b_major = component bv 0; b_minor = component bv 1; b_patch = component bv 2
     in if b_num < 1 \<or> b_num > 3 then Ok VERSION_ERROR
     else if a_major > b_major then Ok VERSION_GREATER
     else if a_major < b_major then Ok VERSION_SMALLER
     else bindE (c_assert (a_major = b_major)) (\<lambda>_.
     if a_num = 1 \<or> b_num = 1 then Ok VERSION_EQUAL
     else bindE (c_assert (a_num \<ge> 2 \<and> b_num \<ge> 2)) (\<lambda>_.
     if a_minor < b_minor then Ok VERSION_SMALLER
     else if a_minor > b_minor then Ok VERSION_GREATER
     else bindE (c_assert (a_minor = b_minor)) (\<lambda>_.
     if a_num = 2 \<or> b_num = 2 then Ok VERSION_EQUAL
     else bindE (c_assert (a_num = 3 \<and> b_num = 3)) (\<lambda>_.
     if a_patch < b_patch then Ok VERSION_SMALLER
     else if a_patch > b_patch then Ok VERSION_GREATER
     else bindE (c_assert (a_patch = b_patch)) (\<lambda>_. Ok VERSION_EQUAL)))))))"

definition to_boolean :: "bool \<Rightarrow> BooleanOrError" where
  "to_boolean b = (if b then BOOLEAN_TRUE else BOOLEAN_FALSE)"

definition CompareVersionExpression :: "string \<Rightarrow> string \<Rightarrow> string \<Rightarrow> BooleanOrError res" where
  "CompareVersionExpression a operator b =
     bindE (CompareVersion a b) (\<lambda>r.
     if r = VERSION_ERROR then Ok BOOLEAN_ERROR else
     bindE (StringEqual (Ptr operator) (Ptr ''='')) (\<lambda>eq1. bindE (StringEqual (Ptr operator) (Ptr ''=='')) (\<lambda>eq2.
     if eq1 \<or> eq2 then Ok (to_boolean (r = VERSION_EQUAL)) else
     bindE (StringEqual (Ptr operator) (Ptr ''>'')) (\<lambda>gt. if gt then Ok (to_boolean (r = VERSION_GREATER)) else
     bindE (StringEqual (Ptr operator) (Ptr ''<'')) (\<lambda>lt. if lt then Ok (to_boolean (r = VERSION_SMALLER)) else
     bindE (StringEqual (Ptr operator) (Ptr ''>='')) (\<lambda>ge.
       if ge then Ok (to_boolean (r = VERSION_GREATER \<or> r = VERSION_EQUAL)) else
     bindE (StringEqual (Ptr operator) (Ptr ''<='')) (\<lambda>le.
       if le then Ok (to_boolean (r = VERSION_SMALLER \<or> r = VERSION_EQUAL)) else
     bindE (StringEqual (Ptr operator) (Ptr ''!='')) (\<lambda>ne.
       if ne then Ok (to_boolean (r \<noteq> VERSION_EQUAL)) else Ok BOOLEAN_ERROR))))))))"

section \<open>Reference: component-wise comparison\<close>

text \<open>
  The documented meaning on lists of numbers: the components both versions have, compared from left
  to right; the comparison operators as relations.
\<close>

fun version_cmp :: "int list \<Rightarrow> int list \<Rightarrow> VersionComparison" where
  "version_cmp (x # xs) (y # ys) =
     (if x < y then VERSION_SMALLER else if y < x then VERSION_GREATER else version_cmp xs ys)"
| "version_cmp _ _ = VERSION_EQUAL"

definition version_op :: "string \<Rightarrow> VersionComparison \<Rightarrow> bool option" where
  "version_op operator r =
     map_of [(''='', r = VERSION_EQUAL), (''=='', r = VERSION_EQUAL), (''!='', r \<noteq> VERSION_EQUAL),
       (''>'', r = VERSION_GREATER), (''<'', r = VERSION_SMALLER),
       (''>='', r \<noteq> VERSION_SMALLER), (''<='', r \<noteq> VERSION_GREATER)] operator"

text \<open>The text of a version number.\<close>

fun version_text :: "int list \<Rightarrow> string" where
  "version_text [] = []"
| "version_text [v] = fmt_int v"
| "version_text (v # w # vs) = fmt_int v @ CHR ''.'' # version_text (w # vs)"

definition version_ok :: "int list \<Rightarrow> bool" where
  "version_ok vs \<longleftrightarrow> vs \<noteq> [] \<and> length vs \<le> 3 \<and> (\<forall>v \<in> set vs. INT_MIN \<le> v \<and> v \<le> INT_MAX)"

lemma scan_d_fmt:
  "INT_MIN \<le> v \<Longrightarrow> v \<le> INT_MAX \<Longrightarrow> ends_number rest \<Longrightarrow> scan_d (fmt_int v @ rest) = Ok (Some (v, rest))"
  by (simp add: scan_d_def scan_decimal_fmt)

lemma sscanf_version_text:
  "\<forall>v \<in> set vs. INT_MIN \<le> v \<and> v \<le> INT_MAX \<Longrightarrow> vs \<noteq> [] \<Longrightarrow> length vs \<le> n \<Longrightarrow> sscanf_dotted n (version_text vs) = Ok vs"
proof (induction vs arbitrary: n rule: version_text.induct)
  case (2 v)
  then show ?case using scan_d_fmt [of v "[]"] by (cases n) (auto simp: ends_number_def)
next
  case (3 v w vs)
  then obtain m where n: "n = Suc m" by (cases n) auto
  have "ends_number (CHR ''.'' # version_text (w # vs))" by (simp add: ends_number_def isdigit_def)
  with 3 scan_d_fmt [of v "CHR ''.'' # version_text (w # vs)"] show ?case by (simp add: n)
qed simp

lemma version_cmp_no_error [simp]: "version_cmp a b \<noteq> VERSION_ERROR"
  by (induction a b rule: version_cmp.induct) auto

lemma version_shapes:
  "version_ok vs \<Longrightarrow> (\<exists>x. vs = [x]) \<or> (\<exists>x y. vs = [x, y]) \<or> (\<exists>x y z. vs = [x, y, z])"
  by (cases vs rule: remdups_adj.cases; cases "tl (tl vs)") (auto simp: version_ok_def)

lemma CompareVersion_cmp:
  assumes "version_ok av" "version_ok bv"
  shows "CompareVersion (version_text av) (version_text bv) = Ok (version_cmp av bv)"
proof -
  have av: "sscanf_dotted 3 (version_text av) = Ok av" and bv: "sscanf_dotted 3 (version_text bv) = Ok bv"
    using assms sscanf_version_text by (auto simp: version_ok_def)
  show ?thesis using version_shapes [OF assms(1)] version_shapes [OF assms(2)]
    using av bv
    by (elim disjE exE; hypsubst) (simp_all only: CompareVersion_def, simp_all add: component_def)
qed

lemma CompareVersionExpression_op:
  "CompareVersion a b = Ok r \<Longrightarrow> r \<noteq> VERSION_ERROR \<Longrightarrow>
   CompareVersionExpression a operator b
     = Ok (case version_op operator r of None \<Rightarrow> BOOLEAN_ERROR | Some t \<Rightarrow> to_boolean t)"
  by (cases r) (simp_all add: CompareVersionExpression_def StringEqual_iff version_op_def)

section \<open>Properties\<close>

text \<open>
  C31: on the text of version numbers with one to three components CompareVersionExpression agrees
  with the reference: the operators are evaluated on the left-to-right comparison of the components
  both numbers have, and any other operator is an error.
\<close>

theorem CompareVersionExpression_reference:
  assumes "version_ok av" "version_ok bv"
  shows "CompareVersionExpression (version_text av) operator (version_text bv)
    = Ok (case version_op operator (version_cmp av bv) of None \<Rightarrow> BOOLEAN_ERROR | Some t \<Rightarrow> to_boolean t)"
  by (rule CompareVersionExpression_op [OF CompareVersion_cmp [OF assms]]) simp

theorem CompareVersionExpression_reference_witness:
  "CompareVersionExpression (version_text [3, 12]) ''<='' (version_text [3, 9, 1]) = Ok BOOLEAN_FALSE"
  using CompareVersionExpression_reference [of "[3, 12]" "[3, 9, 1]" "''<=''"]
  by (simp add: version_ok_def c_limits version_op_def to_boolean_def)

end
