(* ===== verification/WriterLib.thy ===== *)
theory WriterLib
  imports StringBuf
begin

text \<open>
  libutils/writer.c and libutils/xml_writer.c. A writer appends to a growing block (WT\_STRING) or to a
  file (WT\_FILE); a file is the text written to it so far, and writing to it succeeds. The printf-like
  functions take the formatted text.
\<close>

section \<open>Writers\<close>

record StringWriterImpl =
  sw_data :: "char carray"
  sw_len :: nat
  sw_allocated :: nat

datatype Writer = WT_STRING StringWriterImpl | WT_FILE string

definition FileWriter :: "string \<Rightarrow> Writer" where
  "FileWriter file = WT_FILE file"

definition StringWriter :: Writer where
  "StringWriter = WT_STRING \<lparr>sw_data = [Val (CHR 0x00)], sw_len = 0, sw_allocated = 1\<rparr>"

definition StringWriterReallocate :: "StringWriterImpl \<Rightarrow> nat \<Rightarrow> StringWriterImpl" where
  "StringWriterReallocate w extra_length =
     (let allocated = max (sw_allocated w * 2) (sw_len w + extra_length + 1)
      in w\<lparr>sw_allocated := allocated, sw_data := xrealloc (sw_data w) allocated\<rparr>)"

definition StringWriterWriteChar :: "StringWriterImpl \<Rightarrow> char \<Rightarrow> (nat \<times> StringWriterImpl) res" where
  "StringWriterWriteChar w0 c =
     (let w = (if sw_len w0 + 2 > sw_allocated w0 then StringWriterReallocate w0 2 else w0)
      in bindE (cwrite (sw_data w) (sw_len w) c) (\<lambda>d1.
         bindE (cwrite d1 (sw_len w + 1) (CHR 0x00)) (\<lambda>d2.
         Ok (1, w\<lparr>sw_data := d2, sw_len := sw_len w + 1\<rparr>))))"

text \<open>\<open>strnlen\<close> of a C string with a limit.\<close>

definition StringWriterWriteLen :: "StringWriterImpl \<Rightarrow> string \<Rightarrow> nat \<Rightarrow> (nat \<times> StringWriterImpl) res" where
  "StringWriterWriteLen w0 str max_len =
     (let len = min (length str) max_len;
          w = (if sw_len w0 + len + 1 > sw_allocated w0 then StringWriterReallocate w0 len else w0)
      in bindE (cwrite_range (sw_data w) (sw_len w) (take len str)) (\<lambda>d1.
         bindE (cwrite d1 (sw_len w + len) (CHR 0x00)) (\<lambda>d2.
         Ok (len, w\<lparr>sw_data := d2, sw_len := sw_len w + len\<rparr>))))"

definition FileWriterWriteLen :: "string \<Rightarrow> string \<Rightarrow> nat \<Rightarrow> nat \<times> string" where
  "FileWriterWriteLen file str max_len = (let len = min (length str) max_len in (len, file @ take len str))"

definition WriterWriteLen :: "Writer ptr \<Rightarrow> string \<Rightarrow> nat \<Rightarrow> (nat \<times> Writer) res" where
  "WriterWriteLen writer str len = (case writer of
     NULL \<Rightarrow> Fault AssertFail
   | Ptr (WT_STRING w) \<Rightarrow> bindE (StringWriterWriteLen w str len) (\<lambda>(n, w'). Ok (n, WT_STRING w'))
   | Ptr (WT_FILE f) \<Rightarrow> (let (n, f') = FileWriterWriteLen f str len in Ok (n, WT_FILE f')))"

definition WriterWrite :: "Writer ptr \<Rightarrow> string \<Rightarrow> (nat \<times> Writer) res" where
  "WriterWrite writer str = WriterWriteLen writer str (2 ^ 31 - 1)"

definition WriterWriteF :: "Writer ptr \<Rightarrow> string \<Rightarrow> (nat \<times> Writer) res" where
  "WriterWriteF writer text = (case writer of
     NULL \<Rightarrow> Fault AssertFail
   | Ptr (WT_STRING w) \<Rightarrow> bindE (StringWriterWriteLen w text (2 ^ 31 - 1)) (\<lambda>(n, w'). Ok (n, WT_STRING w'))
   | Ptr (WT_FILE f) \<Rightarrow> Ok (length text, WT_FILE (f @ text)))"

definition WriterWriteChar :: "Writer ptr \<Rightarrow> char \<Rightarrow> (nat \<times> Writer) res" where
  "WriterWriteChar writer c = (case writer of
     NULL \<Rightarrow> Fault AssertFail
   | Ptr (WT_STRING w) \<Rightarrow> bindE (StringWriterWriteChar w c) (\<lambda>(n, w'). Ok (n, WT_STRING w'))
   | Ptr (WT_FILE f) \<Rightarrow>
       (let (n, f') = FileWriterWriteLen f (c_string [c]) 1 in Ok (n, WT_FILE f')))"

text \<open>ProgrammingError aborts the process.\<close>

definition StringWriterLength :: "Writer ptr \<Rightarrow> nat res" where
  "StringWriterLength writer = (case writer of
     Ptr (WT_STRING w) \<Rightarrow> Ok (sw_len w)
   | _ \<Rightarrow> Fault AssertFail)"

definition StringWriterData :: "Writer ptr \<Rightarrow> char carray res" where
  "StringWriterData writer = (case writer of
     Ptr (WT_STRING w) \<Rightarrow> Ok (sw_data w)
   | _ \<Rightarrow> Fault AssertFail)"

definition StringWriterClose :: "Writer ptr \<Rightarrow> char carray res" where
  "StringWriterClose writer = (case writer of
     Ptr (WT_STRING w) \<Rightarrow> Ok (sw_data w)
   | _ \<Rightarrow> Fault AssertFail)"

definition FileWriterDetach :: "Writer ptr \<Rightarrow> string res" where
  "FileWriterDetach writer = (case writer of
     Ptr (WT_FILE f) \<Rightarrow> Ok f
   | _ \<Rightarrow> Fault AssertFail)"

section \<open>Help texts\<close>

text \<open>The conversion \<open>%-12s\<close> pads with blanks on the right.\<close>

definition pad_right :: "nat \<Rightarrow> string \<Rightarrow> string" where
  "pad_right n s = s @ replicate (n - length s) (CHR '' '')"

record coption =
  opt_name :: string
  opt_has_arg :: bool
  opt_val :: int

record Description =
  d_name :: string
  d_description :: string
  d_usage :: string

record Component =
  c_name :: string
  c_website :: "string ptr"
  c_copyright :: "string ptr"

fun WriterWriteOptions_loop :: "Writer \<Rightarrow> coption list \<Rightarrow> string list \<Rightarrow> Writer res" where
  "WriterWriteOptions_loop w [] hints = Ok w"
| "WriterWriteOptions_loop w (opt # options) [] = Fault OutOfBounds"
| "WriterWriteOptions_loop w (opt # options) (hint # hints) =
     (let short_option = (if opt_val opt < 128 \<and> opt_val opt > 0 then '', -'' @ [char_of (nat (opt_val opt))] else [])
      in bindE
           (if opt_has_arg opt
            then WriterWriteF (Ptr w) (''  --'' @ pad_right 12 (opt_name opt) @ short_option @ '' value - '' @ hint @ [CHR 0x0A])
            else WriterWriteF (Ptr w) (''  --'' @ pad_right 12 (opt_name opt) @ pad_right 10 short_option @ '' - '' @ hint @ [CHR 0x0A]))
           (\<lambda>(_, w'). WriterWriteOptions_loop w' options hints))"

definition WriterWriteOptions :: "Writer \<Rightarrow> coption list \<Rightarrow> string list \<Rightarrow> Writer res" where
  "WriterWriteOptions w options hints =
     bindE (WriterWriteF (Ptr w) ([CHR 0x0A] @ ''Options:'' @ [CHR 0x0A])) (\<lambda>(_, w').
     WriterWriteOptions_loop w' options hints)"

fun WriterWriteCommands_loop :: "Writer \<Rightarrow> Description list \<Rightarrow> Writer res" where
  "WriterWriteCommands_loop w [] = Ok w"
| "WriterWriteCommands_loop w (c # commands) =
     bindE (WriterWriteF (Ptr w) (''  '' @ pad_right 12 (d_name c) @ '' - '' @ d_description c @ ''.'' @ [CHR 0x0A])) (\<lambda>(_, w1).
     bindE (WriterWriteF (Ptr w1) (''  '' @ pad_right 12 [] @ ''   Usage: '' @ d_usage c @ [CHR 0x0A])) (\<lambda>(_, w2).
     WriterWriteCommands_loop w2 commands))"

definition WriterWriteCommands :: "Writer \<Rightarrow> Description list \<Rightarrow> Writer res" where
  "WriterWriteCommands w commands =
     bindE (WriterWriteF (Ptr w) ([CHR 0x0A] @ ''Commands:'' @ [CHR 0x0A])) (\<lambda>(_, w').
     WriterWriteCommands_loop w' commands)"

definition WriterWriteHelp ::
  "Writer \<Rightarrow> Component \<Rightarrow> coption list \<Rightarrow> string list \<Rightarrow> Description list ptr \<Rightarrow> bool \<Rightarrow> bool \<Rightarrow> Writer res" where
  "WriterWriteHelp w component options hints commands command_first accepts_file_argument =
     bindE (WriterWriteF (Ptr w) (''Usage: '' @ c_name component
       @ (if commands \<noteq> NULL \<and> command_first then '' COMMAND'' else []) @ '' [OPTIONS]''
       @ (if commands \<noteq> NULL \<and> \<not> command_first then '' COMMAND'' else [])
       @ (if accepts_file_argument then '' [FILE]'' else []) @ [CHR 0x0A])) (\<lambda>(_, w1).
     bindE (case commands of Ptr cs \<Rightarrow> if command_first then WriterWriteCommands w1 cs else Ok w1 | NULL \<Rightarrow> Ok w1) (\<lambda>w2.
     bindE (WriterWriteOptions w2 options hints) (\<lambda>w3.
     bindE (case commands of Ptr cs \<Rightarrow> if \<not> command_first then WriterWriteCommands w3 cs else Ok w3 | NULL \<Rightarrow> Ok w3) (\<lambda>w4.
     bindE (case c_website component of
         Ptr site \<Rightarrow> bindE (WriterWriteF (Ptr w4) ([CHR 0x0A] @ ''Website: '' @ site @ [CHR 0x0A])) (\<lambda>(_, w'). Ok w')
       | NULL \<Rightarrow> Ok w4) (\<lambda>w5.
     case c_copyright component of
         Ptr c \<Rightarrow> bindE (WriterWriteF (Ptr w5) (''This software is Copyright '' @ c @ ''.'' @ [CHR 0x0A])) (\<lambda>(_, w'). Ok w')
       | NULL \<Rightarrow> Ok w5)))))"

section \<open>XML\<close>

fun WriteEscaped :: "Writer \<Rightarrow> string \<Rightarrow> Writer res" where
  "WriteEscaped w [] = Ok w"
| "WriteEscaped w (s # source) =
     bindE (if s = CHR ''&'' then WriterWrite (Ptr w) ''&amp;''
            else if s = CHR ''>'' then WriterWrite (Ptr w) ''&gt;''
            else if s = CHR 0x22 then WriterWrite (Ptr w) ''&quot;''
            else if s = CHR 0x27 then WriterWrite (Ptr w) ''&apos;''
            else if s = CHR ''<'' then WriterWrite (Ptr w) ''&lt;''
            else WriterWriteChar (Ptr w) s) (\<lambda>(_, w'). WriteEscaped w' source)"

definition XmlComment :: "Writer ptr \<Rightarrow> string \<Rightarrow> Writer res" where
  "XmlComment writer comment = (case writer of
     NULL \<Rightarrow> Fault AssertFail
   | Ptr w \<Rightarrow>
       bindE (WriterWrite (Ptr w) ''<!-- '') (\<lambda>(_, w1).
       bindE (WriteEscaped w1 comment) (\<lambda>w2.
       bindE (WriterWrite (Ptr w2) ('' -->'' @ [CHR 0x0A])) (\<lambda>(_, w3). Ok w3))))"

fun XmlEmitAttributes :: "Writer \<Rightarrow> (string \<times> string) list \<Rightarrow> Writer res" where
  "XmlEmitAttributes w [] = Ok w"
| "XmlEmitAttributes w ((name, val) # attrs) =
     bindE (WriterWriteF (Ptr w) (name @ ''='' @ [CHR 0x22] @ val @ [CHR 0x22] @ '' '')) (\<lambda>(_, w'). XmlEmitAttributes w' attrs)"

definition XmlEmitStartTag :: "Writer \<Rightarrow> string \<Rightarrow> (string \<times> string) list \<Rightarrow> Writer res" where
  "XmlEmitStartTag w tag_name attrs =
     bindE (WriterWriteF (Ptr w) (''<'' @ tag_name)) (\<lambda>(_, w1).
     bindE (if length attrs > 0 then WriterWrite (Ptr w1) '' '' else Ok (0, w1)) (\<lambda>(_, w2).
     bindE (XmlEmitAttributes w2 attrs) (\<lambda>w3.
     bindE (WriterWrite (Ptr w3) ''>'') (\<lambda>(_, w4). Ok w4))))"

definition XmlStartTag :: "Writer ptr \<Rightarrow> string ptr \<Rightarrow> (string \<times> string) list \<Rightarrow> Writer res" where
  "XmlStartTag writer tag_name attrs = (case (writer, tag_name) of
     (Ptr w, Ptr tag) \<Rightarrow>
       bindE (XmlEmitStartTag w tag attrs) (\<lambda>w1. bindE (WriterWrite (Ptr w1) [CHR 0x0A]) (\<lambda>(_, w2). Ok w2))
   | _ \<Rightarrow> Fault AssertFail)"

definition XmlEndTag :: "Writer ptr \<Rightarrow> string ptr \<Rightarrow> Writer res" where
  "XmlEndTag writer tag_name = (case (writer, tag_name) of
     (Ptr w, Ptr tag) \<Rightarrow> bindE (WriterWriteF (Ptr w) (''</'' @ tag @ ''>'' @ [CHR 0x0A])) (\<lambda>(_, w'). Ok w')
   | _ \<Rightarrow> Fault AssertFail)"

text \<open>Without a writer or a tag name XmlTag does nothing.\<close>

definition XmlTag :: "Writer ptr \<Rightarrow> string ptr \<Rightarrow> string ptr \<Rightarrow> (string \<times> string) list \<Rightarrow> Writer ptr res" where
  "XmlTag writer tag_name content attrs = (case (writer, tag_name) of
     (Ptr w, Ptr tag) \<Rightarrow>
       bindE (XmlEmitStartTag w tag attrs) (\<lambda>w1.
       bindE (case content of Ptr v \<Rightarrow> WriteEscaped w1 v | NULL \<Rightarrow> Ok w1) (\<lambda>w2.
       bindE (XmlEndTag (Ptr w2) tag_name) (\<lambda>w3. Ok (Ptr w3))))
   | _ \<Rightarrow> Ok writer)"

definition XmlContent :: "Writer ptr \<Rightarrow> string \<Rightarrow> Writer res" where
  "XmlContent writer content = (case writer of NULL \<Rightarrow> Fault AssertFail | Ptr w \<Rightarrow> WriteEscaped w content)"

section \<open>What a writer holds\<close>

definition writer_text :: "Writer \<Rightarrow> string \<Rightarrow> bool" where
  "writer_text w t = (case w of
     WT_STRING s \<Rightarrow> holds (sw_data s) t \<and> sw_len s = length t \<and> sw_allocated s = length (sw_data s)
   | WT_FILE f \<Rightarrow> f = t)"

lemma StringWriterWriteLen_holds:
  assumes "writer_text (WT_STRING w) t" "CHR 0x00 \<notin> set str"
  shows "\<exists>w'. StringWriterWriteLen w str n = Ok (min (length str) n, w') \<and> writer_text (WT_STRING w') (t @ take n str)"
proof -
  let ?len = "min (length str) n"
  define v where "v = (if sw_len w + ?len + 1 > sw_allocated w then StringWriterReallocate w ?len else w)"
  have w: "stores (sw_data w) (t @ [CHR 0x00])" "CHR 0x00 \<notin> set t" "sw_len w = length t" "sw_allocated w = length (sw_data w)"
    using assms(1) by (auto simp: writer_text_def holds_def)
  have v: "stores (sw_data v) t" "sw_len v = length t" "sw_allocated v = length (sw_data v)"
      "length t + ?len + 1 \<le> length (sw_data v)"
    using w stores_append_left [OF w(1)] stores_length [OF w(1)]
    by (auto simp: v_def StringWriterReallocate_def Let_def max_def)
  have "length t + length (take ?len str) \<le> length (sw_data v)" using v(4) by simp
  from cwrite_range_stores [OF v(1) le_refl this] obtain d where
    d: "cwrite_range (sw_data v) (length t) (take ?len str) = Ok d" "stores d (t @ take ?len str)" "length d = length (sw_data v)"
    by auto
  have tk: "take ?len str = take n str" by (simp add: min_def)
  have "stores (d[length t + ?len := Val (CHR 0x00)]) ((t @ take n str) @ [CHR 0x00])"
    using stores_snoc [OF d(2), of "CHR 0x00"] d(3) v(4) by (simp add: tk)
  moreover have "CHR 0x00 \<notin> set (t @ take n str)" using w(2) assms(2) by (auto dest: in_set_takeD)
  ultimately have "writer_text (WT_STRING (v\<lparr>sw_data := d[length t + ?len := Val (CHR 0x00)], sw_len := length t + ?len\<rparr>))
      (t @ take n str)"
    using v(3) d(3) by (simp add: writer_text_def holds_def)
  moreover have "StringWriterWriteLen w str n
      = Ok (?len, v\<lparr>sw_data := d[length t + ?len := Val (CHR 0x00)], sw_len := length t + ?len\<rparr>)"
    unfolding StringWriterWriteLen_def Let_def v_def [symmetric] using v(2,4) d by simp
  ultimately show ?thesis by blast
qed

lemma WriterWrite_text:
  assumes "writer_text w t" "CHR 0x00 \<notin> set str" "length str < 2 ^ 31"
  shows "\<exists>w'. WriterWrite (Ptr w) str = Ok (length str, w') \<and> writer_text w' (t @ str)"
proof (cases w)
  case (WT_STRING s)
  have n: "min (length str) (2 ^ 31 - 1) = length str" "take (2 ^ 31 - 1) str = str" using assms(3) by simp_all
  from assms(1) WT_STRING have "writer_text (WT_STRING s) t" by simp
  from StringWriterWriteLen_holds [OF this assms(2), of "2 ^ 31 - 1"] show ?thesis
    unfolding WriterWrite_def WriterWriteLen_def WT_STRING n by auto
next
  case (WT_FILE f)
  then show ?thesis using assms
    by (simp add: WriterWrite_def WriterWriteLen_def FileWriterWriteLen_def writer_text_def)
qed

lemma WriterWriteF_text:
  assumes "writer_text w t" "CHR 0x00 \<notin> set str" "length str < 2 ^ 31"
  shows "\<exists>w'. WriterWriteF (Ptr w) str = Ok (length str, w') \<and> writer_text w' (t @ str)"
proof (cases w)
  case (WT_STRING s)
  then show ?thesis using WriterWrite_text [OF assms] by (simp add: WriterWriteF_def WriterWrite_def WriterWriteLen_def)
qed (use assms in \<open>simp add: WriterWriteF_def writer_text_def\<close>)

lemma WriterWriteChar_text:
  assumes "writer_text w t" "c \<noteq> CHR 0x00"
  shows "\<exists>w'. WriterWriteChar (Ptr w) c = Ok (1, w') \<and> writer_text w' (t @ [c])"
proof (cases w)
  case (WT_STRING s)
  define v where "v = (if sw_len s + 2 > sw_allocated s then StringWriterReallocate s 2 else s)"
  have s: "stores (sw_data s) (t @ [CHR 0x00])" "CHR 0x00 \<notin> set t" "sw_len s = length t" "sw_allocated s = length (sw_data s)"
    using assms(1) WT_STRING by (auto simp: writer_text_def holds_def)
  have v: "stores (sw_data v) t" "sw_len v = length t" "sw_allocated v = length (sw_data v)"
      "length t + 2 \<le> length (sw_data v)"
    using s stores_append_left [OF s(1)] stores_length [OF s(1)]
    by (auto simp: v_def StringWriterReallocate_def Let_def max_def)
  let ?d = "(sw_data v)[length t := Val c]"
  have d: "stores ?d (t @ [c])" using stores_snoc [OF v(1)] v(4) by simp
  have "stores (?d[length t + 1 := Val (CHR 0x00)]) ((t @ [c]) @ [CHR 0x00])"
    using stores_snoc [OF d, of "CHR 0x00"] v(4) by simp
  then have "writer_text (WT_STRING (v\<lparr>sw_data := ?d[length t + 1 := Val (CHR 0x00)], sw_len := length t + 1\<rparr>)) (t @ [c])"
    using s(2) assms(2) v(3) by (simp add: writer_text_def holds_def)
  moreover have "StringWriterWriteChar s c = Ok (1, v\<lparr>sw_data := ?d[length t + 1 := Val (CHR 0x00)], sw_len := length t + 1\<rparr>)"
    unfolding StringWriterWriteChar_def Let_def v_def [symmetric] using v(2,4) by simp
  ultimately show ?thesis by (simp add: WT_STRING WriterWriteChar_def)
next
  case (WT_FILE f)
  then show ?thesis using assms
    by (simp add: WriterWriteChar_def FileWriterWriteLen_def writer_text_def c_string_def)
qed

section \<open>XML text and its decoding\<close>

text \<open>
  The five entities of XML, what WriteEscaped writes for a character, and the decoding a reader of the
  document applies.
\<close>

definition xml_entities :: "(char \<times> string) list" where
  "xml_entities = [(CHR ''&'', ''&amp;''), (CHR ''>'', ''&gt;''), (CHR 0x22, ''&quot;''), (CHR 0x27, ''&apos;''),
     (CHR ''<'', ''&lt;'')]"

definition xml_char :: "char \<Rightarrow> string" where
  "xml_char c = (case map_of xml_entities c of Some e \<Rightarrow> e | None \<Rightarrow> [c])"

fun xml_decode_step :: "(char \<times> string) list \<Rightarrow> string \<Rightarrow> (char \<times> string) option" where
  "xml_decode_step es [] = None"
| "xml_decode_step [] (c # s) = Some (c, s)"
| "xml_decode_step ((d, e) # es) (c # s) =
     (if e \<noteq> [] \<and> take (length e) (c # s) = e then Some (d, drop (length e) (c # s)) else xml_decode_step es (c # s))"

lemma xml_decode_step_shorter: "xml_decode_step es s = Some (c, t) \<Longrightarrow> length t < length s"
proof (induction es s rule: xml_decode_step.induct)
  case (3 d e es c s)
  then show ?case by (cases e) (auto split: if_splits)
qed auto

function xml_decode :: "string \<Rightarrow> string" where
  "xml_decode s = (case xml_decode_step xml_entities s of None \<Rightarrow> [] | Some (c, t) \<Rightarrow> c # xml_decode t)"
  by pat_completeness auto
termination
  by (relation "measure length") (auto dest: xml_decode_step_shorter)

declare xml_decode.simps [simp del]

lemma xml_decode_char: "xml_decode (xml_char c @ s) = c # xml_decode s"
  by (subst xml_decode.simps) (auto simp: xml_char_def xml_entities_def)

lemma xml_decode_escaped: "xml_decode (concat (map xml_char s)) = s"
proof (induction s)
  case Nil
  show ?case by (simp add: xml_decode.simps [of "[]"])
qed (simp add: xml_decode_char)

lemma xml_char_plain: "set (concat (map xml_char s)) \<inter> {CHR ''<'', CHR ''>'', CHR 0x22, CHR 0x27} = {}"
  by (auto simp: xml_char_def xml_entities_def)

lemma xml_char_NUL: "c \<noteq> CHR 0x00 \<Longrightarrow> CHR 0x00 \<notin> set (xml_char c)"
  by (auto simp: xml_char_def xml_entities_def)

lemma WriteEscaped_text:
  "writer_text w t \<Longrightarrow> CHR 0x00 \<notin> set s \<Longrightarrow>
   \<exists>w'. WriteEscaped w s = Ok w' \<and> writer_text w' (t @ concat (map xml_char s))"
proof (induction s arbitrary: w t)
  case (Cons c s)
  have "\<exists>n w1. (if c = CHR ''&'' then WriterWrite (Ptr w) ''&amp;''
            else if c = CHR ''>'' then WriterWrite (Ptr w) ''&gt;''
            else if c = CHR 0x22 then WriterWrite (Ptr w) ''&quot;''
            else if c = CHR 0x27 then WriterWrite (Ptr w) ''&apos;''
            else if c = CHR ''<'' then WriterWrite (Ptr w) ''&lt;''
            else WriterWriteChar (Ptr w) c) = Ok (n, w1) \<and> writer_text w1 (t @ xml_char c)"
    using WriterWrite_text [OF Cons.prems(1), of "xml_char c"] WriterWriteChar_text [OF Cons.prems(1), of c]
      xml_char_NUL [of c] Cons.prems(2)
    by (auto simp: xml_char_def xml_entities_def)
  then obtain n w1 where w1: "(if c = CHR ''&'' then WriterWrite (Ptr w) ''&amp;''
            else if c = CHR ''>'' then WriterWrite (Ptr w) ''&gt;''
            else if c = CHR 0x22 then WriterWrite (Ptr w) ''&quot;''
            else if c = CHR 0x27 then WriterWrite (Ptr w) ''&apos;''
            else if c = CHR ''<'' then WriterWrite (Ptr w) ''&lt;''
            else WriterWriteChar (Ptr w) c) = Ok (n, w1)" "writer_text w1 (t @ xml_char c)" by blast
  from Cons.IH [OF w1(2)] Cons.prems(2) show ?case unfolding WriteEscaped.simps w1(1) by auto
qed simp

text \<open>
  C35: the text that XmlContent appends to a writer, a growing string or a file, holds no markup
  characters, and decoding the five entities gives the content back.
\<close>

theorem XmlContent_roundtrip:
  assumes "writer_text w t" "CHR 0x00 \<notin> set content"
  shows "\<exists>w' x. XmlContent (Ptr w) content = Ok w' \<and> writer_text w' (t @ x) \<and> xml_decode x = content
    \<and> set x \<inter> {CHR ''<'', CHR ''>'', CHR 0x22, CHR 0x27} = {}"
proof -
  from WriteEscaped_text [OF assms] obtain w' where
    "XmlContent (Ptr w) content = Ok w'" "writer_text w' (t @ concat (map xml_char content))"
    by (auto simp: XmlContent_def)
  then show ?thesis using xml_decode_escaped [of content] xml_char_plain [of content] by blast
qed

lemma writer_text_new: "writer_text StringWriter []"
  by (simp add: writer_text_def StringWriter_def holds_def stores_def)

theorem XmlContent_roundtrip_witness:
  "\<exists>w' x. XmlContent (Ptr StringWriter) ''a<b & c'' = Ok w' \<and> writer_text w' x \<and> xml_decode x = ''a<b & c''"
  using XmlContent_roundtrip [OF writer_text_new, of "''a<b & c''"] by auto

end
