(* ===== verification/ListLib.thy ===== *)
theory ListLib
  imports Nodes "HOL-Library.Word"
begin

text \<open>
  The reference-counted, copy-on-write list of libutils/list.c with the reference counts of
  libutils/refcount.c. Lists, their nodes, reference counts, the nodes of a reference count and mutable
  iterators live in one heap with one source of fresh addresses. A payload is a pointer that may be
  NULL; the payload of a node is uninitialised when the code leaves it so. Operations return the code
  and the heap, and the payloads they release.
\<close>

section \<open>Data\<close>

record RefCount =
  rc_user_count :: nat
  rc_users :: "addr ptr"
  rc_last :: "addr ptr"

record 'a List =
  l_node_count :: int
  l_state :: "32 word"
  l_list :: "addr ptr"
  l_first :: "addr ptr"
  l_last :: "addr ptr"
  l_compare :: "('a ptr \<Rightarrow> 'a ptr \<Rightarrow> int) option"
  l_copy :: "('a \<Rightarrow> 'a) option"
  l_destroy :: bool
  l_ref_count :: addr
  l_iterator :: "addr ptr"

record ListMutableIterator =
  mi_valid :: bool
  mi_current :: "addr ptr"
  mi_origin :: addr

record ListIterator =
  li_current :: "addr ptr"
  li_origin :: addr
  li_state :: "32 word"

record 'a lheap =
  lh_nodes :: "addr \<rightharpoonup> 'a ptr cell dnode"
  lh_rnodes :: "addr \<rightharpoonup> addr dnode"
  lh_refs :: "addr \<rightharpoonup> RefCount"
  lh_lists :: "addr \<rightharpoonup> 'a List"
  lh_iters :: "addr \<rightharpoonup> ListMutableIterator"
  lh_fresh :: addr

definition lheap_empty :: "'a lheap" where
  "lheap_empty = \<lparr>lh_nodes = Map.empty, lh_rnodes = Map.empty, lh_refs = Map.empty, lh_lists = Map.empty,
     lh_iters = Map.empty, lh_fresh = 0\<rparr>"

definition get_list :: "'a lheap \<Rightarrow> addr \<Rightarrow> 'a List res" where
  "get_list h l = bindE (deref (lh_lists h) (Ptr l)) (\<lambda>(_, x). Ok x)"

definition get_ref :: "'a lheap \<Rightarrow> addr \<Rightarrow> RefCount res" where
  "get_ref h r = bindE (deref (lh_refs h) (Ptr r)) (\<lambda>(_, x). Ok x)"

definition put_list :: "addr \<Rightarrow> 'a List \<Rightarrow> 'a lheap \<Rightarrow> 'a lheap" where
  "put_list l x h = h\<lparr>lh_lists := (lh_lists h)(l \<mapsto> x)\<rparr>"

definition put_ref :: "addr \<Rightarrow> RefCount \<Rightarrow> 'a lheap \<Rightarrow> 'a lheap" where
  "put_ref r x h = h\<lparr>lh_refs := (lh_refs h)(r \<mapsto> x)\<rparr>"

section \<open>Reference counts\<close>

definition RefCountNew :: "'a lheap \<Rightarrow> addr \<times> 'a lheap" where
  "RefCountNew h =
     (let r = lh_fresh h
      in (r, put_ref r \<lparr>rc_user_count = 0, rc_users = NULL, rc_last = NULL\<rparr> (h\<lparr>lh_fresh := r + 1\<rparr>)))"

definition RefCountDestroy :: "'a lheap \<Rightarrow> addr \<Rightarrow> 'a lheap res" where
  "RefCountDestroy h ref =
     bindE (get_ref h ref) (\<lambda>r.
     bindE (c_assert (rc_user_count r \<le> 1)) (\<lambda>_.
     Ok (h\<lparr>lh_rnodes := (case rc_users r of Ptr u \<Rightarrow> (lh_rnodes h)(u := None) | NULL \<Rightarrow> lh_rnodes h),
           lh_refs := (lh_refs h)(ref := None)\<rparr>)))"

definition RefCountAttach :: "'a lheap \<Rightarrow> addr \<Rightarrow> addr \<Rightarrow> 'a lheap res" where
  "RefCountAttach h ref owner =
     bindE (get_ref h ref) (\<lambda>r.
     let node = lh_fresh h
     in case rc_last r of
          Ptr t \<Rightarrow>
            bindE (deref (lh_rnodes h) (Ptr t)) (\<lambda>(_, tn).
            Ok (put_ref ref (r\<lparr>rc_user_count := rc_user_count r + 1, rc_last := Ptr node\<rparr>)
              (h\<lparr>lh_fresh := node + 1, lh_rnodes := (lh_rnodes h)(t \<mapsto> tn\<lparr>dn_next := Ptr node\<rparr>,
                 node \<mapsto> \<lparr>dn_data = owner, dn_next = NULL, dn_previous = Ptr t\<rparr>)\<rparr>)))
        | NULL \<Rightarrow>
            Ok (put_ref ref (r\<lparr>rc_user_count := rc_user_count r + 1, rc_users := Ptr node, rc_last := Ptr node\<rparr>)
              (h\<lparr>lh_fresh := node + 1,
                 lh_rnodes := (lh_rnodes h)(node \<mapsto> \<lparr>dn_data = owner, dn_next = NULL, dn_previous = NULL\<rparr>)\<rparr>)))"

text \<open>The search loop over linked nodes, bounded by the number of addresses ever allocated.\<close>

fun find_node :: "nat \<Rightarrow> (addr \<rightharpoonup> 'p dnode) \<Rightarrow> ('p \<Rightarrow> bool res) \<Rightarrow> addr ptr \<Rightarrow> (addr \<times> 'p dnode) option res" where
  "find_node 0 h P p = (if p = NULL then Ok None else Fault OutOfFuel)"
| "find_node (Suc fuel) h P p =
     (if p = NULL then Ok None
      else bindE (deref h p) (\<lambda>(a, n).
           bindE (P (dn_data n)) (\<lambda>found. if found then Ok (Some (a, n)) else find_node fuel h P (dn_next n))))"

definition RefCountDetach :: "'a lheap \<Rightarrow> addr \<Rightarrow> addr \<Rightarrow> 'a lheap res" where
  "RefCountDetach h ref owner =
     bindE (get_ref h ref) (\<lambda>r.
     if rc_user_count r \<le> 1 then Ok h else
     bindE (find_node (lh_fresh h) (lh_rnodes h) (\<lambda>user. Ok (user = owner)) (rc_users r)) (\<lambda>found.
     case found of
       None \<Rightarrow> Fault AssertFail
     | Some (p, node) \<Rightarrow>
         if dn_previous node = NULL \<and> dn_next node = NULL then Ok h
         else bindE (unlink (lh_rnodes h) node (rc_users r, rc_last r)) (\<lambda>(rn, users, lst).
              Ok (put_ref ref (r\<lparr>rc_user_count := rc_user_count r - 1, rc_users := users, rc_last := lst\<rparr>)
                (h\<lparr>lh_rnodes := rn(p := None)\<rparr>)))))"

definition RefCountIsShared :: "'a lheap \<Rightarrow> addr \<Rightarrow> bool res" where
  "RefCountIsShared h ref = bindE (get_ref h ref) (\<lambda>r. Ok (rc_user_count r > 1))"

definition RefCountIsEqual :: "addr ptr \<Rightarrow> addr ptr \<Rightarrow> bool" where
  "RefCountIsEqual a b \<longleftrightarrow> (a \<noteq> NULL \<and> b \<noteq> NULL) \<and> a = b"

section \<open>Lists\<close>

definition read_payload :: "'a ptr cell \<Rightarrow> 'a ptr res" where
  "read_payload c = (case c of Undef \<Rightarrow> Fault UninitRead | Val x \<Rightarrow> Ok x)"

text \<open>
  The copy loop of ListDetach. \<open>newList\<close> is the first new node and \<open>q\<close> the last one. A NULL payload
  is not copied, so the new payload stays uninitialised.
\<close>

definition copy_payload :: "('a \<Rightarrow> 'a) option \<Rightarrow> 'a ptr \<Rightarrow> 'a ptr cell" where
  "copy_payload copy x = (case x of
     NULL \<Rightarrow> Undef
   | Ptr v \<Rightarrow> Val (Ptr (case copy of Some f \<Rightarrow> f v | None \<Rightarrow> v)))"

fun ListDetach_loop ::
  "nat \<Rightarrow> ('a \<Rightarrow> 'a) option \<Rightarrow> 'a lheap \<Rightarrow> addr ptr \<Rightarrow> addr ptr \<Rightarrow> addr ptr \<Rightarrow> ('a lheap \<times> addr ptr \<times> addr ptr) res" where
  "ListDetach_loop 0 copy h p newList q = (if p = NULL then Ok (h, newList, q) else Fault OutOfFuel)"
| "ListDetach_loop (Suc fuel) copy h p newList q =
     (if p = NULL then Ok (h, newList, q)
      else bindE (deref (lh_nodes h) p) (\<lambda>(_, pn).
           bindE (read_payload (dn_data pn)) (\<lambda>x.
           let n = lh_fresh h;
               new = \<lparr>dn_data = copy_payload copy x, dn_next = NULL, dn_previous = (if newList \<noteq> NULL then q else NULL)\<rparr>
           in if newList \<noteq> NULL
              then bindE (deref (lh_nodes h) q) (\<lambda>(t, tn).
                   ListDetach_loop fuel copy
                     (h\<lparr>lh_fresh := n + 1, lh_nodes := (lh_nodes h)(t \<mapsto> tn\<lparr>dn_next := Ptr n\<rparr>, n \<mapsto> new)\<rparr>)
                     (dn_next pn) newList (Ptr n))
              else ListDetach_loop fuel copy
                     (h\<lparr>lh_fresh := n + 1, lh_nodes := (lh_nodes h)(n \<mapsto> new)\<rparr>) (dn_next pn) (Ptr n) (Ptr n))))"

definition ListDetach :: "'a lheap \<Rightarrow> addr \<Rightarrow> 'a lheap res" where
  "ListDetach h l =
     bindE (get_list h l) (\<lambda>lst.
     bindE (RefCountIsShared h (l_ref_count lst)) (\<lambda>shared.
     if shared
     then bindE (ListDetach_loop (lh_fresh h) (l_copy lst) h (l_list lst) NULL NULL) (\<lambda>(h1, newList, q).
          bindE (RefCountDetach (put_list l (lst\<lparr>l_list := newList, l_first := newList, l_last := q\<rparr>) h1) (l_ref_count lst) l) (\<lambda>h2.
          let (r, h3) = RefCountNew h2
          in RefCountAttach (put_list l (lst\<lparr>l_list := newList, l_first := newList, l_last := q, l_ref_count := r\<rparr>) h3) r l))
     else Ok h))"

definition ListNew ::
  "'a lheap \<Rightarrow> ('a ptr \<Rightarrow> 'a ptr \<Rightarrow> int) option \<Rightarrow> ('a \<Rightarrow> 'a) option \<Rightarrow> bool \<Rightarrow> (addr \<times> 'a lheap) res" where
  "ListNew h compare copy destroy =
     (let l = lh_fresh h;
          (r, h1) = RefCountNew (h\<lparr>lh_fresh := l + 1\<rparr>);
          lst = \<lparr>l_node_count = 0, l_state = 0, l_list = NULL, l_first = NULL, l_last = NULL, l_compare = compare,
                 l_copy = copy, l_destroy = destroy, l_ref_count = r, l_iterator = NULL\<rparr>
      in bindE (RefCountAttach (put_list l lst h1) r l) (\<lambda>h2. Ok (l, h2)))"

fun ListDestroy_loop :: "nat \<Rightarrow> bool \<Rightarrow> (addr \<rightharpoonup> 'a ptr cell dnode) \<Rightarrow> addr ptr \<Rightarrow> ('a ptr list \<times> (addr \<rightharpoonup> 'a ptr cell dnode)) res" where
  "ListDestroy_loop 0 destroy nodes p = (if p = NULL then Ok ([], nodes) else Fault OutOfFuel)"
| "ListDestroy_loop (Suc fuel) destroy nodes p =
     (if p = NULL then Ok ([], nodes)
      else bindE (deref nodes p) (\<lambda>(a, node).
           bindE (if destroy then bindE (read_payload (dn_data node)) (\<lambda>x. Ok [x]) else Ok []) (\<lambda>gone.
           bindE (ListDestroy_loop fuel destroy (nodes(a := None)) (dn_next node)) (\<lambda>(gone', nodes').
           Ok (gone @ gone', nodes')))))"

definition ListDestroy :: "'a lheap \<Rightarrow> addr ptr \<Rightarrow> ('a ptr list \<times> 'a lheap) res" where
  "ListDestroy h lp = (case lp of
     NULL \<Rightarrow> Ok ([], h)
   | Ptr l \<Rightarrow>
       bindE (get_list h l) (\<lambda>lst.
       bindE (RefCountIsShared h (l_ref_count lst)) (\<lambda>shared.
       bindE (if shared
              then bindE (RefCountDetach h (l_ref_count lst) l) (\<lambda>h1. Ok ([], h1))
              else bindE (ListDestroy_loop (lh_fresh h) (l_destroy lst) (lh_nodes h) (l_first lst)) (\<lambda>(gone, nodes).
                   bindE (RefCountDestroy (h\<lparr>lh_nodes := nodes\<rparr>) (l_ref_count lst)) (\<lambda>h1. Ok (gone, h1)))) (\<lambda>(gone, h1).
       Ok (gone, h1\<lparr>lh_lists := (lh_lists h1)(l := None)\<rparr>)))))"

definition ListCopy :: "'a lheap \<Rightarrow> addr ptr \<Rightarrow> (int \<times> addr ptr \<times> 'a lheap) res" where
  "ListCopy h origin = (case origin of
     NULL \<Rightarrow> Ok (- 1, NULL, h)
   | Ptr l \<Rightarrow>
       bindE (get_list h l) (\<lambda>lst.
       if l_copy lst = None then Ok (- 1, NULL, h)
       else let d = lh_fresh h
            in bindE (RefCountAttach (put_list d (lst\<lparr>l_iterator := NULL\<rparr>) (h\<lparr>lh_fresh := d + 1\<rparr>)) (l_ref_count lst) d)
                 (\<lambda>h1. Ok (0, Ptr d, h1))))"

definition ListPrepend :: "'a lheap \<Rightarrow> addr ptr \<Rightarrow> 'a ptr \<Rightarrow> (int \<times> 'a lheap) res" where
  "ListPrepend h lp payload = (case lp of
     NULL \<Rightarrow> Ok (- 1, h)
   | Ptr l \<Rightarrow>
       bindE (ListDetach h l) (\<lambda>h1.
       bindE (get_list h1 l) (\<lambda>lst.
       let node = lh_fresh h1
       in case l_list lst of
            Ptr b \<Rightarrow>
              bindE (deref (lh_nodes h1) (Ptr b)) (\<lambda>(_, bn).
              Ok (0, put_list l (lst\<lparr>l_list := Ptr node, l_first := Ptr node, l_node_count := l_node_count lst + 1\<rparr>)
                (h1\<lparr>lh_fresh := node + 1, lh_nodes := (lh_nodes h1)
                   (node \<mapsto> \<lparr>dn_data = Val payload, dn_next = Ptr b, dn_previous = NULL\<rparr>,
                    b \<mapsto> bn\<lparr>dn_previous := Ptr node\<rparr>)\<rparr>)))
          | NULL \<Rightarrow>
              Ok (0, put_list l (lst\<lparr>l_last := Ptr node, l_list := Ptr node, l_first := Ptr node,
                  l_node_count := l_node_count lst + 1\<rparr>)
                (h1\<lparr>lh_fresh := node + 1, lh_nodes := (lh_nodes h1)
                   (node \<mapsto> \<lparr>dn_data = Val payload, dn_next = NULL, dn_previous = NULL\<rparr>)\<rparr>)))))"

definition ListAppend :: "'a lheap \<Rightarrow> addr ptr \<Rightarrow> 'a ptr \<Rightarrow> (int \<times> 'a lheap) res" where
  "ListAppend h lp payload = (case lp of
     NULL \<Rightarrow> Ok (- 1, h)
   | Ptr l \<Rightarrow>
       bindE (ListDetach h l) (\<lambda>h1.
       bindE (get_list h1 l) (\<lambda>lst.
       let node = lh_fresh h1
       in case l_last lst of
            Ptr t \<Rightarrow>
              bindE (deref (lh_nodes h1) (Ptr t)) (\<lambda>(_, tn).
              Ok (0, put_list l (lst\<lparr>l_last := Ptr node, l_node_count := l_node_count lst + 1\<rparr>)
                (h1\<lparr>lh_fresh := node + 1, lh_nodes := (lh_nodes h1)(t \<mapsto> tn\<lparr>dn_next := Ptr node\<rparr>,
                   node \<mapsto> \<lparr>dn_data = Val payload, dn_next = NULL, dn_previous = Ptr t\<rparr>)\<rparr>)))
          | NULL \<Rightarrow>
              Ok (0, put_list l (lst\<lparr>l_list := Ptr node, l_first := Ptr node, l_last := Ptr node,
                  l_node_count := l_node_count lst + 1\<rparr>)
                (h1\<lparr>lh_fresh := node + 1, lh_nodes := (lh_nodes h1)
                   (node \<mapsto> \<lparr>dn_data = Val payload, dn_next = NULL, dn_previous = NULL\<rparr>)\<rparr>)))))"

text \<open>ListFindNode skips NULL payloads; the search in ListRemove does not.\<close>

definition same_payload :: "'a List \<Rightarrow> 'a ptr \<Rightarrow> 'a ptr \<Rightarrow> bool" where
  "same_payload lst x payload = (case l_compare lst of Some f \<Rightarrow> f x payload = 0 | None \<Rightarrow> x = payload)"

definition ListFindNode :: "'a lheap \<Rightarrow> 'a List \<Rightarrow> 'a ptr \<Rightarrow> bool res" where
  "ListFindNode h lst payload =
     bindE (find_node (lh_fresh h) (lh_nodes h)
       (\<lambda>c. bindE (read_payload c) (\<lambda>x. if x = NULL then Ok False else Ok (same_payload lst x payload))) (l_list lst))
       (\<lambda>r. Ok (r \<noteq> None))"

definition ListUpdateListState :: "'a List \<Rightarrow> 'a List" where
  "ListUpdateListState lst = lst\<lparr>l_node_count := l_node_count lst - 1, l_state := l_state lst + 1\<rparr>"

definition move_iterator :: "'a lheap \<Rightarrow> 'a List \<Rightarrow> addr \<Rightarrow> 'a ptr cell dnode \<Rightarrow> 'a lheap res" where
  "move_iterator h lst a node = (case l_iterator lst of
     NULL \<Rightarrow> Ok h
   | Ptr i \<Rightarrow>
       bindE (deref (lh_iters h) (Ptr i)) (\<lambda>(_, it).
       if mi_current it = Ptr a
       then Ok (h\<lparr>lh_iters := (lh_iters h)(i \<mapsto>
              (if dn_next node \<noteq> NULL then it\<lparr>mi_current := dn_next node\<rparr>
               else if dn_previous node \<noteq> NULL then it\<lparr>mi_current := dn_previous node\<rparr>
               else it\<lparr>mi_valid := False\<rparr>))\<rparr>)
       else Ok h))"

definition ListRemove :: "'a lheap \<Rightarrow> addr ptr \<Rightarrow> 'a ptr \<Rightarrow> (int \<times> 'a ptr list \<times> 'a lheap) res" where
  "ListRemove h lp payload = (case (lp, payload) of
     (Ptr l, Ptr _) \<Rightarrow>
       bindE (get_list h l) (\<lambda>lst0.
       bindE (ListFindNode h lst0 payload) (\<lambda>found.
       if \<not> found then Ok (- 1, [], h) else
       bindE (ListDetach h l) (\<lambda>h1.
       bindE (get_list h1 l) (\<lambda>lst.
       bindE (find_node (lh_fresh h1) (lh_nodes h1)
         (\<lambda>c. bindE (read_payload c) (\<lambda>x. Ok (same_payload lst x payload))) (l_list lst)) (\<lambda>r.
       case r of
         None \<Rightarrow> Fault AssertFail
       | Some (a, node) \<Rightarrow>
           bindE (move_iterator h1 lst a node) (\<lambda>h2.
           bindE (unlink (lh_nodes h2) node (l_first lst, l_last lst)) (\<lambda>(nodes, fst', lst').
           bindE (read_payload (dn_data node)) (\<lambda>x.
           Ok (0, [x], put_list l (ListUpdateListState (lst\<lparr>l_list := fst', l_first := fst', l_last := lst'\<rparr>))
             (h2\<lparr>lh_nodes := nodes(a := None)\<rparr>))))))))))
   | _ \<Rightarrow> Ok (- 1, [], h))"

definition ListCount :: "'a lheap \<Rightarrow> addr ptr \<Rightarrow> int res" where
  "ListCount h lp = (case lp of NULL \<Rightarrow> Ok (- 1) | Ptr l \<Rightarrow> bindE (get_list h l) (\<lambda>lst. Ok (l_node_count lst)))"

section \<open>Iterators\<close>

text \<open>
  An iterator is a structure of its client; it is stale when the state of the list has changed since
  (the macro IsIteratorValid tests exactly that). Codes are 0 and -1.
\<close>

definition ListIteratorGet :: "'a lheap \<Rightarrow> addr ptr \<Rightarrow> ListIterator ptr res" where
  "ListIteratorGet h lp = (case lp of
     NULL \<Rightarrow> Ok NULL
   | Ptr l \<Rightarrow>
       bindE (get_list h l) (\<lambda>lst.
       if l_first lst = NULL then Ok NULL
       else Ok (Ptr \<lparr>li_current = l_list lst, li_origin = l, li_state = l_state lst\<rparr>)))"

definition stale :: "'a lheap \<Rightarrow> ListIterator \<Rightarrow> bool res" where
  "stale h it = bindE (get_list h (li_origin it)) (\<lambda>lst. Ok (li_state it \<noteq> l_state lst))"

definition ListIteratorFirst :: "'a lheap \<Rightarrow> ListIterator ptr \<Rightarrow> (int \<times> ListIterator ptr) res" where
  "ListIteratorFirst h iterator = (case iterator of
     NULL \<Rightarrow> Ok (- 1, NULL)
   | Ptr it \<Rightarrow>
       bindE (stale h it) (\<lambda>b. if b then Ok (- 1, iterator) else
       bindE (get_list h (li_origin it)) (\<lambda>lst. Ok (0, Ptr (it\<lparr>li_current := l_first lst\<rparr>)))))"

definition ListIteratorLast :: "'a lheap \<Rightarrow> ListIterator ptr \<Rightarrow> (int \<times> ListIterator ptr) res" where
  "ListIteratorLast h iterator = (case iterator of
     NULL \<Rightarrow> Ok (- 1, NULL)
   | Ptr it \<Rightarrow>
       bindE (stale h it) (\<lambda>b. if b then Ok (- 1, iterator) else
       bindE (get_list h (li_origin it)) (\<lambda>lst. Ok (0, Ptr (it\<lparr>li_current := l_last lst\<rparr>)))))"

definition ListIteratorNext :: "'a lheap \<Rightarrow> ListIterator ptr \<Rightarrow> (int \<times> ListIterator ptr) res" where
  "ListIteratorNext h iterator = (case iterator of
     NULL \<Rightarrow> Ok (- 1, NULL)
   | Ptr it \<Rightarrow>
       bindE (stale h it) (\<lambda>b. if b then Ok (- 1, iterator) else
       if li_current it = NULL then Ok (- 1, iterator) else
       bindE (deref (lh_nodes h) (li_current it)) (\<lambda>(_, n).
       if dn_next n \<noteq> NULL then Ok (0, Ptr (it\<lparr>li_current := dn_next n\<rparr>)) else Ok (- 1, iterator))))"

definition ListIteratorPrevious :: "'a lheap \<Rightarrow> ListIterator ptr \<Rightarrow> (int \<times> ListIterator ptr) res" where
  "ListIteratorPrevious h iterator = (case iterator of
     NULL \<Rightarrow> Ok (- 1, NULL)
   | Ptr it \<Rightarrow>
       bindE (stale h it) (\<lambda>b. if b then Ok (- 1, iterator) else
       if li_current it = NULL then Ok (- 1, iterator) else
       bindE (deref (lh_nodes h) (li_current it)) (\<lambda>(_, n).
       if dn_previous n \<noteq> NULL then Ok (0, Ptr (it\<lparr>li_current := dn_previous n\<rparr>)) else Ok (- 1, iterator))))"

definition ListIteratorData :: "'a lheap \<Rightarrow> ListIterator ptr \<Rightarrow> 'a ptr res" where
  "ListIteratorData h iterator = (case iterator of
     NULL \<Rightarrow> Ok NULL
   | Ptr it \<Rightarrow>
       bindE (stale h it) (\<lambda>b. if b then Ok NULL else
       bindE (deref (lh_nodes h) (li_current it)) (\<lambda>(_, n). read_payload (dn_data n))))"

definition ListIteratorHasNext :: "'a lheap \<Rightarrow> ListIterator ptr \<Rightarrow> bool res" where
  "ListIteratorHasNext h iterator = (case iterator of
     NULL \<Rightarrow> Ok False
   | Ptr it \<Rightarrow>
       bindE (stale h it) (\<lambda>b. if b then Ok False else
       bindE (deref (lh_nodes h) (li_current it)) (\<lambda>(_, n). Ok (dn_next n \<noteq> NULL))))"

definition ListIteratorHasPrevious :: "'a lheap \<Rightarrow> ListIterator ptr \<Rightarrow> bool res" where
  "ListIteratorHasPrevious h iterator = (case iterator of
     NULL \<Rightarrow> Ok False
   | Ptr it \<Rightarrow>
       bindE (stale h it) (\<lambda>b. if b then Ok False else
       bindE (deref (lh_nodes h) (li_current it)) (\<lambda>(_, n). Ok (dn_previous n \<noteq> NULL))))"

section \<open>Mutable iterators\<close>

definition ListMutableIteratorGet :: "'a lheap \<Rightarrow> addr ptr \<Rightarrow> (addr ptr \<times> 'a lheap) res" where
  "ListMutableIteratorGet h lp = (case lp of
     NULL \<Rightarrow> Ok (NULL, h)
   | Ptr l \<Rightarrow>
       bindE (get_list h l) (\<lambda>lst.
       if l_iterator lst \<noteq> NULL then Ok (NULL, h)
       else if l_first lst = NULL then Ok (NULL, h)
       else let i = lh_fresh h
            in Ok (Ptr i, put_list l (lst\<lparr>l_iterator := Ptr i\<rparr>)
                 (h\<lparr>lh_fresh := i + 1, lh_iters := (lh_iters h)(i \<mapsto>
                    \<lparr>mi_valid = True, mi_current = l_first lst, mi_origin = l\<rparr>)\<rparr>))))"

definition ListMutableIteratorRelease :: "'a lheap \<Rightarrow> addr ptr \<Rightarrow> 'a lheap res" where
  "ListMutableIteratorRelease h ip = (case ip of
     NULL \<Rightarrow> Ok h
   | Ptr i \<Rightarrow>
       bindE (deref (lh_iters h) ip) (\<lambda>(_, it).
       bindE (get_list h (mi_origin it)) (\<lambda>lst.
       Ok (put_list (mi_origin it) (lst\<lparr>l_iterator := NULL\<rparr>) (h\<lparr>lh_iters := (lh_iters h)(i := None)\<rparr>)))))"

text \<open>The common frame of the iterator operations: NULL and invalid iterators return the code -1.\<close>

definition with_iterator ::
  "'a lheap \<Rightarrow> addr ptr \<Rightarrow> (addr \<Rightarrow> ListMutableIterator \<Rightarrow> (int \<times> 'a ptr list \<times> 'a lheap) res) \<Rightarrow> (int \<times> 'a ptr list \<times> 'a lheap) res" where
  "with_iterator h ip f = (case ip of
     NULL \<Rightarrow> Ok (- 1, [], h)
   | Ptr i \<Rightarrow>
       bindE (deref (lh_iters h) ip) (\<lambda>(_, it).
       if \<not> mi_valid it then Ok (- 1, [], h) else f i it))"

definition put_iter :: "addr \<Rightarrow> ListMutableIterator \<Rightarrow> 'a lheap \<Rightarrow> 'a lheap" where
  "put_iter i it h = h\<lparr>lh_iters := (lh_iters h)(i \<mapsto> it)\<rparr>"

definition ListMutableIteratorFirst :: "'a lheap \<Rightarrow> addr ptr \<Rightarrow> (int \<times> 'a ptr list \<times> 'a lheap) res" where
  "ListMutableIteratorFirst h ip = with_iterator h ip (\<lambda>i it.
     bindE (get_list h (mi_origin it)) (\<lambda>lst. Ok (0, [], put_iter i (it\<lparr>mi_current := l_first lst\<rparr>) h)))"

definition ListMutableIteratorLast :: "'a lheap \<Rightarrow> addr ptr \<Rightarrow> (int \<times> 'a ptr list \<times> 'a lheap) res" where
  "ListMutableIteratorLast h ip = with_iterator h ip (\<lambda>i it.
     bindE (get_list h (mi_origin it)) (\<lambda>lst. Ok (0, [], put_iter i (it\<lparr>mi_current := l_last lst\<rparr>) h)))"

definition ListMutableIteratorNext :: "'a lheap \<Rightarrow> addr ptr \<Rightarrow> (int \<times> 'a ptr list \<times> 'a lheap) res" where
  "ListMutableIteratorNext h ip = with_iterator h ip (\<lambda>i it.
     bindE (deref (lh_nodes h) (mi_current it)) (\<lambda>(_, n).
     if dn_next n = NULL then Ok (- 1, [], h)
     else Ok (0, [], put_iter i (it\<lparr>mi_current := dn_next n\<rparr>) h)))"

definition ListMutableIteratorPrevious :: "'a lheap \<Rightarrow> addr ptr \<Rightarrow> (int \<times> 'a ptr list \<times> 'a lheap) res" where
  "ListMutableIteratorPrevious h ip = with_iterator h ip (\<lambda>i it.
     bindE (deref (lh_nodes h) (mi_current it)) (\<lambda>(_, n).
     if dn_previous n = NULL then Ok (- 1, [], h)
     else Ok (0, [], put_iter i (it\<lparr>mi_current := dn_previous n\<rparr>) h)))"

definition ListMutableIteratorData :: "'a lheap \<Rightarrow> addr ptr \<Rightarrow> 'a ptr res" where
  "ListMutableIteratorData h ip = (case ip of
     NULL \<Rightarrow> Ok NULL
   | Ptr i \<Rightarrow>
       bindE (deref (lh_iters h) ip) (\<lambda>(_, it).
       if \<not> mi_valid it then Ok NULL else
       bindE (deref (lh_nodes h) (mi_current it)) (\<lambda>(_, n). read_payload (dn_data n))))"

text \<open>Removing through the iterator. The only element of a list is not removed.\<close>

definition ListMutableIteratorRemove :: "'a lheap \<Rightarrow> addr ptr \<Rightarrow> (int \<times> 'a ptr list \<times> 'a lheap) res" where
  "ListMutableIteratorRemove h ip = with_iterator h ip (\<lambda>i it.
     bindE (ListDetach h (mi_origin it)) (\<lambda>h1.
     bindE (get_list h1 (mi_origin it)) (\<lambda>lst.
     bindE (deref (lh_nodes h1) (mi_current it)) (\<lambda>(a, cur).
     let node = (if dn_next cur \<noteq> NULL then dn_next cur else dn_previous cur)
     in if node = NULL then Ok (- 1, [], h1) else
        bindE (unlink (lh_nodes h1) cur (l_first lst, l_last lst)) (\<lambda>(nodes, fst', lst').
        bindE (read_payload (dn_data cur)) (\<lambda>x.
        Ok (0, [x], put_iter i (it\<lparr>mi_current := node\<rparr>)
          (put_list (mi_origin it) (ListUpdateListState (lst\<lparr>l_list := fst', l_first := fst', l_last := lst'\<rparr>))
            (h1\<lparr>lh_nodes := nodes(a := None)\<rparr>)))))))))"

definition ListMutableIteratorPrepend :: "'a lheap \<Rightarrow> addr ptr \<Rightarrow> 'a ptr \<Rightarrow> (int \<times> 'a ptr list \<times> 'a lheap) res" where
  "ListMutableIteratorPrepend h0 ip payload = with_iterator h0 ip (\<lambda>i it.
     let node = lh_fresh h0
     in bindE (ListDetach (h0\<lparr>lh_fresh := node + 1\<rparr>) (mi_origin it)) (\<lambda>h.
        bindE (get_list h (mi_origin it)) (\<lambda>lst.
        bindE (deref (lh_nodes h) (mi_current it)) (\<lambda>(a, cur).
        case dn_previous cur of
          Ptr p \<Rightarrow>
            bindE (deref (lh_nodes h) (Ptr p)) (\<lambda>(_, pn).
            let n1 = (lh_nodes h)(node \<mapsto> \<lparr>dn_data = Val payload, dn_next = Ptr a, dn_previous = Ptr p\<rparr>,
                       p \<mapsto> pn\<lparr>dn_next := Ptr node\<rparr>)
            in bindE (deref n1 (Ptr a)) (\<lambda>(_, cur').
            Ok (0, [], put_list (mi_origin it) (lst\<lparr>l_node_count := l_node_count lst + 1\<rparr>)
              (h\<lparr>lh_nodes := n1(a \<mapsto> cur'\<lparr>dn_previous := Ptr node\<rparr>)\<rparr>))))
        | NULL \<Rightarrow>
            Ok (0, [], put_list (mi_origin it) (lst\<lparr>l_first := Ptr node, l_list := Ptr node, l_node_count := l_node_count lst + 1\<rparr>)
              (h\<lparr>lh_nodes := (lh_nodes h)(node \<mapsto> \<lparr>dn_data = Val payload, dn_next = Ptr a, dn_previous = NULL\<rparr>,
                 a \<mapsto> cur\<lparr>dn_previous := Ptr node\<rparr>)\<rparr>))))))"

definition ListMutableIteratorAppend :: "'a lheap \<Rightarrow> addr ptr \<Rightarrow> 'a ptr \<Rightarrow> (int \<times> 'a ptr list \<times> 'a lheap) res" where
  "ListMutableIteratorAppend h0 ip payload = with_iterator h0 ip (\<lambda>i it.
     let node = lh_fresh h0
     in bindE (ListDetach (h0\<lparr>lh_fresh := node + 1\<rparr>) (mi_origin it)) (\<lambda>h.
        bindE (get_list h (mi_origin it)) (\<lambda>lst.
        bindE (deref (lh_nodes h) (mi_current it)) (\<lambda>(a, cur).
        case dn_next cur of
          Ptr n \<Rightarrow>
            bindE (deref (lh_nodes h) (Ptr n)) (\<lambda>(_, nn).
            let n1 = (lh_nodes h)(node \<mapsto> \<lparr>dn_data = Val payload, dn_next = Ptr n, dn_previous = Ptr a\<rparr>,
                       n \<mapsto> nn\<lparr>dn_previous := Ptr node\<rparr>)
            in bindE (deref n1 (Ptr a)) (\<lambda>(_, cur').
            Ok (0, [], put_list (mi_origin it) (lst\<lparr>l_node_count := l_node_count lst + 1\<rparr>)
              (h\<lparr>lh_nodes := n1(a \<mapsto> cur'\<lparr>dn_next := Ptr node\<rparr>)\<rparr>))))
        | NULL \<Rightarrow>
            Ok (0, [], put_list (mi_origin it) (lst\<lparr>l_last := Ptr node, l_node_count := l_node_count lst + 1\<rparr>)
              (h\<lparr>lh_nodes := (lh_nodes h)(node \<mapsto> \<lparr>dn_data = Val payload, dn_next = NULL, dn_previous = Ptr a\<rparr>,
                 a \<mapsto> cur\<lparr>dn_next := Ptr node\<rparr>)\<rparr>))))))"

text \<open>These two do not look at the valid flag.\<close>

definition ListMutableIteratorHasNext :: "'a lheap \<Rightarrow> addr ptr \<Rightarrow> bool res" where
  "ListMutableIteratorHasNext h ip = (case ip of
     NULL \<Rightarrow> Ok False
   | Ptr i \<Rightarrow>
       bindE (deref (lh_iters h) ip) (\<lambda>(_, it).
       bindE (deref (lh_nodes h) (mi_current it)) (\<lambda>(_, n). Ok (dn_next n \<noteq> NULL))))"

definition ListMutableIteratorHasPrevious :: "'a lheap \<Rightarrow> addr ptr \<Rightarrow> bool res" where
  "ListMutableIteratorHasPrevious h ip = (case ip of
     NULL \<Rightarrow> Ok False
   | Ptr i \<Rightarrow>
       bindE (deref (lh_iters h) ip) (\<lambda>(_, it).
       bindE (deref (lh_nodes h) (mi_current it)) (\<lambda>(_, n). Ok (dn_previous n \<noteq> NULL))))"

text \<open>The payloads of a list in order, read through its links, and its node count.\<close>

fun walk :: "nat \<Rightarrow> (addr \<rightharpoonup> 'a ptr cell dnode) \<Rightarrow> addr ptr \<Rightarrow> 'a ptr list res" where
  "walk 0 nodes p = (if p = NULL then Ok [] else Fault OutOfFuel)"
| "walk (Suc fuel) nodes p =
     (if p = NULL then Ok []
      else bindE (deref nodes p) (\<lambda>(_, n). bindE (read_payload (dn_data n)) (\<lambda>x.
           bindE (walk fuel nodes (dn_next n)) (\<lambda>xs. Ok (x # xs)))))"

definition contents :: "'a lheap \<Rightarrow> addr \<Rightarrow> ('a ptr list \<times> int) res" where
  "contents h l = bindE (get_list h l) (\<lambda>lst.
     bindE (walk (lh_fresh h) (lh_nodes h) (l_first lst)) (\<lambda>xs. Ok (xs, l_node_count lst)))"

end
