(* ===== verification/ListCow.thy ===== *)
theory ListCow
  imports ListLib
begin

text \<open>
  Copy on write: lists made with ListCopy share their nodes until one of them changes, and yet every
  list behaves as a value of its own. The layout says which nodes, which reference count and which
  users belong to a list; the invariant \<open>cow\<close> ties it to the heap.
\<close>

section \<open>Searching linked nodes\<close>

lemma find_node_hit:
  "dseg h p (as @ a # bs) (xs @ x # ys) NULL \<Longrightarrow> length as = length xs \<Longrightarrow> length as < fuel \<Longrightarrow>
   (\<And>y. y \<in> set (xs @ [x]) \<Longrightarrow> P y = Ok (Q y)) \<Longrightarrow> Q x \<Longrightarrow> \<forall>y \<in> set xs. \<not> Q y \<Longrightarrow>
   find_node fuel h P (first_of (as @ a # bs))
     = Ok (Some (a, \<lparr>dn_data = x, dn_next = first_of bs, dn_previous = last_or p as\<rparr>))"
proof (induction as xs arbitrary: p fuel rule: list_induct2')
  case 1
  then show ?case by (cases fuel) auto
next
  case (4 b as y xs)
  then obtain f where f: "fuel = Suc f" by (cases fuel) auto
  have "find_node f h P (first_of (as @ a # bs))
      = Ok (Some (a, \<lparr>dn_data = x, dn_next = first_of bs, dn_previous = last_or (Ptr b) as\<rparr>))"
    by (rule "4.IH") (use 4 f in auto)
  then show ?case using 4 f by (cases as) (auto simp: deref_def)
qed auto

lemma find_node_miss:
  "chain h p as xs \<Longrightarrow> length as \<le> fuel \<Longrightarrow> (\<And>y. y \<in> set xs \<Longrightarrow> P y = Ok False) \<Longrightarrow>
   find_node fuel h P (first_of as) = Ok None"
proof (induction as arbitrary: p xs fuel)
  case Nil
  then show ?case by (cases fuel) auto
next
  case (Cons b as)
  then obtain f y ys where f: "fuel = Suc f" "xs = y # ys" by (cases fuel; cases xs) auto
  have "find_node f h P (first_of as) = Ok None" by (rule Cons.IH [of "Ptr b" ys]) (use Cons.prems f in auto)
  then show ?case using Cons.prems f by (auto simp: deref_def)
qed

section \<open>Reference counts\<close>

definition ref_ok :: "'a lheap \<Rightarrow> addr \<Rightarrow> addr list \<Rightarrow> addr list \<Rightarrow> bool" where
  "ref_ok h r us as \<longleftrightarrow> (\<exists>R. lh_refs h r = Some R \<and> rc_user_count R = length us \<and> rc_users R = first_of as
     \<and> rc_last R = last_or NULL as \<and> chain (lh_rnodes h) NULL as us \<and> distinct as \<and> distinct us
     \<and> (\<forall>a \<in> set as. a < lh_fresh h) \<and> r < lh_fresh h)"

text \<open>The parts of the heap a reference count operation leaves alone.\<close>

definition same_lists :: "'a lheap \<Rightarrow> 'a lheap \<Rightarrow> bool" where
  "same_lists h h' \<longleftrightarrow> lh_nodes h' = lh_nodes h \<and> lh_lists h' = lh_lists h \<and> lh_iters h' = lh_iters h"

definition ref_frame :: "addr \<Rightarrow> addr set \<Rightarrow> 'a lheap \<Rightarrow> 'a lheap \<Rightarrow> bool" where
  "ref_frame r A h h' \<longleftrightarrow> same_lists h h' \<and> (\<forall>s. s \<noteq> r \<longrightarrow> lh_refs h' s = lh_refs h s)
     \<and> (\<forall>a. a \<notin> A \<longrightarrow> lh_rnodes h' a = lh_rnodes h a)"

lemma RefCountIsShared_eq: "ref_ok h r us as \<Longrightarrow> RefCountIsShared h r = Ok (length us > 1)"
  by (auto simp: ref_ok_def RefCountIsShared_def get_ref_def)

lemma RefCountAttach_ok:
  assumes "ref_ok h r us as" "l \<notin> set us"
  shows "\<exists>h'. RefCountAttach h r l = Ok h' \<and> ref_ok h' r (us @ [l]) (as @ [lh_fresh h])
    \<and> ref_frame r (set (as @ [lh_fresh h])) h h' \<and> lh_fresh h' = lh_fresh h + 1"
proof -
  let ?n = "lh_fresh h"
  from assms(1) obtain R where R: "lh_refs h r = Some R" "rc_user_count R = length us" "rc_users R = first_of as"
    "rc_last R = last_or NULL as" "chain (lh_rnodes h) NULL as us" "distinct as" "distinct us"
    "\<forall>a \<in> set as. a < ?n" "r < ?n" by (auto simp: ref_ok_def)
  have fresh: "?n \<notin> set as" using R(8) by auto
  show ?thesis
  proof (cases as rule: rev_cases)
    case Nil
    then have us: "us = []" using R(5) by simp
    let ?h = "put_ref r (R\<lparr>rc_user_count := rc_user_count R + 1, rc_users := Ptr ?n, rc_last := Ptr ?n\<rparr>)
      (h\<lparr>lh_fresh := ?n + 1, lh_rnodes := (lh_rnodes h)(?n \<mapsto> \<lparr>dn_data = l, dn_next = NULL, dn_previous = NULL\<rparr>)\<rparr>)"
    have "RefCountAttach h r l = Ok ?h" using R(1,4) Nil by (simp add: RefCountAttach_def get_ref_def Let_def)
    moreover have "ref_ok ?h r [l] [?n]" using R Nil us by (simp add: ref_ok_def put_ref_def)
    ultimately show ?thesis using Nil us by (simp add: ref_frame_def same_lists_def put_ref_def)
  next
    case (snoc bs t)
    from chain_snoc [of "lh_rnodes h" NULL bs t us ?n l] R(5,6) fresh snoc obtain tn where
      tn: "lh_rnodes h t = Some tn" "chain ((lh_rnodes h)(t \<mapsto> tn\<lparr>dn_next := Ptr ?n\<rparr>,
        ?n \<mapsto> \<lparr>dn_data = l, dn_next = NULL, dn_previous = Ptr t\<rparr>)) NULL (as @ [?n]) (us @ [l])" by auto
    let ?h = "put_ref r (R\<lparr>rc_user_count := rc_user_count R + 1, rc_last := Ptr ?n\<rparr>)
      (h\<lparr>lh_fresh := ?n + 1, lh_rnodes := (lh_rnodes h)(t \<mapsto> tn\<lparr>dn_next := Ptr ?n\<rparr>,
        ?n \<mapsto> \<lparr>dn_data = l, dn_next = NULL, dn_previous = Ptr t\<rparr>)\<rparr>)"
    have "RefCountAttach h r l = Ok ?h"
      using R(1,4) snoc tn(1) by (simp add: RefCountAttach_def get_ref_def Let_def)
    moreover have "ref_ok ?h r (us @ [l]) (as @ [?n])"
      using R snoc tn(2) fresh assms(2) by (auto simp: ref_ok_def put_ref_def less_Suc_eq)
    ultimately show ?thesis using snoc by (auto simp: ref_frame_def same_lists_def put_ref_def)
  qed
qed

lemma RefCountDetach_ok:
  assumes "ref_ok h r us as" "l \<in> set us" "length us > 1"
  shows "\<exists>h' as'. RefCountDetach h r l = Ok h' \<and> ref_ok h' r (remove1 l us) as' \<and> set as' \<subseteq> set as
    \<and> ref_frame r (set as) h h' \<and> lh_fresh h' = lh_fresh h"
proof -
  from assms(1) obtain R where R: "lh_refs h r = Some R" "rc_user_count R = length us" "rc_users R = first_of as"
    "rc_last R = last_or NULL as" "chain (lh_rnodes h) NULL as us" "distinct as" "distinct us"
    "\<forall>a \<in> set as. a < lh_fresh h" "r < lh_fresh h" by (auto simp: ref_ok_def)
  from split_list_first [OF assms(2)] obtain xs ys where us: "us = xs @ l # ys" "l \<notin> set xs" by blast
  have len: "length as = length us" using dseg_length [OF R(5)] .
  define bs where "bs = take (length xs) as"
  define a where "a = as ! length xs"
  define cs where "cs = drop (Suc (length xs)) as"
  have as: "as = bs @ a # cs" "length bs = length xs"
    using len us(1) by (auto simp: bs_def a_def cs_def id_take_nth_drop)
  let ?node = "\<lparr>dn_data = l, dn_next = first_of cs, dn_previous = last_or NULL bs\<rparr>"
  have fuel: "length bs < lh_fresh h" using distinct_bounded_length [OF R(6,8)] as(1) by simp
  have find: "find_node (lh_fresh h) (lh_rnodes h) (\<lambda>user. Ok (user = l)) (first_of as) = Ok (Some (a, ?node))"
    unfolding as(1) by (rule find_node_hit [where Q = "\<lambda>u. u = l"]) (use R(5) as us fuel in auto)
  from unlink_chain [of "lh_rnodes h" bs a cs xs l ys] R(5,6) as us(1) obtain rn where
    rn: "unlink (lh_rnodes h) ?node (first_of as, last_or NULL as) = Ok (rn, first_of (bs @ cs), last_or NULL (bs @ cs))"
      "chain rn NULL (bs @ cs) (xs @ ys)" "\<forall>c. c \<notin> set bs \<union> set cs \<longrightarrow> rn c = lh_rnodes h c"
    by (auto simp: dseg_append)
  have notsingle: "\<not> (last_or NULL bs = NULL \<and> first_of cs = NULL)" using assms(3) len as(1) us(1) by auto
  let ?R = "R\<lparr>rc_user_count := rc_user_count R - 1, rc_users := first_of (bs @ cs), rc_last := last_or NULL (bs @ cs)\<rparr>"
  let ?h = "put_ref r ?R (h\<lparr>lh_rnodes := rn(a := None)\<rparr>)"
  have "RefCountDetach h r l = Ok ?h"
    using R(1-4) assms(3) find rn(1) notsingle by (auto simp: RefCountDetach_def get_ref_def)
  moreover have "a \<notin> set (bs @ cs)" using R(6) as(1) by simp
  then have "chain (rn(a := None)) NULL (bs @ cs) (xs @ ys)" using rn(2) by simp
  then have "ref_ok ?h r (remove1 l us) (bs @ cs)"
    using R as us by (auto simp: ref_ok_def put_ref_def remove1_append)
  moreover have "ref_frame r (set as) h ?h"
    using rn(3) as(1) by (auto simp: ref_frame_def same_lists_def put_ref_def)
  ultimately show ?thesis using as(1) by (intro exI [of _ ?h] exI [of _ "bs @ cs"]) (auto simp: put_ref_def)
qed

section \<open>The invariant\<close>

record layout =
  ly_nodes :: "addr \<Rightarrow> addr list"
  ly_ref :: "addr \<Rightarrow> addr"
  ly_users :: "addr \<Rightarrow> addr list"
  ly_rnodes :: "addr \<Rightarrow> addr list"

abbreviation payloads :: "'a list \<Rightarrow> 'a ptr cell list" where
  "payloads xs \<equiv> map (\<lambda>x. Val (Ptr x)) xs"

text \<open>A list record with its nodes. Every list has the same comparison function and the same copy function.\<close>

definition list_ok ::
  "'a lheap \<Rightarrow> ('a ptr \<Rightarrow> 'a ptr \<Rightarrow> int) option \<Rightarrow> ('a \<Rightarrow> 'a) \<Rightarrow> addr \<Rightarrow> 'a list \<Rightarrow> addr list \<Rightarrow> addr \<Rightarrow> bool" where
  "list_ok h cmp copy l xs as r \<longleftrightarrow> (\<exists>L. lh_lists h l = Some L \<and> l_node_count L = int (length xs)
     \<and> l_list L = first_of as \<and> l_first L = first_of as \<and> l_last L = last_or NULL as \<and> l_compare L = cmp
     \<and> l_copy L = Some copy \<and> l_iterator L = NULL \<and> l_ref_count L = r
     \<and> chain (lh_nodes h) NULL as (payloads xs) \<and> distinct as \<and> (\<forall>a \<in> set as. a < lh_fresh h))"

definition cow ::
  "'a lheap \<Rightarrow> ('a ptr \<Rightarrow> 'a ptr \<Rightarrow> int) option \<Rightarrow> ('a \<Rightarrow> 'a) \<Rightarrow> (addr \<rightharpoonup> 'a list) \<Rightarrow> layout \<Rightarrow> bool" where
  "cow h cmp copy m y \<longleftrightarrow>
     (\<forall>l xs. m l = Some xs \<longrightarrow> list_ok h cmp copy l xs (ly_nodes y l) (ly_ref y l) \<and> l < lh_fresh h
        \<and> ref_ok h (ly_ref y l) (ly_users y (ly_ref y l)) (ly_rnodes y (ly_ref y l))
        \<and> set (ly_users y (ly_ref y l)) = {k \<in> dom m. ly_ref y k = ly_ref y l})
     \<and> (\<forall>k l. k \<in> dom m \<longrightarrow> l \<in> dom m \<longrightarrow>
          (if ly_ref y k = ly_ref y l then ly_nodes y k = ly_nodes y l
           else set (ly_nodes y k) \<inter> set (ly_nodes y l) = {}
             \<and> set (ly_rnodes y (ly_ref y k)) \<inter> set (ly_rnodes y (ly_ref y l)) = {}))"

lemma list_ok_frame:
  assumes "list_ok h cmp copy l xs as r" "lh_lists h' l = lh_lists h l"
    "\<And>a. a \<in> set as \<Longrightarrow> lh_nodes h' a = lh_nodes h a" "lh_fresh h \<le> lh_fresh h'"
  shows "list_ok h' cmp copy l xs as r"
proof -
  have "chain (lh_nodes h) NULL as (payloads xs)" using assms(1) by (auto simp: list_ok_def)
  then have "chain (lh_nodes h') NULL as (payloads xs)" by (rule dseg_frame) (rule assms(3))
  then show ?thesis using assms(1,2,4) by (auto simp: list_ok_def intro: less_le_trans)
qed

lemma ref_ok_frame:
  assumes "ref_ok h r us as" "lh_refs h' r = lh_refs h r"
    "\<And>a. a \<in> set as \<Longrightarrow> lh_rnodes h' a = lh_rnodes h a" "lh_fresh h \<le> lh_fresh h'"
  shows "ref_ok h' r us as"
proof -
  have "chain (lh_rnodes h) NULL as us" using assms(1) by (auto simp: ref_ok_def)
  then have "chain (lh_rnodes h') NULL as us" by (rule dseg_frame) (rule assms(3))
  then show ?thesis using assms(1,2,4) by (auto simp: ref_ok_def intro: less_le_trans)
qed

lemma cowI:
  assumes "\<And>l xs. m l = Some xs \<Longrightarrow> list_ok h cmp copy l xs (ly_nodes y l) (ly_ref y l) \<and> l < lh_fresh h
      \<and> ref_ok h (ly_ref y l) (ly_users y (ly_ref y l)) (ly_rnodes y (ly_ref y l))
      \<and> set (ly_users y (ly_ref y l)) = {k \<in> dom m. ly_ref y k = ly_ref y l}"
    "\<And>k l. k \<in> dom m \<Longrightarrow> l \<in> dom m \<Longrightarrow> ly_ref y k = ly_ref y l \<Longrightarrow> ly_nodes y k = ly_nodes y l"
    "\<And>k l. k \<in> dom m \<Longrightarrow> l \<in> dom m \<Longrightarrow> ly_ref y k \<noteq> ly_ref y l \<Longrightarrow> set (ly_nodes y k) \<inter> set (ly_nodes y l) = {}
      \<and> set (ly_rnodes y (ly_ref y k)) \<inter> set (ly_rnodes y (ly_ref y l)) = {}"
  shows "cow h cmp copy m y"
proof -
  have "if ly_ref y k = ly_ref y l then ly_nodes y k = ly_nodes y l
      else set (ly_nodes y k) \<inter> set (ly_nodes y l) = {}
        \<and> set (ly_rnodes y (ly_ref y k)) \<inter> set (ly_rnodes y (ly_ref y l)) = {}" if "k \<in> dom m" "l \<in> dom m" for k l
    using assms(2) [OF that] assms(3) [OF that] by presburger
  then show ?thesis unfolding cow_def using assms(1) by blast
qed

lemma cowD:
  assumes "cow h cmp copy m y" "m l = Some xs"
  shows "list_ok h cmp copy l xs (ly_nodes y l) (ly_ref y l)" "l < lh_fresh h"
    "ref_ok h (ly_ref y l) (ly_users y (ly_ref y l)) (ly_rnodes y (ly_ref y l))"
    "set (ly_users y (ly_ref y l)) = {k \<in> dom m. ly_ref y k = ly_ref y l}"
  using assms unfolding cow_def by blast+

lemma cow_apart:
  assumes "cow h cmp copy m y" "k \<in> dom m" "l \<in> dom m" "ly_ref y k \<noteq> ly_ref y l"
  shows "set (ly_nodes y k) \<inter> set (ly_nodes y l) = {}"
    "set (ly_rnodes y (ly_ref y k)) \<inter> set (ly_rnodes y (ly_ref y l)) = {}"
proof -
  have "set (ly_nodes y k) \<inter> set (ly_nodes y l) = {} \<and> set (ly_rnodes y (ly_ref y k)) \<inter> set (ly_rnodes y (ly_ref y l)) = {}"
    using assms unfolding cow_def by metis
  then show "set (ly_nodes y k) \<inter> set (ly_nodes y l) = {}"
    "set (ly_rnodes y (ly_ref y k)) \<inter> set (ly_rnodes y (ly_ref y l)) = {}" by blast+
qed

lemma cow_shared_nodes:
  "cow h cmp copy m y \<Longrightarrow> k \<in> dom m \<Longrightarrow> l \<in> dom m \<Longrightarrow> ly_ref y k = ly_ref y l \<Longrightarrow> ly_nodes y k = ly_nodes y l"
  unfolding cow_def by metis

text \<open>A list that is the only user of its reference count may change its own nodes.\<close>

definition exclusive :: "layout \<Rightarrow> addr \<Rightarrow> bool" where
  "exclusive y l \<longleftrightarrow> ly_users y (ly_ref y l) = [l]"

lemma exclusive_ref:
  assumes "cow h cmp copy m y" "exclusive y l" "l \<in> dom m" "k \<in> dom m" "k \<noteq> l"
  shows "ly_ref y k \<noteq> ly_ref y l"
proof
  assume same: "ly_ref y k = ly_ref y l"
  from assms(3) obtain xs where "m l = Some xs" by blast
  from cowD(4) [OF assms(1) this] have "k \<in> set (ly_users y (ly_ref y l))" using assms(4) same by simp
  then show False using assms(2,5) by (simp add: exclusive_def)
qed

lemma cow_update:
  assumes "cow h cmp copy m y" "l \<in> dom m" "exclusive y l"
    and new: "list_ok h' cmp copy l ys as (ly_ref y l)"
    and lists: "\<And>k. k \<noteq> l \<Longrightarrow> lh_lists h' k = lh_lists h k"
    and nodes: "\<And>a. a < lh_fresh h \<Longrightarrow> a \<notin> set (ly_nodes y l) \<Longrightarrow> lh_nodes h' a = lh_nodes h a"
    and refs: "lh_refs h' = lh_refs h" "lh_rnodes h' = lh_rnodes h"
    and fresh: "lh_fresh h \<le> lh_fresh h'" "\<And>a. a \<in> set as \<Longrightarrow> a < lh_fresh h \<Longrightarrow> a \<in> set (ly_nodes y l)"
  shows "cow h' cmp copy (m(l \<mapsto> ys)) (y\<lparr>ly_nodes := (ly_nodes y)(l := as)\<rparr>)"
proof -
  have other: "set (ly_nodes y k) \<inter> set (ly_nodes y l) = {}" "\<forall>a \<in> set (ly_nodes y k). a < lh_fresh h"
    "set (ly_nodes y k) \<inter> set as = {}" if "k \<in> dom m" "k \<noteq> l" for k
  proof -
    show apart: "set (ly_nodes y k) \<inter> set (ly_nodes y l) = {}"
      using cow_apart(1) [OF assms(1) that(1) assms(2) exclusive_ref [OF assms(1,3,2) that]] .
    from that obtain zs where "m k = Some zs" by blast
    from cowD(1) [OF assms(1) this] show "\<forall>a \<in> set (ly_nodes y k). a < lh_fresh h" by (auto simp: list_ok_def)
    then show "set (ly_nodes y k) \<inter> set as = {}" using apart fresh(2) by blast
  qed
  have refs_ok: "ref_ok h' (ly_ref y k) (ly_users y (ly_ref y k)) (ly_rnodes y (ly_ref y k))"
    if "m k = Some zs" for k zs
    by (rule ref_ok_frame [OF cowD(3) [OF assms(1) that]]) (simp_all add: refs fresh(1))
  have lists_ok: "list_ok h' cmp copy k zs (ly_nodes y k) (ly_ref y k)" if "m k = Some zs" "k \<noteq> l" for k zs
    using that other [of k] nodes lists [OF that(2)] fresh(1)
    by (intro list_ok_frame [OF cowD(1) [OF assms(1) that(1)]]) blast+
  have users: "set (ly_users y (ly_ref y k)) = {j \<in> dom (m(l \<mapsto> ys)). ly_ref y j = ly_ref y k}" if "m k = Some zs" for k zs
    using cowD(4) [OF assms(1) that] assms(2) by auto
  have below: "k < lh_fresh h'" if "m k = Some zs" for k zs
    using cowD(2) [OF assms(1) that] fresh(1) by linarith
  obtain xs where xs: "m l = Some xs" using assms(2) by blast
  let ?y = "y\<lparr>ly_nodes := (ly_nodes y)(l := as)\<rparr>"
  have dom: "dom (m(l \<mapsto> ys)) = dom m" using assms(2) by auto
  have each: "list_ok h' cmp copy k zs (ly_nodes ?y k) (ly_ref ?y k) \<and> k < lh_fresh h'
      \<and> ref_ok h' (ly_ref ?y k) (ly_users ?y (ly_ref ?y k)) (ly_rnodes ?y (ly_ref ?y k))
      \<and> set (ly_users ?y (ly_ref ?y k)) = {j \<in> dom (m(l \<mapsto> ys)). ly_ref ?y j = ly_ref ?y k}"
    if "(m(l \<mapsto> ys)) k = Some zs" for k zs
  proof (cases "k = l")
    case True
    then show ?thesis using that new refs_ok [OF xs] users [OF xs] below [OF xs] by simp
  next
    case False
    then have "m k = Some zs" using that by simp
    then show ?thesis using lists_ok [OF _ False] refs_ok users below False by simp
  qed
  show ?thesis
  proof (rule cowI [OF each])
    fix j k assume jk: "j \<in> dom (m(l \<mapsto> ys))" "k \<in> dom (m(l \<mapsto> ys))" and "ly_ref ?y j = ly_ref ?y k"
    then have "ly_ref y j = ly_ref y k" "j \<in> dom m" "k \<in> dom m" by (simp_all add: dom del: dom_fun_upd)
    then show "ly_nodes ?y j = ly_nodes ?y k"
      using exclusive_ref [OF assms(1,3,2), of j] exclusive_ref [OF assms(1,3,2), of k] cow_shared_nodes [OF assms(1), of j k]
      by (cases "j = l"; cases "k = l") auto
  next
    fix j k assume jk: "j \<in> dom (m(l \<mapsto> ys))" "k \<in> dom (m(l \<mapsto> ys))" and "ly_ref ?y j \<noteq> ly_ref ?y k"
    then have d: "ly_ref y j \<noteq> ly_ref y k" "j \<in> dom m" "k \<in> dom m" by (simp_all add: dom del: dom_fun_upd)
    then show "set (ly_nodes ?y j) \<inter> set (ly_nodes ?y k) = {}
      \<and> set (ly_rnodes ?y (ly_ref ?y j)) \<inter> set (ly_rnodes ?y (ly_ref ?y k)) = {}"
      using cow_apart [OF assms(1) d(2,3,1)] other(3) [OF d(2)] other(3) [OF d(3)]
      by (cases "j = l"; cases "k = l") (simp_all add: Int_commute)
  qed
qed

section \<open>Leaving and founding groups of lists\<close>

lemma cow_leave:
  assumes "cow h cmp copy m y" "m l = Some xs" "\<not> exclusive y l"
    and h1: "lh_refs h1 = lh_refs h" "lh_rnodes h1 = lh_rnodes h" "lh_fresh h \<le> lh_fresh h1"
      "\<And>k. k \<noteq> l \<Longrightarrow> lh_lists h1 k = lh_lists h k" "\<And>a. a < lh_fresh h \<Longrightarrow> lh_nodes h1 a = lh_nodes h a"
  shows "\<exists>h2 as. RefCountDetach h1 (ly_ref y l) l = Ok h2 \<and> same_lists h1 h2 \<and> lh_fresh h2 = lh_fresh h1
    \<and> cow h2 cmp copy (m(l := None)) (y\<lparr>ly_users := (ly_users y)(ly_ref y l := remove1 l (ly_users y (ly_ref y l))),
        ly_rnodes := (ly_rnodes y)(ly_ref y l := as)\<rparr>)"
proof -
  let ?r = "ly_ref y l" and ?us = "ly_users y (ly_ref y l)"
  have us: "l \<in> set ?us" using cowD(4) [OF assms(1,2)] assms(2) by auto
  have dist: "distinct ?us" using cowD(3) [OF assms(1,2)] by (auto simp: ref_ok_def)
  have "length ?us > 1"
    using us assms(3) by (cases ?us rule: remdups_adj.cases) (auto simp: exclusive_def)
  moreover have "ref_ok h1 ?r ?us (ly_rnodes y ?r)"
    by (rule ref_ok_frame [OF cowD(3) [OF assms(1,2)]]) (simp_all add: h1)
  ultimately obtain h2 as where h2: "RefCountDetach h1 ?r l = Ok h2" "ref_ok h2 ?r (remove1 l ?us) as"
    "set as \<subseteq> set (ly_rnodes y ?r)" "ref_frame ?r (set (ly_rnodes y ?r)) h1 h2" "lh_fresh h2 = lh_fresh h1"
    using RefCountDetach_ok us by blast
  let ?y = "y\<lparr>ly_users := (ly_users y)(?r := remove1 l ?us), ly_rnodes := (ly_rnodes y)(?r := as)\<rparr>"
  have fr: "lh_lists h2 = lh_lists h1" "lh_nodes h2 = lh_nodes h1" "\<And>s. s \<noteq> ?r \<Longrightarrow> lh_refs h2 s = lh_refs h s"
    "\<And>a. a \<notin> set (ly_rnodes y ?r) \<Longrightarrow> lh_rnodes h2 a = lh_rnodes h a"
    using h2(4) h1 by (auto simp: ref_frame_def same_lists_def)
  have "cow h2 cmp copy (m(l := None)) ?y"
  proof (rule cowI)
    fix k zs assume "(m(l := None)) k = Some zs"
    then have k: "m k = Some zs" "k \<noteq> l" by (auto split: if_splits)
    have "list_ok h2 cmp copy k zs (ly_nodes y k) (ly_ref y k)"
      using cowD(1) [OF assms(1) k(1)] k(2) h1(3-5) h2(5)
      by (intro list_ok_frame [OF cowD(1) [OF assms(1) k(1)]]) (auto simp: fr list_ok_def)
    moreover have "k < lh_fresh h2" using cowD(2) [OF assms(1) k(1)] h1(3) h2(5) by linarith
    moreover have "ref_ok h2 (ly_ref y k) (ly_users ?y (ly_ref y k)) (ly_rnodes ?y (ly_ref y k))"
    proof (cases "ly_ref y k = ?r")
      case False
      have "set (ly_rnodes y (ly_ref y k)) \<inter> set (ly_rnodes y ?r) = {}"
        using cow_apart(2) [OF assms(1) _ _ False] k assms(2) by blast
      then have "ref_ok h2 (ly_ref y k) (ly_users y (ly_ref y k)) (ly_rnodes y (ly_ref y k))"
        using False h1(3) h2(5) by (intro ref_ok_frame [OF cowD(3) [OF assms(1) k(1)]] fr) auto
      then show ?thesis using False by simp
    qed (use h2(2) in simp)
    moreover have "set (ly_users ?y (ly_ref y k)) = {j \<in> dom (m(l := None)). ly_ref y j = ly_ref y k}"
      using cowD(4) [OF assms(1) k(1)] cowD(4) [OF assms(1,2)] dist by (cases "ly_ref y k = ?r") auto
    ultimately show "list_ok h2 cmp copy k zs (ly_nodes ?y k) (ly_ref ?y k) \<and> k < lh_fresh h2
      \<and> ref_ok h2 (ly_ref ?y k) (ly_users ?y (ly_ref ?y k)) (ly_rnodes ?y (ly_ref ?y k))
      \<and> set (ly_users ?y (ly_ref ?y k)) = {j \<in> dom (m(l := None)). ly_ref ?y j = ly_ref ?y k}" by simp
  next
    fix j k assume "j \<in> dom (m(l := None))" "k \<in> dom (m(l := None))" "ly_ref ?y j = ly_ref ?y k"
    then show "ly_nodes ?y j = ly_nodes ?y k" using cow_shared_nodes [OF assms(1), of j k] by auto
  next
    fix j k assume "j \<in> dom (m(l := None))" "k \<in> dom (m(l := None))" "ly_ref ?y j \<noteq> ly_ref ?y k"
    then have jk: "j \<in> dom m" "k \<in> dom m" "ly_ref y j \<noteq> ly_ref y k" by auto
    then show "set (ly_nodes ?y j) \<inter> set (ly_nodes ?y k) = {}
      \<and> set (ly_rnodes ?y (ly_ref ?y j)) \<inter> set (ly_rnodes ?y (ly_ref ?y k)) = {}"
      using cow_apart [OF assms(1) jk] h2(3)
      by (cases "ly_ref y j = ?r"; cases "ly_ref y k = ?r") (simp_all, blast+)
  qed
  then show ?thesis using h2 by (auto simp: ref_frame_def)
qed

text \<open>A list with nodes of its own and a new reference count.\<close>

definition found_group :: "addr \<Rightarrow> addr list \<Rightarrow> addr \<Rightarrow> layout \<Rightarrow> layout" where
  "found_group l as r y = y\<lparr>ly_nodes := (ly_nodes y)(l := as), ly_ref := (ly_ref y)(l := r),
     ly_users := (ly_users y)(r := [l]), ly_rnodes := (ly_rnodes y)(r := [r + 1])\<rparr>"

lemma cow_found:
  assumes "cow h cmp copy m y" "m l = None" "l < lh_fresh h"
    and L: "l_node_count L = int (length xs)" "l_list L = first_of as" "l_first L = first_of as" "l_last L = last_or NULL as"
      "l_compare L = cmp" "l_copy L = Some copy" "l_iterator L = NULL" "l_ref_count L = lh_fresh h"
    and as: "chain (lh_nodes h) NULL as (payloads xs)" "distinct as" "\<forall>a \<in> set as. a < lh_fresh h"
      "\<And>k. k \<in> dom m \<Longrightarrow> set (ly_nodes y k) \<inter> set as = {}"
  shows "\<exists>h'. RefCountAttach (put_list l L (snd (RefCountNew h))) (lh_fresh h) l = Ok h' \<and> lh_fresh h' = lh_fresh h + 2
    \<and> cow h' cmp copy (m(l \<mapsto> xs)) (found_group l as (lh_fresh h) y)"
proof -
  let ?r = "lh_fresh h"
  let ?g = "put_list l L (snd (RefCountNew h))"
  have g: "lh_fresh ?g = ?r + 1" "lh_nodes ?g = lh_nodes h" "lh_rnodes ?g = lh_rnodes h" "lh_lists ?g = (lh_lists h)(l \<mapsto> L)"
    "lh_refs ?g = (lh_refs h)(?r \<mapsto> \<lparr>rc_user_count = 0, rc_users = NULL, rc_last = NULL\<rparr>)"
    by (simp_all add: RefCountNew_def Let_def put_list_def put_ref_def)
  have "ref_ok ?g ?r [] []" using g by (simp add: ref_ok_def)
  from RefCountAttach_ok [OF this, of l] obtain h' where
    h': "RefCountAttach ?g ?r l = Ok h'" "ref_ok h' ?r [l] [?r + 1]" "ref_frame ?r {?r + 1} ?g h'" "lh_fresh h' = ?r + 2"
    using g(1) by auto
  have fr: "lh_lists h' = (lh_lists h)(l \<mapsto> L)" "lh_nodes h' = lh_nodes h" "\<And>s. s \<noteq> ?r \<Longrightarrow> lh_refs h' s = lh_refs h s"
    "\<And>a. a \<noteq> ?r + 1 \<Longrightarrow> lh_rnodes h' a = lh_rnodes h a"
    using h'(3) g by (auto simp: ref_frame_def same_lists_def)
  let ?y = "found_group l as ?r y"
  have old: "ly_ref y k < ?r" "\<forall>a \<in> set (ly_rnodes y (ly_ref y k)). a < ?r" if "k \<in> dom m" for k
    using that cowD(3) [OF assms(1)] by (auto simp: ref_ok_def)
  have "cow h' cmp copy (m(l \<mapsto> xs)) ?y"
  proof (rule cowI)
    fix k zs assume kz: "(m(l \<mapsto> xs)) k = Some zs"
    show "list_ok h' cmp copy k zs (ly_nodes ?y k) (ly_ref ?y k) \<and> k < lh_fresh h'
      \<and> ref_ok h' (ly_ref ?y k) (ly_users ?y (ly_ref ?y k)) (ly_rnodes ?y (ly_ref ?y k))
      \<and> set (ly_users ?y (ly_ref ?y k)) = {j \<in> dom (m(l \<mapsto> xs)). ly_ref ?y j = ly_ref ?y k}"
    proof (cases "k = l")
      case True
      have "\<forall>a \<in> set as. a < lh_fresh h'" using as(3) h'(4) by auto
      then have "list_ok h' cmp copy l xs as ?r" using L as by (simp add: list_ok_def fr)
      moreover have "{j \<in> dom (m(l \<mapsto> xs)). ly_ref ?y j = ?r} = {l}" using old by (force simp: found_group_def)
      ultimately show ?thesis using True kz h'(2,4) assms(3) by (simp add: found_group_def)
    next
      case False
      then have k: "m k = Some zs" "k \<in> dom m" using kz by auto
      have "list_ok h' cmp copy k zs (ly_nodes y k) (ly_ref y k)"
        using False h'(4) by (intro list_ok_frame [OF cowD(1) [OF assms(1) k(1)]]) (simp_all add: fr)
      moreover have "ref_ok h' (ly_ref y k) (ly_users y (ly_ref y k)) (ly_rnodes y (ly_ref y k))"
        using old [OF k(2)] h'(4) by (intro ref_ok_frame [OF cowD(3) [OF assms(1) k(1)]] fr) auto
      moreover have "{j \<in> dom (m(l \<mapsto> xs)). ly_ref ?y j = ly_ref y k} = {j \<in> dom m. ly_ref y j = ly_ref y k}"
        using old [OF k(2)] assms(2) by (auto simp: found_group_def)
      ultimately show ?thesis
        using False old [OF k(2)] cowD(2,4) [OF assms(1) k(1)] h'(4) by (auto simp: found_group_def)
    qed
  next
    fix j k assume "j \<in> dom (m(l \<mapsto> xs))" "k \<in> dom (m(l \<mapsto> xs))" "ly_ref ?y j = ly_ref ?y k"
    then show "ly_nodes ?y j = ly_nodes ?y k" using old cow_shared_nodes [OF assms(1), of j k]
      by (cases "j = l"; cases "k = l") (force simp: found_group_def)+
  next
    fix j k assume "j \<in> dom (m(l \<mapsto> xs))" "k \<in> dom (m(l \<mapsto> xs))" "ly_ref ?y j \<noteq> ly_ref ?y k"
    then show "set (ly_nodes ?y j) \<inter> set (ly_nodes ?y k) = {}
      \<and> set (ly_rnodes ?y (ly_ref ?y j)) \<inter> set (ly_rnodes ?y (ly_ref ?y k)) = {}"
      using old cow_apart [OF assms(1), of j k] as(4)
      by (cases "j = l"; cases "k = l") (force simp: found_group_def)+
  qed
  then show ?thesis using h'(1,4) by blast
qed

section \<open>ListDetach\<close>

text \<open>The copy loop: the nodes \<open>bs\<close> made so far get the copied elements of the chain \<open>as\<close> behind them.\<close>

lemma ListDetach_loop_ok:
  "chain (lh_nodes h) p as (payloads xs) \<Longrightarrow> chain (lh_nodes h) NULL bs (payloads ys) \<Longrightarrow> distinct bs \<Longrightarrow>
   set as \<inter> set bs = {} \<Longrightarrow> \<forall>a \<in> set as \<union> set bs. a < lh_fresh h \<Longrightarrow> length as \<le> fuel \<Longrightarrow>
   \<exists>h' cs. ListDetach_loop fuel (Some copy) h (first_of as) (first_of bs) (last_or NULL bs)
       = Ok (h', first_of (bs @ cs), last_or NULL (bs @ cs))
     \<and> chain (lh_nodes h') NULL (bs @ cs) (payloads (ys @ map copy xs)) \<and> distinct (bs @ cs)
     \<and> (\<forall>c \<in> set cs. lh_fresh h \<le> c \<and> c < lh_fresh h') \<and> (\<forall>a. a < lh_fresh h \<longrightarrow> a \<notin> set bs \<longrightarrow> lh_nodes h' a = lh_nodes h a)
     \<and> lh_refs h' = lh_refs h \<and> lh_rnodes h' = lh_rnodes h \<and> lh_lists h' = lh_lists h \<and> lh_fresh h \<le> lh_fresh h'"
proof (induction as arbitrary: h p xs bs ys fuel)
  case Nil
  then show ?case by (cases fuel) (auto intro!: exI [of _ "[]"])
next
  case (Cons a as)
  from Cons.prems(1) obtain x xs' where xs: "xs = x # xs'" by (cases xs) auto
  from Cons.prems(6) obtain f where f: "fuel = Suc f" by (cases fuel) auto
  let ?n = "lh_fresh h"
  have a: "lh_nodes h a = Some \<lparr>dn_data = Val (Ptr x), dn_next = first_of as, dn_previous = p\<rparr>"
    "chain (lh_nodes h) (Ptr a) as (payloads xs')" using Cons.prems(1) xs by auto
  have nf: "?n \<notin> set as" "?n \<notin> set bs" "a \<noteq> ?n" using Cons.prems(5) by auto
  let ?new = "\<lparr>dn_data = Val (Ptr (copy x)), dn_next = NULL, dn_previous = last_or NULL bs\<rparr>"
  have "\<exists>g. ListDetach_loop fuel (Some copy) h (first_of (a # as)) (first_of bs) (last_or NULL bs)
        = ListDetach_loop f (Some copy) g (first_of as) (first_of (bs @ [?n])) (last_or NULL (bs @ [?n]))
      \<and> chain (lh_nodes g) NULL (bs @ [?n]) (payloads (ys @ [copy x])) \<and> lh_fresh g = ?n + 1
      \<and> (\<forall>c. c \<notin> set bs \<longrightarrow> c \<noteq> ?n \<longrightarrow> lh_nodes g c = lh_nodes h c)
      \<and> lh_refs g = lh_refs h \<and> lh_rnodes g = lh_rnodes h \<and> lh_lists g = lh_lists h"
  proof (cases bs rule: rev_cases)
    case Nil
    let ?g = "h\<lparr>lh_fresh := ?n + 1, lh_nodes := (lh_nodes h)(?n \<mapsto> ?new)\<rparr>"
    have "ys = []" using Cons.prems(2) Nil by simp
    then show ?thesis using Nil f a(1)
      by (intro exI [of _ ?g]) (simp add: read_payload_def copy_payload_def Let_def)
  next
    case (snoc ds t)
    from chain_snoc [of "lh_nodes h" NULL ds t "payloads ys" ?n "Val (Ptr (copy x))"] Cons.prems(2,3) nf(2) snoc
    obtain tn where tn: "lh_nodes h t = Some tn" "chain ((lh_nodes h)(t \<mapsto> tn\<lparr>dn_next := Ptr ?n\<rparr>,
        ?n \<mapsto> ?new)) NULL (bs @ [?n]) (payloads (ys @ [copy x]))" by auto
    let ?g = "h\<lparr>lh_fresh := ?n + 1, lh_nodes := (lh_nodes h)(t \<mapsto> tn\<lparr>dn_next := Ptr ?n\<rparr>, ?n \<mapsto> ?new)\<rparr>"
    have "first_of bs \<noteq> NULL" using snoc by (cases ds) auto
    then show ?thesis using snoc f a(1) tn
      by (intro exI [of _ ?g]) (auto simp: read_payload_def copy_payload_def Let_def deref_def)
  qed
  then obtain g where g: "ListDetach_loop fuel (Some copy) h (first_of (a # as)) (first_of bs) (last_or NULL bs)
        = ListDetach_loop f (Some copy) g (first_of as) (first_of (bs @ [?n])) (last_or NULL (bs @ [?n]))"
      "chain (lh_nodes g) NULL (bs @ [?n]) (payloads (ys @ [copy x]))" "lh_fresh g = ?n + 1"
      "\<forall>c. c \<notin> set bs \<longrightarrow> c \<noteq> ?n \<longrightarrow> lh_nodes g c = lh_nodes h c"
      "lh_refs g = lh_refs h" "lh_rnodes g = lh_rnodes h" "lh_lists g = lh_lists h" by blast
  have "chain (lh_nodes g) (Ptr a) as (payloads xs')"
    by (rule dseg_frame [OF a(2)]) (use g(4) Cons.prems(4) nf in auto)
  moreover have "distinct (bs @ [?n])" "set as \<inter> set (bs @ [?n]) = {}" "\<forall>a \<in> set as \<union> set (bs @ [?n]). a < lh_fresh g" "length as \<le> f"
    using Cons.prems(3-6) nf f g(3) by (auto simp: less_Suc_eq)
  ultimately obtain h' cs where rec: "ListDetach_loop f (Some copy) g (first_of as) (first_of (bs @ [?n])) (last_or NULL (bs @ [?n]))
      = Ok (h', first_of ((bs @ [?n]) @ cs), last_or NULL ((bs @ [?n]) @ cs))"
    "chain (lh_nodes h') NULL ((bs @ [?n]) @ cs) (payloads ((ys @ [copy x]) @ map copy xs'))" "distinct ((bs @ [?n]) @ cs)"
    "\<forall>c \<in> set cs. lh_fresh g \<le> c \<and> c < lh_fresh h'" "\<forall>a. a < lh_fresh g \<longrightarrow> a \<notin> set (bs @ [?n]) \<longrightarrow> lh_nodes h' a = lh_nodes g a"
    "lh_refs h' = lh_refs g" "lh_rnodes h' = lh_rnodes g" "lh_lists h' = lh_lists g" "lh_fresh g \<le> lh_fresh h'"
    using Cons.IH [of g "Ptr a" xs' "bs @ [?n]" "ys @ [copy x]" f] g(2) by blast
  have "ListDetach_loop fuel (Some copy) h (first_of (a # as)) (first_of bs) (last_or NULL bs)
      = Ok (h', first_of (bs @ ?n # cs), last_or NULL (bs @ ?n # cs))"
    using g(1) rec(1) by (simp only: append_assoc append_Cons append_Nil)
  moreover have "chain (lh_nodes h') NULL (bs @ ?n # cs) (payloads (ys @ map copy xs))" "distinct (bs @ ?n # cs)"
    using rec(2,3) xs by simp_all
  moreover have "\<forall>c \<in> set (?n # cs). lh_fresh h \<le> c \<and> c < lh_fresh h'"
    "\<forall>a. a < lh_fresh h \<longrightarrow> a \<notin> set bs \<longrightarrow> lh_nodes h' a = lh_nodes h a" "lh_fresh h \<le> lh_fresh h'"
    using rec(4,5,9) g(3,4) by auto
  ultimately show ?case using rec(6-8) g(5-7) by metis
qed

text \<open>A list that shares its nodes gets copies of its elements.\<close>

definition detached :: "('a \<Rightarrow> 'a) \<Rightarrow> layout \<Rightarrow> addr \<Rightarrow> 'a list \<Rightarrow> 'a list" where
  "detached copy y l xs = (if exclusive y l then xs else map copy xs)"

lemma ListDetach_ok:
  assumes "cow h cmp copy m y" "m l = Some xs"
  shows "\<exists>h' y'. ListDetach h l = Ok h' \<and> cow h' cmp copy (m(l \<mapsto> detached copy y l xs)) y' \<and> exclusive y' l"
proof -
  let ?r = "ly_ref y l" and ?as = "ly_nodes y l"
  from cowD(1) [OF assms] obtain L where L: "lh_lists h l = Some L" "l_node_count L = int (length xs)"
    "l_list L = first_of ?as" "l_first L = first_of ?as" "l_last L = last_or NULL ?as" "l_compare L = cmp"
    "l_copy L = Some copy" "l_iterator L = NULL" "l_ref_count L = ?r" "chain (lh_nodes h) NULL ?as (payloads xs)"
    "distinct ?as" "\<forall>a \<in> set ?as. a < lh_fresh h" by (auto simp: list_ok_def)
  have us: "l \<in> set (ly_users y ?r)" using cowD(4) [OF assms] assms(2) by auto
  have shared: "RefCountIsShared h ?r = Ok (length (ly_users y ?r) > 1)"
    using RefCountIsShared_eq [OF cowD(3) [OF assms]] .
  have gl: "get_list h l = Ok L" using L(1) by (simp add: get_list_def)
  show ?thesis
  proof (cases "exclusive y l")
    case True
    moreover have "m(l \<mapsto> xs) = m" using assms(2) by auto
    ultimately show ?thesis using assms(1) gl shared L(9) by (auto simp: ListDetach_def exclusive_def detached_def)
  next
    case False
    then have more: "length (ly_users y ?r) > 1"
      using us by (cases "ly_users y ?r" rule: remdups_adj.cases) (auto simp: exclusive_def)
    have fuel: "length ?as \<le> lh_fresh h" using distinct_bounded_length [OF L(11,12)] .
    have "\<forall>a \<in> set ?as \<union> set []. a < lh_fresh h" using L(12) by simp
    from ListDetach_loop_ok [of h NULL ?as xs "[]" "[]", where copy = copy, OF L(10) _ _ _ this fuel] obtain h1 cs where
      h1: "ListDetach_loop (lh_fresh h) (Some copy) h (first_of ?as) NULL NULL = Ok (h1, first_of cs, last_or NULL cs)"
        "chain (lh_nodes h1) NULL cs (payloads (map copy xs))" "distinct cs" "\<forall>c \<in> set cs. lh_fresh h \<le> c \<and> c < lh_fresh h1"
        "\<forall>a. a < lh_fresh h \<longrightarrow> lh_nodes h1 a = lh_nodes h a" "lh_refs h1 = lh_refs h" "lh_rnodes h1 = lh_rnodes h"
        "lh_lists h1 = lh_lists h" "lh_fresh h \<le> lh_fresh h1" by auto
    let ?g = "put_list l (L\<lparr>l_list := first_of cs, l_first := first_of cs, l_last := last_or NULL cs\<rparr>) h1"
    have g: "lh_refs ?g = lh_refs h" "lh_rnodes ?g = lh_rnodes h" "lh_fresh ?g = lh_fresh h1" "lh_nodes ?g = lh_nodes h1"
      "\<And>k. k \<noteq> l \<Longrightarrow> lh_lists ?g k = lh_lists h k" using h1 by (simp_all add: put_list_def)
    from cow_leave [OF assms False, of ?g] g h1(5,9) obtain h2 ras where
      h2: "RefCountDetach ?g ?r l = Ok h2" "same_lists ?g h2" "lh_fresh h2 = lh_fresh h1"
        "cow h2 cmp copy (m(l := None)) (y\<lparr>ly_users := (ly_users y)(?r := remove1 l (ly_users y ?r)),
          ly_rnodes := (ly_rnodes y)(?r := ras)\<rparr>)" by auto
    let ?y = "y\<lparr>ly_users := (ly_users y)(?r := remove1 l (ly_users y ?r)), ly_rnodes := (ly_rnodes y)(?r := ras)\<rparr>"
    let ?L = "L\<lparr>l_list := first_of cs, l_first := first_of cs, l_last := last_or NULL cs, l_ref_count := lh_fresh h2\<rparr>"
    have lf: "l < lh_fresh h2" using cowD(2) [OF assms] h1(9) h2(3) by linarith
    have ch: "chain (lh_nodes h2) NULL cs (payloads (map copy xs))" "\<forall>a \<in> set cs. a < lh_fresh h2"
      using h1(2,4) h2(2,3) g(4) by (auto simp: same_lists_def)
    have apart: "set (ly_nodes ?y k) \<inter> set cs = {}" if "k \<in> dom (m(l := None))" for k
    proof -
      from that obtain zs where "m k = Some zs" by (auto split: if_splits)
      from cowD(1) [OF assms(1) this] show ?thesis using h1(4) by (fastforce simp: list_ok_def)
    qed
    from cow_found [OF h2(4) _ lf, of ?L "map copy xs" cs] L(2,6-8) ch h1(3) apart obtain h3 where
      h3: "RefCountAttach (put_list l ?L (snd (RefCountNew h2))) (lh_fresh h2) l = Ok h3"
        "cow h3 cmp copy ((m(l := None))(l \<mapsto> map copy xs)) (found_group l cs (lh_fresh h2) ?y)" by auto
    have "ListDetach h l = Ok h3"
      unfolding ListDetach_def gl L(9) using shared more h1(1) h2(1) h3(1) L(3,7)
      by (simp add: L(9) RefCountNew_def Let_def)
    moreover have "exclusive (found_group l cs (lh_fresh h2) ?y) l" by (simp add: exclusive_def found_group_def)
    ultimately show ?thesis using h3(2) False by (auto simp: detached_def)
  qed
qed

end
