(* ===== verification/ListValues.thy ===== *)
theory ListValues
  imports ListCow
begin

text \<open>
  The operations of the list on the invariant of \<open>ListCow\<close>, and the lists as values: a program of list
  operations over any number of lists gives every list the contents it would have if each copy were a
  list of its own. Elements are pointers; a copied element is another one with the same content, so that this
  holds when elements are compared by content, and removal by pointer from a shared list fails.
\<close>

section \<open>Operations\<close>

lemma list_okE:
  assumes "list_ok h cmp copy l xs as r"
  obtains L where "get_list h l = Ok L" "lh_lists h l = Some L" "l_node_count L = int (length xs)" "l_list L = first_of as"
    "l_first L = first_of as" "l_last L = last_or NULL as" "l_compare L = cmp" "l_copy L = Some copy" "l_iterator L = NULL"
    "l_ref_count L = r" "chain (lh_nodes h) NULL as (payloads xs)" "distinct as" "\<forall>a \<in> set as. a < lh_fresh h"
  using assms by (auto simp: list_ok_def get_list_def)

lemma ListAppend_ok:
  assumes "cow h cmp copy m y" "m l = Some xs"
  shows "\<exists>h' y'. ListAppend h (Ptr l) (Ptr x) = Ok (0, h') \<and> cow h' cmp copy (m(l \<mapsto> detached copy y l xs @ [x])) y' \<and> exclusive y' l"
proof -
  from ListDetach_ok [OF assms] obtain h1 z where
    h1: "ListDetach h l = Ok h1" "cow h1 cmp copy (m(l \<mapsto> detached copy y l xs)) z" "exclusive z l" by blast
  let ?xs = "detached copy y l xs" and ?as = "ly_nodes z l" and ?n = "lh_fresh h1"
  from cowD(1) [OF h1(2) fun_upd_same] obtain L where L: "get_list h1 l = Ok L" "lh_lists h1 l = Some L"
    "l_node_count L = int (length ?xs)" "l_list L = first_of ?as" "l_first L = first_of ?as" "l_last L = last_or NULL ?as"
    "l_compare L = cmp" "l_copy L = Some copy" "l_iterator L = NULL" "l_ref_count L = ly_ref z l"
    "chain (lh_nodes h1) NULL ?as (payloads ?xs)" "distinct ?as" "\<forall>a \<in> set ?as. a < ?n" by (rule list_okE)
  have fresh: "?n \<notin> set ?as" using L(13) by auto
  have "\<exists>h'. ListAppend h (Ptr l) (Ptr x) = Ok (0, h') \<and> list_ok h' cmp copy l (?xs @ [x]) (?as @ [?n]) (ly_ref z l)
      \<and> (\<forall>k. k \<noteq> l \<longrightarrow> lh_lists h' k = lh_lists h1 k) \<and> (\<forall>a. a < ?n \<longrightarrow> a \<notin> set ?as \<longrightarrow> lh_nodes h' a = lh_nodes h1 a)
      \<and> lh_refs h' = lh_refs h1 \<and> lh_rnodes h' = lh_rnodes h1 \<and> lh_fresh h' = ?n + 1"
  proof (cases ?as rule: rev_cases)
    case Nil
    then have "?xs = []" using L(11) by simp
    then show ?thesis using Nil h1(1) L by (simp add: ListAppend_def Let_def put_list_def list_ok_def)
  next
    case (snoc ds t)
    from chain_snoc [of "lh_nodes h1" NULL ds t "payloads ?xs" ?n "Val (Ptr x)"] L(11,12) fresh snoc
    obtain tn where tn: "lh_nodes h1 t = Some tn" "chain ((lh_nodes h1)(t \<mapsto> tn\<lparr>dn_next := Ptr ?n\<rparr>,
        ?n \<mapsto> \<lparr>dn_data = Val (Ptr x), dn_next = NULL, dn_previous = Ptr t\<rparr>)) NULL (?as @ [?n]) (payloads (?xs @ [x]))" by auto
    let ?h = "put_list l (L\<lparr>l_last := Ptr ?n, l_node_count := l_node_count L + 1\<rparr>)
      (h1\<lparr>lh_fresh := ?n + 1, lh_nodes := (lh_nodes h1)(t \<mapsto> tn\<lparr>dn_next := Ptr ?n\<rparr>,
         ?n \<mapsto> \<lparr>dn_data = Val (Ptr x), dn_next = NULL, dn_previous = Ptr t\<rparr>)\<rparr>)"
    have "ListAppend h (Ptr l) (Ptr x) = Ok (0, ?h)"
      using h1(1) L(1,6) snoc tn(1) by (simp add: ListAppend_def Let_def)
    moreover have "first_of (?as @ [?n]) = first_of ?as" using snoc by (cases ds) auto
    then have "list_ok ?h cmp copy l (?xs @ [x]) (?as @ [?n]) (ly_ref z l)"
      using L(3-10,12,13) tn(2) fresh by (auto simp: list_ok_def put_list_def less_Suc_eq)
    ultimately show ?thesis using snoc by (intro exI [of _ ?h]) (auto simp: put_list_def)
  qed
  then obtain h' where h': "ListAppend h (Ptr l) (Ptr x) = Ok (0, h')" "list_ok h' cmp copy l (?xs @ [x]) (?as @ [?n]) (ly_ref z l)"
      "\<forall>k. k \<noteq> l \<longrightarrow> lh_lists h' k = lh_lists h1 k" "\<forall>a. a < ?n \<longrightarrow> a \<notin> set ?as \<longrightarrow> lh_nodes h' a = lh_nodes h1 a"
      "lh_refs h' = lh_refs h1" "lh_rnodes h' = lh_rnodes h1" "lh_fresh h' = ?n + 1" by blast
  have "cow h' cmp copy (m(l \<mapsto> ?xs, l \<mapsto> ?xs @ [x])) (z\<lparr>ly_nodes := (ly_nodes z)(l := ?as @ [?n])\<rparr>)"
    by (rule cow_update [OF h1(2) _ h1(3) h'(2)]) (use h' in auto)
  moreover have "exclusive (z\<lparr>ly_nodes := (ly_nodes z)(l := ?as @ [?n])\<rparr>) l" using h1(3) by (simp add: exclusive_def)
  ultimately show ?thesis using h'(1) by (auto simp del: fun_upd_apply)
qed

lemma ListPrepend_ok:
  assumes "cow h cmp copy m y" "m l = Some xs"
  shows "\<exists>h' y'. ListPrepend h (Ptr l) (Ptr x) = Ok (0, h') \<and> cow h' cmp copy (m(l \<mapsto> x # detached copy y l xs)) y' \<and> exclusive y' l"
proof -
  from ListDetach_ok [OF assms] obtain h1 z where
    h1: "ListDetach h l = Ok h1" "cow h1 cmp copy (m(l \<mapsto> detached copy y l xs)) z" "exclusive z l" by blast
  let ?xs = "detached copy y l xs" and ?as = "ly_nodes z l" and ?n = "lh_fresh h1"
  from cowD(1) [OF h1(2) fun_upd_same] obtain L where L: "get_list h1 l = Ok L" "lh_lists h1 l = Some L"
    "l_node_count L = int (length ?xs)" "l_list L = first_of ?as" "l_first L = first_of ?as" "l_last L = last_or NULL ?as"
    "l_compare L = cmp" "l_copy L = Some copy" "l_iterator L = NULL" "l_ref_count L = ly_ref z l"
    "chain (lh_nodes h1) NULL ?as (payloads ?xs)" "distinct ?as" "\<forall>a \<in> set ?as. a < ?n" by (rule list_okE)
  have fresh: "?n \<notin> set ?as" using L(13) by auto
  have "\<exists>h'. ListPrepend h (Ptr l) (Ptr x) = Ok (0, h') \<and> list_ok h' cmp copy l (x # ?xs) (?n # ?as) (ly_ref z l)
      \<and> (\<forall>k. k \<noteq> l \<longrightarrow> lh_lists h' k = lh_lists h1 k) \<and> (\<forall>a. a < ?n \<longrightarrow> a \<notin> set ?as \<longrightarrow> lh_nodes h' a = lh_nodes h1 a)
      \<and> lh_refs h' = lh_refs h1 \<and> lh_rnodes h' = lh_rnodes h1 \<and> lh_fresh h' = ?n + 1"
  proof (cases ?as)
    case Nil
    then have "?xs = []" using L(11) by simp
    then show ?thesis using Nil h1(1) L by (simp add: ListPrepend_def Let_def put_list_def list_ok_def)
  next
    case (Cons b bs)
    from chain_cons [of "lh_nodes h1" b bs "payloads ?xs" ?n "Val (Ptr x)"] L(11,12) fresh Cons
    obtain bn where bn: "lh_nodes h1 b = Some bn" "chain ((lh_nodes h1)(?n \<mapsto> \<lparr>dn_data = Val (Ptr x), dn_next = Ptr b,
        dn_previous = NULL\<rparr>, b \<mapsto> bn\<lparr>dn_previous := Ptr ?n\<rparr>)) NULL (?n # ?as) (payloads (x # ?xs))" by auto
    let ?h = "put_list l (L\<lparr>l_list := Ptr ?n, l_first := Ptr ?n, l_node_count := l_node_count L + 1\<rparr>)
      (h1\<lparr>lh_fresh := ?n + 1, lh_nodes := (lh_nodes h1)(?n \<mapsto> \<lparr>dn_data = Val (Ptr x), dn_next = Ptr b,
        dn_previous = NULL\<rparr>, b \<mapsto> bn\<lparr>dn_previous := Ptr ?n\<rparr>)\<rparr>)"
    have "ListPrepend h (Ptr l) (Ptr x) = Ok (0, ?h)"
      using h1(1) L(1,4) Cons bn(1) by (simp add: ListPrepend_def Let_def)
    moreover have "last_or NULL (?n # ?as) = last_or NULL ?as" using Cons by simp
    then have "list_ok ?h cmp copy l (x # ?xs) (?n # ?as) (ly_ref z l)"
      using L(3-10,12,13) bn(2) fresh by (auto simp: list_ok_def put_list_def less_Suc_eq)
    ultimately show ?thesis using Cons by (intro exI [of _ ?h]) (auto simp: put_list_def)
  qed
  then obtain h' where h': "ListPrepend h (Ptr l) (Ptr x) = Ok (0, h')" "list_ok h' cmp copy l (x # ?xs) (?n # ?as) (ly_ref z l)"
      "\<forall>k. k \<noteq> l \<longrightarrow> lh_lists h' k = lh_lists h1 k" "\<forall>a. a < ?n \<longrightarrow> a \<notin> set ?as \<longrightarrow> lh_nodes h' a = lh_nodes h1 a"
      "lh_refs h' = lh_refs h1" "lh_rnodes h' = lh_rnodes h1" "lh_fresh h' = ?n + 1" by blast
  have "cow h' cmp copy (m(l \<mapsto> ?xs, l \<mapsto> x # ?xs)) (z\<lparr>ly_nodes := (ly_nodes z)(l := ?n # ?as)\<rparr>)"
    by (rule cow_update [OF h1(2) _ h1(3) h'(2)]) (use h' in auto)
  moreover have "exclusive (z\<lparr>ly_nodes := (ly_nodes z)(l := ?n # ?as)\<rparr>) l" using h1(3) by (simp add: exclusive_def)
  ultimately show ?thesis using h'(1) by (auto simp del: fun_upd_apply)
qed

text \<open>The element ListRemove takes: the first one the comparison function finds equal, or the same pointer.\<close>

definition equal_payload :: "('a ptr \<Rightarrow> 'a ptr \<Rightarrow> int) option \<Rightarrow> 'a \<Rightarrow> 'a \<Rightarrow> bool" where
  "equal_payload cmp x y = (case cmp of Some f \<Rightarrow> f (Ptr y) (Ptr x) = 0 | None \<Rightarrow> y = x)"

definition remove_first :: "('a \<Rightarrow> bool) \<Rightarrow> 'a list \<Rightarrow> 'a list" where
  "remove_first P xs = takeWhile (\<lambda>y. \<not> P y) xs @ tl (dropWhile (\<lambda>y. \<not> P y) xs)"

lemma remove_first_split: "P y \<Longrightarrow> \<forall>z \<in> set us. \<not> P z \<Longrightarrow> remove_first P (us @ y # vs) = us @ vs"
  by (simp add: remove_first_def)

text \<open>The search loops over a list find the first payload with the property.\<close>

lemma find_payload:
  assumes "chain h NULL as (payloads (us @ v # vs))" "length as \<le> fuel" "\<And>y. P (Val (Ptr y)) = Ok (Q y)"
    "Q v" "\<forall>z \<in> set us. \<not> Q z"
  obtains bs a cs where "as = bs @ a # cs" "length bs = length us"
    "find_node fuel h P (first_of as)
      = Ok (Some (a, \<lparr>dn_data = Val (Ptr v), dn_next = first_of cs, dn_previous = last_or NULL bs\<rparr>))"
proof -
  have len: "length as = length (us @ v # vs)" using dseg_length [OF assms(1)] by simp
  obtain bs a cs where as: "as = bs @ a # cs" "length bs = length us"
    using len by (intro that [of "take (length us) as" "as ! length us" "drop (Suc (length us)) as"])
      (auto simp: id_take_nth_drop)
  have "find_node fuel h P (first_of as)
      = Ok (Some (a, \<lparr>dn_data = Val (Ptr v), dn_next = first_of cs, dn_previous = last_or NULL bs\<rparr>))"
    unfolding as(1)
    by (rule find_node_hit [where Q = "\<lambda>c. \<exists>z. c = Val (Ptr z) \<and> Q z"]) (use assms as in auto)
  then show thesis using that as by blast
qed

lemma ListFindNode_ok:
  assumes "list_ok h cmp copy l xs as r" "get_list h l = Ok L"
  shows "ListFindNode h L (Ptr x) = Ok (\<exists>y \<in> set xs. equal_payload cmp x y)"
proof -
  from assms have L: "l_list L = first_of as" "l_compare L = cmp"
    "chain (lh_nodes h) NULL as (payloads xs)" "distinct as" "\<forall>a \<in> set as. a < lh_fresh h"
    by (auto simp: list_ok_def get_list_def)
  let ?P = "\<lambda>c. bindE (read_payload c) (\<lambda>z. if z = NULL then Ok False else Ok (same_payload L z (Ptr x)))"
  have P: "?P (Val (Ptr y)) = Ok (equal_payload cmp x y)" for y
    using L(2) by (simp add: read_payload_def same_payload_def equal_payload_def split: option.split)
  have fuel: "length as \<le> lh_fresh h" using distinct_bounded_length [OF L(4,5)] .
  show ?thesis
  proof (cases "\<exists>y \<in> set xs. equal_payload cmp x y")
    case True
    from split_list_first_prop [OF True] obtain us y vs where
      xs: "xs = us @ y # vs" "equal_payload cmp x y" "\<forall>z \<in> set us. \<not> equal_payload cmp x z" by blast
    from find_payload [where P = ?P and Q = "equal_payload cmp x", OF L(3) [unfolded xs(1)] fuel P xs(2,3)]
    obtain a node where "find_node (lh_fresh h) (lh_nodes h) ?P (first_of as) = Ok (Some (a, node))" by blast
    then show ?thesis using True L(1) by (simp add: ListFindNode_def)
  next
    case False
    have "find_node (lh_fresh h) (lh_nodes h) ?P (first_of as) = Ok None"
    proof (rule find_node_miss [OF L(3) fuel])
      fix c assume "c \<in> set (payloads xs)"
      then obtain w where "w \<in> set xs" "c = Val (Ptr w)" by auto
      then show "?P c = Ok False" using P [of w] False by simp
    qed
    then show ?thesis using False L(1) by (simp add: ListFindNode_def)
  qed
qed

lemma ListRemove_miss:
  assumes "cow h cmp copy m y" "m l = Some xs" "\<forall>z \<in> set xs. \<not> equal_payload cmp x z"
  shows "ListRemove h (Ptr l) (Ptr x) = Ok (- 1, [], h)"
proof -
  from cowD(1) [OF assms(1,2)] obtain L where L: "get_list h l = Ok L" by (rule list_okE)
  from ListFindNode_ok [OF cowD(1) [OF assms(1,2)] L] assms(3) have "ListFindNode h L (Ptr x) = Ok False" by simp
  then show ?thesis using L by (simp add: ListRemove_def)
qed

text \<open>The second search: the element was found in the list as it was, and is sought again once the list is detached.\<close>

definition second_search :: "'a lheap \<Rightarrow> 'a List \<Rightarrow> 'a \<Rightarrow> (addr \<times> 'a ptr cell dnode) option res" where
  "second_search h L x =
     find_node (lh_fresh h) (lh_nodes h) (\<lambda>c. bindE (read_payload c) (\<lambda>w. Ok (same_payload L w (Ptr x)))) (l_list L)"

definition remove_found ::
  "'a lheap \<Rightarrow> addr \<Rightarrow> 'a List \<Rightarrow> (addr \<times> 'a ptr cell dnode) option \<Rightarrow> (int \<times> 'a ptr list \<times> 'a lheap) res" where
  "remove_found h l L r = (case r of
     None \<Rightarrow> Fault AssertFail
   | Some (a, node) \<Rightarrow>
       bindE (move_iterator h L a node) (\<lambda>h2.
       bindE (unlink (lh_nodes h2) node (l_first L, l_last L)) (\<lambda>(nodes, fst', lst').
       bindE (read_payload (dn_data node)) (\<lambda>v.
       Ok (0, [v], put_list l (ListUpdateListState (L\<lparr>l_list := fst', l_first := fst', l_last := lst'\<rparr>))
         (h2\<lparr>lh_nodes := nodes(a := None)\<rparr>))))))"

lemma second_search_payload:
  "l_compare L = cmp \<Longrightarrow> bindE (read_payload (Val (Ptr w))) (\<lambda>w. Ok (same_payload L w (Ptr x))) = Ok (equal_payload cmp x w)"
  by (simp add: read_payload_def same_payload_def equal_payload_def split: option.split)

lemma ListRemove_found:
  assumes "cow h cmp copy m y" "m l = Some xs" "\<exists>z \<in> set xs. equal_payload cmp x z"
  obtains (found) h1 z L where "ListDetach h l = Ok h1" "cow h1 cmp copy (m(l \<mapsto> detached copy y l xs)) z" "exclusive z l"
    "get_list h1 l = Ok L" "ListRemove h (Ptr l) (Ptr x) = bindE (second_search h1 L x) (remove_found h1 l L)"
proof -
  from cowD(1) [OF assms(1,2)] obtain L0 where L0: "get_list h l = Ok L0" by (rule list_okE)
  have find: "ListFindNode h L0 (Ptr x) = Ok True"
    using ListFindNode_ok [OF cowD(1) [OF assms(1,2)] L0] assms(3) by simp
  from ListDetach_ok [OF assms(1,2)] obtain h1 z where
    h1: "ListDetach h l = Ok h1" "cow h1 cmp copy (m(l \<mapsto> detached copy y l xs)) z" "exclusive z l" by blast
  from cowD(1) [OF h1(2) fun_upd_same] obtain L where L: "get_list h1 l = Ok L" by (rule list_okE)
  show thesis
    by (rule found [OF h1 L]) (simp add: ListRemove_def second_search_def remove_found_def [abs_def] L0 find h1(1) L)
qed

lemma ListRemove_hit:
  assumes "cow h cmp copy m y" "m l = Some xs" "\<exists>z \<in> set xs. equal_payload cmp x z" "detached copy y l xs = us @ v # vs"
    "equal_payload cmp x v" "\<forall>z \<in> set us. \<not> equal_payload cmp x z"
  shows "\<exists>h' y'. ListRemove h (Ptr l) (Ptr x) = Ok (0, [Ptr v], h') \<and> cow h' cmp copy (m(l \<mapsto> us @ vs)) y'"
proof -
  let ?xs = "us @ v # vs"
  from ListRemove_found [OF assms(1-3)] obtain h1 z L where
    h1: "cow h1 cmp copy (m(l \<mapsto> ?xs)) z" "exclusive z l" "get_list h1 l = Ok L" and
    remove: "ListRemove h (Ptr l) (Ptr x) = bindE (second_search h1 L x) (remove_found h1 l L)"
    unfolding assms(4) by blast
  let ?as = "ly_nodes z l" and ?n = "lh_fresh h1"
  from cowD(1) [OF h1(1) fun_upd_same] h1(3) have L: "lh_lists h1 l = Some L"
    "l_node_count L = int (length ?xs)" "l_list L = first_of ?as" "l_first L = first_of ?as" "l_last L = last_or NULL ?as"
    "l_compare L = cmp" "l_copy L = Some copy" "l_iterator L = NULL" "l_ref_count L = ly_ref z l"
    "chain (lh_nodes h1) NULL ?as (payloads ?xs)" "distinct ?as" "\<forall>a \<in> set ?as. a < ?n"
    by (auto simp: list_ok_def get_list_def)
  have fuel: "length ?as \<le> ?n" using distinct_bounded_length [OF L(11,12)] .
  obtain bs a cs where as: "?as = bs @ a # cs" "length bs = length us" and find:
    "second_search h1 L x = Ok (Some (a, \<lparr>dn_data = Val (Ptr v), dn_next = first_of cs, dn_previous = last_or NULL bs\<rparr>))"
    unfolding second_search_def L(3)
    using find_payload [OF L(10) fuel second_search_payload [OF L(6)] assms(5,6)] by blast
  let ?node = "\<lparr>dn_data = Val (Ptr v), dn_next = first_of cs, dn_previous = last_or NULL bs\<rparr>"
  have at: "lh_nodes h1 a = Some ?node" using L(10) as by (simp add: dseg_append)
  from unlink_chain [of "lh_nodes h1" bs a cs "payloads us" "Val (Ptr v)" "payloads vs"] L(10,11) as at obtain nodes where
    un: "unlink (lh_nodes h1) ?node (first_of ?as, last_or NULL ?as) = Ok (nodes, first_of (bs @ cs), last_or NULL (bs @ cs))"
      "chain nodes NULL (bs @ cs) (payloads (us @ vs))" "\<forall>c. c \<notin> set bs \<union> set cs \<longrightarrow> nodes c = lh_nodes h1 c" by auto
  let ?L = "ListUpdateListState (L\<lparr>l_list := first_of (bs @ cs), l_first := first_of (bs @ cs), l_last := last_or NULL (bs @ cs)\<rparr>)"
  let ?h = "put_list l ?L (h1\<lparr>lh_nodes := nodes(a := None)\<rparr>)"
  have "move_iterator h1 L a ?node = Ok h1" using L(8) by (simp add: move_iterator_def)
  then have run: "ListRemove h (Ptr l) (Ptr x) = Ok (0, [Ptr v], ?h)"
    using L(4,5) find un(1) unfolding remove by (simp add: remove_found_def read_payload_def)
  have "a \<notin> set (bs @ cs)" using L(11) as(1) by simp
  then have "list_ok ?h cmp copy l (us @ vs) (bs @ cs) (ly_ref z l)"
    using L(2,6-9,11,12) as un(2) by (simp add: list_ok_def put_list_def ListUpdateListState_def)
  from cow_update [OF h1(1) _ h1(2) this]
  have "cow ?h cmp copy (m(l \<mapsto> ?xs, l \<mapsto> us @ vs)) (z\<lparr>ly_nodes := (ly_nodes z)(l := bs @ cs)\<rparr>)"
    using as(1) un(3) by (auto simp: put_list_def)
  then show ?thesis using run by auto
qed

text \<open>When no copied element equals the one sought, the assertion behind the second search fails.\<close>

lemma ListRemove_lost:
  assumes "cow h cmp copy m y" "m l = Some xs" "\<exists>z \<in> set xs. equal_payload cmp x z"
    "\<forall>z \<in> set (detached copy y l xs). \<not> equal_payload cmp x z"
  shows "ListRemove h (Ptr l) (Ptr x) = Fault AssertFail"
proof (rule ListRemove_found [OF assms(1-3)])
  fix h1 z L
  let ?xs = "detached copy y l xs"
  assume h1: "cow h1 cmp copy (m(l \<mapsto> ?xs)) z" "get_list h1 l = Ok L" and
    remove: "ListRemove h (Ptr l) (Ptr x) = bindE (second_search h1 L x) (remove_found h1 l L)"
  from cowD(1) [OF h1(1) fun_upd_same] h1(2) have L: "l_list L = first_of (ly_nodes z l)" "l_compare L = cmp"
    "chain (lh_nodes h1) NULL (ly_nodes z l) (payloads ?xs)" "distinct (ly_nodes z l)" "\<forall>a \<in> set (ly_nodes z l). a < lh_fresh h1"
    by (auto simp: list_ok_def get_list_def)
  have "second_search h1 L x = Ok None"
    unfolding second_search_def L(1)
    by (rule find_node_miss [OF L(3) distinct_bounded_length [OF L(4,5)]])
      (use assms(4) second_search_payload [OF L(2), of _ x] in auto)
  then show ?thesis unfolding remove by (simp add: remove_found_def)
qed

lemma ListRemove_ok:
  assumes "cow h cmp copy m y" "m l = Some xs" "\<And>z. equal_payload cmp x (copy z) = equal_payload cmp x z"
  shows "\<exists>gone h' y' zs. ListRemove h (Ptr l) (Ptr x) = Ok (if \<exists>z \<in> set xs. equal_payload cmp x z then 0 else - 1, gone, h')
      \<and> zs \<in> {xs, map copy xs} \<and> cow h' cmp copy (m(l \<mapsto> remove_first (equal_payload cmp x) zs)) y'"
proof (cases "\<exists>z \<in> set xs. equal_payload cmp x z")
  case True
  then have "\<exists>z \<in> set (detached copy y l xs). equal_payload cmp x z" using assms(3) by (auto simp: detached_def)
  from split_list_first_prop [OF this] obtain us v vs where
    xs: "detached copy y l xs = us @ v # vs" "equal_payload cmp x v" "\<forall>z \<in> set us. \<not> equal_payload cmp x z" by blast
  from ListRemove_hit [OF assms(1,2) True xs] have
    "\<exists>h' y'. ListRemove h (Ptr l) (Ptr x) = Ok (0, [Ptr v], h')
      \<and> cow h' cmp copy (m(l \<mapsto> remove_first (equal_payload cmp x) (detached copy y l xs))) y'"
    using xs by (simp add: remove_first_split)
  moreover have "detached copy y l xs \<in> {xs, map copy xs}" by (simp add: detached_def)
  ultimately show ?thesis using True by auto
next
  case False
  then have "remove_first (equal_payload cmp x) xs = xs"
    by (simp add: remove_first_def takeWhile_eq_all_conv [THEN iffD2] dropWhile_eq_Nil_conv [THEN iffD2])
  moreover have "m(l \<mapsto> xs) = m" using assms(2) by auto
  ultimately show ?thesis using ListRemove_miss [OF assms(1,2)] False assms(1)
    by (intro exI [of _ "[]"] exI [of _ h] exI [of _ y] exI [of _ xs]) simp
qed

section \<open>New, copied and destroyed lists\<close>

text \<open>What the lists of the map do not use may change; a list that shares nothing may be forgotten.\<close>

lemma cow_frame:
  assumes "cow h cmp copy m y" "lh_fresh h \<le> lh_fresh h'"
    "\<And>k. k \<in> dom m \<Longrightarrow> lh_lists h' k = lh_lists h k"
    "\<And>k a. k \<in> dom m \<Longrightarrow> a \<in> set (ly_nodes y k) \<Longrightarrow> lh_nodes h' a = lh_nodes h a"
    "\<And>k. k \<in> dom m \<Longrightarrow> lh_refs h' (ly_ref y k) = lh_refs h (ly_ref y k)"
    "\<And>k a. k \<in> dom m \<Longrightarrow> a \<in> set (ly_rnodes y (ly_ref y k)) \<Longrightarrow> lh_rnodes h' a = lh_rnodes h a"
  shows "cow h' cmp copy m y"
proof (rule cowI)
  fix k zs assume k: "m k = Some zs"
  then have d: "k \<in> dom m" by blast
  have "list_ok h' cmp copy k zs (ly_nodes y k) (ly_ref y k)"
    by (rule list_ok_frame [OF cowD(1) [OF assms(1) k] assms(3) [OF d] assms(4) [OF d] assms(2)])
  moreover have "ref_ok h' (ly_ref y k) (ly_users y (ly_ref y k)) (ly_rnodes y (ly_ref y k))"
    by (rule ref_ok_frame [OF cowD(3) [OF assms(1) k] assms(5) [OF d] assms(6) [OF d] assms(2)])
  ultimately show "list_ok h' cmp copy k zs (ly_nodes y k) (ly_ref y k) \<and> k < lh_fresh h'
    \<and> ref_ok h' (ly_ref y k) (ly_users y (ly_ref y k)) (ly_rnodes y (ly_ref y k))
    \<and> set (ly_users y (ly_ref y k)) = {j \<in> dom m. ly_ref y j = ly_ref y k}"
    using cowD(2,4) [OF assms(1) k] assms(2) by auto
qed (use cow_shared_nodes [OF assms(1)] cow_apart [OF assms(1)] in blast)+

lemma cow_forget:
  assumes "cow h cmp copy m y" "exclusive y l" "l \<in> dom m"
  shows "cow h cmp copy (m(l := None)) y"
proof (rule cowI)
  fix k zs assume "(m(l := None)) k = Some zs"
  then have k: "m k = Some zs" "k \<noteq> l" "k \<in> dom m" by (auto split: if_splits)
  have "{j \<in> dom m. ly_ref y j = ly_ref y k} = {j \<in> dom (m(l := None)). ly_ref y j = ly_ref y k}"
    using exclusive_ref [OF assms(1-3) k(3,2)] by auto
  then show "list_ok h cmp copy k zs (ly_nodes y k) (ly_ref y k) \<and> k < lh_fresh h
    \<and> ref_ok h (ly_ref y k) (ly_users y (ly_ref y k)) (ly_rnodes y (ly_ref y k))
    \<and> set (ly_users y (ly_ref y k)) = {j \<in> dom (m(l := None)). ly_ref y j = ly_ref y k}"
    using cowD [OF assms(1) k(1)] by simp
next
  fix j k assume "j \<in> dom (m(l := None))" "k \<in> dom (m(l := None))" and same: "ly_ref y j = ly_ref y k"
  then have "j \<in> dom m" "k \<in> dom m" by auto
  then show "ly_nodes y j = ly_nodes y k" using cow_shared_nodes [OF assms(1) _ _ same] by blast
next
  fix j k assume "j \<in> dom (m(l := None))" "k \<in> dom (m(l := None))" and other: "ly_ref y j \<noteq> ly_ref y k"
  then have "j \<in> dom m" "k \<in> dom m" by auto
  then show "set (ly_nodes y j) \<inter> set (ly_nodes y k) = {}
    \<and> set (ly_rnodes y (ly_ref y j)) \<inter> set (ly_rnodes y (ly_ref y k)) = {}"
    using cow_apart [OF assms(1) _ _ other] by blast
qed

lemma ListNew_ok:
  assumes "cow h cmp copy m y"
  shows "\<exists>h' y'. ListNew h cmp (Some copy) destroy = Ok (lh_fresh h, h') \<and> m (lh_fresh h) = None
    \<and> cow h' cmp copy (m(lh_fresh h \<mapsto> [])) y' \<and> exclusive y' (lh_fresh h)"
proof -
  let ?l = "lh_fresh h" and ?h = "h\<lparr>lh_fresh := lh_fresh h + 1\<rparr>"
  let ?L = "\<lparr>l_node_count = 0, l_state = 0, l_list = NULL, l_first = NULL, l_last = NULL, l_compare = cmp,
     l_copy = Some copy, l_destroy = destroy, l_ref_count = lh_fresh ?h, l_iterator = NULL\<rparr>"
  have none: "m ?l = None" using cowD(2) [OF assms, of ?l] by (cases "m ?l") auto
  have "cow ?h cmp copy m y" by (rule cow_frame [OF assms]) simp_all
  from cow_found [OF this none, of ?L "[]" "[]"] obtain h' where
    "RefCountAttach (put_list ?l ?L (snd (RefCountNew ?h))) (lh_fresh ?h) ?l = Ok h'"
    "cow h' cmp copy (m(?l \<mapsto> [])) (found_group ?l [] (lh_fresh ?h) y)" by auto
  moreover have "exclusive (found_group ?l [] (lh_fresh ?h) y) ?l" by (simp add: exclusive_def found_group_def)
  ultimately show ?thesis using none by (auto simp: ListNew_def RefCountNew_def Let_def)
qed

lemma ListCopy_ok:
  assumes "cow h cmp copy m y" "m l = Some xs"
  shows "\<exists>h' y'. ListCopy h (Ptr l) = Ok (0, Ptr (lh_fresh h), h') \<and> m (lh_fresh h) = None
    \<and> cow h' cmp copy (m(lh_fresh h \<mapsto> xs)) y' \<and> \<not> exclusive y' l \<and> \<not> exclusive y' (lh_fresh h)"
proof -
  let ?d = "lh_fresh h" and ?r = "ly_ref y l" and ?as = "ly_nodes y l"
  from cowD(1) [OF assms] obtain L where L: "get_list h l = Ok L" "lh_lists h l = Some L" "l_node_count L = int (length xs)"
    "l_list L = first_of ?as" "l_first L = first_of ?as" "l_last L = last_or NULL ?as" "l_compare L = cmp"
    "l_copy L = Some copy" "l_iterator L = NULL" "l_ref_count L = ?r" "chain (lh_nodes h) NULL ?as (payloads xs)"
    "distinct ?as" "\<forall>a \<in> set ?as. a < lh_fresh h" by (rule list_okE)
  have none: "m ?d = None" using cowD(2) [OF assms(1), of ?d] by (cases "m ?d") auto
  let ?g = "put_list ?d (L\<lparr>l_iterator := NULL\<rparr>) (h\<lparr>lh_fresh := ?d + 1\<rparr>)"
  let ?us = "ly_users y ?r @ [?d]" and ?ras = "ly_rnodes y ?r @ [?d + 1]"
  have g: "lh_fresh ?g = ?d + 1" "lh_nodes ?g = lh_nodes h" "lh_rnodes ?g = lh_rnodes h" "lh_refs ?g = lh_refs h"
    "lh_lists ?g = (lh_lists h)(?d \<mapsto> L\<lparr>l_iterator := NULL\<rparr>)" by (simp_all add: put_list_def)
  have "ref_ok ?g ?r (ly_users y ?r) (ly_rnodes y ?r)" by (rule ref_ok_frame [OF cowD(3) [OF assms]]) (simp_all add: put_list_def)
  moreover have "?d \<notin> set (ly_users y ?r)" using cowD(4) [OF assms] none by auto
  ultimately obtain h' where h': "RefCountAttach ?g ?r ?d = Ok h'" "ref_ok h' ?r ?us ?ras" "ref_frame ?r (set ?ras) ?g h'"
    "lh_fresh h' = ?d + 2" using RefCountAttach_ok g(1) by fastforce
  have fr: "lh_lists h' = (lh_lists h)(?d \<mapsto> L\<lparr>l_iterator := NULL\<rparr>)" "lh_nodes h' = lh_nodes h"
    "\<And>s. s \<noteq> ?r \<Longrightarrow> lh_refs h' s = lh_refs h s" "\<And>a. a \<notin> set ?ras \<Longrightarrow> lh_rnodes h' a = lh_rnodes h a"
    using h'(3) g by (auto simp: ref_frame_def same_lists_def)
  let ?y = "\<lparr>ly_nodes = (ly_nodes y)(?d := ?as), ly_ref = (ly_ref y)(?d := ?r), ly_users = (ly_users y)(?r := ?us),
     ly_rnodes = (ly_rnodes y)(?r := ?ras)\<rparr>"
  have old: "\<forall>a \<in> set (ly_rnodes y (ly_ref y k)). a < ?d" "?d \<noteq> k" if "k \<in> dom m" for k
    using that cowD(3) [OF assms(1)] none by (auto simp: ref_ok_def)
  have apart: "set (ly_rnodes y (ly_ref y k)) \<inter> set ?ras = {}" if "k \<in> dom m" "ly_ref y k \<noteq> ?r" for k
    using cow_apart(2) [OF assms(1) that(1) _ that(2)] assms(2) old(1) [OF that(1)] by fastforce
  have new: "list_ok h' cmp copy ?d xs ?as ?r" using L h'(4) by (auto simp: list_ok_def fr)
  have "cow h' cmp copy (m(?d \<mapsto> xs)) ?y"
  proof (rule cowI)
    fix k zs assume kz: "(m(?d \<mapsto> xs)) k = Some zs"
    have "list_ok h' cmp copy k zs (ly_nodes ?y k) (ly_ref ?y k) \<and> k < lh_fresh h'"
    proof (cases "k = ?d")
      case False
      then have k: "m k = Some zs" using kz by simp
      have "list_ok h' cmp copy k zs (ly_nodes y k) (ly_ref y k)"
        using False h'(4) by (intro list_ok_frame [OF cowD(1) [OF assms(1) k]]) (simp_all add: fr)
      then show ?thesis using False cowD(2) [OF assms(1) k] h'(4) by simp
    qed (use new kz h'(4) in simp)
    moreover have "ref_ok h' (ly_ref ?y k) (ly_users ?y (ly_ref ?y k)) (ly_rnodes ?y (ly_ref ?y k))"
    proof (cases "ly_ref ?y k = ?r")
      case False
      then have k: "m k = Some zs" "k \<in> dom m" "ly_ref y k \<noteq> ?r" "k \<noteq> ?d" using kz by (auto split: if_splits)
      have "ref_ok h' (ly_ref y k) (ly_users y (ly_ref y k)) (ly_rnodes y (ly_ref y k))"
        using k apart [OF k(2,3)] h'(4) by (intro ref_ok_frame [OF cowD(3) [OF assms(1) k(1)]] fr) auto
      then show ?thesis using k by simp
    qed (use h'(2) in simp)
    moreover have "set (ly_users ?y (ly_ref ?y k)) = {j \<in> dom (m(?d \<mapsto> xs)). ly_ref ?y j = ly_ref ?y k}"
    proof (cases "ly_ref ?y k = ?r")
      case True
      have "{j \<in> dom (m(?d \<mapsto> xs)). ly_ref ?y j = ?r} = insert ?d {j \<in> dom m. ly_ref y j = ?r}"
        using old(2) by auto
      then show ?thesis using True cowD(4) [OF assms] by simp
    next
      case False
      then have k: "m k = Some zs" "ly_ref y k \<noteq> ?r" "k \<noteq> ?d" using kz by (auto split: if_splits)
      then show ?thesis using cowD(4) [OF assms(1) k(1)] old(2) by auto
    qed
    ultimately show "list_ok h' cmp copy k zs (ly_nodes ?y k) (ly_ref ?y k) \<and> k < lh_fresh h'
      \<and> ref_ok h' (ly_ref ?y k) (ly_users ?y (ly_ref ?y k)) (ly_rnodes ?y (ly_ref ?y k))
      \<and> set (ly_users ?y (ly_ref ?y k)) = {j \<in> dom (m(?d \<mapsto> xs)). ly_ref ?y j = ly_ref ?y k}" by blast
  next
    fix j k assume "j \<in> dom (m(?d \<mapsto> xs))" "k \<in> dom (m(?d \<mapsto> xs))" "ly_ref ?y j = ly_ref ?y k"
    then show "ly_nodes ?y j = ly_nodes ?y k"
      using cow_shared_nodes [OF assms(1), of "if j = ?d then l else j" "if k = ?d then l else k"] assms(2)
      by (auto split: if_splits)
  next
    fix j k assume jk: "j \<in> dom (m(?d \<mapsto> xs))" "k \<in> dom (m(?d \<mapsto> xs))" "ly_ref ?y j \<noteq> ly_ref ?y k"
    then have "set (ly_nodes ?y j) \<inter> set (ly_nodes ?y k) = {}"
      using cow_apart(1) [OF assms(1), of "if j = ?d then l else j" "if k = ?d then l else k"] assms(2)
      by (auto split: if_splits)
    moreover have "set (ly_rnodes ?y (ly_ref ?y j)) \<inter> set (ly_rnodes ?y (ly_ref ?y k)) = {}"
      using jk apart [of j] apart [of k] cow_apart(2) [OF assms(1), of j k]
      by (cases "ly_ref ?y j = ?r"; cases "ly_ref ?y k = ?r") (auto split: if_splits)
    ultimately show "set (ly_nodes ?y j) \<inter> set (ly_nodes ?y k) = {}
      \<and> set (ly_rnodes ?y (ly_ref ?y j)) \<inter> set (ly_rnodes ?y (ly_ref ?y k)) = {}" by blast
  qed
  moreover have "ListCopy h (Ptr l) = Ok (0, Ptr ?d, h')" using L(1,8,10) h'(1) by (simp add: ListCopy_def Let_def)
  moreover have "l \<in> set (ly_users y ?r)" "l \<noteq> ?d" using cowD(4) [OF assms] assms(2) none by auto
  then have "\<not> exclusive ?y l" "\<not> exclusive ?y ?d" by (auto simp: exclusive_def)
  ultimately show ?thesis using none by blast
qed

lemma ListDestroy_loop_ok:
  "chain nodes p as (payloads xs) \<Longrightarrow> distinct as \<Longrightarrow> length as \<le> fuel \<Longrightarrow>
   ListDestroy_loop fuel d nodes (first_of as) = Ok (if d then map Ptr xs else [], nodes |` (- set as))"
proof (induction as arbitrary: nodes p xs fuel)
  case Nil
  then show ?case by (cases fuel) auto
next
  case (Cons a as)
  then obtain f x zs where f: "fuel = Suc f" "xs = x # zs" by (cases fuel; cases xs) auto
  have "ListDestroy_loop f d (nodes(a := None)) (first_of as)
      = Ok (if d then map Ptr zs else [], (nodes(a := None)) |` (- set as))"
    by (rule Cons.IH [of _ "Ptr a"]) (use Cons.prems f in \<open>auto simp del: fun_upd_apply\<close>)
  moreover have "(nodes(a := None)) |` (- set as) = nodes |` (- set (a # as))" by (auto simp: restrict_map_def)
  ultimately show ?case using Cons.prems f by (simp add: read_payload_def)
qed

lemma ListDestroy_ok:
  assumes "cow h cmp copy m y" "m l = Some xs"
  shows "\<exists>gone h' y'. ListDestroy h (Ptr l) = Ok (gone, h') \<and> cow h' cmp copy (m(l := None)) y' \<and> lh_lists h' l = None"
proof -
  let ?r = "ly_ref y l" and ?as = "ly_nodes y l"
  from cowD(1) [OF assms] obtain L where L: "get_list h l = Ok L" "lh_lists h l = Some L" "l_node_count L = int (length xs)"
    "l_list L = first_of ?as" "l_first L = first_of ?as" "l_last L = last_or NULL ?as" "l_compare L = cmp"
    "l_copy L = Some copy" "l_iterator L = NULL" "l_ref_count L = ?r" "chain (lh_nodes h) NULL ?as (payloads xs)"
    "distinct ?as" "\<forall>a \<in> set ?as. a < lh_fresh h" by (rule list_okE)
  have us: "l \<in> set (ly_users y ?r)" using cowD(4) [OF assms] assms(2) by auto
  have shared: "RefCountIsShared h ?r = Ok (length (ly_users y ?r) > 1)"
    using RefCountIsShared_eq [OF cowD(3) [OF assms]] .
  have dom: "l \<in> dom m" using assms(2) by blast
  show ?thesis
  proof (cases "exclusive y l")
    case True
    from cowD(3) [OF assms] True obtain R u where R: "lh_refs h ?r = Some R" "rc_user_count R = 1"
      "rc_users R = Ptr u" "ly_rnodes y ?r = [u]"
      using dseg_length [of "lh_rnodes h" NULL "ly_rnodes y ?r" "[l]" NULL]
      by (auto simp: ref_ok_def exclusive_def length_Suc_conv)
    let ?h = "h\<lparr>lh_nodes := lh_nodes h |` (- set ?as), lh_rnodes := (lh_rnodes h)(u := None),
      lh_refs := (lh_refs h)(?r := None), lh_lists := (lh_lists h)(l := None)\<rparr>"
    have "ListDestroy_loop (lh_fresh h) (l_destroy L) (lh_nodes h) (first_of ?as)
        = Ok (if l_destroy L then map Ptr xs else [], lh_nodes h |` (- set ?as))"
      by (rule ListDestroy_loop_ok [OF L(11,12) distinct_bounded_length [OF L(12,13)]])
    then have "ListDestroy h (Ptr l) = Ok (if l_destroy L then map Ptr xs else [], ?h)"
      using L(1,5,10) shared True R
      by (simp add: ListDestroy_def RefCountDestroy_def get_ref_def exclusive_def c_assert_def)
    moreover have "cow ?h cmp copy (m(l := None)) y"
    proof (rule cow_frame [OF cow_forget [OF assms(1) True dom]])
      fix k assume "k \<in> dom (m(l := None))"
      then have k: "k \<in> dom m" "k \<noteq> l" by auto
      note ref = exclusive_ref [OF assms(1) True dom k]
      note cow_apart [OF assms(1) k(1) dom ref]
      then show "\<And>a. a \<in> set (ly_nodes y k) \<Longrightarrow> lh_nodes ?h a = lh_nodes h a"
        "\<And>a. a \<in> set (ly_rnodes y (ly_ref y k)) \<Longrightarrow> lh_rnodes ?h a = lh_rnodes h a"
        "lh_refs ?h (ly_ref y k) = lh_refs h (ly_ref y k)" "lh_lists ?h k = lh_lists h k"
        using ref k(2) R(4) by (auto simp: restrict_map_def)
    qed simp
    ultimately show ?thesis by auto
  next
    case False
    then have more: "length (ly_users y ?r) > 1"
      using us by (cases "ly_users y ?r" rule: remdups_adj.cases) (auto simp: exclusive_def)
    from cow_leave [OF assms False, of h] obtain h2 as where
      h2: "RefCountDetach h ?r l = Ok h2" "cow h2 cmp copy (m(l := None))
        (y\<lparr>ly_users := (ly_users y)(?r := remove1 l (ly_users y ?r)), ly_rnodes := (ly_rnodes y)(?r := as)\<rparr>)" by auto
    let ?h = "h2\<lparr>lh_lists := (lh_lists h2)(l := None)\<rparr>"
    have "ListDestroy h (Ptr l) = Ok ([], ?h)" using L(1,10) shared more h2(1) by (simp add: ListDestroy_def)
    moreover have "cow ?h cmp copy (m(l := None))
        (y\<lparr>ly_users := (ly_users y)(?r := remove1 l (ly_users y ?r)), ly_rnodes := (ly_rnodes y)(?r := as)\<rparr>)"
      by (rule cow_frame [OF h2(2)]) auto
    ultimately show ?thesis by auto
  qed
qed

section \<open>Programs of list operations\<close>

text \<open>
  A client keeps a table of list pointers. An operation on an entry that does not exist, or that was
  destroyed, does nothing; every other operation is the call of the library, and its code is recorded. All lists have the same comparison function and the same copy function.
\<close>

datatype 'a list_op = New | Append nat 'a | Prepend nat 'a | Remove nat 'a | Copy nat | Destroy nat

definition entry :: "'b option list \<Rightarrow> nat \<Rightarrow> 'b option" where
  "entry hs i = (if i < length hs then hs ! i else None)"

fun call :: "('a ptr \<Rightarrow> 'a ptr \<Rightarrow> int) option \<Rightarrow> ('a \<Rightarrow> 'a) \<Rightarrow> 'a list_op \<Rightarrow> addr option list \<times> 'a lheap \<Rightarrow> (int \<times> addr option list \<times> 'a lheap) res" where
  "call cmp copy New (hs, h) = bindE (ListNew h cmp (Some copy) True) (\<lambda>(l, h'). Ok (0, hs @ [Some l], h'))"
| "call cmp copy (Append i x) (hs, h) = (case entry hs i of
     None \<Rightarrow> Ok (0, hs, h) | Some l \<Rightarrow> bindE (ListAppend h (Ptr l) (Ptr x)) (\<lambda>(c, h'). Ok (c, hs, h')))"
| "call cmp copy (Prepend i x) (hs, h) = (case entry hs i of
     None \<Rightarrow> Ok (0, hs, h) | Some l \<Rightarrow> bindE (ListPrepend h (Ptr l) (Ptr x)) (\<lambda>(c, h'). Ok (c, hs, h')))"
| "call cmp copy (Remove i x) (hs, h) = (case entry hs i of
     None \<Rightarrow> Ok (0, hs, h) | Some l \<Rightarrow> bindE (ListRemove h (Ptr l) (Ptr x)) (\<lambda>(c, _, h'). Ok (c, hs, h')))"
| "call cmp copy (Copy i) (hs, h) = (case entry hs i of
     None \<Rightarrow> Ok (0, hs, h) | Some l \<Rightarrow> bindE (ListCopy h (Ptr l)) (\<lambda>(c, d, h'). Ok (c, hs @ [d], h')))"
| "call cmp copy (Destroy i) (hs, h) = (case entry hs i of
     None \<Rightarrow> Ok (0, hs, h) | Some l \<Rightarrow> bindE (ListDestroy h (Ptr l)) (\<lambda>(_, h'). Ok (0, hs[i := None], h')))"

fun calls :: "('a ptr \<Rightarrow> 'a ptr \<Rightarrow> int) option \<Rightarrow> ('a \<Rightarrow> 'a) \<Rightarrow> 'a list_op list \<Rightarrow> addr option list \<times> 'a lheap \<Rightarrow> (int list \<times> addr option list \<times> 'a lheap) res" where
  "calls cmp copy [] (hs, h) = Ok ([], hs, h)"
| "calls cmp copy (c # cs) st = bindE (call cmp copy c st) (\<lambda>(r, st'). bindE (calls cmp copy cs st') (\<lambda>(rs, st''). Ok (r # rs, st'')))"

text \<open>
  The same program on a table of lists that share nothing and hold the contents of the elements instead of the
  elements; ListRemove takes the first content that is the same as the one sought.
\<close>

fun value_call :: "('v \<Rightarrow> 'v \<Rightarrow> bool) \<Rightarrow> 'v list_op \<Rightarrow> 'v list option list \<Rightarrow> int \<times> 'v list option list" where
  "value_call same New vs = (0, vs @ [Some []])"
| "value_call same (Append i x) vs = (0, case entry vs i of None \<Rightarrow> vs | Some xs \<Rightarrow> vs[i := Some (xs @ [x])])"
| "value_call same (Prepend i x) vs = (0, case entry vs i of None \<Rightarrow> vs | Some xs \<Rightarrow> vs[i := Some (x # xs)])"
| "value_call same (Remove i x) vs = (case entry vs i of None \<Rightarrow> (0, vs)
     | Some xs \<Rightarrow> (if \<exists>z \<in> set xs. same z x then 0 else - 1, vs[i := Some (remove_first (\<lambda>z. same z x) xs)]))"
| "value_call same (Copy i) vs = (0, case entry vs i of None \<Rightarrow> vs | Some xs \<Rightarrow> vs @ [Some xs])"
| "value_call same (Destroy i) vs = (0, vs[i := None])"

fun value_calls :: "('v \<Rightarrow> 'v \<Rightarrow> bool) \<Rightarrow> 'v list_op list \<Rightarrow> 'v list option list \<Rightarrow> int list \<times> 'v list option list" where
  "value_calls same [] vs = ([], vs)"
| "value_calls same (c # cs) vs =
     (let (r, vs') = value_call same c vs; (rs, vs'') = value_calls same cs vs' in (r # rs, vs''))"

text \<open>The table of pointers agrees with the table of lists; no two entries are the same list.\<close>

definition agrees :: "(addr \<rightharpoonup> 'a list) \<Rightarrow> addr option list \<Rightarrow> 'a list option list \<Rightarrow> bool" where
  "agrees m hs vs \<longleftrightarrow> length hs = length vs
     \<and> (\<forall>i < length hs. case hs ! i of None \<Rightarrow> vs ! i = None | Some l \<Rightarrow> vs ! i \<noteq> None \<and> m l = vs ! i)
     \<and> (\<forall>i < length hs. \<forall>j < length hs. hs ! i \<noteq> None \<longrightarrow> hs ! i = hs ! j \<longrightarrow> i = j)"

lemma agrees_entry:
  assumes "agrees m hs vs"
  shows "entry hs i = None \<Longrightarrow> entry vs i = None" "entry hs i = Some l \<Longrightarrow> \<exists>xs. entry vs i = Some xs \<and> m l = Some xs \<and> i < length hs"
  using assms by (auto simp: agrees_def entry_def split: if_splits option.splits)

lemma agreesI:
  assumes "length hs = length vs"
    "\<And>i. i < length hs \<Longrightarrow> case hs ! i of None \<Rightarrow> vs ! i = None | Some l \<Rightarrow> vs ! i \<noteq> None \<and> m l = vs ! i"
    "\<And>i j l. i < length hs \<Longrightarrow> j < length hs \<Longrightarrow> hs ! i = Some l \<Longrightarrow> hs ! j = Some l \<Longrightarrow> i = j"
  shows "agrees m hs vs"
proof -
  have "i = j" if "i < length hs" "j < length hs" "hs ! i \<noteq> None" "hs ! i = hs ! j" for i j
    using assms(3) [OF that(1,2)] that(3,4) by (metis not_None_eq)
  then show ?thesis using assms(1,2) unfolding agrees_def by blast
qed

lemma agreesD:
  assumes "agrees m hs vs"
  shows "length hs = length vs" "i < length hs \<Longrightarrow> case hs ! i of None \<Rightarrow> vs ! i = None | Some l \<Rightarrow> vs ! i \<noteq> None \<and> m l = vs ! i"
    "i < length hs \<Longrightarrow> j < length hs \<Longrightarrow> hs ! i = Some l \<Longrightarrow> hs ! j = Some l \<Longrightarrow> i = j"
  using assms unfolding agrees_def by (blast, blast, metis option.distinct(1))

lemma agrees_update:
  assumes "agrees m hs vs" "entry hs i = Some l"
  shows "agrees (m(l \<mapsto> xs)) hs (vs[i := Some xs])"
proof (rule agreesI)
  have i: "i < length hs" "hs ! i = Some l" using assms(2) by (auto simp: entry_def split: if_splits)
  fix j assume j: "j < length hs"
  show "case hs ! j of None \<Rightarrow> vs[i := Some xs] ! j = None
      | Some k \<Rightarrow> vs[i := Some xs] ! j \<noteq> None \<and> (m(l \<mapsto> xs)) k = vs[i := Some xs] ! j"
  proof (cases "j = i")
    case True
    then show ?thesis using i agreesD(1) [OF assms(1)] by simp
  next
    case False
    then have "hs ! j \<noteq> Some l" using agreesD(3) [OF assms(1) i(1) j i(2)] by blast
    then show ?thesis using agreesD(2) [OF assms(1) j] False by (cases "hs ! j") auto
  qed
qed (use agreesD [OF assms(1)] in auto)

lemma agrees_destroy:
  assumes "agrees m hs vs" "entry hs i = Some l"
  shows "agrees (m(l := None)) (hs[i := None]) (vs[i := None])"
proof (rule agreesI)
  have i: "i < length hs" "hs ! i = Some l" using assms(2) by (auto simp: entry_def split: if_splits)
  fix j assume "j < length (hs[i := None])"
  then have j: "j < length hs" by simp
  show "case hs[i := None] ! j of None \<Rightarrow> vs[i := None] ! j = None
      | Some k \<Rightarrow> vs[i := None] ! j \<noteq> None \<and> (m(l := None)) k = vs[i := None] ! j"
  proof (cases "j = i")
    case True
    then show ?thesis using i agreesD(1) [OF assms(1)] by simp
  next
    case False
    then have "hs ! j \<noteq> Some l" using agreesD(3) [OF assms(1) i(1) j i(2)] by blast
    then show ?thesis using agreesD(2) [OF assms(1) j] False by (cases "hs ! j") auto
  qed
next
  fix j k l' assume "j < length (hs[i := None])" "k < length (hs[i := None])" "hs[i := None] ! j = Some l'" "hs[i := None] ! k = Some l'"
  then have "j < length hs" "k < length hs" "hs ! j = Some l'" "hs ! k = Some l'"
    by (cases "j = i"; cases "k = i"; simp)+
  then show "j = k" by (rule agreesD(3) [OF assms(1)])
qed (use agreesD(1) [OF assms(1)] in simp)

lemma agrees_snoc:
  assumes "agrees m hs vs" "m l = None"
  shows "agrees (m(l \<mapsto> xs)) (hs @ [Some l]) (vs @ [Some xs])"
proof -
  have new: "hs ! i \<noteq> Some l" if "i < length hs" for i
  proof
    assume "hs ! i = Some l"
    then show False using assms that unfolding agrees_def by (auto split: option.splits dest: spec [of _ i])
  qed
  have len: "length vs = length hs" using assms(1) by (simp add: agrees_def)
  have "case (hs @ [Some l]) ! i of None \<Rightarrow> (vs @ [Some xs]) ! i = None
      | Some k \<Rightarrow> (vs @ [Some xs]) ! i \<noteq> None \<and> (m(l \<mapsto> xs)) k = (vs @ [Some xs]) ! i" if "i < Suc (length hs)" for i
  proof (cases "i = length hs")
    case False
    then have "i < length hs" using that by simp
    then show ?thesis using assms(1) new [of i] len by (auto simp: agrees_def nth_append split: option.splits)
  qed (simp add: nth_append len)
  moreover have "i = j" if "i < Suc (length hs)" "j < Suc (length hs)" "(hs @ [Some l]) ! i \<noteq> None"
    "(hs @ [Some l]) ! i = (hs @ [Some l]) ! j" for i j
    using that new [of i] new [of j] assms(1)
    by (auto simp: agrees_def nth_append less_Suc_eq split: if_splits)
  ultimately show ?thesis using len by (intro agreesI) simp_all
qed

lemma walk_ok: "chain nodes p as (payloads xs) \<Longrightarrow> length as \<le> fuel \<Longrightarrow> walk fuel nodes (first_of as) = Ok (map Ptr xs)"
proof (induction as arbitrary: p xs fuel)
  case Nil
  then show ?case by (cases fuel) auto
next
  case (Cons a as)
  then obtain f x zs where f: "fuel = Suc f" "xs = x # zs" by (cases fuel; cases xs) auto
  with Cons.IH [of "Ptr a" zs f] Cons.prems show ?case by (simp add: read_payload_def)
qed

lemma contents_ok: "list_ok h cmp copy l xs as r \<Longrightarrow> contents h l = Ok (map Ptr xs, int (length xs))"
  by (erule list_okE) (simp add: contents_def walk_ok distinct_bounded_length)

text \<open>
  The contents of the lists. A copied element is another element with the same content.
\<close>

definition values_of :: "('a \<Rightarrow> 'v) \<Rightarrow> (addr \<rightharpoonup> 'a list) \<Rightarrow> (addr \<rightharpoonup> 'v list)" where
  "values_of content m = (\<lambda>l. map_option (map content) (m l))"

lemma values_of_upd [simp]:
  "values_of content (m(l \<mapsto> xs)) = (values_of content m)(l \<mapsto> map content xs)"
  "values_of content (m(l := None)) = (values_of content m)(l := None)"
  "values_of content m l = map_option (map content) (m l)"
  by (auto simp: values_of_def)

lemma map_remove_first: "map f (remove_first (\<lambda>z. P (f z)) xs) = remove_first P (map f xs)"
  by (simp add: remove_first_def takeWhile_map dropWhile_map map_tl comp_def)

fun removes :: "'a list_op \<Rightarrow> bool" where
  "removes (Remove _ _) = True"
| "removes _ = False"

definition list_contract ::
  "('a ptr \<Rightarrow> 'a ptr \<Rightarrow> int) option \<Rightarrow> ('a \<Rightarrow> 'a) \<Rightarrow> ('a \<Rightarrow> 'v) \<Rightarrow> ('v \<Rightarrow> 'v \<Rightarrow> bool) \<Rightarrow> 'a list_op \<Rightarrow> bool" where
  "list_contract cmp copy content same c \<longleftrightarrow> (\<forall>x. content (copy x) = content x)
     \<and> (removes c \<longrightarrow> (\<forall>x y. equal_payload cmp x y \<longleftrightarrow> same (content y) (content x)))"

definition simulates ::
  "('a ptr \<Rightarrow> 'a ptr \<Rightarrow> int) option \<Rightarrow> ('a \<Rightarrow> 'a) \<Rightarrow> ('a \<Rightarrow> 'v) \<Rightarrow> addr option list \<times> 'a lheap \<Rightarrow> 'v list option list \<Rightarrow> bool" where
  "simulates cmp copy content st vs \<longleftrightarrow> (\<exists>m y. cow (snd st) cmp copy m y \<and> agrees (values_of content m) (fst st) vs)"

lemma simulatesI: "cow h cmp copy m y \<Longrightarrow> agrees (values_of content m) hs vs \<Longrightarrow> simulates cmp copy content (hs, h) vs"
  by (auto simp: simulates_def)

lemma call_simulates:
  assumes "simulates cmp copy content st vs" "list_contract cmp copy content same c"
  shows "\<exists>st'. call cmp copy c st = Ok (fst (value_call same (map_list_op content c) vs), st')
    \<and> simulates cmp copy content st' (snd (value_call same (map_list_op content c) vs))"
proof -
  obtain hs h where st: "st = (hs, h)" by (cases st)
  with assms(1) obtain m y where cow: "cow h cmp copy m y" and ag: "agrees (values_of content m) hs vs"
    by (auto simp: simulates_def)
  have at: "\<exists>xs. entry vs i = Some (map content xs) \<and> m l = Some xs" if "entry hs i = Some l" for i l
    using agrees_entry(2) [OF ag that] by auto
  note none = agrees_entry(1) [OF ag]
  have copies: "map content (map copy xs) = map content xs" for xs using assms(2) by (simp add: list_contract_def)
  then have own: "map content (detached copy y l xs) = map content xs" for l xs by (simp add: detached_def)
  show ?thesis
  proof (cases c)
    case New
    from ListNew_ok [OF cow, of True] obtain h' y' where
      "ListNew h cmp (Some copy) True = Ok (lh_fresh h, h')" "m (lh_fresh h) = None" "cow h' cmp copy (m(lh_fresh h \<mapsto> [])) y'" by blast
    then show ?thesis using New st agrees_snoc [OF ag, of "lh_fresh h" "[]"] simulatesI [of h' cmp copy _ y' content] by simp
  next
    case (Append i x)
    show ?thesis
    proof (cases "entry hs i")
      case (Some l)
      with at obtain xs where xs: "entry vs i = Some (map content xs)" "m l = Some xs" by blast
      from ListAppend_ok [OF cow xs(2), of x] obtain h' y' where
        "ListAppend h (Ptr l) (Ptr x) = Ok (0, h')" "cow h' cmp copy (m(l \<mapsto> detached copy y l xs @ [x])) y'" by blast
      then show ?thesis using Append st Some xs(1) own agrees_update [OF ag Some] simulatesI [of h' cmp copy _ y' content] by simp
    qed (use Append st none cow ag simulatesI in auto)
  next
    case (Prepend i x)
    show ?thesis
    proof (cases "entry hs i")
      case (Some l)
      with at obtain xs where xs: "entry vs i = Some (map content xs)" "m l = Some xs" by blast
      from ListPrepend_ok [OF cow xs(2), of x] obtain h' y' where
        "ListPrepend h (Ptr l) (Ptr x) = Ok (0, h')" "cow h' cmp copy (m(l \<mapsto> x # detached copy y l xs)) y'" by blast
      then show ?thesis using Prepend st Some xs(1) own agrees_update [OF ag Some] simulatesI [of h' cmp copy _ y' content] by simp
    qed (use Prepend st none cow ag simulatesI in auto)
  next
    case (Remove i x)
    then have eq: "equal_payload cmp x z \<longleftrightarrow> same (content z) (content x)" for z using assms(2) by (simp add: list_contract_def)
    show ?thesis
    proof (cases "entry hs i")
      case (Some l)
      with at obtain xs where xs: "entry vs i = Some (map content xs)" "m l = Some xs" by blast
      have keep: "equal_payload cmp x (copy z) = equal_payload cmp x z" for z using eq assms(2) by (simp add: list_contract_def)
      from ListRemove_ok [OF cow xs(2) keep] obtain gone h' y' zs where
        h': "ListRemove h (Ptr l) (Ptr x) = Ok (if \<exists>z \<in> set xs. same (content z) (content x) then 0 else - 1, gone, h')"
          "zs \<in> {xs, map copy xs}" "cow h' cmp copy (m(l \<mapsto> remove_first (equal_payload cmp x) zs)) y'" by (auto simp: eq)
      have "map content (remove_first (equal_payload cmp x) zs) = remove_first (\<lambda>v. same v (content x)) (map content zs)"
        by (simp add: eq [abs_def] map_remove_first [of content "\<lambda>v. same v (content x)"])
      also have "map content zs = map content xs" using h'(2) copies by auto
      finally show ?thesis
        using Remove st Some xs(1) h'(1) agrees_update [OF ag Some] simulatesI [OF h'(3), of content] by simp
    qed (use Remove st none cow ag simulatesI in auto)
  next
    case (Copy i)
    show ?thesis
    proof (cases "entry hs i")
      case (Some l)
      with at obtain xs where xs: "entry vs i = Some (map content xs)" "m l = Some xs" by blast
      from ListCopy_ok [OF cow xs(2)] obtain h' y' where
        "ListCopy h (Ptr l) = Ok (0, Ptr (lh_fresh h), h')" "m (lh_fresh h) = None" "cow h' cmp copy (m(lh_fresh h \<mapsto> xs)) y'" by blast
      then show ?thesis
        using Copy st Some xs(1) agrees_snoc [OF ag, of "lh_fresh h"] simulatesI [of h' cmp copy _ y' content] by simp
    qed (use Copy st none cow ag simulatesI in auto)
  next
    case (Destroy i)
    show ?thesis
    proof (cases "entry hs i")
      case None
      then have "entry vs i = None" "length vs = length hs" using none ag by (auto simp: agrees_def)
      then have "vs[i := None] = vs" by (cases "i < length vs") (simp_all add: entry_def list_update_same_conv list_update_beyond)
      then show ?thesis using None Destroy st cow ag simulatesI by auto
    next
      case (Some l)
      with at obtain xs where xs: "m l = Some xs" by blast
      from ListDestroy_ok [OF cow xs] obtain gone h' y' where
        "ListDestroy h (Ptr l) = Ok (gone, h')" "cow h' cmp copy (m(l := None)) y'" by blast
      then show ?thesis using Destroy st Some agrees_destroy [OF ag Some] simulatesI [of h' cmp copy _ y' content] by simp
    qed
  qed
qed

lemma calls_simulate:
  "simulates cmp copy content st vs \<Longrightarrow> \<forall>c \<in> set cs. list_contract cmp copy content same c \<Longrightarrow>
   \<exists>st'. calls cmp copy cs st = Ok (fst (value_calls same (map (map_list_op content) cs) vs), st')
     \<and> simulates cmp copy content st' (snd (value_calls same (map (map_list_op content) cs) vs))"
proof (induction cs arbitrary: st vs)
  case Nil
  then show ?case by (cases st) auto
next
  case (Cons c cs)
  let ?c = "map_list_op content c" and ?cs = "map (map_list_op content) cs"
  from call_simulates [OF Cons.prems(1), of same c] Cons.prems(2) obtain st1 where
    st1: "call cmp copy c st = Ok (fst (value_call same ?c vs), st1)" "simulates cmp copy content st1 (snd (value_call same ?c vs))" by auto
  from Cons.IH [OF st1(2)] Cons.prems(2) obtain st2 where
    "calls cmp copy cs st1 = Ok (fst (value_calls same ?cs (snd (value_call same ?c vs))), st2)"
    "simulates cmp copy content st2 (snd (value_calls same ?cs (snd (value_call same ?c vs))))" by auto
  then show ?case using st1(1) by (auto simp: Let_def split_def)
qed

text \<open>The contents of the elements of a list, read through its links, and its count.\<close>

definition value_contents :: "('a \<Rightarrow> 'v) \<Rightarrow> 'a lheap \<Rightarrow> addr \<Rightarrow> ('v ptr list \<times> int) res" where
  "value_contents content h l = bindE (contents h l) (\<lambda>(ps, n). Ok (map (map_option content) ps, n))"

lemma simulates_contents:
  assumes "simulates cmp copy content (hs, h) vs"
  shows "map (map_option (value_contents content h)) hs = map (map_option (\<lambda>xs. Ok (map Ptr xs, int (length xs)))) vs"
proof -
  from assms obtain m y where cow: "cow h cmp copy m y" and ag: "agrees (values_of content m) hs vs" by (auto simp: simulates_def)
  show ?thesis
  proof (rule nth_equalityI)
    fix i assume i: "i < length (map (map_option (value_contents content h)) hs)"
    show "map (map_option (value_contents content h)) hs ! i = map (map_option (\<lambda>xs. Ok (map Ptr xs, int (length xs)))) vs ! i"
    proof (cases "hs ! i")
      case (Some l)
      with ag i obtain xs where "vs ! i = Some (map content xs)" "m l = Some xs" using agreesD(2) [OF ag, of i] by auto
      then show ?thesis using agreesD(1) [OF ag] i Some contents_ok [OF cowD(1) [OF cow]] by (simp add: value_contents_def)
    next
      case None
      then show ?thesis using agreesD(1) [OF ag] agreesD(2) [OF ag, of i] i by simp
    qed
  qed (use agreesD(1) [OF ag] in simp)
qed

lemma simulates_empty: "simulates cmp copy content ([], lheap_empty) []"
  unfolding simulates_def agrees_def cow_def by (intro exI [of _ Map.empty]) simp

text \<open>
  C36: copy on write. The copy function returns an element with the same content, and the comparison function
  compares contents (without one, ListRemove matches pointers, and is not called here). Then every program of list
  operations runs without a fault, whatever lists share their nodes on the way, and leaves every list, read through
  its links, with the contents and the count it has when each copy is a list of its own; the codes are those of
  the plain lists too.
\<close>

theorem List_copy_on_write:
  assumes "\<And>x. content (copy x) = content x"
    and "\<And>f x y. cmp = Some f \<Longrightarrow> f (Ptr x) (Ptr y) = 0 \<longleftrightarrow> same (content x) (content y)"
    and "cmp = None \<Longrightarrow> \<forall>c \<in> set cs. \<not> removes c"
  shows "\<exists>hs h. calls cmp copy cs ([], lheap_empty) = Ok (fst (value_calls same (map (map_list_op content) cs) []), hs, h)
     \<and> map (map_option (value_contents content h)) hs
       = map (map_option (\<lambda>xs. Ok (map Ptr xs, int (length xs)))) (snd (value_calls same (map (map_list_op content) cs) []))"
proof -
  have "\<forall>c \<in> set cs. list_contract cmp copy content same c"
    using assms by (cases cmp) (auto simp: list_contract_def equal_payload_def)
  from calls_simulate [OF simulates_empty this] obtain hs h where
    "calls cmp copy cs ([], lheap_empty) = Ok (fst (value_calls same (map (map_list_op content) cs) []), hs, h)"
    "simulates cmp copy content (hs, h) (snd (value_calls same (map (map_list_op content) cs) []))" by force
  then show ?thesis using simulates_contents by blast
qed

text \<open>Elements as pairs of an address and a content; the copy has another address.\<close>

theorem List_copy_on_write_witness:
  "\<exists>hs h. calls (Some (\<lambda>x y. snd (the x) - snd (the y))) (\<lambda>(a, v). (a + 100, v))
       [New, Append 0 (1 :: nat, 7), Append 0 (2, 8), Copy 0, Remove 1 (9, 7), Prepend 0 (3, 6)] ([], lheap_empty)
     = Ok ([0, 0, 0, 0, 0, 0], hs, h)
   \<and> map (map_option (value_contents snd h)) hs = [Some (Ok ([Ptr 6, Ptr 7, Ptr 8], 3)), Some (Ok ([Ptr 8], 1))]"
proof -
  let ?copy = "\<lambda>(a :: nat, v :: int). (a + 100, v)"
  let ?cmp = "Some (\<lambda>x y. snd (the x) - snd (the y)) :: ((nat \<times> int) ptr \<Rightarrow> (nat \<times> int) ptr \<Rightarrow> int) option"
  let ?cs = "[New, Append 0 (1, 7), Append 0 (2, 8), Copy 0, Remove 1 (9, 7), Prepend 0 (3, 6)] :: (nat \<times> int) list_op list"
  have run: "value_calls (=) (map (map_list_op snd) ?cs) [] = ([0, 0, 0, 0, 0, 0], [Some [6, 7, 8], Some [8]])" by code_simp
  have "\<exists>hs h. calls ?cmp ?copy ?cs ([], lheap_empty) = Ok (fst (value_calls (=) (map (map_list_op snd) ?cs) []), hs, h)
     \<and> map (map_option (value_contents snd h)) hs
       = map (map_option (\<lambda>xs. Ok (map Ptr xs, int (length xs)))) (snd (value_calls (=) (map (map_list_op snd) ?cs) []))"
    by (rule List_copy_on_write) auto
  then show ?thesis unfolding run by (simp del: calls.simps)
qed

section \<open>Removal by pointer from a shared list\<close>

lemma calls_append:
  "calls cmp copy (cs @ ds) st
     = bindE (calls cmp copy cs st) (\<lambda>(rs, st'). bindE (calls cmp copy ds st') (\<lambda>(rs', st''). Ok (rs @ rs', st'')))"
proof (induction cs arbitrary: st)
  case Nil
  then show ?case by (cases st) (simp add: split_def)
next
  case (Cons c cs)
  then show ?case by (cases "call cmp copy c st") (auto simp: split_def bindE_assoc)
qed

lemma Append_calls:
  "cow h cmp copy m y \<Longrightarrow> m l = Some ys \<Longrightarrow> exclusive y l \<Longrightarrow>
   \<exists>h' m' y'. calls cmp copy (map (Append 0) xs) ([Some l], h) = Ok (replicate (length xs) 0, [Some l], h')
     \<and> cow h' cmp copy m' y' \<and> m' l = Some (ys @ xs) \<and> exclusive y' l"
proof (induction xs arbitrary: h m y ys)
  case (Cons x xs)
  from ListAppend_ok [OF Cons.prems(1,2), of x] Cons.prems(3) obtain h1 y1 where
    h1: "ListAppend h (Ptr l) (Ptr x) = Ok (0, h1)" "cow h1 cmp copy (m(l \<mapsto> ys @ [x])) y1" "exclusive y1 l"
    by (auto simp: detached_def)
  from Cons.IH [OF h1(2) _ h1(3), of "ys @ [x]"] show ?case using h1(1) by (auto simp: entry_def)
qed auto

text \<open>
  C37: without a comparison function ListRemove looks for the pointer it is given, first in the list as it is and,
  once the list is detached, again. When the list has been copied, the second search runs over the copied elements:
  ListRemove of any element of a copied list, or of its copy, fails the assertion that the comment in the code calls
  nearly impossible, for every list of elements and every copy function that returns new elements.
\<close>

theorem ListRemove_shared_aborts:
  assumes "x \<in> set xs" "x \<notin> copy ` set xs" "i < 2"
  shows "calls None copy (New # map (Append 0) xs @ [Copy 0, Remove i x]) ([], lheap_empty) = Fault AssertFail"
proof -
  let ?e = "lheap_empty :: 'a lheap"
  have "cow ?e None copy Map.empty undefined" unfolding cow_def by simp
  from ListNew_ok [OF this, of True] obtain h0 y0 where
    h0: "ListNew ?e None (Some copy) True = Ok (lh_fresh ?e, h0)" "cow h0 None copy [lh_fresh ?e \<mapsto> []] y0" "exclusive y0 (lh_fresh ?e)"
    by blast
  let ?l = "lh_fresh ?e"
  from Append_calls [OF h0(2) _ h0(3), of "[]" xs] obtain h1 m y where
    h1: "calls None copy (map (Append 0) xs) ([Some ?l], h0) = Ok (replicate (length xs) 0, [Some ?l], h1)"
      "cow h1 None copy m y" "m ?l = Some xs" by auto
  from ListCopy_ok [OF h1(2,3)] obtain h2 y2 where
    h2: "ListCopy h1 (Ptr ?l) = Ok (0, Ptr (lh_fresh h1), h2)" "m (lh_fresh h1) = None"
      "cow h2 None copy (m(lh_fresh h1 \<mapsto> xs)) y2" "\<not> exclusive y2 ?l" "\<not> exclusive y2 (lh_fresh h1)" by blast
  define k where "k = (if i = 0 then ?l else lh_fresh h1)"
  have k: "entry [Some ?l, Some (lh_fresh h1)] i = Some k" using assms(3) by (auto simp: entry_def k_def less_Suc_eq numeral_2_eq_2)
  have "(m(lh_fresh h1 \<mapsto> xs)) k = Some xs" "\<not> exclusive y2 k" using h1(3) h2(4,5) by (auto simp: k_def)
  from ListRemove_lost [OF h2(3) this(1), of x] this(2) assms(1,2) have "ListRemove h2 (Ptr k) (Ptr x) = Fault AssertFail"
    by (auto simp: equal_payload_def detached_def)
  then show ?thesis using h0(1) h1(1) h2(1) k by (simp add: calls_append) (simp add: entry_def)
qed

theorem ListRemove_shared_aborts_witness:
  "calls None (\<lambda>x. x + 10) [New, Append 0 (1 :: nat), Append 0 2, Copy 0, Remove 1 2] ([], lheap_empty) = Fault AssertFail"
  using ListRemove_shared_aborts [of 2 "[1, 2 :: nat]" "\<lambda>x. x + 10" 1] by (simp del: calls.simps)

text \<open>
  Mutable iterators break copy on write too. After ListCopy the iterator of the origin still points at the
  nodes both lists share; ListMutableIteratorAppend detaches the origin and then links the new node
  into the nodes of the copy: the origin counts three nodes and has two, the copy counts two and has three.
\<close>

lemma ListMutableIteratorAppend_changes_copy:
  "bindE (ListNew lheap_empty None (Some id) False) (\<lambda>(l, h).
   bindE (ListAppend h (Ptr l) (Ptr (1 :: nat))) (\<lambda>(_, h).
   bindE (ListAppend h (Ptr l) (Ptr 2)) (\<lambda>(_, h).
   bindE (ListMutableIteratorGet h (Ptr l)) (\<lambda>(it, h).
   bindE (ListCopy h (Ptr l)) (\<lambda>(_, d, h).
   bindE (ListMutableIteratorAppend h it (Ptr 7)) (\<lambda>(code, _, h).
   bindE (contents h l) (\<lambda>origin.
   bindE (contents h (the d)) (\<lambda>copy. Ok (code, origin, copy)))))))))
   = Ok (0, ([Ptr 1, Ptr 2], 3), ([Ptr 1, Ptr 7, Ptr 2], 2))"
  by code_simp

end
