(* ===== verification/Spec2Isabelle.thy ===== *)
theory Spec2Isabelle
  imports MustacheText RbUse IpGroups JsonObjects SequenceSort RingBuffer StackLib QueueLib ThreadedLive SetLib CsvLib VersionLib StringNumbers WriterLib BufferLib
    ListValues
begin

text \<open>
  A verification of the library libntech (src/libutils): its containers, its strings and buffers, and the
  formats it reads and writes. The definitions follow the C code function by function and keep its names;
  what is proved of them is listed below, theory by theory.

  \<^bold>\<open>How C is modelled.\<close> Theory \<open>Prelude\<close> fixes the vocabulary. An operation returns \<open>Ok\<close> with its results and
  the new state or a \<open>Fault\<close>: a NULL pointer followed, an access outside a block, a failed assertion, a
  counter that wraps, a process that exits. Heap blocks are lists of cells with checked reads and writes
  (\<open>xmalloc\<close>, \<open>xcalloc\<close> and \<open>xrealloc\<close> of alloc.c give them; allocation succeeds, since the code ends the
  process otherwise). Structures with pointers between nodes live in an explicit store, a map from
  addresses to records, with a source of fresh addresses (\<open>Nodes\<close>). Pointers are \<open>NULL\<close> or \<open>Ptr\<close>. Integers
  that matter by their width are words or are reduced modulo their range (\<open>size_t\<close> arithmetic of powers of
  two, hash values, \<open>long\<close> and \<open>int\<close> conversions, octets and groups of addresses); lengths and indices of
  blocks are \<open>nat\<close> and the places where the code lets them wrap are faults. A C string is the list of its
  characters before the NUL. Callbacks (comparison, equality, hash, destructors, JSON lookup) are arguments, and
  what is released is returned, so that ownership can be stated.

  \<^bold>\<open>Containers.\<close>
  \<^item> sequence.c: \<open>Sequence\<close> (all operations; programs of them behave as lists and destroy every item exactly
    once) and \<open>SequenceSort\<close> (the quicksort returns a sorted permutation and stays inside its block for every
    total preorder; binary search finds what is there).
  \<^item> ring_buffer.c, stack.c, stack_base.c, threaded_stack.c, queue.c: \<open>RingBuffer\<close>, \<open>StackLib\<close>, \<open>QueueLib\<close>, on circular
    arrays (\<open>Circular\<close>), growing arrays and linked nodes.
  \<^item> mutex.c, threaded_queue.c, threaded_deque.c: \<open>Monitor\<close> is the step relation of any number of threads that take a lock,
    run a critical section, wait and time out; \<open>ThreadedQueue\<close> and \<open>ThreadedDeque\<close> give the critical sections and
    show them linearizable to lists. \<open>Signals\<close> and \<open>ThreadedLive\<close> add the condition variables, whose waits may time out
    also after a signal: all work ends and no wake-up is lost when items are pushed one by one and pops have no finite
    time-out, one is lost by ThreadedQueuePushN, and one by a pop that times out.
  \<^item> map_common.h, array_map.c, hash_map.c, map.c, set.c: \<open>MapCommon\<close>, \<open>ArrayMap\<close>, \<open>HashMap\<close>, \<open>MapLib\<close>, \<open>SetLib\<close>. Maps answer with
    the value stored last, through the conversion from array to table and every resizing, and release every key and
    value once.
  \<^item> rb-tree.c: \<open>RbTree\<close> is the code on a store of nodes with its two sentinels. \<open>RbZipper\<close> relates positions in the store to
    zippers over trees, \<open>RbPut\<close> and \<open>RbRemove\<close> follow PutFix and RemoveFix, \<open>RbMap\<close> and \<open>RbErase\<close> the whole operations,
    \<open>RbStore\<close> shows the tree to be a key/value store, \<open>RbIter\<close> and \<open>RbUse\<close> treat iteration, copies and programs.
  \<^item> list.c, refcount.c: \<open>ListLib\<close>, \<open>ListCow\<close>, \<open>ListValues\<close>: lists that share nodes behave as values when elements are compared
    by content, apart from one defect of the mutable iterator; removal by pointer from a shared list aborts.

  \<^bold>\<open>Text and formats.\<close>
  \<^item> string_lib.c, path.c, version_comparison.c: \<open>StringLib\<close>, \<open>CLib\<close> (the C library functions used), \<open>StringText\<close>, \<open>StringBuf\<close>,
    \<open>StringNumbers\<close>, \<open>VersionLib\<close>.
  \<^item> misc_lib.c, buffer.c, writer.c, xml_writer.c: \<open>MiscLib\<close>, \<open>BufferLib\<close>, \<open>WriterLib\<close>.
  \<^item> csv_parser.c, csv_writer.c: \<open>CsvLib\<close>, with the round trip of documents.
  \<^item> ip_address.c: \<open>IpAddress\<close> (the parsers as the state machines they are), \<open>IpParsing\<close>, \<open>IpGroups\<close>.
  \<^item> json.c: \<open>JsonLib\<close> and \<open>JsonOps\<close> (elements and what is done with them), \<open>JsonText\<close> (both printers), \<open>JsonParser\<close>. \<open>JsonTotal\<close>:
    the parser returns on every text and its elements are well formed. \<open>JsonGrammar\<close>: it reads every text of a grammar
    that does not mention the code as the element the grammar says. \<open>JsonRoundTrip\<close>: what is printed is a text of the grammar. \<open>JsonObjects\<close>: objects as
    maps, copies, merges.
  \<^item> mustache.c: \<open>Mustache\<close> (the code), \<open>MustachePaths\<close> (tags, and paths into the document, by a small logic of results),
    \<open>MustacheTotal\<close> (rendering ends, and the faults it can meet), \<open>MustacheText\<close> (what is rendered is the reference meaning
    of the template).

  \<^bold>\<open>Interfaces.\<close> A locale states what clients rely on, and is interpreted on the model of each provider.
  \<^item> \<open>appendable\<close>, \<open>lifo\<close> and \<open>fifo\<close> (\<open>Prelude\<close>): \<open>seq\<close> on sequences, \<open>stk\<close> and \<open>tstk\<close> on the stacks, \<open>que\<close> on the linked queue.
  \<^item> \<open>kv_store\<close> (\<open>MapCommon\<close>): \<open>hm\<close> on hash tables, \<open>mp\<close> on maps, \<open>rb\<close> on red-black trees; what holds after any sequence of
    insertions and removals is proved once.
  \<^item> \<open>comparator\<close> (\<open>SequenceSort\<close>): \<open>strs\<close> on string comparison, \<open>keys\<close> on the order of the members of a JSON object.
  \<^item> \<open>locked_object\<close> (\<open>Monitor\<close>) and its extension \<open>signalled_buffer\<close> (\<open>Signals\<close>): \<open>tq\<close>, \<open>td\<close>, \<open>tqs\<close> and \<open>tds\<close> on the threaded queue and
    deque.
  \<^item> \<open>json_lookup\<close> (\<open>JsonTotal\<close>): the lookup callback of the parser, \<open>no_lookup\<close> where it is absent. \<open>json_printer\<close>
    (\<open>JsonRoundTrip\<close>): \<open>pretty\<close> and \<open>compact\<close>.

  \<^bold>\<open>Fuel.\<close> Loops that are not structural take fuel, and the operations that call them give enough: walks over linked
  nodes the number of addresses handed out, since the nodes of a chain are distinct; the red-black tree its
  number of addresses for every walk up or down; the JSON printers the depth of the element; the JSON parser twice the
  length of the text plus two, since every two rounds consume a character; Render the length of the template
  plus two, since tags are not empty. That the fuel is enough is part of the theorems: \<open>OutOfFuel\<close> is a fault, and they
  state an \<open>Ok\<close> result, or that this fault does not occur.

  \<^bold>\<open>What is not modelled.\<close> Functions that only release memory; printing of statistics; printf-like formatting, where
  the formatted text is an argument, and floating-point numbers, whose text is a parameter; regular expressions
  (PCRE2), digests (OpenSSL), YAML (libyaml); files, directories, processes and logging, which are
  system calls (file_lib.c, unix_dir.c, fsattrs.c, known_dirs.c, passopenfile.c, logging.c, man.c, cleanup.c, glob_lib.c, string_sequence.c, proc_keyvalue.c); the
  replacements of libc functions in src/libcompat.
\<close>

end
